(* ===== verification/Ppsc_Prelude.thy ===== *)
theory Ppsc_Prelude
  imports Main "HOL-Library.Word"
begin

text \<open>
  Shared vocabulary of the development: machine integers and byte strings, the outcome type of
  fallible Rust code, and the generic lemmas on it.

  \<^item> \<open>res\<close> has three constructors: \<open>Ok\<close> and \<open>Err\<close> are Rust's \<open>Result\<close>; \<open>Panic\<close> is the
    abort of an \<open>unwrap\<close>/\<open>expect\<close>, an index out of range, a division by a non-invertible field
    element or an arithmetic overflow that the debug profile traps.
  \<^item> \<open>bindR\<close> is the \<open>?\<close> operator, \<open>mapR\<close> is \<open>iter().map(f).collect::<Result<Vec<_>,_>>()\<close>,
    \<open>foldR\<close> is a \<open>for\<close> loop over a slice whose body may return early.
  \<^item> \<open>be_bytes\<close>/\<open>be_value\<close> and \<open>le_value\<close> are \<open>to_be_bytes\<close>, \<open>from_be_bytes\<close> and
    \<open>from_le_bytes\<close> of the unsigned integers.
\<close>

type_synonym u8 = "8 word"
type_synonym u32 = "32 word"
type_synonym u64 = "64 word"
type_synonym u128 = "128 word"
type_synonym bytes = "u8 list"

named_theorems res_simps \<open>equations that run the outcome monad\<close>
named_theorems res_dest \<open>what a successful outcome says about its parts\<close>

section \<open>Outcomes\<close>

datatype ('e, 'a) res = Ok (the_ok: 'a) | Err 'e | Panic

primrec bindR :: "('e, 'a) res \<Rightarrow> ('a \<Rightarrow> ('e, 'b) res) \<Rightarrow> ('e, 'b) res" where
  "bindR (Ok x) f = f x"
| "bindR (Err e) f = Err e"
| "bindR Panic f = Panic"

primrec mapE :: "('e \<Rightarrow> 'd) \<Rightarrow> ('e, 'a) res \<Rightarrow> ('d, 'a) res" where
  "mapE h (Ok x) = Ok x"
| "mapE h (Err e) = Err (h e)"
| "mapE h Panic = Panic"

primrec mapR :: "('a \<Rightarrow> ('e, 'b) res) \<Rightarrow> 'a list \<Rightarrow> ('e, 'b list) res" where
  "mapR f [] = Ok []"
| "mapR f (x # xs) = bindR (f x) (\<lambda>y. bindR (mapR f xs) (\<lambda>ys. Ok (y # ys)))"

primrec foldR :: "('a \<Rightarrow> 's \<Rightarrow> ('e, 's) res) \<Rightarrow> 'a list \<Rightarrow> 's \<Rightarrow> ('e, 's) res" where
  "foldR f [] s = Ok s"
| "foldR f (x # xs) s = bindR (f x s) (foldR f xs)"

text \<open>Indexing a slice panics out of range; \<open>ok_or\<close> turns a missing value into an error.\<close>

definition nthR :: "'a list \<Rightarrow> nat \<Rightarrow> ('e, 'a) res" where
  "nthR xs i = (if i < length xs then Ok (xs ! i) else Panic)"

primrec ok_or :: "'e \<Rightarrow> 'a option \<Rightarrow> ('e, 'a) res" where
  "ok_or e None = Err e"
| "ok_or e (Some x) = Ok x"

primrec expectR :: "'a option \<Rightarrow> ('e, 'a) res" where
  "expectR None = Panic"
| "expectR (Some x) = Ok x"

definition ensure :: "bool \<Rightarrow> 'e \<Rightarrow> ('e, unit) res" where
  "ensure b e = (if b then Ok () else Err e)"

definition is_ok :: "('e, 'a) res \<Rightarrow> bool" where
  "is_ok r = (case r of Ok _ \<Rightarrow> True | _ \<Rightarrow> False)"

lemma is_ok_simps [simp]: "is_ok (Ok x)" "\<not> is_ok (Err e)" "\<not> is_ok Panic"
  by (simp_all add: is_ok_def)

lemma bindR_eq_Ok [simp]: "(bindR m f = Ok y) \<longleftrightarrow> (\<exists>x. m = Ok x \<and> f x = Ok y)"
  by (cases m) auto

lemma bindR_eq_Err: "(bindR m f = Err e) \<longleftrightarrow> m = Err e \<or> (\<exists>x. m = Ok x \<and> f x = Err e)"
  by (cases m) auto

lemma bindR_eq_Panic: "(bindR m f = Panic) \<longleftrightarrow> m = Panic \<or> (\<exists>x. m = Ok x \<and> f x = Panic)"
  by (cases m) auto

lemma bindR_cong [fundef_cong]:
  "m = m' \<Longrightarrow> (\<And>x. m' = Ok x \<Longrightarrow> f x = f' x) \<Longrightarrow> bindR m f = bindR m' f'"
  by (cases m') auto

lemma bindR_Ok_right [simp]: "bindR m Ok = m"
  by (cases m) auto

lemma bindR_assoc: "bindR (bindR m f) g = bindR m (\<lambda>x. bindR (f x) g)"
  by (cases m) auto

lemma mapE_eq_Ok [simp]: "(mapE h m = Ok y) \<longleftrightarrow> m = Ok y"
  by (cases m) auto

lemma ensure_eq_Ok [simp]: "(ensure b e = Ok u) \<longleftrightarrow> b"
  by (simp add: ensure_def)

lemma ensure_True [simp, res_simps]: "ensure True e = Ok ()"
  by (simp add: ensure_def)

lemma ensure_False [simp, res_simps]: "ensure False e = Err e"
  by (simp add: ensure_def)

lemma ensure_eq_Panic [simp]: "ensure b e \<noteq> Panic"
  by (simp add: ensure_def)

lemma ok_or_eq_Ok [simp]: "(ok_or e m = Ok x) \<longleftrightarrow> m = Some x"
  by (cases m) auto

lemma ok_or_eq_Panic [simp]: "ok_or e m \<noteq> Panic"
  by (cases m) auto

lemma expectR_eq_Ok [simp]: "(expectR m = Ok x) \<longleftrightarrow> m = Some x"
  by (cases m) auto

lemma nthR_eq_Ok [simp]: "(nthR xs i = Ok x) \<longleftrightarrow> i < length xs \<and> x = xs ! i"
  by (auto simp: nthR_def)

lemma nthR_in_range [res_simps]: "i < length xs \<Longrightarrow> nthR xs i = Ok (xs ! i)"
  by (simp add: nthR_def)

lemma mapR_Ok [res_simps]:
  "(\<And>x. x \<in> set xs \<Longrightarrow> f x = Ok (g x)) \<Longrightarrow> mapR f xs = Ok (map g xs)"
  by (induction xs) auto

lemma mapR_eq_Ok_iff: "(mapR f xs = Ok ys) \<longleftrightarrow> list_all2 (\<lambda>x y. f x = Ok y) xs ys"
  by (induction xs arbitrary: ys) (auto simp: list_all2_Cons1)

lemma mapR_length [res_dest]: "mapR f xs = Ok ys \<Longrightarrow> length ys = length xs"
  by (auto simp: mapR_eq_Ok_iff dest: list_all2_lengthD)

lemma mapR_not_Panic: "(\<And>x. x \<in> set xs \<Longrightarrow> f x \<noteq> Panic) \<Longrightarrow> mapR f xs \<noteq> Panic"
  by (induction xs) (auto simp: bindR_eq_Panic)

lemma mapR_Err: "mapR f xs = Err e \<Longrightarrow> \<exists>x \<in> set xs. f x = Err e"
  by (induction xs) (auto simp: bindR_eq_Err)

lemma foldR_Ok [res_simps]:
  "(\<And>x s. x \<in> set xs \<Longrightarrow> f x s = Ok (g x s)) \<Longrightarrow> foldR f xs s = Ok (fold g xs s)"
  by (induction xs arbitrary: s) auto

lemma foldR_append: "foldR f (xs @ ys) s = bindR (foldR f xs s) (foldR f ys)"
  by (induction xs arbitrary: s) (auto simp: bindR_assoc intro: bindR_cong)

lemma foldR_invariant:
  assumes "\<And>x s s'. x \<in> set xs \<Longrightarrow> P s \<Longrightarrow> f x s = Ok s' \<Longrightarrow> P s'" and "P s" and "foldR f xs s = Ok s'"
  shows "P s'"
  using assms by (induction xs arbitrary: s) auto

lemma foldR_cong [fundef_cong]:
  "xs = ys \<Longrightarrow> s = t \<Longrightarrow> (\<And>x s. x \<in> set ys \<Longrightarrow> f x s = g x s) \<Longrightarrow> foldR f xs s = foldR g ys t"
  by (induction xs arbitrary: ys s t) (auto intro!: bindR_cong)

text \<open>The \<open>?\<close> operator on an effectful call.\<close>

definition then_do ::
  "('e, 'a) res \<times> 'w \<Rightarrow> ('a \<Rightarrow> 'w \<Rightarrow> ('e, 'b) res \<times> 'w) \<Rightarrow> ('e, 'b) res \<times> 'w"
where
  "then_do m f = (case m of (Ok x, w) \<Rightarrow> f x w | (Err e, w) \<Rightarrow> (Err e, w) | (Panic, w) \<Rightarrow> (Panic, w))"

lemma then_do_simps [simp]:
  "then_do (Ok x, w) f = f x w" "then_do (Err e, w) f = (Err e, w)" "then_do (Panic, w) f = (Panic, w)"
  by (simp_all add: then_do_def)

section \<open>Checked machine arithmetic\<close>

lemma unat_bound: "unat (w :: 'a::len word) < 2 ^ LENGTH('a)"
  by (rule unsigned_less)

definition checked_add :: "'a::len word \<Rightarrow> 'a word \<Rightarrow> 'a word option" where
  "checked_add a b = (if unat a + unat b < 2 ^ LENGTH('a) then Some (a + b) else None)"

definition checked_sub :: "'a::len word \<Rightarrow> 'a word \<Rightarrow> 'a word option" where
  "checked_sub a b = (if b \<le> a then Some (a - b) else None)"

lemma checked_add_Some: "checked_add a b = Some c \<longleftrightarrow> unat c = unat a + unat b"
proof
  assume "checked_add a b = Some c"
  then have "unat a + unat b < 2 ^ LENGTH('a)" "c = a + b"
    by (auto simp: checked_add_def split: if_splits)
  then show "unat c = unat a + unat b" by (simp add: unat_word_ariths)
next
  assume c: "unat c = unat a + unat b"
  then have lt: "unat a + unat b < 2 ^ LENGTH('a)" using unat_bound [of c] by simp
  then have "unat (a + b) = unat c" using c by (simp add: unat_word_ariths)
  then have "c = a + b" by (simp add: word_unat_eq_iff)
  with lt show "checked_add a b = Some c" by (simp add: checked_add_def)
qed

lemma checked_add_None: "checked_add a b = None \<longleftrightarrow> 2 ^ LENGTH('a) \<le> unat a + unat (b :: 'a::len word)"
  by (simp add: checked_add_def not_less)

lemma checked_sub_Some: "checked_sub a b = Some c \<longleftrightarrow> unat c + unat b = unat a"
proof
  assume "checked_sub a b = Some c"
  then have "b \<le> a" "c = a - b" by (auto simp: checked_sub_def split: if_splits)
  then show "unat c + unat b = unat a" by (simp add: unat_sub word_le_nat_alt)
next
  assume c: "unat c + unat b = unat a"
  then have le: "b \<le> a" by (simp add: word_le_nat_alt)
  then have "unat (a - b) = unat c" using c by (simp add: unat_sub word_le_nat_alt)
  then have "c = a - b" by (simp add: word_unat_eq_iff)
  with le show "checked_sub a b = Some c" by (simp add: checked_sub_def)
qed

lemma checked_sub_None: "checked_sub a b = None \<longleftrightarrow> unat a < unat b"
  by (simp add: checked_sub_def word_le_nat_alt not_le)

lemma checked_add_cases:
  fixes a b :: "'a::len word"
  obtains (fits) c where "checked_add a b = Some c" "unat a + unat b < 2 ^ LENGTH('a)" "unat c = unat a + unat b"
        | (over) "checked_add a b = None" "2 ^ LENGTH('a) \<le> unat a + unat b"
proof (cases "checked_add a b")
  case None
  then show ?thesis using over by (simp add: checked_add_None)
next
  case (Some c)
  then show ?thesis using fits [OF Some] unat_bound [of c] by (simp add: checked_add_Some)
qed

section \<open>Byte strings of integers\<close>

primrec le_value :: "bytes \<Rightarrow> nat" where
  "le_value [] = 0"
| "le_value (b # bs) = unat b + 256 * le_value bs"

definition be_value :: "bytes \<Rightarrow> nat" where
  "be_value bs = le_value (rev bs)"

primrec le_bytes_nat :: "nat \<Rightarrow> nat \<Rightarrow> bytes" where
  "le_bytes_nat 0 n = []"
| "le_bytes_nat (Suc k) n = of_nat (n mod 256) # le_bytes_nat k (n div 256)"

definition be_bytes_nat :: "nat \<Rightarrow> nat \<Rightarrow> bytes" where
  "be_bytes_nat k n = rev (le_bytes_nat k n)"

definition u128_be :: "u128 \<Rightarrow> bytes" where
  "u128_be a = be_bytes_nat 16 (unat a)"

definition u128_of_be :: "bytes \<Rightarrow> u128" where
  "u128_of_be bs = of_nat (be_value bs)"

definition u64_be :: "u64 \<Rightarrow> bytes" where
  "u64_be a = be_bytes_nat 8 (unat a)"

lemma length_le_bytes_nat [simp]: "length (le_bytes_nat k n) = k"
  by (induction k arbitrary: n) auto

lemma length_be_bytes_nat [simp]: "length (be_bytes_nat k n) = k"
  by (simp add: be_bytes_nat_def)

lemma length_u128_be [simp]: "length (u128_be a) = 16"
  by (simp add: u128_be_def)

lemma length_u64_be [simp]: "length (u64_be a) = 8"
  by (simp add: u64_be_def)

lemma le_value_le_bytes: "le_value (le_bytes_nat k n) = n mod 256 ^ k"
proof (induction k arbitrary: n)
  case (Suc k)
  have "unat (of_nat (n mod 256) :: u8) = n mod 256"
    by (simp add: unat_of_nat)
  moreover have "n mod (256 * 256 ^ k) = 256 * (n div 256 mod 256 ^ k) + n mod 256"
    by (rule mod_mult2_eq)
  ultimately show ?case using Suc.IH [of "n div 256"] by simp
qed simp

lemma le_value_bound: "le_value bs < 256 ^ length bs"
proof (induction bs)
  case (Cons b bs)
  have "unat b < 256" using unat_bound [of b] by simp
  with Cons.IH show ?case by simp
qed simp

lemma be_value_be_bytes: "be_value (be_bytes_nat k n) = n mod 256 ^ k"
  by (simp add: be_value_def be_bytes_nat_def le_value_le_bytes)

lemma be_value_bound: "be_value bs < 256 ^ length bs"
  using le_value_bound [of "rev bs"] by (simp add: be_value_def)

lemma u128_roundtrip [simp]: "u128_of_be (u128_be a) = a"
proof -
  have "unat a mod 256 ^ 16 = unat a" using unat_bound [of a] by simp
  then show ?thesis by (simp add: u128_of_be_def u128_be_def be_value_be_bytes)
qed

lemma u128_be_inject [simp]: "u128_be a = u128_be b \<longleftrightarrow> a = b"
  by (metis u128_roundtrip)

text \<open>Byte string literals.\<close>

definition ascii :: "string \<Rightarrow> bytes" where
  "ascii s = map (\<lambda>c. word_of_nat (of_char c)) s"

lemma length_ascii [simp]: "length (ascii s) = length s"
  by (simp add: ascii_def)

section \<open>Lists\<close>

lemma enumerate_eq_map_nth: "List.enumerate 0 xs = map (\<lambda>i. (i, xs ! i)) [0..<length xs]"
  by (rule nth_equalityI) (simp_all add: nth_enumerate_eq)

end
