(* ===== verification/Gf256.thy ===== *)
theory Gf256
  imports Ppsc_Prelude
begin

text \<open>
  \<open>crates/crypto/src/mpc/field.rs\<close>, the type \<open>F2\<close>: GF(2^8) under the AES polynomial, on which the
  boolean shares of \<open>s2b\<close> and the comparison protocol live. The shift-and-add multiplication and
  the square-and-multiply power are translated as the loops they are; the section after them proves
  that with \<open>XOR\<close> as addition they make a field, and registers \<open>F2\<close> as an instance of the library
  class \<open>field\<close>, so every protocol that is generic in the share field runs on it.
\<close>

unbundle bit_operations_syntax

section \<open>The implementation\<close>

datatype F2 = F2 (f2_val: u8)

definition GF2_POLY :: u8 where
  "GF2_POLY = 0x1B"

text \<open>One turn of the loop of \<open>gf2_mul\<close> doubles \<open>a\<close>: shift left, reduce if the top bit fell out.\<close>

definition gf2_double :: "u8 \<Rightarrow> u8" where
  "gf2_double a =
     (let high = a AND 0x80; a' = push_bit 1 a in if high \<noteq> 0 then a' XOR GF2_POLY else a')"

lemma drop_bit_1_less: "b \<noteq> 0 \<Longrightarrow> unat (drop_bit 1 (b :: u8)) < unat b"
proof -
  assume "b \<noteq> 0"
  then have "0 < unat b" by (metis unat_eq_zero neq0_conv)
  then show ?thesis by (simp add: drop_bit_eq_div unat_div)
qed

function gf2_mul_loop :: "u8 \<Rightarrow> u8 \<Rightarrow> u8 \<Rightarrow> u8" where
  "gf2_mul_loop a b p =
     (if a \<noteq> 0 \<and> b \<noteq> 0
      then gf2_mul_loop (gf2_double a) (drop_bit 1 b) (if b AND 1 \<noteq> 0 then p XOR a else p)
      else p)"
  by pat_completeness auto
termination
  by (relation "measure (\<lambda>(a, b, p). unat b)") (use drop_bit_1_less in auto)

definition gf2_mul :: "u8 \<Rightarrow> u8 \<Rightarrow> u8" where
  "gf2_mul a b = gf2_mul_loop a b 0"

function gf2_pow_loop :: "u8 \<Rightarrow> nat \<Rightarrow> u8 \<Rightarrow> u8" where
  "gf2_pow_loop base e result =
     (if 0 < e
      then gf2_pow_loop (gf2_mul base base) (e div 2)
             (if e mod 2 \<noteq> 0 then gf2_mul result base else result)
      else result)"
  by pat_completeness auto
termination
  by (relation "measure (\<lambda>(base, e, result). e)") auto

definition gf2_pow :: "u8 \<Rightarrow> nat \<Rightarrow> u8" where
  "gf2_pow base e = gf2_pow_loop base e 1"

declare gf2_mul_loop.simps [simp del] gf2_pow_loop.simps [simp del]

definition f2_add :: "F2 \<Rightarrow> F2 \<Rightarrow> F2" where
  "f2_add x y = F2 (f2_val x XOR f2_val y)"

definition f2_sub :: "F2 \<Rightarrow> F2 \<Rightarrow> F2" where
  "f2_sub x y = F2 (f2_val x XOR f2_val y)"

definition f2_mul :: "F2 \<Rightarrow> F2 \<Rightarrow> F2" where
  "f2_mul x y = F2 (gf2_mul (f2_val x) (f2_val y))"

definition f2_neg :: "F2 \<Rightarrow> F2" where
  "f2_neg x = x"

text \<open>\<open>F2::inverse\<close> asserts its argument is not zero.\<close>

definition f2_inverse :: "F2 \<Rightarrow> ('e, F2) res" where
  "f2_inverse x = (if f2_val x \<noteq> 0 then Ok (F2 (gf2_pow (f2_val x) 254)) else Panic)"

definition f2_div :: "F2 \<Rightarrow> F2 \<Rightarrow> ('e, F2) res" where
  "f2_div x y = bindR (f2_inverse y) (\<lambda>i. Ok (f2_mul x i))"

definition f2_from_u64 :: "u64 \<Rightarrow> F2" where
  "f2_from_u64 n = F2 (ucast n)"

definition f2_from_le_bytes :: "bytes \<Rightarrow> F2" where
  "f2_from_le_bytes bs = F2 (fold (\<lambda>b acc. acc XOR b) bs 0)"

section \<open>Linear maps on bytes\<close>

text \<open>
  Multiplication is linear over \<open>XOR\<close> in both arguments, and a linear map is given by its values on
  the eight one-bit bytes: every equation of the field below is checked on that basis.
\<close>

definition xor_linear :: "(u8 \<Rightarrow> u8) \<Rightarrow> bool" where
  "xor_linear f \<longleftrightarrow> (\<forall>x y. f (x XOR y) = f x XOR f y)"

lemma xor_linearD: "xor_linear f \<Longrightarrow> f (x XOR y) = f x XOR f y"
  by (simp add: xor_linear_def)

lemma xor_linear_zero: "xor_linear f \<Longrightarrow> f 0 = 0"
  by (metis xor_linearD xor.right_neutral bit.xor_self)

lemma xor_linear_id: "xor_linear (\<lambda>x. x)"
  by (simp add: xor_linear_def)

lemma xor_linear_compose: "xor_linear f \<Longrightarrow> xor_linear g \<Longrightarrow> xor_linear (\<lambda>x. f (g x))"
  by (simp add: xor_linear_def)

lemma xor_linear_xor: "xor_linear f \<Longrightarrow> xor_linear g \<Longrightarrow> xor_linear (\<lambda>x. f x XOR g x)"
  by (simp add: xor_linear_def ac_simps)

lemma byte_bits_below:
  assumes "xor_linear f" "xor_linear g" "\<And>i. i < 8 \<Longrightarrow> f (push_bit i 1) = g (push_bit i 1)"
  shows "n \<le> 8 \<Longrightarrow> (\<And>i. n \<le> i \<Longrightarrow> \<not> bit w i) \<Longrightarrow> f w = g w"
proof (induction n arbitrary: w)
  case 0
  then have "w = 0" by (intro bit_word_eqI) simp
  with assms(1,2) show ?case by (simp add: xor_linear_zero)
next
  case (Suc n)
  show ?case
  proof (cases "bit w n")
    case True
    let ?v = "w XOR push_bit n 1"
    have "\<not> bit ?v i" if "n \<le> i" for i
      using that True Suc.prems by (cases "i = n") (auto simp: bit_simps)
    with Suc have "f ?v = g ?v" by simp
    moreover have "w = ?v XOR push_bit n 1" by (simp add: xor.assoc)
    ultimately show ?thesis using assms Suc.prems(1)
      by (metis Suc_le_lessD xor_linearD)
  next
    case False
    with Suc show ?thesis by (metis Suc_leD Suc_le_eq le_eq_less_or_eq)
  qed
qed

lemma xor_linear_ext:
  assumes "xor_linear f" "xor_linear g" "list_all (\<lambda>i. f (push_bit i 1) = g (push_bit i 1)) [0..<8]"
  shows "f w = g w"
proof -
  have "f (push_bit i 1) = g (push_bit i 1)" if "i < 8" for i :: nat
    using that assms(3) by (simp add: list_all_iff)
  then show ?thesis
    by (rule byte_bits_below [OF assms(1,2), of 8]) (auto dest: bit_imp_le_length)
qed

section \<open>The multiplication as a sum over bits\<close>

primrec gf2_sum :: "nat \<Rightarrow> u8 \<Rightarrow> u8 \<Rightarrow> u8" where
  "gf2_sum 0 a b = 0"
| "gf2_sum (Suc n) a b = (if bit b 0 then a else 0) XOR gf2_sum n (gf2_double a) (drop_bit 1 b)"

lemma gf2_double_alt: "gf2_double a = push_bit 1 a XOR (if bit a 7 then GF2_POLY else 0)"
proof -
  have "(a AND 0x80 \<noteq> 0) = bit a 7"
    using and_exp_eq_0_iff_not_bit [of a 7] by simp
  then show ?thesis by (simp add: gf2_double_def Let_def)
qed

lemma gf2_double_zero [simp]: "gf2_double 0 = 0"
  by (simp add: gf2_double_def)

lemma gf2_double_linear: "xor_linear gf2_double"
  by (auto simp: xor_linear_def gf2_double_alt bit_simps push_bit_xor ac_simps)

lemma gf2_sum_linear_left: "xor_linear (\<lambda>a. gf2_sum n a b)"
proof (induction n arbitrary: b)
  case 0
  show ?case by (simp add: xor_linear_def)
next
  case (Suc n)
  have "xor_linear (\<lambda>a. gf2_sum n (gf2_double a) (drop_bit 1 b))"
    using xor_linear_compose [OF Suc.IH gf2_double_linear] .
  then show ?case by (auto simp: xor_linear_def ac_simps)
qed

lemma gf2_sum_linear_right: "xor_linear (gf2_sum n a)"
proof (induction n arbitrary: a)
  case 0
  show ?case by (simp add: xor_linear_def)
next
  case (Suc n)
  then show ?case
    by (auto simp: xor_linear_def drop_bit_xor bit_simps ac_simps)
qed

lemma gf2_sum_zero_left [simp]: "gf2_sum n 0 b = 0"
  using xor_linear_zero [OF gf2_sum_linear_left] .

lemma gf2_sum_zero_right [simp]: "gf2_sum n a 0 = 0"
  using xor_linear_zero [OF gf2_sum_linear_right] .

lemma gf2_mul_loop_sum: "unat b < 2 ^ n \<Longrightarrow> gf2_mul_loop a b p = p XOR gf2_sum n a b"
proof (induction n arbitrary: a b p)
  case 0
  then have "b = 0" by (simp add: unat_eq_zero)
  then show ?case by (simp add: gf2_mul_loop.simps)
next
  case (Suc n)
  have lt: "unat (drop_bit (Suc 0) b) < 2 ^ n"
    using Suc.prems by (simp add: drop_bit_eq_div unat_div)
  have lsb: "(b AND 1 \<noteq> 0) = bit b 0"
    using and_exp_eq_0_iff_not_bit [of b 0] by simp
  show ?case
    by (subst gf2_mul_loop.simps)
       (auto simp: Suc.IH [OF lt] lsb xor.assoc simp del: drop_bit_Suc word_neq_0_conv)
qed

lemma gf2_mul_sum: "gf2_mul a b = gf2_sum 8 a b"
proof -
  have "unat b < 2 ^ 8" using unat_bound [of b] by simp
  from gf2_mul_loop_sum [OF this, of a 0] show ?thesis by (simp add: gf2_mul_def)
qed

lemma gf2_mul_linear_left: "xor_linear (\<lambda>a. gf2_mul a b)"
  unfolding gf2_mul_sum by (rule gf2_sum_linear_left)

lemma gf2_mul_linear_right: "xor_linear (gf2_mul a)"
  unfolding gf2_mul_sum [abs_def] by (rule gf2_sum_linear_right)

lemma gf2_mul_zero [simp]: "gf2_mul 0 b = 0" "gf2_mul a 0 = 0"
  by (simp_all add: gf2_mul_sum)

lemma gf2_sum_double: "gf2_sum n (gf2_double a) b = gf2_double (gf2_sum n a b)"
  by (induction n arbitrary: a b) (auto simp: xor_linearD [OF gf2_double_linear])

lemma gf2_mul_commute_basis:
  "list_all (\<lambda>i. list_all (\<lambda>j. gf2_mul (push_bit i 1) (push_bit j 1) = gf2_mul (push_bit j 1) (push_bit i 1))
     [0..<8]) [0..<8]"
  by code_simp

lemma gf2_mul_commute: "gf2_mul a b = gf2_mul b a"
proof (rule xor_linear_ext [OF gf2_mul_linear_left gf2_mul_linear_right])
  have "gf2_mul (push_bit i 1) b = gf2_mul b (push_bit i 1)" if "i < 8" for i
    by (rule xor_linear_ext [OF gf2_mul_linear_right gf2_mul_linear_left])
       (use gf2_mul_commute_basis that in \<open>simp add: list_all_iff\<close>)
  then show "list_all (\<lambda>i. gf2_mul (push_bit i 1) b = gf2_mul b (push_bit i 1)) [0..<8]"
    by (simp add: list_all_iff)
qed

lemma gf2_mul_double_right: "gf2_mul a (gf2_double b) = gf2_double (gf2_mul a b)"
  by (metis gf2_mul_commute gf2_mul_sum gf2_sum_double)

lemma gf2_sum_mul: "gf2_sum n (gf2_mul a b) c = gf2_mul a (gf2_sum n b c)"
  by (induction n arbitrary: b c)
     (auto simp: xor_linearD [OF gf2_mul_linear_right] gf2_mul_double_right [symmetric])

lemma gf2_mul_assoc: "gf2_mul (gf2_mul a b) c = gf2_mul a (gf2_mul b c)"
  by (simp add: gf2_mul_sum [of _ c] gf2_sum_mul)

lemma gf2_mul_one [simp]: "gf2_mul 1 b = b"
  by (rule xor_linear_ext [OF gf2_mul_linear_right xor_linear_id]) code_simp

text \<open>
  Squaring is linear, so \<open>a ^ 256 = a\<close> holds for every byte because it holds on the basis; its only
  fixed points are 0 and 1.
\<close>

definition gf2_square :: "u8 \<Rightarrow> u8" where
  "gf2_square a = gf2_mul a a"

lemma gf2_square_linear: "xor_linear gf2_square"
  by (simp add: xor_linear_def gf2_square_def xor_linearD [OF gf2_mul_linear_right]
      xor_linearD [OF gf2_mul_linear_left] gf2_mul_commute ac_simps)

primrec gf2_squares :: "nat \<Rightarrow> u8 \<Rightarrow> u8" where
  "gf2_squares 0 a = a"
| "gf2_squares (Suc n) a = gf2_squares n (gf2_square a)"

lemma gf2_squares_linear: "xor_linear (gf2_squares n)"
proof (induction n)
  case (Suc n)
  from xor_linear_compose [OF Suc gf2_square_linear] show ?case by (simp add: xor_linear_def)
qed (simp add: xor_linear_def)

lemmas gf2_eval = gf2_mul_def gf2_mul_loop.simps gf2_double_def GF2_POLY_def gf2_square_def
  gf2_pow_def gf2_pow_loop.simps

definition gf2_frob :: "u8 \<Rightarrow> u8" where
  "gf2_frob a = gf2_squares (Suc (Suc (Suc (Suc (Suc (Suc (Suc (Suc 0)))))))) a"

lemma gf2_frob_basis:
  "gf2_frob 1 = 1" "gf2_frob 2 = 2" "gf2_frob 4 = 4" "gf2_frob 8 = 8"
  "gf2_frob 16 = 16" "gf2_frob 32 = 32" "gf2_frob 64 = 64" "gf2_frob 128 = 128"
  by (simp add: gf2_frob_def gf2_eval)+

lemma gf2_frobenius: "gf2_frob a = a"
proof (rule xor_linear_ext [OF _ xor_linear_id])
  show "xor_linear gf2_frob"
    unfolding gf2_frob_def [abs_def] by (rule gf2_squares_linear)
  show "list_all (\<lambda>i. gf2_frob (push_bit i 1) = push_bit i 1) [0..<8]"
    by (simp add: upt_rec gf2_frob_basis)
qed

definition gf2_moves :: "nat \<Rightarrow> bool" where
  "gf2_moves n \<longleftrightarrow> gf2_square (of_nat n) \<noteq> of_nat n"

lemma gf2_moves_table: "list_all gf2_moves [2..<256]"
  by (simp add: gf2_moves_def gf2_eval upt_rec)

lemma gf2_fixed_points: "gf2_square e = e \<Longrightarrow> e = 0 \<or> e = 1"
proof (rule ccontr)
  assume e: "gf2_square e = e" and "\<not> (e = 0 \<or> e = 1)"
  then have "unat e \<noteq> 0" "unat e \<noteq> 1" by (auto simp: word_unat_eq_iff)
  moreover have "unat e < 256" using unat_bound [of e] by simp
  ultimately have "unat e \<in> set [2..<256]"
    by (simp only: set_upt atLeastLessThan_iff) arith
  then have "gf2_moves (unat e)"
    by (rule gf2_moves_table [unfolded list_all_iff, rule_format])
  with e show False by (simp add: gf2_moves_def)
qed

section \<open>The field GF(2^8)\<close>

instantiation F2 :: comm_ring_1
begin

definition zero_F2 where "0 = F2 0"
definition one_F2 where "1 = F2 1"
definition plus_F2 where "x + y = f2_add x y"
definition minus_F2 where "x - y = f2_sub x y"
definition uminus_F2 where "- x = f2_neg x"
definition times_F2 where "x * y = f2_mul x y"

instance
proof
  fix a b c :: F2
  show "a + b + c = a + (b + c)" by (simp add: plus_F2_def f2_add_def xor.assoc)
  show "a + b = b + a" by (simp add: plus_F2_def f2_add_def xor.commute)
  show "0 + a = a" by (simp add: plus_F2_def f2_add_def zero_F2_def)
  show "- a + a = 0" by (simp add: plus_F2_def f2_add_def zero_F2_def uminus_F2_def f2_neg_def)
  show "a - b = a + - b" by (simp add: plus_F2_def f2_add_def minus_F2_def f2_sub_def uminus_F2_def f2_neg_def)
  show "a * b * c = a * (b * c)" by (simp add: times_F2_def f2_mul_def gf2_mul_assoc)
  show "a * b = b * a" by (simp add: times_F2_def f2_mul_def gf2_mul_commute)
  show "1 * a = a" by (simp add: times_F2_def f2_mul_def one_F2_def)
  show "(a + b) * c = a * c + b * c"
    by (simp add: times_F2_def f2_mul_def plus_F2_def f2_add_def xor_linearD [OF gf2_mul_linear_left])
  show "(0 :: F2) \<noteq> 1" by (simp add: zero_F2_def one_F2_def)
qed

end

lemma f2_val_simps [simp]:
  "f2_val 0 = 0" "f2_val 1 = 1" "f2_val (x + y) = f2_val x XOR f2_val y"
  "f2_val (x - y) = f2_val x XOR f2_val y" "f2_val (- x) = f2_val x"
  "f2_val (x * y) = gf2_mul (f2_val x) (f2_val y)"
  by (simp_all add: zero_F2_def one_F2_def plus_F2_def f2_add_def minus_F2_def f2_sub_def uminus_F2_def f2_neg_def times_F2_def f2_mul_def)

lemma F2_eq_0_iff: "F2 w = 0 \<longleftrightarrow> w = 0" and F2_eq_1_iff: "F2 w = 1 \<longleftrightarrow> w = 1"
  by (simp_all add: zero_F2_def one_F2_def)

text \<open>The square-and-multiply loop computes the power of the ring.\<close>

lemma gf2_pow_loop_power: "F2 (gf2_pow_loop b e r) = F2 r * F2 b ^ e"
proof (induction b e r rule: gf2_pow_loop.induct)
  case (1 b e r)
  show ?case
  proof (cases "0 < e")
    case True
    have sq: "F2 (gf2_mul b b) = F2 b * F2 b" by (simp add: times_F2_def f2_mul_def)
    have "F2 b ^ e = (F2 b * F2 b) ^ (e div 2) * F2 b ^ (e mod 2)"
      by (metis mult_div_mod_eq power2_eq_square power_add power_mult)
    moreover have "F2 (if e mod 2 \<noteq> 0 then gf2_mul r b else r) = F2 r * F2 b ^ (e mod 2)"
      by (cases "e mod 2 = 0") (auto simp: times_F2_def f2_mul_def not_mod_2_eq_0_eq_1 one_F2_def gf2_mul_commute [of _ 1])
    ultimately show ?thesis
      using "1" [OF True] True by (simp add: gf2_pow_loop.simps [of b e r] sq ac_simps)
  next
    case False
    then show ?thesis by (simp add: gf2_pow_loop.simps [of b 0 r])
  qed
qed

lemma gf2_pow_power: "F2 (gf2_pow b e) = F2 b ^ e"
  by (simp add: gf2_pow_def gf2_pow_loop_power F2_eq_1_iff [THEN iffD2])

lemma F2_squares_power: "F2 (gf2_squares n a) = F2 a ^ (2 ^ n)"
proof (induction n arbitrary: a)
  case (Suc n)
  have "F2 (gf2_square a) = F2 a ^ 2" by (simp add: gf2_square_def times_F2_def f2_mul_def power2_eq_square)
  with Suc show ?case by (simp add: power_mult)
qed simp

lemma F2_power_256: "(x :: F2) ^ 256 = x"
proof (cases x)
  case (F2 a)
  have "F2 (gf2_frob a) = F2 a ^ 256" unfolding gf2_frob_def F2_squares_power by simp
  with F2 show ?thesis by (simp add: gf2_frobenius)
qed

lemma F2_power_255: "(x :: F2) \<noteq> 0 \<Longrightarrow> x ^ 255 = 1"
proof -
  assume x: "x \<noteq> 0"
  have "x ^ 255 * x ^ 255 = x ^ 256 * x ^ 254" by (simp flip: power_add)
  also have "\<dots> = x * x ^ 254" by (simp only: F2_power_256)
  also have "\<dots> = x ^ 255" by (simp flip: power_Suc)
  finally have "gf2_square (f2_val (x ^ 255)) = f2_val (x ^ 255)"
    by (metis gf2_square_def f2_val_simps(6))
  then have "x ^ 255 = 0 \<or> x ^ 255 = 1"
    using gf2_fixed_points by (metis F2.collapse F2_eq_0_iff F2_eq_1_iff)
  moreover have "x * x ^ 255 = x" using F2_power_256 [of x] by (simp flip: power_Suc)
  ultimately show ?thesis using x by auto
qed

instantiation F2 :: field
begin

definition inverse_F2 where "inverse x = F2 (gf2_pow (f2_val x) 254)"
definition divide_F2 where "x div y = x * inverse (y :: F2)"

instance
proof
  fix a b :: F2
  have inv: "inverse a = a ^ 254"
    by (simp add: inverse_F2_def gf2_pow_power)
  show "inverse a * a = 1" if "a \<noteq> 0"
    using F2_power_255 [OF that] by (simp add: inv flip: power_Suc2)
  show "a div b = a * inverse b" by (simp add: divide_F2_def)
  show "inverse (0 :: F2) = 0"
    by (simp add: inverse_F2_def gf2_pow_power zero_F2_def [symmetric])
qed

end

text \<open>The field laws of \<open>F2\<close>, as the protocols use them, in the code's own operations.\<close>

lemma f2_inverse_Ok: "x \<noteq> 0 \<Longrightarrow> f2_inverse x = Ok (inverse x)"
  by (cases x) (auto simp: f2_inverse_def inverse_F2_def zero_F2_def)

lemma f2_div_Ok: "y \<noteq> 0 \<Longrightarrow> f2_div x y = Ok (x div y)"
  by (simp add: f2_div_def f2_inverse_Ok divide_F2_def times_F2_def)

lemma f2_inverse_zero: "f2_inverse 0 = Panic"
  by (simp add: f2_inverse_def)

lemma F2_char_2 [simp]: "(x :: F2) + x = 0"
  by (simp add: plus_F2_def f2_add_def zero_F2_def)

lemma F2_uminus [simp]: "- (x :: F2) = x"
  by (simp add: uminus_F2_def f2_neg_def)

lemma F2_minus: "(x :: F2) - y = x + y"
  by (simp add: plus_F2_def f2_add_def minus_F2_def f2_sub_def)

end
