(* ===== verification/Polynomials.thy ===== *)
theory Polynomials
  imports Ppsc_Prelude
begin

text \<open>
  Polynomial functions over a field, the mathematics under secret sharing: \<open>pdeg d f\<close> says that \<open>f\<close>
  is evaluation of a polynomial of degree at most \<open>d\<close>. A nonzero such function has at most \<open>d\<close>
  roots, so values at \<open>d + 1\<close> distinct points determine it, and \<open>lagrange\<close> computes it from them.
\<close>

named_theorems pdeg_intros \<open>closure of the polynomial functions\<close>

primrec horner :: "'a::comm_ring_1 list \<Rightarrow> 'a \<Rightarrow> 'a" where
  "horner [] x = 0"
| "horner (c # cs) x = c + x * horner cs x"

definition pdeg :: "nat \<Rightarrow> ('a::field \<Rightarrow> 'a) \<Rightarrow> bool" where
  "pdeg d f \<longleftrightarrow> (\<exists>cs. length cs = Suc d \<and> f = horner cs)"

section \<open>Closure\<close>

lemma horner_replicate_zero [simp]: "horner (replicate n 0) x = 0"
  by (induction n) auto

lemma horner_append_zeros [simp]: "horner (cs @ replicate n 0) x = horner cs x"
  by (induction cs) auto

lemma pdegI: "length cs \<le> Suc d \<Longrightarrow> (\<And>x. f x = horner cs x) \<Longrightarrow> pdeg d f"
  unfolding pdeg_def by (rule exI [of _ "cs @ replicate (Suc d - length cs) 0"]) auto

lemma pdeg_horner: "length cs = Suc d \<Longrightarrow> pdeg d (horner cs)"
  unfolding pdeg_def by blast

lemma horner_add: "horner (map2 (+) cs ds) x = horner cs x + horner ds x" if "length cs = length ds"
  using that by (induction cs ds rule: list_induct2) (auto simp: algebra_simps)

lemma horner_smult: "horner (map ((*) c) cs) x = c * horner cs x"
  by (induction cs) (auto simp: algebra_simps)

lemma pdeg_mono: "pdeg d f \<Longrightarrow> d \<le> e \<Longrightarrow> pdeg e f"
proof -
  assume "pdeg d f" and le: "d \<le> e"
  then obtain cs where "length cs = Suc d" "f = horner cs" by (auto simp: pdeg_def)
  with le show ?thesis by (intro pdegI [of cs]) auto
qed

lemma pdeg_const [pdeg_intros]: "pdeg d (\<lambda>x. c)"
  by (rule pdegI [of "[c]"]) auto

lemma pdeg_add [pdeg_intros]: "pdeg d f \<Longrightarrow> pdeg d g \<Longrightarrow> pdeg d (\<lambda>x. f x + g x)"
proof -
  assume "pdeg d f" "pdeg d g"
  then obtain cs ds where "length cs = Suc d" "f = horner cs" "length ds = Suc d" "g = horner ds"
    by (auto simp: pdeg_def)
  then show ?thesis by (intro pdegI [of "map2 (+) cs ds"]) (auto simp: horner_add)
qed

lemma pdeg_smult [pdeg_intros]: "pdeg d f \<Longrightarrow> pdeg d (\<lambda>x. c * f x)"
proof -
  assume "pdeg d f"
  then obtain cs where "length cs = Suc d" "f = horner cs" by (auto simp: pdeg_def)
  then show ?thesis by (intro pdegI [of "map ((*) c) cs"]) (auto simp: horner_smult)
qed

lemma pdeg_smult_right [pdeg_intros]: "pdeg d f \<Longrightarrow> pdeg d (\<lambda>x. f x * c)"
  using pdeg_smult [of d f c] by (simp add: mult.commute)

lemma pdeg_divide [pdeg_intros]: "pdeg d f \<Longrightarrow> pdeg d (\<lambda>x. f x / c)"
  using pdeg_smult_right [of d f "inverse c"] by (simp add: divide_inverse)

lemma pdeg_uminus [pdeg_intros]: "pdeg d f \<Longrightarrow> pdeg d (\<lambda>x. - f x)"
  using pdeg_smult [of d f "- 1"] by simp

lemma pdeg_diff [pdeg_intros]: "pdeg d f \<Longrightarrow> pdeg d g \<Longrightarrow> pdeg d (\<lambda>x. f x - g x)"
  using pdeg_add [OF _ pdeg_uminus, of d f g] by simp

lemma pdeg_sum [pdeg_intros]: "(\<And>i. i \<in> I \<Longrightarrow> pdeg d (f i)) \<Longrightarrow> pdeg d (\<lambda>x. \<Sum>i\<in>I. f i x)"
  by (induction I rule: infinite_finite_induct) (auto intro: pdeg_intros)

lemma pdeg_times_x: "pdeg d f \<Longrightarrow> pdeg (Suc d) (\<lambda>x. x * f x)"
proof -
  assume "pdeg d f"
  then obtain cs where "length cs = Suc d" "f = horner cs" by (auto simp: pdeg_def)
  then show ?thesis by (intro pdegI [of "0 # cs"]) auto
qed

lemma pdeg_mult [pdeg_intros]:
  assumes "pdeg d f" and "pdeg e g"
  shows "pdeg (d + e) (\<lambda>x. f x * g x)"
proof -
  have "pdeg (k + e) (\<lambda>x. horner cs x * g x)" if "length cs = Suc k" for cs k
    using that
  proof (induction cs arbitrary: k)
    case (Cons c cs)
    show ?case
    proof (cases k)
      case 0
      with Cons.prems have "cs = []" by simp
      with assms(2) 0 show ?thesis by (auto intro: pdeg_smult)
    next
      case (Suc k')
      with Cons have "pdeg (Suc (k' + e)) (\<lambda>x. x * (horner cs x * g x))"
        by (intro pdeg_times_x) simp
      moreover have "pdeg (Suc (k' + e)) (\<lambda>x. c * g x)"
        by (rule pdeg_smult) (rule pdeg_mono [OF assms(2)], simp)
      ultimately have "pdeg (Suc (k' + e)) (\<lambda>x. c * g x + x * (horner cs x * g x))"
        by (rule pdeg_add [rotated])
      with Suc show ?thesis by (simp add: algebra_simps)
    qed
  qed simp
  with assms(1) show ?thesis by (auto simp: pdeg_def)
qed

lemma pdeg_linear [pdeg_intros]: "pdeg 1 (\<lambda>x. x - a)"
  by (rule pdegI [of "[- a, 1]"]) auto

lemma pdeg_prod:
  assumes "finite I" and "\<And>i. i \<in> I \<Longrightarrow> pdeg 1 (f i)"
  shows "pdeg (card I) (\<lambda>x. \<Prod>i\<in>I. f i x)"
  using assms
proof (induction I rule: finite_induct)
  case empty
  show ?case by (simp add: pdeg_const)
next
  case (insert i I)
  then have "pdeg (1 + card I) (\<lambda>x. f i x * (\<Prod>i\<in>I. f i x))"
    by (intro pdeg_mult) auto
  with insert show ?case by simp
qed

section \<open>Roots\<close>

lemma horner_step: "c + x * (h + (x - a) * q) = c + a * h + (x - a) * (h + x * q :: 'a::comm_ring_1)"
  by (simp add: algebra_simps)

text \<open>Synthetic division by \<open>x - a\<close>.\<close>

primrec synth_div :: "'a::comm_ring_1 \<Rightarrow> 'a list \<Rightarrow> 'a list" where
  "synth_div a [] = []"
| "synth_div a (c # cs) = (if cs = [] then [] else horner cs a # synth_div a cs)"

lemma length_synth_div [simp]: "length (synth_div a cs) = length cs - 1"
  by (induction cs) (auto simp: Suc_diff_Suc)

lemma horner_factor: "horner cs x = horner cs a + (x - a) * horner (synth_div a cs) x"
proof (induction cs)
  case (Cons c cs)
  show ?case
  proof (cases "cs = []")
    case False
    then show ?thesis
      by (simp only: horner.simps synth_div.simps if_False) (subst Cons.IH, rule horner_step)
  qed simp
qed simp

lemma synth_div_zero:
  "horner cs a = 0 \<Longrightarrow> set (synth_div a cs) \<subseteq> {0} \<Longrightarrow> set cs \<subseteq> {0}"
  by (induction cs) (auto split: if_splits)

text \<open>A polynomial with at least as many distinct roots as coefficients has zero coefficients.\<close>

lemma horner_coeffs_zero:
  fixes cs :: "'a::field list"
  assumes "length cs \<le> card S" "finite S" "\<And>a. a \<in> S \<Longrightarrow> horner cs a = 0"
  shows "set cs \<subseteq> {0}"
  using assms
proof (induction "card S" arbitrary: cs S)
  case (Suc n)
  then obtain a where a: "a \<in> S" by force
  have n: "n = card (S - {a})" using Suc.hyps(2) Suc.prems(2) a by simp
  have "set (synth_div a cs) \<subseteq> {0}"
  proof (rule Suc.hyps(1) [OF n])
    show "length (synth_div a cs) \<le> card (S - {a})" using n Suc.hyps(2) Suc.prems(1) by simp
    show "finite (S - {a})" using Suc.prems(2) by simp
    show "horner (synth_div a cs) b = 0" if "b \<in> S - {a}" for b
      using that horner_factor [of cs b a] Suc.prems(3) [of b] Suc.prems(3) [OF a] by simp
  qed
  with Suc.prems(3) [OF a] show ?case by (rule synth_div_zero)
qed simp

lemma horner_inject:
  fixes cs ds :: "'a::field list"
  assumes "length cs = length ds" "finite S" "length cs \<le> card S" "\<And>a. a \<in> S \<Longrightarrow> horner cs a = horner ds a"
  shows "cs = ds"
proof -
  have neg: "horner (map2 (-) cs ds) x = horner cs x - horner ds x" for x
    using assms(1) by (induction cs ds rule: list_induct2) (auto simp: right_diff_distrib)
  have "set (map2 (-) cs ds) \<subseteq> {0}"
    by (rule horner_coeffs_zero [of _ S]) (use assms in \<open>auto simp: neg\<close>)
  with assms(1) show ?thesis
    by (induction cs ds rule: list_induct2) auto
qed

text \<open>A polynomial function with more distinct roots than its degree is zero everywhere.\<close>

lemma pdeg_roots_zero:
  assumes "pdeg d f" and "finite S" and "d < card S" and "\<And>a. a \<in> S \<Longrightarrow> f a = 0"
  shows "f x = (0 :: 'a::field)"
proof -
  obtain cs where cs: "length cs = Suc d" "f = horner cs" using assms(1) by (auto simp: pdeg_def)
  then have "set cs \<subseteq> {0}"
    using horner_coeffs_zero [of cs S] assms(2-4) by simp
  moreover have "set xs \<subseteq> {0} \<Longrightarrow> horner xs x = 0" for xs :: "'a list" by (induction xs) auto
  ultimately show ?thesis by (simp add: cs(2))
qed

lemma pdeg_unique:
  assumes "pdeg d f" "pdeg d g" "finite S" "d < card S" "\<And>a. a \<in> S \<Longrightarrow> f a = g a"
  shows "f x = (g x :: 'a::field)"
  using pdeg_roots_zero [OF pdeg_diff [OF assms(1,2)] assms(3,4), of x] assms(5) by simp

section \<open>Lagrange interpolation\<close>

definition lagrange_basis :: "'a::field list \<Rightarrow> nat \<Rightarrow> 'a \<Rightarrow> 'a" where
  "lagrange_basis ps i x = (\<Prod>j \<in> {..<length ps} - {i}. (x - ps ! j) / (ps ! i - ps ! j))"

definition lagrange :: "'a::field list \<Rightarrow> 'a list \<Rightarrow> 'a \<Rightarrow> 'a" where
  "lagrange ps vs x = (\<Sum>i<length ps. lagrange_basis ps i x * vs ! i)"

lemma lagrange_basis_same:
  assumes "distinct ps" "i < length ps"
  shows "lagrange_basis ps i (ps ! i) = 1"
  unfolding lagrange_basis_def
  by (rule prod.neutral) (use assms in \<open>auto simp: nth_eq_iff_index_eq\<close>)

lemma lagrange_basis_other:
  assumes "k < length ps" "i \<noteq> k"
  shows "lagrange_basis ps i (ps ! k) = 0"
  unfolding lagrange_basis_def
  by (rule prod_zero) (use assms in auto)

lemma pdeg_lagrange_basis: "i < length ps \<Longrightarrow> pdeg (length ps - 1) (lagrange_basis ps i)"
proof -
  assume i: "i < length ps"
  have "pdeg (card ({..<length ps} - {i})) (lagrange_basis ps i)"
    unfolding lagrange_basis_def by (rule pdeg_prod) (simp, intro pdeg_divide pdeg_linear)
  with i show ?thesis by simp
qed

lemma lagrange_at_point:
  assumes "distinct ps" "k < length ps"
  shows "lagrange ps vs (ps ! k) = vs ! k"
proof -
  have "lagrange ps vs (ps ! k) = (\<Sum>i<length ps. if i = k then vs ! i else 0)"
    unfolding lagrange_def using assms
    by (intro sum.cong) (auto simp: lagrange_basis_same lagrange_basis_other)
  with assms show ?thesis by simp
qed

lemma pdeg_lagrange: "pdeg (length ps - 1) (lagrange ps vs)"
  unfolding lagrange_def by (intro pdeg_sum pdeg_smult_right pdeg_lagrange_basis) auto

text \<open>Interpolation recovers every polynomial of low enough degree from its values.\<close>

lemma lagrange_recovers:
  assumes f: "pdeg d f" and d: "d < length ps" and "distinct ps"
  shows "lagrange ps (map f ps) x = f x"
proof (rule pdeg_unique [where f = "lagrange ps (map f ps)" and g = f and S = "set ps"])
  show "pdeg (length ps - 1) (lagrange ps (map f ps))" by (rule pdeg_lagrange)
  show "pdeg (length ps - 1) f" using f by (rule pdeg_mono) (use d in simp)
  show "length ps - 1 < card (set ps)" using assms by (simp add: distinct_card)
  show "lagrange ps (map f ps) a = f a" if "a \<in> set ps" for a
    using that assms(3) by (auto simp: in_set_conv_nth lagrange_at_point)
qed simp

lemma interpolant_exists:
  assumes "distinct ps" "length vs = length ps"
  shows "\<exists>f. pdeg (length ps - 1) f \<and> map f ps = vs"
proof (intro exI conjI)
  show "pdeg (length ps - 1) (lagrange ps vs)" by (rule pdeg_lagrange)
  show "map (lagrange ps vs) ps = vs"
    using assms by (auto simp: lagrange_at_point list_eq_iff_nth_eq)
qed

end
