(* ===== verification/Share_Field.thy ===== *)
theory Share_Field
  imports Gf256 Polynomials
begin

text \<open>
  The \<open>ShareField\<close> trait of \<open>crypto/src/mpc/field.rs\<close>. The ring operations of an implementor
  are the operations of the type class \<open>field\<close>; the trait's other methods are the record
  \<open>share_field_ops\<close>, passed to the protocols the way rustc passes the trait dictionary. The state
  of a random generator has type \<open>'g\<close> and is threaded explicitly.

  \<open>fdiv\<close> is the code's \<open>/\<close>: it multiplies by the inverse, and taking the inverse of zero panics.
  The locale \<open>share_field\<close> is what the protocols rely on: small integers embed injectively below a
  bound, so the evaluation points of a committee are distinct and nonzero.
\<close>

record ('f, 'g) share_field_ops =
  sf_from_u64 :: "u64 \<Rightarrow> 'f"
  sf_rand :: "'g \<Rightarrow> 'f \<times> 'g"
  sf_from_le_bytes :: "bytes \<Rightarrow> 'f"

text \<open>The generator operations of \<open>rand::RngCore\<close> that the code calls.\<close>

record 'g rng_ops =
  rng_next_u32 :: "'g \<Rightarrow> u32 \<times> 'g"
  rng_fill_bytes :: "nat \<Rightarrow> 'g \<Rightarrow> bytes \<times> 'g"

definition fdiv :: "'f::field \<Rightarrow> 'f \<Rightarrow> ('e, 'f) res" where
  "fdiv a b = (if b = 0 then Panic else Ok (a / b))"

lemma fdiv_Ok [res_simps]: "b \<noteq> 0 \<Longrightarrow> fdiv a b = Ok (a / b)"
  by (simp add: fdiv_def)

lemma fdiv_zero [res_simps]: "fdiv a 0 = Panic"
  by (simp add: fdiv_def)

lemma fdiv_not_Err [simp]: "fdiv a b \<noteq> Err e"
  by (simp add: fdiv_def)

text \<open>Drawing \<open>k\<close> field elements one after the other.\<close>

primrec rand_list :: "('f, 'g) share_field_ops \<Rightarrow> nat \<Rightarrow> 'g \<Rightarrow> 'f list \<times> 'g" where
  "rand_list F 0 g = ([], g)"
| "rand_list F (Suc k) g =
    (let (c, g1) = sf_rand F g; (cs, g2) = rand_list F k g1 in (c # cs, g2))"

lemma length_rand_list [simp]: "length (fst (rand_list F k g)) = k"
  by (induction k arbitrary: g) (simp_all add: Let_def split_beta)

locale share_field =
  fixes ops :: "('f::field, 'g) share_field_ops"
    and limit :: nat
  assumes from_u64_zero: "sf_from_u64 ops 0 = 0"
    and from_u64_one: "sf_from_u64 ops 1 = 1"
    and from_u64_inj: "unat a < limit \<Longrightarrow> unat b < limit \<Longrightarrow> sf_from_u64 ops a = sf_from_u64 ops b \<Longrightarrow> a = b"
    and limit_u64: "limit \<le> 2 ^ 64"
begin

lemma small_inj:
  assumes "i < limit" "j < limit" "sf_from_u64 ops (of_nat i) = sf_from_u64 ops (of_nat j)"
  shows "i = j"
proof -
  have u: "unat (of_nat k :: u64) = k" if "k < limit" for k
    using that limit_u64 by (simp add: unat_of_nat)
  from assms u have "(of_nat i :: u64) = of_nat j"
    using from_u64_inj [of "of_nat i" "of_nat j"] by simp
  then show ?thesis using u [OF assms(1)] u [OF assms(2)] by metis
qed

lemma small_nonzero:
  assumes "i < limit" "0 < i"
  shows "sf_from_u64 ops (of_nat i) \<noteq> 0"
  using small_inj [OF assms(1), of 0] assms by (auto simp: from_u64_zero)

end

section \<open>The binary field\<close>

definition f2_ops :: "'g rng_ops \<Rightarrow> (F2, 'g) share_field_ops" where
  "f2_ops R =
    \<lparr>sf_from_u64 = f2_from_u64,
     sf_rand = (\<lambda>g. let (w, g') = rng_next_u32 R g in (F2 (ucast w), g')),
     sf_from_le_bytes = f2_from_le_bytes\<rparr>"

lemma f2_from_u64_inj:
  "unat a < 256 \<Longrightarrow> unat b < 256 \<Longrightarrow> f2_from_u64 a = f2_from_u64 b \<Longrightarrow> a = b"
proof -
  assume a: "unat a < 256" and b: "unat b < 256" and eq: "f2_from_u64 a = f2_from_u64 b"
  have u: "unat (ucast w :: u8) = unat w" if "unat w < 256" for w :: u64
    using that by (simp add: unsigned_ucast_eq take_bit_nat_eq_self)
  from eq have "unat (ucast a :: u8) = unat (ucast b :: u8)" by (simp add: f2_from_u64_def)
  with a b show ?thesis by (simp add: u word_unat_eq_iff)
qed

interpretation f2: share_field "f2_ops R" 256
  by unfold_locales (auto simp: f2_ops_def f2_from_u64_def zero_F2_def one_F2_def dest: f2_from_u64_inj)

text \<open>A deterministic generator, on which concrete runs of the protocols are evaluated.\<close>

definition counter_rng :: "nat rng_ops" where
  "counter_rng =
    \<lparr>rng_next_u32 = (\<lambda>g. (of_nat (7 * g + 5), Suc g)),
     rng_fill_bytes = (\<lambda>k g. (map (\<lambda>i. of_nat (11 * g + 3 * i)) [0..<k], Suc g))\<rparr>"

end
