(* ===== verification/Shamir.thy ===== *)
theory Shamir
  imports Share_Field
begin

text \<open>
  \<open>crypto/src/mpc/shamir.rs\<close>: committees, splitting, reconstruction by Lagrange interpolation
  at zero, holder-basis polynomials, and the enumeration of holder sets.

  \<open>sharing d f shares\<close> says that the shares lie on the degree-\<open>d\<close> polynomial function \<open>f\<close>; the
  shared secret is \<open>f 0\<close>.
\<close>

datatype mpc_error =
    InvalidThreshold
  | InsufficientParticipants
  | DuplicateShare
  | InsufficientShares
  | ShareCountMismatch
  | InconsistentShares
  | TooFewParties
  | InvalidPackingParameters
  | InvalidBitLength
  | RangeCheckFailed
  | MacCheckFailed

record 'f shamir_share =
  point :: 'f
  share_value :: 'f

record 'f committee =
  threshold :: nat
  points :: "'f list"

section \<open>Splitting\<close>

definition validate_parameters :: "nat \<Rightarrow> nat \<Rightarrow> (mpc_error, unit) res" where
  "validate_parameters t participants =
     (if t = 0 then Err InvalidThreshold
      else if participants \<le> t then Err InsufficientParticipants
      else Ok ())"

definition evaluation_points :: "('f, 'g) share_field_ops \<Rightarrow> nat \<Rightarrow> 'f list" where
  "evaluation_points F n = map (\<lambda>i. sf_from_u64 F (of_nat i)) [1..<Suc n]"

definition committee_new :: "('f, 'g) share_field_ops \<Rightarrow> nat \<Rightarrow> nat \<Rightarrow> (mpc_error, 'f committee) res" where
  "committee_new F t participants =
     bindR (validate_parameters t participants) (\<lambda>_.
       Ok \<lparr>threshold = t, points = evaluation_points F participants\<rparr>)"

definition committee_size :: "'f committee \<Rightarrow> nat" where
  "committee_size c = length (points c)"

definition eval_poly :: "'f::field list \<Rightarrow> 'f \<Rightarrow> 'f" where
  "eval_poly coeffs x = fold (\<lambda>c acc. acc * x + c) (rev coeffs) 0"

definition split_secret ::
  "('f::field, 'g) share_field_ops \<Rightarrow> 'f \<Rightarrow> nat \<Rightarrow> 'f list \<Rightarrow> 'g \<Rightarrow> (mpc_error, 'f shamir_share list \<times> 'g) res"
where
  "split_secret F secret t ps g =
     bindR (validate_parameters t (length ps)) (\<lambda>_.
       let (rs, g') = rand_list F t g; coeffs = secret # rs
       in Ok (map (\<lambda>p. \<lparr>point = p, share_value = eval_poly coeffs p\<rparr>) ps, g'))"

definition committee_split ::
  "('f::field, 'g) share_field_ops \<Rightarrow> 'f committee \<Rightarrow> 'f \<Rightarrow> 'g \<Rightarrow> (mpc_error, 'f shamir_share list \<times> 'g) res"
where
  "committee_split F c secret g = split_secret F secret (threshold c) (points c) g"

section \<open>Reconstruction\<close>

definition has_duplicate_point :: "'f list \<Rightarrow> bool" where
  "has_duplicate_point ps =
     list_ex (\<lambda>i. list_ex (\<lambda>j. ps ! i = ps ! j) [Suc i..<length ps]) [0..<length ps]"

text \<open>The two nested loops of \<open>interpolate\<close>: the basis value of point \<open>i\<close> at zero, then the sum.\<close>

definition basis_at_zero :: "'f::field list \<Rightarrow> nat \<Rightarrow> 'f \<Rightarrow> (mpc_error, 'f) res" where
  "basis_at_zero ps i pi =
     foldR (\<lambda>(j, pj) li. if i \<noteq> j then bindR (fdiv (- pj) (pi - pj)) (\<lambda>q. Ok (li * q)) else Ok li)
       (List.enumerate 0 ps) 1"

definition interpolate :: "'f::field list \<Rightarrow> 'f list \<Rightarrow> nat \<Rightarrow> (mpc_error, 'f) res" where
  "interpolate ps vals min_shares =
     (if length ps < min_shares then Err InsufficientShares
      else if has_duplicate_point ps then Err DuplicateShare
      else foldR (\<lambda>(i, pi) acc.
             bindR (basis_at_zero ps i pi) (\<lambda>li. bindR (nthR vals i) (\<lambda>v. Ok (acc + li * v))))
           (List.enumerate 0 ps) 0)"

definition reconstruct :: "'f::field shamir_share list \<Rightarrow> nat \<Rightarrow> (mpc_error, 'f) res" where
  "reconstruct shares min_shares = interpolate (map point shares) (map share_value shares) min_shares"

definition committee_reconstruct :: "'f::field committee \<Rightarrow> 'f shamir_share list \<Rightarrow> (mpc_error, 'f) res" where
  "committee_reconstruct c shares = reconstruct shares (threshold c + 1)"

definition reconstruct_from_parts :: "'f::field list \<Rightarrow> 'f list \<Rightarrow> nat \<Rightarrow> (mpc_error, 'f) res" where
  "reconstruct_from_parts ps vals min_shares =
     (if length ps \<noteq> length vals then Err ShareCountMismatch else interpolate ps vals min_shares)"

section \<open>Holder sets\<close>

definition holder_basis :: "nat list \<Rightarrow> 'f::field list \<Rightarrow> 'f \<Rightarrow> (mpc_error, 'f) res" where
  "holder_basis holder ps x =
     foldR (\<lambda>(j, a) acc. if j \<notin> set holder then bindR (fdiv (x - a) (- a)) (\<lambda>q. Ok (acc * q)) else Ok acc)
       (List.enumerate 0 ps) 1"

text \<open>
  One turn of the outer loop of \<open>combinations\<close>: scan from the right for a position that can still
  grow, increment it and refill the positions after it; \<open>None\<close> is the \<open>return\<close> at \<open>i = 0\<close>.
\<close>

definition refill_after :: "nat \<Rightarrow> nat list \<Rightarrow> nat list" where
  "refill_after i cur = fold (\<lambda>j c. c[j := c ! (j - 1) + 1]) [Suc i..<length cur] cur"

primrec next_combination :: "nat \<Rightarrow> nat list \<Rightarrow> nat \<Rightarrow> nat list option" where
  "next_combination n cur 0 = None"
| "next_combination n cur (Suc i) =
     (if cur ! i < n - length cur + i then Some (refill_after i (cur[i := cur ! i + 1]))
      else next_combination n cur i)"

section \<open>Correctness of splitting and reconstruction\<close>

lemma eval_poly_horner: "eval_poly cs x = horner cs x"
proof -
  have "foldr (\<lambda>c acc. acc * x + c) cs 0 = horner cs x"
    by (induction cs) (auto simp: algebra_simps)
  then show ?thesis by (simp add: eval_poly_def foldr_conv_fold)
qed

lemma has_duplicate_point_iff [simp]: "has_duplicate_point ps \<longleftrightarrow> \<not> distinct ps"
proof -
  have "has_duplicate_point ps \<longleftrightarrow> (\<exists>i j. i < j \<and> j < length ps \<and> ps ! i = ps ! j)" (is "_ \<longleftrightarrow> ?dup")
  proof
    assume "has_duplicate_point ps"
    then obtain i j where ij: "i \<in> set [0..<length ps]" "j \<in> set [Suc i..<length ps]" "ps ! i = ps ! j"
      unfolding has_duplicate_point_def list_ex_iff by blast
    then have "i < j \<and> j < length ps" by simp
    with ij(3) show ?dup by blast
  next
    assume ?dup
    then obtain i j where "i < j" "j < length ps" "ps ! i = ps ! j" by blast
    then have "i \<in> set [0..<length ps]" "j \<in> set [Suc i..<length ps]" "ps ! i = ps ! j" by simp_all
    then show "has_duplicate_point ps" unfolding has_duplicate_point_def list_ex_iff by blast
  qed
  also have "?dup \<longleftrightarrow> \<not> distinct ps"
  proof
    assume ?dup
    then obtain i j where ij: "i < j" "j < length ps" "ps ! i = ps ! j" by blast
    then have "i < length ps" "i \<noteq> j" by simp_all
    with ij(2,3) show "\<not> distinct ps" using nth_eq_iff_index_eq by blast
  next
    assume "\<not> distinct ps"
    then obtain i j where ij: "i < length ps" "j < length ps" "i \<noteq> j" "ps ! i = ps ! j"
      unfolding distinct_conv_nth by blast
    have "min i j < max i j" "max i j < length ps" "ps ! min i j = ps ! max i j"
      using ij by (auto simp: min_def max_def)
    then show ?dup by blast
  qed
  finally show ?thesis .
qed

text \<open>A loop over indexed elements that multiplies, or adds, computes the product, or the sum.\<close>

lemma fold_enumerate_prod:
  "fold (\<lambda>(j, a) acc. if P j then acc * f a else acc) (List.enumerate n xs) (z :: 'f::comm_monoid_mult) =
   z * (\<Prod>j \<in> {j. j < length xs \<and> P (n + j)}. f (xs ! j))"
proof (induction xs arbitrary: n z)
  case (Cons a xs)
  have "{j. j < length (a # xs) \<and> P (n + j)} =
        (if P n then {0} else {}) \<union> Suc ` {j. j < length xs \<and> P (Suc n + j)}"
    by (auto simp: image_iff less_Suc_eq_0_disj)
  then have "(\<Prod>j \<in> {j. j < length (a # xs) \<and> P (n + j)}. f ((a # xs) ! j)) =
        (if P n then f a else 1) * (\<Prod>j \<in> {j. j < length xs \<and> P (Suc n + j)}. f (xs ! j))"
    by (simp add: prod.reindex)
  with Cons.IH show ?case by (simp add: mult.assoc)
qed simp

lemma fold_enumerate_sum:
  "fold (\<lambda>(i, a) acc. acc + f i) (List.enumerate n xs) (z :: 'f::comm_monoid_add) =
   z + (\<Sum>i < length xs. f (n + i))"
proof (induction xs arbitrary: n z)
  case (Cons a xs)
  have "(\<Sum>i < length (a # xs). f (n + i)) = f n + (\<Sum>i < length xs. f (Suc n + i))"
    by (simp add: lessThan_Suc_eq_insert_0 sum.reindex del: sum.lessThan_Suc)
  with Cons.IH show ?case by (simp add: add.assoc)
qed simp

text \<open>Under distinct points no division fails and interpolation is \<open>lagrange\<close> at zero.\<close>

lemma basis_at_zero_eq:
  assumes "distinct ps" "i < length ps"
  shows "basis_at_zero ps i (ps ! i) = Ok (lagrange_basis ps i 0)"
proof -
  have "basis_at_zero ps i (ps ! i) =
        Ok (fold (\<lambda>(j, pj) li. if i \<noteq> j then li * (- pj / (ps ! i - pj)) else li) (List.enumerate 0 ps) 1)"
    unfolding basis_at_zero_def
  proof (rule foldR_Ok)
    fix x :: "nat \<times> 'a" and s :: 'a
    assume "x \<in> set (List.enumerate 0 ps)"
    then obtain j where j: "x = (j, ps ! j)" "j < length ps" by (auto simp: enumerate_eq_map_nth)
    have "ps ! i - ps ! j \<noteq> 0" if "i \<noteq> j"
      using that j assms by (simp add: nth_eq_iff_index_eq)
    then show "(case x of (j, pj) \<Rightarrow> \<lambda>li. if i \<noteq> j
                 then bindR (fdiv (- pj) (ps ! i - pj)) (\<lambda>q. Ok (li * q)) else Ok li) s
             = Ok ((case x of (j, pj) \<Rightarrow> \<lambda>li. if i \<noteq> j then li * (- pj / (ps ! i - pj)) else li) s)"
      by (simp add: j fdiv_Ok)
  qed
  also have "\<dots> = Ok (\<Prod>j \<in> {j. j < length ps \<and> i \<noteq> j}. - (ps ! j) / (ps ! i - ps ! j))"
    by (simp add: fold_enumerate_prod)
  also have "{j. j < length ps \<and> i \<noteq> j} = {..<length ps} - {i}" by auto
  finally show ?thesis by (simp add: lagrange_basis_def)
qed

lemma interpolate_lagrange:
  assumes "distinct ps" "length vals = length ps" "k \<le> length ps"
  shows "interpolate ps vals k = Ok (lagrange ps vals 0)"
proof -
  have "foldR (\<lambda>(i, pi) acc.
          bindR (basis_at_zero ps i pi) (\<lambda>li. bindR (nthR vals i) (\<lambda>v. Ok (acc + li * v))))
          (List.enumerate 0 ps) 0 =
        Ok (fold (\<lambda>(i, pi) acc. acc + lagrange_basis ps i 0 * vals ! i) (List.enumerate 0 ps) 0)"
    by (rule foldR_Ok) (auto simp: enumerate_eq_map_nth basis_at_zero_eq assms nthR_in_range)
  also have "\<dots> = Ok (lagrange ps vals 0)"
    by (simp add: fold_enumerate_sum lagrange_def)
  finally show ?thesis using assms by (simp add: interpolate_def)
qed

definition sharing :: "nat \<Rightarrow> ('f::field \<Rightarrow> 'f) \<Rightarrow> 'f shamir_share list \<Rightarrow> bool" where
  "sharing d f shares \<longleftrightarrow> pdeg d f \<and> (\<forall>s \<in> set shares. share_value s = f (point s))"

lemma sharing_values: "sharing d f shares \<Longrightarrow> map share_value shares = map f (map point shares)"
  by (auto simp: sharing_def)

lemma sharing_subset: "sharing d f shares \<Longrightarrow> set sub \<subseteq> set shares \<Longrightarrow> sharing d f sub"
  by (auto simp: sharing_def)

text \<open>Any \<open>d + 1\<close> distinct shares determine the secret.\<close>

lemma reconstruct_sharing:
  assumes "sharing d f shares" "distinct (map point shares)" "d < length shares" "k \<le> length shares"
  shows "reconstruct shares k = Ok (f 0)"
proof -
  have "lagrange (map point shares) (map f (map point shares)) 0 = f 0"
    by (rule lagrange_recovers [where d = d]) (use assms in \<open>simp_all add: sharing_def\<close>)
  then show ?thesis
    unfolding reconstruct_def sharing_values [OF assms(1)]
    using assms(2-4) by (subst interpolate_lagrange) simp_all
qed

lemma reconstruct_from_parts_eq:
  "length ps = length vals \<Longrightarrow>
   reconstruct_from_parts ps vals k = reconstruct (map2 (\<lambda>p v. \<lparr>point = p, share_value = v\<rparr>) ps vals) k"
  by (simp add: reconstruct_from_parts_def reconstruct_def comp_def split_beta)

lemma reconstruct_errors:
  "length shares < k \<Longrightarrow> reconstruct shares k = Err InsufficientShares"
  "k \<le> length shares \<Longrightarrow> \<not> distinct (map point shares) \<Longrightarrow> reconstruct shares k = Err DuplicateShare"
  by (simp_all add: reconstruct_def interpolate_def)

lemma reconstruct_total: "reconstruct shares k \<noteq> Panic"
proof (cases "length shares < k \<or> \<not> distinct (map point shares)")
  case True
  then show ?thesis by (auto simp: reconstruct_def interpolate_def)
next
  case False
  then show ?thesis by (simp add: reconstruct_def interpolate_lagrange)
qed

lemma split_secret_sharing:
  assumes "split_secret F x t ps g = Ok (shares, g')"
  shows "\<exists>f. sharing t f shares \<and> f 0 = x" and "map point shares = ps" and "0 < t" and "t < length ps"
proof -
  let ?cs = "x # fst (rand_list F t g)"
  have ok: "0 < t" "t < length ps"
    and sh: "shares = map (\<lambda>p. \<lparr>point = p, share_value = eval_poly ?cs p\<rparr>) ps"
    using assms by (auto simp: split_secret_def validate_parameters_def split_beta split: if_splits)
  have "sharing t (horner ?cs) shares"
    by (auto simp: sharing_def sh eval_poly_horner intro: pdeg_horner)
  moreover have "horner ?cs 0 = x" by simp
  ultimately show "\<exists>f. sharing t f shares \<and> f 0 = x" by blast
  show "map point shares = ps" by (simp add: sh comp_def)
  show "0 < t" "t < length ps" by (rule ok)+
qed

lemma split_secret_Ok:
  "0 < t \<Longrightarrow> t < length ps \<Longrightarrow> \<exists>shares g'. split_secret F x t ps g = Ok (shares, g')"
  by (simp add: split_secret_def validate_parameters_def split_beta)

lemma eval_split:
  "split_secret F x t ps g = Ok (shares, g') \<Longrightarrow>
   map share_value shares = map (horner (x # fst (rand_list F t g))) ps"
  by (auto simp: split_secret_def eval_poly_horner split_beta)

section \<open>Committees\<close>

lemma validate_parameters_Ok [simp]: "validate_parameters t n = Ok u \<longleftrightarrow> 0 < t \<and> t < n"
  by (auto simp: validate_parameters_def)

lemma length_evaluation_points [simp]: "length (evaluation_points F n) = n"
  by (simp add: evaluation_points_def)

lemma nth_evaluation_points [simp]:
  "i < n \<Longrightarrow> evaluation_points F n ! i = sf_from_u64 F (of_nat (Suc i))"
  by (simp add: evaluation_points_def del: upt_Suc)

text \<open>The points of a committee are usable when they are distinct and nonzero.\<close>

definition good_points :: "'f::zero list \<Rightarrow> bool" where
  "good_points ps \<longleftrightarrow> distinct ps \<and> 0 \<notin> set ps"

definition good_committee :: "'f::zero committee \<Rightarrow> bool" where
  "good_committee c \<longleftrightarrow> good_points (points c) \<and> 0 < threshold c \<and> threshold c < committee_size c"

context share_field
begin

lemma good_evaluation_points: "n < limit \<Longrightarrow> good_points (evaluation_points ops n)"
proof -
  assume n: "n < limit"
  have "distinct (evaluation_points ops n)"
    unfolding distinct_conv_nth
  proof (intro allI impI)
    fix i j assume "i < length (evaluation_points ops n)" "j < length (evaluation_points ops n)" "i \<noteq> j"
    then show "evaluation_points ops n ! i \<noteq> evaluation_points ops n ! j"
      using n small_inj [of "Suc i" "Suc j"] by auto
  qed
  moreover have "0 \<notin> set (evaluation_points ops n)"
    using n small_nonzero by (auto simp: evaluation_points_def simp del: upt_Suc)
  ultimately show ?thesis by (simp add: good_points_def)
qed

lemma committee_new_good:
  "committee_new ops t n = Ok c \<Longrightarrow> n < limit \<Longrightarrow> good_committee c"
  by (auto simp: committee_new_def good_committee_def committee_size_def good_evaluation_points)

end

lemma committee_reconstruct_sharing:
  assumes "good_committee c" "sharing (threshold c) f x" "map point x = points c"
  shows "committee_reconstruct c x = Ok (f 0)"
proof -
  have "length x = length (points c)" using assms(3) by (metis length_map)
  then show ?thesis
    unfolding committee_reconstruct_def
    using assms by (intro reconstruct_sharing) (auto simp: good_committee_def good_points_def committee_size_def)
qed

section \<open>Holder-basis polynomials\<close>

definition outside :: "nat list \<Rightarrow> nat \<Rightarrow> nat set" where
  "outside holder n = {j. j < n \<and> j \<notin> set holder}"

definition holder_poly :: "nat list \<Rightarrow> 'f::field list \<Rightarrow> 'f \<Rightarrow> 'f" where
  "holder_poly holder ps x = (\<Prod>j \<in> outside holder (length ps). (x - ps ! j) / (- (ps ! j)))"

lemma finite_outside [simp]: "finite (outside holder n)"
  by (simp add: outside_def)

lemma card_outside:
  assumes "distinct holder" "set holder \<subseteq> {..<n}"
  shows "card (outside holder n) = n - length holder"
proof -
  have "outside holder n = {..<n} - set holder" by (auto simp: outside_def)
  then show ?thesis using assms by (simp add: card_Diff_subset distinct_card)
qed

lemma nth_nonzero: "0 \<notin> set ps \<Longrightarrow> j < length ps \<Longrightarrow> ps ! j \<noteq> 0"
  by (metis nth_mem)

lemma holder_basis_eq:
  assumes "0 \<notin> set ps"
  shows "holder_basis holder ps x = Ok (holder_poly holder ps x)"
proof -
  have "holder_basis holder ps x =
        Ok (fold (\<lambda>(j, a) acc. if j \<notin> set holder then acc * ((x - a) / (- a)) else acc) (List.enumerate 0 ps) 1)"
    unfolding holder_basis_def
    by (rule foldR_Ok) (use assms in \<open>auto simp: enumerate_eq_map_nth nth_nonzero fdiv_Ok\<close>)
  also have "\<dots> = Ok (\<Prod>j \<in> outside holder (length ps). (x - ps ! j) / (- (ps ! j)))"
    by (subst fold_enumerate_prod) (simp add: outside_def)
  finally show ?thesis by (simp add: holder_poly_def)
qed

lemma holder_poly_zero:
  assumes "0 \<notin> set ps"
  shows "holder_poly holder ps 0 = 1"
  unfolding holder_poly_def
proof (rule prod.neutral, rule ballI)
  fix j assume "j \<in> outside holder (length ps)"
  then have "ps ! j \<noteq> 0" using assms by (simp add: outside_def nth_nonzero)
  then show "(0 - ps ! j) / - ps ! j = 1" by simp
qed

lemma holder_poly_outside:
  "i < length ps \<Longrightarrow> i \<notin> set holder \<Longrightarrow> holder_poly holder ps (ps ! i) = 0"
  unfolding holder_poly_def by (rule prod_zero) (auto simp: outside_def)

lemma pdeg_holder_poly:
  "card (outside holder (length ps)) \<le> d \<Longrightarrow> pdeg d (holder_poly holder ps)"
  unfolding holder_poly_def
  by (rule pdeg_mono [OF pdeg_prod], simp, intro pdeg_divide pdeg_linear)

section \<open>Enumerating the holder sets\<close>

lemma refill_prefix:
  assumes "i < length cur" "m \<le> length cur"
  shows "length (fold (\<lambda>j c. c[j := c ! (j - 1) + 1]) [Suc i..<m] cur) = length cur \<and>
         (\<forall>j < length cur. fold (\<lambda>j c. c[j := c ! (j - 1) + 1]) [Suc i..<m] cur ! j =
            (if i < j \<and> j < m then cur ! i + (j - i) else cur ! j))"
  using assms(2)
proof (induction m)
  case (Suc m)
  show ?case
  proof (cases "i < m")
    case True
    let ?c = "fold (\<lambda>j c. c[j := c ! (j - 1) + 1]) [Suc i..<m] cur"
    have IH: "length ?c = length cur"
      "\<And>j. j < length cur \<Longrightarrow> ?c ! j = (if i < j \<and> j < m then cur ! i + (j - i) else cur ! j)"
      using Suc by simp_all
    have prev: "?c ! (m - 1) + 1 = cur ! i + (m - i)"
      using IH(2) [of "m - 1"] True Suc.prems by (cases "i = m - 1") auto
    have step: "fold (\<lambda>j c. c[j := c ! (j - 1) + 1]) [Suc i..<Suc m] cur = ?c[m := cur ! i + (m - i)]"
      unfolding prev [symmetric] using True by simp
    have "?c[m := cur ! i + (m - i)] ! j = (if i < j \<and> j < Suc m then cur ! i + (j - i) else cur ! j)"
      if "j < length cur" for j
      using that True IH(2) [OF that] by (cases "j = m") (simp_all add: IH(1) [simplified] less_Suc_eq)
    then show ?thesis
      unfolding step by (simp add: IH(1) [simplified])
  next
    case False
    then have "[Suc i..<Suc m] = []" and "\<And>j. \<not> (i < j \<and> j < Suc m)" by auto
    then show ?thesis by (simp only: fold_simps id_apply if_False) simp
  qed
qed simp

lemma length_refill_after [simp]: "i < length cur \<Longrightarrow> length (refill_after i cur) = length cur"
  using refill_prefix [of i cur "length cur"] by (simp add: refill_after_def)

lemma nth_refill_after:
  "i < length cur \<Longrightarrow> j < length cur \<Longrightarrow>
   refill_after i cur ! j = (if i < j then cur ! i + (j - i) else cur ! j)"
  using refill_prefix [of i cur "length cur"] by (simp add: refill_after_def)

text \<open>A successful step increments the last position that can grow.\<close>

lemma next_combination_Some:
  assumes "next_combination n cur m = Some c" "m \<le> length cur"
  obtains i where "i < m" "cur ! i < n - length cur + i"
    "\<And>j. i < j \<Longrightarrow> j < m \<Longrightarrow> \<not> cur ! j < n - length cur + j"
    "length c = length cur"
    "\<And>j. j < length cur \<Longrightarrow> c ! j = (if i \<le> j then cur ! i + 1 + (j - i) else cur ! j)"
  using assms
proof (induction m arbitrary: thesis)
  case (Suc m)
  show ?case
  proof (cases "cur ! m < n - length cur + m")
    case True
    with Suc.prems have c: "c = refill_after m (cur[m := cur ! m + 1])" by simp
    show ?thesis
      by (rule Suc.prems(1) [of m]) (use True Suc.prems(3) in \<open>auto simp: c nth_refill_after\<close>)
  next
    case False
    with Suc.prems have n: "next_combination n cur m = Some c" "m \<le> length cur" by simp_all
    show ?thesis
    proof (rule Suc.IH [OF _ n])
      fix i assume i: "i < m" "cur ! i < n - length cur + i"
        "\<And>j. i < j \<Longrightarrow> j < m \<Longrightarrow> \<not> cur ! j < n - length cur + j" "length c = length cur"
        "\<And>j. j < length cur \<Longrightarrow> c ! j = (if i \<le> j then cur ! i + 1 + (j - i) else cur ! j)"
      show thesis
        by (rule Suc.prems(1) [of i]) (use i False in \<open>auto simp: less_Suc_eq\<close>)
    qed
  qed
qed simp

lemma next_combination_None:
  "next_combination n cur m = None \<Longrightarrow> j < m \<Longrightarrow> \<not> cur ! j < n - length cur + j"
  by (induction m) (auto simp: less_Suc_eq split: if_splits)

lemma next_combination_decreases:
  assumes "next_combination n cur (length cur) = Some c"
  shows "(map (\<lambda>v. n + length c - v) c, map (\<lambda>v. n + length cur - v) cur) \<in> lex less_than"
proof -
  obtain i where i: "i < length cur" "cur ! i < n - length cur + i" "length c = length cur"
    "\<And>j. j < length cur \<Longrightarrow> c ! j = (if i \<le> j then cur ! i + 1 + (j - i) else cur ! j)"
    by (rule next_combination_Some [OF assms order_refl]) blast
  have take: "take i c = take i cur"
    by (rule nth_equalityI) (use i in auto)
  have "n + length cur - c ! i < n + length cur - cur ! i" using i by simp
  moreover have "map (\<lambda>v. n + length cur - v) c = map (\<lambda>v. n + length cur - v) (take i cur) @ (n + length cur - c ! i) # map (\<lambda>v. n + length cur - v) (drop (Suc i) c)"
    using i id_take_nth_drop [of i c] take by (metis map_append list.map(2))
  moreover have "map (\<lambda>v. n + length cur - v) cur = map (\<lambda>v. n + length cur - v) (take i cur) @ (n + length cur - cur ! i) # map (\<lambda>v. n + length cur - v) (drop (Suc i) cur)"
    using i id_take_nth_drop [of i cur] by (metis map_append list.map(2))
  ultimately show ?thesis
    using i unfolding lex_conv by (auto simp: i(3) intro!: exI)
qed

text \<open>The remaining room of each position decreases lexicographically, so the loop ends.\<close>

function combinations_loop :: "nat \<Rightarrow> nat list \<Rightarrow> nat list list" where
  "combinations_loop n cur =
     cur # (case next_combination n cur (length cur) of None \<Rightarrow> [] | Some c \<Rightarrow> combinations_loop n c)"
  by pat_completeness auto

termination
  by (relation "inv_image (lex less_than) (\<lambda>(n, cur). map (\<lambda>v. n + length cur - v) cur)")
    (auto intro: next_combination_decreases)

declare combinations_loop.simps [simp del]

definition combinations :: "nat \<Rightarrow> nat \<Rightarrow> nat list list" where
  "combinations n k =
     (if n < k then [] else if k = 0 then [[]] else combinations_loop n [0..<k])"

text \<open>\<open>n - degree\<close> on \<open>usize\<close> panics when it underflows.\<close>

definition holder_sets :: "nat \<Rightarrow> nat \<Rightarrow> (mpc_error, nat list list) res" where
  "holder_sets n degree = (if degree \<le> n then Ok (combinations n (n - degree)) else Panic)"

definition subset_list :: "nat \<Rightarrow> nat \<Rightarrow> nat list \<Rightarrow> bool" where
  "subset_list n k cs \<longleftrightarrow> length cs = k \<and> sorted_wrt (<) cs \<and> set cs \<subseteq> {..<n}"

definition lex_before :: "nat list \<Rightarrow> nat list \<Rightarrow> bool" where
  "lex_before xs ys \<longleftrightarrow> (\<exists>m < length xs. (\<forall>j < m. xs ! j = ys ! j) \<and> xs ! m < ys ! m)"

lemma lex_beforeI:
  "m < length xs \<Longrightarrow> (\<And>j. j < m \<Longrightarrow> xs ! j = ys ! j) \<Longrightarrow> xs ! m < ys ! m \<Longrightarrow> lex_before xs ys"
  by (auto simp: lex_before_def)

lemma pointwise_lex:
  assumes "length xs = length ys" "\<And>j. j < length xs \<Longrightarrow> xs ! j \<le> ys ! j"
  shows "ys = xs \<or> lex_before xs ys"
proof (cases "\<exists>j. j < length xs \<and> xs ! j \<noteq> ys ! j")
  case True
  then obtain m where m: "m < length xs" "xs ! m \<noteq> ys ! m"
    and least: "\<And>j. j < m \<Longrightarrow> \<not> (j < length xs \<and> xs ! j \<noteq> ys ! j)"
    unfolding exists_least_iff [of "\<lambda>j. j < length xs \<and> xs ! j \<noteq> ys ! j"] by blast
  have "lex_before xs ys"
  proof (rule lex_beforeI)
    show "xs ! j = ys ! j" if "j < m" for j using least [OF that] that m(1) by simp
    show "xs ! m < ys ! m" using m assms(2) [of m] by simp
  qed (rule m(1))
  then show ?thesis ..
next
  case False
  then show ?thesis using assms(1) by (auto intro: nth_equalityI)
qed

lemma lex_before_irrefl: "\<not> lex_before xs xs"
  by (auto simp: lex_before_def)

lemma lex_before_trans:
  assumes "lex_before xs ys" "lex_before ys zs"
  shows "lex_before xs zs"
proof -
  obtain m where m: "m < length xs" "\<forall>j<m. xs ! j = ys ! j" "xs ! m < ys ! m"
    using assms(1) by (auto simp: lex_before_def)
  obtain l where l: "\<forall>j<l. ys ! j = zs ! j" "ys ! l < zs ! l"
    using assms(2) by (auto simp: lex_before_def)
  have "min m l < length xs" using m(1) by simp
  moreover have "\<forall>j<min m l. xs ! j = zs ! j" using m l by simp
  moreover have "xs ! min m l < zs ! min m l"
    using m l by (cases m l rule: linorder_cases) auto
  ultimately show ?thesis unfolding lex_before_def by blast
qed

lemma subset_list_less: "subset_list n k d \<Longrightarrow> j < k \<Longrightarrow> d ! j < n"
  unfolding subset_list_def using nth_mem by blast

lemma subset_list_gap: "sorted_wrt (<) (d :: nat list) \<Longrightarrow> i + e < length d \<Longrightarrow> d ! i + e \<le> d ! (i + e)"
proof (induction e)
  case (Suc e)
  then have "d ! (i + e) < d ! (i + Suc e)" by (intro sorted_wrt_nth_less) auto
  with Suc show ?case by simp
qed simp

lemma subset_list_bound:
  assumes "subset_list n k d" "j < k"
  shows "d ! j \<le> n - k + j"
proof -
  have d: "length d = k" "sorted_wrt (<) d" "set d \<subseteq> {..<n}"
    using assms by (simp_all add: subset_list_def)
  have "d ! j + (k - 1 - j) \<le> d ! (k - 1)"
    using subset_list_gap [OF d(2), of j "k - 1 - j"] assms(2) d(1) by simp
  moreover have "d ! (k - 1) < n"
    using subset_list_less [OF assms(1), of "k - 1"] assms(2) by simp
  ultimately show ?thesis using assms(2) by simp
qed

text \<open>The first combination is the least; the step goes to the immediate successor.\<close>

lemma subset_list_first: "k \<le> n \<Longrightarrow> subset_list n k [0..<k]"
  by (auto simp: subset_list_def)

lemma first_least:
  assumes "subset_list n k d"
  shows "d = [0..<k] \<or> lex_before [0..<k] d"
proof (rule pointwise_lex)
  have d: "length d = k" "sorted_wrt (<) d" using assms by (simp_all add: subset_list_def)
  then show "length [0..<k] = length d" by simp
  show "[0..<k] ! j \<le> d ! j" if "j < length [0..<k]" for j
    using subset_list_gap [OF d(2), of 0 j] that d(1) by simp
qed

lemma next_combination_sound:
  assumes cur: "subset_list n k cur" and "k \<le> n" and "next_combination n cur (length cur) = Some c"
  shows "subset_list n k c" "lex_before cur c"
proof -
  have k: "length cur = k" "sorted_wrt (<) cur" "set cur \<subseteq> {..<n}" using cur by (simp_all add: subset_list_def)
  obtain i where i: "i < k" "cur ! i < n - k + i" "length c = k"
    "\<And>j. j < k \<Longrightarrow> c ! j = (if i \<le> j then cur ! i + 1 + (j - i) else cur ! j)"
    by (rule next_combination_Some [OF assms(3) order_refl]) (use k(1) in auto)
  have "c ! a < c ! b" if "a < b" "b < k" for a b
    using i(4) [of a] i(4) [of b] that sorted_wrt_nth_less [OF k(2), of a b]
      sorted_wrt_nth_less [OF k(2), of a i] k(1) i(1) by (cases "a < i") auto
  then have "sorted_wrt (<) c" using i(3) by (simp add: sorted_wrt_iff_nth_less)
  moreover have "c ! j < n" if "j < k" for j
  proof (cases "i \<le> j")
    case True
    then show ?thesis using i(4) [OF that] i(1,2) that assms(2) by simp
  next
    case False
    then show ?thesis using i(4) [OF that] subset_list_less [OF cur that] by simp
  qed
  ultimately show "subset_list n k c"
    using i(3) by (auto simp: subset_list_def in_set_conv_nth)
  show "lex_before cur c"
    unfolding lex_before_def using i k(1) by (intro exI [of _ i]) auto
qed

lemma next_combination_immediate:
  assumes cur: "subset_list n k cur" and d: "subset_list n k d" and before: "lex_before cur d"
    and le: "k \<le> n"
  shows "\<exists>c. next_combination n cur (length cur) = Some c \<and> (d = c \<or> lex_before c d)"
proof -
  have k: "length cur = k" "length d = k" "sorted_wrt (<) d" using cur d by (simp_all add: subset_list_def)
  obtain m where m: "m < k" "\<forall>j<m. cur ! j = d ! j" "cur ! m < d ! m"
    using before k by (auto simp: lex_before_def)
  have grow: "cur ! m < n - k + m" using m(3) subset_list_bound [OF d m(1)] by simp
  then have "next_combination n cur (length cur) \<noteq> None"
    using next_combination_None [of n cur "length cur" m] m(1) k(1) by auto
  then obtain c where c: "next_combination n cur (length cur) = Some c" by auto
  obtain i where i: "i < k" "\<And>j. i < j \<Longrightarrow> j < k \<Longrightarrow> \<not> cur ! j < n - k + j" "length c = k"
    "\<And>j. j < k \<Longrightarrow> c ! j = (if i \<le> j then cur ! i + 1 + (j - i) else cur ! j)"
    by (rule next_combination_Some [OF c order_refl]) (use k(1) in auto)
  have mi: "m \<le> i" using i(2) [of m] grow m(1) by (cases "i < m") auto
  have "d = c \<or> lex_before c d"
  proof (cases "m = i")
    case False
    have "lex_before c d"
      by (rule lex_beforeI [of m]) (use False mi m i in auto)
    then show ?thesis ..
  next
    case True
    have ge: "c ! j \<le> d ! j" if "j < k" for j
    proof (cases "i \<le> j")
      case le: True
      have "d ! i + (j - i) \<le> d ! j" using subset_list_gap [OF k(3), of i "j - i"] le that k(2) by simp
      with True m(3) i(4) [OF that] le show ?thesis by simp
    qed (use i(4) [OF that] m(2) True in auto)
    show ?thesis by (rule pointwise_lex) (use ge i(3) k(2) in simp_all)
  qed
  with c show ?thesis by blast
qed

lemma combinations_loop_correct:
  assumes "subset_list n k cur" "k \<le> n"
  shows "set (combinations_loop n cur) = {d. subset_list n k d \<and> (d = cur \<or> lex_before cur d)} \<and>
         sorted_wrt lex_before (combinations_loop n cur)"
  using assms
proof (induction n cur rule: combinations_loop.induct)
  case (1 n cur)
  show ?case
  proof (cases "next_combination n cur (length cur)")
    case None
    then have "\<not> lex_before cur d" if "subset_list n k d" for d
      using next_combination_immediate [OF "1.prems"(1) that] "1.prems"(2) by auto
    with None "1.prems" show ?thesis by (auto simp: combinations_loop.simps [of n cur])
  next
    case (Some c)
    note c = next_combination_sound [OF "1.prems" Some]
    have IH: "set (combinations_loop n c) = {d. subset_list n k d \<and> (d = c \<or> lex_before c d)}"
      "sorted_wrt lex_before (combinations_loop n c)"
      using "1.IH" [OF Some c(1) "1.prems"(2)] by simp_all
    have "lex_before cur d" if "d \<in> set (combinations_loop n c)" for d
      using that c(2) lex_before_trans by (auto simp: IH(1))
    moreover have "d \<in> set (combinations_loop n c)" if "subset_list n k d" "lex_before cur d" for d
      using next_combination_immediate [OF "1.prems"(1) that "1.prems"(2)] Some that(1) by (auto simp: IH(1))
    moreover have "combinations_loop n cur = cur # combinations_loop n c"
      using Some by (simp add: combinations_loop.simps [of n cur])
    ultimately show ?thesis using IH "1.prems"(1) by auto
  qed
qed

lemma combinations_correct:
  "set (combinations n k) = {cs. subset_list n k cs}" "sorted_wrt lex_before (combinations n k)"
proof -
  have "set (combinations n k) = {cs. subset_list n k cs} \<and> sorted_wrt lex_before (combinations n k)"
  proof (cases "n < k")
    case True
    have "\<not> subset_list n k cs" for cs
    proof
      assume "subset_list n k cs"
      then have "length cs = k" "distinct cs" "set cs \<subseteq> {..<n}"
        by (auto simp: subset_list_def strict_sorted_iff)
      then have "k \<le> n" using card_mono [of "{..<n}" "set cs"] by (simp add: distinct_card)
      with True show False by simp
    qed
    with True show ?thesis by (simp add: combinations_def)
  next
    case False
    show ?thesis
    proof (cases "k = 0")
      case True
      then show ?thesis by (auto simp: combinations_def subset_list_def)
    next
      case k: False
      have "{d. subset_list n k d \<and> (d = [0..<k] \<or> lex_before [0..<k] d)} = {d. subset_list n k d}"
        using first_least [of n k] by blast
      with False k show ?thesis
        using combinations_loop_correct [OF subset_list_first, of k n] by (simp add: combinations_def)
    qed
  qed
  then show "set (combinations n k) = {cs. subset_list n k cs}" "sorted_wrt lex_before (combinations n k)"
    by simp_all
qed

lemma distinct_combinations: "distinct (combinations n k)"
proof -
  have "sorted_wrt lex_before xs \<Longrightarrow> distinct xs" for xs
    by (induction xs) (auto simp: lex_before_irrefl)
  then show ?thesis by (simp add: combinations_correct)
qed

lemma holder_sets_Ok:
  assumes "holder_sets n d = Ok hs" "h \<in> set hs"
  shows "distinct h" "set h \<subseteq> {..<n}" "length h = n - d"
  using assms
  by (auto simp: holder_sets_def combinations_correct subset_list_def strict_sorted_iff split: if_splits)

section \<open>Properties\<close>

text \<open>C1. Round trip: splitting under a fresh committee succeeds, and any selection of more than
  \<open>threshold\<close> of the shares, in any order, reconstructs the secret.\<close>

theorem split_reconstruct_roundtrip:
  assumes "share_field F limit" and "0 < t" "t < n" "n < limit"
    and sel: "distinct sel" "set sel \<subseteq> {..<n}" "t < length sel"
  shows "\<exists>c shares g'. committee_new F t n = Ok c \<and> committee_split F c x g = Ok (shares, g') \<and>
           length shares = n \<and> committee_reconstruct c (map (\<lambda>i. shares ! i) sel) = Ok x"
proof -
  let ?ps = "evaluation_points F n" let ?c = "\<lparr>threshold = t, points = ?ps\<rparr>"
  have c: "committee_new F t n = Ok ?c" using assms by (simp add: committee_new_def)
  obtain shares g' where split: "split_secret F x t ?ps g = Ok (shares, g')"
    using split_secret_Ok [of t ?ps F x g] assms by auto
  note sh = split_secret_sharing [OF split]
  have len: "length shares = n" using sh(2) by (metis length_map length_evaluation_points)
  let ?sub = "map (\<lambda>i. shares ! i) sel"
  obtain f where f: "sharing t f shares" "f 0 = x" using sh(1) by blast
  have "set ?sub \<subseteq> set shares" using sel(2) len by auto
  moreover have "map point ?sub = map (\<lambda>i. ?ps ! i) sel"
    unfolding sh(2) [symmetric] using sel(2) len by auto
  then have "distinct (map point ?sub)"
    using share_field.good_evaluation_points [OF assms(1,4)] sel(1,2)
    by (auto simp: distinct_map inj_on_def good_points_def nth_eq_iff_index_eq subset_iff simp del: nth_evaluation_points)
  ultimately have "committee_reconstruct ?c ?sub = Ok x"
    using reconstruct_sharing [OF sharing_subset [OF f(1)], of ?sub "t + 1"] sel(3) f(2)
    by (simp add: committee_reconstruct_def)
  with c split len show ?thesis unfolding committee_split_def by auto
qed

theorem split_reconstruct_roundtrip_witness:
  "\<exists>c shares g'. committee_new (f2_ops counter_rng) 2 5 = Ok c \<and>
     committee_split (f2_ops counter_rng) c (F2 42) 0 = Ok (shares, g') \<and> length shares = 5 \<and>
     committee_reconstruct c (map (\<lambda>i. shares ! i) [4, 0, 2]) = Ok (F2 42)"
  by (rule split_reconstruct_roundtrip [OF f2.share_field_axioms]) auto

text \<open>
  A generator that plays back a tape of field elements: with it a split is a function of the coins it draws.
\<close>

definition tape_ops :: "('f::zero, 'g) share_field_ops \<Rightarrow> ('f, 'f list) share_field_ops" where
  "tape_ops F =
     \<lparr>sf_from_u64 = sf_from_u64 F, sf_rand = (\<lambda>coins. case coins of [] \<Rightarrow> (0, []) | c # cs \<Rightarrow> (c, cs)),
      sf_from_le_bytes = sf_from_le_bytes F\<rparr>"

text \<open>What the parties at the positions \<open>sel\<close> hold.\<close>

definition seen_by :: "nat list \<Rightarrow> 'f shamir_share list \<Rightarrow> 'f list" where
  "seen_by sel shares = map (\<lambda>i. share_value (shares ! i)) sel"

lemma tape_draws: "length coins = k \<Longrightarrow> rand_list (tape_ops F) k coins = (coins, [])"
proof (induction coins arbitrary: k)
  case (Cons c coins)
  then obtain m where "k = Suc m" "length coins = m" by (cases k) auto
  then show ?case using Cons.IH [of m] by (simp add: tape_ops_def)
qed simp

lemma split_secret_draws:
  assumes "0 < t" "t < length ps"
  shows "split_secret F y t ps g = Ok (map (\<lambda>p. \<lparr>point = p, share_value = eval_poly (y # fst (rand_list F t g)) p\<rparr>) ps, snd (rand_list F t g))"
  using assms by (simp add: split_secret_def validate_parameters_def split_beta Let_def)

lemma split_secret_tape:
  assumes "0 < t" "t < length ps" "length coins = t"
  shows "split_secret (tape_ops F) y t ps coins = Ok (map (\<lambda>p. \<lparr>point = p, share_value = eval_poly (y # coins) p\<rparr>) ps, [])"
  using split_secret_draws [OF assms(1,2), of "tape_ops F" y coins] by (simp add: tape_draws [OF assms(3)])

text \<open>Any values at \<open>t\<close> points and any secret determine the other coefficients.\<close>

lemma view_explained:
  assumes "good_points ps" and sel: "distinct sel" "set sel \<subseteq> {..<length ps}" "length sel = t" and view: "length view = t"
  shows "\<exists>!ds. length ds = t \<and> map (\<lambda>i. eval_poly (y # ds) (ps ! i)) sel = view"
proof -
  let ?qs = "map (\<lambda>i. ps ! i) sel"
  have "distinct (0 # ?qs)"
    using assms(1) sel by (auto simp: good_points_def distinct_map inj_on_def nth_eq_iff_index_eq subset_iff nth_nonzero)
  then have d: "distinct ?qs" "0 \<notin> set ?qs" "distinct (0 # ?qs)" by simp_all
  obtain f where f: "pdeg t f" "map f (0 # ?qs) = y # view"
    using interpolant_exists [OF d(3), of "y # view"] sel(3) view by auto
  then obtain cs where cs: "length cs = Suc t" "f = horner cs" by (auto simp: pdeg_def)
  obtain z ds where zd: "cs = z # ds" "length ds = t" using cs(1) by (cases cs) auto
  have zy: "z = y" using f(2) by (simp add: cs(2) zd(1))
  have on_sel: "map (horner (y # ds)) ?qs = view"
    using f(2) by (simp only: cs(2) zd(1) zy list.map(2) list.inject)
  show ?thesis
  proof (rule ex1I [of _ ds])
    show "length ds = t \<and> map (\<lambda>i. eval_poly (y # ds) (ps ! i)) sel = view"
      using on_sel zd(2) by (simp add: eval_poly_horner comp_def)
    fix es assume es: "length es = t \<and> map (\<lambda>i. eval_poly (y # es) (ps ! i)) sel = view"
    then have on_es: "map (horner (y # es)) ?qs = view" by (simp add: eval_poly_horner comp_def)
    have same: "\<forall>a \<in> set ?qs. horner (y # es) a = horner (y # ds) a"
      unfolding map_eq_conv [symmetric] on_es on_sel ..
    have "y # es = y # ds"
    proof (rule horner_inject [of _ _ "set (0 # ?qs)"])
      show "length (y # es) \<le> card (set (0 # ?qs))"
        using es sel(3) d(3) by (simp only: distinct_card) simp
      show "horner (y # es) a = horner (y # ds) a" if "a \<in> set (0 # ?qs)" for a
      proof (cases "a = 0")
        case False
        with that have "a \<in> set ?qs" by simp
        then show ?thesis by (rule bspec [OF same])
      qed simp
    qed (simp_all add: es [THEN conjunct1] zd(2))
    then show "es = ds" by simp
  qed
qed

text \<open>C2. Perfect secrecy of \<open>split_secret\<close>: a split draws exactly \<open>t\<close> field elements and is a function of them, and for every
  secret the map from these elements to what any \<open>t\<close> parties hold is a bijection onto all their possible views.  So independent uniform
  draws make every view equally likely, whatever the secret is.\<close>

theorem split_hides_secret:
  assumes "good_points ps" "0 < t" "t < length ps" and sel: "distinct sel" "set sel \<subseteq> {..<length ps}" "length sel = t"
  shows "split_secret F y t ps g =
           Ok (fst (the_ok (split_secret (tape_ops F) y t ps (fst (rand_list F t g)))), snd (rand_list F t g))
    \<and> (length coins = t \<longrightarrow> is_ok (split_secret (tape_ops F) y t ps coins) \<and> snd (the_ok (split_secret (tape_ops F) y t ps coins)) = [])
    \<and> bij_betw (\<lambda>coins. seen_by sel (fst (the_ok (split_secret (tape_ops F) y t ps coins)))) {coins. length coins = t} {view. length view = t}"
proof -
  note tape = split_secret_tape [OF assms(2,3), of _ F y]
  have view: "seen_by sel (fst (the_ok (split_secret (tape_ops F) y t ps coins))) = map (\<lambda>i. eval_poly (y # coins) (ps ! i)) sel"
    if "length coins = t" for coins
    using tape [OF that] sel(2) by (auto simp: seen_by_def)
  have "bij_betw (\<lambda>coins. seen_by sel (fst (the_ok (split_secret (tape_ops F) y t ps coins)))) {coins. length coins = t} {view. length view = t}"
    unfolding bij_betw_def inj_on_def
  proof (intro conjI ballI impI set_eqI iffI)
    fix cs ds
    assume "cs \<in> {coins. length coins = t}" "ds \<in> {coins. length coins = t}"
      and "seen_by sel (fst (the_ok (split_secret (tape_ops F) y t ps cs))) = seen_by sel (fst (the_ok (split_secret (tape_ops F) y t ps ds)))"
    then have "length cs = t" "length ds = t" "map (\<lambda>i. eval_poly (y # cs) (ps ! i)) sel = map (\<lambda>i. eval_poly (y # ds) (ps ! i)) sel"
      by (simp_all add: view)
    then show "cs = ds" using view_explained [OF assms(1) sel, of "map (\<lambda>i. eval_poly (y # ds) (ps ! i)) sel" y] sel(3) by auto
  next
    fix vs
    assume "vs \<in> (\<lambda>coins. seen_by sel (fst (the_ok (split_secret (tape_ops F) y t ps coins)))) ` {coins. length coins = t}"
    then show "vs \<in> {view. length view = t}" using sel(3) by (auto simp: seen_by_def)
  next
    fix vs :: "'a list"
    assume "vs \<in> {view. length view = t}"
    then obtain ds where "length ds = t" "map (\<lambda>i. eval_poly (y # ds) (ps ! i)) sel = vs"
      using view_explained [OF assms(1) sel, of vs y] by auto
    then show "vs \<in> (\<lambda>coins. seen_by sel (fst (the_ok (split_secret (tape_ops F) y t ps coins)))) ` {coins. length coins = t}"
      by (intro image_eqI [of _ _ ds]) (simp_all add: view)
  qed
  then show ?thesis
    using tape split_secret_draws [OF assms(2,3), of F y g] by simp
qed

theorem split_hides_secret_witness:
  "bij_betw (\<lambda>coins. seen_by [2, 0] (fst (the_ok (split_secret (tape_ops (f2_ops counter_rng)) (F2 42) 2 [F2 1, F2 2, F2 3] coins))))
     {coins. length coins = 2} {view. length view = 2}"
  by (rule split_hides_secret [THEN conjunct2, THEN conjunct2]) (simp_all add: good_points_def F2_eq_0_iff)

text \<open>Reconstruction never panics: it reports too few shares first, then a duplicated point,
  and otherwise returns the value at zero of the interpolating polynomial.\<close>

theorem reconstruct_from_parts_outcome:
  "reconstruct_from_parts ps vals k =
     (if length ps \<noteq> length vals then Err ShareCountMismatch
      else if length ps < k then Err InsufficientShares
      else if \<not> distinct ps then Err DuplicateShare
      else Ok (lagrange ps vals 0))"
  by (simp add: reconstruct_from_parts_def interpolate_lagrange)
    (simp add: interpolate_def)

lemma subset_lists_bij:
  "bij_betw set {cs. subset_list n k cs} {A. A \<subseteq> {..<n} \<and> card A = k}"
  unfolding bij_betw_def
proof
  show "inj_on set {cs. subset_list n k cs}"
    by (auto simp: inj_on_def subset_list_def strict_sorted_iff intro: sorted_distinct_set_unique)
  show "set ` {cs. subset_list n k cs} = {A. A \<subseteq> {..<n} \<and> card A = k}" (is "?L = ?R")
  proof
    show "?L \<subseteq> ?R" by (auto simp: subset_list_def strict_sorted_iff distinct_card)
    have "A \<in> ?L" if A: "A \<subseteq> {..<n}" "card A = k" for A
    proof -
      have fin: "finite A" using A(1) finite_subset by blast
      have "subset_list n k (sorted_list_of_set A)"
        using A fin by (auto simp: subset_list_def)
      then show ?thesis using fin by (intro image_eqI [of _ _ "sorted_list_of_set A"]) simp_all
    qed
    then show "?R \<subseteq> ?L" by blast
  qed
qed

text \<open>\<open>combinations\<close> enumerates every \<open>k\<close>-element subset of \<open>{0..<n}\<close>, as an increasing list, exactly
  once and in lexicographic order.\<close>

theorem combinations_enumerate:
  "distinct (combinations n k) \<and> sorted_wrt lex_before (combinations n k) \<and>
   set ` set (combinations n k) = {A. A \<subseteq> {..<n} \<and> card A = k} \<and> inj_on set (set (combinations n k))"
  using subset_lists_bij [of n k] by (simp add: combinations_correct distinct_combinations bij_betw_def)

text \<open>The points of a committee over \<open>F2\<close> are computed with \<open>n as u8\<close>. From 256 participants on
  the 256th point is zero, so the share of that party is the secret itself.\<close>

theorem f2_committee_256_exposes_secret:
  assumes "committee_new (f2_ops R) t 256 = Ok c" and "committee_split (f2_ops R) c x g = Ok (shares, g')"
  shows "share_value (shares ! 255) = x"
proof -
  let ?ps = "evaluation_points (f2_ops R) 256"
  have zero: "?ps ! 255 = 0"
    by (simp add: f2_ops_def f2_from_u64_def zero_F2_def)
  have split: "split_secret (f2_ops R) x t ?ps g = Ok (shares, g')"
    using assms by (auto simp: committee_new_def committee_split_def)
  have "length shares = 256"
    using split_secret_sharing(2) [OF split] by (metis length_map length_evaluation_points)
  then have "share_value (shares ! 255) = map (horner (x # fst (rand_list (f2_ops R) t g))) ?ps ! 255"
    by (simp flip: eval_split [OF split])
  then show ?thesis by (simp add: zero del: nth_evaluation_points)
qed

theorem f2_committee_256_exposes_secret_witness:
  "\<exists>c shares g'. committee_new (f2_ops counter_rng) 3 256 = Ok c \<and>
     committee_split (f2_ops counter_rng) c (F2 42) 0 = Ok (shares, g') \<and> share_value (shares ! 255) = F2 42"
proof -
  obtain c where c: "committee_new (f2_ops counter_rng) 3 256 = Ok c"
    by (simp add: committee_new_def)
  then have "threshold c = 3" "length (points c) = 256" by (auto simp: committee_new_def)
  then obtain shares g' where "committee_split (f2_ops counter_rng) c (F2 42) 0 = Ok (shares, g')"
    using split_secret_Ok [of 3 "points c" "f2_ops counter_rng" "F2 42" 0] by (auto simp: committee_split_def)
  with c f2_committee_256_exposes_secret [OF c this] show ?thesis by blast
qed

end
