(* ===== verification/Prime_Field.thy ===== *)
theory Prime_Field
  imports Shamir
begin

text \<open>
  Prime fields. \<open>ark-ff\<close>'s \<open>PrimeField\<close> is a trait of a third-party crate; the code uses its
  field operations and the canonical integer representation. \<open>prime_field\<close> states these laws.
  They are discharged for the field of \<open>998244353\<close> elements, the plaintext modulus of \<open>fhe/src/bfv_shamir.rs\<close>:
  the first sections prove that it is prime.
\<close>

section \<open>A prime modulus\<close>

lemma irreducible_nat:
  fixes q :: nat
  assumes "\<And>d. 2 \<le> d \<Longrightarrow> d < r \<Longrightarrow> \<not> d dvd q" "q < r * r" "d dvd q" "0 < q"
  shows "d = 1 \<or> d = q"
proof (rule ccontr)
  assume "\<not> (d = 1 \<or> d = q)"
  obtain e where e: "q = d * e" using assms(3) by blast
  have "0 < d" "0 < e" using e assms(4) by auto
  with \<open>\<not> (d = 1 \<or> d = q)\<close> e have "2 \<le> d" "2 \<le> e" by (auto simp: Suc_le_eq numeral_2_eq_2 intro: Suc_lessI)
  moreover have "d < r \<or> e < r"
  proof (rule ccontr)
    assume "\<not> (d < r \<or> e < r)"
    then have "r * r \<le> d * e" by (intro mult_le_mono) auto
    with e assms(2) show False by simp
  qed
  moreover have "e dvd q" using e by simp
  ultimately show False using assms(1) [of d] assms(1) [of e] assms(3) by blast
qed

text \<open>Trial division by the numbers from \<open>d\<close> on, \<open>k\<close> of them.\<close>

primrec no_divisor :: "nat \<Rightarrow> nat \<Rightarrow> nat \<Rightarrow> bool" where
  "no_divisor q d 0 \<longleftrightarrow> True"
| "no_divisor q d (Suc k) \<longleftrightarrow> (if q mod d = 0 then False else no_divisor q (d + 1) k)"

lemma no_divisor_eval:
  "no_divisor q d (numeral k) \<longleftrightarrow> (if q mod d = 0 then False else no_divisor q (d + 1) (pred_numeral k))"
  by (simp add: numeral_eq_Suc)

lemma no_divisorD: "no_divisor q d k \<Longrightarrow> d \<le> e \<Longrightarrow> e < d + k \<Longrightarrow> \<not> e dvd q"
proof (induction k arbitrary: d)
  case (Suc k)
  then show ?case
    by (cases "e = d") (auto simp: dvd_eq_mod_eq_0 split: if_splits)
qed simp

definition is_prime :: "nat \<Rightarrow> bool" where
  "is_prime q \<longleftrightarrow> 1 < q \<and> (\<forall>d. d dvd q \<longrightarrow> d = 1 \<or> d = q)"

lemma is_primeI: "no_divisor q 2 k \<Longrightarrow> q < (k + 2) * (k + 2) \<Longrightarrow> 1 < q \<Longrightarrow> is_prime q"
  unfolding is_prime_def
  by (intro conjI allI impI irreducible_nat [of "k + 2"]) (auto dest: no_divisorD)

lemma prime_coprime: "is_prime q \<Longrightarrow> \<not> q dvd k \<Longrightarrow> coprime k q"
  unfolding is_prime_def by (metis coprime_iff_gcd_eq_1 gcd_dvd1 gcd_dvd2 gcd.commute)

text \<open>Modular powers by squaring, on numerals, with an accumulator.\<close>

definition powmod :: "nat \<Rightarrow> nat \<Rightarrow> nat \<Rightarrow> nat \<Rightarrow> nat" where
  "powmod m b e r = r * b ^ e mod m"

lemma powmod_eval:
  "powmod m b (numeral (Num.Bit0 n)) r = powmod m (b * b mod m) (numeral n) r"
  "powmod m b (numeral (Num.Bit1 n)) r = powmod m (b * b mod m) (numeral n) (r * b mod m)"
  "powmod m b 1 r = r * b mod m" "powmod m b (Suc 0) r = r * b mod m"
proof -
  have sq: "(b * b mod m) ^ k mod m = b ^ (k + k) mod m" for k
    by (simp add: power_mod power_add power_mult_distrib)
  show "powmod m b (numeral (Num.Bit0 n)) r = powmod m (b * b mod m) (numeral n) r"
    unfolding powmod_def numeral_Bit0 by (metis sq mod_mult_right_eq)
  have "r * b ^ (numeral n + numeral n + 1) mod m = r * b * b ^ (numeral n + numeral n) mod m"
    unfolding power_add [of b "numeral n + numeral n" 1] power_one_right by (simp only: ac_simps)
  also have "\<dots> = (r * b mod m) * (b * b mod m) ^ numeral n mod m"
    by (metis sq mod_mult_left_eq mod_mult_right_eq)
  finally show "powmod m b (numeral (Num.Bit1 n)) r = powmod m (b * b mod m) (numeral n) (r * b mod m)"
    unfolding powmod_def numeral_Bit1 .
  show "powmod m b 1 r = r * b mod m" "powmod m b (Suc 0) r = r * b mod m" by (simp_all add: powmod_def)
qed

text \<open>Lucas' criterion: an element of order \<open>p - 1\<close> makes every nonzero residue a unit.\<close>

lemma lucas_units:
  fixes p g :: nat and qs :: "(nat \<times> nat) list"
  assumes p: "2 < p" and fact: "p - 1 = (\<Prod>(q, e)\<leftarrow>qs. q ^ e)"
    and primes: "\<And>q e. (q, e) \<in> set qs \<Longrightarrow> is_prime q"
    and one: "g ^ (p - 1) mod p = 1"
    and other: "\<And>q e. (q, e) \<in> set qs \<Longrightarrow> g ^ ((p - 1) div q) mod p \<noteq> 1"
    and a: "0 < a" "a < p"
  shows "coprime a p"
proof -
  let ?P = "\<lambda>k. 0 < k \<and> g ^ k mod p = 1"
  define ord where "ord = (LEAST k. ?P k)"
  have ord: "0 < ord" "g ^ ord mod p = 1"
    using LeastI [of ?P "p - 1"] one p by (auto simp: ord_def)
  have least: "\<not> ?P k" if "k < ord" for k using not_less_Least [of k ?P] that by (simp add: ord_def)
  have dvd: "ord dvd k" if "g ^ k mod p = 1" for k
  proof -
    have "g ^ k mod p = (g ^ ord) ^ (k div ord) * g ^ (k mod ord) mod p"
      by (simp flip: power_mult power_add)
    also have "\<dots> = ((g ^ ord mod p) ^ (k div ord) mod p) * g ^ (k mod ord) mod p"
      by (simp add: power_mod mod_mult_left_eq)
    also have "\<dots> = g ^ (k mod ord) mod p" using p by (simp add: ord(2))
    finally have "\<not> 0 < k mod ord" using that least [of "k mod ord"] ord(1) by auto
    then show ?thesis by (simp add: dvd_eq_mod_eq_0)
  qed
  obtain k where k: "p - 1 = ord * k" using dvd [OF one] by blast
  have "k = 1"
  proof (rule ccontr)
    assume "k \<noteq> 1"
    have "coprime k q" if "(q, e) \<in> set qs" for q e
    proof (rule prime_coprime [OF primes [OF that]], rule notI)
      assume "q dvd k"
      then obtain l where l: "k = q * l" by blast
      have "0 < q" using primes [OF that] by (simp add: is_prime_def)
      moreover have "p - 1 = q * (ord * l)" unfolding k l by (rule mult.left_commute)
      ultimately have "(p - 1) div q = ord * l" by (metis nonzero_mult_div_cancel_left less_numeral_extra(3))
      then have "g ^ ((p - 1) div q) mod p = (g ^ ord mod p) ^ l mod p" by (simp add: power_mult power_mod)
      also have "\<dots> = 1" using p by (simp add: ord(2))
      finally show False using other [OF that] by simp
    qed
    then have "list_all (\<lambda>(q, e). coprime k q) qs" by (auto simp: list_all_iff)
    then have "coprime k (\<Prod>(q, e)\<leftarrow>qs. q ^ e)" by (induction qs) auto
    then have "coprime k (p - 1)" by (simp only: fact)
    moreover have "k dvd p - 1" using k by simp
    ultimately show False using \<open>k \<noteq> 1\<close> by (simp add: coprime_absorb_left)
  qed
  then have ord_p: "ord = p - 1" using k by simp
  have cop: "coprime (g ^ i) p" for i
  proof -
    have "g * g ^ (p - 2) mod p = 1" using one p by (simp flip: power_Suc add: Suc_diff_Suc numeral_2_eq_2)
    then have "gcd (g * g ^ (p - 2)) p = 1" by (metis gcd_red_nat gcd.commute gcd_1_nat)
    then have "coprime g p" by (metis coprime_iff_gcd_eq_1 coprime_mult_left_iff)
    then show ?thesis by simp
  qed
  have inj: "inj_on (\<lambda>i. g ^ i mod p) {..<p - 1}"
  proof (rule linorder_inj_onI')
    fix i j assume ij: "i \<in> {..<p - 1}" "j \<in> {..<p - 1}" "i < j"
    show "g ^ i mod p \<noteq> g ^ j mod p"
    proof
      assume eq: "g ^ i mod p = g ^ j mod p"
      have gj: "g ^ j = g ^ i * g ^ (j - i)" using ij(3) by (simp flip: power_add)
      moreover have pos: "1 \<le> g ^ (j - i)" using cop [of 1] p by (cases "g = 0") auto
      ultimately have "g ^ i \<le> g ^ j" by simp
      then have "p dvd g ^ j - g ^ i" using eq by (simp flip: mod_eq_dvd_iff_nat)
      then have "p dvd g ^ i * (g ^ (j - i) - 1)"
        by (simp only: gj right_diff_distrib' mult_1_right)
      then have "p dvd g ^ (j - i) - 1"
        using cop [of i] by (simp add: coprime_commute coprime_dvd_mult_right_iff)
      with pos have "g ^ (j - i) mod p = 1 mod p" by (simp only: mod_eq_dvd_iff_nat)
      moreover have "j - i < ord" "0 < j - i" using ij ord_p by auto
      ultimately show False using least [of "j - i"] p by simp
    qed
  qed
  have "g ^ i mod p \<in> {1..<p}" for i
  proof -
    have "g ^ i mod p \<noteq> 0"
    proof
      assume "g ^ i mod p = 0"
      then have "p dvd g ^ i" by (simp add: dvd_eq_mod_eq_0)
      then have "is_unit p" using cop [of i] by (simp only: coprime_absorb_right)
      then show False using p by simp
    qed
    then show ?thesis using p by simp
  qed
  then have "(\<lambda>i. g ^ i mod p) ` {..<p - 1} = {1..<p}"
    using card_image [OF inj] by (intro card_subset_eq) auto
  then obtain i where "a = g ^ i mod p" using a by force
  then show ?thesis using cop [of i] p by (simp add: coprime_mod_left_iff)
qed

definition PLAINTEXT_MODULUS :: nat where
  "PLAINTEXT_MODULUS = 998244353"

lemma plaintext_factors: "is_prime 2" "is_prime 7" "is_prime 17"
proof -
  show "is_prime 2" by (rule is_primeI [of _ 0]) simp_all
  show "is_prime 7" by (rule is_primeI [of _ 1]) (simp_all add: no_divisor_eval)
  show "is_prime 17" by (rule is_primeI [of _ 3]) (simp_all add: no_divisor_eval)
qed

lemma powmod_plaintext: "3 ^ (4194304 * k) mod PLAINTEXT_MODULUS = powmod PLAINTEXT_MODULUS 619426492 k 1"
proof -
  have "powmod PLAINTEXT_MODULUS 3 4194304 1 = 619426492"
    by (simp add: PLAINTEXT_MODULUS_def powmod_eval)
  then have "3 ^ 4194304 mod PLAINTEXT_MODULUS = 619426492" by (simp only: powmod_def mult_1)
  then show ?thesis by (simp only: powmod_def mult_1 power_mult) (metis power_mod)
qed

lemma plaintext_units: "0 < a \<Longrightarrow> a < PLAINTEXT_MODULUS \<Longrightarrow> coprime a PLAINTEXT_MODULUS"
proof (rule lucas_units [where g = 3 and qs = "[(2, 23), (7, 1), (17, 1)]"])
  show "is_prime q" if "(q, e) \<in> set [(2, 23), (7, 1), (17, 1)]" for q e
    using that plaintext_factors by auto
  have exps: "PLAINTEXT_MODULUS - 1 = 4194304 * 238" "(PLAINTEXT_MODULUS - 1) div 2 = 4194304 * 119"
    "(PLAINTEXT_MODULUS - 1) div 7 = 4194304 * 34" "(PLAINTEXT_MODULUS - 1) div 17 = 4194304 * 14"
    by (simp_all add: PLAINTEXT_MODULUS_def)
  show "3 ^ (PLAINTEXT_MODULUS - 1) mod PLAINTEXT_MODULUS = 1"
    unfolding exps(1) powmod_plaintext by (simp add: PLAINTEXT_MODULUS_def powmod_eval)
  have "3 ^ ((PLAINTEXT_MODULUS - 1) div 2) mod PLAINTEXT_MODULUS \<noteq> 1"
    unfolding exps(2) powmod_plaintext by (simp add: PLAINTEXT_MODULUS_def powmod_eval)
  moreover have "3 ^ ((PLAINTEXT_MODULUS - 1) div 7) mod PLAINTEXT_MODULUS \<noteq> 1"
    unfolding exps(3) powmod_plaintext by (simp add: PLAINTEXT_MODULUS_def powmod_eval)
  moreover have "3 ^ ((PLAINTEXT_MODULUS - 1) div 17) mod PLAINTEXT_MODULUS \<noteq> 1"
    unfolding exps(4) powmod_plaintext by (simp add: PLAINTEXT_MODULUS_def powmod_eval)
  ultimately show "3 ^ ((PLAINTEXT_MODULUS - 1) div q) mod PLAINTEXT_MODULUS \<noteq> 1"
    if "(q, e) \<in> set [(2, 23), (7, 1), (17, 1)]" for q e
    using that by (simp only: list.set insert_iff empty_iff prod.inject simp_thms, elim disjE conjE) simp_all
qed (simp_all add: PLAINTEXT_MODULUS_def)

section \<open>The field\<close>

typedef zp = "{0..<int PLAINTEXT_MODULUS}"
  by (rule exI [of _ 0]) (simp add: PLAINTEXT_MODULUS_def)

setup_lifting type_definition_zp

lemma modulus_pos [simp]: "0 < PLAINTEXT_MODULUS" "Suc 0 < PLAINTEXT_MODULUS"
  "1 mod int PLAINTEXT_MODULUS = 1"
  by (simp_all add: PLAINTEXT_MODULUS_def)

lemma mod_modulus_bound [simp]: "0 \<le> a mod int PLAINTEXT_MODULUS" "a mod int PLAINTEXT_MODULUS < int PLAINTEXT_MODULUS"
  by simp_all

lift_definition zp_of_int :: "int \<Rightarrow> zp" is "\<lambda>a. a mod int PLAINTEXT_MODULUS"
  by simp

definition zp_inverse :: "int \<Rightarrow> int" where
  "zp_inverse a = fst (bezw (nat a) PLAINTEXT_MODULUS) mod int PLAINTEXT_MODULUS"

lemma zp_inverse: "0 < a \<Longrightarrow> a < int PLAINTEXT_MODULUS \<Longrightarrow> zp_inverse a * a mod int PLAINTEXT_MODULUS = 1"
proof -
  assume a: "0 < a" "a < int PLAINTEXT_MODULUS"
  then obtain n where n: "a = int n" "0 < n" "n < PLAINTEXT_MODULUS" using zero_less_imp_eq_int by auto
  then have "gcd n PLAINTEXT_MODULUS = 1" using plaintext_units by (simp flip: coprime_iff_gcd_eq_1)
  then have "fst (bezw n PLAINTEXT_MODULUS) * a + snd (bezw n PLAINTEXT_MODULUS) * int PLAINTEXT_MODULUS = 1"
    using bezw_aux [of n PLAINTEXT_MODULUS] n by simp
  then have "fst (bezw n PLAINTEXT_MODULUS) * a mod int PLAINTEXT_MODULUS = 1 mod int PLAINTEXT_MODULUS"
    by (metis mod_mult_self1 mult.commute)
  then show ?thesis by (simp add: zp_inverse_def n(1) mod_mult_left_eq)
qed

instantiation zp :: field
begin

lift_definition zero_zp :: zp is 0 by simp
lift_definition one_zp :: zp is 1 by simp
lift_definition plus_zp :: "zp \<Rightarrow> zp \<Rightarrow> zp" is "\<lambda>a b. (a + b) mod int PLAINTEXT_MODULUS" by simp
lift_definition minus_zp :: "zp \<Rightarrow> zp \<Rightarrow> zp" is "\<lambda>a b. (a - b) mod int PLAINTEXT_MODULUS" by simp
lift_definition uminus_zp :: "zp \<Rightarrow> zp" is "\<lambda>a. - a mod int PLAINTEXT_MODULUS" by simp
lift_definition times_zp :: "zp \<Rightarrow> zp \<Rightarrow> zp" is "\<lambda>a b. a * b mod int PLAINTEXT_MODULUS" by simp
lift_definition inverse_zp :: "zp \<Rightarrow> zp" is "\<lambda>a. if a = 0 then 0 else zp_inverse a"
  by (simp add: zp_inverse_def)
definition divide_zp :: "zp \<Rightarrow> zp \<Rightarrow> zp" where "divide_zp a b = a * inverse b"

instance
proof
  fix a b c :: zp
  show "a + b + c = a + (b + c)" by transfer (simp add: mod_add_left_eq mod_add_right_eq add.assoc)
  show "a + b = b + a" by transfer (simp add: add.commute)
  show "0 + a = a" by transfer simp
  show "- a + a = 0" by transfer (simp add: mod_add_left_eq)
  show "a - b = a + - b" by transfer (simp add: mod_add_right_eq)
  show "a * b * c = a * (b * c)" by transfer (simp add: mod_mult_left_eq mod_mult_right_eq mult.assoc)
  show "a * b = b * a" by transfer (simp add: mult.commute)
  show "1 * a = a" by transfer simp
  show "(a + b) * c = a * c + b * c"
    by transfer (simp add: mod_add_eq mod_mult_left_eq distrib_right)
  show "(0 :: zp) \<noteq> 1" by transfer simp
  show "inverse a * a = 1" if "a \<noteq> 0" using that by transfer (auto simp: zp_inverse)
  show "a div b = a * inverse b" by (simp add: divide_zp_def)
  show "inverse (0 :: zp) = 0" by transfer simp
qed

end

lemma of_int_zp: "of_int k = zp_of_int k"
proof -
  have add: "zp_of_int (a + b) = zp_of_int a + zp_of_int b" for a b
    by transfer (simp add: mod_add_eq)
  have minus: "zp_of_int (- a) = - zp_of_int a" for a
    by transfer (simp add: mod_minus_eq)
  have one: "zp_of_int 1 = 1" by transfer simp
  have zero: "zp_of_int 0 = 0" by transfer simp
  have nat: "of_nat n = zp_of_int (int n)" for n
    by (induction n) (simp_all add: zero add one add.commute)
  show ?thesis by (cases k rule: int_cases2) (simp_all add: nat minus)
qed

section \<open>The prime-field interface\<close>

text \<open>
  What the protocols use of \<open>PrimeField\<close>: \<open>MODULUS\<close> (with \<open>MODULUS_BIT_SIZE\<close>, the number of its
  bits) and \<open>into_bigint\<close>. \<open>from_le_bytes_mod_order\<close> and \<open>From<u64>\<close> are \<open>of_nat\<close> of the value.
\<close>

record 'f prime_field_ops =
  pf_modulus :: nat
  pf_bit_size :: nat
  pf_into :: "'f \<Rightarrow> nat"

definition pf_from_u64 :: "u64 \<Rightarrow> 'f::field" where
  "pf_from_u64 n = of_nat (unat n)"

definition pf_from_le_bytes :: "bytes \<Rightarrow> 'f::field" where
  "pf_from_le_bytes bs = of_nat (le_value bs)"

text \<open>The blanket implementation of \<open>ShareField\<close> for a prime field.\<close>

definition prime_share_ops :: "('g \<Rightarrow> 'f \<times> 'g) \<Rightarrow> ('f::field, 'g) share_field_ops" where
  "prime_share_ops draw =
    \<lparr>sf_from_u64 = pf_from_u64, sf_rand = draw, sf_from_le_bytes = pf_from_le_bytes\<rparr>"

locale prime_field =
  fixes P :: "'f::field prime_field_ops"
  assumes into_less: "pf_into P x < pf_modulus P"
    and of_nat_into: "of_nat (pf_into P x) = x"
    and into_of_nat: "pf_into P (of_nat n) = n mod pf_modulus P"
    and modulus_gt_2: "2 < pf_modulus P"
    and bit_size: "2 ^ (pf_bit_size P - 1) \<le> pf_modulus P" "pf_modulus P < 2 ^ pf_bit_size P"
begin

lemma into_small: "n < pf_modulus P \<Longrightarrow> pf_into P (of_nat n) = n"
  by (simp add: into_of_nat)

lemma into_inject: "pf_into P x = pf_into P y \<longleftrightarrow> x = y"
  by (metis of_nat_into)

lemma of_nat_modulus: "(of_nat (pf_modulus P) :: 'f) = 0"
proof -
  have "pf_into P (of_nat (pf_modulus P)) = pf_into P (of_nat 0)"
    unfolding into_of_nat by simp
  then show ?thesis by (simp add: into_inject)
qed

lemma of_nat_mod: "(of_nat (n mod pf_modulus P) :: 'f) = of_nat n"
  using of_nat_into [of "of_nat n"] by (simp add: into_of_nat)

lemma of_nat_inj: "n < pf_modulus P \<Longrightarrow> m < pf_modulus P \<Longrightarrow> (of_nat n :: 'f) = of_nat m \<Longrightarrow> n = m"
  using into_small by metis

lemma into_zero [simp]: "pf_into P 0 = 0" and into_one [simp]: "pf_into P 1 = 1"
  using into_of_nat [of 0] into_of_nat [of 1] modulus_gt_2 by simp_all

lemma into_diff:
  "pf_into P (x - y) =
   (if pf_into P y \<le> pf_into P x then pf_into P x - pf_into P y
    else pf_modulus P - (pf_into P y - pf_into P x))"
proof (cases "pf_into P y \<le> pf_into P x")
  case True
  have "x - y = of_nat (pf_into P x - pf_into P y)"
    using True by (simp add: of_nat_diff of_nat_into)
  then show ?thesis using True into_less [of x] by (metis into_small less_imp_diff_less)
next
  case False
  have "x - y = of_nat (pf_modulus P - (pf_into P y - pf_into P x))"
    using False into_less [of y] by (simp add: of_nat_diff of_nat_into of_nat_modulus)
  moreover have "pf_modulus P - (pf_into P y - pf_into P x) < pf_modulus P"
    using False modulus_gt_2 by simp
  ultimately show ?thesis using False by (metis into_small)
qed

sublocale share: share_field "prime_share_ops draw" "min (pf_modulus P) (2 ^ 64)" for draw :: "'g \<Rightarrow> 'f \<times> 'g"
proof
  show "sf_from_u64 (prime_share_ops draw) 0 = 0" "sf_from_u64 (prime_share_ops draw) 1 = 1"
    by (simp_all add: prime_share_ops_def pf_from_u64_def)
  fix a b :: u64
  assume ab: "unat a < min (pf_modulus P) (2 ^ 64)" "unat b < min (pf_modulus P) (2 ^ 64)"
    "sf_from_u64 (prime_share_ops draw) a = sf_from_u64 (prime_share_ops draw) b"
  then have "unat a = unat b"
    by (intro of_nat_inj) (simp_all add: prime_share_ops_def pf_from_u64_def)
  then show "a = b" by (simp add: word_unat_eq_iff)
qed simp

lemma prime_share_field:
  "share_field (prime_share_ops draw :: ('f, 'g) share_field_ops) (min (pf_modulus P) (2 ^ 64))"
  by (rule share.share_field_axioms)

end

definition zp_ops :: "zp prime_field_ops" where
  "zp_ops = \<lparr>pf_modulus = PLAINTEXT_MODULUS, pf_bit_size = 30, pf_into = (\<lambda>x. nat (Rep_zp x))\<rparr>"

lemma Rep_zp_bounds: "0 \<le> Rep_zp x" "Rep_zp x < int PLAINTEXT_MODULUS"
  using Rep_zp [of x] by auto

lemma Rep_of_nat_zp: "Rep_zp (of_nat n) = int n mod int PLAINTEXT_MODULUS"
  using of_int_zp [of "int n"] by (simp add: zp_of_int.rep_eq)

interpretation zp: prime_field zp_ops
proof
  fix x :: zp and n :: nat
  show "pf_into zp_ops x < pf_modulus zp_ops"
    using Rep_zp_bounds [of x] by (simp add: zp_ops_def)
  have "Rep_zp (of_nat (nat (Rep_zp x))) = Rep_zp x"
    using Rep_zp_bounds [of x] by (simp add: of_int_zp zp_of_int.rep_eq)
  then show "of_nat (pf_into zp_ops x) = x" by (simp add: zp_ops_def Rep_zp_inject)
  show "pf_into zp_ops (of_nat n) = n mod pf_modulus zp_ops"
    by (simp add: zp_ops_def Rep_of_nat_zp nat_mod_distrib)
qed (simp_all add: zp_ops_def PLAINTEXT_MODULUS_def)

section \<open>Concrete runs over the plaintext modulus\<close>

definition zp_draw :: "nat \<Rightarrow> zp \<times> nat" where
  "zp_draw g = (of_nat (13 * g + 8), Suc g)"

definition zp_committee :: "nat \<Rightarrow> nat \<Rightarrow> zp committee" where
  "zp_committee t n = \<lparr>threshold = t, points = evaluation_points (prime_share_ops zp_draw) n\<rparr>"

lemma zp_committee_sel [simp]:
  "threshold (zp_committee t n) = t" "committee_size (zp_committee t n) = n"
  by (simp_all add: zp_committee_def committee_size_def)

lemma good_zp_committee: "0 < t \<Longrightarrow> t < n \<Longrightarrow> n < 1000 \<Longrightarrow> good_committee (zp_committee t n)"
  unfolding good_committee_def zp_committee_def
  by (simp add: committee_size_def zp.share.good_evaluation_points zp_ops_def PLAINTEXT_MODULUS_def)

lemma zp_split:
  assumes "0 < t" "t < n"
  obtains x f g' where "committee_split (prime_share_ops zp_draw) (zp_committee t n) s g = Ok (x, g')"
    "sharing (threshold (zp_committee t n)) f x" "f 0 = s" "map point x = points (zp_committee t n)"
proof -
  have len: "length (points (zp_committee t n)) = n" by (simp add: zp_committee_def)
  obtain x g' where split: "split_secret (prime_share_ops zp_draw) s t (points (zp_committee t n)) g = Ok (x, g')"
    using split_secret_Ok [of t "points (zp_committee t n)" "prime_share_ops zp_draw" s g] assms len by auto
  with split_secret_sharing(1,2) [OF split] show ?thesis
    using that by (auto simp: committee_split_def)
qed

end
