(* ===== verification/Prss.thy ===== *)
theory Prss
  imports Shamir
begin

text \<open>
  \<open>crypto/src/mpc/prss.rs\<close>: pseudo-random secret sharing. Each holder set owns a seed; the
  seed's PRF value at a nonce is spread over the holder-basis polynomial of the set. HMAC-SHA256 is
  the parameter \<open>hmac\<close> (key, then message), the random generator a record of its operations.

  The lemmas show that the produced vectors are sharings of the expected degrees whose secret is
  the sum of the PRF values, and that the two sides of a reshare pair share the same secret.
\<close>

type_synonym prss_seed = bytes
type_synonym hmac_fun = "bytes \<Rightarrow> bytes \<Rightarrow> bytes"

text \<open>A mask pair (\<open>mpc/mod.rs\<close>).\<close>

record 'f handoff_mask =
  hm_source :: "'f shamir_share list"
  hm_source_degree :: nat
  hm_destination :: "'f shamir_share list"
  hm_destination_degree :: nat

definition prss_seed_random :: "'g rng_ops \<Rightarrow> 'g \<Rightarrow> prss_seed \<times> 'g" where
  "prss_seed_random R g = rng_fill_bytes R 32 g"

definition derive_element :: "('f, 'g) share_field_ops \<Rightarrow> hmac_fun \<Rightarrow> prss_seed \<Rightarrow> bytes \<Rightarrow> 'f" where
  "derive_element F hmac seed nonce = sf_from_le_bytes F (hmac seed nonce)"

definition derive_small :: "hmac_fun \<Rightarrow> prss_seed \<Rightarrow> bytes \<Rightarrow> u64 \<Rightarrow> u64" where
  "derive_small hmac seed nonce bound =
     (let low = of_nat (le_value (take 8 (hmac seed nonce))) in if bound = 0 then 0 else low mod bound)"

text \<open>Both share functions add, for one holder set, \<open>r * holder_basis\<close> at the points of its members.\<close>

definition add_component ::
  "'f::field list \<Rightarrow> nat list \<Rightarrow> 'f \<Rightarrow> 'f list \<Rightarrow> (mpc_error, 'f list) res"
where
  "add_component ps holder r vals =
     mapR (\<lambda>(i, v). if i \<in> set holder
             then bindR (nthR ps i) (\<lambda>p. bindR (holder_basis holder ps p) (\<lambda>b. Ok (v + r * b)))
             else Ok v)
       (List.enumerate 0 vals)"

definition shares_at :: "'f list \<Rightarrow> 'f list \<Rightarrow> 'f shamir_share list" where
  "shares_at ps vals = map (\<lambda>(i, p). \<lparr>point = p, share_value = vals ! i\<rparr>) (List.enumerate 0 ps)"

definition rand_share_by ::
  "(prss_seed \<Rightarrow> 'f) \<Rightarrow> 'g rng_ops \<Rightarrow> 'f::field committee \<Rightarrow> 'g \<Rightarrow> (mpc_error, 'f shamir_share list \<times> 'g) res"
where
  "rand_share_by component R c g =
     (let n = committee_size c in
      bindR (holder_sets n (threshold c)) (\<lambda>holders.
        bindR (foldR (\<lambda>holder (vals, g).
                 let (seed, g') = prss_seed_random R g
                 in bindR (add_component (points c) holder (component seed) vals) (\<lambda>vals'. Ok (vals', g')))
               holders (replicate n 0, g))
          (\<lambda>(vals, g'). Ok (shares_at (points c) vals, g'))))"

definition rand_share ::
  "('f::field, 'g) share_field_ops \<Rightarrow> hmac_fun \<Rightarrow> 'g rng_ops \<Rightarrow> 'f committee \<Rightarrow> bytes \<Rightarrow> 'g \<Rightarrow>
     (mpc_error, 'f shamir_share list \<times> 'g) res"
where
  "rand_share F hmac R c nonce g = rand_share_by (\<lambda>seed. derive_element F hmac seed nonce) R c g"

definition rand_share_small ::
  "('f::field, 'g) share_field_ops \<Rightarrow> hmac_fun \<Rightarrow> 'g rng_ops \<Rightarrow> 'f committee \<Rightarrow> bytes \<Rightarrow> u64 \<Rightarrow> 'g \<Rightarrow>
     (mpc_error, 'f shamir_share list \<times> 'g) res"
where
  "rand_share_small F hmac R c nonce bound g =
     rand_share_by (\<lambda>seed. sf_from_u64 F (derive_small hmac seed nonce bound)) R c g"

section \<open>Reshare pairs\<close>

text \<open>The double loop draws one value per pair of holder sets and adds it to its row and column.\<close>

definition row_col_sums ::
  "(prss_seed \<Rightarrow> 'f::field) \<Rightarrow> 'g rng_ops \<Rightarrow> nat \<Rightarrow> nat \<Rightarrow> 'g \<Rightarrow> 'f list \<times> 'f list \<times> 'g"
where
  "row_col_sums component R n1 n2 g =
     fold (\<lambda>(i, j) (row, col, g).
        let (seed, g') = prss_seed_random R g; zeta = component seed
        in (row[i := row ! i + zeta], col[j := col ! j + zeta], g'))
       (List.product [0..<n1] [0..<n2]) (replicate n1 0, replicate n2 0, g)"

definition spread ::
  "'f::field list \<Rightarrow> nat list list \<Rightarrow> 'f list \<Rightarrow> (mpc_error, 'f list) res"
where
  "spread ps holders coeffs =
     foldR (\<lambda>(idx, h) vals. bindR (nthR coeffs idx) (\<lambda>r. add_component ps h r vals))
       (List.enumerate 0 holders) (replicate (length ps) 0)"

definition reshare_pair_by ::
  "(prss_seed \<Rightarrow> 'f::field) \<Rightarrow> 'g rng_ops \<Rightarrow> 'f committee \<Rightarrow> nat \<Rightarrow> 'f committee \<Rightarrow> nat \<Rightarrow> 'g \<Rightarrow>
     (mpc_error, 'f handoff_mask \<times> 'g) res"
where
  "reshare_pair_by component R src src_degree dst dst_degree g =
     (let n1 = committee_size src; n2 = committee_size dst in
      if src_degree \<ge> n1 \<or> dst_degree \<ge> n2 then Err InvalidThreshold
      else bindR (holder_sets n1 src_degree) (\<lambda>holders1.
           bindR (holder_sets n2 dst_degree) (\<lambda>holders2.
             let (row, col, g') = row_col_sums component R (length holders1) (length holders2) g in
             bindR (spread (points src) holders1 row) (\<lambda>source.
             bindR (spread (points dst) holders2 col) (\<lambda>destination.
               Ok (\<lparr>hm_source = shares_at (points src) source, hm_source_degree = src_degree,
                    hm_destination = shares_at (points dst) destination,
                    hm_destination_degree = dst_degree\<rparr>, g'))))))"

definition reshare_pair ::
  "('f::field, 'g) share_field_ops \<Rightarrow> hmac_fun \<Rightarrow> 'g rng_ops \<Rightarrow> 'f committee \<Rightarrow> nat \<Rightarrow> 'f committee \<Rightarrow> nat \<Rightarrow>
     bytes \<Rightarrow> 'g \<Rightarrow> (mpc_error, 'f handoff_mask \<times> 'g) res"
where
  "reshare_pair F hmac R src src_degree dst dst_degree nonce g =
     reshare_pair_by (\<lambda>seed. derive_element F hmac seed nonce) R src src_degree dst dst_degree g"

definition reshare_pair_small ::
  "('f::field, 'g) share_field_ops \<Rightarrow> hmac_fun \<Rightarrow> 'g rng_ops \<Rightarrow> 'f committee \<Rightarrow> nat \<Rightarrow> 'f committee \<Rightarrow> nat \<Rightarrow>
     bytes \<Rightarrow> u64 \<Rightarrow> 'g \<Rightarrow> (mpc_error, 'f handoff_mask \<times> 'g) res"
where
  "reshare_pair_small F hmac R src src_degree dst dst_degree nonce bound g =
     reshare_pair_by (\<lambda>seed. sf_from_u64 F (derive_small hmac seed nonce bound)) R src src_degree dst dst_degree g"

definition reshare_pair_dealer ::
  "('f::field, 'g) share_field_ops \<Rightarrow> 'f committee \<Rightarrow> nat \<Rightarrow> 'f committee \<Rightarrow> nat \<Rightarrow> 'g \<Rightarrow>
     (mpc_error, 'f handoff_mask \<times> 'g) res"
where
  "reshare_pair_dealer F src src_degree dst dst_degree g =
     (if src_degree \<ge> committee_size src \<or> dst_degree \<ge> committee_size dst then Err InvalidThreshold
      else let (r, g1) = sf_rand F g in
        bindR (split_secret F r src_degree (points src) g1) (\<lambda>(source, g2).
        bindR (split_secret F r dst_degree (points dst) g2) (\<lambda>(destination, g3).
          Ok (\<lparr>hm_source = source, hm_source_degree = src_degree,
               hm_destination = destination, hm_destination_degree = dst_degree\<rparr>, g3))))"

section \<open>The shares are those of a sum of holder-basis polynomials\<close>

lemma add_component_eq:
  assumes "0 \<notin> set ps" "length vals = length ps"
  shows "add_component ps holder r vals =
         Ok (map2 (\<lambda>p v. v + r * holder_poly holder ps p) ps vals)"
proof -
  have "add_component ps holder r vals =
        Ok (map (\<lambda>(i, v). v + r * holder_poly holder ps (ps ! i)) (List.enumerate 0 vals))"
    unfolding add_component_def
    by (rule mapR_Ok)
      (use assms in \<open>auto simp: enumerate_eq_map_nth nthR_in_range holder_basis_eq holder_poly_outside\<close>)
  also have "map (\<lambda>(i, v). v + r * holder_poly holder ps (ps ! i)) (List.enumerate 0 vals) =
             map2 (\<lambda>p v. v + r * holder_poly holder ps p) ps vals"
    by (rule nth_equalityI) (use assms(2) in \<open>auto simp: enumerate_eq_map_nth\<close>)
  finally show ?thesis .
qed

lemma add_component_map:
  assumes "0 \<notin> set ps"
  shows "add_component ps holder r (map f ps) = Ok (map (\<lambda>x. f x + r * holder_poly holder ps x) ps)"
  using add_component_eq [OF assms, of "map f ps" holder r] by (simp add: map2_map_map [of _ "\<lambda>x. x", simplified])

lemma shares_at_map: "shares_at ps (map f ps) = map (\<lambda>p. \<lparr>point = p, share_value = f p\<rparr>) ps"
  by (rule nth_equalityI) (auto simp: shares_at_def enumerate_eq_map_nth)

lemma sharing_shares_at: "pdeg d f \<Longrightarrow> sharing d f (shares_at ps (map f ps))"
  by (auto simp: sharing_def shares_at_map)

lemma point_shares_at [simp]: "map point (shares_at ps (map f ps)) = ps"
  by (simp add: shares_at_map comp_def)

definition holder_sum :: "'f::field list \<Rightarrow> nat list list \<Rightarrow> 'f list \<Rightarrow> 'f \<Rightarrow> 'f" where
  "holder_sum ps hs cs x = (\<Sum>i<length hs. cs ! i * holder_poly (hs ! i) ps x)"

lemma holder_sum_zero:
  "0 \<notin> set ps \<Longrightarrow> length cs = length hs \<Longrightarrow> holder_sum ps hs cs 0 = sum_list cs"
  by (simp add: holder_sum_def holder_poly_zero sum_list_sum_nth atLeast0LessThan)

lemma pdeg_holder_sum:
  assumes "holder_sets (length ps) d = Ok hs"
  shows "pdeg d (holder_sum ps hs cs)"
  unfolding holder_sum_def
proof (intro pdeg_sum pdeg_smult pdeg_holder_poly)
  fix i assume "i \<in> {..<length hs}"
  then have h: "hs ! i \<in> set hs" by simp
  have "d \<le> length ps" using assms by (auto simp: holder_sets_def split: if_splits)
  then show "card (outside (hs ! i) (length ps)) \<le> d"
    using card_outside [OF holder_sets_Ok(1,2) [OF assms h]] holder_sets_Ok(3) [OF assms h] by simp
qed

lemma sum_lessThan_Suc_shift:
  "(\<Sum>i<Suc n. f i) = f 0 + (\<Sum>i<n. f (Suc i) :: 'a::comm_monoid_add)"
  by (simp add: lessThan_Suc_eq_insert_0 sum.reindex del: sum.lessThan_Suc)

lemma spread_loop:
  assumes "0 \<notin> set ps" "k + length hs \<le> length cs"
  shows "foldR (\<lambda>(idx, h) vals. bindR (nthR cs idx) (\<lambda>r. add_component ps h r vals))
           (List.enumerate k hs) (map f ps) =
         Ok (map (\<lambda>x. f x + (\<Sum>i<length hs. cs ! (k + i) * holder_poly (hs ! i) ps x)) ps)"
  using assms(2)
proof (induction hs arbitrary: k f)
  case (Cons h hs)
  then show ?case
    using Cons.IH [of "Suc k" "\<lambda>x. f x + cs ! k * holder_poly h ps x"] assms(1)
    by (simp add: nthR_in_range add_component_map sum_lessThan_Suc_shift add.assoc del: sum.lessThan_Suc)
qed simp

lemma spread_eq:
  assumes "0 \<notin> set ps" "length cs = length hs"
  shows "spread ps hs cs = Ok (map (holder_sum ps hs cs) ps)"
  using spread_loop [OF assms(1), of 0 hs cs "\<lambda>x. 0"] assms(2)
  by (simp add: spread_def map_replicate_const holder_sum_def [abs_def])

text \<open>The seeds drawn one after the other.\<close>

primrec draw_seeds :: "'g rng_ops \<Rightarrow> nat \<Rightarrow> 'g \<Rightarrow> prss_seed list \<times> 'g" where
  "draw_seeds R 0 g = ([], g)"
| "draw_seeds R (Suc k) g =
    (let (s, g1) = prss_seed_random R g; (ss, g2) = draw_seeds R k g1 in (s # ss, g2))"

lemma length_draw_seeds [simp]: "length (fst (draw_seeds R k g)) = k"
  by (induction k arbitrary: g) (simp_all add: Let_def split_beta)

lemma rand_share_loop:
  assumes "0 \<notin> set ps"
  shows "foldR (\<lambda>holder (vals, g).
                 let (seed, g') = prss_seed_random R g
                 in bindR (add_component ps holder (component seed) vals) (\<lambda>vals'. Ok (vals', g')))
               hs (map f ps, g) =
         (let (seeds, g') = draw_seeds R (length hs) g
          in Ok (map (\<lambda>x. f x + holder_sum ps hs (map component seeds) x) ps, g'))"
proof (induction hs arbitrary: f g)
  case Nil
  show ?case by (simp add: holder_sum_def)
next
  case (Cons h hs)
  then show ?case
    using assms
    by (simp add: Let_def split_beta add_component_map holder_sum_def sum_lessThan_Suc_shift add.assoc
        del: sum.lessThan_Suc)
qed

lemma rand_share_by_eq:
  assumes "0 \<notin> set (points c)" "holder_sets (committee_size c) (threshold c) = Ok hs"
  shows "rand_share_by component R c g =
    (let (seeds, g') = draw_seeds R (length hs) g
     in Ok (shares_at (points c) (map (holder_sum (points c) hs (map component seeds)) (points c)), g'))"
  using rand_share_loop [OF assms(1), of R component hs "\<lambda>x. 0" g] assms(2)
  by (simp add: rand_share_by_def Let_def split_beta committee_size_def map_replicate_const)

lemma rand_share_by_sharing:
  assumes "0 \<notin> set (points c)" "threshold c \<le> committee_size c"
  obtains hs f seeds g' where
    "holder_sets (committee_size c) (threshold c) = Ok hs"
    "draw_seeds R (length hs) g = (seeds, g')"
    "rand_share_by component R c g = Ok (shares_at (points c) (map f (points c)), g')"
    "pdeg (threshold c) f" "f 0 = sum_list (map component seeds)"
proof -
  obtain hs where hs: "holder_sets (committee_size c) (threshold c) = Ok hs"
    using assms(2) by (simp add: holder_sets_def)
  obtain seeds g' where seeds: "draw_seeds R (length hs) g = (seeds, g')" by fastforce
  have len: "length seeds = length hs" using length_draw_seeds [of R "length hs" g] seeds by simp
  show ?thesis
  proof (rule that [OF hs seeds])
    show "rand_share_by component R c g = Ok (shares_at (points c)
            (map (holder_sum (points c) hs (map component seeds)) (points c)), g')"
      unfolding rand_share_by_eq [OF assms(1) hs] seeds by simp
    show "pdeg (threshold c) (holder_sum (points c) hs (map component seeds))"
      using hs by (intro pdeg_holder_sum) (simp add: committee_size_def)
    show "holder_sum (points c) hs (map component seeds) 0 = sum_list (map component seeds)"
      using assms(1) len by (simp add: holder_sum_zero)
  qed
qed

section \<open>Both sides of a reshare pair have the same total\<close>

lemma sum_list_update_add:
  "i < length xs \<Longrightarrow> sum_list (xs[i := xs ! i + z]) = sum_list xs + (z :: 'a::field)"
  by (induction xs arbitrary: i) (auto simp: algebra_simps split: nat.splits)

lemma row_col_loop:
  fixes row col :: "'f::field list"
  assumes "\<And>i j. (i, j) \<in> set ijs \<Longrightarrow> i < length row \<and> j < length col"
    and "fold (\<lambda>(i, j) (row, col, g).
           let (seed, g') = prss_seed_random R g; zeta = component seed
           in (row[i := row ! i + zeta], col[j := col ! j + zeta], g')) ijs (row, col, g) = (row', col', g')"
  shows "length row' = length row \<and> length col' = length col \<and>
         sum_list row' = sum_list row + sum_list (map component (fst (draw_seeds R (length ijs) g))) \<and>
         sum_list col' = sum_list col + sum_list (map component (fst (draw_seeds R (length ijs) g))) \<and>
         g' = snd (draw_seeds R (length ijs) g)"
  using assms
proof (induction ijs arbitrary: row col g)
  case (Cons ij ijs)
  obtain i j where ij: "ij = (i, j)" by fastforce
  obtain seed g1 where s: "prss_seed_random R g = (seed, g1)" by fastforce
  have bounds: "i < length row" "j < length col" using Cons.prems(1) [of i j] ij by simp_all
  have rest: "a < length row \<and> b < length col" if "(a, b) \<in> set ijs" for a b
    using Cons.prems(1) [of a b] that by simp
  show ?case
    using Cons.IH [of "row[i := row ! i + component seed]" "col[j := col ! j + component seed]" g1]
      Cons.prems(2) bounds rest
    by (simp add: ij s Let_def split_beta sum_list_update_add add.assoc)
qed simp

lemma row_col_sums_eq:
  assumes "row_col_sums component R n1 n2 g = (row, col, g')"
  shows "length row = n1" "length col = n2" "sum_list row = sum_list col"
    "sum_list row = sum_list (map component (fst (draw_seeds R (n1 * n2) g)))"
    "g' = snd (draw_seeds R (n1 * n2) g)"
  using row_col_loop [OF _ assms [unfolded row_col_sums_def]] by (auto simp: sum_list_replicate)

definition mask_pair :: "'f::field list \<Rightarrow> 'f list \<Rightarrow> nat \<Rightarrow> nat \<Rightarrow> 'f \<Rightarrow> 'f handoff_mask \<Rightarrow> bool" where
  "mask_pair ps qs d1 d2 r m \<longleftrightarrow>
     map point (hm_source m) = ps \<and> map point (hm_destination m) = qs \<and>
     (\<exists>f. sharing d1 f (hm_source m) \<and> f 0 = r) \<and> (\<exists>f. sharing d2 f (hm_destination m) \<and> f 0 = r)"

lemma mask_pairI:
  "map point (hm_source m) = ps \<Longrightarrow> map point (hm_destination m) = qs \<Longrightarrow>
   sharing d1 f (hm_source m) \<Longrightarrow> f 0 = r \<Longrightarrow> sharing d2 h (hm_destination m) \<Longrightarrow> h 0 = r \<Longrightarrow>
   mask_pair ps qs d1 d2 r m"
  unfolding mask_pair_def by blast

lemma reshare_pair_by_mask:
  assumes "0 \<notin> set (points src)" "0 \<notin> set (points dst)"
    and "d1 < committee_size src" "d2 < committee_size dst"
  obtains hs1 hs2 m seeds g' where
    "holder_sets (committee_size src) d1 = Ok hs1" "holder_sets (committee_size dst) d2 = Ok hs2"
    "draw_seeds R (length hs1 * length hs2) g = (seeds, g')"
    "reshare_pair_by component R src d1 dst d2 g = Ok (m, g')"
    "mask_pair (points src) (points dst) d1 d2 (sum_list (map component seeds)) m"
    "hm_source_degree m = d1" "hm_destination_degree m = d2"
proof -
  obtain hs1 hs2 where hs: "holder_sets (committee_size src) d1 = Ok hs1" "holder_sets (committee_size dst) d2 = Ok hs2"
    using assms(3,4) by (simp add: holder_sets_def)
  obtain row col g' where rc: "row_col_sums component R (length hs1) (length hs2) g = (row, col, g')"
    by (metis prod_cases3)
  note rc' = row_col_sums_eq [OF rc]
  obtain seeds where seeds: "draw_seeds R (length hs1 * length hs2) g = (seeds, g')"
    using rc'(5) by (metis surjective_pairing)
  let ?f1 = "holder_sum (points src) hs1 row" and ?f2 = "holder_sum (points dst) hs2 col"
  let ?m = "\<lparr>hm_source = shares_at (points src) (map ?f1 (points src)), hm_source_degree = d1,
     hm_destination = shares_at (points dst) (map ?f2 (points dst)), hm_destination_degree = d2\<rparr>"
  have "reshare_pair_by component R src d1 dst d2 g = Ok (?m, g')"
    using assms rc'(1,2) hs by (simp add: reshare_pair_by_def Let_def rc spread_eq)
  moreover have f: "pdeg d1 ?f1" "pdeg d2 ?f2"
    using hs by (simp_all only: committee_size_def pdeg_holder_sum)
  have zero: "?f1 0 = sum_list (map component seeds)" "?f2 0 = sum_list (map component seeds)"
    using rc'(1,2,4) rc'(3) [symmetric] assms(1,2) seeds by (simp_all add: holder_sum_zero)
  have "mask_pair (points src) (points dst) d1 d2 (sum_list (map component seeds)) ?m"
    by (rule mask_pairI [where f = ?f1 and h = ?f2]) (simp_all add: sharing_shares_at f zero)
  ultimately show ?thesis
    by (intro that [OF hs seeds, of ?m]) simp_all
qed

lemma reshare_pair_dealer_mask:
  assumes "reshare_pair_dealer F src d1 dst d2 g = Ok (m, g')"
  shows "mask_pair (points src) (points dst) d1 d2 (fst (sf_rand F g)) m"
  using assms
  by (auto simp: reshare_pair_dealer_def mask_pair_def Let_def split_beta split: if_splits
      dest: split_secret_sharing)

section \<open>Properties\<close>

text \<open>\<open>rand_share\<close> never fails on a committee of distinct nonzero points: the shares lie on a
  polynomial of degree \<open>threshold\<close> whose value at zero is the sum of the PRF values of all holder
  sets, one seed per holder set.\<close>

theorem rand_share_correct:
  assumes "good_committee c"
  shows "\<exists>holders seeds g' shares f.
           holder_sets (committee_size c) (threshold c) = Ok holders \<and>
           draw_seeds R (length holders) g = (seeds, g') \<and>
           rand_share F hmac R c nonce g = Ok (shares, g') \<and>
           map point shares = points c \<and> sharing (threshold c) f shares \<and>
           f 0 = sum_list (map (\<lambda>seed. derive_element F hmac seed nonce) seeds)"
proof -
  have c: "0 \<notin> set (points c)" "threshold c \<le> committee_size c"
    using assms by (simp_all add: good_committee_def good_points_def)
  show ?thesis
    by (rule rand_share_by_sharing [OF c, of R g "\<lambda>seed. derive_element F hmac seed nonce"])
      (unfold rand_share_def, blast intro: sharing_shares_at point_shares_at)
qed

definition f2_committee :: "nat \<Rightarrow> nat \<Rightarrow> F2 committee" where
  "f2_committee t n = \<lparr>threshold = t, points = evaluation_points (f2_ops counter_rng) n\<rparr>"

lemma good_f2_points: "n < 256 \<Longrightarrow> good_points (points (f2_committee t n))"
  by (simp add: f2_committee_def f2.good_evaluation_points)

lemma good_f2_committee: "0 < t \<Longrightarrow> t < n \<Longrightarrow> n < 256 \<Longrightarrow> good_committee (f2_committee t n)"
  by (simp add: good_committee_def f2_committee_def committee_size_def f2.good_evaluation_points)

theorem rand_share_correct_witness:
  "\<exists>holders seeds g' shares f.
     holder_sets (committee_size (f2_committee 2 5)) (threshold (f2_committee 2 5)) = Ok holders \<and>
     draw_seeds counter_rng (length holders) 0 = (seeds, g') \<and>
     rand_share (f2_ops counter_rng) (\<lambda>k m. rev (k @ m)) counter_rng (f2_committee 2 5) [1] 0 = Ok (shares, g') \<and>
     map point shares = points (f2_committee 2 5) \<and> sharing (threshold (f2_committee 2 5)) f shares \<and>
     f 0 = sum_list (map (\<lambda>seed. derive_element (f2_ops counter_rng) (\<lambda>k m. rev (k @ m)) seed [1]) seeds)"
  by (rule rand_share_correct) (simp add: good_f2_committee)

text \<open>\<open>reshare_pair\<close> yields two sharings of one secret, of the two requested degrees, over the
  points of the two committees; the secret is the sum of one PRF value per pair of holder sets.
  A degree that is not below its committee size is the only error.\<close>

theorem reshare_pair_correct:
  assumes "good_points (points src)" "good_points (points dst)"
  shows "if d1 < committee_size src \<and> d2 < committee_size dst
         then \<exists>hs1 hs2 seeds m g'.
           holder_sets (committee_size src) d1 = Ok hs1 \<and> holder_sets (committee_size dst) d2 = Ok hs2 \<and>
           draw_seeds R (length hs1 * length hs2) g = (seeds, g') \<and>
           reshare_pair F hmac R src d1 dst d2 nonce g = Ok (m, g') \<and>
           mask_pair (points src) (points dst) d1 d2
             (sum_list (map (\<lambda>seed. derive_element F hmac seed nonce) seeds)) m
         else reshare_pair F hmac R src d1 dst d2 nonce g = Err InvalidThreshold"
proof (cases "d1 < committee_size src \<and> d2 < committee_size dst")
  case True
  have nz: "0 \<notin> set (points src)" "0 \<notin> set (points dst)" using assms by (simp_all add: good_points_def)
  show ?thesis
    unfolding if_P [OF True] reshare_pair_def
    by (rule reshare_pair_by_mask [OF nz True [THEN conjunct1] True [THEN conjunct2],
          of R g "\<lambda>seed. derive_element F hmac seed nonce"]) blast
next
  case False
  then show ?thesis by (simp add: reshare_pair_def reshare_pair_by_def not_less) auto
qed

theorem reshare_pair_correct_witness:
  "\<exists>hs1 hs2 seeds m g'.
     holder_sets 3 2 = Ok hs1 \<and> holder_sets 4 1 = Ok hs2 \<and>
     draw_seeds counter_rng (length hs1 * length hs2) 0 = (seeds, g') \<and>
     reshare_pair (f2_ops counter_rng) (\<lambda>k m. k @ m) counter_rng (f2_committee 2 3) 2 (f2_committee 1 4) 1 [7] 0 = Ok (m, g') \<and>
     mask_pair (points (f2_committee 2 3)) (points (f2_committee 1 4)) 2 1
       (sum_list (map (\<lambda>seed. derive_element (f2_ops counter_rng) (\<lambda>k m. k @ m) seed [7]) seeds)) m"
proof -
  have "committee_size (f2_committee t n) = n" for t n
    by (simp add: f2_committee_def committee_size_def)
  then show ?thesis
    using reshare_pair_correct [of "f2_committee 2 3" "f2_committee 1 4" 2 1 counter_rng 0
        "f2_ops counter_rng" "\<lambda>k m. k @ m" "[7]"] by (simp add: good_f2_points)
qed

end
