(* ===== verification/Handoff_Math.thy ===== *)
theory Handoff_Math
  imports Prss
begin

text \<open>
  \<open>crypto/src/mpc/handoff.rs\<close>: the two cross-committee protocols, \<open>basic_handoff\<close> and
  \<open>multiply_and_handoff\<close>. The source committee opens \<open>x - r\<close> (or \<open>x * y - r\<close>) under a mask pair,
  and the destination committee adds the opened difference to its side of the pair.

  The lemmas are about pointwise combinations of aligned sharings; every later protocol is such a
  combination followed by a reconstruction.
\<close>

section \<open>Pointwise combinations\<close>

text \<open>The closures over zipped shares check that the points agree and combine the values.\<close>

definition combine_shares ::
  "('f \<Rightarrow> 'f \<Rightarrow> 'f) \<Rightarrow> 'f shamir_share list \<Rightarrow> 'f shamir_share list \<Rightarrow> (mpc_error, 'f shamir_share list) res"
where
  "combine_shares op xs ys =
     mapR (\<lambda>(x, y). if point x \<noteq> point y then Err InconsistentShares
             else Ok \<lparr>point = point x, share_value = op (share_value x) (share_value y)\<rparr>)
       (zip xs ys)"

definition combine_shares3 ::
  "('f \<Rightarrow> 'f \<Rightarrow> 'f \<Rightarrow> 'f) \<Rightarrow> 'f shamir_share list \<Rightarrow> 'f shamir_share list \<Rightarrow> 'f shamir_share list \<Rightarrow>
     (mpc_error, 'f shamir_share list) res"
where
  "combine_shares3 op xs ys zs =
     mapR (\<lambda>((x, y), z). if point x \<noteq> point y \<or> point x \<noteq> point z then Err InconsistentShares
             else Ok \<lparr>point = point x, share_value = op (share_value x) (share_value y) (share_value z)\<rparr>)
       (zip (zip xs ys) zs)"

definition masked_difference_shares ::
  "'f::field shamir_share list \<Rightarrow> 'f shamir_share list \<Rightarrow> (mpc_error, 'f shamir_share list) res"
where
  "masked_difference_shares x m =
     (if length x \<noteq> length m then Err ShareCountMismatch else combine_shares (-) x m)"

definition apply_difference :: "'f::field \<Rightarrow> 'f shamir_share list \<Rightarrow> 'f shamir_share list" where
  "apply_difference delta m = map (\<lambda>r. \<lparr>point = point r, share_value = share_value r + delta\<rparr>) m"

definition basic_handoff ::
  "'f::field shamir_share list \<Rightarrow> 'f handoff_mask \<Rightarrow> 'f committee \<Rightarrow> 'f committee \<Rightarrow>
     (mpc_error, 'f shamir_share list) res"
where
  "basic_handoff x m src dst =
     (if length x \<noteq> length (hm_source m) \<or> length x \<noteq> committee_size src then Err ShareCountMismatch
      else if length (hm_destination m) \<noteq> committee_size dst then Err ShareCountMismatch
      else bindR (masked_difference_shares x (hm_source m)) (\<lambda>delta_shares.
           bindR (reconstruct delta_shares (threshold src + 1)) (\<lambda>delta.
             Ok (apply_difference delta (hm_destination m)))))"

definition multiply_and_handoff ::
  "'f::field shamir_share list \<Rightarrow> 'f shamir_share list \<Rightarrow> 'f handoff_mask \<Rightarrow> 'f committee \<Rightarrow> 'f committee \<Rightarrow>
     (mpc_error, 'f shamir_share list) res"
where
  "multiply_and_handoff x y m src dst =
     (if length x \<noteq> length y \<or> length x \<noteq> length (hm_source m) \<or> length x \<noteq> committee_size src
      then Err ShareCountMismatch
      else if length (hm_destination m) \<noteq> committee_size dst then Err ShareCountMismatch
      else if committee_size src \<le> 2 * threshold src then Err TooFewParties
      else bindR (combine_shares3 (\<lambda>xi yi ri. xi * yi - ri) x y (hm_source m)) (\<lambda>delta_shares.
           bindR (reconstruct delta_shares (2 * threshold src + 1)) (\<lambda>delta.
             Ok (apply_difference delta (hm_destination m)))))"

text \<open>Closures without a point check keep the points of their first argument.\<close>

definition zip_shares ::
  "('f \<Rightarrow> 'f \<Rightarrow> 'f) \<Rightarrow> 'f shamir_share list \<Rightarrow> 'f shamir_share list \<Rightarrow> 'f shamir_share list"
where
  "zip_shares op xs ys = map (\<lambda>(x, y). \<lparr>point = point x, share_value = op (share_value x) (share_value y)\<rparr>) (zip xs ys)"

section \<open>Combining aligned sharings\<close>

text \<open>A sharing is determined by its polynomial and its points.\<close>

definition on_points :: "('f \<Rightarrow> 'f) \<Rightarrow> 'f list \<Rightarrow> 'f shamir_share list" where
  "on_points f ps = map (\<lambda>p. \<lparr>point = p, share_value = f p\<rparr>) ps"

lemma on_points_simps [simp]:
  "map point (on_points f ps) = ps" "length (on_points f ps) = length ps"
  "map share_value (on_points f ps) = map f ps"
  by (simp_all add: on_points_def comp_def)

lemma sharing_on_points_iff [simp]: "sharing d f (on_points f ps) \<longleftrightarrow> pdeg d f"
  by (auto simp: sharing_def on_points_def)

lemma sharing_canonical: "sharing d f xs \<Longrightarrow> map point xs = ps \<Longrightarrow> xs = on_points f ps"
proof -
  assume "sharing d f xs" and ps: "map point xs = ps"
  then have "share_value s = f (point s)" if "s \<in> set xs" for s using that by (simp add: sharing_def)
  then show ?thesis unfolding ps [symmetric] on_points_def map_map comp_def by (intro map_idI [symmetric]) simp
qed

lemma combine_shares_on_points [simp]:
  "combine_shares op (on_points f ps) (on_points h ps) = Ok (on_points (\<lambda>x. op (f x) (h x)) ps)"
  unfolding combine_shares_def on_points_def by (induction ps) simp_all

lemma zip_shares_on_points [simp]:
  "zip_shares op (on_points f ps) (on_points h ps) = on_points (\<lambda>x. op (f x) (h x)) ps"
  unfolding zip_shares_def on_points_def by (induction ps) simp_all

lemma combine_shares3_on_points [simp]:
  "combine_shares3 op (on_points f ps) (on_points h ps) (on_points k ps) =
   Ok (on_points (\<lambda>x. op (f x) (h x) (k x)) ps)"
  unfolding combine_shares3_def on_points_def by (induction ps) simp_all

lemma masked_difference_on_points [simp]:
  "masked_difference_shares (on_points f ps) (on_points h ps) = Ok (on_points (\<lambda>x. f x - h x) ps)"
  by (simp add: masked_difference_shares_def)

lemma apply_difference_on_points [simp]:
  "apply_difference delta (on_points f ps) = on_points (\<lambda>x. f x + delta) ps"
  by (simp add: apply_difference_def on_points_def)

lemma reconstruct_on_points:
  "pdeg d f \<Longrightarrow> distinct ps \<Longrightarrow> d < length ps \<Longrightarrow> k \<le> length ps \<Longrightarrow> reconstruct (on_points f ps) k = Ok (f 0)"
  using reconstruct_sharing [of d f "on_points f ps" k] by simp

lemma mask_pair_on_points:
  assumes "mask_pair ps qs d1 d2 r m"
  obtains f h where "hm_source m = on_points f ps" "pdeg d1 f" "f 0 = r"
    "hm_destination m = on_points h qs" "pdeg d2 h" "h 0 = r"
proof -
  obtain f h where "sharing d1 f (hm_source m)" "f 0 = r" "sharing d2 h (hm_destination m)" "h 0 = r"
    and "map point (hm_source m) = ps" "map point (hm_destination m) = qs"
    using assms by (auto simp: mask_pair_def)
  then show ?thesis
    by (intro that [of f h]) (auto simp: sharing_canonical, simp_all add: sharing_def)
qed

definition val_sharing :: "nat \<Rightarrow> 'f::field list \<Rightarrow> 'f \<Rightarrow> 'f shamir_share list \<Rightarrow> bool" where
  "val_sharing d ps v xs \<longleftrightarrow> (\<exists>f. pdeg d f \<and> f 0 = v \<and> xs = on_points f ps)"

lemma val_sharingI: "pdeg d f \<Longrightarrow> f 0 = v \<Longrightarrow> val_sharing d ps v (on_points f ps)"
  by (auto simp: val_sharing_def)

lemma val_sharingE:
  assumes "val_sharing d ps v xs"
  obtains f where "pdeg d f" "f 0 = v" "xs = on_points f ps"
  using assms by (auto simp: val_sharing_def)

lemma val_sharing_sharing: "val_sharing d ps v xs \<longleftrightarrow> (\<exists>f. sharing d f xs \<and> f 0 = v) \<and> map point xs = ps"
proof
  assume "val_sharing d ps v xs"
  then obtain f where "pdeg d f" "f 0 = v" "xs = on_points f ps" by (rule val_sharingE)
  then show "(\<exists>f. sharing d f xs \<and> f 0 = v) \<and> map point xs = ps" by (metis sharing_on_points_iff on_points_simps(1))
next
  assume "(\<exists>f. sharing d f xs \<and> f 0 = v) \<and> map point xs = ps"
  then obtain f where f: "sharing d f xs" "f 0 = v" "map point xs = ps" by blast
  with sharing_canonical [OF f(1,3)] show "val_sharing d ps v xs" by (auto intro: val_sharingI simp: sharing_def)
qed

lemma val_sharing_length: "val_sharing d ps v xs \<Longrightarrow> length xs = length ps"
  by (auto simp: val_sharing_def)

lemma val_sharing_map:
  assumes "val_sharing d ps v xs" "\<And>f. pdeg d f \<Longrightarrow> pdeg d (\<lambda>x. op (f x))"
  shows "val_sharing d ps (op v) (map (\<lambda>s. \<lparr>point = point s, share_value = op (share_value s)\<rparr>) xs)"
proof -
  obtain f where f: "pdeg d f" "f 0 = v" "xs = on_points f ps" using assms(1) by (rule val_sharingE)
  have "map (\<lambda>s. \<lparr>point = point s, share_value = op (share_value s)\<rparr>) (on_points f ps) = on_points (\<lambda>x. op (f x)) ps"
    by (simp add: on_points_def)
  with f assms(2) [of f] show ?thesis by (auto intro: val_sharingI)
qed

lemma val_sharing_zip:
  assumes "val_sharing d ps v xs" "val_sharing d ps w ys"
    and "\<And>f h. pdeg d f \<Longrightarrow> pdeg d h \<Longrightarrow> pdeg d (\<lambda>x. op (f x) (h x))"
  shows "val_sharing d ps (op v w) (zip_shares op xs ys)"
  using assms by (fastforce simp: val_sharing_def)

lemma val_sharing_reconstruct:
  "val_sharing d ps v xs \<Longrightarrow> distinct ps \<Longrightarrow> d < length ps \<Longrightarrow> k \<le> length ps \<Longrightarrow> reconstruct xs k = Ok v"
  by (auto simp: val_sharing_def reconstruct_on_points)

lemma val_sharing_committee_reconstruct:
  "good_committee c \<Longrightarrow> val_sharing (threshold c) (points c) v xs \<Longrightarrow> committee_reconstruct c xs = Ok v"
  by (auto simp: val_sharing_def committee_reconstruct_sharing)

lemma committee_split_val:
  assumes "good_committee c"
  obtains xs g' where "committee_split F c v g = Ok (xs, g')" "val_sharing (threshold c) (points c) v xs"
proof -
  obtain xs g' where split: "split_secret F v (threshold c) (points c) g = Ok (xs, g')"
    using split_secret_Ok [of "threshold c" "points c" F v g] assms
    by (auto simp: good_committee_def committee_size_def)
  with split_secret_sharing(1,2) [OF split] show ?thesis
    by (intro that) (auto simp: committee_split_def val_sharing_sharing)
qed

text \<open>None of the steps panics, whatever the shares are.\<close>

lemma combine_shares_not_Panic [simp]: "combine_shares op xs ys \<noteq> Panic"
  unfolding combine_shares_def by (rule mapR_not_Panic) (auto split: if_splits)

lemma combine_shares3_not_Panic [simp]: "combine_shares3 op xs ys zs \<noteq> Panic"
  unfolding combine_shares3_def by (rule mapR_not_Panic) (auto split: if_splits)

lemma basic_handoff_total: "basic_handoff x m src dst \<noteq> Panic"
  by (auto simp: basic_handoff_def masked_difference_shares_def bindR_eq_Panic reconstruct_total split: if_splits)

lemma multiply_and_handoff_total: "multiply_and_handoff x y m src dst \<noteq> Panic"
  by (auto simp: multiply_and_handoff_def bindR_eq_Panic reconstruct_total split: if_splits)

section \<open>Correctness\<close>

lemma basic_handoff_on_points:
  assumes "pdeg d f" "d \<le> threshold src" "mask_pair (points src) (points dst) d1 d2 r m" "d1 \<le> threshold src"
    and "distinct (points src)" "threshold src < committee_size src"
  obtains k where "basic_handoff (on_points f (points src)) m src dst = Ok (on_points k (points dst))"
    "pdeg d2 k" "k 0 = f 0"
proof -
  obtain u v where u: "hm_source m = on_points u (points src)" "pdeg d1 u" "u 0 = r"
    and v: "hm_destination m = on_points v (points dst)" "pdeg d2 v" "v 0 = r"
    using mask_pair_on_points [OF assms(3)] by blast
  have "pdeg (threshold src) (\<lambda>x. f x - u x)"
    by (rule pdeg_diff) (use pdeg_mono assms u in blast)+
  then have "reconstruct (on_points (\<lambda>x. f x - u x) (points src)) (threshold src + 1) = Ok (f 0 - u 0)"
    by (rule reconstruct_on_points) (use assms(5,6) in \<open>auto simp: committee_size_def\<close>)
  then have "basic_handoff (on_points f (points src)) m src dst =
      Ok (on_points (\<lambda>x. v x + (f 0 - u 0)) (points dst))"
    by (simp add: basic_handoff_def u(1) v(1) committee_size_def)
  then show ?thesis
    by (rule that) (use u v in \<open>auto intro: pdeg_add pdeg_const\<close>)
qed

lemma multiply_and_handoff_on_points:
  assumes "pdeg d f" "d \<le> threshold src" "pdeg e h" "e \<le> threshold src"
    and "mask_pair (points src) (points dst) d1 d2 r m" "d1 \<le> 2 * threshold src"
    and "distinct (points src)" "2 * threshold src < committee_size src"
  obtains k where
    "multiply_and_handoff (on_points f (points src)) (on_points h (points src)) m src dst = Ok (on_points k (points dst))"
    "pdeg d2 k" "k 0 = f 0 * h 0"
proof -
  obtain u v where u: "hm_source m = on_points u (points src)" "pdeg d1 u" "u 0 = r"
    and v: "hm_destination m = on_points v (points dst)" "pdeg d2 v" "v 0 = r"
    using mask_pair_on_points [OF assms(5)] by blast
  have "pdeg (2 * threshold src) (\<lambda>x. f x * h x)"
    using pdeg_mult [OF assms(1,3)] by (rule pdeg_mono) (use assms(2,4) in simp)
  moreover have "pdeg (2 * threshold src) u" using u(2) assms(6) by (rule pdeg_mono)
  ultimately have "pdeg (2 * threshold src) (\<lambda>x. f x * h x - u x)" by (rule pdeg_diff)
  then have "reconstruct (on_points (\<lambda>x. f x * h x - u x) (points src)) (2 * threshold src + 1) =
      Ok (f 0 * h 0 - u 0)"
    by (rule reconstruct_on_points) (use assms(7,8) in \<open>auto simp: committee_size_def\<close>)
  then have "multiply_and_handoff (on_points f (points src)) (on_points h (points src)) m src dst =
      Ok (on_points (\<lambda>x. v x + (f 0 * h 0 - u 0)) (points dst))"
    using assms(8) by (simp add: multiply_and_handoff_def u(1) v(1) committee_size_def)
  then show ?thesis
    by (rule that) (use u v in \<open>auto intro: pdeg_add pdeg_const\<close>)
qed

section \<open>Properties\<close>

lemma reshare_pair_mask:
  assumes "good_committee src" "good_committee dst"
    and "reshare_pair F hmac R src d1 dst d2 nonce g = Ok (m, g')"
  shows "\<exists>r. mask_pair (points src) (points dst) d1 d2 r m" "d1 < committee_size src" "d2 < committee_size dst"
proof -
  show d: "d1 < committee_size src" "d2 < committee_size dst"
    using assms(3) by (auto simp: reshare_pair_def reshare_pair_by_def Let_def not_le split: if_splits)
  have nz: "0 \<notin> set (points src)" "0 \<notin> set (points dst)"
    using assms(1,2) by (simp_all add: good_committee_def good_points_def)
  show "\<exists>r. mask_pair (points src) (points dst) d1 d2 r m"
    by (rule reshare_pair_by_mask [OF nz d, of R g "\<lambda>seed. derive_element F hmac seed nonce"])
      (use assms(3) in \<open>auto simp: reshare_pair_def\<close>)
qed

text \<open>Runs over \<open>F2\<close> on which the hypotheses below hold.\<close>

lemma f2_committee_sel [simp]:
  "threshold (f2_committee t n) = t" "committee_size (f2_committee t n) = n"
  by (simp_all add: f2_committee_def committee_size_def)

lemma f2_split:
  assumes "0 < t" "t < n"
  obtains x f g' where "committee_split (f2_ops counter_rng) (f2_committee t n) s g = Ok (x, g')"
    "sharing (threshold (f2_committee t n)) f x" "f 0 = s" "map point x = points (f2_committee t n)"
proof -
  have len: "length (points (f2_committee t n)) = n" by (simp add: f2_committee_def)
  obtain x g' where split: "split_secret (f2_ops counter_rng) s t (points (f2_committee t n)) g = Ok (x, g')"
    using split_secret_Ok [of t "points (f2_committee t n)" "f2_ops counter_rng" s g] assms len by auto
  with split_secret_sharing(1,2) [OF split] show ?thesis
    using that by (auto simp: committee_split_def)
qed

lemma f2_reshare:
  assumes "d1 < n1" "d2 < n2" "n1 < 256" "n2 < 256"
  obtains m g' where "reshare_pair (f2_ops counter_rng) hmac counter_rng (f2_committee t1 n1) d1
      (f2_committee t2 n2) d2 nonce g = Ok (m, g')"
proof -
  have nz: "0 \<notin> set (points (f2_committee t n))" if "n < 256" for t n
    using good_f2_points [OF that, of t] by (simp add: good_points_def)
  show ?thesis
    by (rule reshare_pair_by_mask [OF nz [OF assms(3)] nz [OF assms(4)], of d1 t1 d2 t2 counter_rng g
          "\<lambda>seed. derive_element (f2_ops counter_rng) hmac seed nonce"])
      (use assms that in \<open>auto simp: reshare_pair_def\<close>)
qed

text \<open>Handoff keeps the secret: a sharing of the source committee, handed over with a mask pair of
  \<open>reshare_pair\<close>, becomes a sharing of the same secret on the destination committee.\<close>

theorem basic_handoff_preserves_secret:
  assumes "good_committee src" "good_committee dst"
    and "sharing (threshold src) f x" "map point x = points src"
    and "reshare_pair F hmac R src (threshold src) dst (threshold dst) nonce g = Ok (m, g')"
  shows "\<exists>out k. basic_handoff x m src dst = Ok out \<and> map point out = points dst \<and>
           sharing (threshold dst) k out \<and> k 0 = f 0 \<and> committee_reconstruct dst out = Ok (f 0)"
proof -
  obtain r where r: "mask_pair (points src) (points dst) (threshold src) (threshold dst) r m"
    using reshare_pair_mask(1) [OF assms(1,2,5)] by blast
  have good: "distinct (points src)" "threshold src < committee_size src"
    using assms(1,2) by (simp_all add: good_committee_def good_points_def)
  have f: "pdeg (threshold src) f" using assms(3) by (simp add: sharing_def)
  have x: "x = on_points f (points src)" using sharing_canonical [OF assms(3,4)] .
  obtain k where k: "basic_handoff x m src dst = Ok (on_points k (points dst))" "pdeg (threshold dst) k" "k 0 = f 0"
    unfolding x by (rule basic_handoff_on_points [OF f le_refl r le_refl good(1,2)])
  moreover have "committee_reconstruct dst (on_points k (points dst)) = Ok (k 0)"
    by (rule committee_reconstruct_sharing) (use assms(2) k in simp_all)
  ultimately show ?thesis by (intro exI [of _ "on_points k (points dst)"] exI [of _ k]) simp
qed

theorem basic_handoff_preserves_secret_witness:
  "\<exists>x g1 m g2 out. committee_split (f2_ops counter_rng) (f2_committee 1 3) (F2 42) 0 = Ok (x, g1) \<and>
     reshare_pair (f2_ops counter_rng) (\<lambda>k n. k @ n) counter_rng (f2_committee 1 3) 1 (f2_committee 2 4) 2 [1] g1 = Ok (m, g2) \<and>
     basic_handoff x m (f2_committee 1 3) (f2_committee 2 4) = Ok out \<and>
     committee_reconstruct (f2_committee 2 4) out = Ok (F2 42)"
proof -
  obtain x f g1 where x: "committee_split (f2_ops counter_rng) (f2_committee 1 3) (F2 42) 0 = Ok (x, g1)"
    "sharing (threshold (f2_committee 1 3)) f x" "f 0 = F2 42" "map point x = points (f2_committee 1 3)"
    by (rule f2_split [of 1 3 "F2 42" 0]) simp_all
  obtain m g2 where m: "reshare_pair (f2_ops counter_rng) (\<lambda>k n. k @ n) counter_rng (f2_committee 1 3) 1
      (f2_committee 2 4) 2 [1] g1 = Ok (m, g2)"
    by (rule f2_reshare [of 1 3 2 4 "\<lambda>k n. k @ n" 1 2 "[1]" g1]) simp_all
  have good: "good_committee (f2_committee 1 3)" "good_committee (f2_committee 2 4)"
    by (simp_all add: good_f2_committee)
  show ?thesis
    using basic_handoff_preserves_secret [OF good x(2,4)] m x(1,3) by fastforce
qed

text \<open>C6. Multiplication with degree reduction: with a mask pair of source degree \<open>2 * threshold\<close> and more
  than \<open>2 * threshold\<close> parties, the output is a sharing of the product, of the destination's own
  degree.\<close>

theorem multiply_and_handoff_product:
  assumes "good_committee src" "good_committee dst" "2 * threshold src < committee_size src"
    and "sharing (threshold src) f x" "map point x = points src"
    and "sharing (threshold src) h y" "map point y = points src"
    and "reshare_pair F hmac R src (2 * threshold src) dst (threshold dst) nonce g = Ok (m, g')"
  shows "\<exists>out k. multiply_and_handoff x y m src dst = Ok out \<and> map point out = points dst \<and>
           sharing (threshold dst) k out \<and> k 0 = f 0 * h 0 \<and> committee_reconstruct dst out = Ok (f 0 * h 0)"
proof -
  obtain r where r: "mask_pair (points src) (points dst) (2 * threshold src) (threshold dst) r m"
    using reshare_pair_mask(1) [OF assms(1,2,8)] by blast
  have good: "distinct (points src)"
    using assms(1,2) by (simp_all add: good_committee_def good_points_def)
  have fh: "pdeg (threshold src) f" "pdeg (threshold src) h" using assms(4,6) by (simp_all add: sharing_def)
  have xy: "x = on_points f (points src)" "y = on_points h (points src)"
    using sharing_canonical [OF assms(4,5)] sharing_canonical [OF assms(6,7)] by simp_all
  obtain k where k: "multiply_and_handoff x y m src dst = Ok (on_points k (points dst))"
    "pdeg (threshold dst) k" "k 0 = f 0 * h 0"
    unfolding xy
    by (rule multiply_and_handoff_on_points [OF fh(1) le_refl fh(2) le_refl r le_refl good assms(3)])
  moreover have "committee_reconstruct dst (on_points k (points dst)) = Ok (k 0)"
    by (rule committee_reconstruct_sharing) (use assms(2) k in simp_all)
  ultimately show ?thesis by (intro exI [of _ "on_points k (points dst)"] exI [of _ k]) simp
qed

theorem multiply_and_handoff_product_witness:
  "\<exists>x y g1 g2 m g3 out. committee_split (f2_ops counter_rng) (f2_committee 1 3) (F2 42) 0 = Ok (x, g1) \<and>
     committee_split (f2_ops counter_rng) (f2_committee 1 3) (F2 7) g1 = Ok (y, g2) \<and>
     reshare_pair (f2_ops counter_rng) (\<lambda>k n. k @ n) counter_rng (f2_committee 1 3) 2 (f2_committee 2 4) 2 [1] g2 = Ok (m, g3) \<and>
     multiply_and_handoff x y m (f2_committee 1 3) (f2_committee 2 4) = Ok out \<and>
     committee_reconstruct (f2_committee 2 4) out = Ok (F2 42 * F2 7)"
proof -
  obtain x f g1 where x: "committee_split (f2_ops counter_rng) (f2_committee 1 3) (F2 42) 0 = Ok (x, g1)"
    "sharing (threshold (f2_committee 1 3)) f x" "f 0 = F2 42" "map point x = points (f2_committee 1 3)"
    by (rule f2_split [of 1 3 "F2 42" 0]) simp_all
  obtain y h g2 where y: "committee_split (f2_ops counter_rng) (f2_committee 1 3) (F2 7) g1 = Ok (y, g2)"
    "sharing (threshold (f2_committee 1 3)) h y" "h 0 = F2 7" "map point y = points (f2_committee 1 3)"
    by (rule f2_split [of 1 3 "F2 7" g1]) simp_all
  obtain m g3 where m: "reshare_pair (f2_ops counter_rng) (\<lambda>k n. k @ n) counter_rng (f2_committee 1 3) 2
      (f2_committee 2 4) 2 [1] g2 = Ok (m, g3)"
    by (rule f2_reshare [of 2 3 2 4 "\<lambda>k n. k @ n" 1 2 "[1]" g2]) simp_all
  have good: "good_committee (f2_committee 1 3)" "good_committee (f2_committee 2 4)"
    by (simp_all add: good_f2_committee)
  show ?thesis
    using multiply_and_handoff_product [OF good _ x(2,4) y(2,4)] m x(1,3) y(1,3) by fastforce
qed

end
