(* ===== verification/Auth.thy ===== *)
theory Auth
  imports Handoff_Math
begin

text \<open>
  \<open>crypto/src/mpc/auth.rs\<close>: sharings with an information-theoretic MAC, the tag of \<open>x\<close> being a
  sharing of \<open>alpha * x\<close>. Linear operations are local, handoff and multiplication act on both
  parts, and \<open>verify_mac\<close> opens the masked difference of the recomputed and the claimed tag.
\<close>

record 'f authenticated_sharing =
  au_value :: "'f shamir_share list"
  au_mac :: "'f shamir_share list"

definition add_pointwise ::
  "'f::field shamir_share list \<Rightarrow> 'f shamir_share list \<Rightarrow> (mpc_error, 'f shamir_share list) res"
where
  "add_pointwise a b = (if length a \<noteq> length b then Err ShareCountMismatch else combine_shares (+) a b)"

definition auth_add ::
  "'f::field authenticated_sharing \<Rightarrow> 'f authenticated_sharing \<Rightarrow> (mpc_error, 'f authenticated_sharing) res"
where
  "auth_add a b =
     (if length (au_value a) \<noteq> length (au_value b) \<or> length (au_mac a) \<noteq> length (au_mac b)
      then Err ShareCountMismatch
      else bindR (add_pointwise (au_value a) (au_value b)) (\<lambda>v.
           bindR (add_pointwise (au_mac a) (au_mac b)) (\<lambda>t. Ok \<lparr>au_value = v, au_mac = t\<rparr>)))"

definition scale_shares :: "'f::field \<Rightarrow> 'f shamir_share list \<Rightarrow> 'f shamir_share list" where
  "scale_shares c = map (\<lambda>s. \<lparr>point = point s, share_value = c * share_value s\<rparr>)"

definition auth_scalar_mul :: "'f::field \<Rightarrow> 'f authenticated_sharing \<Rightarrow> 'f authenticated_sharing" where
  "auth_scalar_mul c a = \<lparr>au_value = scale_shares c (au_value a), au_mac = scale_shares c (au_mac a)\<rparr>"

definition authenticated_handoff ::
  "'f::field authenticated_sharing \<Rightarrow> 'f handoff_mask \<Rightarrow> 'f handoff_mask \<Rightarrow> 'f committee \<Rightarrow> 'f committee \<Rightarrow>
     (mpc_error, 'f authenticated_sharing) res"
where
  "authenticated_handoff x mask_value mask_mac src dst =
     bindR (basic_handoff (au_value x) mask_value src dst) (\<lambda>v.
     bindR (basic_handoff (au_mac x) mask_mac src dst) (\<lambda>t. Ok \<lparr>au_value = v, au_mac = t\<rparr>))"

definition authenticated_multiply ::
  "'f::field authenticated_sharing \<Rightarrow> 'f shamir_share list \<Rightarrow> 'f handoff_mask \<Rightarrow> 'f handoff_mask \<Rightarrow>
     'f committee \<Rightarrow> 'f committee \<Rightarrow> (mpc_error, 'f authenticated_sharing) res"
where
  "authenticated_multiply x y mask_value mask_mac src dst =
     bindR (multiply_and_handoff (au_value x) y mask_value src dst) (\<lambda>v.
     bindR (multiply_and_handoff (au_mac x) y mask_mac src dst) (\<lambda>t. Ok \<lparr>au_value = v, au_mac = t\<rparr>))"

definition verify_mac ::
  "'f::field shamir_share list \<Rightarrow> 'f shamir_share list \<Rightarrow> 'f shamir_share list \<Rightarrow> 'f handoff_mask \<Rightarrow>
     'f handoff_mask \<Rightarrow> 'f shamir_share list \<Rightarrow> 'f committee \<Rightarrow> 'f committee \<Rightarrow> (mpc_error, bool) res"
where
  "verify_mac value mac alpha mask_mul mask_tag r_check comm2 comm3 =
     bindR (multiply_and_handoff value alpha mask_mul comm2 comm3) (\<lambda>z.
     bindR (basic_handoff mac mask_tag comm2 comm3) (\<lambda>tag.
     bindR (combine_shares3 (\<lambda>zi ti ri. (zi - ti) * ri) z tag r_check) (\<lambda>v_shares.
     bindR (reconstruct v_shares (2 * threshold comm3 + 1)) (\<lambda>v. Ok (v = 0)))))"

section \<open>The MAC relation\<close>

definition auth_sharing ::
  "nat \<Rightarrow> 'f::field list \<Rightarrow> 'f \<Rightarrow> 'f \<Rightarrow> 'f authenticated_sharing \<Rightarrow> bool"
where
  "auth_sharing d ps alpha x a \<longleftrightarrow>
     (\<exists>f. pdeg d f \<and> f 0 = x \<and> au_value a = on_points f ps) \<and>
     (\<exists>f. pdeg d f \<and> f 0 = alpha * x \<and> au_mac a = on_points f ps)"

lemma scale_on_points [simp]: "scale_shares c (on_points f ps) = on_points (\<lambda>x. c * f x) ps"
  by (simp add: scale_shares_def on_points_def)

lemma auth_add_sharing:
  assumes "auth_sharing d ps alpha x a" "auth_sharing d ps alpha y b"
  shows "\<exists>c. auth_add a b = Ok c \<and> auth_sharing d ps alpha (x + y) c"
proof -
  obtain f1 t1 where a: "pdeg d f1" "f1 0 = x" "au_value a = on_points f1 ps"
    "pdeg d t1" "t1 0 = alpha * x" "au_mac a = on_points t1 ps"
    using assms(1) by (auto simp: auth_sharing_def)
  obtain f2 t2 where b: "pdeg d f2" "f2 0 = y" "au_value b = on_points f2 ps"
    "pdeg d t2" "t2 0 = alpha * y" "au_mac b = on_points t2 ps"
    using assms(2) by (auto simp: auth_sharing_def)
  have "auth_add a b =
      Ok \<lparr>au_value = on_points (\<lambda>x. f1 x + f2 x) ps, au_mac = on_points (\<lambda>x. t1 x + t2 x) ps\<rparr>"
    by (simp add: auth_add_def add_pointwise_def a b)
  moreover have "pdeg d (\<lambda>x. f1 x + f2 x)" "pdeg d (\<lambda>x. t1 x + t2 x)" using a b by (auto intro: pdeg_add)
  moreover have "f1 0 + f2 0 = x + y" "t1 0 + t2 0 = alpha * (x + y)" using a b by (simp_all add: distrib_left)
  ultimately show ?thesis unfolding auth_sharing_def by fastforce
qed

lemma auth_scalar_mul_sharing:
  assumes "auth_sharing d ps alpha x a"
  shows "auth_sharing d ps alpha (c * x) (auth_scalar_mul c a)"
proof -
  obtain f t where a: "pdeg d f" "f 0 = x" "au_value a = on_points f ps"
    "pdeg d t" "t 0 = alpha * x" "au_mac a = on_points t ps"
    using assms by (auto simp: auth_sharing_def)
  have "pdeg d (\<lambda>x. c * f x)" "pdeg d (\<lambda>x. c * t x)" using a by (auto intro: pdeg_smult)
  moreover have "c * f 0 = c * x" "c * t 0 = alpha * (c * x)" using a by simp_all
  moreover have "auth_scalar_mul c a = \<lparr>au_value = on_points (\<lambda>x. c * f x) ps, au_mac = on_points (\<lambda>x. c * t x) ps\<rparr>"
    by (simp add: auth_scalar_mul_def a)
  ultimately show ?thesis unfolding auth_sharing_def by fastforce
qed

lemma authenticated_handoff_sharing:
  assumes "auth_sharing (threshold src) (points src) alpha x a"
    and "mask_pair (points src) (points dst) (threshold src) d r mv"
    and "mask_pair (points src) (points dst) (threshold src) d r' mm"
    and "distinct (points src)" "threshold src < committee_size src"
  shows "\<exists>c. authenticated_handoff a mv mm src dst = Ok c \<and> auth_sharing d (points dst) alpha x c"
proof -
  obtain f t where a: "pdeg (threshold src) f" "f 0 = x" "au_value a = on_points f (points src)"
    "pdeg (threshold src) t" "t 0 = alpha * x" "au_mac a = on_points t (points src)"
    using assms(1) by (auto simp: auth_sharing_def)
  obtain k where k: "basic_handoff (au_value a) mv src dst = Ok (on_points k (points dst))" "pdeg d k" "k 0 = f 0"
    unfolding a(3) by (rule basic_handoff_on_points [OF a(1) le_refl assms(2) le_refl assms(4,5)])
  obtain l where l: "basic_handoff (au_mac a) mm src dst = Ok (on_points l (points dst))" "pdeg d l" "l 0 = t 0"
    unfolding a(6) by (rule basic_handoff_on_points [OF a(4) le_refl assms(3) le_refl assms(4,5)])
  show ?thesis
    using k l a by (auto simp: authenticated_handoff_def auth_sharing_def)
qed

lemma authenticated_multiply_sharing:
  assumes "auth_sharing (threshold src) (points src) alpha x a"
    and "sharing (threshold src) h y" "map point y = points src"
    and "mask_pair (points src) (points dst) (2 * threshold src) d r mv"
    and "mask_pair (points src) (points dst) (2 * threshold src) d r' mm"
    and "distinct (points src)" "2 * threshold src < committee_size src"
  shows "\<exists>c. authenticated_multiply a y mv mm src dst = Ok c \<and> auth_sharing d (points dst) alpha (x * h 0) c"
proof -
  obtain f t where a: "pdeg (threshold src) f" "f 0 = x" "au_value a = on_points f (points src)"
    "pdeg (threshold src) t" "t 0 = alpha * x" "au_mac a = on_points t (points src)"
    using assms(1) by (auto simp: auth_sharing_def)
  have h: "pdeg (threshold src) h" using assms(2) by (simp add: sharing_def)
  have y: "y = on_points h (points src)" using sharing_canonical [OF assms(2,3)] .
  obtain k where k: "multiply_and_handoff (au_value a) y mv src dst = Ok (on_points k (points dst))"
    "pdeg d k" "k 0 = f 0 * h 0"
    unfolding a(3) y
    by (rule multiply_and_handoff_on_points [OF a(1) le_refl h le_refl assms(4) le_refl assms(6,7)])
  obtain l where l: "multiply_and_handoff (au_mac a) y mm src dst = Ok (on_points l (points dst))"
    "pdeg d l" "l 0 = t 0 * h 0"
    unfolding a(6) y
    by (rule multiply_and_handoff_on_points [OF a(4) le_refl h le_refl assms(5) le_refl assms(6,7)])
  show ?thesis
    using k l a by (auto simp: authenticated_multiply_def auth_sharing_def mult.assoc)
qed

section \<open>Properties\<close>

text \<open>The delayed check decides the MAC relation: it opens \<open>(alpha * x - tag) * r\<close>, so it accepts every
  correct tag, and under a nonzero check mask it rejects every wrong one.\<close>

theorem verify_mac_decides:
  assumes c2: "good_committee comm2" "2 * threshold comm2 < committee_size comm2"
    and c3: "good_committee comm3" "2 * threshold comm3 < committee_size comm3"
    and x: "sharing (threshold comm2) f x" "map point x = points comm2"
    and t: "sharing (threshold comm2) t tag" "map point tag = points comm2"
    and al: "sharing (threshold comm2) al alpha" "map point alpha = points comm2"
    and rc: "sharing (threshold comm3) rc r_check" "map point r_check = points comm3"
    and mul: "mask_pair (points comm2) (points comm3) (2 * threshold comm2) (threshold comm3) r mask_mul"
    and tagm: "mask_pair (points comm2) (points comm3) (threshold comm2) (threshold comm3) r' mask_tag"
  shows "verify_mac x tag alpha mask_mul mask_tag r_check comm2 comm3 = Ok ((f 0 * al 0 - t 0) * rc 0 = 0)"
proof -
  have good: "distinct (points comm2)" "distinct (points comm3)" "threshold comm2 < committee_size comm2"
    using c2 c3 by (simp_all add: good_committee_def good_points_def)
  have deg: "pdeg (threshold comm2) f" "pdeg (threshold comm2) t" "pdeg (threshold comm2) al" "pdeg (threshold comm3) rc"
    using x t al rc by (simp_all add: sharing_def)
  have canon: "x = on_points f (points comm2)" "tag = on_points t (points comm2)"
    "alpha = on_points al (points comm2)" "r_check = on_points rc (points comm3)"
    using sharing_canonical [OF x] sharing_canonical [OF t] sharing_canonical [OF al] sharing_canonical [OF rc] by simp_all
  obtain z where z: "multiply_and_handoff x alpha mask_mul comm2 comm3 = Ok (on_points z (points comm3))"
    "pdeg (threshold comm3) z" "z 0 = f 0 * al 0"
    unfolding canon
    by (rule multiply_and_handoff_on_points [OF deg(1) le_refl deg(3) le_refl mul le_refl good(1) c2(2)])
  obtain u where u: "basic_handoff tag mask_tag comm2 comm3 = Ok (on_points u (points comm3))"
    "pdeg (threshold comm3) u" "u 0 = t 0"
    unfolding canon by (rule basic_handoff_on_points [OF deg(2) le_refl tagm le_refl good(1,3)])
  have "pdeg (2 * threshold comm3) (\<lambda>x. (z x - u x) * rc x)"
    using pdeg_mult [OF pdeg_diff [OF z(2) u(2)] deg(4)] by (simp add: mult_2)
  then have "reconstruct (on_points (\<lambda>x. (z x - u x) * rc x) (points comm3)) (2 * threshold comm3 + 1) =
      Ok ((z 0 - u 0) * rc 0)"
    by (rule reconstruct_on_points) (use good(2) c3(2) in \<open>simp_all add: committee_size_def\<close>)
  then show ?thesis
    by (simp add: verify_mac_def z u canon(4) del: mult_eq_0_iff)
qed

lemma f2_mask:
  assumes "d1 < n1" "d2 < n2" "n1 < 256" "n2 < 256" "0 < t1" "t1 < n1" "0 < t2" "t2 < n2"
  obtains r m where "mask_pair (points (f2_committee t1 n1)) (points (f2_committee t2 n2)) d1 d2 r m"
proof -
  obtain m g' where m: "reshare_pair (f2_ops counter_rng) (@) counter_rng (f2_committee t1 n1) d1
      (f2_committee t2 n2) d2 [] 0 = Ok (m, g')"
    by (rule f2_reshare [of d1 n1 d2 n2 "(@)" t1 t2 "[]" 0]) (use assms in auto)
  have "good_committee (f2_committee t1 n1)" "good_committee (f2_committee t2 n2)"
    using assms by (simp_all add: good_f2_committee)
  from reshare_pair_mask(1) [OF this m] show ?thesis by (elim exE) (rule that)
qed

theorem verify_mac_decides_witness:
  "\<exists>x alpha good bad r_check mm mt c.
     c = f2_committee 1 3 \<and> committee_reconstruct c good = Ok (F2 42 * F2 3) \<and>
     committee_reconstruct c bad = Ok (F2 1) \<and>
     verify_mac x good alpha mm mt r_check c c = Ok True \<and> verify_mac x bad alpha mm mt r_check c c = Ok False"
proof -
  let ?c = "f2_committee 1 3"
  have c: "good_committee ?c" "2 * threshold ?c < committee_size ?c" by (simp_all add: good_f2_committee)
  obtain x f where x: "sharing (threshold ?c) f x" "map point x = points ?c" "f 0 = F2 42"
    by (rule f2_split [of 1 3 "F2 42" 0]) simp_all
  obtain alpha al where al: "sharing (threshold ?c) al alpha" "map point alpha = points ?c" "al 0 = F2 3"
    by (rule f2_split [of 1 3 "F2 3" 0]) simp_all
  obtain good t where t: "sharing (threshold ?c) t good" "map point good = points ?c" "t 0 = F2 42 * F2 3"
    by (rule f2_split [of 1 3 "F2 42 * F2 3" 0]) simp_all
  obtain bad b where b: "sharing (threshold ?c) b bad" "map point bad = points ?c" "b 0 = F2 1"
    by (rule f2_split [of 1 3 "F2 1" 0]) simp_all
  obtain r_check rc where rc: "sharing (threshold ?c) rc r_check" "map point r_check = points ?c" "rc 0 = F2 5"
    by (rule f2_split [of 1 3 "F2 5" 0]) simp_all
  obtain r mm where mm: "mask_pair (points ?c) (points ?c) (2 * threshold ?c) (threshold ?c) r mm"
    by (rule f2_mask [of 2 3 1 3 1 1]) simp_all
  obtain r' mt where mt: "mask_pair (points ?c) (points ?c) (threshold ?c) (threshold ?c) r' mt"
    by (rule f2_mask [of 1 3 1 3 1 1]) simp_all
  have "F2 42 * F2 3 - F2 1 \<noteq> 0" "F2 5 \<noteq> 0"
    by (simp_all add: times_F2_def f2_mul_def minus_F2_def f2_sub_def zero_F2_def gf2_eval)
  then have "verify_mac x good alpha mm mt r_check ?c ?c = Ok True"
    "verify_mac x bad alpha mm mt r_check ?c ?c = Ok False"
    using verify_mac_decides [OF c c x(1,2) t(1,2) al(1,2) rc(1,2) mm mt]
      verify_mac_decides [OF c c x(1,2) b(1,2) al(1,2) rc(1,2) mm mt] x(3) t(3) al(3) rc(3) b(3) by simp_all
  then show ?thesis
    using committee_reconstruct_sharing [OF c(1) t(1,2)] committee_reconstruct_sharing [OF c(1) b(1,2)] t(3) b(3)
    by metis
qed

end
