(* ===== verification/S2B.thy ===== *)
theory S2B
  imports Prime_Field Auth
begin

text \<open>
  \<open>crypto/src/mpc/s2b.rs\<close>: from shares of \<open>x\<close> over a prime field to shares of the bits of \<open>x\<close> over a
  field \<open>'b\<close> of characteristic 2. The public difference \<open>x - r\<close> is added to the shared bits of \<open>r\<close> by
  a ripple-carry adder whose \<open>AND\<close> is \<open>multiply_and_handoff\<close>; the full-width version then subtracts
  the modulus and selects.

  The lemmas lift boolean full adders and subtractors to sharings of bits, and the ripple loops to
  arithmetic on the values of bit lists. The \<open>counter\<close> of the Rust code is only written and is
  left out.
\<close>

record ('f, 'b) bit_extract_pair =
  bep_arithmetic :: "'f shamir_share list"
  bep_bits :: "'b shamir_share list list"

definition nat_bits :: "nat \<Rightarrow> nat \<Rightarrow> bool list" where
  "nat_bits len n = map (bit n) [0..<len]"

definition bigint_bits_le :: "'f prime_field_ops \<Rightarrow> 'f \<Rightarrow> bool list" where
  "bigint_bits_le P x = nat_bits (pf_bit_size P) (pf_into P x)"

text \<open>\<open>iter().map(..).collect()\<close> over calls that draw randomness.\<close>

primrec mapG :: "('a \<Rightarrow> 'g \<Rightarrow> ('e, 'c \<times> 'g) res) \<Rightarrow> 'a list \<Rightarrow> 'g \<Rightarrow> ('e, 'c list \<times> 'g) res" where
  "mapG f [] g = Ok ([], g)"
| "mapG f (x # xs) g =
     bindR (f x g) (\<lambda>(y, g1). bindR (mapG f xs g1) (\<lambda>(ys, g2). Ok (y # ys, g2)))"

definition generate_bit_extract_pair ::
  "'f::field prime_field_ops \<Rightarrow> ('f, 'g) share_field_ops \<Rightarrow> ('b::field, 'g) share_field_ops \<Rightarrow>
     'f committee \<Rightarrow> 'b committee \<Rightarrow> 'g \<Rightarrow> (mpc_error, ('f, 'b) bit_extract_pair \<times> 'g) res"
where
  "generate_bit_extract_pair P F B cf cb g =
     (let (r, g1) = sf_rand F g in
      bindR (committee_split F cf r g1) (\<lambda>(arithmetic, g2).
      bindR (mapG (\<lambda>b. committee_split B cb (if b then 1 else 0)) (bigint_bits_le P r) g2) (\<lambda>(bits, g3).
        Ok (\<lparr>bep_arithmetic = arithmetic, bep_bits = bits\<rparr>, g3))))"

definition secret_and ::
  "('b::field, 'g) share_field_ops \<Rightarrow> 'b shamir_share list \<Rightarrow> 'b shamir_share list \<Rightarrow> 'b committee \<Rightarrow> 'g \<Rightarrow>
     (mpc_error, 'b shamir_share list \<times> 'g) res"
where
  "secret_and B a b c g =
     bindR (reshare_pair_dealer B c (2 * threshold c) c (threshold c) g) (\<lambda>(m, g').
     bindR (multiply_and_handoff a b m c c) (\<lambda>z. Ok (z, g')))"

text \<open>
  The loops over \<open>0..b.len()\<close> of both cells read three vectors at the same index and push one share
  on each of two results.
\<close>

definition cell_loop ::
  "('b \<Rightarrow> 'b \<Rightarrow> 'b \<Rightarrow> 'b) \<Rightarrow> ('b \<Rightarrow> 'b \<Rightarrow> 'b \<Rightarrow> 'b) \<Rightarrow> 'b shamir_share list \<Rightarrow> 'b shamir_share list \<Rightarrow>
     'b shamir_share list \<Rightarrow> (mpc_error, 'b shamir_share list \<times> 'b shamir_share list) res"
where
  "cell_loop op1 op2 xs ys zs =
     bindR (mapR (\<lambda>i. bindR (nthR xs i) (\<lambda>x. bindR (nthR ys i) (\<lambda>y. bindR (nthR zs i) (\<lambda>z.
              Ok (\<lparr>point = point x, share_value = op1 (share_value x) (share_value y) (share_value z)\<rparr>,
                  \<lparr>point = point x, share_value = op2 (share_value x) (share_value y) (share_value z)\<rparr>)))))
            [0..<length xs]) (\<lambda>out. Ok (map fst out, map snd out))"

definition full_adder ::
  "('b::field, 'g) share_field_ops \<Rightarrow> bool \<Rightarrow> 'b shamir_share list \<Rightarrow> 'b shamir_share list \<Rightarrow> 'b committee \<Rightarrow> 'g \<Rightarrow>
     (mpc_error, ('b shamir_share list \<times> 'b shamir_share list) \<times> 'g) res"
where
  "full_adder B a b c cm g =
     (let a_f = (if a then 1 else 0) in
      bindR (secret_and B b c cm g) (\<lambda>(t, g').
      bindR (cell_loop (\<lambda>bi ci ti. a_f + bi + ci) (\<lambda>bi ci ti. a_f * (bi + ci) + ti) b c t)
        (\<lambda>out. Ok (out, g'))))"

definition full_subtractor ::
  "('b::field, 'g) share_field_ops \<Rightarrow> 'b shamir_share list \<Rightarrow> bool \<Rightarrow> 'b shamir_share list \<Rightarrow> 'b committee \<Rightarrow> 'g \<Rightarrow>
     (mpc_error, ('b shamir_share list \<times> 'b shamir_share list) \<times> 'g) res"
where
  "full_subtractor B a b b_in cm g =
     (let b_f = (if b then 1 else 0) in
      bindR (secret_and B a b_in cm g) (\<lambda>(u, g').
      bindR (cell_loop (\<lambda>ai bi ui. ai + b_f + bi) (\<lambda>ai bi ui. b_f + b_f * ai + bi + ui + b_f * bi) a b_in u)
        (\<lambda>out. Ok (out, g'))))"

text \<open>The ripple loops: indexing past the end of the second vector panics.\<close>

fun ripple_add_loop ::
  "('b::field, 'g) share_field_ops \<Rightarrow> 'b committee \<Rightarrow> bool list \<Rightarrow> 'b shamir_share list list \<Rightarrow>
     'b shamir_share list \<Rightarrow> 'g \<Rightarrow> (mpc_error, ('b shamir_share list list \<times> 'b shamir_share list) \<times> 'g) res"
where
  "ripple_add_loop B cm [] rs carry g = Ok (([], carry), g)"
| "ripple_add_loop B cm (d # ds) [] carry g = Panic"
| "ripple_add_loop B cm (d # ds) (r # rs) carry g =
     bindR (full_adder B d r carry cm g) (\<lambda>((s, c), g1).
     bindR (ripple_add_loop B cm ds rs c g1) (\<lambda>((ss, c'), g2). Ok ((s # ss, c'), g2)))"

definition ripple_add ::
  "('b::field, 'g) share_field_ops \<Rightarrow> bool list \<Rightarrow> 'b shamir_share list list \<Rightarrow> 'b committee \<Rightarrow> 'g \<Rightarrow>
     (mpc_error, ('b shamir_share list list \<times> 'b shamir_share list) \<times> 'g) res"
where
  "ripple_add B delta_bits r_bits cm g =
     bindR (committee_split B cm 0 g) (\<lambda>(carry, g1). ripple_add_loop B cm delta_bits r_bits carry g1)"

fun ripple_sub_loop ::
  "('b::field, 'g) share_field_ops \<Rightarrow> 'b committee \<Rightarrow> 'b shamir_share list list \<Rightarrow> bool list \<Rightarrow>
     'b shamir_share list \<Rightarrow> 'g \<Rightarrow> (mpc_error, ('b shamir_share list list \<times> 'b shamir_share list) \<times> 'g) res"
where
  "ripple_sub_loop B cm [] qs borrow g = Ok (([], borrow), g)"
| "ripple_sub_loop B cm (s # ss) [] borrow g = Panic"
| "ripple_sub_loop B cm (s # ss) (q # qs) borrow g =
     bindR (full_subtractor B s q borrow cm g) (\<lambda>((d, b), g1).
     bindR (ripple_sub_loop B cm ss qs b g1) (\<lambda>((ds, b'), g2). Ok ((d # ds, b'), g2)))"

definition ripple_sub ::
  "('b::field, 'g) share_field_ops \<Rightarrow> 'b shamir_share list list \<Rightarrow> bool list \<Rightarrow> 'b committee \<Rightarrow> 'g \<Rightarrow>
     (mpc_error, ('b shamir_share list list \<times> 'b shamir_share list) \<times> 'g) res"
where
  "ripple_sub B s_bits q_bits cm g =
     bindR (committee_split B cm 0 g) (\<lambda>(borrow, g1). ripple_sub_loop B cm s_bits q_bits borrow g1)"

text \<open>One turn of the selection loop of \<open>s2b\<close>.\<close>

definition negate_shares :: "'b::field shamir_share list \<Rightarrow> 'b shamir_share list" where
  "negate_shares = map (\<lambda>s. \<lparr>point = point s, share_value = 1 + share_value s\<rparr>)"

definition select_bit ::
  "('b::field, 'g) share_field_ops \<Rightarrow> 'b committee \<Rightarrow> 'b shamir_share list \<Rightarrow> 'b shamir_share list \<Rightarrow>
     'b shamir_share list \<Rightarrow> 'g \<Rightarrow> (mpc_error, 'b shamir_share list \<times> 'g) res"
where
  "select_bit B cb select d s g =
     bindR (secret_and B select (zip_shares (+) d s) cb g) (\<lambda>(t, g'). Ok (zip_shares (+) s t, g'))"

definition s2b ::
  "'f::field prime_field_ops \<Rightarrow> ('b::field, 'g) share_field_ops \<Rightarrow> 'f shamir_share list \<Rightarrow> ('f, 'b) bit_extract_pair \<Rightarrow>
     'f committee \<Rightarrow> 'b committee \<Rightarrow> 'g \<Rightarrow> (mpc_error, 'b shamir_share list list \<times> 'g) res"
where
  "s2b P B x pair cf cb g =
     (if committee_size cf \<noteq> committee_size cb \<or> threshold cf \<noteq> threshold cb then Err InconsistentShares
      else if committee_size cb \<le> 2 * threshold cb then Err TooFewParties
      else if length x \<noteq> committee_size cf \<or> length (bep_arithmetic pair) \<noteq> committee_size cf
      then Err ShareCountMismatch
      else if length (bep_bits pair) \<noteq> pf_bit_size P then Err InvalidBitLength
      else bindR (masked_difference_shares x (bep_arithmetic pair)) (\<lambda>delta_shares.
        bindR (reconstruct delta_shares (threshold cf + 1)) (\<lambda>delta.
        bindR (ripple_add B (bigint_bits_le P delta) (bep_bits pair) cb g) (\<lambda>((sum_bits, carry), g1).
        let s_full = sum_bits @ [carry];
            q_full = nat_bits (pf_bit_size P) (pf_modulus P) @ [False] in
        bindR (ripple_sub B s_full q_full cb g1) (\<lambda>((diff_bits, borrow), g2).
        let select = negate_shares borrow in
        mapG (\<lambda>k g. bindR (nthR diff_bits k) (\<lambda>d. bindR (nthR s_full k) (\<lambda>s. select_bit B cb select d s g)))
          [0..<pf_bit_size P] g2)))))"

section \<open>The bounded variant\<close>

definition centered_lift :: "'f prime_field_ops \<Rightarrow> 'f \<Rightarrow> int" where
  "centered_lift P f =
     (let bi = pf_into P f in
      if pf_modulus P div 2 < bi then - int ((pf_modulus P - bi) mod 2 ^ 64) else int (bi mod 2 ^ 64))"

text \<open>
  A shift of one by the width of its type or more panics under overflow checks, and so does adding a negative
  \<open>delta\<close> to \<open>1_i128 << 127\<close>, the least value.
\<close>

definition one_shl_u64 :: "nat \<Rightarrow> (mpc_error, u64) res" where
  "one_shl_u64 k = (if k < 64 then Ok (push_bit k 1) else Panic)"

definition two_complement_bits :: "int \<Rightarrow> nat \<Rightarrow> (mpc_error, bool list) res" where
  "two_complement_bits delta bit_len =
     (if 128 \<le> bit_len \<or> bit_len = 127 \<and> delta < 0 then Panic
      else let canonical = (if delta < 0 then 2 ^ bit_len + delta else delta)
        in Ok (map (bit canonical) [0..<bit_len]))"

definition generate_bit_extract_pair_bounded ::
  "('f::field, 'g) share_field_ops \<Rightarrow> ('b::field, 'g) share_field_ops \<Rightarrow> ('g \<Rightarrow> u64 \<times> 'g) \<Rightarrow>
     'f committee \<Rightarrow> 'b committee \<Rightarrow> nat \<Rightarrow> 'g \<Rightarrow> (mpc_error, ('f, 'b) bit_extract_pair \<times> 'g) res"
where
  "generate_bit_extract_pair_bounded F B gen_u64 cf cb bit_len g =
     bindR (one_shl_u64 bit_len) (\<lambda>top.
      let (w, g1) = gen_u64 g; r = w AND (top - 1) in
      bindR (committee_split F cf (pf_from_u64 r) g1) (\<lambda>(arithmetic, g2).
      bindR (mapG (\<lambda>k. committee_split B cb (if bit r k then 1 else 0)) [0..<bit_len] g2) (\<lambda>(bits, g3).
        Ok (\<lparr>bep_arithmetic = arithmetic, bep_bits = bits\<rparr>, g3))))"

definition s2b_bounded ::
  "'f::field prime_field_ops \<Rightarrow> ('b::field, 'g) share_field_ops \<Rightarrow> 'f shamir_share list \<Rightarrow> ('f, 'b) bit_extract_pair \<Rightarrow>
     nat \<Rightarrow> 'f committee \<Rightarrow> 'b committee \<Rightarrow> 'g \<Rightarrow> (mpc_error, 'b shamir_share list list \<times> 'g) res"
where
  "s2b_bounded P B x pair bit_len cf cb g =
     (if committee_size cf \<noteq> committee_size cb \<or> threshold cf \<noteq> threshold cb then Err InconsistentShares
      else if committee_size cb \<le> 2 * threshold cb then Err TooFewParties
      else if length x \<noteq> committee_size cf \<or> length (bep_arithmetic pair) \<noteq> committee_size cf
      then Err ShareCountMismatch
      else if length (bep_bits pair) \<noteq> bit_len then Err InvalidBitLength
      else bindR (masked_difference_shares x (bep_arithmetic pair)) (\<lambda>delta_shares.
        bindR (reconstruct delta_shares (threshold cf + 1)) (\<lambda>delta_f.
        bindR (two_complement_bits (centered_lift P delta_f) bit_len) (\<lambda>delta_bits.
        bindR (ripple_add B delta_bits (bep_bits pair) cb g) (\<lambda>((sum_bits, carry), g1). Ok (sum_bits, g1))))))"

section \<open>Sharings of bits\<close>

lemma cell_loop_on_points:
  "cell_loop op1 op2 (on_points f ps) (on_points h ps) (on_points k ps) =
   Ok (on_points (\<lambda>x. op1 (f x) (h x) (k x)) ps, on_points (\<lambda>x. op2 (f x) (h x) (k x)) ps)"
proof -
  let ?s = "\<lambda>op i. \<lparr>point = ps ! i, share_value = op (f (ps ! i)) (h (ps ! i)) (k (ps ! i))\<rparr>"
  have "mapR (\<lambda>i. bindR (nthR (on_points f ps) i) (\<lambda>x. bindR (nthR (on_points h ps) i) (\<lambda>y. bindR (nthR (on_points k ps) i) (\<lambda>z.
          Ok (\<lparr>point = point x, share_value = op1 (share_value x) (share_value y) (share_value z)\<rparr>,
              \<lparr>point = point x, share_value = op2 (share_value x) (share_value y) (share_value z)\<rparr>)))))
        [0..<length ps] = (Ok (map (\<lambda>i. (?s op1 i, ?s op2 i)) [0..<length ps]) :: (mpc_error, _) res)"
    by (rule mapR_Ok) (simp add: nthR_def on_points_def)
  then show ?thesis
    by (simp add: cell_loop_def comp_def) (auto simp: on_points_def intro!: nth_equalityI)
qed

lemma reshare_pair_dealer_ok:
  assumes "0 < d1" "d1 < committee_size src" "0 < d2" "d2 < committee_size dst"
  obtains m g' r where "reshare_pair_dealer F src d1 dst d2 g = Ok (m, g')"
    "mask_pair (points src) (points dst) d1 d2 r m"
proof -
  obtain m g' where run: "reshare_pair_dealer F src d1 dst d2 g = Ok (m, g')"
    using assms split_secret_Ok [of d1 "points src" F "fst (sf_rand F g)" "snd (sf_rand F g)"]
      split_secret_Ok [of d2 "points dst" F "fst (sf_rand F g)"]
    by (fastforce simp: reshare_pair_dealer_def committee_size_def split_beta)
  with reshare_pair_dealer_mask [OF run] that show ?thesis by blast
qed

text \<open>The value of a list of bits, least significant first.\<close>

primrec bits_value :: "bool list \<Rightarrow> nat" where
  "bits_value [] = 0"
| "bits_value (b # bs) = of_bool b + 2 * bits_value bs"

lemma length_nat_bits [simp]: "length (nat_bits len n) = len"
  by (simp add: nat_bits_def)

lemma nat_bits_Suc: "nat_bits (Suc len) n = odd n # nat_bits len (n div 2)"
  by (rule nth_equalityI) (auto simp: nat_bits_def nth_Cons bit_0 bit_Suc simp del: upt_Suc split: nat.splits)

lemma bits_value_nat_bits: "bits_value (nat_bits len n) = n mod 2 ^ len"
proof (induction len arbitrary: n)
  case (Suc len)
  have "n mod (2 * 2 ^ len) = 2 * (n div 2 mod 2 ^ len) + n mod 2" by (rule mod_mult2_eq)
  with Suc.IH [of "n div 2"] show ?case
    by (simp add: nat_bits_Suc of_bool_odd_eq_mod_2)
qed (simp add: nat_bits_def)

lemma bits_value_bound: "bits_value bs < 2 ^ length bs"
  by (induction bs) (auto simp: of_bool_def)

lemma nat_bits_bits_value: "nat_bits (length bs) (bits_value bs) = bs"
  by (induction bs) (auto simp: nat_bits_def [of 0] nat_bits_Suc)

lemma bits_value_append: "bits_value (bs @ cs) = bits_value bs + 2 ^ length bs * bits_value cs"
  by (induction bs) (auto simp: algebra_simps)

lemma mapG_Ok:
  assumes "\<And>x g. x \<in> set xs \<Longrightarrow> \<exists>y g'. f x g = Ok (y, g') \<and> Q x y"
  obtains ys g' where "mapG f xs g = Ok (ys, g')" "list_all2 Q xs ys"
proof -
  have "\<exists>ys g'. mapG f xs g = Ok (ys, g') \<and> list_all2 Q xs ys"
    using assms
  proof (induction xs arbitrary: g)
    case (Cons x xs)
    obtain y g1 where y: "f x g = Ok (y, g1)" "Q x y" using Cons.prems [of x g] by auto
    obtain ys g' where "mapG f xs g1 = Ok (ys, g')" "list_all2 Q xs ys" using Cons.IH [of g1] Cons.prems by auto
    with y show ?case by auto
  qed simp
  with that show ?thesis by blast
qed

lemma two_complement_bits_nat:
  assumes "\<bar>d\<bar> < 2 ^ l" and "l < 127"
  shows "two_complement_bits d l = Ok (nat_bits l (nat (d mod 2 ^ l)))"
proof -
  let ?c = "if d < 0 then 2 ^ l + d else d"
  have c: "?c = d mod 2 ^ l"
  proof (cases "d < 0")
    case True
    have "d mod 2 ^ l = (2 ^ l + d) mod 2 ^ l" by simp
    also have "\<dots> = 2 ^ l + d" using assms True by (intro mod_pos_pos_trivial) auto
    finally show ?thesis using True by simp
  next
    case False
    then show ?thesis using assms by simp
  qed
  have "bit ?c k = bit (nat (d mod 2 ^ l)) k" for k
    unfolding c by (simp add: bit_nat_iff)
  then show ?thesis using assms(2) by (simp add: two_complement_bits_def nat_bits_def Let_def)
qed
locale boolean_committee =
  fixes B :: "('b::field, 'g) share_field_ops" and cm :: "'b committee"
  assumes char_2: "(1 :: 'b) + 1 = 0"
    and good: "good_committee cm"
    and majority: "2 * threshold cm < committee_size cm"
begin

abbreviation bit_sharing :: "bool \<Rightarrow> 'b shamir_share list \<Rightarrow> bool" where
  "bit_sharing v xs \<equiv> val_sharing (threshold cm) (points cm) (of_bool v) xs"

lemma add_self [simp]: "(x :: 'b) + x = 0"
proof -
  have "x + x = x * (1 + 1)" by (simp only: distrib_left mult_1_right)
  then show ?thesis by (simp only: char_2 mult_zero_right)
qed

lemma add_self_left [simp]: "(x :: 'b) + (x + y) = y"
  by (simp flip: add.assoc)

lemma two_zero [simp]: "(2 :: 'b) = 0"
  using char_2 by (simp only: one_add_one)

lemma secret_and_val:
  assumes "val_sharing (threshold cm) (points cm) v xs" "val_sharing (threshold cm) (points cm) w ys"
  obtains zs g' where "secret_and B xs ys cm g = Ok (zs, g')" "val_sharing (threshold cm) (points cm) (v * w) zs"
proof -
  obtain f h where f: "pdeg (threshold cm) f" "f 0 = v" "xs = on_points f (points cm)"
    and h: "pdeg (threshold cm) h" "h 0 = w" "ys = on_points h (points cm)"
    using assms by (auto elim!: val_sharingE)
  have pos: "0 < threshold cm" "threshold cm < committee_size cm" "distinct (points cm)"
    using good by (simp_all add: good_committee_def good_points_def)
  obtain m g' r where m: "reshare_pair_dealer B cm (2 * threshold cm) cm (threshold cm) g = Ok (m, g')"
    "mask_pair (points cm) (points cm) (2 * threshold cm) (threshold cm) r m"
    by (rule reshare_pair_dealer_ok [of "2 * threshold cm" cm "threshold cm" cm B g]) (use pos majority in simp_all)
  obtain k where "multiply_and_handoff xs ys m cm cm = Ok (on_points k (points cm))"
    "pdeg (threshold cm) k" "k 0 = f 0 * h 0"
    unfolding f(3) h(3)
    by (rule multiply_and_handoff_on_points [OF f(1) le_refl h(1) le_refl m(2) le_refl pos(3) majority])
  then show ?thesis
    using m f(2) h(2) by (intro that [of "on_points k (points cm)" g']) (auto simp: secret_and_def intro: val_sharingI)
qed

lemma full_adder_val:
  assumes "bit_sharing b xs" "bit_sharing c ys"
  obtains s k g' where "full_adder B a xs ys cm g = Ok ((s, k), g')"
    "bit_sharing (a \<noteq> (b \<noteq> c)) s" "bit_sharing (if a then b \<or> c else b \<and> c) k"
proof -
  obtain f h where f: "pdeg (threshold cm) f" "f 0 = of_bool b" "xs = on_points f (points cm)"
    and h: "pdeg (threshold cm) h" "h 0 = of_bool c" "ys = on_points h (points cm)"
    using assms by (auto elim!: val_sharingE)
  obtain ts g' where t: "secret_and B xs ys cm g = Ok (ts, g')" "val_sharing (threshold cm) (points cm) (of_bool b * of_bool c) ts"
    by (rule secret_and_val [OF assms])
  obtain u where u: "pdeg (threshold cm) u" "u 0 = of_bool b * of_bool c" "ts = on_points u (points cm)"
    using t(2) by (rule val_sharingE)
  let ?a = "if a then 1 else (0 :: 'b)"
  let ?s = "on_points (\<lambda>x. ?a + f x + h x) (points cm)" and ?k = "on_points (\<lambda>x. ?a * (f x + h x) + u x) (points cm)"
  have "full_adder B a xs ys cm g = Ok ((?s, ?k), g')"
    unfolding full_adder_def Let_def f(3) h(3) t(1) [unfolded f(3) h(3) u(3)]
    by (simp only: bindR.simps prod.case cell_loop_on_points)
  moreover have "bit_sharing (a \<noteq> (b \<noteq> c)) ?s"
    by (rule val_sharingI) (use f h in \<open>auto intro!: pdeg_add pdeg_const\<close>)
  moreover have "bit_sharing (if a then b \<or> c else b \<and> c) ?k"
    by (rule val_sharingI) (use f h u in \<open>auto intro!: pdeg_add pdeg_smult pdeg_const\<close>)
  ultimately show ?thesis by (rule that)
qed

lemma full_subtractor_val:
  assumes "bit_sharing a xs" "bit_sharing c ys"
  obtains d k g' where "full_subtractor B xs b ys cm g = Ok ((d, k), g')"
    "bit_sharing (a \<noteq> (b \<noteq> c)) d" "bit_sharing (if a then b \<and> c else b \<or> c) k"
proof -
  obtain f h where f: "pdeg (threshold cm) f" "f 0 = of_bool a" "xs = on_points f (points cm)"
    and h: "pdeg (threshold cm) h" "h 0 = of_bool c" "ys = on_points h (points cm)"
    using assms by (auto elim!: val_sharingE)
  obtain ts g' where t: "secret_and B xs ys cm g = Ok (ts, g')" "val_sharing (threshold cm) (points cm) (of_bool a * of_bool c) ts"
    by (rule secret_and_val [OF assms])
  obtain u where u: "pdeg (threshold cm) u" "u 0 = of_bool a * of_bool c" "ts = on_points u (points cm)"
    using t(2) by (rule val_sharingE)
  let ?b = "if b then 1 else (0 :: 'b)"
  let ?d = "on_points (\<lambda>x. f x + ?b + h x) (points cm)"
  let ?k = "on_points (\<lambda>x. ?b + ?b * f x + h x + u x + ?b * h x) (points cm)"
  have "full_subtractor B xs b ys cm g = Ok ((?d, ?k), g')"
    unfolding full_subtractor_def Let_def f(3) h(3) t(1) [unfolded f(3) h(3) u(3)]
    by (simp only: bindR.simps prod.case cell_loop_on_points)
  moreover have "bit_sharing (a \<noteq> (b \<noteq> c)) ?d"
    by (rule val_sharingI) (use f h in \<open>auto intro!: pdeg_add pdeg_const\<close>)
  moreover have "bit_sharing (if a then b \<and> c else b \<or> c) ?k"
    by (rule val_sharingI) (use f h u in \<open>auto intro!: pdeg_add pdeg_smult pdeg_const\<close>)
  ultimately show ?thesis by (rule that)
qed

lemma ripple_add_loop_val:
  assumes "length ds = length rs" "list_all2 bit_sharing bs rs" "bit_sharing c carry"
  obtains ss k g' ws c' where "ripple_add_loop B cm ds rs carry g = Ok ((ss, k), g')"
    "list_all2 bit_sharing ws ss" "bit_sharing c' k"
    "bits_value ws + 2 ^ length ds * of_bool c' = bits_value ds + bits_value bs + of_bool c"
    "length ws = length ds"
  using assms
proof (induction ds rs arbitrary: bs c carry g thesis rule: list_induct2)
  case Nil
  show ?case by (rule Nil.prems(1) [of "[]" carry g "[]" c]) (use Nil.prems in auto)
next
  case (Cons d ds r rs)
  then obtain b bs' where bs: "bs = b # bs'" "bit_sharing b r" "list_all2 bit_sharing bs' rs"
    by (auto simp: list_all2_Cons2)
  obtain s k g1 where cell: "full_adder B d r carry cm g = Ok ((s, k), g1)"
    "bit_sharing (d \<noteq> (b \<noteq> c)) s" "bit_sharing (if d then b \<or> c else b \<and> c) k"
    by (rule full_adder_val [OF bs(2) Cons.prems(3)])
  obtain ss k' g' ws c' where rest: "ripple_add_loop B cm ds rs k g1 = Ok ((ss, k'), g')"
    "list_all2 bit_sharing ws ss" "bit_sharing c' k'"
    "bits_value ws + 2 ^ length ds * of_bool c' =
     bits_value ds + bits_value bs' + of_bool (if d then b \<or> c else b \<and> c)" "length ws = length ds"
    by (rule Cons.IH [OF _ bs(3) cell(3)])
  show ?case
  proof (rule Cons.prems(1))
    show "ripple_add_loop B cm (d # ds) (r # rs) carry g = Ok ((s # ss, k'), g')"
      by (simp add: cell(1) rest(1))
    show "list_all2 bit_sharing ((d \<noteq> (b \<noteq> c)) # ws) (s # ss)" using cell(2) rest(2) by simp
    have "of_bool (d \<noteq> (b \<noteq> c)) + 2 * of_bool (if d then b \<or> c else b \<and> c) =
          (of_bool d + of_bool b + of_bool c :: nat)"
      by (cases d; cases b; cases c) simp_all
    with rest(4) show "bits_value ((d \<noteq> (b \<noteq> c)) # ws) + 2 ^ length (d # ds) * of_bool c' =
        bits_value (d # ds) + bits_value bs + of_bool c"
      by (simp add: bs(1) algebra_simps)
    show "length ((d \<noteq> (b \<noteq> c)) # ws) = length (d # ds)" using rest(5) by simp
  qed (rule rest(3))
qed

lemma ripple_sub_loop_val:
  assumes "length ss = length qs" "list_all2 bit_sharing as ss" "bit_sharing c borrow"
  obtains ds k g' ws c' where "ripple_sub_loop B cm ss qs borrow g = Ok ((ds, k), g')"
    "list_all2 bit_sharing ws ds" "bit_sharing c' k"
    "bits_value ws + bits_value qs + of_bool c = bits_value as + 2 ^ length ss * of_bool c'"
    "length ws = length ss"
  using assms
proof (induction ss qs arbitrary: as c borrow g thesis rule: list_induct2)
  case Nil
  show ?case by (rule Nil.prems(1) [of "[]" borrow g "[]" c]) (use Nil.prems in auto)
next
  case (Cons s ss q qs)
  then obtain a as' where as: "as = a # as'" "bit_sharing a s" "list_all2 bit_sharing as' ss"
    by (auto simp: list_all2_Cons2)
  obtain d k g1 where cell: "full_subtractor B s q borrow cm g = Ok ((d, k), g1)"
    "bit_sharing (a \<noteq> (q \<noteq> c)) d" "bit_sharing (if a then q \<and> c else q \<or> c) k"
    by (rule full_subtractor_val [OF as(2) Cons.prems(3)])
  obtain ds k' g' ws c' where rest: "ripple_sub_loop B cm ss qs k g1 = Ok ((ds, k'), g')"
    "list_all2 bit_sharing ws ds" "bit_sharing c' k'"
    "bits_value ws + bits_value qs + of_bool (if a then q \<and> c else q \<or> c) =
     bits_value as' + 2 ^ length ss * of_bool c'" "length ws = length ss"
    by (rule Cons.IH [OF _ as(3) cell(3)])
  show ?case
  proof (rule Cons.prems(1))
    show "ripple_sub_loop B cm (s # ss) (q # qs) borrow g = Ok ((d # ds, k'), g')"
      by (simp add: cell(1) rest(1))
    show "list_all2 bit_sharing ((a \<noteq> (q \<noteq> c)) # ws) (d # ds)" using cell(2) rest(2) by simp
    have "of_bool (a \<noteq> (q \<noteq> c)) + of_bool q + of_bool c =
          (of_bool a + 2 * of_bool (if a then q \<and> c else q \<or> c) :: nat)"
      by (cases a; cases q; cases c) simp_all
    with rest(4) show "bits_value ((a \<noteq> (q \<noteq> c)) # ws) + bits_value (q # qs) + of_bool c =
        bits_value as + 2 ^ length (s # ss) * of_bool c'"
      by (simp add: as(1) algebra_simps)
    show "length ((a \<noteq> (q \<noteq> c)) # ws) = length (s # ss)" using rest(5) by simp
  qed (rule rest(3))
qed

lemma ripple_add_val:
  assumes "length ds = length rs" "list_all2 bit_sharing bs rs"
  obtains ss k g' ws c' where "ripple_add B ds rs cm g = Ok ((ss, k), g')"
    "list_all2 bit_sharing ws ss" "bit_sharing c' k"
    "bits_value ws + 2 ^ length ds * of_bool c' = bits_value ds + bits_value bs"
    "length ws = length ds"
proof -
  obtain carry g1 where carry: "committee_split B cm 0 g = Ok (carry, g1)" "bit_sharing False carry"
    by (rule committee_split_val [OF good, of B 0 g]) simp
  show ?thesis
    by (rule ripple_add_loop_val [OF assms carry(2), of g1])
      (use that carry(1) in \<open>simp add: ripple_add_def\<close>)
qed

lemma ripple_sub_val:
  assumes "length ss = length qs" "list_all2 bit_sharing as ss"
  obtains ds k g' ws c' where "ripple_sub B ss qs cm g = Ok ((ds, k), g')"
    "list_all2 bit_sharing ws ds" "bit_sharing c' k"
    "bits_value ws + bits_value qs = bits_value as + 2 ^ length ss * of_bool c'"
    "length ws = length ss"
proof -
  obtain borrow g1 where borrow: "committee_split B cm 0 g = Ok (borrow, g1)" "bit_sharing False borrow"
    by (rule committee_split_val [OF good, of B 0 g]) simp
  show ?thesis
    by (rule ripple_sub_loop_val [OF assms borrow(2), of g1])
      (use that borrow(1) in \<open>simp add: ripple_sub_def\<close>)
qed

lemma negate_shares_val: "bit_sharing v xs \<Longrightarrow> bit_sharing (\<not> v) (negate_shares xs)"
proof -
  assume "bit_sharing v xs"
  then have "val_sharing (threshold cm) (points cm) (1 + of_bool v) (negate_shares xs)"
    unfolding negate_shares_def by (rule val_sharing_map) (intro pdeg_add pdeg_const)
  moreover have "1 + of_bool v = (of_bool (\<not> v) :: 'b)" by (cases v) simp_all
  ultimately show ?thesis by simp
qed

lemma select_bit_val:
  assumes "bit_sharing c select" "bit_sharing d ds" "bit_sharing s ss"
  shows "\<exists>out g'. select_bit B cm select ds ss g = Ok (out, g') \<and> bit_sharing (if c then d else s) out"
proof -
  have "val_sharing (threshold cm) (points cm) (of_bool d + of_bool s) (zip_shares (+) ds ss)"
    by (rule val_sharing_zip [OF assms(2,3)]) (rule pdeg_add)
  then obtain t g' where t: "secret_and B select (zip_shares (+) ds ss) cm g = Ok (t, g')"
    "val_sharing (threshold cm) (points cm) (of_bool c * (of_bool d + of_bool s)) t"
    by (rule secret_and_val [OF assms(1), of _ _ g])
  have "val_sharing (threshold cm) (points cm) (of_bool s + of_bool c * (of_bool d + of_bool s)) (zip_shares (+) ss t)"
    by (rule val_sharing_zip [OF assms(3) t(2)]) (rule pdeg_add)
  moreover have "of_bool s + of_bool c * (of_bool d + of_bool s) = (of_bool (if c then d else s) :: 'b)"
    by (cases c; cases d; cases s) simp_all
  ultimately show ?thesis using t(1) by (simp add: select_bit_def)
qed

definition pair_for :: "'f::field committee \<Rightarrow> bool list \<Rightarrow> 'f \<Rightarrow> ('f, 'b) bit_extract_pair \<Rightarrow> bool" where
  "pair_for cf bs r pair \<longleftrightarrow>
     val_sharing (threshold cf) (points cf) r (bep_arithmetic pair) \<and> list_all2 bit_sharing bs (bep_bits pair)"

lemma bits_shared:
  obtains xs g' where "mapG (\<lambda>k. committee_split B cm (if h k then 1 else 0)) ks g = Ok (xs, g')"
    "list_all2 bit_sharing (map h ks) xs"
proof (rule mapG_Ok [where Q = "\<lambda>k xs. bit_sharing (h k) xs" and f = "\<lambda>k. committee_split B cm (if h k then 1 else 0)"
      and xs = ks and g = g])
  fix k g
  show "\<exists>y g'. committee_split B cm (if h k then 1 else 0) g = Ok (y, g') \<and> bit_sharing (h k) y"
    by (rule committee_split_val [OF good, of B "of_bool (h k)" g]) (auto simp: of_bool_def)
qed (use that in \<open>auto simp: list_all2_map1\<close>)

lemma s2b_val:
  assumes P: "prime_field P" and cf: "good_committee cf" "committee_size cf = committee_size cm" "threshold cf = threshold cm"
    and x: "val_sharing (threshold cf) (points cf) v x"
    and pair: "pair_for cf (bigint_bits_le P r) r pair"
  obtains out g' where "s2b P B x pair cf cm g = Ok (out, g')" "list_all2 bit_sharing (bigint_bits_le P v) out"
proof -
  let ?l = "pf_bit_size P" and ?q = "pf_modulus P" and ?n = "pf_into P (v - r) + pf_into P r"
  have ql: "?q < 2 ^ ?l" using prime_field.bit_size(2) [OF P] .
  have less: "pf_into P y < ?q" for y using prime_field.into_less [OF P] .
  have modl: "pf_into P y mod 2 ^ ?l = pf_into P y" for y using less_trans [OF less ql] by simp
  have n: "?n = pf_into P v \<or> ?n = pf_into P v + ?q"
    using prime_field.into_diff [OF P, of v r] less [of v] less [of r] by (simp split: if_splits)
  obtain f h where f: "pdeg (threshold cf) f" "f 0 = v" "x = on_points f (points cf)"
    and h: "pdeg (threshold cf) h" "h 0 = r" "bep_arithmetic pair = on_points h (points cf)"
    using x pair unfolding pair_for_def by (auto elim!: val_sharingE)
  have bits: "list_all2 bit_sharing (nat_bits ?l (pf_into P r)) (bep_bits pair)"
    using pair by (simp add: pair_for_def bigint_bits_le_def)
  have len: "length (bep_bits pair) = ?l" using list_all2_lengthD [OF bits] by simp
  have open_delta: "reconstruct (on_points (\<lambda>x. f x - h x) (points cf)) (threshold cf + 1) = Ok (v - r)"
    using reconstruct_on_points [of "threshold cf" "\<lambda>x. f x - h x" "points cf" "threshold cf + 1"] cf(1) f h
    by (auto simp: good_committee_def good_points_def committee_size_def intro: pdeg_diff)
  obtain ss k g1 ws c where add: "ripple_add B (nat_bits ?l (pf_into P (v - r))) (bep_bits pair) cm g = Ok ((ss, k), g1)"
    "list_all2 bit_sharing ws ss" "bit_sharing c k"
    "bits_value ws + 2 ^ ?l * of_bool c = ?n" "length ws = ?l"
    by (rule ripple_add_val [OF _ bits, of "nat_bits ?l (pf_into P (v - r))" g])
      (simp_all add: len bits_value_nat_bits modl)
  let ?s = "ss @ [k]" and ?ws = "ws @ [c]" and ?qs = "nat_bits ?l ?q @ [False]"
  have s: "list_all2 bit_sharing ?ws ?s" "bits_value ?ws = ?n" "length ?s = Suc ?l"
    using add list_all2_lengthD [OF add(2)] by (simp_all add: list_all2_appendI bits_value_append)
  obtain ds b g2 wd bo where sub: "ripple_sub B ?s ?qs cm g1 = Ok ((ds, b), g2)"
    "list_all2 bit_sharing wd ds" "bit_sharing bo b"
    "bits_value wd + ?q = ?n + 2 ^ Suc ?l * of_bool bo" "length wd = Suc ?l"
    by (rule ripple_sub_val [OF _ s(1), of ?qs g1])
      (use s ql in \<open>auto simp: bits_value_nat_bits bits_value_append\<close>)
  let ?w = "if bo then ?ws else wd"
  have wd: "bits_value wd < 2 ^ Suc ?l" using bits_value_bound [of wd] sub(5) by simp
  have wv: "bits_value ?w = pf_into P v"
  proof (cases bo)
    case True
    then have "?n < ?q" using sub(4) wd by simp
    with True n s(2) show ?thesis by auto
  next
    case False
    then show ?thesis using sub(4) n less [of v] by simp
  qed
  have "length ?w = Suc ?l" using s(3) sub(5) add(5) by simp
  then have w: "?w = nat_bits (Suc ?l) (pf_into P v)" using nat_bits_bits_value [of ?w] wv by simp
  have ld: "length ds = Suc ?l" using list_all2_lengthD [OF sub(2)] sub(5) by simp
  have sel: "bit_sharing (\<not> bo) (negate_shares b)" by (rule negate_shares_val [OF sub(3)])
  obtain out g' where out: "mapG (\<lambda>j g. bindR (nthR ds j) (\<lambda>d. bindR (nthR ?s j) (\<lambda>s.
        select_bit B cm (negate_shares b) d s g))) [0..<?l] g2 = Ok (out, g')"
    "list_all2 (\<lambda>j. bit_sharing (bit (pf_into P v) j)) [0..<?l] out"
  proof (rule mapG_Ok [where Q = "\<lambda>j. bit_sharing (bit (pf_into P v) j)" and xs = "[0..<?l]" and g = g2
        and f = "\<lambda>j g. bindR (nthR ds j) (\<lambda>d. bindR (nthR ?s j) (\<lambda>s. select_bit B cm (negate_shares b) d s g))"])
    fix j g assume "j \<in> set [0..<?l]"
    then have j: "j < Suc ?l" by simp
    have "bit_sharing (wd ! j) (ds ! j)" "bit_sharing (?ws ! j) (?s ! j)"
      using list_all2_nthD2 [OF sub(2)] list_all2_nthD2 [OF s(1)] j ld s(3) by simp_all
    from select_bit_val [OF sel this, of g]
    have "\<exists>y g'. select_bit B cm (negate_shares b) (ds ! j) (?s ! j) g = Ok (y, g') \<and> bit_sharing (?w ! j) y"
      by (auto split: if_splits)
    then show "\<exists>y g'. bindR (nthR ds j) (\<lambda>d. bindR (nthR ?s j) (\<lambda>s. select_bit B cm (negate_shares b) d s g)) = Ok (y, g') \<and>
        bit_sharing (bit (pf_into P v) j) y"
      using j ld s(3) by (simp only: w nthR_in_range bindR.simps) (simp add: nat_bits_def del: upt_Suc)
  qed
  show ?thesis
  proof (rule that [of out g'])
    show "list_all2 bit_sharing (bigint_bits_le P v) out"
      using out(2) by (simp add: bigint_bits_le_def nat_bits_def list_all2_map1)
    have "length x = committee_size cf" "length (bep_arithmetic pair) = committee_size cf"
      by (simp_all add: f(3) h(3) committee_size_def)
    then show "s2b P B x pair cf cm g = Ok (out, g')"
      using open_delta add(1) sub(1) out(1) cf(2,3) majority len
      by (simp add: s2b_def f(3) h(3) bigint_bits_le_def Let_def)
  qed
qed

lemma s2b_bounded_val:
  assumes P: "prime_field P" and cf: "good_committee cf" "committee_size cf = committee_size cm" "threshold cf = threshold cm"
    and x: "val_sharing (threshold cf) (points cf) v x"
    and pair: "pair_for cf (nat_bits l (pf_into P r)) r pair"
    and range: "pf_into P v < 2 ^ l" "pf_into P r < 2 ^ l" "2 ^ Suc l \<le> pf_modulus P" "l \<le> 64"
  obtains out g' where "s2b_bounded P B x pair l cf cm g = Ok (out, g')"
    "list_all2 bit_sharing (nat_bits l (pf_into P v)) out"
proof -
  let ?d = "int (pf_into P v) - int (pf_into P r)" and ?m = "nat ((int (pf_into P v) - int (pf_into P r)) mod 2 ^ l)"
  have "int (pf_into P v) < 2 ^ l" "int (pf_into P r) < 2 ^ l" using range(1,2) by simp_all
  then have abs: "\<bar>?d\<bar> < 2 ^ l" by linarith
  have "(2 :: nat) ^ l \<le> 2 ^ 64" using range(4) by (intro power_increasing) simp_all
  then have small: "pf_into P v < 2 ^ 64" "pf_into P r < 2 ^ 64" using range(1,2) by simp_all
  have lift: "centered_lift P (v - r) = ?d"
  proof (cases "pf_into P r \<le> pf_into P v")
    case True
    then have "\<not> pf_modulus P div 2 < pf_into P v - pf_into P r" using range(1,3) by simp
    then show ?thesis
      using True small(1) by (simp add: centered_lift_def Let_def prime_field.into_diff [OF P] of_nat_diff)
  next
    case False
    then have "pf_modulus P div 2 < pf_modulus P - (pf_into P r - pf_into P v)" using range(2,3) by simp
    moreover have "pf_modulus P - (pf_modulus P - (pf_into P r - pf_into P v)) = pf_into P r - pf_into P v"
      using range(2,3) by simp
    ultimately show ?thesis
      using False small(2) by (simp add: centered_lift_def Let_def prime_field.into_diff [OF P] of_nat_diff)
  qed
  obtain f h where f: "pdeg (threshold cf) f" "f 0 = v" "x = on_points f (points cf)"
    and h: "pdeg (threshold cf) h" "h 0 = r" "bep_arithmetic pair = on_points h (points cf)"
    using x pair unfolding pair_for_def by (auto elim!: val_sharingE)
  have bits: "list_all2 bit_sharing (nat_bits l (pf_into P r)) (bep_bits pair)"
    using pair by (simp add: pair_for_def)
  have len: "length (bep_bits pair) = l" using list_all2_lengthD [OF bits] by simp
  have open_delta: "reconstruct (on_points (\<lambda>x. f x - h x) (points cf)) (threshold cf + 1) = Ok (v - r)"
    using reconstruct_on_points [of "threshold cf" "\<lambda>x. f x - h x" "points cf" "threshold cf + 1"] cf(1) f h
    by (auto simp: good_committee_def good_points_def committee_size_def intro: pdeg_diff)
  obtain ss k g' ws c where add: "ripple_add B (nat_bits l ?m) (bep_bits pair) cm g = Ok ((ss, k), g')"
    "list_all2 bit_sharing ws ss" "bits_value ws + 2 ^ l * of_bool c = ?m mod 2 ^ l + pf_into P r mod 2 ^ l" "length ws = l"
    by (rule ripple_add_val [OF _ bits, of "nat_bits l ?m" g]) (simp_all add: len bits_value_nat_bits)
  have "bits_value ws mod 2 ^ l = (?m + pf_into P r) mod 2 ^ l"
    using arg_cong [OF add(3), of "\<lambda>n. n mod 2 ^ l"] range(2) by simp
  moreover have "int ((?m + pf_into P r) mod 2 ^ l) = int (pf_into P v)"
    using range(1) by (simp add: zmod_int mod_add_left_eq)
  ultimately have "bits_value ws = pf_into P v" using bits_value_bound [of ws] add(4) by simp
  then have "ws = nat_bits l (pf_into P v)" using nat_bits_bits_value [of ws] add(4) by simp
  moreover have "s2b_bounded P B x pair l cf cm g = Ok (ss, g')"
    using open_delta add(1) cf(2,3) majority len two_complement_bits_nat [OF abs] range(4)
    by (simp add: s2b_bounded_def f(3) h(3) lift committee_size_def)
  ultimately show ?thesis using that add(2) by blast
qed

lemma bit_sharing_reconstruct:
  "list_all2 bit_sharing bs xs \<Longrightarrow> map (committee_reconstruct cm) xs = map (\<lambda>b. Ok (of_bool b)) bs"
  by (induction rule: list_all2_induct) (auto intro: val_sharing_committee_reconstruct [OF good])

lemma generate_bit_extract_pair_for:
  assumes "good_committee cf"
  obtains pair g' where "generate_bit_extract_pair P F B cf cm g = Ok (pair, g')"
    "pair_for cf (bigint_bits_le P (fst (sf_rand F g))) (fst (sf_rand F g)) pair"
proof -
  obtain r g1 where r: "sf_rand F g = (r, g1)" by fastforce
  obtain xs g2 where xs: "committee_split F cf r g1 = Ok (xs, g2)" "val_sharing (threshold cf) (points cf) r xs"
    by (rule committee_split_val [OF assms])
  obtain bs g3 where bs: "mapG (\<lambda>b. committee_split B cm (if b then 1 else 0)) (bigint_bits_le P r) g2 = Ok (bs, g3)"
    "list_all2 bit_sharing (bigint_bits_le P r) bs"
    by (rule bits_shared [of "\<lambda>b. b" "bigint_bits_le P r" g2]) simp
  show ?thesis
    by (rule that [of "\<lparr>bep_arithmetic = xs, bep_bits = bs\<rparr>" g3])
      (simp_all add: generate_bit_extract_pair_def r xs bs pair_for_def)
qed

lemma generate_bit_extract_pair_bounded_for:
  assumes "prime_field P" "good_committee cf" "l < 64" "2 ^ l \<le> pf_modulus P"
  obtains pair g' r where "generate_bit_extract_pair_bounded F B gen_u64 cf cm l g = Ok (pair, g')"
    "pair_for cf (nat_bits l (pf_into P r)) r pair" "pf_into P r < 2 ^ l"
proof -
  obtain w g1 where w: "gen_u64 g = (w, g1)" by fastforce
  let ?r = "w AND (push_bit l 1 - 1)"
  have r: "?r = take_bit l w" by (simp add: take_bit_eq_mask mask_eq_exp_minus_1 push_bit_eq_mult)
  have less: "unat ?r < 2 ^ l" unfolding r by (simp add: unsigned_take_bit_eq take_bit_nat_less_exp)
  have into: "pf_into P (pf_from_u64 ?r) = unat ?r"
    unfolding pf_from_u64_def using less assms(4) by (intro prime_field.into_small [OF assms(1)]) simp
  obtain xs g2 where xs: "committee_split F cf (pf_from_u64 ?r) g1 = Ok (xs, g2)"
    "val_sharing (threshold cf) (points cf) (pf_from_u64 ?r) xs"
    by (rule committee_split_val [OF assms(2)])
  obtain bs g3 where bs: "mapG (\<lambda>k. committee_split B cm (if bit ?r k then 1 else 0)) [0..<l] g2 = Ok (bs, g3)"
    "list_all2 bit_sharing (map (bit ?r) [0..<l]) bs"
    by (rule bits_shared [of "bit ?r" "[0..<l]" g2])
  have "map (bit ?r) [0..<l] = nat_bits l (unat ?r)" by (simp add: nat_bits_def bit_unsigned_iff)
  then show ?thesis
    using bs xs w into less
    by (intro that [of "\<lparr>bep_arithmetic = xs, bep_bits = bs\<rparr>" g3 "pf_from_u64 ?r"])
      (simp_all add: generate_bit_extract_pair_bounded_def one_shl_u64_def assms(3) pair_for_def Let_def)
qed

end

text \<open>Every binary committee with more than twice its threshold members is an instance.\<close>

lemma boolean_f2_committee:
  "0 < t \<Longrightarrow> 2 * t < n \<Longrightarrow> n < 256 \<Longrightarrow> boolean_committee (f2_committee t n)"
  by unfold_locales (simp_all add: good_f2_committee)

interpretation f2c: boolean_committee "f2_ops R" "f2_committee 2 5" for R
  by (rule boolean_f2_committee) simp_all

section \<open>Properties\<close>

text \<open>C4. \<open>s2b\<close> with a generated pair succeeds and its \<open>k\<close>-th output shares bit \<open>k\<close> of the canonical
  representative of the input, for all bits of the modulus.\<close>

theorem s2b_shares_the_bits:
  assumes "prime_field P" and cf: "good_committee cf" "committee_size cf = committee_size cb" "threshold cf = threshold cb"
    and "boolean_committee cb"
    and x: "sharing (threshold cf) f x" "map point x = points cf"
    and pair: "generate_bit_extract_pair P F B cf cb g = Ok (pair, g1)"
  shows "\<exists>out g2. s2b P B x pair cf cb g1 = Ok (out, g2) \<and>
           map (committee_reconstruct cb) out =
           map (\<lambda>k. Ok (of_bool (bit (pf_into P (f 0)) k))) [0..<pf_bit_size P]"
proof -
  have xv: "val_sharing (threshold cf) (points cf) (f 0) x"
    unfolding val_sharing_sharing using x by blast
  obtain out g2 where "s2b P B x pair cf cb g1 = Ok (out, g2)"
    "list_all2 (\<lambda>b. val_sharing (threshold cb) (points cb) (of_bool b)) (bigint_bits_le P (f 0)) out"
    by (rule boolean_committee.generate_bit_extract_pair_for [OF assms(5) cf(1), of P F B g],
        rule boolean_committee.s2b_val [OF assms(5,1) cf xv, of "fst (sf_rand F g)" pair B g1])
      (use pair in auto)
  then show ?thesis
    using boolean_committee.bit_sharing_reconstruct [OF assms(5)] by (simp add: bigint_bits_le_def nat_bits_def comp_def)
qed

theorem s2b_shares_the_bits_witness:
  "\<exists>x g1 pair g2 out g3.
     committee_split (prime_share_ops zp_draw) (zp_committee 2 5) 1000 0 = Ok (x, g1) \<and>
     generate_bit_extract_pair zp_ops (prime_share_ops zp_draw) (f2_ops counter_rng) (zp_committee 2 5)
       (f2_committee 2 5) g1 = Ok (pair, g2) \<and>
     s2b zp_ops (f2_ops counter_rng) x pair (zp_committee 2 5) (f2_committee 2 5) g2 = Ok (out, g3) \<and>
     map (committee_reconstruct (f2_committee 2 5)) out = map (\<lambda>k. Ok (of_bool (bit (1000 :: nat) k))) [0..<30]"
proof -
  let ?F = "prime_share_ops zp_draw" and ?cf = "zp_committee 2 5" and ?B = "f2_ops counter_rng" and ?cb = "f2_committee 2 5"
  obtain x f g1 where x: "committee_split ?F ?cf 1000 0 = Ok (x, g1)"
    "sharing (threshold ?cf) f x" "f 0 = 1000" "map point x = points ?cf"
    by (rule zp_split [of 2 5 1000 0]) simp_all
  have cf: "good_committee ?cf" and cb: "boolean_committee ?cb"
    by (simp_all add: good_zp_committee boolean_f2_committee)
  obtain pair g2 where pair: "generate_bit_extract_pair zp_ops ?F ?B ?cf ?cb g1 = Ok (pair, g2)"
    by (rule boolean_committee.generate_bit_extract_pair_for [OF cb cf, of zp_ops ?F ?B g1])
  have "pf_into zp_ops (f 0) = 1000" "pf_bit_size zp_ops = 30"
    using zp.into_small [of 1000] x(3) by (simp_all add: zp_ops_def PLAINTEXT_MODULUS_def)
  with s2b_shares_the_bits [OF zp.prime_field_axioms cf _ _ cb x(2,4) pair] x(1) pair show ?thesis
    by auto
qed

end
