(* ===== verification/Conversion.thy ===== *)
theory Conversion
  imports Auth Prime_Field "HOL-Library.Signed_Division"
begin

text \<open>
  \<open>crypto/src/mpc/conversion.rs\<close>: conversion between LWE-style ciphertexts and sharings. A
  ciphertext of \<open>x\<close> is \<open>(a, a * s + x * delta + e)\<close>. \<open>h2s\<close> opens \<open>(x - r) * delta + e\<close>, decodes it by a
  centred lift to \<open>i128\<close> and a floor division, and adds the result to the shares of \<open>r\<close>; \<open>s2h\<close> adds the
  opened \<open>x - r\<close>, scaled, to a ciphertext of \<open>r\<close>.

  An \<open>i128\<close> is an \<open>int\<close>; the two places where its width shows, reading 16 bytes as a signed number
  and negating, are written out.
\<close>

record 'f fhe_ciphertext =
  ct_a :: 'f
  ct_b :: 'f

record 'f h2s_mask =
  source_scaled :: "'f shamir_share list"
  h2s_destination :: "'f shamir_share list"

record 'f s2h_mask =
  s2h_source :: "'f shamir_share list"
  s2h_ciphertext :: "'f fhe_ciphertext"

definition encrypt ::
  "('g \<Rightarrow> 'f \<times> 'g) \<Rightarrow> 'f::field \<Rightarrow> 'f \<Rightarrow> u64 \<Rightarrow> 'f \<Rightarrow> 'g \<Rightarrow> 'f fhe_ciphertext \<times> 'g"
where
  "encrypt draw plaintext key delta noise g =
     (let (a, g') = draw g
      in (\<lparr>ct_a = a, ct_b = a * key + plaintext * pf_from_u64 delta + noise\<rparr>, g'))"

definition decrypt :: "'f::field fhe_ciphertext \<Rightarrow> 'f \<Rightarrow> u64 \<Rightarrow> (mpc_error, 'f) res" where
  "decrypt ct key delta = fdiv (ct_b ct - ct_a ct * key) (pf_from_u64 delta)"

definition make_h2s_mask ::
  "('g \<Rightarrow> 'f::field \<times> 'g) \<Rightarrow> hmac_fun \<Rightarrow> 'g rng_ops \<Rightarrow> 'f committee \<Rightarrow> 'f committee \<Rightarrow> u64 \<Rightarrow> u64 \<Rightarrow> bytes \<Rightarrow>
     'g \<Rightarrow> (mpc_error, 'f h2s_mask \<times> 'g) res"
where
  "make_h2s_mask draw hmac R src dst delta bound nonce g =
     bindR (reshare_pair_small (prime_share_ops draw) hmac R src (threshold src) dst (threshold dst) nonce bound g)
       (\<lambda>(pair, g'). Ok (\<lparr>source_scaled = scale_shares (pf_from_u64 delta) (hm_source pair),
                         h2s_destination = hm_destination pair\<rparr>, g'))"

definition make_s2h_mask ::
  "('g \<Rightarrow> 'f::field \<times> 'g) \<Rightarrow> ('g \<Rightarrow> u64 \<times> 'g) \<Rightarrow> 'f committee \<Rightarrow> 'f \<Rightarrow> u64 \<Rightarrow> 'g \<Rightarrow> (mpc_error, 'f s2h_mask \<times> 'g) res"
where
  "make_s2h_mask draw next_u64 src key delta g =
     (let (w, g1) = next_u64 g; r = pf_from_u64 (w AND 0xFFFFFFFF) in
      bindR (committee_split (prime_share_ops draw) src r g1) (\<lambda>(source, g2).
        let (ct, g3) = encrypt draw r key delta 0 g2
        in Ok (\<lparr>s2h_source = source, s2h_ciphertext = ct\<rparr>, g3)))"

section \<open>Decoding\<close>

definition bigint_to_i128 :: "nat \<Rightarrow> (mpc_error, int) res" where
  "bigint_to_i128 big =
     (if big div 2 ^ 128 \<noteq> 0 then Err RangeCheckFailed
      else Ok (if big < 2 ^ 127 then int big else int big - 2 ^ 128))"

definition neg_i128 :: "int \<Rightarrow> ('e, int) res" where
  "neg_i128 v = (if v = - (2 ^ 127) then Panic else Ok (- v))"

definition field_to_centered_i128 :: "'f::field prime_field_ops \<Rightarrow> 'f \<Rightarrow> (mpc_error, int) res" where
  "field_to_centered_i128 P x =
     (let big = pf_into P x in
      if (pf_modulus P - 1) div 2 < big then bindR (bigint_to_i128 (pf_modulus P - big)) neg_i128
      else bigint_to_i128 big)"

definition floor_div :: "int \<Rightarrow> int \<Rightarrow> ('e, int) res" where
  "floor_div a b =
     (if b = 0 then Panic
      else let q = a sdiv b; r = a smod b in Ok (if r \<noteq> 0 \<and> (a < 0) \<noteq> (b < 0) then q - 1 else q))"

definition i128_to_field :: "int \<Rightarrow> 'f::field" where
  "i128_to_field v = (if 0 \<le> v then of_nat (nat v) else - of_nat (nat (- v)))"

definition decode_mask :: "'f::field prime_field_ops \<Rightarrow> 'f \<Rightarrow> u64 \<Rightarrow> (mpc_error, 'f) res" where
  "decode_mask P masked delta =
     bindR (field_to_centered_i128 P masked) (\<lambda>centered.
     bindR (floor_div centered (int (unat delta))) (\<lambda>scaled. Ok (i128_to_field scaled)))"

section \<open>The protocols\<close>

definition h2s ::
  "'f::field prime_field_ops \<Rightarrow> 'f fhe_ciphertext \<Rightarrow> 'f shamir_share list \<Rightarrow> 'f h2s_mask \<Rightarrow> 'f committee \<Rightarrow>
     'f committee \<Rightarrow> u64 \<Rightarrow> (mpc_error, 'f shamir_share list) res"
where
  "h2s P ct key_shares m src dst delta =
     (if length key_shares \<noteq> length (source_scaled m) \<or> length key_shares \<noteq> committee_size src
      then Err ShareCountMismatch
      else if length (h2s_destination m) \<noteq> committee_size dst then Err ShareCountMismatch
      else bindR (combine_shares (\<lambda>s r. ct_b ct - ct_a ct * s - r) key_shares (source_scaled m)) (\<lambda>c_shares.
           bindR (reconstruct c_shares (threshold src + 1)) (\<lambda>c.
           bindR (decode_mask P c delta) (\<lambda>delta_prime. Ok (apply_difference delta_prime (h2s_destination m))))))"

definition s2h ::
  "'f::field shamir_share list \<Rightarrow> 'f s2h_mask \<Rightarrow> 'f committee \<Rightarrow> u64 \<Rightarrow> (mpc_error, 'f fhe_ciphertext) res"
where
  "s2h x_shares m src delta =
     (if length x_shares \<noteq> length (s2h_source m) \<or> length x_shares \<noteq> committee_size src
      then Err ShareCountMismatch
      else bindR (masked_difference_shares x_shares (s2h_source m)) (\<lambda>diff_shares.
           bindR (reconstruct diff_shares (threshold src + 1)) (\<lambda>diff.
             Ok \<lparr>ct_a = ct_a (s2h_ciphertext m),
                 ct_b = ct_b (s2h_ciphertext m) + diff * pf_from_u64 delta\<rparr>)))"

definition authenticated_h2s ::
  "'f::field prime_field_ops \<Rightarrow> 'f fhe_ciphertext \<Rightarrow> 'f shamir_share list \<Rightarrow> 'f h2s_mask \<Rightarrow> 'f shamir_share list \<Rightarrow>
     'f shamir_share list \<Rightarrow> 'f committee \<Rightarrow> 'f committee \<Rightarrow> u64 \<Rightarrow> (mpc_error, 'f authenticated_sharing) res"
where
  "authenticated_h2s P ct key_shares m mac_mask alpha src dst delta =
     (if length key_shares \<noteq> length (source_scaled m) \<or> length key_shares \<noteq> committee_size src
      then Err ShareCountMismatch
      else if length (h2s_destination m) \<noteq> committee_size dst \<or> length mac_mask \<noteq> committee_size dst
              \<or> length alpha \<noteq> committee_size dst
      then Err ShareCountMismatch
      else bindR (combine_shares (\<lambda>s r. ct_b ct - ct_a ct * s - r) key_shares (source_scaled m)) (\<lambda>c_shares.
           bindR (reconstruct c_shares (threshold src + 1)) (\<lambda>c.
           bindR (decode_mask P c delta) (\<lambda>delta_prime.
             Ok \<lparr>au_value = apply_difference delta_prime (h2s_destination m),
                 au_mac = zip_shares (\<lambda>g a. g + delta_prime * a) mac_mask alpha\<rparr>))))"

definition authenticated_s2h ::
  "'f::field authenticated_sharing \<Rightarrow> 'f s2h_mask \<Rightarrow> 'f shamir_share list \<Rightarrow> 'f shamir_share list \<Rightarrow>
     'f committee \<Rightarrow> u64 \<Rightarrow> (mpc_error, 'f fhe_ciphertext) res"
where
  "authenticated_s2h x m mac_mask alpha src delta =
     (if length (au_value x) \<noteq> length (s2h_source m) \<or> length (au_value x) \<noteq> committee_size src
         \<or> length (au_mac x) \<noteq> length mac_mask \<or> length mac_mask \<noteq> length alpha
      then Err ShareCountMismatch
      else bindR (masked_difference_shares (au_value x) (s2h_source m)) (\<lambda>diff.
           bindR (masked_difference_shares (au_mac x) mac_mask) (\<lambda>gamma_diff.
           bindR (reconstruct diff (threshold src + 1)) (\<lambda>delta_bar.
           let v_shares = zip_shares (\<lambda>g a. g - delta_bar * a) gamma_diff alpha in
           bindR (reconstruct v_shares (threshold src + 1)) (\<lambda>v.
             if v \<noteq> 0 then Err MacCheckFailed
             else Ok \<lparr>ct_a = ct_a (s2h_ciphertext m),
                      ct_b = ct_b (s2h_ciphertext m) + delta_bar * pf_from_u64 delta\<rparr>)))))"

section \<open>The centred lift\<close>

lemma i128_to_field_of_int: "i128_to_field v = of_int v"
proof (cases "0 \<le> v")
  case True
  then show ?thesis unfolding i128_to_field_def by (metis of_int_of_nat_eq int_nat_eq)
next
  case False
  then have "(of_nat (nat (- v)) :: 'a) = of_int (- v)" by (metis of_int_of_nat_eq int_nat_eq neg_0_le_iff_le linear)
  with False show ?thesis by (simp add: i128_to_field_def)
qed

lemma floor_div_eq: "0 < b \<Longrightarrow> floor_div a b = Ok (a div b)"
proof -
  assume b: "0 < b"
  have "a div b = a sdiv b - (if a smod b \<noteq> 0 \<and> a < 0 then 1 else 0)"
  proof (cases "a < 0")
    case True
    then have "a sdiv b = - ((- a) div b)" "a smod b = - ((- a) mod b)"
      using b by (simp_all add: signed_divide_int_def signed_modulo_int_def minus_div_mult_eq_mod)
    with True b show ?thesis by (auto simp: zdiv_zminus1_eq_if)
  next
    case False
    with b show ?thesis by (auto simp: signed_divide_int_def sgn_if)
  qed
  with b show ?thesis by (simp add: floor_div_def Let_def)
qed

context prime_field
begin

lemma centered_of_int:
  assumes "2 * \<bar>v\<bar> < int (pf_modulus P)" "\<bar>v\<bar> < 2 ^ 127"
  shows "field_to_centered_i128 P (of_int v) = Ok v"
proof (cases "0 \<le> v")
  case True
  then obtain n where n: "v = int n" by (metis nonneg_int_cases)
  have "pf_into P (of_int v) = n" using assms(1) n by (simp add: into_small)
  moreover have "\<not> (pf_modulus P - 1) div 2 < n" using assms(1) n by linarith
  ultimately show ?thesis
    using assms n by (simp add: field_to_centered_i128_def bigint_to_i128_def Let_def)
next
  case False
  then obtain n where n: "v = - int n" "0 < n" by (metis neg_int_cases zero_less_imp_eq_int not_le)
  have "pf_into P (of_int v) = pf_modulus P - n"
    using assms(1) n into_diff [of 0 "of_nat n"] by (simp add: into_small)
  moreover have "(pf_modulus P - 1) div 2 < pf_modulus P - n" "n < pf_modulus P"
    using assms(1) n by linarith+
  ultimately show ?thesis
    using assms n
    by (simp add: field_to_centered_i128_def bigint_to_i128_def neg_i128_def Let_def)
qed

lemma decode_mask_of_int:
  assumes "2 * \<bar>v\<bar> < int (pf_modulus P)" "\<bar>v\<bar> < 2 ^ 127" "0 < unat delta"
  shows "decode_mask P (of_int v) delta = Ok (of_int (v div int (unat delta)))"
proof -
  have "floor_div v (int (unat delta)) = (Ok (v div int (unat delta)) :: (mpc_error, int) res)"
    by (rule floor_div_eq) (use assms(3) in linarith)
  then show ?thesis
    unfolding decode_mask_def centered_of_int [OF assms(1,2)] by (simp only: bindR.simps i128_to_field_of_int)
qed

end

section \<open>The masks\<close>

lemma derive_small_less: "bound \<noteq> 0 \<Longrightarrow> unat (derive_small hmac seed nonce bound) < unat bound"
  by (simp add: derive_small_def Let_def unat_mod word_neq_0_conv word_less_nat_alt)

lemma derive_small_le: "unat (derive_small hmac seed nonce bound) \<le> unat bound"
  using derive_small_less [of bound hmac seed nonce]
  by (cases "bound = 0") (auto simp: derive_small_def)

lemma sum_list_of_nat: "sum_list (map (\<lambda>x. of_nat (f x)) xs) = (of_nat (sum_list (map f xs)) :: 'a::semiring_1)"
  by (induction xs) auto

lemma sum_list_le: "(\<And>x. x \<in> set xs \<Longrightarrow> f x \<le> (b :: nat)) \<Longrightarrow> sum_list (map f xs) \<le> length xs * b"
  by (induction xs) (auto simp: add_mono)

lemma length_holder_sets: "holder_sets n d = Ok hs \<Longrightarrow> length hs = n choose d"
proof -
  assume hs: "holder_sets n d = Ok hs"
  then have d: "d \<le> n" and eq: "hs = combinations n (n - d)" by (auto simp: holder_sets_def split: if_splits)
  have bij: "bij_betw set {cs. subset_list n (n - d) cs} {A. A \<subseteq> {..<n} \<and> card A = n - d}"
    by (rule subset_lists_bij)
  have "length hs = card (set hs)" using distinct_combinations by (simp add: eq distinct_card)
  also have "\<dots> = card {A. A \<subseteq> {..<n} \<and> card A = n - d}"
    unfolding eq combinations_correct by (rule bij_betw_same_card [OF bij])
  also have "\<dots> = n choose (n - d)" by (simp add: n_subsets)
  also have "\<dots> = n choose d" using d by (rule binomial_symmetric [symmetric])
  finally show ?thesis .
qed

lemma make_h2s_mask_ok:
  assumes "good_committee src" "good_committee dst"
  obtains m g' r u v where "make_h2s_mask draw hmac R src dst delta bound nonce g = Ok (m, g')"
    "r \<le> (committee_size src choose threshold src) * (committee_size dst choose threshold dst) * unat bound"
    "source_scaled m = on_points u (points src)" "pdeg (threshold src) u" "u 0 = pf_from_u64 delta * of_nat r"
    "h2s_destination m = on_points v (points dst)" "pdeg (threshold dst) v" "v 0 = of_nat r"
proof -
  let ?c = "\<lambda>seed. sf_from_u64 (prime_share_ops draw) (derive_small hmac seed nonce bound)"
  have nz: "0 \<notin> set (points src)" "0 \<notin> set (points dst)"
    and less: "threshold src < committee_size src" "threshold dst < committee_size dst"
    using assms by (simp_all add: good_committee_def good_points_def)
  obtain hs1 hs2 pm seeds g' where p:
    "holder_sets (committee_size src) (threshold src) = Ok hs1" "holder_sets (committee_size dst) (threshold dst) = Ok hs2"
    "draw_seeds R (length hs1 * length hs2) g = (seeds, g')"
    "reshare_pair_by ?c R src (threshold src) dst (threshold dst) g = Ok (pm, g')"
    "mask_pair (points src) (points dst) (threshold src) (threshold dst) (sum_list (map ?c seeds)) pm"
    by (rule reshare_pair_by_mask [OF nz less, of R g ?c])
  let ?r = "sum_list (map (\<lambda>seed. unat (derive_small hmac seed nonce bound)) seeds)"
  have r: "sum_list (map ?c seeds) = of_nat ?r"
    by (simp only: prime_share_ops_def share_field_ops.select_convs pf_from_u64_def sum_list_of_nat)
  have "length seeds = length hs1 * length hs2" using length_draw_seeds [of R "length hs1 * length hs2" g] p(3) by simp
  then have bound: "?r \<le> (committee_size src choose threshold src) * (committee_size dst choose threshold dst) * unat bound"
    using sum_list_le [of seeds "\<lambda>seed. unat (derive_small hmac seed nonce bound)" "unat bound"]
    by (simp add: derive_small_le length_holder_sets [OF p(1)] length_holder_sets [OF p(2)])
  obtain f h where fh: "hm_source pm = on_points f (points src)" "pdeg (threshold src) f" "f 0 = of_nat ?r"
    "hm_destination pm = on_points h (points dst)" "pdeg (threshold dst) h" "h 0 = of_nat ?r"
    using mask_pair_on_points [OF p(5) [unfolded r]] by blast
  show ?thesis
    by (rule that [OF _ bound, of "\<lparr>source_scaled = on_points (\<lambda>x. pf_from_u64 delta * f x) (points src),
          h2s_destination = on_points h (points dst)\<rparr>" g' "\<lambda>x. pf_from_u64 delta * f x" h])
      (use fh p(4) in \<open>simp_all add: make_h2s_mask_def reshare_pair_small_def pdeg_smult\<close>)
qed

lemma make_s2h_mask_ok:
  assumes "make_s2h_mask draw next_u64 src key delta g = Ok (m, g')"
  obtains r a f where "s2h_source m = on_points f (points src)" "pdeg (threshold src) f" "f 0 = r"
    "s2h_ciphertext m = \<lparr>ct_a = a, ct_b = a * key + r * pf_from_u64 delta\<rparr>"
proof -
  obtain w g1 where w: "next_u64 g = (w, g1)" by fastforce
  let ?r = "pf_from_u64 (w AND 0xFFFFFFFF)"
  obtain source g2 where split: "split_secret (prime_share_ops draw) ?r (threshold src) (points src) g1 = Ok (source, g2)"
    and m: "s2h_source m = source" "s2h_ciphertext m = fst (encrypt draw ?r key delta 0 g2)"
    using assms by (auto simp: make_s2h_mask_def w Let_def split_beta committee_split_def)
  obtain f where f: "sharing (threshold src) f source" "f 0 = ?r" using split_secret_sharing(1) [OF split] by blast
  show ?thesis
  proof (rule that [of f ?r "fst (draw g2)"])
    show "s2h_source m = on_points f (points src)"
      using sharing_canonical [OF f(1) split_secret_sharing(2) [OF split]] m(1) by simp
  qed (use f m(2) in \<open>simp_all add: sharing_def encrypt_def Let_def split_beta\<close>)
qed

section \<open>Properties\<close>

text \<open>C14. \<open>h2s\<close> under a mask of \<open>h2s_mask\<close> turns a ciphertext of \<open>X\<close> with noise \<open>E\<close> into shares of
  \<open>X + \<lfloor>E / delta\<rfloor>\<close>, when the masked value stays in the centred range and in \<open>i128\<close>. So it is exact for
  noise in \<open>[0, delta)\<close>; any negative noise, however small, costs one.\<close>

theorem h2s_decodes:
  assumes "prime_field P" and good: "good_committee src" "good_committee dst" and "delta \<noteq> 0"
    and key: "sharing (threshold src) k key_shares" "map point key_shares = points src"
    and m: "make_h2s_mask draw hmac R src dst delta bound nonce g = Ok (m, g')"
    and ct: "ct_b ct = ct_a ct * k 0 + of_int X * pf_from_u64 delta + of_int E"
    and range: "2 * ((\<bar>X\<bar> + int ((committee_size src choose threshold src) *
                   (committee_size dst choose threshold dst) * unat bound)) * int (unat delta) + \<bar>E\<bar>) < int (pf_modulus P)"
      "(\<bar>X\<bar> + int ((committee_size src choose threshold src) *
                   (committee_size dst choose threshold dst) * unat bound)) * int (unat delta) + \<bar>E\<bar> < 2 ^ 127"
  shows "\<exists>out. h2s P ct key_shares m src dst delta = Ok out \<and> map point out = points dst \<and>
           committee_reconstruct dst out = Ok (of_int (X + E div int (unat delta)))"
proof -
  let ?N = "(committee_size src choose threshold src) * (committee_size dst choose threshold dst) * unat bound"
  let ?d = "int (unat delta)"
  obtain m' g'' r u v where mask': "make_h2s_mask draw hmac R src dst delta bound nonce g = Ok (m', g'')" and mask: "r \<le> ?N" "source_scaled m = on_points u (points src)" "pdeg (threshold src) u"
    "u 0 = pf_from_u64 delta * of_nat r"
    "h2s_destination m = on_points v (points dst)" "pdeg (threshold dst) v" "v 0 = of_nat r"
    by (rule make_h2s_mask_ok [OF good, of draw hmac R delta bound nonce g]) (use m in \<open>simp only: res.inject prod.inject\<close>)
  let ?c = "(X - int r) * ?d + E"
  have "\<bar>?c\<bar> \<le> \<bar>X - int r\<bar> * ?d + \<bar>E\<bar>" by (metis abs_mult abs_of_nat abs_triangle_ineq)
  moreover have "\<bar>X - int r\<bar> * ?d \<le> (\<bar>X\<bar> + int ?N) * ?d"
    by (rule mult_right_mono) (use mask(1) in linarith)+
  ultimately have abs: "\<bar>?c\<bar> \<le> (\<bar>X\<bar> + int ?N) * ?d + \<bar>E\<bar>" by linarith
  have "0 < unat delta" using assms(4) by (simp add: unat_gt_0)
  then have decode: "decode_mask P (of_int ?c) delta = Ok (of_int (?c div ?d))"
    by (intro prime_field.decode_mask_of_int [OF assms(1)] le_less_trans [OF abs range(2)]
        le_less_trans [OF mult_left_mono [OF abs] range(1)]) simp_all
  have div: "?c div ?d = X - int r + E div ?d"
    by (rule div_mult_self3) (use \<open>0 < unat delta\<close> in linarith)
  have ks: "key_shares = on_points k (points src)" "pdeg (threshold src) k"
    using sharing_canonical [OF key] key(1) by (simp_all add: sharing_def)
  let ?f = "\<lambda>x. ct_b ct - ct_a ct * k x - u x"
  have zero: "?f 0 = of_int ?c"
    using ct mask(4) by (simp add: pf_from_u64_def algebra_simps)
  have "reconstruct (on_points ?f (points src)) (threshold src + 1) = Ok (?f 0)"
    by (rule reconstruct_on_points [of "threshold src"])
      (use good(1) mask(3) ks(2) in \<open>auto simp: good_committee_def good_points_def committee_size_def intro!: pdeg_intros\<close>)
  then have "h2s P ct key_shares m src dst delta = Ok (on_points (\<lambda>x. v x + of_int (X - int r + E div ?d)) (points dst))"
    unfolding h2s_def zero using decode div
    by (simp add: ks(1) mask(2,5) committee_size_def zero)
  moreover have "committee_reconstruct dst (on_points (\<lambda>x. v x + of_int (X - int r + E div ?d)) (points dst)) =
      Ok (v 0 + of_int (X - int r + E div ?d))"
    by (rule committee_reconstruct_sharing [OF good(2)])
      (use mask(6) in \<open>auto intro: pdeg_add pdeg_const\<close>)
  ultimately show ?thesis by (simp add: mask(7))
qed

theorem h2s_decodes_witness:
  "\<exists>key_shares g1 m g2 out.
     committee_split (prime_share_ops zp_draw) (zp_committee 1 3) 77 0 = Ok (key_shares, g1) \<and>
     make_h2s_mask zp_draw (@) counter_rng (zp_committee 1 3) (zp_committee 1 3) 100 10 [1] g1 = Ok (m, g2) \<and>
     h2s zp_ops \<lparr>ct_a = 5, ct_b = 5 * 77 + of_int 42 * pf_from_u64 100 + of_int (- 1)\<rparr> key_shares m
       (zp_committee 1 3) (zp_committee 1 3) 100 = Ok out \<and>
     committee_reconstruct (zp_committee 1 3) out = Ok (of_int 41)"
proof -
  let ?c = "zp_committee 1 3" and ?ct = "\<lparr>ct_a = 5, ct_b = 5 * 77 + of_int 42 * pf_from_u64 100 + of_int (- 1)\<rparr> :: zp fhe_ciphertext"
  have good: "good_committee ?c" by (simp add: good_zp_committee)
  obtain ks k g1 where ks: "committee_split (prime_share_ops zp_draw) ?c 77 0 = Ok (ks, g1)"
    "sharing (threshold ?c) k ks" "k 0 = 77" "map point ks = points ?c"
    by (rule zp_split [of 1 3 77 0]) simp_all
  obtain m g2 where m: "make_h2s_mask zp_draw (@) counter_rng ?c ?c 100 10 [1] g1 = Ok (m, g2)"
    by (rule make_h2s_mask_ok [OF good good, of zp_draw "(@)" counter_rng 100 10 "[1]" g1])
  have "\<exists>out. h2s zp_ops ?ct ks m ?c ?c 100 = Ok out \<and> map point out = points ?c \<and>
      committee_reconstruct ?c out = Ok (of_int (42 + - 1 div int (unat (100 :: u64))))"
    by (rule h2s_decodes [OF zp.prime_field_axioms good good _ ks(2,4) m])
      (simp_all add: ks(3) zp_ops_def PLAINTEXT_MODULUS_def)
  then show ?thesis using ks(1) m by (simp add: zdiv_zminus1_eq_if) blast
qed

text \<open>\<open>s2h\<close> under a mask of \<open>s2h_mask\<close> is exact: the resulting ciphertext decrypts to the shared
  secret under the key and scale of the mask.\<close>

theorem s2h_decrypts:
  assumes "good_committee src" and x: "sharing (threshold src) f x" "map point x = points src"
    and m: "make_s2h_mask draw next_u64 src key delta g = Ok (m, g')"
    and "(pf_from_u64 delta :: 'f::field) \<noteq> 0"
  shows "\<exists>ct. s2h x m src delta = Ok ct \<and> decrypt ct key delta = Ok (f 0 :: 'f)"
proof -
  obtain r a h where h: "s2h_source m = on_points h (points src)" "pdeg (threshold src) h" "h 0 = r"
    "s2h_ciphertext m = \<lparr>ct_a = a, ct_b = a * key + r * pf_from_u64 delta\<rparr>"
    by (rule make_s2h_mask_ok [OF m])
  have xf: "x = on_points f (points src)" "pdeg (threshold src) f"
    using sharing_canonical [OF x] x(1) by (simp_all add: sharing_def)
  have "reconstruct (on_points (\<lambda>x. f x - h x) (points src)) (threshold src + 1) = Ok (f 0 - h 0)"
    by (rule reconstruct_on_points [of "threshold src"])
      (use assms(1) h(2) xf(2) in \<open>auto simp: good_committee_def good_points_def committee_size_def intro!: pdeg_intros\<close>)
  then have s: "s2h x m src delta =
      Ok \<lparr>ct_a = a, ct_b = a * key + r * pf_from_u64 delta + (f 0 - r) * pf_from_u64 delta\<rparr>"
    by (simp add: s2h_def xf(1) h committee_size_def)
  have "a * key + r * pf_from_u64 delta + (f 0 - r) * pf_from_u64 delta - a * key = f 0 * pf_from_u64 delta"
    by (simp add: algebra_simps)
  with s show ?thesis using assms(5) by (simp add: decrypt_def fdiv_def)
qed

theorem s2h_decrypts_witness:
  "\<exists>x g1 m g2 ct. committee_split (prime_share_ops zp_draw) (zp_committee 1 3) 1234 0 = Ok (x, g1) \<and>
     make_s2h_mask zp_draw (\<lambda>g. (of_nat (g * g), Suc g)) (zp_committee 1 3) 77 100 g1 = Ok (m, g2) \<and>
     s2h x m (zp_committee 1 3) 100 = Ok ct \<and> decrypt ct 77 100 = Ok (1234 :: zp)"
proof -
  let ?c = "zp_committee 1 3" and ?w = "\<lambda>g. (of_nat (g * g) :: u64, Suc g)"
  obtain x f g1 where x: "committee_split (prime_share_ops zp_draw) ?c 1234 0 = Ok (x, g1)"
    "sharing (threshold ?c) f x" "f 0 = 1234" "map point x = points ?c"
    by (rule zp_split [of 1 3 1234 0]) simp_all
  obtain y h g3 where y: "committee_split (prime_share_ops zp_draw) ?c
      (pf_from_u64 (of_nat (g1 * g1) AND 0xFFFFFFFF)) (Suc g1) = Ok (y, g3)"
    by (rule zp_split [of 1 3 "pf_from_u64 (of_nat (g1 * g1) AND 0xFFFFFFFF)" "Suc g1"]) simp_all
  obtain m g2 where m: "make_s2h_mask zp_draw ?w ?c 77 100 g1 = Ok (m, g2)"
    using y by (simp add: make_s2h_mask_def Let_def split_beta)
  have "(pf_from_u64 100 :: zp) \<noteq> 0"
    using zp.of_nat_inj [of 100 0] by (auto simp: pf_from_u64_def zp_ops_def PLAINTEXT_MODULUS_def)
  with s2h_decrypts [OF _ x(2,4) m] x(1,3) m show ?thesis by (simp add: good_zp_committee)
qed

text \<open>\<open>authenticated_s2h\<close> releases a ciphertext exactly when the tag of the difference is
  \<open>alpha\<close> times the opened difference; the ciphertext then decrypts to the secret. Otherwise the
  result is \<open>MacCheckFailed\<close>.\<close>

theorem authenticated_s2h_checks:
  assumes good: "good_committee src"
    and x: "sharing (threshold src) f (au_value x)" "map point (au_value x) = points src"
    and t: "sharing (threshold src) t (au_mac x)" "map point (au_mac x) = points src"
    and gm: "sharing (threshold src) gm mac_mask" "map point mac_mask = points src"
    and al: "sharing (threshold src) al alpha" "map point alpha = points src"
    and m: "make_s2h_mask draw next_u64 src key delta g = Ok (m, g')"
    and r: "sharing (threshold src) h (s2h_source m)"
    and nz: "(pf_from_u64 delta :: 'f::field) \<noteq> 0"
  shows "if t 0 - gm 0 = (f 0 - h 0) * al 0
         then \<exists>ct. authenticated_s2h x m mac_mask alpha src delta = Ok ct \<and> decrypt ct key delta = Ok (f 0 :: 'f)
         else authenticated_s2h x m mac_mask alpha src delta = Err MacCheckFailed"
proof -
  obtain r a k where k: "s2h_source m = on_points k (points src)" "pdeg (threshold src) k" "k 0 = r"
    "s2h_ciphertext m = \<lparr>ct_a = a, ct_b = a * key + r * pf_from_u64 delta\<rparr>"
    by (rule make_s2h_mask_ok [OF m])
  have src: "distinct (points src)" "threshold src < length (points src)"
    using good by (simp_all add: good_committee_def good_points_def committee_size_def)
  have hk: "h 0 = k 0"
    using committee_reconstruct_sharing [OF good r] committee_reconstruct_sharing [OF good, of k "s2h_source m"] k(1,2)
    by simp
  have canon: "au_value x = on_points f (points src)" "au_mac x = on_points t (points src)"
    "mac_mask = on_points gm (points src)" "alpha = on_points al (points src)"
    using sharing_canonical [OF x] sharing_canonical [OF t] sharing_canonical [OF gm] sharing_canonical [OF al] by simp_all
  have deg: "pdeg (threshold src) f" "pdeg (threshold src) t" "pdeg (threshold src) gm" "pdeg (threshold src) al"
    using x t gm al by (simp_all add: sharing_def)
  have rec1: "reconstruct (on_points (\<lambda>x. f x - k x) (points src)) (threshold src + 1) = Ok (f 0 - k 0)"
    by (rule reconstruct_on_points [of "threshold src"]) (use src deg k(2) in \<open>auto intro!: pdeg_intros\<close>)
  have rec2: "reconstruct (on_points (\<lambda>x. t x - gm x - c * al x) (points src)) (threshold src + 1) =
      Ok (t 0 - gm 0 - c * al 0)" for c
    by (rule reconstruct_on_points [of "threshold src"]) (use src deg in \<open>auto intro!: pdeg_intros\<close>)
  have run: "authenticated_s2h x m mac_mask alpha src delta =
      (if t 0 - gm 0 - (f 0 - k 0) * al 0 \<noteq> 0 then Err MacCheckFailed
       else Ok \<lparr>ct_a = a, ct_b = a * key + r * pf_from_u64 delta + (f 0 - k 0) * pf_from_u64 delta\<rparr>)"
    using rec1 rec2 by (simp add: authenticated_s2h_def canon k(1,4) committee_size_def Let_def)
  have "a * key + r * pf_from_u64 delta + (f 0 - k 0) * pf_from_u64 delta - a * key = f 0 * pf_from_u64 delta"
    by (simp add: k(3) algebra_simps)
  then show ?thesis
    using nz by (simp add: run hk decrypt_def fdiv_def)
qed

theorem authenticated_s2h_checks_witness:
  "\<exists>x xm al gm g1 g2 g3 g4 m g5 ct.
     committee_split (prime_share_ops zp_draw) (zp_committee 1 3) 1234 0 = Ok (x, g1) \<and>
     committee_split (prime_share_ops zp_draw) (zp_committee 1 3) 7 g1 = Ok (al, g2) \<and>
     make_s2h_mask zp_draw (\<lambda>g. (of_nat (g * g), Suc g)) (zp_committee 1 3) 77 100 g2 = Ok (m, g3) \<and>
     committee_split (prime_share_ops zp_draw) (zp_committee 1 3) (1234 * 7) g3 = Ok (xm, g4) \<and>
     committee_split (prime_share_ops zp_draw) (zp_committee 1 3)
       (7 * pf_from_u64 (of_nat (g2 * g2) AND 0xFFFFFFFF)) g4 = Ok (gm, g5) \<and>
     authenticated_s2h \<lparr>au_value = x, au_mac = xm\<rparr> m gm al (zp_committee 1 3) 100 = Ok ct \<and>
     decrypt ct 77 100 = Ok (1234 :: zp)"
proof -
  let ?F = "prime_share_ops zp_draw" and ?c = "zp_committee 1 3" and ?w = "\<lambda>g. (of_nat (g * g) :: u64, Suc g)"
  have good: "good_committee ?c" by (simp add: good_zp_committee)
  obtain x f g1 where x: "committee_split ?F ?c 1234 0 = Ok (x, g1)"
    "sharing (threshold ?c) f x" "f 0 = 1234" "map point x = points ?c"
    by (rule zp_split [of 1 3 1234 0]) simp_all
  obtain al a g2 where al: "committee_split ?F ?c 7 g1 = Ok (al, g2)"
    "sharing (threshold ?c) a al" "a 0 = 7" "map point al = points ?c"
    by (rule zp_split [of 1 3 7 g1]) simp_all
  let ?r = "pf_from_u64 (of_nat (g2 * g2) AND 0xFFFFFFFF) :: zp"
  obtain y h g3 where y: "committee_split ?F ?c ?r (Suc g2) = Ok (y, g3)" "sharing (threshold ?c) h y" "h 0 = ?r"
    by (rule zp_split [of 1 3 ?r "Suc g2"]) simp_all
  obtain m g3' where m: "make_s2h_mask zp_draw ?w ?c 77 100 g2 = Ok (m, g3')" "s2h_source m = y"
    using y(1) by (simp add: make_s2h_mask_def Let_def split_beta)
  obtain xm b g4 where xm: "committee_split ?F ?c (1234 * 7) (g3') = Ok (xm, g4)"
    "sharing (threshold ?c) b xm" "b 0 = 1234 * 7" "map point xm = points ?c"
    by (rule zp_split [of 1 3 "1234 * 7" "g3'"]) simp_all
  obtain gm d g5 where gm: "committee_split ?F ?c (7 * ?r) g4 = Ok (gm, g5)"
    "sharing (threshold ?c) d gm" "d 0 = 7 * ?r" "map point gm = points ?c"
    by (rule zp_split [of 1 3 "7 * ?r" g4]) simp_all
  have nz: "(pf_from_u64 100 :: zp) \<noteq> 0"
    using zp.of_nat_inj [of 100 0] by (auto simp: pf_from_u64_def zp_ops_def PLAINTEXT_MODULUS_def)
  have eq: "b 0 - d 0 = (f 0 - h 0) * a 0"
    unfolding x(3) al(3) y(3) xm(3) gm(3) by (simp add: algebra_simps)
  show ?thesis
    using authenticated_s2h_checks [OF good, of f "\<lparr>au_value = x, au_mac = xm\<rparr>" b d gm a al, OF _ _ _ _ gm(2,4) al(2,4) m(1) _ nz, of h]
      eq x xm y(2) al(1) gm(1) m by auto
qed

end
