(* ===== verification/Comparison.thy ===== *)
theory Comparison
  imports S2B Conversion
begin

text \<open>
  \<open>crypto/src/mpc/comparison.rs\<close>: comparison of shared values through their difference's bits,
  conversion of a shared bit back to the prime field, oblivious selection, and the conditional
  transfer built from them.
\<close>

definition greater_than_or_equal ::
  "'f::field prime_field_ops \<Rightarrow> ('b::field, 'g) share_field_ops \<Rightarrow> 'f shamir_share list \<Rightarrow> 'f shamir_share list \<Rightarrow>
     ('f, 'b) bit_extract_pair \<Rightarrow> 'f committee \<Rightarrow> 'b committee \<Rightarrow> 'g \<Rightarrow> (mpc_error, 'b shamir_share list \<times> 'g) res"
where
  "greater_than_or_equal P B a b pair cf cb g =
     (if length a \<noteq> length b \<or> length a \<noteq> committee_size cf then Err ShareCountMismatch
      else bindR (combine_shares (-) a b) (\<lambda>diff.
           bindR (s2b P B diff pair cf cb g) (\<lambda>(bits, g').
           if bits = [] then Panic
           else Ok (map (\<lambda>s. \<lparr>point = point s, share_value = share_value s + 1\<rparr>) (bits ! (length bits - 1)), g'))))"

definition greater_than_or_equal_bounded ::
  "'f::field prime_field_ops \<Rightarrow> ('b::field, 'g) share_field_ops \<Rightarrow> 'f shamir_share list \<Rightarrow> 'f shamir_share list \<Rightarrow>
     ('f, 'b) bit_extract_pair \<Rightarrow> nat \<Rightarrow> 'f committee \<Rightarrow> 'b committee \<Rightarrow> 'g \<Rightarrow>
     (mpc_error, 'b shamir_share list \<times> 'g) res"
where
  "greater_than_or_equal_bounded P B a b pair bit_len cf cb g =
     (if length a \<noteq> length b \<or> length a \<noteq> committee_size cf then Err ShareCountMismatch
      else
        bindR (one_shl_u64 bit_len) (\<lambda>top.
        let two_pow = pf_from_u64 top in
        bindR (combine_shares (\<lambda>x y. x - y + two_pow) a b) (\<lambda>w.
        bindR (s2b_bounded P B w pair (bit_len + 1) cf cb g) (\<lambda>(bits, g').
          if bit_len < length bits then Ok (bits ! bit_len, g') else Err InvalidBitLength))))"

record ('f, 'b) random_bit_pair =
  rb_arithmetic :: "'f shamir_share list"
  rb_boolean :: "'b shamir_share list"

definition generate_random_bit ::
  "('f::field, 'g) share_field_ops \<Rightarrow> ('b::field, 'g) share_field_ops \<Rightarrow> ('g \<Rightarrow> bool \<times> 'g) \<Rightarrow> 'f committee \<Rightarrow>
     'b committee \<Rightarrow> 'g \<Rightarrow> (mpc_error, ('f, 'b) random_bit_pair \<times> 'g) res"
where
  "generate_random_bit F B gen_bool cf cb g =
     (let (b, g1) = gen_bool g in
      bindR (committee_split F cf (if b then 1 else 0) g1) (\<lambda>(xs, g2).
      bindR (committee_split B cb (if b then 1 else 0) g2) (\<lambda>(ys, g3).
        Ok (\<lparr>rb_arithmetic = xs, rb_boolean = ys\<rparr>, g3))))"

definition b2a ::
  "'b::field shamir_share list \<Rightarrow> ('f::field, 'b) random_bit_pair \<Rightarrow> 'b committee \<Rightarrow> (mpc_error, 'f shamir_share list) res"
where
  "b2a b rb cb =
     (if length b \<noteq> length (rb_boolean rb) then Err ShareCountMismatch
      else bindR (combine_shares (+) b (rb_boolean rb)) (\<lambda>c_shares.
           bindR (committee_reconstruct cb c_shares) (\<lambda>c.
             let c_f = (if c = 1 then 1 else 0); two_c = c_f + c_f in
             Ok (map (\<lambda>r. \<lparr>point = point r, share_value = share_value r + c_f - two_c * share_value r\<rparr>)
                   (rb_arithmetic rb)))))"

definition conditional_select ::
  "'b::field shamir_share list \<Rightarrow> 'f::field shamir_share list \<Rightarrow> 'f shamir_share list \<Rightarrow> ('f, 'b) random_bit_pair \<Rightarrow>
     'f handoff_mask \<Rightarrow> 'f committee \<Rightarrow> 'b committee \<Rightarrow> (mpc_error, 'f shamir_share list) res"
where
  "conditional_select b x y rb m cf cb =
     (if length x \<noteq> length y \<or> length x \<noteq> committee_size cf then Err ShareCountMismatch
      else bindR (b2a b rb cb) (\<lambda>bit_arith.
           bindR (combine_shares (-) x y) (\<lambda>diff.
           bindR (multiply_and_handoff bit_arith diff m cf cf) (\<lambda>t. Ok (zip_shares (+) y t)))))"

definition conditional_transfer_strictly_greater ::
  "'f::field prime_field_ops \<Rightarrow> ('f, 'g) share_field_ops \<Rightarrow> ('b::field, 'g) share_field_ops \<Rightarrow> hmac_fun \<Rightarrow> 'g rng_ops \<Rightarrow>
     ('g \<Rightarrow> bool \<times> 'g) \<Rightarrow> 'f shamir_share list \<Rightarrow> 'f shamir_share list \<Rightarrow> 'f shamir_share list \<Rightarrow>
     'f shamir_share list \<Rightarrow> ('f, 'b) bit_extract_pair \<Rightarrow> 'f committee \<Rightarrow> 'b committee \<Rightarrow> 'g \<Rightarrow>
     (mpc_error, ('f shamir_share list \<times> 'f shamir_share list) \<times> 'g) res"
where
  "conditional_transfer_strictly_greater P F B hmac R gen_bool sender receiver minimum amount pair cf cb g =
     (if length sender \<noteq> length receiver \<or> length sender \<noteq> length minimum \<or> length sender \<noteq> length amount
         \<or> length sender \<noteq> committee_size cf
      then Err ShareCountMismatch
      else bindR (greater_than_or_equal P B minimum sender pair cf cb g) (\<lambda>(geq_min, g1).
        let gt = map (\<lambda>s. \<lparr>point = point s, share_value = share_value s + 1\<rparr>) geq_min;
            sender_minus = zip_shares (-) sender amount;
            receiver_plus = zip_shares (+) receiver amount;
            t = threshold cf in
        bindR (generate_random_bit F B gen_bool cf cb g1) (\<lambda>(rb1, g2).
        bindR (reshare_pair F hmac R cf (2 * t) cf t (map (of_nat \<circ> of_char) ''cnd-sel-1'') g2) (\<lambda>(mask1, g3).
        bindR (conditional_select gt sender_minus sender rb1 mask1 cf cb) (\<lambda>sender_new.
        bindR (generate_random_bit F B gen_bool cf cb g3) (\<lambda>(rb2, g4).
        bindR (reshare_pair F hmac R cf (2 * t) cf t (map (of_nat \<circ> of_char) ''cnd-sel-2'') g4) (\<lambda>(mask2, g5).
        bindR (conditional_select gt receiver_plus receiver rb2 mask2 cf cb) (\<lambda>receiver_new.
          Ok ((sender_new, receiver_new), g5)))))))))"

section \<open>The comparison bit\<close>

context prime_field
begin

lemma top_bit_diff:
  assumes "pf_into P x < 2 ^ (pf_bit_size P - 1)" "pf_into P y < 2 ^ (pf_bit_size P - 1)"
  shows "\<not> bit (pf_into P (x - y)) (pf_bit_size P - 1) \<longleftrightarrow>
         pf_into P y \<le> pf_into P x \<or> pf_modulus P - 2 ^ (pf_bit_size P - 1) < pf_into P y - pf_into P x"
proof -
  let ?l = "pf_bit_size P - 1"
  have q: "2 ^ ?l \<le> pf_modulus P" "pf_modulus P < 2 * 2 ^ ?l"
    using bit_size modulus_gt_2 by (cases "pf_bit_size P"; simp)+
  have top: "bit n ?l \<longleftrightarrow> 2 ^ ?l \<le> n" if "n < 2 * 2 ^ ?l" for n :: nat
  proof (cases "2 ^ ?l \<le> n")
    case True
    then have "n div 2 ^ ?l = 1" using that by (intro div_nat_eqI) simp_all
    with True show ?thesis by (simp add: bit_iff_odd)
  next
    case False
    then show ?thesis by (simp add: bit_iff_odd)
  qed
  have "\<not> bit (pf_into P (x - y)) ?l \<longleftrightarrow> \<not> 2 ^ ?l \<le> pf_into P (x - y)"
    using top [OF less_trans [OF into_less q(2)]] by (rule arg_cong)
  also have "\<dots> \<longleftrightarrow> pf_into P y \<le> pf_into P x \<or> pf_modulus P - 2 ^ ?l < pf_into P y - pf_into P x"
    unfolding into_diff using assms q into_less [of y] by auto
  finally show ?thesis .
qed

end

context boolean_committee
begin

lemma plus_one_val:
  assumes "bit_sharing v xs"
  shows "bit_sharing (\<not> v) (map (\<lambda>s. \<lparr>point = point s, share_value = share_value s + 1\<rparr>) xs)"
  using negate_shares_val [OF assms] by (simp add: negate_shares_def add.commute)

lemma greater_than_or_equal_val:
  assumes P: "prime_field P" and cf: "good_committee cf" "committee_size cf = committee_size cm" "threshold cf = threshold cm"
    and a: "val_sharing (threshold cf) (points cf) v a" and b: "val_sharing (threshold cf) (points cf) w b"
    and pair: "pair_for cf (bigint_bits_le P r) r pair"
  obtains out g' where "greater_than_or_equal P B a b pair cf cm g = Ok (out, g')"
    "bit_sharing (\<not> bit (pf_into P (v - w)) (pf_bit_size P - 1)) out"
proof -
  obtain f h where f: "pdeg (threshold cf) f" "f 0 = v" "a = on_points f (points cf)"
    and h: "pdeg (threshold cf) h" "h 0 = w" "b = on_points h (points cf)"
    using a b by (auto elim!: val_sharingE)
  let ?d = "on_points (\<lambda>x. f x - h x) (points cf)"
  have d: "val_sharing (threshold cf) (points cf) (v - w) ?d"
    by (rule val_sharingI) (use f h in \<open>auto intro: pdeg_diff\<close>)
  obtain bits g' where bits: "s2b P B ?d pair cf cm g = Ok (bits, g')" "list_all2 bit_sharing (bigint_bits_le P (v - w)) bits"
    by (rule s2b_val [OF P cf d pair])
  have "pf_bit_size P \<noteq> 0"
    using prime_field.bit_size(2) [OF P] prime_field.modulus_gt_2 [OF P] by (intro notI) simp
  then have len: "length bits = pf_bit_size P" "bits \<noteq> []"
    using list_all2_lengthD [OF bits(2)] by (auto simp: bigint_bits_le_def)
  have "bit_sharing (bit (pf_into P (v - w)) (pf_bit_size P - 1)) (bits ! (length bits - 1))"
    using list_all2_nthD2 [OF bits(2), of "length bits - 1"] len \<open>pf_bit_size P \<noteq> 0\<close>
    by (simp add: bigint_bits_le_def nat_bits_def)
  from plus_one_val [OF this] show ?thesis
    using bits(1) len(2) by (intro that) (simp_all add: greater_than_or_equal_def f(3) h(3) committee_size_def)
qed

lemma greater_than_or_equal_bounded_val:
  fixes P :: "'f::field prime_field_ops"
  assumes P: "prime_field P" and cf: "good_committee cf" "committee_size cf = committee_size cm" "threshold cf = threshold cm"
    and a: "val_sharing (threshold cf) (points cf) v a" and b: "val_sharing (threshold cf) (points cf) w b"
    and pair: "pair_for cf (nat_bits (l + 1) (pf_into P r)) r pair" "pf_into P r < 2 ^ (l + 1)"
    and range: "pf_into P v < 2 ^ l" "pf_into P w < 2 ^ l" "2 ^ (l + 2) \<le> pf_modulus P" "l < 64"
  obtains out g' where "greater_than_or_equal_bounded P B a b pair l cf cm g = Ok (out, g')"
    "bit_sharing (pf_into P w \<le> pf_into P v) out"
proof -
  obtain f h where f: "pdeg (threshold cf) f" "f 0 = v" "a = on_points f (points cf)"
    and h: "pdeg (threshold cf) h" "h 0 = w" "b = on_points h (points cf)"
    using a b by (auto elim!: val_sharingE)
  let ?two = "of_nat (2 ^ l) :: 'f" and ?n = "pf_into P v + 2 ^ l - pf_into P w"
  have shl: "one_shl_u64 l = Ok (push_bit l 1)" using range(4) by (simp add: one_shl_u64_def)
  have two: "pf_from_u64 (push_bit l 1) = ?two"
  proof -
    have "unat (push_bit l 1 :: u64) = 2 ^ l"
      using unat_of_nat [of "2 ^ l", where 'a = 64] power_strict_increasing [OF range(4), of "2 :: nat"]
      by (simp add: push_bit_eq_mult)
    then show ?thesis unfolding pf_from_u64_def by (rule arg_cong)
  qed
  have "v - w + ?two = of_nat ?n"
    using range(2) by (simp add: of_nat_diff prime_field.of_nat_into [OF P])
  moreover have "?n < 2 ^ (l + 1)" using range(1) by simp
  ultimately have into: "pf_into P (v - w + ?two) = ?n"
    using prime_field.into_small [OF P, of ?n] range(3) by simp
  let ?d = "on_points (\<lambda>x. f x - h x + ?two) (points cf)"
  have d: "val_sharing (threshold cf) (points cf) (v - w + ?two) ?d"
    by (rule val_sharingI) (use f h in \<open>auto intro: pdeg_diff pdeg_add pdeg_const\<close>)
  obtain bits g' where bits: "s2b_bounded P B ?d pair (l + 1) cf cm g = Ok (bits, g')"
    "list_all2 bit_sharing (nat_bits (l + 1) ?n) bits"
    by (rule s2b_bounded_val [OF P cf d pair(1), where g = g]) (use into \<open>?n < 2 ^ (l + 1)\<close> pair(2) range(3,4) in simp_all)
  have len: "length bits = l + 1" using list_all2_lengthD [OF bits(2)] by simp
  have "bit ?n l \<longleftrightarrow> pf_into P w \<le> pf_into P v"
  proof -
    have "?n div 2 ^ l = (if pf_into P w \<le> pf_into P v then 1 else 0)"
      using range(1,2) by (auto simp: div_nat_eqI)
    then show ?thesis by (simp add: bit_iff_odd)
  qed
  moreover have "bit_sharing (bit ?n l) (bits ! l)"
    using list_all2_nthD2 [OF bits(2), of l] len by (simp add: nat_bits_def del: upt_Suc)
  ultimately show ?thesis
    using bits(1) len
    by (intro that [of "bits ! l" g'])
      (unfold greater_than_or_equal_bounded_def Let_def shl bindR.simps(1) two f(3) h(3), simp_all add: committee_size_def)
qed

definition random_bit_ok :: "'f::field committee \<Rightarrow> ('f, 'b) random_bit_pair \<Rightarrow> bool" where
  "random_bit_ok cf rb \<longleftrightarrow>
     (\<exists>r. val_sharing (threshold cf) (points cf) (of_bool r) (rb_arithmetic rb) \<and> bit_sharing r (rb_boolean rb))"

lemma generate_random_bit_ok:
  assumes "good_committee cf"
  obtains rb g' where "generate_random_bit F B gen_bool cf cm g = Ok (rb, g')" "random_bit_ok cf rb"
proof -
  obtain r g1 where r: "gen_bool g = (r, g1)" by fastforce
  obtain xs g2 where xs: "committee_split F cf (of_bool r) g1 = Ok (xs, g2)" "val_sharing (threshold cf) (points cf) (of_bool r) xs"
    by (rule committee_split_val [OF assms])
  obtain ys g3 where ys: "committee_split B cm (of_bool r) g2 = Ok (ys, g3)" "bit_sharing r ys"
    by (rule committee_split_val [OF good])
  show ?thesis
    by (rule that [of "\<lparr>rb_arithmetic = xs, rb_boolean = ys\<rparr>" g3])
      (use r xs ys in \<open>auto simp: generate_random_bit_def random_bit_ok_def of_bool_def split: if_splits\<close>)
qed

lemma b2a_val:
  fixes cf :: "'f::field committee"
  assumes "bit_sharing v xs" "random_bit_ok cf rb"
  obtains out where "b2a xs rb cm = Ok out" "val_sharing (threshold cf) (points cf) (of_bool v) out"
proof -
  obtain r where r: "val_sharing (threshold cf) (points cf) (of_bool r) (rb_arithmetic rb)" "bit_sharing r (rb_boolean rb)"
    using assms(2) by (auto simp: random_bit_ok_def)
  obtain f h where f: "pdeg (threshold cm) f" "f 0 = of_bool v" "xs = on_points f (points cm)"
    and h: "pdeg (threshold cm) h" "h 0 = of_bool r" "rb_boolean rb = on_points h (points cm)"
    using assms(1) r(2) by (auto elim!: val_sharingE)
  have "committee_reconstruct cm (on_points (\<lambda>x. f x + h x) (points cm)) = Ok (of_bool v + of_bool r)"
    using f h by (intro val_sharing_committee_reconstruct [OF good] val_sharingI) (auto intro: pdeg_add)
  moreover have "of_bool v + of_bool r = (of_bool (v \<noteq> r) :: 'b)" by (cases v; cases r) simp_all
  ultimately have c: "committee_reconstruct cm (on_points (\<lambda>x. f x + h x) (points cm)) = Ok (of_bool (v \<noteq> r))" by simp
  let ?c = "of_bool (v \<noteq> r) :: 'f"
  have "val_sharing (threshold cf) (points cf) (of_bool r + ?c - (?c + ?c) * of_bool r)
      (map (\<lambda>s. \<lparr>point = point s, share_value = share_value s + ?c - (?c + ?c) * share_value s\<rparr>) (rb_arithmetic rb))"
    by (rule val_sharing_map [OF r(1)]) (intro pdeg_intros)
  moreover have "of_bool r + ?c - (?c + ?c) * of_bool r = of_bool v" by (cases v; cases r) simp_all
  moreover have "b2a xs rb cm =
      Ok (map (\<lambda>s. \<lparr>point = point s, share_value = share_value s + ?c - (?c + ?c) * share_value s\<rparr>) (rb_arithmetic rb))"
    unfolding b2a_def using c by (cases "v = r") (simp_all add: f(3) h(3))
  ultimately show ?thesis by (intro that) simp_all
qed

lemma conditional_select_val:
  assumes cf: "good_committee cf" "2 * threshold cf < committee_size cf"
    and b: "bit_sharing v xs" "random_bit_ok cf rb"
    and x: "val_sharing (threshold cf) (points cf) p x" and y: "val_sharing (threshold cf) (points cf) q y"
    and m: "mask_pair (points cf) (points cf) (2 * threshold cf) (threshold cf) r m"
  obtains out where "conditional_select xs x y rb m cf cm = Ok out"
    "val_sharing (threshold cf) (points cf) (if v then p else q) out"
proof -
  obtain ba where ba: "b2a xs rb cm = Ok ba" "val_sharing (threshold cf) (points cf) (of_bool v) ba"
    by (rule b2a_val [OF b])
  obtain f h k where f: "pdeg (threshold cf) f" "f 0 = p" "x = on_points f (points cf)"
    and h: "pdeg (threshold cf) h" "h 0 = q" "y = on_points h (points cf)"
    and k: "pdeg (threshold cf) k" "k 0 = of_bool v" "ba = on_points k (points cf)"
    using x y ba(2) by (auto elim!: val_sharingE)
  have "distinct (points cf)" using cf(1) by (simp add: good_committee_def good_points_def)
  obtain u where u: "multiply_and_handoff (on_points k (points cf)) (on_points (\<lambda>x. f x - h x) (points cf)) m cf cf = Ok (on_points u (points cf))"
    "pdeg (threshold cf) u" "u 0 = k 0 * (f 0 - h 0)"
    by (rule multiply_and_handoff_on_points [OF k(1) le_refl pdeg_diff [OF f(1) h(1)] le_refl m le_refl
          \<open>distinct (points cf)\<close> cf(2)])
  show ?thesis
  proof (rule that [of "on_points (\<lambda>x. h x + u x) (points cf)"])
    show "conditional_select xs x y rb m cf cm = Ok (on_points (\<lambda>x. h x + u x) (points cf))"
      using ba(1) u(1) by (simp add: conditional_select_def f(3) h(3) k(3) committee_size_def)
    show "val_sharing (threshold cf) (points cf) (if v then p else q) (on_points (\<lambda>x. h x + u x) (points cf))"
      by (rule val_sharingI) (use h u k f in \<open>auto intro: pdeg_add\<close>)
  qed
qed

end

section \<open>Properties\<close>

text \<open>C5. The full-width comparison returns the negated top bit of the representative of \<open>a - b\<close>. For values
  below \<open>2 ^ (bits - 1)\<close>, the documented precondition, this is \<open>a \<ge> b\<close> except when \<open>b\<close> exceeds \<open>a\<close> by
  more than \<open>modulus - 2 ^ (bits - 1)\<close>: then a smaller \<open>a\<close> is reported as greater.\<close>

theorem greater_than_or_equal_outcome:
  assumes P: "prime_field P" and cf: "good_committee cf" "committee_size cf = committee_size cb" "threshold cf = threshold cb"
    and cb: "boolean_committee cb"
    and a: "sharing (threshold cf) f a" "map point a = points cf"
    and b: "sharing (threshold cf) h b" "map point b = points cf"
    and pair: "generate_bit_extract_pair P F B cf cb g = Ok (pair, g1)"
    and range: "pf_into P (f 0) < 2 ^ (pf_bit_size P - 1)" "pf_into P (h 0) < 2 ^ (pf_bit_size P - 1)"
  shows "\<exists>out g2. greater_than_or_equal P B a b pair cf cb g1 = Ok (out, g2) \<and>
           committee_reconstruct cb out =
             Ok (of_bool (pf_into P (h 0) \<le> pf_into P (f 0) \<or>
                          pf_modulus P - 2 ^ (pf_bit_size P - 1) < pf_into P (h 0) - pf_into P (f 0)))"
proof -
  let ?v = "pf_into P (f 0)" and ?w = "pf_into P (h 0)" and ?l = "pf_bit_size P - 1" and ?q = "pf_modulus P"
  have av: "val_sharing (threshold cf) (points cf) (f 0) a" and bv: "val_sharing (threshold cf) (points cf) (h 0) b"
    unfolding val_sharing_sharing using a b by blast+
  obtain out g2 where out: "greater_than_or_equal P B a b pair cf cb g1 = Ok (out, g2)"
    "val_sharing (threshold cb) (points cb) (of_bool (\<not> bit (pf_into P (f 0 - h 0)) ?l)) out"
    by (rule boolean_committee.generate_bit_extract_pair_for [OF cb cf(1), of P F B g],
        rule boolean_committee.greater_than_or_equal_val [OF cb P cf av bv, of "fst (sf_rand F g)" pair B g1])
      (use pair in auto)
  have "committee_reconstruct cb out = Ok (of_bool (?w \<le> ?v \<or> ?q - 2 ^ ?l < ?w - ?v))"
    using val_sharing_committee_reconstruct [OF boolean_committee.good [OF cb] out(2)]
    unfolding prime_field.top_bit_diff [OF P range] .
  with out(1) show ?thesis by blast
qed

theorem greater_than_or_equal_outcome_witness:
  "\<exists>a b g1 g2 pair g3 out g4.
     committee_split (prime_share_ops zp_draw) (zp_committee 2 5) 1 0 = Ok (a, g1) \<and>
     committee_split (prime_share_ops zp_draw) (zp_committee 2 5) 500000000 g1 = Ok (b, g2) \<and>
     generate_bit_extract_pair zp_ops (prime_share_ops zp_draw) (f2_ops counter_rng) (zp_committee 2 5)
       (f2_committee 2 5) g2 = Ok (pair, g3) \<and>
     greater_than_or_equal zp_ops (f2_ops counter_rng) a b pair (zp_committee 2 5) (f2_committee 2 5) g3 = Ok (out, g4) \<and>
     committee_reconstruct (f2_committee 2 5) out = Ok 1"
proof -
  let ?F = "prime_share_ops zp_draw" and ?cf = "zp_committee 2 5" and ?B = "f2_ops counter_rng" and ?cb = "f2_committee 2 5"
  obtain a f g1 where a: "committee_split ?F ?cf 1 0 = Ok (a, g1)"
    "sharing (threshold ?cf) f a" "f 0 = 1" "map point a = points ?cf"
    by (rule zp_split [of 2 5 1 0]) simp_all
  obtain b h g2 where b: "committee_split ?F ?cf 500000000 g1 = Ok (b, g2)"
    "sharing (threshold ?cf) h b" "h 0 = 500000000" "map point b = points ?cf"
    by (rule zp_split [of 2 5 500000000 g1]) simp_all
  have cf: "good_committee ?cf" and cb: "boolean_committee ?cb"
    by (simp_all add: good_zp_committee boolean_f2_committee)
  obtain pair g3 where pair: "generate_bit_extract_pair zp_ops ?F ?B ?cf ?cb g2 = Ok (pair, g3)"
    by (rule boolean_committee.generate_bit_extract_pair_for [OF cb cf, of zp_ops ?F ?B g2])
  have "pf_into zp_ops (f 0) = 1" "pf_into zp_ops (h 0) = 500000000" "pf_bit_size zp_ops = 30" "pf_modulus zp_ops = 998244353"
    using zp.into_small [of 1] zp.into_small [of 500000000] a(3) b(3) by (simp_all add: zp_ops_def PLAINTEXT_MODULUS_def)
  with greater_than_or_equal_outcome [OF zp.prime_field_axioms cf _ _ cb a(2,4) b(2,4) pair] a(1) b(1) pair
  show ?thesis by auto
qed

text \<open>The bounded comparison is exact: for values below \<open>2 ^ l\<close> in a field of more than \<open>l + 2\<close> bits it
  returns a sharing of \<open>a \<ge> b\<close>, using a generated pair of \<open>l + 1\<close> bits.\<close>

theorem greater_than_or_equal_bounded_correct:
  assumes P: "prime_field P" and cf: "good_committee cf" "committee_size cf = committee_size cb" "threshold cf = threshold cb"
    and cb: "boolean_committee cb"
    and a: "sharing (threshold cf) f a" "map point a = points cf"
    and b: "sharing (threshold cf) h b" "map point b = points cf"
    and pair: "generate_bit_extract_pair_bounded F B gen_u64 cf cb (l + 1) g = Ok (pair, g1)"
    and range: "pf_into P (f 0) < 2 ^ l" "pf_into P (h 0) < 2 ^ l" "2 ^ (l + 2) \<le> pf_modulus P" "l + 1 < 64"
  shows "\<exists>out g2. greater_than_or_equal_bounded P B a b pair l cf cb g1 = Ok (out, g2) \<and>
           committee_reconstruct cb out = Ok (of_bool (pf_into P (h 0) \<le> pf_into P (f 0)))"
proof -
  have av: "val_sharing (threshold cf) (points cf) (f 0) a" and bv: "val_sharing (threshold cf) (points cf) (h 0) b"
    unfolding val_sharing_sharing using a b by blast+
  have q: "2 ^ (l + 1) \<le> pf_modulus P" using range(3) by simp
  obtain p' g' r where p: "generate_bit_extract_pair_bounded F B gen_u64 cf cb (l + 1) g = Ok (p', g')"
    "boolean_committee.pair_for cb cf (nat_bits (l + 1) (pf_into P r)) r p'" "pf_into P r < 2 ^ (l + 1)"
    by (rule boolean_committee.generate_bit_extract_pair_bounded_for [OF cb P cf(1) range(4) q, of F B gen_u64 g])
  have p': "p' = pair" using p(1) pair by simp
  obtain out g2 where out: "greater_than_or_equal_bounded P B a b pair l cf cb g1 = Ok (out, g2)"
    "val_sharing (threshold cb) (points cb) (of_bool (pf_into P (h 0) \<le> pf_into P (f 0))) out"
    by (rule boolean_committee.greater_than_or_equal_bounded_val [OF cb P cf av bv p(2,3) [unfolded p'] range(1-3), of B g1])
      (use range(4) in simp)
  with val_sharing_committee_reconstruct [OF boolean_committee.good [OF cb] out(2)] show ?thesis by blast
qed

theorem greater_than_or_equal_bounded_correct_witness:
  "\<exists>a b g1 g2 pair g3 out g4.
     committee_split (prime_share_ops zp_draw) (zp_committee 2 5) 1 0 = Ok (a, g1) \<and>
     committee_split (prime_share_ops zp_draw) (zp_committee 2 5) 50000 g1 = Ok (b, g2) \<and>
     generate_bit_extract_pair_bounded (prime_share_ops zp_draw) (f2_ops counter_rng) (\<lambda>g. (of_nat (g * g), Suc g))
       (zp_committee 2 5) (f2_committee 2 5) 17 g2 = Ok (pair, g3) \<and>
     greater_than_or_equal_bounded zp_ops (f2_ops counter_rng) a b pair 16 (zp_committee 2 5) (f2_committee 2 5) g3 = Ok (out, g4) \<and>
     committee_reconstruct (f2_committee 2 5) out = Ok 0"
proof -
  let ?F = "prime_share_ops zp_draw" and ?cf = "zp_committee 2 5" and ?B = "f2_ops counter_rng" and ?cb = "f2_committee 2 5"
    and ?w = "\<lambda>g. (of_nat (g * g) :: u64, Suc g)"
  obtain a f g1 where a: "committee_split ?F ?cf 1 0 = Ok (a, g1)"
    "sharing (threshold ?cf) f a" "f 0 = 1" "map point a = points ?cf"
    by (rule zp_split [of 2 5 1 0]) simp_all
  obtain b h g2 where b: "committee_split ?F ?cf 50000 g1 = Ok (b, g2)"
    "sharing (threshold ?cf) h b" "h 0 = 50000" "map point b = points ?cf"
    by (rule zp_split [of 2 5 50000 g1]) simp_all
  have cf: "good_committee ?cf" and cb: "boolean_committee ?cb"
    by (simp_all add: good_zp_committee boolean_f2_committee)
  have q: "pf_modulus zp_ops = 998244353" by (simp add: zp_ops_def PLAINTEXT_MODULUS_def)
  obtain pair g3 where pair: "generate_bit_extract_pair_bounded ?F ?B ?w ?cf ?cb (16 + 1) g2 = Ok (pair, g3)"
    by (rule boolean_committee.generate_bit_extract_pair_bounded_for [OF cb zp.prime_field_axioms cf, of "16 + 1" ?F ?B ?w g2])
      (simp_all add: q)
  have "pf_into zp_ops (f 0) = 1" "pf_into zp_ops (h 0) = 50000"
    using zp.into_small [of 1] zp.into_small [of 50000] a(3) b(3) by (simp_all add: q)
  with greater_than_or_equal_bounded_correct [OF zp.prime_field_axioms cf _ _ cb a(2,4) b(2,4) pair] a(1) b(1) pair
  show ?thesis by (auto simp: q)
qed

lemma conditional_transfer_val:
  assumes P: "prime_field P" and cf: "good_committee cf" "committee_size cf = committee_size cb" "threshold cf = threshold cb"
    and cb: "boolean_committee cb" and maj: "2 * threshold cf < committee_size cf"
    and sv: "val_sharing (threshold cf) (points cf) v sender" and rv: "val_sharing (threshold cf) (points cf) w receiver"
    and mv: "val_sharing (threshold cf) (points cf) mn minimum" and av: "val_sharing (threshold cf) (points cf) am amount"
    and pair: "generate_bit_extract_pair P F B cf cb g = Ok (pair, g1)"
    and range: "pf_into P v < 2 ^ (pf_bit_size P - 1)" "pf_into P mn < 2 ^ (pf_bit_size P - 1)"
      "pf_into P v - pf_into P mn \<le> pf_modulus P - 2 ^ (pf_bit_size P - 1)"
  obtains sn rn g2 where "conditional_transfer_strictly_greater P F B hmac R gen_bool sender receiver minimum amount pair cf cb g1
      = Ok ((sn, rn), g2)"
    "val_sharing (threshold cf) (points cf) (if pf_into P mn < pf_into P v then v - am else v) sn"
    "val_sharing (threshold cf) (points cf) (if pf_into P mn < pf_into P v then w + am else w) rn"
proof -
  let ?l = "pf_bit_size P - 1" and ?gt = "pf_into P (mn) < pf_into P (v)"
  have len: "length sender = committee_size cf" "length receiver = committee_size cf"
    "length minimum = committee_size cf" "length amount = committee_size cf"
    using val_sharing_length [OF sv] val_sharing_length [OF rv] val_sharing_length [OF mv] val_sharing_length [OF av]
    by (simp_all add: committee_size_def)
  have gt: "(\<not> bit (pf_into P (mn - v)) ?l) = (\<not> ?gt)"
    unfolding prime_field.top_bit_diff [OF P range(2,1)] using range(3) by auto
  obtain geq g2 where geq: "greater_than_or_equal P B minimum sender pair cf cb g1 = Ok (geq, g2)"
    "val_sharing (threshold cb) (points cb) (of_bool (\<not> ?gt)) geq"
    unfolding gt [symmetric]
    by (rule boolean_committee.generate_bit_extract_pair_for [OF cb cf(1), of P F B g],
        rule boolean_committee.greater_than_or_equal_val [OF cb P cf mv sv, of "fst (sf_rand F g)" pair B g1])
      (use pair in auto)
  let ?gtb = "map (\<lambda>s. \<lparr>point = point s, share_value = share_value s + 1\<rparr>) geq"
  have gtb: "val_sharing (threshold cb) (points cb) (of_bool ?gt) ?gtb"
    using boolean_committee.plus_one_val [OF cb geq(2)] by simp
  have sm: "val_sharing (threshold cf) (points cf) (v - am) (zip_shares (-) sender amount)"
    by (rule val_sharing_zip [OF sv av]) (rule pdeg_diff)
  have rp: "val_sharing (threshold cf) (points cf) (w + am) (zip_shares (+) receiver amount)"
    by (rule val_sharing_zip [OF rv av]) (rule pdeg_add)
  have nz: "0 \<notin> set (points cf)" and t: "threshold cf < committee_size cf"
    using cf(1) by (simp_all add: good_committee_def good_points_def)
  have resh: "\<exists>mk g'. reshare_pair F hmac R cf (2 * threshold cf) cf (threshold cf) nonce g = Ok (mk, g') \<and>
      (\<exists>x. mask_pair (points cf) (points cf) (2 * threshold cf) (threshold cf) x mk)" for nonce g
    unfolding reshare_pair_def
    by (rule reshare_pair_by_mask [OF nz nz maj t, of R g "\<lambda>seed. derive_element F hmac seed nonce"]) blast
  have step: "\<exists>rb g3 mk g4 out. generate_random_bit F B gen_bool cf cb g = Ok (rb, g3) \<and>
      reshare_pair F hmac R cf (2 * threshold cf) cf (threshold cf) nonce g3 = Ok (mk, g4) \<and>
      conditional_select ?gtb x y rb mk cf cb = Ok out \<and> val_sharing (threshold cf) (points cf) (if ?gt then p else q) out"
    if xs: "val_sharing (threshold cf) (points cf) p x" "val_sharing (threshold cf) (points cf) q y" for p q x y g nonce
  proof -
    obtain rb g3 where rb: "generate_random_bit F B gen_bool cf cb g = Ok (rb, g3)" "boolean_committee.random_bit_ok cb cf rb"
      by (rule boolean_committee.generate_random_bit_ok [OF cb cf(1)])
    obtain mk g4 z where mk: "reshare_pair F hmac R cf (2 * threshold cf) cf (threshold cf) nonce g3 = Ok (mk, g4)"
      "mask_pair (points cf) (points cf) (2 * threshold cf) (threshold cf) z mk"
      using resh [of nonce g3] by blast
    obtain out where "conditional_select ?gtb x y rb mk cf cb = Ok out"
      "val_sharing (threshold cf) (points cf) (if ?gt then p else q) out"
      by (rule boolean_committee.conditional_select_val [OF cb cf(1) maj gtb rb(2) xs mk(2)])
    with rb(1) mk(1) show ?thesis by blast
  qed
  obtain rb1 g3 mk1 g4 sn where s1: "generate_random_bit F B gen_bool cf cb g2 = Ok (rb1, g3)"
    "reshare_pair F hmac R cf (2 * threshold cf) cf (threshold cf) (map (of_nat \<circ> of_char) ''cnd-sel-1'') g3 = Ok (mk1, g4)"
    "conditional_select ?gtb (zip_shares (-) sender amount) sender rb1 mk1 cf cb = Ok sn"
    "val_sharing (threshold cf) (points cf) (if ?gt then v - am else v) sn"
    using step [OF sm sv, of g2 "map (of_nat \<circ> of_char) ''cnd-sel-1''"] by blast
  obtain rb2 g5 mk2 g6 rn where s2: "generate_random_bit F B gen_bool cf cb g4 = Ok (rb2, g5)"
    "reshare_pair F hmac R cf (2 * threshold cf) cf (threshold cf) (map (of_nat \<circ> of_char) ''cnd-sel-2'') g5 = Ok (mk2, g6)"
    "conditional_select ?gtb (zip_shares (+) receiver amount) receiver rb2 mk2 cf cb = Ok rn"
    "val_sharing (threshold cf) (points cf) (if ?gt then w + am else w) rn"
    using step [OF rp rv, of g4 "map (of_nat \<circ> of_char) ''cnd-sel-2''"] by blast
  have "conditional_transfer_strictly_greater P F B hmac R gen_bool sender receiver minimum amount pair cf cb g1 = Ok ((sn, rn), g6)"
    unfolding conditional_transfer_strictly_greater_def Let_def geq(1)
    using len by (simp only: bindR.simps prod.case s1(1-3) s2(1-3)) simp
  then show ?thesis using s1(4) s2(4) by (rule that)
qed

text \<open>C3. The conditional transfer: with \<open>a \<ge> b\<close> decided on secret values as above, the new balances share
  \<open>sender - amount\<close> and \<open>receiver + amount\<close> when \<open>minimum < sender\<close>, and the old ones otherwise; in both
  cases their sum is unchanged.\<close>

theorem conditional_transfer_correct:
  assumes P: "prime_field P" and cf: "good_committee cf" "committee_size cf = committee_size cb" "threshold cf = threshold cb"
    and cb: "boolean_committee cb" and maj: "2 * threshold cf < committee_size cf"
    and s: "sharing (threshold cf) s sender" "map point sender = points cf"
    and r: "sharing (threshold cf) r receiver" "map point receiver = points cf"
    and m: "sharing (threshold cf) m minimum" "map point minimum = points cf"
    and am: "sharing (threshold cf) am amount" "map point amount = points cf"
    and pair: "generate_bit_extract_pair P F B cf cb g = Ok (pair, g1)"
    and range: "pf_into P (s 0) < 2 ^ (pf_bit_size P - 1)" "pf_into P (m 0) < 2 ^ (pf_bit_size P - 1)"
      "pf_into P (s 0) - pf_into P (m 0) \<le> pf_modulus P - 2 ^ (pf_bit_size P - 1)"
  shows "\<exists>sn rn g2. conditional_transfer_strictly_greater P F B hmac R gen_bool sender receiver minimum amount pair cf cb g1
             = Ok ((sn, rn), g2) \<and>
           committee_reconstruct cf sn = Ok (if pf_into P (m 0) < pf_into P (s 0) then s 0 - am 0 else s 0) \<and>
           committee_reconstruct cf rn = Ok (if pf_into P (m 0) < pf_into P (s 0) then r 0 + am 0 else r 0)"
proof -
  have sv: "val_sharing (threshold cf) (points cf) (s 0) sender" and rv: "val_sharing (threshold cf) (points cf) (r 0) receiver"
    and mv: "val_sharing (threshold cf) (points cf) (m 0) minimum" and av: "val_sharing (threshold cf) (points cf) (am 0) amount"
    unfolding val_sharing_sharing using s r m am by blast+
  show ?thesis
    by (rule conditional_transfer_val [OF P cf cb maj sv rv mv av pair range, of hmac R gen_bool])
      (blast intro: val_sharing_committee_reconstruct [OF cf(1)])
qed

theorem conditional_transfer_correct_witness:
  "\<exists>s r m am g1 g2 g3 g4 pair g5 sn rn g6.
     committee_split (prime_share_ops zp_draw) (zp_committee 2 5) 100 0 = Ok (s, g1) \<and>
     committee_split (prime_share_ops zp_draw) (zp_committee 2 5) 20 g1 = Ok (r, g2) \<and>
     committee_split (prime_share_ops zp_draw) (zp_committee 2 5) 49 g2 = Ok (m, g3) \<and>
     committee_split (prime_share_ops zp_draw) (zp_committee 2 5) 50 g3 = Ok (am, g4) \<and>
     generate_bit_extract_pair zp_ops (prime_share_ops zp_draw) (f2_ops counter_rng) (zp_committee 2 5)
       (f2_committee 2 5) g4 = Ok (pair, g5) \<and>
     conditional_transfer_strictly_greater zp_ops (prime_share_ops zp_draw) (f2_ops counter_rng) (@) counter_rng
       (\<lambda>g. (even g, Suc g)) s r m am pair (zp_committee 2 5) (f2_committee 2 5) g5 = Ok ((sn, rn), g6) \<and>
     committee_reconstruct (zp_committee 2 5) sn = Ok (100 - 50) \<and>
     committee_reconstruct (zp_committee 2 5) rn = Ok (20 + 50)"
proof -
  let ?F = "prime_share_ops zp_draw" and ?cf = "zp_committee 2 5" and ?B = "f2_ops counter_rng" and ?cb = "f2_committee 2 5"
  obtain s fs g1 where s: "committee_split ?F ?cf 100 0 = Ok (s, g1)"
    "sharing (threshold ?cf) fs s" "fs 0 = 100" "map point s = points ?cf"
    by (rule zp_split [of 2 5 100 0]) simp_all
  obtain r fr g2 where r: "committee_split ?F ?cf 20 g1 = Ok (r, g2)"
    "sharing (threshold ?cf) fr r" "fr 0 = 20" "map point r = points ?cf"
    by (rule zp_split [of 2 5 20 g1]) simp_all
  obtain m fm g3 where m: "committee_split ?F ?cf 49 g2 = Ok (m, g3)"
    "sharing (threshold ?cf) fm m" "fm 0 = 49" "map point m = points ?cf"
    by (rule zp_split [of 2 5 49 g2]) simp_all
  obtain am fa g4 where am: "committee_split ?F ?cf 50 g3 = Ok (am, g4)"
    "sharing (threshold ?cf) fa am" "fa 0 = 50" "map point am = points ?cf"
    by (rule zp_split [of 2 5 50 g3]) simp_all
  have cf: "good_committee ?cf" and cb: "boolean_committee ?cb"
    by (simp_all add: good_zp_committee boolean_f2_committee)
  obtain pair g5 where pair: "generate_bit_extract_pair zp_ops ?F ?B ?cf ?cb g4 = Ok (pair, g5)"
    by (rule boolean_committee.generate_bit_extract_pair_for [OF cb cf, of zp_ops ?F ?B g4])
  have "pf_into zp_ops (fs 0) = 100" "pf_into zp_ops (fm 0) = 49" "pf_bit_size zp_ops = 30" "pf_modulus zp_ops = 998244353"
    using zp.into_small [of 100] zp.into_small [of 49] s(3) m(3) by (simp_all add: zp_ops_def PLAINTEXT_MODULUS_def)
  with conditional_transfer_correct [OF zp.prime_field_axioms cf _ _ cb _ s(2,4) r(2,4) m(2,4) am(2,4) pair,
      of "(@)" counter_rng "\<lambda>g. (even g, Suc g)"]
  show ?thesis using s(1,3) r(1,3) m(1) am(1,3) pair by auto
qed

end
