(* ===== verification/Handoff_Session.thy ===== *)
theory Handoff_Session
  imports Handoff_Math
begin

text \<open>
  \<open>protocol/src/handoff.rs\<close>: the dealer-mediated handoff as a session that consumes itself at every
  stage: the source committee computes masked shares, the dealer checks and reconstructs them, the
  destination committee applies the difference.

  The first group of lemmas runs a session step by step on sharings; the step relation
  \<open>session_step\<close> then says what every reachable session holds, that each step advances the phase,
  and that no reachable session is stuck before its output.
\<close>

type_synonym ident = bytes

datatype handoff_error =
    HInvalidState
  | HShareCountMismatch
  | HInsufficientShares nat nat
  | HDuplicateSender ident
  | HWrongCommittee
  | HWrongDegree
  | HWrongExecution
  | HInvalidShareIndex nat
  | HCrypto mpc_error

record 'f masked_share_submission =
  sub_execution_id :: ident
  sub_from_committee :: ident
  sub_to_committee :: ident
  sub_sender :: ident
  sub_share_index :: nat
  sub_degree :: nat
  sub_masked_share :: 'f

record 'f masked_delta_broadcast =
  bc_execution_id :: ident
  bc_from_committee :: ident
  bc_to_committee :: ident
  bc_dealer :: ident
  bc_delta :: 'f

datatype 'f handoff_phase =
    Initialized "'f shamir_share list" "'f handoff_mask"
  | Collecting "'f masked_share_submission list" "'f shamir_share list"
  | Reconstructed 'f "'f shamir_share list"
  | OutputReady "'f shamir_share list"

record 'f handoff_session =
  hs_execution_id :: ident
  hs_from :: ident
  hs_to :: ident
  hs_src :: "'f committee"
  hs_dst :: "'f committee"
  hs_source_degree :: nat
  hs_dealer :: ident
  hs_source_senders :: "ident list"
  hs_phase :: "'f handoff_phase"

definition handoff_session_new ::
  "ident \<Rightarrow> ident \<Rightarrow> ident \<Rightarrow> 'f committee \<Rightarrow> 'f committee \<Rightarrow> 'f shamir_share list \<Rightarrow> 'f handoff_mask \<Rightarrow>
     ident list \<Rightarrow> ident \<Rightarrow> (handoff_error, 'f handoff_session) res"
where
  "handoff_session_new execution_id from to src dst x_shares m source_senders dealer =
     (if length x_shares \<noteq> committee_size src \<or> length (hm_source m) \<noteq> committee_size src
         \<or> length source_senders \<noteq> committee_size src
      then Err HShareCountMismatch
      else if length (hm_destination m) \<noteq> committee_size dst then Err HShareCountMismatch
      else Ok \<lparr>hs_execution_id = execution_id, hs_from = from, hs_to = to, hs_src = src, hs_dst = dst,
               hs_source_degree = hm_source_degree m, hs_dealer = dealer,
               hs_source_senders = source_senders, hs_phase = Initialized x_shares m\<rparr>)"

definition source_compute_masked_shares ::
  "'f::field handoff_session \<Rightarrow> (handoff_error, 'f handoff_session) res"
where
  "source_compute_masked_shares s =
     (case hs_phase s of
        Initialized x_shares m \<Rightarrow>
          bindR (mapE HCrypto (masked_difference_shares x_shares (hm_source m))) (\<lambda>delta_shares.
          bindR (mapR (\<lambda>(i, d). bindR (nthR (hs_source_senders s) i) (\<lambda>sender.
                   Ok \<lparr>sub_execution_id = hs_execution_id s, sub_from_committee = hs_from s,
                       sub_to_committee = hs_to s, sub_sender = sender, sub_share_index = i,
                       sub_degree = hs_source_degree s, sub_masked_share = share_value d\<rparr>))
                 (List.enumerate 0 delta_shares)) (\<lambda>submissions.
            Ok (s\<lparr>hs_phase := Collecting submissions (hm_destination m)\<rparr>)))
      | _ \<Rightarrow> Err HInvalidState)"

text \<open>The dealer's checks, in the order of the loop; \<open>seen\<close> is the set of senders so far.\<close>

definition validate_submission ::
  "ident \<Rightarrow> ident \<Rightarrow> ident \<Rightarrow> nat \<Rightarrow> nat \<Rightarrow> 'f masked_share_submission \<Rightarrow> ident set \<Rightarrow> (handoff_error, ident set) res"
where
  "validate_submission execution_id from to degree n sub seen =
     (if sub_execution_id sub \<noteq> execution_id then Err HWrongExecution
      else if sub_from_committee sub \<noteq> from \<or> sub_to_committee sub \<noteq> to then Err HWrongCommittee
      else if sub_degree sub \<noteq> degree then Err HWrongDegree
      else if n \<le> sub_share_index sub then Err (HInvalidShareIndex (sub_share_index sub))
      else if sub_sender sub \<in> seen then Err (HDuplicateSender (sub_sender sub))
      else Ok (insert (sub_sender sub) seen))"

definition open_submissions ::
  "ident \<Rightarrow> ident \<Rightarrow> ident \<Rightarrow> nat \<Rightarrow> 'f::field committee \<Rightarrow> nat \<Rightarrow> 'f masked_share_submission list \<Rightarrow>
     (handoff_error, 'f) res"
where
  "open_submissions execution_id from to degree src required submissions =
     (if length submissions < required then Err (HInsufficientShares (length submissions) required)
      else bindR (foldR (validate_submission execution_id from to degree (committee_size src)) submissions {}) (\<lambda>_.
           bindR (mapR (\<lambda>s. nthR (points src) (sub_share_index s)) submissions) (\<lambda>ps.
             mapE HCrypto (reconstruct_from_parts ps (map sub_masked_share submissions) required))))"

definition dealer_reconstruct :: "'f::field handoff_session \<Rightarrow> (handoff_error, 'f handoff_session) res" where
  "dealer_reconstruct s =
     (case hs_phase s of
        Collecting submissions dst_mask \<Rightarrow>
          bindR (open_submissions (hs_execution_id s) (hs_from s) (hs_to s) (hs_source_degree s) (hs_src s)
                   (threshold (hs_src s) + 1) submissions)
            (\<lambda>delta. Ok (s\<lparr>hs_phase := Reconstructed delta dst_mask\<rparr>))
      | _ \<Rightarrow> Err HInvalidState)"

definition dealer_broadcast :: "'f handoff_session \<Rightarrow> (handoff_error, 'f masked_delta_broadcast) res" where
  "dealer_broadcast s =
     (case hs_phase s of
        Reconstructed delta _ \<Rightarrow>
          Ok \<lparr>bc_execution_id = hs_execution_id s, bc_from_committee = hs_from s, bc_to_committee = hs_to s,
              bc_dealer = hs_dealer s, bc_delta = delta\<rparr>
      | _ \<Rightarrow> Err HInvalidState)"

definition destination_apply :: "'f::field handoff_session \<Rightarrow> (handoff_error, 'f handoff_session) res" where
  "destination_apply s =
     (case hs_phase s of
        Reconstructed delta dst_mask \<Rightarrow> Ok (s\<lparr>hs_phase := OutputReady (apply_difference delta dst_mask)\<rparr>)
      | _ \<Rightarrow> Err HInvalidState)"

definition finalize :: "'f handoff_session \<Rightarrow> (handoff_error, 'f shamir_share list) res" where
  "finalize s = (case hs_phase s of OutputReady output \<Rightarrow> Ok output | _ \<Rightarrow> Err HInvalidState)"

section \<open>What the dealer accepts\<close>

definition acceptable ::
  "ident \<Rightarrow> ident \<Rightarrow> ident \<Rightarrow> nat \<Rightarrow> nat \<Rightarrow> 'f masked_share_submission \<Rightarrow> bool"
where
  "acceptable execution_id from to degree n sub \<longleftrightarrow>
     sub_execution_id sub = execution_id \<and> sub_from_committee sub = from \<and> sub_to_committee sub = to \<and>
     sub_degree sub = degree \<and> sub_share_index sub < n"

lemma validate_submission_Ok:
  "validate_submission e a b d n sub seen = Ok seen' \<longleftrightarrow>
   acceptable e a b d n sub \<and> sub_sender sub \<notin> seen \<and> seen' = insert (sub_sender sub) seen"
  by (auto simp: validate_submission_def acceptable_def)

lemma validate_submission_not_Panic [simp]: "validate_submission e a b d n sub seen \<noteq> Panic"
  by (simp add: validate_submission_def)

lemma validate_all_Ok:
  "foldR (validate_submission e a b d n) subs seen = Ok seen' \<longleftrightarrow>
   (\<forall>sub \<in> set subs. acceptable e a b d n sub \<and> sub_sender sub \<notin> seen) \<and> distinct (map sub_sender subs) \<and>
   seen' = sub_sender ` set subs \<union> seen"
  by (induction subs arbitrary: seen) (auto simp: validate_submission_Ok image_iff)

lemma validate_all_not_Panic [simp]: "foldR (validate_submission e a b d n) subs seen \<noteq> Panic"
  by (induction subs arbitrary: seen) (auto simp: bindR_eq_Panic)

lemma open_submissions_Ok:
  "open_submissions e a b d src k subs = Ok delta \<longleftrightarrow>
   k \<le> length subs \<and> (\<forall>sub \<in> set subs. acceptable e a b d (committee_size src) sub) \<and>
   distinct (map sub_sender subs) \<and>
   reconstruct_from_parts (map (\<lambda>s. points src ! sub_share_index s) subs) (map sub_masked_share subs) k = Ok delta"
  (is "?l \<longleftrightarrow> ?r")
proof -
  let ?V = "foldR (validate_submission e a b d (committee_size src)) subs {}"
  have "mapR (\<lambda>s. nthR (points src) (sub_share_index s)) subs = (Ok (map (\<lambda>s. points src ! sub_share_index s) subs) :: (handoff_error, _) res)"
    if "\<forall>sub \<in> set subs. acceptable e a b d (committee_size src) sub"
    using that by (intro mapR_Ok) (simp add: nthR_in_range acceptable_def committee_size_def)
  then show ?thesis
    by (auto simp: open_submissions_def validate_all_Ok)
qed

lemma mapE_eq_Panic [simp]: "mapE h r = Panic \<longleftrightarrow> r = Panic"
  by (cases r) simp_all

lemma reconstruct_from_parts_total [simp]: "reconstruct_from_parts ps vals k \<noteq> Panic"
proof (cases "length ps = length vals \<and> k \<le> length ps \<and> distinct ps")
  case True
  then show ?thesis by (simp add: reconstruct_from_parts_def interpolate_lagrange)
next
  case False
  then show ?thesis by (auto simp: reconstruct_from_parts_def interpolate_def)
qed

lemma open_submissions_total: "open_submissions e a b d src k subs \<noteq> Panic"
proof -
  have "mapR (\<lambda>s. nthR (points src) (sub_share_index s)) subs = (Ok (map (\<lambda>s. points src ! sub_share_index s) subs) :: (handoff_error, _) res)"
    if "foldR (validate_submission e a b d (committee_size src)) subs {} = Ok u" for u
    using that by (intro mapR_Ok) (auto simp: validate_all_Ok nthR_in_range acceptable_def committee_size_def)
  then show ?thesis
    by (auto simp: open_submissions_def bindR_eq_Panic)
qed

lemma reconstruct_parts_eq [simp]:
  "reconstruct_from_parts (map point xs) (map share_value xs) k = reconstruct xs k"
  by (simp add: reconstruct_from_parts_def reconstruct_def)

section \<open>The submissions of an honest source committee\<close>

definition submissions_of ::
  "ident \<Rightarrow> ident \<Rightarrow> ident \<Rightarrow> nat \<Rightarrow> ident list \<Rightarrow> 'f shamir_share list \<Rightarrow> 'f masked_share_submission list"
where
  "submissions_of e a b d senders ds =
     map (\<lambda>(i, s). \<lparr>sub_execution_id = e, sub_from_committee = a, sub_to_committee = b, sub_sender = senders ! i,
            sub_share_index = i, sub_degree = d, sub_masked_share = share_value s\<rparr>) (List.enumerate 0 ds)"

lemma submissions_of_run:
  assumes "length ds \<le> length senders"
  shows "mapR (\<lambda>(i, s). bindR (nthR senders i) (\<lambda>sender.
            Ok \<lparr>sub_execution_id = e, sub_from_committee = a, sub_to_committee = b, sub_sender = sender,
                sub_share_index = i, sub_degree = d, sub_masked_share = share_value s\<rparr>)) (List.enumerate 0 ds)
         = Ok (submissions_of e a b d senders ds)"
  unfolding submissions_of_def
  by (rule mapR_Ok) (use assms in \<open>auto simp: enumerate_eq_map_nth nthR_in_range\<close>)

lemma submissions_of_simps [simp]:
  "length (submissions_of e a b d senders ds) = length ds"
  "map sub_masked_share (submissions_of e a b d senders ds) = map share_value ds"
  "map sub_share_index (submissions_of e a b d senders ds) = [0..<length ds]"
  by (auto simp: submissions_of_def enumerate_eq_map_nth intro!: nth_equalityI)

lemma submissions_of_senders:
  "length ds = length senders \<Longrightarrow> map sub_sender (submissions_of e a b d senders ds) = senders"
  by (simp add: submissions_of_def enumerate_eq_map_nth comp_def map_nth)

lemma submissions_of_acceptable:
  "sub \<in> set (submissions_of e a b d senders ds) \<Longrightarrow> acceptable e a b d (length ds) sub"
  by (auto simp: submissions_of_def enumerate_eq_map_nth acceptable_def)

lemma submissions_of_points:
  "map point ds = ps \<Longrightarrow> map (\<lambda>s. ps ! sub_share_index s) (submissions_of e a b d senders ds) = map point ds"
  by (rule nth_equalityI) (auto simp: submissions_of_def enumerate_eq_map_nth)

text \<open>Opening honest submissions is reconstructing the masked shares.\<close>

lemma open_submissions_of:
  assumes "map point ds = points src" "length senders = length ds" "distinct senders" "k \<le> length ds"
  shows "open_submissions e a b d src k (submissions_of e a b d senders ds) = mapE HCrypto (reconstruct ds k)"
proof -
  let ?subs = "submissions_of e a b d senders ds"
  have n: "committee_size src = length ds" using assms(1) by (metis committee_size_def length_map)
  have "foldR (validate_submission e a b d (committee_size src)) ?subs {} = Ok (sub_sender ` set ?subs \<union> {})"
    unfolding validate_all_Ok using assms(2,3) submissions_of_acceptable n
    by (simp add: submissions_of_senders) blast
  moreover have "mapR (\<lambda>s. nthR (points src) (sub_share_index s)) ?subs = (Ok (map point ds) :: (handoff_error, _) res)"
  proof -
    have "mapR (\<lambda>s. nthR (points src) (sub_share_index s)) ?subs =
        (Ok (map (\<lambda>s. points src ! sub_share_index s) ?subs) :: (handoff_error, _) res)"
      using submissions_of_acceptable n
      by (intro mapR_Ok) (fastforce simp: nthR_in_range acceptable_def committee_size_def)
    then show ?thesis using submissions_of_points [OF assms(1)] by simp
  qed
  ultimately show ?thesis using assms(4) by (simp add: open_submissions_def)
qed

lemma masked_difference_points:
  "masked_difference_shares xs ys = Ok ds \<Longrightarrow> map point ds = map point xs \<and> length ds = length xs"
proof -
  assume ds: "masked_difference_shares xs ys = Ok ds"
  then have "length xs = length ys" "combine_shares (-) xs ys = Ok ds"
    by (auto simp: masked_difference_shares_def split: if_splits)
  then show ?thesis
    by (induction xs ys arbitrary: ds rule: list_induct2) (auto simp: combine_shares_def split: if_splits)
qed

text \<open>A whole session is \<open>basic_handoff\<close>.\<close>

definition run_session :: "'f::field handoff_session \<Rightarrow> (handoff_error, 'f shamir_share list) res" where
  "run_session s =
     bindR (source_compute_masked_shares s) (\<lambda>s. bindR (dealer_reconstruct s) (\<lambda>s. bindR (destination_apply s) finalize))"

lemma run_session_eq:
  assumes new: "handoff_session_new e a b src dst x m senders dealer = Ok s"
    and x: "map point x = points src" and "distinct senders" "threshold src < committee_size src"
  shows "run_session s = mapE HCrypto (basic_handoff x m src dst)"
proof -
  have len: "length x = committee_size src" "length (hm_source m) = committee_size src" "length senders = committee_size src"
    "length (hm_destination m) = committee_size dst"
    and s: "s = \<lparr>hs_execution_id = e, hs_from = a, hs_to = b, hs_src = src, hs_dst = dst,
               hs_source_degree = hm_source_degree m, hs_dealer = dealer,
               hs_source_senders = senders, hs_phase = Initialized x m\<rparr>"
    using new by (auto simp: handoff_session_new_def split: if_splits)
  show ?thesis
  proof (cases "masked_difference_shares x (hm_source m)")
    case (Ok ds)
    note ds = masked_difference_points [OF this]
    have opened: "open_submissions e a b (hm_source_degree m) src (Suc (threshold src)) (submissions_of e a b (hm_source_degree m) senders ds)
        = mapE HCrypto (reconstruct ds (Suc (threshold src)))"
      using ds x len assms(3,4) by (intro open_submissions_of) auto
    have run: "source_compute_masked_shares s =
        Ok (s\<lparr>hs_phase := Collecting (submissions_of e a b (hm_source_degree m) senders ds) (hm_destination m)\<rparr>)"
      using submissions_of_run [of ds senders e a b "hm_source_degree m"] ds len
      by (simp add: source_compute_masked_shares_def s Ok)
    show ?thesis
      unfolding run_session_def run bindR.simps
      by (cases "reconstruct ds (Suc (threshold src))")
        (simp_all add: dealer_reconstruct_def s opened destination_apply_def finalize_def basic_handoff_def len Ok)
  qed (simp_all add: run_session_def source_compute_masked_shares_def s basic_handoff_def len)
qed

section \<open>The session as a state machine\<close>

inductive session_step :: "'f::field handoff_session \<Rightarrow> 'f handoff_session \<Rightarrow> bool" where
  Compute: "source_compute_masked_shares s = Ok s' \<Longrightarrow> session_step s s'"
| Reconstruct: "dealer_reconstruct s = Ok s' \<Longrightarrow> session_step s s'"
| Apply: "destination_apply s = Ok s' \<Longrightarrow> session_step s s'"

inductive_cases session_stepE: "session_step s s'"

fun phase_rank :: "'f handoff_phase \<Rightarrow> nat" where
  "phase_rank (Initialized _ _) = 0"
| "phase_rank (Collecting _ _) = 1"
| "phase_rank (Reconstructed _ _) = 2"
| "phase_rank (OutputReady _) = 3"

lemma session_step_rank: "session_step s s' \<Longrightarrow> phase_rank (hs_phase s') = Suc (phase_rank (hs_phase s))"
  by (induction rule: session_step.induct)
    (auto simp: source_compute_masked_shares_def dealer_reconstruct_def destination_apply_def split: handoff_phase.splits)

lemma session_step_deterministic: "session_step s s' \<Longrightarrow> session_step s s'' \<Longrightarrow> s' = s''"
  by (auto elim!: session_stepE simp: source_compute_masked_shares_def dealer_reconstruct_def destination_apply_def
      split: handoff_phase.splits)

text \<open>
  What a session of a sharing \<open>f\<close> and a mask \<open>u\<close>, \<open>v\<close> holds in each phase; the first line is the part
  that no step changes.
\<close>

fun phase_inv :: "('f::field \<Rightarrow> 'f) \<Rightarrow> ('f \<Rightarrow> 'f) \<Rightarrow> ('f \<Rightarrow> 'f) \<Rightarrow> 'f handoff_session \<Rightarrow> 'f handoff_phase \<Rightarrow> bool" where
  "phase_inv f u v s (Initialized xs m) \<longleftrightarrow>
     xs = on_points f (points (hs_src s)) \<and> hm_source m = on_points u (points (hs_src s)) \<and>
     hm_destination m = on_points v (points (hs_dst s))"
| "phase_inv f u v s (Collecting subs dm) \<longleftrightarrow>
     subs = submissions_of (hs_execution_id s) (hs_from s) (hs_to s) (hs_source_degree s) (hs_source_senders s)
       (on_points (\<lambda>x. f x - u x) (points (hs_src s))) \<and> dm = on_points v (points (hs_dst s))"
| "phase_inv f u v s (Reconstructed delta dm) \<longleftrightarrow> delta = f 0 - u 0 \<and> dm = on_points v (points (hs_dst s))"
| "phase_inv f u v s (OutputReady out) \<longleftrightarrow> out = on_points (\<lambda>x. v x + (f 0 - u 0)) (points (hs_dst s))"

definition session_inv :: "('f::field \<Rightarrow> 'f) \<Rightarrow> ('f \<Rightarrow> 'f) \<Rightarrow> ('f \<Rightarrow> 'f) \<Rightarrow> 'f committee \<Rightarrow> 'f committee \<Rightarrow> 'f handoff_session \<Rightarrow> bool" where
  "session_inv f u v src dst s \<longleftrightarrow>
     hs_src s = src \<and> hs_dst s = dst \<and> distinct (hs_source_senders s) \<and>
     length (hs_source_senders s) = committee_size src \<and> phase_inv f u v s (hs_phase s)"

lemma session_inv_step:
  assumes inv: "session_inv f u v src dst s" and src: "good_committee src"
    and f: "pdeg (threshold src) f" "pdeg (threshold src) u"
    and phase: "phase_rank (hs_phase s) \<noteq> 3"
  shows "\<exists>s'. session_step s s' \<and> session_inv f u v src dst s'"
proof -
  have c: "hs_src s = src" "hs_dst s = dst" "distinct (hs_source_senders s)" "length (hs_source_senders s) = length (points src)"
    using inv by (simp_all add: session_inv_def committee_size_def)
  show ?thesis
  proof (cases "hs_phase s")
    case (Initialized xs m)
    then have p: "xs = on_points f (points src)" "hm_source m = on_points u (points src)" "hm_destination m = on_points v (points dst)"
      using inv by (simp_all add: session_inv_def)
    have "source_compute_masked_shares s = Ok (s\<lparr>hs_phase := Collecting
        (submissions_of (hs_execution_id s) (hs_from s) (hs_to s) (hs_source_degree s) (hs_source_senders s)
          (on_points (\<lambda>x. f x - u x) (points src))) (on_points v (points dst))\<rparr>)"
      using c by (simp add: source_compute_masked_shares_def Initialized p submissions_of_run)
    note run = this
    show ?thesis
      by (rule exI, rule conjI, rule session_step.Compute [OF run]) (use c in \<open>simp add: session_inv_def committee_size_def\<close>)
  next
    case (Collecting subs dm)
    then have p: "subs = submissions_of (hs_execution_id s) (hs_from s) (hs_to s) (hs_source_degree s) (hs_source_senders s)
          (on_points (\<lambda>x. f x - u x) (points src))" "dm = on_points v (points dst)"
      using inv c by (simp_all add: session_inv_def)
    have rec: "reconstruct (on_points (\<lambda>x. f x - u x) (points src)) (Suc (threshold src)) = Ok (f 0 - u 0)"
      by (rule reconstruct_on_points [of "threshold src"])
        (use src f in \<open>auto simp: good_committee_def good_points_def committee_size_def intro: pdeg_diff\<close>)
    have size: "Suc (threshold src) \<le> length (points src)"
      using src by (simp add: good_committee_def committee_size_def)
    have "dealer_reconstruct s = Ok (s\<lparr>hs_phase := Reconstructed (f 0 - u 0) dm\<rparr>)"
      using c size by (simp add: dealer_reconstruct_def Collecting p(1) rec open_submissions_of)
    note run = this
    show ?thesis
      by (rule exI, rule conjI, rule session_step.Reconstruct [OF run]) (use c p(2) in \<open>simp add: session_inv_def committee_size_def\<close>)
  next
    case (Reconstructed delta dm)
    then have p: "delta = f 0 - u 0" "dm = on_points v (points dst)"
      using inv c by (simp_all add: session_inv_def)
    have "destination_apply s = Ok (s\<lparr>hs_phase := OutputReady (on_points (\<lambda>x. v x + (f 0 - u 0)) (points dst))\<rparr>)"
      by (simp add: destination_apply_def Reconstructed p)
    note run = this
    show ?thesis
      by (rule exI, rule conjI, rule session_step.Apply [OF run]) (use c in \<open>simp add: session_inv_def committee_size_def\<close>)
  qed (use phase in simp)
qed

lemma session_inv_reachable:
  assumes "session_step\<^sup>*\<^sup>* s0 s" "session_inv f u v src dst s0" "good_committee src"
    "pdeg (threshold src) f" "pdeg (threshold src) u"
  shows "session_inv f u v src dst s"
  using assms(1)
proof (induction rule: rtranclp_induct)
  case (step y z)
  have "phase_rank (hs_phase z) \<le> 3" by (cases "hs_phase z") simp_all
  then have "phase_rank (hs_phase y) \<noteq> 3" using session_step_rank [OF step(2)] by simp
  from session_inv_step [OF step(3) assms(3-5) this] session_step_deterministic [OF step(2)]
  show ?case by blast
qed (use assms(2) in simp)

lemma session_inv_run:
  assumes "session_inv f u v src dst s" "good_committee src" "pdeg (threshold src) f" "pdeg (threshold src) u"
    and "phase_rank (hs_phase s) + k = 3"
  shows "\<exists>s'. (session_step ^^ k) s s' \<and> phase_rank (hs_phase s') = 3 \<and> session_inv f u v src dst s'"
  using assms(1,5)
proof (induction k arbitrary: s)
  case (Suc k)
  then obtain t where t: "session_step s t" "session_inv f u v src dst t"
    using session_inv_step [OF Suc.prems(1) assms(2-4)] by auto
  have "phase_rank (hs_phase t) + k = 3" using session_step_rank [OF t(1)] Suc.prems(2) by simp
  from Suc.IH [OF t(2) this] t(1) show ?case by (metis relpowp_Suc_I2)
qed auto

lemma session_new_inv:
  assumes new: "handoff_session_new e a b src dst x m senders dealer = Ok s"
    and x: "sharing (threshold src) f x" "map point x = points src"
    and m: "mask_pair (points src) (points dst) d1 d2 r m" and "distinct senders"
  obtains u v where "session_inv f u v src dst s" "pdeg d1 u" "pdeg d2 v" "u 0 = r" "v 0 = r"
    "phase_rank (hs_phase s) = 0"
proof -
  obtain u v where u: "hm_source m = on_points u (points src)" "pdeg d1 u" "u 0 = r"
    and v: "hm_destination m = on_points v (points dst)" "pdeg d2 v" "v 0 = r"
    using mask_pair_on_points [OF m] by blast
  have "x = on_points f (points src)" by (rule sharing_canonical [OF x])
  then have "session_inv f u v src dst s" "phase_rank (hs_phase s) = 0"
    using new assms(5) u v by (auto simp: handoff_session_new_def session_inv_def split: if_splits)
  then show ?thesis using that u v by blast
qed

text \<open>A concrete handoff from a committee of three to one of four.\<close>

lemma f2_session:
  obtains x f g1 m g2 s where
    "committee_split (f2_ops counter_rng) (f2_committee 1 3) (F2 42) 0 = Ok (x, g1)"
    "sharing (threshold (f2_committee 1 3)) f x" "f 0 = F2 42" "map point x = points (f2_committee 1 3)"
    "reshare_pair (f2_ops counter_rng) (\<lambda>k n. k @ n) counter_rng (f2_committee 1 3) 1 (f2_committee 2 4) 2 [1] g1 = Ok (m, g2)"
    "handoff_session_new [7] [1] [2] (f2_committee 1 3) (f2_committee 2 4) x m [[3], [4], [5]] [9] = Ok s"
proof -
  obtain x f g1 where x: "committee_split (f2_ops counter_rng) (f2_committee 1 3) (F2 42) 0 = Ok (x, g1)"
    "sharing (threshold (f2_committee 1 3)) f x" "f 0 = F2 42" "map point x = points (f2_committee 1 3)"
    by (rule f2_split [of 1 3 "F2 42" 0]) simp_all
  obtain m g2 where m: "reshare_pair (f2_ops counter_rng) (\<lambda>k n. k @ n) counter_rng (f2_committee 1 3) 1
      (f2_committee 2 4) 2 [1] g1 = Ok (m, g2)"
    by (rule f2_reshare [of 1 3 2 4 "\<lambda>k n. k @ n" 1 2 "[1]" g1]) simp_all
  obtain r where r: "mask_pair (points (f2_committee 1 3)) (points (f2_committee 2 4)) 1 2 r m"
    using reshare_pair_mask(1) [OF good_f2_committee good_f2_committee m] by auto
  have len: "length (points (f2_committee t n)) = n" for t n by (simp add: f2_committee_def)
  obtain u v where "hm_source m = on_points u (points (f2_committee 1 3))" "hm_destination m = on_points v (points (f2_committee 2 4))"
    using mask_pair_on_points [OF r] by blast
  then have "length (hm_source m) = 3" "length (hm_destination m) = 4" by (simp_all add: len)
  moreover have "length x = 3" using arg_cong [OF x(4), of length] by (simp add: len)
  ultimately have "\<exists>s. handoff_session_new [7] [1] [2] (f2_committee 1 3) (f2_committee 2 4) x m [[3], [4], [5]] [9] = Ok s"
    by (simp add: handoff_session_new_def)
  then show ?thesis using that [OF x m] by blast
qed

section \<open>Properties\<close>

text \<open>The session implements \<open>basic_handoff\<close>: running its stages in order gives the result of the
  one-shot function, errors included, for any shares and any mask. The source shares must lie at the
  committee's points and the senders must be distinct, which the session's constructor does not check.\<close>

theorem handoff_session_refines_basic_handoff:
  assumes "handoff_session_new e a b src dst x m senders dealer = Ok s"
    and "map point x = points src" and "distinct senders" and "threshold src < committee_size src"
  shows "bindR (source_compute_masked_shares s) (\<lambda>s. bindR (dealer_reconstruct s) (\<lambda>s.
           bindR (destination_apply s) finalize)) = mapE HCrypto (basic_handoff x m src dst)"
  using run_session_eq [OF assms] by (simp add: run_session_def)

theorem handoff_session_refines_basic_handoff_witness:
  "\<exists>x g1 m g2 s.
     committee_split (f2_ops counter_rng) (f2_committee 1 3) (F2 42) 0 = Ok (x, g1) \<and>
     reshare_pair (f2_ops counter_rng) (\<lambda>k n. k @ n) counter_rng (f2_committee 1 3) 1 (f2_committee 2 4) 2 [1] g1 = Ok (m, g2) \<and>
     handoff_session_new [7] [1] [2] (f2_committee 1 3) (f2_committee 2 4) x m [[3], [4], [5]] [9] = Ok s \<and>
     bindR (source_compute_masked_shares s) (\<lambda>s. bindR (dealer_reconstruct s) (\<lambda>s. bindR (destination_apply s) finalize))
       = mapE HCrypto (basic_handoff x m (f2_committee 1 3) (f2_committee 2 4))"
proof -
  obtain x f g1 m g2 s where
    s: "committee_split (f2_ops counter_rng) (f2_committee 1 3) (F2 42) 0 = Ok (x, g1)"
    "map point x = points (f2_committee 1 3)"
    "reshare_pair (f2_ops counter_rng) (\<lambda>k n. k @ n) counter_rng (f2_committee 1 3) 1 (f2_committee 2 4) 2 [1] g1 = Ok (m, g2)"
    "handoff_session_new [7] [1] [2] (f2_committee 1 3) (f2_committee 2 4) x m [[3], [4], [5]] [9] = Ok s"
    by (rule f2_session)
  show ?thesis using handoff_session_refines_basic_handoff [OF s(4,2)] s(1,3,4) by simp
qed

text \<open>C22. In every reachable session the broadcast delta is the difference of the secret and the mask's
  secret and the destination mask shares that secret; an output reconstructs to the handed-over secret.\<close>

theorem handoff_session_safe:
  assumes good: "good_committee src" "good_committee dst"
    and x: "sharing (threshold src) f x" "map point x = points src"
    and m: "reshare_pair F hmac R src (threshold src) dst (threshold dst) nonce g = Ok (m, g')"
    and new: "handoff_session_new e a b src dst x m senders dealer = Ok s0" and dist: "distinct senders"
    and reach: "session_step\<^sup>*\<^sup>* s0 s"
  shows "case hs_phase s of
           Reconstructed delta dst_mask \<Rightarrow> committee_reconstruct dst dst_mask = Ok (f 0 - delta)
         | OutputReady output \<Rightarrow> committee_reconstruct dst output = Ok (f 0)
         | _ \<Rightarrow> True"
proof -
  obtain r where r: "mask_pair (points src) (points dst) (threshold src) (threshold dst) r m"
    using reshare_pair_mask(1) [OF good m] by blast
  obtain u v where uv: "session_inv f u v src dst s0" "pdeg (threshold src) u" "pdeg (threshold dst) v" "u 0 = r" "v 0 = r"
    by (rule session_new_inv [OF new x r dist])
  have f: "pdeg (threshold src) f" using x(1) by (simp add: sharing_def)
  have inv: "session_inv f u v src dst s" by (rule session_inv_reachable [OF reach uv(1) good(1) f uv(2)])
  have rec: "committee_reconstruct dst (on_points h (points dst)) = Ok (h 0)" if "pdeg (threshold dst) h" for h
    using that by (intro committee_reconstruct_sharing [OF good(2)]) simp_all
  have "pdeg (threshold dst) (\<lambda>x. v x + (f 0 - u 0))" using uv(3) by (intro pdeg_add pdeg_const)
  with inv uv(3-5) rec show ?thesis by (auto simp: session_inv_def split: handoff_phase.splits)
qed

theorem handoff_session_safe_witness:
  "\<exists>x g1 m g2 s0 s out.
     committee_split (f2_ops counter_rng) (f2_committee 1 3) (F2 42) 0 = Ok (x, g1) \<and>
     reshare_pair (f2_ops counter_rng) (\<lambda>k n. k @ n) counter_rng (f2_committee 1 3) 1 (f2_committee 2 4) 2 [1] g1 = Ok (m, g2) \<and>
     handoff_session_new [7] [1] [2] (f2_committee 1 3) (f2_committee 2 4) x m [[3], [4], [5]] [9] = Ok s0 \<and>
     (session_step ^^ 3) s0 s \<and> hs_phase s = OutputReady out \<and>
     committee_reconstruct (f2_committee 2 4) out = Ok (F2 42)"
proof -
  obtain x f g1 m g2 s0 where
    s: "committee_split (f2_ops counter_rng) (f2_committee 1 3) (F2 42) 0 = Ok (x, g1)"
    "sharing (threshold (f2_committee 1 3)) f x" "f 0 = F2 42" "map point x = points (f2_committee 1 3)"
    "reshare_pair (f2_ops counter_rng) (\<lambda>k n. k @ n) counter_rng (f2_committee 1 3) 1 (f2_committee 2 4) 2 [1] g1 = Ok (m, g2)"
    "handoff_session_new [7] [1] [2] (f2_committee 1 3) (f2_committee 2 4) x m [[3], [4], [5]] [9] = Ok s0"
    by (rule f2_session)
  have good: "good_committee (f2_committee 1 3)" "good_committee (f2_committee 2 4)" by (simp_all add: good_f2_committee)
  obtain r where r: "mask_pair (points (f2_committee 1 3)) (points (f2_committee 2 4)) 1 2 r m"
    using reshare_pair_mask(1) [OF good s(5)] by blast
  obtain u v where uv: "session_inv f u v (f2_committee 1 3) (f2_committee 2 4) s0" "pdeg 1 u" "phase_rank (hs_phase s0) = 0"
    by (rule session_new_inv [OF s(6,2,4) r]) simp
  obtain t where t: "(session_step ^^ 3) s0 t" "phase_rank (hs_phase t) = 3"
    using session_inv_run [OF uv(1) good(1), of 3] s(2) uv(2,3) by (auto simp: sharing_def)
  obtain out where "hs_phase t = OutputReady out" using t(2) by (cases "hs_phase t") simp_all
  with handoff_session_safe [OF good s(2,4) _ s(6), of _ _ _ _ _ g2 t] s t relpowp_imp_rtranclp [OF t(1)]
  show ?thesis by fastforce
qed

text \<open>C23. A session never gets stuck and always ends: from every reachable state each run reaches the output
  in exactly as many steps as there are phases left, and every state has at most one successor.\<close>

theorem handoff_session_finishes:
  assumes good: "good_committee src" "good_committee dst"
    and x: "sharing (threshold src) f x" "map point x = points src"
    and m: "reshare_pair F hmac R src (threshold src) dst (threshold dst) nonce g = Ok (m, g')"
    and new: "handoff_session_new e a b src dst x m senders dealer = Ok s0" and dist: "distinct senders"
    and reach: "session_step\<^sup>*\<^sup>* s0 s"
  shows "\<exists>s' out. (session_step ^^ (3 - phase_rank (hs_phase s))) s s' \<and> finalize s' = Ok out \<and>
           {t. session_step s' t} = {} \<and> card {t. session_step s t} \<le> 1"
proof -
  obtain r where r: "mask_pair (points src) (points dst) (threshold src) (threshold dst) r m"
    using reshare_pair_mask(1) [OF good m] by blast
  obtain u v where uv: "session_inv f u v src dst s0" "pdeg (threshold src) u"
    by (rule session_new_inv [OF new x r dist])
  have f: "pdeg (threshold src) f" using x(1) by (simp add: sharing_def)
  have le3: "phase_rank (hs_phase t) \<le> 3" for t :: "'a handoff_session" by (cases "hs_phase t") simp_all
  obtain s' where s': "(session_step ^^ (3 - phase_rank (hs_phase s))) s s'" "phase_rank (hs_phase s') = 3"
    using session_inv_run [OF session_inv_reachable [OF reach uv(1) good(1) f uv(2)] good(1) f uv(2), of "3 - phase_rank (hs_phase s)"] le3 [of s] by auto
  have "\<exists>out. finalize s' = Ok out" using s'(2) by (cases "hs_phase s'") (simp_all add: finalize_def)
  moreover have "{t. session_step s' t} = {}" using session_step_rank [of s'] s'(2) le3 by (metis Collect_empty_eq Suc_n_not_le_n)
  moreover have "card {t. session_step s t} \<le> 1"
  proof (cases "\<exists>t. session_step s t")
    case True
    then obtain t where "session_step s t" by blast
    then have "{t. session_step s t} = {t}" using session_step_deterministic by blast
    then show ?thesis by simp
  qed simp
  ultimately show ?thesis using s'(1) by blast
qed

theorem handoff_session_finishes_witness:
  "\<exists>x g1 m g2 s0 s1 s out.
     committee_split (f2_ops counter_rng) (f2_committee 1 3) (F2 42) 0 = Ok (x, g1) \<and>
     reshare_pair (f2_ops counter_rng) (\<lambda>k n. k @ n) counter_rng (f2_committee 1 3) 1 (f2_committee 2 4) 2 [1] g1 = Ok (m, g2) \<and>
     handoff_session_new [7] [1] [2] (f2_committee 1 3) (f2_committee 2 4) x m [[3], [4], [5]] [9] = Ok s0 \<and>
     (session_step ^^ 3) s0 s \<and> finalize s = Ok out"
proof -
  obtain x f g1 m g2 s0 where
    s: "committee_split (f2_ops counter_rng) (f2_committee 1 3) (F2 42) 0 = Ok (x, g1)"
    "sharing (threshold (f2_committee 1 3)) f x" "map point x = points (f2_committee 1 3)"
    "reshare_pair (f2_ops counter_rng) (\<lambda>k n. k @ n) counter_rng (f2_committee 1 3) 1 (f2_committee 2 4) 2 [1] g1 = Ok (m, g2)"
    "handoff_session_new [7] [1] [2] (f2_committee 1 3) (f2_committee 2 4) x m [[3], [4], [5]] [9] = Ok s0"
    by (rule f2_session)
  have good: "good_committee (f2_committee 1 3)" "good_committee (f2_committee 2 4)" by (simp_all add: good_f2_committee)
  have "phase_rank (hs_phase s0) = 0" using s(5) by (auto simp: handoff_session_new_def split: if_splits)
  with handoff_session_finishes [OF good s(2,3) _ s(5), of _ _ _ _ _ g2 s0] s show ?thesis by fastforce
qed

end
