(* ===== verification/Mailbox.thy ===== *)
theory Mailbox
  imports Ppsc_Prelude
begin

text \<open>
  \<open>network/src/memory.rs\<close>: the in-process mailbox. A queue per recipient holds messages with their
  arrival time; \<open>drain\<close> sleeps until the head of the queue has arrived and returns everything. Times
  and durations are natural numbers (nanoseconds); the clock is a field of the mailbox that only moves
  while \<open>drain\<close> sleeps. The duration of a payload, a floating-point division by the bandwidth in the
  code, is the function \<open>mb_transfer\<close>.
\<close>

datatype network_profile = Lan | Man | Wan

primrec one_way_latency :: "network_profile \<Rightarrow> nat" where
  "one_way_latency Lan = 250 * 1000"
| "one_way_latency Man = 10 * 1000000"
| "one_way_latency Wan = 50 * 1000000"

definition rtt :: "network_profile \<Rightarrow> nat" where
  "rtt p = one_way_latency p * 2"

primrec bandwidth_bps :: "network_profile \<Rightarrow> nat" where
  "bandwidth_bps Lan = 1000000000"
| "bandwidth_bps Man = 100000000"
| "bandwidth_bps Wan = 10000000"

record ('n, 'm) mailbox =
  mb_queues :: "'n \<rightharpoonup> (nat \<times> 'm) list"
  mb_latency :: nat
  mb_transfer :: "nat \<Rightarrow> nat"
  mb_now :: nat

definition with_latency :: "nat \<Rightarrow> ('n, 'm) mailbox" where
  "with_latency latency = \<lparr>mb_queues = Map.empty, mb_latency = latency, mb_transfer = (\<lambda>_. 0), mb_now = 0\<rparr>"

definition with_profile :: "(nat \<Rightarrow> nat \<Rightarrow> nat) \<Rightarrow> network_profile \<Rightarrow> ('n, 'm) mailbox" where
  "with_profile transfer p =
     \<lparr>mb_queues = Map.empty, mb_latency = one_way_latency p, mb_transfer = transfer (bandwidth_bps p), mb_now = 0\<rparr>"

definition queue_of :: "('n, 'm) mailbox \<Rightarrow> 'n \<Rightarrow> (nat \<times> 'm) list" where
  "queue_of mb r = (case mb_queues mb r of None \<Rightarrow> [] | Some q \<Rightarrow> q)"

definition send_with_size :: "'n \<Rightarrow> 'm \<Rightarrow> nat \<Rightarrow> ('n, 'm) mailbox \<Rightarrow> ('n, 'm) mailbox" where
  "send_with_size recipient m size_bytes mb =
     (let arrive = mb_now mb + mb_latency mb + mb_transfer mb size_bytes
      in mb\<lparr>mb_queues := (mb_queues mb)(recipient \<mapsto> queue_of mb recipient @ [(arrive, m)])\<rparr>)"

definition send :: "'n \<Rightarrow> 'm \<Rightarrow> ('n, 'm) mailbox \<Rightarrow> ('n, 'm) mailbox" where
  "send recipient m mb = send_with_size recipient m 0 mb"

text \<open>One turn pops what has arrived; the next turn starts when the new head arrives.\<close>

function drain_loop :: "nat \<Rightarrow> (nat \<times> 'm) list \<Rightarrow> 'm list \<Rightarrow> 'm list \<times> nat" where
  "drain_loop now q out =
     (case dropWhile (\<lambda>(arrive, _). arrive \<le> now) q of
        [] \<Rightarrow> (out @ map snd q, now)
      | (earliest, m) # rest \<Rightarrow>
          drain_loop earliest ((earliest, m) # rest)
            (out @ map snd (takeWhile (\<lambda>(arrive, _). arrive \<le> now) q)))"
  by pat_completeness auto
termination
proof (relation "measure (\<lambda>(now, q, out). 2 * length q + (case q of [] \<Rightarrow> 0 | (a, _) # _ \<Rightarrow> if a \<le> now then 0 else 1))")
  fix now :: nat and q :: "(nat \<times> 'm) list" and out :: "'m list" and p rest earliest m
  assume d: "dropWhile (\<lambda>(arrive, _). arrive \<le> now) q = p # rest" "(earliest, m) = p"
  show "((earliest, (earliest, m) # rest, out @ map snd (takeWhile (\<lambda>(arrive, _). arrive \<le> now) q)), now, q, out)
      \<in> measure (\<lambda>(now, q, out). 2 * length q + (case q of [] \<Rightarrow> 0 | (a, _) # _ \<Rightarrow> if a \<le> now then 0 else 1))"
  proof (cases q)
    case (Cons b bs)
    have "length (dropWhile (\<lambda>(arrive, _). arrive \<le> now) q) \<le> length q" by (rule length_dropWhile_le)
    with d have len: "Suc (length rest) \<le> length q" by simp
    show ?thesis
    proof (cases "fst b \<le> now")
      case True
      then have "length (dropWhile (\<lambda>(arrive, _). arrive \<le> now) q) \<le> length bs"
        using Cons length_dropWhile_le [of _ bs] by (simp add: case_prod_beta)
      with d Cons show ?thesis by (simp split: prod.splits)
    next
      case False
      with Cons len show ?thesis by (cases b) simp
    qed
  qed (use d in simp)
qed simp

declare drain_loop.simps [simp del]

definition drain :: "'n \<Rightarrow> ('n, 'm) mailbox \<Rightarrow> 'm list \<times> ('n, 'm) mailbox" where
  "drain recipient mb =
     (let (out, now) = drain_loop (mb_now mb) (queue_of mb recipient) []
      in (out, mb\<lparr>mb_queues := (mb_queues mb)(recipient \<mapsto> []), mb_now := now\<rparr>))"

section \<open>Draining returns everything, in the order of sending\<close>

lemma drain_loop_eq: "fst (drain_loop now q out) = out @ map snd q"
proof (induction now q out rule: drain_loop.induct)
  case (1 now q out)
  let ?P = "\<lambda>(arrive, _). arrive \<le> now"
  show ?case
  proof (cases "dropWhile ?P q")
    case (Cons p rest)
    obtain e m where p: "p = (e, m)" by (cases p)
    have "map snd (takeWhile ?P q) @ map snd (p # rest) = map snd q"
      unfolding Cons [symmetric] map_append [symmetric] takeWhile_dropWhile_id ..
    then show ?thesis
      using 1 [OF Cons p [symmetric]] by (simp add: drain_loop.simps [of now] Cons p)
  next
    case Nil
    show ?thesis unfolding drain_loop.simps [of now] Nil by simp
  qed
qed

lemma fst_drain: "fst (drain r mb) = map snd (queue_of mb r)"
  by (simp add: drain_def Let_def split_beta drain_loop_eq)

lemma queue_of_drain: "queue_of (snd (drain r mb)) r' = (if r' = r then [] else queue_of mb r')"
  by (simp add: drain_def Let_def split_beta queue_of_def)

lemma queue_of_send: "map snd (queue_of (send r m mb) r') = map snd (queue_of mb r') @ (if r' = r then [m] else [])"
  by (auto simp: send_def send_with_size_def queue_of_def Let_def)

lemma queue_of_with_latency [simp]: "queue_of (with_latency l) r = []"
  by (simp add: with_latency_def queue_of_def)

lemma queue_of_send_all:
  "map snd (queue_of (fold (\<lambda>(r, m). send r m) rms mb) r') =
   map snd (queue_of mb r') @ map snd (filter (\<lambda>(r, m). r = r') rms)"
  by (induction rms arbitrary: mb) (auto simp: queue_of_send split: prod.splits)

end
