(* ===== verification/Node_Handoff.thy ===== *)
theory Node_Handoff
  imports Handoff_Session Mailbox
begin

text \<open>
  \<open>node/src/handoff_runtime.rs\<close>: the handoff and the multiplication as messages between source
  nodes, a dealer and destination nodes, and the runtime that shares a secret, deals a mask and hands
  it over.

  The lemmas remove the mailboxes: broadcasting succeeds exactly when the destination nodes are
  distinct, at any latency, and what remains is \<open>basic_handoff\<close> or \<open>multiply_and_handoff\<close>.
\<close>

record 'f handoff_outcome =
  ho_output :: "'f shamir_share list"
  ho_delta :: 'f

text \<open>Both protocols send one submission per source node and end with the same broadcast.\<close>

definition submit_all ::
  "ident \<Rightarrow> ident \<Rightarrow> ident \<Rightarrow> nat \<Rightarrow> ident list \<Rightarrow> ident \<Rightarrow> 'f list \<Rightarrow> (ident, 'f masked_share_submission) mailbox \<Rightarrow>
     (handoff_error, (ident, 'f masked_share_submission) mailbox) res"
where
  "submit_all e from to degree source_nodes dealer vals =
     foldR (\<lambda>(i, v) mb. bindR (nthR source_nodes i) (\<lambda>sender.
        Ok (send dealer \<lparr>sub_execution_id = e, sub_from_committee = from, sub_to_committee = to,
              sub_sender = sender, sub_share_index = i, sub_degree = degree, sub_masked_share = v\<rparr> mb)))
       (List.enumerate 0 vals)"

definition broadcast_delta ::
  "ident \<Rightarrow> ident \<Rightarrow> ident \<Rightarrow> ident \<Rightarrow> ident list \<Rightarrow> nat \<Rightarrow> 'f \<Rightarrow> (handoff_error, unit) res"
where
  "broadcast_delta e from to dealer destination_nodes latency delta =
     (let broadcast = \<lparr>bc_execution_id = e, bc_from_committee = from, bc_to_committee = to,
            bc_dealer = dealer, bc_delta = delta\<rparr>;
          mb = fold (\<lambda>node. send node broadcast) destination_nodes (with_latency latency)
      in bindR (foldR (\<lambda>node mb.
             let (received, mb') = drain node mb in
             if list_ex (\<lambda>b. bc_dealer b = dealer \<and> bc_execution_id b = e \<and> bc_delta b = delta) received
             then Ok mb' else Err HInvalidState) destination_nodes mb)
           (\<lambda>_. Ok ()))"

definition run_handoff_with_latency ::
  "ident \<Rightarrow> ident \<Rightarrow> ident \<Rightarrow> 'f::field shamir_share list \<Rightarrow> 'f handoff_mask \<Rightarrow> 'f committee \<Rightarrow> 'f committee \<Rightarrow>
     ident list \<Rightarrow> ident \<Rightarrow> ident list \<Rightarrow> nat \<Rightarrow> (handoff_error, 'f handoff_outcome) res"
where
  "run_handoff_with_latency e from to x_shares m src dst source_nodes dealer destination_nodes latency =
     (if length x_shares \<noteq> committee_size src \<or> length (hm_source m) \<noteq> committee_size src
         \<or> length source_nodes \<noteq> committee_size src
      then Err HShareCountMismatch
      else if length (hm_destination m) \<noteq> committee_size dst \<or> length destination_nodes \<noteq> committee_size dst
      then Err HShareCountMismatch
      else bindR (mapE HCrypto (masked_difference_shares x_shares (hm_source m))) (\<lambda>delta_shares.
           bindR (submit_all e from to (hm_source_degree m) source_nodes dealer (map share_value delta_shares)
                    (with_latency latency)) (\<lambda>mb.
           bindR (open_submissions e from to (hm_source_degree m) src (threshold src + 1) (fst (drain dealer mb))) (\<lambda>delta.
           bindR (broadcast_delta e from to dealer destination_nodes latency delta) (\<lambda>_.
             Ok \<lparr>ho_output = apply_difference delta (hm_destination m), ho_delta = delta\<rparr>)))))"

definition run_handoff ::
  "ident \<Rightarrow> ident \<Rightarrow> ident \<Rightarrow> 'f::field shamir_share list \<Rightarrow> 'f handoff_mask \<Rightarrow> 'f committee \<Rightarrow> 'f committee \<Rightarrow>
     ident list \<Rightarrow> ident \<Rightarrow> ident list \<Rightarrow> (handoff_error, 'f handoff_outcome) res"
where
  "run_handoff e from to x_shares m src dst source_nodes dealer destination_nodes =
     run_handoff_with_latency e from to x_shares m src dst source_nodes dealer destination_nodes 0"

definition run_mult_with_latency ::
  "ident \<Rightarrow> ident \<Rightarrow> ident \<Rightarrow> 'f::field shamir_share list \<Rightarrow> 'f shamir_share list \<Rightarrow> 'f handoff_mask \<Rightarrow>
     'f committee \<Rightarrow> 'f committee \<Rightarrow> ident list \<Rightarrow> ident \<Rightarrow> ident list \<Rightarrow> nat \<Rightarrow> (handoff_error, 'f handoff_outcome) res"
where
  "run_mult_with_latency e from to x y m src dst source_nodes dealer destination_nodes latency =
     (if length x \<noteq> length y \<or> length x \<noteq> length (hm_source m) \<or> length x \<noteq> committee_size src
         \<or> length source_nodes \<noteq> committee_size src
      then Err HShareCountMismatch
      else if length (hm_destination m) \<noteq> committee_size dst \<or> length destination_nodes \<noteq> committee_size dst
      then Err HShareCountMismatch
      else if committee_size src \<le> 2 * threshold src then Err HInvalidState
      else bindR (submit_all e from to (hm_source_degree m) source_nodes dealer
                    (map (\<lambda>((xi, yi), ri). share_value xi * share_value yi - share_value ri) (zip (zip x y) (hm_source m)))
                    (with_latency latency)) (\<lambda>mb.
           bindR (open_submissions e from to (hm_source_degree m) src (2 * threshold src + 1) (fst (drain dealer mb))) (\<lambda>delta.
           bindR (broadcast_delta e from to dealer destination_nodes latency delta) (\<lambda>_.
             Ok \<lparr>ho_output = apply_difference delta (hm_destination m), ho_delta = delta\<rparr>))))"

record 'f handoff_event =
  he_execution_id :: ident
  he_from :: ident
  he_to :: ident
  he_src :: "'f committee"
  he_dst :: "'f committee"
  he_x :: 'f
  he_nonce :: bytes
  he_source_nodes :: "ident list"
  he_dealer :: ident
  he_destination_nodes :: "ident list"

record 'f handoff_result =
  hr_execution_id :: ident
  hr_output :: "'f shamir_share list"
  hr_delta :: 'f

definition runtime_run ::
  "('f::field, 'g) share_field_ops \<Rightarrow> hmac_fun \<Rightarrow> 'g rng_ops \<Rightarrow> 'f handoff_event \<Rightarrow> 'g \<Rightarrow>
     (handoff_error, 'f handoff_result \<times> 'g) res"
where
  "runtime_run F hmac R ev g =
     bindR (mapE HCrypto (committee_split F (he_src ev) (he_x ev) g)) (\<lambda>(x_shares, g1).
     bindR (mapE HCrypto (reshare_pair F hmac R (he_src ev) (threshold (he_src ev)) (he_dst ev)
              (threshold (he_dst ev)) (he_nonce ev) g1)) (\<lambda>(m, g2).
     bindR (run_handoff (he_execution_id ev) (he_from ev) (he_to ev) x_shares m (he_src ev) (he_dst ev)
              (he_source_nodes ev) (he_dealer ev) (he_destination_nodes ev)) (\<lambda>outcome.
       Ok (\<lparr>hr_execution_id = he_execution_id ev, hr_output = ho_output outcome, hr_delta = ho_delta outcome\<rparr>, g2))))"

primrec batch_loop ::
  "('f::field, 'g) share_field_ops \<Rightarrow> hmac_fun \<Rightarrow> 'g rng_ops \<Rightarrow> ident \<Rightarrow> ident \<Rightarrow> ident \<Rightarrow> 'f committee \<Rightarrow> 'f committee \<Rightarrow>
     ident list \<Rightarrow> ident \<Rightarrow> ident list \<Rightarrow> bytes \<Rightarrow> 'f list \<Rightarrow> nat \<Rightarrow> 'g \<Rightarrow> (handoff_error, 'f shamir_share list list \<times> 'g) res"
where
  "batch_loop F hmac R e from to src dst source_nodes dealer destination_nodes nonce_prefix [] i g = Ok ([], g)"
| "batch_loop F hmac R e from to src dst source_nodes dealer destination_nodes nonce_prefix (x # xs) i g =
     bindR (mapE HCrypto (committee_split F src x g)) (\<lambda>(x_shares, g1).
     bindR (mapE HCrypto (reshare_pair F hmac R src (threshold src) dst (threshold dst)
              (nonce_prefix @ le_bytes_nat 8 i) g1)) (\<lambda>(m, g2).
     bindR (run_handoff e from to x_shares m src dst source_nodes dealer destination_nodes) (\<lambda>outcome.
     bindR (batch_loop F hmac R e from to src dst source_nodes dealer destination_nodes nonce_prefix xs (Suc i) g2)
       (\<lambda>(outputs, g3). Ok (ho_output outcome # outputs, g3)))))"

definition run_batch ::
  "('f::field, 'g) share_field_ops \<Rightarrow> hmac_fun \<Rightarrow> 'g rng_ops \<Rightarrow> ident \<Rightarrow> ident \<Rightarrow> ident \<Rightarrow> 'f list \<Rightarrow> 'f committee \<Rightarrow> 'f committee \<Rightarrow>
     ident list \<Rightarrow> ident \<Rightarrow> ident list \<Rightarrow> bytes \<Rightarrow> 'g \<Rightarrow> (handoff_error, 'f shamir_share list list \<times> 'g) res"
where
  "run_batch F hmac R e from to xs src dst source_nodes dealer destination_nodes nonce_prefix g =
     batch_loop F hmac R e from to src dst source_nodes dealer destination_nodes nonce_prefix xs 0 g"

section \<open>The mailboxes deliver\<close>

lemma submit_all_drain:
  assumes "length ds \<le> length source_nodes"
  obtains mb where "submit_all e a b d source_nodes dealer (map share_value ds) (with_latency latency) = Ok mb"
    "fst (drain dealer mb) = submissions_of e a b d source_nodes ds"
proof -
  let ?sub = "\<lambda>(i, v). \<lparr>sub_execution_id = e, sub_from_committee = a, sub_to_committee = b, sub_sender = source_nodes ! i,
            sub_share_index = i, sub_degree = d, sub_masked_share = v\<rparr>"
  let ?mb = "fold (\<lambda>iv. send dealer (?sub iv)) (List.enumerate 0 (map share_value ds)) (with_latency latency)"
  have "submit_all e a b d source_nodes dealer (map share_value ds) (with_latency latency) = Ok ?mb"
    unfolding submit_all_def
    by (rule foldR_Ok) (use assms in \<open>auto simp: enumerate_eq_map_nth nthR_in_range\<close>)
  moreover have q: "map snd (queue_of (fold (\<lambda>iv. send r (h iv)) ivs mb) r) = map snd (queue_of mb r) @ map h ivs"
    for h :: "nat \<times> 'a \<Rightarrow> 'a masked_share_submission" and ivs mb and r :: ident
    by (induction ivs arbitrary: mb) (simp_all add: queue_of_send)
  have "fst (drain dealer ?mb) = submissions_of e a b d source_nodes ds"
    by (auto simp: fst_drain q submissions_of_def enumerate_eq_map_nth)
  ultimately show ?thesis by (rule that)
qed

lemma collect_broadcasts:
  assumes "\<And>n b. b \<in> snd ` set (queue_of mb n) \<Longrightarrow> ok b"
  shows "bindR (foldR (\<lambda>node mb. let (received, mb') = drain node mb in
             if list_ex ok received then Ok mb' else Err HInvalidState) ns mb) (\<lambda>_. Ok ())
       = (if distinct ns \<and> (\<forall>n \<in> set ns. queue_of mb n \<noteq> []) then Ok () else Err HInvalidState)"
  using assms
proof (induction ns arbitrary: mb)
  case (Cons n ns)
  have "list_ex ok (map snd (queue_of mb n)) \<longleftrightarrow> queue_of mb n \<noteq> []"
    using Cons.prems [of _ n] by (cases "queue_of mb n") auto
  moreover have "b \<in> snd ` set (queue_of (snd (drain n mb)) k) \<Longrightarrow> ok b" for k b
    using Cons.prems [of b k] by (auto simp: queue_of_drain split: if_splits)
  note Cons.IH [of "snd (drain n mb)", OF this]
  ultimately show ?case
    by (auto simp: Let_def split_beta fst_drain queue_of_drain split: if_splits)
qed simp

lemma broadcast_delta_eq:
  "broadcast_delta e a b dealer ns latency delta = (if distinct ns then Ok () else Err HInvalidState)"
proof -
  let ?bc = "\<lparr>bc_execution_id = e, bc_from_committee = a, bc_to_committee = b, bc_dealer = dealer, bc_delta = delta\<rparr>"
  let ?mb = "fold (\<lambda>node. send node ?bc) ns (with_latency latency)"
  have q: "map snd (queue_of (fold (\<lambda>node. send node m) ns mb) n) = map snd (queue_of mb n) @ replicate (count_list ns n) m"
    for m and mb :: "(ident, 'a masked_delta_broadcast) mailbox" and n
    by (induction ns arbitrary: mb) (auto simp: queue_of_send replicate_append_same)
  have all: "bc = ?bc" if "bc \<in> snd ` set (queue_of ?mb n)" for bc n
  proof -
    have "bc \<in> set (map snd (queue_of ?mb n))" using that by simp
    then show ?thesis unfolding q by simp
  qed
  have "queue_of ?mb n \<noteq> []" if "n \<in> set ns" for n
    using arg_cong [OF q [of ?bc "with_latency latency" n], of length] that by (auto simp: count_list_0_iff)
  moreover have "broadcast_delta e a b dealer ns latency delta =
      (if distinct ns \<and> (\<forall>n \<in> set ns. queue_of ?mb n \<noteq> []) then Ok () else Err HInvalidState)"
    unfolding broadcast_delta_def Let_def [of ?bc] Let_def [of ?mb]
    by (rule collect_broadcasts) (use all in fastforce)
  ultimately show ?thesis by simp
qed

section \<open>The protocols are the one-shot functions\<close>

lemma run_handoff_eq:
  assumes x: "map point x = points src" and len: "length (hm_source m) = committee_size src"
    "length (hm_destination m) = committee_size dst" "length nodes = committee_size src" "length dests = committee_size dst"
    and "distinct nodes" "threshold src < committee_size src"
  shows "bindR (run_handoff_with_latency e a b x m src dst nodes dealer dests latency) (\<lambda>o'. Ok (ho_output o')) =
         bindR (mapE HCrypto (basic_handoff x m src dst)) (\<lambda>out. if distinct dests then Ok out else Err HInvalidState)"
proof -
  have lx: "length x = committee_size src" using x by (metis committee_size_def length_map)
  show ?thesis
  proof (cases "masked_difference_shares x (hm_source m)")
    case (Ok ds)
    note ds = masked_difference_points [OF this]
    obtain mb where mb: "submit_all e a b (hm_source_degree m) nodes dealer (map share_value ds) (with_latency latency) = Ok mb"
      "fst (drain dealer mb) = submissions_of e a b (hm_source_degree m) nodes ds"
      by (rule submit_all_drain [of ds nodes]) (use ds len lx in simp)
    have "open_submissions e a b (hm_source_degree m) src (Suc (threshold src)) (fst (drain dealer mb))
        = mapE HCrypto (reconstruct ds (Suc (threshold src)))"
      unfolding mb(2) by (rule open_submissions_of) (use ds x len lx assms(6,7) in auto)
    with mb(1) show ?thesis
      by (cases "reconstruct ds (Suc (threshold src))")
        (simp_all add: run_handoff_with_latency_def basic_handoff_def lx len Ok broadcast_delta_eq)
  qed (simp_all add: run_handoff_with_latency_def basic_handoff_def lx len)
qed

lemma run_mult_eq:
  assumes x: "map point x = points src" and y: "map point y = points src" and r: "map point (hm_source m) = points src"
    and len: "length (hm_destination m) = committee_size dst" "length nodes = committee_size src" "length dests = committee_size dst"
    and "distinct nodes" "2 * threshold src < committee_size src"
  shows "bindR (run_mult_with_latency e a b x y m src dst nodes dealer dests latency) (\<lambda>o'. Ok (ho_output o')) =
         bindR (mapE HCrypto (multiply_and_handoff x y m src dst)) (\<lambda>out. if distinct dests then Ok out else Err HInvalidState)"
proof -
  have lx: "length x = committee_size src" "length y = committee_size src" "length (hm_source m) = committee_size src"
    using x y r by (metis committee_size_def length_map)+
  have comb: "\<exists>ds. combine_shares3 op xs ys zs = Ok ds \<and> map point ds = map point xs \<and>
      map share_value ds = map (\<lambda>((x, y), z). op (share_value x) (share_value y) (share_value z)) (zip (zip xs ys) zs)"
    if "map point ys = map point xs" "map point zs = map point xs" for op and xs ys zs :: "'a shamir_share list"
    using that
  proof (induction xs arbitrary: ys zs)
    case (Cons x xs)
    obtain y ys' where ys: "ys = y # ys'" using Cons.prems(1) by (cases ys) simp_all
    obtain z zs' where zs: "zs = z # zs'" using Cons.prems(2) by (cases zs) simp_all
    obtain ds where ds: "combine_shares3 op xs ys' zs' = Ok ds" "map point ds = map point xs"
      "map share_value ds = map (\<lambda>((x, y), z). op (share_value x) (share_value y) (share_value z)) (zip (zip xs ys') zs')"
      using Cons.IH [of ys' zs'] Cons.prems ys zs by auto
    then show ?case
      using Cons.prems by (auto simp: combine_shares3_def ys zs)
  qed (simp add: combine_shares3_def)
  obtain ds where ds: "combine_shares3 (\<lambda>xi yi ri. xi * yi - ri) x y (hm_source m) = Ok ds" "map point ds = points src"
    "map share_value ds = map (\<lambda>((x, y), z). share_value x * share_value y - share_value z) (zip (zip x y) (hm_source m))"
    using comb [of y x "hm_source m" "\<lambda>xi yi ri. xi * yi - ri"] x y r by auto
  have ld: "length ds = committee_size src" using ds(2) by (metis committee_size_def length_map)
  obtain mb where mb: "submit_all e a b (hm_source_degree m) nodes dealer (map share_value ds) (with_latency latency) = Ok mb"
    "fst (drain dealer mb) = submissions_of e a b (hm_source_degree m) nodes ds"
    by (rule submit_all_drain [of ds nodes]) (use ld len in simp)
  have "open_submissions e a b (hm_source_degree m) src (Suc (2 * threshold src)) (fst (drain dealer mb))
      = mapE HCrypto (reconstruct ds (Suc (2 * threshold src)))"
    unfolding mb(2) by (rule open_submissions_of) (use ds ld len assms(7,8) in auto)
  with mb(1) show ?thesis
    using assms(8)
    by (cases "reconstruct ds (Suc (2 * threshold src))")
      (simp_all add: run_mult_with_latency_def multiply_and_handoff_def lx len ds(1) ds(3) [symmetric] broadcast_delta_eq)
qed

text \<open>One hand-over of a freshly shared value, as both runtimes do it.\<close>

lemma handover_correct:
  assumes src: "good_committee src" and dst: "good_committee dst"
    and nodes: "length nodes = committee_size src" "distinct nodes" "length dests = committee_size dst" "distinct dests"
  obtains x g1 m g2 o' where
    "committee_split F src v g = Ok (x, g1)"
    "reshare_pair F hmac R src (threshold src) dst (threshold dst) nonce g1 = Ok (m, g2)"
    "run_handoff e a b x m src dst nodes dealer dests = Ok o'"
    "committee_reconstruct dst (ho_output o') = Ok v"
proof -
  obtain x g1 where x: "committee_split F src v g = Ok (x, g1)" "val_sharing (threshold src) (points src) v x"
    by (rule committee_split_val [OF src])
  have nz: "0 \<notin> set (points src)" "0 \<notin> set (points dst)" and t: "threshold src < committee_size src" "threshold dst < committee_size dst"
    and dist: "distinct (points src)"
    using src dst by (simp_all add: good_committee_def good_points_def)
  obtain m g2 r where m: "reshare_pair F hmac R src (threshold src) dst (threshold dst) nonce g1 = Ok (m, g2)"
    "mask_pair (points src) (points dst) (threshold src) (threshold dst) r m"
    unfolding reshare_pair_def
    by (rule reshare_pair_by_mask [OF nz t, of R g1 "\<lambda>seed. derive_element F hmac seed nonce"])
  obtain f where f: "x = on_points f (points src)" "pdeg (threshold src) f" "f 0 = v"
    using x(2) by (auto elim!: val_sharingE)
  obtain k where k: "basic_handoff x m src dst = Ok (on_points k (points dst))" "pdeg (threshold dst) k" "k 0 = f 0"
    unfolding f(1) by (rule basic_handoff_on_points [OF f(2) le_refl m(2) le_refl dist t(1)])
  have len: "length (hm_source m) = committee_size src" "length (hm_destination m) = committee_size dst"
    using m(2) by (auto simp: mask_pair_def committee_size_def dest: arg_cong [of _ _ length])
  have "bindR (run_handoff e a b x m src dst nodes dealer dests) (\<lambda>o'. Ok (ho_output o')) = Ok (on_points k (points dst))"
    unfolding run_handoff_def
    by (subst run_handoff_eq [OF _ len nodes(1,3,2) t(1)]) (use k(1) nodes(4) in \<open>simp_all add: f(1)\<close>)
  then obtain o' where o': "run_handoff e a b x m src dst nodes dealer dests = Ok o'" "ho_output o' = on_points k (points dst)"
    by (auto simp: bindR_eq_Ok)
  have "committee_reconstruct dst (on_points k (points dst)) = Ok (k 0)"
    by (rule committee_reconstruct_sharing [OF dst]) (use k(2) in simp_all)
  then show ?thesis using that [OF x(1) m(1) o'(1)] o'(2) k(3) f(3) by simp
qed

lemma runtime_run_correct:
  assumes "good_committee (he_src ev)" "good_committee (he_dst ev)"
    and "length (he_source_nodes ev) = committee_size (he_src ev)" "distinct (he_source_nodes ev)"
    and "length (he_destination_nodes ev) = committee_size (he_dst ev)" "distinct (he_destination_nodes ev)"
  shows "\<exists>result g'. runtime_run F hmac R ev g = Ok (result, g') \<and>
           hr_execution_id result = he_execution_id ev \<and>
           committee_reconstruct (he_dst ev) (hr_output result) = Ok (he_x ev)"
  by (rule handover_correct [OF assms, of F "he_x ev" g hmac R "he_nonce ev" "he_execution_id ev" "he_from ev"
        "he_to ev" "he_dealer ev"]) (simp add: runtime_run_def)

section \<open>Properties\<close>

text \<open>C24. The message protocol implements \<open>basic_handoff\<close> at any network latency: it gives the same shares
  and the same errors, except that a repeated destination node makes it fail, since the first pickup
  empties that node's mailbox.\<close>

theorem run_handoff_refines_basic_handoff:
  assumes "map point x = points src" and "length (hm_source m) = committee_size src"
    and "length (hm_destination m) = committee_size dst"
    and "length source_nodes = committee_size src" "length destination_nodes = committee_size dst"
    and "distinct source_nodes" and "threshold src < committee_size src"
  shows "bindR (run_handoff_with_latency e from to x m src dst source_nodes dealer destination_nodes latency)
           (\<lambda>outcome. Ok (ho_output outcome)) =
         bindR (mapE HCrypto (basic_handoff x m src dst))
           (\<lambda>out. if distinct destination_nodes then Ok out else Err HInvalidState)"
  by (rule run_handoff_eq [OF assms])

theorem run_handoff_refines_basic_handoff_witness:
  "\<exists>x g1 m g2 out. committee_split (f2_ops counter_rng) (f2_committee 1 3) (F2 42) 0 = Ok (x, g1) \<and>
     reshare_pair (f2_ops counter_rng) (\<lambda>k n. k @ n) counter_rng (f2_committee 1 3) 1 (f2_committee 2 4) 2 [1] g1 = Ok (m, g2) \<and>
     basic_handoff x m (f2_committee 1 3) (f2_committee 2 4) = Ok out \<and>
     bindR (run_handoff_with_latency [7] [1] [2] x m (f2_committee 1 3) (f2_committee 2 4) [[3], [4], [5]] [9]
              [[6], [8], [6], [10]] 250) (\<lambda>outcome. Ok (ho_output outcome)) = Err HInvalidState"
proof -
  obtain x f g1 where x: "committee_split (f2_ops counter_rng) (f2_committee 1 3) (F2 42) 0 = Ok (x, g1)"
    "sharing (threshold (f2_committee 1 3)) f x" "f 0 = F2 42" "map point x = points (f2_committee 1 3)"
    by (rule f2_split [of 1 3 "F2 42" 0]) simp_all
  obtain m g2 where m: "reshare_pair (f2_ops counter_rng) (\<lambda>k n. k @ n) counter_rng (f2_committee 1 3) 1
      (f2_committee 2 4) 2 [1] g1 = Ok (m, g2)"
    by (rule f2_reshare [of 1 3 2 4 "\<lambda>k n. k @ n" 1 2 "[1]" g1]) simp_all
  have good: "good_committee (f2_committee 1 3)" "good_committee (f2_committee 2 4)" by (simp_all add: good_f2_committee)
  obtain r where r: "mask_pair (points (f2_committee 1 3)) (points (f2_committee 2 4)) 1 2 r m"
    using reshare_pair_mask(1) [OF good m] by blast
  have xf: "x = on_points f (points (f2_committee 1 3))" "pdeg 1 f"
    using sharing_canonical [OF x(2,4)] x(2) by (simp_all add: sharing_def)
  obtain k where k: "basic_handoff x m (f2_committee 1 3) (f2_committee 2 4) = Ok (on_points k (points (f2_committee 2 4)))"
    unfolding xf(1)
    by (rule basic_handoff_on_points [OF xf(2) _ r]) (use good in \<open>simp_all add: good_committee_def good_points_def\<close>)
  have len: "length (hm_source m) = 3" "length (hm_destination m) = 4"
    using r by (auto simp: mask_pair_def f2_committee_def dest!: arg_cong [of _ _ length])
  have "bindR (run_handoff_with_latency [7] [1] [2] x m (f2_committee 1 3) (f2_committee 2 4) [[3], [4], [5]] [9]
              [[6], [8], [6], [10]] 250) (\<lambda>outcome. Ok (ho_output outcome)) = Err HInvalidState"
    by (subst run_handoff_refines_basic_handoff) (use x(4) len k in simp_all)
  with x(1) m k show ?thesis by blast
qed

text \<open>The networked multiplication: with a mask of source degree \<open>2 * threshold\<close>, distinct nodes and an
  honest majority it returns shares of the product to the destination committee, at any latency.\<close>

theorem run_mult_product:
  assumes good: "good_committee src" "good_committee dst" and maj: "2 * threshold src < committee_size src"
    and x: "sharing (threshold src) f x" "map point x = points src"
    and y: "sharing (threshold src) h y" "map point y = points src"
    and m: "reshare_pair F hmac R src (2 * threshold src) dst (threshold dst) nonce g = Ok (m, g')"
    and nodes: "length source_nodes = committee_size src" "distinct source_nodes"
      "length destination_nodes = committee_size dst" "distinct destination_nodes"
  shows "\<exists>outcome. run_mult_with_latency e from to x y m src dst source_nodes dealer destination_nodes latency = Ok outcome \<and>
           committee_reconstruct dst (ho_output outcome) = Ok (f 0 * h 0)"
proof -
  obtain r where r: "mask_pair (points src) (points dst) (2 * threshold src) (threshold dst) r m"
    using reshare_pair_mask(1) [OF good m] by blast
  have dist: "distinct (points src)" using good(1) by (simp add: good_committee_def good_points_def)
  have p: "pdeg (threshold src) f" "pdeg (threshold src) h" using x(1) y(1) by (simp_all add: sharing_def)
  obtain k where k: "multiply_and_handoff x y m src dst = Ok (on_points k (points dst))" "pdeg (threshold dst) k" "k 0 = f 0 * h 0"
    unfolding sharing_canonical [OF x] sharing_canonical [OF y]
    by (rule multiply_and_handoff_on_points [OF p(1) le_refl p(2) le_refl r le_refl dist maj])
  have mp: "map point (hm_source m) = points src" "length (hm_destination m) = committee_size dst"
    using r by (auto simp: mask_pair_def committee_size_def dest: arg_cong [of _ _ length])
  have "bindR (run_mult_with_latency e from to x y m src dst source_nodes dealer destination_nodes latency)
      (\<lambda>o'. Ok (ho_output o')) = Ok (on_points k (points dst))"
    by (subst run_mult_eq [OF x(2) y(2) mp nodes(1,3,2) maj]) (use k(1) nodes(4) in simp_all)
  then obtain o' where o': "run_mult_with_latency e from to x y m src dst source_nodes dealer destination_nodes latency = Ok o'"
    "ho_output o' = on_points k (points dst)"
    by auto
  have "committee_reconstruct dst (on_points k (points dst)) = Ok (k 0)"
    by (rule committee_reconstruct_sharing [OF good(2)]) (use k(2) in simp_all)
  with o' k(3) show ?thesis by auto
qed

theorem run_mult_product_witness:
  "\<exists>x g1 y g2 m g3 outcome.
     committee_split (f2_ops counter_rng) (f2_committee 1 3) (F2 3) 0 = Ok (x, g1) \<and>
     committee_split (f2_ops counter_rng) (f2_committee 1 3) (F2 5) g1 = Ok (y, g2) \<and>
     reshare_pair (f2_ops counter_rng) (\<lambda>k n. k @ n) counter_rng (f2_committee 1 3) 2 (f2_committee 2 4) 2 [1] g2 = Ok (m, g3) \<and>
     run_mult_with_latency [7] [1] [2] x y m (f2_committee 1 3) (f2_committee 2 4) [[3], [4], [5]] [9]
       [[6], [8], [9], [10]] 250 = Ok outcome \<and>
     committee_reconstruct (f2_committee 2 4) (ho_output outcome) = Ok (F2 3 * F2 5)"
proof -
  obtain x f g1 where x: "committee_split (f2_ops counter_rng) (f2_committee 1 3) (F2 3) 0 = Ok (x, g1)"
    "sharing (threshold (f2_committee 1 3)) f x" "f 0 = F2 3" "map point x = points (f2_committee 1 3)"
    by (rule f2_split [of 1 3 "F2 3" 0]) simp_all
  obtain y h g2 where y: "committee_split (f2_ops counter_rng) (f2_committee 1 3) (F2 5) g1 = Ok (y, g2)"
    "sharing (threshold (f2_committee 1 3)) h y" "h 0 = F2 5" "map point y = points (f2_committee 1 3)"
    by (rule f2_split [of 1 3 "F2 5" g1]) simp_all
  obtain m g3 where m: "reshare_pair (f2_ops counter_rng) (\<lambda>k n. k @ n) counter_rng (f2_committee 1 3) 2
      (f2_committee 2 4) 2 [1] g2 = Ok (m, g3)"
    by (rule f2_reshare [of 2 3 2 4 "\<lambda>k n. k @ n" 1 2 "[1]" g2]) simp_all
  have good: "good_committee (f2_committee 1 3)" "good_committee (f2_committee 2 4)" by (simp_all add: good_f2_committee)
  have m': "reshare_pair (f2_ops counter_rng) (\<lambda>k n. k @ n) counter_rng (f2_committee 1 3) (2 * threshold (f2_committee 1 3))
      (f2_committee 2 4) (threshold (f2_committee 2 4)) [1] g2 = Ok (m, g3)" using m by simp
  show ?thesis
    using run_mult_product [OF good _ x(2,4) y(2,4) m', of "[[3], [4], [5]]" "[[6], [8], [9], [10]]" "[7]" "[1]" "[2]" "[9]" 250]
      x(1,3) y(1,3) m by auto
qed

text \<open>A batch hands over every value: with good committees and distinct nodes it succeeds, and the
  \<open>k\<close>-th output opens to the \<open>k\<close>-th value at the destination committee.\<close>

theorem run_batch_hands_over_all:
  assumes "good_committee src" "good_committee dst"
    and "length source_nodes = committee_size src" "distinct source_nodes"
    and "length destination_nodes = committee_size dst" "distinct destination_nodes"
  shows "\<exists>outputs g'. run_batch F hmac R e from to xs src dst source_nodes dealer destination_nodes nonce g = Ok (outputs, g') \<and>
           map (committee_reconstruct dst) outputs = map Ok xs"
proof -
  have "\<exists>outputs g'. batch_loop F hmac R e from to src dst source_nodes dealer destination_nodes nonce xs i g = Ok (outputs, g') \<and>
           map (committee_reconstruct dst) outputs = map Ok xs" for i
  proof (induction xs arbitrary: i g)
    case (Cons v xs)
    obtain x g1 m g2 o' where step: "committee_split F src v g = Ok (x, g1)"
      "reshare_pair F hmac R src (threshold src) dst (threshold dst) (nonce @ le_bytes_nat 8 i) g1 = Ok (m, g2)"
      "run_handoff e from to x m src dst source_nodes dealer destination_nodes = Ok o'"
      "committee_reconstruct dst (ho_output o') = Ok v"
      by (rule handover_correct [OF assms])
    from Cons.IH [of "Suc i" g2] step show ?case by auto
  qed simp
  then show ?thesis by (simp add: run_batch_def)
qed

theorem run_batch_hands_over_all_witness:
  "\<exists>outputs g'. run_batch (f2_ops counter_rng) (@) counter_rng [7] [1] [2] [F2 42, F2 7] (f2_committee 1 3) (f2_committee 2 4)
      [[3], [4], [5]] [9] [[6], [8], [9], [10]] [1] 0 = Ok (outputs, g') \<and>
    map (committee_reconstruct (f2_committee 2 4)) outputs = [Ok (F2 42), Ok (F2 7)]"
  using run_batch_hands_over_all [of "f2_committee 1 3" "f2_committee 2 4" "[[3], [4], [5]]" "[[6], [8], [9], [10]]"
      "f2_ops counter_rng" "(@)" counter_rng "[7]" "[1]" "[2]" "[F2 42, F2 7]" "[9]" "[1]" 0]
  by (simp add: good_f2_committee)

end
