(* ===== verification/Wide_Field.thy ===== *)
theory Wide_Field
  imports Prime_Field
begin

text \<open>
  A second prime field, of \<open>3 * 2 ^ 36 + 1\<close> elements: wide enough for the 32-bit balances of
  \<open>node/src/comparison_runtime.rs\<close>, which runs over the scalar field of BN254. It only serves the
  concrete runs; the model and its properties take any prime field.
\<close>

section \<open>The modulus\<close>

definition WIDE_MODULUS :: nat where
  "WIDE_MODULUS = 206158430209"

lemma powmod_wide: "22 ^ (34359738368 * k) mod WIDE_MODULUS = powmod WIDE_MODULUS 103079608321 k 1"
proof -
  have "powmod WIDE_MODULUS 22 34359738368 1 = 103079608321"
    by (simp add: WIDE_MODULUS_def powmod_eval)
  then have "22 ^ 34359738368 mod WIDE_MODULUS = 103079608321" by (simp only: powmod_def mult_1)
  then show ?thesis by (simp only: powmod_def mult_1 power_mult) (metis power_mod)
qed

lemma wide_factors: "is_prime 2" "is_prime 3"
proof -
  show "is_prime 2" by (rule is_primeI [of _ 0]) simp_all
  show "is_prime 3" by (rule is_primeI [of _ 0]) simp_all
qed

lemma wide_units: "0 < a \<Longrightarrow> a < WIDE_MODULUS \<Longrightarrow> coprime a WIDE_MODULUS"
proof (rule lucas_units [where g = 22 and qs = "[(2, 36), (3, 1)]"])
  show "is_prime q" if "(q, e) \<in> set [(2, 36), (3, 1)]" for q e
    using that wide_factors by auto
  have exps: "WIDE_MODULUS - 1 = 34359738368 * 6" "(WIDE_MODULUS - 1) div 2 = 34359738368 * 3"
    "(WIDE_MODULUS - 1) div 3 = 34359738368 * 2"
    by (simp_all add: WIDE_MODULUS_def)
  show "22 ^ (WIDE_MODULUS - 1) mod WIDE_MODULUS = 1"
    unfolding exps(1) powmod_wide by (simp add: WIDE_MODULUS_def powmod_eval)
  have "22 ^ ((WIDE_MODULUS - 1) div 2) mod WIDE_MODULUS \<noteq> 1"
    unfolding exps(2) powmod_wide by (simp add: WIDE_MODULUS_def powmod_eval)
  moreover have "22 ^ ((WIDE_MODULUS - 1) div 3) mod WIDE_MODULUS \<noteq> 1"
    unfolding exps(3) powmod_wide by (simp add: WIDE_MODULUS_def powmod_eval)
  ultimately show "22 ^ ((WIDE_MODULUS - 1) div q) mod WIDE_MODULUS \<noteq> 1"
    if "(q, e) \<in> set [(2, 36), (3, 1)]" for q e
    using that by (simp only: list.set insert_iff empty_iff prod.inject simp_thms, elim disjE conjE) simp_all
qed (simp_all add: WIDE_MODULUS_def)

section \<open>The field\<close>

typedef wq = "{0..<int WIDE_MODULUS}"
  by (rule exI [of _ 0]) (simp add: WIDE_MODULUS_def)

setup_lifting type_definition_wq

lemma wide_pos [simp]: "0 < WIDE_MODULUS" "Suc 0 < WIDE_MODULUS"
  "1 mod int WIDE_MODULUS = 1"
  by (simp_all add: WIDE_MODULUS_def)

lemma mod_wide_bound [simp]: "0 \<le> a mod int WIDE_MODULUS" "a mod int WIDE_MODULUS < int WIDE_MODULUS"
  by simp_all

lift_definition wq_of_int :: "int \<Rightarrow> wq" is "\<lambda>a. a mod int WIDE_MODULUS"
  by simp

definition wq_inverse :: "int \<Rightarrow> int" where
  "wq_inverse a = fst (bezw (nat a) WIDE_MODULUS) mod int WIDE_MODULUS"

lemma wq_inverse: "0 < a \<Longrightarrow> a < int WIDE_MODULUS \<Longrightarrow> wq_inverse a * a mod int WIDE_MODULUS = 1"
proof -
  assume a: "0 < a" "a < int WIDE_MODULUS"
  then obtain n where n: "a = int n" "0 < n" "n < WIDE_MODULUS" using zero_less_imp_eq_int by auto
  then have "gcd n WIDE_MODULUS = 1" using wide_units by (simp flip: coprime_iff_gcd_eq_1)
  then have "fst (bezw n WIDE_MODULUS) * a + snd (bezw n WIDE_MODULUS) * int WIDE_MODULUS = 1"
    using bezw_aux [of n WIDE_MODULUS] n by simp
  then have "fst (bezw n WIDE_MODULUS) * a mod int WIDE_MODULUS = 1 mod int WIDE_MODULUS"
    by (metis mod_mult_self1 mult.commute)
  then show ?thesis by (simp add: wq_inverse_def n(1) mod_mult_left_eq)
qed

instantiation wq :: field
begin

lift_definition zero_wq :: wq is 0 by simp
lift_definition one_wq :: wq is 1 by simp
lift_definition plus_wq :: "wq \<Rightarrow> wq \<Rightarrow> wq" is "\<lambda>a b. (a + b) mod int WIDE_MODULUS" by simp
lift_definition minus_wq :: "wq \<Rightarrow> wq \<Rightarrow> wq" is "\<lambda>a b. (a - b) mod int WIDE_MODULUS" by simp
lift_definition uminus_wq :: "wq \<Rightarrow> wq" is "\<lambda>a. - a mod int WIDE_MODULUS" by simp
lift_definition times_wq :: "wq \<Rightarrow> wq \<Rightarrow> wq" is "\<lambda>a b. a * b mod int WIDE_MODULUS" by simp
lift_definition inverse_wq :: "wq \<Rightarrow> wq" is "\<lambda>a. if a = 0 then 0 else wq_inverse a"
  by (simp add: wq_inverse_def)
definition divide_wq :: "wq \<Rightarrow> wq \<Rightarrow> wq" where "divide_wq a b = a * inverse b"

instance
proof
  fix a b c :: wq
  show "a + b + c = a + (b + c)" by transfer (simp add: mod_add_left_eq mod_add_right_eq add.assoc)
  show "a + b = b + a" by transfer (simp add: add.commute)
  show "0 + a = a" by transfer simp
  show "- a + a = 0" by transfer (simp add: mod_add_left_eq)
  show "a - b = a + - b" by transfer (simp add: mod_add_right_eq)
  show "a * b * c = a * (b * c)" by transfer (simp add: mod_mult_left_eq mod_mult_right_eq mult.assoc)
  show "a * b = b * a" by transfer (simp add: mult.commute)
  show "1 * a = a" by transfer simp
  show "(a + b) * c = a * c + b * c"
    by transfer (simp add: mod_add_eq mod_mult_left_eq distrib_right)
  show "(0 :: wq) \<noteq> 1" by transfer simp
  show "inverse a * a = 1" if "a \<noteq> 0" using that by transfer (auto simp: wq_inverse)
  show "a div b = a * inverse b" by (simp add: divide_wq_def)
  show "inverse (0 :: wq) = 0" by transfer simp
qed

end

lemma of_int_wq: "of_int k = wq_of_int k"
proof -
  have add: "wq_of_int (a + b) = wq_of_int a + wq_of_int b" for a b
    by transfer (simp add: mod_add_eq)
  have minus: "wq_of_int (- a) = - wq_of_int a" for a
    by transfer (simp add: mod_minus_eq)
  have one: "wq_of_int 1 = 1" by transfer simp
  have zero: "wq_of_int 0 = 0" by transfer simp
  have nat: "of_nat n = wq_of_int (int n)" for n
    by (induction n) (simp_all add: zero add one add.commute)
  show ?thesis by (cases k rule: int_cases2) (simp_all add: nat minus)
qed

definition wq_ops :: "wq prime_field_ops" where
  "wq_ops = \<lparr>pf_modulus = WIDE_MODULUS, pf_bit_size = 38, pf_into = (\<lambda>x. nat (Rep_wq x))\<rparr>"

lemma Rep_wq_bounds: "0 \<le> Rep_wq x" "Rep_wq x < int WIDE_MODULUS"
  using Rep_wq [of x] by auto

lemma Rep_of_nat_wq: "Rep_wq (of_nat n) = int n mod int WIDE_MODULUS"
  using of_int_wq [of "int n"] by (simp add: wq_of_int.rep_eq)

interpretation wq: prime_field wq_ops
proof
  fix x :: wq and n :: nat
  show "pf_into wq_ops x < pf_modulus wq_ops"
    using Rep_wq_bounds [of x] by (simp add: wq_ops_def)
  have "Rep_wq (of_nat (nat (Rep_wq x))) = Rep_wq x"
    using Rep_wq_bounds [of x] by (simp add: of_int_wq wq_of_int.rep_eq)
  then show "of_nat (pf_into wq_ops x) = x" by (simp add: wq_ops_def Rep_wq_inject)
  show "pf_into wq_ops (of_nat n) = n mod pf_modulus wq_ops"
    by (simp add: wq_ops_def Rep_of_nat_wq nat_mod_distrib)
qed (simp_all add: wq_ops_def WIDE_MODULUS_def)

section \<open>Concrete runs over the wide modulus\<close>

definition wq_draw :: "nat \<Rightarrow> wq \<times> nat" where
  "wq_draw g = (of_nat (13 * g + 8), Suc g)"

definition wq_committee :: "nat \<Rightarrow> nat \<Rightarrow> wq committee" where
  "wq_committee t n = \<lparr>threshold = t, points = evaluation_points (prime_share_ops wq_draw) n\<rparr>"

lemma wq_committee_sel [simp]:
  "threshold (wq_committee t n) = t" "committee_size (wq_committee t n) = n"
  by (simp_all add: wq_committee_def committee_size_def)

lemma good_wq_committee: "0 < t \<Longrightarrow> t < n \<Longrightarrow> n < 1000 \<Longrightarrow> good_committee (wq_committee t n)"
  unfolding good_committee_def wq_committee_def
  by (simp add: committee_size_def wq.share.good_evaluation_points wq_ops_def WIDE_MODULUS_def)

lemma wq_split:
  assumes "0 < t" "t < n"
  obtains x f g' where "committee_split (prime_share_ops wq_draw) (wq_committee t n) s g = Ok (x, g')"
    "sharing (threshold (wq_committee t n)) f x" "f 0 = s" "map point x = points (wq_committee t n)"
proof -
  have len: "length (points (wq_committee t n)) = n" by (simp add: wq_committee_def)
  obtain x g' where split: "split_secret (prime_share_ops wq_draw) s t (points (wq_committee t n)) g = Ok (x, g')"
    using split_secret_Ok [of t "points (wq_committee t n)" "prime_share_ops wq_draw" s g] assms len by auto
  with split_secret_sharing(1,2) [OF split] show ?thesis
    using that by (auto simp: committee_split_def)
qed

end
