(* ===== verification/Comparison_Net.thy ===== *)
theory Comparison_Net
  imports Comparison Node_Handoff Wide_Field
begin

text \<open>
  \<open>node/src/comparison_runtime.rs\<close>: the bounded comparison, the conditional selection and the
  conditional transfer with every opening sent through a mailbox. Where the library functions return
  an error, this code unwraps it, so an error here is a panic.

  The code is written for one prime field (the scalar field of BN254) and \<open>F2\<close>; the model takes any
  prime field \<open>P\<close> and any second field. The refinement lemmas show that whenever the local function
  of \<open>crypto/src/mpc\<close> succeeds, on shares at the committee's points, the networked one returns the
  same shares and the same generator state.
\<close>

definition BALANCE_BITS :: nat where
  "BALANCE_BITS = 32"

definition unwrapR :: "('e, 'a) res \<Rightarrow> ('d, 'a) res" where
  "unwrapR r = (case r of Ok x \<Rightarrow> Ok x | _ \<Rightarrow> Panic)"

definition centered_lift_net :: "'f prime_field_ops \<Rightarrow> 'f \<Rightarrow> int" where
  "centered_lift_net P f =
     (let bi = pf_into P f; half = pf_modulus P div 2
      in if half < bi then - int ((pf_modulus P - bi) mod 2 ^ 64) else int (bi mod 2 ^ 64))"

definition two_complement_bits_net :: "int \<Rightarrow> nat \<Rightarrow> (mpc_error, bool list) res" where
  "two_complement_bits_net delta bit_len =
     (if 128 \<le> bit_len \<or> bit_len = 127 \<and> delta < 0 then Panic
      else let modulus = 2 ^ bit_len; canonical = (if delta < 0 then modulus + delta else delta)
        in Ok (map (\<lambda>k. canonical div 2 ^ k mod 2 = 1) [0..<bit_len]))"

definition open_shares ::
  "'f::field shamir_share list \<Rightarrow> 'f committee \<Rightarrow> ident list \<Rightarrow> ident \<Rightarrow> network_profile \<Rightarrow> nat \<Rightarrow> (mpc_error, 'f) res"
where
  "open_shares shares committee nodes dealer profile required =
     (let mb = fold (\<lambda>(i, s). send dealer (i, share_value s)) (List.enumerate 0 shares)
                 (with_latency (one_way_latency profile));
          (subs, mb1) = drain dealer mb
      in bindR (mapR (\<lambda>(i, _). nthR (points committee) i) subs) (\<lambda>ps.
         bindR (unwrapR (reconstruct_from_parts ps (map snd subs) required)) (\<lambda>delta.
           let mb2 = fold (\<lambda>n. send n (2 ^ 64 - 1, delta)) nodes mb1;
               mb3 = fold (\<lambda>n mb. snd (drain n mb)) nodes mb2
           in Ok delta)))"

definition multiply_open ::
  "'f::field shamir_share list \<Rightarrow> 'f shamir_share list \<Rightarrow> 'f handoff_mask \<Rightarrow> 'f committee \<Rightarrow> ident list \<Rightarrow> ident \<Rightarrow>
     network_profile \<Rightarrow> (mpc_error, 'f shamir_share list) res"
where
  "multiply_open a b m committee nodes dealer profile =
     (let delta_shares = map (\<lambda>((ai, bi), ri). \<lparr>point = point ai,
            share_value = share_value ai * share_value bi - share_value ri\<rparr>) (zip (zip a b) (hm_source m))
      in bindR (open_shares delta_shares committee nodes dealer profile (2 * threshold committee + 1)) (\<lambda>delta.
           Ok (apply_difference delta (hm_destination m))))"

definition secret_and_network ::
  "('b::field, 'g) share_field_ops \<Rightarrow> 'b shamir_share list \<Rightarrow> 'b shamir_share list \<Rightarrow> 'b committee \<Rightarrow> ident list \<Rightarrow> ident \<Rightarrow>
     network_profile \<Rightarrow> 'g \<Rightarrow> (mpc_error, 'b shamir_share list \<times> 'g) res"
where
  "secret_and_network B a b committee nodes dealer profile g =
     bindR (unwrapR (reshare_pair_dealer B committee (2 * threshold committee) committee (threshold committee) g)) (\<lambda>(m, g').
     bindR (multiply_open a b m committee nodes dealer profile) (\<lambda>z. Ok (z, g')))"

definition full_adder_network ::
  "('b::field, 'g) share_field_ops \<Rightarrow> bool \<Rightarrow> 'b shamir_share list \<Rightarrow> 'b shamir_share list \<Rightarrow> 'b committee \<Rightarrow> ident list \<Rightarrow>
     ident \<Rightarrow> network_profile \<Rightarrow> 'g \<Rightarrow> (mpc_error, ('b shamir_share list \<times> 'b shamir_share list) \<times> 'g) res"
where
  "full_adder_network B a b c committee nodes dealer profile g =
     bindR (secret_and_network B b c committee nodes dealer profile g) (\<lambda>(t, g').
     let a_f = (if a then 1 else 0) in
     bindR (cell_loop (\<lambda>bi ci ti. a_f + bi + ci) (\<lambda>bi ci ti. a_f * (bi + ci) + ti) b c t) (\<lambda>out. Ok (out, g')))"

fun ripple_loop_network ::
  "('b::field, 'g) share_field_ops \<Rightarrow> 'b committee \<Rightarrow> ident list \<Rightarrow> ident \<Rightarrow> network_profile \<Rightarrow> bool list \<Rightarrow>
     'b shamir_share list list \<Rightarrow> 'b shamir_share list \<Rightarrow> 'g \<Rightarrow>
     (mpc_error, ('b shamir_share list list \<times> 'b shamir_share list) \<times> 'g) res"
where
  "ripple_loop_network B c nodes dealer profile [] rs carry g = Ok (([], carry), g)"
| "ripple_loop_network B c nodes dealer profile (d # ds) [] carry g = Panic"
| "ripple_loop_network B c nodes dealer profile (d # ds) (r # rs) carry g =
     bindR (full_adder_network B d r carry c nodes dealer profile g) (\<lambda>((s, k), g1).
     bindR (ripple_loop_network B c nodes dealer profile ds rs k g1) (\<lambda>((ss, k'), g2). Ok ((s # ss, k'), g2)))"

definition ripple_add_network ::
  "('b::field, 'g) share_field_ops \<Rightarrow> bool list \<Rightarrow> 'b shamir_share list list \<Rightarrow> 'b committee \<Rightarrow> ident list \<Rightarrow> ident \<Rightarrow>
     network_profile \<Rightarrow> 'g \<Rightarrow> (mpc_error, ('b shamir_share list list \<times> 'b shamir_share list) \<times> 'g) res"
where
  "ripple_add_network B delta_bits r_bits committee nodes dealer profile g =
     bindR (unwrapR (committee_split B committee 0 g)) (\<lambda>(carry, g1).
       ripple_loop_network B committee nodes dealer profile delta_bits r_bits carry g1)"

definition s2b_bounded_network ::
  "'f::field prime_field_ops \<Rightarrow> ('b::field, 'g) share_field_ops \<Rightarrow> 'f shamir_share list \<Rightarrow> ('f, 'b) bit_extract_pair \<Rightarrow> nat \<Rightarrow>
     'f committee \<Rightarrow> 'b committee \<Rightarrow> ident list \<Rightarrow> ident list \<Rightarrow> ident \<Rightarrow> network_profile \<Rightarrow> 'g \<Rightarrow>
     (mpc_error, 'b shamir_share list list \<times> 'g) res"
where
  "s2b_bounded_network P B x pair bit_len cf cb nodes_f nodes_b dealer profile g =
     bindR (unwrapR (masked_difference_shares x (bep_arithmetic pair))) (\<lambda>delta_shares.
     bindR (open_shares delta_shares cf nodes_f dealer profile (threshold cf + 1)) (\<lambda>delta_f.
     bindR (two_complement_bits_net (centered_lift_net P delta_f) bit_len) (\<lambda>delta_bits.
     bindR (ripple_add_network B delta_bits (bep_bits pair) cb nodes_b dealer profile g) (\<lambda>((sum_bits, carry), g'). Ok (sum_bits, g')))))"

definition b2a_network ::
  "'b::field shamir_share list \<Rightarrow> ('f::field, 'b) random_bit_pair \<Rightarrow> 'b committee \<Rightarrow> ident list \<Rightarrow> ident \<Rightarrow>
     network_profile \<Rightarrow> (mpc_error, 'f shamir_share list) res"
where
  "b2a_network b rb cb nodes_b dealer profile =
     bindR (open_shares (zip_shares (+) b (rb_boolean rb)) cb nodes_b dealer profile (threshold cb + 1)) (\<lambda>c.
       let c_f = (if c = 1 then 1 else 0); two_c = c_f + c_f
       in Ok (map (\<lambda>r. \<lparr>point = point r, share_value = share_value r + c_f - two_c * share_value r\<rparr>) (rb_arithmetic rb)))"

definition conditional_select_network ::
  "'b::field shamir_share list \<Rightarrow> 'f::field shamir_share list \<Rightarrow> 'f shamir_share list \<Rightarrow> ('f, 'b) random_bit_pair \<Rightarrow>
     'f handoff_mask \<Rightarrow> 'f committee \<Rightarrow> 'b committee \<Rightarrow> ident list \<Rightarrow> ident list \<Rightarrow> ident \<Rightarrow> network_profile \<Rightarrow>
     (mpc_error, 'f shamir_share list) res"
where
  "conditional_select_network b x y rb m cf cb nodes_f nodes_b dealer profile =
     bindR (b2a_network b rb cb nodes_b dealer profile) (\<lambda>bit_arith.
     bindR (multiply_open bit_arith (zip_shares (-) x y) m cf nodes_f dealer profile) (\<lambda>t. Ok (zip_shares (+) y t)))"

definition geq_bounded_network ::
  "'f::field prime_field_ops \<Rightarrow> ('b::field, 'g) share_field_ops \<Rightarrow> 'f shamir_share list \<Rightarrow> 'f shamir_share list \<Rightarrow>
     ('f, 'b) bit_extract_pair \<Rightarrow> nat \<Rightarrow> 'f committee \<Rightarrow> 'b committee \<Rightarrow> ident list \<Rightarrow> ident list \<Rightarrow> ident \<Rightarrow>
     network_profile \<Rightarrow> 'g \<Rightarrow> (mpc_error, 'b shamir_share list \<times> 'g) res"
where
  "geq_bounded_network P B a b pair bit_len cf cb nodes_f nodes_b dealer profile g =
     bindR (one_shl_u64 bit_len) (\<lambda>top.
      let two_pow = pf_from_u64 top; w = zip_shares (\<lambda>x y. x - y + two_pow) a b
      in bindR (s2b_bounded_network P B w pair (bit_len + 1) cf cb nodes_f nodes_b dealer profile g) (\<lambda>(bits, g').
           bindR (nthR bits bit_len) (\<lambda>bit. Ok (bit, g'))))"

definition conditional_transfer_network ::
  "'f::field prime_field_ops \<Rightarrow> ('f, 'g) share_field_ops \<Rightarrow> ('b::field, 'g) share_field_ops \<Rightarrow> ('g \<Rightarrow> bool \<times> 'g) \<Rightarrow>
     'f shamir_share list \<Rightarrow> 'f shamir_share list \<Rightarrow> 'f shamir_share list \<Rightarrow> 'f shamir_share list \<Rightarrow>
     ('f, 'b) bit_extract_pair \<Rightarrow> 'f committee \<Rightarrow> 'b committee \<Rightarrow> ident list \<Rightarrow> ident list \<Rightarrow> ident \<Rightarrow>
     network_profile \<Rightarrow> 'g \<Rightarrow> (mpc_error, ('f shamir_share list \<times> 'f shamir_share list) \<times> 'g) res"
where
  "conditional_transfer_network P F B gen_bool sender receiver minimum amount pair cf cb nodes_f nodes_b dealer profile g =
     bindR (geq_bounded_network P B minimum sender pair BALANCE_BITS cf cb nodes_f nodes_b dealer profile g) (\<lambda>(geq_min, g1).
       let gt = map (\<lambda>s. \<lparr>point = point s, share_value = share_value s + 1\<rparr>) geq_min;
           sender_minus = zip_shares (-) sender amount;
           receiver_plus = zip_shares (+) receiver amount;
           t = threshold cf in
       bindR (unwrapR (generate_random_bit F B gen_bool cf cb g1)) (\<lambda>(rb1, g2).
       bindR (unwrapR (reshare_pair_dealer F cf (2 * t) cf t g2)) (\<lambda>(mask1, g3).
       bindR (conditional_select_network gt sender_minus sender rb1 mask1 cf cb nodes_f nodes_b dealer profile) (\<lambda>sender_new.
       bindR (unwrapR (generate_random_bit F B gen_bool cf cb g3)) (\<lambda>(rb2, g4).
       bindR (unwrapR (reshare_pair_dealer F cf (2 * t) cf t g4)) (\<lambda>(mask2, g5).
       bindR (conditional_select_network gt receiver_plus receiver rb2 mask2 cf cb nodes_f nodes_b dealer profile) (\<lambda>receiver_new.
         Ok ((sender_new, receiver_new), g5))))))))"

section \<open>Opening over the network is reconstruction\<close>

lemma unwrapR_eq_Ok [simp]: "unwrapR r = Ok x \<longleftrightarrow> r = Ok x"
  by (simp add: unwrapR_def split: res.split)

lemma unwrapR_Ok [simp]: "unwrapR (Ok x) = Ok x"
  by (simp add: unwrapR_def)

lemma centered_lift_net_eq: "centered_lift_net P = centered_lift P"
  by (rule ext) (simp add: centered_lift_net_def centered_lift_def Let_def)

lemma two_complement_bits_net_eq: "two_complement_bits_net d l = two_complement_bits d l"
  by (simp add: two_complement_bits_net_def two_complement_bits_def Let_def bit_iff_odd odd_iff_mod_2_eq_one)

lemma open_shares_eq:
  assumes "map point shares = points c"
  shows "open_shares shares c nodes dealer profile k = unwrapR (reconstruct shares k)"
proof -
  let ?mb = "fold (\<lambda>(i, s). send dealer (i, share_value s)) (List.enumerate 0 shares) (with_latency (one_way_latency profile))"
  have q: "map snd (queue_of (fold (\<lambda>(i, s). send r (i, share_value s)) iss mb) r) =
      map snd (queue_of mb r) @ map (\<lambda>(i, s). (i, share_value s)) iss" for iss mb and r :: ident
    by (induction iss arbitrary: mb) (auto simp: queue_of_send)
  define subs where "subs = map (\<lambda>(i, s). (i, share_value s)) (List.enumerate 0 shares)"
  have "fst (drain dealer ?mb) = subs" by (simp add: fst_drain q subs_def)
  then obtain mb1 where drained: "drain dealer ?mb = (subs, mb1)" by (cases "drain dealer ?mb") simp
  have len: "length shares = length (points c)" using assms by (metis length_map)
  have "mapR (\<lambda>(i, _). nthR (points c) i) subs = (Ok (map (\<lambda>(i, _). points c ! i) subs) :: (mpc_error, _) res)"
    by (rule mapR_Ok) (auto simp: subs_def enumerate_eq_map_nth nthR_in_range len)
  also have "map (\<lambda>(i, _). points c ! i) subs = map point shares"
    by (rule nth_equalityI) (simp_all add: subs_def enumerate_eq_map_nth flip: assms)
  finally have ps: "mapR (\<lambda>(i, _). nthR (points c) i) subs = (Ok (map point shares) :: (mpc_error, _) res)" .
  have vals: "map snd subs = map share_value shares"
    by (rule nth_equalityI) (simp_all add: subs_def enumerate_eq_map_nth)
  show ?thesis
    unfolding open_shares_def Let_def
    by (simp only: drained prod.case ps vals bindR.simps reconstruct_parts_eq bindR_Ok_right)
qed

lemma combine_shares_zip: "combine_shares op xs ys = Ok ds \<Longrightarrow> length xs = length ys \<Longrightarrow> ds = zip_shares op xs ys"
proof -
  assume "combine_shares op xs ys = Ok ds" "length xs = length ys"
  from this(2,1) show ?thesis
    by (induction xs ys arbitrary: ds rule: list_induct2) (auto simp: combine_shares_def zip_shares_def split: if_splits)
qed

lemma zip_shares_points [simp]: "length xs = length ys \<Longrightarrow> map point (zip_shares op xs ys) = map point xs"
  by (induction xs ys rule: list_induct2) (simp_all add: zip_shares_def)

lemma combine_shares3_zip:
  assumes "combine_shares3 op xs ys zs = Ok ds" "length xs = length ys" "length ys = length zs"
  shows "ds = map (\<lambda>((x, y), z). \<lparr>point = point x, share_value = op (share_value x) (share_value y) (share_value z)\<rparr>)
           (zip (zip xs ys) zs) \<and> map point ds = map point xs"
  using assms(2,3,1)
  by (induction xs ys zs arbitrary: ds rule: list_induct3) (auto simp: combine_shares3_def split: if_splits)

lemma multiply_open_refines:
  assumes "multiply_and_handoff a b m c c = Ok z" "map point a = points c"
  shows "multiply_open a b m c nodes dealer profile = Ok z \<and> map point z = map point (hm_destination m)"
proof -
  have len: "length a = length b" "length a = length (hm_source m)"
    using assms(1) by (auto simp: multiply_and_handoff_def split: if_splits)
  obtain ds delta where ds: "combine_shares3 (\<lambda>xi yi ri. xi * yi - ri) a b (hm_source m) = Ok ds"
    and delta: "reconstruct ds (2 * threshold c + 1) = Ok delta" "z = apply_difference delta (hm_destination m)"
    using assms(1) by (auto simp: multiply_and_handoff_def split: if_splits)
  have eq: "ds = map (\<lambda>((x, y), z). \<lparr>point = point x, share_value = share_value x * share_value y - share_value z\<rparr>)
      (zip (zip a b) (hm_source m))" "map point ds = points c"
    using combine_shares3_zip [OF ds] len assms(2) by auto
  have "multiply_open a b m c nodes dealer profile =
      bindR (open_shares ds c nodes dealer profile (2 * threshold c + 1)) (\<lambda>delta. Ok (apply_difference delta (hm_destination m)))"
    by (simp add: multiply_open_def Let_def flip: eq(1))
  then show ?thesis
    using open_shares_eq [OF eq(2), of nodes dealer profile "2 * threshold c + 1"] delta
    by (simp add: apply_difference_def comp_def)
qed

lemma secret_and_refines:
  assumes "secret_and B a b c g = Ok (z, g')" "map point a = points c"
  shows "secret_and_network B a b c nodes dealer profile g = Ok (z, g')"
  using assms multiply_open_refines [OF _ assms(2), of b _ z nodes dealer profile]
  by (auto simp: secret_and_def secret_and_network_def)

lemma cell_loop_points:
  assumes "cell_loop op1 op2 xs ys zs = Ok (s, k)"
  shows "map point s = map point xs \<and> map point k = map point xs"
proof -
  obtain out where out: "mapR (\<lambda>i. bindR (nthR xs i) (\<lambda>x. bindR (nthR ys i) (\<lambda>y. bindR (nthR zs i) (\<lambda>z.
              Ok (\<lparr>point = point x, share_value = op1 (share_value x) (share_value y) (share_value z)\<rparr>,
                  \<lparr>point = point x, share_value = op2 (share_value x) (share_value y) (share_value z)\<rparr>)))))
            [0..<length xs] = (Ok out :: (mpc_error, _) res)" and sk: "s = map fst out" "k = map snd out"
    using assms by (auto simp: cell_loop_def)
  have "length out = length xs" using mapR_length [OF out] by simp
  moreover have "point (fst (out ! i)) = point (xs ! i) \<and> point (snd (out ! i)) = point (xs ! i)" if "i < length xs" for i
    using out [unfolded mapR_eq_Ok_iff, THEN list_all2_nthD, of i] that by (cases "out ! i") auto
  ultimately show ?thesis unfolding sk by (auto intro!: nth_equalityI)
qed

lemma full_adder_refines:
  assumes "full_adder B a b k c g = Ok (out, g')" "map point b = points c"
  shows "full_adder_network B a b k c nodes dealer profile g = Ok (out, g')"
proof -
  obtain t where "secret_and B b k c g = Ok (t, g')"
    "cell_loop (\<lambda>bi ci ti. (if a then 1 else 0) + bi + ci) (\<lambda>bi ci ti. (if a then 1 else 0) * (bi + ci) + ti) b k t = Ok out"
    using assms(1) by (auto simp: full_adder_def Let_def)
  with secret_and_refines [OF this(1) assms(2)] show ?thesis
    by (simp add: full_adder_network_def Let_def)
qed

lemma ripple_loop_refines:
  assumes "ripple_add_loop B c ds rs carry g = Ok (out, g')" "\<And>r. r \<in> set rs \<Longrightarrow> map point r = points c"
  shows "ripple_loop_network B c nodes dealer profile ds rs carry g = Ok (out, g')"
  using assms
proof (induction B c ds rs carry g arbitrary: out g' rule: ripple_add_loop.induct)
  case (3 B c d ds r rs carry g)
  obtain s k g1 ss k' where run: "full_adder B d r carry c g = Ok ((s, k), g1)"
    "ripple_add_loop B c ds rs k g1 = Ok ((ss, k'), g')" "out = (s # ss, k')"
    using 3(2) by auto
  have "full_adder_network B d r carry c nodes dealer profile g = Ok ((s, k), g1)"
    by (rule full_adder_refines [OF run(1)]) (use 3(3) in simp)
  moreover have "ripple_loop_network B c nodes dealer profile ds rs k g1 = Ok ((ss, k'), g')"
    by (rule 3(1) [OF run(1) refl refl run(2)]) (use 3(3) in simp)
  ultimately show ?case using run(3) by simp
qed auto

lemma s2b_bounded_refines:
  assumes "s2b_bounded P B x pair l cf cb g = Ok (out, g')" "map point x = points cf"
    and "\<And>r. r \<in> set (bep_bits pair) \<Longrightarrow> map point r = points cb"
  shows "s2b_bounded_network P B x pair l cf cb nodes_f nodes_b dealer profile g = Ok (out, g')"
proof -
  obtain ds delta bits k where run: "masked_difference_shares x (bep_arithmetic pair) = Ok ds"
    "reconstruct ds (threshold cf + 1) = Ok delta" "ripple_add B bits (bep_bits pair) cb g = Ok ((out, k), g')"
    and bits: "two_complement_bits (centered_lift P delta) l = Ok bits"
    using assms(1) by (auto simp: s2b_bounded_def split: if_splits)
  have "map point ds = points cf" using masked_difference_points [OF run(1)] assms(2) by simp
  from open_shares_eq [OF this, of nodes_f dealer profile "threshold cf + 1"] run(2)
  have opened: "open_shares ds cf nodes_f dealer profile (threshold cf + 1) = Ok delta" by simp
  obtain carry g1 where carry: "committee_split B cb 0 g = Ok (carry, g1)"
    "ripple_add_loop B cb bits (bep_bits pair) carry g1 = Ok ((out, k), g')"
    using run(3) by (auto simp: ripple_add_def)
  have "ripple_add_network B bits (bep_bits pair) cb nodes_b dealer profile g
      = Ok ((out, k), g')"
    using carry(1) ripple_loop_refines [OF carry(2) assms(3)] by (simp add: ripple_add_network_def)
  with run(1) opened show ?thesis
    by (simp add: s2b_bounded_network_def centered_lift_net_eq two_complement_bits_net_eq bits)
qed

lemma geq_bounded_refines:
  assumes "greater_than_or_equal_bounded P B a b pair l cf cb g = Ok (out, g')" "map point a = points cf"
    and "\<And>r. r \<in> set (bep_bits pair) \<Longrightarrow> map point r = points cb"
  shows "geq_bounded_network P B a b pair l cf cb nodes_f nodes_b dealer profile g = Ok (out, g')"
proof -
  obtain top w bits where top: "one_shl_u64 l = Ok top" and w: "length a = length b" "combine_shares (\<lambda>x y. x - y + pf_from_u64 top) a b = Ok w"
    "s2b_bounded P B w pair (l + 1) cf cb g = Ok (bits, g')" "l < length bits" "out = bits ! l"
    using assms(1) unfolding greater_than_or_equal_bounded_def Let_def by (auto split: if_splits)
  note we = combine_shares_zip [OF w(2,1)]
  have "s2b_bounded_network P B w pair (l + 1) cf cb nodes_f nodes_b dealer profile g = Ok (bits, g')"
    by (rule s2b_bounded_refines [OF w(3) _ assms(3)]) (use we w(1) assms(2) in simp_all)
  then show ?thesis
    unfolding geq_bounded_network_def Let_def top bindR.simps(1) we [symmetric] using w(4,5) by (simp add: nthR_in_range)
qed

lemma conditional_select_refines:
  assumes "conditional_select b x y rb m cf cb = Ok out" "map point b = points cb" "map point (rb_arithmetic rb) = points cf"
  shows "conditional_select_network b x y rb m cf cb nodes_f nodes_b dealer profile = Ok out"
proof -
  obtain ba diff t where run: "length x = length y" "b2a b rb cb = Ok ba" "combine_shares (-) x y = Ok diff"
    "multiply_and_handoff ba diff m cf cf = Ok t" "out = zip_shares (+) y t"
    using assms(1) by (auto simp: conditional_select_def split: if_splits)
  obtain cs c where cs: "length b = length (rb_boolean rb)" "combine_shares (+) b (rb_boolean rb) = Ok cs"
    "committee_reconstruct cb cs = Ok c"
    and ba: "ba = map (\<lambda>r. \<lparr>point = point r, share_value = share_value r + (if c = 1 then 1 else 0) -
        ((if c = 1 then 1 else 0) + (if c = 1 then 1 else 0)) * share_value r\<rparr>) (rb_arithmetic rb)"
    using run(2) by (auto simp: b2a_def Let_def split: if_splits)
  have cz: "cs = zip_shares (+) b (rb_boolean rb)" by (rule combine_shares_zip [OF cs(2,1)])
  have "map point cs = points cb" using cz cs(1) assms(2) by simp
  from open_shares_eq [OF this, of nodes_b dealer profile "threshold cb + 1"] cs(3)
  have "b2a_network b rb cb nodes_b dealer profile = Ok ba"
    unfolding b2a_network_def cz [symmetric] by (simp add: committee_reconstruct_def ba)
  moreover have "map point ba = points cf" using assms(3) by (simp add: ba comp_def)
  from multiply_open_refines [OF run(4) this]
  have "multiply_open ba (zip_shares (-) x y) m cf nodes_f dealer profile = Ok t"
    by (simp flip: combine_shares_zip [OF run(3,1)])
  ultimately show ?thesis using run(5) by (simp add: conditional_select_network_def)
qed

context boolean_committee
begin

lemma pair_bits_points:
  assumes "pair_for cf bs r pair" "x \<in> set (bep_bits pair)"
  shows "map point x = points cm"
proof -
  have "list_all2 bit_sharing bs (bep_bits pair)" using assms(1) by (simp add: pair_for_def)
  moreover obtain i where "i < length (bep_bits pair)" "x = bep_bits pair ! i"
    using assms(2) by (auto simp: in_set_conv_nth)
  ultimately have "bit_sharing (bs ! i) x" using list_all2_nthD2 by blast
  then show ?thesis by (simp add: val_sharing_sharing)
qed

lemma select_network_val:
  fixes cf :: "'f::field committee"
  assumes cf: "good_committee cf" "2 * threshold cf < committee_size cf" and b: "bit_sharing v xs"
    and x: "val_sharing (threshold cf) (points cf) p x" and y: "val_sharing (threshold cf) (points cf) q y"
  shows "\<exists>rb g1 m g2 out. generate_random_bit F B gen_bool cf cm g = Ok (rb, g1) \<and>
    reshare_pair_dealer F cf (2 * threshold cf) cf (threshold cf) g1 = Ok (m, g2) \<and>
    conditional_select_network xs x y rb m cf cm nodes_f nodes_b dealer profile = Ok out \<and>
    val_sharing (threshold cf) (points cf) (if v then p else q) out"
proof -
  obtain rb g1 where rb: "generate_random_bit F B gen_bool cf cm g = Ok (rb, g1)" "random_bit_ok cf rb"
    by (rule generate_random_bit_ok [OF cf(1)])
  have t: "0 < threshold cf" "threshold cf < committee_size cf" using cf(1) by (simp_all add: good_committee_def)
  obtain m g2 r where m: "reshare_pair_dealer F cf (2 * threshold cf) cf (threshold cf) g1 = Ok (m, g2)"
    "mask_pair (points cf) (points cf) (2 * threshold cf) (threshold cf) r m"
    by (rule reshare_pair_dealer_ok [of "2 * threshold cf" cf "threshold cf" cf F g1]) (use t cf(2) in simp_all)
  obtain out where out: "conditional_select xs x y rb m cf cm = Ok out"
    "val_sharing (threshold cf) (points cf) (if v then p else q) out"
    by (rule conditional_select_val [OF cf b rb(2) x y m(2)])
  have "map point xs = points cm" "map point (rb_arithmetic rb) = points cf"
    using b rb(2) by (auto simp: val_sharing_sharing random_bit_ok_def)
  from conditional_select_refines [OF out(1) this] rb(1) m(1) out(2) show ?thesis by blast
qed

end

section \<open>Properties\<close>

text \<open>C25. The networked comparison refines the local one: whenever the bounded comparison of
  \<open>crypto/src/mpc\<close> succeeds on shares at the committees' points, the version that opens through the
  mailbox returns the same shares and leaves the same generator state, under every network profile.\<close>

theorem geq_network_refines_local:
  assumes "greater_than_or_equal_bounded P B a b pair l cf cb g = Ok (out, g')"
    and "map point a = points cf" and "list_all (\<lambda>r. map point r = points cb) (bep_bits pair)"
  shows "geq_bounded_network P B a b pair l cf cb nodes_f nodes_b dealer profile g = Ok (out, g')"
  by (rule geq_bounded_refines [OF assms(1,2)]) (use assms(3) in \<open>simp add: list_all_iff\<close>)

theorem geq_network_refines_local_witness:
  "\<exists>a b g1 g2 pair g3 out g4.
     committee_split (prime_share_ops wq_draw) (wq_committee 2 5) 70 0 = Ok (a, g1) \<and>
     committee_split (prime_share_ops wq_draw) (wq_committee 2 5) 50000 g1 = Ok (b, g2) \<and>
     generate_bit_extract_pair_bounded (prime_share_ops wq_draw) (f2_ops counter_rng) (\<lambda>g. (of_nat (g * g), Suc g))
       (wq_committee 2 5) (f2_committee 2 5) 33 g2 = Ok (pair, g3) \<and>
     greater_than_or_equal_bounded wq_ops (f2_ops counter_rng) a b pair 32 (wq_committee 2 5) (f2_committee 2 5) g3 = Ok (out, g4) \<and>
     geq_bounded_network wq_ops (f2_ops counter_rng) a b pair 32 (wq_committee 2 5) (f2_committee 2 5)
       [[1], [2]] [[3]] [9] Wan g3 = Ok (out, g4)"
proof -
  let ?F = "prime_share_ops wq_draw" and ?cf = "wq_committee 2 5" and ?B = "f2_ops counter_rng" and ?cb = "f2_committee 2 5"
    and ?w = "\<lambda>g. (of_nat (g * g) :: u64, Suc g)"
  obtain a f g1 where a: "committee_split ?F ?cf 70 0 = Ok (a, g1)"
    "sharing (threshold ?cf) f a" "f 0 = 70" "map point a = points ?cf"
    by (rule wq_split [of 2 5 70 0]) simp_all
  obtain b h g2 where b: "committee_split ?F ?cf 50000 g1 = Ok (b, g2)"
    "sharing (threshold ?cf) h b" "h 0 = 50000" "map point b = points ?cf"
    by (rule wq_split [of 2 5 50000 g1]) simp_all
  have cf: "good_committee ?cf" and cb: "boolean_committee ?cb"
    by (simp_all add: good_wq_committee boolean_f2_committee)
  have q: "pf_modulus wq_ops = 206158430209" by (simp add: wq_ops_def WIDE_MODULUS_def)
  obtain pair g3 r where pair: "generate_bit_extract_pair_bounded ?F ?B ?w ?cf ?cb (32 + 1) g2 = Ok (pair, g3)"
    "boolean_committee.pair_for ?cb ?cf (nat_bits (32 + 1) (pf_into wq_ops r)) r pair" "pf_into wq_ops r < 2 ^ (32 + 1)"
    by (rule boolean_committee.generate_bit_extract_pair_bounded_for [OF cb wq.prime_field_axioms cf, of "32 + 1" ?F ?B ?w g2])
      (simp_all add: q)
  have val: "val_sharing (threshold ?cf) (points ?cf) (f 0) a" "val_sharing (threshold ?cf) (points ?cf) (h 0) b"
    unfolding val_sharing_sharing using a b by blast+
  have into: "pf_into wq_ops (f 0) = 70" "pf_into wq_ops (h 0) = 50000"
    using wq.into_small [of 70] wq.into_small [of 50000] a(3) b(3) by (simp_all add: q)
  obtain out g4 where out: "greater_than_or_equal_bounded wq_ops ?B a b pair 32 ?cf ?cb g3 = Ok (out, g4)"
    by (rule boolean_committee.greater_than_or_equal_bounded_val [OF cb wq.prime_field_axioms cf _ _ val pair(2,3), of ?B g3])
      (simp_all add: into q)
  have "list_all (\<lambda>r. map point r = points ?cb) (bep_bits pair)"
    using boolean_committee.pair_bits_points [OF cb pair(2)] by (simp add: list_all_iff)
  from geq_network_refines_local [OF out a(4) this, of "[[1], [2]]" "[[3]]" "[9]" Wan] a(1) b(1) pair(1) out
  show ?thesis by auto
qed

text \<open>The networked conditional transfer is right for every 32-bit sender balance and minimum in a field
  of more than 34 bits: the outputs open to \<open>sender - amount\<close> and \<open>receiver + amount\<close> when
  \<open>minimum < sender\<close>, and to the old balances otherwise.\<close>

theorem conditional_transfer_network_correct:
  assumes P: "prime_field P" and cf: "good_committee cf" "committee_size cf = committee_size cb" "threshold cf = threshold cb"
    and cb: "boolean_committee cb" and maj: "2 * threshold cf < committee_size cf"
    and s: "sharing (threshold cf) s sender" "map point sender = points cf"
    and r: "sharing (threshold cf) r receiver" "map point receiver = points cf"
    and m: "sharing (threshold cf) m minimum" "map point minimum = points cf"
    and am: "sharing (threshold cf) am amount" "map point amount = points cf"
    and pair: "generate_bit_extract_pair_bounded F B gen_u64 cf cb (BALANCE_BITS + 1) g = Ok (pair, g1)"
    and range: "pf_into P (s 0) < 2 ^ 32" "pf_into P (m 0) < 2 ^ 32" "2 ^ 34 \<le> pf_modulus P"
  shows "\<exists>sn rn g2. conditional_transfer_network P F B gen_bool sender receiver minimum amount pair cf cb nodes_f nodes_b
             dealer profile g1 = Ok ((sn, rn), g2) \<and>
           committee_reconstruct cf sn = Ok (if pf_into P (m 0) < pf_into P (s 0) then s 0 - am 0 else s 0) \<and>
           committee_reconstruct cf rn = Ok (if pf_into P (m 0) < pf_into P (s 0) then r 0 + am 0 else r 0)"
proof -
  let ?gt = "pf_into P (m 0) < pf_into P (s 0)"
  have sv: "val_sharing (threshold cf) (points cf) (s 0) sender" and rv: "val_sharing (threshold cf) (points cf) (r 0) receiver"
    and mv: "val_sharing (threshold cf) (points cf) (m 0) minimum" and av: "val_sharing (threshold cf) (points cf) (am 0) amount"
    unfolding val_sharing_sharing using s r m am by blast+
  have q: "2 ^ (32 + 1) \<le> pf_modulus P" "2 ^ (32 + 2) \<le> pf_modulus P" using range(3) by simp_all
  obtain p' g' w where p: "generate_bit_extract_pair_bounded F B gen_u64 cf cb (32 + 1) g = Ok (p', g')"
    "boolean_committee.pair_for cb cf (nat_bits (32 + 1) (pf_into P w)) w p'" "pf_into P w < 2 ^ (32 + 1)"
    by (rule boolean_committee.generate_bit_extract_pair_bounded_for [OF cb P cf(1) _ q(1), of F B gen_u64 g]) simp_all
  have p': "p' = pair" using p(1) pair by (simp add: BALANCE_BITS_def)
  obtain geq g2 where geq: "greater_than_or_equal_bounded P B minimum sender pair 32 cf cb g1 = Ok (geq, g2)"
    "val_sharing (threshold cb) (points cb) (of_bool (pf_into P (s 0) \<le> pf_into P (m 0))) geq"
    by (rule boolean_committee.greater_than_or_equal_bounded_val [OF cb P cf mv sv p(2,3) [unfolded p'] range(2,1) q(2), of B g1]) simp
  have geqn: "geq_bounded_network P B minimum sender pair BALANCE_BITS cf cb nodes_f nodes_b dealer profile g1 = Ok (geq, g2)"
    unfolding BALANCE_BITS_def
    by (rule geq_bounded_refines [OF geq(1) m(2) boolean_committee.pair_bits_points [OF cb p(2) [unfolded p']]])
  let ?gtb = "map (\<lambda>s. \<lparr>point = point s, share_value = share_value s + 1\<rparr>) geq"
  have gtb: "val_sharing (threshold cb) (points cb) (of_bool ?gt) ?gtb"
    using boolean_committee.plus_one_val [OF cb geq(2)] by (simp add: not_le)
  have sm: "val_sharing (threshold cf) (points cf) (s 0 - am 0) (zip_shares (-) sender amount)"
    by (rule val_sharing_zip [OF sv av]) (rule pdeg_diff)
  have rp: "val_sharing (threshold cf) (points cf) (r 0 + am 0) (zip_shares (+) receiver amount)"
    by (rule val_sharing_zip [OF rv av]) (rule pdeg_add)
  obtain rb1 g3 mk1 g4 sn where s1: "generate_random_bit F B gen_bool cf cb g2 = Ok (rb1, g3)"
    "reshare_pair_dealer F cf (2 * threshold cf) cf (threshold cf) g3 = Ok (mk1, g4)"
    "conditional_select_network ?gtb (zip_shares (-) sender amount) sender rb1 mk1 cf cb nodes_f nodes_b dealer profile = Ok sn"
    "val_sharing (threshold cf) (points cf) (if ?gt then s 0 - am 0 else s 0) sn"
    using boolean_committee.select_network_val [OF cb cf(1) maj gtb sm sv, where F = F and B = B and gen_bool = gen_bool and g = g2
      and nodes_f = nodes_f and nodes_b = nodes_b and dealer = dealer and profile = profile] by blast
  obtain rb2 g5 mk2 g6 rn where s2: "generate_random_bit F B gen_bool cf cb g4 = Ok (rb2, g5)"
    "reshare_pair_dealer F cf (2 * threshold cf) cf (threshold cf) g5 = Ok (mk2, g6)"
    "conditional_select_network ?gtb (zip_shares (+) receiver amount) receiver rb2 mk2 cf cb nodes_f nodes_b dealer profile = Ok rn"
    "val_sharing (threshold cf) (points cf) (if ?gt then r 0 + am 0 else r 0) rn"
    using boolean_committee.select_network_val [OF cb cf(1) maj gtb rp rv, where F = F and B = B and gen_bool = gen_bool and g = g4
      and nodes_f = nodes_f and nodes_b = nodes_b and dealer = dealer and profile = profile] by blast
  have "conditional_transfer_network P F B gen_bool sender receiver minimum amount pair cf cb nodes_f nodes_b dealer profile g1
      = Ok ((sn, rn), g6)"
    unfolding conditional_transfer_network_def Let_def geqn
    by (simp only: bindR.simps prod.case s1(1-3) s2(1-3) unwrapR_Ok)
  with val_sharing_committee_reconstruct [OF cf(1) s1(4)] val_sharing_committee_reconstruct [OF cf(1) s2(4)]
  show ?thesis by blast
qed

theorem conditional_transfer_network_correct_witness:
  "\<exists>s r m am g1 g2 g3 g4 pair g5 sn rn g6.
     committee_split (prime_share_ops wq_draw) (wq_committee 2 5) 100 0 = Ok (s, g1) \<and>
     committee_split (prime_share_ops wq_draw) (wq_committee 2 5) 20 g1 = Ok (r, g2) \<and>
     committee_split (prime_share_ops wq_draw) (wq_committee 2 5) 49 g2 = Ok (m, g3) \<and>
     committee_split (prime_share_ops wq_draw) (wq_committee 2 5) 50 g3 = Ok (am, g4) \<and>
     generate_bit_extract_pair_bounded (prime_share_ops wq_draw) (f2_ops counter_rng) (\<lambda>g. (of_nat (g * g), Suc g))
       (wq_committee 2 5) (f2_committee 2 5) (BALANCE_BITS + 1) g4 = Ok (pair, g5) \<and>
     conditional_transfer_network wq_ops (prime_share_ops wq_draw) (f2_ops counter_rng) (\<lambda>g. (even g, Suc g))
       s r m am pair (wq_committee 2 5) (f2_committee 2 5) [[1], [2]] [[3]] [9] Lan g5 = Ok ((sn, rn), g6) \<and>
     committee_reconstruct (wq_committee 2 5) sn = Ok (100 - 50) \<and>
     committee_reconstruct (wq_committee 2 5) rn = Ok (20 + 50)"
proof -
  let ?F = "prime_share_ops wq_draw" and ?cf = "wq_committee 2 5" and ?B = "f2_ops counter_rng" and ?cb = "f2_committee 2 5"
    and ?w = "\<lambda>g. (of_nat (g * g) :: u64, Suc g)"
  obtain s fs g1 where s: "committee_split ?F ?cf 100 0 = Ok (s, g1)"
    "sharing (threshold ?cf) fs s" "fs 0 = 100" "map point s = points ?cf"
    by (rule wq_split [of 2 5 100 0]) simp_all
  obtain r fr g2 where r: "committee_split ?F ?cf 20 g1 = Ok (r, g2)"
    "sharing (threshold ?cf) fr r" "fr 0 = 20" "map point r = points ?cf"
    by (rule wq_split [of 2 5 20 g1]) simp_all
  obtain m fm g3 where m: "committee_split ?F ?cf 49 g2 = Ok (m, g3)"
    "sharing (threshold ?cf) fm m" "fm 0 = 49" "map point m = points ?cf"
    by (rule wq_split [of 2 5 49 g2]) simp_all
  obtain am fa g4 where am: "committee_split ?F ?cf 50 g3 = Ok (am, g4)"
    "sharing (threshold ?cf) fa am" "fa 0 = 50" "map point am = points ?cf"
    by (rule wq_split [of 2 5 50 g3]) simp_all
  have cf: "good_committee ?cf" and cb: "boolean_committee ?cb"
    by (simp_all add: good_wq_committee boolean_f2_committee)
  have q: "pf_modulus wq_ops = 206158430209" by (simp add: wq_ops_def WIDE_MODULUS_def)
  obtain pair g5 where pair: "generate_bit_extract_pair_bounded ?F ?B ?w ?cf ?cb (BALANCE_BITS + 1) g4 = Ok (pair, g5)"
    by (rule boolean_committee.generate_bit_extract_pair_bounded_for
        [OF cb wq.prime_field_axioms cf, of "BALANCE_BITS + 1" ?F ?B ?w g4]) (simp_all add: q BALANCE_BITS_def)
  have "pf_into wq_ops (fs 0) = 100" "pf_into wq_ops (fm 0) = 49"
    using wq.into_small [of 100] wq.into_small [of 49] s(3) m(3) by (simp_all add: q)
  with conditional_transfer_network_correct [OF wq.prime_field_axioms cf _ _ cb _ s(2,4) r(2,4) m(2,4) am(2,4) pair,
      of "\<lambda>g. (even g, Suc g)" "[[1], [2]]" "[[3]]" "[9]" Lan] q
  show ?thesis using s(1,3) r(1,3) m(1) am(1,3) pair by auto
qed

end
