(* ===== verification/Packed.thy ===== *)
theory Packed
  imports Handoff_Math Prime_Field
begin

text \<open>
  \<open>crypto/src/mpc/packed.rs\<close>: one polynomial of degree \<open>t + L - 1\<close> holds \<open>L\<close> values, at \<open>L\<close> packing
  points that are disjoint from the committee's evaluation points.

  The lemmas show that every operation outputs the values of a polynomial at the committee's points,
  bound its degree and compute its values at the packing points (\<open>packs\<close>).
\<close>

record 'f packed_params =
  pk_committee :: "'f committee"
  pk_slots :: nat
  pk_degree :: nat
  pk_points :: "'f list"

record 'f packed_pair =
  pp_low :: "'f shamir_share list"
  pp_high :: "'f shamir_share list"

definition packed_params_new ::
  "('f::field, 'g) share_field_ops \<Rightarrow> nat \<Rightarrow> nat \<Rightarrow> nat \<Rightarrow> (mpc_error, 'f packed_params) res"
where
  "packed_params_new F t n slots =
     (if t = 0 \<or> slots = 0 then Err InvalidPackingParameters
      else if n \<le> 2 * t then Err TooFewParties
      else let degree = t + slots - 1 in
        if n \<le> 2 * degree \<or> n - 2 * t + 1 < 2 * slots then Err InvalidPackingParameters
        else bindR (committee_new F t n) (\<lambda>c.
          Ok \<lparr>pk_committee = c, pk_slots = slots, pk_degree = degree,
              pk_points = map (\<lambda>j. pf_from_u64 (of_nat n + of_nat j)) [1..<slots + 1]\<rparr>))"

definition packed_tau :: "'f packed_params \<Rightarrow> (mpc_error, nat) res" where
  "packed_tau pk =
     (if 2 * pk_degree pk + 1 < pk_slots pk then Panic else Ok (2 * pk_degree pk + 1 - pk_slots pk))"

definition lagrange_basis_at :: "'f::field list \<Rightarrow> nat \<Rightarrow> 'f \<Rightarrow> (mpc_error, 'f) res" where
  "lagrange_basis_at ps j x =
     foldR (\<lambda>(j2, p) acc. if j2 \<noteq> j
             then bindR (nthR ps j) (\<lambda>pj. bindR (fdiv (x - p) (pj - p)) (\<lambda>q. Ok (acc * q)))
             else Ok acc)
       (List.enumerate 0 ps) 1"

definition interpolate_at :: "'f::field list \<Rightarrow> 'f list \<Rightarrow> 'f \<Rightarrow> (mpc_error, 'f) res" where
  "interpolate_at ps vals x =
     foldR (\<lambda>i acc.
        bindR (foldR (\<lambda>j li. if i \<noteq> j
                 then bindR (fdiv (x - ps ! j) (ps ! i - ps ! j)) (\<lambda>q. Ok (li * q)) else Ok li)
               [0..<length ps] 1)
          (\<lambda>li. bindR (nthR vals i) (\<lambda>v. Ok (acc + li * v))))
       [0..<length ps] 0"

definition g_poly_at :: "'f::field packed_params \<Rightarrow> nat list \<Rightarrow> nat \<Rightarrow> 'f \<Rightarrow> (mpc_error, 'f) res" where
  "g_poly_at pk holder j x =
     bindR (lagrange_basis_at (pk_points pk) j x) (\<lambda>base.
     bindR (foldR (\<lambda>(m, a) acc. if m \<notin> set holder
              then bindR (nthR (pk_points pk) j) (\<lambda>bj. bindR (fdiv (x - a) (bj - a)) (\<lambda>q. Ok (acc * q)))
              else Ok acc)
            (List.enumerate 0 (points (pk_committee pk))) 1)
       (\<lambda>prod. Ok (base * prod)))"

definition is_subset :: "nat list \<Rightarrow> nat list \<Rightarrow> bool" where
  "is_subset xs ys = list_all (\<lambda>x. x \<in> set ys) xs"

text \<open>The triple loop that draws one value per slot for every nested pair of holder sets.\<close>

definition bump :: "'f::field list list \<Rightarrow> nat \<Rightarrow> nat \<Rightarrow> 'f \<Rightarrow> 'f list list" where
  "bump m i j z = m[i := (m ! i)[j := m ! i ! j + z]]"

definition draw_slot ::
  "(prss_seed \<Rightarrow> 'f::field) \<Rightarrow> 'g rng_ops \<Rightarrow> nat \<Rightarrow> nat \<Rightarrow> nat \<Rightarrow> 'f list list \<times> 'f list list \<times> 'g \<Rightarrow>
     'f list list \<times> 'f list list \<times> 'g"
where
  "draw_slot component R ai bi j = (\<lambda>(row, col, g).
     let (seed, g') = prss_seed_random R g; zeta = component seed
     in (bump row ai j zeta, bump col bi j zeta, g'))"

definition slot_sums ::
  "(prss_seed \<Rightarrow> 'f::field) \<Rightarrow> 'g rng_ops \<Rightarrow> nat list list \<Rightarrow> nat list list \<Rightarrow> nat \<Rightarrow> 'g \<Rightarrow>
     'f list list \<times> 'f list list \<times> 'g"
where
  "slot_sums component R holders_d holders_2d l g =
     fold (\<lambda>((ai, a), (bi, b)) st.
        if is_subset b a
        then fold (draw_slot component R ai bi) [0..<l] st
        else st)
       (List.product (List.enumerate 0 holders_d) (List.enumerate 0 holders_2d))
       (replicate (length holders_d) (replicate l 0), replicate (length holders_2d) (replicate l 0), g)"

definition packed_add :: "'f::field packed_params \<Rightarrow> nat list \<Rightarrow> 'f list \<Rightarrow> 'f list \<Rightarrow> (mpc_error, 'f list) res" where
  "packed_add pk holder coeffs vals =
     mapR (\<lambda>(i, v). if i \<in> set holder
             then foldR (\<lambda>(j, r) v. bindR (nthR (points (pk_committee pk)) i) (\<lambda>p.
                    bindR (g_poly_at pk holder j p) (\<lambda>b. Ok (v + r * b))))
                    (List.enumerate 0 coeffs) v
             else Ok v)
       (List.enumerate 0 vals)"

definition packed_spread ::
  "'f::field packed_params \<Rightarrow> nat list list \<Rightarrow> 'f list list \<Rightarrow> (mpc_error, 'f list) res"
where
  "packed_spread pk holders m =
     foldR (\<lambda>(idx, h) vals. bindR (nthR m idx) (\<lambda>c. packed_add pk h c vals))
       (List.enumerate 0 holders) (replicate (committee_size (pk_committee pk)) 0)"

definition packed_pairgen ::
  "('f::field, 'g) share_field_ops \<Rightarrow> hmac_fun \<Rightarrow> 'g rng_ops \<Rightarrow> 'f packed_params \<Rightarrow> bytes \<Rightarrow> 'g \<Rightarrow>
     (mpc_error, 'f packed_pair \<times> 'g) res"
where
  "packed_pairgen F hmac R pk nonce g =
     (let n = committee_size (pk_committee pk) in
      bindR (holder_sets n (threshold (pk_committee pk))) (\<lambda>holders_d.
      bindR (packed_tau pk) (\<lambda>tau.
      bindR (holder_sets n tau) (\<lambda>holders_2d.
        let (row, col, g') = slot_sums (\<lambda>seed. derive_element F hmac seed nonce) R holders_d holders_2d (pk_slots pk) g in
        bindR (packed_spread pk holders_d row) (\<lambda>low.
        bindR (packed_spread pk holders_2d col) (\<lambda>high.
          Ok (\<lparr>pp_low = shares_at (points (pk_committee pk)) low,
               pp_high = shares_at (points (pk_committee pk)) high\<rparr>, g')))))))"

definition packed_degree_reduce ::
  "'f::field shamir_share list \<Rightarrow> 'f shamir_share list \<Rightarrow> 'f packed_pair \<Rightarrow> 'f packed_params \<Rightarrow>
     (mpc_error, 'f shamir_share list) res"
where
  "packed_degree_reduce xs ys pair pk =
     (let n = committee_size (pk_committee pk); ps = points (pk_committee pk) in
      if length xs \<noteq> n \<or> length ys \<noteq> n \<or> length (pp_low pair) \<noteq> n \<or> length (pp_high pair) \<noteq> n
      then Err ShareCountMismatch
      else let h_w = map (\<lambda>((x, y), r). share_value x * share_value y + share_value r) (zip (zip xs ys) (pp_high pair)) in
        bindR (mapR (interpolate_at ps h_w) (pk_points pk)) (\<lambda>w.
        mapR (\<lambda>(i, a).
          bindR (foldR (\<lambda>(j, wj) ww. bindR (lagrange_basis_at (pk_points pk) j a) (\<lambda>b. Ok (ww + wj * b)))
                  (List.enumerate 0 w) 0)
            (\<lambda>ww. bindR (nthR (pp_low pair) i) (\<lambda>lo. Ok \<lparr>point = a, share_value = ww - share_value lo\<rparr>)))
          (List.enumerate 0 ps)))"

definition packed_split ::
  "('f::field, 'g) share_field_ops \<Rightarrow> 'f list \<Rightarrow> 'f packed_params \<Rightarrow> 'g \<Rightarrow> (mpc_error, 'f shamir_share list \<times> 'g) res"
where
  "packed_split F vals pk g =
     (if length vals \<noteq> pk_slots pk then Err InvalidPackingParameters
      else let (r_coeffs, g') = rand_list F (threshold (pk_committee pk)) g in
        bindR (mapR (\<lambda>i. bindR (nthR (points (pk_committee pk)) i) (\<lambda>a.
                 bindR (foldR (\<lambda>(j, v) base. bindR (lagrange_basis_at (pk_points pk) j a) (\<lambda>b. Ok (base + v * b)))
                         (List.enumerate 0 vals) 0) (\<lambda>base.
                 let vanish = fold (\<lambda>b v. v * (a - b)) (pk_points pk) 1
                 in Ok \<lparr>point = a, share_value = base + vanish * eval_poly r_coeffs a\<rparr>)))
               [0..<committee_size (pk_committee pk)])
          (\<lambda>shares. Ok (shares, g')))"

section \<open>The interpolation loops\<close>

lemma lagrange_basis_at_eq:
  assumes "distinct ps" "i < length ps"
  shows "lagrange_basis_at ps i x = Ok (lagrange_basis ps i x)"
proof -
  have "lagrange_basis_at ps i x =
        Ok (fold (\<lambda>(j, pj) acc. if j \<noteq> i then acc * ((x - pj) / (ps ! i - pj)) else acc) (List.enumerate 0 ps) 1)"
    unfolding lagrange_basis_at_def
    by (rule foldR_Ok) (use assms in \<open>auto simp: enumerate_eq_map_nth nthR_in_range fdiv_Ok nth_eq_iff_index_eq\<close>)
  also have "\<dots> = Ok (\<Prod>j \<in> {j. j < length ps \<and> j \<noteq> i}. (x - ps ! j) / (ps ! i - ps ! j))"
    by (simp add: fold_enumerate_prod)
  also have "{j. j < length ps \<and> j \<noteq> i} = {..<length ps} - {i}" by auto
  finally show ?thesis by (simp add: lagrange_basis_def)
qed

lemma fold_upt_enumerate: "fold (\<lambda>j. h j (xs ! j)) [0..<length xs] s = fold (\<lambda>(j, x). h j x) (List.enumerate 0 xs) s"
  by (simp add: enumerate_eq_map_nth fold_map comp_def)

lemma interpolate_at_eq:
  assumes "distinct ps" "length vals = length ps"
  shows "interpolate_at ps vals x = Ok (lagrange ps vals x)"
proof -
  have basis: "foldR (\<lambda>j li. if i \<noteq> j then bindR (fdiv (x - ps ! j) (ps ! i - ps ! j)) (\<lambda>q. Ok (li * q)) else Ok li)
      [0..<length ps] 1 = (Ok (lagrange_basis ps i x) :: (mpc_error, _) res)" if "i < length ps" for i
  proof -
    have "foldR (\<lambda>j li. if i \<noteq> j then bindR (fdiv (x - ps ! j) (ps ! i - ps ! j)) (\<lambda>q. Ok (li * q)) else Ok li)
        [0..<length ps] 1 =
        (Ok (fold (\<lambda>j li. if j \<noteq> i then li * ((x - ps ! j) / (ps ! i - ps ! j)) else li) [0..<length ps] 1) :: (mpc_error, _) res)"
      by (rule foldR_Ok) (use assms that in \<open>auto simp: fdiv_Ok nth_eq_iff_index_eq\<close>)
    also have "\<dots> = Ok (\<Prod>j \<in> {j. j < length ps \<and> j \<noteq> i}. (x - ps ! j) / (ps ! i - ps ! j))"
      by (subst fold_upt_enumerate [of "\<lambda>j y li. if j \<noteq> i then li * ((x - y) / (ps ! i - y)) else li"])
        (simp add: fold_enumerate_prod)
    also have "{j. j < length ps \<and> j \<noteq> i} = {..<length ps} - {i}" by auto
    finally show ?thesis by (simp add: lagrange_basis_def)
  qed
  have "interpolate_at ps vals x = Ok (fold (\<lambda>i acc. acc + lagrange_basis ps i x * vals ! i) [0..<length ps] 0)"
    unfolding interpolate_at_def
    by (rule foldR_Ok) (use assms basis in \<open>simp add: nthR_in_range\<close>)
  also have "\<dots> = Ok (lagrange ps vals x)"
    by (subst fold_upt_enumerate [of "\<lambda>i y acc. acc + lagrange_basis ps i x * vals ! i"])
      (simp add: fold_enumerate_sum lagrange_def)
  finally show ?thesis .
qed

lemma weighted_basis_sum:
  assumes "distinct ps" "length vals = length ps"
  shows "foldR (\<lambda>(j, v) acc. bindR (lagrange_basis_at ps j x) (\<lambda>b. Ok (acc + v * b))) (List.enumerate 0 vals) 0
         = Ok (lagrange ps vals x)"
proof -
  have "foldR (\<lambda>(j, v) acc. bindR (lagrange_basis_at ps j x) (\<lambda>b. Ok (acc + v * b))) (List.enumerate 0 vals) 0
      = Ok (fold (\<lambda>(j, v) acc. acc + lagrange_basis ps j x * vals ! j) (List.enumerate 0 vals) 0)"
    by (rule foldR_Ok) (use assms in \<open>auto simp: enumerate_eq_map_nth lagrange_basis_at_eq\<close>)
  also have "\<dots> = Ok (lagrange ps vals x)"
    using assms(2) by (simp add: fold_enumerate_sum lagrange_def)
  finally show ?thesis .
qed

section \<open>Slot polynomials\<close>

definition good_packed :: "'f::field packed_params \<Rightarrow> bool" where
  "good_packed pk \<longleftrightarrow>
     distinct (points (pk_committee pk) @ pk_points pk) \<and> length (pk_points pk) = pk_slots pk \<and>
     0 < pk_slots pk \<and> 0 < threshold (pk_committee pk) \<and>
     pk_degree pk = threshold (pk_committee pk) + pk_slots pk - 1 \<and>
     2 * pk_degree pk < committee_size (pk_committee pk)"

definition slot_poly :: "'f::field packed_params \<Rightarrow> nat list \<Rightarrow> nat \<Rightarrow> 'f \<Rightarrow> 'f" where
  "slot_poly pk h j x = lagrange_basis (pk_points pk) j x *
     (\<Prod>m \<in> outside h (length (points (pk_committee pk))).
        (x - points (pk_committee pk) ! m) / (pk_points pk ! j - points (pk_committee pk) ! m))"

definition packed_sum :: "'f::field packed_params \<Rightarrow> nat list list \<Rightarrow> 'f list list \<Rightarrow> 'f \<Rightarrow> 'f" where
  "packed_sum pk hs m x = (\<Sum>i<length hs. \<Sum>j<pk_slots pk. m ! i ! j * slot_poly pk (hs ! i) j x)"

lemma good_packed_points:
  assumes "good_packed pk" "j < pk_slots pk" "m < length (points (pk_committee pk))"
  shows "pk_points pk ! j \<noteq> points (pk_committee pk) ! m"
proof -
  have "pk_points pk ! j \<in> set (pk_points pk)" "points (pk_committee pk) ! m \<in> set (points (pk_committee pk))"
    using assms by (simp_all add: good_packed_def)
  moreover have "set (points (pk_committee pk)) \<inter> set (pk_points pk) = {}"
    using assms(1) by (simp add: good_packed_def)
  ultimately show ?thesis by (metis disjoint_iff)
qed

lemma g_poly_at_eq:
  assumes "good_packed pk" "j < pk_slots pk"
  shows "g_poly_at pk h j x = Ok (slot_poly pk h j x)"
proof -
  let ?ps = "points (pk_committee pk)" and ?b = "pk_points pk ! j"
  have j: "j < length (pk_points pk)" "distinct (pk_points pk)" using assms by (simp_all add: good_packed_def)
  have "foldR (\<lambda>(m, a) acc. if m \<notin> set h
          then bindR (nthR (pk_points pk) j) (\<lambda>bj. bindR (fdiv (x - a) (bj - a)) (\<lambda>q. Ok (acc * q))) else Ok acc)
          (List.enumerate 0 ?ps) 1 =
        (Ok (fold (\<lambda>(m, a) acc. if m \<notin> set h then acc * ((x - a) / (?b - a)) else acc) (List.enumerate 0 ?ps) 1) :: (mpc_error, _) res)"
    by (rule foldR_Ok)
      (use good_packed_points [OF assms] j in \<open>auto simp: enumerate_eq_map_nth nthR_in_range fdiv_Ok\<close>)
  also have "\<dots> = Ok (\<Prod>m \<in> outside h (length ?ps). (x - ?ps ! m) / (?b - ?ps ! m))"
    by (subst fold_enumerate_prod) (simp add: outside_def)
  finally show ?thesis
    using j by (simp add: g_poly_at_def lagrange_basis_at_eq slot_poly_def)
qed

lemma slot_poly_outside:
  "i < length (points (pk_committee pk)) \<Longrightarrow> i \<notin> set h \<Longrightarrow> slot_poly pk h j (points (pk_committee pk) ! i) = 0"
  unfolding slot_poly_def by (rule mult_eq_0_iff [THEN iffD2], rule disjI2, rule prod_zero) (auto simp: outside_def)

lemma slot_poly_slot:
  assumes "good_packed pk" "j < pk_slots pk" "k < pk_slots pk"
  shows "slot_poly pk h j (pk_points pk ! k) = (if j = k then 1 else 0)"
proof (cases "j = k")
  case True
  have "(\<Prod>m \<in> outside h (length (points (pk_committee pk))).
        (pk_points pk ! j - points (pk_committee pk) ! m) / (pk_points pk ! j - points (pk_committee pk) ! m)) = 1"
    by (rule prod.neutral) (use good_packed_points [OF assms(1,2)] in \<open>auto simp: outside_def\<close>)
  with True assms show ?thesis by (simp add: slot_poly_def lagrange_basis_same good_packed_def)
next
  case False
  with assms show ?thesis by (simp add: slot_poly_def lagrange_basis_other good_packed_def)
qed

lemma pdeg_slot_poly:
  assumes "card (outside h (length (points (pk_committee pk)))) \<le> d" "j < length (pk_points pk)"
  shows "pdeg (length (pk_points pk) - 1 + d) (slot_poly pk h j)"
  unfolding slot_poly_def
  by (intro pdeg_mult pdeg_lagrange_basis assms(2) pdeg_mono [OF pdeg_prod assms(1)] pdeg_divide pdeg_linear) simp

lemma packed_add_map:
  assumes "good_packed pk" "length cs = pk_slots pk"
  shows "packed_add pk h cs (map f (points (pk_committee pk))) =
    Ok (map (\<lambda>x. f x + (\<Sum>j<pk_slots pk. cs ! j * slot_poly pk h j x)) (points (pk_committee pk)))"
proof -
  let ?ps = "points (pk_committee pk)" and ?S = "\<lambda>x. \<Sum>j<pk_slots pk. cs ! j * slot_poly pk h j x"
  have inner: "foldR (\<lambda>(j, r) v. bindR (nthR ?ps i) (\<lambda>p. bindR (g_poly_at pk h j p) (\<lambda>b. Ok (v + r * b))))
      (List.enumerate 0 cs) v = Ok (v + ?S (?ps ! i))" if "i < length ?ps" for i v
  proof -
    have "foldR (\<lambda>(j, r) v. bindR (nthR ?ps i) (\<lambda>p. bindR (g_poly_at pk h j p) (\<lambda>b. Ok (v + r * b)))) (List.enumerate 0 cs) v
        = Ok (fold (\<lambda>(j, r) v. v + cs ! j * slot_poly pk h j (?ps ! i)) (List.enumerate 0 cs) v)"
      by (rule foldR_Ok) (use assms that in \<open>auto simp: enumerate_eq_map_nth nthR_in_range g_poly_at_eq\<close>)
    then show ?thesis using assms(2) by (simp add: fold_enumerate_sum)
  qed
  have "packed_add pk h cs (map f ?ps) = Ok (map (\<lambda>(i, v). v + ?S (?ps ! i)) (List.enumerate 0 (map f ?ps)))"
    unfolding packed_add_def
    by (rule mapR_Ok) (auto simp: enumerate_eq_map_nth inner [unfolded enumerate_eq_map_nth] slot_poly_outside)
  also have "map (\<lambda>(i, v). v + ?S (?ps ! i)) (List.enumerate 0 (map f ?ps)) = map (\<lambda>x. f x + ?S x) ?ps"
    by (rule nth_equalityI) (simp_all add: enumerate_eq_map_nth)
  finally show ?thesis .
qed

lemma packed_spread_loop:
  assumes "good_packed pk" "k + length hs \<le> length m" "\<And>r. r \<in> set m \<Longrightarrow> length r = pk_slots pk"
  shows "foldR (\<lambda>(idx, h) vals. bindR (nthR m idx) (\<lambda>c. packed_add pk h c vals))
           (List.enumerate k hs) (map f (points (pk_committee pk))) =
         Ok (map (\<lambda>x. f x + (\<Sum>i<length hs. \<Sum>j<pk_slots pk. m ! (k + i) ! j * slot_poly pk (hs ! i) j x))
               (points (pk_committee pk)))"
  using assms(2)
proof (induction hs arbitrary: k f)
  case (Cons h hs)
  have "length (m ! k) = pk_slots pk" using assms(3) Cons.prems by simp
  then show ?case
    using Cons.IH [of "Suc k" "\<lambda>x. f x + (\<Sum>j<pk_slots pk. m ! k ! j * slot_poly pk h j x)"] Cons.prems assms(1)
    by (simp add: nthR_in_range packed_add_map sum_lessThan_Suc_shift add.assoc del: sum.lessThan_Suc)
qed simp

lemma packed_spread_eq:
  assumes "good_packed pk" "length m = length hs" "\<And>r. r \<in> set m \<Longrightarrow> length r = pk_slots pk"
  shows "packed_spread pk hs m = Ok (map (packed_sum pk hs m) (points (pk_committee pk)))"
  using packed_spread_loop [OF assms(1), of 0 hs m "\<lambda>x. 0"] assms(2,3)
  by (simp add: packed_spread_def committee_size_def map_replicate_const packed_sum_def [abs_def])

lemma packed_sum_slot:
  assumes "good_packed pk" "length m = length hs" "k < pk_slots pk"
  shows "packed_sum pk hs m (pk_points pk ! k) = sum_list (map (\<lambda>r. r ! k) m)"
proof -
  have "(\<Sum>j<pk_slots pk. m ! i ! j * slot_poly pk (hs ! i) j (pk_points pk ! k)) = m ! i ! k" for i
  proof -
    have "(\<Sum>j<pk_slots pk. m ! i ! j * slot_poly pk (hs ! i) j (pk_points pk ! k)) =
        (\<Sum>j<pk_slots pk. if j = k then m ! i ! j else 0)"
      by (rule sum.cong) (use assms(1,3) in \<open>simp_all add: slot_poly_slot\<close>)
    with assms(3) show ?thesis by simp
  qed
  then show ?thesis
    using assms(2) by (simp add: packed_sum_def sum_list_sum_nth atLeast0LessThan)
qed

lemma pdeg_packed_sum:
  assumes "good_packed pk" "holder_sets (committee_size (pk_committee pk)) d = Ok hs"
  shows "pdeg (pk_slots pk - 1 + d) (packed_sum pk hs m)"
proof -
  have L: "length (pk_points pk) = pk_slots pk" using assms(1) by (simp add: good_packed_def)
  have "pdeg (pk_slots pk - 1 + d) (slot_poly pk (hs ! i) j)" if "i < length hs" "j < pk_slots pk" for i j
  proof -
    have h: "hs ! i \<in> set hs" using that by simp
    have "d \<le> committee_size (pk_committee pk)" using assms(2) by (auto simp: holder_sets_def split: if_splits)
    then have "card (outside (hs ! i) (length (points (pk_committee pk)))) \<le> d"
      using card_outside [OF holder_sets_Ok(1,2) [OF assms(2) h]] holder_sets_Ok(3) [OF assms(2) h]
      by (simp add: committee_size_def)
    from pdeg_slot_poly [OF this, of j] that(2) L show ?thesis by simp
  qed
  then show ?thesis unfolding packed_sum_def by (intro pdeg_sum pdeg_smult) simp_all
qed

section \<open>Both sides of a packed pair have the same slot totals\<close>

definition matrix :: "nat \<Rightarrow> nat \<Rightarrow> 'a list list \<Rightarrow> bool" where
  "matrix n l m \<longleftrightarrow> length m = n \<and> (\<forall>r \<in> set m. length r = l)"

definition col_sum :: "'f::field list list \<Rightarrow> nat \<Rightarrow> 'f" where
  "col_sum m k = sum_list (map (\<lambda>r. r ! k) m)"

lemma matrix_replicate: "matrix n l (replicate n (replicate l x))"
  by (simp add: matrix_def)

lemma col_sum_replicate: "k < l \<Longrightarrow> col_sum (replicate n (replicate l 0)) k = 0"
  by (simp add: col_sum_def sum_list_replicate)

lemma matrix_bump: "matrix n l m \<Longrightarrow> i < n \<Longrightarrow> matrix n l (bump m i j z)"
  by (auto simp: matrix_def bump_def dest!: set_update_subset_insert [THEN subsetD])

lemma col_sum_bump:
  assumes "matrix n l m" "i < n" "k < l"
  shows "col_sum (bump m i j z) k = col_sum m k + (if j = k then z else 0)"
proof -
  have "length (m ! i) = l" "i < length m" using assms by (simp_all add: matrix_def)
  then show ?thesis
    using assms(3) sum_list_update_add [of i "map (\<lambda>r. r ! k) m" z] list_update_id [of "map (\<lambda>r. r ! k) m" i]
    by (auto simp: col_sum_def bump_def map_update)
qed

lemma draw_seeds_add:
  "draw_seeds R (m + n) g =
   (fst (draw_seeds R m g) @ fst (draw_seeds R n (snd (draw_seeds R m g))), snd (draw_seeds R n (snd (draw_seeds R m g))))"
  by (induction m arbitrary: g) (simp_all add: Let_def split_beta)

lemma draw_slot_eq:
  "prss_seed_random R g = (seed, g1) \<Longrightarrow> draw_slot component R ai bi j (row, col, g) =
     (bump row ai j (component seed), bump col bi j (component seed), g1)"
  by (simp add: draw_slot_def Let_def)

lemma slot_draws:
  assumes "matrix n1 l row" "matrix n2 l col" "ai < n1" "bi < n2" "a + d \<le> l"
    and "fold (draw_slot component R ai bi) [a..<a + d] (row, col, g) = (row', col', g')"
  shows "matrix n1 l row' \<and> matrix n2 l col' \<and> g' = snd (draw_seeds R d g) \<and>
    (\<forall>k<l. let z = (if a \<le> k \<and> k < a + d then component (fst (draw_seeds R d g) ! (k - a)) else 0)
      in col_sum row' k = col_sum row k + z \<and> col_sum col' k = col_sum col k + z)"
  using assms
proof (induction d arbitrary: a row col g)
  case 0
  then show ?case by auto
next
  case (Suc d)
  obtain seed g1 where s: "prss_seed_random R g = (seed, g1)" by fastforce
  let ?row = "bump row ai a (component seed)" and ?col = "bump col bi a (component seed)"
  have step: "fold (draw_slot component R ai bi) [Suc a..<Suc a + d] (?row, ?col, g1) = (row', col', g')"
    using Suc.prems(6) by (simp add: s upt_conv_Cons draw_slot_eq del: upt_Suc)
  have IH: "matrix n1 l row' \<and> matrix n2 l col' \<and> g' = snd (draw_seeds R d g1) \<and>
    (\<forall>k<l. let z = (if Suc a \<le> k \<and> k < Suc a + d then component (fst (draw_seeds R d g1) ! (k - Suc a)) else 0)
      in col_sum row' k = col_sum ?row k + z \<and> col_sum col' k = col_sum ?col k + z)"
    by (rule Suc.IH [OF matrix_bump matrix_bump _ _ _ step]) (use Suc.prems(1-5) in simp_all)
  then show ?case
    using Suc.prems(1-4)
    by (auto simp: s Let_def split_beta col_sum_bump nth_Cons' not_le Suc_diff_le)
qed

lemma slot_sums_loop:
  assumes "matrix n1 l row" "matrix n2 l col"
    and "\<And>ai a bi b. ((ai, a), (bi, b)) \<in> set ps \<Longrightarrow> ai < n1 \<and> bi < n2"
    and "fold (\<lambda>((ai, a), (bi, b)) st. if is_subset b a
        then fold (draw_slot component R ai bi) [0..<l] st
        else st) ps (row, col, g) = (row', col', g')"
    and "N = length (filter (\<lambda>((_, a), (_, b)). is_subset b a) ps)"
  shows "matrix n1 l row' \<and> matrix n2 l col' \<and> g' = snd (draw_seeds R (N * l) g) \<and>
    (\<forall>k<l. let z = (\<Sum>p<N. component (fst (draw_seeds R (N * l) g) ! (p * l + k)))
      in col_sum row' k = col_sum row k + z \<and> col_sum col' k = col_sum col k + z)"
  using assms
proof (induction ps arbitrary: row col g N)
  case Nil
  then show ?case by simp
next
  case (Cons q ps)
  obtain ai a bi b where q: "q = ((ai, a), (bi, b))" by (metis surj_pair)
  have q_range: "ai < n1" "bi < n2" using Cons.prems(3) [of ai a bi b] q by simp_all
  have rest: "ai < n1 \<and> bi < n2" if "((ai, a), (bi, b)) \<in> set ps" for ai a bi b
    using Cons.prems(3) [of ai a bi b] that by simp
  show ?case
  proof (cases "is_subset b a")
    case False
    then show ?thesis
      using Cons.prems(4,5) q by (intro Cons.IH [OF Cons.prems(1,2) rest]) simp_all
  next
    case True
    define M where "M = length (filter (\<lambda>((_, a), (_, b)). is_subset b a) ps)"
    have N: "N * l = l + M * l" "N = Suc M" using Cons.prems(5) True q by (simp_all add: M_def)
    obtain row1 col1 g1 where one: "fold (draw_slot component R ai bi) [0..<0 + l] (row, col, g) = (row1, col1, g1)"
      by (metis prod_cases3)
    note first = slot_draws [OF Cons.prems(1,2) q_range _ one]
    have IH': "matrix n1 l row' \<and> matrix n2 l col' \<and> g' = snd (draw_seeds R (M * l) g1) \<and>
      (\<forall>k<l. let z = (\<Sum>p<M. component (fst (draw_seeds R (M * l) g1) ! (p * l + k)))
        in col_sum row' k = col_sum row1 k + z \<and> col_sum col' k = col_sum col1 k + z)"
      by (rule Cons.IH [OF _ _ rest _ M_def]) (use first one Cons.prems(4) q True in simp_all)
    have g1: "g1 = snd (draw_seeds R l g)" using first by simp
    have nth: "(fst (draw_seeds R l g) @ fst (draw_seeds R (M * l) g1)) ! (p * l + k) =
      (if p = 0 then fst (draw_seeds R l g) ! k else fst (draw_seeds R (M * l) g1) ! ((p - 1) * l + k))"
      if "k < l" for p k
      using that by (cases p) (simp_all add: nth_append add.assoc)
    have seeds: "draw_seeds R (N * l) g =
        (fst (draw_seeds R l g) @ fst (draw_seeds R (M * l) g1), snd (draw_seeds R (M * l) g1))"
      unfolding N(1) draw_seeds_add g1 ..
    have total: "(\<Sum>p<N. component (fst (draw_seeds R (N * l) g) ! (p * l + k))) =
        component (fst (draw_seeds R l g) ! k) + (\<Sum>p<M. component (fst (draw_seeds R (M * l) g1) ! (p * l + k)))"
      if "k < l" for k
      unfolding seeds fst_conv nth [OF that] unfolding N(2) sum_lessThan_Suc_shift by simp
    have "col_sum row1 k = col_sum row k + component (fst (draw_seeds R l g) ! k) \<and>
        col_sum col1 k = col_sum col k + component (fst (draw_seeds R l g) ! k)" if "k < l" for k
      using first that by (simp add: Let_def)
    then show ?thesis
      using IH' total by (simp add: seeds Let_def add.assoc)
  qed
qed

lemma slot_sums_eq:
  assumes "slot_sums component R h1 h2 l g = (row, col, g')"
    and "N = length (filter (\<lambda>((_, a), (_, b)). is_subset b a) (List.product (List.enumerate 0 h1) (List.enumerate 0 h2)))"
  shows "matrix (length h1) l row" "matrix (length h2) l col" "g' = snd (draw_seeds R (N * l) g)"
    "k < l \<Longrightarrow> col_sum row k = (\<Sum>p<N. component (fst (draw_seeds R (N * l) g) ! (p * l + k)))"
    "k < l \<Longrightarrow> col_sum col k = col_sum row k"
proof -
  have range: "ai < length h1 \<and> bi < length h2"
    if "((ai, a), (bi, b)) \<in> set (List.product (List.enumerate 0 h1) (List.enumerate 0 h2))" for ai a bi b
    using that by (auto simp: enumerate_eq_map_nth)
  show "matrix (length h1) l row" "matrix (length h2) l col" "g' = snd (draw_seeds R (N * l) g)"
    "k < l \<Longrightarrow> col_sum row k = (\<Sum>p<N. component (fst (draw_seeds R (N * l) g) ! (p * l + k)))"
    "k < l \<Longrightarrow> col_sum col k = col_sum row k"
    using slot_sums_loop [OF matrix_replicate matrix_replicate range assms(1) [unfolded slot_sums_def] assms(2)]
    by (simp_all add: Let_def col_sum_replicate)
qed

section \<open>What a packed sharing holds\<close>

definition packs :: "'f::field packed_params \<Rightarrow> nat \<Rightarrow> 'f list \<Rightarrow> 'f shamir_share list \<Rightarrow> bool" where
  "packs pk d vals shares \<longleftrightarrow>
     (\<exists>f. pdeg d f \<and> shares = on_points f (points (pk_committee pk)) \<and> map f (pk_points pk) = vals)"

lemma packsI: "pdeg d f \<Longrightarrow> map f (pk_points pk) = vals \<Longrightarrow> packs pk d vals (on_points f (points (pk_committee pk)))"
  by (auto simp: packs_def)

lemma packs_sharing:
  "packs pk d vals shares \<longleftrightarrow>
     (\<exists>f. sharing d f shares \<and> map f (pk_points pk) = vals) \<and> map point shares = points (pk_committee pk)"
proof
  assume "packs pk d vals shares"
  then obtain f where f: "pdeg d f" "shares = on_points f (points (pk_committee pk))" "map f (pk_points pk) = vals"
    by (auto simp: packs_def)
  then have "sharing d f shares" "map point shares = points (pk_committee pk)" by simp_all
  with f(3) show "(\<exists>f. sharing d f shares \<and> map f (pk_points pk) = vals) \<and> map point shares = points (pk_committee pk)"
    by blast
next
  assume "(\<exists>f. sharing d f shares \<and> map f (pk_points pk) = vals) \<and> map point shares = points (pk_committee pk)"
  then obtain f where f: "sharing d f shares" "map f (pk_points pk) = vals" and ps: "map point shares = points (pk_committee pk)"
    by blast
  from f(1) have "pdeg d f" by (simp add: sharing_def)
  from packsI [OF this f(2)] show "packs pk d vals shares" by (simp flip: sharing_canonical [OF f(1) ps])
qed

text \<open>What the shares hold can be read off by interpolation at the packing points.\<close>

lemma packs_interpolate:
  assumes "good_packed pk" "packs pk d vals shares" "d < committee_size (pk_committee pk)"
  shows "mapR (interpolate_at (points (pk_committee pk)) (map share_value shares)) (pk_points pk) = Ok vals"
proof -
  obtain f where f: "pdeg d f" "shares = on_points f (points (pk_committee pk))" "map f (pk_points pk) = vals"
    using assms(2) by (auto simp: packs_def)
  have "distinct (points (pk_committee pk))" using assms(1) by (simp add: good_packed_def)
  then have "interpolate_at (points (pk_committee pk)) (map share_value shares) x = Ok (f x)" for x
    using lagrange_recovers [OF f(1), of "points (pk_committee pk)" x] assms(3)
    by (simp add: interpolate_at_eq f(2) committee_size_def)
  then show ?thesis unfolding f(3) [symmetric] by (intro mapR_Ok)
qed

lemma packed_params_good:
  fixes P :: "'f::field prime_field_ops"
  assumes P: "prime_field P" and "n + l < pf_modulus P" "n + l < 2 ^ 64"
    and new: "packed_params_new (prime_share_ops draw :: ('f, 'g) share_field_ops) t n l = Ok pk"
  shows "good_packed pk"
proof -
  let ?F = "prime_share_ops draw :: ('f, 'g) share_field_ops"
  have ok: "t \<noteq> 0" "l \<noteq> 0" "2 * t < n" "2 * (t + l - 1) < n" "n - 2 * t + 1 \<ge> 2 * l"
    and pk: "pk = \<lparr>pk_committee = \<lparr>threshold = t, points = evaluation_points ?F n\<rparr>, pk_slots = l,
        pk_degree = t + l - 1, pk_points = map (\<lambda>j. pf_from_u64 (of_nat n + of_nat j)) [1..<l + 1]\<rparr>"
    using new by (auto simp: packed_params_new_def committee_new_def Let_def split: if_splits)
  have shift: "map (\<lambda>j. h (n + j)) [1..<l + 1] = map h [Suc n..<Suc (n + l)]" for h :: "nat \<Rightarrow> 'f"
    by (rule nth_equalityI) (simp_all del: upt_Suc)
  have "pk_points pk = map (\<lambda>i. sf_from_u64 ?F (of_nat i)) [Suc n..<Suc (n + l)]"
    using shift [of "\<lambda>i. sf_from_u64 ?F (of_nat i)"] by (simp add: pk prime_share_ops_def)
  then have "points (pk_committee pk) @ pk_points pk = evaluation_points ?F (n + l)"
    unfolding pk evaluation_points_def using upt_add_eq_append [of 1 "Suc n" l]
    by (simp del: upt_Suc flip: map_append)
  moreover have "good_points (evaluation_points ?F (n + l))"
    using assms(2,3) by (intro share_field.good_evaluation_points [OF prime_field.prime_share_field [OF P]]) simp
  ultimately show ?thesis
    using ok by (simp add: good_packed_def good_points_def pk committee_size_def)
qed

lemma packed_split_packs:
  assumes "good_packed pk" "length vals = pk_slots pk"
  obtains shares g' where "packed_split F vals pk g = Ok (shares, g')" "packs pk (pk_degree pk) vals shares"
proof -
  let ?ps = "points (pk_committee pk)" and ?bs = "pk_points pk" and ?t = "threshold (pk_committee pk)"
  obtain rs g' where rs: "rand_list F ?t g = (rs, g')" by fastforce
  have len: "length rs = ?t" using length_rand_list [of F ?t g] rs by simp
  let ?f = "\<lambda>x. lagrange ?bs vals x + (\<Prod>j \<in> {..<length ?bs}. x - ?bs ! j) * horner rs x"
  have b: "distinct ?bs" "length ?bs = pk_slots pk" "0 < pk_slots pk" "0 < ?t" "pk_degree pk = ?t + pk_slots pk - 1"
    using assms(1) by (simp_all add: good_packed_def)
  have vanish: "fold (\<lambda>b v. v * (x - b)) bs z = z * (\<Prod>j \<in> {..<length bs}. x - bs ! j)" for x z :: 'a and bs
    by (induction bs arbitrary: z) (simp_all add: prod.lessThan_Suc_shift mult.assoc del: prod.lessThan_Suc)
  have run: "packed_split F vals pk g = Ok (on_points ?f ?ps, g')"
  proof -
    have "mapR (\<lambda>i. bindR (nthR ?ps i) (\<lambda>a.
                 bindR (foldR (\<lambda>(j, v) base. bindR (lagrange_basis_at ?bs j a) (\<lambda>b. Ok (base + v * b)))
                         (List.enumerate 0 vals) 0) (\<lambda>base.
                 let vanish = fold (\<lambda>b v. v * (a - b)) ?bs 1
                 in Ok \<lparr>point = a, share_value = base + vanish * eval_poly rs a\<rparr>)))
               [0..<length ?ps] =
          (Ok (map (\<lambda>i. \<lparr>point = ?ps ! i, share_value = ?f (?ps ! i)\<rparr>) [0..<length ?ps]) :: (mpc_error, _) res)"
      by (rule mapR_Ok)
        (simp add: nthR_in_range weighted_basis_sum [OF b(1)] assms(2) b(2) vanish eval_poly_horner)
    also have "map (\<lambda>i. \<lparr>point = ?ps ! i, share_value = ?f (?ps ! i)\<rparr>) [0..<length ?ps] = on_points ?f ?ps"
      by (rule nth_equalityI) (simp_all add: on_points_def)
    finally show ?thesis
      using assms(2) by (simp add: packed_split_def rs committee_size_def)
  qed
  have "pdeg (pk_slots pk + (?t - 1)) (\<lambda>x. (\<Prod>j \<in> {..<length ?bs}. x - ?bs ! j) * horner rs x)"
  proof (intro pdeg_mult pdeg_horner)
    show "pdeg (pk_slots pk) (\<lambda>x. \<Prod>j \<in> {..<length ?bs}. x - ?bs ! j)"
      using pdeg_prod [of "{..<length ?bs}" "\<lambda>j x. x - ?bs ! j", OF finite_lessThan pdeg_linear] b(2) by simp
  qed (use b(4) len in simp)
  moreover have "pk_slots pk + (?t - 1) = pk_degree pk" using b by simp
  ultimately have "pdeg (pk_degree pk) (\<lambda>x. (\<Prod>j \<in> {..<length ?bs}. x - ?bs ! j) * horner rs x)" by simp
  then have deg: "pdeg (pk_degree pk) ?f"
    using pdeg_mono [OF pdeg_lagrange [of ?bs vals], of "pk_degree pk"] b by (intro pdeg_add) simp_all
  have vals: "map ?f ?bs = vals"
  proof (rule nth_equalityI)
    fix i assume "i < length (map ?f ?bs)"
    then have i: "i < length ?bs" by simp
    then have "(\<Prod>j \<in> {..<length ?bs}. ?bs ! i - ?bs ! j) = 0" by (intro prod_zero) auto
    with i b(1) show "map ?f ?bs ! i = vals ! i" by (simp add: lagrange_at_point)
  qed (use assms(2) b(2) in simp)
  show ?thesis by (rule that [OF run packsI [OF deg vals]])
qed

lemma packed_tau_eq:
  "good_packed pk \<Longrightarrow> packed_tau pk = Ok (2 * pk_degree pk + 1 - pk_slots pk)"
  by (simp add: packed_tau_def good_packed_def)

lemma packed_spread_packs:
  assumes "good_packed pk" "holder_sets (committee_size (pk_committee pk)) d = Ok hs"
    and "matrix (length hs) (pk_slots pk) m"
  obtains vals where "packed_spread pk hs m = Ok vals"
    "packs pk (pk_slots pk - 1 + d) (map (col_sum m) [0..<pk_slots pk]) (shares_at (points (pk_committee pk)) vals)"
proof -
  have m: "length m = length hs" "\<And>r. r \<in> set m \<Longrightarrow> length r = pk_slots pk"
    using assms(3) by (simp_all add: matrix_def)
  have L: "length (pk_points pk) = pk_slots pk" using assms(1) by (simp add: good_packed_def)
  have "map (packed_sum pk hs m) (pk_points pk) = map (col_sum m) [0..<pk_slots pk]"
    by (rule nth_equalityI) (simp_all add: L packed_sum_slot [OF assms(1) m(1)] col_sum_def)
  from packsI [OF pdeg_packed_sum [OF assms(1,2)] this] show ?thesis
    by (intro that [OF packed_spread_eq [OF assms(1) m]]) (simp_all add: shares_at_map on_points_def)
qed

definition nested_pairs :: "nat list list \<Rightarrow> nat list list \<Rightarrow> nat" where
  "nested_pairs h1 h2 = length (filter (\<lambda>((_, a), (_, b)). is_subset b a)
     (List.product (List.enumerate 0 h1) (List.enumerate 0 h2)))"

lemma packed_pairgen_packs:
  assumes "good_packed pk"
  obtains h1 h2 seeds g' pair where
    "holder_sets (committee_size (pk_committee pk)) (threshold (pk_committee pk)) = Ok h1"
    "holder_sets (committee_size (pk_committee pk)) (2 * pk_degree pk + 1 - pk_slots pk) = Ok h2"
    "draw_seeds R (nested_pairs h1 h2 * pk_slots pk) g = (seeds, g')"
    "packed_pairgen F hmac R pk nonce g = Ok (pair, g')"
    "packs pk (pk_degree pk) (map (\<lambda>k. \<Sum>p<nested_pairs h1 h2. derive_element F hmac (seeds ! (p * pk_slots pk + k)) nonce)
         [0..<pk_slots pk]) (pp_low pair)"
    "packs pk (2 * pk_degree pk) (map (\<lambda>k. \<Sum>p<nested_pairs h1 h2. derive_element F hmac (seeds ! (p * pk_slots pk + k)) nonce)
         [0..<pk_slots pk]) (pp_high pair)"
proof -
  let ?n = "committee_size (pk_committee pk)" and ?L = "pk_slots pk" and ?D = "pk_degree pk"
    and ?c = "\<lambda>seed. derive_element F hmac seed nonce"
  have pk: "?D = threshold (pk_committee pk) + ?L - 1" "0 < ?L" "0 < threshold (pk_committee pk)" "2 * ?D < ?n"
    using assms by (simp_all add: good_packed_def)
  obtain h1 h2 where h: "holder_sets ?n (threshold (pk_committee pk)) = Ok h1" "holder_sets ?n (2 * ?D + 1 - ?L) = Ok h2"
  proof -
    have "threshold (pk_committee pk) \<le> ?n" "2 * ?D + 1 - ?L \<le> ?n" using pk by simp_all
    then show ?thesis using that by (simp only: holder_sets_def if_True)
  qed
  obtain row col g' where rc: "slot_sums ?c R h1 h2 ?L g = (row, col, g')" by (metis prod_cases3)
  note sums = slot_sums_eq [OF rc nested_pairs_def]
  obtain seeds where seeds: "draw_seeds R (nested_pairs h1 h2 * ?L) g = (seeds, g')"
    using sums(3) by (metis surjective_pairing)
  let ?v = "map (\<lambda>k. \<Sum>p<nested_pairs h1 h2. ?c (seeds ! (p * ?L + k))) [0..<?L]"
  have vals: "map (col_sum row) [0..<?L] = ?v" "map (col_sum col) [0..<?L] = ?v"
    using sums(4,5) seeds by simp_all
  obtain lo where lo: "packed_spread pk h1 row = Ok lo"
    "packs pk (?L - 1 + threshold (pk_committee pk)) ?v (shares_at (points (pk_committee pk)) lo)"
    by (rule packed_spread_packs [OF assms h(1) sums(1), unfolded vals])
  obtain hi where hi: "packed_spread pk h2 col = Ok hi"
    "packs pk (?L - 1 + (2 * ?D + 1 - ?L)) ?v (shares_at (points (pk_committee pk)) hi)"
    by (rule packed_spread_packs [OF assms h(2) sums(2), unfolded vals])
  have deg: "?L - 1 + threshold (pk_committee pk) = ?D" "?L - 1 + (2 * ?D + 1 - ?L) = 2 * ?D" using pk by simp_all
  show ?thesis
    by (rule that [OF h seeds, of "\<lparr>pp_low = shares_at (points (pk_committee pk)) lo,
               pp_high = shares_at (points (pk_committee pk)) hi\<rparr>"])
      (use lo(1) lo(2) [unfolded deg] hi(1) hi(2) [unfolded deg] in
        \<open>simp_all add: packed_pairgen_def packed_tau_eq [OF assms] h rc Let_def del: One_nat_def\<close>)
qed

lemma packed_degree_reduce_packs:
  assumes "good_packed pk" and x: "packs pk (pk_degree pk) xv xs" and y: "packs pk (pk_degree pk) yv ys"
    and lo: "packs pk (pk_degree pk) r (pp_low pair)" and hi: "packs pk (2 * pk_degree pk) r (pp_high pair)"
  obtains out where "packed_degree_reduce xs ys pair pk = Ok out" "packs pk (pk_degree pk) (map2 (*) xv yv) out"
proof -
  let ?ps = "points (pk_committee pk)" and ?bs = "pk_points pk" and ?D = "pk_degree pk"
  obtain f h l u where f: "pdeg ?D f" "xs = on_points f ?ps" "map f ?bs = xv"
    and h: "pdeg ?D h" "ys = on_points h ?ps" "map h ?bs = yv"
    and l: "pdeg ?D l" "pp_low pair = on_points l ?ps" "map l ?bs = r"
    and u: "pdeg (2 * ?D) u" "pp_high pair = on_points u ?ps" "map u ?bs = r"
    using x y lo hi by (auto simp: packs_def)
  have pk: "distinct ?ps" "distinct ?bs" "length ?bs = pk_slots pk" "2 * ?D < length ?ps" "pk_slots pk - 1 \<le> ?D"
    using assms(1) by (simp_all add: good_packed_def committee_size_def)
  let ?w = "\<lambda>x. f x * h x + u x"
  have w: "pdeg (2 * ?D) ?w" using pdeg_add [OF pdeg_mult [OF f(1) h(1)]] u(1) by (simp flip: mult_2)
  have zip3: "map (\<lambda>((x, y), r). share_value x * share_value y + share_value r)
      (zip (zip (on_points f qs) (on_points h qs)) (on_points u qs)) = map ?w qs" for qs
    by (induction qs) (simp_all add: on_points_def)
  have wv: "mapR (interpolate_at ?ps (map ?w ?ps)) ?bs = Ok (map ?w ?bs)"
    by (rule mapR_Ok) (simp add: interpolate_at_eq pk(1) lagrange_recovers [OF w pk(4,1)])
  let ?o = "\<lambda>x. lagrange ?bs (map ?w ?bs) x - l x"
  have out: "mapR (\<lambda>(i, a). bindR (foldR (\<lambda>(j, wj) ww. bindR (lagrange_basis_at ?bs j a) (\<lambda>b. Ok (ww + wj * b)))
                  (List.enumerate 0 (map ?w ?bs)) 0)
            (\<lambda>ww. bindR (nthR (on_points l ?ps) i) (\<lambda>lo. Ok \<lparr>point = a, share_value = ww - share_value lo\<rparr>)))
          (List.enumerate 0 ?ps) = Ok (on_points ?o ?ps)"
  proof -
    have "mapR (\<lambda>(i, a). bindR (foldR (\<lambda>(j, wj) ww. bindR (lagrange_basis_at ?bs j a) (\<lambda>b. Ok (ww + wj * b)))
                  (List.enumerate 0 (map ?w ?bs)) 0)
            (\<lambda>ww. bindR (nthR (on_points l ?ps) i) (\<lambda>lo. Ok \<lparr>point = a, share_value = ww - share_value lo\<rparr>)))
          (List.enumerate 0 ?ps) =
        (Ok (map (\<lambda>(i, a). \<lparr>point = a, share_value = ?o a\<rparr>) (List.enumerate 0 ?ps)) :: (mpc_error, _) res)"
      by (rule mapR_Ok)
        (auto simp: enumerate_eq_map_nth [of ?ps] weighted_basis_sum [OF pk(2), of "map ?w ?bs"] nthR_in_range on_points_def)
    also have "map (\<lambda>(i, a). \<lparr>point = a, share_value = ?o a\<rparr>) (List.enumerate 0 ?ps) = on_points ?o ?ps"
      by (rule nth_equalityI) (simp_all add: enumerate_eq_map_nth on_points_def)
    finally show ?thesis .
  qed
  have deg: "pdeg ?D ?o"
    using pk(3,5) by (intro pdeg_diff l(1) pdeg_mono [OF pdeg_lagrange]) simp
  have vals: "map ?o ?bs = map2 (*) xv yv"
  proof (rule nth_equalityI)
    fix i assume "i < length (map ?o ?bs)"
    then have i: "i < length ?bs" by simp
    have eq: "u (?bs ! i) = l (?bs ! i)" using u(3) l(3) i by (metis nth_map)
    show "map ?o ?bs ! i = map2 (*) xv yv ! i"
      using i eq by (simp add: lagrange_at_point pk(2) flip: f(3) h(3))
  qed (simp flip: f(3) h(3))
  have "packed_degree_reduce xs ys pair pk = Ok (on_points ?o ?ps)"
    using out wv by (simp add: packed_degree_reduce_def Let_def committee_size_def f(2) h(2) l(2) u(2) zip3)
  then show ?thesis by (rule that [OF _ packsI [OF deg vals]])
qed

section \<open>Properties\<close>

text \<open>C21. Two packed sharings are multiplied slot by slot: with a generated pair, the degree reduction
  succeeds and its shares lie on a polynomial of the original degree whose values at the packing
  points are the products of the slots.\<close>

theorem packed_multiplication_correct:
  fixes P :: "'f::field prime_field_ops" and draw :: "'g \<Rightarrow> 'f \<times> 'g"
  assumes P: "prime_field P" and size: "n + l < pf_modulus P" "n + l < 2 ^ 64"
    and new: "packed_params_new (prime_share_ops draw) t n l = Ok pk"
    and x: "packed_split (prime_share_ops draw) xv pk g1 = Ok (xs, g2)"
    and y: "packed_split (prime_share_ops draw) yv pk g3 = Ok (ys, g4)"
    and pair: "packed_pairgen (prime_share_ops draw) hmac R pk nonce g5 = Ok (pair, g6)"
  shows "\<exists>out f. packed_degree_reduce xs ys pair pk = Ok out \<and>
           sharing (pk_degree pk) f out \<and> map point out = points (pk_committee pk) \<and>
           map f (pk_points pk) = map2 (*) xv yv \<and>
           mapR (interpolate_at (points (pk_committee pk)) (map share_value out)) (pk_points pk) = Ok (map2 (*) xv yv)"
proof -
  let ?F = "prime_share_ops draw :: ('f, 'g) share_field_ops"
  have good: "good_packed pk" by (rule packed_params_good [OF P size new])
  have len: "length xv = pk_slots pk" "length yv = pk_slots pk"
    using x y by (auto simp: packed_split_def split: if_splits)
  have xp: "packs pk (pk_degree pk) xv xs"
    by (rule packed_split_packs [OF good len(1), of ?F g1]) (use x in simp)
  have yp: "packs pk (pk_degree pk) yv ys"
    by (rule packed_split_packs [OF good len(2), of ?F g3]) (use y in simp)
  obtain r where r: "packs pk (pk_degree pk) r (pp_low pair)" "packs pk (2 * pk_degree pk) r (pp_high pair)"
    by (rule packed_pairgen_packs [OF good, of R g5 ?F hmac nonce]) (use pair in simp)
  obtain out where out: "packed_degree_reduce xs ys pair pk = Ok out" "packs pk (pk_degree pk) (map2 (*) xv yv) out"
    by (rule packed_degree_reduce_packs [OF good xp yp r])
  moreover have "pk_degree pk < committee_size (pk_committee pk)" using good by (simp add: good_packed_def)
  ultimately show ?thesis
    using packs_interpolate [OF good out(2)] out(2) [unfolded packs_sharing] by blast
qed

theorem packed_multiplication_correct_witness:
  "\<exists>pk xs g2 ys g4 pair g6 out.
     packed_params_new (prime_share_ops zp_draw) 1 5 2 = Ok pk \<and>
     packed_split (prime_share_ops zp_draw) [3, 4] pk 0 = Ok (xs, g2) \<and>
     packed_split (prime_share_ops zp_draw) [5, 6] pk g2 = Ok (ys, g4) \<and>
     packed_pairgen (prime_share_ops zp_draw) (@) counter_rng pk [9] g4 = Ok (pair, g6) \<and>
     packed_degree_reduce xs ys pair pk = Ok out \<and>
     mapR (interpolate_at (points (pk_committee pk)) (map share_value out)) (pk_points pk) = Ok [3 * 5, 4 * 6]"
proof -
  let ?F = "prime_share_ops zp_draw"
  obtain pk where pk: "packed_params_new ?F 1 5 2 = Ok pk" "pk_slots pk = 2"
    by (simp add: packed_params_new_def committee_new_def validate_parameters_def)
  have size: "5 + 2 < pf_modulus zp_ops" "5 + 2 < (2 :: nat) ^ 64" by (simp_all add: zp_ops_def PLAINTEXT_MODULUS_def)
  note good = packed_params_good [OF zp.prime_field_axioms size pk(1)]
  obtain xs g2 where x: "packed_split ?F [3, 4] pk 0 = Ok (xs, g2)"
    by (rule packed_split_packs [OF good, of "[3, 4]" ?F 0]) (simp_all add: pk)
  obtain ys g4 where y: "packed_split ?F [5, 6] pk g2 = Ok (ys, g4)"
    by (rule packed_split_packs [OF good, of "[5, 6]" ?F g2]) (simp_all add: pk)
  obtain pair g6 where pair: "packed_pairgen ?F (@) counter_rng pk [9] g4 = Ok (pair, g6)"
    by (rule packed_pairgen_packs [OF good, of counter_rng g4 ?F "(@)" "[9]"])
  show ?thesis
    using packed_multiplication_correct [OF zp.prime_field_axioms size pk(1) x y pair] pk(1) x y pair by auto
qed

text \<open>A packed pair shares one vector twice, at degree \<open>D\<close> and \<open>2 D\<close>; entry \<open>k\<close> of the vector is the sum
  of one derived value per nested pair of holder sets.\<close>

theorem packed_pairgen_correct:
  fixes P :: "'f::field prime_field_ops" and draw :: "'g \<Rightarrow> 'f \<times> 'g"
  assumes P: "prime_field P" and size: "n + l < pf_modulus P" "n + l < 2 ^ 64"
    and new: "packed_params_new (prime_share_ops draw) t n l = Ok pk"
  shows "\<exists>h1 h2 seeds g' pair lo hi.
    holder_sets n t = Ok h1 \<and> holder_sets n (2 * pk_degree pk + 1 - l) = Ok h2 \<and>
    draw_seeds R (nested_pairs h1 h2 * l) g = (seeds, g') \<and>
    packed_pairgen (prime_share_ops draw) hmac R pk nonce g = Ok (pair, g') \<and>
    sharing (pk_degree pk) lo (pp_low pair) \<and> map point (pp_low pair) = points (pk_committee pk) \<and>
    sharing (2 * pk_degree pk) hi (pp_high pair) \<and> map point (pp_high pair) = points (pk_committee pk) \<and>
    map lo (pk_points pk) = map hi (pk_points pk) \<and>
    map lo (pk_points pk) =
      map (\<lambda>k. \<Sum>p<nested_pairs h1 h2. derive_element (prime_share_ops draw) hmac (seeds ! (p * l + k)) nonce) [0..<l]"
proof -
  let ?F = "prime_share_ops draw :: ('f, 'g) share_field_ops"
  have good: "good_packed pk" by (rule packed_params_good [OF P size new])
  have pk: "pk_slots pk = l" "threshold (pk_committee pk) = t" "committee_size (pk_committee pk) = n"
    using new by (auto simp: packed_params_new_def committee_new_def committee_size_def Let_def split: if_splits)
  show ?thesis
    by (rule packed_pairgen_packs [OF good, of R g ?F hmac nonce]) (unfold pk packs_sharing, metis)
qed

theorem packed_pairgen_correct_witness:
  "\<exists>pk h1 h2 seeds g' pair.
     packed_params_new (prime_share_ops zp_draw) 1 5 2 = Ok pk \<and>
     holder_sets 5 1 = Ok h1 \<and> holder_sets 5 (2 * pk_degree pk + 1 - 2) = Ok h2 \<and>
     draw_seeds counter_rng (nested_pairs h1 h2 * 2) 0 = (seeds, g') \<and>
     packed_pairgen (prime_share_ops zp_draw) (@) counter_rng pk [9] 0 = Ok (pair, g')"
proof -
  obtain pk where pk: "packed_params_new (prime_share_ops zp_draw) 1 5 2 = Ok pk"
    by (simp add: packed_params_new_def committee_new_def validate_parameters_def)
  have size: "5 + 2 < pf_modulus zp_ops" "5 + 2 < (2 :: nat) ^ 64" by (simp_all add: zp_ops_def PLAINTEXT_MODULUS_def)
  show ?thesis
    using packed_pairgen_correct [OF zp.prime_field_axioms size pk, of counter_rng 0 "(@)" "[9]"] pk by auto
qed

end
