(* ===== verification/Backend.thy ===== *)
theory Backend
  imports Ppsc_Prelude
begin

text \<open>
  The backend interface of \<open>runtime/src/lib.rs\<close>: the traits \<open>MpcBackend\<close>, \<open>FheBackend\<close>,
  \<open>HybridConversionBackend\<close> and \<open>CommitmentBackend\<close> as one record of operations, and the
  development backend \<open>PlaintextBackend\<close>.

  What the runtime relies on is the locale \<open>confidential_backend\<close>: every handle stands for a
  u128 value (\<open>mval\<close> for MPC handles, \<open>cval\<close> for ciphertexts) and the operations compute on those
  values.  \<open>PlaintextBackend\<close> is its interpretation.
\<close>

datatype backend_error =
  BInvalidEncoding | BInvalidCiphertext | BUnauthorized | BOverflow | BInsufficientBalance

type_synonym private_account_id = bytes
type_synonym asset_id = bytes
type_synonym commitment = bytes
type_synonym mpc_amount = bytes
type_synonym fhe_amount = bytes

record backend =
  share_amount :: "u128 \<Rightarrow> (backend_error, mpc_amount) res"
  mpc_checked_add :: "mpc_amount \<Rightarrow> mpc_amount \<Rightarrow> (backend_error, mpc_amount) res"
  mpc_checked_sub :: "mpc_amount \<Rightarrow> mpc_amount \<Rightarrow> (backend_error, mpc_amount) res"
  mpc_greater_than_or_equal :: "mpc_amount \<Rightarrow> mpc_amount \<Rightarrow> (backend_error, bool) res"
  conditional_transfer_strictly_greater ::
    "mpc_amount \<Rightarrow> mpc_amount \<Rightarrow> mpc_amount \<Rightarrow> mpc_amount \<Rightarrow> (backend_error, mpc_amount \<times> mpc_amount) res"
  encrypt_amount :: "u128 \<Rightarrow> private_account_id \<Rightarrow> asset_id \<Rightarrow> (backend_error, fhe_amount) res"
  decrypt_for_owner :: "fhe_amount \<Rightarrow> private_account_id \<Rightarrow> bytes \<Rightarrow> (backend_error, u128) res"
  fhe_to_mpc :: "fhe_amount \<Rightarrow> (backend_error, mpc_amount) res"
  mpc_to_fhe :: "mpc_amount \<Rightarrow> private_account_id \<Rightarrow> asset_id \<Rightarrow> (backend_error, fhe_amount) res"
  commit :: "bytes \<Rightarrow> bytes list \<Rightarrow> commitment"

section \<open>The development backend\<close>

definition DEV_FHE_PREFIX :: bytes where
  "DEV_FHE_PREFIX = ascii ''PPSC_DEV_PLAINTEXT_FHE_V1''"

definition DEV_AUTHORIZATION :: bytes where
  "DEV_AUTHORIZATION = ascii ''dev-authorized''"

definition decode_u128 :: "bytes \<Rightarrow> (backend_error, u128) res" where
  "decode_u128 bs = (if length bs = 16 then Ok (u128_of_be bs) else Err BInvalidEncoding)"

definition encode_secret :: "u128 \<Rightarrow> mpc_amount" where
  "encode_secret amount = u128_be amount"

definition decode_secret :: "mpc_amount \<Rightarrow> (backend_error, u128) res" where
  "decode_secret value = decode_u128 value"

definition encode_ciphertext :: "u128 \<Rightarrow> fhe_amount" where
  "encode_ciphertext amount = DEV_FHE_PREFIX @ u128_be amount"

definition decode_ciphertext :: "fhe_amount \<Rightarrow> (backend_error, u128) res" where
  "decode_ciphertext bs =
     (if length bs \<noteq> length DEV_FHE_PREFIX + 16 \<or> take (length DEV_FHE_PREFIX) bs \<noteq> DEV_FHE_PREFIX
      then Err BInvalidCiphertext
      else decode_u128 (drop (length DEV_FHE_PREFIX) bs))"

definition plain_checked_add :: "mpc_amount \<Rightarrow> mpc_amount \<Rightarrow> (backend_error, mpc_amount) res" where
  "plain_checked_add left right =
     bindR (decode_secret left) (\<lambda>l. bindR (decode_secret right) (\<lambda>r.
     bindR (ok_or BOverflow (checked_add l r)) (\<lambda>value. Ok (encode_secret value))))"

definition plain_checked_sub :: "mpc_amount \<Rightarrow> mpc_amount \<Rightarrow> (backend_error, mpc_amount) res" where
  "plain_checked_sub left right =
     bindR (decode_secret left) (\<lambda>l. bindR (decode_secret right) (\<lambda>r.
     bindR (ok_or BInsufficientBalance (checked_sub l r)) (\<lambda>value. Ok (encode_secret value))))"

definition plain_greater_than_or_equal :: "mpc_amount \<Rightarrow> mpc_amount \<Rightarrow> (backend_error, bool) res" where
  "plain_greater_than_or_equal left right =
     bindR (decode_secret left) (\<lambda>l. bindR (decode_secret right) (\<lambda>r. Ok (r \<le> l)))"

definition plain_conditional_transfer ::
  "mpc_amount \<Rightarrow> mpc_amount \<Rightarrow> mpc_amount \<Rightarrow> mpc_amount \<Rightarrow> (backend_error, mpc_amount \<times> mpc_amount) res"
where
  "plain_conditional_transfer sender receiver minimum amount =
     bindR (decode_secret sender) (\<lambda>s. bindR (decode_secret receiver) (\<lambda>r.
     bindR (decode_secret minimum) (\<lambda>m. bindR (decode_secret amount) (\<lambda>a.
       if s \<le> m then Ok (encode_secret s, encode_secret r)
       else bindR (ok_or BInsufficientBalance (checked_sub s a)) (\<lambda>next_sender.
            bindR (ok_or BOverflow (checked_add r a)) (\<lambda>next_receiver.
              Ok (encode_secret next_sender, encode_secret next_receiver)))))))"

definition plain_decrypt_for_owner :: "fhe_amount \<Rightarrow> private_account_id \<Rightarrow> bytes \<Rightarrow> (backend_error, u128) res" where
  "plain_decrypt_for_owner ciphertext account authorization =
     (if authorization \<noteq> DEV_AUTHORIZATION then Err BUnauthorized else decode_ciphertext ciphertext)"

text \<open>One FNV-1a lane over the domain and all the parts; four lanes make the digest.\<close>

definition commit_lane :: "bytes \<Rightarrow> u64 \<Rightarrow> u64" where
  "commit_lane bs lane =
     fold (\<lambda>byte state. xor state (ucast byte) * 0x100000001b3) bs (xor 0xcbf29ce484222325 lane)"

definition plain_commit :: "bytes \<Rightarrow> bytes list \<Rightarrow> commitment" where
  "plain_commit tag parts = concat (map (\<lambda>lane. u64_be (commit_lane (tag @ concat parts) lane)) [0, 1, 2, 3])"

definition plaintext_backend :: backend where
  "plaintext_backend =
     \<lparr>share_amount = (\<lambda>amount. Ok (encode_secret amount)),
      mpc_checked_add = plain_checked_add,
      mpc_checked_sub = plain_checked_sub,
      mpc_greater_than_or_equal = plain_greater_than_or_equal,
      conditional_transfer_strictly_greater = plain_conditional_transfer,
      encrypt_amount = (\<lambda>amount account asset. Ok (encode_ciphertext amount)),
      decrypt_for_owner = plain_decrypt_for_owner,
      fhe_to_mpc = (\<lambda>ciphertext. bindR (decode_ciphertext ciphertext) (\<lambda>v. Ok (encode_secret v))),
      mpc_to_fhe = (\<lambda>value account asset. bindR (decode_secret value) (\<lambda>v. Ok (encode_ciphertext v))),
      commit = plain_commit\<rparr>"

section \<open>What a backend promises\<close>

locale confidential_backend =
  fixes B :: backend
    and mval :: "mpc_amount \<Rightarrow> u128 option"
    and cval :: "fhe_amount \<Rightarrow> u128 option"
    and may_open :: "private_account_id \<Rightarrow> bytes \<Rightarrow> bool"
  assumes share_value: "\<exists>m. share_amount B a = Ok m \<and> mval m = Some a"
    and add_value: "mval l = Some a \<Longrightarrow> mval r = Some b \<Longrightarrow> checked_add a b = Some c \<Longrightarrow>
          \<exists>m. mpc_checked_add B l r = Ok m \<and> mval m = Some c"
    and add_overflow: "mval l = Some a \<Longrightarrow> mval r = Some b \<Longrightarrow> checked_add a b = None \<Longrightarrow>
          mpc_checked_add B l r = Err BOverflow"
    and sub_value: "mval l = Some a \<Longrightarrow> mval r = Some b \<Longrightarrow> checked_sub a b = Some c \<Longrightarrow>
          \<exists>m. mpc_checked_sub B l r = Ok m \<and> mval m = Some c"
    and geq_value: "mval l = Some a \<Longrightarrow> mval r = Some b \<Longrightarrow> mpc_greater_than_or_equal B l r = Ok (b \<le> a)"
    and transfer_value: "mval s = Some a \<Longrightarrow> mval r = Some b \<Longrightarrow> mval m = Some mn \<Longrightarrow> mval x = Some c \<Longrightarrow>
          a \<le> mn \<Longrightarrow> \<exists>s' r'. conditional_transfer_strictly_greater B s r m x = Ok (s', r') \<and> mval s' = Some a \<and> mval r' = Some b"
    and transfer_moves: "mval s = Some a \<Longrightarrow> mval r = Some b \<Longrightarrow> mval m = Some mn \<Longrightarrow> mval x = Some c \<Longrightarrow>
          \<not> a \<le> mn \<Longrightarrow> checked_sub a c = Some a' \<Longrightarrow> checked_add b c = Some b' \<Longrightarrow>
          \<exists>s' r'. conditional_transfer_strictly_greater B s r m x = Ok (s', r') \<and> mval s' = Some a' \<and> mval r' = Some b'"
    and transfer_short: "mval s = Some a \<Longrightarrow> mval r = Some b \<Longrightarrow> mval m = Some mn \<Longrightarrow> mval x = Some c \<Longrightarrow>
          \<not> a \<le> mn \<Longrightarrow> checked_sub a c = None \<Longrightarrow> conditional_transfer_strictly_greater B s r m x = Err BInsufficientBalance"
    and transfer_overflow: "mval s = Some a \<Longrightarrow> mval r = Some b \<Longrightarrow> mval m = Some mn \<Longrightarrow> mval x = Some c \<Longrightarrow>
          \<not> a \<le> mn \<Longrightarrow> checked_sub a c = Some a' \<Longrightarrow> checked_add b c = None \<Longrightarrow>
          conditional_transfer_strictly_greater B s r m x = Err BOverflow"
    and encrypt_value: "\<exists>ct. encrypt_amount B a account asset = Ok ct \<and> cval ct = Some a"
    and decrypt_value: "cval ct = Some a \<Longrightarrow>
          decrypt_for_owner B ct account auth = (if may_open account auth then Ok a else Err BUnauthorized)"
    and to_mpc_value: "cval ct = Some a \<Longrightarrow> \<exists>m. fhe_to_mpc B ct = Ok m \<and> mval m = Some a"
    and to_fhe_value: "mval m = Some a \<Longrightarrow> \<exists>ct. mpc_to_fhe B m account asset = Ok ct \<and> cval ct = Some a"
    and commit_length: "length (commit B tag parts) = 32"

definition ok_value :: "('e, 'a) res \<Rightarrow> 'a option" where
  "ok_value r = (case r of Ok x \<Rightarrow> Some x | _ \<Rightarrow> None)"

lemma ok_value_Some [simp]: "ok_value r = Some x \<longleftrightarrow> r = Ok x"
  by (cases r) (auto simp: ok_value_def)

lemma decode_secret_encode [simp]: "decode_secret (encode_secret a) = Ok a"
  by (simp add: decode_secret_def encode_secret_def decode_u128_def)

lemma decode_ciphertext_encode [simp]: "decode_ciphertext (encode_ciphertext a) = Ok a"
  by (simp add: decode_ciphertext_def encode_ciphertext_def decode_u128_def)

lemma length_plain_commit [simp]: "length (plain_commit tag parts) = 32"
  by (simp add: plain_commit_def)

lemmas plain_ops_defs =
  plain_checked_add_def plain_checked_sub_def plain_greater_than_or_equal_def
  plain_conditional_transfer_def plain_decrypt_for_owner_def

abbreviation plain_mval :: "mpc_amount \<Rightarrow> u128 option" where
  "plain_mval m \<equiv> ok_value (decode_secret m)"

abbreviation plain_cval :: "fhe_amount \<Rightarrow> u128 option" where
  "plain_cval c \<equiv> ok_value (decode_ciphertext c)"

interpretation plain: confidential_backend plaintext_backend plain_mval plain_cval
    "\<lambda>account auth. auth = DEV_AUTHORIZATION"
  by unfold_locales (auto simp: plaintext_backend_def plain_ops_defs)

end
