(* ===== verification/Balance_Runtime.thy ===== *)
theory Balance_Runtime
  imports Backend
begin

text \<open>
  \<open>BalanceRuntime\<close> of \<open>runtime/src/lib.rs\<close>: encrypted balances per account and asset, the deposit,
  withdrawal and transfer commands, and the chain of state roots.

  The mutex is its content and the poisoned flag that a panicking holder leaves behind.  The
  abstract \<open>ledger\<close> holds plain natural numbers; over any backend that keeps the promises of
  \<open>confidential_backend\<close> every command runs as the ledger command of the same name.
\<close>

datatype runtime_error =
  RInvalidAmount | RStaleStateRoot | RDepositAlreadyProcessed | RNullifierAlreadySpent
| RBalanceNotFound | RInsufficientBalance | RUnauthorized | RStateUnavailable
| RPersistenceFailure | RCorruptPersistence | RBackend backend_error

fun runtime_error_of :: "backend_error \<Rightarrow> runtime_error" where
  "runtime_error_of BInsufficientBalance = RInsufficientBalance"
| "runtime_error_of BUnauthorized = RUnauthorized"
| "runtime_error_of e = RBackend e"

text \<open>The \<open>?\<close> operator on a backend call converts the error.\<close>

abbreviation calls :: "(backend_error, 'a) res \<Rightarrow> ('a \<Rightarrow> (runtime_error, 'b) res) \<Rightarrow> (runtime_error, 'b) res" where
  "calls m f \<equiv> bindR (mapE runtime_error_of m) f"

record deposit_command =
  dep_deposit_id :: bytes
  dep_account :: private_account_id
  dep_asset :: asset_id
  dep_amount :: u128
  dep_expected_old_state_root :: commitment

record withdrawal_command =
  wd_nullifier :: bytes
  wd_account :: private_account_id
  wd_asset :: asset_id
  wd_gross_amount :: u128
  wd_expected_old_state_root :: commitment

record transfer_command =
  tr_transfer_id :: bytes
  tr_sender :: private_account_id
  tr_receiver :: private_account_id
  tr_asset :: asset_id
  tr_amount :: u128
  tr_expected_old_state_root :: commitment

record transfer_transition =
  tt_new_state_root :: commitment
  tt_sender_data_id :: bytes
  tt_receiver_data_id :: bytes
  tt_transcript_root :: commitment
  tt_sender_version :: u64
  tt_receiver_version :: u64

record state_transition =
  st_new_state_root :: commitment
  st_encrypted_balance_data_id :: bytes
  st_transcript_root :: commitment
  st_version :: u64

record encrypted_balance_view =
  view_data_id :: bytes
  view_ciphertext :: bytes
  view_state_root :: commitment
  view_version :: u64

record balance_record =
  br_ciphertext :: fhe_amount
  br_data_id :: bytes
  br_version :: u64

type_synonym balance_key = "private_account_id \<times> asset_id"

record runtime_state =
  rs_state_root :: commitment
  rs_balances :: "balance_key \<rightharpoonup> balance_record"
  rs_processed_deposits :: "bytes set"
  rs_spent_nullifiers :: "bytes set"
  rs_processed_transfers :: "bytes set"

record balance_runtime =
  rt_state :: runtime_state
  rt_poisoned :: bool

definition default_state :: runtime_state where
  "default_state =
     \<lparr>rs_state_root = replicate 32 0, rs_balances = Map.empty, rs_processed_deposits = {},
      rs_spent_nullifiers = {}, rs_processed_transfers = {}\<rparr>"

definition balance_runtime_new :: balance_runtime where
  "balance_runtime_new = \<lparr>rt_state = default_state, rt_poisoned = False\<rparr>"

definition version_succ :: "u64 \<Rightarrow> (runtime_error, u64) res" where
  "version_succ v = expectR (checked_add v 1)"

definition next_record ::
  "backend \<Rightarrow> commitment \<Rightarrow> private_account_id \<Rightarrow> asset_id \<Rightarrow> fhe_amount \<Rightarrow> u64 \<Rightarrow>
     balance_record \<times> commitment \<times> commitment"
where
  "next_record B old_root account asset ciphertext version =
     (let version_bytes = u64_be version;
          new_root = commit B (ascii ''PPSC_RUNTIME_STATE_V1'') [old_root, account, asset, ciphertext, version_bytes];
          data_id = commit B (ascii ''PPSC_BALANCE_DATA_V1'') [account, asset, ciphertext, version_bytes];
          transcript = commit B (ascii ''PPSC_RUNTIME_TRANSCRIPT_V1'') [old_root, new_root, data_id]
      in (\<lparr>br_ciphertext = ciphertext, br_data_id = data_id, br_version = version\<rparr>, new_root, transcript))"

text \<open>
  Every command takes the lock, fails on a poisoned mutex, and poisons it when it panics; the
  command's body changes the state only after its last fallible call.
\<close>

definition with_lock ::
  "(runtime_state \<Rightarrow> (runtime_error, 'a \<times> runtime_state) res) \<Rightarrow> balance_runtime \<Rightarrow>
     (runtime_error, 'a) res \<times> balance_runtime"
where
  "with_lock body rt =
     (if rt_poisoned rt then (Err RStateUnavailable, rt)
      else case body (rt_state rt) of
        Ok (out, st) \<Rightarrow> (Ok out, rt\<lparr>rt_state := st\<rparr>)
      | Err e \<Rightarrow> (Err e, rt)
      | Panic \<Rightarrow> (Panic, rt\<lparr>rt_poisoned := True\<rparr>))"

definition credit_locked ::
  "backend \<Rightarrow> deposit_command \<Rightarrow> runtime_state \<Rightarrow> (runtime_error, state_transition \<times> runtime_state) res"
where
  "credit_locked B command st =
     (if rs_state_root st \<noteq> dep_expected_old_state_root command then Err RStaleStateRoot
      else if dep_deposit_id command \<in> rs_processed_deposits st then Err RDepositAlreadyProcessed
      else let key = (dep_account command, dep_asset command) in
        bindR (case rs_balances st key of
            Some current \<Rightarrow>
              calls (fhe_to_mpc B (br_ciphertext current)) (\<lambda>current_value.
              calls (share_amount B (dep_amount command)) (\<lambda>deposit_value.
              calls (mpc_checked_add B current_value deposit_value) (\<lambda>next_value.
              calls (mpc_to_fhe B next_value (dep_account command) (dep_asset command)) (\<lambda>ciphertext.
              bindR (version_succ (br_version current)) (\<lambda>version. Ok (ciphertext, version))))))
          | None \<Rightarrow>
              calls (encrypt_amount B (dep_amount command) (dep_account command) (dep_asset command))
                (\<lambda>ciphertext. Ok (ciphertext, 1)))
        (\<lambda>(ciphertext, version).
          let (rcd, new_root, transcript_root) =
                next_record B (rs_state_root st) (dep_account command) (dep_asset command) ciphertext version
          in Ok (\<lparr>st_new_state_root = new_root, st_encrypted_balance_data_id = br_data_id rcd,
                  st_transcript_root = transcript_root, st_version = version\<rparr>,
                 st\<lparr>rs_balances := (rs_balances st)(key \<mapsto> rcd),
                    rs_processed_deposits := insert (dep_deposit_id command) (rs_processed_deposits st),
                    rs_state_root := new_root\<rparr>)))"

definition credit_deposit ::
  "backend \<Rightarrow> deposit_command \<Rightarrow> balance_runtime \<Rightarrow> (runtime_error, state_transition) res \<times> balance_runtime"
where
  "credit_deposit B command rt =
     (if dep_amount command = 0 then (Err RInvalidAmount, rt) else with_lock (credit_locked B command) rt)"

definition debit_locked ::
  "backend \<Rightarrow> withdrawal_command \<Rightarrow> runtime_state \<Rightarrow> (runtime_error, state_transition \<times> runtime_state) res"
where
  "debit_locked B command st =
     (if rs_state_root st \<noteq> wd_expected_old_state_root command then Err RStaleStateRoot
      else if wd_nullifier command \<in> rs_spent_nullifiers st then Err RNullifierAlreadySpent
      else let key = (wd_account command, wd_asset command) in
        bindR (ok_or RBalanceNotFound (rs_balances st key)) (\<lambda>current.
        calls (fhe_to_mpc B (br_ciphertext current)) (\<lambda>current_value.
        calls (share_amount B (wd_gross_amount command)) (\<lambda>debit_value.
        calls (mpc_greater_than_or_equal B current_value debit_value) (\<lambda>enough.
        if \<not> enough then Err RInsufficientBalance
        else
          calls (mpc_checked_sub B current_value debit_value) (\<lambda>next_value.
          calls (mpc_to_fhe B next_value (wd_account command) (wd_asset command)) (\<lambda>ciphertext.
          bindR (version_succ (br_version current)) (\<lambda>version.
            let (rcd, new_root, transcript_root) =
                  next_record B (rs_state_root st) (wd_account command) (wd_asset command) ciphertext version
            in Ok (\<lparr>st_new_state_root = new_root, st_encrypted_balance_data_id = br_data_id rcd,
                    st_transcript_root = transcript_root, st_version = version\<rparr>,
                   st\<lparr>rs_balances := (rs_balances st)(key \<mapsto> rcd),
                      rs_spent_nullifiers := insert (wd_nullifier command) (rs_spent_nullifiers st),
                      rs_state_root := new_root\<rparr>)))))))))"

definition debit_withdrawal ::
  "backend \<Rightarrow> withdrawal_command \<Rightarrow> balance_runtime \<Rightarrow> (runtime_error, state_transition) res \<times> balance_runtime"
where
  "debit_withdrawal B command rt =
     (if wd_gross_amount command = 0 then (Err RInvalidAmount, rt) else with_lock (debit_locked B command) rt)"

definition transfer_locked ::
  "backend \<Rightarrow> transfer_command \<Rightarrow> runtime_state \<Rightarrow> (runtime_error, transfer_transition \<times> runtime_state) res"
where
  "transfer_locked B command st =
     (if rs_state_root st \<noteq> tr_expected_old_state_root command then Err RStaleStateRoot
      else if tr_transfer_id command \<in> rs_processed_transfers st then Err RNullifierAlreadySpent
      else
        let sender_key = (tr_sender command, tr_asset command);
            receiver_key = (tr_receiver command, tr_asset command) in
        bindR (ok_or RBalanceNotFound (rs_balances st sender_key)) (\<lambda>sender.
        calls (fhe_to_mpc B (br_ciphertext sender)) (\<lambda>sender_secret.
        calls (case rs_balances st receiver_key of
                 Some value \<Rightarrow> fhe_to_mpc B (br_ciphertext value)
               | None \<Rightarrow> share_amount B 0) (\<lambda>receiver_secret.
        calls (share_amount B (tr_amount command)) (\<lambda>amount.
        calls (mpc_greater_than_or_equal B sender_secret amount) (\<lambda>enough.
        if \<not> enough then Err RInsufficientBalance
        else
          calls (mpc_checked_sub B sender_secret amount) (\<lambda>sender_next.
          calls (mpc_checked_add B receiver_secret amount) (\<lambda>receiver_next.
          bindR (version_succ (br_version sender)) (\<lambda>sender_version.
          bindR (case rs_balances st receiver_key of
                   None \<Rightarrow> Ok 1 | Some value \<Rightarrow> version_succ (br_version value)) (\<lambda>receiver_version.
          calls (mpc_to_fhe B sender_next (tr_sender command) (tr_asset command)) (\<lambda>sender_ciphertext.
          calls (mpc_to_fhe B receiver_next (tr_receiver command) (tr_asset command)) (\<lambda>receiver_ciphertext.
            let (sender_record, intermediate_root, _) =
                  next_record B (rs_state_root st) (tr_sender command) (tr_asset command) sender_ciphertext sender_version;
                (receiver_record, new_root, transcript_root) =
                  next_record B intermediate_root (tr_receiver command) (tr_asset command) receiver_ciphertext receiver_version
            in Ok (\<lparr>tt_new_state_root = new_root, tt_sender_data_id = br_data_id sender_record,
                    tt_receiver_data_id = br_data_id receiver_record, tt_transcript_root = transcript_root,
                    tt_sender_version = sender_version, tt_receiver_version = receiver_version\<rparr>,
                   st\<lparr>rs_balances := (rs_balances st)(sender_key \<mapsto> sender_record, receiver_key \<mapsto> receiver_record),
                      rs_processed_transfers := insert (tr_transfer_id command) (rs_processed_transfers st),
                      rs_state_root := new_root\<rparr>)))))))))))))"

definition transfer ::
  "backend \<Rightarrow> transfer_command \<Rightarrow> balance_runtime \<Rightarrow> (runtime_error, transfer_transition) res \<times> balance_runtime"
where
  "transfer B command rt =
     (if tr_amount command = 0 \<or> tr_sender command = tr_receiver command then (Err RInvalidAmount, rt)
      else with_lock (transfer_locked B command) rt)"

definition encrypted_balance ::
  "private_account_id \<Rightarrow> asset_id \<Rightarrow> balance_runtime \<Rightarrow> (runtime_error, encrypted_balance_view) res"
where
  "encrypted_balance account asset rt =
     (if rt_poisoned rt then Err RStateUnavailable
      else bindR (ok_or RBalanceNotFound (rs_balances (rt_state rt) (account, asset))) (\<lambda>rcd.
        Ok \<lparr>view_data_id = br_data_id rcd, view_ciphertext = br_ciphertext rcd,
            view_state_root = rs_state_root (rt_state rt), view_version = br_version rcd\<rparr>))"

definition open_balance_for_owner ::
  "backend \<Rightarrow> private_account_id \<Rightarrow> asset_id \<Rightarrow> bytes \<Rightarrow> balance_runtime \<Rightarrow> (runtime_error, u128) res"
where
  "open_balance_for_owner B account asset authorization rt =
     (if rt_poisoned rt then Err RStateUnavailable
      else bindR (ok_or RBalanceNotFound (rs_balances (rt_state rt) (account, asset))) (\<lambda>rcd.
        mapE runtime_error_of (decrypt_for_owner B (br_ciphertext rcd) account authorization)))"

definition state_root :: "balance_runtime \<Rightarrow> (runtime_error, commitment) res" where
  "state_root rt = (if rt_poisoned rt then Err RStateUnavailable else Ok (rs_state_root (rt_state rt)))"

section \<open>Commands, runs and the abstract ledger\<close>

datatype command = Deposit deposit_command | Withdrawal withdrawal_command | Transfer transfer_command

datatype transition = Single state_transition | Double transfer_transition

fun run_command :: "backend \<Rightarrow> command \<Rightarrow> balance_runtime \<Rightarrow> (runtime_error, transition) res \<times> balance_runtime" where
  "run_command B (Deposit c) rt = (let (r, rt') = credit_deposit B c rt in (bindR r (\<lambda>t. Ok (Single t)), rt'))"
| "run_command B (Withdrawal c) rt = (let (r, rt') = debit_withdrawal B c rt in (bindR r (\<lambda>t. Ok (Single t)), rt'))"
| "run_command B (Transfer c) rt = (let (r, rt') = transfer B c rt in (bindR r (\<lambda>t. Ok (Double t)), rt'))"

type_synonym log = "(command \<times> (runtime_error, transition) res) list"

fun run_commands :: "backend \<Rightarrow> command list \<Rightarrow> balance_runtime \<Rightarrow> log \<times> balance_runtime" where
  "run_commands B [] rt = ([], rt)"
| "run_commands B (c # cs) rt =
     (let (r, rt1) = run_command B c rt; (log, rt2) = run_commands B cs rt1 in ((c, r) # log, rt2))"

fun command_root :: "command \<Rightarrow> commitment" where
  "command_root (Deposit c) = dep_expected_old_state_root c"
| "command_root (Withdrawal c) = wd_expected_old_state_root c"
| "command_root (Transfer c) = tr_expected_old_state_root c"

fun transition_root :: "transition \<Rightarrow> commitment" where
  "transition_root (Single t) = st_new_state_root t"
| "transition_root (Double t) = tt_new_state_root t"

record ledger =
  led_balance :: "balance_key \<rightharpoonup> nat"
  led_deposits :: "bytes set"
  led_nullifiers :: "bytes set"
  led_transfers :: "bytes set"

definition ledger_of :: "(fhe_amount \<Rightarrow> u128 option) \<Rightarrow> runtime_state \<Rightarrow> ledger" where
  "ledger_of cval st =
     \<lparr>led_balance = (\<lambda>k. map_option (\<lambda>r. unat (the (cval (br_ciphertext r)))) (rs_balances st k)),
      led_deposits = rs_processed_deposits st, led_nullifiers = rs_spent_nullifiers st,
      led_transfers = rs_processed_transfers st\<rparr>"

definition balance_or_zero :: "ledger \<Rightarrow> balance_key \<Rightarrow> nat" where
  "balance_or_zero L k = (case led_balance L k of None \<Rightarrow> 0 | Some v \<Rightarrow> v)"

text \<open>The ledger's step; \<open>fresh\<close> says that the command quotes the current state root.\<close>

fun ledger_step :: "bool \<Rightarrow> command \<Rightarrow> ledger \<Rightarrow> (runtime_error, ledger) res" where
  "ledger_step fresh (Deposit c) L =
     (let k = (dep_account c, dep_asset c); v = balance_or_zero L k + unat (dep_amount c) in
      if dep_amount c = 0 then Err RInvalidAmount
      else if \<not> fresh then Err RStaleStateRoot
      else if dep_deposit_id c \<in> led_deposits L then Err RDepositAlreadyProcessed
      else if 2 ^ 128 \<le> v then Err (RBackend BOverflow)
      else Ok (L\<lparr>led_balance := (led_balance L)(k \<mapsto> v), led_deposits := insert (dep_deposit_id c) (led_deposits L)\<rparr>))"
| "ledger_step fresh (Withdrawal c) L =
     (let k = (wd_account c, wd_asset c) in
      if wd_gross_amount c = 0 then Err RInvalidAmount
      else if \<not> fresh then Err RStaleStateRoot
      else if wd_nullifier c \<in> led_nullifiers L then Err RNullifierAlreadySpent
      else case led_balance L k of
        None \<Rightarrow> Err RBalanceNotFound
      | Some v \<Rightarrow>
          if v < unat (wd_gross_amount c) then Err RInsufficientBalance
          else Ok (L\<lparr>led_balance := (led_balance L)(k \<mapsto> v - unat (wd_gross_amount c)),
                     led_nullifiers := insert (wd_nullifier c) (led_nullifiers L)\<rparr>))"
| "ledger_step fresh (Transfer c) L =
     (let k = (tr_sender c, tr_asset c); k' = (tr_receiver c, tr_asset c);
          v' = balance_or_zero L k' + unat (tr_amount c) in
      if tr_amount c = 0 \<or> tr_sender c = tr_receiver c then Err RInvalidAmount
      else if \<not> fresh then Err RStaleStateRoot
      else if tr_transfer_id c \<in> led_transfers L then Err RNullifierAlreadySpent
      else case led_balance L k of
        None \<Rightarrow> Err RBalanceNotFound
      | Some v \<Rightarrow>
          if v < unat (tr_amount c) then Err RInsufficientBalance
          else if 2 ^ 128 \<le> v' then Err (RBackend BOverflow)
          else Ok (L\<lparr>led_balance := (led_balance L)(k \<mapsto> v - unat (tr_amount c), k' \<mapsto> v'),
                     led_transfers := insert (tr_transfer_id c) (led_transfers L)\<rparr>))"

text \<open>
  A well-formed state after at most \<open>n\<close> updates: every stored ciphertext stands for a value, digests
  have 32 bytes and versions run from 1 to \<open>n\<close>.
\<close>

definition wf_record :: "(fhe_amount \<Rightarrow> u128 option) \<Rightarrow> nat \<Rightarrow> balance_record \<Rightarrow> bool" where
  "wf_record cval n r \<longleftrightarrow> cval (br_ciphertext r) \<noteq> None \<and> length (br_data_id r) = 32
     \<and> 1 \<le> unat (br_version r) \<and> unat (br_version r) \<le> n"

definition wf_state :: "(fhe_amount \<Rightarrow> u128 option) \<Rightarrow> nat \<Rightarrow> runtime_state \<Rightarrow> bool" where
  "wf_state cval n st \<longleftrightarrow>
     length (rs_state_root st) = 32 \<and> (\<forall>r \<in> ran (rs_balances st). wf_record cval n r)"

definition runs_as ::
  "(fhe_amount \<Rightarrow> u128 option) \<Rightarrow> nat \<Rightarrow> balance_runtime \<Rightarrow> (runtime_error, ledger) res \<Rightarrow>
     (runtime_error, 'a) res \<times> balance_runtime \<Rightarrow> bool"
where
  "runs_as cval n rt spec out =
     (case spec of
        Ok L \<Rightarrow> is_ok (fst out) \<and> \<not> rt_poisoned (snd out) \<and> wf_state cval (Suc n) (rt_state (snd out))
                \<and> ledger_of cval (rt_state (snd out)) = L
      | Err e \<Rightarrow> out = (Err e, rt)
      | Panic \<Rightarrow> False)"

lemma version_succ_below: "unat v \<le> n \<Longrightarrow> n < 2 ^ 64 - 1 \<Longrightarrow> \<exists>w. version_succ v = Ok w \<and> unat w = Suc (unat v)"
  by (auto simp: version_succ_def checked_add_Some checked_add_def unat_word_ariths intro!: exI [of _ "v + 1"])

lemma wf_record_mono: "wf_record cval n r \<Longrightarrow> n \<le> n' \<Longrightarrow> wf_record cval n' r"
  by (auto simp: wf_record_def)

lemma wf_state_lookup: "wf_state cval n st \<Longrightarrow> rs_balances st k = Some r \<Longrightarrow> wf_record cval n r"
  unfolding wf_state_def by (blast intro: ranI)

lemma wf_state_mono: "wf_state cval n st \<Longrightarrow> n \<le> n' \<Longrightarrow> wf_state cval n' st"
  by (auto simp: wf_state_def intro: wf_record_mono)

lemma wf_state_update:
  assumes "wf_state cval n st" and "wf_record cval (Suc n) r" and "length root = 32"
  shows "wf_state cval (Suc n) (st\<lparr>rs_balances := (rs_balances st)(k \<mapsto> r), rs_processed_deposits := D, rs_state_root := root\<rparr>)"
    and "wf_state cval (Suc n) (st\<lparr>rs_balances := (rs_balances st)(k \<mapsto> r), rs_spent_nullifiers := D, rs_state_root := root\<rparr>)"
  using assms wf_state_mono [OF assms(1), of "Suc n"] by (auto simp: wf_state_def ran_def)

lemma wf_state_update2:
  assumes "wf_state cval n st" and "wf_record cval (Suc n) r" and "wf_record cval (Suc n) r'" and "length root = 32"
  shows "wf_state cval (Suc n)
    (st\<lparr>rs_balances := (rs_balances st)(k \<mapsto> r, k' \<mapsto> r'), rs_processed_transfers := D, rs_state_root := root\<rparr>)"
  using assms wf_state_mono [OF assms(1), of "Suc n"] by (auto simp: wf_state_def ran_def)

lemma runs_as_Err [simp]: "runs_as cval n rt (Err e) out \<longleftrightarrow> out = (Err e, rt)"
  by (simp add: runs_as_def)

lemma runs_as_with_lock:
  assumes "\<not> rt_poisoned rt"
    and "case spec of
           Ok L \<Rightarrow> \<exists>out st'. body (rt_state rt) = Ok (out, st') \<and> wf_state cval (Suc n) st' \<and> ledger_of cval st' = L
         | Err e \<Rightarrow> body (rt_state rt) = Err e
         | Panic \<Rightarrow> False"
  shows "runs_as cval n rt spec (with_lock body rt)"
  using assms by (cases spec) (auto simp: runs_as_def with_lock_def)

lemma with_lock_Err: "\<not> rt_poisoned rt \<Longrightarrow> body (rt_state rt) = Err e \<Longrightarrow> with_lock body rt = (Err e, rt)"
  by (simp add: with_lock_def)

lemma ledger_of_sel:
  "led_deposits (ledger_of cval st) = rs_processed_deposits st"
  "led_nullifiers (ledger_of cval st) = rs_spent_nullifiers st"
  "led_transfers (ledger_of cval st) = rs_processed_transfers st"
  "rs_balances st k = None \<Longrightarrow> led_balance (ledger_of cval st) k = None"
  "rs_balances st k = Some r \<Longrightarrow> cval (br_ciphertext r) = Some a \<Longrightarrow> led_balance (ledger_of cval st) k = Some (unat a)"
  by (simp_all add: ledger_of_def)

section \<open>Every command runs as its ledger step\<close>

context confidential_backend begin

lemma next_record_spec:
  assumes "next_record B old account asset ct v = (rcd, root, transcript)"
  shows "br_ciphertext rcd = ct" and "br_version rcd = v" and "length (br_data_id rcd) = 32" and "length root = 32"
  using assms by (auto simp: next_record_def Let_def commit_length)

lemma next_record_wf:
  assumes "next_record B old account asset ct v = (rcd, root, transcript)" and "cval ct = Some c"
    and "1 \<le> unat v" and "unat v \<le> Suc n"
  shows "wf_record cval (Suc n) rcd" and "length root = 32" and "cval (br_ciphertext rcd) = Some c"
  using next_record_spec [OF assms(1)] assms by (auto simp: wf_record_def)

lemma stored_value:
  assumes "wf_state cval n st" and "rs_balances st k = Some r"
  shows "\<exists>a m. cval (br_ciphertext r) = Some a \<and> fhe_to_mpc B (br_ciphertext r) = Ok m \<and> mval m = Some a"
proof -
  obtain a where "cval (br_ciphertext r) = Some a"
    using wf_state_lookup [OF assms] by (auto simp: wf_record_def)
  then show ?thesis using to_mpc_value by blast
qed

lemma next_version:
  assumes "wf_state cval n st" and "rs_balances st k = Some r" and "n < 2 ^ 64 - 1"
  shows "\<exists>w. version_succ (br_version r) = Ok w \<and> 1 \<le> unat w \<and> unat w \<le> Suc n"
  using wf_state_lookup [OF assms(1,2)] version_succ_below [of "br_version r" n] assms(3)
  by (fastforce simp: wf_record_def)

lemma credit_next:
  assumes wf: "wf_state cval n st" and n: "n < 2 ^ 64 - 1"
    and key: "key = (dep_account command, dep_asset command)"
    and fits: "balance_or_zero (ledger_of cval st) key + unat (dep_amount command) < 2 ^ 128"
  shows "\<exists>ct c v. (case rs_balances st key of
            Some current \<Rightarrow>
              calls (fhe_to_mpc B (br_ciphertext current)) (\<lambda>current_value.
              calls (share_amount B (dep_amount command)) (\<lambda>deposit_value.
              calls (mpc_checked_add B current_value deposit_value) (\<lambda>next_value.
              calls (mpc_to_fhe B next_value (dep_account command) (dep_asset command)) (\<lambda>ciphertext.
              bindR (version_succ (br_version current)) (\<lambda>version. Ok (ciphertext, version))))))
          | None \<Rightarrow>
              calls (encrypt_amount B (dep_amount command) (dep_account command) (dep_asset command))
                (\<lambda>ciphertext. Ok (ciphertext, 1))) = Ok (ct, v) \<and> cval ct = Some c
          \<and> unat c = balance_or_zero (ledger_of cval st) key + unat (dep_amount command) \<and> 1 \<le> unat v \<and> unat v \<le> Suc n"
proof (cases "rs_balances st key")
  case None
  obtain ct where "encrypt_amount B (dep_amount command) (dep_account command) (dep_asset command) = Ok ct"
      "cval ct = Some (dep_amount command)"
    using encrypt_value by blast
  then show ?thesis using None by (simp add: balance_or_zero_def ledger_of_sel)
next
  case (Some r)
  obtain a m where a: "cval (br_ciphertext r) = Some a" and m: "fhe_to_mpc B (br_ciphertext r) = Ok m" "mval m = Some a"
    using stored_value [OF wf Some] by blast
  obtain d where d: "share_amount B (dep_amount command) = Ok d" "mval d = Some (dep_amount command)"
    using share_value by blast
  have old: "balance_or_zero (ledger_of cval st) key = unat a"
    using Some a by (simp add: balance_or_zero_def ledger_of_sel)
  obtain c where c: "checked_add a (dep_amount command) = Some c" "unat c = unat a + unat (dep_amount command)"
    using fits old by (cases a "dep_amount command" rule: checked_add_cases) auto
  obtain s where s: "mpc_checked_add B m d = Ok s" "mval s = Some c" using add_value [OF m(2) d(2) c(1)] by blast
  obtain ct where ct: "mpc_to_fhe B s (dep_account command) (dep_asset command) = Ok ct" "cval ct = Some c"
    using to_fhe_value [OF s(2)] by blast
  obtain w where w: "version_succ (br_version r) = Ok w" "1 \<le> unat w" "unat w \<le> Suc n"
    using next_version [OF wf Some n] by blast
  show ?thesis using Some m d s ct w c old by simp
qed

lemma credit_locked_Ok:
  assumes wf: "wf_state cval n st" and n: "n < 2 ^ 64 - 1"
    and key: "key = (dep_account c, dep_asset c)"
    and fits: "balance_or_zero (ledger_of cval st) key + unat (dep_amount c) < 2 ^ 128"
    and go: "dep_expected_old_state_root c = rs_state_root st" "dep_deposit_id c \<notin> rs_processed_deposits st"
  shows "\<exists>out st'. credit_locked B c st = Ok (out, st') \<and> wf_state cval (Suc n) st' \<and> ledger_of cval st' =
      (ledger_of cval st)\<lparr>led_balance := (led_balance (ledger_of cval st))
          (key \<mapsto> balance_or_zero (ledger_of cval st) key + unat (dep_amount c)),
        led_deposits := insert (dep_deposit_id c) (led_deposits (ledger_of cval st))\<rparr>"
proof -
  obtain ct x w where cx: "cval ct = Some x" "1 \<le> unat w" "unat w \<le> Suc n"
      "unat x = balance_or_zero (ledger_of cval st) key + unat (dep_amount c)"
    and run: "(case rs_balances st key of
          Some current \<Rightarrow>
            calls (fhe_to_mpc B (br_ciphertext current)) (\<lambda>current_value.
            calls (share_amount B (dep_amount c)) (\<lambda>deposit_value.
            calls (mpc_checked_add B current_value deposit_value) (\<lambda>next_value.
            calls (mpc_to_fhe B next_value (dep_account c) (dep_asset c)) (\<lambda>ciphertext.
            bindR (version_succ (br_version current)) (\<lambda>version. Ok (ciphertext, version))))))
        | None \<Rightarrow>
            calls (encrypt_amount B (dep_amount c) (dep_account c) (dep_asset c))
              (\<lambda>ciphertext. Ok (ciphertext, 1))) = Ok (ct, w)"
    using credit_next [OF wf n key fits] by blast
  obtain rcd root transcript where nr:
      "next_record B (rs_state_root st) (dep_account c) (dep_asset c) ct w = (rcd, root, transcript)"
    by (metis prod_cases3)
  note new = next_record_wf [OF nr cx(1-3)]
  have "credit_locked B c st = Ok (\<lparr>st_new_state_root = root, st_encrypted_balance_data_id = br_data_id rcd,
      st_transcript_root = transcript, st_version = w\<rparr>,
      st\<lparr>rs_balances := (rs_balances st)(key \<mapsto> rcd),
         rs_processed_deposits := insert (dep_deposit_id c) (rs_processed_deposits st), rs_state_root := root\<rparr>)"
    unfolding credit_locked_def Let_def key [symmetric] run using go nr by (simp add: Let_def key)
  then show ?thesis
    using wf_state_update(1) [OF wf new(1,2)] new(3) cx by (auto simp: ledger_of_def)
qed

lemma credit_locked_overflow:
  assumes wf: "wf_state cval n st" and key: "key = (dep_account c, dep_asset c)"
    and over: "2 ^ 128 \<le> balance_or_zero (ledger_of cval st) key + unat (dep_amount c)"
    and go: "dep_expected_old_state_root c = rs_state_root st" "dep_deposit_id c \<notin> rs_processed_deposits st"
  shows "credit_locked B c st = Err (RBackend BOverflow)"
proof -
  obtain r where r: "rs_balances st key = Some r"
    using over unat_bound [of "dep_amount c"]
    by (cases "rs_balances st key") (auto simp: balance_or_zero_def ledger_of_sel)
  obtain a m where a: "cval (br_ciphertext r) = Some a" and m: "fhe_to_mpc B (br_ciphertext r) = Ok m" "mval m = Some a"
    using stored_value [OF wf r] by blast
  obtain d where d: "share_amount B (dep_amount c) = Ok d" "mval d = Some (dep_amount c)"
    using share_value by blast
  have "checked_add a (dep_amount c) = None"
    using over r a by (simp add: balance_or_zero_def ledger_of_sel checked_add_None)
  then have "mpc_checked_add B m d = Err BOverflow" using add_overflow m d by blast
  then show ?thesis using go r m d by (simp add: credit_locked_def Let_def key)
qed

lemma credit_simulates:
  assumes wf: "wf_state cval n (rt_state rt)" and up: "\<not> rt_poisoned rt" and n: "n < 2 ^ 64 - 1"
  shows "runs_as cval n rt (ledger_step (dep_expected_old_state_root c = rs_state_root (rt_state rt)) (Deposit c)
           (ledger_of cval (rt_state rt))) (credit_deposit B c rt)"
proof (cases "dep_amount c = 0 \<or> dep_expected_old_state_root c \<noteq> rs_state_root (rt_state rt)
    \<or> dep_deposit_id c \<in> rs_processed_deposits (rt_state rt)")
  case True
  then show ?thesis using up by (auto simp: credit_deposit_def Let_def ledger_of_sel with_lock_def credit_locked_def)
next
  case False
  then show ?thesis
    using credit_locked_Ok [OF wf n refl] credit_locked_overflow [OF wf refl] up
    by (auto intro!: runs_as_with_lock simp: credit_deposit_def Let_def ledger_of_sel with_lock_Err not_less [symmetric])
qed

lemma debit_locked_Ok:
  assumes wf: "wf_state cval n st" and n: "n < 2 ^ 64 - 1"
    and key: "key = (wd_account c, wd_asset c)" and v: "led_balance (ledger_of cval st) key = Some v"
    and enough: "unat (wd_gross_amount c) \<le> v"
    and go: "wd_expected_old_state_root c = rs_state_root st" "wd_nullifier c \<notin> rs_spent_nullifiers st"
  shows "\<exists>out st'. debit_locked B c st = Ok (out, st') \<and> wf_state cval (Suc n) st' \<and> ledger_of cval st' =
      (ledger_of cval st)\<lparr>led_balance := (led_balance (ledger_of cval st))(key \<mapsto> v - unat (wd_gross_amount c)),
        led_nullifiers := insert (wd_nullifier c) (led_nullifiers (ledger_of cval st))\<rparr>"
proof -
  obtain r where r: "rs_balances st key = Some r" using v by (auto simp: ledger_of_def)
  obtain a m where a: "cval (br_ciphertext r) = Some a" and m: "fhe_to_mpc B (br_ciphertext r) = Ok m" "mval m = Some a"
    using stored_value [OF wf r] by blast
  obtain d where d: "share_amount B (wd_gross_amount c) = Ok d" "mval d = Some (wd_gross_amount c)"
    using share_value by blast
  have av: "v = unat a" using v r a by (simp add: ledger_of_sel)
  then have ge: "wd_gross_amount c \<le> a" using enough by (simp add: word_le_nat_alt)
  then obtain x where x: "checked_sub a (wd_gross_amount c) = Some x" by (simp add: checked_sub_def)
  then have ux: "unat x = v - unat (wd_gross_amount c)" using av by (simp add: checked_sub_Some)
  obtain s where s: "mpc_checked_sub B m d = Ok s" "mval s = Some x" using sub_value [OF m(2) d(2) x] by blast
  obtain ct where ct: "mpc_to_fhe B s (wd_account c) (wd_asset c) = Ok ct" "cval ct = Some x"
    using to_fhe_value [OF s(2)] by blast
  obtain w where w: "version_succ (br_version r) = Ok w" "1 \<le> unat w" "unat w \<le> Suc n"
    using next_version [OF wf r n] by blast
  obtain rcd root transcript where nr:
      "next_record B (rs_state_root st) (wd_account c) (wd_asset c) ct w = (rcd, root, transcript)"
    by (metis prod_cases3)
  note new = next_record_wf [OF nr ct(2) w(2,3)]
  have "debit_locked B c st = Ok (\<lparr>st_new_state_root = root, st_encrypted_balance_data_id = br_data_id rcd,
      st_transcript_root = transcript, st_version = w\<rparr>,
      st\<lparr>rs_balances := (rs_balances st)(key \<mapsto> rcd),
         rs_spent_nullifiers := insert (wd_nullifier c) (rs_spent_nullifiers st), rs_state_root := root\<rparr>)"
    using go r m d s ct w nr geq_value [OF m(2) d(2)] ge unfolding key by (simp add: debit_locked_def Let_def)
  then show ?thesis
    using wf_state_update(2) [OF wf new(1,2)] new(3) ux by (auto simp: ledger_of_def)
qed

lemma debit_locked_short:
  assumes wf: "wf_state cval n st" and key: "key = (wd_account c, wd_asset c)"
    and v: "led_balance (ledger_of cval st) key = Some v" and short: "v < unat (wd_gross_amount c)"
    and go: "wd_expected_old_state_root c = rs_state_root st" "wd_nullifier c \<notin> rs_spent_nullifiers st"
  shows "debit_locked B c st = Err RInsufficientBalance"
proof -
  obtain r where r: "rs_balances st key = Some r" using v by (auto simp: ledger_of_def)
  obtain a m where a: "cval (br_ciphertext r) = Some a" and m: "fhe_to_mpc B (br_ciphertext r) = Ok m" "mval m = Some a"
    using stored_value [OF wf r] by blast
  obtain d where d: "share_amount B (wd_gross_amount c) = Ok d" "mval d = Some (wd_gross_amount c)"
    using share_value by blast
  have "v = unat a" using v r a by (simp add: ledger_of_sel)
  then have "\<not> wd_gross_amount c \<le> a" using short by (simp add: word_le_nat_alt)
  then show ?thesis
    using go r m d geq_value [OF m(2) d(2)] unfolding key by (simp add: debit_locked_def Let_def)
qed

lemma debit_simulates:
  assumes wf: "wf_state cval n (rt_state rt)" and up: "\<not> rt_poisoned rt" and n: "n < 2 ^ 64 - 1"
  shows "runs_as cval n rt (ledger_step (wd_expected_old_state_root c = rs_state_root (rt_state rt)) (Withdrawal c)
           (ledger_of cval (rt_state rt))) (debit_withdrawal B c rt)"
proof (cases "wd_gross_amount c = 0 \<or> wd_expected_old_state_root c \<noteq> rs_state_root (rt_state rt)
    \<or> wd_nullifier c \<in> rs_spent_nullifiers (rt_state rt)
    \<or> rs_balances (rt_state rt) (wd_account c, wd_asset c) = None")
  case True
  then show ?thesis
    using up by (auto simp: debit_withdrawal_def Let_def ledger_of_sel with_lock_def debit_locked_def)
next
  case False
  then obtain v where "led_balance (ledger_of cval (rt_state rt)) (wd_account c, wd_asset c) = Some v"
    by (auto simp: ledger_of_def)
  then show ?thesis
    using debit_locked_Ok [OF wf n refl, of c v] debit_locked_short [OF wf refl, of c v] up False
    by (auto intro!: runs_as_with_lock simp: debit_withdrawal_def Let_def ledger_of_sel with_lock_Err not_less)
qed

lemma receiver_value:
  assumes "wf_state cval n st" and "n < 2 ^ 64 - 1"
  shows "\<exists>m b. (case rs_balances st k of
          Some value \<Rightarrow> fhe_to_mpc B (br_ciphertext value) | None \<Rightarrow> share_amount B 0) = Ok m
      \<and> mval m = Some b \<and> unat b = balance_or_zero (ledger_of cval st) k"
    and "\<exists>w. (case rs_balances st k of None \<Rightarrow> Ok 1 | Some value \<Rightarrow> version_succ (br_version value)) = Ok w
      \<and> 1 \<le> unat w \<and> unat w \<le> Suc n"
proof -
  show "\<exists>m b. (case rs_balances st k of
          Some value \<Rightarrow> fhe_to_mpc B (br_ciphertext value) | None \<Rightarrow> share_amount B 0) = Ok m
      \<and> mval m = Some b \<and> unat b = balance_or_zero (ledger_of cval st) k"
    using stored_value [OF assms(1)] share_value [of 0]
    by (cases "rs_balances st k") (fastforce simp: balance_or_zero_def ledger_of_sel)+
  show "\<exists>w. (case rs_balances st k of None \<Rightarrow> Ok 1 | Some value \<Rightarrow> version_succ (br_version value)) = Ok w
      \<and> 1 \<le> unat w \<and> unat w \<le> Suc n"
    using next_version [OF assms(1) _ assms(2)] by (cases "rs_balances st k") auto
qed

lemma transfer_parts:
  assumes wf: "wf_state cval n st" and n: "n < 2 ^ 64 - 1" and v: "led_balance (ledger_of cval st) k = Some v"
  obtains r a m b m' d w w' where "rs_balances st k = Some r" and "fhe_to_mpc B (br_ciphertext r) = Ok m"
    and "mval m = Some a" and "unat a = v"
    and "(case rs_balances st k' of
          Some value \<Rightarrow> fhe_to_mpc B (br_ciphertext value) | None \<Rightarrow> share_amount B 0) = Ok m'"
    and "mval m' = Some b" and "unat b = balance_or_zero (ledger_of cval st) k'"
    and "share_amount B amt = Ok d" and "mval d = Some amt"
    and "version_succ (br_version r) = Ok w" and "1 \<le> unat w" and "unat w \<le> Suc n"
    and "(case rs_balances st k' of None \<Rightarrow> Ok 1 | Some value \<Rightarrow> version_succ (br_version value)) = Ok w'"
    and "1 \<le> unat w'" and "unat w' \<le> Suc n"
    and "mpc_greater_than_or_equal B m d = Ok (unat amt \<le> v)"
proof -
  obtain r where r: "rs_balances st k = Some r" using v by (auto simp: ledger_of_def)
  obtain a m where a: "cval (br_ciphertext r) = Some a" and m: "fhe_to_mpc B (br_ciphertext r) = Ok m" "mval m = Some a"
    using stored_value [OF wf r] by blast
  obtain d where d: "share_amount B amt = Ok d" "mval d = Some amt" using share_value by blast
  have av: "unat a = v" using v r a by (simp add: ledger_of_sel)
  have ge: "mpc_greater_than_or_equal B m d = Ok (unat amt \<le> v)"
    using geq_value [OF m(2) d(2)] av by (simp add: word_le_nat_alt)
  obtain m' b where b: "(case rs_balances st k' of
          Some value \<Rightarrow> fhe_to_mpc B (br_ciphertext value) | None \<Rightarrow> share_amount B 0) = Ok m'"
      "mval m' = Some b" "unat b = balance_or_zero (ledger_of cval st) k'"
    using receiver_value(1) [OF wf n, of k'] by blast
  obtain w' where w': "(case rs_balances st k' of None \<Rightarrow> Ok 1 | Some value \<Rightarrow> version_succ (br_version value)) = Ok w'"
      "1 \<le> unat w'" "unat w' \<le> Suc n"
    using receiver_value(2) [OF wf n, of k'] by blast
  obtain w where w: "version_succ (br_version r) = Ok w" "1 \<le> unat w" "unat w \<le> Suc n"
    using next_version [OF wf r n] by blast
  show ?thesis by (rule that [OF r m av b d w w' ge])
qed

lemma transfer_locked_Ok:
  assumes wf: "wf_state cval n st" and n: "n < 2 ^ 64 - 1"
    and key: "k = (tr_sender c, tr_asset c)" "k' = (tr_receiver c, tr_asset c)"
    and v: "led_balance (ledger_of cval st) k = Some v" and enough: "unat (tr_amount c) \<le> v"
    and fits: "balance_or_zero (ledger_of cval st) k' + unat (tr_amount c) < 2 ^ 128"
    and go: "tr_expected_old_state_root c = rs_state_root st" "tr_transfer_id c \<notin> rs_processed_transfers st"
  shows "\<exists>out st'. transfer_locked B c st = Ok (out, st') \<and> wf_state cval (Suc n) st' \<and> ledger_of cval st' =
      (ledger_of cval st)\<lparr>led_balance := (led_balance (ledger_of cval st))(k \<mapsto> v - unat (tr_amount c),
          k' \<mapsto> balance_or_zero (ledger_of cval st) k' + unat (tr_amount c)),
        led_transfers := insert (tr_transfer_id c) (led_transfers (ledger_of cval st))\<rparr>"
proof (rule transfer_parts [OF wf n v, of k' "tr_amount c"])
  fix r a m b m' d w w'
  assume r: "rs_balances st k = Some r" and m: "fhe_to_mpc B (br_ciphertext r) = Ok m" "mval m = Some a"
    and av: "unat a = v"
    and b: "(case rs_balances st k' of
          Some value \<Rightarrow> fhe_to_mpc B (br_ciphertext value) | None \<Rightarrow> share_amount B 0) = Ok m'"
      "mval m' = Some b" "unat b = balance_or_zero (ledger_of cval st) k'"
    and d: "share_amount B (tr_amount c) = Ok d" "mval d = Some (tr_amount c)"
    and w: "version_succ (br_version r) = Ok w" "1 \<le> unat w" "unat w \<le> Suc n"
    and w': "(case rs_balances st k' of None \<Rightarrow> Ok 1 | Some value \<Rightarrow> version_succ (br_version value)) = Ok w'"
      "1 \<le> unat w'" "unat w' \<le> Suc n"
    and ge: "mpc_greater_than_or_equal B m d = Ok (unat (tr_amount c) \<le> v)"
  obtain x where x: "checked_sub a (tr_amount c) = Some x" "unat x = v - unat (tr_amount c)"
    using enough av by (simp add: checked_sub_def word_le_nat_alt unat_sub)
  obtain y where y: "checked_add b (tr_amount c) = Some y"
      "unat y = balance_or_zero (ledger_of cval st) k' + unat (tr_amount c)"
    using fits b(3) by (cases b "tr_amount c" rule: checked_add_cases) auto
  obtain s where s: "mpc_checked_sub B m d = Ok s" "mval s = Some x" using sub_value [OF m(2) d(2) x(1)] by blast
  obtain t where t: "mpc_checked_add B m' d = Ok t" "mval t = Some y" using add_value [OF b(2) d(2) y(1)] by blast
  obtain ct where ct: "mpc_to_fhe B s (tr_sender c) (tr_asset c) = Ok ct" "cval ct = Some x"
    using to_fhe_value [OF s(2)] by blast
  obtain ct' where ct': "mpc_to_fhe B t (tr_receiver c) (tr_asset c) = Ok ct'" "cval ct' = Some y"
    using to_fhe_value [OF t(2)] by blast
  obtain rcd root tr where nr: "next_record B (rs_state_root st) (tr_sender c) (tr_asset c) ct w = (rcd, root, tr)"
    by (metis prod_cases3)
  obtain rcd' root' tr' where nr': "next_record B root (tr_receiver c) (tr_asset c) ct' w' = (rcd', root', tr')"
    by (metis prod_cases3)
  note new = next_record_wf [OF nr ct(2) w(2,3)] next_record_wf [OF nr' ct'(2) w'(2,3)]
  have "transfer_locked B c st = Ok (\<lparr>tt_new_state_root = root', tt_sender_data_id = br_data_id rcd,
      tt_receiver_data_id = br_data_id rcd', tt_transcript_root = tr', tt_sender_version = w, tt_receiver_version = w'\<rparr>,
      st\<lparr>rs_balances := (rs_balances st)(k \<mapsto> rcd, k' \<mapsto> rcd'),
         rs_processed_transfers := insert (tr_transfer_id c) (rs_processed_transfers st), rs_state_root := root'\<rparr>)"
    unfolding transfer_locked_def Let_def key [symmetric]
    using go r m b(1) d(1) s t w(1) w'(1) ct ct' nr nr' ge enough by simp
  then show ?thesis
    using wf_state_update2 [OF wf new(1) new(4,5)] new(3,6) x(2) y(2) by (auto simp: ledger_of_def)
qed

lemma transfer_locked_refuses:
  assumes wf: "wf_state cval n st" and n: "n < 2 ^ 64 - 1"
    and key: "k = (tr_sender c, tr_asset c)" "k' = (tr_receiver c, tr_asset c)"
    and v: "led_balance (ledger_of cval st) k = Some v"
    and go: "tr_expected_old_state_root c = rs_state_root st" "tr_transfer_id c \<notin> rs_processed_transfers st"
  shows "v < unat (tr_amount c) \<Longrightarrow> transfer_locked B c st = Err RInsufficientBalance"
    and "unat (tr_amount c) \<le> v \<Longrightarrow> 2 ^ 128 \<le> balance_or_zero (ledger_of cval st) k' + unat (tr_amount c) \<Longrightarrow>
      transfer_locked B c st = Err (RBackend BOverflow)"
proof -
  obtain r a m b m' d w w' where r: "rs_balances st k = Some r" and m: "fhe_to_mpc B (br_ciphertext r) = Ok m" "mval m = Some a"
    and av: "unat a = v"
    and b: "(case rs_balances st k' of
          Some value \<Rightarrow> fhe_to_mpc B (br_ciphertext value) | None \<Rightarrow> share_amount B 0) = Ok m'"
      "mval m' = Some b" "unat b = balance_or_zero (ledger_of cval st) k'"
    and d: "share_amount B (tr_amount c) = Ok d" "mval d = Some (tr_amount c)"
    and ge: "mpc_greater_than_or_equal B m d = Ok (unat (tr_amount c) \<le> v)"
    by (rule transfer_parts [OF wf n v, of k' "tr_amount c"]) blast
  note run = transfer_locked_def Let_def key [symmetric]
  show "transfer_locked B c st = Err RInsufficientBalance" if "v < unat (tr_amount c)"
    unfolding run using go r m b(1) d(1) ge that by simp
  show "transfer_locked B c st = Err (RBackend BOverflow)"
    if enough: "unat (tr_amount c) \<le> v" and over: "2 ^ 128 \<le> balance_or_zero (ledger_of cval st) k' + unat (tr_amount c)"
  proof -
    obtain x where x: "checked_sub a (tr_amount c) = Some x"
      using enough av by (simp add: checked_sub_def word_le_nat_alt)
    obtain s where s: "mpc_checked_sub B m d = Ok s" using sub_value [OF m(2) d(2) x] by blast
    have "mpc_checked_add B m' d = Err BOverflow"
      using over b(3) by (intro add_overflow [OF b(2) d(2)]) (simp add: checked_add_None)
    then show ?thesis unfolding run using go r m b(1) d(1) s ge enough by simp
  qed
qed

lemma transfer_simulates:
  assumes wf: "wf_state cval n (rt_state rt)" and up: "\<not> rt_poisoned rt" and n: "n < 2 ^ 64 - 1"
  shows "runs_as cval n rt (ledger_step (tr_expected_old_state_root c = rs_state_root (rt_state rt)) (Transfer c)
           (ledger_of cval (rt_state rt))) (transfer B c rt)"
proof (cases "tr_amount c = 0 \<or> tr_sender c = tr_receiver c \<or> tr_expected_old_state_root c \<noteq> rs_state_root (rt_state rt)
    \<or> tr_transfer_id c \<in> rs_processed_transfers (rt_state rt)
    \<or> rs_balances (rt_state rt) (tr_sender c, tr_asset c) = None")
  case True
  then show ?thesis
    using up by (auto simp: transfer_def Let_def ledger_of_sel with_lock_def transfer_locked_def)
next
  case False
  then obtain v where "led_balance (ledger_of cval (rt_state rt)) (tr_sender c, tr_asset c) = Some v"
    by (auto simp: ledger_of_def)
  then show ?thesis
    using transfer_locked_Ok [OF wf n refl refl, of c v] transfer_locked_refuses [OF wf n refl refl, of c v] up False
    by (auto intro!: runs_as_with_lock simp: transfer_def Let_def ledger_of_sel with_lock_Err not_less not_le [symmetric])
qed

text \<open>Every command, by the kind of command.\<close>

lemma run_command_simulates:
  assumes "wf_state cval n (rt_state rt)" and "\<not> rt_poisoned rt" and "n < 2 ^ 64 - 1"
  shows "runs_as cval n rt (ledger_step (command_root c = rs_state_root (rt_state rt)) c (ledger_of cval (rt_state rt)))
           (run_command B c rt)"
proof -
  have wrap: "runs_as cval n rt spec (let (r, rt') = out in (bindR r (\<lambda>t. Ok (F t)), rt'))"
    if "runs_as cval n rt spec out" for spec out and F :: "'a \<Rightarrow> transition"
    using that by (cases spec; cases out; cases "fst out") (auto simp: runs_as_def)
  show ?thesis
  proof (cases c)
    case (Deposit d)
    then show ?thesis using wrap [OF credit_simulates [OF assms, of d], of Single] by simp
  next
    case (Withdrawal d)
    then show ?thesis using wrap [OF debit_simulates [OF assms, of d], of Single] by simp
  next
    case (Transfer d)
    then show ?thesis using wrap [OF transfer_simulates [OF assms, of d], of Double] by simp
  qed
qed

lemma open_balance_value:
  assumes wf: "wf_state cval n (rt_state rt)" and up: "\<not> rt_poisoned rt" and auth: "may_open account authorization"
  shows "(case open_balance_for_owner B account asset authorization rt of
            Ok v \<Rightarrow> led_balance (ledger_of cval (rt_state rt)) (account, asset) = Some (unat v)
          | Err e \<Rightarrow> e = RBalanceNotFound \<and> led_balance (ledger_of cval (rt_state rt)) (account, asset) = None
          | Panic \<Rightarrow> False)"
proof (cases "rs_balances (rt_state rt) (account, asset)")
  case None
  then show ?thesis using up by (simp add: open_balance_for_owner_def ledger_of_def)
next
  case (Some r)
  obtain a where "cval (br_ciphertext r) = Some a" using wf_state_lookup [OF wf Some] by (auto simp: wf_record_def)
  then show ?thesis
    using Some up auth decrypt_value by (simp add: open_balance_for_owner_def ledger_of_def)
qed

lemma run_commands_wf:
  assumes "wf_state cval n (rt_state rt)" and "\<not> rt_poisoned rt" and "n + length cmds < 2 ^ 64"
  shows "wf_state cval (n + length cmds) (rt_state (snd (run_commands B cmds rt)))
      \<and> \<not> rt_poisoned (snd (run_commands B cmds rt))"
  using assms
proof (induction cmds arbitrary: n rt)
  case (Cons c cs)
  obtain r rt1 where run: "run_command B c rt = (r, rt1)" by (cases "run_command B c rt")
  have step: "wf_state cval (Suc n) (rt_state rt1) \<and> \<not> rt_poisoned rt1"
    using run_command_simulates [OF Cons.prems(1,2), of c] Cons.prems run
    by (auto simp: runs_as_def split: res.splits intro: wf_state_mono)
  show ?case using Cons.IH [of "Suc n" rt1] step Cons.prems(3) run by (simp add: split_beta)
qed simp

end

lemma wf_default [simp]: "wf_state cval 0 default_state"
  by (simp add: wf_state_def default_state_def)

text \<open>The state after any run from the empty runtime.\<close>

abbreviation after :: "command list \<Rightarrow> balance_runtime" where
  "after cmds \<equiv> snd (run_commands plaintext_backend cmds balance_runtime_new)"

lemma after_wf:
  assumes "length cmds < 2 ^ 64"
  shows "wf_state plain_cval (length cmds) (rt_state (after cmds))" and "\<not> rt_poisoned (after cmds)"
  using plain.run_commands_wf [of 0 balance_runtime_new cmds] assms by (simp_all add: balance_runtime_new_def)

text \<open>C26. After any run of fewer than 2 ^ 64 - 1 commands from the empty runtime, the next command runs as
  the ledger command: it is accepted exactly when the ledger accepts it and then leaves the ledger's
  balances and identifier sets, otherwise it returns the ledger's error and changes nothing.
\<close>

theorem balance_commands_refine_ledger:
  assumes "length cmds < 2 ^ 64 - 1"
  shows "runs_as plain_cval (length cmds) (after cmds)
    (ledger_step (command_root c = rs_state_root (rt_state (after cmds))) c (ledger_of plain_cval (rt_state (after cmds))))
    (run_command plaintext_backend c (after cmds))"
  by (rule plain.run_command_simulates) (use assms after_wf [of cmds] in auto)

lemma balance_commands_refine_ledger_witness:
  "runs_as plain_cval 0 balance_runtime_new
    (ledger_step True (Deposit \<lparr>dep_deposit_id = [1], dep_account = [2], dep_asset = [3], dep_amount = 7,
        dep_expected_old_state_root = replicate 32 0\<rparr>) (ledger_of plain_cval default_state))
    (run_command plaintext_backend (Deposit \<lparr>dep_deposit_id = [1], dep_account = [2], dep_asset = [3], dep_amount = 7,
        dep_expected_old_state_root = replicate 32 0\<rparr>) balance_runtime_new)"
  using balance_commands_refine_ledger [of "[]" "Deposit \<lparr>dep_deposit_id = [1], dep_account = [2], dep_asset = [3],
      dep_amount = 7, dep_expected_old_state_root = replicate 32 0\<rparr>"]
  by (simp add: balance_runtime_new_def default_state_def)

text \<open>After any such run the owner who presents the authorization reads exactly the ledger's balance.
\<close>

theorem owner_reads_ledger_balance:
  assumes "length cmds < 2 ^ 64"
  shows "open_balance_for_owner plaintext_backend account asset DEV_AUTHORIZATION (after cmds) =
    (case led_balance (ledger_of plain_cval (rt_state (after cmds))) (account, asset) of
       None \<Rightarrow> Err RBalanceNotFound
     | Some v \<Rightarrow> Ok (of_nat v))"
  using plain.open_balance_value [OF after_wf [OF assms] refl, of account asset]
  by (auto split: res.splits)

lemma owner_reads_ledger_balance_witness:
  "open_balance_for_owner plaintext_backend [2] [3] DEV_AUTHORIZATION balance_runtime_new = Err RBalanceNotFound"
  using owner_reads_ledger_balance [of "[]" "[2]" "[3]"]
  by (simp add: balance_runtime_new_def default_state_def ledger_of_def)

end
