(* ===== verification/Balance_Ledger.thy ===== *)
theory Balance_Ledger
  imports Balance_Runtime
begin

text \<open>
  What a whole run of \<open>BalanceRuntime\<close> keeps: the assets it holds are the accepted deposits less the
  accepted withdrawals, no identifier is accepted twice, and the accepted commands form a chain of
  state roots.  The last two hold for every backend.
\<close>

section \<open>Conservation\<close>

definition asset_total :: "asset_id \<Rightarrow> ledger \<Rightarrow> nat" where
  "asset_total a L = (\<Sum>k \<in> {k \<in> dom (led_balance L). snd k = a}. balance_or_zero L k)"

fun deposited :: "asset_id \<Rightarrow> command \<Rightarrow> nat" where
  "deposited a (Deposit c) = (if dep_asset c = a then unat (dep_amount c) else 0)"
| "deposited a _ = 0"

fun withdrawn :: "asset_id \<Rightarrow> command \<Rightarrow> nat" where
  "withdrawn a (Withdrawal c) = (if wd_asset c = a then unat (wd_gross_amount c) else 0)"
| "withdrawn a _ = 0"

definition accepted :: "log \<Rightarrow> (command \<times> transition) list" where
  "accepted log = map (\<lambda>(c, r). (c, the_ok r)) (filter (\<lambda>(c, r). is_ok r) log)"

lemma accepted_simps [simp]:
  "accepted [] = []"
  "accepted ((c, r) # log) = (if is_ok r then (c, the_ok r) # accepted log else accepted log)"
  by (simp_all add: accepted_def)

lemma asset_total_update:
  assumes fin: "finite (dom (led_balance L))"
    and bal: "led_balance L' = (led_balance L)(k \<mapsto> v)"
  shows "asset_total a L' + (if snd k = a then balance_or_zero L k else 0)
       = asset_total a L + (if snd k = a then v else 0)"
proof -
  let ?K = "insert k (dom (led_balance L))"
  have ext: "asset_total a M = (\<Sum>k' \<in> ?K. if snd k' = a then balance_or_zero M k' else 0)"
    if "dom (led_balance M) \<subseteq> ?K" for M
  proof -
    have "(\<Sum>k' \<in> ?K. if snd k' = a then balance_or_zero M k' else 0)
        = (\<Sum>k' \<in> dom (led_balance M). if snd k' = a then balance_or_zero M k' else 0)"
      using that fin by (intro sum.mono_neutral_right) (auto simp: balance_or_zero_def domIff)
    then show ?thesis
      using fin that finite_subset [OF that] by (simp add: asset_total_def sum.inter_filter)
  qed
  have old: "(\<Sum>k' \<in> ?K. if snd k' = a then balance_or_zero M k' else 0) =
      (if snd k = a then balance_or_zero M k else 0)
      + (\<Sum>k' \<in> dom (led_balance L) - {k}. if snd k' = a then balance_or_zero M k' else 0)" for M
    using fin by (subst sum.insert_remove) auto
  have same: "balance_or_zero L' k' = (if k' = k then v else balance_or_zero L k')" for k'
    by (simp add: balance_or_zero_def bal)
  then have "(\<Sum>k' \<in> dom (led_balance L) - {k}. if snd k' = a then balance_or_zero L' k' else 0)
      = (\<Sum>k' \<in> dom (led_balance L) - {k}. if snd k' = a then balance_or_zero L k' else 0)"
    by (intro sum.cong) auto
  then show ?thesis
    using ext [of L] ext [of L'] old [of L] old [of L'] same [of k] subset_insertI [of "dom (led_balance L)" k]
    by (simp add: bal split: if_splits)
qed

lemma ledger_step_conserves:
  assumes "ledger_step fresh c L = Ok L'" and fin: "finite (dom (led_balance L))"
  shows "finite (dom (led_balance L')) \<and> asset_total a L' + withdrawn a c = asset_total a L + deposited a c"
proof (cases c)
  case (Deposit d)
  let ?k = "(dep_account d, dep_asset d)"
  have L': "led_balance L' = (led_balance L)(?k \<mapsto> balance_or_zero L ?k + unat (dep_amount d))"
    using assms(1) Deposit by (auto simp: Let_def split: if_splits)
  show ?thesis using asset_total_update [OF fin L', of a] L' fin Deposit by (auto split: if_splits)
next
  case (Withdrawal d)
  let ?k = "(wd_account d, wd_asset d)"
  obtain v where v: "led_balance L ?k = Some v" "unat (wd_gross_amount d) \<le> v"
      "led_balance L' = (led_balance L)(?k \<mapsto> v - unat (wd_gross_amount d))"
    using assms(1) Withdrawal by (auto simp: Let_def split: if_splits option.splits)
  show ?thesis
    using asset_total_update [OF fin v(3), of a] v fin Withdrawal by (auto simp: balance_or_zero_def split: if_splits)
next
  case (Transfer d)
  let ?k = "(tr_sender d, tr_asset d)" and ?k' = "(tr_receiver d, tr_asset d)"
  obtain v where v: "led_balance L ?k = Some v" "unat (tr_amount d) \<le> v" "tr_sender d \<noteq> tr_receiver d"
      "led_balance L' = (led_balance L)(?k \<mapsto> v - unat (tr_amount d), ?k' \<mapsto> balance_or_zero L ?k' + unat (tr_amount d))"
    using assms(1) Transfer by (auto simp: Let_def split: if_splits option.splits)
  let ?M = "L\<lparr>led_balance := (led_balance L)(?k \<mapsto> v - unat (tr_amount d))\<rparr>"
  have mid: "asset_total a ?M + (if tr_asset d = a then v else 0) =
      asset_total a L + (if tr_asset d = a then v - unat (tr_amount d) else 0)"
    using asset_total_update [OF fin, of ?M ?k "v - unat (tr_amount d)" a] v(1)
    by (simp add: balance_or_zero_def split: if_splits)
  have other: "balance_or_zero ?M ?k' = balance_or_zero L ?k'" using v(3) by (simp add: balance_or_zero_def)
  have "asset_total a L' + (if tr_asset d = a then balance_or_zero L ?k' else 0) =
      asset_total a ?M + (if tr_asset d = a then balance_or_zero L ?k' + unat (tr_amount d) else 0)"
    using asset_total_update [of ?M L' ?k' "balance_or_zero L ?k' + unat (tr_amount d)" a] v(4) fin other
    by (simp split: if_splits)
  then have "asset_total a L' = asset_total a L" using mid v(2) by (auto split: if_splits)
  then show ?thesis using v(4) fin Transfer by simp
qed

context confidential_backend begin

lemma run_commands_conserves:
  assumes "wf_state cval n (rt_state rt)" and "\<not> rt_poisoned rt" and "n + length cmds < 2 ^ 64"
    and "finite (dom (led_balance (ledger_of cval (rt_state rt))))"
  shows "asset_total a (ledger_of cval (rt_state (snd (run_commands B cmds rt))))
          + (\<Sum>(c, t) \<leftarrow> accepted (fst (run_commands B cmds rt)). withdrawn a c)
       = asset_total a (ledger_of cval (rt_state rt))
          + (\<Sum>(c, t) \<leftarrow> accepted (fst (run_commands B cmds rt)). deposited a c)"
  using assms
proof (induction cmds arbitrary: n rt)
  case (Cons c cs)
  let ?L = "ledger_of cval (rt_state rt)"
  obtain r rt1 where run: "run_command B c rt = (r, rt1)" by (cases "run_command B c rt")
  have sim: "runs_as cval n rt (ledger_step (command_root c = rs_state_root (rt_state rt)) c ?L) (r, rt1)"
    using run_command_simulates [OF Cons.prems(1,2), of c] Cons.prems run by simp
  show ?case
  proof (cases "ledger_step (command_root c = rs_state_root (rt_state rt)) c ?L")
    case (Ok L)
    then have ok: "is_ok r" "\<not> rt_poisoned rt1" "wf_state cval (Suc n) (rt_state rt1)" "ledger_of cval (rt_state rt1) = L"
      using sim by (simp_all add: runs_as_def)
    show ?thesis
      using Cons.IH [OF ok(3,2)] ledger_step_conserves [OF Ok Cons.prems(4), of a] Cons.prems(3) ok run
      by (simp add: split_beta)
  next
    case (Err e)
    then have "r = Err e" "rt1 = rt" using sim by simp_all
    then show ?thesis using Cons.IH [OF Cons.prems(1,2)] Cons.prems run by (simp add: split_beta)
  next
    case Panic
    then show ?thesis using sim by (simp add: runs_as_def)
  qed
qed simp

end

lemma finite_default [simp]: "finite (dom (led_balance (ledger_of cval default_state)))" "asset_total a (ledger_of cval default_state) = 0"
  by (simp_all add: ledger_of_def default_state_def asset_total_def)

text \<open>C27. After any run of fewer than 2 ^ 64 commands from the empty runtime, the balances of an asset add up
  to its accepted deposits less its accepted withdrawals: transfers neither mint nor burn.
\<close>

theorem runtime_conserves_assets:
  assumes "length cmds < 2 ^ 64"
  shows "asset_total a (ledger_of plain_cval (rt_state (after cmds)))
          + (\<Sum>(c, t) \<leftarrow> accepted (fst (run_commands plaintext_backend cmds balance_runtime_new)). withdrawn a c)
       = (\<Sum>(c, t) \<leftarrow> accepted (fst (run_commands plaintext_backend cmds balance_runtime_new)). deposited a c)"
  using plain.run_commands_conserves [of 0 balance_runtime_new cmds a] assms by (simp add: balance_runtime_new_def)

lemma runtime_conserves_assets_witness:
  "asset_total [3] (ledger_of plain_cval (rt_state (after []))) = 0"
  using runtime_conserves_assets [of "[]" "[3]"] by simp

section \<open>Replay protection and the chain of roots\<close>

fun deposit_id_of :: "command \<Rightarrow> bytes list" where
  "deposit_id_of (Deposit c) = [dep_deposit_id c]"
| "deposit_id_of _ = []"

fun nullifier_of :: "command \<Rightarrow> bytes list" where
  "nullifier_of (Withdrawal c) = [wd_nullifier c]"
| "nullifier_of _ = []"

fun transfer_id_of :: "command \<Rightarrow> bytes list" where
  "transfer_id_of (Transfer c) = [tr_transfer_id c]"
| "transfer_id_of _ = []"

text \<open>What one command does to the identifiers and the root, whatever the backend.\<close>

definition spends :: "runtime_state \<Rightarrow> command \<Rightarrow> commitment \<Rightarrow> runtime_state \<Rightarrow> bool" where
  "spends st c root st' \<longleftrightarrow>
     rs_state_root st = command_root c \<and> rs_state_root st' = root
     \<and> rs_processed_deposits st \<inter> set (deposit_id_of c) = {}
     \<and> rs_processed_deposits st' = rs_processed_deposits st \<union> set (deposit_id_of c)
     \<and> rs_spent_nullifiers st \<inter> set (nullifier_of c) = {}
     \<and> rs_spent_nullifiers st' = rs_spent_nullifiers st \<union> set (nullifier_of c)
     \<and> rs_processed_transfers st \<inter> set (transfer_id_of c) = {}
     \<and> rs_processed_transfers st' = rs_processed_transfers st \<union> set (transfer_id_of c)"

lemma credit_locked_spends:
  "credit_locked B c st = Ok (t, st') \<Longrightarrow> spends st (Deposit c) (st_new_state_root t) st'"
  by (auto simp: credit_locked_def spends_def Let_def split_beta split: if_splits option.splits)

lemma debit_locked_spends:
  "debit_locked B c st = Ok (t, st') \<Longrightarrow> spends st (Withdrawal c) (st_new_state_root t) st'"
  by (auto simp: debit_locked_def spends_def Let_def split_beta split: if_splits)

lemma transfer_locked_spends:
  "transfer_locked B c st = Ok (t, st') \<Longrightarrow> spends st (Transfer c) (tt_new_state_root t) st'"
  by (auto simp: transfer_locked_def spends_def Let_def split_beta split: if_splits)

lemma with_lock_result:
  "with_lock body rt = (r, rt') \<Longrightarrow>
     (case r of Ok out \<Rightarrow> body (rt_state rt) = Ok (out, rt_state rt') | _ \<Rightarrow> rt_state rt' = rt_state rt)"
  by (auto simp: with_lock_def split: if_splits res.splits)

lemma run_command_spends:
  assumes "run_command B c rt = (r, rt')"
  shows "case r of Ok t \<Rightarrow> spends (rt_state rt) c (transition_root t) (rt_state rt')
                 | _ \<Rightarrow> rt_state rt' = rt_state rt"
proof (cases c)
  case (Deposit d)
  then show ?thesis
    using assms by (auto simp: credit_deposit_def split: if_splits prod.splits res.splits
        dest!: with_lock_result credit_locked_spends)
next
  case (Withdrawal d)
  then show ?thesis
    using assms by (auto simp: debit_withdrawal_def split: if_splits prod.splits res.splits
        dest!: with_lock_result debit_locked_spends)
next
  case (Transfer d)
  then show ?thesis
    using assms by (auto simp: transfer_def split: if_splits prod.splits res.splits
        dest!: with_lock_result transfer_locked_spends)
qed

definition ids :: "(command \<Rightarrow> bytes list) \<Rightarrow> log \<Rightarrow> bytes list" where
  "ids f log = concat (map (f \<circ> fst) (accepted log))"

lemma ids_simps [simp]:
  "ids f [] = []"
  "ids f ((c, r) # log) = (if is_ok r then f c @ ids f log else ids f log)"
  by (simp_all add: ids_def)

lemma deposit_id_of_distinct [simp]: "distinct (deposit_id_of c)" "distinct (nullifier_of c)" "distinct (transfer_id_of c)"
  by (cases c; simp)+

text \<open>Accepted commands quote the root the previous one left.\<close>

fun root_chain :: "commitment \<Rightarrow> (command \<times> transition) list \<Rightarrow> commitment \<Rightarrow> bool" where
  "root_chain root [] final \<longleftrightarrow> root = final"
| "root_chain root ((c, t) # rest) final \<longleftrightarrow> command_root c = root \<and> root_chain (transition_root t) rest final"

lemma run_commands_spends:
  assumes "run_commands B cmds rt = (log, rt')"
  shows "distinct (ids deposit_id_of log) \<and> set (ids deposit_id_of log) \<inter> rs_processed_deposits (rt_state rt) = {}"
    and "distinct (ids nullifier_of log) \<and> set (ids nullifier_of log) \<inter> rs_spent_nullifiers (rt_state rt) = {}"
    and "distinct (ids transfer_id_of log) \<and> set (ids transfer_id_of log) \<inter> rs_processed_transfers (rt_state rt) = {}"
    and "root_chain (rs_state_root (rt_state rt)) (accepted log) (rs_state_root (rt_state rt'))"
proof -
  have "(distinct (ids deposit_id_of log) \<and> set (ids deposit_id_of log) \<inter> rs_processed_deposits (rt_state rt) = {})
      \<and> (distinct (ids nullifier_of log) \<and> set (ids nullifier_of log) \<inter> rs_spent_nullifiers (rt_state rt) = {})
      \<and> (distinct (ids transfer_id_of log) \<and> set (ids transfer_id_of log) \<inter> rs_processed_transfers (rt_state rt) = {})
      \<and> root_chain (rs_state_root (rt_state rt)) (accepted log) (rs_state_root (rt_state rt'))"
    using assms
  proof (induction cmds arbitrary: rt log)
    case (Cons c cs)
    obtain r rt1 where run: "run_command B c rt = (r, rt1)" by (cases "run_command B c rt")
    obtain log1 rt2 where rest: "run_commands B cs rt1 = (log1, rt2)" by (cases "run_commands B cs rt1")
    have log: "log = (c, r) # log1" "rt' = rt2" using Cons.prems run rest by simp_all
    note IH = Cons.IH [OF rest [folded log(2)]] and st = run_command_spends [OF run]
    show ?case
    proof (cases r)
      case (Ok t)
      then have "spends (rt_state rt) c (transition_root t) (rt_state rt1)" using st by simp
      then show ?thesis using IH Ok unfolding log spends_def by auto
    qed (use IH st log in auto)
  qed simp
  then show "distinct (ids deposit_id_of log) \<and> set (ids deposit_id_of log) \<inter> rs_processed_deposits (rt_state rt) = {}"
    and "distinct (ids nullifier_of log) \<and> set (ids nullifier_of log) \<inter> rs_spent_nullifiers (rt_state rt) = {}"
    and "distinct (ids transfer_id_of log) \<and> set (ids transfer_id_of log) \<inter> rs_processed_transfers (rt_state rt) = {}"
    and "root_chain (rs_state_root (rt_state rt)) (accepted log) (rs_state_root (rt_state rt'))"
    by blast+
qed

text \<open>C28. For every backend and every run, no deposit identifier, withdrawal nullifier or transfer
  identifier is accepted twice, and the accepted commands form a chain: each quotes the state root
  that the previous accepted one produced, from the zero root to the final root.
\<close>

theorem runtime_accepts_once:
  "(let (log, rt) = run_commands B cmds balance_runtime_new in
     distinct (ids deposit_id_of log) \<and> distinct (ids nullifier_of log) \<and> distinct (ids transfer_id_of log)
     \<and> root_chain (replicate 32 0) (accepted log) (rs_state_root (rt_state rt)))"
proof -
  obtain log rt where run: "run_commands B cmds balance_runtime_new = (log, rt)"
    by (cases "run_commands B cmds balance_runtime_new")
  show ?thesis
    using run_commands_spends [OF run] run by (simp add: balance_runtime_new_def default_state_def)
qed

end
