(* ===== verification/Private_Transfer.thy ===== *)
theory Private_Transfer
  imports Balance_Runtime
begin

text \<open>
  \<open>runtime/src/private_transfer.rs\<close>: the published \<open>privateTransfer\<close> program over backend handles
  and the executor that polls one event.

  The event source, the value store and the result sink are traits: a record of operations on a
  world state.  \<open>fixture_env\<close> is the instance the crate's own tests use.
\<close>

record private_transfer_request =
  pt_execution_id :: bytes
  pt_old_state_root :: commitment
  pt_sender_variable_address :: bytes
  pt_receiver_variable_address :: bytes
  pt_sender_account :: private_account_id
  pt_receiver_account :: private_account_id
  pt_asset :: asset_id
  pt_sender_balance_data_id :: bytes
  pt_receiver_balance_data_id :: bytes
  pt_minimum_balance_data_id :: bytes
  pt_amount_data_id :: bytes

record confidential_transfer_output =
  cto_execution_id :: bytes
  cto_output_data_id :: bytes
  cto_sender_ciphertext :: bytes
  cto_receiver_ciphertext :: bytes
  cto_output_commitment :: commitment
  cto_new_state_root :: commitment
  cto_transcript_root :: commitment
  cto_sender_variable_address :: bytes
  cto_receiver_variable_address :: bytes

definition evaluate ::
  "backend \<Rightarrow> private_transfer_request \<Rightarrow> bytes \<Rightarrow> bytes \<Rightarrow> bytes \<Rightarrow> bytes \<Rightarrow>
     (runtime_error, confidential_transfer_output) res"
where
  "evaluate B request sender_ciphertext receiver_ciphertext minimum_ciphertext amount_ciphertext =
     calls (fhe_to_mpc B sender_ciphertext) (\<lambda>sender.
     calls (fhe_to_mpc B receiver_ciphertext) (\<lambda>receiver.
     calls (fhe_to_mpc B minimum_ciphertext) (\<lambda>minimum.
     calls (fhe_to_mpc B amount_ciphertext) (\<lambda>amount.
     calls (conditional_transfer_strictly_greater B sender receiver minimum amount) (\<lambda>(next_sender, next_receiver).
     calls (mpc_to_fhe B next_sender (pt_sender_account request) (pt_asset request)) (\<lambda>next_sender.
     calls (mpc_to_fhe B next_receiver (pt_receiver_account request) (pt_asset request)) (\<lambda>next_receiver.
       let output_commitment = commit B (ascii ''PPSC_PRIVATE_TRANSFER_OUTPUT_V1'')
             [pt_execution_id request, pt_sender_variable_address request, pt_receiver_variable_address request,
              pt_sender_balance_data_id request, pt_receiver_balance_data_id request,
              pt_minimum_balance_data_id request, pt_amount_data_id request, next_sender, next_receiver];
           new_state_root = commit B (ascii ''PPSC_PRIVATE_TRANSFER_STATE_V1'')
             [pt_old_state_root request, output_commitment, pt_sender_account request, pt_receiver_account request,
              pt_asset request];
           transcript_root = commit B (ascii ''PPSC_PRIVATE_TRANSFER_TRANSCRIPT_V1'')
             [pt_execution_id request, pt_old_state_root request, new_state_root,
              ascii ''C2S->MPC(gt,conditional_sub_add)->S2C'']
       in Ok \<lparr>cto_execution_id = pt_execution_id request, cto_output_data_id = output_commitment,
             cto_sender_ciphertext = next_sender, cto_receiver_ciphertext = next_receiver,
             cto_output_commitment = output_commitment, cto_new_state_root = new_state_root,
             cto_transcript_root = transcript_root,
             cto_sender_variable_address = pt_sender_variable_address request,
             cto_receiver_variable_address = pt_receiver_variable_address request\<rparr>)))))))"

record 'w transfer_env =
  next_private_transfer :: "'w \<Rightarrow> (runtime_error, private_transfer_request option) res \<times> 'w"
  load_ciphertext :: "bytes \<Rightarrow> 'w \<Rightarrow> (runtime_error, bytes) res \<times> 'w"
  store_transfer_output :: "confidential_transfer_output \<Rightarrow> 'w \<Rightarrow> (runtime_error, unit) res \<times> 'w"
  submit_transfer_result :: "confidential_transfer_output \<Rightarrow> 'w \<Rightarrow> (runtime_error, unit) res \<times> 'w"

definition poll_once :: "'w transfer_env \<Rightarrow> backend \<Rightarrow> 'w \<Rightarrow> (runtime_error, bool) res \<times> 'w" where
  "poll_once env B w =
     then_do (next_private_transfer env w) (\<lambda>event w.
       case event of
         None \<Rightarrow> (Ok False, w)
       | Some request \<Rightarrow>
           then_do (load_ciphertext env (pt_sender_balance_data_id request) w) (\<lambda>sender w.
           then_do (load_ciphertext env (pt_receiver_balance_data_id request) w) (\<lambda>receiver w.
           then_do (load_ciphertext env (pt_minimum_balance_data_id request) w) (\<lambda>minimum w.
           then_do (load_ciphertext env (pt_amount_data_id request) w) (\<lambda>amount w.
           then_do (evaluate B request sender receiver minimum amount, w) (\<lambda>output w.
           then_do (store_transfer_output env output w) (\<lambda>_ w.
           then_do (submit_transfer_result env output w) (\<lambda>_ w. (Ok True, w)))))))))"

section \<open>The test fixture as an environment\<close>

record fixture =
  fx_request :: "private_transfer_request option"
  fx_values :: "bytes \<rightharpoonup> bytes"
  fx_output :: "(bytes \<times> bytes \<times> bytes \<times> commitment) option"

definition fixture_env :: "fixture transfer_env" where
  "fixture_env =
     \<lparr>next_private_transfer = (\<lambda>w. (Ok (fx_request w), w\<lparr>fx_request := None\<rparr>)),
      load_ciphertext = (\<lambda>data_id w. (ok_or RBalanceNotFound (fx_values w data_id), w)),
      store_transfer_output = (\<lambda>out w. (Ok (), w\<lparr>fx_output :=
         Some (cto_output_data_id out, cto_sender_ciphertext out, cto_receiver_ciphertext out, cto_new_state_root out)\<rparr>)),
      submit_transfer_result = (\<lambda>out w.
         (if cto_output_commitment out \<noteq> cto_output_data_id out then Err RCorruptPersistence else Ok (), w))\<rparr>"

section \<open>The transfer on the values\<close>

text \<open>What the program computes: the minimum balance guards the move, a move must fit.\<close>

definition transfer_values :: "u128 \<Rightarrow> u128 \<Rightarrow> u128 \<Rightarrow> u128 \<Rightarrow> (runtime_error, nat \<times> nat) res" where
  "transfer_values s r mn a =
     (if unat s \<le> unat mn then Ok (unat s, unat r)
      else if unat s < unat a then Err RInsufficientBalance
      else if 2 ^ 128 \<le> unat r + unat a then Err (RBackend BOverflow)
      else Ok (unat s - unat a, unat r + unat a))"

context confidential_backend begin

lemma transfer_backend:
  assumes "mval s = Some a" "mval r = Some b" "mval m = Some mn" "mval x = Some c"
  shows "case transfer_values a b mn c of
      Ok (u, v) \<Rightarrow> \<exists>s' r' a' b'. conditional_transfer_strictly_greater B s r m x = Ok (s', r')
          \<and> mval s' = Some a' \<and> mval r' = Some b' \<and> unat a' = u \<and> unat b' = v
    | Err e \<Rightarrow> mapE runtime_error_of (conditional_transfer_strictly_greater B s r m x) = Err e
    | Panic \<Rightarrow> False"
proof (cases "a \<le> mn")
  case True
  then show ?thesis using transfer_value [OF assms] by (auto simp: transfer_values_def word_le_nat_alt)
next
  case False
  show ?thesis
  proof (cases "checked_sub a c")
    case None
    then show ?thesis
      using transfer_short [OF assms False] False by (auto simp: transfer_values_def word_le_nat_alt checked_sub_None)
  next
    case (Some a')
    then have u: "unat a' = unat a - unat c" "\<not> unat a < unat c" by (auto simp: checked_sub_Some)
    show ?thesis
    proof (cases b c rule: checked_add_cases)
      case (fits b')
      then show ?thesis
        using transfer_moves [OF assms False Some fits(1)] False u by (auto simp: transfer_values_def word_le_nat_alt)
    next
      case over
      then show ?thesis
        using transfer_overflow [OF assms False Some over(1)] False u by (auto simp: transfer_values_def word_le_nat_alt)
    qed
  qed
qed

lemma evaluate_values:
  assumes "cval cs = Some s" "cval cr = Some r" "cval cm = Some mn" "cval ca = Some a"
  shows "case transfer_values s r mn a of
      Ok (u, v) \<Rightarrow> \<exists>out s' r'. evaluate B request cs cr cm ca = Ok out
          \<and> cval (cto_sender_ciphertext out) = Some s' \<and> cval (cto_receiver_ciphertext out) = Some r'
          \<and> unat s' = u \<and> unat r' = v \<and> cto_output_data_id out = cto_output_commitment out
          \<and> length (cto_new_state_root out) = 32
    | Err e \<Rightarrow> evaluate B request cs cr cm ca = Err e
    | Panic \<Rightarrow> False"
proof -
  obtain hs where hs: "fhe_to_mpc B cs = Ok hs" "mval hs = Some s" using to_mpc_value [OF assms(1)] by blast
  obtain hr where hr: "fhe_to_mpc B cr = Ok hr" "mval hr = Some r" using to_mpc_value [OF assms(2)] by blast
  obtain hm where hm: "fhe_to_mpc B cm = Ok hm" "mval hm = Some mn" using to_mpc_value [OF assms(3)] by blast
  obtain ha where ha: "fhe_to_mpc B ca = Ok ha" "mval ha = Some a" using to_mpc_value [OF assms(4)] by blast
  note moved = transfer_backend [OF hs(2) hr(2) hm(2) ha(2)]
  show ?thesis
  proof (cases "transfer_values s r mn a")
    case (Ok p)
    then obtain s' r' a' b' where t: "conditional_transfer_strictly_greater B hs hr hm ha = Ok (s', r')"
        "mval s' = Some a'" "mval r' = Some b'" "unat a' = fst p" "unat b' = snd p"
      using moved by (auto simp: split_beta)
    obtain c1 where c1: "mpc_to_fhe B s' (pt_sender_account request) (pt_asset request) = Ok c1" "cval c1 = Some a'"
      using to_fhe_value [OF t(2)] by blast
    obtain c2 where c2: "mpc_to_fhe B r' (pt_receiver_account request) (pt_asset request) = Ok c2" "cval c2 = Some b'"
      using to_fhe_value [OF t(3)] by blast
    show ?thesis
      using Ok hs hr hm ha t c1 c2 by (simp add: evaluate_def Let_def commit_length split_beta)
  next
    case (Err e)
    then show ?thesis using moved hs hr hm ha by (simp add: evaluate_def)
  next
    case Panic
    then show ?thesis using moved by simp
  qed
qed

end

text \<open>One poll over the test fixture with four stored ciphertexts: if the sender's balance exceeds the
  minimum and the amount fits, the stored output decrypts to the moved balances; if it does not exceed
  it, to the old ones; in the two failing cases nothing is stored.  In every case the event is gone.
\<close>

theorem private_transfer_poll:
  assumes req: "fx_request w = Some request"
    and vals: "fx_values w (pt_sender_balance_data_id request) = Some (encode_ciphertext s)"
      "fx_values w (pt_receiver_balance_data_id request) = Some (encode_ciphertext r)"
      "fx_values w (pt_minimum_balance_data_id request) = Some (encode_ciphertext mn)"
      "fx_values w (pt_amount_data_id request) = Some (encode_ciphertext a)"
  shows "case transfer_values s r mn a of
      Ok (u, v) \<Rightarrow> \<exists>did cs cr root. poll_once fixture_env plaintext_backend w =
          (Ok True, w\<lparr>fx_request := None, fx_output := Some (did, cs, cr, root)\<rparr>)
          \<and> decode_ciphertext cs = Ok (of_nat u) \<and> decode_ciphertext cr = Ok (of_nat v)
    | Err e \<Rightarrow> poll_once fixture_env plaintext_backend w = (Err e, w\<lparr>fx_request := None\<rparr>)
    | Panic \<Rightarrow> False"
proof -
  have cv: "plain_cval (encode_ciphertext x) = Some x" for x by simp
  note ev = plain.evaluate_values [OF cv cv cv cv, where s = s and r = r and mn = mn and a = a and request = request]
  show ?thesis
  proof (cases "transfer_values s r mn a")
    case (Ok p)
    then obtain out s' r' where "evaluate plaintext_backend request (encode_ciphertext s) (encode_ciphertext r)
        (encode_ciphertext mn) (encode_ciphertext a) = Ok out"
        "decode_ciphertext (cto_sender_ciphertext out) = Ok s'" "decode_ciphertext (cto_receiver_ciphertext out) = Ok r'"
        "fst p = unat s'" "snd p = unat r'" "cto_output_data_id out = cto_output_commitment out"
      using ev by (fastforce simp: split_beta)
    then show ?thesis using Ok req vals by (simp add: poll_once_def fixture_env_def split_beta) blast
  next
    case (Err e)
    then show ?thesis using ev req vals by (simp add: poll_once_def fixture_env_def)
  next
    case Panic
    then show ?thesis using ev by simp
  qed
qed

text \<open>A concrete request: 10 units over a minimum of 5, of which 4 move to a balance of 1.\<close>

definition example_request :: private_transfer_request where
  "example_request =
     \<lparr>pt_execution_id = [9], pt_old_state_root = [8], pt_sender_variable_address = [7],
      pt_receiver_variable_address = [6], pt_sender_account = [10], pt_receiver_account = [11], pt_asset = [12],
      pt_sender_balance_data_id = [1], pt_receiver_balance_data_id = [2], pt_minimum_balance_data_id = [3],
      pt_amount_data_id = [4]\<rparr>"

definition example_world :: fixture where
  "example_world =
     \<lparr>fx_request = Some example_request,
      fx_values = [[1] \<mapsto> encode_ciphertext 10, [2] \<mapsto> encode_ciphertext 1, [3] \<mapsto> encode_ciphertext 5,
        [4] \<mapsto> encode_ciphertext 4], fx_output = None\<rparr>"

lemma private_transfer_poll_witness:
  "\<exists>did cs cr root. poll_once fixture_env plaintext_backend example_world =
      (Ok True, example_world\<lparr>fx_request := None, fx_output := Some (did, cs, cr, root)\<rparr>)
      \<and> decode_ciphertext cs = Ok 6 \<and> decode_ciphertext cr = Ok 5"
  using private_transfer_poll [of example_world example_request 10 1 5 4]
  by (simp add: example_world_def example_request_def transfer_values_def)

end
