(* ===== verification/Ordered_Map.thy ===== *)
theory Ordered_Map
  imports Ppsc_Prelude "HOL-Library.List_Lexorder"
begin

text \<open>
  \<open>BTreeMap\<close>: an association list kept strictly sorted by key, so that iteration runs in key order.
  Keys that are byte arrays compare lexicographically.

  The locale \<open>ordered_map\<close> is what the clients rely on (lookups after updates, keys in order); it is
  interpreted on the association lists.
\<close>

type_synonym ('k, 'v) btree = "('k \<times> 'v) list"

fun bt_get :: "'k::linorder \<Rightarrow> ('k, 'v) btree \<Rightarrow> 'v option" where
  "bt_get k [] = None"
| "bt_get k ((k', v) # m) = (if k = k' then Some v else bt_get k m)"

fun bt_insert :: "'k::linorder \<Rightarrow> 'v \<Rightarrow> ('k, 'v) btree \<Rightarrow> ('k, 'v) btree" where
  "bt_insert k v [] = [(k, v)]"
| "bt_insert k v ((k', v') # m) =
     (if k < k' then (k, v) # (k', v') # m
      else if k = k' then (k, v) # m
      else (k', v') # bt_insert k v m)"

definition bt_remove :: "'k::linorder \<Rightarrow> ('k, 'v) btree \<Rightarrow> ('k, 'v) btree" where
  "bt_remove k m = filter (\<lambda>(k', v). k' \<noteq> k) m"

definition bt_keys :: "('k::linorder, 'v) btree \<Rightarrow> 'k list" where
  "bt_keys m = map fst m"

definition bt_ok :: "('k::linorder, 'v) btree \<Rightarrow> bool" where
  "bt_ok m = sorted_wrt (<) (bt_keys m)"

text \<open>The keys whose entry passes a test, in order: \<open>iter().filter_map\<close>.\<close>

definition bt_keys_where :: "('v \<Rightarrow> bool) \<Rightarrow> ('k::linorder, 'v) btree \<Rightarrow> 'k list" where
  "bt_keys_where P m = map fst (filter (\<lambda>(k, v). P v) m)"

lemma bt_ok_Nil [simp]: "bt_ok []"
  by (simp add: bt_ok_def bt_keys_def)

lemma bt_ok_Cons [simp]: "bt_ok ((k, v) # m) \<longleftrightarrow> (\<forall>k' \<in> set (bt_keys m). k < k') \<and> bt_ok m"
  by (simp add: bt_ok_def bt_keys_def)

lemma bt_keys_simps [simp]: "bt_keys [] = []" "bt_keys ((k, v) # m) = k # bt_keys m"
  by (simp_all add: bt_keys_def)

lemma bt_get_None: "bt_get k m = None \<longleftrightarrow> k \<notin> set (bt_keys m)"
  by (induction k m rule: bt_get.induct) auto

lemma bt_get_member: "bt_get k m = Some v \<Longrightarrow> (k, v) \<in> set m"
  by (induction k m rule: bt_get.induct) (auto split: if_splits)

lemma bt_get_insert [simp]: "bt_get k' (bt_insert k v m) = (if k' = k then Some v else bt_get k' m)"
  by (induction k v m rule: bt_insert.induct) auto

lemma bt_keys_insert [simp]: "set (bt_keys (bt_insert k v m)) = insert k (set (bt_keys m))"
  by (induction k v m rule: bt_insert.induct) auto

lemma bt_ok_insert [simp]: "bt_ok m \<Longrightarrow> bt_ok (bt_insert k v m)"
  by (induction k v m rule: bt_insert.induct) auto

lemma bt_get_remove [simp]: "bt_get k' (bt_remove k m) = (if k' = k then None else bt_get k' m)"
  by (induction m) (auto simp: bt_remove_def)

lemma bt_ok_remove [simp]: "bt_ok m \<Longrightarrow> bt_ok (bt_remove k m)"
  by (induction m) (auto simp: bt_remove_def bt_keys_def)

lemma bt_get_in_set: "bt_ok m \<Longrightarrow> (k, v) \<in> set m \<longleftrightarrow> bt_get k m = Some v"
  by (induction m) (force simp: bt_keys_def)+

lemma bt_get_map [simp]: "bt_get k (map (\<lambda>(k, v). (k, f k v)) m) = map_option (f k) (bt_get k m)"
  by (induction m) auto

lemma bt_keys_map [simp]: "bt_keys (map (\<lambda>(k, v). (k, f k v)) m) = bt_keys m"
  by (simp add: bt_keys_def split_beta)

lemma bt_ok_map [simp]: "bt_ok (map (\<lambda>(k, v). (k, f k v)) m) \<longleftrightarrow> bt_ok m"
  by (simp add: bt_ok_def)

lemma sorted_wrt_less_bt_keys_where: "bt_ok m \<Longrightarrow> sorted_wrt (<) (bt_keys_where P m)"
  by (simp add: bt_ok_def bt_keys_def bt_keys_where_def sorted_wrt_map sorted_wrt_filter)

lemma set_bt_keys_where: "bt_ok m \<Longrightarrow> set (bt_keys_where P m) = {k. \<exists>v. bt_get k m = Some v \<and> P v}"
  by (auto simp: bt_keys_where_def image_iff bt_get_in_set)

lemma sorted_wrt_less_unique:
  fixes xs ys :: "'k::linorder list"
  shows "sorted_wrt (<) xs \<Longrightarrow> sorted_wrt (<) ys \<Longrightarrow> set xs = set ys \<Longrightarrow> xs = ys"
  by (simp add: sorted_distinct_set_unique strict_sorted_iff)

lemma bt_keys_where_eq:
  assumes "bt_ok m" and "\<And>k. (\<exists>v. bt_get k m = Some v \<and> P v) \<longleftrightarrow> k \<in> set ks"
  shows "bt_keys_where P m = sorted_list_of_set (set ks)"
  by (rule sorted_wrt_less_unique) (use assms in \<open>auto simp: sorted_wrt_less_bt_keys_where set_bt_keys_where\<close>)

locale ordered_map =
  fixes get :: "'k::linorder \<Rightarrow> 'm \<Rightarrow> 'v option"
    and insrt :: "'k \<Rightarrow> 'v \<Rightarrow> 'm \<Rightarrow> 'm"
    and remove :: "'k \<Rightarrow> 'm \<Rightarrow> 'm"
    and inv :: "'m \<Rightarrow> bool"
  assumes get_insrt: "get k' (insrt k v m) = (if k' = k then Some v else get k' m)"
    and get_remove: "get k' (remove k m) = (if k' = k then None else get k' m)"
    and inv_insrt: "inv m \<Longrightarrow> inv (insrt k v m)"
    and inv_remove: "inv m \<Longrightarrow> inv (remove k m)"
begin

lemma inv_inserts: "inv m \<Longrightarrow> inv (fold (\<lambda>(k, v). insrt k v) kvs m)"
  by (induction kvs arbitrary: m) (auto simp: inv_insrt)

lemma get_inserts_other: "k \<notin> set (map fst kvs) \<Longrightarrow> get k (fold (\<lambda>(k, v). insrt k v) kvs m) = get k m"
  by (induction kvs arbitrary: m) (auto simp: get_insrt)

lemma get_inserts_fresh:
  "distinct (map fst kvs) \<Longrightarrow> (k, v) \<in> set kvs \<Longrightarrow> get k (fold (\<lambda>(k, v). insrt k v) kvs m) = Some v"
proof (induction kvs arbitrary: m)
  case (Cons x kvs)
  show ?case
  proof (cases "(k, v) = x")
    case True
    then have "k \<notin> set (map fst kvs)" using Cons.prems(1) by (cases x) simp
    then show ?thesis using get_inserts_other [of k kvs] True by (force simp: get_insrt)
  qed (use Cons in auto)
qed simp

end

interpretation bt: ordered_map bt_get bt_insert bt_remove bt_ok
  by unfold_locales auto

end
