(* ===== verification/Workflow.thy ===== *)
theory Workflow
  imports Backend Ordered_Map "HOL-Library.Multiset"
begin

text \<open>
  \<open>runtime/src/workflow.rs\<close>: the in-memory storage network, the development crypto and sortition
  backends, the in-memory chain and the workflow runtime that hands data over to a committee and
  computes on it.

  The storage network maps nodes to their records in node order, so \<open>locations\<close> is sorted.  The two
  traits the runtime is generic in are the locales \<open>workflow_crypto\<close> and \<open>sortition\<close>; both are
  interpreted on the development backends.  Each mutex is its content: one thread, and nothing under
  a lock panics.
\<close>

type_synonym node_id = bytes
type_synonym data_id = bytes

datatype data_representation = SecretSharing | Homomorphic

datatype workflow_error =
  WInvalidInput | WInvalidEncoding | WDataAlreadyExists | WDataNotFound | WStorageUnavailable
| WChainUnavailable | WInconsistentFragments | WInvalidHandoff | WInsufficientEligibleNodes
| WLocationMismatch | WOverflow

record stored_object =
  so_representation :: data_representation
  so_version :: u64
  so_payload :: bytes

type_synonym records = "(data_id, stored_object) btree"
type_synonym storage_network = "(node_id, records) btree"

record secret_fragment =
  frag_node :: node_id
  frag_payload :: bytes

record workflow_crypto_backend =
  wc_encode_secret_shares :: "u128 \<Rightarrow> node_id list \<Rightarrow> (workflow_error, secret_fragment list) res"
  wc_encode_fhe :: "u128 \<Rightarrow> (workflow_error, bytes) res"
  wc_decode :: "data_representation \<Rightarrow> bytes list \<Rightarrow> (workflow_error, u128) res"
  wc_handoff :: "data_representation \<Rightarrow> bytes list \<Rightarrow> nat \<Rightarrow> (workflow_error, bytes list) res"

section \<open>The storage network\<close>

definition or_default :: "node_id \<Rightarrow> storage_network \<Rightarrow> records" where
  "or_default node net = (case bt_get node net of Some records \<Rightarrow> records | None \<Rightarrow> [])"

text \<open>The loop of both uploads; an occupied slot stops it with the earlier fragments stored.\<close>

fun store_objects ::
  "data_id \<Rightarrow> (node_id \<times> stored_object) list \<Rightarrow> storage_network \<Rightarrow> (workflow_error, unit) res \<times> storage_network"
where
  "store_objects d [] net = (Ok (), net)"
| "store_objects d ((node, obj) # rest) net =
     (let records = or_default node net in
      case bt_get d records of
        Some _ \<Rightarrow> (Err WDataAlreadyExists, bt_insert node records net)
      | None \<Rightarrow> store_objects d rest (bt_insert node (bt_insert d obj records) net))"

definition upload_secret_shares ::
  "data_id \<Rightarrow> u64 \<Rightarrow> secret_fragment list \<Rightarrow> storage_network \<Rightarrow> (workflow_error, unit) res \<times> storage_network"
where
  "upload_secret_shares d version fragments net =
     (if fragments = [] \<or> version = 0 then (Err WInvalidInput, net)
      else store_objects d (map (\<lambda>f. (frag_node f,
             \<lparr>so_representation = SecretSharing, so_version = version, so_payload = frag_payload f\<rparr>)) fragments) net)"

definition upload_fhe_ciphertext ::
  "data_id \<Rightarrow> u64 \<Rightarrow> bytes \<Rightarrow> node_id list \<Rightarrow> storage_network \<Rightarrow> (workflow_error, unit) res \<times> storage_network"
where
  "upload_fhe_ciphertext d version ciphertext storage_nodes net =
     (if storage_nodes = [] \<or> version = 0 \<or> ciphertext = [] then (Err WInvalidInput, net)
      else store_objects d (map (\<lambda>node. (node,
             \<lparr>so_representation = Homomorphic, so_version = version, so_payload = ciphertext\<rparr>)) storage_nodes) net)"

definition locations :: "data_id \<Rightarrow> storage_network \<Rightarrow> node_id list" where
  "locations d net = bt_keys_where (\<lambda>records. bt_get d records \<noteq> None) net"

definition sources :: "data_id \<Rightarrow> storage_network \<Rightarrow> stored_object list" where
  "sources d net = List.map_filter (\<lambda>(node, records). bt_get d records) net"

definition storage_handoff ::
  "workflow_crypto_backend \<Rightarrow> data_id \<Rightarrow> node_id list \<Rightarrow> storage_network \<Rightarrow> (workflow_error, u64) res \<times> storage_network"
where
  "storage_handoff C d target_nodes net =
     (if target_nodes = [] then (Err WInvalidInput, net)
      else case sources d net of
        [] \<Rightarrow> (Err WDataNotFound, net)
      | first # _ \<Rightarrow>
          if list_ex (\<lambda>s. so_representation s \<noteq> so_representation first \<or> so_version s \<noteq> so_version first) (sources d net)
          then (Err WInconsistentFragments, net)
          else then_do (wc_handoff C (so_representation first) (map so_payload (sources d net)) (length target_nodes), net)
            (\<lambda>target_payloads net.
              if length target_payloads \<noteq> length target_nodes then (Err WInvalidHandoff, net)
              else then_do (ok_or WOverflow (checked_add (so_version first) 1), net) (\<lambda>next_version net.
                let net1 = fold (\<lambda>(node, payload) net. bt_insert node
                      (bt_insert d \<lparr>so_representation = so_representation first, so_version = next_version,
                                    so_payload = payload\<rparr> (or_default node net)) net)
                      (zip target_nodes target_payloads) net
                in (Ok next_version,
                    map (\<lambda>(node, records). (node, if node \<in> set target_nodes then records else bt_remove d records)) net1))))"

definition object_at :: "storage_network \<Rightarrow> node_id \<Rightarrow> data_id \<Rightarrow> stored_object option" where
  "object_at net node d = Option.bind (bt_get node net) (bt_get d)"

definition payloads_at ::
  "data_id \<Rightarrow> node_id list \<Rightarrow> storage_network \<Rightarrow> (workflow_error, data_representation \<times> bytes list) res"
where
  "payloads_at d selected_nodes net =
     bindR (foldR (\<lambda>node (representation, payloads).
       bindR (ok_or WDataNotFound (object_at net node d)) (\<lambda>obj.
         if representation \<noteq> None \<and> representation \<noteq> Some (so_representation obj) then Err WInconsistentFragments
         else Ok (Some (so_representation obj), payloads @ [so_payload obj]))) selected_nodes (None, []))
     (\<lambda>(representation, payloads). bindR (ok_or WDataNotFound representation) (\<lambda>r. Ok (r, payloads)))"

section \<open>The development crypto backend\<close>

definition DEV_SS_PREFIX :: bytes where
  "DEV_SS_PREFIX = ascii ''PPSC_DEV_SS_V1''"

definition WF_DEV_FHE_PREFIX :: bytes where
  "WF_DEV_FHE_PREFIX = ascii ''PPSC_DEV_FHE_V1''"

definition decode_prefixed_u128 :: "bytes \<Rightarrow> bytes \<Rightarrow> (workflow_error, u128) res" where
  "decode_prefixed_u128 payload prefix =
     (if length payload < length prefix + 16 \<or> take (length prefix) payload \<noteq> prefix then Err WInvalidEncoding
      else Ok (u128_of_be (take 16 (drop (length prefix) payload))))"

definition ss_payload :: "u128 \<Rightarrow> nat \<Rightarrow> bytes" where
  "ss_payload v index = DEV_SS_PREFIX @ u128_be v @ u64_be (of_nat index)"

definition plain_encode_secret_shares :: "u128 \<Rightarrow> node_id list \<Rightarrow> (workflow_error, secret_fragment list) res" where
  "plain_encode_secret_shares v nodes =
     (if nodes = [] then Err WInvalidInput
      else Ok (map (\<lambda>(index, node). \<lparr>frag_node = node, frag_payload = ss_payload v index\<rparr>) (List.enumerate 0 nodes)))"

definition plain_encode_fhe :: "u128 \<Rightarrow> (workflow_error, bytes) res" where
  "plain_encode_fhe v = Ok (WF_DEV_FHE_PREFIX @ u128_be v)"

definition prefix_of_representation :: "data_representation \<Rightarrow> bytes" where
  "prefix_of_representation r = (case r of SecretSharing \<Rightarrow> DEV_SS_PREFIX | Homomorphic \<Rightarrow> WF_DEV_FHE_PREFIX)"

definition plain_decode :: "data_representation \<Rightarrow> bytes list \<Rightarrow> (workflow_error, u128) res" where
  "plain_decode representation payloads =
     (case payloads of
        [] \<Rightarrow> Err WDataNotFound
      | first # rest \<Rightarrow>
          bindR (decode_prefixed_u128 first (prefix_of_representation representation)) (\<lambda>v.
          bindR (foldR (\<lambda>payload u.
            bindR (decode_prefixed_u128 payload (prefix_of_representation representation)) (\<lambda>other.
              if other \<noteq> v then Err WInconsistentFragments else Ok u)) rest ()) (\<lambda>_. Ok v)))"

definition plain_handoff :: "data_representation \<Rightarrow> bytes list \<Rightarrow> nat \<Rightarrow> (workflow_error, bytes list) res" where
  "plain_handoff representation source_payloads target_count =
     bindR (plain_decode representation source_payloads) (\<lambda>v.
       case representation of
         SecretSharing \<Rightarrow> Ok (map (ss_payload v) [0..<target_count])
       | Homomorphic \<Rightarrow> bindR (plain_encode_fhe v) (\<lambda>ciphertext. Ok (map (\<lambda>_. ciphertext) [0..<target_count])))"

definition plaintext_workflow_crypto :: workflow_crypto_backend where
  "plaintext_workflow_crypto =
     \<lparr>wc_encode_secret_shares = plain_encode_secret_shares, wc_encode_fhe = plain_encode_fhe,
      wc_decode = plain_decode, wc_handoff = plain_handoff\<rparr>"

section \<open>Sortition\<close>

definition dev_digest :: "bytes \<Rightarrow> bytes list \<Rightarrow> bytes" where
  "dev_digest tag parts = concat (map (\<lambda>lane. u64_be (commit_lane (tag @ concat parts) lane)) [0, 1, 2, 3])"

type_synonym sortition_backend = "bytes \<Rightarrow> node_id list \<Rightarrow> nat \<Rightarrow> (workflow_error, node_id list) res"

definition dev_select :: sortition_backend where
  "dev_select seed eligible committee_count =
     (if committee_count = 0 \<or> length eligible < committee_count then Err WInsufficientEligibleNodes
      else if length (remdups eligible) \<noteq> length eligible then Err WInvalidInput
      else let ranked = sort_key fst (map (\<lambda>node. (dev_digest (ascii ''PPSC_DEV_SORTITION'') [seed, node], node)) eligible)
           in Ok (sort (map snd (take committee_count ranked))))"

section \<open>The chain and the runtime\<close>

datatype compute_operation = SumU128

datatype runtime_chain_event =
  DataPublished data_id data_representation "node_id list" u64
| ComputeRequested bytes "data_id list" "node_id list" nat bytes compute_operation data_representation

record data_handoff_update =
  dh_execution_id :: bytes
  dh_data_id :: data_id
  dh_old_nodes :: "node_id list"
  dh_new_nodes :: "node_id list"
  dh_new_version :: u64

record computation_update =
  cu_execution_id :: bytes
  cu_output_data_id :: data_id
  cu_output_nodes :: "node_id list"
  cu_output_representation :: data_representation

record in_memory_chain =
  ch_events :: "runtime_chain_event list"
  ch_handoffs :: "data_handoff_update list"
  ch_computations :: "computation_update list"

definition push_event :: "runtime_chain_event \<Rightarrow> in_memory_chain \<Rightarrow> in_memory_chain" where
  "push_event event chain = chain\<lparr>ch_events := ch_events chain @ [event]\<rparr>"

definition next_event :: "in_memory_chain \<Rightarrow> runtime_chain_event option \<times> in_memory_chain" where
  "next_event chain =
     (case ch_events chain of [] \<Rightarrow> (None, chain) | e # es \<Rightarrow> (Some e, chain\<lparr>ch_events := es\<rparr>))"

definition record_handoff :: "data_handoff_update \<Rightarrow> in_memory_chain \<Rightarrow> in_memory_chain" where
  "record_handoff update chain = chain\<lparr>ch_handoffs := ch_handoffs chain @ [update]\<rparr>"

definition record_computation :: "computation_update \<Rightarrow> in_memory_chain \<Rightarrow> in_memory_chain" where
  "record_computation update chain = chain\<lparr>ch_computations := ch_computations chain @ [update]\<rparr>"

definition latest_output_id :: "in_memory_chain \<Rightarrow> (workflow_error, data_id) res" where
  "latest_output_id chain =
     (if ch_computations chain = [] then Err WDataNotFound else Ok (cu_output_data_id (last (ch_computations chain))))"

record workflow_world =
  ww_chain :: in_memory_chain
  ww_storage :: storage_network

definition lift_storage ::
  "(storage_network \<Rightarrow> ('e, 'a) res \<times> storage_network) \<Rightarrow> workflow_world \<Rightarrow> ('e, 'a) res \<times> workflow_world"
where
  "lift_storage f w = (let (r, net) = f (ww_storage w) in (r, w\<lparr>ww_storage := net\<rparr>))"

definition publish_data ::
  "data_id \<Rightarrow> data_representation \<Rightarrow> node_id list \<Rightarrow> u64 \<Rightarrow> storage_network \<Rightarrow> (workflow_error, unit) res"
where
  "publish_data d representation storage_nodes version net =
     (if locations d net \<noteq> storage_nodes \<or> version = 0 then Err WLocationMismatch
      else bindR (payloads_at d storage_nodes net) (\<lambda>(actual, _).
        if actual \<noteq> representation then Err WLocationMismatch else Ok ()))"

text \<open>The input loop of a computation: hand every input over to the committee and decode it there.\<close>

fun gather_inputs ::
  "workflow_crypto_backend \<Rightarrow> bytes \<Rightarrow> node_id list \<Rightarrow> data_id list \<Rightarrow> u128 list \<Rightarrow> workflow_world \<Rightarrow>
     (workflow_error, u128 list) res \<times> workflow_world"
where
  "gather_inputs C execution_id cmte [] vals w = (Ok vals, w)"
| "gather_inputs C execution_id cmte (d # ds) vals w =
     (let old_nodes = locations d (ww_storage w) in
      then_do (lift_storage (storage_handoff C d cmte) w) (\<lambda>new_version w.
        let w = w\<lparr>ww_chain := record_handoff \<lparr>dh_execution_id = execution_id, dh_data_id = d, dh_old_nodes = old_nodes,
                  dh_new_nodes = cmte, dh_new_version = new_version\<rparr> (ww_chain w)\<rparr> in
        then_do (payloads_at d cmte (ww_storage w), w) (\<lambda>(representation, payloads) w.
        then_do (wc_decode C representation payloads, w) (\<lambda>v w.
          gather_inputs C execution_id cmte ds (vals @ [v]) w))))"

definition output_id_of :: "bytes \<Rightarrow> u128 \<Rightarrow> data_representation \<Rightarrow> data_id" where
  "output_id_of execution_id v representation =
     dev_digest (ascii ''PPSC_DEV_OUTPUT_ID'')
       [execution_id, u128_be v, [case representation of SecretSharing \<Rightarrow> 0 | Homomorphic \<Rightarrow> 1]]"

definition sum_u128 :: "u128 list \<Rightarrow> (workflow_error, u128) res" where
  "sum_u128 vals = foldR (\<lambda>v s. ok_or WOverflow (checked_add s v)) vals 0"

definition store_output ::
  "workflow_crypto_backend \<Rightarrow> data_id \<Rightarrow> u128 \<Rightarrow> data_representation \<Rightarrow> node_id list \<Rightarrow> storage_network \<Rightarrow>
     (workflow_error, unit) res \<times> storage_network"
where
  "store_output C output_id v representation cmte net =
     (case representation of
        SecretSharing \<Rightarrow> then_do (wc_encode_secret_shares C v cmte, net) (\<lambda>fragments.
          upload_secret_shares output_id 1 fragments)
      | Homomorphic \<Rightarrow> then_do (wc_encode_fhe C v, net) (\<lambda>ciphertext.
          upload_fhe_ciphertext output_id 1 ciphertext cmte))"

definition compute ::
  "workflow_crypto_backend \<Rightarrow> sortition_backend \<Rightarrow> bytes \<Rightarrow> data_id list \<Rightarrow> node_id list \<Rightarrow> nat \<Rightarrow> bytes \<Rightarrow>
     compute_operation \<Rightarrow> data_representation \<Rightarrow> workflow_world \<Rightarrow> (workflow_error, unit) res \<times> workflow_world"
where
  "compute C select execution_id inputs eligible committee_count seed operation representation w =
     (if inputs = [] then (Err WInvalidInput, w)
      else then_do (select seed eligible committee_count, w) (\<lambda>cmte w.
        then_do (gather_inputs C execution_id cmte inputs [] w) (\<lambda>vals w.
        then_do (case operation of SumU128 \<Rightarrow> sum_u128 vals, w) (\<lambda>v w.
        let output_id = output_id_of execution_id v representation in
        then_do (lift_storage (store_output C output_id v representation cmte) w) (\<lambda>_ w.
          (Ok (), w\<lparr>ww_chain := record_computation \<lparr>cu_execution_id = execution_id, cu_output_data_id = output_id,
                     cu_output_nodes = cmte, cu_output_representation = representation\<rparr> (ww_chain w)\<rparr>))))))"

definition workflow_poll_once ::
  "workflow_crypto_backend \<Rightarrow> sortition_backend \<Rightarrow> workflow_world \<Rightarrow> (workflow_error, bool) res \<times> workflow_world"
where
  "workflow_poll_once C select w =
     (let (event, chain) = next_event (ww_chain w); w = w\<lparr>ww_chain := chain\<rparr> in
      case event of
        None \<Rightarrow> (Ok False, w)
      | Some (DataPublished d representation storage_nodes version) \<Rightarrow>
          then_do (publish_data d representation storage_nodes version (ww_storage w), w) (\<lambda>_ w. (Ok True, w))
      | Some (ComputeRequested execution_id inputs eligible committee_count seed operation representation) \<Rightarrow>
          then_do (compute C select execution_id inputs eligible committee_count seed operation representation w)
            (\<lambda>_ w. (Ok True, w)))"

section \<open>The storage network as a table of objects\<close>

lemma then_do_preserves:
  "P (snd m) \<Longrightarrow> (\<And>x w. P w \<Longrightarrow> P (snd (f x w))) \<Longrightarrow> P (snd (then_do m f))"
  by (cases m; cases "fst m") auto

lemma object_at_insert [simp]:
  "object_at (bt_insert node (bt_insert d obj (or_default node net)) net) n d' =
     (if n = node \<and> d' = d then Some obj else object_at net n d')"
  by (auto simp: object_at_def or_default_def split: option.splits)

lemma object_at_default [simp]: "object_at (bt_insert node (or_default node net) net) n d' = object_at net n d'"
  by (auto simp: object_at_def or_default_def split: option.splits)

lemma or_default_get: "bt_get d (or_default node net) = object_at net node d"
  by (auto simp: object_at_def or_default_def split: option.splits)

lemma store_objects_ok [simp]: "bt_ok net \<Longrightarrow> bt_ok (snd (store_objects d objs net))"
  by (induction d objs net rule: store_objects.induct) (auto simp: Let_def split: option.splits)

lemma store_objects_append:
  "store_objects d (xs @ ys) net = then_do (store_objects d xs net) (\<lambda>_. store_objects d ys)"
  by (induction d xs net rule: store_objects.induct) (auto simp: Let_def split: option.splits)

lemma store_objects_fresh:
  assumes "distinct (map fst objs)" and "\<And>n. n \<in> fst ` set objs \<Longrightarrow> object_at net n d = None"
  shows "\<exists>net'. store_objects d objs net = (Ok (), net') \<and>
    (\<forall>n d'. object_at net' n d' = (if d' = d \<and> n \<in> fst ` set objs then map_of objs n else object_at net n d'))"
  using assms
proof (induction objs arbitrary: net)
  case (Cons x rest)
  obtain node obj where x: "x = (node, obj)" by (cases x)
  let ?net = "bt_insert node (bt_insert d obj (or_default node net)) net"
  have "object_at ?net n d = None" if "n \<in> fst ` set rest" for n
  proof -
    have "n \<noteq> node" using Cons.prems(1) x that by auto
    then show ?thesis using Cons.prems(2) [of n] that by simp
  qed
  moreover have "distinct (map fst rest)" using Cons.prems(1) by simp
  ultimately obtain net' where "store_objects d rest ?net = (Ok (), net')"
    "\<forall>n d'. object_at net' n d' = (if d' = d \<and> n \<in> fst ` set rest then map_of rest n else object_at ?net n d')"
    using Cons.IH [of ?net] by blast
  note net' = this
  have "bt_get d (or_default node net) = None" using Cons.prems(2) x by (simp add: or_default_get)
  then have run: "store_objects d (x # rest) net = (Ok (), net')" using net'(1) x by simp
  have "node \<notin> fst ` set rest" using Cons.prems(1) x by simp
  then have "object_at net' n d' =
      (if d' = d \<and> n \<in> fst ` set (x # rest) then map_of (x # rest) n else object_at net n d')" for n d'
    using net'(2) x by auto
  then show ?case using run by blast
qed simp

lemma locations_sorted: "bt_ok net \<Longrightarrow> sorted_wrt (<) (locations d net)"
  by (simp add: locations_def sorted_wrt_less_bt_keys_where)

lemma set_locations: "bt_ok net \<Longrightarrow> n \<in> set (locations d net) \<longleftrightarrow> object_at net n d \<noteq> None"
  by (auto simp: locations_def set_bt_keys_where object_at_def bind_eq_Some_conv)

lemma locations_eq:
  assumes "bt_ok net" and "sorted_wrt (<) ns" and "\<And>n. object_at net n d \<noteq> None \<longleftrightarrow> n \<in> set ns"
  shows "locations d net = ns"
  using assms by (intro sorted_wrt_less_unique [OF locations_sorted]) (auto simp: set_locations)

lemma sources_eq: "bt_ok net \<Longrightarrow> sources d net = map (\<lambda>n. the (object_at net n d)) (locations d net)"
proof (induction net)
  case (Cons x net)
  obtain node records where x: "x = (node, records)" by (cases x)
  have "object_at (x # net) n d = object_at net n d" if "n \<in> set (locations d net)" for n
  proof -
    have "n \<in> set (bt_keys net)" using that by (auto simp: locations_def bt_keys_where_def bt_keys_def)
    then have "n \<noteq> node" using Cons.prems x by auto
    then show ?thesis using x by (simp add: object_at_def)
  qed
  moreover have "locations d (x # net) =
      (if bt_get d records \<noteq> None then node # locations d net else locations d net)"
    using x by (simp add: locations_def bt_keys_where_def)
  ultimately show ?case
    using Cons x by (auto simp: sources_def map_filter_simps object_at_def split: option.splits)
qed (simp add: sources_def locations_def bt_keys_where_def map_filter_simps)

lemma same_objects:
  assumes "bt_ok net" and "bt_ok net'" and "\<And>n. object_at net' n d = object_at net n d"
  shows "locations d net' = locations d net" and "sources d net' = sources d net"
proof -
  show l: "locations d net' = locations d net"
    using assms by (intro locations_eq) (auto simp: locations_sorted set_locations)
  show "sources d net' = sources d net" using l assms by (simp add: sources_eq)
qed

lemma payloads_at_eq:
  assumes "ns \<noteq> []" and "\<And>n. n \<in> set ns \<Longrightarrow> object_at net n d \<noteq> None \<and> so_representation (the (object_at net n d)) = r"
  shows "payloads_at d ns net = Ok (r, map (\<lambda>n. so_payload (the (object_at net n d))) ns)"
proof -
  have loop: "foldR (\<lambda>node (representation, payloads).
       bindR (ok_or WDataNotFound (object_at net node d)) (\<lambda>obj.
         if representation \<noteq> None \<and> representation \<noteq> Some (so_representation obj) then Err WInconsistentFragments
         else Ok (Some (so_representation obj), payloads @ [so_payload obj]))) ns (rep, ps)
     = Ok (if ns = [] then rep else Some r, ps @ map (\<lambda>n. so_payload (the (object_at net n d))) ns)"
    if "rep = None \<or> rep = Some r" for rep ps
    using that assms(2)
  proof (induction ns arbitrary: rep ps)
    case (Cons n ns)
    obtain obj where obj: "object_at net n d = Some obj" "so_representation obj = r" using Cons.prems(2) [of n] by auto
    show ?case using Cons.IH [of "Some r" "ps @ [so_payload obj]"] Cons.prems obj by auto
  qed simp
  show ?thesis using assms(1) loop [of None "[]"] by (simp add: payloads_at_def)
qed

section \<open>What the runtime's parameters promise\<close>

locale workflow_crypto =
  fixes C :: workflow_crypto_backend
  assumes shares_value: "nodes \<noteq> [] \<Longrightarrow> \<exists>fs. wc_encode_secret_shares C v nodes = Ok fs
          \<and> map frag_node fs = nodes \<and> wc_decode C SecretSharing (map frag_payload fs) = Ok v"
    and fhe_value: "\<exists>ct. wc_encode_fhe C v = Ok ct \<and> ct \<noteq> [] \<and> (\<forall>n > 0. wc_decode C Homomorphic (replicate n ct) = Ok v)"
    and handoff_value: "wc_decode C r ps = Ok v \<Longrightarrow> n > 0 \<Longrightarrow>
          \<exists>ps'. wc_handoff C r ps n = Ok ps' \<and> length ps' = n \<and> wc_decode C r ps' = Ok v"

locale sortition =
  fixes select :: sortition_backend
  assumes select_committee: "select seed eligible n = Ok cmte \<Longrightarrow>
      sorted_wrt (<) cmte \<and> length cmte = n \<and> set cmte \<subseteq> set eligible \<and> cmte \<noteq> []"

lemma decode_ss_payload [simp]: "decode_prefixed_u128 (ss_payload v i) DEV_SS_PREFIX = Ok v"
  by (simp add: decode_prefixed_u128_def ss_payload_def)

lemma u128_be_not_Nil [simp]: "u128_be v \<noteq> []"
  by (metis length_u128_be list.size(3) zero_neq_numeral)

lemma decode_fhe_payload [simp]: "decode_prefixed_u128 (WF_DEV_FHE_PREFIX @ u128_be v) WF_DEV_FHE_PREFIX = Ok v"
  by (simp add: decode_prefixed_u128_def)

lemma plain_decode_all:
  assumes "ps \<noteq> []" and "\<And>p. p \<in> set ps \<Longrightarrow> decode_prefixed_u128 p (prefix_of_representation r) = Ok v"
  shows "plain_decode r ps = Ok v"
proof -
  obtain p qs where ps: "ps = p # qs" using assms(1) by (cases ps) auto
  have "foldR (\<lambda>payload u. bindR (decode_prefixed_u128 payload (prefix_of_representation r))
          (\<lambda>other. if other \<noteq> v then Err WInconsistentFragments else Ok u)) qs () = Ok ()"
    using assms(2) ps by (auto intro!: foldR_Ok [where g = "\<lambda>_ u. u", THEN trans])
  then show ?thesis using assms(2) ps by (simp add: plain_decode_def)
qed

interpretation plain_wf: workflow_crypto plaintext_workflow_crypto
proof unfold_locales
  fix v :: u128 and nodes :: "node_id list" and r ps n
  show "\<exists>fs. wc_encode_secret_shares plaintext_workflow_crypto v nodes = Ok fs \<and> map frag_node fs = nodes
      \<and> wc_decode plaintext_workflow_crypto SecretSharing (map frag_payload fs) = Ok v" if "nodes \<noteq> []"
    using that by (auto simp: plaintext_workflow_crypto_def plain_encode_secret_shares_def enumerate_eq_map_nth
        prefix_of_representation_def map_nth comp_def intro!: plain_decode_all)
  show "\<exists>ct. wc_encode_fhe plaintext_workflow_crypto v = Ok ct \<and> ct \<noteq> []
      \<and> (\<forall>n > 0. wc_decode plaintext_workflow_crypto Homomorphic (replicate n ct) = Ok v)"
    by (auto simp: plaintext_workflow_crypto_def plain_encode_fhe_def prefix_of_representation_def
        intro!: plain_decode_all)
  show "\<exists>ps'. wc_handoff plaintext_workflow_crypto r ps n = Ok ps' \<and> length ps' = n
      \<and> wc_decode plaintext_workflow_crypto r ps' = Ok v"
    if "wc_decode plaintext_workflow_crypto r ps = Ok v" "n > 0"
    using that by (cases r) (auto simp: plaintext_workflow_crypto_def plain_handoff_def plain_encode_fhe_def
        prefix_of_representation_def intro!: plain_decode_all)
qed

lemma dev_select_committee:
  assumes "dev_select seed eligible n = Ok cmte"
  shows "sorted_wrt (<) cmte \<and> length cmte = n \<and> set cmte \<subseteq> set eligible \<and> cmte \<noteq> []"
proof -
  define ranked where "ranked = sort_key fst (map (\<lambda>node. (dev_digest (ascii ''PPSC_DEV_SORTITION'') [seed, node], node)) eligible)"
  have n: "n \<noteq> 0" "n \<le> length eligible" "distinct eligible" and cmte: "cmte = sort (map snd (take n ranked))"
    using assms by (auto simp: dev_select_def ranked_def Let_def not_less remdups_id_iff_distinct length_remdups_eq split: if_splits)
  have perm: "mset (map snd ranked) = mset eligible" by (simp add: ranked_def multiset.map_comp comp_def)
  then have "distinct (map snd ranked)" using n(3) by (metis mset_eq_imp_distinct_iff)
  then have "distinct (take n (map snd ranked))" by (rule distinct_take)
  then have d: "distinct cmte" by (simp add: cmte take_map)
  have "set cmte \<subseteq> set (map snd ranked)" using set_take_subset [of n "map snd ranked"] by (simp add: cmte take_map)
  moreover have "set (map snd ranked) = set eligible" using perm by (rule mset_eq_setD)
  moreover have "length ranked = length eligible" by (simp add: ranked_def)
  ultimately have "length cmte = n" "set cmte \<subseteq> set eligible" using n by (simp_all add: cmte)
  moreover have "sorted_wrt (<) cmte" using d by (simp add: cmte strict_sorted_iff)
  ultimately show ?thesis using n(1) by auto
qed

interpretation dev_sortition: sortition dev_select
  by unfold_locales (rule dev_select_committee)

section \<open>Moving data to a committee\<close>

text \<open>
  The object \<open>d\<close> stands for the value \<open>v\<close>: its fragments agree on representation and version, the
  backend decodes them to \<open>v\<close>, and \<open>k\<close> more version steps fit into 64 bits.
\<close>

definition holds :: "workflow_crypto_backend \<Rightarrow> storage_network \<Rightarrow> data_id \<Rightarrow> u128 \<Rightarrow> nat \<Rightarrow> bool" where
  "holds C net d v k \<longleftrightarrow> sources d net \<noteq> [] \<and>
     (\<exists>r ver. (\<forall>s \<in> set (sources d net). so_representation s = r \<and> so_version s = ver)
       \<and> unat ver + k < 2 ^ 64 \<and> wc_decode C r (map so_payload (sources d net)) = Ok v)"

lemma insert_all:
  fixes obj :: "bytes \<Rightarrow> stored_object" and d :: data_id
  assumes "distinct (map fst kvs)"
  defines "put \<equiv> \<lambda>(node, payload) net. bt_insert node (bt_insert d (obj payload) (or_default node net)) net"
  shows "object_at (fold put kvs net) n d' =
      (if d' = d \<and> n \<in> fst ` set kvs then Some (obj (the (map_of kvs n))) else object_at net n d')"
    and "bt_ok net \<Longrightarrow> bt_ok (fold put kvs net)"
proof -
  show "object_at (fold put kvs net) n d' =
      (if d' = d \<and> n \<in> fst ` set kvs then Some (obj (the (map_of kvs n))) else object_at net n d')"
    using assms(1)
  proof (induction kvs arbitrary: net)
    case (Cons x kvs)
    obtain node p where x: "x = (node, p)" by (cases x)
    have nin: "node \<notin> fst ` set kvs" and d: "distinct (map fst kvs)" using Cons.prems x by auto
    show ?case using Cons.IH [OF d, of "put x net"] nin x by (auto simp: put_def)
  qed simp
  show "bt_ok (fold put kvs net)" if "bt_ok net"
    using that by (induction kvs arbitrary: net) (auto simp: put_def)
qed

lemma drop_others:
  "object_at (map (\<lambda>(node, records). (node, if node \<in> T then records else bt_remove d records)) net) n d' =
     (if d' = d \<and> n \<notin> T then None else object_at net n d')"
  by (cases "bt_get n net") (auto simp: object_at_def)

lemma map_of_map_fst: "distinct (map fst xs) \<Longrightarrow> map (\<lambda>n. the (map_of xs n)) (map fst xs) = map snd xs"
  by (auto simp: map_of_is_SomeI intro!: map_cong)

lemma store_objects_new:
  assumes ok: "bt_ok net" and sorted: "sorted_wrt (<) (map fst objs)" and new: "\<And>n. object_at net n d = None"
  shows "\<exists>net'. store_objects d objs net = (Ok (), net') \<and> bt_ok net' \<and> locations d net' = map fst objs
    \<and> sources d net' = map snd objs \<and> (\<forall>n d'. d' \<noteq> d \<longrightarrow> object_at net' n d' = object_at net n d')"
proof -
  have dist: "distinct (map fst objs)" using sorted by (simp add: strict_sorted_iff)
  obtain net' where run: "store_objects d objs net = (Ok (), net')"
    and at: "\<And>n d'. object_at net' n d' = (if d' = d \<and> n \<in> fst ` set objs then map_of objs n else object_at net n d')"
    using store_objects_fresh [OF dist new] by blast
  have ok': "bt_ok net'" using store_objects_ok [OF ok, of d objs] run by simp
  have here: "object_at net' n d = map_of objs n" for n
    using at [of n d] new [of n] by (metis map_of_eq_None_iff)
  have loc: "locations d net' = map fst objs"
    by (rule locations_eq [OF ok' sorted]) (simp add: here map_of_eq_None_iff)
  have "sources d net' = map snd objs"
    using map_of_map_fst [OF dist] by (simp add: sources_eq [OF ok'] loc here)
  then show ?thesis using run ok' loc at by auto
qed

lemma holds_other:
  assumes "bt_ok net" and "bt_ok net'" and "\<And>n. object_at net' n d = object_at net n d"
  shows "holds C net' d v k = holds C net d v k"
  by (simp add: holds_def same_objects(2) [OF assms])

lemma holds_le: "holds C net d v k \<Longrightarrow> k' \<le> k \<Longrightarrow> holds C net d v k'"
  unfolding holds_def by (meson add_left_mono order_le_less_trans)

lemma sum_u128_eq:
  "sum_u128 vals = (if (\<Sum>v \<leftarrow> vals. unat v) < 2 ^ 128 then Ok (sum_list vals) else Err WOverflow)"
proof -
  have "foldR (\<lambda>v s. ok_or WOverflow (checked_add s v)) vals s =
      (if unat s + (\<Sum>v \<leftarrow> vals. unat v) < 2 ^ 128 then Ok (s + sum_list vals) else Err WOverflow)" for s :: u128
  proof (induction vals arbitrary: s)
    case Nil
    then show ?case using unat_bound [of s] by simp
  next
    case (Cons v vals)
    show ?case
    proof (cases "unat s + unat v < 2 ^ 128")
      case True
      then have "checked_add s v = Some (s + v)" and "unat (s + v) = unat s + unat v"
        by (simp_all add: checked_add_def unat_word_ariths)
      then show ?thesis using Cons.IH [of "s + v"] by (simp add: add.assoc)
    next
      case False
      then show ?thesis by (simp add: checked_add_def)
    qed
  qed
  from this [of 0] show ?thesis by (simp add: sum_u128_def)
qed

context workflow_crypto begin

lemma handoff_moves:
  assumes ok: "bt_ok net" and val: "holds C net d v (Suc k)"
    and cmte: "sorted_wrt (<) cmte" "cmte \<noteq> []"
  shows "\<exists>net' ver. storage_handoff C d cmte net = (Ok ver, net') \<and> bt_ok net' \<and> locations d net' = cmte
      \<and> holds C net' d v k \<and> (\<forall>n d'. d' \<noteq> d \<longrightarrow> object_at net' n d' = object_at net n d')
      \<and> (\<exists>r ps. payloads_at d cmte net' = Ok (r, ps) \<and> wc_decode C r ps = Ok v)"
proof -
  obtain r ver where src: "sources d net \<noteq> []"
      "\<forall>s \<in> set (sources d net). so_representation s = r \<and> so_version s = ver"
      "unat ver + Suc k < 2 ^ 64" "wc_decode C r (map so_payload (sources d net)) = Ok v"
    using val unfolding holds_def by blast
  obtain first rest where first_src: "sources d net = first # rest" using src(1) by (cases "sources d net") auto
  have first: "so_representation first = r" "so_version first = ver" using src(2) first_src by auto
  have agree: "\<not> list_ex (\<lambda>s. so_representation s \<noteq> so_representation first \<or> so_version s \<noteq> so_version first) (sources d net)"
    using src(2) first by (auto simp: list_ex_iff)
  obtain ps where ps: "wc_handoff C r (map so_payload (sources d net)) (length cmte) = Ok ps"
      "length ps = length cmte" "wc_decode C r ps = Ok v"
    using handoff_value [OF src(4)] cmte(2) by blast
  obtain ver' where ver': "checked_add ver 1 = Some ver'" "unat ver' = Suc (unat ver)"
    using src(3) by (auto simp: checked_add_def unat_word_ariths)
  define obj where "obj p = \<lparr>so_representation = r, so_version = ver', so_payload = p\<rparr>" for p
  define net1 where "net1 = fold (\<lambda>(node, payload) net. bt_insert node (bt_insert d (obj payload) (or_default node net)) net)
      (zip cmte ps) net"
  define net' where "net' = map (\<lambda>(node, records). (node, if node \<in> set cmte then records else bt_remove d records)) net1"
  have run: "storage_handoff C d cmte net = (Ok ver', net')"
    unfolding storage_handoff_def net'_def net1_def obj_def
    using first_src agree ps(1,2) ver'(1) first cmte(2) by (simp only: list.case if_False) (simp add: Let_def)
  have dist: "distinct cmte" using cmte(1) by (simp add: strict_sorted_iff)
  have keys: "map fst (zip cmte ps) = cmte" using ps(2) by simp
  then have keyset: "fst ` set (zip cmte ps) = set cmte" by (metis list.set_map)
  have ok': "bt_ok net'" using insert_all(2) [of "zip cmte ps" net d obj] ok dist keys by (simp add: net'_def net1_def)
  have at: "object_at net' n d' = (if d' = d then (if n \<in> set cmte then Some (obj (the (map_of (zip cmte ps) n))) else None)
      else object_at net n d')" for n d'
    using insert_all(1) [of "zip cmte ps" d obj net n d'] dist keys keyset
    by (cases "d' = d") (simp_all add: net'_def net1_def drop_others)
  have loc: "locations d net' = cmte" by (rule locations_eq [OF ok' cmte(1)]) (simp add: at)
  have pl: "map (\<lambda>n. so_payload (the (object_at net' n d))) cmte = ps"
    using ps(2) dist by (intro nth_equalityI) (auto simp: at obj_def map_of_zip_nth)
  then have srcs: "map so_payload (sources d net') = ps" "\<forall>s \<in> set (sources d net'). so_representation s = r \<and> so_version s = ver'"
    using ok' loc by (auto simp: sources_eq at obj_def comp_def)
  have "holds C net' d v k"
    unfolding holds_def
    using srcs src(3) ver'(2) ps(3) loc cmte(2) ok' by (auto simp: sources_eq intro!: exI [of _ r] exI [of _ ver'])
  moreover have "payloads_at d cmte net' = Ok (r, ps)"
    using payloads_at_eq [of cmte net' d r] cmte(2) pl by (auto simp: at obj_def)
  ultimately show ?thesis using run ok' loc at ps(3) by auto
qed

lemma gather_all:
  assumes ok: "bt_ok (ww_storage w)" and cmte: "sorted_wrt (<) cmte" "cmte \<noteq> []"
    and vals: "\<And>d. d \<in> set ds \<Longrightarrow> holds C (ww_storage w) d (val d) (length ds)"
  shows "\<exists>w'. gather_inputs C e cmte ds vs w = (Ok (vs @ map val ds), w') \<and> bt_ok (ww_storage w')
      \<and> (\<forall>d \<in> set ds. locations d (ww_storage w') = cmte \<and> holds C (ww_storage w') d (val d) 0)
      \<and> (\<forall>n d. d \<notin> set ds \<longrightarrow> object_at (ww_storage w') n d = object_at (ww_storage w) n d)
      \<and> ch_computations (ww_chain w') = ch_computations (ww_chain w)
      \<and> map dh_data_id (ch_handoffs (ww_chain w')) = map dh_data_id (ch_handoffs (ww_chain w)) @ ds"
  using ok vals
proof (induction ds arbitrary: vs w)
  case (Cons d ds)
  obtain net' ver r ps where h: "storage_handoff C d cmte (ww_storage w) = (Ok ver, net')" "bt_ok net'"
      "locations d net' = cmte" "holds C net' d (val d) (length ds)"
      "\<And>n d'. d' \<noteq> d \<Longrightarrow> object_at net' n d' = object_at (ww_storage w) n d'"
      "payloads_at d cmte net' = Ok (r, ps)" "wc_decode C r ps = Ok (val d)"
    using handoff_moves [OF Cons.prems(1) _ cmte, of d "val d" "length ds"] Cons.prems(2) [of d] by auto
  let ?w = "w\<lparr>ww_storage := net', ww_chain := record_handoff \<lparr>dh_execution_id = e, dh_data_id = d,
      dh_old_nodes = locations d (ww_storage w), dh_new_nodes = cmte, dh_new_version = ver\<rparr> (ww_chain w)\<rparr>"
  have keep: "holds C net' d' (val d') (length ds)" if "d' \<in> set ds" for d'
  proof (cases "d' = d")
    case False
    then show ?thesis
      using holds_other [OF Cons.prems(1) h(2), of d'] h(5) Cons.prems(2) [of d'] that by (simp add: holds_le)
  qed (use h(4) in simp)
  obtain w' where w': "gather_inputs C e cmte ds (vs @ [val d]) ?w = (Ok ((vs @ [val d]) @ map val ds), w')"
      "bt_ok (ww_storage w')"
      "\<forall>d \<in> set ds. locations d (ww_storage w') = cmte \<and> holds C (ww_storage w') d (val d) 0"
      "\<forall>n d. d \<notin> set ds \<longrightarrow> object_at (ww_storage w') n d = object_at net' n d"
      "ch_computations (ww_chain w') = ch_computations (ww_chain w)"
      "map dh_data_id (ch_handoffs (ww_chain w')) = map dh_data_id (ch_handoffs (ww_chain w)) @ d # ds"
    using Cons.IH [of ?w "vs @ [val d]"] keep h(2) by (auto simp: record_handoff_def)
  have run: "gather_inputs C e cmte (d # ds) vs w = (Ok (vs @ map val (d # ds)), w')"
    using h w'(1) by (simp add: lift_storage_def Let_def)
  have here: "locations d (ww_storage w') = cmte \<and> holds C (ww_storage w') d (val d) 0"
  proof (cases "d \<in> set ds")
    case False
    then have same: "object_at (ww_storage w') n d = object_at net' n d" for n using w'(4) by simp
    have "holds C net' d (val d) 0" using h(4) by (rule holds_le) simp
    then show ?thesis
      using same_objects(1) [OF h(2) w'(2) same] holds_other [OF h(2) w'(2) same] h(3) by simp
  qed (use w'(3) in simp)
  show ?case using run w'(2,3,5,6) here w'(4) h(5) by (intro exI [of _ w']) auto
qed simp

lemma store_output_new:
  assumes "bt_ok net" and "sorted_wrt (<) cmte" and "cmte \<noteq> []" and "\<And>n. object_at net n oid = None"
  shows "\<exists>net'. store_output C oid v rep cmte net = (Ok (), net') \<and> locations oid net' = cmte
      \<and> holds C net' oid v 0 \<and> (\<forall>n d'. d' \<noteq> oid \<longrightarrow> object_at net' n d' = object_at net n d')"
proof (cases rep)
  case SecretSharing
  obtain fs where fs: "wc_encode_secret_shares C v cmte = Ok fs" "map frag_node fs = cmte"
      "wc_decode C SecretSharing (map frag_payload fs) = Ok v"
    using shares_value [OF assms(3)] by blast
  let ?objs = "map (\<lambda>f. (frag_node f, \<lparr>so_representation = SecretSharing, so_version = 1, so_payload = frag_payload f\<rparr>)) fs"
  have keys: "map fst ?objs = cmte" using fs(2) by (simp add: comp_def)
  have "fs \<noteq> []" using fs(2) assms(3) by auto
  then show ?thesis
    using store_objects_new [OF assms(1), of ?objs oid] assms(2,4) keys fs SecretSharing
    by (auto simp: store_output_def upload_secret_shares_def holds_def comp_def intro!: exI [of _ SecretSharing] exI [of _ "1 :: u64"])
next
  case Homomorphic
  obtain ct where ct: "wc_encode_fhe C v = Ok ct" "ct \<noteq> []" "\<forall>n > 0. wc_decode C Homomorphic (replicate n ct) = Ok v"
    using fhe_value by blast
  let ?objs = "map (\<lambda>node. (node, \<lparr>so_representation = Homomorphic, so_version = (1 :: u64), so_payload = ct\<rparr>)) cmte"
  have keys: "map fst ?objs = cmte" by (simp add: comp_def)
  have "wc_decode C Homomorphic (map (\<lambda>_. ct) cmte) = Ok v"
    using ct(3) assms(3) by (simp add: map_replicate_const)
  then show ?thesis
    using store_objects_new [OF assms(1), of ?objs oid] assms keys ct(1,2) Homomorphic
    by (auto simp: store_output_def upload_fhe_ciphertext_def holds_def comp_def intro!: exI [of _ Homomorphic] exI [of _ "1 :: u64"])
qed

end

section \<open>Polling and running until idle\<close>

lemma gather_events: "ch_events (ww_chain (snd (gather_inputs C e cmte ds vs w))) = ch_events (ww_chain w)"
proof (induction ds arbitrary: vs w)
  case (Cons d ds)
  then show ?case
    by (auto simp: Let_def lift_storage_def record_handoff_def split_beta
        intro!: then_do_preserves [where P = "\<lambda>w'. ch_events (ww_chain w') = ch_events (ww_chain w)"])
qed simp

lemma compute_events:
  "ch_events (ww_chain (snd (compute C S e ds eligible n seed op rep w))) = ch_events (ww_chain w)"
  by (auto simp: compute_def Let_def lift_storage_def record_computation_def split_beta gather_events
      intro!: then_do_preserves [where P = "\<lambda>w'. ch_events (ww_chain w') = ch_events (ww_chain w)"])

lemma poll_events: "ch_events (ww_chain (snd (workflow_poll_once C S w))) = tl (ch_events (ww_chain w))"
proof (cases "ch_events (ww_chain w)")
  case (Cons e es)
  then show ?thesis
    by (auto simp: workflow_poll_once_def next_event_def compute_events Let_def split: runtime_chain_event.splits
        intro!: then_do_preserves [where P = "\<lambda>w'. ch_events (ww_chain w') = es"])
qed (simp add: workflow_poll_once_def next_event_def)

lemma poll_idle: "fst (workflow_poll_once C S w) = Ok b \<Longrightarrow> b \<longleftrightarrow> ch_events (ww_chain w) \<noteq> []"
  by (auto simp: workflow_poll_once_def next_event_def then_do_def Let_def
      split: list.splits prod.splits runtime_chain_event.splits res.splits)

function run_loop ::
  "workflow_crypto_backend \<Rightarrow> sortition_backend \<Rightarrow> nat \<Rightarrow> workflow_world \<Rightarrow> (workflow_error, nat) res \<times> workflow_world"
where
  "run_loop C S handled w =
     (case workflow_poll_once C S w of
        (Ok True, w') \<Rightarrow> run_loop C S (handled + 1) w'
      | (Ok False, w') \<Rightarrow> (Ok handled, w')
      | (Err e, w') \<Rightarrow> (Err e, w')
      | (Panic, w') \<Rightarrow> (Panic, w'))"
  by pat_completeness auto
termination
proof (relation "measure (\<lambda>(C, S, handled, w). length (ch_events (ww_chain w)))")
  fix C S handled w r w' b
  assume "(r, w') = workflow_poll_once C S w" "r = Ok b" "b = True"
  then have "workflow_poll_once C S w = (Ok True, w')" by simp
  then show "((C, S, handled + 1, w'), (C, S, handled, w)) \<in> measure (\<lambda>(C, S, handled, w). length (ch_events (ww_chain w)))"
    using poll_events [of C S w] poll_idle [of C S w True] by (cases "ch_events (ww_chain w)") auto
qed simp

definition run_until_idle ::
  "workflow_crypto_backend \<Rightarrow> sortition_backend \<Rightarrow> workflow_world \<Rightarrow> (workflow_error, nat) res \<times> workflow_world"
where
  "run_until_idle C S w = run_loop C S 0 w"

declare run_loop.simps [simp del]

lemma run_loop_outcome:
  "(case run_loop C S k w of
      (Ok n, w') \<Rightarrow> n = k + length (ch_events (ww_chain w)) \<and> ch_events (ww_chain w') = []
    | (_, w') \<Rightarrow> \<exists>j < length (ch_events (ww_chain w)). ch_events (ww_chain w') = drop (Suc j) (ch_events (ww_chain w)))"
proof (induction C S k w rule: run_loop.induct)
  case (1 C S k w)
  obtain r w1 where poll: "workflow_poll_once C S w = (r, w1)" by (cases "workflow_poll_once C S w")
  have tl: "ch_events (ww_chain w1) = tl (ch_events (ww_chain w))" using poll_events [of C S w] poll by simp
  show ?case
  proof (cases "ch_events (ww_chain w)")
    case Nil
    then have "workflow_poll_once C S w = (Ok False, w)" by (simp add: workflow_poll_once_def next_event_def)
    then show ?thesis using Nil by (simp add: run_loop.simps [of C S k w])
  next
    case (Cons e es)
    show ?thesis
    proof (cases r)
      case (Ok b)
      then have b: "b = True" using poll_idle [of C S w b] poll Cons by simp
      have step: "run_loop C S k w = run_loop C S (k + 1) w1" using poll b Ok by (simp add: run_loop.simps [of C S k w])
      note IH = "1.IH" [OF poll [symmetric] Ok b]
      show ?thesis
        unfolding step using IH tl Cons by (fastforce split: prod.splits res.splits)
    next
      case (Err x)
      then show ?thesis using poll tl Cons by (simp add: run_loop.simps [of C S k w]) force
    next
      case Panic
      then show ?thesis using poll tl Cons by (simp add: run_loop.simps [of C S k w]) force
    qed
  qed
qed

text \<open>C32. The runtime's loop always ends, whatever the backends: if it returns a count, every queued event was
  handled; if it fails, the failing event and all before it are gone from the queue and the later ones stay.
\<close>

theorem workflow_runs_to_idle:
  "(case run_until_idle C S w of
      (Ok n, w') \<Rightarrow> n = length (ch_events (ww_chain w)) \<and> ch_events (ww_chain w') = []
    | (_, w') \<Rightarrow> \<exists>j < length (ch_events (ww_chain w)). ch_events (ww_chain w') = drop (Suc j) (ch_events (ww_chain w)))"
  using run_loop_outcome [where C = C and S = S and k = 0 and w = w] by (simp add: run_until_idle_def split: prod.splits res.splits)

section \<open>A computation over stored data\<close>

context workflow_crypto begin

lemma compute_outcome:
  assumes ok: "bt_ok (ww_storage w)" and ds: "ds \<noteq> []" and sel: "S seed eligible n = Ok cmte"
    and cmte: "sorted_wrt (<) cmte" "cmte \<noteq> []"
    and vals: "\<And>d. d \<in> set ds \<Longrightarrow> holds C (ww_storage w) d (val d) (length ds)"
    and sumv: "sumv = (\<Sum>d \<leftarrow> ds. val d)" and oid: "oid = output_id_of e sumv rep"
    and new: "\<And>n. object_at (ww_storage w) n oid = None" "oid \<notin> set ds"
  shows "\<exists>w'. map dh_data_id (ch_handoffs (ww_chain w')) = map dh_data_id (ch_handoffs (ww_chain w)) @ ds
    \<and> (if (\<Sum>d \<leftarrow> ds. unat (val d)) < 2 ^ 128
       then compute C S e ds eligible n seed SumU128 rep w = (Ok (), w')
         \<and> locations oid (ww_storage w') = cmte \<and> holds C (ww_storage w') oid sumv 0
         \<and> map cu_output_data_id (ch_computations (ww_chain w')) = map cu_output_data_id (ch_computations (ww_chain w)) @ [oid]
       else compute C S e ds eligible n seed SumU128 rep w = (Err WOverflow, w')
         \<and> ch_computations (ww_chain w') = ch_computations (ww_chain w))"
proof -
  obtain w1 where g: "gather_inputs C e cmte ds [] w = (Ok (map val ds), w1)" "bt_ok (ww_storage w1)"
      "\<forall>n d. d \<notin> set ds \<longrightarrow> object_at (ww_storage w1) n d = object_at (ww_storage w) n d"
      "ch_computations (ww_chain w1) = ch_computations (ww_chain w)"
      "map dh_data_id (ch_handoffs (ww_chain w1)) = map dh_data_id (ch_handoffs (ww_chain w)) @ ds"
    using gather_all [OF ok cmte vals, of e "[]"] by auto
  show ?thesis
  proof (cases "(\<Sum>d \<leftarrow> ds. unat (val d)) < 2 ^ 128")
    case True
    then have sum: "sum_u128 (map val ds) = Ok sumv" by (simp add: sum_u128_eq sumv comp_def)
    obtain net' where st: "store_output C oid sumv rep cmte (ww_storage w1) = (Ok (), net')"
        "locations oid net' = cmte" "holds C net' oid sumv 0"
      using store_output_new [OF g(2) cmte, of oid sumv rep] g(3) new by auto
    let ?w = "w1\<lparr>ww_storage := net', ww_chain := record_computation \<lparr>cu_execution_id = e, cu_output_data_id = oid,
        cu_output_nodes = cmte, cu_output_representation = rep\<rparr> (ww_chain w1)\<rparr>"
    have "compute C S e ds eligible n seed SumU128 rep w = (Ok (), ?w)"
      using ds sel g(1) sum st(1) oid by (simp add: compute_def lift_storage_def Let_def)
    then show ?thesis using True st g(4,5) by (intro exI [of _ ?w]) (auto simp: record_computation_def)
  next
    case False
    then have "sum_u128 (map val ds) = Err WOverflow" by (simp add: sum_u128_eq comp_def)
    then have "compute C S e ds eligible n seed SumU128 rep w = (Err WOverflow, w1)"
      using ds sel g(1) by (simp add: compute_def)
    then show ?thesis using False g(4,5) by auto
  qed
qed

end

lemma dev_select_succeeds:
  "n \<noteq> 0 \<Longrightarrow> distinct eligible \<Longrightarrow> n \<le> length eligible \<Longrightarrow> \<exists>cmte. dev_select seed eligible n = Ok cmte"
  by (auto simp: dev_select_def Let_def distinct_remdups_id not_less)

text \<open>
  C31. With the development backends, a queued sum request over stored values selects a committee, hands
  every input over to it, and either stores the sum at exactly that committee under the output identifier
  and records one computation, or, when the sum does not fit 128 bits, fails with \<open>Overflow\<close> after the
  handoffs.
\<close>

theorem workflow_compute_sums:
  assumes head: "ch_events (ww_chain w) = ComputeRequested e ds eligible n seed SumU128 rep # rest"
    and ok: "bt_ok (ww_storage w)" and ds: "ds \<noteq> []" and sel: "n \<noteq> 0" "distinct eligible" "n \<le> length eligible"
    and vals: "\<forall>d \<in> set ds. holds plaintext_workflow_crypto (ww_storage w) d (val d) (length ds)"
    and new: "\<forall>n. object_at (ww_storage w) n (output_id_of e (\<Sum>d \<leftarrow> ds. val d) rep) = None"
      "output_id_of e (\<Sum>d \<leftarrow> ds. val d) rep \<notin> set ds"
  shows "\<exists>w' cmte. dev_select seed eligible n = Ok cmte
    \<and> map dh_data_id (ch_handoffs (ww_chain w')) = map dh_data_id (ch_handoffs (ww_chain w)) @ ds
    \<and> (if (\<Sum>d \<leftarrow> ds. unat (val d)) < 2 ^ 128
       then workflow_poll_once plaintext_workflow_crypto dev_select w = (Ok True, w')
         \<and> locations (output_id_of e (\<Sum>d \<leftarrow> ds. val d) rep) (ww_storage w') = cmte
         \<and> holds plaintext_workflow_crypto (ww_storage w') (output_id_of e (\<Sum>d \<leftarrow> ds. val d) rep) (\<Sum>d \<leftarrow> ds. val d) 0
         \<and> map cu_output_data_id (ch_computations (ww_chain w')) =
             map cu_output_data_id (ch_computations (ww_chain w)) @ [output_id_of e (\<Sum>d \<leftarrow> ds. val d) rep]
       else workflow_poll_once plaintext_workflow_crypto dev_select w = (Err WOverflow, w')
         \<and> ch_computations (ww_chain w') = ch_computations (ww_chain w))"
proof -
  let ?w = "w\<lparr>ww_chain := ww_chain w\<lparr>ch_events := rest\<rparr>\<rparr>"
  obtain cmte where cmte: "dev_select seed eligible n = Ok cmte" using dev_select_succeeds [OF sel] by blast
  have props: "sorted_wrt (<) cmte" "cmte \<noteq> []" using dev_select_committee [OF cmte] by auto
  have poll: "workflow_poll_once plaintext_workflow_crypto dev_select w =
      then_do (compute plaintext_workflow_crypto dev_select e ds eligible n seed SumU128 rep ?w) (\<lambda>_ w. (Ok True, w))"
    using head by (simp add: workflow_poll_once_def next_event_def)
  show ?thesis
    using plain_wf.compute_outcome [of ?w ds dev_select, OF _ ds cmte props _ refl refl] ok vals new cmte
    unfolding poll by (fastforce split: if_splits)
qed

text \<open>
  An upload of secret shares is not atomic: when a fragment meets a node that already stores the
  object, it fails with \<open>DataAlreadyExists\<close> but leaves the fragments before it stored, and the same upload
  then fails again.
\<close>

theorem upload_stops_midway:
  assumes "version \<noteq> 0" and dist: "distinct (map frag_node before)" and before: "before \<noteq> []"
    and fresh: "\<forall>f \<in> set before. object_at net (frag_node f) d = None"
    and occupied: "object_at net (frag_node g) d = Some obj" "\<forall>f \<in> set before. frag_node f \<noteq> frag_node g"
  shows "\<exists>net'. upload_secret_shares d version (before @ g # later) net = (Err WDataAlreadyExists, net')
    \<and> (\<forall>f \<in> set before. object_at net' (frag_node f) d =
          Some \<lparr>so_representation = SecretSharing, so_version = version, so_payload = frag_payload f\<rparr>)
    \<and> fst (upload_secret_shares d version (before @ g # later) net') = Err WDataAlreadyExists"
proof -
  let ?obj = "\<lambda>f. (frag_node f, \<lparr>so_representation = SecretSharing, so_version = version, so_payload = frag_payload f\<rparr>)"
  have keys: "map fst (map ?obj before) = map frag_node before" by simp
  have "distinct (map fst (map ?obj before))" unfolding keys by (rule dist)
  moreover have "object_at net n d = None" if "n \<in> fst ` set (map ?obj before)" for n using that fresh by auto
  ultimately obtain net1 where st: "store_objects d (map ?obj before) net = (Ok (), net1)"
    and at: "\<And>n d'. object_at net1 n d' =
      (if d' = d \<and> n \<in> fst ` set (map ?obj before) then map_of (map ?obj before) n else object_at net n d')"
    using store_objects_fresh [of "map ?obj before" net d] by blast
  let ?net' = "bt_insert (frag_node g) (or_default (frag_node g) net1) net1"
  have g: "object_at net1 (frag_node g) d = Some obj" using at [of "frag_node g" d] occupied by auto
  have fails: "store_objects d (?obj g # xs) net1 = (Err WDataAlreadyExists, ?net')" for xs
    using g by (simp add: or_default_get)
  have stored: "object_at ?net' (frag_node f) d = Some (snd (?obj f))" if "f \<in> set before" for f
  proof -
    have "map_of (map ?obj before) (frag_node f) = Some (snd (?obj f))"
      using that dist by (intro map_of_is_SomeI) (auto simp: comp_def)
    then show ?thesis using at [of "frag_node f" d] that by (simp add: image_image)
  qed
  have run: "upload_secret_shares d version (before @ g # later) net = (Err WDataAlreadyExists, ?net')"
    using assms(1) st fails by (simp add: upload_secret_shares_def store_objects_append)
  obtain f fs where f: "before = f # fs" using before by (cases before) auto
  have "object_at ?net' (frag_node f) d \<noteq> None" using stored f by auto
  then have "fst (upload_secret_shares d version (before @ g # later) ?net') = Err WDataAlreadyExists"
    using assms(1) f by (auto simp: upload_secret_shares_def or_default_get)
  then show ?thesis using run stored by auto
qed

lemma length_dev_digest [simp]: "length (dev_digest tag parts) = 32"
  by (simp add: dev_digest_def)

text \<open>One input of value 40 at node 1, handed over to the only eligible node 2.\<close>

definition sum_world :: workflow_world where
  "sum_world =
     \<lparr>ww_chain = \<lparr>ch_events = [ComputeRequested [9] [[5]] [[2]] 1 [0] SumU128 Homomorphic], ch_handoffs = [], ch_computations = []\<rparr>,
      ww_storage = [([1], [([5], \<lparr>so_representation = SecretSharing, so_version = 1, so_payload = ss_payload 40 0\<rparr>)])]\<rparr>"

lemma sum_world_holds: "holds plaintext_workflow_crypto (ww_storage sum_world) [5] 40 (Suc 0)"
  by (auto simp: holds_def sum_world_def sources_def map_filter_simps plaintext_workflow_crypto_def
      prefix_of_representation_def intro!: plain_decode_all exI [of _ SecretSharing] exI [of _ "1 :: u64"])

lemma sum_world_fresh: "object_at (ww_storage sum_world) n (output_id_of e v rep) = None" "output_id_of e v rep \<noteq> [5]"
proof -
  show d: "output_id_of e v rep \<noteq> [5]"
    using length_dev_digest [of "ascii ''PPSC_DEV_OUTPUT_ID''"] by (metis One_nat_def length_Cons list.size(3) numeral_eq_one_iff output_id_of_def semiring_norm(85))
  show "object_at (ww_storage sum_world) n (output_id_of e v rep) = None"
    using d by (simp add: sum_world_def object_at_def)
qed

lemma workflow_compute_sums_witness:
  "\<exists>w'. workflow_poll_once plaintext_workflow_crypto dev_select sum_world = (Ok True, w')
    \<and> holds plaintext_workflow_crypto (ww_storage w') (output_id_of [9] 40 Homomorphic) 40 0"
  using workflow_compute_sums [of sum_world "[9]" "[[5]]" "[[2]]" 1 "[0]" Homomorphic "[]" "\<lambda>_. 40"]
    sum_world_holds sum_world_fresh
  by (auto simp: sum_world_def)

lemma upload_stops_midway_witness:
  "\<exists>net'. upload_secret_shares [5] 1 [\<lparr>frag_node = [0], frag_payload = [7]\<rparr>, \<lparr>frag_node = [1], frag_payload = [8]\<rparr>]
      (ww_storage sum_world) = (Err WDataAlreadyExists, net')
    \<and> object_at net' [0] [5] = Some \<lparr>so_representation = SecretSharing, so_version = 1, so_payload = [7]\<rparr>"
  using upload_stops_midway [of 1 "[\<lparr>frag_node = [0], frag_payload = [7]\<rparr>]" "ww_storage sum_world" "[5]"
      "\<lparr>frag_node = [1], frag_payload = [8]\<rparr>" _ "[]"]
  by (force simp: sum_world_def object_at_def)

end
