(* ===== verification/Compiler_Lexer.thy ===== *)
theory Compiler_Lexer
  imports Ppsc_Prelude
begin

text \<open>
  \<open>compiler/src/lib.rs\<close>, tokens: the value types, the lexer and the compile errors of the
  privacy-contract language.

  The source is a list of bytes, as the lexer reads it; a character is a byte read as Latin-1.  The
  lemmas show that spelling out a list of token kinds with blanks between them and reading it back
  gives the same kinds.
\<close>

record compile_error =
  ce_message :: string
  ce_offset :: nat

datatype value_type = TAddress | TUint | TFheUint | TFheBool | TSint | TSecretBool | TOpened | TVoid

datatype representation = RPublic | RFhe | RSecretSharing

definition value_type_parse :: "string \<Rightarrow> value_type option" where
  "value_type_parse name =
     (if name = ''address'' then Some TAddress
      else if name = ''uint'' \<or> name = ''uint256'' then Some TUint
      else if name = ''FheUint'' then Some TFheUint
      else if name = ''Sint'' then Some TSint
      else if name = ''SecretBool'' then Some TSecretBool
      else None)"

fun abi_type :: "value_type \<Rightarrow> string" where
  "abi_type TAddress = ''address''"
| "abi_type TUint = ''uint256''"
| "abi_type TVoid = ''''"
| "abi_type _ = ''bytes32''"

fun representation_of :: "value_type \<Rightarrow> representation" where
  "representation_of TFheUint = RFhe"
| "representation_of TFheBool = RFhe"
| "representation_of TSint = RSecretSharing"
| "representation_of TSecretBool = RSecretSharing"
| "representation_of _ = RPublic"

datatype token_kind = Ident string | Number string | Symbol char | Eof

record token =
  tok_kind :: token_kind
  tok_offset :: nat

section \<open>Character classes\<close>

definition is_whitespace :: "char \<Rightarrow> bool" where
  "is_whitespace c = (let n = of_char c :: nat in (9 \<le> n \<and> n \<le> 13) \<or> n = 32 \<or> n = 133 \<or> n = 160)"

definition is_alpha :: "char \<Rightarrow> bool" where
  "is_alpha c = (let n = of_char c :: nat in (65 \<le> n \<and> n \<le> 90) \<or> (97 \<le> n \<and> n \<le> 122))"

definition is_digit :: "char \<Rightarrow> bool" where
  "is_digit c = (let n = of_char c :: nat in 48 \<le> n \<and> n \<le> 57)"

definition is_ident_start :: "char \<Rightarrow> bool" where
  "is_ident_start c = (is_alpha c \<or> c = CHR ''_'')"

definition is_ident_char :: "char \<Rightarrow> bool" where
  "is_ident_char c = (is_alpha c \<or> is_digit c \<or> c = CHR ''_'' \<or> c = CHR ''.'')"

definition symbol_chars :: string where
  "symbol_chars = ''{}()[];,=''"

definition starts_slash :: "string \<Rightarrow> bool" where
  "starts_slash cs = (case cs of d # _ \<Rightarrow> d = CHR ''/'' | [] \<Rightarrow> False)"

text \<open>
  The scanning loop at byte \<open>i\<close> with the rest of the source; the inner loops are \<open>takeWhile\<close> and
  \<open>dropWhile\<close>.
\<close>

function lex_loop :: "nat \<Rightarrow> string \<Rightarrow> (compile_error, token list) res" where
  "lex_loop i [] = Ok [\<lparr>tok_kind = Eof, tok_offset = i\<rparr>]"
| "lex_loop i (c # cs) =
     (if is_whitespace c then lex_loop (i + 1) cs
      else if c = CHR ''/'' \<and> starts_slash cs then
        let comment = takeWhile (\<lambda>d. d \<noteq> CHR 0x0A) (tl cs) in
        lex_loop (i + 2 + length comment) (dropWhile (\<lambda>d. d \<noteq> CHR 0x0A) (tl cs))
      else if is_ident_start c then
        let word = c # takeWhile is_ident_char cs in
        bindR (lex_loop (i + length word) (dropWhile is_ident_char cs)) (\<lambda>ts.
          Ok (\<lparr>tok_kind = Ident word, tok_offset = i\<rparr> # ts))
      else if is_digit c then
        let word = c # takeWhile is_digit cs in
        bindR (lex_loop (i + length word) (dropWhile is_digit cs)) (\<lambda>ts.
          Ok (\<lparr>tok_kind = Number word, tok_offset = i\<rparr> # ts))
      else if c \<in> set symbol_chars then
        bindR (lex_loop (i + 1) cs) (\<lambda>ts. Ok (\<lparr>tok_kind = Symbol c, tok_offset = i\<rparr> # ts))
      else Err \<lparr>ce_message = ''unexpected character `'' @ [c] @ ''`'', ce_offset = i\<rparr>)"
  by pat_completeness auto

lemma length_dropWhile_tl: "length (dropWhile P (tl cs)) \<le> length cs"
  by (metis diff_le_self dual_order.trans length_dropWhile_le length_tl)

termination lex_loop
  by (relation "measure (\<lambda>(i, cs). length cs)")
    (auto simp: less_Suc_eq_le length_dropWhile_le length_dropWhile_tl)

definition lex :: "string \<Rightarrow> (compile_error, token list) res" where
  "lex source = lex_loop 0 source"

section \<open>Token lists end with Eof\<close>

definition ends_eof :: "token list \<Rightarrow> bool" where
  "ends_eof ts = (\<exists>pre t. ts = pre @ [t] \<and> tok_kind t = Eof \<and> (\<forall>u \<in> set pre. tok_kind u \<noteq> Eof))"

lemma ends_eof_Cons: "ends_eof (t # ts) \<longleftrightarrow> (if tok_kind t = Eof then ts = [] else ends_eof ts)"
  by (force simp: ends_eof_def Cons_eq_append_conv)

lemma ends_eof_not_Nil [simp]: "\<not> ends_eof []"
  by (simp add: ends_eof_def)

lemma lex_loop_ends_eof: "lex_loop i cs = Ok ts \<Longrightarrow> ends_eof ts"
  by (induction i cs arbitrary: ts rule: lex_loop.induct)
    (auto simp: ends_eof_Cons Let_def split: if_splits)

lemma lex_loop_not_Panic: "lex_loop i cs \<noteq> Panic"
  by (induction i cs rule: lex_loop.induct) (auto simp: bindR_eq_Panic Let_def)

section \<open>Spelling tokens and reading them back\<close>

fun spell :: "token_kind \<Rightarrow> string" where
  "spell (Ident s) = s"
| "spell (Number s) = s"
| "spell (Symbol c) = [c]"
| "spell Eof = ''''"

fun good_kind :: "token_kind \<Rightarrow> bool" where
  "good_kind (Ident s) = (s \<noteq> [] \<and> is_ident_start (hd s) \<and> list_all is_ident_char (tl s))"
| "good_kind (Number s) = (s \<noteq> [] \<and> list_all is_digit s)"
| "good_kind (Symbol c) = (c \<in> set symbol_chars)"
| "good_kind Eof = False"

definition spell_all :: "token_kind list \<Rightarrow> string" where
  "spell_all ks = concat (map (\<lambda>k. spell k @ '' '') ks)"

lemma spell_all_simps [simp]: "spell_all [] = []" "spell_all (k # ks) = spell k @ CHR '' '' # spell_all ks"
  by (simp_all add: spell_all_def)

lemma class_facts:
  "is_whitespace CHR '' ''" "\<not> is_ident_char CHR '' ''" "\<not> is_digit CHR '' ''"
  "is_ident_start c \<Longrightarrow> \<not> is_whitespace c \<and> c \<noteq> CHR ''/''"
  "is_digit c \<Longrightarrow> \<not> is_whitespace c \<and> c \<noteq> CHR ''/'' \<and> \<not> is_ident_start c"
  "c \<in> set symbol_chars \<Longrightarrow> \<not> is_whitespace c \<and> c \<noteq> CHR ''/'' \<and> \<not> is_ident_start c \<and> \<not> is_digit c"
  by (auto simp: is_whitespace_def is_ident_char_def is_digit_def is_ident_start_def is_alpha_def symbol_chars_def Let_def)

lemma takeWhile_spelled:
  "list_all P s \<Longrightarrow> \<not> P CHR '' '' \<Longrightarrow> takeWhile P (s @ CHR '' '' # r) = s"
  "list_all P s \<Longrightarrow> \<not> P CHR '' '' \<Longrightarrow> dropWhile P (s @ CHR '' '' # r) = CHR '' '' # r"
  by (induction s) auto

lemma lex_spell_all:
  "list_all good_kind ks \<Longrightarrow> \<exists>ts. lex_loop i (spell_all ks) = Ok ts \<and> map tok_kind ts = ks @ [Eof]"
proof (induction ks arbitrary: i)
  case (Cons k ks)
  have ks: "list_all good_kind ks" and k: "good_kind k" using Cons.prems by auto
  have blank: "lex_loop j (CHR '' '' # spell_all ks) = lex_loop (j + 1) (spell_all ks)" for j
    by (simp add: class_facts)
  obtain ts where ts: "lex_loop (i + length (spell k) + 1) (spell_all ks) = Ok ts" "map tok_kind ts = ks @ [Eof]"
    using Cons.IH [OF ks] by blast
  show ?case
  proof (cases k)
    case (Ident s)
    then obtain c cs where s: "s = c # cs" "is_ident_start c" "list_all is_ident_char cs" using k by (cases s) auto
    then show ?thesis
      using Ident ts blank class_facts(4) [OF s(2)] takeWhile_spelled [OF s(3) class_facts(2), of "spell_all ks"]
      by (simp add: Let_def)
  next
    case (Number s)
    then obtain c cs where s: "s = c # cs" "is_digit c" "list_all is_digit cs" using k by (cases s) auto
    then show ?thesis
      using Number ts blank class_facts(5) [OF s(2)] takeWhile_spelled [OF s(3) class_facts(3), of "spell_all ks"]
      by (simp add: Let_def)
  next
    case (Symbol c)
    then show ?thesis using k ts blank class_facts(6) [of c] by simp
  next
    case Eof
    then show ?thesis using k by simp
  qed
qed simp

end
