(* ===== verification/Compiler_Parser.thy ===== *)
theory Compiler_Parser
  imports Compiler_Lexer
begin

text \<open>
  \<open>compiler/src/lib.rs\<close>, the recursive-descent parser.  The parser's state is the token list from the
  cursor on; reading past its end is an index out of bounds.

  Expressions recurse through the tokens a nested call leaves, so termination needs that every
  successful call consumes; the loops over statements and declarations consume one item each.
\<close>

datatype expression = EName string | ENumber string | EIndex string expression | ECall string "expression list"

datatype statement =
  SLocal value_type string expression
| SAssign expression expression
| SRequire expression
| SReturn expression
| SExpression expression

record state_decl =
  sd_name :: string
  sd_ty :: value_type
  sd_key_ty :: "value_type option"

record param =
  pm_name :: string
  pm_ty :: value_type

record func_decl =
  fn_name :: string
  fn_params :: "param list"
  fn_body :: "statement list"

record program =
  pg_name :: string
  pg_states :: "state_decl list"
  pg_functions :: "func_decl list"

type_synonym 'a parsed = "(compile_error, 'a \<times> token list) res"

section \<open>Token helpers\<close>

definition current :: "token list \<Rightarrow> (compile_error, token) res" where
  "current ts = (case ts of [] \<Rightarrow> Panic | t # _ \<Rightarrow> Ok t)"

definition parse_fail :: "string \<Rightarrow> token list \<Rightarrow> (compile_error, 'a) res" where
  "parse_fail message ts = bindR (current ts) (\<lambda>t. Err \<lparr>ce_message = message, ce_offset = tok_offset t\<rparr>)"

definition consume_kind :: "token_kind \<Rightarrow> token list \<Rightarrow> bool parsed" where
  "consume_kind k ts = bindR (current ts) (\<lambda>t. if tok_kind t = k then Ok (True, tl ts) else Ok (False, ts))"

definition consume_keyword :: "string \<Rightarrow> token list \<Rightarrow> bool parsed" where
  "consume_keyword expected ts = consume_kind (Ident expected) ts"

definition consume_symbol :: "char \<Rightarrow> token list \<Rightarrow> bool parsed" where
  "consume_symbol expected ts = consume_kind (Symbol expected) ts"

definition keyword :: "string \<Rightarrow> token list \<Rightarrow> unit parsed" where
  "keyword expected ts =
     bindR (consume_keyword expected ts) (\<lambda>(b, ts).
       if b then Ok ((), ts) else parse_fail (''expected `'' @ expected @ ''`'') ts)"

definition symbol :: "char \<Rightarrow> token list \<Rightarrow> unit parsed" where
  "symbol expected ts =
     bindR (consume_symbol expected ts) (\<lambda>(b, ts).
       if b then Ok ((), ts) else parse_fail (''expected `'' @ [expected] @ ''`'') ts)"

definition ident :: "token list \<Rightarrow> string parsed" where
  "ident ts =
     bindR (current ts) (\<lambda>t. case tok_kind t of Ident v \<Rightarrow> Ok (v, tl ts) | _ \<Rightarrow> parse_fail ''expected identifier'' ts)"

definition parse_value_type :: "token list \<Rightarrow> value_type parsed" where
  "parse_value_type ts =
     bindR (current ts) (\<lambda>t.
     bindR (ident ts) (\<lambda>(name, ts).
       case value_type_parse name of
         Some ty \<Rightarrow> Ok (ty, ts)
       | None \<Rightarrow> Err \<lparr>ce_message = ''unknown type `'' @ name @ ''`'', ce_offset = tok_offset t\<rparr>))"

section \<open>Expressions\<close>

text \<open>\<open>parse_arguments\<close> is the loop over a call's arguments, up to the closing parenthesis.\<close>

function (sequential) parse_expression :: "token list \<Rightarrow> expression parsed"
  and parse_arguments :: "token list \<Rightarrow> expression list parsed"
where
  "parse_expression ts =
     bindR (current ts) (\<lambda>t.
       case tok_kind t of
         Number v \<Rightarrow> Ok (ENumber v, tl ts)
       | Ident name \<Rightarrow>
           bindR (consume_symbol CHR ''('' (tl ts)) (\<lambda>(call, ts1).
             if call then
               bindR (consume_symbol CHR '')'' ts1) (\<lambda>(empty, ts2).
                 if empty then Ok (ECall name [], ts2)
                 else bindR (parse_arguments ts2) (\<lambda>(args, ts3). Ok (ECall name args, ts3)))
             else bindR (consume_symbol CHR ''['' ts1) (\<lambda>(index, ts2).
               if index then
                 bindR (parse_expression ts2) (\<lambda>(key, ts3).
                 bindR (symbol CHR '']'' ts3) (\<lambda>(_, ts4). Ok (EIndex name key, ts4)))
               else Ok (EName name, ts2)))
       | _ \<Rightarrow> parse_fail ''expected expression'' ts)"
| "parse_arguments ts =
     bindR (parse_expression ts) (\<lambda>(arg, ts1).
     bindR (consume_symbol CHR '')'' ts1) (\<lambda>(close, ts2).
       if close then Ok ([arg], ts2)
       else bindR (symbol CHR '','' ts2) (\<lambda>(_, ts3).
            bindR (parse_arguments ts3) (\<lambda>(rest, ts4). Ok (arg # rest, ts4)))))"
  by pat_completeness auto

lemma current_Ok [simp]: "current ts = Ok t \<longleftrightarrow> (\<exists>rest. ts = t # rest)"
  by (cases ts) (auto simp: current_def)

lemma consume_kind_Ok:
  "consume_kind k ts = Ok (b, ts') \<longleftrightarrow>
     (\<exists>t rest. ts = t # rest \<and> b = (tok_kind t = k) \<and> ts' = (if tok_kind t = k then rest else ts))"
  by (cases ts) (auto simp: consume_kind_def current_def)

lemma parse_fail_not_Ok [simp]: "parse_fail m ts \<noteq> Ok x"
  by (auto simp: parse_fail_def)

lemma symbol_Ok: "symbol c ts = Ok (u, ts') \<longleftrightarrow> (\<exists>t. ts = t # ts' \<and> tok_kind t = Symbol c)"
  by (auto simp: symbol_def consume_symbol_def consume_kind_Ok split_beta split: if_splits)

lemma keyword_Ok: "keyword s ts = Ok (u, ts') \<longleftrightarrow> (\<exists>t. ts = t # ts' \<and> tok_kind t = Ident s)"
  by (auto simp: keyword_def consume_keyword_def consume_kind_Ok split_beta split: if_splits)

lemma ident_Ok: "ident ts = Ok (s, ts') \<longleftrightarrow> (\<exists>t. ts = t # ts' \<and> tok_kind t = Ident s)"
  by (cases ts) (auto simp: ident_def current_def parse_fail_def split: token_kind.splits)

lemma consume_symbol_length: "consume_symbol c ts = Ok (b, ts') \<Longrightarrow> length ts' \<le> length ts"
  by (auto simp: consume_symbol_def consume_kind_Ok)

lemma symbol_length: "symbol c ts = Ok (u, ts') \<Longrightarrow> length ts' < length ts"
  by (auto simp: symbol_Ok)

lemma parse_consumes:
  "parse_expression_parse_arguments_dom (Inl ts) \<Longrightarrow> parse_expression ts = Ok (e, ts') \<Longrightarrow> length ts' < length ts"
  "parse_expression_parse_arguments_dom (Inr ts) \<Longrightarrow> parse_arguments ts = Ok (es, ts') \<Longrightarrow> length ts' < length ts"
proof (induction ts and ts arbitrary: e ts' and es ts' rule: parse_expression_parse_arguments.pinduct)
  case (1 ts)
  note run = "1.prems" [unfolded parse_expression.psimps [OF "1.hyps"]]
  obtain t rest where ts: "ts = t # rest" using run by auto
  show ?case
  proof (cases "tok_kind t")
    case (Ident name)
    obtain call ts1 where c1: "consume_symbol CHR ''('' rest = Ok (call, ts1)" using run ts Ident by auto
    note l1 = consume_symbol_length [OF c1]
    show ?thesis
    proof (cases call)
      case True
      obtain empty ts2 where c2: "consume_symbol CHR '')'' ts1 = Ok (empty, ts2)" using run ts Ident c1 True by auto
      note l2 = consume_symbol_length [OF c2]
      show ?thesis
      proof (cases empty)
        case False
        then obtain args where "parse_arguments ts2 = Ok (args, ts')" using run ts Ident c1 c2 True by auto
        then have "length ts' < length ts2"
          using "1.IH"(1) [of t name "(call, ts1)" call ts1 "(empty, ts2)" empty ts2] ts Ident c1 c2 True False by simp
        then show ?thesis using ts l1 l2 by simp
      qed (use run ts Ident c1 c2 True l1 l2 in auto)
    next
      case False
      obtain index ts2 where c2: "consume_symbol CHR ''['' ts1 = Ok (index, ts2)" using run ts Ident c1 False by auto
      note l2 = consume_symbol_length [OF c2]
      show ?thesis
      proof (cases index)
        case True
        then obtain key ts3 u where k: "parse_expression ts2 = Ok (key, ts3)" "symbol CHR '']'' ts3 = Ok (u, ts')"
          using run ts Ident c1 c2 False by auto
        have "length ts3 < length ts2"
          using "1.IH"(2) [of t name "(call, ts1)" call ts1 "(index, ts2)" index ts2] k ts Ident c1 c2 True False by simp
        then show ?thesis using ts l1 l2 symbol_length [OF k(2)] by simp
      qed (use run ts Ident c1 c2 False l1 l2 in auto)
    qed
  qed (use run ts in auto)
next
  case (2 ts)
  note run = "2.prems" [unfolded parse_arguments.psimps [OF "2.hyps"]]
  obtain arg ts1 where e: "parse_expression ts = Ok (arg, ts1)" using run by auto
  obtain close ts2 where c: "consume_symbol CHR '')'' ts1 = Ok (close, ts2)" using run e by auto
  note l = "2.IH"(1) [OF e] consume_symbol_length [OF c]
  show ?case
  proof (cases close)
    case False
    then obtain u ts3 more where s: "symbol CHR '','' ts2 = Ok (u, ts3)" "parse_arguments ts3 = Ok (more, ts')"
      using run e c by auto
    have "length ts' < length ts3"
      using "2.IH"(2) [of "(arg, ts1)" arg ts1 "(close, ts2)" close ts2 "(u, ts3)" u ts3] s e c False by simp
    then show ?thesis using l symbol_length [OF s(1)] by simp
  qed (use run e c l in auto)
qed

lemma parse_total: "All parse_expression_parse_arguments_dom"
  by (rule "parse_expression_parse_arguments.termination"
      [of "measure (\<lambda>x. case x of Inl ts \<Rightarrow> 2 * length ts | Inr ts \<Rightarrow> 2 * length ts + 1)"])
    (auto dest!: consume_symbol_length symbol_length parse_consumes)

termination parse_expression
  by (rule parse_total)

lemma parse_expression_length: "parse_expression ts = Ok (e, ts') \<Longrightarrow> length ts' < length ts"
  using parse_consumes(1) parse_total by blast

lemma parse_arguments_length: "parse_arguments ts = Ok (es, ts') \<Longrightarrow> length ts' < length ts"
  using parse_consumes(2) parse_total by blast

declare parse_expression.simps [simp del] parse_arguments.simps [simp del]

section \<open>Statements\<close>

definition parse_assignment :: "token list \<Rightarrow> statement parsed" where
  "parse_assignment ts =
     bindR (parse_expression ts) (\<lambda>(left, ts).
     bindR (consume_symbol CHR ''='' ts) (\<lambda>(assign, ts).
       if assign then
         bindR (parse_expression ts) (\<lambda>(right, ts).
         bindR (symbol CHR '';'' ts) (\<lambda>(_, ts). Ok (SAssign left right, ts)))
       else bindR (symbol CHR '';'' ts) (\<lambda>(_, ts). Ok (SExpression left, ts))))"

definition parse_local :: "value_type \<Rightarrow> token list \<Rightarrow> statement parsed" where
  "parse_local ty ts =
     bindR (ident ts) (\<lambda>(name, ts).
     bindR (symbol CHR ''='' ts) (\<lambda>(_, ts).
     bindR (parse_expression ts) (\<lambda>(v, ts).
     bindR (symbol CHR '';'' ts) (\<lambda>(_, ts). Ok (SLocal ty name v, ts)))))"

definition parse_typed :: "token list \<Rightarrow> statement parsed" where
  "parse_typed ts =
     bindR (current ts) (\<lambda>t.
       case tok_kind t of
         Ident type_name \<Rightarrow>
           (case value_type_parse type_name of
              Some ty \<Rightarrow> parse_local ty (tl ts)
            | None \<Rightarrow> parse_assignment ts)
       | _ \<Rightarrow> parse_assignment ts)"

definition parse_statement :: "token list \<Rightarrow> statement parsed" where
  "parse_statement ts =
     bindR (consume_keyword ''require'' ts) (\<lambda>(req, ts).
       if req then
         bindR (symbol CHR ''('' ts) (\<lambda>(_, ts).
         bindR (parse_expression ts) (\<lambda>(v, ts).
         bindR (symbol CHR '')'' ts) (\<lambda>(_, ts).
         bindR (symbol CHR '';'' ts) (\<lambda>(_, ts). Ok (SRequire v, ts)))))
       else bindR (consume_keyword ''return'' ts) (\<lambda>(ret, ts).
         if ret then
           bindR (parse_expression ts) (\<lambda>(v, ts).
           bindR (symbol CHR '';'' ts) (\<lambda>(_, ts). Ok (SReturn v, ts)))
         else parse_typed ts))"

lemma consume_keyword_Ok:
  "consume_keyword s ts = Ok (b, ts') \<longleftrightarrow>
     (\<exists>t rest. ts = t # rest \<and> b = (tok_kind t = Ident s) \<and> ts' = (if tok_kind t = Ident s then rest else ts))"
  by (simp add: consume_keyword_def consume_kind_Ok)

lemma consume_keyword_length: "consume_keyword s ts = Ok (b, ts') \<Longrightarrow> length ts' \<le> length ts"
  by (auto simp: consume_keyword_Ok)

lemma keyword_length: "keyword s ts = Ok (u, ts') \<Longrightarrow> length ts' < length ts"
  by (auto simp: keyword_Ok)

lemma ident_length: "ident ts = Ok (s, ts') \<Longrightarrow> length ts' < length ts"
  by (auto simp: ident_Ok)

lemma parse_value_type_length: "parse_value_type ts = Ok (ty, ts') \<Longrightarrow> length ts' < length ts"
  by (auto simp: parse_value_type_def ident_Ok split: option.splits)

lemmas lengths = consume_symbol_length symbol_length consume_keyword_length keyword_length ident_length
  parse_value_type_length parse_expression_length

lemma parse_assignment_length: "parse_assignment ts = Ok (st, ts') \<Longrightarrow> length ts' < length ts"
  by (auto simp: parse_assignment_def split: if_splits dest!: lengths)

lemma parse_local_length: "parse_local ty ts = Ok (st, ts') \<Longrightarrow> length ts' < length ts"
  by (auto simp: parse_local_def dest!: lengths)

lemma parse_typed_length: "parse_typed ts = Ok (st, ts') \<Longrightarrow> length ts' < length ts"
  by (cases ts) (auto simp: parse_typed_def current_def split: token_kind.splits option.splits
      dest!: parse_assignment_length parse_local_length)

lemma parse_statement_length: "parse_statement ts = Ok (st, ts') \<Longrightarrow> length ts' < length ts"
  by (auto simp: parse_statement_def split: if_splits dest!: lengths parse_typed_length)

function parse_statements :: "token list \<Rightarrow> statement list parsed" where
  "parse_statements ts =
     bindR (consume_symbol CHR ''}'' ts) (\<lambda>(close, ts1).
       if close then Ok ([], ts1)
       else bindR (parse_statement ts1) (\<lambda>(st, ts2).
            bindR (parse_statements ts2) (\<lambda>(sts, ts3). Ok (st # sts, ts3))))"
  by pat_completeness auto
termination
  by (relation "measure length") (auto dest!: consume_symbol_length parse_statement_length)

section \<open>Declarations and the contract\<close>

definition parse_state_decl :: "token list \<Rightarrow> state_decl parsed" where
  "parse_state_decl ts =
     bindR (parse_value_type ts) (\<lambda>(ty, ts).
     bindR (ident ts) (\<lambda>(name, ts).
     bindR (consume_symbol CHR ''['' ts) (\<lambda>(mapped, ts).
     bindR (if mapped then
              bindR (parse_value_type ts) (\<lambda>(key, ts).
              bindR (symbol CHR '']'' ts) (\<lambda>(_, ts). Ok (Some key, ts)))
            else Ok (None, ts)) (\<lambda>(key_ty, ts).
     bindR (symbol CHR '';'' ts) (\<lambda>(_, ts). Ok (\<lparr>sd_name = name, sd_ty = ty, sd_key_ty = key_ty\<rparr>, ts))))))"

function parse_params :: "token list \<Rightarrow> param list parsed" where
  "parse_params ts =
     bindR (parse_value_type ts) (\<lambda>(ty, ts1).
     bindR (ident ts1) (\<lambda>(name, ts2).
     bindR (consume_symbol CHR '')'' ts2) (\<lambda>(close, ts3).
       if close then Ok ([\<lparr>pm_name = name, pm_ty = ty\<rparr>], ts3)
       else bindR (symbol CHR '','' ts3) (\<lambda>(_, ts4).
            bindR (parse_params ts4) (\<lambda>(ps, ts5). Ok (\<lparr>pm_name = name, pm_ty = ty\<rparr> # ps, ts5))))))"
  by pat_completeness auto
termination
  by (relation "measure length") (auto dest!: lengths)

definition parse_function :: "token list \<Rightarrow> func_decl parsed" where
  "parse_function ts =
     bindR (ident ts) (\<lambda>(name, ts).
     bindR (symbol CHR ''('' ts) (\<lambda>(_, ts).
     bindR (consume_symbol CHR '')'' ts) (\<lambda>(empty, ts).
     bindR (if empty then Ok ([], ts) else parse_params ts) (\<lambda>(params, ts).
     bindR (keyword ''public'' ts) (\<lambda>(_, ts).
     bindR (symbol CHR ''{'' ts) (\<lambda>(_, ts).
     bindR (parse_statements ts) (\<lambda>(body, ts).
       Ok (\<lparr>fn_name = name, fn_params = params, fn_body = body\<rparr>, ts))))))))"

declare parse_statements.simps [simp del] parse_params.simps [simp del]

lemma parse_statements_length: "parse_statements ts = Ok (sts, ts') \<Longrightarrow> length ts' \<le> length ts"
proof (induction ts arbitrary: sts ts' rule: parse_statements.induct)
  case (1 ts)
  note run = "1.prems" [unfolded parse_statements.simps [of ts]]
  obtain close ts1 where c: "consume_symbol CHR ''}'' ts = Ok (close, ts1)" using run by auto
  note l = consume_symbol_length [OF c]
  show ?case
  proof (cases close)
    case False
    obtain st ts2 where st: "parse_statement ts1 = Ok (st, ts2)" using run c False by auto
    obtain more where "parse_statements ts2 = Ok (more, ts')" using run c st False by auto
    then have "length ts' \<le> length ts2" using "1.IH" [OF c refl False st refl] by blast
    then show ?thesis using l parse_statement_length [OF st] by simp
  qed (use run c l in auto)
qed

lemma parse_params_length: "parse_params ts = Ok (ps, ts') \<Longrightarrow> length ts' < length ts"
proof (induction ts arbitrary: ps ts' rule: parse_params.induct)
  case (1 ts)
  note run = "1.prems" [unfolded parse_params.simps [of ts]]
  obtain ty ts1 where v: "parse_value_type ts = Ok (ty, ts1)" using run by auto
  obtain name ts2 where i: "ident ts1 = Ok (name, ts2)" using run v by auto
  obtain close ts3 where c: "consume_symbol CHR '')'' ts2 = Ok (close, ts3)" using run v i by auto
  note l = parse_value_type_length [OF v] ident_length [OF i] consume_symbol_length [OF c]
  show ?case
  proof (cases close)
    case False
    obtain u ts4 where s: "symbol CHR '','' ts3 = Ok (u, ts4)" using run v i c False by auto
    obtain more where "parse_params ts4 = Ok (more, ts')" using run v i c s False by auto
    then have "length ts' < length ts4" using "1.IH" [OF v refl i refl c refl False s refl] by blast
    then show ?thesis using l symbol_length [OF s] by simp
  qed (use run v i c l in auto)
qed

lemma parse_state_decl_length: "parse_state_decl ts = Ok (d, ts') \<Longrightarrow> length ts' < length ts"
  by (auto simp: parse_state_decl_def split: if_splits dest!: lengths)

lemma parse_function_length: "parse_function ts = Ok (d, ts') \<Longrightarrow> length ts' < length ts"
  by (auto simp: parse_function_def split: if_splits dest!: lengths parse_statements_length parse_params_length)

text \<open>The contract's items, states and functions in source order, up to the closing brace.\<close>

function parse_items :: "token list \<Rightarrow> (state_decl list \<times> func_decl list) parsed" where
  "parse_items ts =
     bindR (consume_symbol CHR ''}'' ts) (\<lambda>(close, ts1).
       if close then Ok (([], []), ts1)
       else bindR (consume_keyword ''private'' ts1) (\<lambda>(priv, ts2).
         if priv then
           bindR (parse_state_decl ts2) (\<lambda>(d, ts3).
           bindR (parse_items ts3) (\<lambda>((ds, fs), ts4). Ok ((d # ds, fs), ts4)))
         else bindR (consume_keyword ''function'' ts2) (\<lambda>(func, ts3).
           if func then
             bindR (parse_function ts3) (\<lambda>(f, ts4).
             bindR (parse_items ts4) (\<lambda>((ds, fs), ts5). Ok ((ds, f # fs), ts5)))
           else parse_fail ''expected `private` or `function`'' ts3)))"
  by pat_completeness auto
termination
  by (relation "measure length") (auto dest!: lengths parse_state_decl_length parse_function_length)

declare parse_items.simps [simp del]

definition parse_program :: "token list \<Rightarrow> (compile_error, program) res" where
  "parse_program ts =
     bindR (keyword ''privacy'' ts) (\<lambda>(_, ts).
     bindR (keyword ''contract'' ts) (\<lambda>(_, ts).
     bindR (ident ts) (\<lambda>(name, ts).
     bindR (symbol CHR ''{'' ts) (\<lambda>(_, ts).
     bindR (parse_items ts) (\<lambda>((states, functions), ts).
     bindR (current ts) (\<lambda>t.
       if tok_kind t \<noteq> Eof then parse_fail ''unexpected input after contract'' ts
       else Ok \<lparr>pg_name = name, pg_states = states, pg_functions = functions\<rparr>))))))"

definition parse :: "string \<Rightarrow> (compile_error, program) res" where
  "parse source = bindR (lex source) parse_program"

section \<open>Printing and parsing back\<close>

fun unparse_expression :: "expression \<Rightarrow> token_kind list" and unparse_arguments :: "expression list \<Rightarrow> token_kind list" where
  "unparse_expression (EName n) = [Ident n]"
| "unparse_expression (ENumber n) = [Number n]"
| "unparse_expression (EIndex n key) = Ident n # Symbol CHR ''['' # unparse_expression key @ [Symbol CHR '']'']"
| "unparse_expression (ECall n args) = Ident n # Symbol CHR ''('' # unparse_arguments args @ [Symbol CHR '')'']"
| "unparse_arguments [] = []"
| "unparse_arguments [e] = unparse_expression e"
| "unparse_arguments (e # es) = unparse_expression e @ Symbol CHR '','' # unparse_arguments es"

fun unparse_type :: "value_type \<Rightarrow> string" where
  "unparse_type TAddress = ''address''"
| "unparse_type TUint = ''uint''"
| "unparse_type TFheUint = ''FheUint''"
| "unparse_type TSint = ''Sint''"
| "unparse_type TSecretBool = ''SecretBool''"
| "unparse_type _ = []"

fun unparse_statement :: "statement \<Rightarrow> token_kind list" where
  "unparse_statement (SLocal ty n v) = Ident (unparse_type ty) # Ident n # Symbol CHR ''='' # unparse_expression v @ [Symbol CHR '';'']"
| "unparse_statement (SAssign l r) = unparse_expression l @ Symbol CHR ''='' # unparse_expression r @ [Symbol CHR '';'']"
| "unparse_statement (SRequire v) = Ident ''require'' # Symbol CHR ''('' # unparse_expression v @ [Symbol CHR '')'', Symbol CHR '';'']"
| "unparse_statement (SReturn v) = Ident ''return'' # unparse_expression v @ [Symbol CHR '';'']"
| "unparse_statement (SExpression v) = unparse_expression v @ [Symbol CHR '';'']"

definition unparse_state_decl :: "state_decl \<Rightarrow> token_kind list" where
  "unparse_state_decl d = Ident ''private'' # Ident (unparse_type (sd_ty d)) # Ident (sd_name d) #
     (case sd_key_ty d of None \<Rightarrow> [] | Some k \<Rightarrow> [Symbol CHR ''['', Ident (unparse_type k), Symbol CHR '']'']) @ [Symbol CHR '';'']"

fun unparse_params :: "param list \<Rightarrow> token_kind list" where
  "unparse_params [] = []"
| "unparse_params [p] = [Ident (unparse_type (pm_ty p)), Ident (pm_name p)]"
| "unparse_params (p # ps) = Ident (unparse_type (pm_ty p)) # Ident (pm_name p) # Symbol CHR '','' # unparse_params ps"

definition unparse_function :: "func_decl \<Rightarrow> token_kind list" where
  "unparse_function f = Ident ''function'' # Ident (fn_name f) # Symbol CHR ''('' # unparse_params (fn_params f)
     @ [Symbol CHR '')'', Ident ''public'', Symbol CHR ''{''] @ concat (map unparse_statement (fn_body f)) @ [Symbol CHR ''}'']"

definition unparse_program :: "program \<Rightarrow> token_kind list" where
  "unparse_program p = [Ident ''privacy'', Ident ''contract'', Ident (pg_name p), Symbol CHR ''{'']
     @ concat (map unparse_state_decl (pg_states p)) @ concat (map unparse_function (pg_functions p)) @ [Symbol CHR ''}'']"

text \<open>
  What a printable program needs: types that have a spelling, and assignments and expression statements
  that do not start with a word the statement parser takes for something else.
\<close>

definition printable_type :: "value_type \<Rightarrow> bool" where
  "printable_type ty \<longleftrightarrow> ty \<in> {TAddress, TUint, TFheUint, TSint, TSecretBool}"

fun free_start :: "expression \<Rightarrow> bool" where
  "free_start (ENumber _) = True"
| "free_start (EName n) = (n \<noteq> ''require'' \<and> n \<noteq> ''return'' \<and> value_type_parse n = None)"
| "free_start (EIndex n _) = (n \<noteq> ''require'' \<and> n \<noteq> ''return'' \<and> value_type_parse n = None)"
| "free_start (ECall n _) = (n \<noteq> ''require'' \<and> n \<noteq> ''return'' \<and> value_type_parse n = None)"

fun printable_statement :: "statement \<Rightarrow> bool" where
  "printable_statement (SLocal ty _ _) = printable_type ty"
| "printable_statement (SAssign l _) = free_start l"
| "printable_statement (SExpression v) = free_start v"
| "printable_statement _ = True"

definition printable_program :: "program \<Rightarrow> bool" where
  "printable_program p \<longleftrightarrow>
     (\<forall>d \<in> set (pg_states p). printable_type (sd_ty d) \<and> (case sd_key_ty d of None \<Rightarrow> True | Some k \<Rightarrow> printable_type k))
     \<and> (\<forall>f \<in> set (pg_functions p). (\<forall>q \<in> set (fn_params f). printable_type (pm_ty q))
          \<and> (\<forall>st \<in> set (fn_body f). printable_statement st))"

lemma value_type_unparse [simp]: "printable_type ty \<Longrightarrow> value_type_parse (unparse_type ty) = Some ty"
  by (auto simp: printable_type_def value_type_parse_def)

lemma unparse_type_not_keyword: "printable_type ty \<Longrightarrow> unparse_type ty \<noteq> ''require'' \<and> unparse_type ty \<noteq> ''return''"
  by (auto simp: printable_type_def)

lemma consume_symbol_Cons [simp]:
  "consume_symbol c (t # ts) = Ok (if tok_kind t = Symbol c then (True, ts) else (False, t # ts))"
  by (simp add: consume_symbol_def consume_kind_def current_def)

lemma consume_keyword_Cons [simp]:
  "consume_keyword s (t # ts) = Ok (if tok_kind t = Ident s then (True, ts) else (False, t # ts))"
  by (simp add: consume_keyword_def consume_kind_def current_def)

lemma helpers_Cons [simp]:
  "tok_kind t = Symbol c \<Longrightarrow> symbol c (t # ts) = Ok ((), ts)"
  "tok_kind t = Ident s \<Longrightarrow> keyword s (t # ts) = Ok ((), ts)"
  "tok_kind t = Ident n \<Longrightarrow> ident (t # ts) = Ok (n, ts)"
  by (simp_all add: symbol_def keyword_def ident_def current_def)

lemma parse_value_type_Cons [simp]:
  "tok_kind t = Ident (unparse_type ty) \<Longrightarrow> printable_type ty \<Longrightarrow> parse_value_type (t # ts) = Ok (ty, ts)"
  by (simp add: parse_value_type_def current_def)

lemma parse_expression_Cons:
  "tok_kind t = Number v \<Longrightarrow> parse_expression (t # ts) = Ok (ENumber v, ts)"
  "tok_kind t = Ident n \<Longrightarrow> parse_expression (t # ts) =
     bindR (consume_symbol CHR ''('' ts) (\<lambda>(call, ts1).
       if call then
         bindR (consume_symbol CHR '')'' ts1) (\<lambda>(empty, ts2).
           if empty then Ok (ECall n [], ts2)
           else bindR (parse_arguments ts2) (\<lambda>(args, ts3). Ok (ECall n args, ts3)))
       else bindR (consume_symbol CHR ''['' ts1) (\<lambda>(index, ts2).
         if index then
           bindR (parse_expression ts2) (\<lambda>(key, ts3).
           bindR (symbol CHR '']'' ts3) (\<lambda>(_, ts4). Ok (EIndex n key, ts4)))
         else Ok (EName n, ts2)))"
  "tok_kind t = Symbol c \<Longrightarrow> parse_expression (t # ts) = parse_fail ''expected expression'' (t # ts)"
  "tok_kind t = Eof \<Longrightarrow> parse_expression (t # ts) = parse_fail ''expected expression'' (t # ts)"
  by (simp_all add: parse_expression.simps [of "t # ts"] current_def)

definition ends_expression :: "token list \<Rightarrow> bool" where
  "ends_expression rest = (case rest of [] \<Rightarrow> False | t # _ \<Rightarrow> tok_kind t \<noteq> Symbol CHR ''('' \<and> tok_kind t \<noteq> Symbol CHR ''['')"

lemma ends_expression_Cons [simp]:
  "ends_expression (t # ts) \<longleftrightarrow> tok_kind t \<noteq> Symbol CHR ''('' \<and> tok_kind t \<noteq> Symbol CHR ''[''"
  by (simp add: ends_expression_def)

lemma unparse_expression_head: "\<exists>k ks. unparse_expression e = k # ks \<and> (\<forall>c. k \<noteq> Symbol c)"
  by (cases e) auto

lemma map_split: "map f pre = xs @ ys \<Longrightarrow> \<exists>p q. pre = p @ q \<and> map f p = xs \<and> map f q = ys"
  by (metis map_eq_append_conv)

lemma map_split_Cons: "map f pre = x # ys \<Longrightarrow> \<exists>t q. pre = t # q \<and> f t = x \<and> map f q = ys"
  by (auto simp: map_eq_Cons_conv)

lemma parse_printed:
  "map tok_kind pre = unparse_expression e \<Longrightarrow> ends_expression rest \<Longrightarrow> parse_expression (pre @ rest) = Ok (e, rest)"
  "es \<noteq> [] \<Longrightarrow> map tok_kind pre = unparse_arguments es @ [Symbol CHR '')''] \<Longrightarrow> parse_arguments (pre @ rest) = Ok (es, rest)"
proof (induction e and es arbitrary: pre rest and pre rest rule: unparse_expression_unparse_arguments.induct)
  case (1 n)
  then obtain t where "pre = [t]" "tok_kind t = Ident n" by (auto simp: map_eq_Cons_conv)
  then show ?case using "1.prems" by (cases rest) (auto simp: parse_expression_Cons ends_expression_def)
next
  case (2 n)
  then show ?case by (auto simp: map_eq_Cons_conv parse_expression_Cons)
next
  case (3 n key)
  then obtain t b mid c where pre: "pre = t # b # mid @ [c]" "tok_kind t = Ident n" "tok_kind b = Symbol CHR ''[''"
      "map tok_kind mid = unparse_expression key" "tok_kind c = Symbol CHR '']''"
    by (auto simp: map_eq_Cons_conv map_eq_append_conv)
  then show ?case using "3.IH" [of mid "c # rest"] by (simp add: parse_expression_Cons)
next
  case (4 n args)
  then obtain t b mid where pre: "pre = t # b # mid" "tok_kind t = Ident n" "tok_kind b = Symbol CHR ''(''"
      "map tok_kind mid = unparse_arguments args @ [Symbol CHR '')'']"
    by (auto simp: map_eq_Cons_conv)
  show ?case
  proof (cases args)
    case Nil
    then obtain c where "mid = [c]" "tok_kind c = Symbol CHR '')''" using pre(4) by (auto simp: map_eq_Cons_conv)
    then show ?thesis using pre Nil by (simp add: parse_expression_Cons)
  next
    case (Cons a as)
    have "\<exists>k ks. unparse_arguments args = k # ks \<and> (\<forall>c. k \<noteq> Symbol c)"
      using unparse_expression_head [of a] Cons by (cases as) auto
    then obtain u mid' where "mid = u # mid'" "tok_kind u \<noteq> Symbol CHR '')''" using pre(4) by (cases mid) auto
    then show ?thesis using "4.IH" [of mid rest] pre Cons by (simp add: parse_expression_Cons)
  qed
next
  case 5
  then show ?case by simp
next
  case (6 e)
  then obtain mid c where "pre = mid @ [c]" "map tok_kind mid = unparse_expression e" "tok_kind c = Symbol CHR '')''"
    by (auto simp: map_eq_append_conv map_eq_Cons_conv)
  then show ?case using "6.IH" [of mid "c # rest"] by (simp add: parse_arguments.simps [of "mid @ c # rest"])
next
  case (7 e f es)
  then have "map tok_kind pre = unparse_expression e @ Symbol CHR '','' # unparse_arguments (f # es) @ [Symbol CHR '')'']"
    by simp
  then obtain mid c more where "pre = mid @ c # more" "map tok_kind mid = unparse_expression e"
      "tok_kind c = Symbol CHR '',''" "map tok_kind more = unparse_arguments (f # es) @ [Symbol CHR '')'']"
    by (blast dest: map_split map_split_Cons)
  then show ?case
    using "7.IH"(1) [of mid "c # more @ rest"] "7.IH"(2) [of more rest]
    by (simp add: parse_arguments.simps [of "mid @ c # more @ rest"])
qed

lemma free_start_assignment:
  assumes "free_start e" and "map tok_kind pre = unparse_expression e"
  shows "parse_statement (pre @ rest) = parse_assignment (pre @ rest)"
proof -
  obtain t q where "pre = t # q" and t: "\<exists>n. tok_kind t = Number n \<or>
      (tok_kind t = Ident n \<and> n \<noteq> ''require'' \<and> n \<noteq> ''return'' \<and> value_type_parse n = None)"
    using assms by (cases e) (auto dest!: map_split_Cons)
  then show ?thesis by (auto simp: parse_statement_def parse_typed_def current_def)
qed

lemma parse_statement_printed:
  assumes "map tok_kind pre = unparse_statement st" and "printable_statement st"
  shows "parse_statement (pre @ rest) = Ok (st, rest)"
proof (cases st)
  case (SLocal ty n v)
  then obtain t u eq mid c where pre: "pre = t # u # eq # mid @ [c]" "tok_kind t = Ident (unparse_type ty)" "tok_kind u = Ident n"
      "tok_kind eq = Symbol CHR ''=''" "map tok_kind mid = unparse_expression v" "tok_kind c = Symbol CHR '';''"
    using assms(1) by (auto dest!: map_split_Cons map_split)
  show ?thesis
    using pre SLocal assms(2) unparse_type_not_keyword [of ty] parse_printed(1) [OF pre(5), of "c # rest"]
    by (simp add: parse_statement_def parse_typed_def parse_local_def current_def)
next
  case (SAssign l r)
  then obtain p1 eq p2 c where pre: "pre = p1 @ eq # p2 @ [c]" "map tok_kind p1 = unparse_expression l"
      "tok_kind eq = Symbol CHR ''=''" "map tok_kind p2 = unparse_expression r" "tok_kind c = Symbol CHR '';''"
    using assms(1) by (auto dest!: map_split_Cons map_split)
  show ?thesis
    using pre SAssign assms(2) free_start_assignment [OF _ pre(2), of "eq # p2 @ c # rest"]
      parse_printed(1) [OF pre(2), of "eq # p2 @ c # rest"] parse_printed(1) [OF pre(4), of "c # rest"]
    by (simp add: parse_assignment_def)
next
  case (SRequire v)
  then obtain t u mid c d where pre: "pre = t # u # mid @ [c, d]" "tok_kind t = Ident ''require''"
      "tok_kind u = Symbol CHR ''(''" "map tok_kind mid = unparse_expression v" "tok_kind c = Symbol CHR '')''"
      "tok_kind d = Symbol CHR '';''"
    using assms(1) by (auto dest!: map_split_Cons map_split)
  show ?thesis using pre SRequire parse_printed(1) [OF pre(4), of "c # d # rest"] by (simp add: parse_statement_def)
next
  case (SReturn v)
  then obtain t mid d where pre: "pre = t # mid @ [d]" "tok_kind t = Ident ''return''"
      "map tok_kind mid = unparse_expression v" "tok_kind d = Symbol CHR '';''"
    using assms(1) by (auto dest!: map_split_Cons map_split)
  show ?thesis using pre SReturn parse_printed(1) [OF pre(3), of "d # rest"] by (simp add: parse_statement_def)
next
  case (SExpression v)
  then obtain mid d where pre: "pre = mid @ [d]" "map tok_kind mid = unparse_expression v" "tok_kind d = Symbol CHR '';''"
    using assms(1) by (auto dest!: map_split_Cons map_split)
  show ?thesis
    using pre SExpression assms(2) free_start_assignment [OF _ pre(2), of "d # rest"] parse_printed(1) [OF pre(2), of "d # rest"]
    by (simp add: parse_assignment_def)
qed

lemma unparse_statement_head: "\<exists>k ks. unparse_statement st = k # ks \<and> (\<forall>c. k \<noteq> Symbol c)"
proof (cases st)
  case (SAssign l r)
  then show ?thesis using unparse_expression_head [of l] by auto
next
  case (SExpression v)
  then show ?thesis using unparse_expression_head [of v] by auto
qed auto

lemma parse_statements_printed:
  "map tok_kind pre = concat (map unparse_statement sts) @ [Symbol CHR ''}''] \<Longrightarrow> \<forall>st \<in> set sts. printable_statement st \<Longrightarrow>
     parse_statements (pre @ rest) = Ok (sts, rest)"
proof (induction sts arbitrary: pre)
  case Nil
  then obtain c where "pre = [c]" "tok_kind c = Symbol CHR ''}''" by (auto dest!: map_split_Cons)
  then show ?case by (simp add: parse_statements.simps [of "c # rest"])
next
  case (Cons st sts)
  have "map tok_kind pre = unparse_statement st @ concat (map unparse_statement sts) @ [Symbol CHR ''}'']"
    using Cons.prems(1) by simp
  then obtain p q where pre: "pre = p @ q" "map tok_kind p = unparse_statement st"
      "map tok_kind q = concat (map unparse_statement sts) @ [Symbol CHR ''}'']"
    by (blast dest: map_split)
  obtain t p' where p: "p = t # p'" "tok_kind t \<noteq> Symbol CHR ''}''"
    using pre(2) unparse_statement_head [of st] by (cases p) auto
  have st: "parse_statement (t # p' @ q @ rest) = Ok (st, q @ rest)"
    using parse_statement_printed [OF pre(2), of "q @ rest"] Cons.prems(2) p(1) by simp
  show ?case
    using Cons.IH [OF pre(3)] Cons.prems(2) pre(1) p st
    by (simp add: parse_statements.simps [of "t # p' @ q @ rest"])
qed

lemma parse_params_printed:
  "ps \<noteq> [] \<Longrightarrow> map tok_kind pre = unparse_params ps @ [Symbol CHR '')''] \<Longrightarrow> \<forall>p \<in> set ps. printable_type (pm_ty p) \<Longrightarrow>
     parse_params (pre @ rest) = Ok (ps, rest)"
proof (induction ps arbitrary: pre rule: unparse_params.induct)
  case (2 p)
  then obtain t u c where "pre = [t, u, c]" "tok_kind t = Ident (unparse_type (pm_ty p))" "tok_kind u = Ident (pm_name p)"
      "tok_kind c = Symbol CHR '')''"
    by (auto dest!: map_split_Cons)
  then show ?case using "2.prems" by (simp add: parse_params.simps [of "t # u # c # rest"])
next
  case (3 p q ps)
  then obtain t u c more where pre: "pre = t # u # c # more" "tok_kind t = Ident (unparse_type (pm_ty p))"
      "tok_kind u = Ident (pm_name p)" "tok_kind c = Symbol CHR '',''" "map tok_kind more = unparse_params (q # ps) @ [Symbol CHR '')'']"
    by (auto dest!: map_split_Cons)
  then show ?case
    using "3.IH" [OF _ pre(5)] "3.prems" by (simp add: parse_params.simps [of "t # u # c # more @ rest"])
qed simp

lemma parse_state_decl_printed:
  assumes "map tok_kind pre = unparse_state_decl d" and "printable_type (sd_ty d)"
    and "case sd_key_ty d of None \<Rightarrow> True | Some k \<Rightarrow> printable_type k"
  shows "\<exists>t q. pre = t # q \<and> tok_kind t = Ident ''private'' \<and> parse_state_decl (q @ rest) = Ok (d, rest)"
proof (cases "sd_key_ty d")
  case None
  then obtain t u n c where "pre = [t, u, n, c]" "tok_kind t = Ident ''private''" "tok_kind u = Ident (unparse_type (sd_ty d))"
      "tok_kind n = Ident (sd_name d)" "tok_kind c = Symbol CHR '';''"
    using assms(1) by (auto simp: unparse_state_decl_def dest!: map_split_Cons)
  then show ?thesis using assms None by (cases d) (auto simp: parse_state_decl_def)
next
  case (Some k)
  then obtain t u n a v b c where "pre = [t, u, n, a, v, b, c]" "tok_kind t = Ident ''private''"
      "tok_kind u = Ident (unparse_type (sd_ty d))" "tok_kind n = Ident (sd_name d)" "tok_kind a = Symbol CHR ''[''"
      "tok_kind v = Ident (unparse_type k)" "tok_kind b = Symbol CHR '']''" "tok_kind c = Symbol CHR '';''"
    using assms(1) by (auto simp: unparse_state_decl_def dest!: map_split_Cons)
  then show ?thesis using assms Some by (cases d) (auto simp: parse_state_decl_def)
qed

lemma parse_function_printed:
  assumes "map tok_kind pre = unparse_function f" and "\<forall>q \<in> set (fn_params f). printable_type (pm_ty q)"
    and "\<forall>st \<in> set (fn_body f). printable_statement st"
  shows "\<exists>t q. pre = t # q \<and> tok_kind t = Ident ''function'' \<and> parse_function (q @ rest) = Ok (f, rest)"
proof -
  have "map tok_kind pre = Ident ''function'' # Ident (fn_name f) # Symbol CHR ''('' # (unparse_params (fn_params f) @ [Symbol CHR '')''])
      @ Ident ''public'' # Symbol CHR ''{'' # concat (map unparse_statement (fn_body f)) @ [Symbol CHR ''}'']"
    using assms(1) by (simp add: unparse_function_def)
  then obtain t n a ps p b sts where pre: "pre = t # n # a # ps @ p # b # sts" "tok_kind t = Ident ''function''"
      "tok_kind n = Ident (fn_name f)" "tok_kind a = Symbol CHR ''(''"
      "map tok_kind ps = unparse_params (fn_params f) @ [Symbol CHR '')'']" "tok_kind p = Ident ''public''"
      "tok_kind b = Symbol CHR ''{''" "map tok_kind sts = concat (map unparse_statement (fn_body f)) @ [Symbol CHR ''}'']"
    by (blast dest: map_split_Cons map_split)
  have body: "parse_statements (sts @ rest) = Ok (fn_body f, rest)"
    by (rule parse_statements_printed [OF pre(8) assms(3)])
  have tail: "parse_function (n # a # ps @ p # b # sts @ rest) = Ok (f, rest)"
  proof (cases "fn_params f")
    case Nil
    then obtain c where "ps = [c]" "tok_kind c = Symbol CHR '')''" using pre(5) by (auto dest!: map_split_Cons)
    then show ?thesis using pre body Nil by (cases f) (simp add: parse_function_def)
  next
    case (Cons q qs)
    then obtain c ps' where ps: "ps = c # ps'" "tok_kind c = Ident (unparse_type (pm_ty q))"
      using pre(5) by (cases qs) (auto dest!: map_split_Cons)
    have "parse_params (ps @ p # b # sts @ rest) = Ok (fn_params f, p # b # sts @ rest)"
      using parse_params_printed [OF _ pre(5) assms(2)] Cons by simp
    then show ?thesis using pre body ps by (cases f) (simp add: parse_function_def)
  qed
  then show ?thesis using pre by simp
qed

lemma parse_items_printed:
  "map tok_kind pre = concat (map unparse_state_decl ds) @ concat (map unparse_function fs) @ [Symbol CHR ''}''] \<Longrightarrow>
   \<forall>d \<in> set ds. printable_type (sd_ty d) \<and> (case sd_key_ty d of None \<Rightarrow> True | Some k \<Rightarrow> printable_type k) \<Longrightarrow>
   \<forall>f \<in> set fs. (\<forall>q \<in> set (fn_params f). printable_type (pm_ty q)) \<and> (\<forall>st \<in> set (fn_body f). printable_statement st) \<Longrightarrow>
   parse_items (pre @ rest) = Ok ((ds, fs), rest)"
proof (induction ds arbitrary: pre)
  case Nil
  then show ?case
  proof (induction fs arbitrary: pre)
    case Nil
    then obtain c where "pre = [c]" "tok_kind c = Symbol CHR ''}''" by (auto dest!: map_split_Cons)
    then show ?case by (simp add: parse_items.simps [of "c # rest"])
  next
    case (Cons f fs)
    have "map tok_kind pre = unparse_function f @ concat (map unparse_function fs) @ [Symbol CHR ''}'']"
      using Cons.prems(1) by simp
    then obtain p q where pre: "pre = p @ q" "map tok_kind p = unparse_function f"
        "map tok_kind q = concat (map unparse_function fs) @ [Symbol CHR ''}'']"
      by (blast dest: map_split)
    obtain t p' where p: "p = t # p'" "tok_kind t = Ident ''function''" "parse_function (p' @ q @ rest) = Ok (f, q @ rest)"
      using parse_function_printed [OF pre(2), of "q @ rest"] Cons.prems(3) by auto
    have "parse_items (q @ rest) = Ok (([], fs), rest)"
      using Cons.IH [of q] pre(3) Cons.prems(3) by simp
    then show ?case using pre(1) p by (simp add: parse_items.simps [of "t # p' @ q @ rest"])
  qed
next
  case (Cons d ds)
  have "map tok_kind pre = unparse_state_decl d @ concat (map unparse_state_decl ds)
      @ concat (map unparse_function fs) @ [Symbol CHR ''}'']"
    using Cons.prems(1) by simp
  then obtain p q where pre: "pre = p @ q" "map tok_kind p = unparse_state_decl d"
      "map tok_kind q = concat (map unparse_state_decl ds) @ concat (map unparse_function fs) @ [Symbol CHR ''}'']"
    by (blast dest: map_split)
  obtain t p' where p: "p = t # p'" "tok_kind t = Ident ''private''" "parse_state_decl (p' @ q @ rest) = Ok (d, q @ rest)"
    using parse_state_decl_printed [OF pre(2), of "q @ rest"] Cons.prems(2) by auto
  have "parse_items (q @ rest) = Ok ((ds, fs), rest)"
    using Cons.IH [OF pre(3)] Cons.prems(2,3) by simp
  then show ?case using pre(1) p by (simp add: parse_items.simps [of "t # p' @ q @ rest"])
qed

lemma parse_program_printed:
  assumes "map tok_kind ts = unparse_program p @ [Eof]" and "printable_program p"
  shows "parse_program ts = Ok p"
proof -
  have "map tok_kind ts = Ident ''privacy'' # Ident ''contract'' # Ident (pg_name p) # Symbol CHR ''{'' #
      (concat (map unparse_state_decl (pg_states p)) @ concat (map unparse_function (pg_functions p)) @ [Symbol CHR ''}'']) @ [Eof]"
    using assms(1) by (simp add: unparse_program_def)
  then obtain a b n c items e where ts: "ts = a # b # n # c # items @ [e]" "tok_kind a = Ident ''privacy''"
      "tok_kind b = Ident ''contract''" "tok_kind n = Ident (pg_name p)" "tok_kind c = Symbol CHR ''{''"
      "map tok_kind items = concat (map unparse_state_decl (pg_states p)) @ concat (map unparse_function (pg_functions p)) @ [Symbol CHR ''}'']"
      "tok_kind e = Eof"
    by (auto dest!: map_split_Cons map_split)
  have "parse_items (items @ [e]) = Ok ((pg_states p, pg_functions p), [e])"
    by (rule parse_items_printed [OF ts(6)]) (use assms(2) in \<open>auto simp: printable_program_def\<close>)
  then show ?thesis using ts by (cases p) (simp add: parse_program_def current_def)
qed

text \<open>The source text of a program: its tokens with a blank after each.\<close>

definition source_of :: "program \<Rightarrow> string" where
  "source_of p = spell_all (unparse_program p)"

lemma parse_source_of:
  assumes "printable_program p" and "list_all good_kind (unparse_program p)"
  shows "parse (source_of p) = Ok p"
proof -
  obtain ts where "lex (source_of p) = Ok ts" "map tok_kind ts = unparse_program p @ [Eof]"
    using lex_spell_all [OF assms(2), of 0] by (auto simp: lex_def source_of_def)
  then show ?thesis using parse_program_printed assms(1) by (simp add: parse_def)
qed

text \<open>C34. Printing a program and parsing its source gives the program back, when its names and numbers are
  lexically valid, its types have a spelling, and no assignment or expression statement starts with a
  reserved word.
\<close>

theorem parse_source_roundtrip:
  assumes "printable_program p" and "list_all good_kind (unparse_program p)"
  shows "parse (source_of p) = Ok p"
  using assms by (rule parse_source_of)

text \<open>A small contract: \<open>private FheUint b[address]; function f(address to) public { b[to] = FHE.add(b[to], FHE.encrypt(1)); }\<close>.\<close>

definition small_program :: program where
  "small_program =
     \<lparr>pg_name = ''C'', pg_states = [\<lparr>sd_name = ''b'', sd_ty = TFheUint, sd_key_ty = Some TAddress\<rparr>],
      pg_functions = [\<lparr>fn_name = ''f'', fn_params = [\<lparr>pm_name = ''to'', pm_ty = TAddress\<rparr>],
        fn_body = [SAssign (EIndex ''b'' (EName ''to'')) (ECall ''FHE.add'' [EIndex ''b'' (EName ''to''), ECall ''FHE.encrypt'' [ENumber ''1'']])]\<rparr>]\<rparr>"

lemma small_program_printable: "printable_program small_program" "list_all good_kind (unparse_program small_program)"
proof -
  show "printable_program small_program"
    by (simp add: printable_program_def small_program_def printable_type_def value_type_parse_def)
  show "list_all good_kind (unparse_program small_program)"
    by (simp add: small_program_def unparse_program_def unparse_state_decl_def unparse_function_def
        is_ident_start_def is_ident_char_def is_alpha_def is_digit_def symbol_chars_def Let_def)
qed

lemma parse_source_roundtrip_witness: "parse (source_of small_program) = Ok small_program"
  by (rule parse_source_roundtrip [OF small_program_printable])

section \<open>The cursor stays inside the token list\<close>

text \<open>A parser step that does not panic and leaves a list that still ends with \<open>Eof\<close>.\<close>

definition safe :: "'a parsed \<Rightarrow> bool" where
  "safe r \<longleftrightarrow> r \<noteq> Panic \<and> (\<forall>x ts. r = Ok (x, ts) \<longrightarrow> ends_eof ts)"

lemma safe_simps [simp]: "safe (Ok (x, ts)) \<longleftrightarrow> ends_eof ts" "safe (Err e)"
  by (auto simp: safe_def)

lemma safe_bind:
  assumes "safe m" and "\<And>x ts. m = Ok (x, ts) \<Longrightarrow> ends_eof ts \<Longrightarrow> safe (f (x, ts))"
  shows "safe (bindR m f)"
proof (cases m)
  case (Ok p)
  then show ?thesis using assms by (cases p) (auto simp: safe_def)
next
  case (Err e)
  then show ?thesis by simp
next
  case Panic
  then show ?thesis using assms(1) by (simp add: safe_def)
qed

lemma safe_fail: "ends_eof ts \<Longrightarrow> safe (parse_fail m ts)"
  by (cases ts) (auto simp: parse_fail_def current_def)

lemma safe_consume: "ends_eof ts \<Longrightarrow> safe (consume_symbol c ts)" "ends_eof ts \<Longrightarrow> safe (consume_keyword s ts)"
  by (cases ts; auto simp: ends_eof_Cons split: if_splits)+

lemma safe_expect: "ends_eof ts \<Longrightarrow> safe (symbol c ts)" "ends_eof ts \<Longrightarrow> safe (keyword s ts)"
  by (auto simp: symbol_def keyword_def intro!: safe_bind safe_consume safe_fail)

lemma safe_ident: "ends_eof ts \<Longrightarrow> safe (ident ts)"
  by (cases ts) (auto simp: ident_def current_def ends_eof_Cons parse_fail_def split: token_kind.splits if_splits)

lemma safe_value_type: "ends_eof ts \<Longrightarrow> safe (parse_value_type ts)"
  by (cases ts) (auto simp: parse_value_type_def current_def intro!: safe_bind safe_ident split: option.splits)

lemmas safe_intros = safe_bind safe_fail safe_consume safe_expect safe_ident safe_value_type

lemma safe_expression: "ends_eof ts \<Longrightarrow> safe (parse_expression ts)" "ends_eof ts \<Longrightarrow> safe (parse_arguments ts)"
proof (induction ts and ts rule: parse_expression_parse_arguments.induct)
  case (1 ts)
  obtain t rest where ts: "ts = t # rest" using "1.prems" by (cases ts) auto
  show ?case
  proof (cases "tok_kind t")
    case (Ident n)
    have rest: "ends_eof rest" using "1.prems" ts Ident by (simp add: ends_eof_Cons)
    note IH = "1.IH" [of t n, unfolded ts]
    show ?thesis
      unfolding ts parse_expression_Cons(2) [OF Ident]
      by (intro safe_bind safe_consume rest)
        (auto intro!: safe_intros IH simp: current_def Ident)
  qed (use "1.prems" ts in \<open>simp_all add: parse_expression_Cons current_def parse_fail_def ends_eof_Cons\<close>)
next
  case (2 ts)
  show ?case
    unfolding parse_arguments.simps [of ts] by (auto intro!: safe_intros "2.IH" "2.prems")
qed

lemmas safe_intros' = safe_intros safe_expression(1)

lemma safe_assignment: "ends_eof ts \<Longrightarrow> safe (parse_assignment ts)"
  by (auto simp: parse_assignment_def intro!: safe_intros')

lemma safe_statement: "ends_eof ts \<Longrightarrow> safe (parse_statement ts)"
proof -
  have l: "ends_eof ts \<Longrightarrow> safe (parse_local ty ts)" for ty ts
    by (auto simp: parse_local_def intro!: safe_intros')
  have "ends_eof ts \<Longrightarrow> safe (parse_typed ts)" for ts
    by (cases ts) (auto simp: parse_typed_def current_def ends_eof_Cons
        intro!: safe_assignment l split: token_kind.splits option.splits if_splits)
  then show "ends_eof ts \<Longrightarrow> safe (parse_statement ts)"
    by (auto simp: parse_statement_def intro!: safe_intros')
qed

lemma safe_statements: "ends_eof ts \<Longrightarrow> safe (parse_statements ts)"
proof (induction ts rule: parse_statements.induct)
  case (1 ts)
  show ?case
    unfolding parse_statements.simps [of ts] by (auto intro!: safe_intros safe_statement "1.IH" "1.prems")
qed

lemma safe_params: "ends_eof ts \<Longrightarrow> safe (parse_params ts)"
proof (induction ts rule: parse_params.induct)
  case (1 ts)
  show ?case unfolding parse_params.simps [of ts] by (auto intro!: safe_intros "1.IH" "1.prems")
qed

lemma safe_declarations: "ends_eof ts \<Longrightarrow> safe (parse_state_decl ts)" "ends_eof ts \<Longrightarrow> safe (parse_function ts)"
  by (auto simp: parse_state_decl_def parse_function_def intro!: safe_intros safe_params safe_statements)

lemma safe_items: "ends_eof ts \<Longrightarrow> safe (parse_items ts)"
proof (induction ts rule: measure_induct_rule [of length])
  case (less ts)
  show ?case
    unfolding parse_items.simps [of ts]
    by (auto intro!: safe_intros safe_declarations less.IH less.prems
        dest!: lengths parse_state_decl_length parse_function_length)
qed

lemma parse_program_not_Panic: "ends_eof ts \<Longrightarrow> parse_program ts \<noteq> Panic"
proof -
  assume ts: "ends_eof ts"
  define np :: "(compile_error, program) res \<Rightarrow> bool" where "np r = (r \<noteq> Panic)" for r
  have step: "np (bindR m f)" if "safe m" "\<And>x ts. ends_eof ts \<Longrightarrow> np (f (x, ts))"
    for m :: "'a parsed" and f :: "'a \<times> token list \<Rightarrow> (compile_error, program) res"
    using that by (auto simp: bindR_eq_Panic safe_def np_def)
  have last: "np (bindR (current ts) (\<lambda>t. if tok_kind t \<noteq> Eof then parse_fail m ts else Ok x))"
    if "ends_eof ts" for ts m x
    using that by (cases ts) (auto simp: current_def parse_fail_def np_def)
  have "np (parse_program ts)"
    unfolding parse_program_def by (auto intro!: step safe_intros safe_items ts last)
  then show ?thesis by (simp add: np_def)
qed

text \<open>
  Lexing and parsing any byte string ends with a program or a compile error: the parser never reads
  a token past the final \<open>Eof\<close>.
\<close>

theorem parse_never_panics: "parse source \<noteq> Panic"
  using lex_loop_not_Panic [of 0 source] parse_program_not_Panic lex_loop_ends_eof [of 0 source]
  by (auto simp: parse_def lex_def bindR_eq_Panic)

end
