(* ===== verification/Compiler_Lower.thy ===== *)
theory Compiler_Lower
  imports Compiler_Parser
begin

text \<open>
  \<open>compiler/src/lib.rs\<close>, type checking and lowering: a function's statements become a list of operator
  nodes that refer to inputs, constants and earlier nodes, plus the state writes and the opened output.

  Keccak (the \<open>tiny_keccak\<close> crate) is the parameter \<open>keccak\<close>; it only enters the selectors.  The main
  lemma is that every emitted manifest is well typed by the independent rules of \<open>manifest_typed\<close>.
\<close>

section \<open>Manifests\<close>

record operator_node =
  op_id :: string
  op_opcode :: string
  op_domain :: representation
  op_inputs :: "string list"
  op_output_type :: value_type
  op_representation :: representation
  op_state :: "string option"

record state_write =
  sw_state :: string
  sw_key :: "string option"
  sw_value :: string

record abi_input =
  ai_name :: string
  ai_source_type :: value_type
  ai_abi_type :: string
  ai_representation :: representation

record function_manifest =
  fm_name :: string
  fm_signature :: string
  fm_selector :: string
  fm_inputs :: "abi_input list"
  fm_operators :: "operator_node list"
  fm_state_writes :: "state_write list"
  fm_opening_output :: "string option"

record state_manifest =
  sm_name :: string
  sm_value_type :: value_type
  sm_key_type :: "value_type option"
  sm_representation :: representation

record contract_manifest =
  cm_language_version :: nat
  cm_contract :: string
  cm_state :: "state_manifest list"
  cm_functions :: "function_manifest list"

record typed_ref =
  ref_ty :: value_type
  ref_reference :: string

record lowerer =
  lw_env :: "string \<rightharpoonup> typed_ref"
  lw_operators :: "operator_node list"
  lw_writes :: "state_write list"
  lw_opening_output :: "string option"

section \<open>Strings\<close>

text \<open>Decimal digits of a number, as \<open>format!\<close> prints it.\<close>

fun show_nat :: "nat \<Rightarrow> string" where
  "show_nat n = (if n < 10 then [char_of (48 + n)] else show_nat (n div 10) @ [char_of (48 + n mod 10)])"

declare show_nat.simps [simp del]

text \<open>The derived \<open>Debug\<close> names of the value types.\<close>

fun show_type :: "value_type \<Rightarrow> string" where
  "show_type TAddress = ''Address''"
| "show_type TUint = ''Uint''"
| "show_type TFheUint = ''FheUint''"
| "show_type TFheBool = ''FheBool''"
| "show_type TSint = ''Sint''"
| "show_type TSecretBool = ''SecretBool''"
| "show_type TOpened = ''Opened''"
| "show_type TVoid = ''Void''"

definition hex_digit :: "nat \<Rightarrow> char" where
  "hex_digit n = ''0123456789abcdef'' ! n"

definition hex :: "bytes \<Rightarrow> string" where
  "hex bs = concat (map (\<lambda>b. [hex_digit (unat b div 16), hex_digit (unat b mod 16)]) bs)"

definition selector :: "(bytes \<Rightarrow> bytes) \<Rightarrow> string \<Rightarrow> string" where
  "selector keccak signature = ''0x'' @ hex (take 4 (keccak (ascii signature)))"

definition keccak_hex :: "(bytes \<Rightarrow> bytes) \<Rightarrow> bytes \<Rightarrow> string" where
  "keccak_hex keccak bs = ''0x'' @ hex (keccak bs)"

fun join_comma :: "string list \<Rightarrow> string" where
  "join_comma [] = []"
| "join_comma [s] = s"
| "join_comma (s # t # ss) = s @ '','' @ join_comma (t # ss)"

section \<open>The lowerer\<close>

definition lower_error :: "func_decl \<Rightarrow> string \<Rightarrow> (compile_error, 'a) res" where
  "lower_error f message = Err \<lparr>ce_message = ''function `'' @ fn_name f @ ''`: '' @ message, ce_offset = 0\<rparr>"

definition lowerer_new :: "func_decl \<Rightarrow> lowerer" where
  "lowerer_new f =
     \<lparr>lw_env = fold (\<lambda>p env. env(pm_name p \<mapsto> \<lparr>ref_ty = pm_ty p, ref_reference = ''input:'' @ pm_name p\<rparr>)) (fn_params f)
        [''msg.sender'' \<mapsto> \<lparr>ref_ty = TAddress, ref_reference = ''context:msg.sender''\<rparr>],
      lw_operators = [], lw_writes = [], lw_opening_output = None\<rparr>"

definition find_state :: "program \<Rightarrow> func_decl \<Rightarrow> string \<Rightarrow> (compile_error, state_decl) res" where
  "find_state prog f name =
     (case List.find (\<lambda>d. sd_name d = name) (pg_states prog) of
        Some d \<Rightarrow> Ok d
      | None \<Rightarrow> lower_error f (''unknown private state `'' @ name @ ''`''))"

definition expect_type :: "func_decl \<Rightarrow> value_type \<Rightarrow> value_type \<Rightarrow> string \<Rightarrow> (compile_error, unit) res" where
  "expect_type f expected actual ctxt =
     (if expected = actual then Ok ()
      else lower_error f (ctxt @ '' expects '' @ show_type expected @ '', got '' @ show_type actual))"

definition push_node ::
  "string \<Rightarrow> representation \<Rightarrow> string list \<Rightarrow> value_type \<Rightarrow> string option \<Rightarrow> lowerer \<Rightarrow> string \<times> lowerer"
where
  "push_node opcode domn inputs output_type state lw =
     (let id = ''op'' @ show_nat (length (lw_operators lw)) in
      (id, lw\<lparr>lw_operators := lw_operators lw @
         [\<lparr>op_id = id, op_opcode = opcode, op_domain = domn, op_inputs = inputs, op_output_type = output_type,
           op_representation = representation_of output_type, op_state = state\<rparr>]\<rparr>))"

definition operation ::
  "func_decl \<Rightarrow> string \<Rightarrow> typed_ref list \<Rightarrow> (compile_error, value_type list \<times> value_type \<times> string \<times> representation) res"
where
  "operation f name args =
     (if name = ''FHE.encrypt'' then Ok ([TUint], TFheUint, ''fhe.encrypt'', RFhe)
      else if name = ''FHE.add'' then Ok ([TFheUint, TFheUint], TFheUint, ''fhe.add'', RFhe)
      else if name = ''FHE.sub'' then Ok ([TFheUint, TFheUint], TFheUint, ''fhe.sub'', RFhe)
      else if name = ''FHE.ge'' then Ok ([TFheUint, TFheUint], TFheBool, ''fhe.ge'', RFhe)
      else if name = ''MPC.add'' then Ok ([TSint, TSint], TSint, ''mpc.add'', RSecretSharing)
      else if name = ''MPC.sub'' then Ok ([TSint, TSint], TSint, ''mpc.sub'', RSecretSharing)
      else if name = ''MPC.ge'' then Ok ([TSint, TSint], TSecretBool, ''mpc.ge'', RSecretSharing)
      else if name = ''H2S'' then
        (case map ref_ty args of
           TFheUint # _ \<Rightarrow> Ok ([TFheUint], TSint, ''convert.h2s'', RSecretSharing)
         | TFheBool # _ \<Rightarrow> Ok ([TFheBool], TSecretBool, ''convert.h2s'', RSecretSharing)
         | _ \<Rightarrow> lower_error f ''H2S expects FheUint or FheBool'')
      else if name = ''S2H'' then Ok ([TSint], TFheUint, ''convert.s2h'', RFhe)
      else if name = ''Pick'' then Ok ([TSint], TOpened, ''opening.pick'', RPublic)
      else if name = ''receiveEncryptedToken'' then Ok ([TFheUint], TVoid, ''host.receive_encrypted_token'', RFhe)
      else if name = ''sendEncryptedToken'' then Ok ([TAddress, TFheUint], TVoid, ''host.send_encrypted_token'', RFhe)
      else lower_error f (''unknown operation `'' @ name @ ''`''))"

definition check_arguments ::
  "func_decl \<Rightarrow> string \<Rightarrow> typed_ref list \<Rightarrow> value_type list \<Rightarrow> (compile_error, unit) res"
where
  "check_arguments f name args expected =
     (if length args \<noteq> length expected then
        lower_error f (''operation `'' @ name @ ''` expects '' @ show_nat (length expected) @ '' arguments, got '' @ show_nat (length args))
      else foldR (\<lambda>(index, actual, wanted) _.
        if ref_ty actual \<noteq> wanted then
          lower_error f (''argument '' @ show_nat (index + 1) @ '' of `'' @ name @ ''` expects '' @ show_type wanted @ '', got ''
            @ show_type (ref_ty actual) @ ''; use H2S/S2H for representation changes'')
        else Ok ()) (List.enumerate 0 (zip args expected)) ())"

type_synonym 'a lowered = "(compile_error, 'a \<times> lowerer) res"

fun lower_expression :: "program \<Rightarrow> func_decl \<Rightarrow> expression \<Rightarrow> lowerer \<Rightarrow> typed_ref lowered"
  and lower_arguments :: "program \<Rightarrow> func_decl \<Rightarrow> expression list \<Rightarrow> lowerer \<Rightarrow> typed_ref list lowered"
where
  "lower_expression prog f (EName name) lw =
     (case lw_env lw name of Some r \<Rightarrow> Ok (r, lw) | None \<Rightarrow> lower_error f (''unknown value `'' @ name @ ''`''))"
| "lower_expression prog f (ENumber v) lw = Ok (\<lparr>ref_ty = TUint, ref_reference = ''const:'' @ v\<rparr>, lw)"
| "lower_expression prog f (EIndex name key_expression) lw =
     bindR (find_state prog f name) (\<lambda>state.
     bindR (lower_expression prog f key_expression lw) (\<lambda>(key, lw1).
     bindR (case sd_key_ty state of Some k \<Rightarrow> Ok k | None \<Rightarrow> lower_error f ''scalar state cannot be indexed'') (\<lambda>expected_key.
     bindR (expect_type f expected_key (ref_ty key) ''state key'') (\<lambda>_.
       let (id, lw2) = push_node ''load_state'' (representation_of (sd_ty state)) [ref_reference key] (sd_ty state) (Some name) lw1
       in Ok (\<lparr>ref_ty = sd_ty state, ref_reference = id\<rparr>, lw2)))))"
| "lower_expression prog f (ECall name arguments) lw =
     bindR (lower_arguments prog f arguments lw) (\<lambda>(args, lw1).
     bindR (operation f name args) (\<lambda>(expected, output, opcode, domn).
     bindR (check_arguments f name args expected) (\<lambda>_.
       let (id, lw2) = push_node opcode domn (map ref_reference args) output None lw1
       in Ok (\<lparr>ref_ty = output, ref_reference = id\<rparr>, lw2))))"
| "lower_arguments prog f [] lw = Ok ([], lw)"
| "lower_arguments prog f (e # es) lw =
     bindR (lower_expression prog f e lw) (\<lambda>(r, lw1).
     bindR (lower_arguments prog f es lw1) (\<lambda>(rs, lw2). Ok (r # rs, lw2)))"

definition add_write :: "state_write \<Rightarrow> lowerer \<Rightarrow> lowerer" where
  "add_write w lw = lw\<lparr>lw_writes := lw_writes lw @ [w]\<rparr>"

definition lower_assignment :: "program \<Rightarrow> func_decl \<Rightarrow> expression \<Rightarrow> typed_ref \<Rightarrow> lowerer \<Rightarrow> unit lowered" where
  "lower_assignment prog f target v lw =
     (case target of
        EIndex state_name key_expression \<Rightarrow>
          bindR (find_state prog f state_name) (\<lambda>state.
          bindR (lower_expression prog f key_expression lw) (\<lambda>(key, lw1).
          bindR (case sd_key_ty state of Some k \<Rightarrow> Ok k | None \<Rightarrow> lower_error f ''scalar state cannot be indexed'') (\<lambda>expected_key.
          bindR (expect_type f expected_key (ref_ty key) ''state key'') (\<lambda>_.
          bindR (expect_type f (sd_ty state) (ref_ty v) ''state assignment'') (\<lambda>_.
            Ok ((), add_write \<lparr>sw_state = state_name, sw_key = Some (ref_reference key), sw_value = ref_reference v\<rparr> lw1))))))
      | EName state_name \<Rightarrow>
          bindR (find_state prog f state_name) (\<lambda>state.
            if sd_key_ty state \<noteq> None then lower_error f ''mapped state requires an index''
            else bindR (expect_type f (sd_ty state) (ref_ty v) ''state assignment'') (\<lambda>_.
              Ok ((), add_write \<lparr>sw_state = state_name, sw_key = None, sw_value = ref_reference v\<rparr> lw)))
      | _ \<Rightarrow> lower_error f ''assignment target must be private state'')"

fun lower_statement :: "program \<Rightarrow> func_decl \<Rightarrow> statement \<Rightarrow> lowerer \<Rightarrow> (compile_error, lowerer) res" where
  "lower_statement prog f (SLocal expected name e) lw =
     bindR (lower_expression prog f e lw) (\<lambda>(v, lw1).
     bindR (expect_type f expected (ref_ty v) ''local declaration'') (\<lambda>_.
       Ok (lw1\<lparr>lw_env := (lw_env lw1)(name \<mapsto> v)\<rparr>)))"
| "lower_statement prog f (SAssign target e) lw =
     bindR (lower_expression prog f e lw) (\<lambda>(v, lw1).
     bindR (lower_assignment prog f target v lw1) (\<lambda>(_, lw2). Ok lw2))"
| "lower_statement prog f (SRequire e) lw =
     bindR (lower_expression prog f e lw) (\<lambda>(cond, lw1).
     bindR (expect_type f TSecretBool (ref_ty cond) ''require'') (\<lambda>_.
       Ok (snd (push_node ''require_secret'' RSecretSharing [ref_reference cond] TVoid None lw1))))"
| "lower_statement prog f (SReturn e) lw =
     bindR (lower_expression prog f e lw) (\<lambda>(v, lw1).
       if ref_ty v \<noteq> TOpened then lower_error f ''only Pick-opened secret values may be returned''
       else Ok (lw1\<lparr>lw_opening_output := Some (ref_reference v)\<rparr>))"
| "lower_statement prog f (SExpression e) lw =
     bindR (lower_expression prog f e lw) (\<lambda>(_, lw1). Ok lw1)"

definition abi_input_of :: "param \<Rightarrow> abi_input" where
  "abi_input_of p = \<lparr>ai_name = pm_name p, ai_source_type = pm_ty p, ai_abi_type = abi_type (pm_ty p),
     ai_representation = representation_of (pm_ty p)\<rparr>"

definition lower_function :: "(bytes \<Rightarrow> bytes) \<Rightarrow> program \<Rightarrow> func_decl \<Rightarrow> (compile_error, function_manifest) res" where
  "lower_function keccak prog f =
     bindR (foldR (lower_statement prog f) (fn_body f) (lowerer_new f)) (\<lambda>lw.
       let inputs = map abi_input_of (fn_params f);
           signature = fn_name f @ ''('' @ join_comma (map ai_abi_type inputs) @ '')''
       in Ok \<lparr>fm_name = fn_name f, fm_signature = signature, fm_selector = selector keccak signature, fm_inputs = inputs,
             fm_operators = lw_operators lw, fm_state_writes = lw_writes lw, fm_opening_output = lw_opening_output lw\<rparr>)"

definition declare_state ::
  "state_decl \<Rightarrow> string list \<times> state_manifest list \<Rightarrow> (compile_error, string list \<times> state_manifest list) res"
where
  "declare_state d = (\<lambda>(names, acc).
     if sd_ty d \<noteq> TFheUint \<and> sd_ty d \<noteq> TSint then
       Err \<lparr>ce_message = ''private state `'' @ sd_name d @ ''` must be FheUint or Sint'', ce_offset = 0\<rparr>
     else if sd_key_ty d \<noteq> None \<and> sd_key_ty d \<noteq> Some TAddress then
       Err \<lparr>ce_message = ''private mapping `'' @ sd_name d @ ''` currently requires address keys'', ce_offset = 0\<rparr>
     else if sd_name d \<in> set names then
       Err \<lparr>ce_message = ''duplicate state `'' @ sd_name d @ ''`'', ce_offset = 0\<rparr>
     else Ok (sd_name d # names, acc @ [\<lparr>sm_name = sd_name d, sm_value_type = sd_ty d, sm_key_type = sd_key_ty d,
            sm_representation = representation_of (sd_ty d)\<rparr>]))"

definition compile_program :: "(bytes \<Rightarrow> bytes) \<Rightarrow> program \<Rightarrow> (compile_error, contract_manifest) res" where
  "compile_program keccak prog =
     bindR (foldR declare_state (pg_states prog) ([], [])) (\<lambda>(_, state).
     bindR (mapR (lower_function keccak prog) (pg_functions prog)) (\<lambda>functions.
       Ok \<lparr>cm_language_version = 1, cm_contract = pg_name prog, cm_state = state, cm_functions = functions\<rparr>))"

definition compile :: "(bytes \<Rightarrow> bytes) \<Rightarrow> string \<Rightarrow> (compile_error, contract_manifest) res" where
  "compile keccak source = bindR (parse source) (compile_program keccak)"

section \<open>What a well-typed manifest is\<close>

text \<open>A reference in a list of nodes: a constant, the sender, an input of the function, or a node of the list.\<close>

definition ref_typed :: "abi_input list \<Rightarrow> operator_node list \<Rightarrow> string \<Rightarrow> value_type \<Rightarrow> bool" where
  "ref_typed inputs ops r ty \<longleftrightarrow>
     (\<exists>v. r = ''const:'' @ v \<and> ty = TUint) \<or> (r = ''context:msg.sender'' \<and> ty = TAddress)
     \<or> (\<exists>p \<in> set inputs. r = ''input:'' @ ai_name p \<and> ty = ai_source_type p)
     \<or> (\<exists>node \<in> set ops. r = op_id node \<and> ty = op_output_type node)"

text \<open>The operators of the language: opcode, argument types, result type and domain.\<close>

definition operator_rules :: "(string \<times> value_type list \<times> value_type \<times> representation) list" where
  "operator_rules =
     [(''fhe.encrypt'', [TUint], TFheUint, RFhe), (''fhe.add'', [TFheUint, TFheUint], TFheUint, RFhe),
      (''fhe.sub'', [TFheUint, TFheUint], TFheUint, RFhe), (''fhe.ge'', [TFheUint, TFheUint], TFheBool, RFhe),
      (''mpc.add'', [TSint, TSint], TSint, RSecretSharing), (''mpc.sub'', [TSint, TSint], TSint, RSecretSharing),
      (''mpc.ge'', [TSint, TSint], TSecretBool, RSecretSharing),
      (''convert.h2s'', [TFheUint], TSint, RSecretSharing), (''convert.h2s'', [TFheBool], TSecretBool, RSecretSharing),
      (''convert.s2h'', [TSint], TFheUint, RFhe), (''opening.pick'', [TSint], TOpened, RPublic),
      (''host.receive_encrypted_token'', [TFheUint], TVoid, RFhe),
      (''host.send_encrypted_token'', [TAddress, TFheUint], TVoid, RFhe),
      (''require_secret'', [TSecretBool], TVoid, RSecretSharing)]"

definition node_rule :: "state_manifest list \<Rightarrow> operator_node \<Rightarrow> value_type list \<Rightarrow> bool" where
  "node_rule states node tys \<longleftrightarrow> op_representation node = representation_of (op_output_type node) \<and>
     (case op_state node of
        None \<Rightarrow> (op_opcode node, tys, op_output_type node, op_domain node) \<in> set operator_rules
      | Some s \<Rightarrow> op_opcode node = ''load_state'' \<and> op_domain node = op_representation node
          \<and> (\<exists>d \<in> set states. sm_name d = s \<and> sm_value_type d = op_output_type node \<and> map Some tys = [sm_key_type d]))"

text \<open>Node \<open>i\<close> is called \<open>op<i>\<close> and its inputs refer to earlier nodes only.\<close>

definition nodes_typed :: "state_manifest list \<Rightarrow> abi_input list \<Rightarrow> operator_node list \<Rightarrow> bool" where
  "nodes_typed states inputs ops \<longleftrightarrow>
     (\<forall>i < length ops. op_id (ops ! i) = ''op'' @ show_nat i
        \<and> (\<exists>tys. list_all2 (ref_typed inputs (take i ops)) (op_inputs (ops ! i)) tys \<and> node_rule states (ops ! i) tys))"

definition write_typed :: "state_manifest list \<Rightarrow> abi_input list \<Rightarrow> operator_node list \<Rightarrow> state_write \<Rightarrow> bool" where
  "write_typed states inputs ops w \<longleftrightarrow>
     (\<exists>d \<in> set states. sm_name d = sw_state w \<and> ref_typed inputs ops (sw_value w) (sm_value_type d)
        \<and> (case sw_key w of None \<Rightarrow> sm_key_type d = None
           | Some k \<Rightarrow> (\<exists>ty. sm_key_type d = Some ty \<and> ref_typed inputs ops k ty)))"

definition opening_typed :: "abi_input list \<Rightarrow> operator_node list \<Rightarrow> string option \<Rightarrow> bool" where
  "opening_typed inputs ops out = (case out of None \<Rightarrow> True | Some r \<Rightarrow> ref_typed inputs ops r TOpened)"

definition function_typed :: "state_manifest list \<Rightarrow> function_manifest \<Rightarrow> bool" where
  "function_typed states fm \<longleftrightarrow>
     nodes_typed states (fm_inputs fm) (fm_operators fm)
     \<and> list_all (write_typed states (fm_inputs fm) (fm_operators fm)) (fm_state_writes fm)
     \<and> opening_typed (fm_inputs fm) (fm_operators fm) (fm_opening_output fm)"

definition state_typed :: "state_manifest \<Rightarrow> bool" where
  "state_typed d \<longleftrightarrow> sm_value_type d \<in> {TFheUint, TSint} \<and> sm_key_type d \<in> {None, Some TAddress}
     \<and> sm_representation d = representation_of (sm_value_type d)"

definition manifest_typed :: "contract_manifest \<Rightarrow> bool" where
  "manifest_typed m \<longleftrightarrow>
     distinct (map sm_name (cm_state m))
     \<and> list_all state_typed (cm_state m)
     \<and> list_all (function_typed (cm_state m)) (cm_functions m)"

section \<open>Lowering keeps everything typed\<close>

lemma ref_typed_mono: "ref_typed inputs ops r ty \<Longrightarrow> ref_typed inputs (ops @ added) r ty"
  by (auto simp: ref_typed_def)

lemma nodes_typed_snoc:
  assumes "nodes_typed states inputs ops" and "op_id node = ''op'' @ show_nat (length ops)"
    and "list_all2 (ref_typed inputs ops) (op_inputs node) tys" and "node_rule states node tys"
  shows "nodes_typed states inputs (ops @ [node])"
  using assms by (auto simp: nodes_typed_def nth_append less_Suc_eq)

definition state_of :: "state_decl \<Rightarrow> state_manifest" where
  "state_of d = \<lparr>sm_name = sd_name d, sm_value_type = sd_ty d, sm_key_type = sd_key_ty d,
     sm_representation = representation_of (sd_ty d)\<rparr>"

definition env_typed :: "abi_input list \<Rightarrow> operator_node list \<Rightarrow> (string \<rightharpoonup> typed_ref) \<Rightarrow> bool" where
  "env_typed inputs ops env \<longleftrightarrow> (\<forall>x r. env x = Some r \<longrightarrow> ref_typed inputs ops (ref_reference r) (ref_ty r))"

definition lowerer_typed :: "program \<Rightarrow> func_decl \<Rightarrow> lowerer \<Rightarrow> bool" where
  "lowerer_typed prog f lw \<longleftrightarrow>
     (let states = map state_of (pg_states prog); inputs = map abi_input_of (fn_params f); ops = lw_operators lw in
      env_typed inputs ops (lw_env lw) \<and> nodes_typed states inputs ops
      \<and> list_all (write_typed states inputs ops) (lw_writes lw) \<and> opening_typed inputs ops (lw_opening_output lw))"

abbreviation typed_in :: "func_decl \<Rightarrow> lowerer \<Rightarrow> typed_ref \<Rightarrow> bool" where
  "typed_in f lw r \<equiv> ref_typed (map abi_input_of (fn_params f)) (lw_operators lw) (ref_reference r) (ref_ty r)"

definition extends :: "lowerer \<Rightarrow> lowerer \<Rightarrow> bool" where
  "extends lw lw' \<longleftrightarrow> (\<exists>added. lw_operators lw' = lw_operators lw @ added)"

lemma extends_refl [simp]: "extends lw lw"
  by (simp add: extends_def)

lemma extends_trans: "extends a b \<Longrightarrow> extends b c \<Longrightarrow> extends a c"
  by (auto simp: extends_def)

lemma typed_extends: "extends lw lw' \<Longrightarrow> ref_typed inputs (lw_operators lw) r ty \<Longrightarrow> ref_typed inputs (lw_operators lw') r ty"
  by (auto simp: extends_def intro: ref_typed_mono)

lemma write_typed_mono: "write_typed states inputs ops w \<Longrightarrow> write_typed states inputs (ops @ added) w"
  by (fastforce simp: write_typed_def intro: ref_typed_mono split: option.splits)

lemma opening_typed_mono: "opening_typed inputs ops r \<Longrightarrow> opening_typed inputs (ops @ added) r"
  by (auto simp: opening_typed_def ref_typed_mono split: option.splits)

lemma push_node_typed:
  assumes lw: "lowerer_typed prog f lw" and run: "push_node opcode domn refs out st lw = (nid, lw')"
    and refs: "list_all2 (ref_typed (map abi_input_of (fn_params f)) (lw_operators lw)) refs tys"
    and rule: "\<And>n. node_rule (map state_of (pg_states prog)) \<lparr>op_id = n, op_opcode = opcode, op_domain = domn,
        op_inputs = refs, op_output_type = out, op_representation = representation_of out, op_state = st\<rparr> tys"
  shows "lowerer_typed prog f lw' \<and> extends lw lw' \<and> typed_in f lw' \<lparr>ref_ty = out, ref_reference = nid\<rparr>"
proof -
  let ?inputs = "map abi_input_of (fn_params f)" and ?states = "map state_of (pg_states prog)"
  let ?node = "\<lparr>op_id = ''op'' @ show_nat (length (lw_operators lw)), op_opcode = opcode, op_domain = domn,
      op_inputs = refs, op_output_type = out, op_representation = representation_of out, op_state = st\<rparr>"
  have lw': "lw' = lw\<lparr>lw_operators := lw_operators lw @ [?node]\<rparr>" "nid = op_id ?node"
    using run by (auto simp: push_node_def Let_def)
  have "nodes_typed ?states ?inputs (lw_operators lw @ [?node])"
    using lw refs by (intro nodes_typed_snoc [where tys = tys]) (auto simp: lowerer_typed_def Let_def rule)
  moreover have "env_typed ?inputs (lw_operators lw @ [?node]) (lw_env lw)"
    using lw by (auto simp: lowerer_typed_def env_typed_def Let_def ref_typed_mono)
  moreover have "list_all (write_typed ?states ?inputs (lw_operators lw @ [?node])) (lw_writes lw)"
    using lw by (auto simp: lowerer_typed_def Let_def list_all_iff write_typed_mono)
  moreover have "opening_typed ?inputs (lw_operators lw @ [?node]) (lw_opening_output lw)"
    using lw by (simp add: lowerer_typed_def Let_def opening_typed_mono)
  ultimately show ?thesis by (auto simp: lw' lowerer_typed_def Let_def extends_def ref_typed_def)
qed

lemma find_state_Ok: "find_state prog f name = Ok d \<Longrightarrow> d \<in> set (pg_states prog) \<and> sd_name d = name"
  by (auto simp: find_state_def lower_error_def find_Some_iff split: option.splits)

lemma expect_type_Ok [simp]: "expect_type f a b c = Ok u \<longleftrightarrow> a = b"
  by (auto simp: expect_type_def lower_error_def)

lemma lower_error_not_Ok [simp]: "lower_error f m \<noteq> Ok x"
  by (simp add: lower_error_def)

lemma check_arguments_Ok: "check_arguments f name args tys = Ok u \<Longrightarrow> map ref_ty args = tys"
proof -
  assume ok: "check_arguments f name args tys = Ok u"
  then have len: "length args = length tys" by (auto simp: check_arguments_def split: if_splits)
  have loop: "\<forall>(i, a, w) \<in> set xs. ref_ty a = w"
    if "foldR (\<lambda>(index, actual, wanted) _. if ref_ty actual \<noteq> wanted then lower_error f (m index actual wanted) else Ok ()) xs () = Ok u"
    for xs m u
    using that by (induction xs) (auto split: if_splits)
  have "ref_ty (args ! i) = tys ! i" if "i < length tys" for i
  proof -
    have "(i, args ! i, tys ! i) \<in> set (List.enumerate 0 (zip args tys))"
      using that len by (auto simp: enumerate_eq_map_nth)
    moreover have "\<forall>(i, a, w) \<in> set (List.enumerate 0 (zip args tys)). ref_ty a = w"
      using ok len unfolding check_arguments_def by (intro loop) (auto split: if_splits)
    ultimately show ?thesis by auto
  qed
  then show ?thesis using len by (intro nth_equalityI) auto
qed

lemma operation_rule:
  "operation f name args = Ok (tys, out, opcode, domn) \<Longrightarrow> (opcode, tys, out, domn) \<in> set operator_rules"
  by (auto simp: operation_def operator_rules_def split: if_splits list.splits value_type.splits)

lemma typed_list_extends:
  "extends lw lw' \<Longrightarrow> list_all (typed_in f lw) rs \<Longrightarrow> list_all (typed_in f lw') rs"
  by (auto simp: list_all_iff intro: typed_extends)

lemma list_all2_refs:
  "list_all (typed_in f lw) rs \<Longrightarrow>
     list_all2 (ref_typed (map abi_input_of (fn_params f)) (lw_operators lw)) (map ref_reference rs) (map ref_ty rs)"
  by (simp add: list_all2_map1 list_all2_map2 list_all2_same list_all_iff)

text \<open>A step of the lowerer that keeps the typing, only adds nodes, and whose result is typed.\<close>

definition keeps :: "program \<Rightarrow> func_decl \<Rightarrow> lowerer \<Rightarrow> lowerer \<Rightarrow> bool" where
  "keeps prog f lw lw' \<longleftrightarrow> lowerer_typed prog f lw' \<and> extends lw lw'"

lemma lower_expression_typed:
  "lowerer_typed prog f lw \<Longrightarrow> lower_expression prog f e lw = Ok (r, lw') \<Longrightarrow> keeps prog f lw lw' \<and> typed_in f lw' r"
  "lowerer_typed prog f lw \<Longrightarrow> lower_arguments prog f es lw = Ok (rs, lw') \<Longrightarrow>
     keeps prog f lw lw' \<and> list_all (typed_in f lw') rs"
proof (induction prog f e lw and prog f es lw arbitrary: r lw' and rs lw' rule: lower_expression_lower_arguments.induct)
  case (1 prog f name lw)
  then show ?case by (auto simp: keeps_def lowerer_typed_def env_typed_def Let_def split: option.splits)
next
  case (2 prog f v lw)
  then show ?case by (auto simp: keeps_def ref_typed_def)
next
  case (3 prog f name key_expression lw)
  obtain d where d: "find_state prog f name = Ok d" using "3.prems"(2) by auto
  obtain key lw1 where k: "lower_expression prog f key_expression lw = Ok (key, lw1)" using "3.prems"(2) d by auto
  have ty: "sd_key_ty d = Some (ref_ty key)" using "3.prems"(2) d k by (auto split: option.splits)
  obtain nid lw2 where push: "push_node ''load_state'' (representation_of (sd_ty d)) [ref_reference key] (sd_ty d) (Some name) lw1 = (nid, lw2)"
    by (metis surj_pair)
  then have p: "push_node ''load_state'' (representation_of (sd_ty d)) [ref_reference key] (sd_ty d) (Some name) lw1 = (nid, lw')"
      "r = \<lparr>ref_ty = sd_ty d, ref_reference = nid\<rparr>"
    using "3.prems"(2) d k ty by simp_all
  have IH: "keeps prog f lw lw1" "typed_in f lw1 key" using "3.IH" [OF d "3.prems"(1) k] by auto
  have dstate: "d \<in> set (pg_states prog)" "sd_name d = name" using find_state_Ok [OF d] by auto
  have "lowerer_typed prog f lw' \<and> extends lw1 lw' \<and> typed_in f lw' r"
    unfolding p(2)
    by (rule push_node_typed [OF _ p(1), where tys = "[ref_ty key]"])
      (use IH dstate ty in \<open>auto simp: keeps_def node_rule_def state_of_def\<close>)
  then show ?case using IH(1) extends_trans by (auto simp: keeps_def)
next
  case (4 prog f name arguments lw)
  obtain args lw1 where a: "lower_arguments prog f arguments lw = Ok (args, lw1)" using "4.prems"(2) by auto
  obtain tys out opcode domn where o: "operation f name args = Ok (tys, out, opcode, domn)"
      "check_arguments f name args tys = Ok ()"
    using "4.prems"(2) a by (auto simp: split_beta)
  obtain nid lw2 where push: "push_node opcode domn (map ref_reference args) out None lw1 = (nid, lw2)"
    by (metis surj_pair)
  then have p: "push_node opcode domn (map ref_reference args) out None lw1 = (nid, lw')"
      "r = \<lparr>ref_ty = out, ref_reference = nid\<rparr>"
    using "4.prems"(2) a o by simp_all
  have IH: "keeps prog f lw lw1" "list_all (typed_in f lw1) args" using "4.IH" [OF "4.prems"(1) a] by auto
  have "lowerer_typed prog f lw' \<and> extends lw1 lw' \<and> typed_in f lw' r"
    unfolding p(2)
    by (rule push_node_typed [OF _ p(1) list_all2_refs [OF IH(2)]])
      (use IH(1) operation_rule [OF o(1)] check_arguments_Ok [OF o(2)] in \<open>auto simp: keeps_def node_rule_def\<close>)
  then show ?case using IH(1) extends_trans by (auto simp: keeps_def)
next
  case (5 prog f lw)
  then show ?case by (simp add: keeps_def)
next
  case (6 prog f e es lw)
  obtain r1 lw1 where e: "lower_expression prog f e lw = Ok (r1, lw1)" using "6.prems"(2) by auto
  obtain rs1 where es: "lower_arguments prog f es lw1 = Ok (rs1, lw')" "rs = r1 # rs1" using "6.prems"(2) e by auto
  have IH1: "keeps prog f lw lw1" "typed_in f lw1 r1" using "6.IH"(1) [OF "6.prems"(1) e] by auto
  have IH2: "keeps prog f lw1 lw'" "list_all (typed_in f lw') rs1"
    using "6.IH"(2) [OF e refl _ es(1)] IH1(1) by (auto simp: keeps_def)
  show ?case using IH1 IH2 es(2) by (auto simp: keeps_def intro: extends_trans typed_extends)
qed

lemma lowerer_new_typed: "lowerer_typed prog f (lowerer_new f)"
proof -
  define put where "put = (\<lambda>(p :: param) (env :: string \<rightharpoonup> typed_ref).
      env(pm_name p \<mapsto> \<lparr>ref_ty = pm_ty p, ref_reference = ''input:'' @ pm_name p\<rparr>))"
  have "env_typed (map abi_input_of (fn_params f)) [] (fold put ps env)"
    if "env_typed (map abi_input_of (fn_params f)) [] env" "set ps \<subseteq> set (fn_params f)" for ps env
    using that
  proof (induction ps arbitrary: env)
    case (Cons p ps)
    have "env_typed (map abi_input_of (fn_params f)) [] (put p env)"
      using Cons.prems by (force simp: env_typed_def ref_typed_def abi_input_of_def put_def)
    then show ?case using Cons.IH [of "put p env"] Cons.prems(2) by simp
  qed simp
  moreover have "env_typed (map abi_input_of (fn_params f)) []
      [''msg.sender'' \<mapsto> \<lparr>ref_ty = TAddress, ref_reference = ''context:msg.sender''\<rparr>]"
    by (simp add: env_typed_def ref_typed_def)
  moreover have "lw_env (lowerer_new f) = fold put (fn_params f)
      [''msg.sender'' \<mapsto> \<lparr>ref_ty = TAddress, ref_reference = ''context:msg.sender''\<rparr>]"
    by (simp only: lowerer_new_def put_def lowerer.simps)
  ultimately have "env_typed (map abi_input_of (fn_params f)) [] (lw_env (lowerer_new f))" by simp
  then show ?thesis
    by (simp add: lowerer_typed_def lowerer_new_def nodes_typed_def opening_typed_def)
qed

lemma add_write_typed:
  "lowerer_typed prog f lw \<Longrightarrow>
   write_typed (map state_of (pg_states prog)) (map abi_input_of (fn_params f)) (lw_operators lw) w \<Longrightarrow>
   lowerer_typed prog f (add_write w lw)"
  by (simp add: lowerer_typed_def add_write_def Let_def)

lemma lower_assignment_typed:
  assumes lw: "lowerer_typed prog f lw" and v: "typed_in f lw v"
    and run: "lower_assignment prog f target v lw = Ok (u, lw')"
  shows "lowerer_typed prog f lw'"
proof (cases target)
  case (EIndex name key_expression)
  obtain d where d: "find_state prog f name = Ok d" using run EIndex by (auto simp: lower_assignment_def)
  obtain key lw1 where k: "lower_expression prog f key_expression lw = Ok (key, lw1)"
    using run EIndex d by (auto simp: lower_assignment_def)
  have ty: "sd_key_ty d = Some (ref_ty key)" "sd_ty d = ref_ty v"
      and lw': "lw' = add_write \<lparr>sw_state = name, sw_key = Some (ref_reference key), sw_value = ref_reference v\<rparr> lw1"
    using run EIndex d k by (auto simp: lower_assignment_def split: option.splits)
  have key: "keeps prog f lw lw1" "typed_in f lw1 key" using lower_expression_typed(1) [OF lw k] by auto
  have "typed_in f lw1 v" using key(1) v by (auto simp: keeps_def intro: typed_extends)
  then show ?thesis
    unfolding lw'
    using key find_state_Ok [OF d] ty
    by (intro add_write_typed) (force simp: keeps_def write_typed_def state_of_def)+
next
  case (EName name)
  obtain d where d: "find_state prog f name = Ok d" using run EName by (auto simp: lower_assignment_def)
  then have "lw' = add_write \<lparr>sw_state = name, sw_key = None, sw_value = ref_reference v\<rparr> lw" "sd_key_ty d = None" "sd_ty d = ref_ty v"
    using run EName by (auto simp: lower_assignment_def split: if_splits)
  then show ?thesis
    using lw v find_state_Ok [OF d] by (force intro!: add_write_typed simp: write_typed_def state_of_def)
qed (use run in \<open>auto simp: lower_assignment_def\<close>)

lemma lower_statement_typed:
  assumes lw: "lowerer_typed prog f lw" and run: "lower_statement prog f st lw = Ok lw'"
  shows "lowerer_typed prog f lw'"
proof (cases st)
  case (SLocal ty name e)
  then obtain v lw1 where e: "lower_expression prog f e lw = Ok (v, lw1)" "lw' = lw1\<lparr>lw_env := (lw_env lw1)(name \<mapsto> v)\<rparr>"
    using run by auto
  then show ?thesis
    using lower_expression_typed(1) [OF lw e(1)] by (auto simp: keeps_def lowerer_typed_def env_typed_def Let_def)
next
  case (SAssign target e)
  then obtain v lw1 where e: "lower_expression prog f e lw = Ok (v, lw1)" "lower_assignment prog f target v lw1 = Ok ((), lw')"
    using run by auto
  then show ?thesis using lower_expression_typed(1) [OF lw e(1)] lower_assignment_typed by (auto simp: keeps_def)
next
  case (SRequire e)
  then obtain c lw1 where e: "lower_expression prog f e lw = Ok (c, lw1)" "ref_ty c = TSecretBool"
      "lw' = snd (push_node ''require_secret'' RSecretSharing [ref_reference c] TVoid None lw1)"
    using run by auto
  obtain nid where p: "push_node ''require_secret'' RSecretSharing [ref_reference c] TVoid None lw1 = (nid, lw')"
    using e(3) by (metis surj_pair snd_conv)
  have "keeps prog f lw lw1" "typed_in f lw1 c" using lower_expression_typed(1) [OF lw e(1)] by auto
  then show ?thesis
    using push_node_typed [OF _ p, where tys = "[TSecretBool]" and prog = prog and f = f] e(2)
    by (auto simp: keeps_def node_rule_def operator_rules_def)
next
  case (SReturn e)
  then obtain v lw1 where e: "lower_expression prog f e lw = Ok (v, lw1)" "ref_ty v = TOpened"
      "lw' = lw1\<lparr>lw_opening_output := Some (ref_reference v)\<rparr>"
    using run by (auto split: if_splits)
  then show ?thesis
    using lower_expression_typed(1) [OF lw e(1)] by (auto simp: keeps_def lowerer_typed_def opening_typed_def Let_def)
next
  case (SExpression e)
  then show ?thesis using run lower_expression_typed(1) [OF lw] by (auto simp: keeps_def)
qed

lemma lower_function_typed:
  assumes "lower_function keccak prog f = Ok fm"
  shows "function_typed (map state_of (pg_states prog)) fm"
proof -
  obtain lw where run: "foldR (lower_statement prog f) (fn_body f) (lowerer_new f) = Ok lw"
    and fm: "fm_inputs fm = map abi_input_of (fn_params f)" "fm_operators fm = lw_operators lw"
      "fm_state_writes fm = lw_writes lw" "fm_opening_output fm = lw_opening_output lw"
    using assms by (auto simp: lower_function_def Let_def)
  have "lowerer_typed prog f lw"
    using run lowerer_new_typed [of prog f] lower_statement_typed
    by (auto elim: foldR_invariant [where P = "lowerer_typed prog f", rotated 2])
  then show ?thesis by (simp add: function_typed_def lowerer_typed_def Let_def fm)
qed

section \<open>Node names are unique\<close>

definition read_nat :: "string \<Rightarrow> nat" where
  "read_nat s = fold (\<lambda>c n. 10 * n + (of_char c - 48)) s 0"

lemma read_show_nat: "read_nat (show_nat n) = n"
proof (induction n rule: show_nat.induct)
  case (1 n)
  have digit: "of_char (char_of (48 + d) :: char) - 48 = d" if "d < 10" for d :: nat
    using that by (simp add: of_char_of)
  show ?case
  proof (cases "n < 10")
    case True
    then show ?thesis by (simp add: show_nat.simps [of n] read_nat_def digit)
  next
    case False
    then have "read_nat (show_nat n) = 10 * (n div 10) + n mod 10"
      using "1.IH" by (simp add: show_nat.simps [of n] read_nat_def digit)
    then show ?thesis by simp
  qed
qed

lemma nodes_typed_distinct:
  assumes "nodes_typed states inputs ops"
  shows "distinct (map op_id ops)"
proof (rule distinct_conv_nth [THEN iffD2], intro allI impI)
  fix i j
  assume ij: "i < length (map op_id ops)" "j < length (map op_id ops)" "i \<noteq> j"
  have "op_id (ops ! i) = ''op'' @ show_nat i" "op_id (ops ! j) = ''op'' @ show_nat j"
    using assms ij by (auto simp: nodes_typed_def)
  moreover have "show_nat i \<noteq> show_nat j" using ij(3) by (metis read_show_nat)
  ultimately show "map op_id ops ! i \<noteq> map op_id ops ! j" using ij by simp
qed

section \<open>The states of a manifest\<close>

lemma declare_states:
  assumes "foldR declare_state ds (names, acc) = Ok (names', acc')"
    and "set names = sm_name ` set acc" and "distinct (map sm_name acc)" and "list_all state_typed acc"
  shows "acc' = acc @ map state_of ds \<and> distinct (map sm_name acc') \<and> list_all state_typed acc'"
  using assms
proof (induction ds arbitrary: names acc)
  case (Cons d ds)
  let ?names = "sd_name d # names" and ?acc = "acc @ [state_of d]"
  have step: "declare_state d (names, acc) = Ok (?names, ?acc)" and ok: "state_typed (state_of d)" "sd_name d \<notin> set names"
    using Cons.prems(1) by (auto simp: declare_state_def state_of_def state_typed_def split: if_splits)
  have "set ?names = sm_name ` set ?acc" "distinct (map sm_name ?acc)" "list_all state_typed ?acc"
    using Cons.prems(2-4) ok by (auto simp: state_of_def)
  moreover have "foldR declare_state ds (?names, ?acc) = Ok (names', acc')" using Cons.prems(1) step by simp
  ultimately show ?case using Cons.IH by fastforce
qed simp

lemma compile_manifest_typed:
  assumes "compile keccak source = Ok m"
  shows "manifest_typed m"
proof -
  obtain prog where prog: "compile_program keccak prog = Ok m" using assms by (auto simp: compile_def)
  then obtain names states fs where st: "foldR declare_state (pg_states prog) ([], []) = Ok (names, states)"
    and fs: "mapR (lower_function keccak prog) (pg_functions prog) = Ok fs"
    and m: "cm_state m = states" "cm_functions m = fs"
    by (auto simp: compile_program_def)
  note decl = declare_states [OF st]
  have "list_all (function_typed states) fs"
    using fs decl lower_function_typed [of keccak prog]
    by (force simp: mapR_eq_Ok_iff list_all_iff in_set_conv_nth list_all2_conv_all_nth)
  then show ?thesis using decl by (auto simp: manifest_typed_def m)
qed

text \<open>C33. Whatever source compiles, its manifest is well typed: states are unique, private and keyed by
  addresses only, every operator node gets arguments of exactly the types its opcode requires from
  constants, inputs and earlier nodes, every write matches its state, only an opened value is returned, and
  node names are unique within a function.
\<close>

theorem compile_well_typed:
  assumes "compile keccak source = Ok m"
  shows "manifest_typed m \<and> list_all (\<lambda>fm. distinct (map op_id (fm_operators fm))) (cm_functions m)"
  using compile_manifest_typed [OF assms]
  by (auto simp: manifest_typed_def list_all_iff function_typed_def intro: nodes_typed_distinct)

lemma compile_small_program: "\<exists>m. compile keccak (source_of small_program) = Ok m"
proof -
  have "\<exists>m. compile_program keccak small_program = Ok m"
    by (simp add: compile_program_def small_program_def declare_state_def lower_function_def lowerer_new_def
        find_state_def expect_type_def operation_def check_arguments_def lower_assignment_def push_node_def add_write_def Let_def)
  then show ?thesis by (simp add: compile_def parse_source_of [OF small_program_printable])
qed

lemma compile_well_typed_witness:
  "\<exists>m. compile (\<lambda>_. replicate 32 0) (source_of small_program) = Ok m \<and> manifest_typed m"
  using compile_small_program [of "\<lambda>_. replicate 32 0"] compile_well_typed [of "\<lambda>_. replicate 32 0" "source_of small_program"]
  by blast

section \<open>A scalar state cannot be read\<close>

text \<open>A name is looked up among the locals and inputs only, so a declared scalar state is unknown to expressions.\<close>

lemma scalar_state_unreadable:
  assumes "\<forall>p \<in> set (fn_params f). pm_name p \<noteq> n" and "n \<noteq> ''msg.sender''"
  shows "lower_expression prog f (EName n) (lowerer_new f) = lower_error f (''unknown value `'' @ n @ ''`'')"
proof -
  define put where "put = (\<lambda>(p :: param) (env :: string \<rightharpoonup> typed_ref).
      env(pm_name p \<mapsto> \<lparr>ref_ty = pm_ty p, ref_reference = ''input:'' @ pm_name p\<rparr>))"
  have "fold put ps env n = env n" if "\<forall>p \<in> set ps. pm_name p \<noteq> n" for ps env
    using that by (induction ps arbitrary: env) (auto simp: put_def)
  moreover have "lw_env (lowerer_new f) = fold put (fn_params f)
      [''msg.sender'' \<mapsto> \<lparr>ref_ty = TAddress, ref_reference = ''context:msg.sender''\<rparr>]"
    by (simp only: lowerer_new_def put_def lowerer.simps)
  ultimately have "lw_env (lowerer_new f) n = None" using assms by simp
  then show ?thesis by simp
qed

end
