(* ===== verification/Manifest_Runtime.thy ===== *)
theory Manifest_Runtime
  imports Compiler_Lower Ordered_Map "HOL-Library.Char_ord"
begin

text \<open>
  \<open>runtime/src/manifest.rs\<close>: the executor of compiled manifests, the in-memory state store and the
  development backend.

  The store and the backend are the traits \<open>ManifestStateStore\<close> and \<open>ManifestCryptoBackend\<close>: a load
  function and a record of operations.  The locale \<open>manifest_backend\<close> says that operations on well-formed
  arguments of the operator's types give well-formed values of its result type or an arithmetic error;
  \<open>PlaintextManifestBackend\<close> is its interpretation.  The Postgres store of
  the same file is in Postgres_Store, the executor over it in Store_Executor.
\<close>

datatype manifest_runtime_error =
  MFunctionNotFound | MMissingInput | MTypeMismatch | MUnknownReference | MInvalidManifest | MInvalidStateKey
| MInvalidValue | MStateNotFound | MStateUnavailable | MUnsupportedOperator | MPolicyRejected | MOverflow
| MUnderflow | MPersistenceFailure | MCorruptPersistence | MCursorMismatch

record manifest_value =
  mv_type :: value_type
  mv_bytes :: bytes

definition mv_address :: "bytes \<Rightarrow> manifest_value" where
  "mv_address v = \<lparr>mv_type = TAddress, mv_bytes = v\<rparr>"

definition mv_public_uint :: "u128 \<Rightarrow> manifest_value" where
  "mv_public_uint v = \<lparr>mv_type = TUint, mv_bytes = u128_be v\<rparr>"

lemma mv_type_public [simp]: "mv_type (mv_public_uint v) = TUint"
  by (simp add: mv_public_uint_def)

definition mv_protected :: "value_type \<Rightarrow> bytes \<Rightarrow> (manifest_runtime_error, manifest_value) res" where
  "mv_protected ty bs =
     (if ty \<notin> {TFheUint, TFheBool, TSint, TSecretBool, TOpened} \<or> bs = [] then Err MInvalidValue
      else Ok \<lparr>mv_type = ty, mv_bytes = bs\<rparr>)"

definition mv_from_backend_parts :: "value_type \<Rightarrow> bytes \<Rightarrow> (manifest_runtime_error, manifest_value) res" where
  "mv_from_backend_parts ty bs =
     (if ty = TAddress \<and> length bs = 20 \<or> ty = TUint \<and> length bs = 16
         \<or> ty \<in> {TFheUint, TFheBool, TSint, TSecretBool, TOpened} \<and> bs \<noteq> []
      then Ok \<lparr>mv_type = ty, mv_bytes = bs\<rparr> else Err MInvalidValue)"

definition mv_state_key :: "manifest_value \<Rightarrow> (manifest_runtime_error, bytes) res" where
  "mv_state_key v = (if mv_type v \<noteq> TAddress \<or> length (mv_bytes v) \<noteq> 20 then Err MInvalidStateKey else Ok (mv_bytes v))"

definition mv_public_u128 :: "manifest_value \<Rightarrow> (manifest_runtime_error, u128) res" where
  "mv_public_u128 v =
     (if mv_type v \<noteq> TUint \<or> length (mv_bytes v) \<noteq> 16 then Err MInvalidValue else Ok (u128_of_be (mv_bytes v)))"

text \<open>\<open>InvocationInputs\<close> is an ordered map from names to values.\<close>

type_synonym invocation_inputs = "(string, manifest_value) btree"

record cell_write =
  cw_state :: string
  cw_key :: bytes
  cw_value :: manifest_value

record host_call =
  hc_opcode :: string
  hc_arguments :: "manifest_value list"

record execution_outcome =
  eo_state_writes :: "cell_write list"
  eo_host_calls :: "host_call list"
  eo_opening :: "manifest_value option"

type_synonym state_load = "string \<Rightarrow> bytes \<Rightarrow> (manifest_runtime_error, manifest_value) res"

record manifest_crypto_backend =
  mb_evaluate :: "string \<Rightarrow> manifest_value list \<Rightarrow> (manifest_runtime_error, manifest_value) res"
  mb_secret_bool :: "manifest_value \<Rightarrow> (manifest_runtime_error, bool) res"
  mb_pick :: "manifest_value \<Rightarrow> (manifest_runtime_error, manifest_value) res"

section \<open>The executor\<close>

type_synonym value_table = "string \<rightharpoonup> manifest_value"

definition void_value :: manifest_value where
  "void_value = \<lparr>mv_type = TVoid, mv_bytes = []\<rparr>"

lemma mv_type_void [simp]: "mv_type void_value = TVoid"
  by (simp add: void_value_def)

text \<open>\<open>str::parse::<u128>\<close>: an optional plus sign and decimal digits below 2 ^ 128.\<close>

definition parse_u128 :: "string \<Rightarrow> u128 option" where
  "parse_u128 s =
     (let ds = (case s of c # cs \<Rightarrow> if c = CHR ''+'' then cs else s | [] \<Rightarrow> s);
          n = fold (\<lambda>c n. 10 * n + (of_char c - 48)) ds (0 :: nat) in
      if ds = [] \<or> \<not> list_all is_digit ds \<or> 2 ^ 128 \<le> n then None else Some (of_nat n))"

definition strip_const :: "string \<Rightarrow> string option" where
  "strip_const r = (if take 6 r = ''const:'' then Some (drop 6 r) else None)"

definition resolve :: "value_table \<Rightarrow> string \<Rightarrow> (manifest_runtime_error, manifest_value) res" where
  "resolve vals r = ok_or MUnknownReference (vals r)"

definition resolve_owned :: "value_table \<Rightarrow> string \<Rightarrow> (manifest_runtime_error, manifest_value) res" where
  "resolve_owned vals r =
     (case strip_const r of
        Some c \<Rightarrow> bindR (ok_or MInvalidManifest (parse_u128 c)) (\<lambda>v. Ok (mv_public_uint v))
      | None \<Rightarrow> resolve vals r)"

definition manifest_state :: "contract_manifest \<Rightarrow> string \<Rightarrow> (manifest_runtime_error, state_manifest) res" where
  "manifest_state m name = ok_or MInvalidManifest (List.find (\<lambda>d. sm_name d = name) (cm_state m))"

definition first_argument :: "manifest_value list \<Rightarrow> (manifest_runtime_error, manifest_value) res" where
  "first_argument args = (case args of [] \<Rightarrow> Err MInvalidManifest | a # _ \<Rightarrow> Ok a)"

definition expect_value_type :: "value_type \<Rightarrow> manifest_value \<Rightarrow> (manifest_runtime_error, manifest_value) res" where
  "expect_value_type ty v = (if mv_type v \<noteq> ty then Err MTypeMismatch else Ok v)"

definition load_state ::
  "contract_manifest \<Rightarrow> state_load \<Rightarrow> operator_node \<Rightarrow> manifest_value list \<Rightarrow> (manifest_runtime_error, manifest_value) res"
where
  "load_state m load node args =
     bindR (ok_or MInvalidManifest (op_state node)) (\<lambda>state.
     bindR (manifest_state m state) (\<lambda>decl.
     bindR (case sm_key_type decl of
              Some TAddress \<Rightarrow> bindR (first_argument args) mv_state_key
            | None \<Rightarrow> if args = [] then Ok [] else Err MInvalidStateKey
            | _ \<Rightarrow> Err MInvalidStateKey) (\<lambda>key.
     bindR (load state key) (expect_value_type (op_output_type node)))))"

definition execute_operator ::
  "contract_manifest \<Rightarrow> state_load \<Rightarrow> manifest_crypto_backend \<Rightarrow> operator_node \<Rightarrow> value_table \<Rightarrow> host_call list \<Rightarrow>
     (manifest_runtime_error, manifest_value \<times> host_call list) res"
where
  "execute_operator m load MB node vals calls =
     bindR (mapR (resolve_owned vals) (op_inputs node)) (\<lambda>args.
       if op_opcode node = ''load_state'' then bindR (load_state m load node args) (\<lambda>v. Ok (v, calls))
       else if op_opcode node = ''require_secret'' then
         bindR (first_argument args) (\<lambda>c. bindR (mb_secret_bool MB c) (\<lambda>holds.
           if \<not> holds then Err MPolicyRejected else Ok (void_value, calls)))
       else if op_opcode node = ''opening.pick'' then
         bindR (first_argument args) (\<lambda>v. bindR (mb_pick MB v) (\<lambda>opened.
         bindR (expect_value_type TOpened opened) (\<lambda>v. Ok (v, calls))))
       else if op_opcode node = ''host.receive_encrypted_token'' \<or> op_opcode node = ''host.send_encrypted_token'' then
         Ok (void_value, calls @ [\<lparr>hc_opcode = op_opcode node, hc_arguments = args\<rparr>])
       else if op_domain node \<noteq> RFhe \<and> op_domain node \<noteq> RSecretSharing then Err MUnsupportedOperator
       else bindR (mb_evaluate MB (op_opcode node) args) (\<lambda>v.
            bindR (expect_value_type (op_output_type node) v) (\<lambda>v. Ok (v, calls))))"

definition validate_inputs :: "function_manifest \<Rightarrow> invocation_inputs \<Rightarrow> (manifest_runtime_error, unit) res" where
  "validate_inputs fm inputs =
     (if length inputs \<noteq> length (fm_inputs fm) then Err MMissingInput
      else foldR (\<lambda>declared _.
        bindR (ok_or MMissingInput (bt_get (ai_name declared) inputs)) (\<lambda>supplied.
          if mv_type supplied \<noteq> ai_source_type declared then Err MTypeMismatch else Ok ())) (fm_inputs fm) ())"

definition initial_values ::
  "bytes \<Rightarrow> function_manifest \<Rightarrow> invocation_inputs \<Rightarrow> (manifest_runtime_error, value_table) res"
where
  "initial_values sender fm inputs =
     foldR (\<lambda>declared vals.
       bindR (ok_or MMissingInput (bt_get (ai_name declared) inputs)) (\<lambda>v.
         Ok (vals(''input:'' @ ai_name declared \<mapsto> v)))) (fm_inputs fm) [''context:msg.sender'' \<mapsto> mv_address sender]"

definition plan_write ::
  "contract_manifest \<Rightarrow> value_table \<Rightarrow> state_write \<Rightarrow> (manifest_runtime_error, cell_write) res"
where
  "plan_write m vals w =
     bindR (manifest_state m (sw_state w)) (\<lambda>state.
     bindR (case (sw_key w, sm_key_type state) of
              (Some r, Some TAddress) \<Rightarrow> bindR (resolve vals r) mv_state_key
            | (None, None) \<Rightarrow> Ok []
            | _ \<Rightarrow> Err MInvalidStateKey) (\<lambda>key.
     bindR (resolve vals (sw_value w)) (\<lambda>v.
       if mv_type v \<noteq> sm_value_type state then Err MTypeMismatch
       else Ok \<lparr>cw_state = sw_state w, cw_key = key, cw_value = v\<rparr>)))"

definition run_operators ::
  "contract_manifest \<Rightarrow> state_load \<Rightarrow> manifest_crypto_backend \<Rightarrow> operator_node list \<Rightarrow> value_table \<times> host_call list \<Rightarrow>
     (manifest_runtime_error, value_table \<times> host_call list) res"
where
  "run_operators m load MB =
     foldR (\<lambda>node (vals, calls).
       bindR (execute_operator m load MB node vals calls) (\<lambda>(out, calls). Ok (vals(op_id node \<mapsto> out), calls)))"

definition manifest_evaluate ::
  "contract_manifest \<Rightarrow> state_load \<Rightarrow> manifest_crypto_backend \<Rightarrow> string \<Rightarrow> bytes \<Rightarrow> invocation_inputs \<Rightarrow>
     (manifest_runtime_error, execution_outcome) res"
where
  "manifest_evaluate m load MB function_name sender inputs =
     bindR (ok_or MFunctionNotFound (List.find (\<lambda>f. fm_name f = function_name) (cm_functions m))) (\<lambda>fm.
     bindR (validate_inputs fm inputs) (\<lambda>_.
     bindR (initial_values sender fm inputs) (\<lambda>vals.
     bindR (run_operators m load MB (fm_operators fm) (vals, [])) (\<lambda>(vals, calls).
     bindR (mapR (plan_write m vals) (fm_state_writes fm)) (\<lambda>writes.
     bindR (case fm_opening_output fm of
              None \<Rightarrow> Ok None
            | Some r \<Rightarrow> bindR (resolve vals r) (\<lambda>v. Ok (Some v))) (\<lambda>opening.
       Ok \<lparr>eo_state_writes = writes, eo_host_calls = calls, eo_opening = opening\<rparr>))))))"

section \<open>The in-memory store\<close>

type_synonym cells = "string \<times> bytes \<rightharpoonup> manifest_value"

definition cells_initialize :: "string \<Rightarrow> bytes \<Rightarrow> manifest_value \<Rightarrow> cells \<Rightarrow> cells" where
  "cells_initialize state key v cs = cs((state, key) \<mapsto> v)"

definition cells_load :: "cells \<Rightarrow> state_load" where
  "cells_load cs state key = ok_or MStateNotFound (cs (state, key))"

definition cells_commit :: "cell_write list \<Rightarrow> cells \<Rightarrow> cells" where
  "cells_commit writes cs = fold (\<lambda>w cs. cs((cw_state w, cw_key w) \<mapsto> cw_value w)) writes cs"

definition manifest_execute ::
  "contract_manifest \<Rightarrow> manifest_crypto_backend \<Rightarrow> string \<Rightarrow> bytes \<Rightarrow> invocation_inputs \<Rightarrow> cells \<Rightarrow>
     (manifest_runtime_error, execution_outcome) res \<times> cells"
where
  "manifest_execute m MB function_name sender inputs cs =
     (case manifest_evaluate m (cells_load cs) MB function_name sender inputs of
        Ok outcome \<Rightarrow> (Ok outcome, cells_commit (eo_state_writes outcome) cs)
      | Err e \<Rightarrow> (Err e, cs)
      | Panic \<Rightarrow> (Panic, cs))"

section \<open>The development backend\<close>

definition FHE_UINT_PREFIX :: bytes where "FHE_UINT_PREFIX = ascii ''PPSC_MANIFEST_DEV_FHE_UINT_V1''"
definition FHE_BOOL_PREFIX :: bytes where "FHE_BOOL_PREFIX = ascii ''PPSC_MANIFEST_DEV_FHE_BOOL_V1''"
definition SS_UINT_PREFIX :: bytes where "SS_UINT_PREFIX = ascii ''PPSC_MANIFEST_DEV_SS_UINT_V1''"
definition SS_BOOL_PREFIX :: bytes where "SS_BOOL_PREFIX = ascii ''PPSC_MANIFEST_DEV_SS_BOOL_V1''"
definition OPENED_PREFIX :: bytes where "OPENED_PREFIX = ascii ''PPSC_MANIFEST_DEV_OPENED_V1''"

definition encoded :: "value_type \<Rightarrow> bytes \<Rightarrow> bytes \<Rightarrow> manifest_value" where
  "encoded ty prefix payload = \<lparr>mv_type = ty, mv_bytes = prefix @ payload\<rparr>"

definition starts_with :: "bytes \<Rightarrow> bytes \<Rightarrow> bool" where
  "starts_with bs prefix = (take (length prefix) bs = prefix)"

definition mv_decode_u128 :: "manifest_value \<Rightarrow> bytes \<Rightarrow> (manifest_runtime_error, u128) res" where
  "mv_decode_u128 v prefix =
     (if length (mv_bytes v) \<noteq> length prefix + 16 \<or> \<not> starts_with (mv_bytes v) prefix then Err MInvalidValue
      else Ok (u128_of_be (drop (length prefix) (mv_bytes v))))"

definition mv_decode_bool :: "manifest_value \<Rightarrow> bytes \<Rightarrow> (manifest_runtime_error, bool) res" where
  "mv_decode_bool v prefix =
     (if length (mv_bytes v) \<noteq> length prefix + 1 \<or> \<not> starts_with (mv_bytes v) prefix then Err MInvalidValue
      else let b = mv_bytes v ! length prefix in
        if b = 0 then Ok False else if b = 1 then Ok True else Err MInvalidValue)"

definition fhe_uint :: "u128 \<Rightarrow> manifest_value" where
  "fhe_uint v = encoded TFheUint FHE_UINT_PREFIX (u128_be v)"

definition secret_uint :: "u128 \<Rightarrow> manifest_value" where
  "secret_uint v = encoded TSint SS_UINT_PREFIX (u128_be v)"

definition bool_byte :: "bool \<Rightarrow> bytes" where
  "bool_byte b = [if b then 1 else 0]"

definition open_for_tests :: "manifest_value \<Rightarrow> (manifest_runtime_error, u128) res" where
  "open_for_tests v =
     (case mv_type v of
        TFheUint \<Rightarrow> mv_decode_u128 v FHE_UINT_PREFIX
      | TSint \<Rightarrow> mv_decode_u128 v SS_UINT_PREFIX
      | TOpened \<Rightarrow> mv_decode_u128 v OPENED_PREFIX
      | TUint \<Rightarrow> mv_public_u128 v
      | _ \<Rightarrow> Err MTypeMismatch)"

definition one :: "manifest_value list \<Rightarrow> (manifest_runtime_error, manifest_value) res" where
  "one args = (if length args \<noteq> 1 then Err MInvalidManifest else Ok (args ! 0))"

definition two_u128 :: "manifest_value list \<Rightarrow> bytes \<Rightarrow> (manifest_runtime_error, u128 \<times> u128) res" where
  "two_u128 args prefix =
     (if length args \<noteq> 2 then Err MInvalidManifest
      else bindR (mv_decode_u128 (args ! 0) prefix) (\<lambda>l. bindR (mv_decode_u128 (args ! 1) prefix) (\<lambda>r. Ok (l, r))))"

definition plain_evaluate :: "string \<Rightarrow> manifest_value list \<Rightarrow> (manifest_runtime_error, manifest_value) res" where
  "plain_evaluate opcode args =
     (if opcode = ''fhe.encrypt'' then bindR (one args) (\<lambda>v. bindR (mv_public_u128 v) (\<lambda>n. Ok (fhe_uint n)))
      else if opcode = ''fhe.add'' then
        bindR (two_u128 args FHE_UINT_PREFIX) (\<lambda>(l, r). bindR (ok_or MOverflow (checked_add l r)) (\<lambda>s. Ok (fhe_uint s)))
      else if opcode = ''fhe.sub'' then
        bindR (two_u128 args FHE_UINT_PREFIX) (\<lambda>(l, r). bindR (ok_or MUnderflow (checked_sub l r)) (\<lambda>s. Ok (fhe_uint s)))
      else if opcode = ''fhe.ge'' then
        bindR (two_u128 args FHE_UINT_PREFIX) (\<lambda>(l, r). Ok (encoded TFheBool FHE_BOOL_PREFIX (bool_byte (r \<le> l))))
      else if opcode = ''mpc.add'' then
        bindR (two_u128 args SS_UINT_PREFIX) (\<lambda>(l, r). bindR (ok_or MOverflow (checked_add l r)) (\<lambda>s. Ok (secret_uint s)))
      else if opcode = ''mpc.sub'' then
        bindR (two_u128 args SS_UINT_PREFIX) (\<lambda>(l, r). bindR (ok_or MUnderflow (checked_sub l r)) (\<lambda>s. Ok (secret_uint s)))
      else if opcode = ''mpc.ge'' then
        bindR (two_u128 args SS_UINT_PREFIX) (\<lambda>(l, r). Ok (encoded TSecretBool SS_BOOL_PREFIX (bool_byte (r \<le> l))))
      else if opcode = ''convert.h2s'' then
        bindR (one args) (\<lambda>v.
          case mv_type v of
            TFheUint \<Rightarrow> bindR (mv_decode_u128 v FHE_UINT_PREFIX) (\<lambda>n. Ok (secret_uint n))
          | TFheBool \<Rightarrow> bindR (mv_decode_bool v FHE_BOOL_PREFIX) (\<lambda>b. Ok (encoded TSecretBool SS_BOOL_PREFIX (bool_byte b)))
          | _ \<Rightarrow> Err MTypeMismatch)
      else if opcode = ''convert.s2h'' then
        bindR (one args) (\<lambda>v. bindR (mv_decode_u128 v SS_UINT_PREFIX) (\<lambda>n. Ok (fhe_uint n)))
      else Err MUnsupportedOperator)"

definition plain_secret_bool :: "manifest_value \<Rightarrow> (manifest_runtime_error, bool) res" where
  "plain_secret_bool v = mv_decode_bool v SS_BOOL_PREFIX"

definition plain_pick :: "manifest_value \<Rightarrow> (manifest_runtime_error, manifest_value) res" where
  "plain_pick v = bindR (mv_decode_u128 v SS_UINT_PREFIX) (\<lambda>n. Ok (encoded TOpened OPENED_PREFIX (u128_be n)))"

definition plaintext_manifest_backend :: manifest_crypto_backend where
  "plaintext_manifest_backend =
     \<lparr>mb_evaluate = plain_evaluate, mb_secret_bool = plain_secret_bool, mb_pick = plain_pick\<rparr>"

section \<open>Running a well-typed function\<close>

text \<open>Every way a computation can end: a value with \<open>P\<close>, an error with \<open>E\<close>, never a panic.\<close>

definition outcome :: "('a \<Rightarrow> bool) \<Rightarrow> ('e \<Rightarrow> bool) \<Rightarrow> ('e, 'a) res \<Rightarrow> bool" where
  "outcome P E r = (case r of Ok x \<Rightarrow> P x | Err e \<Rightarrow> E e | Panic \<Rightarrow> False)"

lemma outcome_simps [simp]: "outcome P E (Ok x) = P x" "outcome P E (Err e) = E e" "\<not> outcome P E Panic"
  by (simp_all add: outcome_def)

lemma outcome_bind: "outcome Q E m \<Longrightarrow> (\<And>x. m = Ok x \<Longrightarrow> Q x \<Longrightarrow> outcome P E (f x)) \<Longrightarrow> outcome P E (bindR m f)"
  by (cases m) auto

lemma outcome_mono: "outcome Q D m \<Longrightarrow> (\<And>x. m = Ok x \<Longrightarrow> Q x \<Longrightarrow> P x) \<Longrightarrow> (\<And>e. D e \<Longrightarrow> E e) \<Longrightarrow> outcome P E m"
  by (cases m) auto

lemma outcome_mapR:
  assumes "\<And>x. x \<in> set xs \<Longrightarrow> outcome P E (f x)"
  shows "outcome (list_all P) E (mapR f xs)"
  using assms
proof (induction xs)
  case (Cons x xs)
  then show ?case by (cases "f x"; cases "mapR f xs") force+
qed simp

lemma find_named: "distinct (map f xs) \<Longrightarrow> x \<in> set xs \<Longrightarrow> List.find (\<lambda>y. f y = f x) xs = Some x"
  by (induction xs) force+

lemma nodes_typed_middle:
  assumes "nodes_typed states inputs (ops @ node # rest)"
  shows "op_id node = ''op'' @ show_nat (length ops)"
    and "\<exists>tys. list_all2 (ref_typed inputs ops) (op_inputs node) tys \<and> node_rule states node tys"
proof -
  let ?all = "ops @ node # rest" and ?i = "length ops"
  have "op_id (?all ! ?i) = ''op'' @ show_nat ?i
      \<and> (\<exists>tys. list_all2 (ref_typed inputs (take ?i ?all)) (op_inputs (?all ! ?i)) tys \<and> node_rule states (?all ! ?i) tys)"
    using assms [unfolded nodes_typed_def, rule_format, of ?i] by (simp only: length_append list.size)
  then show "op_id node = ''op'' @ show_nat (length ops)"
    and "\<exists>tys. list_all2 (ref_typed inputs ops) (op_inputs node) tys \<and> node_rule states node tys" by simp_all
qed

lemma nodes_typed_ids:
  assumes "nodes_typed states inputs (ops @ rest)"
  shows "\<forall>i < length ops. op_id (ops ! i) = ''op'' @ show_nat i"
proof (intro allI impI)
  fix i assume i: "i < length ops"
  then have "op_id ((ops @ rest) ! i) = ''op'' @ show_nat i"
    using assms [unfolded nodes_typed_def, rule_format, of i] by (simp only: length_append)
  then show "op_id (ops ! i) = ''op'' @ show_nat i" using i by (simp add: nth_append)
qed

lemma validate_inputs_Ok:
  assumes "validate_inputs fm inputs = Ok u" and "p \<in> set (fm_inputs fm)"
  shows "\<exists>v. bt_get (ai_name p) inputs = Some v \<and> mv_type v = ai_source_type p"
proof -
  have "\<forall>p \<in> set ps. \<exists>v. bt_get (ai_name p) inputs = Some v \<and> mv_type v = ai_source_type p"
    if "foldR (\<lambda>declared _. bindR (ok_or MMissingInput (bt_get (ai_name declared) inputs)) (\<lambda>supplied.
          if mv_type supplied \<noteq> ai_source_type declared then Err MTypeMismatch else Ok ())) ps () = Ok u" for ps u
    using that by (induction ps) (auto split: if_splits)
  then show ?thesis using assms by (auto simp: validate_inputs_def split: if_splits)
qed

lemma initial_values_eq:
  assumes "\<forall>p \<in> set (fm_inputs fm). bt_get (ai_name p) inputs \<noteq> None"
  shows "initial_values sender fm inputs = Ok (\<lambda>r. if \<exists>p \<in> set (fm_inputs fm). r = ''input:'' @ ai_name p
     then bt_get (drop 6 r) inputs else if r = ''context:msg.sender'' then Some (mv_address sender) else None)"
proof -
  define put where "put = (\<lambda>(p :: abi_input) (vals :: value_table). bindR (ok_or MMissingInput (bt_get (ai_name p) inputs)) (\<lambda>v.
         Ok (vals(''input:'' @ ai_name p \<mapsto> v))))"
  have "foldR put ps vals = Ok (\<lambda>r. if \<exists>p \<in> set ps. r = ''input:'' @ ai_name p then bt_get (drop 6 r) inputs else vals r)"
    if "\<forall>p \<in> set ps. bt_get (ai_name p) inputs \<noteq> None" for ps vals
    using that
  proof (induction ps arbitrary: vals)
    case (Cons p ps)
    then obtain v where v: "bt_get (ai_name p) inputs = Some v" by auto
    have step: "put p vals = Ok (vals(''input:'' @ ai_name p \<mapsto> v))" by (simp add: put_def v)
    show ?case using Cons by (auto simp: step v fun_eq_iff)
  qed simp
  note loop = this [OF assms]
  have "initial_values sender fm inputs = foldR put (fm_inputs fm) [''context:msg.sender'' \<mapsto> mv_address sender]"
    by (simp only: initial_values_def put_def)
  then show ?thesis by (auto simp: loop fun_eq_iff)
qed

text \<open>The errors a well-typed function can end with; a literal is only parsed when it is used.\<close>

definition bad_literal :: "string \<Rightarrow> bool" where
  "bad_literal r = (\<exists>c. strip_const r = Some c \<and> parse_u128 c = None)"

definition run_error :: "function_manifest \<Rightarrow> manifest_runtime_error \<Rightarrow> bool" where
  "run_error fm e \<longleftrightarrow> e \<in> {MStateNotFound, MPolicyRejected, MOverflow, MUnderflow}
     \<or> e = MInvalidManifest \<and> (\<exists>node \<in> set (fm_operators fm). \<exists>r \<in> set (op_inputs node). bad_literal r)"

text \<open>
  What the executor relies on in a backend: valid values of each type, operators that keep them valid.
\<close>

locale manifest_backend =
  fixes MB :: manifest_crypto_backend
    and valid :: "manifest_value \<Rightarrow> bool"
  assumes valid_address: "mv_type v = TAddress \<Longrightarrow> valid v \<longleftrightarrow> length (mv_bytes v) = 20"
    and valid_public: "valid (mv_public_uint n)"
    and valid_void: "valid void_value"
    and evaluate: "(opcode, tys, ty, domn) \<in> set operator_rules \<Longrightarrow> domn \<in> {RFhe, RSecretSharing} \<Longrightarrow>
          ty \<noteq> TVoid \<Longrightarrow> map mv_type args = tys \<Longrightarrow> list_all valid args \<Longrightarrow>
          outcome (\<lambda>v. mv_type v = ty \<and> valid v) (\<lambda>e. e = MOverflow \<or> e = MUnderflow) (mb_evaluate MB opcode args)"
    and secret_bool: "mv_type v = TSecretBool \<Longrightarrow> valid v \<Longrightarrow> outcome (\<lambda>_. True) (\<lambda>_. False) (mb_secret_bool MB v)"
    and pick: "mv_type v = TSint \<Longrightarrow> valid v \<Longrightarrow>
          outcome (\<lambda>v. mv_type v = TOpened \<and> valid v) (\<lambda>_. False) (mb_pick MB v)"
begin

definition has_type :: "value_type \<Rightarrow> manifest_value \<Rightarrow> bool" where
  "has_type ty v \<longleftrightarrow> mv_type v = ty \<and> valid v"

text \<open>Every typed reference that is not a literal has a value of its type.\<close>

definition table_typed :: "abi_input list \<Rightarrow> operator_node list \<Rightarrow> value_table \<Rightarrow> bool" where
  "table_typed inputs ops vals \<longleftrightarrow>
     (\<forall>node \<in> set ops. strip_const (op_id node) = None)
     \<and> (\<forall>r ty. ref_typed inputs ops r ty \<and> strip_const r = None \<longrightarrow> (\<exists>v. vals r = Some v \<and> has_type ty v))"

definition load_typed :: "contract_manifest \<Rightarrow> state_load \<Rightarrow> bool" where
  "load_typed m load \<longleftrightarrow>
     (\<forall>d \<in> set (cm_state m). \<forall>key. outcome (has_type (sm_value_type d)) (\<lambda>e. e = MStateNotFound) (load (sm_name d) key))"

lemma resolve_typed:
  assumes "table_typed inputs ops vals" and "ref_typed inputs ops r ty" and "strip_const r = None"
  shows "\<exists>v. resolve vals r = Ok v \<and> has_type ty v"
  using assms by (force simp: table_typed_def resolve_def)

lemma resolve_owned_typed:
  assumes vals: "table_typed inputs ops vals" and r: "ref_typed inputs ops r ty"
  shows "outcome (has_type ty) (\<lambda>e. e = MInvalidManifest \<and> bad_literal r) (resolve_owned vals r)"
proof (cases "strip_const r")
  case None
  then show ?thesis using resolve_typed [OF vals r None] by (auto simp: resolve_owned_def)
next
  case (Some c)
  then have "ty = TUint" using vals r by (auto simp: table_typed_def ref_typed_def) (auto simp: strip_const_def)
  then show ?thesis
    using Some by (cases "parse_u128 c") (auto simp: resolve_owned_def bad_literal_def has_type_def valid_public)
qed

lemma arguments_typed:
  assumes vals: "table_typed inputs ops vals" and refs: "list_all2 (ref_typed inputs ops) refs tys"
  shows "outcome (\<lambda>args. map mv_type args = tys \<and> list_all valid args)
     (\<lambda>e. e = MInvalidManifest \<and> (\<exists>r \<in> set refs. bad_literal r)) (mapR (resolve_owned vals) refs)"
  using refs
proof (induction refs tys rule: list_all2_induct)
  case (Cons r refs ty tys)
  show ?case
    using resolve_owned_typed [OF vals Cons(1)] Cons(3)
    by (cases "resolve_owned vals r"; cases "mapR (resolve_owned vals) refs") (auto simp: has_type_def)
qed simp

lemma load_state_typed:
  assumes m: "manifest_typed m" and load: "load_typed m load"
    and d: "d \<in> set (cm_state m)" "op_state node = Some (sm_name d)" "sm_value_type d = op_output_type node"
    and args: "map Some (map mv_type args) = [sm_key_type d]" "list_all valid args"
  shows "outcome (has_type (op_output_type node)) (\<lambda>e. e = MStateNotFound) (load_state m load node args)"
proof -
  have found: "manifest_state m (sm_name d) = Ok d"
    using m d(1) by (simp add: manifest_state_def manifest_typed_def find_named)
  have "sm_key_type d \<in> {None, Some TAddress}"
    using m d(1) by (auto simp: manifest_typed_def state_typed_def list_all_iff)
  then obtain a where a: "args = [a]" "mv_type a = TAddress" "sm_key_type d = Some TAddress" "length (mv_bytes a) = 20"
    using args valid_address by (auto simp: map_eq_Cons_conv)
  have "outcome (has_type (sm_value_type d)) (\<lambda>e. e = MStateNotFound) (load (sm_name d) (mv_bytes a))"
    using load d(1) by (simp add: load_typed_def)
  then show ?thesis
    by (auto simp: load_state_def found d a first_argument_def mv_state_key_def expect_value_type_def has_type_def
        intro!: outcome_bind [where Q = "has_type (sm_value_type d)"])
qed

abbreviation step_error :: "operator_node \<Rightarrow> manifest_runtime_error \<Rightarrow> bool" where
  "step_error node e \<equiv> e \<in> {MStateNotFound, MPolicyRejected, MOverflow, MUnderflow}
     \<or> e = MInvalidManifest \<and> (\<exists>r \<in> set (op_inputs node). bad_literal r)"

lemma execute_operator_typed:
  assumes m: "manifest_typed m" and load: "load_typed m load" and vals: "table_typed inputs ops vals"
    and refs: "list_all2 (ref_typed inputs ops) (op_inputs node) tys" and rule: "node_rule (cm_state m) node tys"
  shows "outcome (\<lambda>(v, _). has_type (op_output_type node) v) (step_error node) (execute_operator m load MB node vals calls)"
proof (cases "mapR (resolve_owned vals) (op_inputs node)")
  case (Ok args)
  then have args: "map mv_type args = tys" "list_all valid args" using arguments_typed [OF vals refs] by auto
  note run = execute_operator_def Ok
  show ?thesis
  proof (cases "op_state node")
    case (Some s)
    then obtain d where d: "op_opcode node = ''load_state''" "d \<in> set (cm_state m)" "op_state node = Some (sm_name d)"
        "sm_value_type d = op_output_type node" "map Some tys = [sm_key_type d]"
      using rule by (auto simp: node_rule_def)
    have "outcome (has_type (op_output_type node)) (\<lambda>e. e = MStateNotFound) (load_state m load node args)"
      by (rule load_state_typed [OF m load d(2-4)]) (simp_all only: args d(5))
    then show ?thesis by (cases "load_state m load node args") (auto simp: run d(1))
  next
    case None
    then have rule: "(op_opcode node, tys, op_output_type node, op_domain node) \<in> set operator_rules"
      using rule by (simp add: node_rule_def)
    consider (req) "op_opcode node = ''require_secret''" "tys = [TSecretBool]" "op_output_type node = TVoid"
      | (opens) "op_opcode node = ''opening.pick''" "tys = [TSint]" "op_output_type node = TOpened"
      | (host) "op_opcode node \<in> {''host.receive_encrypted_token'', ''host.send_encrypted_token''}" "op_output_type node = TVoid"
      | (eval) "op_opcode node \<notin> {''load_state'', ''require_secret'', ''opening.pick'', ''host.receive_encrypted_token'',
          ''host.send_encrypted_token''}" "op_domain node \<in> {RFhe, RSecretSharing}" "op_output_type node \<noteq> TVoid"
      using rule by (auto simp: operator_rules_def)
    then show ?thesis
    proof cases
      case req
      then obtain c where c: "args = [c]" "mv_type c = TSecretBool" "valid c" using args by (auto simp: map_eq_Cons_conv)
      then show ?thesis
        using secret_bool [OF c(2, 3)] req
        by (cases "mb_secret_bool MB c") (auto simp: run first_argument_def has_type_def valid_void)
    next
      case opens
      then obtain c where c: "args = [c]" "mv_type c = TSint" "valid c" using args by (auto simp: map_eq_Cons_conv)
      then show ?thesis
        using pick [OF c(2, 3)] opens(1, 3)
        by (cases "mb_pick MB c") (auto simp: run first_argument_def has_type_def expect_value_type_def)
    next
      case host
      then show ?thesis by (auto simp: run has_type_def valid_void)
    next
      case eval
      have "outcome (\<lambda>v. mv_type v = op_output_type node \<and> valid v) (\<lambda>e. e = MOverflow \<or> e = MUnderflow)
          (mb_evaluate MB (op_opcode node) args)"
        using evaluate [OF rule eval(2, 3) args] .
      then show ?thesis
        using eval by (cases "mb_evaluate MB (op_opcode node) args") (auto simp: run has_type_def expect_value_type_def)
    qed
  qed
qed (use arguments_typed [OF vals refs] in \<open>auto simp: execute_operator_def\<close>)

lemma table_typed_update:
  assumes vals: "table_typed inputs ops vals" and node: "op_id node = ''op'' @ show_nat (length ops)"
    and ids: "\<forall>i < length ops. op_id (ops ! i) = ''op'' @ show_nat i" and out: "has_type (op_output_type node) out"
  shows "table_typed inputs (ops @ [node]) (vals(op_id node \<mapsto> out))"
proof -
  have fresh: "op_id old \<noteq> op_id node" if old: "old \<in> set ops" for old
  proof -
    obtain i where "i < length ops" "old = ops ! i" using old by (auto simp: in_set_conv_nth)
    then show ?thesis using ids node read_show_nat by (metis less_irrefl same_append_eq)
  qed
  have "strip_const (op_id node) = None" by (simp add: node strip_const_def)
  moreover have "\<exists>v. (vals(op_id node \<mapsto> out)) r = Some v \<and> has_type ty v"
    if r: "ref_typed inputs (ops @ [node]) r ty" "strip_const r = None" for r ty
  proof (cases "r = op_id node")
    case True
    consider "ty = op_output_type node" | old where "old \<in> set ops" "r = op_id old"
      using r(1) True by (auto simp: ref_typed_def node)
    then have "ty = op_output_type node" using fresh True by cases auto
    then show ?thesis using True out by simp
  next
    case False
    then have "ref_typed inputs ops r ty" using r(1) by (auto simp: ref_typed_def)
    then show ?thesis using vals r(2) False by (auto simp: table_typed_def)
  qed
  ultimately show ?thesis using vals by (auto simp: table_typed_def)
qed

lemma run_operators_typed:
  assumes m: "manifest_typed m" and load: "load_typed m load"
  shows "nodes_typed (cm_state m) inputs (ops @ rest) \<Longrightarrow> table_typed inputs ops vals \<Longrightarrow>
    outcome (\<lambda>(vals, _). table_typed inputs (ops @ rest) vals) (\<lambda>e. \<exists>node \<in> set rest. step_error node e)
      (run_operators m load MB rest (vals, calls))"
proof (induction rest arbitrary: ops vals calls)
  case Nil
  then show ?case by (simp add: run_operators_def)
next
  case (Cons node rest)
  note node = nodes_typed_middle [OF Cons.prems(1)]
  have ids: "\<forall>i < length ops. op_id (ops ! i) = ''op'' @ show_nat i" by (rule nodes_typed_ids [OF Cons.prems(1)])
  have step: "outcome (\<lambda>(v, _). has_type (op_output_type node) v) (step_error node) (execute_operator m load MB node vals calls)"
    using execute_operator_typed [OF m load Cons.prems(2)] node(2) by blast
  show ?case
  proof (cases "execute_operator m load MB node vals calls")
    case (Ok out)
    obtain v calls' where v: "out = (v, calls')" by fastforce
    have "table_typed inputs (ops @ [node]) (vals(op_id node \<mapsto> v))"
      using table_typed_update [OF Cons.prems(2) node(1) ids] step Ok v by simp
    then have "outcome (\<lambda>(vals, _). table_typed inputs (ops @ node # rest) vals) (\<lambda>e. \<exists>node \<in> set rest. step_error node e)
        (run_operators m load MB rest (vals(op_id node \<mapsto> v), calls'))"
      using Cons.IH [of "ops @ [node]"] Cons.prems(1) by simp
    then show ?thesis using Ok v by (auto simp: run_operators_def elim: outcome_mono)
  qed (use step in \<open>auto simp: run_operators_def\<close>)
qed

lemma not_literal: "table_typed inputs ops vals \<Longrightarrow> ref_typed inputs ops r ty \<Longrightarrow> ty \<noteq> TUint \<Longrightarrow> strip_const r = None"
  by (auto simp: table_typed_def ref_typed_def) (auto simp: strip_const_def)

lemma plan_write_typed:
  assumes m: "manifest_typed m" and vals: "table_typed inputs ops vals" and w: "write_typed (cm_state m) inputs ops w"
  shows "\<exists>cw. plan_write m vals w = Ok cw
     \<and> (\<exists>d \<in> set (cm_state m). cw_state cw = sm_name d \<and> has_type (sm_value_type d) (cw_value cw))"
proof -
  obtain d where d: "d \<in> set (cm_state m)" "sm_name d = sw_state w" "ref_typed inputs ops (sw_value w) (sm_value_type d)"
    and key: "case sw_key w of None \<Rightarrow> sm_key_type d = None
           | Some k \<Rightarrow> (\<exists>ty. sm_key_type d = Some ty \<and> ref_typed inputs ops k ty)"
    using w by (auto simp: write_typed_def)
  have found: "manifest_state m (sw_state w) = Ok d"
    using m d(1, 2) by (auto simp: manifest_state_def manifest_typed_def dest: find_named [where f = sm_name])
  have st: "sm_value_type d \<in> {TFheUint, TSint}" "sm_key_type d \<in> {None, Some TAddress}"
    using m d(1) by (auto simp: manifest_typed_def state_typed_def list_all_iff)
  obtain v where v: "resolve vals (sw_value w) = Ok v" "has_type (sm_value_type d) v"
    using resolve_typed [OF vals d(3) not_literal [OF vals d(3)]] st by auto
  have "\<exists>k. (case (sw_key w, sm_key_type d) of
              (Some r, Some TAddress) \<Rightarrow> bindR (resolve vals r) mv_state_key
            | (None, None) \<Rightarrow> Ok []
            | _ \<Rightarrow> Err MInvalidStateKey) = Ok k"
  proof (cases "sw_key w")
    case None
    then show ?thesis using key by simp
  next
    case (Some r)
    then have r: "sm_key_type d = Some TAddress" "ref_typed inputs ops r TAddress" using key st by auto
    then obtain a where a: "resolve vals r = Ok a" "has_type TAddress a"
      using resolve_typed [OF vals r(2) not_literal [OF vals r(2)]] by auto
    then show ?thesis using Some r(1) valid_address [of a] by (simp add: mv_state_key_def has_type_def)
  qed
  then obtain k where "plan_write m vals w = Ok \<lparr>cw_state = sw_state w, cw_key = k, cw_value = v\<rparr>"
    using v by (auto simp: plan_write_def found has_type_def)
  then show ?thesis using v(2) d(1, 2) by (auto intro!: bexI [of _ d])
qed

lemma initial_values_typed:
  assumes ok: "validate_inputs fm inputs = Ok u" and valid: "\<forall>(x, v) \<in> set inputs. valid v" and sender: "length sender = 20"
  shows "\<exists>vals. initial_values sender fm inputs = Ok vals \<and> table_typed (fm_inputs fm) [] vals"
proof -
  have got: "\<exists>v. bt_get (ai_name p) inputs = Some v \<and> has_type (ai_source_type p) v" if p: "p \<in> set (fm_inputs fm)" for p
  proof -
    obtain v where v: "bt_get (ai_name p) inputs = Some v" "mv_type v = ai_source_type p"
      using validate_inputs_Ok [OF ok p] by auto
    then have "(ai_name p, v) \<in> set inputs" by (auto dest: bt_get_member)
    then show ?thesis using v valid by (auto simp: has_type_def)
  qed
  have "has_type TAddress (mv_address sender)"
    using valid_address [of "mv_address sender"] sender by (simp add: has_type_def mv_address_def)
  then show ?thesis
    using initial_values_eq [of fm inputs sender] got
    by (fastforce simp: table_typed_def ref_typed_def strip_const_def)
qed

definition outcome_typed :: "contract_manifest \<Rightarrow> execution_outcome \<Rightarrow> bool" where
  "outcome_typed m out \<longleftrightarrow>
     (\<forall>w \<in> set (eo_state_writes out). \<exists>d \<in> set (cm_state m). cw_state w = sm_name d \<and> has_type (sm_value_type d) (cw_value w))
     \<and> (\<forall>v. eo_opening out = Some v \<longrightarrow> has_type TOpened v)"

lemma evaluate_typed:
  assumes m: "manifest_typed m" and load: "load_typed m load"
    and f: "List.find (\<lambda>f. fm_name f = function_name) (cm_functions m) = Some fm"
    and inputs: "validate_inputs fm inputs = Ok u" "\<forall>(x, v) \<in> set inputs. valid v" and sender: "length sender = 20"
  shows "outcome (outcome_typed m) (run_error fm) (manifest_evaluate m load MB function_name sender inputs)"
proof -
  have "fm \<in> set (cm_functions m)" using f by (auto simp: find_Some_iff)
  then have fm: "nodes_typed (cm_state m) (fm_inputs fm) ([] @ fm_operators fm)"
      "list_all (write_typed (cm_state m) (fm_inputs fm) (fm_operators fm)) (fm_state_writes fm)"
      "opening_typed (fm_inputs fm) (fm_operators fm) (fm_opening_output fm)"
    using m by (auto simp: manifest_typed_def list_all_iff function_typed_def)
  obtain vals where vals: "initial_values sender fm inputs = Ok vals" "table_typed (fm_inputs fm) [] vals"
    using initial_values_typed [OF inputs sender] by auto
  note run = run_operators_typed [OF m load fm(1) vals(2), where calls = "[]"]
  show ?thesis
  proof (cases "run_operators m load MB (fm_operators fm) (vals, [])")
    case (Ok r)
    obtain vals' calls where r: "r = (vals', calls)" by fastforce
    then have vals': "table_typed (fm_inputs fm) (fm_operators fm) vals'" using run Ok by simp
    have writes: "outcome (list_all (\<lambda>cw. \<exists>d \<in> set (cm_state m). cw_state cw = sm_name d \<and> has_type (sm_value_type d) (cw_value cw)))
        (\<lambda>_. False) (mapR (plan_write m vals') (fm_state_writes fm))"
      using fm(2) by (intro outcome_mapR) (use plan_write_typed [OF m vals'] in \<open>fastforce simp: list_all_iff\<close>)
    have opened: "outcome (\<lambda>o'. \<forall>v. o' = Some v \<longrightarrow> has_type TOpened v) (\<lambda>_. False)
       (case fm_opening_output fm of None \<Rightarrow> Ok None | Some r \<Rightarrow> bindR (resolve vals' r) (\<lambda>v. Ok (Some v)))"
      using fm(3) resolve_typed [OF vals' _ not_literal [OF vals']]
      by (fastforce simp: opening_typed_def split: option.splits)
    show ?thesis
      using writes opened
      by (cases "mapR (plan_write m vals') (fm_state_writes fm)";
          cases "case fm_opening_output fm of None \<Rightarrow> Ok None | Some r \<Rightarrow> bindR (resolve vals' r) (\<lambda>v. Ok (Some v))")
        (auto simp: manifest_evaluate_def f inputs vals Ok r outcome_typed_def list_all_iff)
  qed (use run in \<open>auto simp: manifest_evaluate_def f inputs vals run_error_def\<close>)
qed

end

section \<open>The development backend is a backend\<close>

definition plain_valid :: "manifest_value \<Rightarrow> bool" where
  "plain_valid v =
     (case mv_type v of
        TAddress \<Rightarrow> length (mv_bytes v) = 20
      | TUint \<Rightarrow> length (mv_bytes v) = 16
      | TFheUint \<Rightarrow> is_ok (mv_decode_u128 v FHE_UINT_PREFIX)
      | TFheBool \<Rightarrow> is_ok (mv_decode_bool v FHE_BOOL_PREFIX)
      | TSint \<Rightarrow> is_ok (mv_decode_u128 v SS_UINT_PREFIX)
      | TSecretBool \<Rightarrow> is_ok (mv_decode_bool v SS_BOOL_PREFIX)
      | TOpened \<Rightarrow> is_ok (mv_decode_u128 v OPENED_PREFIX)
      | TVoid \<Rightarrow> mv_bytes v = [])"

lemma is_ok_iff: "is_ok r \<longleftrightarrow> (\<exists>x. r = Ok x)"
  by (cases r) auto

lemma decode_encoded [simp]:
  "mv_decode_u128 (encoded ty prefix (u128_be n)) prefix = Ok n"
  "mv_decode_bool (encoded ty prefix' (bool_byte b)) prefix' = Ok b"
  by (simp_all add: mv_decode_u128_def mv_decode_bool_def encoded_def starts_with_def bool_byte_def nth_append)

lemma mv_type_encoded [simp]: "mv_type (encoded ty prefix payload) = ty"
  by (simp add: encoded_def)

lemma plain_valid_encoded [simp]:
  "plain_valid (fhe_uint n)" "plain_valid (secret_uint n)" "mv_type (fhe_uint n) = TFheUint" "mv_type (secret_uint n) = TSint"
  "plain_valid (encoded TFheBool FHE_BOOL_PREFIX (bool_byte b))"
  "plain_valid (encoded TSecretBool SS_BOOL_PREFIX (bool_byte b))"
  "plain_valid (encoded TOpened OPENED_PREFIX (u128_be n))"
  by (simp_all add: plain_valid_def fhe_uint_def secret_uint_def)

lemma plain_evaluate_one:
  assumes rule: "(opcode, [mv_type a], ty, domn) \<in> set operator_rules" and kind: "domn \<in> {RFhe, RSecretSharing}" "ty \<noteq> TVoid"
    and valid: "plain_valid a"
  shows "\<exists>v. plain_evaluate opcode [a] = Ok v \<and> mv_type v = ty \<and> plain_valid v"
proof -
  consider (enc) "opcode = ''fhe.encrypt''" "mv_type a = TUint" "ty = TFheUint"
    | (h2s) "opcode = ''convert.h2s''" "mv_type a = TFheUint" "ty = TSint"
    | (h2s_bool) "opcode = ''convert.h2s''" "mv_type a = TFheBool" "ty = TSecretBool"
    | (s2h) "opcode = ''convert.s2h''" "mv_type a = TSint" "ty = TFheUint"
    using rule kind by (auto simp: operator_rules_def)
  then show ?thesis
    using valid
    by cases (auto simp: plain_evaluate_def one_def plain_valid_def [of a] is_ok_iff mv_public_u128_def)
qed

lemma plain_evaluate_two:
  assumes rule: "(opcode, [mv_type a, mv_type b], ty, domn) \<in> set operator_rules" and kind: "domn \<in> {RFhe, RSecretSharing}" "ty \<noteq> TVoid"
    and valid: "plain_valid a" "plain_valid b"
  shows "outcome (\<lambda>v. mv_type v = ty \<and> plain_valid v) (\<lambda>e. e = MOverflow \<or> e = MUnderflow) (plain_evaluate opcode [a, b])"
proof -
  have arith: "\<exists>l r. two_u128 [a, b] FHE_UINT_PREFIX = Ok (l, r)" if "mv_type a = TFheUint" "mv_type b = TFheUint"
    using valid that by (auto simp: plain_valid_def is_ok_iff two_u128_def)
  have shared: "\<exists>l r. two_u128 [a, b] SS_UINT_PREFIX = Ok (l, r)" if "mv_type a = TSint" "mv_type b = TSint"
    using valid that by (auto simp: plain_valid_def is_ok_iff two_u128_def)
  let ?fhe = "mv_type a = TFheUint \<and> mv_type b = TFheUint
        \<and> (opcode, ty) \<in> {(''fhe.add'', TFheUint), (''fhe.sub'', TFheUint), (''fhe.ge'', TFheBool)}"
    and ?mpc = "mv_type a = TSint \<and> mv_type b = TSint
        \<and> (opcode, ty) \<in> {(''mpc.add'', TSint), (''mpc.sub'', TSint), (''mpc.ge'', TSecretBool)}"
  have "?fhe \<or> ?mpc"
    using rule kind(2) unfolding operator_rules_def list.set by (elim insertE emptyE) simp_all
  then show ?thesis
  proof (elim disjE)
    assume fhe: ?fhe
    then obtain l r where run: "two_u128 [a, b] FHE_UINT_PREFIX = Ok (l, r)" using arith by blast
    have "(opcode, ty) \<in> {(''fhe.add'', TFheUint), (''fhe.sub'', TFheUint), (''fhe.ge'', TFheBool)}" using fhe by blast
    then show ?thesis
      by (cases "checked_add l r"; cases "checked_sub l r"; elim insertE emptyE) (simp_all add: plain_evaluate_def run)
  next
    assume mpc: ?mpc
    then obtain l r where run: "two_u128 [a, b] SS_UINT_PREFIX = Ok (l, r)" using shared by blast
    have "(opcode, ty) \<in> {(''mpc.add'', TSint), (''mpc.sub'', TSint), (''mpc.ge'', TSecretBool)}" using mpc by blast
    then show ?thesis
      by (cases "checked_add l r"; cases "checked_sub l r"; elim insertE emptyE) (simp_all add: plain_evaluate_def run)
  qed
qed

lemma plain_evaluate_outcome:
  assumes rule: "(opcode, map mv_type args, ty, domn) \<in> set operator_rules" and kind: "domn \<in> {RFhe, RSecretSharing}" "ty \<noteq> TVoid"
    and valid: "list_all plain_valid args"
  shows "outcome (\<lambda>v. mv_type v = ty \<and> plain_valid v) (\<lambda>e. e = MOverflow \<or> e = MUnderflow) (plain_evaluate opcode args)"
proof -
  have "length (map mv_type args) = 1 \<or> length (map mv_type args) = 2" using rule by (auto simp: operator_rules_def)
  then consider (one) a where "args = [a]" | (two) a b where "args = [a, b]"
    by (auto simp: length_Suc_conv numeral_2_eq_2)
  then show ?thesis
  proof cases
    case one
    then show ?thesis using plain_evaluate_one [of opcode a ty domn] rule kind valid by auto
  next
    case two
    then show ?thesis using plain_evaluate_two [of opcode a b ty domn] rule kind valid by simp
  qed
qed

interpretation plain_manifest: manifest_backend plaintext_manifest_backend plain_valid
proof unfold_locales
  fix v
  show "mv_type v = TAddress \<Longrightarrow> plain_valid v \<longleftrightarrow> length (mv_bytes v) = 20" by (simp add: plain_valid_def)
  show "mv_type v = TSecretBool \<Longrightarrow> plain_valid v \<Longrightarrow>
      outcome (\<lambda>_. True) (\<lambda>_. False) (mb_secret_bool plaintext_manifest_backend v)"
    by (auto simp: plaintext_manifest_backend_def plain_secret_bool_def plain_valid_def is_ok_iff)
  show "mv_type v = TSint \<Longrightarrow> plain_valid v \<Longrightarrow>
      outcome (\<lambda>v. mv_type v = TOpened \<and> plain_valid v) (\<lambda>_. False) (mb_pick plaintext_manifest_backend v)"
    by (auto simp: plaintext_manifest_backend_def plain_pick_def plain_valid_def [of v] is_ok_iff)
next
  fix opcode tys ty domn and args :: "manifest_value list"
  assume "(opcode, tys, ty, domn) \<in> set operator_rules" "domn \<in> {RFhe, RSecretSharing}" "ty \<noteq> TVoid"
    "map mv_type args = tys" "list_all plain_valid args"
  then show "outcome (\<lambda>v. mv_type v = ty \<and> plain_valid v) (\<lambda>e. e = MOverflow \<or> e = MUnderflow)
      (mb_evaluate plaintext_manifest_backend opcode args)"
    using plain_evaluate_outcome [of opcode args ty domn] by (simp add: plaintext_manifest_backend_def)
qed (simp_all add: plain_valid_def mv_public_uint_def void_value_def)

definition cells_typed :: "contract_manifest \<Rightarrow> cells \<Rightarrow> bool" where
  "cells_typed m cs \<longleftrightarrow>
     (\<forall>d \<in> set (cm_state m). \<forall>key v. cs (sm_name d, key) = Some v \<longrightarrow> mv_type v = sm_value_type d \<and> plain_valid v)"

lemma cells_load_typed: "cells_typed m cs \<Longrightarrow> plain_manifest.load_typed m (cells_load cs)"
  unfolding plain_manifest.load_typed_def
proof (intro ballI allI)
  fix d key
  assume "cells_typed m cs" "d \<in> set (cm_state m)"
  then show "outcome (plain_manifest.has_type (sm_value_type d)) (\<lambda>e. e = MStateNotFound) (cells_load cs (sm_name d) key)"
    by (cases "cs (sm_name d, key)") (auto simp: cells_load_def cells_typed_def plain_manifest.has_type_def)
qed

lemma cells_commit_typed:
  assumes m: "manifest_typed m" and cs: "cells_typed m cs"
    and ws: "\<forall>w \<in> set ws. \<exists>d \<in> set (cm_state m). cw_state w = sm_name d \<and> plain_manifest.has_type (sm_value_type d) (cw_value w)"
  shows "cells_typed m (cells_commit ws cs)"
  using ws cs
proof (induction ws arbitrary: cs)
  case (Cons w ws)
  have same: "d = d'" if "d \<in> set (cm_state m)" "d' \<in> set (cm_state m)" "sm_name d = sm_name d'" for d d'
    using m that by (auto simp: manifest_typed_def distinct_map dest: inj_onD)
  have "cells_typed m (cs((cw_state w, cw_key w) \<mapsto> cw_value w))"
    using Cons.prems same by (fastforce simp: cells_typed_def plain_manifest.has_type_def)
  then show ?case using Cons.IH [of "cs((cw_state w, cw_key w) \<mapsto> cw_value w)"] Cons.prems(1) by (auto simp: cells_commit_def simp del: fun_upd_apply)
qed (simp add: cells_commit_def)

text \<open>
  C36. A function of a compiled contract, run with inputs of the declared types on a store that holds values
  of the declared types, either succeeds, leaving such a store, or fails without touching the store, and
  then only because of a missing cell, a rejected \<open>require\<close>, an arithmetic overflow or underflow, or a
  literal that is not a 128-bit number; it never stops on a type error, an unknown reference or a panic.
\<close>

theorem compiled_functions_run_safely:
  assumes compiled: "compile keccak source = Ok m"
    and f: "List.find (\<lambda>f. fm_name f = function_name) (cm_functions m) = Some fm"
    and inputs: "validate_inputs fm inputs = Ok ()" "\<forall>(x, v) \<in> set inputs. plain_valid v"
    and sender: "length sender = 20" and cs: "cells_typed m cs"
    and run: "manifest_execute m plaintext_manifest_backend function_name sender inputs cs = (r, cs')"
  shows "cells_typed m cs' \<and> (case r of
       Ok out \<Rightarrow> cs' = cells_commit (eo_state_writes out) cs
         \<and> (\<forall>v. eo_opening out = Some v \<longrightarrow> mv_type v = TOpened \<and> plain_valid v)
     | Err e \<Rightarrow> cs' = cs \<and> run_error fm e
     | Panic \<Rightarrow> False)"
proof -
  note m = compile_manifest_typed [OF compiled]
  note eval = plain_manifest.evaluate_typed [OF m cells_load_typed [OF cs] f inputs sender]
  show ?thesis
  proof (cases "manifest_evaluate m (cells_load cs) plaintext_manifest_backend function_name sender inputs")
    case (Ok out)
    then have "plain_manifest.outcome_typed m out" using eval by simp
    moreover have "r = Ok out" "cs' = cells_commit (eo_state_writes out) cs" using run Ok by (simp_all add: manifest_execute_def)
    ultimately show ?thesis
      using cells_commit_typed [OF m cs, of "eo_state_writes out"]
      by (simp add: plain_manifest.outcome_typed_def plain_manifest.has_type_def)
  next
    case (Err e)
    then have "r = Err e" "cs' = cs" using run by (simp_all add: manifest_execute_def)
    then show ?thesis using eval Err cs by simp
  next
    case Panic
    then show ?thesis using eval by simp
  qed
qed

end
