(* ===== verification/Token_Contract.thy ===== *)
theory Token_Contract
  imports Manifest_Runtime
begin

text \<open>
  \<open>examples/contracts/ConfidentialToken.ppsc\<close>, compiled by \<open>Compiler_Lower\<close> and run by
  \<open>Manifest_Runtime\<close>: the compiled contract implements a token ledger, self transfers excepted.

  \<open>token_program\<close> is the contract's syntax tree, \<open>token_manifest\<close> what it compiles to, \<open>token_spec\<close> the
  ledger it is meant to implement.
\<close>

section \<open>The contract\<close>

abbreviation own_balance :: expression where
  "own_balance \<equiv> EIndex ''balance'' (EName ''msg.sender'')"

abbreviation amount_param :: param where
  "amount_param \<equiv> \<lparr>pm_name = ''amount'', pm_ty = TFheUint\<rparr>"

definition token_program :: program where
  "token_program =
     \<lparr>pg_name = ''ConfidentialToken'', pg_states = [\<lparr>sd_name = ''balance'', sd_ty = TFheUint, sd_key_ty = Some TAddress\<rparr>],
      pg_functions =
       [\<lparr>fn_name = ''createAccount'', fn_params = [],
         fn_body = [SAssign own_balance (ECall ''FHE.encrypt'' [ENumber ''0''])]\<rparr>,
        \<lparr>fn_name = ''deposit'', fn_params = [amount_param],
         fn_body =
          [SExpression (ECall ''receiveEncryptedToken'' [EName ''amount'']),
           SAssign own_balance (ECall ''FHE.add'' [own_balance, EName ''amount''])]\<rparr>,
        \<lparr>fn_name = ''withdraw'', fn_params = [amount_param],
         fn_body =
          [SLocal TSecretBool ''sufficient'' (ECall ''H2S'' [ECall ''FHE.ge'' [own_balance, EName ''amount'']]),
           SRequire (EName ''sufficient''),
           SAssign own_balance (ECall ''FHE.sub'' [own_balance, EName ''amount'']),
           SExpression (ECall ''sendEncryptedToken'' [EName ''msg.sender'', EName ''amount''])]\<rparr>,
        \<lparr>fn_name = ''transfer'', fn_params = [\<lparr>pm_name = ''to'', pm_ty = TAddress\<rparr>, amount_param],
         fn_body =
          [SLocal TSecretBool ''sufficient'' (ECall ''H2S'' [ECall ''FHE.ge'' [own_balance, EName ''amount'']]),
           SRequire (EName ''sufficient''),
           SAssign own_balance (ECall ''FHE.sub'' [own_balance, EName ''amount'']),
           SAssign (EIndex ''balance'' (EName ''to'')) (ECall ''FHE.add'' [EIndex ''balance'' (EName ''to''), EName ''amount''])]\<rparr>,
        \<lparr>fn_name = ''getBalance'', fn_params = [],
         fn_body =
          [SLocal TSint ''balanceShare'' (ECall ''H2S'' [own_balance]),
           SReturn (ECall ''Pick'' [EName ''balanceShare''])]\<rparr>]\<rparr>"

section \<open>What it compiles to\<close>

definition node :: "nat \<Rightarrow> string \<Rightarrow> representation \<Rightarrow> string list \<Rightarrow> value_type \<Rightarrow> string option \<Rightarrow> operator_node" where
  "node i opcode domn inputs ty state =
     \<lparr>op_id = ''op'' @ show_nat i, op_opcode = opcode, op_domain = domn, op_inputs = inputs, op_output_type = ty,
      op_representation = representation_of ty, op_state = state\<rparr>"

definition code ::
  "(bytes \<Rightarrow> bytes) \<Rightarrow> string \<Rightarrow> param list \<Rightarrow> operator_node list \<Rightarrow> state_write list \<Rightarrow> string option \<Rightarrow> function_manifest"
where
  "code keccak name params ops writes opening =
     (let signature = name @ ''('' @ join_comma (map (ai_abi_type \<circ> abi_input_of) params) @ '')'' in
      \<lparr>fm_name = name, fm_signature = signature, fm_selector = selector keccak signature, fm_inputs = map abi_input_of params,
       fm_operators = ops, fm_state_writes = writes, fm_opening_output = opening\<rparr>)"

definition createAccount_code :: "(bytes \<Rightarrow> bytes) \<Rightarrow> function_manifest" where
  "createAccount_code keccak = code keccak ''createAccount'' []
     [node 0 ''fhe.encrypt'' RFhe [''const:0''] TFheUint None]
     [\<lparr>sw_state = ''balance'', sw_key = Some ''context:msg.sender'', sw_value = ''op0''\<rparr>] None"

definition deposit_code :: "(bytes \<Rightarrow> bytes) \<Rightarrow> function_manifest" where
  "deposit_code keccak = code keccak ''deposit'' [\<lparr>pm_name = ''amount'', pm_ty = TFheUint\<rparr>]
     [node 0 ''host.receive_encrypted_token'' RFhe [''input:amount''] TVoid None,
      node 1 ''load_state'' RFhe [''context:msg.sender''] TFheUint (Some ''balance''),
      node 2 ''fhe.add'' RFhe [''op1'', ''input:amount''] TFheUint None]
     [\<lparr>sw_state = ''balance'', sw_key = Some ''context:msg.sender'', sw_value = ''op2''\<rparr>] None"

definition withdraw_code :: "(bytes \<Rightarrow> bytes) \<Rightarrow> function_manifest" where
  "withdraw_code keccak = code keccak ''withdraw'' [\<lparr>pm_name = ''amount'', pm_ty = TFheUint\<rparr>]
     [node 0 ''load_state'' RFhe [''context:msg.sender''] TFheUint (Some ''balance''),
      node 1 ''fhe.ge'' RFhe [''op0'', ''input:amount''] TFheBool None,
      node 2 ''convert.h2s'' RSecretSharing [''op1''] TSecretBool None,
      node 3 ''require_secret'' RSecretSharing [''op2''] TVoid None,
      node 4 ''load_state'' RFhe [''context:msg.sender''] TFheUint (Some ''balance''),
      node 5 ''fhe.sub'' RFhe [''op4'', ''input:amount''] TFheUint None,
      node 6 ''host.send_encrypted_token'' RFhe [''context:msg.sender'', ''input:amount''] TVoid None]
     [\<lparr>sw_state = ''balance'', sw_key = Some ''context:msg.sender'', sw_value = ''op5''\<rparr>] None"

definition transfer_code :: "(bytes \<Rightarrow> bytes) \<Rightarrow> function_manifest" where
  "transfer_code keccak = code keccak ''transfer'' [\<lparr>pm_name = ''to'', pm_ty = TAddress\<rparr>, \<lparr>pm_name = ''amount'', pm_ty = TFheUint\<rparr>]
     [node 0 ''load_state'' RFhe [''context:msg.sender''] TFheUint (Some ''balance''),
      node 1 ''fhe.ge'' RFhe [''op0'', ''input:amount''] TFheBool None,
      node 2 ''convert.h2s'' RSecretSharing [''op1''] TSecretBool None,
      node 3 ''require_secret'' RSecretSharing [''op2''] TVoid None,
      node 4 ''load_state'' RFhe [''context:msg.sender''] TFheUint (Some ''balance''),
      node 5 ''fhe.sub'' RFhe [''op4'', ''input:amount''] TFheUint None,
      node 6 ''load_state'' RFhe [''input:to''] TFheUint (Some ''balance''),
      node 7 ''fhe.add'' RFhe [''op6'', ''input:amount''] TFheUint None]
     [\<lparr>sw_state = ''balance'', sw_key = Some ''context:msg.sender'', sw_value = ''op5''\<rparr>,
      \<lparr>sw_state = ''balance'', sw_key = Some ''input:to'', sw_value = ''op7''\<rparr>] None"

definition getBalance_code :: "(bytes \<Rightarrow> bytes) \<Rightarrow> function_manifest" where
  "getBalance_code keccak = code keccak ''getBalance'' []
     [node 0 ''load_state'' RFhe [''context:msg.sender''] TFheUint (Some ''balance''),
      node 1 ''convert.h2s'' RSecretSharing [''op0''] TSint None,
      node 2 ''opening.pick'' RPublic [''op1''] TOpened None]
     [] (Some ''op2'')"

definition token_manifest :: "(bytes \<Rightarrow> bytes) \<Rightarrow> contract_manifest" where
  "token_manifest keccak =
     \<lparr>cm_language_version = 1, cm_contract = ''ConfidentialToken'',
      cm_state = [\<lparr>sm_name = ''balance'', sm_value_type = TFheUint, sm_key_type = Some TAddress, sm_representation = RFhe\<rparr>],
      cm_functions = [createAccount_code keccak, deposit_code keccak, withdraw_code keccak, transfer_code keccak,
        getBalance_code keccak]\<rparr>"

lemmas token_codes = createAccount_code_def deposit_code_def withdraw_code_def transfer_code_def getBalance_code_def

lemma show_small [simp]:
  "show_nat 0 = ''0''"
  "show_nat (Suc 0) = ''1''"
  "show_nat (Suc (Suc 0)) = ''2''" "show_nat 2 = ''2''"
  "show_nat (Suc (Suc (Suc 0))) = ''3''" "show_nat 3 = ''3''"
  "show_nat (Suc (Suc (Suc (Suc 0)))) = ''4''" "show_nat 4 = ''4''"
  "show_nat (Suc (Suc (Suc (Suc (Suc 0))))) = ''5''" "show_nat 5 = ''5''"
  "show_nat (Suc (Suc (Suc (Suc (Suc (Suc 0)))))) = ''6''" "show_nat 6 = ''6''"
  "show_nat (Suc (Suc (Suc (Suc (Suc (Suc (Suc 0))))))) = ''7''" "show_nat 7 = ''7''"
  by code_simp+

lemma compile_token_program: "compile_program keccak token_program = Ok (token_manifest keccak)"
  by (simp add: compile_program_def token_program_def token_manifest_def token_codes code_def node_def declare_state_def
      lower_function_def lowerer_new_def find_state_def expect_type_def operation_def check_arguments_def lower_assignment_def
      push_node_def add_write_def abi_input_of_def Let_def)

section \<open>The ledger it implements\<close>

datatype token_call = CreateAccount | Deposit u128 | Withdraw u128 | Transfer bytes u128 | GetBalance

fun call_name :: "token_call \<Rightarrow> string" where
  "call_name CreateAccount = ''createAccount''"
| "call_name (Deposit n) = ''deposit''"
| "call_name (Withdraw n) = ''withdraw''"
| "call_name (Transfer to n) = ''transfer''"
| "call_name GetBalance = ''getBalance''"

fun call_inputs :: "token_call \<Rightarrow> invocation_inputs" where
  "call_inputs CreateAccount = []"
| "call_inputs (Deposit n) = [(''amount'', fhe_uint n)]"
| "call_inputs (Withdraw n) = [(''amount'', fhe_uint n)]"
| "call_inputs (Transfer to n) = [(''amount'', fhe_uint n), (''to'', mv_address to)]"
| "call_inputs GetBalance = []"

type_synonym token_ledger = "bytes \<rightharpoonup> u128"

text \<open>
  The new ledger, the token movements asked of the host and the opened value.  A transfer reads both
  balances before it writes either.
\<close>

fun token_spec ::
  "bytes \<Rightarrow> token_call \<Rightarrow> token_ledger \<Rightarrow> (manifest_runtime_error, token_ledger \<times> host_call list \<times> u128 option) res"
where
  "token_spec s CreateAccount bal = Ok (bal(s \<mapsto> 0), [], None)"
| "token_spec s (Deposit n) bal =
     bindR (ok_or MStateNotFound (bal s)) (\<lambda>b.
     bindR (ok_or MOverflow (checked_add b n)) (\<lambda>c.
       Ok (bal(s \<mapsto> c), [\<lparr>hc_opcode = ''host.receive_encrypted_token'', hc_arguments = [fhe_uint n]\<rparr>], None)))"
| "token_spec s (Withdraw n) bal =
     bindR (ok_or MStateNotFound (bal s)) (\<lambda>b.
       if b < n then Err MPolicyRejected
       else Ok (bal(s \<mapsto> b - n), [\<lparr>hc_opcode = ''host.send_encrypted_token'', hc_arguments = [mv_address s, fhe_uint n]\<rparr>], None))"
| "token_spec s (Transfer to n) bal =
     bindR (ok_or MStateNotFound (bal s)) (\<lambda>b.
       if b < n then Err MPolicyRejected
       else bindR (ok_or MStateNotFound (bal to)) (\<lambda>u.
            bindR (ok_or MOverflow (checked_add u n)) (\<lambda>c. Ok (bal(s \<mapsto> b - n, to \<mapsto> c), [], None))))"
| "token_spec s GetBalance bal = bindR (ok_or MStateNotFound (bal s)) (\<lambda>b. Ok (bal, [], Some b))"

definition token_cells :: "token_ledger \<Rightarrow> cells \<Rightarrow> bool" where
  "token_cells bal cs \<longleftrightarrow> (\<forall>a. cs (''balance'', a) = map_option fhe_uint (bal a))"

definition token_result ::
  "cells \<Rightarrow> (manifest_runtime_error, token_ledger \<times> host_call list \<times> u128 option) res \<Rightarrow>
     (manifest_runtime_error, execution_outcome) res \<times> cells \<Rightarrow> bool"
where
  "token_result cs expected run \<longleftrightarrow>
     (case expected of
        Ok (bal, calls, opened) \<Rightarrow>
          (\<exists>out. fst run = Ok out \<and> token_cells bal (snd run) \<and> eo_host_calls out = calls
             \<and> eo_opening out = map_option (\<lambda>b. encoded TOpened OPENED_PREFIX (u128_be b)) opened)
      | Err e \<Rightarrow> run = (Err e, cs)
      | Panic \<Rightarrow> False)"

lemmas run_defs = manifest_execute_def manifest_evaluate_def token_manifest_def token_codes code_def node_def
  validate_inputs_def initial_values_def run_operators_def execute_operator_def resolve_owned_def resolve_def strip_const_def
  abi_input_of_def load_state_def manifest_state_def first_argument_def mv_state_key_def expect_value_type_def cells_load_def
  plan_write_def plaintext_manifest_backend_def Let_def

lemma plain_steps [simp]:
  "plain_evaluate ''fhe.encrypt'' [mv_public_uint v] = Ok (fhe_uint v)"
  "plain_evaluate ''fhe.add'' [fhe_uint l, fhe_uint r] = bindR (ok_or MOverflow (checked_add l r)) (\<lambda>n. Ok (fhe_uint n))"
  "plain_evaluate ''fhe.sub'' [fhe_uint l, fhe_uint r] = bindR (ok_or MUnderflow (checked_sub l r)) (\<lambda>n. Ok (fhe_uint n))"
  "plain_evaluate ''fhe.ge'' [fhe_uint l, fhe_uint r] = Ok (encoded TFheBool FHE_BOOL_PREFIX (bool_byte (r \<le> l)))"
  "plain_evaluate ''convert.h2s'' [fhe_uint v] = Ok (secret_uint v)"
  "plain_evaluate ''convert.h2s'' [encoded TFheBool FHE_BOOL_PREFIX (bool_byte b)] = Ok (encoded TSecretBool SS_BOOL_PREFIX (bool_byte b))"
  "plain_secret_bool (encoded TSecretBool SS_BOOL_PREFIX (bool_byte b)) = Ok b"
  "plain_pick (secret_uint v) = Ok (encoded TOpened OPENED_PREFIX (u128_be v))"
  by (simp_all add: plain_evaluate_def one_def two_u128_def mv_public_u128_def plain_secret_bool_def plain_pick_def
      fhe_uint_def secret_uint_def) (simp_all add: mv_public_uint_def)

lemma address_fields [simp]: "mv_type (mv_address a) = TAddress" "mv_bytes (mv_address a) = a"
  by (simp_all add: mv_address_def)

lemma token_cells_at: "token_cells bal cs \<Longrightarrow> cs (''balance'', a) = map_option fhe_uint (bal a)"
  by (simp add: token_cells_def)

abbreviation token_run :: "(bytes \<Rightarrow> bytes) \<Rightarrow> bytes \<Rightarrow> token_call \<Rightarrow> cells \<Rightarrow> (manifest_runtime_error, execution_outcome) res \<times> cells" where
  "token_run keccak s call cs \<equiv>
     manifest_execute (token_manifest keccak) plaintext_manifest_backend (call_name call) s (call_inputs call) cs"

lemmas write_defs = token_result_def cells_commit_def token_cells_def

lemma parse_zero [simp]: "parse_u128 ''0'' = Some 0"
  by (simp add: parse_u128_def is_digit_def)

lemma token_create:
  assumes "length s = 20" and "token_cells bal cs"
  shows "token_result cs (token_spec s CreateAccount bal) (token_run keccak s CreateAccount cs)"
  using assms by (simp add: run_defs write_defs)

lemma token_deposit:
  assumes "length s = 20" and "token_cells bal cs"
  shows "token_result cs (token_spec s (Deposit n) bal) (token_run keccak s (Deposit n) cs)"
proof (cases "bal s")
  case None
  then show ?thesis using assms token_cells_at [OF assms(2), of s] by (simp add: run_defs write_defs)
next
  case (Some b)
  then show ?thesis
    using assms token_cells_at [OF assms(2), of s] by (cases "checked_add b n") (simp_all add: run_defs write_defs)
qed

lemma checked_sub_le: "n \<le> b \<Longrightarrow> checked_sub b n = Some (b - n)"
  by (simp add: checked_sub_def)

lemma token_withdraw:
  assumes "length s = 20" and "token_cells bal cs"
  shows "token_result cs (token_spec s (Withdraw n) bal) (token_run keccak s (Withdraw n) cs)"
proof (cases "bal s")
  case None
  then show ?thesis using assms token_cells_at [OF assms(2), of s] by (simp add: run_defs write_defs)
next
  case (Some b)
  then show ?thesis
    using assms token_cells_at [OF assms(2), of s]
    by (cases "n \<le> b") (simp_all add: run_defs write_defs checked_sub_le not_less not_le)
qed

lemma token_transfer:
  assumes "length s = 20" and "length to = 20" and "token_cells bal cs"
  shows "token_result cs (token_spec s (Transfer to n) bal) (token_run keccak s (Transfer to n) cs)"
proof (cases "bal s")
  case None
  then show ?thesis using assms token_cells_at [OF assms(3), of s] by (simp add: run_defs write_defs)
next
  case (Some b)
  note at = token_cells_at [OF assms(3), of s] token_cells_at [OF assms(3), of to]
  show ?thesis
  proof (cases "n \<le> b")
    case False
    then show ?thesis using assms Some at by (simp add: run_defs write_defs not_le)
  next
    case True
    then show ?thesis
    proof (cases "bal to")
      case None
      then show ?thesis using True assms Some at by (simp add: run_defs write_defs checked_sub_le)
    next
      case (Some u)
      then show ?thesis
        using True assms \<open>bal s = Some b\<close> at
        by (cases "checked_add u n") (simp_all add: run_defs write_defs checked_sub_le)
    qed
  qed
qed

lemma token_balance:
  assumes "length s = 20" and "token_cells bal cs"
  shows "token_result cs (token_spec s GetBalance bal) (token_run keccak s GetBalance cs)"
  using assms token_cells_at [OF assms(2), of s] by (cases "bal s") (simp_all add: run_defs write_defs)

section \<open>The compiled contract\<close>

lemma token_call_runs:
  assumes "length s = 20" and "\<And>to n. call = Transfer to n \<Longrightarrow> length to = 20" and "token_cells bal cs"
  shows "token_result cs (token_spec s call bal) (token_run keccak s call cs)"
  using assms by (cases call) (simp_all only: token_create token_deposit token_withdraw token_transfer token_balance)

lemma compile_token: "parse source = Ok token_program \<Longrightarrow> compile keccak source = Ok (token_manifest keccak)"
  by (simp add: compile_def compile_token_program)

lemma token_program_printable: "printable_program token_program" "list_all good_kind (unparse_program token_program)"
proof -
  show "printable_program token_program"
    by (simp add: printable_program_def token_program_def printable_type_def value_type_parse_def)
  show "list_all good_kind (unparse_program token_program)"
    by (simp add: token_program_def unparse_program_def unparse_state_decl_def unparse_function_def
        is_ident_start_def is_ident_char_def is_alpha_def is_digit_def symbol_chars_def Let_def)
qed

text \<open>
  C35. The compiled token contract implements the ledger \<open>token_spec\<close>: every call ends as the ledger
  does, with the same error and the cells untouched, or with the cells of the new ledger, the ledger's host
  calls and its opened balance.
\<close>

theorem token_contract_implements_ledger:
  assumes "parse source = Ok token_program" and "compile keccak source = Ok m"
    and "length s = 20" and "\<And>to n. call = Transfer to n \<Longrightarrow> length to = 20" and "token_cells bal cs"
  shows "token_result cs (token_spec s call bal)
     (manifest_execute m plaintext_manifest_backend (call_name call) s (call_inputs call) cs)"
proof -
  have "m = token_manifest keccak" using assms(1, 2) by (simp add: compile_token)
  then show ?thesis using token_call_runs [OF assms(3-5)] by simp
qed

definition ledger_total :: "token_ledger \<Rightarrow> nat" where
  "ledger_total bal = (\<Sum>a \<in> dom bal. unat (the (bal a)))"

lemma ledger_total_update:
  assumes "finite (dom bal)" and "bal a = Some v"
  shows "ledger_total (bal(a \<mapsto> w)) + unat v = ledger_total bal + unat w"
proof -
  have total: "ledger_total b = unat (the (b a)) + (\<Sum>x \<in> dom bal - {a}. unat (the (b x)))" if "dom b = dom bal" for b
    using sum.remove [of "dom bal" a] assms that by (simp add: ledger_total_def domI)
  have "(\<Sum>x \<in> dom bal - {a}. unat (the ((bal(a \<mapsto> w)) x))) = (\<Sum>x \<in> dom bal - {a}. unat (the (bal x)))"
    by (rule sum.cong) auto
  then show ?thesis using total [of bal] total [of "bal(a \<mapsto> w)"] assms(2) by (simp add: insert_absorb domI)
qed

text \<open>A transfer that succeeds keeps the sum of all balances, unless the sender pays himself: then the
  second write, computed from the balance before the first, raises the sum by the amount.
\<close>

theorem token_transfer_total:
  assumes "parse source = Ok token_program" and "compile keccak source = Ok m"
    and "length s = 20" and "length to = 20" and "token_cells bal cs" and "finite (dom bal)"
    and "manifest_execute m plaintext_manifest_backend ''transfer'' s (call_inputs (Transfer to n)) cs = (Ok out, cs')"
  shows "\<exists>bal'. token_cells bal' cs' \<and> ledger_total bal' = ledger_total bal + (if to = s then unat n else 0)"
proof -
  have "m = token_manifest keccak" using assms(1, 2) by (simp add: compile_token)
  then have run: "token_result cs (token_spec s (Transfer to n) bal) (Ok out, cs')"
    using token_transfer [OF assms(3-5), of n keccak] assms(7) by simp
  then obtain b u c where bal: "bal s = Some b" "n \<le> b" "bal to = Some u" "checked_add u n = Some c"
      "token_cells (bal(s \<mapsto> b - n, to \<mapsto> c)) cs'"
    by (cases "bal s"; cases "bal to"; cases "checked_add (the (bal to)) n")
      (auto simp: token_result_def not_less split: if_splits)
  have c: "unat c = unat u + unat n" using bal(4) by (simp add: checked_add_Some)
  have first: "ledger_total (bal(s \<mapsto> b - n)) + unat b = ledger_total bal + unat (b - n)" "unat (b - n) + unat n = unat b"
    using ledger_total_update [OF assms(6) bal(1)] bal(2) by (simp_all add: unat_sub_if_size word_le_nat_alt)
  show ?thesis
  proof (cases "to = s")
    case True
    have "ledger_total (bal(s \<mapsto> c)) + unat b = ledger_total bal + unat c" by (rule ledger_total_update [OF assms(6) bal(1)])
    then show ?thesis using True c bal by (intro exI [of _ "bal(s \<mapsto> c)"]) simp
  next
    case False
    have "ledger_total (bal(s \<mapsto> b - n, to \<mapsto> c)) + unat u = ledger_total (bal(s \<mapsto> b - n)) + unat c"
      by (rule ledger_total_update) (use False assms(6) bal in simp_all)
    then show ?thesis using False first c bal(5) by (intro exI [of _ "bal(s \<mapsto> b - n, to \<mapsto> c)"]) simp
  qed
qed

section \<open>Witnesses\<close>

abbreviation zero_keccak :: "bytes \<Rightarrow> bytes" where
  "zero_keccak \<equiv> (\<lambda>_. replicate 32 0)"

definition alice :: bytes where "alice = replicate 20 1"

definition sample_cells :: cells where
  "sample_cells = [(''balance'', alice) \<mapsto> fhe_uint 7]"

lemma sample_cells: "token_cells [alice \<mapsto> 7] sample_cells"
  by (simp add: token_cells_def sample_cells_def)

lemma parse_token: "parse (source_of token_program) = Ok token_program"
  by (rule parse_source_of [OF token_program_printable])

lemma length_alice: "length alice = 20"
  by (simp add: alice_def)

lemma token_contract_implements_ledger_witness:
  "token_result sample_cells (Ok ([alice \<mapsto> 5], [\<lparr>hc_opcode = ''host.send_encrypted_token'', hc_arguments = [mv_address alice, fhe_uint 2]\<rparr>], None))
     (manifest_execute (token_manifest zero_keccak) plaintext_manifest_backend ''withdraw'' alice [(''amount'', fhe_uint 2)] sample_cells)"
proof -
  have spec: "token_spec alice (Withdraw 2) [alice \<mapsto> 7]
      = Ok ([alice \<mapsto> 5], [\<lparr>hc_opcode = ''host.send_encrypted_token'', hc_arguments = [mv_address alice, fhe_uint 2]\<rparr>], None)"
    by simp
  have "token_result sample_cells (token_spec alice (Withdraw 2) [alice \<mapsto> 7])
     (manifest_execute (token_manifest zero_keccak) plaintext_manifest_backend (call_name (Withdraw 2)) alice
       (call_inputs (Withdraw 2)) sample_cells)"
    by (rule token_contract_implements_ledger [OF parse_token compile_token [OF parse_token] length_alice _ sample_cells]) simp
  then show ?thesis unfolding spec call_name.simps call_inputs.simps .
qed

lemma token_transfer_total_witness:
  "\<exists>out cs' bal'. manifest_execute (token_manifest zero_keccak) plaintext_manifest_backend ''transfer'' alice
       [(''amount'', fhe_uint 2), (''to'', mv_address alice)] sample_cells = (Ok out, cs')
     \<and> token_cells bal' cs' \<and> ledger_total bal' = 9"
proof -
  have "token_result sample_cells (Ok ([alice \<mapsto> 9], [], None)) (token_run zero_keccak alice (Transfer alice 2) sample_cells)"
    using token_transfer [OF length_alice length_alice sample_cells, of 2 zero_keccak] by (simp add: checked_add_def)
  then obtain out cs' where run: "token_run zero_keccak alice (Transfer alice 2) sample_cells = (Ok out, cs')"
    by (auto simp: token_result_def prod_eq_iff)
  have "finite (dom [alice \<mapsto> (7 :: u128)])" "ledger_total [alice \<mapsto> 7] = 7" by (simp_all add: ledger_total_def)
  then show ?thesis
    using run token_transfer_total [OF parse_token compile_token [OF parse_token] length_alice length_alice sample_cells,
        where n = 2 and keccak = zero_keccak and out = out and cs' = cs'] by auto
qed

lemma compiled_functions_run_safely_witness:
  "\<exists>r cs'. manifest_execute (token_manifest zero_keccak) plaintext_manifest_backend ''deposit'' alice [(''amount'', fhe_uint 2)] sample_cells
       = (r, cs') \<and> cells_typed (token_manifest zero_keccak) cs'"
proof -
  obtain r cs' where run: "manifest_execute (token_manifest zero_keccak) plaintext_manifest_backend ''deposit'' alice
      [(''amount'', fhe_uint 2)] sample_cells = (r, cs')"
    by fastforce
  have f: "List.find (\<lambda>f. fm_name f = ''deposit'') (cm_functions (token_manifest zero_keccak)) = Some (deposit_code zero_keccak)"
    by (simp add: token_manifest_def token_codes code_def Let_def)
  have inputs: "validate_inputs (deposit_code zero_keccak) [(''amount'', fhe_uint 2)] = Ok ()"
    by (simp add: validate_inputs_def deposit_code_def code_def abi_input_of_def Let_def)
  have "cells_typed (token_manifest zero_keccak) sample_cells"
    by (simp add: cells_typed_def token_manifest_def sample_cells_def)
  then show ?thesis
    using compiled_functions_run_safely [OF compile_token [OF parse_token] f inputs _ length_alice _ run] run by auto
qed

end
