(* ===== verification/Postgres_Store.thy ===== *)
theory Postgres_Store
  imports Manifest_Runtime "HOL-Library.Product_Lexorder"
begin

text \<open>
  \<open>PostgresManifestState\<close> of \<open>runtime/src/manifest.rs\<close>: the durable store of a committee node, over the
  tables of \<open>migrations/0002_manifest_runtime.sql\<close>.

  A table is a map from its primary key, or the list of its rows in insertion order where a query sorts
  them.  A statement is an operation on the database that may fail before it does anything: \<open>db_faults\<close>
  says, statement by statement, whether the connection fails, so that every property holds for every
  pattern of failures.  A transaction restores the tables when it does not commit.  \<open>now()\<close> is \<open>db_clock\<close>.
  The client's mutex is left out: nothing panics while it is held, the last queue position \<open>2 ^ 63 - 1\<close> excepted.
\<close>

section \<open>Tables\<close>

record state_row =
  sr_type :: int
  sr_payload :: bytes
  sr_version :: int

record input_row =
  ir_type :: int
  ir_payload :: bytes

record upload_row =
  up_control :: string
  up_contract :: bytes
  up_data_id :: bytes
  up_owner :: bytes
  up_nonce :: int
  up_deadline :: int
  up_type :: int
  up_commitment :: bytes
  up_registered :: bool
  up_attempts :: int
  up_last_error :: "string option"
  up_created_at :: nat

record outbox_row =
  ob_control :: string
  ob_node :: string
  ob_execution :: bytes
  ob_payload :: bytes
  ob_submitted :: bool
  ob_attempts :: int
  ob_last_error :: "string option"
  ob_created_at :: nat

record processed_row =
  pr_control :: string
  pr_node :: string
  pr_index :: int
  pr_execution :: bytes
  pr_outcome :: string

record database =
  db_state :: "bytes \<times> string \<times> bytes \<rightharpoonup> state_row"
  db_inputs :: "bytes \<rightharpoonup> input_row"
  db_cursors :: "string \<times> string \<rightharpoonup> int"
  db_processed :: "processed_row list"
  db_outbox :: "outbox_row list"
  db_uploads :: "upload_row list"
  db_clock :: nat
  db_faults :: "bool list"

definition empty_database :: database where
  "empty_database = \<lparr>db_state = Map.empty, db_inputs = Map.empty, db_cursors = Map.empty, db_processed = [],
     db_outbox = [], db_uploads = [], db_clock = 0, db_faults = []\<rparr>"

section \<open>Statements and transactions\<close>

type_synonym 'a db_op = "database \<Rightarrow> (manifest_runtime_error, 'a) res \<times> database"

definition statement :: "'a db_op \<Rightarrow> 'a db_op" where
  "statement op db =
     (case db_faults db of
        [] \<Rightarrow> op db
      | fails # rest \<Rightarrow>
          if fails then (Err MPersistenceFailure, db\<lparr>db_faults := rest\<rparr>) else op (db\<lparr>db_faults := rest\<rparr>))"

text \<open>
  \<open>BEGIN\<close>, the statements, \<open>COMMIT\<close>; a transaction that is dropped or fails to commit is rolled back.
\<close>

definition transaction :: "'a db_op \<Rightarrow> 'a db_op" where
  "transaction body db =
     then_do (statement (\<lambda>db. (Ok (), db)) db) (\<lambda>_ start.
       case then_do (body start) (\<lambda>x. statement (\<lambda>db. (Ok x, db))) of
         (Ok x, db') \<Rightarrow> (Ok x, db')
       | (Err e, db') \<Rightarrow> (Err e, start\<lparr>db_faults := db_faults db'\<rparr>)
       | (Panic, db') \<Rightarrow> (Panic, start\<lparr>db_faults := db_faults db'\<rparr>))"

definition returning :: "('e, 'a) res \<Rightarrow> 'w \<Rightarrow> ('e, 'a) res \<times> 'w" where
  "returning r db = (r, db)"

text \<open>\<open>BIGINT\<close> and \<open>INTEGER\<close> arithmetic fails out of range.\<close>

definition bigint_succ :: "int \<Rightarrow> (manifest_runtime_error, int) res" where
  "bigint_succ n = (if n + 1 < 2 ^ 63 then Ok (n + 1) else Err MPersistenceFailure)"

definition integer_succ :: "int \<Rightarrow> (manifest_runtime_error, int) res" where
  "integer_succ n = (if n + 1 < 2 ^ 31 then Ok (n + 1) else Err MPersistenceFailure)"

definition i64_of_u64 :: "manifest_runtime_error \<Rightarrow> u64 \<Rightarrow> (manifest_runtime_error, int) res" where
  "i64_of_u64 e n = (if unat n < 2 ^ 63 then Ok (int (unat n)) else Err e)"

definition u64_of_i64 :: "int \<Rightarrow> (manifest_runtime_error, u64) res" where
  "u64_of_i64 n = (if 0 \<le> n then Ok (of_int n) else Err MCorruptPersistence)"

section \<open>Values in rows\<close>

fun value_type_code :: "value_type \<Rightarrow> (manifest_runtime_error, int) res" where
  "value_type_code TAddress = Ok 0"
| "value_type_code TUint = Ok 1"
| "value_type_code TFheUint = Ok 2"
| "value_type_code TFheBool = Ok 3"
| "value_type_code TSint = Ok 4"
| "value_type_code TSecretBool = Ok 5"
| "value_type_code TOpened = Ok 6"
| "value_type_code TVoid = Err MInvalidValue"

definition value_type_of_code :: "int \<Rightarrow> (manifest_runtime_error, value_type) res" where
  "value_type_of_code code =
     (if code = 0 then Ok TAddress else if code = 1 then Ok TUint else if code = 2 then Ok TFheUint
      else if code = 3 then Ok TFheBool else if code = 4 then Ok TSint else if code = 5 then Ok TSecretBool
      else if code = 6 then Ok TOpened else Err MCorruptPersistence)"

definition value_from_row :: "int \<Rightarrow> bytes \<Rightarrow> (manifest_runtime_error, manifest_value) res" where
  "value_from_row code bs =
     bindR (value_type_of_code code) (\<lambda>ty.
       if bs = [] then Err MCorruptPersistence else Ok \<lparr>mv_type = ty, mv_bytes = bs\<rparr>)"

section \<open>The state table\<close>

definition upsert_row :: "bytes \<Rightarrow> string \<Rightarrow> bytes \<Rightarrow> int \<Rightarrow> bytes \<Rightarrow> unit db_op" where
  "upsert_row contract state key code payload db =
     (let put = (\<lambda>version. db\<lparr>db_state := (db_state db)((contract, state, key) \<mapsto>
             \<lparr>sr_type = code, sr_payload = payload, sr_version = version\<rparr>)\<rparr>) in
       case db_state db (contract, state, key) of
         None \<Rightarrow> (Ok (), put 1)
       | Some row \<Rightarrow> then_do (bigint_succ (sr_version row), db) (\<lambda>version _. (Ok (), put version)))"

definition upsert_state :: "bytes \<Rightarrow> string \<Rightarrow> bytes \<Rightarrow> int \<Rightarrow> bytes \<Rightarrow> unit db_op" where
  "upsert_state contract state key code payload = statement (upsert_row contract state key code payload)"

definition pg_initialize :: "bytes \<Rightarrow> string \<Rightarrow> bytes \<Rightarrow> manifest_value \<Rightarrow> unit db_op" where
  "pg_initialize contract state key v db =
     then_do (value_type_code (mv_type v), db) (\<lambda>code. upsert_state contract state key code (mv_bytes v))"

definition pg_load :: "bytes \<Rightarrow> string \<Rightarrow> bytes \<Rightarrow> manifest_value db_op" where
  "pg_load contract state key =
     statement (\<lambda>db.
       (bindR (ok_or MStateNotFound (db_state db (contract, state, key))) (\<lambda>row.
          value_from_row (sr_type row) (sr_payload row)), db))"

definition write_state :: "bytes \<Rightarrow> cell_write \<Rightarrow> unit db_op" where
  "write_state contract w db =
     then_do (value_type_code (mv_type (cw_value w)), db) (\<lambda>code.
       upsert_state contract (cw_state w) (cw_key w) code (mv_bytes (cw_value w)))"

primrec write_states :: "bytes \<Rightarrow> cell_write list \<Rightarrow> unit db_op" where
  "write_states contract [] db = (Ok (), db)"
| "write_states contract (w # ws) db = then_do (write_state contract w db) (\<lambda>_. write_states contract ws)"

definition pg_commit :: "bytes \<Rightarrow> cell_write list \<Rightarrow> unit db_op" where
  "pg_commit contract writes = transaction (write_states contract writes)"

section \<open>Inputs and uploads\<close>

definition store_input :: "bytes \<Rightarrow> manifest_value \<Rightarrow> unit db_op" where
  "store_input data_id v db =
     then_do (value_type_code (mv_type v), db) (\<lambda>code.
       statement (\<lambda>db. (Ok (), db\<lparr>db_inputs := (db_inputs db)(data_id \<mapsto> \<lparr>ir_type = code, ir_payload = mv_bytes v\<rparr>)\<rparr>)))"

definition pg_input :: "bytes \<Rightarrow> manifest_value db_op" where
  "pg_input data_id =
     statement (\<lambda>db.
       (bindR (ok_or MStateNotFound (db_inputs db data_id)) (\<lambda>row. value_from_row (ir_type row) (ir_payload row)), db))"

text \<open>The conflict with the primary key or the unique key of the uploads table.\<close>

definition upload_conflicts :: "upload_row \<Rightarrow> upload_row \<Rightarrow> bool" where
  "upload_conflicts a b \<longleftrightarrow> up_control a = up_control b \<and> up_contract a = up_contract b
     \<and> (up_data_id a = up_data_id b \<or> up_owner a = up_owner b \<and> up_nonce a = up_nonce b)"

definition insert_input :: "bytes \<Rightarrow> int \<Rightarrow> bytes \<Rightarrow> bool db_op" where
  "insert_input data_id code payload =
     statement (\<lambda>db.
       if db_inputs db data_id = None
       then (Ok True, db\<lparr>db_inputs := (db_inputs db)(data_id \<mapsto> \<lparr>ir_type = code, ir_payload = payload\<rparr>)\<rparr>)
       else (Ok False, db))"

definition insert_upload :: "upload_row \<Rightarrow> bool db_op" where
  "insert_upload row =
     statement (\<lambda>db.
       if list_ex (upload_conflicts row) (db_uploads db) then (Ok False, db)
       else (Ok True, db\<lparr>db_uploads := db_uploads db @ [row]\<rparr>))"

definition enqueue_upload ::
  "bytes \<Rightarrow> string \<Rightarrow> bytes \<Rightarrow> u64 \<Rightarrow> u64 \<Rightarrow> bytes \<Rightarrow> bytes \<Rightarrow> manifest_value \<Rightarrow> unit db_op"
where
  "enqueue_upload contract control owner nonce deadline data_id commitment v db =
     then_do (value_type_code (mv_type v), db) (\<lambda>code db.
     then_do (i64_of_u64 MInvalidValue nonce, db) (\<lambda>nonce db.
     then_do (i64_of_u64 MInvalidValue deadline, db) (\<lambda>deadline db.
     transaction (\<lambda>db.
       then_do (insert_input data_id code (mv_bytes v) db) (\<lambda>inserted db.
       then_do
         (if inserted then (Ok (), db)
          else statement (\<lambda>db.
            (bindR (ok_or MPersistenceFailure (db_inputs db data_id)) (\<lambda>row.
               if ir_type row \<noteq> code \<or> ir_payload row \<noteq> mv_bytes v then Err MInvalidValue else Ok ()), db)) db) (\<lambda>_ db.
       then_do (insert_upload
           \<lparr>up_control = control, up_contract = contract, up_data_id = data_id, up_owner = owner, up_nonce = nonce,
            up_deadline = deadline, up_type = code, up_commitment = commitment, up_registered = False,
            up_attempts = 0, up_last_error = None, up_created_at = db_clock db\<rparr> db) (\<lambda>queued db.
         if queued then (Ok (), db)
         else statement (\<lambda>db.
           (bindR (ok_or MInvalidValue (List.find (\<lambda>u. up_control u = control \<and> up_contract u = contract
                \<and> up_owner u = owner \<and> up_nonce u = nonce) (db_uploads db))) (\<lambda>row.
              if up_data_id row \<noteq> data_id \<or> up_type row \<noteq> code \<or> up_commitment row \<noteq> commitment
              then Err MInvalidValue else Ok ()), db)) db)))) db)))"

record pending_upload =
  pu_data_id :: bytes
  pu_owner :: bytes
  pu_value :: manifest_value
  pu_commitment :: bytes

text \<open>\<open>ORDER BY key LIMIT 1\<close>: a first row of least key.\<close>

primrec first_by :: "('a \<Rightarrow> 'k::linorder) \<Rightarrow> 'a list \<Rightarrow> 'a option" where
  "first_by key [] = None"
| "first_by key (x # xs) =
     (case first_by key xs of None \<Rightarrow> Some x | Some y \<Rightarrow> if key x \<le> key y then Some x else Some y)"

definition fixed :: "nat \<Rightarrow> bytes \<Rightarrow> (manifest_runtime_error, bytes) res" where
  "fixed n bs = (if length bs = n then Ok bs else Err MCorruptPersistence)"

definition next_pending_upload :: "bytes \<Rightarrow> string \<Rightarrow> pending_upload option db_op" where
  "next_pending_upload contract control =
     statement (\<lambda>db.
       (case first_by (\<lambda>u. (up_created_at u, up_data_id u))
               (filter (\<lambda>u. db_inputs db (up_data_id u) \<noteq> None \<and> up_control u = control
                  \<and> up_contract u = contract \<and> \<not> up_registered u) (db_uploads db)) of
          None \<Rightarrow> Ok None
        | Some u \<Rightarrow>
            bindR (fixed 32 (up_data_id u)) (\<lambda>data_id.
            bindR (fixed 20 (up_owner u)) (\<lambda>owner.
            bindR (value_from_row (up_type u) (ir_payload (the (db_inputs db (up_data_id u))))) (\<lambda>v.
            bindR (fixed 32 (up_commitment u)) (\<lambda>commitment.
              Ok (Some \<lparr>pu_data_id = data_id, pu_owner = owner, pu_value = v, pu_commitment = commitment\<rparr>))))), db))"

text \<open>An \<open>UPDATE\<close>: every selected row changes, or none when one of them cannot; the number of rows.\<close>

definition update_rows ::
  "('r \<Rightarrow> bool) \<Rightarrow> ('r \<Rightarrow> (manifest_runtime_error, 'r) res) \<Rightarrow> 'r list \<Rightarrow> (manifest_runtime_error, nat \<times> 'r list) res"
where
  "update_rows P f rows =
     bindR (mapR (\<lambda>r. if P r then f r else Ok r) rows) (\<lambda>rows'. Ok (length (filter P rows), rows'))"

definition mark_upload_registered :: "bytes \<Rightarrow> string \<Rightarrow> bytes \<Rightarrow> unit db_op" where
  "mark_upload_registered contract control data_id db =
     then_do (statement (\<lambda>db.
         then_do (update_rows (\<lambda>u. up_control u = control \<and> up_contract u = contract \<and> up_data_id u = data_id)
             (\<lambda>u. bindR (integer_succ (up_attempts u)) (\<lambda>n.
                Ok (u\<lparr>up_registered := True, up_attempts := n, up_last_error := None\<rparr>))) (db_uploads db), db)
           (\<lambda>(updated, rows) db. (Ok updated, db\<lparr>db_uploads := rows\<rparr>))) db)
       (\<lambda>updated db. if updated \<noteq> 1 then (Err MStateNotFound, db) else (Ok (), db))"

definition mark_upload_failed :: "bytes \<Rightarrow> string \<Rightarrow> bytes \<Rightarrow> string \<Rightarrow> unit db_op" where
  "mark_upload_failed contract control data_id error =
     statement (\<lambda>db.
       then_do (update_rows (\<lambda>u. up_control u = control \<and> up_contract u = contract \<and> up_data_id u = data_id
             \<and> \<not> up_registered u)
           (\<lambda>u. bindR (integer_succ (up_attempts u)) (\<lambda>n. Ok (u\<lparr>up_attempts := n, up_last_error := Some error\<rparr>)))
           (db_uploads db), db)
         (\<lambda>(_, rows) db. (Ok (), db\<lparr>db_uploads := rows\<rparr>)))"

section \<open>The task queue\<close>

definition next_execution_index :: "string \<Rightarrow> string \<Rightarrow> u64 db_op" where
  "next_execution_index control node db =
     then_do (statement (\<lambda>db.
         (Ok (), if db_cursors db (control, node) = None
                 then db\<lparr>db_cursors := (db_cursors db)((control, node) \<mapsto> 0)\<rparr> else db)) db) (\<lambda>_ db.
     then_do (statement (\<lambda>db. (ok_or MPersistenceFailure (db_cursors db (control, node)), db)) db) (\<lambda>index db.
       (u64_of_i64 index, db)))"

datatype task_outcome = Completed | Skipped | Rejected

fun task_outcome_text :: "task_outcome \<Rightarrow> string" where
  "task_outcome_text Completed = ''completed''"
| "task_outcome_text Skipped = ''skipped''"
| "task_outcome_text Rejected = ''rejected''"

text \<open>\<open>SELECT ... FOR UPDATE\<close> and the comparison with the position the caller computed from.\<close>

definition lock_cursor :: "string \<Rightarrow> string \<Rightarrow> int \<Rightarrow> unit db_op" where
  "lock_cursor control node queue_index db =
     then_do (statement (\<lambda>db. (ok_or MCursorMismatch (db_cursors db (control, node)), db)) db) (\<lambda>expected db.
       if expected \<noteq> queue_index then (Err MCursorMismatch, db) else (Ok (), db))"

definition processed_conflicts :: "processed_row \<Rightarrow> processed_row \<Rightarrow> bool" where
  "processed_conflicts a b \<longleftrightarrow> pr_control a = pr_control b \<and> pr_node a = pr_node b
     \<and> (pr_index a = pr_index b \<or> pr_execution a = pr_execution b)"

definition insert_processed :: "processed_row \<Rightarrow> unit db_op" where
  "insert_processed row =
     statement (\<lambda>db.
       if list_ex (processed_conflicts row) (db_processed db) then (Err MPersistenceFailure, db)
       else (Ok (), db\<lparr>db_processed := db_processed db @ [row]\<rparr>))"

definition advance_cursor :: "string \<Rightarrow> string \<Rightarrow> int \<Rightarrow> unit db_op" where
  "advance_cursor control node next =
     statement (\<lambda>db.
       (Ok (), if db_cursors db (control, node) = None then db
               else db\<lparr>db_cursors := (db_cursors db)((control, node) \<mapsto> next)\<rparr>))"

text \<open>\<open>queue_index + 1\<close> on an \<open>i64\<close>: overflow panics.\<close>

definition i64_succ :: "int \<Rightarrow> ('e, int) res" where
  "i64_succ n = (if n + 1 < 2 ^ 63 then Ok (n + 1) else Panic)"

definition complete_execution :: "string \<Rightarrow> string \<Rightarrow> u64 \<Rightarrow> bytes \<Rightarrow> task_outcome \<Rightarrow> unit db_op" where
  "complete_execution control node queue_index execution result db =
     then_do (i64_of_u64 MCorruptPersistence queue_index, db) (\<lambda>index db.
     transaction (\<lambda>db.
       then_do (lock_cursor control node index db) (\<lambda>_ db.
       then_do (insert_processed \<lparr>pr_control = control, pr_node = node, pr_index = index, pr_execution = execution,
           pr_outcome = task_outcome_text result\<rparr> db) (\<lambda>_ db.
       then_do (i64_succ index, db) (\<lambda>next. advance_cursor control node next)))) db)"

definition insert_outbox :: "string \<Rightarrow> string \<Rightarrow> bytes \<Rightarrow> bytes \<Rightarrow> unit db_op" where
  "insert_outbox control node execution payload =
     statement (\<lambda>db.
       if list_ex (\<lambda>o'. ob_control o' = control \<and> ob_node o' = node \<and> ob_execution o' = execution) (db_outbox db)
       then (Err MPersistenceFailure, db)
       else (Ok (), db\<lparr>db_outbox := db_outbox db @
         [\<lparr>ob_control = control, ob_node = node, ob_execution = execution, ob_payload = payload, ob_submitted = False,
           ob_attempts = 0, ob_last_error = None, ob_created_at = db_clock db\<rparr>]\<rparr>))"

definition commit_computation ::
  "bytes \<Rightarrow> string \<Rightarrow> string \<Rightarrow> u64 \<Rightarrow> bytes \<Rightarrow> cell_write list \<Rightarrow> bytes \<Rightarrow> unit db_op"
where
  "commit_computation contract control node queue_index execution writes payload db =
     then_do (i64_of_u64 MCorruptPersistence queue_index, db) (\<lambda>index db.
     transaction (\<lambda>db.
       then_do (lock_cursor control node index db) (\<lambda>_ db.
       then_do (write_states contract writes db) (\<lambda>_ db.
       then_do (insert_outbox control node execution payload db) (\<lambda>_ db.
       then_do (insert_processed \<lparr>pr_control = control, pr_node = node, pr_index = index, pr_execution = execution,
           pr_outcome = ''completed''\<rparr> db) (\<lambda>_ db.
       then_do (i64_succ index, db) (\<lambda>next. advance_cursor control node next)))))) db)"

definition pending_outbox_count :: "string \<Rightarrow> string \<Rightarrow> u64 db_op" where
  "pending_outbox_count control node =
     statement (\<lambda>db.
       (u64_of_i64 (int (length (filter (\<lambda>r. ob_control r = control \<and> ob_node r = node \<and> \<not> ob_submitted r)
          (db_outbox db)))), db))"

record outbox_record =
  or_execution :: bytes
  or_payload :: bytes

definition next_pending_outbox :: "outbox_record option db_op" where
  "next_pending_outbox =
     statement (\<lambda>db.
       (case first_by (\<lambda>r. (ob_created_at r, ob_execution r)) (filter (\<lambda>r. \<not> ob_submitted r) (db_outbox db)) of
          None \<Rightarrow> Ok None
        | Some r \<Rightarrow> bindR (fixed 32 (ob_execution r)) (\<lambda>execution.
            Ok (Some \<lparr>or_execution = execution, or_payload = ob_payload r\<rparr>)), db))"

definition mark_outbox_submitted :: "string \<Rightarrow> string \<Rightarrow> bytes \<Rightarrow> unit db_op" where
  "mark_outbox_submitted control node execution db =
     then_do (statement (\<lambda>db.
         then_do (update_rows (\<lambda>r. ob_control r = control \<and> ob_node r = node \<and> ob_execution r = execution \<and> \<not> ob_submitted r)
             (\<lambda>r. bindR (integer_succ (ob_attempts r)) (\<lambda>n.
                Ok (r\<lparr>ob_submitted := True, ob_attempts := n, ob_last_error := None\<rparr>))) (db_outbox db), db)
           (\<lambda>(updated, rows) db. (Ok updated, db\<lparr>db_outbox := rows\<rparr>))) db)
       (\<lambda>updated db. if updated \<noteq> 1 then (Err MStateNotFound, db) else (Ok (), db))"

section \<open>Statements, transactions and failures\<close>

text \<open>The database without its failures to come: what a client can observe.\<close>

definition tables :: "database \<Rightarrow> database" where
  "tables db = db\<lparr>db_faults := []\<rparr>"

lemma tables_faults [simp]: "tables (db\<lparr>db_faults := fs\<rparr>) = tables db"
  by (simp add: tables_def)

lemma tables_sel [simp]:
  "db_state (tables db) = db_state db" "db_inputs (tables db) = db_inputs db" "db_cursors (tables db) = db_cursors db"
  "db_processed (tables db) = db_processed db" "db_outbox (tables db) = db_outbox db" "db_uploads (tables db) = db_uploads db"
  "db_clock (tables db) = db_clock db"
  by (simp_all add: tables_def)

lemma tables_eqD:
  assumes "tables a = tables b"
  shows "db_state a = db_state b" "db_inputs a = db_inputs b" "db_cursors a = db_cursors b" "db_processed a = db_processed b"
    "db_outbox a = db_outbox b" "db_uploads a = db_uploads b" "db_clock a = db_clock b"
  using assms by (metis tables_sel)+

lemma tables_eqI:
  "db_state a = db_state b \<Longrightarrow> db_inputs a = db_inputs b \<Longrightarrow> db_cursors a = db_cursors b \<Longrightarrow>
   db_processed a = db_processed b \<Longrightarrow> db_outbox a = db_outbox b \<Longrightarrow> db_uploads a = db_uploads b \<Longrightarrow>
   db_clock a = db_clock b \<Longrightarrow> tables a = tables b"
  by (cases a; cases b) (simp add: tables_def)

lemma then_do_Ok: "then_do m f = (Ok y, w') \<longleftrightarrow> (\<exists>x w. m = (Ok x, w) \<and> f x w = (Ok y, w'))"
  by (cases m; cases "fst m") auto

lemma then_do_Err: "then_do m f = (Err e, w') \<longleftrightarrow> m = (Err e, w') \<or> (\<exists>x w. m = (Ok x, w) \<and> f x w = (Err e, w'))"
  by (cases m; cases "fst m") auto

lemma then_do_Panic: "then_do m f = (Panic, w') \<longleftrightarrow> m = (Panic, w') \<or> (\<exists>x w. m = (Ok x, w) \<and> f x w = (Panic, w'))"
  by (cases m; cases "fst m") auto

lemma statement_cases:
  obtains (runs) rest where "statement op db = op (db\<lparr>db_faults := rest\<rparr>)"
  | (fails) rest where "statement op db = (Err MPersistenceFailure, db\<lparr>db_faults := rest\<rparr>)"
proof (cases "db_faults db")
  case Nil
  then have same: "db\<lparr>db_faults := []\<rparr> = db" by (cases db) simp
  have "statement op db = op (db\<lparr>db_faults := []\<rparr>)" unfolding same by (simp add: statement_def Nil)
  then show ?thesis by (rule runs)
next
  case (Cons f rest)
  then show ?thesis using runs [of rest] fails [of rest] by (cases f) (simp_all add: statement_def)
qed

lemma statement_reliable: "db_faults db = [] \<Longrightarrow> statement op db = op db"
  by (simp add: statement_def)

lemma statement_Ok:
  assumes "statement op db = (Ok x, db')"
  shows "\<exists>rest. op (db\<lparr>db_faults := rest\<rparr>) = (Ok x, db')"
  using assms by (cases rule: statement_cases [of op db]) auto

text \<open>A query: it answers from the tables, or the connection fails.\<close>

lemma statement_query:
  assumes "\<And>fs. f (db\<lparr>db_faults := fs\<rparr>) = f db"
  shows "fst (statement (\<lambda>db. (f db, db)) db) \<in> {f db, Err MPersistenceFailure}"
    and "tables (snd (statement (\<lambda>db. (f db, db)) db)) = tables db"
  using assms by (cases rule: statement_cases [of "\<lambda>db. (f db, db)" db]; simp)+

text \<open>A transaction that succeeds has run its body; one that does not leaves the tables alone.\<close>

lemma transaction_cases:
  obtains (commits) x fs db1 db2 where "transaction body db = (Ok x, db2)" "body (db\<lparr>db_faults := fs\<rparr>) = (Ok x, db1)"
      "tables db2 = tables db1"
  | (aborts) fs e db1 db2 where "transaction body db = (Err e, db2)" "body (db\<lparr>db_faults := fs\<rparr>) = (Err e, db1)"
      "tables db2 = tables db"
  | (lost) db2 where "transaction body db = (Err MPersistenceFailure, db2)" "tables db2 = tables db"
  | (panics) fs db1 db2 where "transaction body db = (Panic, db2)" "body (db\<lparr>db_faults := fs\<rparr>) = (Panic, db1)"
      "tables db2 = tables db"
proof (cases rule: statement_cases [of "\<lambda>db. (Ok (), db)" db])
  case begun: (runs fs)
  show ?thesis
  proof (cases "body (db\<lparr>db_faults := fs\<rparr>)")
    case (Pair r db1)
    show ?thesis
    proof (cases r)
      case (Ok x)
      show ?thesis
      proof (cases rule: statement_cases [of "\<lambda>db. (Ok x, db)" db1])
        case (runs rest)
        then show ?thesis using commits [of x _ fs db1] begun Pair Ok by (simp add: transaction_def)
      next
        case (fails rest)
        then show ?thesis using lost begun Pair Ok by (simp add: transaction_def)
      qed
    next
      case (Err e)
      then show ?thesis using aborts [of e _ fs db1] begun Pair by (simp add: transaction_def)
    next
      case Panic
      then show ?thesis using panics [of _ fs db1] begun Pair by (simp add: transaction_def)
    qed
  qed
next
  case (fails rest)
  then show ?thesis using lost by (simp add: transaction_def)
qed

section \<open>The state table implements the cells\<close>

definition storable :: "manifest_value \<Rightarrow> bool" where
  "storable v \<longleftrightarrow> mv_type v \<noteq> TVoid \<and> mv_bytes v \<noteq> []"

lemma storable_row:
  assumes "storable v"
  obtains code where "value_type_code (mv_type v) = Ok code" "value_from_row code (mv_bytes v) = Ok v"
proof -
  obtain code where "value_type_code (mv_type v) = Ok code" "value_type_of_code code = Ok (mv_type v)"
    using assms by (cases "mv_type v") (auto simp: storable_def value_type_of_code_def)
  then show ?thesis using that assms by (simp add: value_from_row_def storable_def)
qed

definition rows_ok :: "database \<Rightarrow> bool" where
  "rows_ok db \<longleftrightarrow> (\<forall>k row. db_state db k = Some row \<longrightarrow> is_ok (value_from_row (sr_type row) (sr_payload row)))"

definition row_value :: "state_row \<Rightarrow> manifest_value" where
  "row_value row = (case value_from_row (sr_type row) (sr_payload row) of Ok v \<Rightarrow> v | _ \<Rightarrow> void_value)"

definition cells_of :: "bytes \<Rightarrow> database \<Rightarrow> cells" where
  "cells_of contract db = (\<lambda>(state, key). map_option row_value (db_state db (contract, state, key)))"

lemma cells_of_tables [simp]: "cells_of contract (tables db) = cells_of contract db"
  by (simp add: cells_of_def)

lemma cells_of_eq: "db_state a = db_state b \<Longrightarrow> cells_of contract a = cells_of contract b"
  by (simp add: cells_of_def)

definition other_tables_same :: "database \<Rightarrow> database \<Rightarrow> bool" where
  "other_tables_same a b \<longleftrightarrow> tables a = tables (b\<lparr>db_state := db_state a\<rparr>)"

lemma other_tables_same_refl [simp]: "other_tables_same a a"
  by (simp add: other_tables_same_def)

lemma other_tables_same_iff:
  "other_tables_same a b \<longleftrightarrow> db_inputs a = db_inputs b \<and> db_cursors a = db_cursors b \<and> db_processed a = db_processed b
     \<and> db_outbox a = db_outbox b \<and> db_uploads a = db_uploads b \<and> db_clock a = db_clock b"
  by (cases a; cases b) (auto simp: other_tables_same_def tables_def)

lemma upsert_row_Ok:
  assumes "upsert_row contract state key code payload db = (Ok u, db')"
  shows "\<exists>version. db_state db' = (db_state db)((contract, state, key) \<mapsto>
      \<lparr>sr_type = code, sr_payload = payload, sr_version = version\<rparr>) \<and> other_tables_same db' db"
  using assms by (auto simp: upsert_row_def Let_def other_tables_same_iff then_do_Ok split: option.splits)

lemma upsert_state_Ok:
  assumes "upsert_state contract state key code payload db = (Ok u, db')"
  shows "\<exists>version. db_state db' = (db_state db)((contract, state, key) \<mapsto>
      \<lparr>sr_type = code, sr_payload = payload, sr_version = version\<rparr>) \<and> other_tables_same db' db"
  using upsert_row_Ok statement_Ok [OF assms [unfolded upsert_state_def]] by (fastforce simp: other_tables_same_iff)

lemma upsert_row_error: "fst (upsert_row contract state key code payload db) \<in> {Ok (), Err MPersistenceFailure}"
  by (auto simp: upsert_row_def Let_def bigint_succ_def split: option.split)

lemma statement_error:
  assumes "\<And>db. fst (op db) \<in> insert (Err MPersistenceFailure) R"
  shows "fst (statement op db) \<in> insert (Err MPersistenceFailure) R"
proof (cases rule: statement_cases [of op db])
  case (runs rest)
  then show ?thesis using assms [of "db\<lparr>db_faults := rest\<rparr>"] by simp
qed simp

lemma cells_of_upsert:
  assumes "db_state db' = (db_state db)((contract, state, key) \<mapsto> row)"
  shows "cells_of contract' db' = (if contract' = contract then (cells_of contract' db)((state, key) \<mapsto> row_value row)
     else cells_of contract' db)"
  by (auto simp: cells_of_def assms fun_eq_iff)

lemma write_state_Ok:
  assumes run: "write_state contract w db = (Ok u, db')" and ok: "storable (cw_value w)" "rows_ok db"
  shows "rows_ok db' \<and> other_tables_same db' db
    \<and> cells_of contract db' = (cells_of contract db)((cw_state w, cw_key w) \<mapsto> cw_value w)
    \<and> (\<forall>c. c \<noteq> contract \<longrightarrow> cells_of c db' = cells_of c db)"
proof -
  obtain code where code: "value_type_code (mv_type (cw_value w)) = Ok code" "value_from_row code (mv_bytes (cw_value w)) = Ok (cw_value w)"
    using storable_row [OF ok(1)] by blast
  then obtain version where st: "db_state db' = (db_state db)((contract, cw_state w, cw_key w) \<mapsto>
      \<lparr>sr_type = code, sr_payload = mv_bytes (cw_value w), sr_version = version\<rparr>)" "other_tables_same db' db"
    using upsert_state_Ok [of contract "cw_state w" "cw_key w" code "mv_bytes (cw_value w)" db u db'] run
    by (auto simp: write_state_def)
  have "rows_ok db'" using ok(2) st(1) code(2) by (auto simp: rows_ok_def)
  then show ?thesis using cells_of_upsert [OF st(1)] st(2) code(2) by (simp add: row_value_def)
qed

lemma write_states_Ok:
  assumes "write_states contract ws db = (Ok u, db')" and "\<forall>w \<in> set ws. storable (cw_value w)" and "rows_ok db"
  shows "rows_ok db' \<and> other_tables_same db' db \<and> cells_of contract db' = cells_commit ws (cells_of contract db)
    \<and> (\<forall>c. c \<noteq> contract \<longrightarrow> cells_of c db' = cells_of c db)"
  using assms
proof (induction ws arbitrary: db)
  case (Cons w ws)
  then obtain db1 where db1: "write_state contract w db = (Ok (), db1)" "write_states contract ws db1 = (Ok u, db')"
    by (auto simp: then_do_Ok)
  note w = write_state_Ok [OF db1(1)]
  have "rows_ok db1" "storable (cw_value w)" using w Cons.prems by auto
  moreover note Cons.IH [OF db1(2)]
  ultimately show ?case using w Cons.prems by (auto simp: cells_commit_def other_tables_same_iff simp del: fun_upd_apply)
qed (simp add: cells_commit_def)

lemma write_states_error:
  assumes "write_states contract ws db = (r, db')" and "\<forall>w \<in> set ws. storable (cw_value w)"
  shows "r = Ok () \<or> r = Err MPersistenceFailure"
  using assms
proof (induction ws arbitrary: db)
  case (Cons w ws)
  obtain code where code: "value_type_code (mv_type (cw_value w)) = Ok code"
    using Cons.prems(2) storable_row [of "cw_value w"] by auto
  have "fst (write_state contract w db) \<in> {Err MPersistenceFailure, Ok ()}"
    unfolding write_state_def upsert_state_def code then_do_simps
    by (rule statement_error) (use upsert_row_error in blast)
  then show ?case using Cons by (cases "write_state contract w db") auto
qed simp

lemma pg_load_eq:
  assumes "rows_ok db"
  shows "pg_load contract state key db = statement (\<lambda>db. (cells_load (cells_of contract db) state key, db)) db"
proof -
  have "bindR (ok_or MStateNotFound (db_state db (contract, state, key))) (\<lambda>row. value_from_row (sr_type row) (sr_payload row))
      = cells_load (cells_of contract db) state key"
  proof (cases "db_state db (contract, state, key)")
    case None
    then show ?thesis by (simp add: cells_load_def cells_of_def)
  next
    case (Some row)
    then have "is_ok (value_from_row (sr_type row) (sr_payload row))" using assms unfolding rows_ok_def by blast
    then show ?thesis using Some by (auto simp: cells_load_def cells_of_def row_value_def is_ok_iff)
  qed
  then show ?thesis
    by (auto simp: pg_load_def statement_def cells_of_def split: list.split)
qed

definition versions_below :: "int \<Rightarrow> database \<Rightarrow> bool" where
  "versions_below n db \<longleftrightarrow> (\<forall>k row. db_state db k = Some row \<longrightarrow> sr_version row < n)"

lemma upsert_row_reliable:
  assumes "versions_below (n - 1) db" and "1 < n" and "n \<le> 2 ^ 63"
  shows "\<exists>db'. upsert_row contract state key code payload db = (Ok (), db') \<and> db_faults db' = db_faults db \<and> versions_below n db'"
proof (cases "db_state db (contract, state, key)")
  case None
  then show ?thesis using assms by (fastforce simp: upsert_row_def Let_def versions_below_def)
next
  case (Some row)
  then have "sr_version row + 1 < n" using assms(1) by (force simp: versions_below_def)
  then show ?thesis using Some assms by (fastforce simp: upsert_row_def Let_def versions_below_def bigint_succ_def)
qed

lemma write_states_reliable:
  assumes "db_faults db = []" and "\<forall>w \<in> set ws. storable (cw_value w)" and "versions_below (n - int (length ws)) db"
    and "int (length ws) < n" and "n \<le> 2 ^ 63"
  shows "\<exists>db'. write_states contract ws db = (Ok (), db') \<and> db_faults db' = []"
  using assms
proof (induction ws arbitrary: db)
  case (Cons w ws)
  obtain code where code: "value_type_code (mv_type (cw_value w)) = Ok code"
    using Cons.prems(2) storable_row [of "cw_value w"] by auto
  have "versions_below ((n - int (length ws)) - 1) db" "1 < n - int (length ws)" "n - int (length ws) \<le> 2 ^ 63"
    using Cons.prems by (simp_all add: algebra_simps)
  from upsert_row_reliable [OF this] obtain db1 where
    "upsert_row contract (cw_state w) (cw_key w) code (mv_bytes (cw_value w)) db = (Ok (), db1)" "db_faults db1 = []"
    "versions_below (n - int (length ws)) db1"
    using Cons.prems(1) by metis
  then show ?case
    using Cons.IH [of db1] Cons.prems by (simp add: write_state_def code upsert_state_def statement_reliable)
qed simp

lemma transaction_reliable:
  assumes "db_faults db = []" and "body db = (Ok x, db')" and "db_faults db' = []"
  shows "transaction body db = (Ok x, db')"
  using assms by (simp add: transaction_def statement_reliable)

lemma pg_commit_outcome:
  assumes ok: "\<forall>w \<in> set ws. storable (cw_value w)" "rows_ok db" and run: "pg_commit contract ws db = (r, db')"
  shows "r = Ok () \<and> rows_ok db' \<and> other_tables_same db' db \<and> cells_of contract db' = cells_commit ws (cells_of contract db)
      \<and> (\<forall>c. c \<noteq> contract \<longrightarrow> cells_of c db' = cells_of c db)
    \<or> r = Err MPersistenceFailure \<and> tables db' = tables db"
proof (cases rule: transaction_cases [of "write_states contract ws" db])
  case (commits x fs db1 db2)
  have "rows_ok (db\<lparr>db_faults := fs\<rparr>)" using ok(2) by (simp add: rows_ok_def)
  note body = write_states_Ok [OF commits(2) ok(1) this]
  have "db' = db2" "r = Ok x" using run commits(1) by (simp_all add: pg_commit_def)
  then show ?thesis
    using body tables_eqD [OF commits(3)] cells_of_eq [of db2 db1] cells_of_eq [of "db\<lparr>db_faults := fs\<rparr>" db]
    by (simp add: rows_ok_def other_tables_same_iff)
next
  case (aborts fs e db1 db2)
  then show ?thesis using write_states_error [OF aborts(2) ok(1)] run by (auto simp: pg_commit_def)
next
  case (lost db2)
  then show ?thesis using run by (simp add: pg_commit_def)
next
  case (panics fs db1 db2)
  then show ?thesis using write_states_error [OF panics(2) ok(1)] by simp
qed

text \<open>C11. The Postgres store implements the in-memory cells under every pattern of connection failures: a load
  is the cells' load or a persistence failure, and a commit applies the whole write set as the cells do, or
  fails and changes nothing; it never touches another contract or another table.  Without failures it
  succeeds.
\<close>

theorem postgres_store_refines_cells:
  assumes "\<forall>w \<in> set ws. storable (cw_value w)" and "rows_ok db"
  shows "fst (pg_load contract state key db) \<in> {cells_load (cells_of contract db) state key, Err MPersistenceFailure}
    \<and> (case pg_commit contract ws db of
         (Ok _, db') \<Rightarrow> cells_of contract db' = cells_commit ws (cells_of contract db) \<and> rows_ok db'
           \<and> (\<forall>c. c \<noteq> contract \<longrightarrow> cells_of c db' = cells_of c db) \<and> other_tables_same db' db
       | (Err e, db') \<Rightarrow> e = MPersistenceFailure \<and> tables db' = tables db
       | (Panic, db') \<Rightarrow> False)
    \<and> (db_faults db = [] \<and> versions_below (2 ^ 62) db \<and> length ws < 2 ^ 62 \<longrightarrow> fst (pg_commit contract ws db) = Ok ())"
proof (intro conjI impI)
  show "fst (pg_load contract state key db) \<in> {cells_load (cells_of contract db) state key, Err MPersistenceFailure}"
    unfolding pg_load_eq [OF assms(2)] by (rule statement_query) (simp add: cells_of_def)
  show "case pg_commit contract ws db of
         (Ok _, db') \<Rightarrow> cells_of contract db' = cells_commit ws (cells_of contract db) \<and> rows_ok db'
           \<and> (\<forall>c. c \<noteq> contract \<longrightarrow> cells_of c db' = cells_of c db) \<and> other_tables_same db' db
       | (Err e, db') \<Rightarrow> e = MPersistenceFailure \<and> tables db' = tables db
       | (Panic, db') \<Rightarrow> False"
    using pg_commit_outcome [OF assms] by (cases "pg_commit contract ws db") fastforce
  assume rel: "db_faults db = [] \<and> versions_below (2 ^ 62) db \<and> length ws < 2 ^ 62"
  then have "versions_below (2 ^ 63 - int (length ws)) db" by (force simp: versions_below_def)
  then obtain db' where "write_states contract ws db = (Ok (), db')" "db_faults db' = []"
    using write_states_reliable [of db ws "2 ^ 63"] rel assms(1) by auto
  then show "fst (pg_commit contract ws db) = Ok ()"
    using transaction_reliable [of db "write_states contract ws"] rel by (simp add: pg_commit_def)
qed

definition sample_write :: cell_write where
  "sample_write = \<lparr>cw_state = ''b'', cw_key = [7], cw_value = fhe_uint 1\<rparr>"

theorem postgres_store_refines_cells_witness:
  "cells_of [1] (snd (pg_commit [1] [sample_write] empty_database)) (''b'', [7]) = Some (fhe_uint 1)"
proof -
  have "length FHE_UINT_PREFIX = 29" by code_simp
  then have storable: "\<forall>w \<in> set [sample_write]. storable (cw_value w)"
    by (auto simp: sample_write_def storable_def fhe_uint_def encoded_def)
  have rows: "rows_ok empty_database" "versions_below (2 ^ 62) empty_database" "db_faults empty_database = []"
    by (simp_all add: rows_ok_def versions_below_def empty_database_def)
  note law = postgres_store_refines_cells [OF storable rows(1), of "[1]" "''b''" "[7]"]
  then have "fst (pg_commit [1] [sample_write] empty_database) = Ok ()" using rows by simp
  then show ?thesis using law by (cases "pg_commit [1] [sample_write] empty_database") (simp add: cells_commit_def sample_write_def)
qed

end
