(* ===== verification/Store_Executor.thy ===== *)
theory Store_Executor
  imports Postgres_Store
begin

text \<open>
  \<open>ManifestExecutor<S, B>\<close> of \<open>runtime/src/manifest.rs\<close> over a store with effects.

  The executor is generic in its store \<open>S: ManifestStateStore\<close>.  Manifest_Runtime runs it on a load
  function; here a load is an operation on the store's own state, as it is for Postgres, where any load can
  fail.  The locale \<open>manifest_store\<close> is the trait's contract: loads answer from the cells or fail, a commit
  applies every write or none.  In it the executor refines its run on the plain cells.  The in-memory and the
  Postgres store are its interpretations.
\<close>

section \<open>The executor\<close>

primrec fold_do :: "('a \<Rightarrow> 's \<Rightarrow> 'w \<Rightarrow> ('e, 's) res \<times> 'w) \<Rightarrow> 'a list \<Rightarrow> 's \<Rightarrow> 'w \<Rightarrow> ('e, 's) res \<times> 'w" where
  "fold_do f [] s w = (Ok s, w)"
| "fold_do f (x # xs) s w = then_do (f x s w) (fold_do f xs)"

type_synonym 'db loader = "string \<Rightarrow> bytes \<Rightarrow> 'db \<Rightarrow> (manifest_runtime_error, manifest_value) res \<times> 'db"
type_synonym 'db committer = "cell_write list \<Rightarrow> 'db \<Rightarrow> (manifest_runtime_error, unit) res \<times> 'db"

text \<open>The cell a \<open>load_state\<close> operator names.\<close>

definition load_cell ::
  "contract_manifest \<Rightarrow> operator_node \<Rightarrow> manifest_value list \<Rightarrow> (manifest_runtime_error, string \<times> bytes) res"
where
  "load_cell m node args =
     bindR (ok_or MInvalidManifest (op_state node)) (\<lambda>state.
     bindR (manifest_state m state) (\<lambda>decl.
     bindR (case sm_key_type decl of
              Some TAddress \<Rightarrow> bindR (first_argument args) mv_state_key
            | None \<Rightarrow> if args = [] then Ok [] else Err MInvalidStateKey
            | _ \<Rightarrow> Err MInvalidStateKey) (\<lambda>key. Ok (state, key))))"

lemma load_state_cell:
  "load_state m load node args = bindR (load_cell m node args) (\<lambda>(s, k). bindR (load s k) (expect_value_type (op_output_type node)))"
  by (simp add: load_state_def load_cell_def bindR_assoc)

definition load_state_over ::
  "'db loader \<Rightarrow> contract_manifest \<Rightarrow> operator_node \<Rightarrow> manifest_value list \<Rightarrow> 'db \<Rightarrow>
     (manifest_runtime_error, manifest_value) res \<times> 'db"
where
  "load_state_over load m node args db =
     then_do (load_cell m node args, db) (\<lambda>(state, key) db.
     then_do (load state key db) (\<lambda>v db. (expect_value_type (op_output_type node) v, db)))"

definition execute_operator_over ::
  "'db loader \<Rightarrow> contract_manifest \<Rightarrow> manifest_crypto_backend \<Rightarrow> operator_node \<Rightarrow> value_table \<times> host_call list \<Rightarrow> 'db \<Rightarrow>
     (manifest_runtime_error, value_table \<times> host_call list) res \<times> 'db"
where
  "execute_operator_over load m MB node = (\<lambda>(vals, calls) db.
     then_do
       (if op_opcode node = ''load_state'' then
          then_do (mapR (resolve_owned vals) (op_inputs node), db) (\<lambda>args db.
          then_do (load_state_over load m node args db) (\<lambda>v db. (Ok (v, calls), db)))
        else (execute_operator m (\<lambda>_ _. Err MStateUnavailable) MB node vals calls, db))
       (\<lambda>(out, calls) db. (Ok (vals(op_id node \<mapsto> out), calls), db)))"

definition evaluate_over ::
  "'db loader \<Rightarrow> contract_manifest \<Rightarrow> manifest_crypto_backend \<Rightarrow> string \<Rightarrow> bytes \<Rightarrow> invocation_inputs \<Rightarrow> 'db \<Rightarrow>
     (manifest_runtime_error, execution_outcome) res \<times> 'db"
where
  "evaluate_over load m MB function_name sender inputs db =
     then_do (ok_or MFunctionNotFound (List.find (\<lambda>f. fm_name f = function_name) (cm_functions m)), db) (\<lambda>fm db.
     then_do (validate_inputs fm inputs, db) (\<lambda>_ db.
     then_do (initial_values sender fm inputs, db) (\<lambda>vals db.
     then_do (fold_do (execute_operator_over load m MB) (fm_operators fm) (vals, []) db) (\<lambda>(vals, calls) db.
     then_do (mapR (plan_write m vals) (fm_state_writes fm), db) (\<lambda>writes db.
       (bindR (case fm_opening_output fm of
                 None \<Rightarrow> Ok None
               | Some r \<Rightarrow> bindR (resolve vals r) (\<lambda>v. Ok (Some v))) (\<lambda>opening.
          Ok \<lparr>eo_state_writes = writes, eo_host_calls = calls, eo_opening = opening\<rparr>), db))))))"

definition execute_over ::
  "'db loader \<Rightarrow> 'db committer \<Rightarrow> contract_manifest \<Rightarrow> manifest_crypto_backend \<Rightarrow> string \<Rightarrow> bytes \<Rightarrow> invocation_inputs \<Rightarrow>
     'db \<Rightarrow> (manifest_runtime_error, execution_outcome) res \<times> 'db"
where
  "execute_over load commit m MB function_name sender inputs db =
     then_do (evaluate_over load m MB function_name sender inputs db) (\<lambda>result db.
     then_do (commit (eo_state_writes result) db) (\<lambda>_ db. (Ok result, db)))"

section \<open>Values that rows can hold\<close>

definition solid :: "manifest_value \<Rightarrow> bool" where
  "solid v \<longleftrightarrow> mv_type v = TVoid \<or> mv_bytes v \<noteq> []"

definition solid_backend :: "manifest_crypto_backend \<Rightarrow> bool" where
  "solid_backend MB \<longleftrightarrow>
     (\<forall>opcode args v. mb_evaluate MB opcode args = Ok v \<longrightarrow> solid v) \<and> (\<forall>u v. mb_pick MB u = Ok v \<longrightarrow> solid v)"

lemma solid_basic [simp]: "solid (mv_public_uint n)" "solid void_value" "solid (mv_address a) \<longleftrightarrow> a \<noteq> []"
proof -
  have "u128_be n \<noteq> []" by (metis length_u128_be list.size(3) zero_neq_numeral)
  then show "solid (mv_public_uint n)" by (simp add: solid_def mv_public_uint_def)
qed (simp_all add: solid_def void_value_def mv_address_def)

definition solid_table :: "value_table \<Rightarrow> bool" where
  "solid_table vals \<longleftrightarrow> (\<forall>r v. vals r = Some v \<longrightarrow> solid v)"

lemma solid_operator:
  assumes "execute_operator m load MB node vals calls = Ok (v, calls')" and "solid_backend MB"
    and "\<And>s k v. load s k = Ok v \<Longrightarrow> solid v"
  shows "solid v"
  using assms
  by (auto simp: execute_operator_def load_state_def expect_value_type_def solid_backend_def split: if_splits)

lemma solid_operators:
  assumes "run_operators m load MB ops (vals, calls) = Ok (vals', calls')" and "solid_table vals" and "solid_backend MB"
    and "\<And>s k v. load s k = Ok v \<Longrightarrow> solid v"
  shows "solid_table vals'"
  using assms
proof (induction ops arbitrary: vals calls)
  case (Cons node ops)
  then obtain v calls1 where step: "execute_operator m load MB node vals calls = Ok (v, calls1)"
      "run_operators m load MB ops (vals(op_id node \<mapsto> v), calls1) = Ok (vals', calls')"
    by (auto simp: run_operators_def)
  have "solid_table (vals(op_id node \<mapsto> v))"
    using Cons.prems(2) solid_operator [OF step(1) Cons.prems(3,4)] by (simp add: solid_table_def)
  then show ?case using Cons.IH [OF step(2)] Cons.prems(3,4) by blast
qed (simp add: run_operators_def)

definition stores_values :: "contract_manifest \<Rightarrow> bool" where
  "stores_values m \<longleftrightarrow> (\<forall>d \<in> set (cm_state m). sm_value_type d \<noteq> TVoid)"

lemma planned_storable:
  assumes "plan_write m vals w = Ok cw" and "solid_table vals" and "stores_values m"
  shows "storable (cw_value cw)"
proof -
  obtain decl where "manifest_state m (sw_state w) = Ok decl" "mv_type (cw_value cw) = sm_value_type decl"
    and v: "vals (sw_value w) = Some (cw_value cw)"
    using assms(1) by (auto simp: plan_write_def resolve_def split: if_splits)
  then have "mv_type (cw_value cw) \<noteq> TVoid"
    using assms(3) by (auto simp: stores_values_def manifest_state_def find_Some_iff)
  then show ?thesis using v assms(2) by (auto simp: solid_table_def solid_def storable_def)
qed

lemma mapR_member: "mapR f xs = Ok ys \<Longrightarrow> y \<in> set ys \<Longrightarrow> \<exists>x \<in> set xs. f x = Ok y"
  by (induction xs arbitrary: ys) auto

lemma evaluated_storable:
  assumes run: "manifest_evaluate m load MB name sender inputs = Ok result"
    and ok: "solid_backend MB" "stores_values m" "sender \<noteq> []" "\<And>k v. bt_get k inputs = Some v \<Longrightarrow> solid v"
    and load: "\<And>s k v. load s k = Ok v \<Longrightarrow> solid v"
  shows "\<forall>w \<in> set (eo_state_writes result). storable (cw_value w)"
proof -
  obtain fm vals0 vals calls where steps: "validate_inputs fm inputs = Ok ()" "initial_values sender fm inputs = Ok vals0"
      "run_operators m load MB (fm_operators fm) (vals0, []) = Ok (vals, calls)"
      "mapR (plan_write m vals) (fm_state_writes fm) = Ok (eo_state_writes result)"
    using run by (auto simp: manifest_evaluate_def)
  have "\<forall>p \<in> set (fm_inputs fm). bt_get (ai_name p) inputs \<noteq> None" using validate_inputs_Ok [OF steps(1)] by blast
  from initial_values_eq [OF this, of sender] have "solid_table vals0"
    using steps(2) ok(3,4) by (auto simp: solid_table_def split: if_splits)
  then have "solid_table vals" by (rule solid_operators [OF steps(3) _ ok(1) load])
  then have "storable (cw_value cw)" if "plan_write m vals w = Ok cw" for w cw
    by (rule planned_storable [OF that _ ok(2)])
  then show ?thesis using mapR_member [OF steps(4)] by blast
qed

section \<open>The contract of a store\<close>

text \<open>
  \<open>cells_in\<close> is what the store holds, \<open>healthy\<close> its own invariant and \<open>lost\<close> the errors a failing
  connection gives.  A commit is only asked for values the store can hold.
\<close>

locale manifest_store =
  fixes load :: "'db loader" and commit :: "'db committer"
    and cells_in :: "'db \<Rightarrow> cells" and healthy :: "'db \<Rightarrow> bool" and lost :: "manifest_runtime_error set"
  assumes load_answers: "healthy db \<Longrightarrow> load s k db = (r, db') \<Longrightarrow> r = cells_load (cells_in db) s k \<or> r \<in> Err ` lost"
    and load_keeps: "healthy db \<Longrightarrow> load s k db = (r, db') \<Longrightarrow> healthy db' \<and> cells_in db' = cells_in db"
    and healthy_solid: "healthy db \<Longrightarrow> cells_in db p = Some v \<Longrightarrow> solid v"
    and commit_all_or_nothing: "healthy db \<Longrightarrow> \<forall>w \<in> set ws. storable (cw_value w) \<Longrightarrow> commit ws db = (q, db') \<Longrightarrow>
          healthy db' \<and> (q = Ok () \<and> cells_in db' = cells_commit ws (cells_in db) \<or> q \<in> Err ` lost \<and> cells_in db' = cells_in db)"
begin

text \<open>An operation on the store that answers as a pure computation does, or loses the connection.\<close>

definition follows :: "(manifest_runtime_error, 'a) res \<times> 'db \<Rightarrow> (manifest_runtime_error, 'a) res \<Rightarrow> cells \<Rightarrow> bool" where
  "follows m r cs \<longleftrightarrow> (fst m = r \<or> fst m \<in> Err ` lost) \<and> healthy (snd m) \<and> cells_in (snd m) = cs"

lemma follows_pure: "healthy db \<Longrightarrow> cells_in db = cs \<Longrightarrow> follows (r, db) r cs"
  by (simp add: follows_def)

lemma follows_bind:
  assumes "follows m r cs" and "\<And>x db. r = Ok x \<Longrightarrow> healthy db \<Longrightarrow> cells_in db = cs \<Longrightarrow> follows (f x db) (g x) cs"
  shows "follows (then_do m f) (bindR r g) cs"
proof -
  obtain q db where m: "m = (q, db)" by force
  have q: "q = r \<or> q \<in> Err ` lost" and db: "healthy db" "cells_in db = cs" using assms(1) by (auto simp: follows_def m)
  show ?thesis
  proof (cases "q \<in> Err ` lost")
    case True
    then show ?thesis using db by (auto simp: follows_def m)
  next
    case False
    then have "q = r" using q by blast
    then show ?thesis using assms(2) db by (cases r) (auto simp: m follows_def)
  qed
qed

lemma follows_load: "healthy db \<Longrightarrow> follows (load s k db) (cells_load (cells_in db) s k) (cells_in db)"
  using load_answers [of db s k] load_keeps [of db s k] by (cases "load s k db") (simp add: follows_def)

lemma load_state_follows:
  "healthy db \<Longrightarrow> follows (load_state_over load m node args db) (load_state m (cells_load (cells_in db)) node args) (cells_in db)"
  unfolding load_state_over_def load_state_cell
  by (rule follows_bind, erule follows_pure [OF _ refl], clarsimp)
    (rule follows_bind, use follows_load in fastforce, auto intro: follows_pure)

lemma operator_follows:
  assumes "healthy db" and "cells_in db = cs"
  shows "follows (execute_operator_over load m MB node (vals, calls) db)
    (bindR (execute_operator m (cells_load cs) MB node vals calls) (\<lambda>(out, calls). Ok (vals(op_id node \<mapsto> out), calls))) cs"
  unfolding execute_operator_over_def split
proof (rule follows_bind)
  show "follows (if op_opcode node = ''load_state'' then
          then_do (mapR (resolve_owned vals) (op_inputs node), db) (\<lambda>args db.
          then_do (load_state_over load m node args db) (\<lambda>v db. (Ok (v, calls), db)))
        else (execute_operator m (\<lambda>_ _. Err MStateUnavailable) MB node vals calls, db))
      (execute_operator m (cells_load cs) MB node vals calls) cs"
  proof (cases "op_opcode node = ''load_state''")
    case True
    have "follows (then_do (mapR (resolve_owned vals) (op_inputs node), db) (\<lambda>args db.
          then_do (load_state_over load m node args db) (\<lambda>v db. (Ok (v, calls), db))))
        (bindR (mapR (resolve_owned vals) (op_inputs node)) (\<lambda>args.
           bindR (load_state m (cells_load cs) node args) (\<lambda>v. Ok (v, calls)))) cs"
      by (intro follows_bind follows_pure assms) (use load_state_follows in fastforce)+
    then show ?thesis using True by (simp add: execute_operator_def)
  next
    case False
    then have "execute_operator m (\<lambda>_ _. Err MStateUnavailable) MB node vals calls
        = execute_operator m (cells_load cs) MB node vals calls"
      by (simp add: execute_operator_def)
    then show ?thesis using False assms by (simp add: follows_pure)
  qed
qed (auto intro: follows_pure)

lemma operators_follow:
  "healthy db \<Longrightarrow> cells_in db = cs \<Longrightarrow>
   follows (fold_do (execute_operator_over load m MB) ops s db) (run_operators m (cells_load cs) MB ops s) cs"
proof (induction ops arbitrary: s db)
  case (Cons node ops)
  obtain vals calls where s: "s = (vals, calls)" by force
  show ?case
    unfolding run_operators_def s fold_do.simps foldR.simps split
    by (rule follows_bind, rule operator_follows, rule Cons.prems, rule Cons.prems,
        rule Cons.IH [unfolded run_operators_def])
qed (simp add: run_operators_def follows_pure)

text \<open>Evaluating over the store is evaluating over its cells, unless the connection fails; nothing is written.\<close>

lemma evaluate_follows:
  assumes "healthy db" and "cells_in db = cs"
  shows "follows (evaluate_over load m MB name sender inputs db) (manifest_evaluate m (cells_load cs) MB name sender inputs) cs"
  unfolding evaluate_over_def manifest_evaluate_def
  by (intro follows_bind follows_pure operators_follow assms) (auto intro!: follows_bind follows_pure)

text \<open>Executing is executing on the cells, or the connection fails and the cells stay.\<close>

lemma execute_over_refines:
  assumes "healthy db" and "execute_over load commit m MB name sender inputs db = (r, db')"
    and "solid_backend MB" "stores_values m" "sender \<noteq> []" "\<And>k v. bt_get k inputs = Some v \<Longrightarrow> solid v"
  shows "healthy db' \<and> ((r, cells_in db') = manifest_execute m MB name sender inputs (cells_in db)
    \<or> r \<in> Err ` lost \<and> cells_in db' = cells_in db)"
proof -
  let ?pure = "manifest_evaluate m (cells_load (cells_in db)) MB name sender inputs"
  obtain q db1 where eval: "evaluate_over load m MB name sender inputs db = (q, db1)" by force
  have ev: "q = ?pure \<or> q \<in> Err ` lost" "healthy db1" "cells_in db1 = cells_in db"
    using evaluate_follows [OF assms(1) refl, of m MB name sender inputs] by (simp_all add: eval follows_def)
  show ?thesis
  proof (cases "q \<in> Err ` lost")
    case True
    then show ?thesis using assms(2) eval ev by (auto simp: execute_over_def)
  next
    case False
    then have run: "?pure = q" using ev by blast
    show ?thesis
    proof (cases q)
      case (Ok result)
      have "solid v" if "cells_load (cells_in db) s k = Ok v" for s k v
        using healthy_solid [OF assms(1)] that by (simp add: cells_load_def)
      then have storable: "\<forall>w \<in> set (eo_state_writes result). storable (cw_value w)"
        using evaluated_storable [OF run [unfolded Ok]] assms(3-6) by blast
      obtain p db2 where commit: "commit (eo_state_writes result) db1 = (p, db2)" by force
      show ?thesis using commit_all_or_nothing [OF ev(2) storable commit] assms(2) eval ev(3) Ok run commit
        by (auto simp: execute_over_def manifest_execute_def)
    next
      case (Err e)
      then have "r = Err e" "db' = db1" "?pure = Err e" using assms(2) eval run by (simp_all add: execute_over_def)
      then show ?thesis using ev by (simp add: manifest_execute_def)
    next
      case Panic
      then have "r = Panic" "db' = db1" "?pure = Panic" using assms(2) eval run by (simp_all add: execute_over_def)
      then show ?thesis using ev by (simp add: manifest_execute_def)
    qed
  qed
qed

end

text \<open>\<open>MemoryManifestState\<close>: the cells themselves, never lost.\<close>

definition mem_load :: "cells loader" where
  "mem_load s k cs = (cells_load cs s k, cs)"

definition mem_commit :: "cells committer" where
  "mem_commit ws cs = (Ok (), cells_commit ws cs)"

definition solid_cells :: "cells \<Rightarrow> bool" where
  "solid_cells cs \<longleftrightarrow> (\<forall>p v. cs p = Some v \<longrightarrow> solid v)"

lemma solid_cells_commit: "solid_cells cs \<Longrightarrow> \<forall>w \<in> set ws. storable (cw_value w) \<Longrightarrow> solid_cells (cells_commit ws cs)"
proof (induction ws arbitrary: cs)
  case (Cons w ws)
  have "solid_cells (cs((cw_state w, cw_key w) \<mapsto> cw_value w))"
    using Cons.prems by (auto simp: solid_cells_def storable_def solid_def)
  from Cons.IH [OF this] show ?case using Cons.prems by (simp add: cells_commit_def del: fun_upd_apply)
qed (simp add: cells_commit_def)

interpretation mem_store: manifest_store mem_load mem_commit "\<lambda>cs. cs" solid_cells "{}"
proof unfold_locales
  show "solid_cells cs \<Longrightarrow> cs p = Some v \<Longrightarrow> solid v" for cs p v unfolding solid_cells_def by blast
qed (auto simp: mem_load_def mem_commit_def solid_cells_commit)

lemma cells_of_solid: "rows_ok db \<Longrightarrow> cells_of contract db p = Some v \<Longrightarrow> solid v"
proof -
  assume "rows_ok db" "cells_of contract db p = Some v"
  then obtain row where "is_ok (value_from_row (sr_type row) (sr_payload row))" "v = row_value row"
    by (cases p) (fastforce simp: cells_of_def rows_ok_def)
  then show "solid v" by (auto simp: row_value_def is_ok_iff value_from_row_def solid_def split: if_splits)
qed

interpretation pg_store: manifest_store "pg_load contract" "pg_commit contract" "cells_of contract" rows_ok "{MPersistenceFailure}"
  for contract
proof unfold_locales
  fix db s k r db'
  assume db: "rows_ok db" "pg_load contract s k db = (r, db')"
  have "fst (pg_load contract s k db) \<in> {cells_load (cells_of contract db) s k, Err MPersistenceFailure}"
    and "tables (snd (pg_load contract s k db)) = tables db"
    unfolding pg_load_eq [OF db(1)] by (rule statement_query; simp add: cells_of_def)+
  then show "r = cells_load (cells_of contract db) s k \<or> r \<in> Err ` {MPersistenceFailure}"
    "rows_ok db' \<and> cells_of contract db' = cells_of contract db"
    using db tables_eqD(1) [of db' db] by (auto simp: rows_ok_def cells_of_def)
next
  fix db ws q db'
  assume "rows_ok db" "\<forall>w \<in> set ws. storable (cw_value w)" "pg_commit contract ws db = (q, db')"
  then show "rows_ok db' \<and> (q = Ok () \<and> cells_of contract db' = cells_commit ws (cells_of contract db)
      \<or> q \<in> Err ` {MPersistenceFailure} \<and> cells_of contract db' = cells_of contract db)"
    using pg_commit_outcome [of ws db contract q db'] tables_eqD(1) [of db' db] by (auto simp: rows_ok_def cells_of_def)
qed (rule cells_of_solid)

end
