(* ===== verification/Hex_Strings.thy ===== *)
theory Hex_Strings
  imports Manifest_Runtime
begin

text \<open>
  Byte strings as hexadecimal text, as \<open>runtime/src/manifest_crypto_process.rs\<close>,
  \<open>manifest_upload.rs\<close>, \<open>manifest_daemon.rs\<close> and \<open>bin/manifest_committee_daemon.rs\<close> write and read it.

  A \<open>str\<close> is the list of its UTF-8 bytes, a byte read as a character.  Slicing inside a multi-byte
  character panics; \<open>u8::from_str_radix\<close> accepts a leading plus sign.
\<close>

section \<open>str\<close>

definition is_char_boundary :: "string \<Rightarrow> nat \<Rightarrow> bool" where
  "is_char_boundary s i =
     (i = 0 \<or> i = length s \<or> i < length s \<and> \<not> (128 \<le> (of_char (s ! i) :: nat) \<and> (of_char (s ! i) :: nat) < 192))"

definition str_slice :: "string \<Rightarrow> nat \<Rightarrow> nat \<Rightarrow> ('e, string) res" where
  "str_slice s i j =
     (if i \<le> j \<and> is_char_boundary s i \<and> is_char_boundary s j then Ok (take (j - i) (drop i s)) else Panic)"

definition strip_prefix :: "string \<Rightarrow> string \<Rightarrow> string option" where
  "strip_prefix p s = (if take (length p) s = p then Some (drop (length p) s) else None)"

definition ascii_str :: "string \<Rightarrow> bool" where
  "ascii_str s = list_all (\<lambda>c. (of_char c :: nat) < 128) s"

text \<open>\<open>char::is_whitespace\<close>: the UTF-8 encodings of the white space characters.\<close>

definition white_space :: "string list" where
  "white_space =
     map (\<lambda>n. [char_of n]) [9, 10, 11, 12, 13, 32 :: nat]
     @ [[CHR 0xC2, CHR 0x85], [CHR 0xC2, CHR 0xA0], [CHR 0xE1, CHR 0x9A, CHR 0x80], [CHR 0xE2, CHR 0x80, CHR 0xA8],
        [CHR 0xE2, CHR 0x80, CHR 0xA9], [CHR 0xE2, CHR 0x80, CHR 0xAF], [CHR 0xE2, CHR 0x81, CHR 0x9F], [CHR 0xE3, CHR 0x80, CHR 0x80]]
     @ map (\<lambda>n. [CHR 0xE2, CHR 0x80, char_of n]) [128 ..< 139 :: nat]"

definition leading_space :: "string list \<Rightarrow> string \<Rightarrow> nat" where
  "leading_space ws s = (case List.find (\<lambda>w. w \<noteq> [] \<and> take (length w) s = w) ws of Some w \<Rightarrow> length w | None \<Rightarrow> 0)"

function trim_start :: "string list \<Rightarrow> string \<Rightarrow> string" where
  "trim_start ws s = (if leading_space ws s = 0 then s else trim_start ws (drop (leading_space ws s) s))"
  by pat_completeness auto
termination trim_start
proof (relation "measure (\<lambda>(ws, s). length s)")
  fix ws s
  assume pos: "leading_space ws s \<noteq> 0"
  then have "s \<noteq> []" by (auto simp: leading_space_def find_Some_iff split: option.splits)
  then show "((ws, drop (leading_space ws s) s), ws, s) \<in> measure (\<lambda>(ws, s). length s)" using pos by (cases s) simp_all
qed simp

declare trim_start.simps [simp del]

definition str_trim :: "string \<Rightarrow> string" where
  "str_trim s = rev (trim_start (map rev white_space) (rev (trim_start white_space s)))"

section \<open>Hexadecimal digits\<close>

definition hex_value :: "char \<Rightarrow> nat option" where
  "hex_value c =
     (let n = of_char c :: nat in
      if 48 \<le> n \<and> n \<le> 57 then Some (n - 48) else if 97 \<le> n \<and> n \<le> 102 then Some (n - 87)
      else if 65 \<le> n \<and> n \<le> 70 then Some (n - 55) else None)"

primrec hex_number :: "string \<Rightarrow> nat \<Rightarrow> nat option" where
  "hex_number [] acc = Some acc"
| "hex_number (c # cs) acc =
     (case hex_value c of None \<Rightarrow> None
      | Some d \<Rightarrow> if 16 * acc + d < 256 then hex_number cs (16 * acc + d) else None)"

text \<open>\<open>u8::from_str_radix(_, 16)\<close>.\<close>

definition u8_from_hex :: "string \<Rightarrow> u8 option" where
  "u8_from_hex s =
     (let digits = (case s of c # d # ds \<Rightarrow> if c = CHR ''+'' then d # ds else s | _ \<Rightarrow> s) in
      if digits = [] then None else map_option of_nat (hex_number digits 0))"

definition hex_text :: "bytes \<Rightarrow> string" where
  "hex_text bs = ''0x'' @ hex bs"

text \<open>The loop over pairs of digits; it stops at the first error.\<close>

definition decode_pairs :: "'e \<Rightarrow> string \<Rightarrow> ('e, bytes) res" where
  "decode_pairs e raw =
     mapR (\<lambda>k. bindR (str_slice raw (2 * k) (2 * k + 2)) (\<lambda>d. ok_or e (u8_from_hex d))) [0 ..< length raw div 2]"

text \<open>The reader of \<open>manifest_crypto_process.rs\<close> and \<open>manifest_upload.rs\<close>: the prefix is optional.\<close>

definition decode_hex :: "string \<Rightarrow> (manifest_runtime_error, bytes) res" where
  "decode_hex s =
     (let raw = (case strip_prefix ''0x'' s of Some r \<Rightarrow> r | None \<Rightarrow> s) in
      if length raw mod 2 \<noteq> 0 then Err MInvalidValue else decode_pairs MInvalidValue raw)"

definition decode_fixed :: "nat \<Rightarrow> string \<Rightarrow> (manifest_runtime_error, bytes) res" where
  "decode_fixed n s = bindR (decode_hex s) (\<lambda>bs. if length bs = n then Ok bs else Err MInvalidValue)"

section \<open>Reading back what was written\<close>

lemma hex_digit_value: "n < 16 \<Longrightarrow> hex_value (hex_digit n) = Some n \<and> (of_char (hex_digit n) :: nat) < 128 \<and> hex_digit n \<noteq> CHR ''+''"
proof -
  have "list_all (\<lambda>n. hex_value (hex_digit n) = Some n \<and> (of_char (hex_digit n) :: nat) < 128 \<and> hex_digit n \<noteq> CHR ''+'') [0..<16]"
    by code_simp
  then show "n < 16 \<Longrightarrow> ?thesis" by (simp add: list_all_iff)
qed

lemma hex_Cons: "hex (b # bs) = hex_digit (unat b div 16) # hex_digit (unat b mod 16) # hex bs"
  by (simp add: hex_def)

lemma hex_Nil [simp]: "hex [] = []"
  by (simp add: hex_def)

lemma length_hex [simp]: "length (hex bs) = 2 * length bs"
  by (induction bs) (simp_all add: hex_Cons)

lemma ascii_hex: "ascii_str (hex bs)"
proof (induction bs)
  case (Cons b bs)
  have "unat b div 16 < 16" "unat b mod 16 < 16" using unat_bound [of b] by auto
  then show ?case using Cons hex_digit_value by (simp add: ascii_str_def hex_Cons)
qed (simp add: ascii_str_def)

lemma byte_from_hex: "u8_from_hex [hex_digit (unat b div 16), hex_digit (unat b mod 16)] = Some b"
proof -
  have "unat b < 256" using unat_bound [of b] by simp
  then have digits: "unat b div 16 < 16" "unat b mod 16 < 16" "16 * (unat b div 16) + unat b mod 16 = unat b" by auto
  then show ?thesis using \<open>unat b < 256\<close> hex_digit_value by (simp add: u8_from_hex_def)
qed

lemma ascii_boundary:
  assumes "ascii_str s" and "i \<le> length s"
  shows "is_char_boundary s i"
proof (cases "i < length s")
  case True
  then have "(of_char (s ! i) :: nat) < 128" using assms(1) by (simp add: ascii_str_def list_all_length)
  then show ?thesis using True by (simp add: is_char_boundary_def)
qed (use assms(2) in \<open>simp add: is_char_boundary_def\<close>)

lemma str_slice_ascii: "ascii_str s \<Longrightarrow> i \<le> j \<Longrightarrow> j \<le> length s \<Longrightarrow> str_slice s i j = Ok (take (j - i) (drop i s))"
  by (simp add: str_slice_def ascii_boundary)

lemma decode_pairs_Cons:
  assumes "ascii_str (a # b # s)"
  shows "decode_pairs e (a # b # s) = bindR (ok_or e (u8_from_hex [a, b])) (\<lambda>x. bindR (decode_pairs e s) (\<lambda>xs. Ok (x # xs)))"
proof -
  have idx: "[0 ..< length (a # b # s) div 2] = 0 # map Suc [0 ..< length s div 2]"
    by (simp add: map_Suc_upt upt_conv_Cons)
  have mapR_map: "mapR f (map g xs) = mapR (f \<circ> g) xs" for f :: "nat \<Rightarrow> ('a, u8) res" and g xs
    by (induction xs) simp_all
  have mapR_cong: "(\<And>k. k \<in> set xs \<Longrightarrow> f k = g k) \<Longrightarrow> mapR f xs = mapR g xs" for f g :: "nat \<Rightarrow> ('a, u8) res" and xs
    by (induction xs) simp_all
  have s: "ascii_str s" using assms by (simp add: ascii_str_def)
  have "mapR ((\<lambda>k. bindR (str_slice (a # b # s) (2 * k) (2 * k + 2)) (\<lambda>d. ok_or e (u8_from_hex d))) \<circ> Suc) [0 ..< length s div 2]
      = decode_pairs e s"
    unfolding decode_pairs_def
    by (rule mapR_cong) (auto simp: str_slice_ascii [OF assms] str_slice_ascii [OF s])
  then show ?thesis
    using assms by (simp only: decode_pairs_def idx mapR.simps mapR_map) (simp add: str_slice_ascii)
qed

lemma decode_pairs_hex: "decode_pairs e (hex bs) = Ok bs"
proof (induction bs)
  case (Cons b bs)
  have "ascii_str (hex (b # bs))" by (rule ascii_hex)
  then show ?case using Cons by (simp add: hex_Cons decode_pairs_Cons byte_from_hex)
qed (simp add: decode_pairs_def)

lemma decode_hex_text [simp]: "decode_hex (hex_text bs) = Ok bs"
  by (simp add: decode_hex_def hex_text_def strip_prefix_def decode_pairs_hex)

lemma decode_fixed_text: "length bs = n \<Longrightarrow> decode_fixed n (hex_text bs) = Ok bs"
  by (simp add: decode_fixed_def)

text \<open>A character of three bytes followed by another one makes the reader slice inside the character.\<close>

lemma decode_hex_panics: "decode_hex [CHR 0xE2, CHR 0x82, CHR 0xAC, CHR ''0''] = Panic"
  by (simp add: decode_hex_def strip_prefix_def decode_pairs_def str_slice_def is_char_boundary_def upt_rec)

end
