(* ===== verification/Outbox.thy ===== *)
theory Outbox
  imports Hex_Strings
begin

text \<open>
  The outbox payload of \<open>runtime/src/manifest_daemon.rs\<close>: a computed outcome as bytes, and its reader.

  A reader takes the payload and the cursor and returns the cursor after what it read.  The lemmas build
  the round trip from one law per field, \<open>reads\<close>: wherever a field's encoding stands in a payload, its
  reader returns the field and the cursor behind it.
\<close>

datatype daemon_error =
  DChainUnavailable | DInvalidChainResponse | DFunctionNotFound | DInvalidPublicInputs | DInvalidPrivateInputs
| DUnsupportedParameter | DInvalidOutput | DOutputTooLarge | DRuntime manifest_runtime_error

section \<open>Writing\<close>

definition append_len :: "bytes \<Rightarrow> nat \<Rightarrow> (daemon_error, bytes) res" where
  "append_len out n = (if n < 2 ^ 32 then Ok (out @ be_bytes_nat 4 n) else Err DOutputTooLarge)"

definition append_bytes :: "bytes \<Rightarrow> bytes \<Rightarrow> (daemon_error, bytes) res" where
  "append_bytes out v = bindR (append_len out (length v)) (\<lambda>out. Ok (out @ v))"

fun value_type_tag :: "value_type \<Rightarrow> (daemon_error, u8) res" where
  "value_type_tag TAddress = Ok 0"
| "value_type_tag TUint = Ok 1"
| "value_type_tag TFheUint = Ok 2"
| "value_type_tag TFheBool = Ok 3"
| "value_type_tag TSint = Ok 4"
| "value_type_tag TSecretBool = Ok 5"
| "value_type_tag TOpened = Ok 6"
| "value_type_tag TVoid = Err DInvalidOutput"

definition OUTBOX_PREFIX :: bytes where
  "OUTBOX_PREFIX = ascii ''PPSC_MANIFEST_OUTBOX_V1''"

definition encode_value :: "bytes \<Rightarrow> manifest_value \<Rightarrow> (daemon_error, bytes) res" where
  "encode_value out v = bindR (value_type_tag (mv_type v)) (\<lambda>tag. append_bytes (out @ [tag]) (mv_bytes v))"

definition encode_write :: "cell_write \<Rightarrow> bytes \<Rightarrow> (daemon_error, bytes) res" where
  "encode_write w out =
     bindR (append_bytes out (ascii (cw_state w))) (\<lambda>out.
     bindR (append_bytes out (cw_key w)) (\<lambda>out. encode_value out (cw_value w)))"

definition encode_outbox_payload :: "bytes \<Rightarrow> execution_outcome \<Rightarrow> (daemon_error, bytes) res" where
  "encode_outbox_payload execution_id result =
     bindR (append_len (OUTBOX_PREFIX @ execution_id) (length (eo_state_writes result))) (\<lambda>out.
     bindR (foldR encode_write (eo_state_writes result) out) (\<lambda>out.
     bindR (append_len out (length (eo_host_calls result))) (\<lambda>out.
     bindR (foldR (\<lambda>call out. append_bytes out (ascii (hc_opcode call))) (eo_host_calls result) out) (\<lambda>out.
       case eo_opening result of
         Some opening \<Rightarrow> encode_value (out @ [1]) opening
       | None \<Rightarrow> Ok (out @ [0])))))"

section \<open>Reading\<close>

type_synonym 'a reader = "bytes \<Rightarrow> nat \<Rightarrow> (daemon_error, 'a \<times> nat) res"

definition take_bytes :: "nat \<Rightarrow> bytes reader" where
  "take_bytes n payload cursor =
     (if cursor + n < 2 ^ 64 \<and> cursor + n \<le> length payload then Ok (take n (drop cursor payload), cursor + n)
      else Err DInvalidOutput)"

definition take_u32 :: "nat reader" where
  "take_u32 payload cursor = bindR (take_bytes 4 payload cursor) (\<lambda>(bs, cursor). Ok (be_value bs, cursor))"

definition take_sized :: "bytes reader" where
  "take_sized payload cursor = bindR (take_u32 payload cursor) (\<lambda>(n, cursor). take_bytes n payload cursor)"

definition take_byte :: "u8 reader" where
  "take_byte payload cursor = bindR (take_bytes 1 payload cursor) (\<lambda>(bs, cursor).
     case bs of [] \<Rightarrow> Err DInvalidOutput | b # _ \<Rightarrow> Ok (b, cursor))"

definition value_type_from_tag :: "u8 \<Rightarrow> (daemon_error, value_type) res" where
  "value_type_from_tag tag =
     (if tag = 0 then Ok TAddress else if tag = 1 then Ok TUint else if tag = 2 then Ok TFheUint
      else if tag = 3 then Ok TFheBool else if tag = 4 then Ok TSint else if tag = 5 then Ok TSecretBool
      else if tag = 6 then Ok TOpened else Err DInvalidOutput)"

text \<open>\<open>String::from_utf8\<close>: a string of well-formed UTF-8 sequences.\<close>

definition continues :: "u8 \<Rightarrow> bool" where
  "continues b \<longleftrightarrow> 0x80 \<le> b \<and> b < 0xC0"

fun utf8_ok :: "bytes \<Rightarrow> bool" where
  "utf8_ok [] = True"
| "utf8_ok (a # s) =
     (if a < 0x80 then utf8_ok s
      else if 0xC2 \<le> a \<and> a < 0xE0 then (case s of b # s \<Rightarrow> continues b \<and> utf8_ok s | _ \<Rightarrow> False)
      else if 0xE0 \<le> a \<and> a < 0xF0 then
        (case s of b # c # s \<Rightarrow>
           continues b \<and> (a = 0xE0 \<longrightarrow> 0xA0 \<le> b) \<and> (a = 0xED \<longrightarrow> b < 0xA0) \<and> continues c \<and> utf8_ok s
         | _ \<Rightarrow> False)
      else if 0xF0 \<le> a \<and> a < 0xF5 then
        (case s of b # c # d # s \<Rightarrow>
           continues b \<and> (a = 0xF0 \<longrightarrow> 0x90 \<le> b) \<and> (a = 0xF4 \<longrightarrow> b < 0x90) \<and> continues c \<and> continues d \<and> utf8_ok s
         | _ \<Rightarrow> False)
      else False)"

definition string_of_utf8 :: "bytes \<Rightarrow> (daemon_error, string) res" where
  "string_of_utf8 bs = (if utf8_ok bs then Ok (map (\<lambda>b. char_of (unat b)) bs) else Err DInvalidOutput)"

record decoded_outbox =
  do_execution_id :: bytes
  do_state_writes :: "cell_write list"
  do_opening :: "manifest_value option"

definition take_value :: "manifest_value reader" where
  "take_value payload cursor =
     bindR (take_byte payload cursor) (\<lambda>(tag, cursor).
     bindR (value_type_from_tag tag) (\<lambda>ty.
     bindR (take_sized payload cursor) (\<lambda>(bs, cursor).
     bindR (mapE DRuntime (mv_protected ty bs)) (\<lambda>v. Ok (v, cursor)))))"

definition take_write :: "cell_write reader" where
  "take_write payload cursor =
     bindR (take_sized payload cursor) (\<lambda>(name, cursor).
     bindR (string_of_utf8 name) (\<lambda>state.
     bindR (take_sized payload cursor) (\<lambda>(key, cursor).
     bindR (take_value payload cursor) (\<lambda>(v, cursor).
       Ok (\<lparr>cw_state = state, cw_key = key, cw_value = v\<rparr>, cursor)))))"

primrec take_list :: "'a reader \<Rightarrow> nat \<Rightarrow> 'a list reader" where
  "take_list read 0 payload cursor = Ok ([], cursor)"
| "take_list read (Suc n) payload cursor =
     bindR (read payload cursor) (\<lambda>(x, cursor).
     bindR (take_list read n payload cursor) (\<lambda>(xs, cursor). Ok (x # xs, cursor)))"

definition take_opening :: "manifest_value option reader" where
  "take_opening payload cursor =
     bindR (take_byte payload cursor) (\<lambda>(has_opening, cursor).
       if has_opening = 0 then Ok (None, cursor)
       else if has_opening = 1 then bindR (take_value payload cursor) (\<lambda>(v, cursor). Ok (Some v, cursor))
       else Err DInvalidOutput)"

definition decode_outbox_payload :: "bytes \<Rightarrow> (daemon_error, decoded_outbox) res" where
  "decode_outbox_payload payload =
     (if \<not> starts_with payload OUTBOX_PREFIX then Err DInvalidOutput
      else bindR (take_bytes 32 payload (length OUTBOX_PREFIX)) (\<lambda>(execution_id, cursor).
           bindR (take_u32 payload cursor) (\<lambda>(write_count, cursor).
           bindR (take_list take_write write_count payload cursor) (\<lambda>(writes, cursor).
           bindR (take_u32 payload cursor) (\<lambda>(host_count, cursor).
           bindR (take_list take_sized host_count payload cursor) (\<lambda>(_, cursor).
           bindR (take_opening payload cursor) (\<lambda>(opening, cursor).
             if cursor \<noteq> length payload then Err DInvalidOutput
             else Ok \<lparr>do_execution_id = execution_id, do_state_writes = writes, do_opening = opening\<rparr>)))))))"

section \<open>One law per field\<close>

definition reads :: "'a reader \<Rightarrow> bytes \<Rightarrow> 'a \<Rightarrow> bool" where
  "reads read bs v \<longleftrightarrow>
     (\<forall>pre post. length (pre @ bs @ post) < 2 ^ 64 \<longrightarrow>
        read (pre @ bs @ post) (length pre) = Ok (v, length pre + length bs))"

lemma reads_bind:
  assumes "reads first xs x" and "reads (second x) ys y"
  shows "reads (\<lambda>payload cursor. bindR (first payload cursor) (\<lambda>(x, cursor). second x payload cursor)) (xs @ ys) y"
  unfolding reads_def
proof (intro allI impI)
  fix pre post
  assume bound: "length (pre @ (xs @ ys) @ post) < 2 ^ 64"
  have "first (pre @ xs @ (ys @ post)) (length pre) = Ok (x, length pre + length xs)"
    using assms(1) bound by (simp add: reads_def)
  moreover have "second x ((pre @ xs) @ ys @ post) (length (pre @ xs)) = Ok (y, length (pre @ xs) + length ys)"
    using assms(2) bound unfolding reads_def by (metis append.assoc)
  ultimately show "bindR (first (pre @ (xs @ ys) @ post) (length pre))
      (\<lambda>(x, cursor). second x (pre @ (xs @ ys) @ post) cursor) = Ok (y, length pre + length (xs @ ys))"
    by simp
qed

lemma reads_return: "reads (\<lambda>_ cursor. Ok (v, cursor)) [] v"
  by (simp add: reads_def)

lemma reads_bytes: "length bs = n \<Longrightarrow> reads (take_bytes n) bs bs"
  by (simp add: reads_def take_bytes_def)

lemma reads_u32: "n < 2 ^ 32 \<Longrightarrow> reads take_u32 (be_bytes_nat 4 n) n"
  by (simp add: reads_def take_u32_def take_bytes_def be_value_be_bytes)

definition sized :: "bytes \<Rightarrow> bytes" where
  "sized v = be_bytes_nat 4 (length v) @ v"

lemma reads_sized:
  assumes "length v < 2 ^ 32"
  shows "reads take_sized (sized v) v"
proof -
  have "reads (\<lambda>p c. bindR (take_u32 p c) (\<lambda>(n, c). take_bytes n p c)) (be_bytes_nat 4 (length v) @ v) v"
    by (rule reads_bind [where second = "\<lambda>n p c. take_bytes n p c", OF reads_u32 [OF assms] reads_bytes [OF refl]])
  then show ?thesis by (simp add: take_sized_def [abs_def] sized_def)
qed

lemma reads_byte: "reads take_byte [b] b"
  by (simp add: reads_def take_byte_def take_bytes_def)

lemma reads_map: "reads read bs x \<Longrightarrow> f x = Ok y \<Longrightarrow> reads (\<lambda>p c. bindR (read p c) (\<lambda>(x, c). bindR (f x) (\<lambda>y. Ok (y, c)))) bs y"
  by (simp add: reads_def)

lemma tag_roundtrip: "value_type_tag ty = Ok tag \<Longrightarrow> value_type_from_tag tag = Ok ty"
  by (cases ty) (auto simp: value_type_from_tag_def)

definition protected_value :: "manifest_value \<Rightarrow> bool" where
  "protected_value v \<longleftrightarrow> mv_protected (mv_type v) (mv_bytes v) = Ok v"

lemma reads_value:
  assumes tag: "value_type_tag (mv_type v) = Ok tag" and len: "length (mv_bytes v) < 2 ^ 32" and v: "protected_value v"
  shows "reads take_value ([tag] @ sized (mv_bytes v)) v"
proof -
  let ?rest = "\<lambda>tag p c. bindR (value_type_from_tag tag) (\<lambda>ty.
     bindR (take_sized p c) (\<lambda>(bs, c). bindR (mapE DRuntime (mv_protected ty bs)) (\<lambda>v. Ok (v, c))))"
  have "mapE DRuntime (mv_protected (mv_type v) (mv_bytes v)) = Ok v" using v by (simp add: protected_value_def)
  note reads_map [where f = "\<lambda>bs. mapE DRuntime (mv_protected (mv_type v) bs)", OF reads_sized [OF len] this]
  then have "reads (?rest tag) (sized (mv_bytes v)) v" by (simp add: tag_roundtrip [OF tag])
  then have "reads (\<lambda>p c. bindR (take_byte p c) (\<lambda>(tag, c). ?rest tag p c)) ([tag] @ sized (mv_bytes v)) v"
    by (rule reads_bind [OF reads_byte])
  then show ?thesis by (simp add: take_value_def [abs_def])
qed

lemma string_roundtrip: "utf8_ok (ascii s) \<Longrightarrow> string_of_utf8 (ascii s) = Ok s"
proof -
  have "char_of (unat (word_of_nat (of_char c) :: u8)) = c" for c :: char
    by (simp add: unat_of_nat)
  then have "map (\<lambda>b. char_of (unat b)) (ascii s) = s" by (induction s) (simp_all add: ascii_def)
  then show "utf8_ok (ascii s) \<Longrightarrow> ?thesis" by (simp add: string_of_utf8_def)
qed

definition write_bytes :: "cell_write \<Rightarrow> u8 \<Rightarrow> bytes" where
  "write_bytes w tag = sized (ascii (cw_state w)) @ sized (cw_key w) @ [tag] @ sized (mv_bytes (cw_value w))"

lemma reads_write:
  assumes tag: "value_type_tag (mv_type (cw_value w)) = Ok tag" and len: "length (mv_bytes (cw_value w)) < 2 ^ 32"
    "length (cw_state w) < 2 ^ 32" "length (cw_key w) < 2 ^ 32" and v: "protected_value (cw_value w)"
    and name: "utf8_ok (ascii (cw_state w))"
  shows "reads take_write (write_bytes w tag) w"
proof -
  have ascii_len: "length (ascii (cw_state w)) < 2 ^ 32" using len(2) by (simp add: ascii_def)
  let ?out = "\<lambda>state key v. \<lparr>cw_state = state, cw_key = key, cw_value = v\<rparr>"
  let ?val = "\<lambda>state key p c. bindR (take_value p c) (\<lambda>(v, c). Ok (?out state key v, c))"
  let ?key = "\<lambda>state p c. bindR (take_sized p c) (\<lambda>(key, c). ?val state key p c)"
  let ?state = "\<lambda>name p c. bindR (string_of_utf8 name) (\<lambda>state. ?key state p c)"
  have "reads (?val (cw_state w) (cw_key w)) ([tag] @ sized (mv_bytes (cw_value w))) w"
    using reads_value [OF tag len(1) v] by (simp add: reads_def)
  then have "reads (?key (cw_state w)) (sized (cw_key w) @ [tag] @ sized (mv_bytes (cw_value w))) w"
    by (rule reads_bind [OF reads_sized [OF len(3)]])
  then have "reads (?state (ascii (cw_state w))) (sized (cw_key w) @ [tag] @ sized (mv_bytes (cw_value w))) w"
    by (simp add: string_roundtrip [OF name])
  then have "reads (\<lambda>p c. bindR (take_sized p c) (\<lambda>(name, c). ?state name p c)) (write_bytes w tag) w"
    unfolding write_bytes_def
    by (rule reads_bind [where second = ?state, OF reads_sized [OF ascii_len]])
  then show ?thesis by (simp add: take_write_def [abs_def])
qed

lemma reads_list:
  assumes "list_all2 (reads read) bss xs"
  shows "reads (take_list read (length xs)) (concat bss) xs"
  using assms
proof (induction bss xs rule: list_all2_induct)
  case Nil
  then show ?case by (simp add: reads_def)
next
  case (Cons bs bss x xs)
  have "reads (\<lambda>p c. bindR (take_list read (length xs) p c) (\<lambda>(xs, c). Ok (x # xs, c))) (concat bss) (x # xs)"
    using Cons(3) by (simp add: reads_def)
  then have "reads (\<lambda>p c. bindR (read p c) (\<lambda>(x, c). bindR (take_list read (length xs) p c) (\<lambda>(xs, c). Ok (x # xs, c))))
      (bs @ concat bss) (x # xs)"
    by (rule reads_bind [OF Cons(1)])
  then show ?case by simp
qed

section \<open>The round trip\<close>

lemma append_bytes_Ok: "append_bytes out v = Ok out' \<longleftrightarrow> length v < 2 ^ 32 \<and> out' = out @ sized v"
  by (auto simp: append_bytes_def append_len_def sized_def)

lemma encode_value_Ok:
  "encode_value out v = Ok out' \<longleftrightarrow>
     (\<exists>tag. value_type_tag (mv_type v) = Ok tag \<and> length (mv_bytes v) < 2 ^ 32 \<and> out' = out @ [tag] @ sized (mv_bytes v))"
  by (auto simp: encode_value_def append_bytes_Ok)

lemma encode_write_reads:
  assumes "encode_write w out = Ok out'" and "utf8_ok (ascii (cw_state w))" and "protected_value (cw_value w)"
  shows "\<exists>bs. out' = out @ bs \<and> reads take_write bs w"
proof -
  have "length (ascii (cw_state w)) = length (cw_state w)" by (simp add: ascii_def)
  then obtain tag where "value_type_tag (mv_type (cw_value w)) = Ok tag" "length (mv_bytes (cw_value w)) < 2 ^ 32"
    "length (cw_state w) < 2 ^ 32" "length (cw_key w) < 2 ^ 32" "out' = out @ write_bytes w tag"
    using assms(1) by (auto simp: encode_write_def append_bytes_Ok encode_value_Ok write_bytes_def)
  then show ?thesis using reads_write assms by blast
qed

lemma foldR_reads:
  assumes step: "\<And>x out out'. x \<in> set xs \<Longrightarrow> f x out = Ok out' \<Longrightarrow> \<exists>bs. out' = out @ bs \<and> reads read bs (g x)"
    and run: "foldR f xs out = Ok out'"
  shows "\<exists>bs. out' = out @ bs \<and> reads (take_list read (length xs)) bs (map g xs)"
proof -
  have "\<exists>bss. out' = out @ concat bss \<and> list_all2 (reads read) bss (map g xs)"
    using step run
  proof (induction xs arbitrary: out)
    case (Cons x xs)
    obtain mid where mid: "f x out = Ok mid" "foldR f xs mid = Ok out'" using Cons.prems(2) by auto
    obtain bs where bs: "mid = out @ bs" "reads read bs (g x)" using Cons.prems(1) [OF _ mid(1)] by auto
    obtain bss where "out' = mid @ concat bss" "list_all2 (reads read) bss (map g xs)"
      using Cons.IH [OF _ mid(2)] Cons.prems(1) by auto
    then show ?case using bs by (intro exI [of _ "bs # bss"]) simp
  qed simp
  then show ?thesis using reads_list by (metis length_map)
qed

lemma reads_at:
  assumes "reads read bs v" and "payload = pre @ bs @ post" and "length payload < 2 ^ 64" and "c = length pre"
  shows "read payload c = Ok (v, c + length bs)"
  using assms by (simp add: reads_def)

lemma reads_opening:
  assumes "(case shown of Some v \<Rightarrow> encode_value (out @ [1]) v | None \<Rightarrow> Ok (out @ [0])) = Ok out'"
    and "\<And>v. shown = Some v \<Longrightarrow> protected_value v"
  shows "\<exists>bs. out' = out @ bs \<and> reads take_opening bs shown"
proof (cases shown)
  case None
  have "reads take_opening [0] None" by (simp add: reads_def take_opening_def take_byte_def take_bytes_def)
  then show ?thesis using assms(1) None by auto
next
  case (Some v)
  then obtain tag where tag: "value_type_tag (mv_type v) = Ok tag" "length (mv_bytes v) < 2 ^ 32"
    "out' = (out @ [1]) @ [tag] @ sized (mv_bytes v)" using assms(1) by (auto simp: encode_value_Ok)
  let ?rest = "\<lambda>(flag :: u8) p c. if flag = 0 then Ok (None, c)
       else if flag = 1 then bindR (take_value p c) (\<lambda>(v, c). Ok (Some v, c)) else Err DInvalidOutput"
  have "reads (?rest 1) ([tag] @ sized (mv_bytes v)) (Some v)"
    using reads_value [OF tag(1,2) assms(2) [OF Some]] by (simp add: reads_def)
  then have "reads (\<lambda>p c. bindR (take_byte p c) (\<lambda>(flag, c). ?rest flag p c)) ([1] @ [tag] @ sized (mv_bytes v)) (Some v)"
    by (rule reads_bind [where second = ?rest, OF reads_byte])
  then show ?thesis using tag(3) Some
    by (intro exI [of _ "[1] @ [tag] @ sized (mv_bytes v)"]) (simp add: take_opening_def [abs_def])
qed

lemma outbox_payload_decodes:
  assumes "encode_outbox_payload execution_id result = Ok payload" and "length execution_id = 32"
    and "length payload < 2 ^ 64"
    and "\<forall>w \<in> set (eo_state_writes result). utf8_ok (ascii (cw_state w)) \<and> protected_value (cw_value w)"
    and "\<forall>v. eo_opening result = Some v \<longrightarrow> protected_value v"
  shows "decode_outbox_payload payload = Ok \<lparr>do_execution_id = execution_id, do_state_writes = eo_state_writes result,
    do_opening = eo_opening result\<rparr>"
proof -
  let ?ws = "eo_state_writes result" and ?hs = "eo_host_calls result" and ?P = OUTBOX_PREFIX
  let ?n = "be_bytes_nat 4 (length ?ws)" and ?m = "be_bytes_nat 4 (length ?hs)"
  obtain out1 out2 where run: "foldR encode_write ?ws (?P @ execution_id @ ?n) = Ok out1"
      "foldR (\<lambda>call out. append_bytes out (ascii (hc_opcode call))) ?hs (out1 @ ?m) = Ok out2"
      "(case eo_opening result of Some v \<Rightarrow> encode_value (out2 @ [1]) v | None \<Rightarrow> Ok (out2 @ [0])) = Ok payload"
    and small: "length ?ws < 2 ^ 32" "length ?hs < 2 ^ 32"
    using assms(1) by (auto simp: encode_outbox_payload_def append_len_def split: if_splits)
  obtain W where W: "out1 = (?P @ execution_id @ ?n) @ W" "reads (take_list take_write (length ?ws)) W (map (\<lambda>w. w) ?ws)"
    using foldR_reads [OF _ run(1), of take_write "\<lambda>w. w"] encode_write_reads assms(4) by blast
  have "\<exists>bs. out' = out @ bs \<and> reads take_sized bs (ascii (hc_opcode call))"
    if "append_bytes out (ascii (hc_opcode call)) = Ok out'" for call out out'
    using that reads_sized by (auto simp: append_bytes_Ok)
  then obtain H where H: "out2 = (out1 @ ?m) @ H"
      "reads (take_list take_sized (length ?hs)) H (map (\<lambda>call. ascii (hc_opcode call)) ?hs)"
    using foldR_reads [OF _ run(2), of take_sized "\<lambda>call. ascii (hc_opcode call)"] by blast
  obtain S where S: "payload = out2 @ S" "reads take_opening S (eo_opening result)"
    using reads_opening [OF run(3)] assms(5) by blast
  have payload: "payload = ?P @ execution_id @ ?n @ W @ ?m @ H @ S" using W(1) H(1) S(1) by simp
  note at = reads_at [OF _ _ assms(3)]
  note eid = at [OF reads_bytes [OF assms(2)], of ?P "?n @ W @ ?m @ H @ S"]
    and n = at [OF reads_u32 [OF small(1)], of "?P @ execution_id" "W @ ?m @ H @ S"]
    and w = at [OF W(2), of "?P @ execution_id @ ?n" "?m @ H @ S"]
    and m = at [OF reads_u32 [OF small(2)], of "?P @ execution_id @ ?n @ W" "H @ S"]
    and h = at [OF H(2), of "?P @ execution_id @ ?n @ W @ ?m" S]
    and s = at [OF S(2), of "?P @ execution_id @ ?n @ W @ ?m @ H" "[]"]
  have len: "length payload = length ?P + 32 + 4 + length W + 4 + length H + length S"
    using assms(2) by (simp add: payload)
  have "starts_with payload ?P" by (simp add: payload starts_with_def)
  then show ?thesis
    using eid n w m h s assms(2) len
    by (simp add: decode_outbox_payload_def payload [symmetric] add.assoc)
qed

text \<open>
  C12. The outbox payload decodes to what was encoded: whenever \<open>encode_outbox_payload\<close> succeeds on an
  outcome whose state names are UTF-8 and whose values are protected (encrypted, shared or opened, and not
  empty), the uploader's decoder reads back the execution, every state write in order and the opening, and
  accepts the whole payload.  The host calls are written and skipped.
\<close>

theorem outbox_payload_round_trip:
  assumes "encode_outbox_payload execution_id result = Ok payload" and "length execution_id = 32"
    and "length payload < 2 ^ 64"
    and "\<forall>w \<in> set (eo_state_writes result). utf8_ok (ascii (cw_state w)) \<and> protected_value (cw_value w)"
    and "\<forall>v. eo_opening result = Some v \<longrightarrow> protected_value v"
  shows "decode_outbox_payload payload = Ok \<lparr>do_execution_id = execution_id, do_state_writes = eo_state_writes result,
    do_opening = eo_opening result\<rparr>"
  using assms by (rule outbox_payload_decodes)

theorem outbox_payload_round_trip_witness:
  "decode_outbox_payload
     (OUTBOX_PREFIX @ replicate 32 9 @ [0, 0, 0, 1] @ [0, 0, 0, 1, 98] @ [0, 0, 0, 1, 7] @ [2] @ [0, 0, 0, 1, 42]
        @ [0, 0, 0, 0] @ [1, 6, 0, 0, 0, 1, 43])
   = Ok \<lparr>do_execution_id = replicate 32 9,
       do_state_writes = [\<lparr>cw_state = ''b'', cw_key = [7], cw_value = \<lparr>mv_type = TFheUint, mv_bytes = [42]\<rparr>\<rparr>],
       do_opening = Some \<lparr>mv_type = TOpened, mv_bytes = [43]\<rparr>\<rparr>"
proof -
  let ?result = "\<lparr>eo_state_writes = [\<lparr>cw_state = ''b'', cw_key = [7], cw_value = \<lparr>mv_type = TFheUint, mv_bytes = [42]\<rparr>\<rparr>],
        eo_host_calls = [], eo_opening = Some \<lparr>mv_type = TOpened, mv_bytes = [43]\<rparr>\<rparr>"
  have len: "be_bytes_nat 4 0 = [0, 0, 0, 0]" "be_bytes_nat 4 (Suc 0) = [0, 0, 0, 1]" by code_simp+
  have chars: "ascii ''b'' = [98]" "utf8_ok [98]" by code_simp+
  have plen: "length OUTBOX_PREFIX = 23" by code_simp
  show ?thesis
    by (rule outbox_payload_round_trip [of "replicate 32 9" ?result, simplified])
      (simp_all add: encode_outbox_payload_def append_len_def encode_write_def append_bytes_def encode_value_def
        protected_value_def mv_protected_def len chars plen)
qed

end
