(* ===== verification/Manifest_Daemon.thy ===== *)
theory Manifest_Daemon
  imports Store_Executor Outbox
begin

text \<open>
  \<open>runtime/src/manifest_daemon.rs\<close>: the state machine of a committee node, one poll of the task queue at a
  time, over the Postgres store.

  The chain is the trait \<open>ManifestTaskSource\<close>: a record of the two queries.  A poll gets the record by which
  the chain answers during that poll.
\<close>

section \<open>Chain data\<close>

datatype chain_execution_status =
  ExNone | ExRequested | ExCommitteeAssigned | ExRunning | ExHandoff | ExResultPending | ExCompleted | ExFailed | ExCancelled

definition chain_status_from_u8 :: "u8 \<Rightarrow> (daemon_error, chain_execution_status) res" where
  "chain_status_from_u8 v =
     (if v = 0 then Ok ExNone else if v = 1 then Ok ExRequested else if v = 2 then Ok ExCommitteeAssigned
      else if v = 3 then Ok ExRunning else if v = 4 then Ok ExHandoff else if v = 5 then Ok ExResultPending
      else if v = 6 then Ok ExCompleted else if v = 7 then Ok ExFailed else if v = 8 then Ok ExCancelled
      else Err DInvalidChainResponse)"

definition status_terminal :: "chain_execution_status \<Rightarrow> bool" where
  "status_terminal s \<longleftrightarrow> s = ExCompleted \<or> s = ExFailed \<or> s = ExCancelled"

record manifest_chain_task =
  ct_execution_id :: bytes
  ct_contract_id :: bytes
  ct_selector :: bytes
  ct_requester :: bytes
  ct_private_input_ids :: "bytes list"
  ct_public_inputs :: bytes
  ct_status :: chain_execution_status
  ct_node_is_current_member :: bool

record manifest_task_source =
  ts_execution_count :: "(daemon_error, u64) res"
  ts_task_at :: "u64 \<Rightarrow> (daemon_error, manifest_chain_task) res"

datatype poll_outcome = PollIdle | PollWaiting | PollSkipped u64 bytes | PollComputed u64 bytes

text \<open>\<open>ManifestCommitteeDaemon\<close> and the contract its \<open>PostgresManifestState\<close> was opened for.\<close>

record committee_daemon =
  cd_manifest :: contract_manifest
  cd_backend :: manifest_crypto_backend
  cd_contract_id :: bytes
  cd_control :: string
  cd_node :: string
  cd_store_contract :: bytes

section \<open>Selectors\<close>

text \<open>Hexadecimal text from the chain: trimmed, and \<open>0x\<close> is required.\<close>

definition chain_decode_hex :: "nat \<Rightarrow> string \<Rightarrow> (daemon_error, bytes) res" where
  "chain_decode_hex n s =
     bindR (ok_or DInvalidChainResponse (strip_prefix ''0x'' (str_trim s))) (\<lambda>raw.
       if length raw \<noteq> n * 2 then Err DInvalidChainResponse else decode_pairs DInvalidChainResponse raw)"

definition chain_decode_hex_bytes :: "string \<Rightarrow> (daemon_error, bytes) res" where
  "chain_decode_hex_bytes s =
     bindR (ok_or DInvalidChainResponse (strip_prefix ''0x'' (str_trim s))) (\<lambda>raw.
       if length raw mod 2 \<noteq> 0 then Err DInvalidChainResponse else decode_pairs DInvalidChainResponse raw)"

definition decode_selector :: "string \<Rightarrow> (daemon_error, bytes) res" where
  "decode_selector s = chain_decode_hex 4 s"

primrec select_function :: "function_manifest list \<Rightarrow> bytes \<Rightarrow> (daemon_error, function_manifest) res" where
  "select_function [] sel = Err DFunctionNotFound"
| "select_function (f # fs) sel =
     (case decode_selector (fm_selector f) of
        Panic \<Rightarrow> Panic
      | r \<Rightarrow> if r = Ok sel then Ok f else select_function fs sel)"

definition function_by_selector :: "contract_manifest \<Rightarrow> bytes \<Rightarrow> (daemon_error, function_manifest) res" where
  "function_by_selector m sel = select_function (cm_functions m) sel"

section \<open>Inputs\<close>

definition in_runtime :: "'a db_op \<Rightarrow> database \<Rightarrow> (daemon_error, 'a) res \<times> database" where
  "in_runtime op db = (let (r, db) = op db in (mapE DRuntime r, db))"

definition public_parameter :: "abi_input \<Rightarrow> bool" where
  "public_parameter p \<longleftrightarrow> ai_source_type p = TAddress \<or> ai_source_type p = TUint"

definition public_word :: "bytes \<Rightarrow> nat \<Rightarrow> (daemon_error, bytes) res" where
  "public_word public_inputs i =
     (if (i + 1) * 32 \<le> length public_inputs then Ok (take 32 (drop (i * 32) public_inputs)) else Panic)"

type_synonym input_cursor = "nat \<times> nat \<times> invocation_inputs"

definition private_value ::
  "manifest_chain_task \<Rightarrow> abi_input \<Rightarrow> input_cursor \<Rightarrow> database \<Rightarrow> (daemon_error, input_cursor) res \<times> database"
where
  "private_value task p = (\<lambda>(pub, priv, inputs) db.
     then_do (nthR (ct_private_input_ids task) priv, db) (\<lambda>data_id db.
     then_do (in_runtime (pg_input data_id) db) (\<lambda>v db.
       if mv_type v \<noteq> ai_source_type p then (Err DInvalidPrivateInputs, db)
       else (Ok (pub, priv + 1, bt_insert (ai_name p) v inputs), db))))"

definition take_input ::
  "manifest_chain_task \<Rightarrow> abi_input \<Rightarrow> input_cursor \<Rightarrow> database \<Rightarrow> (daemon_error, input_cursor) res \<times> database"
where
  "take_input task p = (\<lambda>(pub, priv, inputs) db.
     case ai_source_type p of
       TAddress \<Rightarrow>
         (bindR (public_word (ct_public_inputs task) pub) (\<lambda>word.
            if list_ex (\<lambda>b. b \<noteq> 0) (take 12 word) then Err DInvalidPublicInputs
            else Ok (pub + 1, priv, bt_insert (ai_name p) (mv_address (drop 12 word)) inputs)), db)
     | TUint \<Rightarrow>
         (bindR (public_word (ct_public_inputs task) pub) (\<lambda>word.
            if list_ex (\<lambda>b. b \<noteq> 0) (take 16 word) then Err DInvalidPublicInputs
            else Ok (pub + 1, priv, bt_insert (ai_name p) (mv_public_uint (u128_of_be (drop 16 word))) inputs)), db)
     | TFheUint \<Rightarrow> private_value task p (pub, priv, inputs) db
     | TSint \<Rightarrow> private_value task p (pub, priv, inputs) db
     | _ \<Rightarrow> (Err DUnsupportedParameter, db))"

definition invocation_inputs ::
  "function_manifest \<Rightarrow> manifest_chain_task \<Rightarrow> database \<Rightarrow> (daemon_error, invocation_inputs) res \<times> database"
where
  "invocation_inputs fm task db =
     (let public_count = length (filter public_parameter (fm_inputs fm));
          private_count = length (fm_inputs fm) - public_count in
      if length (ct_public_inputs task) \<noteq> public_count * 32 then (Err DInvalidPublicInputs, db)
      else if length (ct_private_input_ids task) \<noteq> private_count then (Err DInvalidPrivateInputs, db)
      else then_do (fold_do (take_input task) (fm_inputs fm) (0, 0, []) db) (\<lambda>(_, _, inputs) db. (Ok inputs, db)))"

section \<open>A poll\<close>

definition skip_task :: "committee_daemon \<Rightarrow> u64 \<Rightarrow> bytes \<Rightarrow> database \<Rightarrow> (daemon_error, poll_outcome) res \<times> database" where
  "skip_task D index execution_id db =
     then_do (in_runtime (complete_execution (cd_control D) (cd_node D) index execution_id Skipped) db) (\<lambda>_ db.
       (Ok (PollSkipped index execution_id), db))"

definition run_task ::
  "committee_daemon \<Rightarrow> u64 \<Rightarrow> manifest_chain_task \<Rightarrow> database \<Rightarrow> (daemon_error, poll_outcome) res \<times> database"
where
  "run_task D index task db =
     then_do (function_by_selector (cd_manifest D) (ct_selector task), db) (\<lambda>fm db.
     then_do (invocation_inputs fm task db) (\<lambda>inputs db.
     then_do (in_runtime (evaluate_over (pg_load (cd_store_contract D)) (cd_manifest D) (cd_backend D) (fm_name fm)
         (ct_requester task) inputs) db) (\<lambda>result db.
     then_do (encode_outbox_payload (ct_execution_id task) result, db) (\<lambda>payload db.
     then_do (in_runtime (commit_computation (cd_store_contract D) (cd_control D) (cd_node D) index (ct_execution_id task)
         (eo_state_writes result) payload) db) (\<lambda>_ db.
       (Ok (PollComputed index (ct_execution_id task)), db))))))"

definition poll_once ::
  "committee_daemon \<Rightarrow> manifest_task_source \<Rightarrow> database \<Rightarrow> (daemon_error, poll_outcome) res \<times> database"
where
  "poll_once D chain db =
     then_do (in_runtime (next_execution_index (cd_control D) (cd_node D)) db) (\<lambda>index db.
     then_do (ts_execution_count chain, db) (\<lambda>count db.
       if count \<le> index then (Ok PollIdle, db)
       else then_do (ts_task_at chain index, db) (\<lambda>task db.
         if ct_contract_id task \<noteq> cd_contract_id D then skip_task D index (ct_execution_id task) db
         else if status_terminal (ct_status task) then skip_task D index (ct_execution_id task) db
         else if ct_status task \<noteq> ExRunning \<or> \<not> ct_node_is_current_member task then (Ok PollWaiting, db)
         else run_task D index task db)))"

section \<open>What each step does to the tables\<close>

lemma in_runtime_Ok: "in_runtime op db = (Ok x, db') \<longleftrightarrow> op db = (Ok x, db')"
  by (cases "op db") (auto simp: in_runtime_def)

lemma in_runtime_snd [simp]: "snd (in_runtime op db) = snd (op db)"
  by (simp add: in_runtime_def split_beta)

text \<open>
  An operation keeps an observation of the database, whatever it answers and whichever statements fail.
\<close>

definition ignores_faults :: "(database \<Rightarrow> 'b) \<Rightarrow> bool" where
  "ignores_faults f \<longleftrightarrow> (\<forall>db fs. f (db\<lparr>db_faults := fs\<rparr>) = f db)"

definition frames :: "(database \<Rightarrow> 'b) \<Rightarrow> (database \<Rightarrow> ('e, 'a) res \<times> database) \<Rightarrow> bool" where
  "frames f op \<longleftrightarrow> (\<forall>db. f (snd (op db)) = f db)"

lemma framesD: "frames f op \<Longrightarrow> op db = (r, db') \<Longrightarrow> f db' = f db"
  unfolding frames_def by (metis snd_conv)

lemma ignores_tables: "ignores_faults tables"
  by (simp add: ignores_faults_def)

lemma frames_pure: "frames f (\<lambda>db. (r db, db))"
  by (simp add: frames_def)

lemma frames_bind: "frames f op \<Longrightarrow> (\<And>x. frames f (g x)) \<Longrightarrow> frames f (\<lambda>db. then_do (op db) g)"
  unfolding frames_def then_do_def by (auto split: prod.split res.split) (metis snd_conv)+

lemma frames_after: "(\<And>x. frames f (g x)) \<Longrightarrow> frames f (\<lambda>db. then_do (r, db) g)"
  by (rule frames_bind [OF frames_pure])

lemma frames_if: "frames f a \<Longrightarrow> frames f b \<Longrightarrow> frames f (\<lambda>db. if c then a db else b db)"
  by (simp add: frames_def)

lemma frames_statement: "ignores_faults f \<Longrightarrow> frames f op \<Longrightarrow> frames f (statement op)"
  unfolding frames_def
proof
  fix db
  assume "ignores_faults f" "\<forall>db. f (snd (op db)) = f db"
  then show "f (snd (statement op db)) = f db"
    by (cases rule: statement_cases [of op db]) (simp_all add: ignores_faults_def)
qed

lemma frames_transaction:
  assumes "ignores_faults f" and "frames f body"
  shows "frames f (transaction body)"
proof -
  have commit: "frames f (\<lambda>db. then_do (body db) (\<lambda>x. statement (\<lambda>db. (Ok x, db))))"
    by (intro frames_bind frames_statement frames_pure assms)
  have all: "frames f (\<lambda>start. case then_do (body start) (\<lambda>x. statement (\<lambda>db. (Ok x, db))) of
         (Ok x, db') \<Rightarrow> (Ok x, db')
       | (Err e, db') \<Rightarrow> (Err e, start\<lparr>db_faults := db_faults db'\<rparr>)
       | (Panic, db') \<Rightarrow> (Panic, start\<lparr>db_faults := db_faults db'\<rparr>))"
    unfolding frames_def using assms(1) framesD [OF commit]
    by (auto simp: ignores_faults_def split: prod.split res.split)
  show ?thesis unfolding transaction_def [abs_def]
    by (rule frames_bind [OF frames_statement [OF assms(1) frames_pure] all])
qed

lemma frames_runtime: "frames f op \<Longrightarrow> frames f (in_runtime op)"
  by (simp add: frames_def)

lemma frames_fold: "(\<And>x s. frames f (g x s)) \<Longrightarrow> frames f (fold_do g xs s)"
proof (induction xs arbitrary: s)
  case (Cons x xs)
  have "frames f (\<lambda>db. then_do (g x s db) (fold_do g xs))"
    by (rule frames_bind) (use Cons in auto)
  moreover have "fold_do g (x # xs) s = (\<lambda>db. then_do (g x s db) (fold_do g xs))" by (simp add: fun_eq_iff)
  ultimately show ?case by simp
qed (simp add: frames_def)

lemmas frames_intros = frames_pure frames_after frames_bind frames_if frames_runtime frames_fold
  frames_statement [OF ignores_tables] frames_transaction [OF ignores_tables]

lemma frames_load: "frames tables (pg_load contract s k)"
  unfolding pg_load_def by (intro frames_intros)

lemma frames_input: "frames tables (pg_input data_id)"
  unfolding pg_input_def by (intro frames_intros)

lemma frames_operator: "frames tables (execute_operator_over (pg_load contract) m MB node s)"
proof -
  obtain vals calls where s: "s = (vals, calls)" by force
  have cell: "frames tables (\<lambda>db. then_do (pg_load contract k1 k2 db) (\<lambda>v db. (expect_value_type ty v, db)))" for k1 k2 ty
    by (intro frames_intros frames_load)
  have "frames tables (load_state_over (pg_load contract) m node args)" for args
    unfolding load_state_over_def [abs_def] by (rule frames_after) (auto intro: cell)
  then have "frames tables (\<lambda>db. then_do (mapR (resolve_owned vals) (op_inputs node), db) (\<lambda>args db.
          then_do (load_state_over (pg_load contract) m node args db) (\<lambda>v db. (Ok (v, calls), db))))"
    by (intro frames_intros)
  then show ?thesis
    unfolding s execute_operator_over_def split
    by (cases "op_opcode node = ''load_state''") (auto intro!: frames_bind frames_pure)
qed

lemma frames_evaluate: "frames tables (evaluate_over (pg_load contract) m MB name sender inputs)"
  unfolding evaluate_over_def [abs_def]
  by (intro frames_after frames_bind frames_fold frames_operator) (auto intro!: frames_after frames_pure)

lemma frames_inputs: "frames tables (invocation_inputs fm task)"
proof -
  have "frames tables (take_input task p c)" for p c
  proof -
    obtain pub priv inputs where c: "c = (pub, priv, inputs)" by (metis prod_cases3)
    have "frames tables (private_value task p (pub, priv, inputs))"
      unfolding private_value_def split by (intro frames_intros frames_input)
    then show ?thesis unfolding take_input_def c split
      by (cases "ai_source_type p") (auto intro: frames_pure)
  qed
  then have fold: "frames tables (\<lambda>db. then_do (fold_do (take_input task) ps (0, 0, []) db) (\<lambda>(_, _, inputs) db. (Ok inputs, db)))" for ps
    by (intro frames_bind frames_fold) (auto intro: frames_pure)
  show ?thesis unfolding invocation_inputs_def [abs_def] Let_def by (intro frames_if frames_pure fold)
qed

section \<open>The queue operations\<close>

lemma lock_cursor_Ok:
  assumes "lock_cursor control node i db = (Ok u, db')"
  shows "db_cursors db (control, node) = Some i \<and> tables db' = tables db"
proof -
  obtain db1 where st: "statement (\<lambda>db. (ok_or MCursorMismatch (db_cursors db (control, node)), db)) db = (Ok i, db1)" and "db' = db1"
    using assms by (auto simp: lock_cursor_def then_do_Ok split: if_splits)
  with statement_Ok [OF st] show ?thesis by auto
qed

lemma insert_processed_Ok:
  assumes "insert_processed row db = (Ok u, db')"
  shows "\<not> list_ex (processed_conflicts row) (db_processed db) \<and> tables db' = tables (db\<lparr>db_processed := db_processed db @ [row]\<rparr>)"
  using statement_Ok [OF assms [unfolded insert_processed_def]] by (auto simp: tables_def split: if_splits)

definition sent_row :: "string \<Rightarrow> string \<Rightarrow> bytes \<Rightarrow> bytes \<Rightarrow> nat \<Rightarrow> outbox_row" where
  "sent_row control node execution payload clock =
     \<lparr>ob_control = control, ob_node = node, ob_execution = execution, ob_payload = payload, ob_submitted = False,
      ob_attempts = 0, ob_last_error = None, ob_created_at = clock\<rparr>"

lemma insert_outbox_Ok:
  assumes "insert_outbox control node execution payload db = (Ok u, db')"
  shows "tables db' = tables (db\<lparr>db_outbox := db_outbox db @ [sent_row control node execution payload (db_clock db)]\<rparr>)"
  using statement_Ok [OF assms [unfolded insert_outbox_def]] by (auto simp: tables_def sent_row_def split: if_splits)

lemma advance_cursor_Ok:
  assumes "advance_cursor control node next db = (Ok u, db')" and "db_cursors db (control, node) \<noteq> None"
  shows "tables db' = tables (db\<lparr>db_cursors := (db_cursors db)((control, node) \<mapsto> next)\<rparr>)"
  using statement_Ok [OF assms(1) [unfolded advance_cursor_def]] assms(2) by (auto simp: tables_def split: if_splits)

lemma transaction_not_Ok:
  assumes "transaction body db = (r, db')" and "\<not> is_ok r"
  shows "tables db' = tables db"
  using assms by (cases rule: transaction_cases [of body db]) auto

text \<open>The queue position moves past one task: its row is recorded and nothing else is.\<close>

definition advanced :: "string \<Rightarrow> string \<Rightarrow> processed_row \<Rightarrow> outbox_row list \<Rightarrow> database \<Rightarrow> database \<Rightarrow> bool" where
  "advanced control node row sent db db' \<longleftrightarrow>
     pr_control row = control \<and> pr_node row = node \<and> pr_index row + 1 < 2 ^ 63
   \<and> db_cursors db (control, node) = Some (pr_index row)
   \<and> db_cursors db' = (db_cursors db)((control, node) \<mapsto> pr_index row + 1)
   \<and> \<not> list_ex (processed_conflicts row) (db_processed db)
   \<and> db_processed db' = db_processed db @ [row] \<and> db_outbox db' = db_outbox db @ sent
   \<and> db_inputs db' = db_inputs db \<and> db_uploads db' = db_uploads db \<and> db_clock db' = db_clock db"

lemma complete_execution_Ok:
  assumes "complete_execution control node index execution result db = (Ok u, db')"
  shows "advanced control node \<lparr>pr_control = control, pr_node = node, pr_index = int (unat index), pr_execution = execution,
      pr_outcome = task_outcome_text result\<rparr> [] db db' \<and> db_state db' = db_state db"
proof -
  let ?i = "int (unat index)"
  let ?row = "\<lparr>pr_control = control, pr_node = node, pr_index = ?i, pr_execution = execution, pr_outcome = task_outcome_text result\<rparr>"
  let ?body = "\<lambda>db. then_do (lock_cursor control node ?i db) (\<lambda>_ db. then_do (insert_processed ?row db) (\<lambda>_ db.
       then_do (i64_succ ?i, db) (\<lambda>next. advance_cursor control node next)))"
  have run: "transaction ?body db = (Ok u, db')"
    using assms by (auto simp: complete_execution_def i64_of_u64_def split: if_splits)
  then obtain fs db1 where body: "?body (db\<lparr>db_faults := fs\<rparr>) = (Ok u, db1)" "tables db' = tables db1"
    by (cases rule: transaction_cases [of ?body db]) auto
  obtain dba dbb where steps: "lock_cursor control node ?i (db\<lparr>db_faults := fs\<rparr>) = (Ok (), dba)"
      "insert_processed ?row dba = (Ok (), dbb)" "advance_cursor control node (?i + 1) dbb = (Ok u, db1)" "?i + 1 < 2 ^ 63"
    using body(1) by (auto simp: then_do_Ok i64_succ_def split: if_splits)
  have a: "db_cursors db (control, node) = Some ?i" "tables dba = tables db" using lock_cursor_Ok [OF steps(1)] by simp_all
  have b: "\<not> list_ex (processed_conflicts ?row) (db_processed dba)" "tables dbb = tables (dba\<lparr>db_processed := db_processed dba @ [?row]\<rparr>)"
    using insert_processed_Ok [OF steps(2)] by blast+
  have cur: "db_cursors dbb = db_cursors db" using tables_eqD(3) [OF b(2)] tables_eqD(3) [OF a(2)] by simp
  have c: "tables db1 = tables (dbb\<lparr>db_cursors := (db_cursors dbb)((control, node) \<mapsto> ?i + 1)\<rparr>)"
    using advance_cursor_Ok [OF steps(3)] a(1) cur by simp
  show ?thesis
    using a(1) b(1) steps(4) tables_eqD [OF body(2)] tables_eqD [OF c] tables_eqD [OF b(2)] tables_eqD [OF a(2)]
    by (simp add: advanced_def)
qed

lemma write_states_other: "write_states contract ws db = (Ok u, db') \<Longrightarrow> other_tables_same db' db"
proof (induction ws arbitrary: db)
  case (Cons w ws)
  then obtain code db1 where "upsert_state contract (cw_state w) (cw_key w) code (mv_bytes (cw_value w)) db = (Ok (), db1)"
      "write_states contract ws db1 = (Ok u, db')"
    by (auto simp: then_do_Ok write_state_def)
  then show ?case using Cons.IH upsert_state_Ok by (fastforce simp: other_tables_same_iff)
qed simp

lemma commit_computation_steps:
  assumes "commit_computation contract control node index execution writes payload db = (Ok u, db')"
  shows "advanced control node \<lparr>pr_control = control, pr_node = node, pr_index = int (unat index), pr_execution = execution,
      pr_outcome = ''completed''\<rparr> [sent_row control node execution payload (db_clock db)] db db'
    \<and> (\<exists>dba dbw. tables dba = tables db \<and> write_states contract writes dba = (Ok (), dbw) \<and> db_state db' = db_state dbw)"
proof -
  let ?i = "int (unat index)"
  let ?row = "\<lparr>pr_control = control, pr_node = node, pr_index = ?i, pr_execution = execution, pr_outcome = ''completed''\<rparr>"
  let ?body = "\<lambda>db. then_do (lock_cursor control node ?i db) (\<lambda>_ db. then_do (write_states contract writes db) (\<lambda>_ db.
       then_do (insert_outbox control node execution payload db) (\<lambda>_ db. then_do (insert_processed ?row db) (\<lambda>_ db.
       then_do (i64_succ ?i, db) (\<lambda>next. advance_cursor control node next)))))"
  have run: "transaction ?body db = (Ok u, db')"
    using assms(1) by (auto simp: commit_computation_def i64_of_u64_def split: if_splits)
  then obtain fs db1 where body: "?body (db\<lparr>db_faults := fs\<rparr>) = (Ok u, db1)" "tables db' = tables db1"
    by (cases rule: transaction_cases [of ?body db]) auto
  obtain dba dbw dbo dbp where steps: "lock_cursor control node ?i (db\<lparr>db_faults := fs\<rparr>) = (Ok (), dba)"
      "write_states contract writes dba = (Ok (), dbw)" "insert_outbox control node execution payload dbw = (Ok (), dbo)"
      "insert_processed ?row dbo = (Ok (), dbp)" "advance_cursor control node (?i + 1) dbp = (Ok u, db1)" "?i + 1 < 2 ^ 63"
    using body(1) by (auto simp: then_do_Ok i64_succ_def split: if_splits)
  have a: "db_cursors db (control, node) = Some ?i" "tables dba = tables db" using lock_cursor_Ok [OF steps(1)] by simp_all
  note wd = write_states_other [OF steps(2), unfolded other_tables_same_iff]
  note o = insert_outbox_Ok [OF steps(3)]
  have p: "\<not> list_ex (processed_conflicts ?row) (db_processed dbo)" "tables dbp = tables (dbo\<lparr>db_processed := db_processed dbo @ [?row]\<rparr>)"
    using insert_processed_Ok [OF steps(4)] by blast+
  have cur: "db_cursors dbp = db_cursors db"
    using tables_eqD(3) [OF p(2)] tables_eqD(3) [OF o] wd tables_eqD(3) [OF a(2)] by simp
  have c: "tables db1 = tables (dbp\<lparr>db_cursors := (db_cursors dbp)((control, node) \<mapsto> ?i + 1)\<rparr>)"
    using advance_cursor_Ok [OF steps(5)] a(1) cur by simp
  have st: "db_state db' = db_state dbw"
    using tables_eqD(1) [OF body(2)] tables_eqD(1) [OF c] tables_eqD(1) [OF p(2)] tables_eqD(1) [OF o] by simp
  moreover have "advanced control node ?row [sent_row control node execution payload (db_clock db)] db db'"
    using a(1) p(1) steps(6) tables_eqD [OF body(2)] tables_eqD [OF c] tables_eqD [OF p(2)] tables_eqD [OF o] wd
      tables_eqD [OF a(2)]
    by (simp add: advanced_def)
  ultimately show ?thesis using a(2) steps(2) by blast
qed

lemma commit_computation_cells:
  assumes "commit_computation contract control node index execution writes payload db = (Ok u, db')"
    and "\<forall>w \<in> set writes. storable (cw_value w)" and "rows_ok db"
  shows "rows_ok db' \<and> cells_of contract db' = cells_commit writes (cells_of contract db)
    \<and> (\<forall>c. c \<noteq> contract \<longrightarrow> cells_of c db' = cells_of c db)"
proof -
  obtain dba dbw where w: "tables dba = tables db" "write_states contract writes dba = (Ok (), dbw)" "db_state db' = db_state dbw"
    using commit_computation_steps [OF assms(1)] by blast
  have "rows_ok dba" using assms(3) tables_eqD(1) [OF w(1)] by (simp add: rows_ok_def)
  note st = write_states_Ok [OF w(2) assms(2) this]
  have "cells_of k db' = cells_of k dbw" "cells_of k dba = cells_of k db" for k
    using w(3) tables_eqD(1) [OF w(1)] by (simp_all add: cells_of_def)
  moreover have "rows_ok db'" using st w(3) by (simp add: rows_ok_def)
  ultimately show ?thesis using st by simp
qed

lemma queue_operation_not_Ok:
  "complete_execution control node index execution result db = (r, db') \<Longrightarrow> \<not> is_ok r \<Longrightarrow> tables db' = tables db"
  "commit_computation contract control node index execution writes payload db = (r, db') \<Longrightarrow> \<not> is_ok r \<Longrightarrow> tables db' = tables db"
  by (auto simp: complete_execution_def commit_computation_def i64_of_u64_def intro: transaction_not_Ok split: if_splits)

text \<open>Reading the queue position creates it when it is missing.\<close>

definition opened :: "string \<Rightarrow> string \<Rightarrow> database \<Rightarrow> database" where
  "opened control node db =
     (if db_cursors db (control, node) = None then db\<lparr>db_cursors := (db_cursors db)((control, node) \<mapsto> 0)\<rparr> else db)"

lemma next_execution_index_tables:
  assumes "next_execution_index control node db = (r, db')"
  shows "tables db' = tables db \<or> tables db' = tables (opened control node db)"
proof -
  let ?open = "\<lambda>db. (Ok (), if db_cursors db (control, node) = None
                 then db\<lparr>db_cursors := (db_cursors db)((control, node) \<mapsto> 0)\<rparr> else db)"
  let ?read = "\<lambda>db. then_do (statement (\<lambda>db. (ok_or MPersistenceFailure (db_cursors db (control, node)), db)) db)
      (\<lambda>index db. (u64_of_i64 index, db))"
  have read: "frames tables ?read" by (intro frames_intros)
  have run: "then_do (statement ?open db) (\<lambda>_. ?read) = (r, db')" using assms by (simp add: next_execution_index_def)
  show ?thesis
  proof (cases rule: statement_cases [of ?open db])
    case (runs rest)
    then have "?read (snd (?open (db\<lparr>db_faults := rest\<rparr>))) = (r, db')" using run by simp
    from framesD [OF read this] show ?thesis by (simp add: opened_def tables_def split: if_splits)
  next
    case (fails rest)
    then show ?thesis using run by auto
  qed
qed

section \<open>The outcomes of a poll\<close>

lemma opened_sel [simp]:
  "db_state (opened c n db) = db_state db" "db_processed (opened c n db) = db_processed db" "db_outbox (opened c n db) = db_outbox db"
  "db_inputs (opened c n db) = db_inputs db" "db_uploads (opened c n db) = db_uploads db" "db_clock (opened c n db) = db_clock db"
  by (simp_all add: opened_def)

lemma run_task_cases:
  assumes "run_task D index task db = (r, db')"
  obtains (stays) "tables db' = tables db" "\<And>i e. r \<noteq> Ok (PollSkipped i e)" "\<And>i e. r \<noteq> Ok (PollComputed i e)"
  | (computes) fm inputs dbi result dbe payload where
      "r = Ok (PollComputed index (ct_execution_id task))"
      "function_by_selector (cd_manifest D) (ct_selector task) = Ok fm"
      "invocation_inputs fm task db = (Ok inputs, dbi)" "tables dbi = tables db"
      "evaluate_over (pg_load (cd_store_contract D)) (cd_manifest D) (cd_backend D) (fm_name fm) (ct_requester task) inputs dbi
         = (Ok result, dbe)" "tables dbe = tables db"
      "encode_outbox_payload (ct_execution_id task) result = Ok payload"
      "commit_computation (cd_store_contract D) (cd_control D) (cd_node D) index (ct_execution_id task) (eo_state_writes result)
         payload dbe = (Ok (), db')"
proof -
  let ?eval = "\<lambda>fm inputs. in_runtime (evaluate_over (pg_load (cd_store_contract D)) (cd_manifest D) (cd_backend D) (fm_name fm) (ct_requester task) inputs)"
  let ?commit = "\<lambda>result payload. in_runtime (commit_computation (cd_store_contract D) (cd_control D) (cd_node D) index
      (ct_execution_id task) (eo_state_writes result) payload)"
  have inp: "frames tables (invocation_inputs fm task)" for fm by (rule frames_inputs)
  have ev: "frames tables (?eval fm inputs)" for fm inputs by (intro frames_runtime frames_evaluate)
  show ?thesis
  proof (cases "function_by_selector (cd_manifest D) (ct_selector task)")
    case fm: (Ok fm)
    obtain ri dbi where i: "invocation_inputs fm task db = (ri, dbi)" by force
    note ti = framesD [OF inp i]
    show ?thesis
    proof (cases ri)
      case ri: (Ok inputs)
      obtain re dbe where e: "?eval fm inputs dbi = (re, dbe)" by force
      note te = framesD [OF ev e]
      show ?thesis
      proof (cases re)
        case re: (Ok result)
        show ?thesis
        proof (cases "encode_outbox_payload (ct_execution_id task) result")
          case p: (Ok payload)
          obtain rc dbc where c: "?commit result payload dbe = (rc, dbc)" by force
          show ?thesis
          proof (cases "is_ok rc")
            case True
            then show ?thesis
              using computes [of fm inputs dbi result dbe payload] assms fm i ti ri e te re p c
              by (auto simp: run_task_def in_runtime_Ok is_ok_iff)
          next
            case False
            obtain q where q: "commit_computation (cd_store_contract D) (cd_control D) (cd_node D) index
                (ct_execution_id task) (eo_state_writes result) payload dbe = (q, dbc)" "rc = mapE DRuntime q"
              using c by (auto simp: in_runtime_def Let_def split: prod.splits)
            then have "tables dbc = tables dbe" using queue_operation_not_Ok(2) [OF q(1)] False by (cases q) auto
            then show ?thesis using stays assms fm i ti ri e te re p c False
              by (cases rc) (auto simp: run_task_def)
          qed
        qed (use stays assms fm i ti ri e te re in \<open>auto simp: run_task_def\<close>)
      qed (use stays assms fm i ti ri e te in \<open>auto simp: run_task_def\<close>)
    qed (use stays assms fm i ti in \<open>auto simp: run_task_def\<close>)
  qed (use stays assms in \<open>auto simp: run_task_def\<close>)
qed

definition runnable :: "committee_daemon \<Rightarrow> manifest_chain_task \<Rightarrow> bool" where
  "runnable D task \<longleftrightarrow> ct_contract_id task = cd_contract_id D \<and> ct_status task = ExRunning \<and> ct_node_is_current_member task"

definition ended :: "committee_daemon \<Rightarrow> manifest_chain_task \<Rightarrow> bool" where
  "ended D task \<longleftrightarrow> ct_contract_id task \<noteq> cd_contract_id D \<or> status_terminal (ct_status task)"

lemma poll_once_cases:
  assumes "poll_once D chain db = (r, db')"
  obtains (stays) "tables db' = tables db \<or> tables db' = tables (opened (cd_control D) (cd_node D) db)"
      "\<And>i e. r \<noteq> Ok (PollSkipped i e)" "\<And>i e. r \<noteq> Ok (PollComputed i e)"
  | (skips) index task db0 where "tables db0 = tables db \<or> tables db0 = tables (opened (cd_control D) (cd_node D) db)"
      "ts_task_at chain index = Ok task" "ended D task" "r = Ok (PollSkipped index (ct_execution_id task))"
      "complete_execution (cd_control D) (cd_node D) index (ct_execution_id task) Skipped db0 = (Ok (), db')"
  | (works) index task db0 where "tables db0 = tables db \<or> tables db0 = tables (opened (cd_control D) (cd_node D) db)"
      "ts_task_at chain index = Ok task" "runnable D task" "run_task D index task db0 = (r, db')"
proof -
  let ?same = "\<lambda>db0. tables db0 = tables db \<or> tables db0 = tables (opened (cd_control D) (cd_node D) db)"
  obtain q db0 where n: "next_execution_index (cd_control D) (cd_node D) db = (q, db0)" by force
  note same = next_execution_index_tables [OF n]
  have n': "in_runtime (next_execution_index (cd_control D) (cd_node D)) db = (mapE DRuntime q, db0)"
    by (simp add: in_runtime_def n)
  show ?thesis
  proof (cases q)
    case (Ok index)
    show ?thesis
    proof (cases "ts_execution_count chain")
      case count: (Ok count)
      show ?thesis
      proof (cases "count \<le> index")
        case True
        then show ?thesis using stays same assms n' Ok count by (auto simp: poll_once_def)
      next
        case more: False
        show ?thesis
        proof (cases "ts_task_at chain index")
          case task: (Ok task)
          show ?thesis
          proof (cases "ended D task")
            case True
            then have run: "skip_task D index (ct_execution_id task) db0 = (r, db')"
              using assms n' Ok count more task by (auto simp: poll_once_def ended_def split: if_splits)
            obtain rc dbc where c: "complete_execution (cd_control D) (cd_node D) index (ct_execution_id task) Skipped db0 = (rc, dbc)"
              by force
            show ?thesis
            proof (cases "is_ok rc")
              case True
              then show ?thesis using skips [OF same task \<open>ended D task\<close>] run c
                by (auto simp: skip_task_def in_runtime_def is_ok_iff)
            next
              case False
              then have "tables dbc = tables db0" using queue_operation_not_Ok(1) [OF c] by blast
              then show ?thesis using stays same run c False by (cases rc) (auto simp: skip_task_def in_runtime_def)
            qed
          next
            case live: False
            show ?thesis
            proof (cases "runnable D task")
              case True
              then have "run_task D index task db0 = (r, db')"
                using live assms n' Ok count more task by (simp add: poll_once_def ended_def runnable_def)
              then show ?thesis using works [OF same task True] by blast
            next
              case False
              then have "r = Ok PollWaiting" "db' = db0"
                using live assms n' Ok count more task by (auto simp: poll_once_def ended_def runnable_def split: if_splits)
              then show ?thesis using stays same by simp
            qed
          qed
        qed (use stays same assms n' Ok count more in \<open>auto simp: poll_once_def\<close>)
      qed
    qed (use stays same assms n' Ok in \<open>auto simp: poll_once_def\<close>)
  qed (use stays same assms n' in \<open>auto simp: poll_once_def\<close>)
qed

section \<open>Every task exactly once\<close>

text \<open>
  The tables of one node in order: the recorded tasks are those before the queue position, each once, and the
  outbox has an entry for exactly the computed ones.
\<close>

definition processed_by :: "string \<Rightarrow> string \<Rightarrow> database \<Rightarrow> processed_row list" where
  "processed_by control node db = filter (\<lambda>p. pr_control p = control \<and> pr_node p = node) (db_processed db)"

definition sent_by :: "string \<Rightarrow> string \<Rightarrow> database \<Rightarrow> outbox_row list" where
  "sent_by control node db = filter (\<lambda>p. ob_control p = control \<and> ob_node p = node) (db_outbox db)"

definition queue_position :: "string \<Rightarrow> string \<Rightarrow> database \<Rightarrow> int" where
  "queue_position control node db = (case db_cursors db (control, node) of Some n \<Rightarrow> n | None \<Rightarrow> 0)"

definition exactly_once :: "string \<Rightarrow> string \<Rightarrow> database \<Rightarrow> bool" where
  "exactly_once control node db \<longleftrightarrow>
     (let tasks = processed_by control node db; next = queue_position control node db in
        0 \<le> next \<and> next < 2 ^ 63 \<and> map pr_index tasks = map int [0 ..< nat next] \<and> distinct (map pr_execution tasks)
      \<and> map ob_execution (sent_by control node db) = map pr_execution (filter (\<lambda>p. pr_outcome p = ''completed'') tasks))"

text \<open>The part of the database that the queue is about.\<close>

definition queue_part :: "database \<Rightarrow> (string \<times> string \<rightharpoonup> int) \<times> processed_row list \<times> (string \<times> string \<times> bytes) list" where
  "queue_part db = (db_cursors db, db_processed db, map (\<lambda>r. (ob_control r, ob_node r, ob_execution r)) (db_outbox db))"

lemma exactly_once_part:
  assumes "queue_part a = queue_part b"
  shows "exactly_once control node a = exactly_once control node b"
proof -
  have "map ob_execution (sent_by control node db)
      = map (\<lambda>(c, n, e). e) (filter (\<lambda>(c, n, e). c = control \<and> n = node) (map (\<lambda>r. (ob_control r, ob_node r, ob_execution r)) (db_outbox db)))" for db
    by (simp add: sent_by_def filter_map o_def split_def)
  then show ?thesis using assms by (simp add: exactly_once_def queue_part_def processed_by_def queue_position_def)
qed

lemma queue_part_tables:
  assumes "tables a = tables b"
  shows "queue_part a = queue_part b"
  using tables_eqD(3,4,5) [OF assms] by (simp add: queue_part_def)

lemma exactly_once_opened: "exactly_once c n (opened control node db) = exactly_once c n db"
  by (auto simp: exactly_once_def processed_by_def sent_by_def queue_position_def opened_def)

lemma exactly_once_advanced:
  assumes adv: "advanced control node row sent db db'" and inv: "exactly_once c n db"
    and sent: "map (\<lambda>r. (ob_control r, ob_node r, ob_execution r)) sent
       = (if pr_outcome row = ''completed'' then [(control, node, pr_execution row)] else [])"
  shows "exactly_once c n db'"
proof (cases "c = control \<and> n = node")
  case False
  have "filter (\<lambda>p. ob_control p = c \<and> ob_node p = n) sent = []"
    using False sent by (cases sent) (auto split: if_splits)
  then have "processed_by c n db' = processed_by c n db" "sent_by c n db' = sent_by c n db"
      "queue_position c n db' = queue_position c n db"
    using adv False by (auto simp: advanced_def processed_by_def sent_by_def queue_position_def)
  then show ?thesis using inv by (simp add: exactly_once_def)
next
  case True
  have sent': "map ob_execution (filter (\<lambda>p. ob_control p = c \<and> ob_node p = n) sent)
      = (if pr_outcome row = ''completed'' then [pr_execution row] else [])"
    using True sent by (cases sent) (auto split: if_splits)
  have tasks: "processed_by c n db' = processed_by c n db @ [row]" and pos: "queue_position c n db = pr_index row"
    "queue_position c n db' = pr_index row + 1" and out: "sent_by c n db' = sent_by c n db @ filter (\<lambda>p. ob_control p = c \<and> ob_node p = n) sent"
    using adv True by (auto simp: advanced_def processed_by_def sent_by_def queue_position_def)
  have new: "pr_execution row \<notin> set (map pr_execution (processed_by c n db))"
    using adv True by (auto simp: advanced_def processed_by_def processed_conflicts_def list_ex_iff)
  have "0 \<le> pr_index row" "pr_index row + 1 < 2 ^ 63" using inv pos adv by (simp_all add: exactly_once_def Let_def advanced_def)
  moreover then have "map int [0 ..< nat (pr_index row + 1)] = map int [0 ..< nat (pr_index row)] @ [pr_index row]"
    by (simp add: nat_add_distrib)
  ultimately show ?thesis using inv tasks pos out new sent' by (simp add: exactly_once_def Let_def)
qed

lemma exactly_once_poll:
  assumes "poll_once D chain db = (r, db')" and inv: "exactly_once c n db"
  shows "exactly_once c n db'"
  using assms(1)
proof (cases rule: poll_once_cases)
  case stays
  then show ?thesis using inv exactly_once_part [OF queue_part_tables] exactly_once_opened by metis
next
  case (skips index task db0)
  have "exactly_once c n db0" using skips(1) inv exactly_once_part [OF queue_part_tables] exactly_once_opened by metis
  from exactly_once_advanced [OF _ this] show ?thesis using complete_execution_Ok [OF skips(5)] by fastforce
next
  case (works index task db0)
  have db0: "exactly_once c n db0" using works(1) inv exactly_once_part [OF queue_part_tables] exactly_once_opened by metis
  show ?thesis
    using works(4)
  proof (cases rule: run_task_cases)
    case stays
    then show ?thesis using db0 exactly_once_part [OF queue_part_tables] by metis
  next
    case (computes fm inputs dbi result dbe payload)
    have "exactly_once c n dbe" using db0 computes(6) exactly_once_part [OF queue_part_tables] by metis
    from exactly_once_advanced [OF _ this] show ?thesis
      using commit_computation_steps [OF computes(8)] by (fastforce simp: sent_row_def)
  qed
qed

text \<open>Everything else the node does to its database leaves the queue alone.\<close>

lemma ignores_queue_part: "ignores_faults queue_part"
  by (simp add: ignores_faults_def queue_part_def)

lemmas queue_frames = frames_pure frames_after frames_bind frames_if
  frames_statement [OF ignores_queue_part] frames_transaction [OF ignores_queue_part]

lemma frames_effect: "(\<And>db. queue_part (g db) = queue_part db) \<Longrightarrow> frames queue_part (\<lambda>db. (r db, g db))"
  by (simp add: frames_def)

lemma update_rows_map:
  assumes "update_rows P f rows = Ok (n, rows')" and "\<And>r r'. f r = Ok r' \<Longrightarrow> key r' = key r"
  shows "map key rows' = map key rows"
proof -
  have "map key rows' = map key rows" if "mapR (\<lambda>r. if P r then f r else Ok r) rows = Ok rows'" for rows rows'
    using that assms(2) by (induction rows arbitrary: rows') (auto split: if_splits)
  then show ?thesis using assms(1) by (auto simp: update_rows_def)
qed

definition entry_key :: "outbox_row \<Rightarrow> string \<times> string \<times> bytes" where
  "entry_key r = (ob_control r, ob_node r, ob_execution r)"

lemma outbox_rows_frames:
  assumes "\<And>r r'. f r = Ok r' \<Longrightarrow> entry_key r' = entry_key r"
  shows "frames queue_part (\<lambda>db. then_do (update_rows P f (db_outbox db), db) (\<lambda>(updated, rows) db. (g updated, db\<lparr>db_outbox := rows\<rparr>)))"
  unfolding frames_def
proof
  fix db
  show "queue_part (snd (then_do (update_rows P f (db_outbox db), db) (\<lambda>(updated, rows) db. (g updated, db\<lparr>db_outbox := rows\<rparr>)))) = queue_part db"
  proof (cases "update_rows P f (db_outbox db)")
    case (Ok x)
    obtain n rows where x: "x = (n, rows)" by force
    have "map entry_key rows = map entry_key (db_outbox db)" by (rule update_rows_map [OF Ok [unfolded x] assms])
    then show ?thesis by (simp add: Ok x queue_part_def entry_key_def [abs_def])
  qed simp_all
qed

lemma submitted_frames: "frames queue_part (mark_outbox_submitted control node execution)"
  unfolding mark_outbox_submitted_def [abs_def]
  by (intro frames_bind frames_statement [OF ignores_queue_part] outbox_rows_frames)
    (auto simp: entry_key_def bindR_eq_Ok intro: frames_if frames_pure)

lemma upload_rows_frames:
  "frames queue_part (\<lambda>db. then_do (update_rows P f (db_uploads db), db) (\<lambda>(updated, rows) db. (g updated, db\<lparr>db_uploads := rows\<rparr>)))"
  unfolding frames_def
proof
  fix db
  show "queue_part (snd (then_do (update_rows P f (db_uploads db), db) (\<lambda>(updated, rows) db. (g updated, db\<lparr>db_uploads := rows\<rparr>)))) = queue_part db"
    by (cases "update_rows P f (db_uploads db)") (auto simp: queue_part_def)
qed

lemma registered_frames: "frames queue_part (mark_upload_registered contract control data_id)"
  unfolding mark_upload_registered_def [abs_def]
  by (intro frames_bind frames_statement [OF ignores_queue_part] upload_rows_frames) (auto intro: frames_if frames_pure)

lemma failed_frames: "frames queue_part (mark_upload_failed contract control data_id error)"
  unfolding mark_upload_failed_def by (intro frames_statement [OF ignores_queue_part] upload_rows_frames)

lemma store_input_frames: "frames queue_part (store_input data_id v)"
  unfolding store_input_def [abs_def] by (intro queue_frames frames_effect) (simp add: queue_part_def)

lemma initialize_frames: "frames queue_part (pg_initialize contract state key v)"
proof -
  have row: "frames queue_part (upsert_row contract state key code payload)" for code payload
    by (auto simp: frames_def upsert_row_def Let_def queue_part_def bigint_succ_def split: option.split)
  show ?thesis unfolding pg_initialize_def [abs_def] upsert_state_def
    by (intro frames_after frames_statement [OF ignores_queue_part] row)
qed

lemma enqueue_frames: "frames queue_part (enqueue_upload contract control owner nonce deadline data_id commitment v)"
proof -
  have input: "frames queue_part (insert_input data_id code payload)" for code payload
    unfolding insert_input_def by (intro frames_statement [OF ignores_queue_part]) (auto simp: frames_def queue_part_def)
  have insert_row: "frames queue_part (insert_upload row)" for row
    unfolding insert_upload_def by (intro frames_statement [OF ignores_queue_part]) (auto simp: frames_def queue_part_def)
  have insert_now: "frames queue_part (\<lambda>db. insert_upload (row db) db)" for row
    using insert_row by (simp add: frames_def)
  show ?thesis unfolding enqueue_upload_def [abs_def]
    by (intro frames_after frames_transaction [OF ignores_queue_part] frames_bind input insert_now frames_if frames_pure
        frames_statement [OF ignores_queue_part])
qed

text \<open>
  A node's database over time: polls of any daemons against any chain answers, the uploader and the listener,
  the clock, and new patterns of failing connections.
\<close>

inductive node_step :: "database \<Rightarrow> database \<Rightarrow> bool" where
  poll: "poll_once D chain db = (r, db') \<Longrightarrow> node_step db db'"
| submitted: "mark_outbox_submitted control node execution db = (r, db') \<Longrightarrow> node_step db db'"
| enqueued: "enqueue_upload contract control owner nonce deadline data_id commitment v db = (r, db') \<Longrightarrow> node_step db db'"
| registered: "mark_upload_registered contract control data_id db = (r, db') \<Longrightarrow> node_step db db'"
| upload_failed: "mark_upload_failed contract control data_id error db = (r, db') \<Longrightarrow> node_step db db'"
| stored: "store_input data_id v db = (r, db') \<Longrightarrow> node_step db db'"
| initialized: "pg_initialize contract state key v db = (r, db') \<Longrightarrow> node_step db db'"
| tick: "node_step db (db\<lparr>db_clock := t\<rparr>)"
| faults: "node_step db (db\<lparr>db_faults := fs\<rparr>)"

inductive node_reachable :: "database \<Rightarrow> bool" where
  fresh: "node_reachable empty_database"
| step: "node_reachable db \<Longrightarrow> node_step db db' \<Longrightarrow> node_reachable db'"

lemma exactly_once_step:
  assumes "node_step db db'" and "exactly_once control node db"
  shows "exactly_once control node db'"
  using assms(1)
proof -
  have kept: "exactly_once control node db'" if "frames queue_part op" "op db = (r, db')" for op :: "unit db_op" and r
    using framesD [OF that] exactly_once_part assms(2) by blast
  show ?thesis using assms(1)
  proof cases
    case (poll D chain r)
  then show ?thesis using exactly_once_poll assms(2) by blast
next
  case tick
  then show ?thesis using assms(2) exactly_once_part [of db' db] by (simp add: queue_part_def)
next
  case faults
  then show ?thesis using assms(2) exactly_once_part [of db' db] by (simp add: queue_part_def)
qed (fact kept [OF submitted_frames] kept [OF enqueue_frames] kept [OF registered_frames] kept [OF failed_frames]
      kept [OF store_input_frames] kept [OF initialize_frames])+
qed

text \<open>C7. Every task is handled exactly once: in every database a node can reach, through polls, uploads,
  crashes and failing connections in any order, the tasks recorded for a node are precisely those before its
  queue position, in order, each once and no execution twice; and its outbox holds one entry for each task
  recorded as completed, in the same order, and no other.
\<close>

theorem tasks_exactly_once:
  assumes "node_reachable db"
  shows "exactly_once control node db"
  using assms
proof induction
  case fresh
  show ?case by (simp add: exactly_once_def processed_by_def sent_by_def queue_position_def empty_database_def Let_def)
next
  case (step db db')
  then show ?case using exactly_once_step by blast
qed

text \<open>A node that computes its first task: \<open>f\<close> encrypts zero into the state \<open>b\<close>.\<close>

definition reset_function :: function_manifest where
  "reset_function = \<lparr>fm_name = ''f'', fm_signature = ''f()'', fm_selector = ''0x26121ff0'', fm_inputs = [],
     fm_operators = [\<lparr>op_id = ''op0'', op_opcode = ''fhe.encrypt'', op_domain = RFhe, op_inputs = [''const:0''],
       op_output_type = TFheUint, op_representation = RFhe, op_state = None\<rparr>],
     fm_state_writes = [\<lparr>sw_state = ''b'', sw_key = None, sw_value = ''op0''\<rparr>], fm_opening_output = None\<rparr>"

definition reset_daemon :: committee_daemon where
  "reset_daemon = \<lparr>cd_manifest = \<lparr>cm_language_version = 1, cm_contract = ''T'',
       cm_state = [\<lparr>sm_name = ''b'', sm_value_type = TFheUint, sm_key_type = None, sm_representation = RFhe\<rparr>],
       cm_functions = [reset_function]\<rparr>,
     cd_backend = plaintext_manifest_backend, cd_contract_id = [7], cd_control = ''c'', cd_node = ''n'', cd_store_contract = [7]\<rparr>"

definition one_task :: manifest_task_source where
  "one_task = \<lparr>ts_execution_count = Ok 1, ts_task_at = (\<lambda>_. Ok \<lparr>ct_execution_id = replicate 32 9, ct_contract_id = [7],
     ct_selector = [0x26, 0x12, 0x1f, 0xf0], ct_requester = replicate 20 5, ct_private_input_ids = [], ct_public_inputs = [],
     ct_status = ExRunning, ct_node_is_current_member = True\<rparr>)\<rparr>"

lemma reset_select: "function_by_selector (cd_manifest reset_daemon) [0x26, 0x12, 0x1f, 0xf0] = Ok reset_function"
  by code_simp

lemma reset_writes:
  "fold_do (execute_operator_over load (cd_manifest reset_daemon) plaintext_manifest_backend) (fm_operators reset_function) (vals, []) db
     = (Ok (vals(''op0'' \<mapsto> fhe_uint 0), []), db)"
proof -
  have lit: "strip_const ''const:0'' = Some ''0''" "parse_u128 ''0'' = Some 0"
    by (simp_all add: strip_const_def parse_u128_def is_digit_def)
  show ?thesis
    by (simp add: reset_function_def execute_operator_over_def execute_operator_def resolve_owned_def lit
        plaintext_manifest_backend_def plain_evaluate_def one_def mv_public_u128_def mv_public_uint_def fhe_uint_def
        encoded_def expect_value_type_def)
qed

lemma reset_poll:
  "fst (poll_once reset_daemon one_task empty_database) = Ok (PollComputed 0 (replicate 32 9))
   \<and> map pr_outcome (processed_by ''c'' ''n'' (snd (poll_once reset_daemon one_task empty_database))) = [''completed'']
   \<and> db_state (snd (poll_once reset_daemon one_task empty_database)) ([7], ''b'', []) \<noteq> None"
proof -
  have len: "length FHE_UINT_PREFIX = 29" by code_simp
  have parts: "cd_backend reset_daemon = plaintext_manifest_backend" "cd_contract_id reset_daemon = [7]" "cd_control reset_daemon = ''c''"
    "cd_node reset_daemon = ''n''" "cd_store_contract reset_daemon = [7]" "cm_functions (cd_manifest reset_daemon) = [reset_function]"
    "fm_name reset_function = ''f''" "fm_inputs reset_function = []" "fm_opening_output reset_function = None"
    "fm_state_writes reset_function = [\<lparr>sw_state = ''b'', sw_key = None, sw_value = ''op0''\<rparr>]"
    "cm_state (cd_manifest reset_daemon) = [\<lparr>sm_name = ''b'', sm_value_type = TFheUint, sm_key_type = None, sm_representation = RFhe\<rparr>]"
    by (simp_all add: reset_daemon_def reset_function_def)
  show ?thesis
    using reset_select
    by (simp add: poll_once_def parts one_task_def in_runtime_def next_execution_index_def statement_def
        empty_database_def u64_of_i64_def status_terminal_def run_task_def invocation_inputs_def Let_def
        evaluate_over_def validate_inputs_def initial_values_def reset_writes plan_write_def manifest_state_def resolve_def
        fhe_uint_def encoded_def encode_outbox_payload_def append_len_def encode_write_def append_bytes_def encode_value_def len
        commit_computation_def i64_of_u64_def transaction_def lock_cursor_def write_state_def upsert_state_def upsert_row_def
        insert_outbox_def insert_processed_def i64_succ_def advance_cursor_def processed_by_def ascii_def)
qed

theorem tasks_exactly_once_witness:
  "exactly_once ''c'' ''n'' (snd (poll_once reset_daemon one_task empty_database))
   \<and> map pr_outcome (processed_by ''c'' ''n'' (snd (poll_once reset_daemon one_task empty_database))) = [''completed'']"
  using tasks_exactly_once [OF node_reachable.step [OF fresh node_step.poll [OF surjective_pairing]]] reset_poll by blast

section \<open>A poll computes what the executor computes\<close>

text \<open>A reading operation that succeeds does so on the tables alone.\<close>

definition steady :: "(database \<Rightarrow> ('e, 'a) res \<times> database) \<Rightarrow> bool" where
  "steady op \<longleftrightarrow> (\<forall>db x db'. op db = (Ok x, db') \<longrightarrow> op (tables db) = (Ok x, tables db) \<and> tables db' = tables db)"

lemma steadyD: "steady op \<Longrightarrow> op db = (Ok x, db') \<Longrightarrow> op (tables db) = (Ok x, tables db) \<and> tables db' = tables db"
  by (simp add: steady_def)

lemma steady_pure: "steady (\<lambda>db. (r, db))"
  by (simp add: steady_def)

lemma steady_bind:
  assumes "steady op" and "\<And>x. steady (g x)"
  shows "steady (\<lambda>db. then_do (op db) g)"
  unfolding steady_def
proof (intro allI impI)
  fix db x db'
  assume "then_do (op db) g = (Ok x, db')"
  then obtain y db1 where y: "op db = (Ok y, db1)" "g y db1 = (Ok x, db')" by (auto simp: then_do_Ok)
  show "then_do (op (tables db)) g = (Ok x, tables db) \<and> tables db' = tables db"
    using steadyD [OF assms(1) y(1)] steadyD [OF assms(2) y(2)] by simp
qed

lemma steady_after: "(\<And>x. steady (g x)) \<Longrightarrow> steady (\<lambda>db. then_do (r, db) g)"
  by (rule steady_bind [OF steady_pure])

lemma steady_if: "steady a \<Longrightarrow> steady b \<Longrightarrow> steady (\<lambda>db. if c then a db else b db)"
  by (simp add: steady_def)

lemma steady_statement:
  assumes "\<And>db fs. f (db\<lparr>db_faults := fs\<rparr>) = f db"
  shows "steady (statement (\<lambda>db. (f db, db)))"
  unfolding steady_def
proof (intro allI impI)
  fix db x db'
  assume run: "statement (\<lambda>db. (f db, db)) db = (Ok x, db')"
  have "f (tables db) = f db" using assms by (simp add: tables_def)
  moreover have "statement (\<lambda>db. (f db, db)) (tables db) = (f (tables db), tables db)"
    by (rule statement_reliable) (simp add: tables_def)
  ultimately show "statement (\<lambda>db. (f db, db)) (tables db) = (Ok x, tables db) \<and> tables db' = tables db"
    using statement_Ok [OF run] assms by auto
qed

lemma steady_runtime: "steady op \<Longrightarrow> steady (in_runtime op)"
  unfolding steady_def in_runtime_Ok by blast

lemma steady_fold: "(\<And>x s. steady (g x s)) \<Longrightarrow> steady (fold_do g xs s)"
proof (induction xs arbitrary: s)
  case (Cons x xs)
  have "steady (\<lambda>db. then_do (g x s db) (fold_do g xs))" by (rule steady_bind) (use Cons in auto)
  moreover have "fold_do g (x # xs) s = (\<lambda>db. then_do (g x s db) (fold_do g xs))" by (simp add: fun_eq_iff)
  ultimately show ?case by simp
qed (simp add: steady_def)

lemma steady_inputs: "steady (invocation_inputs fm task)"
proof -
  have "steady (take_input task p c)" for p c
  proof -
    obtain pub priv inputs where c: "c = (pub, priv, inputs)" by (metis prod_cases3)
    have "steady (pg_input data_id)" for data_id unfolding pg_input_def by (rule steady_statement) simp
    then have "steady (private_value task p (pub, priv, inputs))"
      unfolding private_value_def split by (intro steady_after steady_bind steady_runtime steady_if steady_pure)
    then show ?thesis unfolding take_input_def c split
      by (cases "ai_source_type p") (auto intro: steady_pure)
  qed
  then have fold: "steady (\<lambda>db. then_do (fold_do (take_input task) ps (0, 0, []) db) (\<lambda>(_, _, inputs) db. (Ok inputs, db)))" for ps
    by (intro steady_bind steady_fold) (auto intro: steady_pure)
  show ?thesis unfolding invocation_inputs_def [abs_def] Let_def by (intro steady_if steady_pure fold)
qed

lemma fold_do_invariant:
  assumes "fold_do f xs s db = (Ok s', db')" and "P s" and "\<And>x s db s' db'. P s \<Longrightarrow> f x s db = (Ok s', db') \<Longrightarrow> P s'"
  shows "P s'"
  using assms(1,2)
proof (induction xs arbitrary: s db)
  case (Cons x xs)
  then obtain s1 db1 where "f x s db = (Ok s1, db1)" "fold_do f xs s1 db1 = (Ok s', db')" by (auto simp: then_do_Ok)
  then show ?case using Cons.IH assms(3) Cons.prems(2) by blast
qed simp

text \<open>The inputs of a task are values that rows can hold.\<close>

lemma inputs_solid:
  assumes "invocation_inputs fm task db = (Ok inputs, db')"
  shows "bt_get k inputs = Some v \<Longrightarrow> solid v"
proof -
  define good where "good = (\<lambda>c :: input_cursor. \<forall>k v. bt_get k (snd (snd c)) = Some v \<longrightarrow> solid v)"
  have step: "good c'" if c: "good c" and run: "take_input task p c db = (Ok c', db')" for p c db c' db'
  proof -
    obtain pub priv inputs where split_c: "c = (pub, priv, inputs)" by (metis prod_cases3)
    have word: "length w = 32" if "public_word bs i = Ok w" for bs i w
      using that by (auto simp: public_word_def split: if_splits)
    have loaded: "solid u" if "pg_input data_id db = (Ok u, db'')" for data_id u db db''
      using statement_Ok [OF that [unfolded pg_input_def]] by (auto simp: value_from_row_def solid_def split: if_splits)
    have address: "solid (mv_address (drop 12 w))" if "public_word bs i = Ok w" for bs i w
      using word [OF that] by (auto simp: drop_eq_Nil)
    show ?thesis using run c
      by (cases "ai_source_type p")
        (auto simp: take_input_def split_c good_def private_value_def then_do_Ok in_runtime_Ok bindR_eq_Ok
          split: if_splits dest: loaded address)
  qed
  obtain c db1 where fold: "fold_do (take_input task) (fm_inputs fm) (0, 0, []) db = (Ok c, db1)" and c: "snd (snd c) = inputs"
    using assms by (fastforce simp: invocation_inputs_def Let_def then_do_Ok split: if_splits)
  have "good c" by (rule fold_do_invariant [OF fold, of good]) (use step in \<open>auto simp: good_def\<close>)
  then show "bt_get k inputs = Some v \<Longrightarrow> solid v" using c by (simp add: good_def)
qed

lemma queue_position_opened [simp]: "queue_position control node (opened control node db) = queue_position control node db"
  by (simp add: queue_position_def opened_def)

lemma cells_of_opened [simp]: "cells_of contract (opened control node db) = cells_of contract db"
  by (simp add: cells_of_def)

lemma rows_ok_opened [simp]: "rows_ok (opened control node db) = rows_ok db"
  by (simp add: rows_ok_def)

lemma skipped_cells:
  assumes "complete_execution control node index execution result db = (Ok u, db')"
  shows "cells_of contract db' = cells_of contract db" "rows_ok db' = rows_ok db" "db_outbox db' = db_outbox db"
  using complete_execution_Ok [OF assms] by (simp_all add: advanced_def cells_of_def rows_ok_def)

lemma same_tables_observed:
  assumes "tables a = tables b"
  shows "cells_of contract a = cells_of contract b" "rows_ok a = rows_ok b" "db_outbox a = db_outbox b"
    "queue_position control node a = queue_position control node b" "db_clock a = db_clock b" "db_inputs a = db_inputs b"
  using tables_eqD [OF assms] by (simp_all add: cells_of_def rows_ok_def queue_position_def)

text \<open>The chain's requester is an address of twenty bytes, and an execution identifier has 32.\<close>

definition chain_sane :: "manifest_task_source \<Rightarrow> bool" where
  "chain_sane chain \<longleftrightarrow> (\<forall>i task. ts_task_at chain i = Ok task \<longrightarrow>
     length (ct_requester task) = 20 \<and> length (ct_execution_id task) = 32)"

definition computed_as :: "committee_daemon \<Rightarrow> manifest_task_source \<Rightarrow> u64 \<Rightarrow> bytes \<Rightarrow> database \<Rightarrow> database \<Rightarrow> bool" where
  "computed_as D chain index execution db db' \<longleftrightarrow>
     (\<exists>task fm inputs result payload.
        ts_task_at chain index = Ok task \<and> runnable D task \<and> execution = ct_execution_id task
      \<and> function_by_selector (cd_manifest D) (ct_selector task) = Ok fm
      \<and> fst (invocation_inputs fm task (tables (opened (cd_control D) (cd_node D) db))) = Ok inputs
      \<and> manifest_execute (cd_manifest D) (cd_backend D) (fm_name fm) (ct_requester task) inputs
          (cells_of (cd_store_contract D) db) = (Ok result, cells_of (cd_store_contract D) db')
      \<and> encode_outbox_payload execution result = Ok payload
      \<and> db_outbox db' = db_outbox db @ [sent_row (cd_control D) (cd_node D) execution payload (db_clock db)]
      \<and> queue_position (cd_control D) (cd_node D) db = int (unat index)
      \<and> queue_position (cd_control D) (cd_node D) db' = int (unat index) + 1)"

lemma opened_when_set:
  assumes "tables db0 = tables db \<or> tables db0 = tables (opened control node db)" and set: "db_cursors db0 (control, node) = Some i"
  shows "tables db0 = tables (opened control node db) \<and> queue_position control node db = i"
  using assms(1)
proof
  assume same: "tables db0 = tables db"
  have "db_cursors db (control, node) = Some i" using tables_eqD(3) [OF same] set by simp
  then show ?thesis using same by (simp add: opened_def queue_position_def)
next
  assume same: "tables db0 = tables (opened control node db)"
  have "queue_position control node db0 = queue_position control node db" using same_tables_observed(4) [OF same] by simp
  moreover have "queue_position control node db0 = i" using set by (simp add: queue_position_def)
  ultimately show ?thesis using same by simp
qed

lemma run_task_computes:
  assumes run: "run_task D index task db = (Ok (PollComputed i e), db')" and db: "rows_ok db"
    and sane: "solid_backend (cd_backend D)" "stores_values (cd_manifest D)" "length (ct_requester task) = 20"
  obtains fm inputs result payload where
    "i = index" "e = ct_execution_id task" "function_by_selector (cd_manifest D) (ct_selector task) = Ok fm"
    "fst (invocation_inputs fm task (tables db)) = Ok inputs"
    "manifest_execute (cd_manifest D) (cd_backend D) (fm_name fm) (ct_requester task) inputs (cells_of (cd_store_contract D) db)
       = (Ok result, cells_of (cd_store_contract D) db')"
    "encode_outbox_payload e result = Ok payload"
    "db_outbox db' = db_outbox db @ [sent_row (cd_control D) (cd_node D) e payload (db_clock db)]"
    "db_cursors db (cd_control D, cd_node D) = Some (int (unat index))"
    "queue_position (cd_control D) (cd_node D) db' = int (unat index) + 1" "rows_ok db'"
    "\<forall>c. c \<noteq> cd_store_contract D \<longrightarrow> cells_of c db' = cells_of c db"
  using run
proof (cases rule: run_task_cases)
  case stays
  then show ?thesis by blast
next
  case (computes fm inputs dbi result dbe payload)
  let ?c = "cd_store_contract D"
  let ?pure = "manifest_evaluate (cd_manifest D) (cells_load (cells_of ?c db)) (cd_backend D) (fm_name fm) (ct_requester task) inputs"
  have "rows_ok dbi" "cells_of ?c dbi = cells_of ?c db" using same_tables_observed [OF computes(4)] db by simp_all
  from pg_store.evaluate_follows [OF this, of "cd_manifest D" "cd_backend D" "fm_name fm" "ct_requester task" inputs]
  have result: "?pure = Ok result" by (auto simp: computes(5) pg_store.follows_def)
  have requester: "ct_requester task \<noteq> []" using sane(3) by auto
  have loads: "solid v" if "cells_load (cells_of ?c db) s k = Ok v" for s k v
    using cells_of_solid [OF db] that by (simp add: cells_load_def)
  have storable: "\<forall>w \<in> set (eo_state_writes result). storable (cw_value w)"
    by (rule evaluated_storable [OF result sane(1,2) requester]) (fact inputs_solid [OF computes(3)] loads)+
  have dbe: "rows_ok dbe" "cells_of c dbe = cells_of c db" "db_outbox dbe = db_outbox db" "db_clock dbe = db_clock db"
    "db_cursors dbe = db_cursors db" for c
    using same_tables_observed [OF computes(6)] db tables_eqD(3) [OF computes(6)] by simp_all
  note cells = commit_computation_cells [OF computes(8) storable dbe(1)]
  have adv: "advanced (cd_control D) (cd_node D) \<lparr>pr_control = cd_control D, pr_node = cd_node D, pr_index = int (unat index),
      pr_execution = ct_execution_id task, pr_outcome = ''completed''\<rparr>
      [sent_row (cd_control D) (cd_node D) (ct_execution_id task) payload (db_clock dbe)] dbe db'"
    using commit_computation_steps [OF computes(8)] by blast
  show ?thesis
  proof (rule that)
    show "fst (invocation_inputs fm task (tables db)) = Ok inputs" using steadyD [OF steady_inputs computes(3)] by simp
    show "manifest_execute (cd_manifest D) (cd_backend D) (fm_name fm) (ct_requester task) inputs (cells_of ?c db)
       = (Ok result, cells_of ?c db')"
      using result cells dbe(2) by (simp add: manifest_execute_def)
  qed (use computes run adv dbe cells in \<open>simp_all add: advanced_def queue_position_def\<close>)
qed

lemma opened_observed:
  assumes "tables db0 = tables db \<or> tables db0 = tables (opened control node db)"
  shows "rows_ok db0 = rows_ok db" "cells_of contract db0 = cells_of contract db" "db_outbox db0 = db_outbox db"
    "db_clock db0 = db_clock db"
  using assms same_tables_observed [of db0 db] same_tables_observed [of db0 "opened control node db"] by auto

lemma run_task_refines:
  assumes run: "run_task D index task db0 = (r, db')"
    and start: "tables db0 = tables db \<or> tables db0 = tables (opened (cd_control D) (cd_node D) db)"
    and task: "ts_task_at chain index = Ok task" "runnable D task" and "rows_ok db"
    and "solid_backend (cd_backend D)" and "stores_values (cd_manifest D)" and "length (ct_requester task) = 20"
  shows "rows_ok db' \<and> (\<forall>c. c \<noteq> cd_store_contract D \<longrightarrow> cells_of c db' = cells_of c db)
    \<and> (case r of
         Ok (PollComputed index execution) \<Rightarrow> computed_as D chain index execution db db'
       | _ \<Rightarrow> cells_of (cd_store_contract D) db' = cells_of (cd_store_contract D) db \<and> db_outbox db' = db_outbox db)"
proof (cases "\<exists>i e. r = Ok (PollComputed i e)")
  case True
  then obtain i e where r: "r = Ok (PollComputed i e)" by blast
  note db0 = opened_observed [OF start]
  have "rows_ok db0" using db0 assms(5) by simp
  from run_task_computes [OF run [unfolded r] this assms(6,7,8)] obtain fm inputs result payload where c:
    "i = index" "e = ct_execution_id task" "function_by_selector (cd_manifest D) (ct_selector task) = Ok fm"
    "fst (invocation_inputs fm task (tables db0)) = Ok inputs"
    "manifest_execute (cd_manifest D) (cd_backend D) (fm_name fm) (ct_requester task) inputs (cells_of (cd_store_contract D) db0)
       = (Ok result, cells_of (cd_store_contract D) db')"
    "encode_outbox_payload e result = Ok payload"
    "db_outbox db' = db_outbox db0 @ [sent_row (cd_control D) (cd_node D) e payload (db_clock db0)]"
    "db_cursors db0 (cd_control D, cd_node D) = Some (int (unat index))"
    "queue_position (cd_control D) (cd_node D) db' = int (unat index) + 1" "rows_ok db'"
    "\<forall>c. c \<noteq> cd_store_contract D \<longrightarrow> cells_of c db' = cells_of c db0" .
  have "computed_as D chain index e db db'"
    unfolding computed_as_def using task c db0 opened_when_set [OF start c(8)]
    by (intro exI [of _ task] exI [of _ fm] exI [of _ inputs] exI [of _ result] exI [of _ payload]) simp
  then show ?thesis using r c(1,10,11) db0 by simp
next
  case False
  show ?thesis
    using run
  proof (cases rule: run_task_cases)
    case stays
    then show ?thesis using False same_tables_observed [OF stays(1)] opened_observed [OF start] assms(5)
      by (auto split: res.split poll_outcome.split)
  qed (use False in blast)
qed

text \<open>
  C8. A poll of a committee node does to the node's private state exactly what the manifest executor does to
  its cells, or nothing: when it reports a computed task, that task is the one at the queue position, running
  and assigned to the node, the state is the one \<open>manifest_execute\<close> gives for the function of the task's
  selector on the task's inputs, the outbox has gained the encoding of that outcome, and the position has
  moved by one; in every other case, failing connections included, no cell and no outbox entry changes.
\<close>

theorem poll_refines_execution:
  assumes "poll_once D chain db = (r, db')" and "rows_ok db" and "chain_sane chain"
    and "solid_backend (cd_backend D)" and "stores_values (cd_manifest D)"
  shows "rows_ok db' \<and> (\<forall>c. c \<noteq> cd_store_contract D \<longrightarrow> cells_of c db' = cells_of c db)
    \<and> (case r of
         Ok (PollComputed index execution) \<Rightarrow> computed_as D chain index execution db db'
       | _ \<Rightarrow> cells_of (cd_store_contract D) db' = cells_of (cd_store_contract D) db \<and> db_outbox db' = db_outbox db)"
  using assms(1)
proof (cases rule: poll_once_cases)
  case stays
  then show ?thesis using opened_observed [OF stays(1)] assms(2) by (auto split: res.split poll_outcome.split)
next
  case (skips index task db0)
  then show ?thesis using opened_observed [OF skips(1)] skipped_cells [OF skips(5)] assms(2) by simp
next
  case (works index task db0)
  have "length (ct_requester task) = 20" using assms(3) works(2) by (auto simp: chain_sane_def)
  then show ?thesis using run_task_refines [OF works(4,1,2,3) assms(2,4,5)] by blast
qed

lemma plaintext_solid: "solid_backend plaintext_manifest_backend"
proof -
  have prefixes: "FHE_UINT_PREFIX \<noteq> []" "FHE_BOOL_PREFIX \<noteq> []" "SS_UINT_PREFIX \<noteq> []" "SS_BOOL_PREFIX \<noteq> []" "OPENED_PREFIX \<noteq> []"
    by code_simp+
  have encoded_solid: "solid (encoded ty p x)" if "p \<noteq> []" for ty p x using that by (simp add: solid_def encoded_def)
  have "solid v" if "plain_evaluate opcode args = Ok v" for opcode args v
    using that encoded_solid prefixes
    by (auto simp: plain_evaluate_def bindR_eq_Ok fhe_uint_def secret_uint_def split: if_splits value_type.splits)
      (metis value_type.exhaust)
  moreover have "solid v" if "plain_pick u = Ok v" for u v
    using that encoded_solid prefixes by (auto simp: plain_pick_def bindR_eq_Ok)
  ultimately show ?thesis by (simp add: solid_backend_def plaintext_manifest_backend_def)
qed

theorem poll_refines_execution_witness:
  "computed_as reset_daemon one_task 0 (replicate 32 9) empty_database (snd (poll_once reset_daemon one_task empty_database))"
proof -
  have "rows_ok empty_database" by (simp add: rows_ok_def empty_database_def)
  moreover have "chain_sane one_task" by (simp add: chain_sane_def one_task_def)
  moreover have "solid_backend (cd_backend reset_daemon)" by (simp add: reset_daemon_def plaintext_solid)
  moreover have "stores_values (cd_manifest reset_daemon)" by (simp add: stores_values_def reset_daemon_def)
  ultimately show ?thesis
    using poll_refines_execution [OF surjective_pairing, of empty_database one_task reset_daemon] reset_poll by simp
qed

end
