(* ===== verification/Queue_Blocking.thy ===== *)
theory Queue_Blocking
  imports Manifest_Daemon
begin

text \<open>
  What a failing task does to the queue of \<open>runtime/src/manifest_daemon.rs\<close>.

  \<open>poll_once\<close> returns the error of a task it cannot run and leaves the queue position where it is; nothing
  records the task as rejected, although the store has an outcome for it.  The lemmas show that over a
  reliable database nothing else changes either, so that the next poll meets the same task in the same state.
\<close>

section \<open>A reliable database stays reliable\<close>

definition calm :: "(database \<Rightarrow> ('e, 'a) res \<times> database) \<Rightarrow> bool" where
  "calm op \<longleftrightarrow> (\<forall>db. db_faults db = [] \<longrightarrow> db_faults (snd (op db)) = [])"

lemma calmD: "calm op \<Longrightarrow> op db = (r, db') \<Longrightarrow> db_faults db = [] \<Longrightarrow> db_faults db' = []"
  unfolding calm_def by (metis snd_conv)

lemma calm_pure: "calm (\<lambda>db. (r db, db))"
  by (simp add: calm_def)

lemma calm_effect: "(\<And>db. db_faults (g db) = db_faults db) \<Longrightarrow> calm (\<lambda>db. (r db, g db))"
  by (simp add: calm_def)

lemma calm_bind:
  assumes "calm op" and "\<And>x. calm (g x)"
  shows "calm (\<lambda>db. then_do (op db) g)"
  unfolding calm_def
proof (intro allI impI)
  fix db :: database
  assume "db_faults db = []"
  then have "db_faults (snd (op db)) = []" using assms(1) by (simp add: calm_def)
  then show "db_faults (snd (then_do (op db) g)) = []"
    using assms(2) by (cases "op db"; cases "fst (op db)") (simp_all add: calm_def)
qed

lemma calm_after: "(\<And>x. calm (g x)) \<Longrightarrow> calm (\<lambda>db. then_do (r, db) g)"
  by (rule calm_bind [OF calm_pure])

lemma calm_if: "calm a \<Longrightarrow> calm b \<Longrightarrow> calm (\<lambda>db. if c then a db else b db)"
  by (simp add: calm_def)

lemma calm_test: "calm a \<Longrightarrow> calm b \<Longrightarrow> calm (\<lambda>db. if c db then a db else b db)"
  by (simp add: calm_def)

lemma calm_statement: "calm op \<Longrightarrow> calm (statement op)"
  by (simp add: calm_def statement_def)

lemma calm_transaction: "calm body \<Longrightarrow> calm (transaction body)"
  unfolding transaction_def [abs_def]
proof (rule calm_bind [OF calm_statement [OF calm_pure]])
  assume body: "calm body"
  have commit: "calm (\<lambda>db. then_do (body db) (\<lambda>x. statement (\<lambda>db. (Ok x, db))))"
    by (intro calm_bind calm_statement calm_pure body)
  show "calm (\<lambda>start. case then_do (body start) (\<lambda>x. statement (\<lambda>db. (Ok x, db))) of
         (Ok x, db') \<Rightarrow> (Ok x, db')
       | (Err e, db') \<Rightarrow> (Err e, start\<lparr>db_faults := db_faults db'\<rparr>)
       | (Panic, db') \<Rightarrow> (Panic, start\<lparr>db_faults := db_faults db'\<rparr>))"
    unfolding calm_def using calmD [OF commit] by (auto split: prod.split res.split)
qed

lemma calm_runtime: "calm op \<Longrightarrow> calm (in_runtime op)"
  by (simp add: calm_def)

lemma calm_fold: "(\<And>x s. calm (g x s)) \<Longrightarrow> calm (fold_do g xs s)"
proof (induction xs arbitrary: s)
  case (Cons x xs)
  have "calm (\<lambda>db. then_do (g x s db) (fold_do g xs))" by (rule calm_bind) (use Cons in auto)
  moreover have "fold_do g (x # xs) s = (\<lambda>db. then_do (g x s db) (fold_do g xs))" by (simp add: fun_eq_iff)
  ultimately show ?case by simp
qed (simp add: calm_def)

lemmas calm_intros = calm_pure calm_after calm_bind calm_if calm_runtime calm_fold calm_statement calm_transaction

lemma calm_evaluate: "calm (evaluate_over (pg_load contract) m MB name sender inputs)"
proof -
  have load: "calm (pg_load contract s k)" for s k unfolding pg_load_def by (intro calm_intros)
  have state: "calm (load_state_over (pg_load contract) m node args)" for node args
    unfolding load_state_over_def [abs_def] by (rule calm_after) (auto intro!: calm_bind load calm_pure)
  have "calm (execute_operator_over (pg_load contract) m MB node s)" for node s
  proof -
    obtain vals calls where s: "s = (vals, calls)" by force
    have "calm (\<lambda>db. then_do (mapR (resolve_owned vals) (op_inputs node), db) (\<lambda>args db.
          then_do (load_state_over (pg_load contract) m node args db) (\<lambda>v db. (Ok (v, calls), db))))"
      by (intro calm_intros state)
    then show ?thesis unfolding s execute_operator_over_def split
      by (cases "op_opcode node = ''load_state''") (auto intro!: calm_bind calm_pure)
  qed
  then show ?thesis unfolding evaluate_over_def [abs_def]
    by (intro calm_after calm_bind calm_fold) (auto intro!: calm_after calm_pure)
qed

lemma calm_inputs: "calm (invocation_inputs fm task)"
proof -
  have "calm (take_input task p c)" for p c
  proof -
    obtain pub priv inputs where c: "c = (pub, priv, inputs)" by (metis prod_cases3)
    have "calm (pg_input data_id)" for data_id unfolding pg_input_def by (intro calm_intros)
    then have "calm (private_value task p (pub, priv, inputs))"
      unfolding private_value_def split by (intro calm_intros)
    then show ?thesis unfolding take_input_def c split by (cases "ai_source_type p") (auto intro: calm_pure)
  qed
  then have fold: "calm (\<lambda>db. then_do (fold_do (take_input task) ps (0, 0, []) db) (\<lambda>(_, _, inputs) db. (Ok inputs, db)))" for ps
    by (intro calm_bind calm_fold) (auto intro: calm_pure)
  show ?thesis unfolding invocation_inputs_def [abs_def] Let_def by (intro calm_if calm_pure fold)
qed

lemma calm_upsert: "calm (upsert_state contract state key code payload)"
  unfolding upsert_state_def
  by (rule calm_statement) (auto simp: calm_def upsert_row_def Let_def bigint_succ_def split: option.split)

lemma calm_writes: "calm (write_states contract ws)"
proof (induction ws)
  case (Cons w ws)
  have "calm (write_state contract w)" unfolding write_state_def [abs_def] by (intro calm_intros calm_upsert)
  then have "calm (\<lambda>db. then_do (write_state contract w db) (\<lambda>_. write_states contract ws))" using Cons by (rule calm_bind)
  moreover have "write_states contract (w # ws) = (\<lambda>db. then_do (write_state contract w db) (\<lambda>_. write_states contract ws))"
    by (simp add: fun_eq_iff)
  ultimately show ?case by simp
qed (simp add: calm_def)

lemma calm_queue:
  "calm (lock_cursor control node i)" "calm (insert_processed row)" "calm (insert_outbox control node execution payload)"
  "calm (advance_cursor control node next)" "calm (next_execution_index control node)"
  unfolding lock_cursor_def [abs_def] insert_processed_def insert_outbox_def advance_cursor_def next_execution_index_def [abs_def]
  by (intro calm_intros calm_test; auto simp: calm_def)+

lemma calm_operations:
  "calm (complete_execution control node index execution result)"
  "calm (commit_computation contract control node index execution writes payload)"
  unfolding complete_execution_def [abs_def] commit_computation_def [abs_def]
  by (intro calm_after calm_transaction calm_bind calm_queue calm_writes)+

lemma calm_poll: "calm (poll_once D chain)"
  unfolding poll_once_def [abs_def] skip_task_def [abs_def] run_task_def [abs_def]
  by (intro calm_after calm_bind calm_if calm_runtime calm_pure calm_queue calm_operations calm_inputs calm_evaluate)

section \<open>The same error again\<close>

lemma reliable_tables: "db_faults db = [] \<Longrightarrow> tables db = db"
  by (cases db) (simp add: tables_def)

lemma poll_opened:
  assumes "db_faults db = []"
  shows "poll_once D chain (opened (cd_control D) (cd_node D) db) = poll_once D chain db"
proof -
  have "next_execution_index c n (opened c n db) = next_execution_index c n db" for c n
    using assms by (simp add: next_execution_index_def statement_def opened_def)
  then show ?thesis by (simp add: poll_once_def in_runtime_def)
qed

lemma failing_poll_repeats:
  assumes run: "poll_once D chain db = (r, db')" and "\<not> is_ok r" and rel: "db_faults db = []"
  shows "poll_once D chain db' = (r, db') \<and> db_faults db' = [] \<and> (db' = db \<or> db' = opened (cd_control D) (cd_node D) db)"
proof -
  have "tables db' = tables db \<or> tables db' = tables (opened (cd_control D) (cd_node D) db)"
    using run
  proof (cases rule: poll_once_cases)
    case (works index task db0)
    show ?thesis using works(4)
    proof (cases rule: run_task_cases)
      case stays
      then show ?thesis using works(1) by simp
    next
      case computes
      then show ?thesis using assms(2) by simp
    qed
  qed (use assms(2) in auto)
  moreover have rel': "db_faults db' = []" using calmD [OF calm_poll run rel] .
  moreover have "db_faults (opened (cd_control D) (cd_node D) db) = []" using rel by (simp add: opened_def)
  ultimately have "db' = db \<or> db' = opened (cd_control D) (cd_node D) db" using rel by (simp add: reliable_tables)
  then show ?thesis using run rel' poll_opened [OF rel] by auto
qed

text \<open>A task that cannot be run blocks the queue: over a reliable database, a poll that returns an error
  returns the same error again at every later poll while the chain answers the same, and through all of them
  the queue position, the recorded tasks and the outbox stay what they were.  No later task is ever reached,
  and the failing one is never recorded as rejected.
\<close>

theorem failing_task_blocks_queue:
  assumes "poll_once D chain db = (Err e, db')" and "db_faults db = []"
  shows "fst (poll_once D chain (((\<lambda>s. snd (poll_once D chain s)) ^^ n) db)) = Err e
    \<and> queue_position (cd_control D) (cd_node D) (((\<lambda>s. snd (poll_once D chain s)) ^^ n) db)
        = queue_position (cd_control D) (cd_node D) db
    \<and> db_processed (((\<lambda>s. snd (poll_once D chain s)) ^^ n) db) = db_processed db
    \<and> db_outbox (((\<lambda>s. snd (poll_once D chain s)) ^^ n) db) = db_outbox db"
proof -
  note again = failing_poll_repeats [OF assms(1) _ assms(2)]
  have "((\<lambda>s. snd (poll_once D chain s)) ^^ n) db \<in> {db, db'}"
    using again by (induction n) (auto simp: assms(1))
  then show ?thesis using again assms(1) by auto
qed

definition unknown_task :: manifest_task_source where
  "unknown_task = \<lparr>ts_execution_count = Ok 1, ts_task_at = (\<lambda>_. Ok \<lparr>ct_execution_id = replicate 32 9, ct_contract_id = [7],
     ct_selector = [0, 0, 0, 0], ct_requester = replicate 20 5, ct_private_input_ids = [], ct_public_inputs = [],
     ct_status = ExRunning, ct_node_is_current_member = True\<rparr>)\<rparr>"

theorem failing_task_blocks_queue_witness:
  "fst (poll_once reset_daemon unknown_task (((\<lambda>s. snd (poll_once reset_daemon unknown_task s)) ^^ 1000) empty_database))
     = Err DFunctionNotFound"
proof -
  have none: "function_by_selector (cd_manifest reset_daemon) [0, 0, 0, 0] = Err DFunctionNotFound" by code_simp
  have parts: "cd_contract_id reset_daemon = [7]" "cd_control reset_daemon = ''c''" "cd_node reset_daemon = ''n''"
    by (simp_all add: reset_daemon_def)
  have rel: "db_faults empty_database = []" by (simp add: empty_database_def)
  have "fst (poll_once reset_daemon unknown_task empty_database) = Err DFunctionNotFound"
    by (simp add: poll_once_def parts unknown_task_def in_runtime_def next_execution_index_def statement_def
        empty_database_def u64_of_i64_def status_terminal_def run_task_def none)
  then have "poll_once reset_daemon unknown_task empty_database
      = (Err DFunctionNotFound, snd (poll_once reset_daemon unknown_task empty_database))" by (simp add: prod_eq_iff)
  then show ?thesis using failing_task_blocks_queue [OF _ rel] by blast
qed

end
