(* ===== verification/Crypto_Process.thy ===== *)
theory Crypto_Process
  imports Hex_Strings
begin

text \<open>
  The crypto process of a committee node: \<open>runtime/src/manifest_crypto_process.rs\<close> on the daemon's side, and
  the service loop of \<open>bin/manifest_crypto_plaintext_service.rs\<close> and \<open>fhe/src/bin/manifest_crypto_service.rs\<close>.

  A line of JSON is the value it encodes (\<open>serde_json\<close> reads back what it writes); a child that has exited, or
  whose line does not parse, is an answer of its own.  A panic of the child ends it.
\<close>

section \<open>The protocol\<close>

record wire_value =
  wv_type :: value_type
  wv_payload :: string

datatype crypto_request =
  CrEvaluate string "wire_value list"
| CrSecretBool wire_value
| CrPick wire_value

record crypto_response =
  cr_value :: "wire_value option"
  cr_boolean :: "bool option"
  cr_error :: "string option"

definition wire_from_manifest :: "manifest_value \<Rightarrow> wire_value" where
  "wire_from_manifest v = \<lparr>wv_type = mv_type v, wv_payload = hex_text (mv_bytes v)\<rparr>"

definition wire_into_manifest :: "wire_value \<Rightarrow> (manifest_runtime_error, manifest_value) res" where
  "wire_into_manifest w = bindR (decode_hex (wv_payload w)) (mv_from_backend_parts (wv_type w))"

definition response_value :: "manifest_value \<Rightarrow> crypto_response" where
  "response_value v = \<lparr>cr_value = Some (wire_from_manifest v), cr_boolean = None, cr_error = None\<rparr>"

definition response_boolean :: "bool \<Rightarrow> crypto_response" where
  "response_boolean b = \<lparr>cr_value = None, cr_boolean = Some b, cr_error = None\<rparr>"

definition response_error :: "string \<Rightarrow> crypto_response" where
  "response_error message = \<lparr>cr_value = None, cr_boolean = None, cr_error = Some message\<rparr>"

section \<open>The daemon's side\<close>

datatype child_answer = ChildGone | ChildGarbled | ChildSays crypto_response

type_synonym child_process = "crypto_request \<Rightarrow> child_answer"

definition process_request :: "child_process \<Rightarrow> crypto_request \<Rightarrow> (manifest_runtime_error, crypto_response) res" where
  "process_request child request =
     (case child request of
        ChildGone \<Rightarrow> Err MStateUnavailable
      | ChildGarbled \<Rightarrow> Err MCorruptPersistence
      | ChildSays response \<Rightarrow> if cr_error response \<noteq> None then Err MUnsupportedOperator else Ok response)"

definition process_evaluate ::
  "child_process \<Rightarrow> string \<Rightarrow> manifest_value list \<Rightarrow> (manifest_runtime_error, manifest_value) res"
where
  "process_evaluate child opcode args =
     bindR (process_request child (CrEvaluate opcode (map wire_from_manifest args))) (\<lambda>response.
     bindR (ok_or MCorruptPersistence (cr_value response)) wire_into_manifest)"

definition process_secret_bool :: "child_process \<Rightarrow> manifest_value \<Rightarrow> (manifest_runtime_error, bool) res" where
  "process_secret_bool child v =
     bindR (process_request child (CrSecretBool (wire_from_manifest v))) (\<lambda>response.
       ok_or MCorruptPersistence (cr_boolean response))"

definition process_pick :: "child_process \<Rightarrow> manifest_value \<Rightarrow> (manifest_runtime_error, manifest_value) res" where
  "process_pick child v =
     bindR (process_request child (CrPick (wire_from_manifest v))) (\<lambda>response.
     bindR (ok_or MCorruptPersistence (cr_value response)) wire_into_manifest)"

definition process_manifest_backend :: "child_process \<Rightarrow> manifest_crypto_backend" where
  "process_manifest_backend child =
     \<lparr>mb_evaluate = process_evaluate child, mb_secret_bool = process_secret_bool child, mb_pick = process_pick child\<rparr>"

section \<open>The service\<close>

text \<open>\<open>to_string\<close> of an error.\<close>

fun manifest_error_name :: "manifest_runtime_error \<Rightarrow> string" where
  "manifest_error_name MFunctionNotFound = ''FunctionNotFound''"
| "manifest_error_name MMissingInput = ''MissingInput''"
| "manifest_error_name MTypeMismatch = ''TypeMismatch''"
| "manifest_error_name MUnknownReference = ''UnknownReference''"
| "manifest_error_name MInvalidManifest = ''InvalidManifest''"
| "manifest_error_name MInvalidStateKey = ''InvalidStateKey''"
| "manifest_error_name MInvalidValue = ''InvalidValue''"
| "manifest_error_name MStateNotFound = ''StateNotFound''"
| "manifest_error_name MStateUnavailable = ''StateUnavailable''"
| "manifest_error_name MUnsupportedOperator = ''UnsupportedOperator''"
| "manifest_error_name MPolicyRejected = ''PolicyRejected''"
| "manifest_error_name MOverflow = ''Overflow''"
| "manifest_error_name MUnderflow = ''Underflow''"
| "manifest_error_name MPersistenceFailure = ''PersistenceFailure''"
| "manifest_error_name MCorruptPersistence = ''CorruptPersistence''"
| "manifest_error_name MCursorMismatch = ''CursorMismatch''"

definition manifest_error_text :: "manifest_runtime_error \<Rightarrow> string" where
  "manifest_error_text e = ''manifest runtime failed: '' @ manifest_error_name e"

definition service_result :: "manifest_crypto_backend \<Rightarrow> crypto_request \<Rightarrow> (manifest_runtime_error, crypto_response) res" where
  "service_result MB request =
     (case request of
        CrEvaluate opcode args \<Rightarrow>
          bindR (mapR wire_into_manifest args) (\<lambda>args. bindR (mb_evaluate MB opcode args) (\<lambda>v. Ok (response_value v)))
      | CrSecretBool w \<Rightarrow> bindR (wire_into_manifest w) (\<lambda>v. bindR (mb_secret_bool MB v) (\<lambda>b. Ok (response_boolean b)))
      | CrPick w \<Rightarrow> bindR (wire_into_manifest w) (\<lambda>v. bindR (mb_pick MB v) (\<lambda>v. Ok (response_value v))))"

definition service_handle :: "manifest_crypto_backend \<Rightarrow> crypto_request \<Rightarrow> (manifest_runtime_error, crypto_response) res" where
  "service_handle MB request =
     (case service_result MB request of
        Ok response \<Rightarrow> Ok response
      | Err e \<Rightarrow> Ok (response_error (manifest_error_text e))
      | Panic \<Rightarrow> Panic)"

text \<open>The child that runs the service: one response per line of the requests, until a panic ends it.\<close>

definition served_by :: "manifest_crypto_backend \<Rightarrow> child_process" where
  "served_by MB request =
     (case service_handle MB request of Ok response \<Rightarrow> ChildSays response | _ \<Rightarrow> ChildGone)"

section \<open>What the daemon sees of a served backend\<close>

text \<open>The values \<open>from_backend_parts\<close> accepts, which are those that cross the pipe.\<close>

definition portable :: "manifest_value \<Rightarrow> bool" where
  "portable v \<longleftrightarrow> mv_from_backend_parts (mv_type v) (mv_bytes v) = Ok v"

lemma portable_iff:
  "portable v \<longleftrightarrow> mv_type v = TAddress \<and> length (mv_bytes v) = 20 \<or> mv_type v = TUint \<and> length (mv_bytes v) = 16
     \<or> mv_type v \<in> {TFheUint, TFheBool, TSint, TSecretBool, TOpened} \<and> mv_bytes v \<noteq> []"
  by (auto simp: portable_def mv_from_backend_parts_def)

lemma wire_round_trip:
  "wire_into_manifest (wire_from_manifest v) = (if portable v then Ok v else Err MInvalidValue)"
  by (auto simp: wire_into_manifest_def wire_from_manifest_def mv_from_backend_parts_def portable_iff)

lemma wires_round_trip: "list_all portable vs \<Longrightarrow> mapR wire_into_manifest (map wire_from_manifest vs) = Ok vs"
  by (induction vs) (simp_all add: wire_round_trip)

lemma wires_rejected: "\<not> list_all portable vs \<Longrightarrow> mapR wire_into_manifest (map wire_from_manifest vs) = Err MInvalidValue"
  by (induction vs) (auto simp: wire_round_trip wires_round_trip)

text \<open>
  Seen through the pipe: every error of the service is \<open>MUnsupportedOperator\<close>, a panic ends the child, and a
  value that does not cross the pipe is invalid.
\<close>

definition through_pipe :: "('a \<Rightarrow> bool) \<Rightarrow> (manifest_runtime_error, 'a) res \<Rightarrow> (manifest_runtime_error, 'a) res" where
  "through_pipe crosses r =
     (case r of
        Ok v \<Rightarrow> if crosses v then Ok v else Err MInvalidValue
      | Err _ \<Rightarrow> Err MUnsupportedOperator
      | Panic \<Rightarrow> Err MStateUnavailable)"

text \<open>
  C39. A backend behind the crypto process computes what it computes inside the daemon.  On arguments that
  cross the pipe the results are the same; every error of the backend becomes \<open>UnsupportedOperator\<close>, an
  overflow included; a panic ends the child and is \<open>StateUnavailable\<close>; a result that cannot cross is
  \<open>InvalidValue\<close>.  On an argument that cannot cross, the operation is refused and never panics.
\<close>

theorem process_backend_equivalent:
  "mb_evaluate (process_manifest_backend (served_by MB)) opcode args =
     (if list_all portable args then through_pipe portable (mb_evaluate MB opcode args) else Err MUnsupportedOperator)
   \<and> mb_secret_bool (process_manifest_backend (served_by MB)) v =
     (if portable v then through_pipe (\<lambda>_. True) (mb_secret_bool MB v) else Err MUnsupportedOperator)
   \<and> mb_pick (process_manifest_backend (served_by MB)) v =
     (if portable v then through_pipe portable (mb_pick MB v) else Err MUnsupportedOperator)"
proof (intro conjI)
  show "mb_evaluate (process_manifest_backend (served_by MB)) opcode args =
     (if list_all portable args then through_pipe portable (mb_evaluate MB opcode args) else Err MUnsupportedOperator)"
  proof (cases "list_all portable args")
    case True
    then show ?thesis
      by (cases "mb_evaluate MB opcode args")
        (simp_all add: process_manifest_backend_def process_evaluate_def process_request_def served_by_def service_handle_def
          service_result_def wires_round_trip through_pipe_def response_value_def response_error_def wire_round_trip)
  next
    case False
    then show ?thesis
      by (simp add: process_manifest_backend_def process_evaluate_def process_request_def served_by_def service_handle_def
          service_result_def wires_rejected response_error_def)
  qed
  show "mb_secret_bool (process_manifest_backend (served_by MB)) v =
     (if portable v then through_pipe (\<lambda>_. True) (mb_secret_bool MB v) else Err MUnsupportedOperator)"
    by (cases "mb_secret_bool MB v")
      (simp_all add: process_manifest_backend_def process_secret_bool_def process_request_def served_by_def service_handle_def
        service_result_def wire_round_trip through_pipe_def response_boolean_def response_error_def)
  show "mb_pick (process_manifest_backend (served_by MB)) v =
     (if portable v then through_pipe portable (mb_pick MB v) else Err MUnsupportedOperator)"
    by (cases "mb_pick MB v")
      (simp_all add: process_manifest_backend_def process_pick_def process_request_def served_by_def service_handle_def
        service_result_def wire_round_trip through_pipe_def response_value_def response_error_def)
qed

end
