(* ===== verification/Upload.thy ===== *)
theory Upload
  imports Manifest_Daemon "HOL-Library.Sublist"
begin

text \<open>
  The upload protocol: \<open>runtime/src/manifest_upload.rs\<close> and the connection handler of
  \<open>bin/manifest_committee_daemon.rs\<close>.

  Keccak-256 (the \<open>tiny_keccak\<close> crate) and the JSON reader (\<open>serde_json\<close>) are parameters.  A TCP stream is
  the list of what each \<open>read\<close> returns: some bytes, at most 8192, or an error; no bytes is the end.
\<close>

section \<open>Requests\<close>

datatype upload_value_type = UFheUint | USint

fun upload_manifest_type :: "upload_value_type \<Rightarrow> value_type" where
  "upload_manifest_type UFheUint = TFheUint"
| "upload_manifest_type USint = TSint"

fun upload_tag :: "upload_value_type \<Rightarrow> u8" where
  "upload_tag UFheUint = 1"
| "upload_tag USint = 2"

definition MAX_UPLOAD_BYTES :: nat where
  "MAX_UPLOAD_BYTES = 16 * 1024 * 1024"

record signed_upload_request =
  su_owner :: string
  su_value_type :: upload_value_type
  su_payload :: string
  su_nonce :: u64
  su_deadline :: u64
  su_signature :: string

record validated_upload =
  vu_owner :: bytes
  vu_data_id :: bytes
  vu_commitment :: bytes
  vu_value :: manifest_value

type_synonym hash = "bytes \<Rightarrow> bytes"

definition upload_id_preimage ::
  "bytes \<Rightarrow> bytes \<Rightarrow> bytes \<Rightarrow> upload_value_type \<Rightarrow> bytes \<Rightarrow> u64 \<Rightarrow> bytes"
where
  "upload_id_preimage control contract owner ty commitment nonce =
     ascii ''PPSC_MANIFEST_INPUT_ID_V1'' @ control @ contract @ owner @ [upload_tag ty] @ commitment @ u64_be nonce"

definition upload_data_id ::
  "hash \<Rightarrow> bytes \<Rightarrow> bytes \<Rightarrow> bytes \<Rightarrow> upload_value_type \<Rightarrow> bytes \<Rightarrow> u64 \<Rightarrow> bytes"
where
  "upload_data_id keccak control contract owner ty commitment nonce =
     keccak (upload_id_preimage control contract owner ty commitment nonce)"

definition signing_preimage ::
  "bytes \<Rightarrow> bytes \<Rightarrow> bytes \<Rightarrow> upload_value_type \<Rightarrow> bytes \<Rightarrow> bytes \<Rightarrow> u64 \<Rightarrow> u64 \<Rightarrow> bytes"
where
  "signing_preimage control contract owner ty commitment data_id nonce deadline =
     ascii ''PPSC_MANIFEST_UPLOAD_AUTH_V1'' @ control @ contract @ owner @ [upload_tag ty] @ commitment @ data_id
       @ u64_be nonce @ u64_be deadline"

definition upload_signing_digest ::
  "hash \<Rightarrow> bytes \<Rightarrow> bytes \<Rightarrow> bytes \<Rightarrow> upload_value_type \<Rightarrow> bytes \<Rightarrow> bytes \<Rightarrow> u64 \<Rightarrow> u64 \<Rightarrow> bytes"
where
  "upload_signing_digest keccak control contract owner ty commitment data_id nonce deadline =
     keccak (signing_preimage control contract owner ty commitment data_id nonce deadline)"

definition validate_payload ::
  "hash \<Rightarrow> bytes \<Rightarrow> bytes \<Rightarrow> signed_upload_request \<Rightarrow> (manifest_runtime_error, validated_upload) res"
where
  "validate_payload keccak control contract req =
     bindR (decode_fixed 20 (su_owner req)) (\<lambda>owner.
     bindR (decode_hex (su_payload req)) (\<lambda>payload.
       if payload = [] \<or> length payload > MAX_UPLOAD_BYTES then Err MInvalidValue
       else let commitment = keccak payload;
                data_id = upload_data_id keccak control contract owner (su_value_type req) commitment (su_nonce req) in
         bindR (mv_from_backend_parts (upload_manifest_type (su_value_type req)) payload) (\<lambda>v.
           Ok \<lparr>vu_owner = owner, vu_data_id = data_id, vu_commitment = commitment, vu_value = v\<rparr>)))"

definition signing_digest ::
  "hash \<Rightarrow> bytes \<Rightarrow> bytes \<Rightarrow> signed_upload_request \<Rightarrow> (manifest_runtime_error, bytes) res"
where
  "signing_digest keccak control contract req =
     bindR (validate_payload keccak control contract req) (\<lambda>v.
       Ok (upload_signing_digest keccak control contract (vu_owner v) (su_value_type req) (vu_commitment v) (vu_data_id v)
         (su_nonce req) (su_deadline req)))"

section \<open>Reading a request from a stream\<close>

type_synonym byte_stream = "bytes option list"

definition find_subslice :: "bytes \<Rightarrow> bytes \<Rightarrow> nat option" where
  "find_subslice haystack needle =
     List.find (\<lambda>i. take (length needle) (drop i haystack) = needle) [0 ..< length haystack + 1 - length needle]"

definition crlf :: string where
  "crlf = [CHR 0x0D, CHR 0x0A]"

definition header_mark :: bytes where
  "header_mark = ascii (crlf @ crlf)"

primrec read_headers :: "byte_stream \<Rightarrow> bytes \<Rightarrow> (string, nat \<times> bytes \<times> byte_stream) res" where
  "read_headers [] bytes = Err ''incomplete request''"
| "read_headers (chunk # stream) bytes =
     (case chunk of
        None \<Rightarrow> Err ''read failed''
      | Some c \<Rightarrow>
          if c = [] then Err ''incomplete request''
          else if length (bytes @ c) > MAX_UPLOAD_BYTES + 8192 then Err ''request too large''
          else case find_subslice (bytes @ c) header_mark of
            Some i \<Rightarrow> Ok (i + 4, bytes @ c, stream)
          | None \<Rightarrow> read_headers stream (bytes @ c))"

primrec read_body :: "nat \<Rightarrow> byte_stream \<Rightarrow> bytes \<Rightarrow> (string, bytes) res" where
  "read_body want [] bytes = (if length bytes < want then Err ''incomplete body'' else Ok bytes)"
| "read_body want (chunk # stream) bytes =
     (if \<not> length bytes < want then Ok bytes
      else case chunk of
        None \<Rightarrow> Err ''read failed''
      | Some c \<Rightarrow> if c = [] then Err ''incomplete body'' else read_body want stream (bytes @ c))"

text \<open>\<open>str::lines\<close>: a line ends with a line feed, which may follow a carriage return.\<close>

definition strip_cr :: "string \<Rightarrow> string" where
  "strip_cr s = (if s \<noteq> [] \<and> last s = CHR 0x0D then butlast s else s)"

fun lines_loop :: "string \<Rightarrow> string \<Rightarrow> string list" where
  "lines_loop line [] = (if line = [] then [] else [line])"
| "lines_loop line (c # s) = (if c = CHR 0x0A then strip_cr line # lines_loop [] s else lines_loop (line @ [c]) s)"

definition str_lines :: "string \<Rightarrow> string list" where
  "str_lines s = lines_loop [] s"

fun split_once :: "char \<Rightarrow> string \<Rightarrow> (string \<times> string) option" where
  "split_once d [] = None"
| "split_once d (c # s) = (if c = d then Some ([], s) else map_option (\<lambda>(a, b). (c # a, b)) (split_once d s))"

definition ascii_lower :: "char \<Rightarrow> char" where
  "ascii_lower c = (let n = of_char c :: nat in if 65 \<le> n \<and> n \<le> 90 then char_of (n + 32) else c)"

definition eq_ignore_ascii_case :: "string \<Rightarrow> string \<Rightarrow> bool" where
  "eq_ignore_ascii_case a b \<longleftrightarrow> map ascii_lower a = map ascii_lower b"

text \<open>\<open>str::parse::<usize>\<close>.\<close>

definition decimal_value :: "string \<Rightarrow> nat" where
  "decimal_value ds = fold (\<lambda>c n. 10 * n + (of_char c - 48)) ds (0 :: nat)"

definition parse_usize :: "string \<Rightarrow> nat option" where
  "parse_usize s =
     (let ds = (case s of c # cs \<Rightarrow> if c = CHR ''+'' then cs else s | [] \<Rightarrow> s) in
      if ds = [] \<or> \<not> list_all is_digit ds \<or> 2 ^ 64 \<le> decimal_value ds then None else Some (decimal_value ds))"

definition header_length :: "string \<Rightarrow> nat option" where
  "header_length line =
     (case split_once (CHR '':'') line of
        None \<Rightarrow> None
      | Some (name, v) \<Rightarrow> if eq_ignore_ascii_case name ''content-length'' then parse_usize (str_trim v) else None)"

primrec find_map :: "('a \<Rightarrow> 'b option) \<Rightarrow> 'a list \<Rightarrow> 'b option" where
  "find_map f [] = None"
| "find_map f (x # xs) = (case f x of Some y \<Rightarrow> Some y | None \<Rightarrow> find_map f xs)"

definition parse_headers :: "bytes \<Rightarrow> (string, nat) res" where
  "parse_headers head =
     (if \<not> utf8_ok head then Err ''invalid headers''
      else let ls = str_lines (map (\<lambda>b. char_of (unat b)) head) in
        case ls of
          [] \<Rightarrow> Err ''missing request line''
        | request_line # _ \<Rightarrow>
            if request_line \<noteq> ''POST /v1/inputs HTTP/1.1'' then Err ''expected POST /v1/inputs''
            else bindR (ok_or ''missing content-length'' (find_map header_length ls)) (\<lambda>n.
              if n > MAX_UPLOAD_BYTES then Err ''request too large'' else Ok n))"

definition read_http_upload ::
  "(bytes \<Rightarrow> signed_upload_request option) \<Rightarrow> byte_stream \<Rightarrow> (string, signed_upload_request) res"
where
  "read_http_upload from_json stream =
     bindR (read_headers stream []) (\<lambda>(header_end, bytes, stream).
     bindR (parse_headers (take header_end bytes)) (\<lambda>content_length.
     bindR (read_body (header_end + content_length) stream bytes) (\<lambda>bytes.
       ok_or ''invalid json'' (from_json (take content_length (drop header_end bytes))))))"

section \<open>The handler\<close>

record upload_response =
  ur_data_id :: string
  ur_status :: string

text \<open>
  \<open>handle_upload_connection\<close>: \<open>now\<close> is the clock, \<open>verify\<close> the external signature check.  The result is the
  body of a 202 or 400 response.
\<close>

definition handle_upload_connection ::
  "hash \<Rightarrow> (bytes \<Rightarrow> signed_upload_request option) \<Rightarrow> (string \<Rightarrow> string \<Rightarrow> string \<Rightarrow> bool) \<Rightarrow> (string, u64) res \<Rightarrow>
   string \<Rightarrow> bytes \<Rightarrow> bytes \<Rightarrow> byte_stream \<Rightarrow> database \<Rightarrow> (string, upload_response) res \<times> database"
where
  "handle_upload_connection keccak from_json verify now control_text control contract stream db =
     then_do (read_http_upload from_json stream, db) (\<lambda>req db.
     then_do (now, db) (\<lambda>now db.
       if su_deadline req < now then (Err ''upload authorization expired'', db)
       else then_do (mapE (\<lambda>_. ''invalid upload'') (validate_payload keccak control contract req), db) (\<lambda>v db.
       then_do (mapE (\<lambda>_. ''invalid upload'') (signing_digest keccak control contract req), db) (\<lambda>digest db.
         if \<not> verify (su_owner req) (hex_text digest) (su_signature req) then (Err ''invalid owner signature'', db)
         else let (r, db) = enqueue_upload contract control_text (vu_owner v) (su_nonce req) (su_deadline req)
                (vu_data_id v) (vu_commitment v) (vu_value v) db in
           then_do (mapE (\<lambda>_. ''upload nonce or data id already used'') r, db) (\<lambda>_ db.
             (Ok \<lparr>ur_data_id = hex_text (vu_data_id v), ur_status = ''accepted''\<rparr>, db))))))"

section \<open>Identifiers and digests\<close>

lemma append_same_length: "length a = length b \<Longrightarrow> a @ x = b @ y \<longleftrightarrow> a = b \<and> x = y"
  by simp

lemma u64_be_inj: "u64_be a = u64_be b \<longleftrightarrow> a = b"
proof
  assume "u64_be a = u64_be b"
  moreover have "be_value (u64_be n) = unat n" for n
    using unat_bound [of n] by (simp add: u64_be_def be_value_be_bytes)
  ultimately show "a = b" by (metis word_unat_eq_iff)
qed simp

lemma upload_tag_inj: "upload_tag a = upload_tag b \<longleftrightarrow> a = b"
  by (cases a; cases b) simp_all

text \<open>An upload's identifier names its whole content: two uploads to the same or different contracts get the
  same data identifier only if they agree in control address, contract, owner, representation, commitment and
  nonce, or if Keccak-256 collides on the two byte strings that are hashed; the signing digest binds the
  identifier and the deadline in the same way; and no identifier is ever hashed from the bytes of a digest.
\<close>

theorem upload_ids_bind_content:
  assumes "length control = 20" "length contract = 32" "length owner = 20" "length commitment = 32" "length data_id = 32"
    and "length control' = 20" "length contract' = 32" "length owner' = 20" "length commitment' = 32" "length data_id' = 32"
  shows "(upload_data_id keccak control contract owner ty commitment nonce
        = upload_data_id keccak control' contract' owner' ty' commitment' nonce' \<longrightarrow>
      (control, contract, owner, ty, commitment, nonce) = (control', contract', owner', ty', commitment', nonce')
      \<or> (\<exists>x y. x \<noteq> y \<and> keccak x = keccak y
            \<and> x = upload_id_preimage control contract owner ty commitment nonce
            \<and> y = upload_id_preimage control' contract' owner' ty' commitment' nonce'))
    \<and> (upload_signing_digest keccak control contract owner ty commitment data_id nonce deadline
        = upload_signing_digest keccak control' contract' owner' ty' commitment' data_id' nonce' deadline' \<longrightarrow>
      (control, contract, owner, ty, commitment, data_id, nonce, deadline)
        = (control', contract', owner', ty', commitment', data_id', nonce', deadline')
      \<or> (\<exists>x y. x \<noteq> y \<and> keccak x = keccak y
            \<and> x = signing_preimage control contract owner ty commitment data_id nonce deadline
            \<and> y = signing_preimage control' contract' owner' ty' commitment' data_id' nonce' deadline'))
    \<and> upload_id_preimage control contract owner ty commitment nonce
        \<noteq> signing_preimage control' contract' owner' ty' commitment' data_id' nonce' deadline'"
proof (intro conjI impI)
  have ids: "upload_id_preimage control contract owner ty commitment nonce
      = upload_id_preimage control' contract' owner' ty' commitment' nonce' \<Longrightarrow>
      (control, contract, owner, ty, commitment, nonce) = (control', contract', owner', ty', commitment', nonce')"
    using assms by (simp add: upload_id_preimage_def append_same_length upload_tag_inj u64_be_inj)
  have digests: "signing_preimage control contract owner ty commitment data_id nonce deadline
      = signing_preimage control' contract' owner' ty' commitment' data_id' nonce' deadline' \<Longrightarrow>
      (control, contract, owner, ty, commitment, data_id, nonce, deadline)
        = (control', contract', owner', ty', commitment', data_id', nonce', deadline')"
    using assms by (simp add: signing_preimage_def append_same_length upload_tag_inj u64_be_inj)
  show "(control, contract, owner, ty, commitment, nonce) = (control', contract', owner', ty', commitment', nonce')
      \<or> (\<exists>x y. x \<noteq> y \<and> keccak x = keccak y
            \<and> x = upload_id_preimage control contract owner ty commitment nonce
            \<and> y = upload_id_preimage control' contract' owner' ty' commitment' nonce')"
    if "upload_data_id keccak control contract owner ty commitment nonce
        = upload_data_id keccak control' contract' owner' ty' commitment' nonce'"
    using ids that unfolding upload_data_id_def by blast
  show "(control, contract, owner, ty, commitment, data_id, nonce, deadline)
        = (control', contract', owner', ty', commitment', data_id', nonce', deadline')
      \<or> (\<exists>x y. x \<noteq> y \<and> keccak x = keccak y
            \<and> x = signing_preimage control contract owner ty commitment data_id nonce deadline
            \<and> y = signing_preimage control' contract' owner' ty' commitment' data_id' nonce' deadline')"
    if "upload_signing_digest keccak control contract owner ty commitment data_id nonce deadline
        = upload_signing_digest keccak control' contract' owner' ty' commitment' data_id' nonce' deadline'"
    using digests that unfolding upload_signing_digest_def by blast
  have "length (upload_id_preimage control contract owner ty commitment nonce) \<noteq>
      length (signing_preimage control' contract' owner' ty' commitment' data_id' nonce' deadline')"
    using assms by (simp add: upload_id_preimage_def signing_preimage_def)
  then show "upload_id_preimage control contract owner ty commitment nonce
        \<noteq> signing_preimage control' contract' owner' ty' commitment' data_id' nonce' deadline'" by metis
qed

theorem upload_ids_bind_content_witness:
  "upload_data_id (\<lambda>x. x) (replicate 20 1) (replicate 32 2) (replicate 20 3) UFheUint (replicate 32 4) 1
     \<noteq> upload_data_id (\<lambda>x. x) (replicate 20 1) (replicate 32 2) (replicate 20 3) UFheUint (replicate 32 4) 2"
  using upload_ids_bind_content [of "replicate 20 1" "replicate 32 2" "replicate 20 3" "replicate 32 4" "replicate 32 5"
      "replicate 20 1" "replicate 32 2" "replicate 20 3" "replicate 32 4" "replicate 32 5" "\<lambda>x. x" UFheUint 1 UFheUint 2]
  by simp

section \<open>Storing an upload\<close>

lemma insert_input_Ok:
  assumes "insert_input data_id code payload db = (Ok inserted, db')"
  shows "(if inserted then db_inputs db data_id = None
            \<and> tables db' = tables (db\<lparr>db_inputs := (db_inputs db)(data_id \<mapsto> \<lparr>ir_type = code, ir_payload = payload\<rparr>)\<rparr>)
          else db_inputs db data_id \<noteq> None \<and> tables db' = tables db)"
  using statement_Ok [OF assms [unfolded insert_input_def]] by (auto simp: tables_def split: if_splits)

lemma insert_upload_Ok:
  assumes "insert_upload row db = (Ok queued, db')"
  shows "(if queued then \<not> list_ex (upload_conflicts row) (db_uploads db) \<and> tables db' = tables (db\<lparr>db_uploads := db_uploads db @ [row]\<rparr>)
          else list_ex (upload_conflicts row) (db_uploads db) \<and> tables db' = tables db)"
  using statement_Ok [OF assms [unfolded insert_upload_def]] by (auto simp: tables_def split: if_splits)

definition queued_upload :: "string \<Rightarrow> bytes \<Rightarrow> bytes \<Rightarrow> int \<Rightarrow> upload_row \<Rightarrow> bool" where
  "queued_upload control contract owner nonce u \<longleftrightarrow>
     up_control u = control \<and> up_contract u = contract \<and> up_owner u = owner \<and> up_nonce u = nonce"

lemma find_snoc: "\<not> list_ex P xs \<Longrightarrow> P x \<Longrightarrow> List.find P (xs @ [x]) = Some x"
  by (induction xs) auto

lemma found_member: "List.find P xs = Some x \<Longrightarrow> x \<in> set xs \<and> P x"
  by (induction xs) (auto split: if_splits)

lemma statement_check:
  assumes "statement (\<lambda>db. (f db, db)) db = (Ok x, db')" and "\<And>db fs. f (db\<lparr>db_faults := fs\<rparr>) = f db"
  shows "f db = Ok x \<and> tables db' = tables db"
  using statement_Ok [OF assms(1)] assms(2) by auto

definition new_upload :: "bytes \<Rightarrow> string \<Rightarrow> bytes \<Rightarrow> int \<Rightarrow> int \<Rightarrow> bytes \<Rightarrow> bytes \<Rightarrow> int \<Rightarrow> nat \<Rightarrow> upload_row" where
  "new_upload contract control owner nonce deadline data_id commitment code clock =
     \<lparr>up_control = control, up_contract = contract, up_data_id = data_id, up_owner = owner, up_nonce = nonce,
      up_deadline = deadline, up_type = code, up_commitment = commitment, up_registered = False,
      up_attempts = 0, up_last_error = None, up_created_at = clock\<rparr>"

text \<open>What an accepted upload has left in the tables, whether it is new or a repetition.\<close>

lemma enqueue_upload_Ok:
  assumes run: "enqueue_upload contract control owner nonce deadline data_id commitment v db = (Ok u, db')"
  shows "\<exists>code row. value_type_code (mv_type v) = Ok code
    \<and> db_inputs db data_id \<in> {None, Some \<lparr>ir_type = code, ir_payload = mv_bytes v\<rparr>}
    \<and> List.find (queued_upload control contract owner (int (unat nonce))) (db_uploads db') = Some row
    \<and> up_data_id row = data_id \<and> up_type row = code \<and> up_commitment row = commitment
    \<and> (db_uploads db' = db_uploads db \<or> db_uploads db' = db_uploads db @ [row])
    \<and> tables db' = tables (db\<lparr>db_inputs := (db_inputs db)(data_id \<mapsto> \<lparr>ir_type = code, ir_payload = mv_bytes v\<rparr>),
        db_uploads := db_uploads db'\<rparr>)"
proof -
  define n where "n = int (unat nonce)"
  define d where "d = int (unat deadline)"
  obtain code where code: "value_type_code (mv_type v) = Ok code"
    using run by (cases "value_type_code (mv_type v)") (auto simp: enqueue_upload_def)
  define entry where "entry = \<lparr>ir_type = code, ir_payload = mv_bytes v\<rparr>"
  define known where "known = (\<lambda>db :: database. bindR (ok_or MPersistenceFailure (db_inputs db data_id)) (\<lambda>row.
      if ir_type row \<noteq> code \<or> ir_payload row \<noteq> mv_bytes v then Err MInvalidValue else Ok ()))"
  define repeated where "repeated = (\<lambda>db :: database. bindR (ok_or MInvalidValue (List.find (\<lambda>u. up_control u = control \<and> up_contract u = contract
      \<and> up_owner u = owner \<and> up_nonce u = n) (db_uploads db))) (\<lambda>row.
      if up_data_id row \<noteq> data_id \<or> up_type row \<noteq> code \<or> up_commitment row \<noteq> commitment then Err MInvalidValue else Ok ()))"
  define body where "body = (\<lambda>db. then_do (insert_input data_id code (mv_bytes v) db) (\<lambda>inserted db.
      then_do (if inserted then (Ok (), db) else statement (\<lambda>db. (known db, db)) db) (\<lambda>_ db.
      then_do (insert_upload (new_upload contract control owner n d data_id commitment code (db_clock db)) db) (\<lambda>queued db.
        if queued then (Ok (), db) else statement (\<lambda>db. (repeated db, db)) db))))"
  have "transaction body db = (Ok u, db')"
    using run code unfolding body_def known_def repeated_def new_upload_def n_def d_def
    by (auto simp: enqueue_upload_def i64_of_u64_def simp del: of_nat_unat split: if_splits)
  then obtain fs db4 where body4: "body (db\<lparr>db_faults := fs\<rparr>) = (Ok u, db4)" and end4: "tables db' = tables db4"
    by (cases rule: transaction_cases [of body db]) auto
  obtain inserted db1 db2 queued db3 where steps: "insert_input data_id code (mv_bytes v) (db\<lparr>db_faults := fs\<rparr>) = (Ok inserted, db1)"
      "(if inserted then (Ok (), db1) else statement (\<lambda>db. (known db, db)) db1) = (Ok (), db2)"
      "insert_upload (new_upload contract control owner n d data_id commitment code (db_clock db2)) db2 = (Ok queued, db3)"
      "(if queued then (Ok (), db3) else statement (\<lambda>db. (repeated db, db)) db3) = (Ok u, db4)"
    using body4 unfolding body_def by (auto simp: then_do_Ok)
  have known_faults: "known (db\<lparr>db_faults := fs\<rparr>) = known db" for db fs by (simp add: known_def)
  have repeated_faults: "repeated (db\<lparr>db_faults := fs\<rparr>) = repeated db" for db fs by (simp add: repeated_def)
  have t1: "db_inputs db data_id \<in> {None, Some entry} \<and> tables db2 = tables (db\<lparr>db_inputs := (db_inputs db)(data_id \<mapsto> entry)\<rparr>)"
  proof (cases inserted)
    case True
    then show ?thesis using insert_input_Ok [OF steps(1)] steps(2) by (simp add: entry_def tables_def)
  next
    case False
    have same: "tables db1 = tables db" using insert_input_Ok [OF steps(1)] False by simp
    have chk: "known db1 = Ok ()" "tables db2 = tables db1"
      using statement_check [of known db1 "()" db2] steps(2) False known_faults by auto
    have "db_inputs db1 data_id = Some entry"
      using chk(1) by (cases "db_inputs db1 data_id") (auto simp: known_def entry_def split: if_splits)
    then have "db_inputs db data_id = Some entry" using tables_eqD(2) [OF same] by simp
    moreover then have "(db_inputs db)(data_id \<mapsto> entry) = db_inputs db" by (rule fun_upd_idem)
    ultimately show ?thesis using same chk(2) by (simp add: tables_def)
  qed
  define row0 where "row0 = new_upload contract control owner n d data_id commitment code (db_clock db2)"
  let ?find = "List.find (queued_upload control contract owner n)"
  have "\<exists>row. ?find (db_uploads db4) = Some row \<and> up_data_id row = data_id
      \<and> up_type row = code \<and> up_commitment row = commitment
      \<and> (db_uploads db4 = db_uploads db2 \<or> db_uploads db4 = db_uploads db2 @ [row])
      \<and> tables db4 = tables (db2\<lparr>db_uploads := db_uploads db4\<rparr>)"
  proof (cases queued)
    case True
    then have "tables db4 = tables (db2\<lparr>db_uploads := db_uploads db2 @ [row0]\<rparr>)"
      using insert_upload_Ok [OF steps(3)] steps(4) by (simp add: row0_def)
    moreover from tables_eqD(6) [OF this] have ups: "db_uploads db4 = db_uploads db2 @ [row0]" by simp
    moreover have "\<not> list_ex (queued_upload control contract owner n) (db_uploads db2)"
      using insert_upload_Ok [OF steps(3)] True by (auto simp: list_ex_iff upload_conflicts_def new_upload_def queued_upload_def)
    then have "?find (db_uploads db2 @ [row0]) = Some row0"
      by (rule find_snoc) (simp add: row0_def new_upload_def queued_upload_def)
    ultimately show ?thesis by (intro exI [of _ row0]) (simp add: row0_def new_upload_def)
  next
    case False
    have same: "tables db3 = tables db2" using insert_upload_Ok [OF steps(3)] False by simp
    have chk: "repeated db3 = Ok ()" "tables db4 = tables db3"
      using statement_check [of repeated db3 u db4] steps(4) False repeated_faults by auto
    then obtain row where found: "List.find (\<lambda>u. up_control u = control \<and> up_contract u = contract
        \<and> up_owner u = owner \<and> up_nonce u = n) (db_uploads db3) = Some row"
      and same_upload: "up_data_id row = data_id" "up_type row = code" "up_commitment row = commitment"
      by (auto simp: repeated_def split: if_splits)
    note row = found [folded queued_upload_def] same_upload
    have up: "db_uploads db4 = db_uploads db2" "db_uploads db3 = db_uploads db2" using tables_eqD(6) [OF same] tables_eqD(6) [OF chk(2)] by simp_all
    have "tables db4 = tables (db2\<lparr>db_uploads := db_uploads db4\<rparr>)" using same chk(2) up by (simp add: tables_def)
    then show ?thesis using row up by auto
  qed
  then obtain row where row: "?find (db_uploads db4) = Some row" "up_data_id row = data_id"
      "up_type row = code" "up_commitment row = commitment" "db_uploads db4 = db_uploads db2 \<or> db_uploads db4 = db_uploads db2 @ [row]"
      "tables db4 = tables (db2\<lparr>db_uploads := db_uploads db4\<rparr>)" by blast
  have t2: "tables db2 = tables (db\<lparr>db_inputs := (db_inputs db)(data_id \<mapsto> entry)\<rparr>)" using t1 by blast
  have ups: "db_uploads db2 = db_uploads db" using tables_eqD(6) [OF t2] by simp
  have ups': "db_uploads db' = db_uploads db4" by (rule tables_eqD(6) [OF end4])
  have "tables (db2\<lparr>db_uploads := db_uploads db4\<rparr>) = tables (db\<lparr>db_inputs := (db_inputs db)(data_id \<mapsto> entry), db_uploads := db_uploads db4\<rparr>)"
    by (rule tables_eqI) (simp_all add: tables_eqD [OF t2])
  then have "tables db' = tables (db\<lparr>db_inputs := (db_inputs db)(data_id \<mapsto> entry), db_uploads := db_uploads db'\<rparr>)"
    unfolding ups' end4 row(6) .
  then show ?thesis using code t1 row ups ups' unfolding entry_def n_def by (intro exI [of _ code] exI [of _ row]) simp
qed

lemma not_Ok_unchanged:
  assumes "enqueue_upload contract control owner nonce deadline data_id commitment v db = (r, db')" and "\<not> is_ok r"
  shows "tables db' = tables db"
  using assms
  by (cases "value_type_code (mv_type v)")
    (auto simp: enqueue_upload_def i64_of_u64_def intro: transaction_not_Ok split: if_splits)

text \<open>Uploaded inputs are immutable and an upload is idempotent: an accepted upload stores its payload and a
  registration entry for its owner and nonce, changes no input or entry that was already there, and touches
  no other table; repeating it changes nothing and is accepted again; an upload that is refused, because its
  identifier or nonce is taken by other content or because the connection fails, leaves every table as it was.
\<close>

theorem uploads_are_immutable:
  assumes "enqueue_upload contract control owner nonce deadline data_id commitment v db = (r, db')"
  shows "case r of
      Ok _ \<Rightarrow>
        (\<exists>code row. value_type_code (mv_type v) = Ok code \<and> db_inputs db' data_id = Some \<lparr>ir_type = code, ir_payload = mv_bytes v\<rparr>
          \<and> List.find (queued_upload control contract owner (int (unat nonce))) (db_uploads db') = Some row
          \<and> up_data_id row = data_id \<and> up_type row = code \<and> up_commitment row = commitment)
        \<and> db_inputs db \<subseteq>\<^sub>m db_inputs db' \<and> prefix (db_uploads db) (db_uploads db')
        \<and> tables db' = tables (db\<lparr>db_inputs := db_inputs db', db_uploads := db_uploads db'\<rparr>)
        \<and> (db_faults db' = [] \<longrightarrow>
             enqueue_upload contract control owner nonce deadline data_id commitment v db' = (Ok (), db'))
    | _ \<Rightarrow> tables db' = tables db"
proof (cases "is_ok r")
  case False
  then show ?thesis using not_Ok_unchanged [OF assms] by (cases r) auto
next
  case True
  then obtain u where r: "r = Ok u" by (auto simp: is_ok_iff)
  from enqueue_upload_Ok [OF assms [unfolded r]] obtain code row where code: "value_type_code (mv_type v) = Ok code"
    and old: "db_inputs db data_id \<in> {None, Some \<lparr>ir_type = code, ir_payload = mv_bytes v\<rparr>}"
    and found: "List.find (queued_upload control contract owner (int (unat nonce))) (db_uploads db') = Some row"
    and row: "up_data_id row = data_id" "up_type row = code" "up_commitment row = commitment"
    and ups: "db_uploads db' = db_uploads db \<or> db_uploads db' = db_uploads db @ [row]"
    and tab: "tables db' = tables (db\<lparr>db_inputs := (db_inputs db)(data_id \<mapsto> \<lparr>ir_type = code, ir_payload = mv_bytes v\<rparr>),
        db_uploads := db_uploads db'\<rparr>)" by blast
  have inputs: "db_inputs db' = (db_inputs db)(data_id \<mapsto> \<lparr>ir_type = code, ir_payload = mv_bytes v\<rparr>)"
    using tables_eqD(2) [OF tab] by simp
  have grown: "db_inputs db \<subseteq>\<^sub>m db_inputs db'" using old inputs by (auto simp: map_le_def)
  have again: "enqueue_upload contract control owner nonce deadline data_id commitment v db' = (Ok (), db')" if rel: "db_faults db' = []"
  proof -
    have bounds: "unat nonce < 2 ^ 63" "unat deadline < 2 ^ 63"
      using assms [unfolded r] code by (auto simp: enqueue_upload_def i64_of_u64_def split: if_splits)
    have "row \<in> set (db_uploads db')" "queued_upload control contract owner (int (unat nonce)) row" using found_member [OF found] by simp_all
    then have conflict: "list_ex (upload_conflicts (new_upload contract control owner (int (unat nonce)) (int (unat deadline)) data_id
        commitment code (db_clock db'))) (db_uploads db')"
      by (auto simp: list_ex_iff upload_conflicts_def new_upload_def queued_upload_def)
    show ?thesis
      using rel code bounds inputs conflict found row unfolding new_upload_def queued_upload_def
      by (simp add: enqueue_upload_def i64_of_u64_def transaction_def statement_def insert_input_def insert_upload_def del: of_nat_unat)
  qed
  have "tables db' = tables (db\<lparr>db_inputs := db_inputs db', db_uploads := db_uploads db'\<rparr>)" using tab unfolding inputs .
  then show ?thesis using code found row ups grown again r inputs by auto
qed

theorem uploads_are_immutable_witness:
  "snd (enqueue_upload [7] ''c'' [3] 1 9 [5] [6] (fhe_uint 2) (snd (enqueue_upload [7] ''c'' [3] 1 9 [5] [6] (fhe_uint 2) empty_database)))
     = snd (enqueue_upload [7] ''c'' [3] 1 9 [5] [6] (fhe_uint 2) empty_database)
   \<and> db_inputs (snd (enqueue_upload [7] ''c'' [3] 1 9 [5] [6] (fhe_uint 2) empty_database)) [5]
     = Some \<lparr>ir_type = 2, ir_payload = mv_bytes (fhe_uint 2)\<rparr>"
proof -
  define db' where "db' = snd (enqueue_upload [7] ''c'' [3] 1 9 [5] [6] (fhe_uint 2) empty_database)"
  have "enqueue_upload [7] ''c'' [3] 1 9 [5] [6] (fhe_uint 2) empty_database = (Ok (), db') \<and> db_faults db' = []"
    by (simp add: db'_def enqueue_upload_def fhe_uint_def encoded_def i64_of_u64_def transaction_def statement_def
        insert_input_def insert_upload_def empty_database_def)
  then show ?thesis
    using uploads_are_immutable [of "[7]" "''c''" "[3]" 1 9 "[5]" "[6]" "fhe_uint 2" empty_database "Ok ()" db']
    by (simp add: db'_def [symmetric] fhe_uint_def encoded_def)
qed

section \<open>The handler\<close>

text \<open>
  C13. Nothing is stored without the owner's signature: if a connection to the upload listener changes any
  table, then the request it sent had not expired, its payload was valid, the signature check accepted the
  owner's signature on the digest of exactly this content, and what was stored is what \<open>enqueue_upload\<close>
  stores for it; the reply is then the data identifier, and every other reply leaves the tables alone.
\<close>

theorem uploads_are_authorised:
  assumes "handle_upload_connection keccak from_json verify now control_text control contract stream db = (r, db')"
    and "tables db' \<noteq> tables db"
  shows "\<exists>req t v digest. read_http_upload from_json stream = Ok req \<and> now = Ok t \<and> t \<le> su_deadline req
    \<and> validate_payload keccak control contract req = Ok v \<and> signing_digest keccak control contract req = Ok digest
    \<and> verify (su_owner req) (hex_text digest) (su_signature req)
    \<and> enqueue_upload contract control_text (vu_owner v) (su_nonce req) (su_deadline req) (vu_data_id v) (vu_commitment v)
        (vu_value v) db = (Ok (), db')
    \<and> r = Ok \<lparr>ur_data_id = hex_text (vu_data_id v), ur_status = ''accepted''\<rparr>"
proof -
  have read: "is_ok (read_http_upload from_json stream)"
    using assms by (cases "read_http_upload from_json stream") (auto simp: handle_upload_connection_def)
  then obtain req where req: "read_http_upload from_json stream = Ok req" by (auto simp: is_ok_iff)
  obtain t where t: "now = Ok t" using assms req by (cases now) (auto simp: handle_upload_connection_def)
  have time: "\<not> su_deadline req < t" using assms req t by (auto simp: handle_upload_connection_def)
  obtain v where v: "validate_payload keccak control contract req = Ok v"
    using assms req t time by (cases "validate_payload keccak control contract req") (auto simp: handle_upload_connection_def)
  obtain digest where digest: "signing_digest keccak control contract req = Ok digest" using v by (simp add: signing_digest_def)
  have signed: "verify (su_owner req) (hex_text digest) (su_signature req)"
  proof (rule ccontr)
    assume "\<not> ?thesis"
    then show False using assms req t time v digest by (simp add: handle_upload_connection_def)
  qed
  obtain q db1 where enq: "enqueue_upload contract control_text (vu_owner v) (su_nonce req) (su_deadline req) (vu_data_id v)
      (vu_commitment v) (vu_value v) db = (q, db1)" by force
  have end1: "db' = db1" using assms(1) req t time v digest signed enq by (cases q) (auto simp: handle_upload_connection_def)
  then have "is_ok q" using not_Ok_unchanged [OF enq] assms(2) by blast
  then have q: "q = Ok ()" by (auto simp: is_ok_iff)
  have "r = Ok \<lparr>ur_data_id = hex_text (vu_data_id v), ur_status = ''accepted''\<rparr>"
    using assms(1) req t time v digest signed enq q by (simp add: handle_upload_connection_def)
  then show ?thesis using req t time v digest signed enq q end1 by auto
qed

text \<open>Anyone can stop the upload listener: a request whose owner text is a two-character string with a
  three-byte first character, for example, makes the hexadecimal reader slice inside that character and
  panic, before any signature is checked and whatever the rest of the request, the clock and the store are.
\<close>

theorem unauthenticated_request_panics:
  assumes "read_http_upload from_json stream = Ok req" and "su_owner req = [CHR 0xE2, CHR 0x82, CHR 0xAC, CHR ''0'']"
    and "t \<le> su_deadline req"
  shows "handle_upload_connection keccak from_json verify (Ok t) control_text control contract stream db = (Panic, db)"
proof -
  have "validate_payload keccak control contract req = Panic"
    unfolding validate_payload_def decode_fixed_def assms(2) decode_hex_panics by simp
  then show ?thesis using assms(1,3) by (simp add: handle_upload_connection_def)
qed

end
