(* ===== verification/Upload_Framing.thy ===== *)
theory Upload_Framing
  imports Upload
begin

text \<open>
  The HTTP framing of \<open>runtime/src/manifest_upload.rs\<close>: what \<open>post_upload\<close> writes, \<open>read_http_upload\<close> reads,
  however the network cuts it into pieces, and how much it reads of anything else.
\<close>

section \<open>The client's side\<close>

text \<open>The bytes \<open>post_upload\<close> writes to the stream.\<close>

definition upload_head :: "string \<Rightarrow> nat \<Rightarrow> string" where
  "upload_head authority n =
     ''POST /v1/inputs HTTP/1.1'' @ crlf @ ''Host: '' @ authority @ crlf @ ''Content-Type: application/json'' @ crlf
     @ ''Content-Length: '' @ show_nat n @ crlf @ ''Connection: close'' @ crlf @ crlf"

definition upload_request_bytes :: "string \<Rightarrow> bytes \<Rightarrow> bytes" where
  "upload_request_bytes authority body = ascii (upload_head authority (length body)) @ body"

text \<open>The authority and path of \<open>UPLOAD_URL\<close>.\<close>

definition upload_authority :: "string \<Rightarrow> (string, string) res" where
  "upload_authority url =
     bindR (ok_or ''UPLOAD_URL must use http://'' (strip_prefix ''http://'' url)) (\<lambda>address.
       let (authority, path) = (case split_once (CHR ''/'') address of Some p \<Rightarrow> p | None \<Rightarrow> (address, ''v1/inputs'')) in
       if ''/'' @ path \<noteq> ''/v1/inputs'' then Err ''UPLOAD_URL path must be /v1/inputs'' else Ok authority)"

definition post_upload_bytes ::
  "(signed_upload_request \<Rightarrow> bytes option) \<Rightarrow> string \<Rightarrow> signed_upload_request \<Rightarrow> (string, bytes) res"
where
  "post_upload_bytes to_json url req =
     bindR (upload_authority url) (\<lambda>authority.
     bindR (ok_or ''cannot encode request'' (to_json req)) (\<lambda>body. Ok (upload_request_bytes authority body)))"

section \<open>Searching\<close>

lemma find_rec:
  "needle \<noteq> [] \<Longrightarrow> find_subslice [] needle = None"
  "find_subslice (x # xs) needle =
     (if length (x # xs) < length needle then None
      else if take (length needle) (x # xs) = needle then Some 0
      else map_option Suc (find_subslice xs needle))"
proof -
  have shift: "List.find P (map Suc is) = map_option Suc (List.find (\<lambda>i. P (Suc i)) is)" for P :: "nat \<Rightarrow> bool" and "is"
    by (induction "is") simp_all
  show "needle \<noteq> [] \<Longrightarrow> find_subslice [] needle = None" by (cases needle) (simp_all add: find_subslice_def)
  show "find_subslice (x # xs) needle =
     (if length (x # xs) < length needle then None
      else if take (length needle) (x # xs) = needle then Some 0
      else map_option Suc (find_subslice xs needle))"
  proof (cases "length (x # xs) < length needle")
    case False
    then have "[0 ..< length (x # xs) + 1 - length needle] = 0 # map Suc [0 ..< length xs + 1 - length needle]"
      by (simp add: Suc_diff_le map_Suc_upt upt_conv_Cons del: upt_Suc)
    then show ?thesis using False by (simp add: find_subslice_def shift del: upt_Suc)
  qed (simp add: find_subslice_def)
qed

lemma find_subslice_bound: "find_subslice xs needle = Some i \<Longrightarrow> i + length needle \<le> length xs"
  by (drule found_member [OF _, unfolded find_subslice_def] | auto simp: find_subslice_def dest!: found_member)+

lemma find_subslice_prefix:
  assumes "needle \<noteq> []" and "find_subslice (xs @ ys) needle = Some i"
  shows "find_subslice xs needle = (if i + length needle \<le> length xs then Some i else None)"
  using assms(2)
proof (induction xs arbitrary: i)
  case Nil
  then show ?case using assms(1) by (simp add: find_rec)
next
  case (Cons x xs)
  have window: "length needle \<le> length (x # xs) \<longrightarrow> take (length needle) (x # xs @ ys) = take (length needle) (x # xs)"
    using take_append [of "length needle" "x # xs" ys] by simp
  show ?case
  proof (cases "take (length needle) (x # xs @ ys) = needle")
    case True
    then have "i = 0" using Cons.prems by (auto simp: find_rec(2) split: if_splits)
    then show ?thesis using True window by (auto simp: find_rec(2))
  next
    case False
    then obtain j where j: "i = Suc j" "find_subslice (xs @ ys) needle = Some j"
      using Cons.prems by (auto simp: find_rec(2) split: if_splits)
    show ?thesis using Cons.IH [OF j(2)] j(1) False window by (auto simp: find_rec(2) not_less)
  qed
qed

lemma header_mark_eq: "header_mark = [0x0D, 0x0A, 0x0D, 0x0A]"
  by code_simp

lemma find_mark_skip: "x \<noteq> 0x0D \<Longrightarrow> find_subslice (x # xs) header_mark = map_option Suc (find_subslice xs header_mark)"
proof (cases "length xs < 4")
  case True
  then have "find_subslice xs header_mark = None" by (simp add: find_subslice_def header_mark_eq)
  then show "x \<noteq> 0x0D \<Longrightarrow> ?thesis" by (simp add: find_rec(2) header_mark_eq)
qed (simp add: find_rec(2) header_mark_eq)

lemma find_mark_line: "\<forall>x \<in> set l. x \<noteq> 0x0D \<Longrightarrow> find_subslice (l @ xs) header_mark = map_option ((+) (length l)) (find_subslice xs header_mark)"
  by (induction l) (cases "find_subslice xs header_mark"; simp add: find_mark_skip)+

lemma find_mark_crlf: "x \<noteq> 0x0D \<Longrightarrow> find_subslice (0x0D # 0x0A # x # xs) header_mark = map_option ((+) 2) (find_subslice (x # xs) header_mark)"
proof -
  assume x: "x \<noteq> 0x0D"
  have "find_subslice (0x0D # 0x0A # x # xs) header_mark = map_option Suc (find_subslice (0x0A # x # xs) header_mark)"
    using x by (auto simp: find_rec(2) [of "0x0D"] header_mark_eq) (simp_all add: find_subslice_def)
  then show ?thesis by (cases "find_subslice (x # xs) header_mark") (simp_all add: find_mark_skip [of "0x0A"])
qed

section \<open>Reading in pieces\<close>

lemma read_headers_whole:
  assumes mark: "find_subslice (bytes @ concat cs @ rest) header_mark = Some i"
    and pieces: "\<forall>c \<in> set cs. c \<noteq> [] \<and> length c \<le> 8192" and "length bytes < i + 4" and "i + 4 \<le> length (bytes @ concat cs)"
    and "i + 4 \<le> MAX_UPLOAD_BYTES"
  shows "\<exists>ds es. cs = ds @ es \<and> read_headers (map Some cs) bytes = Ok (i + 4, bytes @ concat ds, map Some es)
    \<and> i + 4 \<le> length (bytes @ concat ds)"
  using assms
proof (induction cs arbitrary: bytes)
  case Nil
  then show ?case by simp
next
  case (Cons c cs)
  have c: "c \<noteq> []" "length c \<le> 8192" using Cons.prems(2) by simp_all
  have size: "\<not> length (bytes @ c) > MAX_UPLOAD_BYTES + 8192" using c(2) Cons.prems(3,5) by simp
  have "find_subslice ((bytes @ c) @ concat cs @ rest) header_mark = Some i" using Cons.prems(1) by simp
  from find_subslice_prefix [OF _ this] have here: "find_subslice (bytes @ c) header_mark = (if i + 4 \<le> length (bytes @ c) then Some i else None)"
    by (simp add: header_mark_eq)
  show ?case
  proof (cases "i + 4 \<le> length (bytes @ c)")
    case True
    then show ?thesis using c size here by (intro exI [of _ "[c]"] exI [of _ cs]) simp
  next
    case False
    obtain ds es where "cs = ds @ es" "read_headers (map Some cs) (bytes @ c) = Ok (i + 4, (bytes @ c) @ concat ds, map Some es)"
      "i + 4 \<le> length ((bytes @ c) @ concat ds)"
      using Cons.IH [of "bytes @ c"] Cons.prems False by auto
    then show ?thesis using c size here False by (intro exI [of _ "c # ds"] exI [of _ es]) simp
  qed
qed

lemma read_body_whole:
  assumes "\<forall>c \<in> set cs. c \<noteq> []" and "want \<le> length (bytes @ concat cs)"
  shows "\<exists>ds es. cs = ds @ es \<and> read_body want (map Some cs) bytes = Ok (bytes @ concat ds) \<and> want \<le> length (bytes @ concat ds)"
  using assms
proof (induction cs arbitrary: bytes)
  case (Cons c cs)
  show ?case
  proof (cases "length bytes < want")
    case True
    obtain ds es where "cs = ds @ es" "read_body want (map Some cs) (bytes @ c) = Ok ((bytes @ c) @ concat ds)"
      "want \<le> length ((bytes @ c) @ concat ds)"
      using Cons.IH [of "bytes @ c"] Cons.prems by auto
    then show ?thesis using True Cons.prems(1) by (intro exI [of _ "c # ds"] exI [of _ es]) simp
  next
    case False
    then show ?thesis by (intro exI [of _ "[]"] exI [of _ "c # cs"]) simp
  qed
qed simp

section \<open>The head of a request\<close>

definition printable :: "string \<Rightarrow> bool" where
  "printable s \<longleftrightarrow> list_all (\<lambda>c. 32 \<le> (of_char c :: nat) \<and> (of_char c :: nat) < 127) s"

lemma printable_append [simp]: "printable (s @ t) \<longleftrightarrow> printable s \<and> printable t"
  by (simp add: printable_def)

lemma ascii_append [simp]: "ascii (s @ t) = ascii s @ ascii t"
  by (simp add: ascii_def)

lemma char_of_ascii: "map (\<lambda>b. char_of (unat b)) (ascii s) = s"
  by (induction s) (simp_all add: ascii_def unat_of_nat)

lemma utf8_ok_low: "\<forall>b \<in> set bs. b < 0x80 \<Longrightarrow> utf8_ok bs"
  by (induction bs rule: utf8_ok.induct) auto

lemma ascii_byte: "b \<in> set (ascii s) \<longleftrightarrow> (\<exists>c \<in> set s. b = word_of_nat (of_char c))"
  by (auto simp: ascii_def)

lemma byte_of_char: "unat (word_of_nat (of_char c) :: u8) = of_char c"
  by (simp add: unat_of_nat)

lemma printable_bytes: "printable s \<Longrightarrow> b \<in> set (ascii s) \<Longrightarrow> b \<noteq> 0x0D \<and> b < 0x80"
proof -
  assume "printable s" "b \<in> set (ascii s)"
  then obtain c where "b = word_of_nat (of_char c)" "32 \<le> (of_char c :: nat)" "(of_char c :: nat) < 127"
    by (auto simp: ascii_byte printable_def list_all_iff)
  then have "32 \<le> unat b" "unat b < 127" by (simp_all add: byte_of_char)
  then show ?thesis by (auto simp: word_less_nat_alt)
qed

lemma printable_no_lf: "printable s \<Longrightarrow> CHR 0x0A \<notin> set s"
  by (force simp: printable_def list_all_iff)

lemma digit_char: "d < 10 \<Longrightarrow> is_digit (char_of (48 + d :: nat)) \<and> printable [char_of (48 + d)]"
  by (simp add: is_digit_def printable_def of_char_of)

lemma show_nat_digits: "list_all is_digit (show_nat n) \<and> printable (show_nat n) \<and> show_nat n \<noteq> []"
proof (induction n rule: show_nat.induct)
  case (1 n)
  then show ?case using digit_char [of n] digit_char [of "n mod 10"] by (cases "n < 10") (simp_all add: show_nat.simps [of n])
qed

lemma show_nat_length: "length (show_nat n) \<le> Suc (n div 10)"
proof (induction n rule: show_nat.induct)
  case (1 n)
  show ?case
  proof (cases "n < 10")
    case False
    then have "0 < n div 10" by (simp add: div_greater_zero_iff)
    then have "n div 10 div 10 < n div 10" by simp
    then show ?thesis using 1 False by (simp add: show_nat.simps [of n])
  qed (simp add: show_nat.simps [of n])
qed

text \<open>The lines of a head: each ends with a carriage return and a line feed, and an empty one ends them.\<close>

definition head_of :: "string list \<Rightarrow> string" where
  "head_of ls = concat (map (\<lambda>l. l @ crlf) ls) @ crlf"

lemma ascii_crlf: "ascii crlf = [0x0D, 0x0A]"
  by (simp add: ascii_def crlf_def)

lemma find_mark_head:
  "ls \<noteq> [] \<Longrightarrow> \<forall>l \<in> set ls. printable l \<and> l \<noteq> [] \<Longrightarrow>
   find_subslice (ascii (head_of ls) @ rest) header_mark = Some (length (head_of ls) - 4)"
proof (induction ls)
  case (Cons l ls)
  have no_cr: "\<forall>b \<in> set (ascii l). b \<noteq> 0x0D" using printable_bytes Cons.prems(2) by auto
  note line = find_mark_line [OF no_cr]
  show ?case
  proof (cases ls)
    case Nil
    have "find_subslice (0x0D # 0x0A # 0x0D # 0x0A # rest) header_mark = Some 0" by (simp add: find_rec(2) header_mark_eq)
    then show ?thesis by (simp add: Nil head_of_def line ascii_crlf) (simp add: crlf_def)
  next
    case (Cons m ms)
    obtain a t where m: "ascii m = a # t" using Cons.prems(2) Cons by (cases "ascii m") (auto simp: ascii_def)
    then have "a \<in> set (ascii m)" by simp
    then have a: "a \<noteq> 0x0D" using printable_bytes [of m a] Cons.prems(2) Cons by simp
    have next_line: "ascii (head_of ls) @ rest = a # (t @ ascii (crlf @ head_of ms) @ rest)"
      by (simp add: Cons head_of_def m)
    have IH: "find_subslice (ascii (head_of ls) @ rest) header_mark = Some (length (head_of ls) - 4)"
      using Cons.IH Cons.prems(2) Cons by simp
    have len: "4 \<le> length (head_of ls)" by (simp add: Cons head_of_def crlf_def)
    have "ascii (head_of (l # ls)) @ rest = ascii l @ 0x0D # 0x0A # a # (t @ ascii (crlf @ head_of ms) @ rest)"
      using next_line by (simp add: head_of_def ascii_crlf)
    then have "find_subslice (ascii (head_of (l # ls)) @ rest) header_mark
        = map_option ((+) (length l)) (map_option ((+) 2) (find_subslice (ascii (head_of ls) @ rest) header_mark))"
      unfolding next_line by (simp only: line find_mark_crlf [OF a] length_ascii)
    then show ?thesis unfolding IH using len by (simp add: head_of_def crlf_def)
  qed
qed simp

lemma lines_loop_line: "CHR 0x0A \<notin> set l \<Longrightarrow> lines_loop acc (l @ CHR 0x0A # s) = strip_cr (acc @ l) # lines_loop [] s"
  by (induction l arbitrary: acc) auto

lemma str_lines_head: "\<forall>l \<in> set ls. printable l \<Longrightarrow> str_lines (head_of ls) = ls @ [[]]"
proof (induction ls)
  case Nil
  show ?case by (simp add: str_lines_def head_of_def crlf_def strip_cr_def)
next
  case (Cons l ls)
  have "CHR 0x0A \<notin> set (l @ [CHR 0x0D])" using printable_no_lf Cons.prems by simp
  from lines_loop_line [OF this, of "[]" "head_of ls"]
  have "str_lines (head_of (l # ls)) = strip_cr (l @ [CHR 0x0D]) # str_lines (head_of ls)"
    by (simp add: str_lines_def head_of_def crlf_def)
  then show ?case using Cons by (simp add: strip_cr_def)
qed

text \<open>Trimming and parsing the length.\<close>

lemma no_digit_space: "list_all (\<lambda>w. w \<noteq> [] \<longrightarrow> \<not> is_digit (hd w)) white_space \<and> list_all (\<lambda>w. w \<noteq> [] \<longrightarrow> \<not> is_digit (hd w)) (map rev white_space)"
  by code_simp

lemma leading_digit:
  assumes "list_all (\<lambda>w. w \<noteq> [] \<longrightarrow> \<not> is_digit (hd w)) ws" and "s \<noteq> []" and "is_digit (hd s)"
  shows "trim_start ws s = s"
proof -
  have "\<not> (w \<noteq> [] \<and> take (length w) s = w)" if "w \<in> set ws" for w
  proof
    assume w: "w \<noteq> [] \<and> take (length w) s = w"
    then have "hd w = hd s" using assms(2) by (metis hd_take length_greater_0_conv)
    then show False using assms(1,3) that w by (auto simp: list_all_iff)
  qed
  then have "List.find (\<lambda>w. w \<noteq> [] \<and> take (length w) s = w) ws = None" by (auto simp: find_None_iff)
  then show ?thesis by (simp add: trim_start.simps [of ws s] leading_space_def)
qed

lemma trim_length: "str_trim (CHR '' '' # show_nat n) = show_nat n"
proof -
  have digits: "show_nat n \<noteq> []" "is_digit (hd (show_nat n))" "is_digit (hd (rev (show_nat n)))" "rev (show_nat n) \<noteq> []"
    using show_nat_digits [of n] by (simp_all add: list_all_iff hd_rev)
  have "char_of (9 :: nat) = CHR 0x09" "char_of (10 :: nat) = CHR 0x0A" "char_of (11 :: nat) = CHR 0x0B"
    "char_of (12 :: nat) = CHR 0x0C" "char_of (13 :: nat) = CHR 0x0D" "char_of (32 :: nat) = CHR 0x20" by code_simp+
  then have "leading_space white_space (CHR '' '' # show_nat n) = 1" by (simp add: leading_space_def white_space_def)
  then have "trim_start white_space (CHR '' '' # show_nat n) = trim_start white_space (show_nat n)"
    by (simp add: trim_start.simps [of white_space "CHR '' '' # show_nat n"])
  also have "\<dots> = show_nat n" using leading_digit no_digit_space digits by blast
  finally have "str_trim (CHR '' '' # show_nat n) = rev (trim_start (map rev white_space) (rev (show_nat n)))"
    by (simp add: str_trim_def)
  also have "trim_start (map rev white_space) (rev (show_nat n)) = rev (show_nat n)"
    using leading_digit no_digit_space digits by blast
  finally show ?thesis by simp
qed

lemma parse_length: "n < 2 ^ 64 \<Longrightarrow> parse_usize (show_nat n) = Some n"
proof -
  have "show_nat n \<noteq> []" "list_all is_digit (show_nat n)" using show_nat_digits by simp_all
  moreover then have "(case show_nat n of c # cs \<Rightarrow> if c = CHR ''+'' then cs else show_nat n | [] \<Rightarrow> show_nat n) = show_nat n"
    by (cases "show_nat n") (auto simp: is_digit_def)
  moreover have "decimal_value (show_nat n) = n" using read_show_nat [of n] by (simp add: decimal_value_def read_nat_def)
  ultimately show "n < 2 ^ 64 \<Longrightarrow> ?thesis" by (simp add: parse_usize_def Let_def)
qed

lemma upload_head_lines:
  "upload_head authority n = head_of [''POST /v1/inputs HTTP/1.1'', ''Host: '' @ authority, ''Content-Type: application/json'',
     ''Content-Length: '' @ show_nat n, ''Connection: close'']"
  by (simp add: upload_head_def head_of_def)

lemma head_lines_printable:
  assumes "printable authority"
  shows "\<forall>l \<in> set [''POST /v1/inputs HTTP/1.1'', ''Host: '' @ authority, ''Content-Type: application/json'',
     ''Content-Length: '' @ show_nat n, ''Connection: close'']. printable l \<and> l \<noteq> []"
proof -
  have "printable ''POST /v1/inputs HTTP/1.1''" "printable ''Host: ''" "printable ''Content-Type: application/json''"
    "printable ''Content-Length: ''" "printable ''Connection: close''" by code_simp+
  then show ?thesis using assms show_nat_digits [of n] printable_append [of "''Host: ''" authority]
      printable_append [of "''Content-Length: ''" "show_nat n"] by simp
qed

lemma parse_upload_head:
  assumes "printable authority" and "n \<le> MAX_UPLOAD_BYTES"
  shows "parse_headers (ascii (upload_head authority n)) = Ok n"
proof -
  let ?ls = "[''POST /v1/inputs HTTP/1.1'', ''Host: '' @ authority, ''Content-Type: application/json'',
     ''Content-Length: '' @ show_nat n, ''Connection: close'']"
  note lines = head_lines_printable [OF assms(1), of n]
  have "\<forall>b \<in> set (ascii (head_of ls)). b < 0x80" if "\<forall>l \<in> set ls. printable l" for ls
    using that printable_bytes by (induction ls) (auto simp: head_of_def ascii_crlf)
  then have utf8: "utf8_ok (ascii (upload_head authority n))"
    unfolding upload_head_lines by (rule utf8_ok_low) (use lines in blast)
  have str: "str_lines (upload_head authority n) = ?ls @ [[]]"
    unfolding upload_head_lines by (rule str_lines_head) (use lines in blast)
  have "n < 2 ^ 64" using assms(2) by (simp add: MAX_UPLOAD_BYTES_def)
  moreover have names: "eq_ignore_ascii_case ''Content-Length'' ''content-length''" "\<not> eq_ignore_ascii_case ''Host'' ''content-length''"
    "\<not> eq_ignore_ascii_case ''Content-Type'' ''content-length''" by code_simp+
  ultimately have len: "header_length (''Content-Length: '' @ show_nat n) = Some n"
    by (simp add: header_length_def trim_length parse_length)
  have others: "header_length ''POST /v1/inputs HTTP/1.1'' = None" "header_length ''Content-Type: application/json'' = None"
    "header_length (''Host: '' @ authority) = None"
    by (simp_all add: header_length_def names)
  have "find_map header_length (?ls @ [[]]) = Some n" using len others by simp
  then show ?thesis using utf8 str assms(2) by (simp add: parse_headers_def char_of_ascii)
qed

lemma upload_read_back:
  assumes "post_upload_bytes to_json url req = Ok written" and "upload_authority url = Ok authority"
    and "printable authority" and "length authority \<le> 2 ^ 16"
    and "\<And>body. to_json req = Some body \<Longrightarrow> from_json body = Some req \<and> length body \<le> MAX_UPLOAD_BYTES"
    and "concat chunks = written @ extra" and "\<forall>c \<in> set chunks. c \<noteq> [] \<and> length c \<le> 8192"
  shows "read_http_upload from_json (map Some chunks) = Ok req"
proof -
  obtain body where body: "to_json req = Some body" "written = ascii (upload_head authority (length body)) @ body"
    using assms(1,2) by (auto simp: post_upload_bytes_def upload_request_bytes_def)
  note json = assms(5) [OF body(1)]
  let ?head = "upload_head authority (length body)" and ?n = "length body"
  have mark: "find_subslice (ascii ?head @ body @ extra) header_mark = Some (length ?head - 4)"
    unfolding upload_head_lines by (rule find_mark_head) (use head_lines_printable [OF assms(3)] in simp_all)
  have pieces: "concat chunks = ascii ?head @ body @ extra" using assms(6) body(2) by simp
  have four: "4 \<le> length ?head" by (simp add: upload_head_def crlf_def)
  have "length ?head \<le> MAX_UPLOAD_BYTES"
  proof -
    from show_nat_length [of ?n] have "length (show_nat ?n) \<le> Suc (MAX_UPLOAD_BYTES div 10)"
      using json by (meson Suc_le_mono div_le_mono order_trans)
    then show ?thesis using assms(4) by (simp add: upload_head_def crlf_def MAX_UPLOAD_BYTES_def)
  qed
  then have "\<exists>ds es. chunks = ds @ es \<and> read_headers (map Some chunks) [] = Ok (length ?head, concat ds, map Some es)
      \<and> length ?head \<le> length (concat ds)"
    using read_headers_whole [of "[]" chunks "[]" "length ?head - 4"] mark pieces four assms(7) by fastforce
  then obtain ds es where split: "chunks = ds @ es" "length ?head \<le> length (concat ds)"
      "read_headers (map Some chunks) [] = Ok (length ?head, concat ds, map Some es)" by blast
  have whole: "concat ds @ concat es = ascii ?head @ body @ extra" using pieces split(1) by simp
  have "take (length ?head) (concat ds) = take (length ?head) (concat ds @ concat es)" using split(2) by simp
  then have head: "take (length ?head) (concat ds) = ascii ?head" unfolding whole by simp
  have "\<forall>c \<in> set es. c \<noteq> []" using assms(7) split(1) by simp
  moreover have "length ?head + ?n \<le> length (concat ds @ concat es)" unfolding whole by simp
  from read_body_whole [OF calculation this] obtain fs gs where body_read: "es = fs @ gs"
      "length ?head + ?n \<le> length (concat ds @ concat fs)"
      "read_body (length ?head + ?n) (map Some es) (concat ds) = Ok (concat ds @ concat fs)" by blast
  have "take ?n (drop (length ?head) (concat ds @ concat fs)) = take ?n (drop (length ?head) (concat ds @ concat es))"
  proof -
    have "take (length ?head + ?n) (concat ds @ concat fs) = take (length ?head + ?n) (concat ds @ concat es)"
      using body_read(1,2) by simp
    then show ?thesis by (metis take_drop add.commute)
  qed
  then have "take ?n (drop (length ?head) (concat ds @ concat fs)) = body" unfolding whole by simp
  then show ?thesis
    using split(3) head parse_upload_head [OF assms(3)] json body_read(3) by (simp add: read_http_upload_def)
qed

section \<open>The properties\<close>

text \<open>
  C37. A request survives the network: what \<open>post_upload\<close> writes, \<open>read_http_upload\<close> reads back, however the
  stream is cut into reads of at most 8192 bytes and whatever follows it, for every body up to the limit and
  every printable authority of ordinary length.
\<close>

theorem upload_survives_fragmentation:
  assumes "post_upload_bytes to_json url req = Ok written" and "upload_authority url = Ok authority"
    and "printable authority" and "length authority \<le> 2 ^ 16"
    and "\<And>body. to_json req = Some body \<Longrightarrow> from_json body = Some req \<and> length body \<le> MAX_UPLOAD_BYTES"
    and "concat chunks = written @ extra" and "\<forall>c \<in> set chunks. c \<noteq> [] \<and> length c \<le> 8192"
  shows "read_http_upload from_json (map Some chunks) = Ok req"
  by (rule upload_read_back [OF assms])

definition sample_upload :: signed_upload_request where
  "sample_upload = \<lparr>su_owner = hex_text (replicate 20 3), su_value_type = UFheUint, su_payload = hex_text [1, 2], su_nonce = 1,
     su_deadline = 9, su_signature = ''0x''\<rparr>"

definition sample_json :: "signed_upload_request \<Rightarrow> bytes \<Rightarrow> signed_upload_request option" where
  "sample_json req body = (if body = [0x7B, 0x7D] then Some req else None)"

text \<open>A request that arrives byte by byte.\<close>

definition sample_stream :: byte_stream where
  "sample_stream = map (\<lambda>b. Some [b]) (upload_request_bytes ''h'' [0x7B, 0x7D])"

lemma sample_stream_eq: "sample_stream = map Some (map (\<lambda>b. [b]) (upload_request_bytes ''h'' [0x7B, 0x7D]))"
  by (simp add: sample_stream_def)

lemma concat_singletons: "concat (map (\<lambda>b. [b]) bs) = bs @ []"
  by (induction bs) simp_all

lemma sample_posted:
  "post_upload_bytes (\<lambda>_. Some [0x7B, 0x7D]) ''http://h/v1/inputs'' req = Ok (upload_request_bytes ''h'' [0x7B, 0x7D])"
  "upload_authority ''http://h/v1/inputs'' = Ok ''h''" "printable ''h''"
  by (simp_all add: post_upload_bytes_def upload_authority_def strip_prefix_def Let_def) (simp add: printable_def)

lemma sample_read: "read_http_upload (sample_json req) sample_stream = Ok req"
  unfolding sample_stream_eq
  by (rule upload_read_back [OF sample_posted _ _ concat_singletons]) (auto simp: sample_json_def MAX_UPLOAD_BYTES_def)

theorem upload_survives_fragmentation_witness:
  "read_http_upload (sample_json sample_upload) sample_stream = Ok sample_upload"
  unfolding sample_stream_eq
  by (rule upload_survives_fragmentation [OF sample_posted _ _ concat_singletons])
    (auto simp: sample_json_def MAX_UPLOAD_BYTES_def)

text \<open>Running out of pieces is the only way in which later pieces matter.\<close>

lemma read_headers_bounded:
  assumes "MAX_UPLOAD_BYTES + 8192 < length bytes + length (concat cs)" and "length bytes \<le> MAX_UPLOAD_BYTES + 8192"
  shows "(\<exists>e. read_headers (map Some cs @ later) bytes = Err e \<and> read_headers (map Some cs) bytes = Err e)
    \<or> (\<exists>i acc ds. read_headers (map Some cs @ later) bytes = Ok (i, acc, map Some ds @ later)
         \<and> read_headers (map Some cs) bytes = Ok (i, acc, map Some ds)
         \<and> i \<le> length acc \<and> length acc \<le> MAX_UPLOAD_BYTES + 8192 \<and> acc @ concat ds = bytes @ concat cs)"
  using assms
proof (induction cs arbitrary: bytes)
  case (Cons c cs)
  show ?case
  proof (cases "c = [] \<or> length (bytes @ c) > MAX_UPLOAD_BYTES + 8192")
    case False
    show ?thesis
    proof (cases "find_subslice (bytes @ c) header_mark")
      case (Some i)
      have "i + 4 \<le> length (bytes @ c)" using find_subslice_bound [OF Some] by (simp add: header_mark_eq)
      then show ?thesis using False Some by auto
    next
      case None
      then show ?thesis using Cons.IH [of "bytes @ c"] Cons.prems False by simp
    qed
  qed auto
qed simp

lemma read_body_bounded:
  "want \<le> length bytes + length (concat cs) \<Longrightarrow> read_body want (map Some cs @ later) bytes = read_body want (map Some cs) bytes"
proof (induction cs arbitrary: bytes)
  case Nil
  then show ?case by (cases later) simp_all
qed auto

lemma parse_headers_limit: "parse_headers head = Ok n \<Longrightarrow> n \<le> MAX_UPLOAD_BYTES"
  by (auto simp: parse_headers_def Let_def bindR_eq_Ok split: if_splits list.splits)

text \<open>C38. The listener reads a bounded amount from a connection: once more than twice the upload limit and 8192
  bytes have arrived, the answer is settled, and nothing that follows on the stream is read.
\<close>

theorem upload_reads_bounded:
  assumes "2 * MAX_UPLOAD_BYTES + 8192 < length (concat chunks)"
  shows "read_http_upload from_json (map Some chunks @ later) = read_http_upload from_json (map Some chunks)"
proof -
  have "MAX_UPLOAD_BYTES + 8192 < length ([] :: bytes) + length (concat chunks)" using assms by simp
  moreover have "length ([] :: bytes) \<le> MAX_UPLOAD_BYTES + 8192" by simp
  from read_headers_bounded [OF calculation this, of later] show ?thesis
  proof (elim disjE exE conjE)
    fix e assume "read_headers (map Some chunks @ later) [] = Err e" "read_headers (map Some chunks) [] = Err e"
    then show ?thesis by (simp add: read_http_upload_def)
  next
    fix i acc ds
    assume run: "read_headers (map Some chunks @ later) [] = Ok (i, acc, map Some ds @ later)"
      "read_headers (map Some chunks) [] = Ok (i, acc, map Some ds)"
      and acc: "i \<le> length acc" "length acc \<le> MAX_UPLOAD_BYTES + 8192" "acc @ concat ds = [] @ concat chunks"
    have total: "length acc + length (concat ds) = length (concat chunks)" using acc(3) by (metis append_Nil length_append)
    show ?thesis
    proof (cases "parse_headers (take i acc)")
      case (Ok n)
      have "i + n \<le> length acc + length (concat ds)" using parse_headers_limit [OF Ok] acc total assms by simp
      from read_body_bounded [OF this, of later] show ?thesis using run Ok by (simp add: read_http_upload_def)
    qed (use run in \<open>simp_all add: read_http_upload_def\<close>)
  qed
qed

theorem upload_reads_bounded_witness:
  "read_http_upload (\<lambda>_. None) (map Some [replicate (2 * MAX_UPLOAD_BYTES + 8193) 0] @ [None])
     = read_http_upload (\<lambda>_. None) (map Some [replicate (2 * MAX_UPLOAD_BYTES + 8193) 0])"
  by (rule upload_reads_bounded) simp

theorem unauthenticated_request_panics_witness:
  "handle_upload_connection (\<lambda>x. x)
     (sample_json (sample_upload\<lparr>su_owner := [CHR 0xE2, CHR 0x82, CHR 0xAC, CHR ''0'']\<rparr>)) (\<lambda>_ _ _. False) (Ok 0) ''c'' [] []
     sample_stream empty_database = (Panic, empty_database)"
  by (rule unauthenticated_request_panics [OF sample_read]) (simp_all add: sample_upload_def)

text \<open>The sample upload with a hash that is long enough and a signature check that accepts.\<close>

definition sample_digest :: hash where
  "sample_digest x = replicate 32 (of_nat (length x))"

lemma sample_valid:
  "\<exists>v. validate_payload sample_digest [1] [2] sample_upload = Ok v \<and> vu_value v = \<lparr>mv_type = TFheUint, mv_bytes = [1, 2]\<rparr>"
  by (simp add: validate_payload_def sample_upload_def decode_fixed_text MAX_UPLOAD_BYTES_def mv_from_backend_parts_def Let_def)

lemma sample_stored:
  "db_inputs (snd (handle_upload_connection sample_digest (sample_json sample_upload) (\<lambda>_ _ _. True) (Ok 0) ''c'' [1] [2]
     sample_stream empty_database)) \<noteq> Map.empty"
proof -
  obtain v where v: "validate_payload sample_digest [1] [2] sample_upload = Ok v" "vu_value v = \<lparr>mv_type = TFheUint, mv_bytes = [1, 2]\<rparr>"
    using sample_valid by blast
  have fields: "su_nonce sample_upload = 1" "su_deadline sample_upload = 9" by (simp_all add: sample_upload_def)
  define enq where "enq = enqueue_upload [2] ''c'' (vu_owner v) 1 9 (vu_data_id v) (vu_commitment v) (vu_value v) empty_database"
  have "db_inputs (snd enq) (vu_data_id v) \<noteq> None \<and> fst enq = Ok ()"
    by (simp add: enq_def enqueue_upload_def v(2) i64_of_u64_def transaction_def statement_def insert_input_def
        insert_upload_def empty_database_def)
  then have enq: "db_inputs (snd enq) \<noteq> Map.empty" "enq = (Ok (), snd enq)" by (auto simp: prod_eq_iff)
  have "\<exists>d. signing_digest sample_digest [1] [2] sample_upload = Ok d" by (simp add: signing_digest_def v(1))
  then obtain d where d: "signing_digest sample_digest [1] [2] sample_upload = Ok d" by blast
  have "handle_upload_connection sample_digest (sample_json sample_upload) (\<lambda>_ _ _. True) (Ok 0) ''c'' [1] [2]
     sample_stream empty_database = (let (r, db) = enq in then_do (mapE (\<lambda>_. ''upload nonce or data id already used'') r, db) (\<lambda>_ db.
             (Ok \<lparr>ur_data_id = hex_text (vu_data_id v), ur_status = ''accepted''\<rparr>, db)))"
    by (simp add: handle_upload_connection_def sample_read v(1) d fields enq_def)
  then show ?thesis using enq(1) by (subst (asm) enq(2)) simp
qed

theorem uploads_are_authorised_witness:
  "\<exists>v digest. validate_payload sample_digest [1] [2] sample_upload = Ok v
     \<and> signing_digest sample_digest [1] [2] sample_upload = Ok digest
     \<and> fst (handle_upload_connection sample_digest (sample_json sample_upload) (\<lambda>_ _ _. True) (Ok 0) ''c'' [1] [2]
         sample_stream empty_database) = Ok \<lparr>ur_data_id = hex_text (vu_data_id v), ur_status = ''accepted''\<rparr>"
proof -
  let ?run = "handle_upload_connection sample_digest (sample_json sample_upload) (\<lambda>_ _ _. True) (Ok 0) ''c'' [1] [2]
      sample_stream empty_database"
  have empty: "db_inputs empty_database = Map.empty" by (simp add: empty_database_def)
  have "db_inputs (snd ?run) \<noteq> db_inputs empty_database" unfolding empty by (rule sample_stored)
  then have "tables (snd ?run) \<noteq> tables empty_database" using tables_eqD(2) by blast
  from uploads_are_authorised [OF surjective_pairing this] show ?thesis unfolding sample_read by fastforce
qed

end
