(* ===== verification/Dyn_Field.thy ===== *)
theory Dyn_Field
  imports Complex_Main Prime_Field "HOL-Library.Signed_Division"
begin

text \<open>
  \<open>fhe/src/dynamic.rs\<close>: arithmetic modulo a prime known only at run time, and Shamir sharing over it.

  The machine integers are kept: a sum of \<open>u64\<close> that does not fit, an intermediate of the extended Euclid that
  leaves \<open>i128\<close> and a failed \<open>debug_assert\<close> are panics, as the debug profile has them.  The lemmas show that none of
  them happens for a prime modulus up to \<open>2 ^ 63\<close>, so the release profile computes the same.  The proofs carry
  every value over to integers through \<open>residue q\<close>, on which the operations are those of the ring.
\<close>

section \<open>DynField\<close>

record dyn_field =
  df_value :: u64
  df_q :: u64

definition dyn_new :: "u64 \<Rightarrow> u64 \<Rightarrow> (unit, dyn_field) res" where
  "dyn_new v q = (if q \<le> 1 then Panic else Ok \<lparr>df_value = v mod q, df_q = q\<rparr>)"

definition dyn_zero :: "u64 \<Rightarrow> dyn_field" where
  "dyn_zero q = \<lparr>df_value = 0, df_q = q\<rparr>"

definition dyn_one :: "u64 \<Rightarrow> dyn_field" where
  "dyn_one q = \<lparr>df_value = 1, df_q = q\<rparr>"

definition dyn_add :: "dyn_field \<Rightarrow> dyn_field \<Rightarrow> (unit, dyn_field) res" where
  "dyn_add a b =
     (if df_q a \<noteq> df_q b then Panic
      else bindR (expectR (checked_add (df_value a) (df_value b))) (\<lambda>s. dyn_new s (df_q a)))"

definition dyn_sub :: "dyn_field \<Rightarrow> dyn_field \<Rightarrow> (unit, dyn_field) res" where
  "dyn_sub a b =
     (if df_q a \<noteq> df_q b then Panic
      else bindR (expectR (checked_add (df_value a) (df_q a))) (\<lambda>s.
           bindR (expectR (checked_sub s (df_value b))) (\<lambda>d. dyn_new d (df_q a))))"

definition dyn_neg :: "dyn_field \<Rightarrow> (unit, dyn_field) res" where
  "dyn_neg a = bindR (expectR (checked_sub (df_q a) (df_value a))) (\<lambda>d. dyn_new d (df_q a))"

text \<open>The product of two \<open>u64\<close> always fits a \<open>u128\<close>.\<close>

definition dyn_mul :: "dyn_field \<Rightarrow> dyn_field \<Rightarrow> (unit, dyn_field) res" where
  "dyn_mul a b =
     (if df_q a \<noteq> df_q b then Panic
      else let m = (ucast (df_value a) * ucast (df_value b) :: u128) mod ucast (df_q a) in dyn_new (ucast m) (df_q a))"

definition i128 :: "int \<Rightarrow> (unit, int) res" where
  "i128 x = (if - (2 ^ 127) \<le> x \<and> x < 2 ^ 127 then Ok x else Panic)"

lemma smod_less: "b \<noteq> 0 \<Longrightarrow> \<bar>a smod b\<bar> < \<bar>b :: int\<bar>"
  by (simp add: smod_int_alt_def abs_mult sgn_if abs_less_iff)

lemma i128_eq_Ok: "i128 x = Ok y \<longleftrightarrow> y = x \<and> - (2 ^ 127) \<le> x \<and> x < 2 ^ 127"
  by (auto simp: i128_def)

text \<open>The loop of the extended Euclid; \<open>/\<close> on \<open>i128\<close> truncates.\<close>

function euclid_loop :: "int \<Rightarrow> int \<Rightarrow> int \<Rightarrow> int \<Rightarrow> (unit, int \<times> int) res" where
  "euclid_loop t new_t r new_r =
     (if new_r = 0 then Ok (t, r)
      else bindR (i128 (r sdiv new_r)) (\<lambda>quotient.
           bindR (i128 (quotient * new_t)) (\<lambda>a. bindR (i128 (t - a)) (\<lambda>next_t.
           bindR (i128 (quotient * new_r)) (\<lambda>b. bindR (i128 (r - b)) (\<lambda>next_r.
             euclid_loop new_t next_t new_r next_r))))))"
  by pat_completeness auto

termination euclid_loop
  by (relation "measure (\<lambda>(t, new_t, r, new_r). nat \<bar>new_r\<bar>)") (auto simp: i128_eq_Ok minus_sdiv_mult_eq_smod smod_less)

declare euclid_loop.simps [simp del]

definition dyn_inv :: "dyn_field \<Rightarrow> (unit, dyn_field) res" where
  "dyn_inv a =
     (if df_value a = 0 then Panic
      else bindR (euclid_loop 0 1 (uint (df_q a)) (uint (df_value a))) (\<lambda>(t, r).
           if r \<noteq> 1 then Panic
           else bindR (if t < 0 then i128 (t + uint (df_q a)) else Ok t) (\<lambda>t. dyn_new (word_of_int t) (df_q a))))"

definition dyn_div :: "dyn_field \<Rightarrow> dyn_field \<Rightarrow> (unit, dyn_field) res" where
  "dyn_div a b = bindR (dyn_inv b) (dyn_mul a)"

text \<open>\<open>draw\<close> is the generator's \<open>gen::<u64>()\<close>.\<close>

definition dyn_rand :: "u64 \<Rightarrow> ('g \<Rightarrow> u64 \<times> 'g) \<Rightarrow> 'g \<Rightarrow> (unit, dyn_field \<times> 'g) res" where
  "dyn_rand q draw g = (let (w, g) = draw g in bindR (dyn_new w q) (\<lambda>x. Ok (x, g)))"

section \<open>Sharing\<close>

record dyn_share =
  ds_point :: dyn_field
  ds_value :: dyn_field

definition eval_points :: "u64 \<Rightarrow> nat \<Rightarrow> (unit, dyn_field list) res" where
  "eval_points q n = mapR (\<lambda>i. dyn_new (of_nat i) q) [1..<n + 1]"

definition dyn_eval_poly :: "dyn_field list \<Rightarrow> dyn_field \<Rightarrow> (unit, dyn_field) res" where
  "dyn_eval_poly coeffs x =
     foldR (\<lambda>c acc. bindR (dyn_mul acc x) (\<lambda>m. dyn_add m c)) (rev coeffs) (dyn_zero (df_q x))"

primrec draw_coeffs :: "u64 \<Rightarrow> ('g \<Rightarrow> u64 \<times> 'g) \<Rightarrow> nat \<Rightarrow> 'g \<Rightarrow> (unit, dyn_field list \<times> 'g) res" where
  "draw_coeffs q draw 0 g = Ok ([], g)"
| "draw_coeffs q draw (Suc n) g =
     bindR (dyn_rand q draw g) (\<lambda>(c, g). bindR (draw_coeffs q draw n g) (\<lambda>(cs, g). Ok (c # cs, g)))"

definition dyn_split ::
  "dyn_field \<Rightarrow> nat \<Rightarrow> dyn_field list \<Rightarrow> ('g \<Rightarrow> u64 \<times> 'g) \<Rightarrow> 'g \<Rightarrow> (unit, dyn_share list \<times> 'g) res"
where
  "dyn_split secret t ps draw g =
     bindR (draw_coeffs (df_q secret) draw t g) (\<lambda>(cs, g).
     bindR (mapR (\<lambda>p. bindR (dyn_eval_poly (secret # cs) p) (\<lambda>v. Ok \<lparr>ds_point = p, ds_value = v\<rparr>)) ps) (\<lambda>shares.
       Ok (shares, g)))"

text \<open>The Lagrange coefficient at zero of the point \<open>p\<close> at position \<open>i\<close>.\<close>

definition dyn_basis :: "u64 \<Rightarrow> dyn_field list \<Rightarrow> nat \<Rightarrow> dyn_field \<Rightarrow> (unit, dyn_field) res" where
  "dyn_basis q ps i p =
     foldR (\<lambda>(j, pj) li.
       if i = j then Ok li
       else bindR (dyn_sub p pj) (\<lambda>denom. bindR (dyn_sub (dyn_zero q) pj) (\<lambda>n. bindR (dyn_div n denom) (dyn_mul li))))
       (List.enumerate 0 ps) (dyn_one q)"

definition dyn_reconstruct :: "dyn_share list \<Rightarrow> (unit, dyn_field) res" where
  "dyn_reconstruct shares =
     bindR (nthR shares 0) (\<lambda>s0. let q = df_q (ds_point s0) in
       foldR (\<lambda>(i, si) acc.
         bindR (dyn_basis q (map ds_point shares) i (ds_point si)) (\<lambda>li. bindR (dyn_mul li (ds_value si)) (dyn_add acc)))
         (List.enumerate 0 shares) (dyn_zero q))"

section \<open>Residues\<close>

definition residue :: "u64 \<Rightarrow> int \<Rightarrow> dyn_field" where
  "residue q x = \<lparr>df_value = word_of_int (x mod uint q), df_q = q\<rparr>"

text \<open>A modulus for which no sum overflows.\<close>

definition safe_modulus :: "u64 \<Rightarrow> bool" where
  "safe_modulus q \<longleftrightarrow> 1 < uint q \<and> uint q \<le> 2 ^ 63"

definition reduced :: "dyn_field \<Rightarrow> bool" where
  "reduced a \<longleftrightarrow> df_value a < df_q a"

lemma residue_bounds:
  assumes "safe_modulus q"
  shows "0 \<le> x mod uint q" "x mod uint q < uint q" "x mod uint q + uint q < 18446744073709551616"
proof -
  have q: "1 < uint q" "uint q \<le> 9223372036854775808" using assms by (simp_all add: safe_modulus_def)
  then show "0 \<le> x mod uint q" and less: "x mod uint q < uint q" by simp_all
  show "x mod uint q + uint q < 18446744073709551616" using less q by linarith
qed

lemma uint_mod_small: "safe_modulus q \<Longrightarrow> uint (word_of_int (x mod uint q) :: u64) = x mod uint q"
proof -
  assume "safe_modulus q"
  from residue_bounds [OF this, of x] have "0 \<le> x mod uint q" "x mod uint q < 18446744073709551616" by linarith+
  then show ?thesis by (simp add: uint_word_of_int)
qed

lemma residue_sel [simp]: "df_q (residue q x) = q"
  "safe_modulus q \<Longrightarrow> uint (df_value (residue q x)) = x mod uint q"
  by (simp_all add: residue_def uint_mod_small)

lemma residue_eq_iff: "safe_modulus q \<Longrightarrow> residue q x = residue q y \<longleftrightarrow> x mod uint q = y mod uint q"
  by (metis residue_sel(2) residue_def)

lemma residue_mod [simp]: "residue q (x mod uint q) = residue q x"
  by (simp add: residue_def)

lemma residue_of_value: "reduced a \<Longrightarrow> residue (df_q a) (uint (df_value a)) = a"
  by (simp add: residue_def reduced_def word_less_def)

lemma dyn_new_residue: "safe_modulus q \<Longrightarrow> dyn_new v q = Ok (residue q (uint v))"
  by (auto simp: dyn_new_def residue_def safe_modulus_def word_le_def word_mod_def uint_mod)

lemma dyn_zero_residue: "dyn_zero q = residue q 0"
  by (simp add: dyn_zero_def residue_def)

lemma dyn_one_residue: "safe_modulus q \<Longrightarrow> dyn_one q = residue q 1"
  by (simp add: dyn_one_def residue_def safe_modulus_def)

section \<open>Arithmetic\<close>

lemma checked_add_small:
  fixes a b :: u64
  assumes "uint a + uint b < 2 ^ 64"
  shows "checked_add a b = Some (a + b)" "uint (a + b) = uint a + uint b"
proof -
  have "int (unat a + unat b) < int (2 ^ 64)" using assms by simp
  then have "unat a + unat b < 2 ^ 64" by (rule of_nat_less_imp_less)
  then show "checked_add a b = Some (a + b)" by (simp add: checked_add_def)
  show "uint (a + b) = uint a + uint b" using assms by (simp add: uint_word_ariths)
qed

lemma checked_sub_small:
  fixes a b :: u64
  assumes "uint b \<le> uint a"
  shows "checked_sub a b = Some (a - b)" "uint (a - b) = uint a - uint b"
proof -
  show "checked_sub a b = Some (a - b)" using assms by (simp add: checked_sub_def word_le_def)
  have "uint a < 18446744073709551616" using uint_lt2p [of a] by simp
  then have "uint a - uint b < 18446744073709551616" using uint_ge_0 [of b] by linarith
  then show "uint (a - b) = uint a - uint b" using assms by (simp add: uint_word_ariths)
qed

lemma dyn_add_residue [simp]: "safe_modulus q \<Longrightarrow> dyn_add (residue q x) (residue q y) = Ok (residue q (x + y))"
proof -
  assume q: "safe_modulus q"
  have "x mod uint q + y mod uint q < 18446744073709551616"
    using residue_bounds [OF q, of x] residue_bounds [OF q, of y] by linarith
  then have "uint (df_value (residue q x)) + uint (df_value (residue q y)) < 2 ^ 64" using q by simp
  from checked_add_small [OF this] show ?thesis
    using q by (simp add: dyn_add_def dyn_new_residue residue_eq_iff mod_add_eq)
qed

lemma dyn_sub_residue [simp]: "safe_modulus q \<Longrightarrow> dyn_sub (residue q x) (residue q y) = Ok (residue q (x - y))"
proof -
  assume q: "safe_modulus q"
  let ?a = "df_value (residue q x)" and ?b = "df_value (residue q y)"
  have "uint ?a + uint q < 18446744073709551616" "uint ?b \<le> uint q"
    unfolding residue_sel(2) [OF q] using residue_bounds [OF q, of x] residue_bounds [OF q, of y] by linarith+
  note sum = checked_add_small [simplified, OF this(1)]
  have "uint ?b \<le> uint (?a + q)" unfolding sum using \<open>uint ?b \<le> uint q\<close> uint_ge_0 [of ?a] by linarith
  note diff = checked_sub_small [OF this]
  have "(x mod uint q + uint q - y mod uint q) mod uint q = (x - y) mod uint q"
    by (metis add_diff_eq diff_add_eq mod_add_self2 mod_diff_eq)
  then show ?thesis using q sum diff by (simp add: dyn_sub_def dyn_new_residue residue_eq_iff)
qed

lemma dyn_neg_residue [simp]: "safe_modulus q \<Longrightarrow> dyn_neg (residue q x) = Ok (residue q (- x))"
proof -
  assume q: "safe_modulus q"
  then have "uint (df_value (residue q x)) \<le> uint q"
    unfolding residue_sel(2) [OF q] using residue_bounds [OF q, of x] by linarith
  note diff = checked_sub_small [OF this]
  have "(uint q - x mod uint q) mod uint q = - x mod uint q" by (simp add: mod_minus_eq)
  then show ?thesis using q diff by (simp add: dyn_neg_def dyn_new_residue residue_eq_iff)
qed

lemma dyn_mul_residue [simp]: "safe_modulus q \<Longrightarrow> dyn_mul (residue q x) (residue q y) = Ok (residue q (x * y))"
proof -
  assume q: "safe_modulus q"
  let ?a = "df_value (residue q x)" and ?b = "df_value (residue q y)"
  have wide: "uint (ucast w :: u128) = uint w" for w :: u64
    using uint_lt2p [of w] by (simp add: unsigned_ucast_eq take_bit_int_eq_self)
  have "uint ?a * uint ?b < 2 ^ 64 * 2 ^ 64" by (rule mult_strict_mono) (use uint_lt2p [of ?a] uint_lt2p [of ?b] in simp_all)
  then have "uint (ucast ?a * ucast ?b :: u128) = uint ?a * uint ?b" by (simp add: uint_word_ariths wide)
  then have m: "uint ((ucast ?a * ucast ?b :: u128) mod ucast q) = (x * y) mod uint q"
    using q by (simp add: uint_mod wide mod_mult_eq)
  have small: "0 \<le> x * y mod uint q" "x * y mod uint q < 18446744073709551616"
    using residue_bounds [OF q, of "x * y"] by linarith+
  have "uint (ucast ((ucast ?a * ucast ?b :: u128) mod ucast q) :: u64) = (x * y) mod uint q"
    unfolding unsigned_ucast_eq m
    by (rule take_bit_int_eq_self) (use small in simp_all)
  then show ?thesis using q by (simp add: dyn_mul_def Let_def dyn_new_residue residue_eq_iff)
qed

section \<open>The inverse\<close>

text \<open>
  The state of the loop: both rows are multiples of the value modulo \<open>Q\<close>, the coefficients have opposite signs and
  the determinant of the rows is \<open>Q\<close>, which bounds every intermediate.
\<close>

definition euclid_inv :: "int \<Rightarrow> int \<Rightarrow> int \<Rightarrow> int \<Rightarrow> int \<Rightarrow> int \<Rightarrow> bool" where
  "euclid_inv Q v t new_t r new_r \<longleftrightarrow>
     0 \<le> new_r \<and> new_r < r \<and> Q dvd t * v - r \<and> Q dvd new_t * v - new_r
   \<and> t * new_t \<le> 0 \<and> \<bar>t\<bar> \<le> \<bar>new_t\<bar> \<and> \<bar>t\<bar> * new_r + \<bar>new_t\<bar> * r = Q"

lemma abs_diff_opposite: "t * u \<le> 0 \<Longrightarrow> 0 \<le> (q :: int) \<Longrightarrow> \<bar>t - q * u\<bar> = \<bar>t\<bar> + q * \<bar>u\<bar>"
proof -
  assume "t * u \<le> 0" and q: "0 \<le> q"
  then consider "0 \<le> t" "u \<le> 0" | "t \<le> 0" "0 \<le> u" by (auto simp: mult_le_0_iff)
  then show ?thesis
  proof cases
    case 1
    then have "q * u \<le> 0" using q by (simp add: mult_nonneg_nonpos)
    then show ?thesis using 1 by (simp add: abs_if)
  next
    case 2
    then have "0 \<le> q * u" using q by simp
    then show ?thesis using 2 by (simp add: abs_if)
  qed
qed

lemma factor_bound: "\<bar>a :: int\<bar> * b \<le> Q \<Longrightarrow> 0 < b \<Longrightarrow> \<bar>a\<bar> \<le> Q"
  by (smt (verit, best) mult_le_cancel_left1)

lemma euclid_inv_step:
  assumes inv: "euclid_inv Q v t u r s" and "0 < s"
  shows "euclid_inv Q v u (t - r div s * u) s (r - r div s * s)"
    and "\<bar>u\<bar> \<le> Q" "r \<le> Q \<or> u = 0" "\<bar>t - r div s * u\<bar> \<le> Q" "\<bar>r div s * u\<bar> \<le> Q" "0 \<le> r div s" "r div s * s \<le> r"
proof -
  let ?q = "r div s"
  have r: "0 \<le> s" "s < r" "Q dvd t * v - r" "Q dvd u * v - s" "t * u \<le> 0" "\<bar>t\<bar> \<le> \<bar>u\<bar>" "\<bar>t\<bar> * s + \<bar>u\<bar> * r = Q"
    using inv by (simp_all add: euclid_inv_def)
  have q: "1 \<le> ?q" using r(2) \<open>0 < s\<close> by (simp add: pos_imp_zdiv_pos_iff int_one_le_iff_zero_less)
  then show "0 \<le> ?q" by simp
  have rem: "r - ?q * s = r mod s" by (simp add: minus_div_mult_eq_mod)
  then show "?q * s \<le> r" using \<open>0 < s\<close> pos_mod_sign [of s r] by linarith
  have t': "\<bar>t - ?q * u\<bar> = \<bar>t\<bar> + ?q * \<bar>u\<bar>" by (rule abs_diff_opposite) (use r q in auto)
  have det: "\<bar>u\<bar> * (r - ?q * s) + \<bar>t - ?q * u\<bar> * s = Q"
    unfolding t' using r(7) by (simp add: algebra_simps)
  have "\<bar>t - ?q * u\<bar> * s \<le> Q" using det rem \<open>0 < s\<close> by (smt (verit) mult_nonneg_nonneg pos_mod_sign)
  then show t'_bound: "\<bar>t - ?q * u\<bar> \<le> Q" using factor_bound \<open>0 < s\<close> by blast
  have "\<bar>u\<bar> * r \<le> Q" using r \<open>0 < s\<close> by (smt (verit) mult_nonneg_nonneg)
  then show "\<bar>u\<bar> \<le> Q" using factor_bound r \<open>0 < s\<close> by (meson less_trans)
  show "\<bar>?q * u\<bar> \<le> Q" using t' t'_bound q by (simp add: abs_mult)
  show "r \<le> Q \<or> u = 0" using \<open>\<bar>u\<bar> * r \<le> Q\<close> r \<open>0 < s\<close> by (smt (verit, best) mult_le_cancel_right1)
  have "Q dvd (t - ?q * u) * v - (r - ?q * s)"
    using dvd_diff [OF r(3) dvd_mult [OF r(4), of ?q]] by (simp add: algebra_simps)
  moreover have "u * (t - ?q * u) \<le> 0"
    using r(5) q by (simp add: algebra_simps) (smt (verit, best) mult_nonneg_nonneg zero_le_square mult.commute mult.left_commute)
  moreover have "\<bar>u\<bar> \<le> \<bar>t - ?q * u\<bar>" unfolding t' using q by (smt (verit) abs_ge_zero mult_le_cancel_right1)
  ultimately show "euclid_inv Q v u (t - ?q * u) s (r - ?q * s)"
    unfolding euclid_inv_def using r(4) det rem \<open>0 < s\<close> by simp
qed

lemma i128_fits:
  assumes "\<bar>x\<bar> \<le> Q" "Q \<le> 18446744073709551616"
  shows "i128 x = Ok x"
proof -
  have "x \<le> 18446744073709551616" "- x \<le> 18446744073709551616" using assms by linarith+
  then show ?thesis by (simp add: i128_def)
qed

lemma euclid_loop_gcd:
  assumes "euclid_inv Q v t u r s" and "r \<le> Q" and "Q \<le> 18446744073709551616"
  shows "\<exists>c. euclid_loop t u r s = Ok (c, gcd r s) \<and> Q dvd c * v - gcd r s \<and> \<bar>c\<bar> \<le> Q"
  using assms(1,2)
proof (induction "nat s" arbitrary: t u r s rule: less_induct)
  case less
  show ?case
  proof (cases "s = 0")
    case True
    have "\<bar>t\<bar> \<le> \<bar>u\<bar>" "\<bar>u\<bar> * r \<le> Q" "0 < r" "Q dvd t * v - r" using less.prems True by (auto simp: euclid_inv_def)
    moreover have "\<bar>t\<bar> \<le> Q" using factor_bound [OF calculation(2,3)] calculation(1) by linarith
    ultimately show ?thesis using True by (simp add: euclid_loop.simps)
  next
    case False
    then have s: "0 < s" "s < r" using less.prems by (auto simp: euclid_inv_def)
    note step = euclid_inv_step [OF less.prems(1) s(1)]
    let ?q = "r div s"
    have div: "r sdiv s = ?q" using s by (simp add: signed_divide_int_def)
    have rem: "r - ?q * s = r mod s" by (simp add: minus_div_mult_eq_mod)
    have bounds: "\<bar>?q\<bar> \<le> Q" "\<bar>?q * s\<bar> \<le> Q" "\<bar>r - ?q * s\<bar> \<le> Q"
      using step(6,7) s less.prems(2) mult_le_cancel_left1 [of ?q s] unfolding rem
      by (auto simp: abs_if) (smt (verit) mult_le_cancel_left1 pos_mod_bound pos_mod_sign)+
    have "euclid_loop t u r s = euclid_loop u (t - ?q * u) s (r - ?q * s)"
      using False
      by (simp add: euclid_loop.simps [of t u r s] div bounds [THEN i128_fits, OF assms(3)] step(4,5) [THEN i128_fits, OF assms(3)])
    moreover have "nat (r - ?q * s) < nat s" unfolding rem using s by simp
    moreover have "gcd s (r - ?q * s) = gcd r s" unfolding rem by (simp add: gcd_red_int [of r s])
    ultimately show ?thesis using less.hyps [OF _ step(1)] s less.prems(2) by simp
  qed
qed

lemma dyn_inv_residue:
  assumes q: "safe_modulus q" and v: "coprime x (uint q)"
  obtains y where "dyn_inv (residue q x) = Ok (residue q y)" "uint q dvd y * x - 1"
proof -
  let ?Q = "uint q" and ?v = "x mod uint q"
  note b = residue_bounds [OF q, of x]
  have Q: "1 < ?Q" using q by (simp add: safe_modulus_def)
  have cop: "gcd ?Q ?v = 1" using v by (metis coprime_iff_gcd_eq_1 gcd_red_int)
  have "?v \<noteq> 0" using cop Q by (auto simp: gcd_0_right)
  have "euclid_inv ?Q ?v 0 1 ?Q ?v" using b Q by (simp add: euclid_inv_def)
  from euclid_loop_gcd [OF this] obtain c where
    c: "euclid_loop 0 1 ?Q ?v = Ok (c, 1)" "?Q dvd c * ?v - 1" "\<bar>c\<bar> \<le> ?Q"
    using b cop by auto
  let ?c = "if c < 0 then c + ?Q else c"
  have c_bound: "- c \<le> ?Q" "c \<le> ?Q" "?Q < 18446744073709551616" using c(3) b by linarith+
  then have c': "0 \<le> ?c" "?c < 18446744073709551616" by simp_all
  have wrap: "i128 (c + ?Q) = Ok (c + ?Q)" if "c < 0"
    by (rule i128_fits [of _ ?Q]) (use that c_bound in simp_all)
  have nonzero: "df_value (residue q x) \<noteq> 0" using \<open>?v \<noteq> 0\<close> q by (metis residue_sel(2) unsigned_0)
  have "dyn_inv (residue q x) = dyn_new (word_of_int ?c) q"
    using c(1) nonzero q by (simp add: dyn_inv_def wrap)
  also have "\<dots> = Ok (residue q ?c)" using c'(1,2) q by (simp add: dyn_new_residue uint_word_of_int)
  finally have "dyn_inv (residue q x) = Ok (residue q c)" using q by (simp add: residue_eq_iff split: if_splits)
  moreover have "?Q dvd c * x - 1"
    using c(2) by (metis (no_types, opaque_lifting) mod_eq_dvd_iff mod_mult_right_eq)
  ultimately show ?thesis using that by blast
qed

lemma dyn_div_residue:
  assumes "safe_modulus q" and "coprime y (uint q)"
  obtains z where "dyn_div (residue q x) (residue q y) = Ok (residue q z)" "uint q dvd z * y - x"
proof -
  obtain w where w: "dyn_inv (residue q y) = Ok (residue q w)" "uint q dvd w * y - 1" by (rule dyn_inv_residue [OF assms])
  have "uint q dvd x * w * y - x" using dvd_mult [OF w(2), of x] by (simp add: algebra_simps)
  then show ?thesis using that [of "x * w"] w(1) assms(1) by (simp add: dyn_div_def)
qed

section \<open>Sharing over residues\<close>

lemma dyn_eval_poly_residue:
  assumes "safe_modulus q"
  shows "dyn_eval_poly (map (residue q) cs) (residue q x) = Ok (residue q (horner cs x))"
  unfolding dyn_eval_poly_def residue_sel(1)
proof (induction cs)
  case Nil
  then show ?case by (simp add: dyn_zero_residue)
next
  case (Cons c cs)
  then show ?case using assms by (simp add: foldR_append algebra_simps)
qed

lemma draw_coeffs_residue:
  assumes "safe_modulus q"
  obtains cs g' where "draw_coeffs q draw n g = Ok (map (residue q) cs, g')" "length cs = n"
proof -
  have "\<exists>cs g'. draw_coeffs q draw n g = Ok (map (residue q) cs, g') \<and> length cs = n"
  proof (induction n arbitrary: g)
    case (Suc n)
    obtain w g1 where "draw g = (w, g1)" by force
    moreover obtain cs g' where "draw_coeffs q draw n g1 = Ok (map (residue q) cs, g')" "length cs = n"
      using Suc by blast
    ultimately show ?case
      by (intro exI [of _ "uint w # cs"] exI [of _ g']) (simp add: dyn_rand_def dyn_new_residue [OF assms])
  qed simp
  then show ?thesis using that by blast
qed

lemma mapR_map: "mapR f (map h xs) = mapR (\<lambda>x. f (h x)) xs"
  by (induction xs) simp_all

definition share_of :: "u64 \<Rightarrow> int list \<Rightarrow> int \<Rightarrow> dyn_share" where
  "share_of q cs x = \<lparr>ds_point = residue q x, ds_value = residue q (horner cs x)\<rparr>"

lemma dyn_split_residue:
  assumes "safe_modulus q"
  obtains cs g' where "dyn_split (residue q s) t (map (residue q) xs) draw g
      = Ok (map (share_of q (s # cs)) xs, g')" "length cs = t"
proof -
  obtain cs g' where draw: "draw_coeffs q draw t g = Ok (map (residue q) cs, g')" "length cs = t"
    by (rule draw_coeffs_residue [OF assms])
  have "mapR (\<lambda>x. bindR (dyn_eval_poly (map (residue q) (s # cs)) (residue q x)) (\<lambda>v. Ok \<lparr>ds_point = residue q x, ds_value = v\<rparr>)) xs
      = Ok (map (share_of q (s # cs)) xs)"
    by (rule mapR_Ok) (simp only: dyn_eval_poly_residue [OF assms] bindR.simps share_of_def)
  then have "dyn_split (residue q s) t (map (residue q) xs) draw g = (Ok (map (share_of q (s # cs)) xs, g'))"
    using draw(1) by (simp add: dyn_split_def mapR_map)
  then show ?thesis using that draw(2) by blast
qed

section \<open>Lagrange coefficients\<close>

definition basis_num :: "int list \<Rightarrow> nat \<Rightarrow> int" where
  "basis_num xs i = (\<Prod>j<length xs. if i = j then 1 else - (xs ! j))"

definition basis_den :: "int list \<Rightarrow> nat \<Rightarrow> int" where
  "basis_den xs i = (\<Prod>j<length xs. if i = j then 1 else xs ! i - xs ! j)"

text \<open>Points whose differences are units.\<close>

definition spread_points :: "int \<Rightarrow> int list \<Rightarrow> bool" where
  "spread_points Q xs \<longleftrightarrow> (\<forall>i<length xs. \<forall>j<length xs. i \<noteq> j \<longrightarrow> coprime (xs ! i - xs ! j) Q)"

lemma prod_list_enumerate: "prod_list (map f (List.enumerate 0 xs)) = (\<Prod>j<length xs. f (j, xs ! j))"
  using prod.distinct_set_conv_list [of "[0..<length xs]" "\<lambda>j. f (j, xs ! j)"]
  by (simp add: enumerate_eq_map_nth o_def lessThan_atLeast0)

lemma enumerate_map: "List.enumerate 0 (map f xs) = map (\<lambda>(j, x). (j, f x)) (List.enumerate 0 xs)"
  by (simp add: enumerate_eq_map_nth)

lemma basis_loop:
  assumes q: "safe_modulus q" and units: "\<And>j x. (j, x) \<in> set js \<Longrightarrow> i \<noteq> j \<Longrightarrow> coprime (c - x) (uint q)"
    and start: "uint q dvd l * m - n"
  obtains l' where
    "(foldR (\<lambda>(j, pj) li.
         if i = j then Ok li
         else bindR (dyn_sub (residue q c) pj) (\<lambda>denom. bindR (dyn_sub (dyn_zero q) pj) (\<lambda>n. bindR (dyn_div n denom) (dyn_mul li))))
       (map (\<lambda>(j, x). (j, residue q x)) js) (residue q l)) = Ok (residue q l')"
    "uint q dvd l' * (m * (\<Prod>(j, x)\<leftarrow>js. if i = j then 1 else c - x)) - n * (\<Prod>(j, x)\<leftarrow>js. if i = j then 1 else - x)"
proof -
  let ?f = "\<lambda>(j, pj) li. (if i = j then Ok li
     else bindR (dyn_sub (residue q c) pj) (\<lambda>denom. bindR (dyn_sub (dyn_zero q) pj) (\<lambda>n. bindR (dyn_div n denom) (dyn_mul li))))"
  have "\<exists>l'. foldR ?f (map (\<lambda>(j, x). (j, residue q x)) js) (residue q l) = Ok (residue q l')
    \<and> uint q dvd l' * (m * (\<Prod>(j, x)\<leftarrow>js. if i = j then 1 else c - x)) - n * (\<Prod>(j, x)\<leftarrow>js. if i = j then 1 else - x)"
    using units start
  proof (induction js arbitrary: l m n)
    case (Cons jx js)
    obtain j x where jx: "jx = (j, x)" by force
    show ?case
    proof (cases "i = j")
      case True
      then show ?thesis using Cons jx by auto
    next
      case False
      then have "coprime (c - x) (uint q)" using Cons.prems(1) jx by auto
      from dyn_div_residue [OF q this, where x = "- x"] obtain z where
        z: "dyn_div (residue q (- x)) (residue q (c - x)) = Ok (residue q z)" "uint q dvd z * (c - x) - - x" .
      have "uint q dvd l * z * (m * (c - x)) - n * - x"
        using dvd_add [OF dvd_mult [OF z(2), of "l * m"] dvd_mult [OF Cons.prems(2), of "- x"]] by (simp add: algebra_simps)
      from Cons.IH [OF _ this] Cons.prems(1) obtain l' where
        "foldR ?f (map (\<lambda>(j, x). (j, residue q x)) js) (residue q (l * z)) = Ok (residue q l')"
        "uint q dvd l' * (m * (c - x) * (\<Prod>(j, x)\<leftarrow>js. if i = j then 1 else c - x)) - n * - x * (\<Prod>(j, x)\<leftarrow>js. if i = j then 1 else - x)"
        by auto
      moreover have "?f (j, residue q x) (residue q l) = Ok (residue q (l * z))"
        using False z(1) q by (simp add: dyn_zero_residue)
      ultimately show ?thesis using False jx by (auto simp: mult.assoc)
    qed
  qed auto
  then show ?thesis using that by blast
qed

lemma dyn_basis_residue:
  assumes q: "safe_modulus q" and "spread_points (uint q) xs" and i: "i < length xs"
  obtains l where "dyn_basis q (map (residue q) xs) i (residue q (xs ! i)) = Ok (residue q l)"
    "uint q dvd l * basis_den xs i - basis_num xs i"
proof -
  have units: "coprime (xs ! i - x) (uint q)" if "(j, x) \<in> set (List.enumerate 0 xs)" "i \<noteq> j" for j x
    using that assms(2) i by (auto simp: spread_points_def in_set_enumerate_eq)
  obtain l where
    "dyn_basis q (map (residue q) xs) i (residue q (xs ! i)) = Ok (residue q l)"
    "uint q dvd l * (1 * (\<Prod>(j, x)\<leftarrow>List.enumerate 0 xs. if i = j then 1 else xs ! i - x))
       - 1 * (\<Prod>(j, x)\<leftarrow>List.enumerate 0 xs. if i = j then 1 else - x)"
    unfolding dyn_basis_def dyn_one_residue [OF q] enumerate_map
    by (rule basis_loop [where js = "List.enumerate 0 xs" and i = i and c = "xs ! i" and l = 1 and m = 1 and n = 1, OF q units]) simp_all
  then show ?thesis using that by (simp add: basis_den_def basis_num_def prod_list_enumerate)
qed

section \<open>Interpolation\<close>

text \<open>
  The Lagrange identity holds over the rationals; multiplied by all denominators it is one of integers, and modulo
  \<open>Q\<close> the denominators are units.
\<close>

lemma lagrange_rational:
  fixes xs :: "int list"
  assumes "distinct xs" and "length cs \<le> length xs" and "cs \<noteq> []"
  shows "(of_int (horner cs 0) :: rat) = (\<Sum>i<length xs. of_int (basis_num xs i) / of_int (basis_den xs i) * of_int (horner cs (xs ! i)))"
proof -
  let ?ps = "map of_int xs :: rat list" and ?f = "horner (map of_int cs) :: rat \<Rightarrow> rat"
  have horner: "?f (of_int x) = of_int (horner cs x)" for x by (induction cs) simp_all
  have "pdeg (length cs - 1) ?f" using assms(3) by (intro pdeg_horner) (cases cs; simp)
  moreover have "length cs - 1 < length ?ps" using assms(2,3) by (cases cs) auto
  moreover have "distinct ?ps" using assms(1) by (simp add: distinct_map inj_on_def)
  ultimately have "lagrange ?ps (map ?f ?ps) 0 = ?f 0" by (rule lagrange_recovers)
  moreover have "lagrange_basis ?ps i 0 = of_int (basis_num xs i) / of_int (basis_den xs i)" if i: "i < length xs" for i
  proof -
    have "lagrange_basis ?ps i 0 = (\<Prod>j\<in>{..<length xs} - {i}. of_int (- (xs ! j)) / of_int (xs ! i - xs ! j))"
      using i by (simp add: lagrange_basis_def)
    also have "\<dots> = (\<Prod>j<length xs. of_int (if i = j then 1 else - (xs ! j)) / of_int (if i = j then 1 else xs ! i - xs ! j))"
      by (rule prod.mono_neutral_cong_left) auto
    finally show ?thesis by (simp add: basis_num_def basis_den_def prod_dividef)
  qed
  ultimately show ?thesis using horner [of 0] by (simp add: lagrange_def horner)
qed

lemma lagrange_integers:
  fixes xs :: "int list"
  assumes "distinct xs" and "length cs \<le> length xs" and "cs \<noteq> []"
  defines "d \<equiv> \<Prod>i<length xs. basis_den xs i"
  shows "d * horner cs 0 = (\<Sum>i<length xs. basis_num xs i * (\<Prod>k\<in>{..<length xs} - {i}. basis_den xs k) * horner cs (xs ! i))"
proof -
  have nonzero: "basis_den xs i \<noteq> 0" if "i < length xs" for i
    using assms(1) that by (auto simp: basis_den_def nth_eq_iff_index_eq)
  have split: "d = basis_den xs i * (\<Prod>k\<in>{..<length xs} - {i}. basis_den xs k)" if "i < length xs" for i
    unfolding d_def using that by (simp add: prod.remove)
  have "(of_int (d * horner cs 0) :: rat)
      = of_int d * (\<Sum>i<length xs. of_int (basis_num xs i) / of_int (basis_den xs i) * of_int (horner cs (xs ! i)))"
    by (simp add: lagrange_rational [OF assms(1-3)])
  also have "\<dots> = (\<Sum>i<length xs. of_int (basis_num xs i * (\<Prod>k\<in>{..<length xs} - {i}. basis_den xs k) * horner cs (xs ! i)))"
    unfolding sum_distrib_left
  proof (rule sum.cong)
    fix i assume "i \<in> {..<length xs}"
    then have i: "i < length xs" by simp
    show "(of_int d :: rat) * (of_int (basis_num xs i) / of_int (basis_den xs i) * of_int (horner cs (xs ! i)))
        = of_int (basis_num xs i * (\<Prod>k\<in>{..<length xs} - {i}. basis_den xs k) * horner cs (xs ! i))"
      unfolding split [OF i] using nonzero [OF i] by simp
  qed simp
  finally show ?thesis by (simp only: of_int_eq_iff flip: of_int_sum)
qed

lemma lagrange_modular:
  assumes "spread_points Q xs" and "distinct xs" and "length cs \<le> length xs" and "cs \<noteq> []"
    and l: "\<And>i. i < length xs \<Longrightarrow> Q dvd l i * basis_den xs i - basis_num xs i"
  shows "Q dvd (\<Sum>i<length xs. l i * horner cs (xs ! i)) - horner cs 0"
proof -
  let ?d = "\<Prod>i<length xs. basis_den xs i" and ?rest = "\<lambda>i. \<Prod>k\<in>{..<length xs} - {i}. basis_den xs k"
  have split: "?d = basis_den xs i * ?rest i" if "i < length xs" for i using that by (simp add: prod.remove)
  have "Q dvd (\<Sum>i<length xs. (l i * basis_den xs i - basis_num xs i) * (?rest i * horner cs (xs ! i)))"
    by (rule dvd_sum) (use l in simp)
  also have "(\<Sum>i<length xs. (l i * basis_den xs i - basis_num xs i) * (?rest i * horner cs (xs ! i)))
      = (\<Sum>i<length xs. ?d * (l i * horner cs (xs ! i)) - basis_num xs i * ?rest i * horner cs (xs ! i))"
    by (rule sum.cong) (simp_all add: split algebra_simps)
  also have "\<dots> = ?d * ((\<Sum>i<length xs. l i * horner cs (xs ! i)) - horner cs 0)"
    by (simp add: sum_subtractf right_diff_distrib lagrange_integers [OF assms(2-4)] flip: sum_distrib_left)
  finally have "Q dvd ?d * ((\<Sum>i<length xs. l i * horner cs (xs ! i)) - horner cs 0)" .
  moreover have "coprime Q (basis_den xs i)" if "i < length xs" for i
    unfolding basis_den_def using assms(1) that
    by (auto simp: spread_points_def coprime_commute intro!: prod_coprime_right)
  then have "coprime Q ?d" by (auto intro!: prod_coprime_right)
  ultimately show ?thesis by (simp add: coprime_dvd_mult_right_iff)
qed

section \<open>Reconstruction\<close>

lemma foldR_map: "foldR f (map h xs) s = foldR (\<lambda>x. f (h x)) xs s"
  by (induction xs arbitrary: s) (auto intro: bindR_cong)

lemma sum_loop:
  assumes "\<And>i x. i \<in> set is \<Longrightarrow> step i (residue q x) = Ok (residue q (x + w i))"
  shows "foldR step is (residue q a) = Ok (residue q (a + sum_list (map w is)))"
  using assms by (induction "is" arbitrary: a) (simp_all add: add.assoc)

lemma dyn_reconstruct_residue:
  assumes q: "safe_modulus q" and xs: "spread_points (uint q) xs" "distinct xs" and cs: "length cs \<le> length xs" "cs \<noteq> []"
  shows "dyn_reconstruct (map (share_of q cs) xs) = Ok (residue q (horner cs 0))"
proof -
  have "\<forall>i. \<exists>l. i < length xs \<longrightarrow>
      dyn_basis q (map (residue q) xs) i (residue q (xs ! i)) = Ok (residue q l)
      \<and> uint q dvd l * basis_den xs i - basis_num xs i"
    using dyn_basis_residue [OF q xs(1)] by metis
  then obtain l where l: "\<And>i. i < length xs \<Longrightarrow>
      dyn_basis q (map (residue q) xs) i (residue q (xs ! i)) = Ok (residue q (l i))"
    and units: "\<And>i. i < length xs \<Longrightarrow> uint q dvd l i * basis_den xs i - basis_num xs i" by metis
  let ?step = "\<lambda>i acc. bindR (dyn_basis q (map (residue q) xs) i (residue q (xs ! i)))
      (\<lambda>li. bindR (dyn_mul li (residue q (horner cs (xs ! i)))) (dyn_add acc))"
  have points: "map ds_point (map (share_of q cs) xs) = map (residue q) xs" by (simp add: share_of_def)
  have "xs \<noteq> []" using cs by auto
  then have "dyn_reconstruct (map (share_of q cs) xs) = foldR ?step [0..<length xs] (residue q 0)"
    unfolding dyn_reconstruct_def points
    by (simp add: nthR_in_range foldR_map enumerate_eq_map_nth share_of_def dyn_zero_residue)
      (rule foldR_cong; simp add: share_of_def)
  also have "\<dots> = (Ok (residue q (0 + (\<Sum>i\<leftarrow>[0..<length xs]. l i * horner cs (xs ! i)))))"
    by (rule sum_loop) (simp add: l q)
  also have "residue q (0 + (\<Sum>i\<leftarrow>[0..<length xs]. l i * horner cs (xs ! i))) = residue q (horner cs 0)"
    using lagrange_modular [OF xs cs units]
    by (simp add: residue_eq_iff [OF q] mod_eq_dvd_iff interv_sum_list_conv_sum_set_nat lessThan_atLeast0)
  finally show ?thesis .
qed

section \<open>Evaluation points\<close>

definition int_points :: "nat \<Rightarrow> int list" where
  "int_points n = map int [1..<n + 1]"

lemma int_points_simps [simp]: "length (int_points n) = n" "i < n \<Longrightarrow> int_points n ! i = int i + 1" "distinct (int_points n)"
  by (simp_all add: int_points_def distinct_map del: upt_Suc)

lemma eval_points_residue:
  assumes "safe_modulus q" and "n < unat q"
  shows "eval_points q n = Ok (map (residue q) (int_points n))"
proof -
  have "dyn_new (of_nat i) q = Ok (residue q (int i))" if "i \<le> n" for i
  proof -
    have "i < 2 ^ 64" using that assms(2) unat_bound [of q] by simp
    then have "uint (of_nat i :: u64) = int i" by (simp add: uint_nat unat_of_nat del: of_nat_unat)
    then show ?thesis by (simp add: dyn_new_residue [OF assms(1)])
  qed
  then have "mapR (\<lambda>i. dyn_new (of_nat i) q) [1..<n + 1] = Ok (map (\<lambda>i. residue q (int i)) [1..<n + 1])"
    by (intro mapR_Ok) (simp del: upt_Suc)
  then show ?thesis by (simp add: eval_points_def int_points_def o_def)
qed

lemma spread_small:
  assumes "is_prime (unat q)" and "\<And>x. x \<in> set xs \<Longrightarrow> 0 < x \<and> x < uint q" and "distinct xs"
  shows "spread_points (uint q) xs"
  unfolding spread_points_def
proof (intro allI impI)
  fix i j assume ij: "i < length xs" "j < length xs" "i \<noteq> j"
  then have "xs ! i \<noteq> xs ! j" using assms(3) by (simp add: nth_eq_iff_index_eq)
  moreover have "0 < xs ! i" "xs ! i < uint q" "0 < xs ! j" "xs ! j < uint q" using assms(2) ij by simp_all
  ultimately have "0 < \<bar>xs ! i - xs ! j\<bar>" "\<bar>xs ! i - xs ! j\<bar> < uint q" by (auto simp: abs_if)
  then obtain k where k: "\<bar>xs ! i - xs ! j\<bar> = int k" "0 < k" "int k < uint q" using zero_less_imp_eq_int by (metis of_nat_0_less_iff)
  then have "\<not> unat q dvd k" by (auto dest!: dvd_imp_le simp: uint_nat simp del: of_nat_unat)
  then have "coprime k (unat q)" using prime_coprime assms(1) by blast
  then have "coprime (int k) (uint q)" by (metis coprime_int_iff uint_nat)
  then show "coprime (xs ! i - xs ! j) (uint q)" using k(1) by (metis coprime_abs_left_iff)
qed

lemma prime_safe: "is_prime (unat q) \<Longrightarrow> q \<le> 2 ^ 63 \<Longrightarrow> safe_modulus q"
  unfolding is_prime_def safe_modulus_def
  by (auto simp: word_le_def uint_nat simp del: of_nat_unat)

section \<open>Properties\<close>

lemma reduced_residue: "safe_modulus q \<Longrightarrow> reduced (residue q x)"
  using residue_bounds [of q x] by (simp add: reduced_def word_less_def)

lemma value_unit:
  assumes "is_prime (unat q)" "reduced b" "df_q b = q" "df_value b \<noteq> 0"
  shows "coprime (uint (df_value b)) (uint q)"
proof -
  have "0 < unat (df_value b)" "unat (df_value b) < unat q"
    using assms by (auto simp: reduced_def word_less_nat_alt unat_gt_0)
  then have "\<not> unat q dvd unat (df_value b)" by (auto dest: dvd_imp_le)
  then have "coprime (unat (df_value b)) (unat q)" using prime_coprime assms(1) by blast
  then show ?thesis by (metis coprime_int_iff uint_nat)
qed

text \<open>
  Arithmetic modulo a run-time prime is exact as long as the modulus is at most \<open>2 ^ 63\<close>: no addition
  overflows and no intermediate of the inversion leaves \<open>i128\<close>; sums, differences, negations and products are those of the
  integers reduced modulo \<open>q\<close>, and division by a nonzero element inverts multiplication.  The bound is sharp:
  over any larger modulus the sum of two elements can overflow.
\<close>

theorem dyn_field_exact:
  assumes "is_prime (unat q)" and "reduced a" "df_q a = q" and "reduced b" "df_q b = q"
  shows "if q \<le> 2 ^ 63
    then (\<exists>s d n m. dyn_add a b = Ok s \<and> dyn_sub a b = Ok d \<and> dyn_neg a = Ok n \<and> dyn_mul a b = Ok m
        \<and> reduced s \<and> reduced d \<and> reduced n \<and> reduced m \<and> df_q s = q \<and> df_q d = q \<and> df_q n = q \<and> df_q m = q
        \<and> uint (df_value s) = (uint (df_value a) + uint (df_value b)) mod uint q
        \<and> uint (df_value d) = (uint (df_value a) - uint (df_value b)) mod uint q
        \<and> uint (df_value n) = - uint (df_value a) mod uint q
        \<and> uint (df_value m) = uint (df_value a) * uint (df_value b) mod uint q)
      \<and> (if df_value b = 0 then dyn_div a b = Panic else \<exists>c. dyn_div a b = Ok c \<and> reduced c \<and> dyn_mul c b = Ok a)
    else dyn_add \<lparr>df_value = q - 1, df_q = q\<rparr> \<lparr>df_value = q - 1, df_q = q\<rparr> = Panic"
proof (cases "q \<le> 2 ^ 63")
  case True
  note q = prime_safe [OF assms(1) True]
  let ?x = "uint (df_value a)" and ?y = "uint (df_value b)"
  have ab: "a = residue q ?x" "b = residue q ?y" using residue_of_value assms by metis+
  have div: "\<exists>c. dyn_div a b = Ok c \<and> reduced c \<and> dyn_mul c b = Ok a" if "df_value b \<noteq> 0"
  proof -
    from dyn_div_residue [OF q value_unit [OF assms(1,4,5) that], of ?x] obtain z where
      z: "dyn_div a b = Ok (residue q z)" "uint q dvd z * ?y - ?x" using ab by metis
    have "dyn_mul (residue q z) b = Ok a"
      by (subst ab(2), subst ab(1)) (use z(2) q in \<open>simp add: residue_eq_iff mod_eq_dvd_iff\<close>)
    then show ?thesis using z(1) reduced_residue [OF q, of z] by blast
  qed
  have "dyn_div a b = Panic" if "df_value b = 0" using that by (simp add: dyn_div_def dyn_inv_def)
  moreover have "dyn_add a b = Ok (residue q (?x + ?y))" "dyn_sub a b = Ok (residue q (?x - ?y))"
    "dyn_neg a = Ok (residue q (- ?x))" "dyn_mul a b = Ok (residue q (?x * ?y))"
    using dyn_add_residue [OF q, of ?x ?y] dyn_sub_residue [OF q, of ?x ?y] dyn_neg_residue [OF q, of ?x] dyn_mul_residue [OF q, of ?x ?y]
    by (simp_all flip: ab)
  ultimately show ?thesis using True div reduced_residue [OF q] q by auto
next
  case False
  have "2 ^ 64 \<le> unat (q - 1) + unat (q - 1)"
    using False by (simp add: word_le_nat_alt unat_sub_if_size)
  then have "checked_add (q - 1) (q - 1) = None" by (simp add: checked_add_None)
  then show ?thesis using False by (simp add: dyn_add_def)
qed

lemma prime_17: "is_prime (unat (17 :: u64))"
proof -
  have "no_divisor 17 2 3" by code_simp
  then show ?thesis using is_primeI [of 17 3] by simp
qed

theorem dyn_field_exact_witness:
  "dyn_div \<lparr>df_value = 3, df_q = 17\<rparr> \<lparr>df_value = 5, df_q = 17\<rparr> \<noteq> Panic"
  using dyn_field_exact [OF prime_17, of "\<lparr>df_value = 3, df_q = 17\<rparr>" "\<lparr>df_value = 5, df_q = 17\<rparr>"]
  by (auto simp: reduced_def)

text \<open>
  C15. Run-time Shamir sharing inverts: over a prime of at most \<open>2 ^ 63\<close> that exceeds the number of parties, splitting
  a reduced secret succeeds for every generator, and any selection of more than \<open>t\<close> shares, in any order,
  reconstructs it without a panic.
\<close>

theorem dyn_share_round_trip:
  assumes "is_prime (unat q)" and "q \<le> 2 ^ 63" and "n < unat q" and "reduced secret" "df_q secret = q"
    and sel: "distinct sel" "set sel \<subseteq> {..<n}" "t < length sel"
  shows "\<exists>points shares g'. eval_points q n = Ok points \<and> dyn_split secret t points draw g = Ok (shares, g')
    \<and> length shares = n \<and> dyn_reconstruct (map (\<lambda>i. shares ! i) sel) = Ok secret"
proof -
  note q = prime_safe [OF assms(1,2)]
  let ?s = "uint (df_value secret)" and ?xs = "map (\<lambda>i. int_points n ! i) sel"
  have secret: "secret = residue q ?s" using residue_of_value assms(4,5) by metis
  obtain cs g' where split: "dyn_split secret t (map (residue q) (int_points n)) draw g
      = Ok (map (share_of q (?s # cs)) (int_points n), g')" and len: "length cs = t"
    using dyn_split_residue [OF q, of ?s t "int_points n" draw g] secret by metis
  have "distinct ?xs" using sel by (auto simp: distinct_map inj_on_def subset_iff)
  moreover have "spread_points (uint q) ?xs"
    by (rule spread_small [OF assms(1) _ calculation]) (use sel(2) assms(3) in \<open>auto simp: uint_nat simp del: of_nat_unat\<close>)
  ultimately have "dyn_reconstruct (map (share_of q (?s # cs)) ?xs) = Ok (residue q (horner (?s # cs) 0))"
    using dyn_reconstruct_residue [OF q, of ?xs "?s # cs"] sel(3) len by simp
  moreover have "map (share_of q (?s # cs)) ?xs = map (\<lambda>i. map (share_of q (?s # cs)) (int_points n) ! i) sel"
    using sel(2) by (auto simp: subset_iff)
  ultimately have "dyn_reconstruct (map (\<lambda>i. map (share_of q (?s # cs)) (int_points n) ! i) sel) = Ok secret"
    using secret by (simp only: horner.simps mult_zero_left add_0_right)
  then show ?thesis using eval_points_residue [OF q assms(3)] split by auto
qed

theorem dyn_share_round_trip_witness:
  "\<exists>points shares g'. eval_points 17 5 = Ok points
     \<and> dyn_split \<lparr>df_value = 11, df_q = 17\<rparr> 2 points (\<lambda>g. (g * 7 + 3, g + 1)) 4 = Ok (shares, g')
     \<and> length shares = 5 \<and> dyn_reconstruct (map (\<lambda>i. shares ! i) [4, 0, 2]) = Ok \<lparr>df_value = 11, df_q = 17\<rparr>"
  by (rule dyn_share_round_trip [OF prime_17]) (simp_all add: reduced_def word_le_def)

end
