(* ===== verification/Bfv_Shamir.thy ===== *)
theory Bfv_Shamir
  imports Dyn_Field Handoff_Math
begin

text \<open>
  \<open>fhe/src/bfv_shamir.rs\<close>: sharing a BFV secret key coefficient by coefficient over each of its moduli, and the
  bridge between decrypted plaintexts and sharings.

  OpenFHE is a record of the calls the code makes through \<open>CkksContext\<close>; nothing is assumed of it but what a
  hypothesis of a theorem names.  The prime field of the plaintext sharing is the interface \<open>prime_field\<close>.
  \<open>None\<close> is \<open>Err ()\<close>; an \<open>i64\<close> is an integer.
\<close>

record ('k, 'c) fhe_context =
  fc_extract_coeffs :: "'k \<Rightarrow> u64 list option"
  fc_extract_moduli :: "'k \<Rightarrow> u64 list option"
  fc_make_secret :: "u64 list \<Rightarrow> 'k option"
  fc_multiparty_decrypt :: "'c \<Rightarrow> 'k list \<Rightarrow> nat \<Rightarrow> int list option"
  fc_shamir_decrypt :: "'c \<Rightarrow> 'k list \<Rightarrow> u64 list \<Rightarrow> nat \<Rightarrow> int list option"
  fc_encrypt_int :: "'k \<Rightarrow> int list \<Rightarrow> 'c option"

section \<open>Plaintexts\<close>

definition int_to_field :: "int \<Rightarrow> 'f::field" where
  "int_to_field x = pf_from_u64 (word_of_int (x mod 998244353))"

text \<open>The lowest 64 bits of the representative, as a signed integer.\<close>

definition field_to_int :: "'f prime_field_ops \<Rightarrow> 'f \<Rightarrow> int" where
  "field_to_int P f = sint (of_nat (pf_into P f) :: u64)"

primrec share_values ::
  "('f::field, 'g) share_field_ops \<Rightarrow> 'f committee \<Rightarrow> int list \<Rightarrow> 'g \<Rightarrow> (unit, 'f shamir_share list list \<times> 'g) res"
where
  "share_values F c [] g = Ok ([], g)"
| "share_values F c (x # xs) g =
     bindR (mapE (\<lambda>_. ()) (committee_split F c (int_to_field x) g)) (\<lambda>(s, g).
     bindR (share_values F c xs g) (\<lambda>(ss, g). Ok (s # ss, g)))"

definition bfv_share_plaintext ::
  "('k, 'c, 'z) fhe_context_scheme \<Rightarrow> ('f::field, 'g) share_field_ops \<Rightarrow> 'c \<Rightarrow> 'k list \<Rightarrow> 'f committee \<Rightarrow> nat \<Rightarrow> 'g
    \<Rightarrow> (unit, 'f shamir_share list list \<times> 'g) res"
where
  "bfv_share_plaintext ctx F ct party_keys committee batch g =
     bindR (ok_or () (fc_multiparty_decrypt ctx ct party_keys batch)) (\<lambda>plaintext. share_values F committee plaintext g)"

definition bfv_shares_to_ciphertext ::
  "('k, 'c, 'z) fhe_context_scheme \<Rightarrow> 'f::field prime_field_ops \<Rightarrow> 'k \<Rightarrow> 'f shamir_share list list \<Rightarrow> 'f committee \<Rightarrow> (unit, 'c) res"
where
  "bfv_shares_to_ciphertext ctx P kp shares committee =
     bindR (mapR (\<lambda>sv. bindR (mapE (\<lambda>_. ()) (committee_reconstruct committee sv)) (\<lambda>f. Ok (field_to_int P f))) shares)
       (\<lambda>plaintext. ok_or () (fc_encrypt_int ctx kp plaintext))"

section \<open>The key per modulus\<close>

text \<open>\<open>party_coeffs[i][k] = share.value.value()\<close> for every party \<open>i\<close>.\<close>

definition set_column :: "nat \<Rightarrow> dyn_share list \<Rightarrow> u64 list list \<Rightarrow> (unit, u64 list list) res" where
  "set_column k shares pc =
     foldR (\<lambda>(i, s) pc. bindR (nthR pc i) (\<lambda>row.
       if k < length row then Ok (pc[i := row[k := df_value (ds_value s)]]) else Panic)) (List.enumerate 0 shares) pc"

definition share_coefficient ::
  "u64 \<Rightarrow> nat \<Rightarrow> dyn_field list \<Rightarrow> ('g \<Rightarrow> u64 \<times> 'g) \<Rightarrow> u64 list \<Rightarrow> nat \<Rightarrow> u64 list list \<times> 'g \<Rightarrow> (unit, u64 list list \<times> 'g) res"
where
  "share_coefficient q t pts draw coeffs k = (\<lambda>(pc, g).
     bindR (nthR coeffs k) (\<lambda>c. bindR (dyn_new c q) (\<lambda>secret.
     bindR (dyn_split secret t pts draw g) (\<lambda>(shares, g).
     bindR (set_column k shares pc) (\<lambda>pc. Ok (pc, g))))))"

definition share_modulus ::
  "nat \<Rightarrow> nat \<Rightarrow> ('g \<Rightarrow> u64 \<times> 'g) \<Rightarrow> u64 list \<Rightarrow> nat \<Rightarrow> nat \<times> u64 \<Rightarrow> u64 list list \<times> 'g \<Rightarrow> (unit, u64 list list \<times> 'g) res"
where
  "share_modulus n t draw coeffs ring_dim = (\<lambda>(j, q) st.
     bindR (eval_points q n) (\<lambda>pts.
       foldR (\<lambda>idx. share_coefficient q t pts draw coeffs (j * ring_dim + idx)) [0..<ring_dim] st))"

definition bfv_share_key_per_modulus ::
  "('k, 'c, 'z) fhe_context_scheme \<Rightarrow> 'k \<Rightarrow> nat \<Rightarrow> nat \<Rightarrow> ('g \<Rightarrow> u64 \<times> 'g) \<Rightarrow> 'g \<Rightarrow> (unit, 'k list \<times> 'g) res"
where
  "bfv_share_key_per_modulus ctx kp t n draw g =
     bindR (ok_or () (fc_extract_coeffs ctx kp)) (\<lambda>coeffs.
     bindR (ok_or () (fc_extract_moduli ctx kp)) (\<lambda>moduli.
       if moduli = [] then Panic
       else let ring_dim = length coeffs div length moduli in
         bindR (foldR (share_modulus n t draw coeffs ring_dim) (List.enumerate 0 moduli) (replicate n coeffs, g)) (\<lambda>(pc, g).
         bindR (mapR (\<lambda>c. ok_or () (fc_make_secret ctx c)) pc) (\<lambda>keys. Ok (keys, g)))))"

definition modulus_lambdas :: "nat \<Rightarrow> nat \<Rightarrow> u64 \<Rightarrow> (unit, u64 list) res" where
  "modulus_lambdas n t q =
     bindR (eval_points q n) (\<lambda>pts.
       mapR (\<lambda>i. bindR (nthR pts i) (\<lambda>p.
         if length pts < t + 1 then Panic
         else bindR (dyn_basis q (take (t + 1) pts) i p) (\<lambda>l. Ok (df_value l)))) [0..<t + 1])"

definition per_modulus_lambdas :: "u64 list \<Rightarrow> nat \<Rightarrow> nat \<Rightarrow> (unit, u64 list list) res" where
  "per_modulus_lambdas moduli n t = mapR (modulus_lambdas n t) moduli"

definition bfv_share_plaintext_threshold ::
  "('k, 'c, 'z) fhe_context_scheme \<Rightarrow> ('f::field, 'g) share_field_ops \<Rightarrow> ('g \<Rightarrow> u64 \<times> 'g) \<Rightarrow> 'c \<Rightarrow> 'k \<Rightarrow> nat \<Rightarrow> nat \<Rightarrow> 'f committee \<Rightarrow> nat \<Rightarrow> 'g
    \<Rightarrow> (unit, 'f shamir_share list list \<times> 'g) res"
where
  "bfv_share_plaintext_threshold ctx F draw ct full_key t n committee batch g =
     bindR (bfv_share_key_per_modulus ctx full_key t n draw g) (\<lambda>(party_keys, g).
     bindR (ok_or () (fc_extract_moduli ctx full_key)) (\<lambda>moduli.
     bindR (per_modulus_lambdas moduli n t) (\<lambda>lambdas.
       if length party_keys < t + 1 then Panic
       else bindR (ok_or () (fc_shamir_decrypt ctx ct (take (t + 1) party_keys) (concat lambdas) batch)) (\<lambda>plaintext.
         share_values F committee plaintext g))))"

section \<open>Filling the party keys\<close>

lemma foldR_grows:
  assumes "\<And>x K s. x \<in> set xs \<Longrightarrow> I K s \<Longrightarrow> \<exists>s'. f x s = Ok s' \<and> I (K \<union> h x) s'" and "I K s"
  shows "\<exists>s'. foldR f xs s = Ok s' \<and> I (K \<union> (\<Union>x\<in>set xs. h x)) s'"
  using assms
proof (induction xs arbitrary: K s)
  case (Cons x xs)
  obtain s1 where "f x s = Ok s1" "I (K \<union> h x) s1" using Cons.prems(1) [of x K s] Cons.prems(2) by auto
  moreover obtain s' where "foldR f xs s1 = Ok s'" "I (K \<union> h x \<union> (\<Union>x\<in>set xs. h x)) s'"
    using Cons.IH [OF _ calculation(2)] Cons.prems(1) by auto
  ultimately show ?case by (simp add: Un_assoc)
qed simp

lemma set_column_from:
  assumes "m + length shares \<le> length pc" and "\<And>row. row \<in> set pc \<Longrightarrow> k < length row"
  shows "\<exists>pc'. foldR (\<lambda>(i, s) pc. bindR (nthR pc i) (\<lambda>row.
      if k < length row then Ok (pc[i := row[k := df_value (ds_value s)]]) else Panic)) (List.enumerate m shares) pc = (Ok pc' :: (unit, _) res)
    \<and> length pc' = length pc \<and> (\<forall>i<length pc. pc' ! i =
        (if m \<le> i \<and> i < m + length shares then (pc ! i)[k := df_value (ds_value (shares ! (i - m)))] else pc ! i))"
  using assms
proof (induction shares arbitrary: m pc)
  case (Cons s shares)
  let ?pc = "pc[m := (pc ! m)[k := df_value (ds_value s)]]"
  have m: "m < length pc" "k < length (pc ! m)" using Cons.prems by auto
  have "k < length row" if "row \<in> set ?pc" for row
    using that Cons.prems(2) m(2) set_update_subset_insert [of pc m] by fastforce
  moreover have "Suc m + length shares \<le> length ?pc" using Cons.prems(1) by simp
  ultimately obtain pc' where pc': "foldR (\<lambda>(i, s) pc. bindR (nthR pc i) (\<lambda>row.
      if k < length row then Ok (pc[i := row[k := df_value (ds_value s)]]) else Panic)) (List.enumerate (Suc m) shares) ?pc = (Ok pc' :: (unit, _) res)"
    "length pc' = length ?pc" "\<forall>i<length ?pc. pc' ! i =
        (if Suc m \<le> i \<and> i < Suc m + length shares then (?pc ! i)[k := df_value (ds_value (shares ! (i - Suc m)))] else ?pc ! i)"
    using Cons.IH by blast
  show ?case
  proof (intro exI conjI allI impI)
    fix i assume i: "i < length pc"
    consider "i < m" | "i = m" | "m < i" by linarith
    then show "pc' ! i = (if m \<le> i \<and> i < m + length (s # shares)
        then (pc ! i)[k := df_value (ds_value ((s # shares) ! (i - m)))] else pc ! i)"
      using pc'(3) i by cases (auto simp: nth_Cons' Suc_diff_Suc)
  qed (use pc'(1,2) m in \<open>simp_all add: nthR_in_range\<close>)
qed auto

section \<open>What the party keys hold\<close>

text \<open>Position \<open>k\<close> of the party keys is a sharing of \<open>c\<close> modulo \<open>q\<close>, of degree \<open>t\<close>.\<close>

definition column_shares :: "u64 \<Rightarrow> nat \<Rightarrow> nat \<Rightarrow> u64 \<Rightarrow> nat \<Rightarrow> u64 list list \<Rightarrow> bool" where
  "column_shares q t n c k pc \<longleftrightarrow>
     (\<exists>cs. length cs = t \<and> (\<forall>i<n. pc ! i ! k = df_value (residue q (horner (uint c # cs) (int i + 1)))))"

definition keys_inv :: "(nat \<Rightarrow> u64) \<Rightarrow> nat \<Rightarrow> nat \<Rightarrow> u64 list \<Rightarrow> nat set \<Rightarrow> u64 list list \<times> 'g \<Rightarrow> bool" where
  "keys_inv q t n coeffs K = (\<lambda>(pc, g).
     length pc = n \<and> (\<forall>row \<in> set pc. length row = length coeffs)
     \<and> (\<forall>k \<in> K. k < length coeffs \<and> column_shares (q k) t n (coeffs ! k) k pc))"

lemma share_coefficient_inv:
  assumes q: "safe_modulus (q k)" "n < unat (q k)" and k: "k < length coeffs" and inv: "keys_inv q t n coeffs K st"
  shows "\<exists>st'. share_coefficient (q k) t (map (residue (q k)) (int_points n)) draw coeffs k st = Ok st'
    \<and> keys_inv q t n coeffs (insert k K) st'"
proof -
  obtain pc g where st: "st = (pc, g)" by force
  have rows: "length pc = n" "\<And>row. row \<in> set pc \<Longrightarrow> length row = length coeffs"
    using inv by (auto simp: keys_inv_def st)
  obtain cs g' where split: "dyn_split (residue (q k) (uint (coeffs ! k))) t (map (residue (q k)) (int_points n)) draw g
      = Ok (map (share_of (q k) (uint (coeffs ! k) # cs)) (int_points n), g')" and cs: "length cs = t"
    by (rule dyn_split_residue [OF q(1)])
  let ?shares = "map (share_of (q k) (uint (coeffs ! k) # cs)) (int_points n)"
  obtain pc' where pc': "set_column k ?shares pc = Ok pc'" "length pc' = n"
    "\<And>i. i < n \<Longrightarrow> pc' ! i = (pc ! i)[k := df_value (ds_value (?shares ! i))]"
    unfolding set_column_def using set_column_from [of 0 ?shares pc k] rows k by fastforce
  have new: "pc' ! i ! k = df_value (residue (q k) (horner (uint (coeffs ! k) # cs) (int i + 1)))" if "i < n" for i
    using pc'(3) [OF that] that rows k by (simp add: share_of_def)
  have other: "pc' ! i ! k' = pc ! i ! k'" if "i < n" "k' \<noteq> k" for i k'
    using pc'(3) [OF that(1)] that(2) by simp
  have "column_shares (q k') t n (coeffs ! k') k' pc'" if "k' \<in> insert k K" for k'
  proof (cases "k' = k")
    case True
    then show ?thesis using new cs by (auto simp: column_shares_def)
  next
    case False
    then have "column_shares (q k') t n (coeffs ! k') k' pc" using inv that by (auto simp: keys_inv_def st)
    then show ?thesis using other False by (auto simp: column_shares_def)
  qed
  moreover have "length row = length coeffs" if row: "row \<in> set pc'" for row
  proof -
    obtain i where "i < length pc'" "row = pc' ! i" using row unfolding in_set_conv_nth by blast
    then have "i < n" "row = pc' ! i" using pc'(2) by simp_all
    then show ?thesis using pc'(3) rows by simp
  qed
  ultimately have "keys_inv q t n coeffs (insert k K) (pc', g')"
    using inv k pc'(2) by (auto simp: keys_inv_def st)
  moreover have "share_coefficient (q k) t (map (residue (q k)) (int_points n)) draw coeffs k st = Ok (pc', g')"
    using split pc'(1) k by (simp add: share_coefficient_def st nthR_in_range dyn_new_residue [OF q(1)])
  ultimately show ?thesis by blast
qed

lemma share_modulus_inv:
  assumes q: "safe_modulus p" "n < unat p" and pos: "\<And>idx. idx < ring_dim \<Longrightarrow> q (j * ring_dim + idx) = p \<and> j * ring_dim + idx < length coeffs"
    and inv: "keys_inv q t n coeffs K st"
  shows "\<exists>st'. share_modulus n t draw coeffs ring_dim (j, p) st = Ok st'
    \<and> keys_inv q t n coeffs (K \<union> (\<Union>idx\<in>{..<ring_dim}. {j * ring_dim + idx})) st'"
proof -
  let ?f = "\<lambda>idx. share_coefficient p t (map (residue p) (int_points n)) draw coeffs (j * ring_dim + idx)"
  have "\<exists>st'. ?f idx st = Ok st' \<and> keys_inv q t n coeffs (K \<union> {j * ring_dim + idx}) st'"
    if "idx \<in> set [0..<ring_dim]" "keys_inv q t n coeffs K st" for idx K st
    using share_coefficient_inv [of q "j * ring_dim + idx" n coeffs t K st draw] pos [of idx] q that by simp
  from foldR_grows [of "[0..<ring_dim]" "keys_inv q t n coeffs" ?f, OF this inv] show ?thesis
    by (simp add: share_modulus_def eval_points_residue [OF q] lessThan_atLeast0)
qed

lemma share_keys_inv:
  fixes moduli coeffs :: "u64 list" and ring_dim :: nat
  defines "q \<equiv> \<lambda>k. moduli ! (k div ring_dim)"
  assumes moduli: "\<And>p. p \<in> set moduli \<Longrightarrow> safe_modulus p \<and> n < unat p" and len: "length moduli * ring_dim \<le> length coeffs"
  shows "\<exists>pc g'. foldR (share_modulus n t draw coeffs ring_dim) (List.enumerate 0 moduli) (replicate n coeffs, g) = Ok (pc, g')
    \<and> keys_inv q t n coeffs {..<length moduli * ring_dim} (pc, g')"
proof -
  have step: "\<exists>st'. share_modulus n t draw coeffs ring_dim jp st = Ok st'
      \<and> keys_inv q t n coeffs (K \<union> (\<Union>idx\<in>{..<ring_dim}. {fst jp * ring_dim + idx})) st'"
    if jp: "jp \<in> set (List.enumerate 0 moduli)" and inv: "keys_inv q t n coeffs K st" for jp K and st :: "u64 list list \<times> 'a"
  proof -
    obtain j where j: "jp = (j, moduli ! j)" "j < length moduli" using jp by (intro that [of "fst jp"]) (auto simp: in_set_enumerate_eq)
    have "q (j * ring_dim + idx) = moduli ! j \<and> j * ring_dim + idx < length coeffs" if "idx < ring_dim" for idx
    proof -
      have "Suc j * ring_dim \<le> length moduli * ring_dim" using j(2) by (intro mult_le_mono1) simp
      then have "j * ring_dim + idx < length moduli * ring_dim" using that by simp
      then show ?thesis using that len by (simp add: q_def)
    qed
    then show ?thesis unfolding j(1) fst_conv using moduli [of "moduli ! j"] j(2)
      by (intro share_modulus_inv [OF _ _ _ inv]) auto
  qed
  have "keys_inv q t n coeffs {} (replicate n coeffs, g)" by (simp add: keys_inv_def)
  from foldR_grows [where xs = "List.enumerate 0 moduli" and I = "keys_inv q t n coeffs"
      and f = "share_modulus n t draw coeffs ring_dim" and h = "\<lambda>jp. \<Union>idx\<in>{..<ring_dim}. {fst jp * ring_dim + idx}", OF step this]
  obtain st where
    run: "foldR (share_modulus n t draw coeffs ring_dim) (List.enumerate 0 moduli) (replicate n coeffs, g) = Ok st"
    and inv: "keys_inv q t n coeffs (\<Union>jp\<in>set (List.enumerate 0 moduli). \<Union>idx\<in>{..<ring_dim}. {fst jp * ring_dim + idx}) st"
    by auto
  have "{..<length moduli * ring_dim} \<subseteq> (\<Union>jp\<in>set (List.enumerate 0 moduli). \<Union>idx\<in>{..<ring_dim}. {fst jp * ring_dim + idx})"
  proof
    fix k assume "k \<in> {..<length moduli * ring_dim}"
    then have k: "k < length moduli * ring_dim" by simp
    then have "0 < ring_dim" by (cases ring_dim) simp_all
    then have "k div ring_dim < length moduli" "k mod ring_dim < ring_dim" "k = k div ring_dim * ring_dim + k mod ring_dim"
      using k by (simp_all add: less_mult_imp_div_less)
    then show "k \<in> (\<Union>jp\<in>set (List.enumerate 0 moduli). \<Union>idx\<in>{..<ring_dim}. {fst jp * ring_dim + idx})"
      by (force simp: in_set_enumerate_eq enumerate_eq_map_nth)
  qed
  then have "keys_inv q t n coeffs {..<length moduli * ring_dim} st" using inv by (cases st) (auto simp: keys_inv_def)
  then show ?thesis using run by (cases st) auto
qed

section \<open>Recombining the key\<close>

lemma modulus_lambdas_residue:
  assumes "is_prime (unat q)" and "q \<le> 2 ^ 63" and "n < unat q" and "t < n"
  obtains ls where "modulus_lambdas n t q = Ok ls" "length ls = t + 1"
    "\<And>cs. length cs = t + 1 \<Longrightarrow>
      (\<Sum>i\<le>t. uint (ls ! i) * uint (df_value (residue q (horner cs (int i + 1))))) mod uint q = horner cs 0 mod uint q"
proof -
  note q = prime_safe [OF assms(1,2)]
  let ?xs = "take (t + 1) (int_points n)"
  have len: "length ?xs = t + 1" using assms(4) by simp
  have at: "?xs ! i = int i + 1" if "i \<le> t" for i using that assms(4) by simp
  have bounds: "0 < x \<and> x < uint q" if x: "x \<in> set ?xs" for x
  proof -
    obtain i where "i < t + 1" "x = ?xs ! i" using x len by (metis in_set_conv_nth)
    then show ?thesis using at [of i] assms(3,4) by (auto simp: uint_nat simp del: of_nat_unat)
  qed
  have "distinct ?xs" by simp
  note spread = spread_small [OF assms(1) bounds this]
  have "\<forall>i. \<exists>l. i < t + 1 \<longrightarrow> dyn_basis q (map (residue q) ?xs) i (residue q (?xs ! i)) = Ok (residue q l)
      \<and> uint q dvd l * basis_den ?xs i - basis_num ?xs i"
    using dyn_basis_residue [OF q spread] len by metis
  then obtain l where l: "\<And>i. i < t + 1 \<Longrightarrow> dyn_basis q (map (residue q) ?xs) i (residue q (?xs ! i)) = Ok (residue q (l i))"
    and units: "\<And>i. i < t + 1 \<Longrightarrow> uint q dvd l i * basis_den ?xs i - basis_num ?xs i" by metis
  let ?ls = "map (\<lambda>i. df_value (residue q (l i))) [0..<t + 1]"
  have run: "modulus_lambdas n t q = Ok ?ls"
    unfolding modulus_lambdas_def eval_points_residue [OF q assms(3)] bindR.simps
  proof (rule mapR_Ok)
    fix i assume "i \<in> set [0..<t + 1]"
    then have i: "i < t + 1" by (simp del: upt_Suc)
    have "nthR (map (residue q) (int_points n)) i = Ok (residue q (?xs ! i))" using i assms(4) by (simp add: nthR_in_range)
    then show "bindR (nthR (map (residue q) (int_points n)) i) (\<lambda>p. if length (map (residue q) (int_points n)) < t + 1 then Panic
        else bindR (dyn_basis q (take (t + 1) (map (residue q) (int_points n))) i p) (\<lambda>l. Ok (df_value l))) = Ok (df_value (residue q (l i)))"
      using l [OF i] len by (simp add: take_map)
  qed
  show ?thesis
  proof (rule that [OF run])
    fix cs :: "int list" assume cs: "length cs = t + 1"
    have "(\<Sum>i\<le>t. uint (?ls ! i) * uint (df_value (residue q (horner cs (int i + 1))))) mod uint q
        = (\<Sum>i\<le>t. l i mod uint q * (horner cs (int i + 1) mod uint q)) mod uint q"
      by (rule arg_cong [where f = "\<lambda>x. x mod uint q"], rule sum.cong) (simp_all add: q del: upt_Suc)
    also have "\<dots> = (\<Sum>i\<le>t. l i mod uint q * (horner cs (int i + 1) mod uint q) mod uint q) mod uint q"
      by (rule mod_sum_eq [symmetric])
    also have "\<dots> = (\<Sum>i\<le>t. l i * horner cs (int i + 1) mod uint q) mod uint q" by (simp only: mod_mult_eq)
    also have "\<dots> = (\<Sum>i\<le>t. l i * horner cs (int i + 1)) mod uint q" by (rule mod_sum_eq)
    also have "(\<Sum>i\<le>t. l i * horner cs (int i + 1)) = (\<Sum>i<length ?xs. l i * horner cs (?xs ! i))"
      using at len by (intro sum.cong) auto
    also have "\<dots> mod uint q = horner cs 0 mod uint q"
      unfolding mod_eq_dvd_iff
      by (rule lagrange_modular [OF spread \<open>distinct ?xs\<close>]) (use units cs len in auto)
    finally show "(\<Sum>i\<le>t. uint (?ls ! i) * uint (df_value (residue q (horner cs (int i + 1))))) mod uint q = horner cs 0 mod uint q" .
  qed simp
qed

lemma per_modulus_lambdas_residue:
  assumes "\<forall>q \<in> set moduli. is_prime (unat q) \<and> q \<le> 2 ^ 63 \<and> n < unat q" and "t < n"
  obtains ls where "per_modulus_lambdas moduli n t = Ok ls"
    "\<And>j cs. j < length moduli \<Longrightarrow> length cs = t + 1 \<Longrightarrow>
      (\<Sum>i\<le>t. uint (ls ! j ! i) * uint (df_value (residue (moduli ! j) (horner cs (int i + 1))))) mod uint (moduli ! j)
        = horner cs 0 mod uint (moduli ! j)"
proof -
  have "\<exists>ls. modulus_lambdas n t q = Ok ls \<and> (\<forall>cs. length cs = t + 1 \<longrightarrow>
      (\<Sum>i\<le>t. uint (ls ! i) * uint (df_value (residue q (horner cs (int i + 1))))) mod uint q = horner cs 0 mod uint q)"
    if "q \<in> set moduli" for q
  proof -
    have q: "is_prime (unat q)" "q \<le> 2 ^ 63" "n < unat q" using that assms(1) by auto
    show ?thesis by (rule modulus_lambdas_residue [OF q assms(2)]) blast
  qed
  then have "\<exists>ls. \<forall>q\<in>set moduli. modulus_lambdas n t q = Ok (ls q) \<and> (\<forall>cs. length cs = t + 1 \<longrightarrow>
      (\<Sum>i\<le>t. uint (ls q ! i) * uint (df_value (residue q (horner cs (int i + 1))))) mod uint q = horner cs 0 mod uint q)"
    by (intro bchoice ballI)
  then obtain ls where ls: "\<And>q. q \<in> set moduli \<Longrightarrow> modulus_lambdas n t q = Ok (ls q)"
    and sums: "\<And>q cs. q \<in> set moduli \<Longrightarrow> length cs = t + 1 \<Longrightarrow>
      (\<Sum>i\<le>t. uint (ls q ! i) * uint (df_value (residue q (horner cs (int i + 1))))) mod uint q = horner cs 0 mod uint q"
    by blast
  have lambdas: "per_modulus_lambdas moduli n t = Ok (map ls moduli)"
    unfolding per_modulus_lambdas_def by (rule mapR_Ok) (rule ls)
  show ?thesis by (rule that [OF lambdas]) (simp add: sums)
qed

text \<open>
  C16. The shared key comes back: sharing a BFV secret key over its moduli
  succeeds for every generator, and at every coefficient the first \<open>t + 1\<close> party keys, weighted with the Lagrange coefficients
  of that coefficient's modulus, sum to the original coefficient; these keys and weights are what the threshold
  decryption hands to OpenFHE.  The moduli are primes up to \<open>2 ^ 63\<close> above the number of parties.
\<close>

theorem key_shares_recombine:
  assumes ctx: "fc_extract_coeffs ctx kp = Some coeffs" "fc_extract_moduli ctx kp = Some moduli"
      "fc_make_secret ctx = (\<lambda>c. Some (key c))"
    and moduli: "moduli \<noteq> []" "\<forall>q \<in> set moduli. is_prime (unat q) \<and> q \<le> 2 ^ 63 \<and> n < unat q" and "t < n"
  shows "\<exists>pc g' lambdas. bfv_share_key_per_modulus ctx kp t n draw g = Ok (map key pc, g') \<and> length pc = n
    \<and> per_modulus_lambdas moduli n t = Ok lambdas
    \<and> (\<forall>j < length moduli. \<forall>idx < length coeffs div length moduli. let k = j * (length coeffs div length moduli) + idx in
        (\<Sum>i\<le>t. uint (lambdas ! j ! i) * uint (pc ! i ! k)) mod uint (moduli ! j) = uint (coeffs ! k) mod uint (moduli ! j))
    \<and> bfv_share_plaintext_threshold ctx F draw ct kp t n committee batch g
        = bindR (ok_or () (fc_shamir_decrypt ctx ct (map key (take (t + 1) pc)) (concat lambdas) batch)) (\<lambda>xs. share_values F committee xs g')"
proof -
  let ?d = "length coeffs div length moduli"
  have safe: "safe_modulus p \<and> n < unat p" if "p \<in> set moduli" for p using moduli(2) that prime_safe by blast
  have "length moduli * ?d \<le> length coeffs" by simp
  from share_keys_inv [OF _ this, of n t draw g] safe obtain pc g' where
    run: "foldR (share_modulus n t draw coeffs ?d) (List.enumerate 0 moduli) (replicate n coeffs, g) = Ok (pc, g')"
    and inv: "keys_inv (\<lambda>k. moduli ! (k div ?d)) t n coeffs {..<length moduli * ?d} (pc, g')" by blast
  have "mapR (\<lambda>c. ok_or () (fc_make_secret ctx c)) pc = Ok (map key pc)" by (rule mapR_Ok) (simp add: ctx(3))
  then have keys: "bfv_share_key_per_modulus ctx kp t n draw g = Ok (map key pc, g')"
    using run moduli(1) by (simp add: bfv_share_key_per_modulus_def ctx)
  have len: "length pc = n" using inv by (simp add: keys_inv_def)
  obtain ls where lambdas: "per_modulus_lambdas moduli n t = Ok ls"
    and sums: "\<And>j cs. j < length moduli \<Longrightarrow> length cs = t + 1 \<Longrightarrow>
      (\<Sum>i\<le>t. uint (ls ! j ! i) * uint (df_value (residue (moduli ! j) (horner cs (int i + 1))))) mod uint (moduli ! j)
        = horner cs 0 mod uint (moduli ! j)"
    by (rule per_modulus_lambdas_residue [OF moduli(2) \<open>t < n\<close>]) blast
  have "(\<Sum>i\<le>t. uint (ls ! j ! i) * uint (pc ! i ! k)) mod uint (moduli ! j) = uint (coeffs ! k) mod uint (moduli ! j)"
    if j: "j < length moduli" and idx: "idx < ?d" and k: "k = j * ?d + idx" for j idx k
  proof -
    have "Suc j * ?d \<le> length moduli * ?d" using j by (intro mult_le_mono1) simp
    then have "k < length moduli * ?d" "k div ?d = j" using idx k by simp_all
    then have "column_shares (moduli ! j) t n (coeffs ! k) k pc" using inv by (auto simp: keys_inv_def)
    then obtain cs where cs: "length cs = t" "\<And>i. i < n \<Longrightarrow> pc ! i ! k = df_value (residue (moduli ! j) (horner (uint (coeffs ! k) # cs) (int i + 1)))"
      unfolding column_shares_def by blast
    have "(\<Sum>i\<le>t. uint (ls ! j ! i) * uint (pc ! i ! k))
        = (\<Sum>i\<le>t. uint (ls ! j ! i) * uint (df_value (residue (moduli ! j) (horner (uint (coeffs ! k) # cs) (int i + 1)))))"
      using j cs(2) \<open>t < n\<close> by (intro sum.cong) auto
    then show ?thesis using sums [of j "uint (coeffs ! k) # cs"] j cs(1) by simp
  qed
  moreover have "bfv_share_plaintext_threshold ctx F draw ct kp t n committee batch g
      = bindR (ok_or () (fc_shamir_decrypt ctx ct (map key (take (t + 1) pc)) (concat ls) batch)) (\<lambda>xs. share_values F committee xs g')"
    using \<open>t < n\<close> len by (simp add: bfv_share_plaintext_threshold_def keys lambdas ctx take_map)
  ultimately show ?thesis using keys len lambdas by (intro exI conjI) (auto simp: Let_def)
qed

lemma prime_13: "is_prime (unat (13 :: u64))"
proof -
  have "no_divisor 13 2 2" by code_simp
  then show ?thesis using is_primeI [of 13 2] by simp
qed

text \<open>A context whose keys are their coefficients, over two moduli.\<close>

definition sample_context :: "(u64 list, unit) fhe_context" where
  "sample_context = \<lparr>fc_extract_coeffs = Some, fc_extract_moduli = (\<lambda>_. Some [17, 13]), fc_make_secret = Some,
     fc_multiparty_decrypt = (\<lambda>_ _ _. Some [7, -1]), fc_shamir_decrypt = (\<lambda>_ _ _ _. None), fc_encrypt_int = (\<lambda>_ _. Some ())\<rparr>"

theorem key_shares_recombine_witness:
  "\<exists>keys g' lambdas. bfv_share_key_per_modulus sample_context [5, 11, 3, 8] 1 3 (\<lambda>g. (of_nat (7 * g + 3), Suc g)) 4 = Ok (keys, g')
     \<and> per_modulus_lambdas [17, 13] 3 1 = Ok lambdas
     \<and> (\<Sum>i\<le>1. uint (lambdas ! 1 ! i) * uint (keys ! i ! 3)) mod 13 = 8"
proof -
  have ctx: "fc_extract_coeffs sample_context [5, 11, 3, 8] = Some [5, 11, 3, 8]"
    "fc_extract_moduli sample_context [5, 11, 3, 8] = Some [17, 13]" "fc_make_secret sample_context = (\<lambda>c. Some ((\<lambda>c. c) c))"
    by (simp_all add: sample_context_def)
  have "\<forall>q \<in> set [17, 13 :: u64]. is_prime (unat q) \<and> q \<le> 2 ^ 63 \<and> 3 < unat q"
    using prime_17 prime_13 by (simp add: word_le_def)
  from key_shares_recombine [OF ctx _ this, of 1 "\<lambda>g. (of_nat (7 * g + 3), Suc g)" 4 "f2_ops counter_rng" "()" "f2_committee 1 3" 1]
  obtain pc g' lambdas where run: "bfv_share_key_per_modulus sample_context [5, 11, 3, 8] 1 3 (\<lambda>g. (of_nat (7 * g + 3), Suc g)) 4 = Ok (map (\<lambda>c. c) pc, g')"
      "per_modulus_lambdas [17, 13] 3 1 = Ok lambdas"
    and sums: "\<And>j idx. j < length [17, 13 :: u64] \<Longrightarrow> idx < length [5, 11, 3, 8 :: u64] div length [17, 13 :: u64] \<Longrightarrow>
      let k = j * (length [5, 11, 3, 8 :: u64] div length [17, 13 :: u64]) + idx in
        (\<Sum>i\<le>1. uint (lambdas ! j ! i) * uint (pc ! i ! k)) mod uint ([17, 13 :: u64] ! j) = uint ([5, 11, 3, 8 :: u64] ! k) mod uint ([17, 13 :: u64] ! j)"
    by auto
  have d: "length [5, 11, 3, 8 :: u64] div length [17, 13 :: u64] = 2" by code_simp
  have "(\<Sum>i\<le>1. uint (lambdas ! 1 ! i) * uint (pc ! i ! 3)) mod 13 = 8" using sums [of 1 1] by (simp only: d) (simp add: Let_def)
  then show ?thesis using run by auto
qed

section \<open>Plaintexts through the sharing\<close>

lemma field_to_int_small:
  assumes "prime_field P" and "998244353 \<le> pf_modulus P"
  shows "field_to_int P (int_to_field x) = x mod 998244353"
proof -
  have x: "0 \<le> x mod 998244353" "x mod 998244353 < 998244353" by simp_all
  then have "nat (x mod 998244353) < 998244353" by linarith
  moreover have "unat (word_of_int (x mod 998244353) :: u64) = nat (x mod 998244353)"
    using x by (simp add: unat_eq_nat_uint uint_word_of_int)
  then have field: "int_to_field x = of_nat (nat (x mod 998244353))" unfolding int_to_field_def pf_from_u64_def by (rule arg_cong)
  ultimately have "nat (x mod 998244353) < pf_modulus P" using assms(2) by linarith
  then have "pf_into P (int_to_field x) = nat (x mod 998244353)"
    unfolding field by (rule prime_field.into_small [OF assms(1)])
  then show ?thesis
    using x by (simp add: field_to_int_def sint_sbintrunc' signed_take_bit_int_eq_self)
qed

lemma share_values_sharing:
  assumes "good_committee c"
  shows "\<exists>ss g'. share_values F c xs g = Ok (ss, g') \<and> list_all2 (\<lambda>x s. val_sharing (threshold c) (points c) (int_to_field x) s) xs ss"
proof (induction xs arbitrary: g)
  case (Cons x xs)
  obtain s g1 where "committee_split F c (int_to_field x) g = Ok (s, g1)" "val_sharing (threshold c) (points c) (int_to_field x) s"
    by (rule committee_split_val [OF assms])
  moreover obtain ss g' where "share_values F c xs g1 = Ok (ss, g')"
      "list_all2 (\<lambda>x s. val_sharing (threshold c) (points c) (int_to_field x) s) xs ss" using Cons.IH by blast
  ultimately show ?case by auto
qed simp

lemma selection_reconstructs:
  assumes "good_committee c" "val_sharing (threshold c) (points c) v s"
    and "distinct sel" "set sel \<subseteq> {..<committee_size c}" "threshold c < length sel"
  shows "committee_reconstruct c (map (\<lambda>i. s ! i) sel) = Ok v"
proof -
  obtain f where f: "sharing (threshold c) f s" "f 0 = v" "map point s = points c" using assms(2) by (auto simp: val_sharing_sharing)
  have len: "length s = committee_size c" using arg_cong [OF f(3), of length] by (simp add: committee_size_def)
  then have at: "point (s ! i) = points c ! i" if "i < committee_size c" for i using that f(3) by (metis nth_map)
  have "map point (map (\<lambda>i. s ! i) sel) = map (\<lambda>i. points c ! i) sel" using at assms(4) by auto
  moreover have "distinct (points c)" using assms(1) by (simp add: good_committee_def good_points_def)
  ultimately have "distinct (map point (map (\<lambda>i. s ! i) sel))"
    using assms(3,4) by (auto simp: distinct_map inj_on_def subset_iff committee_size_def nth_eq_iff_index_eq)
  moreover have "set (map (\<lambda>i. s ! i) sel) \<subseteq> set s" using len assms(4) by auto
  ultimately show ?thesis
    using reconstruct_sharing [OF sharing_subset [OF f(1)], of "map (\<lambda>i. s ! i) sel" "threshold c + 1"] assms(5) f(2)
    by (simp add: committee_reconstruct_def)
qed

text \<open>
  Plaintexts survive the bridge: what the committee decrypts and shares, any selection of more than \<open>t\<close> parties
  turns back into an encryption of the same values modulo the plaintext modulus, negative ones included; neither
  direction panics or refuses.
\<close>

theorem plaintext_round_trip:
  assumes "prime_field P" and "998244353 \<le> pf_modulus P" and "good_committee c"
    and "fc_multiparty_decrypt ctx ct party_keys batch = Some xs"
    and "distinct sel" "set sel \<subseteq> {..<committee_size c}" "threshold c < length sel"
  shows "\<exists>shares g'. bfv_share_plaintext ctx F ct party_keys c batch g = Ok (shares, g') \<and> length shares = length xs
    \<and> bfv_shares_to_ciphertext ctx P kp (map (\<lambda>s. map (\<lambda>i. s ! i) sel) shares) c
        = ok_or () (fc_encrypt_int ctx kp (map (\<lambda>x. x mod 998244353) xs))"
proof -
  obtain ss g' where share: "share_values F c xs g = Ok (ss, g')"
    and ss: "list_all2 (\<lambda>x s. val_sharing (threshold c) (points c) (int_to_field x) s) xs ss"
    using share_values_sharing [OF assms(3), of F xs g] by auto
  have step: "bindR (mapE (\<lambda>_. ()) (committee_reconstruct c (map (\<lambda>i. s ! i) sel))) (\<lambda>f. Ok (field_to_int P f)) = Ok (x mod 998244353)"
    if "val_sharing (threshold c) (points c) (int_to_field x) s" for x s
    unfolding selection_reconstructs [OF assms(3) that assms(5-7)] by (simp add: field_to_int_small [OF assms(1,2)])
  have "mapR (\<lambda>s. bindR (mapE (\<lambda>_. ()) (committee_reconstruct c s)) (\<lambda>f. Ok (field_to_int P f))) (map (\<lambda>s. map (\<lambda>i. s ! i) sel) ss)
      = Ok (map (\<lambda>x. x mod 998244353) xs)"
    unfolding mapR_eq_Ok_iff list_all2_conv_all_nth
  proof (intro conjI allI impI)
    show "length (map (\<lambda>s. map (\<lambda>i. s ! i) sel) ss) = length (map (\<lambda>x. x mod 998244353) xs)"
      using list_all2_lengthD [OF ss] by simp
    fix i assume "i < length (map (\<lambda>s. map (\<lambda>i. s ! i) sel) ss)"
    then have i: "i < length ss" "i < length xs" using list_all2_lengthD [OF ss] by simp_all
    show "bindR (mapE (\<lambda>_. ()) (committee_reconstruct c (map (\<lambda>s. map (\<lambda>i. s ! i) sel) ss ! i))) (\<lambda>f. Ok (field_to_int P f))
        = Ok (map (\<lambda>x. x mod 998244353) xs ! i)"
      unfolding nth_map [OF i(1)] nth_map [OF i(2)] by (rule step [OF list_all2_nthD [OF ss i(2)]])
  qed
  then have "bfv_shares_to_ciphertext ctx P kp (map (\<lambda>s. map (\<lambda>i. s ! i) sel) ss) c
      = ok_or () (fc_encrypt_int ctx kp (map (\<lambda>x. x mod 998244353) xs))"
    by (simp only: bfv_shares_to_ciphertext_def bindR.simps)
  then show ?thesis using share list_all2_lengthD [OF ss] by (intro exI conjI) (auto simp: bfv_share_plaintext_def assms(4))
qed

theorem plaintext_round_trip_witness:
  "\<exists>shares g'. bfv_share_plaintext sample_context (prime_share_ops zp_draw) () [] (zp_committee 2 5) 2 0 = Ok (shares, g')
     \<and> bfv_shares_to_ciphertext sample_context zp_ops [] (map (\<lambda>s. map (\<lambda>i. s ! i) [4, 0, 3]) shares) (zp_committee 2 5) = Ok ()"
  using plaintext_round_trip [OF zp.prime_field_axioms _ good_zp_committee, of 2 5 sample_context "()" "[]" 2 "[7, -1]" "[4, 0, 3]"
      "prime_share_ops zp_draw" 0 "[]"]
  by (auto simp: zp_ops_def PLAINTEXT_MODULUS_def sample_context_def)

end
