(* ===== verification/Fhe_Backend.thy ===== *)
theory Fhe_Backend
  imports Bfv_Shamir Comparison Backend Manifest_Runtime Wide_Field
begin

text \<open>
  \<open>fhe/src/real_backend.rs\<close>: the backend over BFV ciphertexts and Shamir sharings that replaces the plaintext ones,
  both as \<open>ConfidentialBackend\<close> and as \<open>ManifestCryptoBackend\<close>.

  OpenFHE is the record \<open>bfv_context\<close> of the calls made through \<open>CkksContext\<close>, \<open>KeyPair\<close> and \<open>Ciphertext\<close>.
  \<open>Fr\<close> is any prime field whose \<open>BigInt\<close> has 32 bytes.  The generator behind the mutex is passed along.
  \<open>bfv_scheme\<close> states what an encryption scheme does to the slots of a ciphertext; it is a hypothesis of the
  theorems, and ignores the growth of noise.
\<close>

section \<open>The backend\<close>

record ('k, 'c) bfv_context = "('k, 'c) fhe_context" +
  fc_keygen_first :: "'k option"
  fc_keygen_next :: "'k \<Rightarrow> 'k option"
  fc_serialize_pubkey :: "'k \<Rightarrow> bytes option"
  fc_serialize :: "'c \<Rightarrow> bytes option"
  fc_deserialize :: "bytes \<Rightarrow> 'c option"
  fc_eval_add :: "'c \<Rightarrow> 'c \<Rightarrow> 'c option"
  fc_eval_sub :: "'c \<Rightarrow> 'c \<Rightarrow> 'c option"
  fc_share_partial :: "'c \<Rightarrow> 'k \<Rightarrow> bytes option"
  fc_shamir_fuse :: "bytes list \<Rightarrow> u64 list \<Rightarrow> nat \<Rightarrow> int list option"

text \<open>The fields of the struct, then the generic code it is instantiated with: the fields, the hash and the generator.\<close>

record ('f, 'g, 'k, 'c) fhe_mpc_backend =
  fb_ctx :: "('k, 'c) bfv_context"
  fb_party_keys :: "'k list"
  fb_committee_f :: "'f committee"
  fb_committee_b :: "F2 committee"
  fb_prime :: "'f prime_field_ops"
  fb_field :: "('f, 'g) share_field_ops"
  fb_bool :: "(F2, 'g) share_field_ops"
  fb_hmac :: hmac_fun
  fb_rng :: "'g rng_ops"
  fb_gen_bool :: "'g \<Rightarrow> bool \<times> 'g"

definition BATCH :: nat where "BATCH = 8"
definition THRESHOLD :: nat where "THRESHOLD = 2"
definition PARTIES :: nat where "PARTIES = 5"

definition BFV_MAX_AMOUNT :: u128 where "BFV_MAX_AMOUNT = (998244353 - 1) div 2"

definition expect_ok :: "('e, 'a) res \<Rightarrow> ('e2, 'a) res" where
  "expect_ok r = (case r of Ok x \<Rightarrow> Ok x | _ \<Rightarrow> Panic)"

definition invalid_encoding :: "('e, 'a) res \<Rightarrow> (backend_error, 'a) res" where
  "invalid_encoding r = mapE (\<lambda>_. BInvalidEncoding) r"

definition fhe_backend_new ::
  "'f::field prime_field_ops \<Rightarrow> ('f, 'g) share_field_ops \<Rightarrow> (F2, 'g) share_field_ops \<Rightarrow> hmac_fun \<Rightarrow> 'g rng_ops \<Rightarrow>
     ('g \<Rightarrow> bool \<times> 'g) \<Rightarrow> ('k, 'c) bfv_context option \<Rightarrow> (unit, ('f, 'g, 'k, 'c) fhe_mpc_backend) res"
where
  "fhe_backend_new P F B hmac R gen_bool bfv_new =
     bindR (expectR bfv_new) (\<lambda>ctx.
     bindR (expectR (fc_keygen_first ctx)) (\<lambda>k1.
     bindR (expectR (fc_keygen_next ctx k1)) (\<lambda>k2.
     bindR (expectR (fc_keygen_next ctx k2)) (\<lambda>k3.
     bindR (expect_ok (committee_new F THRESHOLD PARTIES)) (\<lambda>committee_f.
     bindR (expect_ok (committee_new B THRESHOLD PARTIES)) (\<lambda>committee_b.
       Ok \<lparr>fb_ctx = ctx, fb_party_keys = [k1, k2, k3], fb_committee_f = committee_f, fb_committee_b = committee_b,
           fb_prime = P, fb_field = F, fb_bool = B, fb_hmac = hmac, fb_rng = R, fb_gen_bool = gen_bool\<rparr>))))))"

section \<open>Handles\<close>

definition serialize_shares :: "'f prime_field_ops \<Rightarrow> 'f shamir_share list \<Rightarrow> bytes" where
  "serialize_shares P shares =
     le_bytes_nat 8 (length shares)
     @ concat (map (\<lambda>s. le_bytes_nat 32 (pf_into P (point s)) @ le_bytes_nat 32 (pf_into P (share_value s))) shares)"

text \<open>\<open>8 + n * w\<close> is computed in \<open>usize\<close>, with the overflow check of the debug profile.\<close>

definition expected_length :: "nat \<Rightarrow> nat \<Rightarrow> (unit, nat) res" where
  "expected_length n w = (if 2 ^ 64 \<le> n * w \<or> 2 ^ 64 \<le> 8 + n * w then Panic else Ok (8 + n * w))"

definition slice :: "nat \<Rightarrow> nat \<Rightarrow> bytes \<Rightarrow> bytes" where
  "slice i j bs = take (j - i) (drop i bs)"

definition deserialize_shares :: "bytes \<Rightarrow> (unit, 'f::field shamir_share list) res" where
  "deserialize_shares bs =
     (if length bs < 8 then Err ()
      else let n = le_value (slice 0 8 bs) in
        bindR (expected_length n 64) (\<lambda>expected.
          if length bs \<noteq> expected then Err ()
          else Ok (map (\<lambda>i. let off = 8 + i * 64 in
                 \<lparr>point = pf_from_le_bytes (slice off (off + 32) bs), share_value = pf_from_le_bytes (slice (off + 32) (off + 64) bs)\<rparr>)
               [0..<n])))"

definition serialize_bool_shares :: "F2 shamir_share list \<Rightarrow> bytes" where
  "serialize_bool_shares shares =
     le_bytes_nat 8 (length shares) @ concat (map (\<lambda>s. [f2_val (point s), f2_val (share_value s)]) shares)"

definition deserialize_bool_shares :: "bytes \<Rightarrow> (unit, F2 shamir_share list) res" where
  "deserialize_bool_shares bs =
     (if length bs < 8 then Err ()
      else let n = le_value (slice 0 8 bs) in
        bindR (expected_length n 2) (\<lambda>expected.
          if length bs \<noteq> expected then Err ()
          else Ok (map (\<lambda>i. let off = 8 + i * 2 in \<lparr>point = F2 (bs ! off), share_value = F2 (bs ! (off + 1))\<rparr>) [0..<n])))"

definition open_shares_bytes :: "bytes \<Rightarrow> (backend_error, 'f::field shamir_share list) res" where
  "open_shares_bytes m = invalid_encoding (deserialize_shares m)"

definition commit_digest :: "bytes \<Rightarrow> bytes list \<Rightarrow> commitment" where
  "commit_digest tag parts = concat (map (\<lambda>lane. u64_be (commit_lane (tag @ concat parts) lane)) [0, 1, 2, 3])"

section \<open>Ciphertexts\<close>

definition agg_key :: "('f, 'g, 'k, 'c) fhe_mpc_backend \<Rightarrow> (backend_error, 'k) res" where
  "agg_key be = (if fb_party_keys be = [] then Panic else Ok (last (fb_party_keys be)))"

definition public_key :: "('f, 'g, 'k, 'c) fhe_mpc_backend \<Rightarrow> (backend_error, bytes) res" where
  "public_key be = bindR (agg_key be) (\<lambda>k. ok_or BInvalidEncoding (fc_serialize_pubkey (fb_ctx be) k))"

definition encrypt_single :: "('f, 'g, 'k, 'c) fhe_mpc_backend \<Rightarrow> int \<Rightarrow> (backend_error, fhe_amount) res" where
  "encrypt_single be v =
     bindR (agg_key be) (\<lambda>k.
     bindR (ok_or BInvalidCiphertext (fc_encrypt_int (fb_ctx be) k ((replicate BATCH 0)[0 := v]))) (\<lambda>ct.
       ok_or BInvalidCiphertext (fc_serialize (fb_ctx be) ct)))"

definition decrypt_single :: "('f, 'g, 'k, 'c) fhe_mpc_backend \<Rightarrow> fhe_amount \<Rightarrow> (backend_error, u128) res" where
  "decrypt_single be fhe =
     bindR (ok_or BInvalidCiphertext (fc_deserialize (fb_ctx be) fhe)) (\<lambda>ct.
     bindR (ok_or BInvalidCiphertext (fc_multiparty_decrypt (fb_ctx be) ct (fb_party_keys be) BATCH)) (\<lambda>dec.
       Ok (word_of_int (case dec of [] \<Rightarrow> 0 | x # _ \<Rightarrow> x))))"

definition eval_fhe_binary ::
  "('f, 'g, 'k, 'c) fhe_mpc_backend \<Rightarrow> fhe_amount \<Rightarrow> fhe_amount \<Rightarrow> bool \<Rightarrow> (backend_error, fhe_amount) res"
where
  "eval_fhe_binary be left right subtract =
     bindR (ok_or BInvalidCiphertext (fc_deserialize (fb_ctx be) left)) (\<lambda>l.
     bindR (ok_or BInvalidCiphertext (fc_deserialize (fb_ctx be) right)) (\<lambda>r.
     bindR (ok_or BInvalidCiphertext
       (if subtract then fc_eval_sub (fb_ctx be) l r else fc_eval_add (fb_ctx be) l r)) (\<lambda>output.
       ok_or BInvalidCiphertext (fc_serialize (fb_ctx be) output))))"

definition fhe_encrypt_amount ::
  "('f, 'g, 'k, 'c) fhe_mpc_backend \<Rightarrow> u128 \<Rightarrow> private_account_id \<Rightarrow> asset_id \<Rightarrow> (backend_error, fhe_amount) res"
where
  "fhe_encrypt_amount be amount account asset =
     (if BFV_MAX_AMOUNT < amount then Err BOverflow else encrypt_single be (sint (ucast amount :: u64)))"

definition fhe_decrypt_for_owner ::
  "('f, 'g, 'k, 'c) fhe_mpc_backend \<Rightarrow> fhe_amount \<Rightarrow> private_account_id \<Rightarrow> bytes \<Rightarrow> (backend_error, u128) res"
where
  "fhe_decrypt_for_owner be ciphertext account authorization =
     (if authorization \<noteq> DEV_AUTHORIZATION then Err BUnauthorized else decrypt_single be ciphertext)"

section \<open>Shares\<close>

definition handoff_share ::
  "('f::field, 'g, 'k, 'c) fhe_mpc_backend \<Rightarrow> mpc_amount \<Rightarrow> 'f committee \<Rightarrow> 'g \<Rightarrow> (backend_error, mpc_amount \<times> 'g) res"
where
  "handoff_share be mpc new_committee g =
     bindR (open_shares_bytes mpc) (\<lambda>shares.
     bindR (invalid_encoding (reshare_pair_dealer (fb_field be) (fb_committee_f be) (threshold (fb_committee_f be))
              new_committee (threshold new_committee) g)) (\<lambda>(mask, g).
     bindR (invalid_encoding (basic_handoff shares mask (fb_committee_f be) new_committee)) (\<lambda>new_shares.
       Ok (serialize_shares (fb_prime be) new_shares, g))))"

definition reconstruct_mpc ::
  "('f::field, 'g, 'k, 'c) fhe_mpc_backend \<Rightarrow> mpc_amount \<Rightarrow> 'f committee \<Rightarrow> (backend_error, u128) res"
where
  "reconstruct_mpc be mpc committee =
     bindR (open_shares_bytes mpc) (\<lambda>shares.
     bindR (invalid_encoding (committee_reconstruct committee shares)) (\<lambda>v.
       Ok (word_of_int (field_to_int (fb_prime be) v))))"

definition fhe_share_amount ::
  "('f::field, 'g, 'k, 'c) fhe_mpc_backend \<Rightarrow> u128 \<Rightarrow> 'g \<Rightarrow> (backend_error, mpc_amount \<times> 'g) res"
where
  "fhe_share_amount be amount g =
     bindR (invalid_encoding (committee_split (fb_field be) (fb_committee_f be) (pf_from_u64 (ucast amount)) g)) (\<lambda>(shares, g).
       Ok (serialize_shares (fb_prime be) shares, g))"

definition combine_handles ::
  "('f \<Rightarrow> 'f \<Rightarrow> 'f) \<Rightarrow> ('f::field, 'g, 'k, 'c) fhe_mpc_backend \<Rightarrow> mpc_amount \<Rightarrow> mpc_amount \<Rightarrow> (backend_error, mpc_amount) res"
where
  "combine_handles op be left right =
     bindR (open_shares_bytes left) (\<lambda>l. bindR (open_shares_bytes right) (\<lambda>r.
       Ok (serialize_shares (fb_prime be) (zip_shares op l r))))"

definition fhe_checked_add ::
  "('f::field, 'g, 'k, 'c) fhe_mpc_backend \<Rightarrow> mpc_amount \<Rightarrow> mpc_amount \<Rightarrow> (backend_error, mpc_amount) res"
where
  "fhe_checked_add = combine_handles (+)"

definition fhe_checked_sub ::
  "('f::field, 'g, 'k, 'c) fhe_mpc_backend \<Rightarrow> mpc_amount \<Rightarrow> mpc_amount \<Rightarrow> (backend_error, mpc_amount) res"
where
  "fhe_checked_sub = combine_handles (-)"

definition ge_shares ::
  "('f::field, 'g, 'k, 'c) fhe_mpc_backend \<Rightarrow> mpc_amount \<Rightarrow> mpc_amount \<Rightarrow> 'g \<Rightarrow> (backend_error, F2 shamir_share list \<times> 'g) res"
where
  "ge_shares be left right g =
     bindR (open_shares_bytes left) (\<lambda>l. bindR (open_shares_bytes right) (\<lambda>r.
     bindR (invalid_encoding (generate_bit_extract_pair (fb_prime be) (fb_field be) (fb_bool be)
              (fb_committee_f be) (fb_committee_b be) g)) (\<lambda>(pair, g).
       invalid_encoding (greater_than_or_equal (fb_prime be) (fb_bool be) l r pair (fb_committee_f be) (fb_committee_b be) g))))"

definition secret_ge ::
  "('f::field, 'g, 'k, 'c) fhe_mpc_backend \<Rightarrow> mpc_amount \<Rightarrow> mpc_amount \<Rightarrow> 'g \<Rightarrow> (backend_error, bytes \<times> 'g) res"
where
  "secret_ge be left right g = bindR (ge_shares be left right g) (\<lambda>(shares, g). Ok (serialize_bool_shares shares, g))"

definition open_secret_bool :: "('f, 'g, 'k, 'c) fhe_mpc_backend \<Rightarrow> bytes \<Rightarrow> (backend_error, bool) res" where
  "open_secret_bool be bs =
     bindR (invalid_encoding (deserialize_bool_shares bs)) (\<lambda>shares.
     bindR (invalid_encoding (committee_reconstruct (fb_committee_b be) shares)) (\<lambda>b. Ok (b = F2 1)))"

definition fhe_greater_than_or_equal ::
  "('f::field, 'g, 'k, 'c) fhe_mpc_backend \<Rightarrow> mpc_amount \<Rightarrow> mpc_amount \<Rightarrow> 'g \<Rightarrow> (backend_error, bool \<times> 'g) res"
where
  "fhe_greater_than_or_equal be left right g =
     bindR (ge_shares be left right g) (\<lambda>(geq, g).
     bindR (invalid_encoding (committee_reconstruct (fb_committee_b be) geq)) (\<lambda>b. Ok (b = F2 1, g)))"

definition fhe_conditional_transfer ::
  "('f::field, 'g, 'k, 'c) fhe_mpc_backend \<Rightarrow> mpc_amount \<Rightarrow> mpc_amount \<Rightarrow> mpc_amount \<Rightarrow> mpc_amount \<Rightarrow> 'g
    \<Rightarrow> (backend_error, (mpc_amount \<times> mpc_amount) \<times> 'g) res"
where
  "fhe_conditional_transfer be sender receiver minimum amount g =
     bindR (open_shares_bytes sender) (\<lambda>s. bindR (open_shares_bytes receiver) (\<lambda>r.
     bindR (open_shares_bytes minimum) (\<lambda>m. bindR (open_shares_bytes amount) (\<lambda>a.
     bindR (invalid_encoding (generate_bit_extract_pair (fb_prime be) (fb_field be) (fb_bool be)
              (fb_committee_f be) (fb_committee_b be) g)) (\<lambda>(pair, g).
     bindR (invalid_encoding (Comparison.conditional_transfer_strictly_greater (fb_prime be) (fb_field be) (fb_bool be)
              (fb_hmac be) (fb_rng be) (fb_gen_bool be) s r m a pair (fb_committee_f be) (fb_committee_b be) g))
       (\<lambda>((s_new, r_new), g). Ok ((serialize_shares (fb_prime be) s_new, serialize_shares (fb_prime be) r_new), g)))))))"

section \<open>Between the two\<close>

definition fhe_to_mpc_single ::
  "('f::field, 'g, 'k, 'c) fhe_mpc_backend \<Rightarrow> fhe_amount \<Rightarrow> 'g \<Rightarrow> (backend_error, mpc_amount \<times> 'g) res"
where
  "fhe_to_mpc_single be ciphertext g =
     bindR (ok_or BInvalidCiphertext (fc_deserialize (fb_ctx be) ciphertext)) (\<lambda>ct.
     bindR (mapE (\<lambda>_. BInvalidCiphertext)
       (bfv_share_plaintext (fb_ctx be) (fb_field be) ct (fb_party_keys be) (fb_committee_f be) 1 g)) (\<lambda>(shares, g).
     bindR (ok_or BInvalidEncoding (case shares of [] \<Rightarrow> None | s # _ \<Rightarrow> Some s)) (\<lambda>single.
       Ok (serialize_shares (fb_prime be) single, g))))"

definition mpc_to_fhe_single ::
  "('f::field, 'g, 'k, 'c) fhe_mpc_backend \<Rightarrow> mpc_amount \<Rightarrow> private_account_id \<Rightarrow> asset_id \<Rightarrow> (backend_error, fhe_amount) res"
where
  "mpc_to_fhe_single be v account asset =
     bindR (open_shares_bytes v) (\<lambda>shares.
     bindR (invalid_encoding (committee_reconstruct (fb_committee_f be) shares)) (\<lambda>plaintext.
       encrypt_single be (field_to_int (fb_prime be) plaintext)))"

section \<open>Round trips of the handles\<close>

lemma concat_width: "(\<And>x. length (enc x) = w) \<Longrightarrow> length (concat (map enc xs)) = length xs * w"
  by (induction xs) auto

lemma chunk_of_concat:
  assumes "\<And>x. length (enc x) = w" and "i < length xs"
  shows "take w (drop (i * w) (concat (map enc xs))) = enc (xs ! i)"
  using assms(2)
proof (induction xs arbitrary: i)
  case (Cons x xs)
  then show ?case by (cases i) (simp_all add: assms(1))
qed simp

lemma nth_chunk:
  assumes "\<And>x. length (enc x) = w" and "i < length xs" and "k < w"
  shows "concat (map enc xs) ! (i * w + k) = enc (xs ! i) ! k"
proof -
  have "i * w + w \<le> length xs * w" using assms(2) mult_le_mono1 [of "Suc i" "length xs" w] by simp
  then have "i * w \<le> length (concat (map enc xs))" using concat_width [of enc w xs, OF assms(1)] by linarith
  then have "take w (drop (i * w) (concat (map enc xs))) ! k = concat (map enc xs) ! (i * w + k)"
    using assms(3) by (simp only: nth_take nth_drop)
  then show ?thesis using chunk_of_concat [of enc w i xs] assms(1,2) by simp
qed

lemma slice_chunk:
  assumes "length pre = 8" and "\<And>x. length (enc x) = w" and "i < length xs" and "a + b \<le> w"
  shows "slice (8 + i * w + a) (8 + i * w + a + b) (pre @ concat (map enc xs)) = take b (drop a (enc (xs ! i)))"
proof -
  have "take b (drop a (take w (drop (i * w) (concat (map enc xs))))) = take b (drop (a + i * w) (concat (map enc xs)))"
    using assms(4) by (simp add: drop_take min_def ac_simps)
  moreover have "8 + i * w + a - 8 = a + i * w" by simp
  ultimately show ?thesis
    using assms(1) chunk_of_concat [OF assms(2,3)] by (simp add: slice_def add.commute)
qed

lemma header_slice:
  assumes "n < 2 ^ 64"
  shows "le_value (slice 0 8 (le_bytes_nat 8 n @ bs)) = n"
  using assms by (simp add: slice_def le_value_le_bytes)

lemma expected_length_small: "n < 2 ^ 32 \<Longrightarrow> w \<le> 64 \<Longrightarrow> expected_length n w = Ok (8 + n * w)"
proof -
  assume a: "n < 2 ^ 32" "w \<le> 64"
  then have "n * w \<le> 2 ^ 32 * 64" by (intro mult_le_mono) simp_all
  then show ?thesis by (simp add: expected_length_def)
qed

lemma pf_from_le_into:
  assumes "prime_field P" and "pf_modulus P \<le> 256 ^ 32"
  shows "pf_from_le_bytes (le_bytes_nat 32 (pf_into P x)) = x"
proof -
  have "pf_into P x < 256 ^ 32" using prime_field.into_less [OF assms(1), of x] assms(2) by (rule less_le_trans)
  then show ?thesis by (simp add: pf_from_le_bytes_def le_value_le_bytes prime_field.of_nat_into [OF assms(1)] del: power_numeral)
qed

lemma deserialize_serialize:
  assumes "prime_field P" and "pf_modulus P \<le> 256 ^ 32" and "length shares < 2 ^ 32"
  shows "deserialize_shares (serialize_shares P shares) = Ok shares"
proof -
  let ?enc = "\<lambda>s. le_bytes_nat 32 (pf_into P (point s)) @ le_bytes_nat 32 (pf_into P (share_value s))"
  have small: "length shares < 2 ^ 64" using assms(3) by simp
  have len: "length (serialize_shares P shares) = 8 + length shares * 64"
    by (simp add: serialize_shares_def concat_width [of ?enc 64])
  have at: "slice (8 + i * 64) (8 + i * 64 + 32) (serialize_shares P shares) = le_bytes_nat 32 (pf_into P (point (shares ! i)))"
    "slice (8 + i * 64 + 32) (8 + i * 64 + 64) (serialize_shares P shares) = le_bytes_nat 32 (pf_into P (share_value (shares ! i)))"
    if "i < length shares" for i
    using slice_chunk [of "le_bytes_nat 8 (length shares)" ?enc 64 i shares 0 32]
      slice_chunk [of "le_bytes_nat 8 (length shares)" ?enc 64 i shares 32 32] that
    by (simp_all add: serialize_shares_def add.assoc)
  have "map (\<lambda>i. let off = 8 + i * 64 in
      \<lparr>point = pf_from_le_bytes (slice off (off + 32) (serialize_shares P shares)),
       share_value = pf_from_le_bytes (slice (off + 32) (off + 64) (serialize_shares P shares))\<rparr>) [0..<length shares] = shares"
    by (rule nth_equalityI) (simp_all add: Let_def at [simplified] pf_from_le_into [OF assms(1,2)])
  moreover have "le_value (slice 0 8 (serialize_shares P shares)) = length shares"
    unfolding serialize_shares_def by (rule header_slice [OF small])
  ultimately show ?thesis
    unfolding deserialize_shares_def len by (simp only: expected_length_small [OF assms(3)] Let_def) simp
qed

lemma deserialize_serialize_bool:
  assumes "length shares < 2 ^ 32"
  shows "deserialize_bool_shares (serialize_bool_shares shares) = Ok shares"
proof -
  let ?enc = "\<lambda>s. [f2_val (point s), f2_val (share_value s)]" and ?bs = "serialize_bool_shares shares"
  have small: "length shares < 2 ^ 64" using assms by simp
  have len: "length ?bs = 8 + length shares * 2"
    by (simp add: serialize_bool_shares_def concat_width [of ?enc 2])
  have at: "?bs ! (8 + i * 2 + k) = ?enc (shares ! i) ! k" if "i < length shares" "k < 2" for i k
    using nth_chunk [of ?enc 2 i shares k] that by (simp add: serialize_bool_shares_def nth_append)
  have "map (\<lambda>i. let off = 8 + i * 2 in \<lparr>point = F2 (?bs ! off), share_value = F2 (?bs ! (off + 1))\<rparr>) [0..<length shares] = shares"
    by (rule nth_equalityI) (simp_all add: Let_def at [of _ 0, simplified] at [of _ 1, simplified])
  moreover have "le_value (slice 0 8 ?bs) = length shares"
    unfolding serialize_bool_shares_def by (rule header_slice [OF small])
  ultimately show ?thesis
    unfolding deserialize_bool_shares_def len by (simp only: expected_length_small [OF assms] Let_def) simp
qed

text \<open>
  Handles read back: the bytes of any sharing deserialize to that sharing, accepted bytes have the length their count announces,
  and a count of \<open>2 ^ 58\<close> or more, which overflows the expected length, panics whatever follows it.
\<close>

theorem share_bytes_round_trip:
  fixes P :: "'f::field prime_field_ops"
  assumes "prime_field P" and "pf_modulus P \<le> 256 ^ 32"
  shows "(length shares < 2 ^ 32 \<longrightarrow> deserialize_shares (serialize_shares P shares) = Ok shares)
    \<and> (deserialize_shares bs = Ok (read :: 'f shamir_share list) \<longrightarrow> length bs = 8 + 64 * length read)
    \<and> (2 ^ 58 \<le> n \<longrightarrow> n < 2 ^ 64 \<longrightarrow> deserialize_shares (le_bytes_nat 8 n @ rest) = (Panic :: (unit, 'f shamir_share list) res))"
proof (intro conjI impI)
  show "deserialize_shares (serialize_shares P shares) = Ok shares" if "length shares < 2 ^ 32"
    by (rule deserialize_serialize [OF assms that])
  show "length bs = 8 + 64 * length read" if "deserialize_shares bs = Ok read"
    using that by (auto simp: deserialize_shares_def expected_length_def Let_def split: if_splits)
  show "deserialize_shares (le_bytes_nat 8 n @ rest) = (Panic :: (unit, 'f shamir_share list) res)" if n: "2 ^ 58 \<le> n" "n < 2 ^ 64"
  proof -
    have "2 ^ 64 \<le> n * 64" using n(1) by simp
    then show ?thesis by (simp add: deserialize_shares_def header_slice [OF n(2)] expected_length_def Let_def)
  qed
qed

theorem share_bytes_round_trip_witness:
  "deserialize_shares (serialize_shares wq_ops [\<lparr>point = 1, share_value = 7\<rparr>]) = Ok [\<lparr>point = 1, share_value = 7 :: wq\<rparr>]
    \<and> deserialize_shares (le_bytes_nat 8 (2 ^ 58)) = (Panic :: (unit, wq shamir_share list) res)"
proof -
  have m: "pf_modulus wq_ops \<le> 256 ^ 32" by (simp add: wq_ops_def WIDE_MODULUS_def)
  from share_bytes_round_trip [OF wq.prime_field_axioms m, of "[\<lparr>point = 1, share_value = 7\<rparr>]" "[]" "[]" "2 ^ 58" "[]"]
  show ?thesis by simp
qed

section \<open>What handles stand for\<close>

definition PLAINTEXT_BOUND :: nat where "PLAINTEXT_BOUND = 499122177"

definition centered :: "int \<Rightarrow> int" where
  "centered x = (let r = x mod 998244353 in if 499122176 < r then r - 998244353 else r)"

text \<open>
  What the calls do to the slots of a ciphertext, residues of the plaintext modulus: encryption under the aggregate key
  fills them, every party's key together opens them, centred around zero, additions act slotwise, and a serialized
  ciphertext is a nonempty string that reads back with the same slots.
\<close>

definition bfv_scheme :: "('k, 'c) bfv_context \<Rightarrow> 'k list \<Rightarrow> ('c \<Rightarrow> nat \<Rightarrow> int) \<Rightarrow> bool" where
  "bfv_scheme ctx keys slots \<longleftrightarrow>
     (\<forall>xs. length xs \<le> 8 \<longrightarrow> (\<exists>ct. fc_encrypt_int ctx (last keys) xs = Some ct \<and> (\<forall>i<length xs. slots ct i = xs ! i mod 998244353)))
     \<and> (\<forall>ct len. 0 < len \<longrightarrow> len \<le> 8 \<longrightarrow> fc_multiparty_decrypt ctx ct keys len = Some (map (\<lambda>i. centered (slots ct i)) [0..<len]))
     \<and> (\<forall>ct. \<exists>bs ct'. fc_serialize ctx ct = Some bs \<and> bs \<noteq> [] \<and> fc_deserialize ctx bs = Some ct' \<and> slots ct' = slots ct)
     \<and> (\<forall>a b. \<exists>ct. fc_eval_add ctx a b = Some ct \<and> (\<forall>i<8. slots ct i = (slots a i + slots b i) mod 998244353))
     \<and> (\<forall>a b. \<exists>ct. fc_eval_sub ctx a b = Some ct \<and> (\<forall>i<8. slots ct i = (slots a i - slots b i) mod 998244353))"

text \<open>Secrets below this bound are compared correctly and fit the low limb read back as an \<open>i64\<close>.\<close>

definition amount_limit :: "'f prime_field_ops \<Rightarrow> nat" where
  "amount_limit P = min (2 ^ 63) (pf_modulus P - 2 ^ (pf_bit_size P - 1))"

definition good_fhe_backend :: "('f::field, 'g, 'k, 'c) fhe_mpc_backend \<Rightarrow> ('c \<Rightarrow> nat \<Rightarrow> int) \<Rightarrow> bool" where
  "good_fhe_backend be slots \<longleftrightarrow>
     fb_party_keys be \<noteq> [] \<and> bfv_scheme (fb_ctx be) (fb_party_keys be) slots
     \<and> prime_field (fb_prime be) \<and> pf_modulus (fb_prime be) \<le> 256 ^ 32 \<and> PLAINTEXT_BOUND \<le> amount_limit (fb_prime be)
     \<and> good_committee (fb_committee_f be) \<and> boolean_committee (fb_committee_b be)
     \<and> committee_size (fb_committee_f be) = committee_size (fb_committee_b be)
     \<and> threshold (fb_committee_f be) = threshold (fb_committee_b be) \<and> committee_size (fb_committee_b be) < 2 ^ 32"

definition fhe_holds :: "('f, 'g, 'k, 'c) fhe_mpc_backend \<Rightarrow> ('c \<Rightarrow> nat \<Rightarrow> int) \<Rightarrow> nat \<Rightarrow> fhe_amount \<Rightarrow> bool" where
  "fhe_holds be slots a f \<longleftrightarrow> f \<noteq> [] \<and> a < PLAINTEXT_BOUND \<and> (\<exists>ct. fc_deserialize (fb_ctx be) f = Some ct \<and> slots ct 0 = int a)"

definition shares_hold :: "'f::field prime_field_ops \<Rightarrow> 'f committee \<Rightarrow> 'f \<Rightarrow> mpc_amount \<Rightarrow> bool" where
  "shares_hold P c v m \<longleftrightarrow> (\<exists>s. m = serialize_shares P s \<and> val_sharing (threshold c) (points c) v s)"

abbreviation mpc_holds :: "('f::field, 'g, 'k, 'c) fhe_mpc_backend \<Rightarrow> nat \<Rightarrow> mpc_amount \<Rightarrow> bool" where
  "mpc_holds be a m \<equiv> shares_hold (fb_prime be) (fb_committee_f be) (of_nat a) m"

definition bool_holds :: "('f, 'g, 'k, 'c) fhe_mpc_backend \<Rightarrow> bool \<Rightarrow> bytes \<Rightarrow> bool" where
  "bool_holds be b m \<longleftrightarrow> (\<exists>s. m = serialize_bool_shares s
     \<and> val_sharing (threshold (fb_committee_b be)) (points (fb_committee_b be)) (of_bool b) s)"

lemma serialize_nonempty [simp]: "serialize_shares P s \<noteq> []" "serialize_bool_shares bs \<noteq> []"
proof -
  have "le_bytes_nat 8 n \<noteq> []" for n by (metis length_le_bytes_nat list.size(3) zero_neq_numeral)
  then show "serialize_shares P s \<noteq> []" "serialize_bool_shares bs \<noteq> []"
    by (simp_all add: serialize_shares_def serialize_bool_shares_def)
qed

lemma holds_nonempty: "shares_hold P c v m \<Longrightarrow> m \<noteq> []" "bool_holds be b m \<Longrightarrow> m \<noteq> []"
  by (auto simp: shares_hold_def bool_holds_def)

lemma open_shares_hold:
  assumes "prime_field P" "pf_modulus P \<le> 256 ^ 32" "committee_size c < 2 ^ 32" "shares_hold P c v m"
  obtains s where "open_shares_bytes m = Ok s" "val_sharing (threshold c) (points c) v s"
proof -
  obtain s where s: "m = serialize_shares P s" "val_sharing (threshold c) (points c) v s" using assms(4) by (auto simp: shares_hold_def)
  then have "length s < 2 ^ 32" using val_sharing_length [OF s(2)] assms(3) by (simp add: committee_size_def)
  then have "open_shares_bytes m = Ok s"
    by (simp only: s(1) open_shares_bytes_def invalid_encoding_def deserialize_serialize [OF assms(1,2)] mapE.simps)
  then show ?thesis using s(2) by (rule that)
qed

lemma invalid_encoding_Ok [simp]: "invalid_encoding (Ok x) = Ok x"
  by (simp add: invalid_encoding_def)

lemma good_fhe_backendD:
  assumes "good_fhe_backend be slots"
  shows "fb_party_keys be \<noteq> []" "bfv_scheme (fb_ctx be) (fb_party_keys be) slots" "prime_field (fb_prime be)"
    "pf_modulus (fb_prime be) \<le> 256 ^ 32" "PLAINTEXT_BOUND \<le> amount_limit (fb_prime be)" "good_committee (fb_committee_f be)"
    "boolean_committee (fb_committee_b be)" "committee_size (fb_committee_f be) = committee_size (fb_committee_b be)"
    "threshold (fb_committee_f be) = threshold (fb_committee_b be)" "committee_size (fb_committee_f be) < 2 ^ 32"
    "committee_size (fb_committee_b be) < 2 ^ 32" "2 * threshold (fb_committee_f be) < committee_size (fb_committee_f be)"
proof -
  show cb: "boolean_committee (fb_committee_b be)" "committee_size (fb_committee_f be) = committee_size (fb_committee_b be)"
    "threshold (fb_committee_f be) = threshold (fb_committee_b be)"
    using assms unfolding good_fhe_backend_def by simp_all
  then show "2 * threshold (fb_committee_f be) < committee_size (fb_committee_f be)" by (simp add: boolean_committee.majority)
qed (use assms in \<open>simp_all add: good_fhe_backend_def\<close>)

lemma fits_i64:
  fixes n :: u128
  assumes "unat n < 499122177"
  shows "\<not> BFV_MAX_AMOUNT < n" "sint (ucast n :: u64) = int (unat n)"
proof -
  have "unat BFV_MAX_AMOUNT = 499122176" by (simp add: BFV_MAX_AMOUNT_def)
  then show "\<not> BFV_MAX_AMOUNT < n" using assms by (simp add: word_less_nat_alt)
  have n: "0 \<le> uint n" "uint n < 499122177" using assms unfolding unat_eq_nat_uint by (simp, linarith)
  then have "uint (ucast n :: u64) = uint n" by (simp add: unsigned_ucast_eq take_bit_int_eq_self)
  moreover have "- (2 ^ 63) \<le> uint n" by (rule order.trans [of _ 0]) simp_all
  then have "signed_take_bit 63 (uint n) = uint n" by (rule signed_take_bit_int_eq_self) (use n in simp)
  ultimately show "sint (ucast n :: u64) = int (unat n)" by (simp add: sint_uint)
qed

lemma mpc_open:
  assumes "good_fhe_backend be slots" "shares_hold (fb_prime be) (fb_committee_f be) v m"
  obtains s where "open_shares_bytes m = Ok s" "val_sharing (threshold (fb_committee_f be)) (points (fb_committee_f be)) v s"
  using open_shares_hold [OF good_fhe_backendD(3,4,10) [OF assms(1)] assms(2)] .

lemma bool_open:
  assumes good: "good_fhe_backend be slots" and m: "bool_holds be b m"
  shows "open_secret_bool be m = Ok b"
proof -
  obtain s where s: "m = serialize_bool_shares s"
    "val_sharing (threshold (fb_committee_b be)) (points (fb_committee_b be)) (of_bool b) s" using m by (auto simp: bool_holds_def)
  have "length s < 2 ^ 32" using val_sharing_length [OF s(2)] good_fhe_backendD(11) [OF good] by (simp add: committee_size_def)
  then have "deserialize_bool_shares m = Ok s" unfolding s(1) by (rule deserialize_serialize_bool)
  moreover have "committee_reconstruct (fb_committee_b be) s = Ok (of_bool b)"
    by (rule val_sharing_committee_reconstruct [OF boolean_committee.good [OF good_fhe_backendD(7) [OF good]] s(2)])
  moreover have "(of_bool b = F2 1) = b" by (cases b) (simp_all add: one_F2_def zero_F2_def)
  ultimately show ?thesis by (simp add: open_secret_bool_def)
qed

lemma limit_bounds:
  assumes "prime_field P" "a < amount_limit P"
  shows "a < 2 ^ 63" "a < 2 ^ (pf_bit_size P - 1)" "a < pf_modulus P" "pf_into P (of_nat a) = a"
    "a \<le> pf_modulus P - 2 ^ (pf_bit_size P - 1)"
proof -
  have "(2 :: nat) ^ pf_bit_size P = 2 * 2 ^ (pf_bit_size P - 1)" if "pf_bit_size P \<noteq> 0"
    using that by (cases "pf_bit_size P") simp_all
  moreover have "pf_bit_size P \<noteq> 0"
    using prime_field.bit_size(2) [OF assms(1)] prime_field.modulus_gt_2 [OF assms(1)] by (intro notI) simp
  ultimately have "pf_modulus P < 2 * 2 ^ (pf_bit_size P - 1)" using prime_field.bit_size(2) [OF assms(1)] by simp
  then show "a < 2 ^ (pf_bit_size P - 1)" "a < pf_modulus P" using assms(2) by (auto simp: amount_limit_def)
  then show "pf_into P (of_nat a) = a" by (simp add: prime_field.into_small [OF assms(1)])
  show "a < 2 ^ 63" "a \<le> pf_modulus P - 2 ^ (pf_bit_size P - 1)" using assms(2) by (auto simp: amount_limit_def)
qed

lemma field_to_int_limit: "prime_field P \<Longrightarrow> a < amount_limit P \<Longrightarrow> field_to_int P (of_nat a) = int a"
proof -
  assume a: "prime_field P" "a < amount_limit P"
  have "(of_nat a :: u64) = word_of_int (int a)" by simp
  then have "sint (of_nat a :: u64) = int a"
    using limit_bounds(1) [OF a] by (simp only: sint_sbintrunc') (simp add: signed_take_bit_int_eq_self)
  then show ?thesis by (simp add: field_to_int_def limit_bounds(4) [OF a])
qed

lemma reconstruct_mpc_holds:
  assumes good: "good_fhe_backend be slots" and m: "mpc_holds be a m" and a: "a < amount_limit (fb_prime be)"
  shows "reconstruct_mpc be m (fb_committee_f be) = Ok (of_nat a)"
proof -
  obtain s where s: "open_shares_bytes m = Ok s" "val_sharing (threshold (fb_committee_f be)) (points (fb_committee_f be)) (of_nat a) s"
    by (rule mpc_open [OF good m])
  have "committee_reconstruct (fb_committee_f be) s = Ok (of_nat a)"
    by (rule val_sharing_committee_reconstruct [OF good_fhe_backendD(6) [OF good] s(2)])
  then show ?thesis
    by (simp add: reconstruct_mpc_def s(1) field_to_int_limit [OF good_fhe_backendD(3) [OF good] a])
qed

lemma share_amount_holds:
  assumes good: "good_fhe_backend be slots" and a: "unat a < 2 ^ 64"
  obtains m g' where "fhe_share_amount be a g = Ok (m, g')" "mpc_holds be (unat a) m"
proof -
  have field: "pf_from_u64 (ucast a :: u64) = (of_nat (unat a) :: 'f::field)" using a by (simp add: pf_from_u64_def unsigned_ucast_eq take_bit_nat_eq_self)
  obtain s g' where "committee_split (fb_field be) (fb_committee_f be) (of_nat (unat a)) g = Ok (s, g')"
    "val_sharing (threshold (fb_committee_f be)) (points (fb_committee_f be)) (of_nat (unat a)) s"
    by (rule committee_split_val [OF good_fhe_backendD(6) [OF good]])
  then show ?thesis
    by (intro that [of "serialize_shares (fb_prime be) s" g']) (auto simp: fhe_share_amount_def field shares_hold_def)
qed

lemma combine_handles_holds:
  assumes good: "good_fhe_backend be slots"
    and "shares_hold (fb_prime be) (fb_committee_f be) v l" "shares_hold (fb_prime be) (fb_committee_f be) w r"
    and op: "\<And>d f h. pdeg d f \<Longrightarrow> pdeg d h \<Longrightarrow> pdeg d (\<lambda>x. op (f x) (h x))"
  obtains m where "combine_handles op be l r = Ok m" "shares_hold (fb_prime be) (fb_committee_f be) (op v w) m"
proof -
  obtain s t where "open_shares_bytes l = Ok s" "val_sharing (threshold (fb_committee_f be)) (points (fb_committee_f be)) v s"
    "open_shares_bytes r = Ok t" "val_sharing (threshold (fb_committee_f be)) (points (fb_committee_f be)) w t"
    by (rule mpc_open [OF good assms(2)], rule mpc_open [OF good assms(3)]) blast
  moreover from this have "val_sharing (threshold (fb_committee_f be)) (points (fb_committee_f be)) (op v w) (zip_shares op s t)"
    using op by (intro val_sharing_zip)
  ultimately show ?thesis
    by (intro that [of "serialize_shares (fb_prime be) (zip_shares op s t)"]) (auto simp: combine_handles_def shares_hold_def)
qed

lemma ge_shares_holds:
  assumes good: "good_fhe_backend be slots" and "mpc_holds be a l" "mpc_holds be b r"
    and lim: "a < amount_limit (fb_prime be)" "b < amount_limit (fb_prime be)"
  obtains s g' where "ge_shares be l r g = Ok (s, g')"
    "val_sharing (threshold (fb_committee_b be)) (points (fb_committee_b be)) (of_bool (b \<le> a)) s"
proof -
  let ?P = "fb_prime be" and ?F = "fb_field be" and ?B = "fb_bool be" and ?cf = "fb_committee_f be" and ?cb = "fb_committee_b be"
  note P = good_fhe_backendD(3) [OF good] and cf = good_fhe_backendD(6,8,9) [OF good] and cb = good_fhe_backendD(7) [OF good]
  obtain s t where st: "open_shares_bytes l = Ok s" "val_sharing (threshold ?cf) (points ?cf) (of_nat a) s"
    "open_shares_bytes r = Ok t" "val_sharing (threshold ?cf) (points ?cf) (of_nat b) t"
    by (rule mpc_open [OF good assms(2)], rule mpc_open [OF good assms(3)]) blast
  obtain pair g1 where pair: "generate_bit_extract_pair ?P ?F ?B ?cf ?cb g = Ok (pair, g1)"
    "boolean_committee.pair_for ?cb ?cf (bigint_bits_le ?P (fst (sf_rand ?F g))) (fst (sf_rand ?F g)) pair"
    by (rule boolean_committee.generate_bit_extract_pair_for [OF cb cf(1)])
  obtain out g' where out: "greater_than_or_equal ?P ?B s t pair ?cf ?cb g1 = Ok (out, g')"
    "val_sharing (threshold ?cb) (points ?cb) (of_bool (\<not> bit (pf_into ?P (of_nat a - of_nat b)) (pf_bit_size ?P - 1))) out"
    by (rule boolean_committee.greater_than_or_equal_val [OF cb P cf st(2,4) pair(2)])
  have "(\<not> bit (pf_into ?P (of_nat a - of_nat b)) (pf_bit_size ?P - 1)) = (b \<le> a)"
    using prime_field.top_bit_diff [OF P, of "of_nat a" "of_nat b"] limit_bounds [OF P lim(1)] limit_bounds [OF P lim(2)] by auto
  with out show ?thesis
    by (intro that) (auto simp: ge_shares_def st pair(1))
qed

lemma secret_ge_holds:
  assumes "good_fhe_backend be slots" "mpc_holds be a l" "mpc_holds be b r" "a < amount_limit (fb_prime be)" "b < amount_limit (fb_prime be)"
  obtains bs g' where "secret_ge be l r g = Ok (bs, g')" "bool_holds be (b \<le> a) bs"
proof -
  obtain s g' where "ge_shares be l r g = Ok (s, g')"
    "val_sharing (threshold (fb_committee_b be)) (points (fb_committee_b be)) (of_bool (b \<le> a)) s"
    by (rule ge_shares_holds [OF assms])
  then show ?thesis by (intro that [of "serialize_bool_shares s" g']) (auto simp: secret_ge_def bool_holds_def)
qed

section \<open>Ciphertext handles\<close>

lemma bfv_schemeD:
  assumes "bfv_scheme ctx keys slots"
  shows "length xs \<le> 8 \<Longrightarrow> \<exists>ct. fc_encrypt_int ctx (last keys) xs = Some ct \<and> (\<forall>i<length xs. slots ct i = xs ! i mod 998244353)"
    "0 < len \<Longrightarrow> len \<le> 8 \<Longrightarrow> fc_multiparty_decrypt ctx ct keys len = Some (map (\<lambda>i. centered (slots ct i)) [0..<len])"
    "\<exists>bs ct'. fc_serialize ctx ct = Some bs \<and> bs \<noteq> [] \<and> fc_deserialize ctx bs = Some ct' \<and> slots ct' = slots ct"
    "\<exists>ct. fc_eval_add ctx a b = Some ct \<and> (\<forall>i<8. slots ct i = (slots a i + slots b i) mod 998244353)"
    "\<exists>ct. fc_eval_sub ctx a b = Some ct \<and> (\<forall>i<8. slots ct i = (slots a i - slots b i) mod 998244353)"
  using assms unfolding bfv_scheme_def by blast+

lemma centered_small: "a < PLAINTEXT_BOUND \<Longrightarrow> centered (int a) = int a"
  by (simp add: centered_def PLAINTEXT_BOUND_def)

lemma serialized_holds:
  assumes "good_fhe_backend be slots" "slots ct 0 = int a" "a < PLAINTEXT_BOUND"
  obtains f where "fc_serialize (fb_ctx be) ct = Some f" "fhe_holds be slots a f"
  using bfv_schemeD(3) [OF good_fhe_backendD(2) [OF assms(1)], of ct] assms(2,3) that by (auto simp: fhe_holds_def)

lemma encrypt_single_holds:
  assumes good: "good_fhe_backend be slots" and a: "a < PLAINTEXT_BOUND"
  obtains f where "encrypt_single be (int a) = Ok f" "fhe_holds be slots a f"
proof -
  obtain ct where ct: "fc_encrypt_int (fb_ctx be) (last (fb_party_keys be)) ((replicate BATCH 0)[0 := int a]) = Some ct"
    "\<forall>i<8. slots ct i = (replicate 8 0)[0 := int a] ! i mod 998244353"
    using bfv_schemeD(1) [OF good_fhe_backendD(2) [OF good], of "(replicate BATCH 0)[0 := int a]"] by (auto simp: BATCH_def)
  then have "slots ct 0 = (replicate 8 0)[0 := int a] ! 0 mod 998244353" by (elim allE [of _ 0] impE) simp_all
  then have "slots ct 0 = int a" using a by (simp add: PLAINTEXT_BOUND_def)
  then obtain f where f: "fc_serialize (fb_ctx be) ct = Some f" "fhe_holds be slots a f" by (rule serialized_holds [OF good _ a])
  show ?thesis using f ct(1) good_fhe_backendD(1) [OF good] by (intro that [of f]) (simp_all add: encrypt_single_def agg_key_def)
qed

lemma decrypt_single_holds:
  assumes good: "good_fhe_backend be slots" and f: "fhe_holds be slots a f"
  shows "decrypt_single be f = Ok (of_nat a)"
proof -
  obtain ct where ct: "fc_deserialize (fb_ctx be) f = Some ct" "slots ct 0 = int a" "a < PLAINTEXT_BOUND" using f by (auto simp: fhe_holds_def)
  have "fc_multiparty_decrypt (fb_ctx be) ct (fb_party_keys be) BATCH = Some (map (\<lambda>i. centered (slots ct i)) [0..<8])"
    unfolding BATCH_def by (rule bfv_schemeD(2) [OF good_fhe_backendD(2) [OF good]]) simp_all
  then show ?thesis using ct centered_small [OF ct(3)] by (simp add: decrypt_single_def upt_rec)
qed

lemma eval_binary_holds:
  assumes good: "good_fhe_backend be slots" and "fhe_holds be slots a l" "fhe_holds be slots b r"
    and c: "int c = (if subtract then int a - int b else int a + int b)" "c < PLAINTEXT_BOUND"
  obtains f where "eval_fhe_binary be l r subtract = Ok f" "fhe_holds be slots c f"
proof -
  obtain x y where xy: "fc_deserialize (fb_ctx be) l = Some x" "slots x 0 = int a" "fc_deserialize (fb_ctx be) r = Some y" "slots y 0 = int b"
    using assms(2,3) by (auto simp: fhe_holds_def)
  note scheme = good_fhe_backendD(2) [OF good]
  obtain ct where ct: "(if subtract then fc_eval_sub (fb_ctx be) x y else fc_eval_add (fb_ctx be) x y) = Some ct"
    "slots ct 0 = (if subtract then int a - int b else int a + int b) mod 998244353"
    using bfv_schemeD(4,5) [OF scheme, of x y] xy(2,4) by (cases subtract) force+
  have "slots ct 0 = int c" unfolding ct(2) c(1) [symmetric] using c(2) by (simp add: PLAINTEXT_BOUND_def)
  then obtain f where "fc_serialize (fb_ctx be) ct = Some f" "fhe_holds be slots c f" by (rule serialized_holds [OF good _ c(2)])
  then show ?thesis using ct(1) xy(1,3) by (intro that [of f]) (auto simp: eval_fhe_binary_def split: if_splits)
qed

lemma fhe_to_mpc_holds:
  assumes good: "good_fhe_backend be slots" and f: "fhe_holds be slots a f"
  obtains m g' where "fhe_to_mpc_single be f g = Ok (m, g')" "mpc_holds be a m"
proof -
  obtain ct where ct: "fc_deserialize (fb_ctx be) f = Some ct" "slots ct 0 = int a" "a < PLAINTEXT_BOUND" using f by (auto simp: fhe_holds_def)
  have dec: "fc_multiparty_decrypt (fb_ctx be) ct (fb_party_keys be) 1 = Some [int a]"
    using bfv_schemeD(2) [OF good_fhe_backendD(2) [OF good], of 1 ct] ct centered_small [OF ct(3)] by simp
  have field: "int_to_field (int a) = (of_nat a :: 'f::field)"
    using ct(3) by (simp add: int_to_field_def pf_from_u64_def PLAINTEXT_BOUND_def unat_of_nat)
  obtain s g' where "committee_split (fb_field be) (fb_committee_f be) (of_nat a) g = Ok (s, g')"
    "val_sharing (threshold (fb_committee_f be)) (points (fb_committee_f be)) (of_nat a) s"
    by (rule committee_split_val [OF good_fhe_backendD(6) [OF good]])
  then show ?thesis
    by (intro that [of "serialize_shares (fb_prime be) s" g'])
      (auto simp: fhe_to_mpc_single_def ct(1) bfv_share_plaintext_def dec [unfolded One_nat_def] field shares_hold_def)
qed

lemma mpc_to_fhe_holds:
  assumes good: "good_fhe_backend be slots" and m: "mpc_holds be a m" and a: "a < PLAINTEXT_BOUND"
  obtains f where "mpc_to_fhe_single be m account asset = Ok f" "fhe_holds be slots a f"
proof -
  obtain s where s: "open_shares_bytes m = Ok s" "val_sharing (threshold (fb_committee_f be)) (points (fb_committee_f be)) (of_nat a) s"
    by (rule mpc_open [OF good m])
  have rec: "committee_reconstruct (fb_committee_f be) s = Ok (of_nat a)"
    by (rule val_sharing_committee_reconstruct [OF good_fhe_backendD(6) [OF good] s(2)])
  have "field_to_int (fb_prime be) (of_nat a) = int a"
    using good_fhe_backendD(5) [OF good] a by (intro field_to_int_limit [OF good_fhe_backendD(3) [OF good]]) simp
  with encrypt_single_holds [OF good a] s(1) rec that show ?thesis by (metis bindR.simps(1) invalid_encoding_Ok mpc_to_fhe_single_def)
qed

lemma eval_sub_underflow:
  assumes good: "good_fhe_backend be slots" and "fhe_holds be slots a l" "fhe_holds be slots b r" and less: "a < b"
  obtains f where "eval_fhe_binary be l r True = Ok f" "f \<noteq> []" "decrypt_single be f = Ok (word_of_int (int a - int b))"
proof -
  note scheme = good_fhe_backendD(2) [OF good]
  obtain x y where xy: "fc_deserialize (fb_ctx be) l = Some x" "slots x 0 = int a" "fc_deserialize (fb_ctx be) r = Some y" "slots y 0 = int b"
    and b: "b < PLAINTEXT_BOUND" using assms(2,3) by (auto simp: fhe_holds_def)
  obtain ct where ct: "fc_eval_sub (fb_ctx be) x y = Some ct" "slots ct 0 = (int a - int b) mod 998244353"
    using bfv_schemeD(5) [OF scheme, of x y] xy(2,4) by force
  obtain f ct' where f: "fc_serialize (fb_ctx be) ct = Some f" "f \<noteq> []" "fc_deserialize (fb_ctx be) f = Some ct'" "slots ct' = slots ct"
    using bfv_schemeD(3) [OF scheme, of ct] by blast
  have dec: "fc_multiparty_decrypt (fb_ctx be) ct' (fb_party_keys be) BATCH = Some (map (\<lambda>i. centered (slots ct' i)) [0..<8])"
    unfolding BATCH_def by (rule bfv_schemeD(2) [OF scheme]) simp_all
  have "(int a - int b) mod 998244353 = int a - int b + 998244353"
    using mod_pos_pos_trivial [of "int a - int b + 998244353" 998244353] less b by (simp add: PLAINTEXT_BOUND_def)
  then have "centered (slots ct' 0) = int a - int b"
    using less b by (simp add: centered_def f(4) ct(2) PLAINTEXT_BOUND_def)
  then have "decrypt_single be f = Ok (word_of_int (int a - int b))" using f(3) dec by (simp add: decrypt_single_def upt_rec)
  then show ?thesis using f(1,2) ct(1) xy(1,3) by (intro that [of f]) (simp_all add: eval_fhe_binary_def)
qed

section \<open>A transparent scheme\<close>

text \<open>Ciphertexts that are the bytes of their slots, four per slot: an instance of the hypotheses for concrete runs.\<close>

definition clear_slots :: "bytes \<Rightarrow> nat \<Rightarrow> int" where
  "clear_slots ct i = int (le_value (take 4 (drop (i * 4) ct))) mod 998244353"

definition clear_encode :: "int list \<Rightarrow> bytes" where
  "clear_encode xs = concat (map (\<lambda>x. le_bytes_nat 4 (nat (x mod 998244353))) xs)"

definition clear_context :: "(unit, bytes) bfv_context" where
  "clear_context =
     \<lparr>fc_extract_coeffs = (\<lambda>_. None), fc_extract_moduli = (\<lambda>_. None), fc_make_secret = (\<lambda>_. None),
      fc_multiparty_decrypt = (\<lambda>ct _ len. Some (map (\<lambda>i. centered (clear_slots ct i)) [0..<len])),
      fc_shamir_decrypt = (\<lambda>_ _ _ _. None), fc_encrypt_int = (\<lambda>_ xs. Some (clear_encode xs)),
      fc_keygen_first = Some (), fc_keygen_next = Some, fc_serialize_pubkey = (\<lambda>_. Some [1]),
      fc_serialize = (\<lambda>ct. Some (1 # ct)), fc_deserialize = (\<lambda>bs. case bs of [] \<Rightarrow> None | _ # ct \<Rightarrow> Some ct),
      fc_eval_add = (\<lambda>a b. Some (clear_encode (map (\<lambda>i. clear_slots a i + clear_slots b i) [0..<8]))),
      fc_eval_sub = (\<lambda>a b. Some (clear_encode (map (\<lambda>i. clear_slots a i - clear_slots b i) [0..<8]))),
      fc_share_partial = (\<lambda>ct _. Some ct), fc_shamir_fuse = (\<lambda>_ _ _. None)\<rparr>"

definition clear_backend :: "(wq, nat, unit, bytes) fhe_mpc_backend" where
  "clear_backend =
     \<lparr>fb_ctx = clear_context, fb_party_keys = [()], fb_committee_f = wq_committee 2 5, fb_committee_b = f2_committee 2 5,
      fb_prime = wq_ops, fb_field = prime_share_ops wq_draw, fb_bool = f2_ops counter_rng, fb_hmac = (\<lambda>k n. k @ n),
      fb_rng = counter_rng, fb_gen_bool = (\<lambda>g. (odd g, Suc g))\<rparr>"

lemma clear_slots_encode: "i < length xs \<Longrightarrow> clear_slots (clear_encode xs) i = xs ! i mod 998244353"
proof -
  assume i: "i < length xs"
  have "le_value (take 4 (drop (i * 4) (clear_encode xs))) = nat (xs ! i mod 998244353) mod 256 ^ 4"
    unfolding clear_encode_def by (subst chunk_of_concat [OF _ i]) (simp_all add: le_value_le_bytes)
  moreover have "nat (xs ! i mod 998244353) < 256 ^ 4" by (simp add: nat_less_iff)
  ultimately show ?thesis by (simp add: clear_slots_def)
qed

lemma clear_scheme: "bfv_scheme clear_context keys clear_slots"
  unfolding bfv_scheme_def by (simp add: clear_context_def clear_slots_encode)

lemma good_clear_backend: "good_fhe_backend clear_backend clear_slots"
  by (simp add: good_fhe_backend_def clear_backend_def clear_scheme wq.prime_field_axioms good_wq_committee boolean_f2_committee) (simp add: wq_ops_def WIDE_MODULUS_def amount_limit_def PLAINTEXT_BOUND_def)

end
