(* ===== verification/Fhe_Manifest.thy ===== *)
theory Fhe_Manifest
  imports Fhe_Backend
begin

text \<open>
  \<open>fhe/src/real_backend.rs\<close> as a backend of compiled manifests, against the development backend of
  \<open>runtime/src/manifest.rs\<close>.  \<open>represents\<close> relates a value of the one to a value of the other; every operator keeps
  it as long as amounts stay in range.  Out of range the two differ, as the last section shows.
\<close>

section \<open>The operators\<close>

definition manifest_backend_error :: "backend_error \<Rightarrow> manifest_runtime_error" where
  "manifest_backend_error e =
     (case e of BOverflow \<Rightarrow> MOverflow | BInsufficientBalance \<Rightarrow> MUnderflow | _ \<Rightarrow> MInvalidValue)"

abbreviation backend_call :: "(backend_error, 'a) res \<Rightarrow> (manifest_runtime_error, 'a) res" where
  "backend_call \<equiv> mapE manifest_backend_error"

definition fhe_one :: "manifest_value list \<Rightarrow> (manifest_runtime_error, manifest_value) res" where
  "fhe_one args = (if length args \<noteq> 1 then Err MInvalidManifest else Ok (args ! 0))"

definition fhe_two :: "manifest_value list \<Rightarrow> (manifest_runtime_error, manifest_value \<times> manifest_value) res" where
  "fhe_two args = (if length args \<noteq> 2 then Err MInvalidManifest else Ok (args ! 0, args ! 1))"

definition require_type :: "manifest_value \<Rightarrow> value_type \<Rightarrow> (manifest_runtime_error, unit) res" where
  "require_type v expected = (if mv_type v \<noteq> expected then Err MTypeMismatch else Ok ())"

definition public_u128 :: "manifest_value \<Rightarrow> (manifest_runtime_error, u128) res" where
  "public_u128 v =
     bindR (require_type v TUint) (\<lambda>_. if length (mv_bytes v) \<noteq> 16 then Err MInvalidValue else Ok (u128_of_be (mv_bytes v)))"

definition two_of :: "value_type \<Rightarrow> manifest_value list \<Rightarrow> (manifest_runtime_error, bytes \<times> bytes) res" where
  "two_of ty args =
     bindR (fhe_two args) (\<lambda>(l, r). bindR (require_type l ty) (\<lambda>_. bindR (require_type r ty) (\<lambda>_. Ok (mv_bytes l, mv_bytes r))))"

definition manifest_account :: private_account_id where "manifest_account = replicate 32 0"
definition manifest_asset :: asset_id where "manifest_asset = replicate 20 0"

text \<open>A value that draws no randomness keeps the generator.\<close>

definition keep :: "'g \<Rightarrow> ('e, 'a) res \<Rightarrow> ('e, 'a \<times> 'g) res" where
  "keep g r = bindR r (\<lambda>v. Ok (v, g))"

definition protect :: "value_type \<Rightarrow> bytes \<times> 'g \<Rightarrow> (manifest_runtime_error, manifest_value \<times> 'g) res" where
  "protect ty = (\<lambda>(bs, g). keep g (mv_protected ty bs))"

definition fhe_ge_operator ::
  "('f::field, 'g, 'k, 'c) fhe_mpc_backend \<Rightarrow> manifest_value list \<Rightarrow> 'g \<Rightarrow> (manifest_runtime_error, manifest_value \<times> 'g) res"
where
  "fhe_ge_operator be args g =
     bindR (two_of TFheUint args) (\<lambda>(l, r).
     bindR (backend_call (fhe_to_mpc_single be l g)) (\<lambda>(left, g).
     bindR (backend_call (fhe_to_mpc_single be r g)) (\<lambda>(right, g).
     bindR (backend_call (secret_ge be left right g)) (protect TFheBool))))"

definition h2s_operator ::
  "('f::field, 'g, 'k, 'c) fhe_mpc_backend \<Rightarrow> manifest_value list \<Rightarrow> 'g \<Rightarrow> (manifest_runtime_error, manifest_value \<times> 'g) res"
where
  "h2s_operator be args g =
     bindR (fhe_one args) (\<lambda>v.
       case mv_type v of
         TFheUint \<Rightarrow> bindR (backend_call (fhe_to_mpc_single be (mv_bytes v) g)) (protect TSint)
       | TFheBool \<Rightarrow> protect TSecretBool (mv_bytes v, g)
       | _ \<Rightarrow> Err MTypeMismatch)"

definition fhe_evaluate ::
  "('f::field, 'g, 'k, 'c) fhe_mpc_backend \<Rightarrow> string \<Rightarrow> manifest_value list \<Rightarrow> 'g \<Rightarrow> (manifest_runtime_error, manifest_value \<times> 'g) res"
where
  "fhe_evaluate be opcode args g =
     (if opcode = ''fhe.encrypt'' then
        bindR (bindR (fhe_one args) public_u128) (\<lambda>v.
        bindR (backend_call (fhe_encrypt_amount be v manifest_account manifest_asset)) (\<lambda>bs. protect TFheUint (bs, g)))
      else if opcode \<in> {''fhe.add'', ''fhe.sub''} then
        bindR (two_of TFheUint args) (\<lambda>(l, r).
        bindR (backend_call (eval_fhe_binary be l r (opcode = ''fhe.sub''))) (\<lambda>bs. protect TFheUint (bs, g)))
      else if opcode = ''fhe.ge'' then fhe_ge_operator be args g
      else if opcode \<in> {''mpc.add'', ''mpc.sub''} then
        bindR (two_of TSint args) (\<lambda>(l, r).
        bindR (backend_call (if opcode = ''mpc.add'' then fhe_checked_add be l r else fhe_checked_sub be l r))
          (\<lambda>bs. protect TSint (bs, g)))
      else if opcode = ''mpc.ge'' then
        bindR (two_of TSint args) (\<lambda>(l, r). bindR (backend_call (secret_ge be l r g)) (protect TSecretBool))
      else if opcode = ''convert.h2s'' then h2s_operator be args g
      else if opcode = ''convert.s2h'' then
        bindR (fhe_one args) (\<lambda>v. bindR (require_type v TSint) (\<lambda>_.
        bindR (backend_call (mpc_to_fhe_single be (mv_bytes v) manifest_account manifest_asset)) (\<lambda>bs. protect TFheUint (bs, g))))
      else Err MUnsupportedOperator)"

definition fhe_secret_bool :: "('f, 'g, 'k, 'c) fhe_mpc_backend \<Rightarrow> manifest_value \<Rightarrow> (manifest_runtime_error, bool) res" where
  "fhe_secret_bool be v = bindR (require_type v TSecretBool) (\<lambda>_. backend_call (open_secret_bool be (mv_bytes v)))"

definition FHE_OPENED_PREFIX :: bytes where "FHE_OPENED_PREFIX = ascii ''PPSC_MANIFEST_OPENED_U128_V1''"

definition fhe_pick ::
  "('f::field, 'g, 'k, 'c) fhe_mpc_backend \<Rightarrow> manifest_value \<Rightarrow> (manifest_runtime_error, manifest_value) res"
where
  "fhe_pick be v =
     bindR (require_type v TSint) (\<lambda>_.
     bindR (backend_call (reconstruct_mpc be (mv_bytes v) (fb_committee_f be))) (\<lambda>amount.
       mv_protected TOpened (FHE_OPENED_PREFIX @ u128_be amount)))"

section \<open>Values of the two backends\<close>

inductive represents ::
  "('f::field, 'g, 'k, 'c) fhe_mpc_backend \<Rightarrow> ('c \<Rightarrow> nat \<Rightarrow> int) \<Rightarrow> manifest_value \<Rightarrow> manifest_value \<Rightarrow> bool"
  for be slots
where
  rep_public: "represents be slots (mv_public_uint a) (mv_public_uint a)"
| rep_ciphertext: "fhe_holds be slots (unat a) f \<Longrightarrow> represents be slots (fhe_uint a) \<lparr>mv_type = TFheUint, mv_bytes = f\<rparr>"
| rep_secret: "mpc_holds be (unat a) m \<Longrightarrow> unat a < amount_limit (fb_prime be) \<Longrightarrow>
    represents be slots (secret_uint a) \<lparr>mv_type = TSint, mv_bytes = m\<rparr>"
| rep_encrypted_bit: "bool_holds be b m \<Longrightarrow>
    represents be slots (encoded TFheBool FHE_BOOL_PREFIX (bool_byte b)) \<lparr>mv_type = TFheBool, mv_bytes = m\<rparr>"
| rep_secret_bit: "bool_holds be b m \<Longrightarrow>
    represents be slots (encoded TSecretBool SS_BOOL_PREFIX (bool_byte b)) \<lparr>mv_type = TSecretBool, mv_bytes = m\<rparr>"
| rep_opened: "represents be slots (encoded TOpened OPENED_PREFIX (u128_be a)) \<lparr>mv_type = TOpened, mv_bytes = FHE_OPENED_PREFIX @ u128_be a\<rparr>"

definition in_range :: "'f prime_field_ops \<Rightarrow> manifest_value \<Rightarrow> bool" where
  "in_range P v =
     (case open_for_tests v of
        Ok a \<Rightarrow> (if mv_type v = TFheUint then unat a < PLAINTEXT_BOUND else mv_type v = TSint \<longrightarrow> unat a < amount_limit P)
      | _ \<Rightarrow> True)"

lemma in_range_simps [simp]:
  "in_range P (fhe_uint a) \<longleftrightarrow> unat a < PLAINTEXT_BOUND" "in_range P (secret_uint a) \<longleftrightarrow> unat a < amount_limit P"
  by (simp_all add: in_range_def open_for_tests_def fhe_uint_def secret_uint_def)

lemma lengths_differ:
  "mv_decode_u128 (mv_public_uint a) FHE_UINT_PREFIX \<noteq> Ok c" "mv_decode_u128 (mv_public_uint a) SS_UINT_PREFIX \<noteq> Ok c"
  "mv_decode_u128 (secret_uint a) FHE_UINT_PREFIX \<noteq> Ok c" "mv_decode_u128 (fhe_uint a) SS_UINT_PREFIX \<noteq> Ok c"
  "mv_decode_u128 (encoded ty FHE_BOOL_PREFIX (bool_byte b)) FHE_UINT_PREFIX \<noteq> Ok c"
  "mv_decode_u128 (encoded ty FHE_BOOL_PREFIX (bool_byte b)) SS_UINT_PREFIX \<noteq> Ok c"
  "mv_decode_u128 (encoded ty SS_BOOL_PREFIX (bool_byte b)) FHE_UINT_PREFIX \<noteq> Ok c"
  "mv_decode_u128 (encoded ty SS_BOOL_PREFIX (bool_byte b)) SS_UINT_PREFIX \<noteq> Ok c"
  "mv_decode_u128 (encoded ty OPENED_PREFIX (u128_be a)) FHE_UINT_PREFIX \<noteq> Ok c"
  "mv_decode_u128 (encoded ty OPENED_PREFIX (u128_be a)) SS_UINT_PREFIX \<noteq> Ok c"
  by (simp_all add: mv_decode_u128_def mv_public_uint_def secret_uint_def fhe_uint_def encoded_def bool_byte_def
      FHE_UINT_PREFIX_def SS_UINT_PREFIX_def FHE_BOOL_PREFIX_def SS_BOOL_PREFIX_def OPENED_PREFIX_def)

lemma decode_uint [simp]:
  "mv_decode_u128 (fhe_uint a) FHE_UINT_PREFIX = Ok a" "mv_decode_u128 (secret_uint a) SS_UINT_PREFIX = Ok a"
  by (simp_all add: fhe_uint_def secret_uint_def)

lemma represents_ciphertext:
  assumes "represents be slots pv rv" "mv_decode_u128 pv FHE_UINT_PREFIX = Ok a"
  shows "\<exists>f. rv = \<lparr>mv_type = TFheUint, mv_bytes = f\<rparr> \<and> fhe_holds be slots (unat a) f"
  using assms by (cases rule: represents.cases) (simp_all add: lengths_differ)

lemma represents_secret:
  assumes "represents be slots pv rv" "mv_decode_u128 pv SS_UINT_PREFIX = Ok a"
  shows "\<exists>m. rv = \<lparr>mv_type = TSint, mv_bytes = m\<rparr> \<and> mpc_holds be (unat a) m \<and> unat a < amount_limit (fb_prime be)"
  using assms by (cases rule: represents.cases) (simp_all add: lengths_differ)

lemma represents_two:
  assumes "list_all2 (represents be slots) pargs rargs"
  shows "two_u128 pargs FHE_UINT_PREFIX = Ok (l, r) \<Longrightarrow>
      \<exists>f h. two_of TFheUint rargs = Ok (f, h) \<and> fhe_holds be slots (unat l) f \<and> fhe_holds be slots (unat r) h"
    and "two_u128 pargs SS_UINT_PREFIX = Ok (l, r) \<Longrightarrow>
      \<exists>f h. two_of TSint rargs = Ok (f, h) \<and> mpc_holds be (unat l) f \<and> mpc_holds be (unat r) h
        \<and> unat l < amount_limit (fb_prime be) \<and> unat r < amount_limit (fb_prime be)"
proof -
  have two: "\<exists>a b c d. pargs = [a, b] \<and> rargs = [c, d] \<and> represents be slots a c \<and> represents be slots b d
      \<and> mv_decode_u128 a p = Ok l \<and> mv_decode_u128 b p = Ok r"
    if "two_u128 pargs p = Ok (l, r)" for p
    using that assms by (auto simp: two_u128_def length_Suc_conv numeral_2_eq_2 list_all2_Cons1 split: if_splits)
  show "\<exists>f h. two_of TFheUint rargs = Ok (f, h) \<and> fhe_holds be slots (unat l) f \<and> fhe_holds be slots (unat r) h"
    if "two_u128 pargs FHE_UINT_PREFIX = Ok (l, r)"
    using two [OF that] represents_ciphertext [of be slots] by (fastforce simp: two_of_def fhe_two_def require_type_def)
  show "\<exists>f h. two_of TSint rargs = Ok (f, h) \<and> mpc_holds be (unat l) f \<and> mpc_holds be (unat r) h
        \<and> unat l < amount_limit (fb_prime be) \<and> unat r < amount_limit (fb_prime be)"
    if "two_u128 pargs SS_UINT_PREFIX = Ok (l, r)"
    using two [OF that] represents_secret [of be slots] by (fastforce simp: two_of_def fhe_two_def require_type_def)
qed

lemma represents_one:
  assumes "list_all2 (represents be slots) pargs rargs" "one pargs = Ok pv"
  obtains rv where "fhe_one rargs = Ok rv" "represents be slots pv rv"
  using assms by (auto simp: one_def fhe_one_def length_Suc_conv list_all2_Cons1 split: if_splits)

lemma protect_Ok: "ty \<in> {TFheUint, TFheBool, TSint, TSecretBool, TOpened} \<Longrightarrow> bs \<noteq> [] \<Longrightarrow>
    protect ty (bs, g) = Ok (\<lparr>mv_type = ty, mv_bytes = bs\<rparr>, g)"
  by (auto simp: protect_def keep_def mv_protected_def)

lemma fhe_holds_nonempty: "fhe_holds be slots a f \<Longrightarrow> f \<noteq> []"
  by (simp add: fhe_holds_def)

section \<open>Operator by operator\<close>

abbreviation simulated ::
  "('f::field, 'g, 'k, 'c) fhe_mpc_backend \<Rightarrow> ('c \<Rightarrow> nat \<Rightarrow> int) \<Rightarrow> manifest_value \<Rightarrow>
     (manifest_runtime_error, manifest_value \<times> 'g) res \<Rightarrow> bool"
where
  "simulated be slots pv r \<equiv> \<exists>rv g'. r = Ok (rv, g') \<and> represents be slots pv rv"

lemma simulated_ciphertext:
  "fhe_holds be slots (unat a) f \<Longrightarrow> simulated be slots (fhe_uint a) (protect TFheUint (f, g))"
  by (auto simp: protect_Ok fhe_holds_nonempty intro: rep_ciphertext)

lemma simulated_secret:
  "mpc_holds be (unat a) m \<Longrightarrow> unat a < amount_limit (fb_prime be) \<Longrightarrow> simulated be slots (secret_uint a) (protect TSint (m, g))"
  by (auto simp: protect_Ok holds_nonempty intro: rep_secret)

lemma simulated_bits:
  "bool_holds be b m \<Longrightarrow> simulated be slots (encoded TFheBool FHE_BOOL_PREFIX (bool_byte b)) (protect TFheBool (m, g))"
  "bool_holds be b m \<Longrightarrow> simulated be slots (encoded TSecretBool SS_BOOL_PREFIX (bool_byte b)) (protect TSecretBool (m, g))"
  by (auto simp: protect_Ok holds_nonempty intro: rep_encrypted_bit rep_secret_bit)

lemma evaluate_encrypt:
  assumes good: "good_fhe_backend be slots" and args: "list_all2 (represents be slots) pargs rargs"
    and plain: "plain_evaluate ''fhe.encrypt'' pargs = Ok pv" "in_range (fb_prime be) pv"
  shows "simulated be slots pv (fhe_evaluate be ''fhe.encrypt'' rargs g)"
proof -
  obtain v n where v: "one pargs = Ok v" "mv_public_u128 v = Ok n" "pv = fhe_uint n" using plain(1) by (auto simp: plain_evaluate_def)
  obtain rv where rv: "fhe_one rargs = Ok rv" "represents be slots v rv" by (rule represents_one [OF args v(1)])
  have "public_u128 rv = Ok n"
    using rv(2) v(2) by cases
      (auto simp: mv_public_u128_def public_u128_def require_type_def mv_public_uint_def secret_uint_def fhe_uint_def encoded_def split: if_splits)
  moreover have n: "unat n < PLAINTEXT_BOUND" using plain(2) v(3) by simp
  moreover have "\<not> BFV_MAX_AMOUNT < n" "sint (ucast n :: u64) = int (unat n)" using fits_i64 [of n] n by (simp_all add: PLAINTEXT_BOUND_def)
  moreover obtain f where "encrypt_single be (int (unat n)) = Ok f" "fhe_holds be slots (unat n) f"
    by (rule encrypt_single_holds [OF good n])
  ultimately show ?thesis
    using rv(1) v(3) simulated_ciphertext [of be slots n f g] by (simp add: fhe_evaluate_def fhe_encrypt_amount_def)
qed

lemma evaluate_fhe_arithmetic:
  assumes good: "good_fhe_backend be slots" and args: "list_all2 (represents be slots) pargs rargs"
    and plain: "plain_evaluate opcode pargs = Ok pv" "in_range (fb_prime be) pv" and opcode: "opcode \<in> {''fhe.add'', ''fhe.sub''}"
  shows "simulated be slots pv (fhe_evaluate be opcode rargs g)"
proof -
  obtain l r n where v: "two_u128 pargs FHE_UINT_PREFIX = Ok (l, r)" "pv = fhe_uint n"
    "if opcode = ''fhe.sub'' then unat n + unat r = unat l else unat n = unat l + unat r"
    using plain(1) opcode by (auto simp: plain_evaluate_def checked_add_Some checked_sub_Some)
  have n: "int (unat n) = (if opcode = ''fhe.sub'' then int (unat l) - int (unat r) else int (unat l) + int (unat r))"
    using v(3) by (auto simp del: of_nat_unat simp flip: of_nat_add split: if_splits)
  obtain f h where fh: "two_of TFheUint rargs = Ok (f, h)" "fhe_holds be slots (unat l) f" "fhe_holds be slots (unat r) h"
    using represents_two(1) [OF args v(1)] by blast
  have "unat n < PLAINTEXT_BOUND" using plain(2) v(2) by simp
  then obtain out where "eval_fhe_binary be f h (opcode = ''fhe.sub'') = Ok out" "fhe_holds be slots (unat n) out"
    by (rule eval_binary_holds [OF good fh(2,3) n])
  then show ?thesis using opcode fh(1) v(2) simulated_ciphertext [of be slots n out g] by (auto simp: fhe_evaluate_def)
qed

lemma evaluate_mpc_arithmetic:
  assumes good: "good_fhe_backend be slots" and args: "list_all2 (represents be slots) pargs rargs"
    and plain: "plain_evaluate opcode pargs = Ok pv" "in_range (fb_prime be) pv" and opcode: "opcode \<in> {''mpc.add'', ''mpc.sub''}"
  shows "simulated be slots pv (fhe_evaluate be opcode rargs g)"
proof -
  let ?op = "if opcode = ''mpc.add'' then (+) else (-)"
  obtain l r n where v: "two_u128 pargs SS_UINT_PREFIX = Ok (l, r)" "pv = secret_uint n"
    "if opcode = ''mpc.add'' then unat n = unat l + unat r else unat n + unat r = unat l"
    using plain(1) opcode by (auto simp: plain_evaluate_def checked_add_Some checked_sub_Some)
  have op: "?op (of_nat (unat l)) (of_nat (unat r)) = (of_nat (unat n) :: 'a)"
  proof (cases "opcode = ''mpc.add''")
    case False
    then have "of_nat (unat l) = (of_nat (unat n) + of_nat (unat r) :: 'a)" using v(3) by (simp del: of_nat_unat flip: of_nat_add)
    then show ?thesis using False by (simp del: of_nat_unat)
  qed (use v(3) in \<open>simp del: of_nat_unat\<close>)
  obtain f h where fh: "two_of TSint rargs = Ok (f, h)" "mpc_holds be (unat l) f" "mpc_holds be (unat r) h"
    using represents_two(2) [OF args v(1)] by blast
  have n: "unat n < amount_limit (fb_prime be)" using plain(2) v(2) by simp
  obtain out where out: "combine_handles ?op be f h = Ok out" "mpc_holds be (unat n) out"
    unfolding op [symmetric] by (rule combine_handles_holds [OF good fh(2,3), of ?op]) (auto intro: pdeg_add pdeg_diff)
  have "fhe_evaluate be opcode rargs g = protect TSint (out, g)"
    using opcode fh(1) out(1) by (elim insertE emptyE) (simp_all add: fhe_evaluate_def fhe_checked_add_def fhe_checked_sub_def)
  then show ?thesis using simulated_secret [OF out(2) n, where slots = slots and g = g] by (simp only: v(2))
qed

lemma evaluate_fhe_ge:
  assumes good: "good_fhe_backend be slots" and args: "list_all2 (represents be slots) pargs rargs"
    and plain: "plain_evaluate ''fhe.ge'' pargs = Ok pv"
  shows "simulated be slots pv (fhe_evaluate be ''fhe.ge'' rargs g)"
proof -
  obtain l r where v: "two_u128 pargs FHE_UINT_PREFIX = Ok (l, r)" "pv = encoded TFheBool FHE_BOOL_PREFIX (bool_byte (unat r \<le> unat l))"
    using plain by (auto simp: plain_evaluate_def word_le_nat_alt)
  obtain f h where fh: "two_of TFheUint rargs = Ok (f, h)" "fhe_holds be slots (unat l) f" "fhe_holds be slots (unat r) h"
    using represents_two(1) [OF args v(1)] by blast
  obtain m g1 where m: "fhe_to_mpc_single be f g = Ok (m, g1)" "mpc_holds be (unat l) m" by (rule fhe_to_mpc_holds [OF good fh(2)])
  obtain k g2 where k: "fhe_to_mpc_single be h g1 = Ok (k, g2)" "mpc_holds be (unat r) k" by (rule fhe_to_mpc_holds [OF good fh(3)])
  have "unat l < amount_limit (fb_prime be)" "unat r < amount_limit (fb_prime be)"
    using fh(2,3) good_fhe_backendD(5) [OF good] by (auto simp: fhe_holds_def)
  then obtain out g3 where out: "secret_ge be m k g2 = Ok (out, g3)" "bool_holds be (unat r \<le> unat l) out"
    by (rule secret_ge_holds [OF good m(2) k(2)])
  show ?thesis
    using out(1) fh(1) m(1) k(1) v(2) simulated_bits(1) [OF out(2), where slots = slots and g = g3] by (simp add: fhe_evaluate_def fhe_ge_operator_def)
qed

lemma evaluate_mpc_ge:
  assumes good: "good_fhe_backend be slots" and args: "list_all2 (represents be slots) pargs rargs"
    and plain: "plain_evaluate ''mpc.ge'' pargs = Ok pv"
  shows "simulated be slots pv (fhe_evaluate be ''mpc.ge'' rargs g)"
proof -
  obtain l r where v: "two_u128 pargs SS_UINT_PREFIX = Ok (l, r)" "pv = encoded TSecretBool SS_BOOL_PREFIX (bool_byte (unat r \<le> unat l))"
    using plain by (auto simp: plain_evaluate_def word_le_nat_alt)
  obtain f h where fh: "two_of TSint rargs = Ok (f, h)" "mpc_holds be (unat l) f" "mpc_holds be (unat r) h"
    "unat l < amount_limit (fb_prime be)" "unat r < amount_limit (fb_prime be)"
    using represents_two(2) [OF args v(1)] by blast
  obtain out g3 where out: "secret_ge be f h g = Ok (out, g3)" "bool_holds be (unat r \<le> unat l) out"
    by (rule secret_ge_holds [OF good fh(2-5)])
  show ?thesis
    using out(1) fh(1) v(2) simulated_bits(2) [OF out(2), where slots = slots and g = g3] by (simp add: fhe_evaluate_def)
qed

lemma evaluate_h2s:
  assumes good: "good_fhe_backend be slots" and args: "list_all2 (represents be slots) pargs rargs"
    and plain: "plain_evaluate ''convert.h2s'' pargs = Ok pv"
  shows "simulated be slots pv (fhe_evaluate be ''convert.h2s'' rargs g)"
proof -
  obtain v where v: "one pargs = Ok v" using plain by (auto simp: plain_evaluate_def)
  obtain rv where rv: "fhe_one rargs = Ok rv" "represents be slots v rv" by (rule represents_one [OF args v])
  show ?thesis
    using rv(2)
  proof cases
    case (rep_ciphertext a f)
    obtain m g1 where m: "fhe_to_mpc_single be f g = Ok (m, g1)" "mpc_holds be (unat a) m"
      by (rule fhe_to_mpc_holds [OF good rep_ciphertext(3)])
    have "unat a < amount_limit (fb_prime be)" using rep_ciphertext(3) good_fhe_backendD(5) [OF good] by (auto simp: fhe_holds_def)
    from simulated_secret [OF m(2) this, where slots = slots and g = g1] show ?thesis
      using plain v rv(1) rep_ciphertext(1,2) m(1) by (auto simp: plain_evaluate_def fhe_evaluate_def h2s_operator_def)
  next
    case (rep_encrypted_bit b m)
    then show ?thesis
      using plain v rv(1) simulated_bits(2) [OF rep_encrypted_bit(3), where slots = slots and g = g]
      by (auto simp: plain_evaluate_def fhe_evaluate_def h2s_operator_def)
  qed (use plain v in \<open>simp_all add: plain_evaluate_def mv_public_uint_def\<close>)
qed

lemma evaluate_s2h:
  assumes good: "good_fhe_backend be slots" and args: "list_all2 (represents be slots) pargs rargs"
    and plain: "plain_evaluate ''convert.s2h'' pargs = Ok pv" "in_range (fb_prime be) pv"
  shows "simulated be slots pv (fhe_evaluate be ''convert.s2h'' rargs g)"
proof -
  obtain v n where v: "one pargs = Ok v" "mv_decode_u128 v SS_UINT_PREFIX = Ok n" "pv = fhe_uint n"
    using plain(1) by (auto simp: plain_evaluate_def)
  obtain rv where rv: "fhe_one rargs = Ok rv" "represents be slots v rv" by (rule represents_one [OF args v(1)])
  obtain m where m: "rv = \<lparr>mv_type = TSint, mv_bytes = m\<rparr>" "mpc_holds be (unat n) m" using represents_secret [OF rv(2) v(2)] by blast
  have "unat n < PLAINTEXT_BOUND" using plain(2) v(3) by simp
  then obtain f where "mpc_to_fhe_single be m manifest_account manifest_asset = Ok f" "fhe_holds be slots (unat n) f"
    by (rule mpc_to_fhe_holds [OF good m(2)])
  then show ?thesis
    using rv(1) m(1) v(3) simulated_ciphertext [of be slots n f g] by (simp add: fhe_evaluate_def require_type_def)
qed

section \<open>Properties\<close>

text \<open>
  C17. The production backend refines the development one: on arguments that represent each other, whenever the
  development backend computes a value in range, the operator over BFV ciphertexts and Shamir sharings succeeds, for
  every generator state, with a value that represents it; a secret bit and a picked secret open to the same value.
\<close>

theorem fhe_backend_refines_plaintext:
  assumes "good_fhe_backend be slots" and "list_all2 (represents be slots) pargs rargs"
    and "plain_evaluate opcode pargs = Ok pv" and "in_range (fb_prime be) pv"
  shows "\<exists>rv g'. fhe_evaluate be opcode rargs g = Ok (rv, g') \<and> represents be slots pv rv
    \<and> (mv_type pv = TSecretBool \<longrightarrow> fhe_secret_bool be rv = plain_secret_bool pv)
    \<and> (mv_type pv = TSint \<longrightarrow> (\<exists>pv' rv'. plain_pick pv = Ok pv' \<and> fhe_pick be rv = Ok rv' \<and> represents be slots pv' rv'))"
proof -
  consider "opcode = ''fhe.encrypt''" | "opcode \<in> {''fhe.add'', ''fhe.sub''}" | "opcode = ''fhe.ge''" | "opcode \<in> {''mpc.add'', ''mpc.sub''}"
    | "opcode = ''mpc.ge''" | "opcode = ''convert.h2s''" | "opcode = ''convert.s2h''"
    using assms(3) by (auto simp: plain_evaluate_def split: if_splits)
  then have "simulated be slots pv (fhe_evaluate be opcode rargs g)"
    using assms(3,4) evaluate_fhe_arithmetic [OF assms] evaluate_mpc_arithmetic [OF assms]
      evaluate_encrypt [OF assms(1,2)] evaluate_fhe_ge [OF assms(1,2)] evaluate_mpc_ge [OF assms(1,2)] evaluate_h2s [OF assms(1,2)]
      evaluate_s2h [OF assms(1,2)]
    by cases (simp_all only:)
  then obtain rv g' where rv: "fhe_evaluate be opcode rargs g = Ok (rv, g')" "represents be slots pv rv" by blast
  have "fhe_secret_bool be rv = plain_secret_bool pv" if "mv_type pv = TSecretBool"
    using rv(2) that
    by cases (simp_all add: fhe_secret_bool_def require_type_def plain_secret_bool_def bool_open [OF assms(1)] mv_public_uint_def)
  moreover have "\<exists>pv' rv'. plain_pick pv = Ok pv' \<and> fhe_pick be rv = Ok rv' \<and> represents be slots pv' rv'" if "mv_type pv = TSint"
    using rv(2) that
  proof cases
    case (rep_secret a m)
    have "FHE_OPENED_PREFIX \<noteq> []" by (simp add: FHE_OPENED_PREFIX_def ascii_def)
    moreover have "reconstruct_mpc be m (fb_committee_f be) = Ok a"
      using reconstruct_mpc_holds [OF assms(1) rep_secret(3,4)] by simp
    ultimately show ?thesis
      using rep_secret(1,2) rep_opened [of be slots a] by (simp add: plain_pick_def fhe_pick_def require_type_def mv_protected_def)
  qed (simp_all add: mv_public_uint_def)
  ultimately show ?thesis using rv by blast
qed

theorem fhe_backend_refines_plaintext_witness:
  "\<exists>rv g'. fhe_evaluate clear_backend ''fhe.encrypt'' [mv_public_uint 7] 0 = Ok (rv, g')
     \<and> represents clear_backend clear_slots (fhe_uint 7) rv"
proof -
  have "list_all2 (represents clear_backend clear_slots) [mv_public_uint 7] [mv_public_uint 7]" by (simp add: rep_public)
  moreover have "plain_evaluate ''fhe.encrypt'' [mv_public_uint 7] = Ok (fhe_uint 7)"
    by (simp add: plain_evaluate_def one_def mv_public_u128_def mv_public_uint_def)
  moreover have "in_range (fb_prime clear_backend) (fhe_uint 7)" by (simp add: PLAINTEXT_BOUND_def)
  ultimately show ?thesis using fhe_backend_refines_plaintext [OF good_clear_backend] by blast
qed

text \<open>
  C20. Subtraction of ciphertexts has no underflow check: where the development backend refuses with \<open>Underflow\<close>, the
  production backend returns a ciphertext that opens to the difference modulo \<open>2 ^ 128\<close>.
\<close>

theorem fhe_sub_wraps:
  assumes good: "good_fhe_backend be slots" and "represents be slots (fhe_uint a) x" "represents be slots (fhe_uint b) y" and "a < b"
  shows "plain_evaluate ''fhe.sub'' [fhe_uint a, fhe_uint b] = Err MUnderflow
    \<and> (\<exists>rv g'. fhe_evaluate be ''fhe.sub'' [x, y] g = Ok (rv, g') \<and> decrypt_single be (mv_bytes rv) = Ok (a - b))"
proof -
  have two: "two_u128 [fhe_uint a, fhe_uint b] FHE_UINT_PREFIX = Ok (a, b)" by (simp add: two_u128_def)
  obtain f h where fh: "two_of TFheUint [x, y] = Ok (f, h)" "fhe_holds be slots (unat a) f" "fhe_holds be slots (unat b) h"
    using represents_two(1) [of be slots "[fhe_uint a, fhe_uint b]" "[x, y]", OF _ two] assms(2,3) by auto
  have less: "unat a < unat b" using \<open>a < b\<close> by (simp add: word_less_nat_alt)
  obtain out where out: "eval_fhe_binary be f h True = Ok out" "out \<noteq> []"
    "decrypt_single be out = Ok (word_of_int (int (unat a) - int (unat b)))"
    by (rule eval_sub_underflow [OF good fh(2,3) less])
  have "checked_sub a b = None" using less by (simp add: checked_sub_None)
  moreover have "word_of_int (int (unat a) - int (unat b)) = a - b" by (simp add: wi_hom_sub [symmetric])
  ultimately show ?thesis
    using out fh(1) two by (auto simp: plain_evaluate_def fhe_evaluate_def protect_Ok)
qed

theorem fhe_sub_wraps_witness:
  "plain_evaluate ''fhe.sub'' [fhe_uint 3, fhe_uint 5] = Err MUnderflow
    \<and> (\<exists>x y rv g'. fhe_evaluate clear_backend ''fhe.sub'' [x, y] 0 = Ok (rv, g') \<and> decrypt_single clear_backend (mv_bytes rv) = Ok (- 2))"
proof -
  have bounds: "3 < PLAINTEXT_BOUND" "5 < PLAINTEXT_BOUND" by (simp_all add: PLAINTEXT_BOUND_def)
  obtain f where f: "fhe_holds clear_backend clear_slots 3 f" by (rule encrypt_single_holds [OF good_clear_backend bounds(1)])
  obtain h where h: "fhe_holds clear_backend clear_slots 5 h" by (rule encrypt_single_holds [OF good_clear_backend bounds(2)])
  have "represents clear_backend clear_slots (fhe_uint 3) \<lparr>mv_type = TFheUint, mv_bytes = f\<rparr>"
    "represents clear_backend clear_slots (fhe_uint 5) \<lparr>mv_type = TFheUint, mv_bytes = h\<rparr>"
    using f h by (auto intro: rep_ciphertext)
  from fhe_sub_wraps [OF good_clear_backend this, of 0] show ?thesis by auto
qed

end
