(* ===== verification/Real_Transfer.thy ===== *)
theory Real_Transfer
  imports Fhe_Backend Mailbox
begin

text \<open>
  \<open>fhe/src/real_transfer.rs\<close>, the confidential transfer from ciphertexts to ciphertexts, and
  \<open>fhe/src/network_conversion.rs\<close>, the two conversions routed through a mailbox.  \<open>RealTransferExecutor\<close> has the fields
  of \<open>FheMpcBackend\<close> and shares its record; the generator it owns is passed along.
\<close>

section \<open>The executor\<close>

definition executor_key :: "('f, 'g, 'k, 'c) fhe_mpc_backend \<Rightarrow> (unit, 'k) res" where
  "executor_key be = (if fb_party_keys be = [] then Panic else Ok (last (fb_party_keys be)))"

definition resize :: "nat \<Rightarrow> 'a \<Rightarrow> 'a list \<Rightarrow> 'a list" where
  "resize n x xs = take n xs @ replicate (n - length xs) x"

definition encrypt_balance :: "('f, 'g, 'k, 'c) fhe_mpc_backend \<Rightarrow> u128 list \<Rightarrow> (unit, 'c) res" where
  "encrypt_balance be amounts =
     bindR (executor_key be) (\<lambda>k.
       expectR (fc_encrypt_int (fb_ctx be) k (resize 8 0 (map (\<lambda>a. sint (ucast a :: u64)) amounts))))"

definition decrypt_balance :: "('f, 'g, 'k, 'c) fhe_mpc_backend \<Rightarrow> 'c \<Rightarrow> (unit, u128 list) res" where
  "decrypt_balance be ct =
     bindR (expectR (fc_multiparty_decrypt (fb_ctx be) ct (fb_party_keys be) 8)) (\<lambda>xs. Ok (map word_of_int xs))"

definition decrypt_slot :: "('f, 'g, 'k, 'c) fhe_mpc_backend \<Rightarrow> 'c \<Rightarrow> (unit, u128) res" where
  "decrypt_slot be ct =
     bindR (expectR (fc_multiparty_decrypt (fb_ctx be) ct (fb_party_keys be) 1)) (\<lambda>xs.
     bindR (nthR xs 0) (\<lambda>x. Ok (word_of_int x)))"

definition real_transfer :: "('f::field, 'g, 'k, 'c) fhe_mpc_backend \<Rightarrow> 'c \<Rightarrow> 'g \<Rightarrow> (unit, ('c \<times> 'c) \<times> 'g) res" where
  "real_transfer be packed g =
     bindR (expect_ok (bfv_share_plaintext (fb_ctx be) (fb_field be) packed (fb_party_keys be) (fb_committee_f be) 8 g)) (\<lambda>(shares, g).
     bindR (expect_ok (generate_bit_extract_pair (fb_prime be) (fb_field be) (fb_bool be) (fb_committee_f be) (fb_committee_b be) g)) (\<lambda>(pair, g).
     bindR (nthR shares 0) (\<lambda>s. bindR (nthR shares 1) (\<lambda>r. bindR (nthR shares 2) (\<lambda>m. bindR (nthR shares 3) (\<lambda>a.
     bindR (expect_ok (Comparison.conditional_transfer_strictly_greater (fb_prime be) (fb_field be) (fb_bool be) (fb_hmac be)
              (fb_rng be) (fb_gen_bool be) s r m a pair (fb_committee_f be) (fb_committee_b be) g)) (\<lambda>((sender_new, receiver_new), g).
     bindR (executor_key be) (\<lambda>k.
     bindR (expect_ok (bfv_shares_to_ciphertext (fb_ctx be) (fb_prime be) k [sender_new] (fb_committee_f be))) (\<lambda>sender_ct.
     bindR (expect_ok (bfv_shares_to_ciphertext (fb_ctx be) (fb_prime be) k [receiver_new] (fb_committee_f be))) (\<lambda>receiver_ct.
       Ok ((sender_ct, receiver_ct), g)))))))))))"

section \<open>Conversions over a network\<close>

definition h2s_threshold_with_network ::
  "('k, 'c) bfv_context \<Rightarrow> ('f::field, 'g) share_field_ops \<Rightarrow> (nat \<Rightarrow> nat \<Rightarrow> nat) \<Rightarrow> 'c \<Rightarrow> 'k list \<Rightarrow> u64 list \<Rightarrow> nat \<Rightarrow>
     'f committee \<Rightarrow> nat \<Rightarrow> network_profile \<Rightarrow> 'n \<Rightarrow> 'g \<Rightarrow> (unit, 'f shamir_share list list \<times> 'g) res"
where
  "h2s_threshold_with_network ctx F transfer ct party_keys lambdas t committee batch profile dealer g =
     bindR (mapR (\<lambda>pk. ok_or () (fc_share_partial ctx ct pk)) (take (t + 1) party_keys)) (\<lambda>partials.
       let mailbox = fold (\<lambda>p. send_with_size dealer p (length p)) partials (with_profile transfer profile);
           (collected, _) = drain dealer mailbox
       in bindR (ok_or () (fc_shamir_fuse ctx collected lambdas batch)) (\<lambda>plaintext. share_values F committee plaintext g))"

definition party_payload :: "'f prime_field_ops \<Rightarrow> 'f shamir_share list list \<Rightarrow> nat \<Rightarrow> (unit, bytes) res" where
  "party_payload P shares i =
     bindR (mapR (\<lambda>sv. bindR (nthR sv i) (\<lambda>s. Ok (le_bytes_nat 32 (pf_into P (share_value s))))) shares) (\<lambda>parts. Ok (concat parts))"

definition s2h_with_network ::
  "('k, 'c) bfv_context \<Rightarrow> 'f::field prime_field_ops \<Rightarrow> (nat \<Rightarrow> nat \<Rightarrow> nat) \<Rightarrow> 'k \<Rightarrow> 'f shamir_share list list \<Rightarrow>
     'f committee \<Rightarrow> network_profile \<Rightarrow> 'n \<Rightarrow> (unit, 'c) res"
where
  "s2h_with_network ctx P transfer kp shares committee profile dealer =
     (let t = threshold committee in
      bindR (mapR (party_payload P shares) [0..<t + 1]) (\<lambda>payloads.
        let mailbox = fold (\<lambda>p. send_with_size dealer p (length p)) payloads (with_profile transfer profile);
            _ = drain dealer mailbox
        in bindR (mapR (\<lambda>sv. if length sv < t + 1 then Panic
                        else bindR (mapE (\<lambda>_. ()) (committee_reconstruct committee (take (t + 1) sv))) (\<lambda>f. Ok (field_to_int P f))) shares)
             (\<lambda>plaintext. ok_or () (fc_encrypt_int ctx kp plaintext))))"

section \<open>What the mailbox delivers\<close>

lemma queue_of_with_profile [simp]: "queue_of (with_profile transfer p) r = []"
  by (simp add: queue_of_def with_profile_def)

lemma queue_of_send_with_size:
  "map snd (queue_of (send_with_size r m n mb) r) = map snd (queue_of mb r) @ [m]"
  by (simp add: send_with_size_def queue_of_def Let_def split: option.splits)

lemma dealer_receives: "fst (drain dealer (fold (\<lambda>p. send_with_size dealer p (size_of p)) ps (with_profile transfer p))) = ps"
proof -
  have "map snd (queue_of (fold (\<lambda>p. send_with_size dealer p (size_of p)) ps mb) dealer) = map snd (queue_of mb dealer) @ ps" for mb
    by (induction ps arbitrary: mb) (simp_all add: queue_of_send_with_size)
  then show ?thesis by (simp add: fst_drain)
qed

lemma mapR_Panic: "x \<in> set xs \<Longrightarrow> f x = Panic \<Longrightarrow> (\<And>x e. f x \<noteq> Err e) \<Longrightarrow> mapR f xs = Panic"
proof (induction xs)
  case (Cons y ys)
  then show ?case by (cases "f y") auto
qed simp

lemma mapR_no_Err: "(\<And>x e. f x \<noteq> Err e) \<Longrightarrow> mapR f xs \<noteq> Err e"
  using mapR_Err [of f xs e] by blast

lemma party_payload_Ok:
  assumes "list_all (\<lambda>sv. i < length sv) shares"
  shows "\<exists>bs. party_payload P shares i = Ok bs"
proof -
  have "mapR (\<lambda>sv. bindR (nthR sv i) (\<lambda>s. Ok (le_bytes_nat 32 (pf_into P (share_value s))))) shares
      = (Ok (map (\<lambda>sv. le_bytes_nat 32 (pf_into P (share_value (sv ! i)))) shares) :: (unit, bytes list) res)"
    by (rule mapR_Ok) (use assms in \<open>auto simp: list_all_iff nthR_def\<close>)
  then show ?thesis by (simp add: party_payload_def)
qed

lemma party_payload_short:
  assumes "sv \<in> set shares" "length sv \<le> i"
  shows "party_payload P shares i = Panic"
proof -
  have "mapR (\<lambda>sv. bindR (nthR sv i) (\<lambda>s. Ok (le_bytes_nat 32 (pf_into P (share_value s))))) shares = (Panic :: (unit, bytes list) res)"
    by (rule mapR_Panic [OF assms(1)]) (use assms(2) in \<open>auto simp: nthR_def\<close>)
  then show ?thesis by (simp add: party_payload_def)
qed

lemma party_payload_no_Err: "party_payload P shares i \<noteq> Err e"
proof -
  have "mapR (\<lambda>sv. bindR (nthR sv i) (\<lambda>s. Ok (le_bytes_nat 32 (pf_into P (share_value s))))) shares \<noteq> (Err e :: (unit, bytes list) res)"
    by (rule mapR_no_Err) (simp add: nthR_def)
  then show ?thesis by (simp add: party_payload_def bindR_eq_Err)
qed

lemma s2h_network_local:
  "s2h_with_network ctx P transfer kp shares committee profile dealer
      = (if list_all (\<lambda>sv. threshold committee < length sv) shares
         then bfv_shares_to_ciphertext ctx P kp (map (take (threshold committee + 1)) shares) committee else Panic)"
proof (cases "list_all (\<lambda>sv. threshold committee < length sv) shares")
  case True
  let ?t = "threshold committee" and ?open = "\<lambda>sv. bindR (mapE (\<lambda>_. ()) (committee_reconstruct committee sv)) (\<lambda>f. Ok (field_to_int P f))"
  have "\<exists>bs. party_payload P shares i = Ok bs" if "i \<in> set [0..<?t + 1]" for i
    by (rule party_payload_Ok) (use True that in \<open>auto simp: list_all_iff\<close>)
  then obtain h where "\<And>i. i \<in> set [0..<?t + 1] \<Longrightarrow> party_payload P shares i = Ok (h i)" by metis
  then have "mapR (party_payload P shares) [0..<?t + 1] = Ok (map h [0..<?t + 1])" by (rule mapR_Ok)
  moreover have "mapR (\<lambda>sv. if length sv < ?t + 1 then Panic else ?open (take (?t + 1) sv)) shares = mapR ?open (map (take (?t + 1)) shares)"
    using True by (induction shares) (auto intro!: bindR_cong)
  ultimately show ?thesis using True by (simp add: s2h_with_network_def bfv_shares_to_ciphertext_def Let_def del: upt_Suc)
next
  case False
  then obtain sv where "sv \<in> set shares" "length sv \<le> threshold committee" by (auto simp: list_all_iff not_less)
  then have "mapR (party_payload P shares) [0..<threshold committee + 1] = Panic"
    by (intro mapR_Panic [of "threshold committee"] party_payload_short party_payload_no_Err) simp_all
  then show ?thesis using False by (simp only: s2h_with_network_def Let_def bindR.simps if_False)
qed

text \<open>
  The network costs time, not meaning: under every profile, bandwidth model and dealer, H2S fuses exactly the partials
  of the first \<open>t + 1\<close> keys and S2H encrypts what the first \<open>t + 1\<close> shares of each value reconstruct; a sharing of at most \<open>t\<close> shares panics.
\<close>

theorem network_conversions_refine_local:
  "h2s_threshold_with_network ctx F transfer ct party_keys lambdas t committee batch profile dealer g
      = bindR (mapR (\<lambda>pk. ok_or () (fc_share_partial ctx ct pk)) (take (t + 1) party_keys)) (\<lambda>partials.
        bindR (ok_or () (fc_shamir_fuse ctx partials lambdas batch)) (\<lambda>plaintext. share_values F committee plaintext g))
   \<and> s2h_with_network ctx P transfer kp shares committee profile dealer
      = (if list_all (\<lambda>sv. threshold committee < length sv) shares
         then bfv_shares_to_ciphertext ctx P kp (map (take (threshold committee + 1)) shares) committee else Panic)"
  by (simp only: s2h_network_local) (simp add: h2s_threshold_with_network_def split_beta dealer_receives [of dealer length])

section \<open>The transfer\<close>

lemma int_to_field_nat: "n < PLAINTEXT_BOUND \<Longrightarrow> int_to_field (int n) = of_nat n"
  by (simp add: int_to_field_def pf_from_u64_def PLAINTEXT_BOUND_def unat_of_nat)

lemma encrypt_balance_slots:
  assumes good: "good_fhe_backend be slots" and xs: "length amounts = 4" "\<And>a. a \<in> set amounts \<Longrightarrow> unat a < PLAINTEXT_BOUND"
  obtains ct where "encrypt_balance be amounts = Ok ct" "\<And>i. i < 8 \<Longrightarrow> slots ct i = (map (\<lambda>a. int (unat a)) amounts @ [0, 0, 0, 0]) ! i"
proof -
  have fits: "sint (ucast a :: u64) = int (unat a)" if "a \<in> set amounts" for a :: u128
    using fits_i64(2) [of a] xs(2) [OF that] by (simp add: PLAINTEXT_BOUND_def del: of_nat_unat)
  let ?xs = "map (\<lambda>a. int (unat a)) amounts @ [0, 0, 0, 0]"
  have res: "resize 8 0 (map (\<lambda>a. sint (ucast a :: u64)) amounts) = ?xs"
    using xs(1) fits by (simp add: resize_def numeral_eq_Suc del: of_nat_unat)
  obtain ct where ct: "fc_encrypt_int (fb_ctx be) (last (fb_party_keys be)) ?xs = Some ct" "\<forall>i<length ?xs. slots ct i = ?xs ! i mod 998244353"
    using bfv_schemeD(1) [OF good_fhe_backendD(2) [OF good], of ?xs] xs(1) by (auto simp del: of_nat_unat)
  have small: "x mod 998244353 = x" if "x \<in> set ?xs" for x
  proof -
    have "0 \<le> x \<and> x < 998244353" using that xs(2) by (fastforce simp: PLAINTEXT_BOUND_def simp del: of_nat_unat)
    then show ?thesis by simp
  qed
  have "slots ct i = ?xs ! i" if "i < 8" for i
  proof -
    have i: "i < length ?xs" using that xs(1) by simp
    show ?thesis using ct(2) i small [OF nth_mem [OF i]] by metis
  qed
  moreover have "encrypt_balance be amounts = Ok ct"
    unfolding encrypt_balance_def res using good_fhe_backendD(1) [OF good] ct(1) by (simp add: executor_key_def del: of_nat_unat)
  ultimately show ?thesis using that by blast
qed

lemma shares_to_ciphertext_slot:
  assumes good: "good_fhe_backend be slots" and n: "n < PLAINTEXT_BOUND"
    and s: "val_sharing (threshold (fb_committee_f be)) (points (fb_committee_f be)) (of_nat n) sv"
  obtains ct where "bfv_shares_to_ciphertext (fb_ctx be) (fb_prime be) (last (fb_party_keys be)) [sv] (fb_committee_f be) = Ok ct"
    "slots ct 0 = int n"
proof -
  have "committee_reconstruct (fb_committee_f be) sv = Ok (of_nat n)"
    by (rule val_sharing_committee_reconstruct [OF good_fhe_backendD(6) [OF good] s])
  moreover have "field_to_int (fb_prime be) (of_nat n) = int n"
    using n good_fhe_backendD(5) [OF good] by (intro field_to_int_limit [OF good_fhe_backendD(3) [OF good]]) simp
  moreover obtain ct where "fc_encrypt_int (fb_ctx be) (last (fb_party_keys be)) [int n] = Some ct" "slots ct 0 = int n mod 998244353"
    using bfv_schemeD(1) [OF good_fhe_backendD(2) [OF good], of "[int n]"] by auto
  ultimately show ?thesis using n by (intro that [of ct]) (simp_all add: bfv_shares_to_ciphertext_def PLAINTEXT_BOUND_def)
qed

lemma decrypt_slot_value:
  assumes good: "good_fhe_backend be slots" and "slots ct 0 = int n" "n < PLAINTEXT_BOUND"
  shows "decrypt_slot be ct = Ok (of_nat n)"
  using bfv_schemeD(2) [OF good_fhe_backendD(2) [OF good], of 1 ct] centered_small [OF assms(3)] assms(2)
  by (simp add: decrypt_slot_def nthR_def)

lemma real_transfer_values:
  assumes good: "good_fhe_backend be slots"
    and ct: "\<And>i. i < 8 \<Longrightarrow> slots packed i = [int s, int r, int m, int a, 0, 0, 0, 0] ! i"
    and bound: "s < PLAINTEXT_BOUND" "r < PLAINTEXT_BOUND" "m < PLAINTEXT_BOUND" "a < PLAINTEXT_BOUND"
    and new: "of_nat s' = (if m < s then of_nat s - of_nat a else of_nat s :: 'f::field)" "s' < PLAINTEXT_BOUND"
      "of_nat r' = (if m < s then of_nat r + of_nat a else of_nat r :: 'f)" "r' < PLAINTEXT_BOUND"
  obtains sc rc g' where "real_transfer (be :: ('f, 'g, 'k, 'c) fhe_mpc_backend) packed g = Ok ((sc, rc), g')" "slots sc 0 = int s'" "slots rc 0 = int r'"
proof -
  let ?P = "fb_prime be" and ?F = "fb_field be" and ?B = "fb_bool be" and ?cf = "fb_committee_f be" and ?cb = "fb_committee_b be"
  note P = good_fhe_backendD(3) [OF good] and cf = good_fhe_backendD(6,8,9) [OF good] and cb = good_fhe_backendD(7) [OF good]
    and maj = good_fhe_backendD(12) [OF good]
  let ?xs = "[int s, int r, int m, int a, 0, 0, 0, 0]"
  have "fc_multiparty_decrypt (fb_ctx be) packed (fb_party_keys be) 8 = Some (map (\<lambda>i. centered (slots packed i)) [0..<8])"
    by (rule bfv_schemeD(2) [OF good_fhe_backendD(2) [OF good]]) simp_all
  also have "map (\<lambda>i. centered (slots packed i)) [0..<8] = map (\<lambda>i. centered (?xs ! i)) [0..<8]" by (simp add: ct)
  also have "\<dots> = map centered ?xs" by (simp add: upt_rec)
  also have "map centered ?xs = ?xs" using bound centered_small [of 0] by (simp add: centered_small)
  finally have dec: "fc_multiparty_decrypt (fb_ctx be) packed (fb_party_keys be) 8 = Some ?xs" .
  obtain ss g1 where ss: "share_values ?F ?cf ?xs g = Ok (ss, g1)"
    "list_all2 (\<lambda>x s. val_sharing (threshold ?cf) (points ?cf) (int_to_field x) s) ?xs ss"
    using share_values_sharing [OF cf(1), of ?F ?xs g] by (elim exE conjE) (rule that)
  obtain pair g2 where pair: "generate_bit_extract_pair ?P ?F ?B ?cf ?cb g1 = Ok (pair, g2)"
    by (rule boolean_committee.generate_bit_extract_pair_for [OF cb cf(1)])
  have sv: "val_sharing (threshold ?cf) (points ?cf) (of_nat ([s, r, m, a] ! i)) (ss ! i)" if "i < 4" for i
    using list_all2_nthD [OF ss(2), of i] that bound by (auto simp: less_Suc_eq numeral_eq_Suc int_to_field_nat)
  have lim: "s < amount_limit ?P" "m < amount_limit ?P" using bound good_fhe_backendD(5) [OF good] by simp_all
  note sl = limit_bounds [OF P lim(1)] and ml = limit_bounds [OF P lim(2)]
  obtain sn rn g3 where run: "Comparison.conditional_transfer_strictly_greater ?P ?F ?B (fb_hmac be) (fb_rng be) (fb_gen_bool be)
      (ss ! 0) (ss ! 1) (ss ! 2) (ss ! 3) pair ?cf ?cb g2 = Ok ((sn, rn), g3)"
    and vals: "val_sharing (threshold ?cf) (points ?cf) (of_nat s') sn" "val_sharing (threshold ?cf) (points ?cf) (of_nat r') rn"
  proof (rule conditional_transfer_val [OF P cf cb maj, of "of_nat s" "ss ! 0" "of_nat r" "ss ! 1" "of_nat m" "ss ! 2" "of_nat a" "ss ! 3"
        ?F ?B g1 pair g2 "fb_hmac be" "fb_rng be" "fb_gen_bool be"])
    show "pf_into ?P (of_nat s) - pf_into ?P (of_nat m) \<le> pf_modulus ?P - 2 ^ (pf_bit_size ?P - 1)" unfolding sl(4) ml(4) using sl(5) by linarith
  qed (use sv [of 0] sv [of 1] sv [of 2] sv [of 3] sl ml pair new(1,3) that in simp_all)
  have len: "length ss = 8" "ss \<noteq> []" using list_all2_lengthD [OF ss(2)] by auto
  obtain sc where sc: "bfv_shares_to_ciphertext (fb_ctx be) ?P (last (fb_party_keys be)) [sn] ?cf = Ok sc" "slots sc 0 = int s'"
    by (rule shares_to_ciphertext_slot [OF good new(2) vals(1)])
  obtain rc where rc: "bfv_shares_to_ciphertext (fb_ctx be) ?P (last (fb_party_keys be)) [rn] ?cf = Ok rc" "slots rc 0 = int r'"
    by (rule shares_to_ciphertext_slot [OF good new(4) vals(2)])
  have "real_transfer be packed g = Ok ((sc, rc), g3)"
    using good_fhe_backendD(1) [OF good] len
    by (simp add: real_transfer_def expect_ok_def bfv_share_plaintext_def dec ss(1) pair nthR_def run [unfolded One_nat_def]
        executor_key_def sc(1) rc(1) del: bindR_eq_Ok share_values.simps)
  then show ?thesis using sc(2) rc(2) by (rule that)
qed

text \<open>
  C18. The transfer from ciphertexts to ciphertexts: for balances and amounts the plaintext modulus holds, encrypting
  sender, receiver, minimum and amount in one ciphertext and running the executor never panics, and the two new ciphertexts open
  to the moved balances when the sender strictly exceeds the minimum, to the old ones otherwise.
\<close>

theorem real_transfer_correct:
  assumes good: "good_fhe_backend be slots" and bound: "\<forall>x \<in> set [s, r, m, a]. unat x < PLAINTEXT_BOUND"
    and room: "m < s \<longrightarrow> a \<le> s \<and> unat r + unat a < PLAINTEXT_BOUND"
  shows "\<exists>packed sc rc g'. encrypt_balance be [s, r, m, a] = Ok packed \<and> real_transfer be packed g = Ok ((sc, rc), g')
    \<and> decrypt_slot be sc = Ok (if m < s then s - a else s) \<and> decrypt_slot be rc = Ok (if m < s then r + a else r)"
proof -
  obtain packed where packed: "encrypt_balance be [s, r, m, a] = Ok packed"
    "\<And>i. i < 8 \<Longrightarrow> slots packed i = (map (\<lambda>a. int (unat a)) [s, r, m, a] @ [0, 0, 0, 0]) ! i"
    by (rule encrypt_balance_slots [OF good, of "[s, r, m, a]"]) (use bound in \<open>auto simp del: of_nat_unat\<close>)
  let ?s = "if m < s then s - a else s" and ?r = "if m < s then r + a else r"
  have less: "unat m < unat s \<longleftrightarrow> m < s" by (simp add: word_less_nat_alt)
  have s: "unat (s - a) = unat s - unat a" "unat a \<le> unat s" if "m < s"
    using room that by (simp_all add: unat_sub word_le_nat_alt)
  have r: "unat (r + a) = unat r + unat a" "unat r + unat a < PLAINTEXT_BOUND" if "m < s"
  proof -
    show less: "unat r + unat a < PLAINTEXT_BOUND" using room that by simp
    then have "unat r + unat a < 2 ^ 128" by (simp add: PLAINTEXT_BOUND_def)
    then show "unat (r + a) = unat r + unat a" by (simp add: unat_word_ariths)
  qed
  obtain sc rc g' where run: "real_transfer be packed g = Ok ((sc, rc), g')" "slots sc 0 = int (unat ?s)" "slots rc 0 = int (unat ?r)"
  proof (rule real_transfer_values [OF good, where packed = packed and s = "unat s" and r = "unat r" and m = "unat m" and a = "unat a"
        and s' = "unat ?s" and r' = "unat ?r" and g = g])
  qed (use packed(2) bound s r less that in \<open>auto simp: of_nat_diff simp del: of_nat_unat\<close>)
  have "unat ?s < PLAINTEXT_BOUND" "unat ?r < PLAINTEXT_BOUND" using bound s r by auto
  then show ?thesis
    using packed(1) run decrypt_slot_value [OF good run(2)] decrypt_slot_value [OF good run(3)] by auto
qed

theorem real_transfer_correct_witness:
  "\<exists>packed sc rc g'. encrypt_balance clear_backend [100, 20, 50, 30] = Ok packed \<and> real_transfer clear_backend packed 0 = Ok ((sc, rc), g')
    \<and> decrypt_slot clear_backend sc = Ok 70 \<and> decrypt_slot clear_backend rc = Ok 50"
proof -
  have b: "\<forall>x \<in> set [100, 20, 50, 30 :: u128]. unat x < PLAINTEXT_BOUND" by (simp add: PLAINTEXT_BOUND_def)
  from real_transfer_correct [OF good_clear_backend b, of 0] show ?thesis by (simp add: PLAINTEXT_BOUND_def)
qed

section \<open>Rotating the committee\<close>

text \<open>
  C19. Handing a live share to another committee keeps its value: for every sharing and every generator the rotation
  succeeds, and the new handle opens under the new committee to what the old one opened to under the old.
\<close>

theorem handoff_share_keeps_value:
  assumes good: "good_fhe_backend be slots" and dst: "good_committee new" "committee_size new < 2 ^ 32"
    and m: "shares_hold (fb_prime be) (fb_committee_f be) v m"
  shows "\<exists>m' g'. handoff_share be m new g = Ok (m', g') \<and> shares_hold (fb_prime be) new v m'
    \<and> reconstruct_mpc be m' new = reconstruct_mpc be m (fb_committee_f be)"
proof -
  let ?src = "fb_committee_f be"
  note src = good_fhe_backendD(6) [OF good]
  obtain s where s: "open_shares_bytes m = Ok s" "val_sharing (threshold ?src) (points ?src) v s" by (rule mpc_open [OF good m])
  obtain f where f: "pdeg (threshold ?src) f" "f 0 = v" "s = on_points f (points ?src)" using s(2) by (rule val_sharingE)
  have size: "0 < threshold ?src" "threshold ?src < committee_size ?src" "0 < threshold new" "threshold new < committee_size new"
    "distinct (points ?src)" using src dst(1) by (simp_all add: good_committee_def good_points_def)
  obtain mk g' r where mk: "reshare_pair_dealer (fb_field be) ?src (threshold ?src) new (threshold new) g = Ok (mk, g')"
    "mask_pair (points ?src) (points new) (threshold ?src) (threshold new) r mk"
    by (rule reshare_pair_dealer_ok [OF size(1-4)])
  obtain k where k: "basic_handoff s mk ?src new = Ok (on_points k (points new))" "pdeg (threshold new) k" "k 0 = f 0"
    unfolding f(3) by (rule basic_handoff_on_points [OF f(1) le_refl mk(2) le_refl size(5,2)])
  have new: "val_sharing (threshold new) (points new) v (on_points k (points new))" by (rule val_sharingI) (use k f(2) in simp_all)
  let ?m = "serialize_shares (fb_prime be) (on_points k (points new))"
  have hold: "shares_hold (fb_prime be) new v ?m" using new by (auto simp: shares_hold_def)
  obtain t where t: "open_shares_bytes ?m = Ok t" "val_sharing (threshold new) (points new) v t"
    by (rule open_shares_hold [OF good_fhe_backendD(3,4) [OF good] dst(2) hold])
  have "reconstruct_mpc be ?m new = reconstruct_mpc be m ?src"
    by (simp add: reconstruct_mpc_def s(1) t(1) val_sharing_committee_reconstruct [OF src s(2)] val_sharing_committee_reconstruct [OF dst(1) t(2)])
  moreover have "handoff_share be m new g = Ok (?m, g')" by (simp add: handoff_share_def s(1) mk(1) k(1) del: bindR_eq_Ok)
  ultimately show ?thesis using hold by blast
qed

theorem handoff_share_keeps_value_witness:
  "\<exists>m g m' g'. fhe_share_amount clear_backend 42 0 = Ok (m, g) \<and> handoff_share clear_backend m (wq_committee 1 3) g = Ok (m', g')
     \<and> reconstruct_mpc clear_backend m' (wq_committee 1 3) = Ok 42"
proof -
  obtain m g where m: "fhe_share_amount clear_backend 42 0 = Ok (m, g)" "mpc_holds clear_backend (unat (42 :: u128)) m"
    by (rule share_amount_holds [OF good_clear_backend, of 42 0]) simp_all
  have "42 < amount_limit (fb_prime clear_backend)" using good_fhe_backendD(5) [OF good_clear_backend] by (simp add: PLAINTEXT_BOUND_def)
  then have "reconstruct_mpc clear_backend m (fb_committee_f clear_backend) = Ok 42"
    using reconstruct_mpc_holds [OF good_clear_backend, of 42 m] m(2) by simp
  moreover have "good_committee (wq_committee 1 3)" "committee_size (wq_committee 1 3) < 2 ^ 32" by (simp_all add: good_wq_committee)
  ultimately show ?thesis using handoff_share_keeps_value [OF good_clear_backend _ _ m(2), of "wq_committee 1 3" g] m(1) by fastforce
qed

end
