(* ===== verification/Fhe_Hybrid.thy ===== *)
theory Fhe_Hybrid
  imports Bfv_Shamir
begin

text \<open>
  \<open>fhe/src/hybrid.rs\<close>, fixed-point values between CKKS ciphertexts and sharings, and \<open>fhe/src/shamir_fhe.rs\<close>, Shamir
  sharing of a secret key over the first modulus.  Floating point is a parameter: what a quantization rounds to and
  what a dequantization divides to.
\<close>

section \<open>Signed integers in the field\<close>

definition i64_to_field :: "int \<Rightarrow> 'f::field" where
  "i64_to_field m =
     (if 0 \<le> m then pf_from_le_bytes (le_bytes_nat 8 (nat m)) else - pf_from_le_bytes (le_bytes_nat 8 (nat (- m))))"

text \<open>The lowest eight bytes; \<open>- x\<close> on an \<open>i64\<close> overflows at the least value.\<close>

definition bigint_to_i64_low :: "nat \<Rightarrow> int" where
  "bigint_to_i64_low big = sint (of_nat big :: u64)"

definition neg_i64 :: "int \<Rightarrow> (unit, int) res" where
  "neg_i64 x = (if x = - (2 ^ 63) then Panic else Ok (- x))"

definition field_to_i64 :: "'f prime_field_ops \<Rightarrow> 'f \<Rightarrow> (unit, int) res" where
  "field_to_i64 P f =
     (let big = pf_into P f in
      if (pf_modulus P - 1) div 2 < big then neg_i64 (bigint_to_i64_low (pf_modulus P - big))
      else Ok (bigint_to_i64_low big))"

record ('k, 'c, 'd) ckks_context =
  ck_decrypt :: "'k \<Rightarrow> 'c \<Rightarrow> nat \<Rightarrow> 'd list option"
  ck_encrypt :: "'k \<Rightarrow> 'd list \<Rightarrow> 'c option"
  ck_quantize :: "'d \<Rightarrow> u64 \<Rightarrow> int"
  ck_dequantize :: "int \<Rightarrow> u64 \<Rightarrow> 'd"

definition fhe_to_sharing ::
  "('k, 'c, 'd) ckks_context \<Rightarrow> ('f::field, 'g) share_field_ops \<Rightarrow> 'k \<Rightarrow> 'c \<Rightarrow> 'f committee \<Rightarrow> u64 \<Rightarrow> 'g
    \<Rightarrow> (unit, 'f shamir_share list \<times> 'g) res"
where
  "fhe_to_sharing ctx F kp ct committee scale g =
     bindR (ok_or () (ck_decrypt ctx kp ct 1)) (\<lambda>vals.
     bindR (nthR vals 0) (\<lambda>v.
       mapE (\<lambda>_. ()) (committee_split F committee (i64_to_field (ck_quantize ctx v scale)) g)))"

definition sharing_to_fhe ::
  "('k, 'c, 'd) ckks_context \<Rightarrow> 'f::field prime_field_ops \<Rightarrow> 'k \<Rightarrow> 'f shamir_share list \<Rightarrow> 'f committee \<Rightarrow> u64 \<Rightarrow> (unit, 'c) res"
where
  "sharing_to_fhe ctx P kp shares committee scale =
     bindR (mapE (\<lambda>_. ()) (committee_reconstruct committee shares)) (\<lambda>f.
     bindR (field_to_i64 P f) (\<lambda>m.
       ok_or () (ck_encrypt ctx kp [ck_dequantize ctx m scale])))"

lemma low_i64: "n < 2 ^ 63 \<Longrightarrow> bigint_to_i64_low n = int n"
proof -
  assume n: "n < 2 ^ 63"
  have "(of_nat n :: u64) = word_of_int (int n)" by simp
  then have "sint (of_nat n :: u64) = int n" using n by (simp only: sint_sbintrunc') (simp add: signed_take_bit_int_eq_self)
  then show ?thesis by (simp add: bigint_to_i64_low_def)
qed

lemma low_i64_min: "bigint_to_i64_low (2 ^ 63) = - (2 ^ 63)"
proof -
  have "(of_nat (2 ^ 63) :: u64) = word_of_int (2 ^ 63)" by simp
  moreover have "signed_take_bit 63 (2 ^ 63 :: int) = - (2 ^ 63)" by code_simp
  ultimately show ?thesis unfolding bigint_to_i64_low_def by (simp only: sint_sbintrunc') simp
qed

lemma from_le_small: "n < 2 ^ 64 \<Longrightarrow> pf_from_le_bytes (le_bytes_nat 8 n) = of_nat n"
  by (simp add: pf_from_le_bytes_def le_value_le_bytes)

context prime_field begin

lemma into_minus: "0 < n \<Longrightarrow> n < pf_modulus P \<Longrightarrow> pf_into P (- of_nat n) = pf_modulus P - n"
  using into_diff [of 0 "of_nat n"] by (simp add: into_small)

end

lemma field_to_i64_of:
  assumes P: "prime_field P" and big: "2 * \<bar>m\<bar> < int (pf_modulus P)" and m: "- (2 ^ 63) \<le> m" "m < 2 ^ 63"
  shows "field_to_i64 P (i64_to_field m) = (if m = - (2 ^ 63) then Panic else Ok m)"
proof (cases "0 \<le> m")
  case True
  have n: "nat m < 2 ^ 63" "2 * nat m < pf_modulus P" using m(2) True big by (simp_all add: nat_less_iff)
  then have "i64_to_field m = of_nat (nat m)" using True from_le_small [of "nat m"] by (simp add: i64_to_field_def del: of_nat_nat)
  moreover have "nat m < pf_modulus P" using n(2) by linarith
  ultimately have "pf_into P (i64_to_field m) = nat m" using prime_field.into_small [OF P] by metis
  moreover have "\<not> (pf_modulus P - 1) div 2 < nat m" using n(2) by simp
  ultimately show ?thesis using True low_i64 [OF n(1)] by (simp add: field_to_i64_def)
next
  case False
  let ?n = "nat (- m)"
  have n: "0 < ?n" "?n \<le> 2 ^ 63" "2 * ?n < pf_modulus P" using m(1) False big by (simp_all add: nat_le_iff nat_less_iff)
  have "?n < 2 ^ 64" using n(2) by simp
  from from_le_small [OF this] have "i64_to_field m = - of_nat ?n" using False by (simp add: i64_to_field_def del: of_nat_nat)
  moreover have "?n < pf_modulus P" using n(3) by linarith
  ultimately have into: "pf_into P (i64_to_field m) = pf_modulus P - ?n"
    using prime_field.into_minus [OF P n(1)] by metis
  have half: "(pf_modulus P - 1) div 2 < pf_modulus P - ?n" "pf_modulus P - (pf_modulus P - ?n) = ?n"
    using n(3) by simp_all
  have "neg_i64 (bigint_to_i64_low ?n) = (if m = - (2 ^ 63) then Panic else Ok m)"
  proof (cases "m = - (2 ^ 63)")
    case True
    then have "?n = 2 ^ 63" by simp
    then have "bigint_to_i64_low ?n = - (2 ^ 63)" by (simp only: low_i64_min)
    then show ?thesis using True by (simp add: neg_i64_def)
  next
    case Fal: False
    then have "?n < 2 ^ 63" using m(1) False by (simp add: nat_less_iff)
    then show ?thesis using Fal False low_i64 [of ?n] m by (simp add: neg_i64_def)
  qed
  then show ?thesis by (simp only: field_to_i64_def into half Let_def if_True)
qed

section \<open>Sharing the key over the first modulus\<close>

text \<open>The calls of \<open>CkksContext\<close> that the threshold decryption makes; partials are bytes.\<close>

record ('k, 'c, 'd) threshold_context =
  tc_extract_coeffs :: "'k \<Rightarrow> u64 list option"
  tc_make_secret :: "u64 list \<Rightarrow> 'k option"
  tc_decrypt_main :: "'c \<Rightarrow> 'k \<Rightarrow> bytes option"
  tc_scale_partial :: "bytes \<Rightarrow> u64 \<Rightarrow> bytes option"
  tc_add_partials :: "bytes \<Rightarrow> bytes \<Rightarrow> bytes option"
  tc_fusion :: "bytes list \<Rightarrow> nat \<Rightarrow> 'd list option"

definition fp60_to_u64 :: "'f prime_field_ops \<Rightarrow> 'f \<Rightarrow> u64" where
  "fp60_to_u64 P f = of_nat (pf_into P f)"

definition RING_DIM :: nat where "RING_DIM = 16384"

definition set_shares :: "'f prime_field_ops \<Rightarrow> nat \<Rightarrow> 'f shamir_share list \<Rightarrow> u64 list list \<Rightarrow> (unit, u64 list list) res" where
  "set_shares P idx shares pc =
     foldR (\<lambda>(i, s) pc. bindR (nthR pc i) (\<lambda>row.
       if idx < length row then Ok (pc[i := row[idx := fp60_to_u64 P (share_value s)]]) else Panic)) (List.enumerate 0 shares) pc"

definition share_coefficient60 ::
  "'f::field prime_field_ops \<Rightarrow> ('f, 'g) share_field_ops \<Rightarrow> 'f committee \<Rightarrow> nat \<times> u64 \<Rightarrow> u64 list list \<times> 'g \<Rightarrow> (unit, u64 list list \<times> 'g) res"
where
  "share_coefficient60 P F committee = (\<lambda>(idx, c) (pc, g).
     bindR (mapE (\<lambda>_. ()) (committee_split F committee (pf_from_u64 c) g)) (\<lambda>(shares, g).
     bindR (set_shares P idx shares pc) (\<lambda>pc. Ok (pc, g))))"

definition share_secret_key ::
  "('k, 'c, 'd) threshold_context \<Rightarrow> 'f::field prime_field_ops \<Rightarrow> ('f, 'g) share_field_ops \<Rightarrow> 'k \<Rightarrow> 'f committee \<Rightarrow> 'g
    \<Rightarrow> (unit, 'k list \<times> 'g) res"
where
  "share_secret_key ctx P F kp committee g =
     bindR (ok_or () (tc_extract_coeffs ctx kp)) (\<lambda>coeffs.
       if length coeffs < RING_DIM then Panic
       else bindR (foldR (share_coefficient60 P F committee) (List.enumerate 0 (take RING_DIM coeffs))
                     (replicate (committee_size committee) coeffs, g)) (\<lambda>(pc, g).
            bindR (mapR (\<lambda>c. ok_or () (tc_make_secret ctx c)) pc) (\<lambda>keys. Ok (keys, g))))"

text \<open>Each coefficient is the same loop as the basis of \<open>interpolate\<close>.\<close>

definition lagrange_coeffs :: "'f::field committee \<Rightarrow> nat \<Rightarrow> (unit, 'f list) res" where
  "lagrange_coeffs committee t =
     (if committee_size committee < t + 1 then Panic
      else let ps = take (t + 1) (points committee) in
        mapR (\<lambda>(i, pi). mapE (\<lambda>_. ()) (basis_at_zero ps i pi)) (List.enumerate 0 ps))"

text \<open>The loop over the parties: what is combined so far is an option that a failed addition resets.\<close>

fun combine_partials ::
  "('k, 'c, 'd) threshold_context \<Rightarrow> 'f prime_field_ops \<Rightarrow> 'c \<Rightarrow> 'f list \<Rightarrow> (nat \<times> 'k) list \<Rightarrow> bytes option \<Rightarrow> (unit, bytes option) res"
where
  "combine_partials ctx P ct lambdas [] combined = Ok combined"
| "combine_partials ctx P ct lambdas ((i, kp) # kps) combined =
     bindR (ok_or () (tc_decrypt_main ctx ct kp)) (\<lambda>partial.
     bindR (nthR lambdas i) (\<lambda>l.
     bindR (ok_or () (tc_scale_partial ctx partial (fp60_to_u64 P l))) (\<lambda>scaled.
       combine_partials ctx P ct lambdas kps
         (case combined of None \<Rightarrow> Some scaled | Some prev \<Rightarrow> tc_add_partials ctx prev scaled))))"

definition threshold_decrypt ::
  "('k, 'c, 'd) threshold_context \<Rightarrow> 'f::field prime_field_ops \<Rightarrow> 'c \<Rightarrow> 'k list \<Rightarrow> 'f committee \<Rightarrow> nat \<Rightarrow> nat \<Rightarrow> (unit, 'd list) res"
where
  "threshold_decrypt ctx P ct party_keys committee t len =
     bindR (lagrange_coeffs committee t) (\<lambda>lambdas.
     bindR (combine_partials ctx P ct lambdas (List.enumerate 0 (take (t + 1) party_keys)) None) (\<lambda>combined.
     bindR (ok_or () combined) (\<lambda>combined.
       ok_or () (tc_fusion ctx [combined] len))))"

section \<open>Properties\<close>

text \<open>
  Fixed-point values survive the round trip through a sharing: what a decryption quantizes to, any selection of more than the
  threshold of shares gives back to the encryption, negative values included; only the least \<open>i64\<close>, whose negation overflows, panics.
\<close>

theorem hybrid_round_trip:
  assumes "prime_field P" and c: "good_committee c" and dec: "ck_decrypt ctx kp ct 1 = Some (v # vs)" and m: "ck_quantize ctx v scale = m"
    and range: "- (2 ^ 63) \<le> m" "m < 2 ^ 63" "2 * \<bar>m\<bar> < int (pf_modulus P)"
    and sel: "distinct sel" "set sel \<subseteq> {..<committee_size c}" "threshold c < length sel"
  shows "\<exists>shares g'. fhe_to_sharing ctx F kp ct c scale g = Ok (shares, g')
    \<and> sharing_to_fhe ctx P kp (map (\<lambda>i. shares ! i) sel) c scale
        = (if m = - (2 ^ 63) then Panic else ok_or () (ck_encrypt ctx kp [ck_dequantize ctx m scale]))"
proof -
  obtain s g' where s: "committee_split F c (i64_to_field m) g = Ok (s, g')" "val_sharing (threshold c) (points c) (i64_to_field m) s"
    by (rule committee_split_val [OF c])
  have "sharing_to_fhe ctx P kp (map (\<lambda>i. s ! i) sel) c scale
      = (if m = - (2 ^ 63) then Panic else ok_or () (ck_encrypt ctx kp [ck_dequantize ctx m scale]))"
    unfolding sharing_to_fhe_def selection_reconstructs [OF c s(2) sel] mapE.simps bindR.simps
    by (simp only: field_to_i64_of [OF assms(1) range(3,1,2)] split: if_splits) simp
  moreover have "fhe_to_sharing ctx F kp ct c scale g = Ok (s, g')" by (simp add: fhe_to_sharing_def dec [unfolded One_nat_def] m s(1) nthR_def del: bindR_eq_Ok)
  ultimately show ?thesis by blast
qed

text \<open>A scheme without encryption, at a thousandth.\<close>

definition fixed_context :: "(unit, int, int) ckks_context" where
  "fixed_context = \<lparr>ck_decrypt = (\<lambda>_ ct len. Some (replicate len ct)), ck_encrypt = (\<lambda>_ xs. if xs = [] then None else Some (xs ! 0)),
     ck_quantize = (\<lambda>x scale. x * uint scale), ck_dequantize = (\<lambda>m scale. m div uint scale)\<rparr>"

theorem hybrid_round_trip_witness:
  "\<exists>shares g'. fhe_to_sharing fixed_context (prime_share_ops zp_draw) () (- 7) (zp_committee 2 5) 1000 0 = Ok (shares, g')
     \<and> sharing_to_fhe fixed_context zp_ops () (map (\<lambda>i. shares ! i) [4, 0, 3]) (zp_committee 2 5) 1000 = Ok (- 7)"
  using hybrid_round_trip [OF zp.prime_field_axioms good_zp_committee, of 2 5 fixed_context "()" "- 7" "- 7" "[]" 1000 "- 7000" "[4, 0, 3]"
      "prime_share_ops zp_draw" 0]
  by (auto simp: fixed_context_def zp_ops_def PLAINTEXT_MODULUS_def)

lemma lagrange_coeffs_eq:
  assumes "distinct (points c)" "t < committee_size c"
  shows "lagrange_coeffs c t = Ok (map (\<lambda>i. lagrange_basis (take (t + 1) (points c)) i 0) [0..<t + 1])"
proof -
  let ?ps = "take (t + 1) (points c)"
  have len: "length ?ps = t + 1" "distinct ?ps" using assms by (simp_all add: committee_size_def)
  have "mapR (\<lambda>(i, pi). mapE (\<lambda>_. ()) (basis_at_zero ?ps i pi)) (List.enumerate 0 ?ps)
      = Ok (map (\<lambda>(i, p). lagrange_basis ?ps i 0) (List.enumerate 0 ?ps))"
  proof (rule mapR_Ok)
    fix x
    assume "x \<in> set (List.enumerate 0 ?ps)"
    then obtain i where "x = (i, ?ps ! i)" "i < length ?ps" unfolding enumerate_eq_map_nth by auto
    then show "(case x of (i, p) \<Rightarrow> mapE (\<lambda>_. ()) (basis_at_zero ?ps i p)) = Ok (case x of (i, p) \<Rightarrow> lagrange_basis ?ps i 0)"
      using basis_at_zero_eq [OF len(2)] by simp
  qed
  then show ?thesis using assms(2) len(1) by (simp add: lagrange_coeffs_def Let_def enumerate_eq_map_nth comp_def del: upt_Suc)
qed

text \<open>An addition of partials that fails is forgotten: the decryption goes on with the next party's partial alone.\<close>

lemma failed_addition_forgotten:
  assumes "distinct (points c)" "2 < committee_size c"
    and "tc_decrypt_main ctx ct k1 = Some p1" "tc_decrypt_main ctx ct k2 = Some p2" "tc_decrypt_main ctx ct k3 = Some p3"
    and scale: "\<And>p l. tc_scale_partial ctx p l = Some (scaled p l)" and add: "\<And>p q. tc_add_partials ctx p q = None"
  shows "threshold_decrypt ctx P ct [k1, k2, k3] c 2 len
    = ok_or () (tc_fusion ctx [scaled p3 (fp60_to_u64 P (lagrange_basis (take 3 (points c)) 2 0))] len)"
  using assms(3-5) lagrange_coeffs_eq [OF assms(1,2)]
  by (simp add: threshold_decrypt_def scale add nthR_def eval_nat_numeral del: bindR_eq_Ok)

end
