(* ===== verification/Balance_Postgres.thy ===== *)
theory Balance_Postgres
  imports Balance_Ledger
begin

text \<open>
  \<open>runtime/src/postgres.rs\<close>: the balance runtime over the tables of \<open>migrations/0001_runtime.sql\<close>, against the
  one in memory.

  A table is a map from its primary key, or the list of its rows in insertion order.  As in the store of the manifests a
  statement may fail before it does anything, as \<open>bd_faults\<close> says one by one, and a transaction that does not commit
  leaves the tables as they were.  Every \<open>CHECK\<close> and every key of the tables that an insertion can violate is written out.
  The mutex around the client is the flag \<open>pb_poisoned\<close>, set when the backend panics inside a transaction.
\<close>

section \<open>Tables\<close>

record balance_row =
  bw_data_id :: bytes
  bw_version :: int
  bw_ciphertext :: bytes

record marker_row =
  mk_account :: bytes
  mk_asset :: bytes
  mk_amount_be :: bytes
  mk_root :: bytes

record processed_transfer_row =
  pt_sender :: bytes
  pt_receiver :: bytes
  pt_asset :: bytes
  pt_amount_be :: bytes
  pt_root :: bytes

record transition_row =
  tw_kind :: string
  tw_operation_id :: bytes
  tw_account :: bytes
  tw_asset :: bytes
  tw_amount_be :: bytes
  tw_old_root :: bytes
  tw_new_root :: bytes
  tw_data_id :: bytes
  tw_transcript :: bytes
  tw_version :: int

record balance_database =
  bd_root :: "bytes option"
  bd_balances :: "balance_key \<rightharpoonup> balance_row"
  bd_deposits :: "bytes \<rightharpoonup> marker_row"
  bd_nullifiers :: "bytes \<rightharpoonup> marker_row"
  bd_transfers :: "bytes \<rightharpoonup> processed_transfer_row"
  bd_transitions :: "transition_row list"
  bd_faults :: "bool list"

record postgres_runtime =
  pb_db :: balance_database
  pb_poisoned :: bool

section \<open>Statements and transactions\<close>

type_synonym 'a bd_op = "balance_database \<Rightarrow> (runtime_error, 'a) res \<times> balance_database"

definition sql :: "'a bd_op \<Rightarrow> 'a bd_op" where
  "sql op db =
     (case bd_faults db of
        [] \<Rightarrow> op db
      | fails # rest \<Rightarrow> if fails then (Err RPersistenceFailure, db\<lparr>bd_faults := rest\<rparr>) else op (db\<lparr>bd_faults := rest\<rparr>))"

definition sql_transaction :: "'a bd_op \<Rightarrow> 'a bd_op" where
  "sql_transaction body db =
     then_do (sql (\<lambda>db. (Ok (), db)) db) (\<lambda>_ start.
       case then_do (body start) (\<lambda>x. sql (\<lambda>db. (Ok x, db))) of
         (Ok x, db') \<Rightarrow> (Ok x, db')
       | (Err e, db') \<Rightarrow> (Err e, start\<lparr>bd_faults := bd_faults db'\<rparr>)
       | (Panic, db') \<Rightarrow> (Panic, start\<lparr>bd_faults := bd_faults db'\<rparr>))"

definition pg_transaction :: "'a bd_op \<Rightarrow> postgres_runtime \<Rightarrow> (runtime_error, 'a) res \<times> postgres_runtime" where
  "pg_transaction operation rt =
     (if pb_poisoned rt then (Err RStateUnavailable, rt)
      else let (r, db) = sql_transaction operation (pb_db rt) in (r, rt\<lparr>pb_db := db, pb_poisoned := (r = Panic)\<rparr>))"

text \<open>The tables exist from the start and are empty; the migration inserts the first root.\<close>

definition migrate :: "postgres_runtime \<Rightarrow> (runtime_error, unit) res \<times> postgres_runtime" where
  "migrate rt =
     (if pb_poisoned rt then (Err RStateUnavailable, rt)
      else let (r, db) = sql (\<lambda>db. (Ok (), if bd_root db = None then db\<lparr>bd_root := Some (replicate 32 0)\<rparr> else db)) (pb_db rt)
        in (r, rt\<lparr>pb_db := db\<rparr>))"

definition empty_balance_database :: "bool list \<Rightarrow> balance_database" where
  "empty_balance_database faults =
     \<lparr>bd_root = None, bd_balances = Map.empty, bd_deposits = Map.empty, bd_nullifiers = Map.empty, bd_transfers = Map.empty,
      bd_transitions = [], bd_faults = faults\<rparr>"

definition pg_connect :: "balance_database \<Rightarrow> (runtime_error, postgres_runtime) res \<times> balance_database" where
  "pg_connect db =
     then_do (sql (\<lambda>db. (Ok (), db)) db) (\<lambda>_ db.
       let (r, rt) = migrate \<lparr>pb_db = db, pb_poisoned = False\<rparr> in (bindR r (\<lambda>_. Ok rt), pb_db rt))"

section \<open>Reading\<close>

definition commitment_from_vec :: "bytes \<Rightarrow> (runtime_error, commitment) res" where
  "commitment_from_vec bs = (if length bs = 32 then Ok bs else Err RCorruptPersistence)"

definition data_id_from_vec :: "bytes \<Rightarrow> (runtime_error, bytes) res" where
  "data_id_from_vec bs = (if length bs = 32 then Ok bs else Err RCorruptPersistence)"

definition u64_version :: "int \<Rightarrow> (runtime_error, u64) res" where
  "u64_version v = (if 0 \<le> v then Ok (of_int v) else Err RCorruptPersistence)"

definition i64_version :: "u64 \<Rightarrow> (runtime_error, int) res" where
  "i64_version v = (if unat v < 2 ^ 63 then Ok (int (unat v)) else Err RCorruptPersistence)"

definition locked_root :: "commitment bd_op" where
  "locked_root = sql (\<lambda>db. (bindR (ok_or RPersistenceFailure (bd_root db)) commitment_from_vec, db))"

definition current_balance :: "private_account_id \<Rightarrow> asset_id \<Rightarrow> (fhe_amount \<times> u64) option bd_op" where
  "current_balance account asset =
     sql (\<lambda>db.
       (case bd_balances db (account, asset) of
          None \<Rightarrow> Ok None
        | Some row \<Rightarrow> bindR (u64_version (bw_version row)) (\<lambda>version. Ok (Some (bw_ciphertext row, version))), db))"

datatype marker_table = ProcessedDeposits | SpentNullifiers | ProcessedTransfers

fun marked :: "marker_table \<Rightarrow> balance_database \<Rightarrow> bytes \<Rightarrow> bool" where
  "marked ProcessedDeposits db i \<longleftrightarrow> bd_deposits db i \<noteq> None"
| "marked SpentNullifiers db i \<longleftrightarrow> bd_nullifiers db i \<noteq> None"
| "marked ProcessedTransfers db i \<longleftrightarrow> bd_transfers db i \<noteq> None"

definition marker_exists :: "marker_table \<Rightarrow> bytes \<Rightarrow> bool bd_op" where
  "marker_exists table i = sql (\<lambda>db. (Ok (marked table db i), db))"

section \<open>Writing\<close>

definition derive_transition ::
  "backend \<Rightarrow> commitment \<Rightarrow> private_account_id \<Rightarrow> asset_id \<Rightarrow> fhe_amount \<Rightarrow> u64 \<Rightarrow> bytes \<times> commitment \<times> commitment"
where
  "derive_transition B old_root account asset ciphertext version =
     (let version_bytes = u64_be version;
          new_root = commit B (ascii ''PPSC_RUNTIME_STATE_V1'') [old_root, account, asset, ciphertext, version_bytes];
          data_id = commit B (ascii ''PPSC_BALANCE_DATA_V1'') [account, asset, ciphertext, version_bytes];
          transcript = commit B (ascii ''PPSC_RUNTIME_TRANSCRIPT_V1'') [old_root, new_root, data_id]
      in (data_id, new_root, transcript))"

definition insert_checked :: "bool \<Rightarrow> (balance_database \<Rightarrow> bool) \<Rightarrow> (balance_database \<Rightarrow> balance_database) \<Rightarrow> unit bd_op" where
  "insert_checked check conflict put =
     sql (\<lambda>db. if \<not> check \<or> conflict db then (Err RPersistenceFailure, db) else (Ok (), put db))"

definition upsert_balance :: "private_account_id \<Rightarrow> asset_id \<Rightarrow> bytes \<Rightarrow> int \<Rightarrow> fhe_amount \<Rightarrow> unit bd_op" where
  "upsert_balance account asset data_id version ciphertext =
     insert_checked (length account = 32 \<and> length asset = 20 \<and> length data_id = 32 \<and> 0 < version) (\<lambda>_. False)
       (\<lambda>db. db\<lparr>bd_balances := (bd_balances db)((account, asset) \<mapsto>
          \<lparr>bw_data_id = data_id, bw_version = version, bw_ciphertext = ciphertext\<rparr>)\<rparr>)"

definition insert_marker ::
  "string \<Rightarrow> bytes \<Rightarrow> private_account_id \<Rightarrow> asset_id \<Rightarrow> u128 \<Rightarrow> commitment \<Rightarrow> unit bd_op"
where
  "insert_marker kind operation_id account asset amount new_root =
     (let check = (length operation_id = 32 \<and> length account = 32 \<and> length asset = 20 \<and> length (u128_be amount) = 16
            \<and> length new_root = 32);
          row = \<lparr>mk_account = account, mk_asset = asset, mk_amount_be = u128_be amount, mk_root = new_root\<rparr>
      in if kind = ''deposit''
         then insert_checked check (\<lambda>db. bd_deposits db operation_id \<noteq> None)
                (\<lambda>db. db\<lparr>bd_deposits := (bd_deposits db)(operation_id \<mapsto> row)\<rparr>)
         else insert_checked check (\<lambda>db. bd_nullifiers db operation_id \<noteq> None)
                (\<lambda>db. db\<lparr>bd_nullifiers := (bd_nullifiers db)(operation_id \<mapsto> row)\<rparr>))"

definition update_root :: "commitment \<Rightarrow> unit bd_op" where
  "update_root new_root =
     insert_checked (length new_root = 32) (\<lambda>_. False)
       (\<lambda>db. db\<lparr>bd_root := map_option (\<lambda>_. new_root) (bd_root db)\<rparr>)"

definition insert_transition :: "transition_row \<Rightarrow> unit bd_op" where
  "insert_transition row =
     insert_checked
       (tw_kind row \<in> {''deposit'', ''withdrawal''} \<and> length (tw_operation_id row) = 32 \<and> length (tw_account row) = 32
        \<and> length (tw_asset row) = 20 \<and> length (tw_amount_be row) = 16 \<and> length (tw_old_root row) = 32
        \<and> length (tw_new_root row) = 32 \<and> length (tw_data_id row) = 32 \<and> length (tw_transcript row) = 32 \<and> 0 < tw_version row)
       (\<lambda>db. tw_operation_id row \<in> tw_operation_id ` set (bd_transitions db))
       (\<lambda>db. db\<lparr>bd_transitions := bd_transitions db @ [row]\<rparr>)"

definition persist_transition ::
  "string \<Rightarrow> bytes \<Rightarrow> private_account_id \<Rightarrow> asset_id \<Rightarrow> u128 \<Rightarrow> commitment \<Rightarrow> fhe_amount \<Rightarrow> bytes \<Rightarrow> commitment \<Rightarrow>
     commitment \<Rightarrow> u64 \<Rightarrow> unit bd_op"
where
  "persist_transition kind operation_id account asset amount old_root ciphertext data_id new_root transcript_root version db =
     then_do (i64_version version, db) (\<lambda>version db.
     then_do (upsert_balance account asset data_id version ciphertext db) (\<lambda>_ db.
     then_do (insert_marker kind operation_id account asset amount new_root db) (\<lambda>_ db.
     then_do (update_root new_root db) (\<lambda>_.
       insert_transition
         \<lparr>tw_kind = kind, tw_operation_id = operation_id, tw_account = account, tw_asset = asset,
          tw_amount_be = u128_be amount, tw_old_root = old_root, tw_new_root = new_root, tw_data_id = data_id,
          tw_transcript = transcript_root, tw_version = version\<rparr>))))"

section \<open>The commands\<close>

definition checked_version :: "u64 \<Rightarrow> (runtime_error, u64) res" where
  "checked_version v = ok_or RCorruptPersistence (checked_add v 1)"

definition saturating_succ :: "u64 \<Rightarrow> u64" where
  "saturating_succ v = (case checked_add v 1 of None \<Rightarrow> - 1 | Some w \<Rightarrow> w)"

definition credited_ciphertext ::
  "backend \<Rightarrow> deposit_command \<Rightarrow> (fhe_amount \<times> u64) option \<Rightarrow> (runtime_error, fhe_amount \<times> u64) res"
where
  "credited_ciphertext B command current =
     (case current of
        Some (ct, version) \<Rightarrow>
          calls (fhe_to_mpc B ct) (\<lambda>left.
          calls (share_amount B (dep_amount command)) (\<lambda>right.
          calls (mpc_checked_add B left right) (\<lambda>next.
          calls (mpc_to_fhe B next (dep_account command) (dep_asset command)) (\<lambda>ciphertext.
          bindR (checked_version version) (\<lambda>version. Ok (ciphertext, version))))))
      | None \<Rightarrow>
          calls (encrypt_amount B (dep_amount command) (dep_account command) (dep_asset command)) (\<lambda>ciphertext. Ok (ciphertext, 1)))"

definition credit_operation :: "backend \<Rightarrow> deposit_command \<Rightarrow> state_transition bd_op" where
  "credit_operation B command db =
     then_do (locked_root db) (\<lambda>old_root db.
     if old_root \<noteq> dep_expected_old_state_root command then (Err RStaleStateRoot, db)
     else then_do (marker_exists ProcessedDeposits (dep_deposit_id command) db) (\<lambda>seen db.
     if seen then (Err RDepositAlreadyProcessed, db)
     else then_do (current_balance (dep_account command) (dep_asset command) db) (\<lambda>current db.
     then_do (credited_ciphertext B command current, db) (\<lambda>(ciphertext, version) db.
       let (data_id, new_root, transcript_root) =
             derive_transition B old_root (dep_account command) (dep_asset command) ciphertext version
       in then_do (persist_transition ''deposit'' (dep_deposit_id command) (dep_account command) (dep_asset command)
                     (dep_amount command) old_root ciphertext data_id new_root transcript_root version db)
            (\<lambda>_ db. (Ok \<lparr>st_new_state_root = new_root, st_encrypted_balance_data_id = data_id,
               st_transcript_root = transcript_root, st_version = version\<rparr>, db))))))"

definition pg_credit_deposit ::
  "backend \<Rightarrow> deposit_command \<Rightarrow> postgres_runtime \<Rightarrow> (runtime_error, state_transition) res \<times> postgres_runtime"
where
  "pg_credit_deposit B command rt =
     (if dep_amount command = 0 then (Err RInvalidAmount, rt) else pg_transaction (credit_operation B command) rt)"

definition debited_ciphertext :: "backend \<Rightarrow> withdrawal_command \<Rightarrow> fhe_amount \<times> u64 \<Rightarrow> (runtime_error, fhe_amount \<times> u64) res" where
  "debited_ciphertext B command = (\<lambda>(ct, version).
     calls (fhe_to_mpc B ct) (\<lambda>current_value.
     calls (share_amount B (wd_gross_amount command)) (\<lambda>debit.
     calls (mpc_greater_than_or_equal B current_value debit) (\<lambda>enough.
     if \<not> enough then Err RInsufficientBalance
     else
       calls (mpc_checked_sub B current_value debit) (\<lambda>next.
       calls (mpc_to_fhe B next (wd_account command) (wd_asset command)) (\<lambda>ciphertext.
       bindR (checked_version version) (\<lambda>version. Ok (ciphertext, version))))))))"

definition debit_operation :: "backend \<Rightarrow> withdrawal_command \<Rightarrow> state_transition bd_op" where
  "debit_operation B command db =
     then_do (locked_root db) (\<lambda>old_root db.
     if old_root \<noteq> wd_expected_old_state_root command then (Err RStaleStateRoot, db)
     else then_do (marker_exists SpentNullifiers (wd_nullifier command) db) (\<lambda>spent db.
     if spent then (Err RNullifierAlreadySpent, db)
     else then_do (current_balance (wd_account command) (wd_asset command) db) (\<lambda>current db.
     then_do (ok_or RBalanceNotFound current, db) (\<lambda>current db.
     then_do (debited_ciphertext B command current, db) (\<lambda>(ciphertext, version) db.
       let (data_id, new_root, transcript_root) =
             derive_transition B old_root (wd_account command) (wd_asset command) ciphertext version
       in then_do (persist_transition ''withdrawal'' (wd_nullifier command) (wd_account command) (wd_asset command)
                     (wd_gross_amount command) old_root ciphertext data_id new_root transcript_root version db)
            (\<lambda>_ db. (Ok \<lparr>st_new_state_root = new_root, st_encrypted_balance_data_id = data_id,
               st_transcript_root = transcript_root, st_version = version\<rparr>, db)))))))"

definition pg_debit_withdrawal ::
  "backend \<Rightarrow> withdrawal_command \<Rightarrow> postgres_runtime \<Rightarrow> (runtime_error, state_transition) res \<times> postgres_runtime"
where
  "pg_debit_withdrawal B command rt =
     (if wd_gross_amount command = 0 then (Err RInvalidAmount, rt) else pg_transaction (debit_operation B command) rt)"

text \<open>What both parties hold after a transfer, before anything is written.\<close>

definition transferred_ciphertexts ::
  "backend \<Rightarrow> transfer_command \<Rightarrow> fhe_amount \<times> u64 \<Rightarrow> (fhe_amount \<times> u64) option \<Rightarrow>
     (runtime_error, (fhe_amount \<times> u64) \<times> fhe_amount \<times> u64) res"
where
  "transferred_ciphertexts B command sender receiver =
     calls (fhe_to_mpc B (fst sender)) (\<lambda>sender_secret.
     calls (case receiver of Some (ct, _) \<Rightarrow> fhe_to_mpc B ct | None \<Rightarrow> share_amount B 0) (\<lambda>receiver_secret.
     calls (share_amount B (tr_amount command)) (\<lambda>amount.
     calls (mpc_greater_than_or_equal B sender_secret amount) (\<lambda>enough.
     if \<not> enough then Err RInsufficientBalance
     else
       calls (mpc_checked_sub B sender_secret amount) (\<lambda>sender_next.
       calls (mpc_checked_add B receiver_secret amount) (\<lambda>receiver_next.
       bindR (checked_version (snd sender)) (\<lambda>sender_version.
         let receiver_version = (case receiver of None \<Rightarrow> 1 | Some (_, version) \<Rightarrow> saturating_succ version) in
         calls (mpc_to_fhe B sender_next (tr_sender command) (tr_asset command)) (\<lambda>sender_output.
         calls (mpc_to_fhe B receiver_next (tr_receiver command) (tr_asset command)) (\<lambda>receiver_output.
           Ok ((sender_output, sender_version), receiver_output, receiver_version))))))))))"

primrec write_balances :: "asset_id \<Rightarrow> (private_account_id \<times> bytes \<times> u64 \<times> fhe_amount) list \<Rightarrow> unit bd_op" where
  "write_balances asset [] db = (Ok (), db)"
| "write_balances asset (w # ws) db =
     (let (account, data_id, version, ciphertext) = w in
      then_do (i64_version version, db) (\<lambda>version db.
      then_do (upsert_balance account asset data_id version ciphertext db) (\<lambda>_. write_balances asset ws)))"

definition insert_processed_transfer :: "transfer_command \<Rightarrow> commitment \<Rightarrow> unit bd_op" where
  "insert_processed_transfer command new_root =
     insert_checked
       (length (tr_transfer_id command) = 32 \<and> length (tr_sender command) = 32 \<and> length (tr_receiver command) = 32
        \<and> length (tr_asset command) = 20 \<and> length (u128_be (tr_amount command)) = 16 \<and> length new_root = 32)
       (\<lambda>db. bd_transfers db (tr_transfer_id command) \<noteq> None)
       (\<lambda>db. db\<lparr>bd_transfers := (bd_transfers db)(tr_transfer_id command \<mapsto>
          \<lparr>pt_sender = tr_sender command, pt_receiver = tr_receiver command, pt_asset = tr_asset command,
           pt_amount_be = u128_be (tr_amount command), pt_root = new_root\<rparr>)\<rparr>)"

definition transfer_operation :: "backend \<Rightarrow> transfer_command \<Rightarrow> transfer_transition bd_op" where
  "transfer_operation B command db =
     then_do (locked_root db) (\<lambda>old_root db.
     if old_root \<noteq> tr_expected_old_state_root command then (Err RStaleStateRoot, db)
     else then_do (marker_exists ProcessedTransfers (tr_transfer_id command) db) (\<lambda>seen db.
     if seen then (Err RNullifierAlreadySpent, db)
     else then_do (current_balance (tr_sender command) (tr_asset command) db) (\<lambda>sender db.
     then_do (ok_or RBalanceNotFound sender, db) (\<lambda>sender db.
     then_do (current_balance (tr_receiver command) (tr_asset command) db) (\<lambda>receiver db.
     then_do (transferred_ciphertexts B command sender receiver, db)
       (\<lambda>((sender_output, sender_version), receiver_output, receiver_version) db.
       let (sender_data_id, intermediate_root, _) =
             derive_transition B old_root (tr_sender command) (tr_asset command) sender_output sender_version;
           (receiver_data_id, new_root, transcript_root) =
             derive_transition B intermediate_root (tr_receiver command) (tr_asset command) receiver_output receiver_version
       in then_do (write_balances (tr_asset command)
            [(tr_sender command, sender_data_id, sender_version, sender_output),
             (tr_receiver command, receiver_data_id, receiver_version, receiver_output)] db) (\<lambda>_ db.
          then_do (insert_processed_transfer command new_root db) (\<lambda>_ db.
          then_do (update_root new_root db) (\<lambda>_ db.
            (Ok \<lparr>tt_new_state_root = new_root, tt_sender_data_id = sender_data_id, tt_receiver_data_id = receiver_data_id,
                 tt_transcript_root = transcript_root, tt_sender_version = sender_version,
                 tt_receiver_version = receiver_version\<rparr>, db))))))))))"

definition pg_transfer ::
  "backend \<Rightarrow> transfer_command \<Rightarrow> postgres_runtime \<Rightarrow> (runtime_error, transfer_transition) res \<times> postgres_runtime"
where
  "pg_transfer B command rt =
     (if tr_amount command = 0 \<or> tr_sender command = tr_receiver command then (Err RInvalidAmount, rt)
      else pg_transaction (transfer_operation B command) rt)"

section \<open>Views\<close>

definition view_operation :: "private_account_id \<Rightarrow> asset_id \<Rightarrow> encrypted_balance_view bd_op" where
  "view_operation account asset db =
     then_do (locked_root db) (\<lambda>root db.
     then_do (sql (\<lambda>db. (Ok (bd_balances db (account, asset)), db)) db) (\<lambda>row db.
     (bindR (ok_or RBalanceNotFound row) (\<lambda>row.
      bindR (data_id_from_vec (bw_data_id row)) (\<lambda>data_id.
      bindR (u64_version (bw_version row)) (\<lambda>version.
        Ok \<lparr>view_data_id = data_id, view_ciphertext = bw_ciphertext row, view_state_root = root, view_version = version\<rparr>))), db)))"

definition pg_encrypted_balance ::
  "private_account_id \<Rightarrow> asset_id \<Rightarrow> postgres_runtime \<Rightarrow> (runtime_error, encrypted_balance_view) res \<times> postgres_runtime"
where
  "pg_encrypted_balance account asset = pg_transaction (view_operation account asset)"

definition pg_open_balance_for_owner ::
  "backend \<Rightarrow> private_account_id \<Rightarrow> asset_id \<Rightarrow> bytes \<Rightarrow> postgres_runtime \<Rightarrow> (runtime_error, u128) res \<times> postgres_runtime"
where
  "pg_open_balance_for_owner B account asset authorization rt =
     then_do (pg_encrypted_balance account asset rt) (\<lambda>view rt.
       (mapE runtime_error_of (decrypt_for_owner B (view_ciphertext view) account authorization), rt))"

definition pg_state_root :: "postgres_runtime \<Rightarrow> (runtime_error, commitment) res \<times> postgres_runtime" where
  "pg_state_root = pg_transaction locked_root"

fun pg_run_command :: "backend \<Rightarrow> command \<Rightarrow> postgres_runtime \<Rightarrow> (runtime_error, transition) res \<times> postgres_runtime" where
  "pg_run_command B (Deposit c) rt = (let (r, rt') = pg_credit_deposit B c rt in (bindR r (\<lambda>t. Ok (Single t)), rt'))"
| "pg_run_command B (Withdrawal c) rt = (let (r, rt') = pg_debit_withdrawal B c rt in (bindR r (\<lambda>t. Ok (Single t)), rt'))"
| "pg_run_command B (Transfer c) rt = (let (r, rt') = pg_transfer B c rt in (bindR r (\<lambda>t. Ok (Double t)), rt'))"

fun pg_run_commands :: "backend \<Rightarrow> command list \<Rightarrow> postgres_runtime \<Rightarrow> log \<times> postgres_runtime" where
  "pg_run_commands B [] rt = ([], rt)"
| "pg_run_commands B (c # cs) rt =
     (let (r, rt1) = pg_run_command B c rt; (log, rt2) = pg_run_commands B cs rt1 in ((c, r) # log, rt2))"

section \<open>The state that the tables hold\<close>

definition record_of :: "balance_row \<Rightarrow> balance_record" where
  "record_of row = \<lparr>br_ciphertext = bw_ciphertext row, br_data_id = bw_data_id row, br_version = of_int (bw_version row)\<rparr>"

definition state_of :: "balance_database \<Rightarrow> runtime_state" where
  "state_of db =
     \<lparr>rs_state_root = (case bd_root db of Some root \<Rightarrow> root | None \<Rightarrow> []),
      rs_balances = (\<lambda>k. map_option record_of (bd_balances db k)),
      rs_processed_deposits = dom (bd_deposits db), rs_spent_nullifiers = dom (bd_nullifiers db),
      rs_processed_transfers = dom (bd_transfers db)\<rparr>"

definition runtime_of :: "postgres_runtime \<Rightarrow> balance_runtime" where
  "runtime_of rt = \<lparr>rt_state = state_of (pb_db rt), rt_poisoned = pb_poisoned rt\<rparr>"

text \<open>What every transaction keeps: rows that read back, and one transition per deposit and withdrawal.\<close>

definition wf_tables :: "balance_database \<Rightarrow> bool" where
  "wf_tables db \<longleftrightarrow>
     (\<exists>root. bd_root db = Some root \<and> length root = 32)
     \<and> (\<forall>k row. bd_balances db k = Some row \<longrightarrow> 0 < bw_version row \<and> bw_version row < 2 ^ 63 \<and> length (bw_data_id row) = 32)
     \<and> tw_operation_id ` set (bd_transitions db) = dom (bd_deposits db) \<union> dom (bd_nullifiers db)
     \<and> dom (bd_deposits db) \<inter> dom (bd_nullifiers db) = {}"

text \<open>What the types of the commands say of the lengths of their fields.\<close>

fun typed_command :: "command \<Rightarrow> bool" where
  "typed_command (Deposit c) \<longleftrightarrow> length (dep_deposit_id c) = 32 \<and> length (dep_account c) = 32 \<and> length (dep_asset c) = 20"
| "typed_command (Withdrawal c) \<longleftrightarrow> length (wd_nullifier c) = 32 \<and> length (wd_account c) = 32 \<and> length (wd_asset c) = 20"
| "typed_command (Transfer c) \<longleftrightarrow> length (tr_transfer_id c) = 32 \<and> length (tr_sender c) = 32 \<and> length (tr_receiver c) = 32
     \<and> length (tr_asset c) = 20"

text \<open>The transitions table has one key for deposits and withdrawals.\<close>

fun reuses_operation_id :: "command \<Rightarrow> balance_database \<Rightarrow> bool" where
  "reuses_operation_id (Deposit c) db \<longleftrightarrow> bd_nullifiers db (dep_deposit_id c) \<noteq> None"
| "reuses_operation_id (Withdrawal c) db \<longleftrightarrow> bd_deposits db (wd_nullifier c) \<noteq> None"
| "reuses_operation_id (Transfer c) db \<longleftrightarrow> False"

text \<open>Nothing stands in the way of a command: no failure, no shared identifier, no version at the end of \<open>BIGINT\<close>.\<close>

definition undisturbed :: "command \<Rightarrow> balance_database \<Rightarrow> bool" where
  "undisturbed c db \<longleftrightarrow> bd_faults db = [] \<and> typed_command c \<and> \<not> reuses_operation_id c db
     \<and> (\<forall>k row. bd_balances db k = Some row \<longrightarrow> bw_version row < 2 ^ 63 - 1)"

section \<open>Operations against the in-memory body\<close>

text \<open>
  The outcome of an operation agrees with that of the body in memory; only a disturbed one may fail for the sake of the database.
\<close>

definition agrees :: "bool \<Rightarrow> (runtime_error, 'a \<times> runtime_state) res \<Rightarrow> (runtime_error, 'a) res \<times> balance_database \<Rightarrow> bool" where
  "agrees strict M out =
     (case out of
        (Ok x, db) \<Rightarrow> M = Ok (x, state_of db) \<and> wf_tables db \<and> (strict \<longrightarrow> bd_faults db = [])
      | (Err e, db) \<Rightarrow> (M = Err e \<or> \<not> strict \<and> e \<in> {RPersistenceFailure, RCorruptPersistence}) \<and> (strict \<longrightarrow> bd_faults db = [])
      | (Panic, db) \<Rightarrow> M = Panic \<and> (strict \<longrightarrow> bd_faults db = []))"

lemma agrees_pure:
  assumes "strict \<Longrightarrow> fs = []" and "\<And>x. r = Ok x \<Longrightarrow> agrees strict (f x) (k x (db\<lparr>bd_faults := fs\<rparr>))"
  shows "agrees strict (bindR r f) (then_do (r, db\<lparr>bd_faults := fs\<rparr>) k)"
  using assms by (cases r) (auto simp: agrees_def)

lemma state_of_faults [simp]: "state_of (db\<lparr>bd_faults := fs\<rparr>) = state_of db"
  by (simp add: state_of_def)

lemma wf_tables_faults [simp]: "wf_tables (db\<lparr>bd_faults := fs\<rparr>) = wf_tables db"
  by (simp add: wf_tables_def)

lemma agrees_sql:
  assumes "strict \<Longrightarrow> bd_faults db = []" and "\<And>fs. (strict \<Longrightarrow> fs = []) \<Longrightarrow> agrees strict M (then_do (op (db\<lparr>bd_faults := fs\<rparr>)) k)"
  shows "agrees strict M (then_do (sql op db) k)"
proof (cases "bd_faults db")
  case Nil
  then have same: "db\<lparr>bd_faults := []\<rparr> = db" by (cases db) simp
  show ?thesis using assms(2) [of "[]"] Nil unfolding same by (simp add: sql_def)
next
  case (Cons f fs)
  then have "\<not> strict" using assms(1) by auto
  then show ?thesis using assms(2) [of fs] Cons by (auto simp: sql_def agrees_def)
qed


lemma then_do_assoc: "then_do (then_do m f) g = then_do m (\<lambda>x w. then_do (f x w) g)"
  by (cases m; cases "fst m") auto

lemma agrees_insert:
  assumes "strict \<Longrightarrow> bd_faults db = []" and "strict \<Longrightarrow> check \<and> \<not> conflict db"
    and "\<And>fs. conflict (db\<lparr>bd_faults := fs\<rparr>) = conflict db"
    and "\<And>fs. (strict \<Longrightarrow> fs = []) \<Longrightarrow> check \<Longrightarrow> \<not> conflict db \<Longrightarrow> agrees strict M (k () (put (db\<lparr>bd_faults := fs\<rparr>)))"
  shows "agrees strict M (then_do (insert_checked check conflict put db) k)"
  unfolding insert_checked_def
proof (rule agrees_sql [OF assms(1)])
  fix fs :: "bool list"
  assume "strict \<Longrightarrow> fs = []"
  then show "agrees strict M (then_do (if \<not> check \<or> conflict (db\<lparr>bd_faults := fs\<rparr>) then (Err RPersistenceFailure, db\<lparr>bd_faults := fs\<rparr>)
      else (Ok (), put (db\<lparr>bd_faults := fs\<rparr>))) k)"
    using assms(2-4) by (auto simp: agrees_def)
qed

lemma agrees_version:
  assumes "strict \<Longrightarrow> bd_faults db = [] \<and> unat v < 2 ^ 63" and "1 \<le> unat v"
    and "\<And>w. 0 < w \<Longrightarrow> w < 2 ^ 63 \<Longrightarrow> of_int w = v \<Longrightarrow> agrees strict M (k w db)"
  shows "agrees strict M (then_do (i64_version v, db) k)"
proof (cases "unat v < 2 ^ 63")
  case True
  have "agrees strict M (k (int (unat v)) db)"
  proof (rule assms(3))
    have "int (unat v) < int (2 ^ 63)" using True by (simp only: of_nat_less_iff)
    then show "int (unat v) < 2 ^ 63" by (simp del: of_nat_unat)
    show "0 < int (unat v)" using assms(2) by linarith
  qed simp
  then show ?thesis using True by (simp add: i64_version_def del: of_nat_unat)
next
  case False
  then show ?thesis using assms(1) by (auto simp: i64_version_def agrees_def)
qed

lemma wf_tablesD:
  assumes "wf_tables db"
  shows "\<exists>root. bd_root db = Some root \<and> length root = 32"
    and "bd_balances db k = Some row \<Longrightarrow> 0 < bw_version row \<and> bw_version row < 2 ^ 63 \<and> length (bw_data_id row) = 32"
    and "tw_operation_id ` set (bd_transitions db) = dom (bd_deposits db) \<union> dom (bd_nullifiers db)"
    and "dom (bd_deposits db) \<inter> dom (bd_nullifiers db) = {}"
  using assms unfolding wf_tables_def by blast+

section \<open>The tables once every statement has run\<close>

definition put_marker :: "string \<Rightarrow> bytes \<Rightarrow> marker_row \<Rightarrow> balance_database \<Rightarrow> balance_database" where
  "put_marker kind i row db =
     (if kind = ''deposit'' then db\<lparr>bd_deposits := (bd_deposits db)(i \<mapsto> row)\<rparr>
      else db\<lparr>bd_nullifiers := (bd_nullifiers db)(i \<mapsto> row)\<rparr>)"

definition marker :: "string \<Rightarrow> bytes \<Rightarrow> balance_database \<Rightarrow> marker_row option" where
  "marker kind i db = (if kind = ''deposit'' then bd_deposits db i else bd_nullifiers db i)"

definition mark :: "string \<Rightarrow> bytes \<Rightarrow> runtime_state \<Rightarrow> runtime_state" where
  "mark kind i st =
     (if kind = ''deposit'' then st\<lparr>rs_processed_deposits := insert i (rs_processed_deposits st)\<rparr>
      else st\<lparr>rs_spent_nullifiers := insert i (rs_spent_nullifiers st)\<rparr>)"

lemma insert_marker_eq:
  "insert_marker kind i account asset amount root =
     insert_checked (length i = 32 \<and> length account = 32 \<and> length asset = 20 \<and> length root = 32) (\<lambda>db. marker kind i db \<noteq> None)
       (put_marker kind i \<lparr>mk_account = account, mk_asset = asset, mk_amount_be = u128_be amount, mk_root = root\<rparr>)"
  by (simp add: insert_marker_def put_marker_def [abs_def] marker_def fun_eq_iff Let_def)

lemma marker_updates [simp]:
  "marker kind i (db\<lparr>bd_balances := m\<rparr>) = marker kind i db" "marker kind i (db\<lparr>bd_faults := fs\<rparr>) = marker kind i db"
  by (simp_all add: marker_def)

lemma put_marker_sel [simp]:
  "bd_root (put_marker kind i row db) = bd_root db" "bd_transitions (put_marker kind i row db) = bd_transitions db"
  "bd_balances (put_marker kind i row db) = bd_balances db" "bd_faults (put_marker kind i row db) = bd_faults db"
  "put_marker kind i row db\<lparr>bd_faults := fs\<rparr> = put_marker kind i row (db\<lparr>bd_faults := fs\<rparr>)"
  by (simp_all add: put_marker_def)

lemma written_tables:
  assumes wf: "wf_tables db" and row: "0 < bw_version row" "bw_version row < 2 ^ 63" "length (bw_data_id row) = 32"
    and t: "tw_operation_id t = i" and root: "length root = 32" and fresh: "i \<notin> tw_operation_id ` set (bd_transitions db)"
    and new: "db' = put_marker kind i m (db\<lparr>bd_balances := (bd_balances db)(k \<mapsto> row), bd_faults := fs\<rparr>)
        \<lparr>bd_root := map_option (\<lambda>_. root) (bd_root db), bd_transitions := bd_transitions db @ [t], bd_faults := fs'\<rparr>"
  shows "state_of db' = (mark kind i ((state_of db)\<lparr>rs_balances := (rs_balances (state_of db))(k \<mapsto> record_of row)\<rparr>))\<lparr>rs_state_root := root\<rparr>"
    and "wf_tables db'"
proof -
  obtain old where old: "bd_root db = Some old" using wf_tablesD(1) [OF wf] by blast
  show "state_of db' = (mark kind i ((state_of db)\<lparr>rs_balances := (rs_balances (state_of db))(k \<mapsto> record_of row)\<rparr>))\<lparr>rs_state_root := root\<rparr>"
    by (simp add: new old state_of_def put_marker_def mark_def fun_eq_iff)
  have "tw_operation_id ` set (bd_transitions db') = insert i (tw_operation_id ` set (bd_transitions db))" by (simp add: new t)
  moreover have "dom (bd_deposits db') \<union> dom (bd_nullifiers db') = insert i (dom (bd_deposits db) \<union> dom (bd_nullifiers db))"
    by (simp add: new put_marker_def)
  moreover have "0 < bw_version r \<and> bw_version r < 2 ^ 63 \<and> length (bw_data_id r) = 32" if "bd_balances db' j = Some r" for j r
    using that row wf_tablesD(2) [OF wf, of j r] by (simp add: new split: if_splits)
  moreover have "\<exists>r. bd_root db' = Some r \<and> length r = 32" using root by (simp add: new old)
  moreover have "dom (bd_deposits db') \<inter> dom (bd_nullifiers db') = {}"
    using fresh wf_tablesD(3,4) [OF wf] by (auto simp: new put_marker_def)
  ultimately show "wf_tables db'" using wf_tablesD(3) [OF wf] unfolding wf_tables_def by (intro conjI allI impI) simp_all
qed

text \<open>What must hold for an undisturbed write.\<close>

definition writable :: "balance_database \<Rightarrow> private_account_id \<Rightarrow> asset_id \<Rightarrow> u64 \<Rightarrow> bytes \<Rightarrow> bool" where
  "writable db account asset version i \<longleftrightarrow> bd_faults db = [] \<and> length account = 32 \<and> length asset = 20 \<and> unat version < 2 ^ 63
     \<and> length i = 32 \<and> bd_deposits db i = None \<and> bd_nullifiers db i = None"

lemma agrees_Ok: "state_of db = st \<Longrightarrow> wf_tables db \<Longrightarrow> (strict \<Longrightarrow> bd_faults db = []) \<Longrightarrow> agrees strict (Ok (x, st)) (Ok x, db)"
  by (simp add: agrees_def)

lemma persist_agrees:
  assumes wf: "wf_tables db" and kind: "kind \<in> {''deposit'', ''withdrawal''}" and version: "1 \<le> unat version"
    and w: "strict \<Longrightarrow> writable db account asset version i"
    and lengths: "length new_root = 32" "length data_id = 32" "length transcript = 32" "length old_root = 32"
  shows "agrees strict (Ok (t, (mark kind i ((state_of db)\<lparr>rs_balances := (rs_balances (state_of db))((account, asset) \<mapsto>
         \<lparr>br_ciphertext = ct, br_data_id = data_id, br_version = version\<rparr>)\<rparr>))\<lparr>rs_state_root := new_root\<rparr>))
      (then_do (persist_transition kind i account asset amount old_root ct data_id new_root transcript version db) (\<lambda>_ db. (Ok t, db)))"
proof -
  have facts: "bd_faults db = []" "length account = 32" "length asset = 20" "unat version < 2 ^ 63" "length i = 32" "marker kind i db = None"
      "i \<notin> tw_operation_id ` set (bd_transitions db)" if strict
    using w [OF that] wf_tablesD(3) [OF wf] by (auto simp: writable_def marker_def)
  let ?m = "\<lparr>mk_account = account, mk_asset = asset, mk_amount_be = u128_be amount, mk_root = new_root\<rparr>"
  let ?row = "\<lambda>w. \<lparr>bw_data_id = data_id, bw_version = w, bw_ciphertext = ct\<rparr>"
  let ?t = "\<lambda>w. \<lparr>tw_kind = kind, tw_operation_id = i, tw_account = account, tw_asset = asset, tw_amount_be = u128_be amount,
    tw_old_root = old_root, tw_new_root = new_root, tw_data_id = data_id, tw_transcript = transcript, tw_version = w\<rparr>"
  have written: "agrees strict (Ok (t, (mark kind i ((state_of db)\<lparr>rs_balances := (rs_balances (state_of db))((account, asset) \<mapsto>
         \<lparr>br_ciphertext = ct, br_data_id = data_id, br_version = version\<rparr>)\<rparr>))\<lparr>rs_state_root := new_root\<rparr>)) (Ok t, db')"
    if "0 < v" "v < 2 ^ 63" "of_int v = version" "strict \<Longrightarrow> fs = []" "i \<notin> tw_operation_id ` set (bd_transitions db)"
      and "db' = put_marker kind i ?m (db\<lparr>bd_balances := (bd_balances db)((account, asset) \<mapsto> ?row v), bd_faults := fs'\<rparr>)
        \<lparr>bd_root := map_option (\<lambda>_. new_root) (bd_root db), bd_transitions := bd_transitions db @ [?t v], bd_faults := fs\<rparr>" for v fs fs' db'
    by (rule agrees_Ok) (use written_tables [OF wf _ _ _ _ _ that(5,6)] that lengths in \<open>simp_all add: record_of_def\<close>)
  show ?thesis
    unfolding persist_transition_def then_do_assoc upsert_balance_def insert_marker_eq update_root_def insert_transition_def Let_def
  apply (rule agrees_version)
  using facts(1,4) apply simp
  apply (rule version)
  apply (rule agrees_insert)
  using facts lengths apply simp_all[3]
  apply (rule agrees_insert)
  using facts lengths apply simp_all[3]
  apply (rule agrees_insert)
  using facts lengths apply simp_all[3]
  apply (rule agrees_insert)
  using facts lengths kind apply simp_all[3]
  subgoal for w fs1 fs2 fs3 fs4
    by (rule written [of w fs4 _ fs3]) simp_all
  done
qed

section \<open>Every command agrees with its body in memory\<close>

lemma agrees_locked_root:
  assumes "wf_tables db" "strict \<Longrightarrow> bd_faults db = []"
    and "\<And>fs. (strict \<Longrightarrow> fs = []) \<Longrightarrow> agrees strict M (k (rs_state_root (state_of db)) (db\<lparr>bd_faults := fs\<rparr>))"
  shows "agrees strict M (then_do (locked_root db) k)"
  unfolding locked_root_def
proof (rule agrees_sql [OF assms(2)])
  fix fs :: "bool list"
  assume "strict \<Longrightarrow> fs = []"
  from assms(3) [OF this] wf_tablesD(1) [OF assms(1)]
  show "agrees strict M (then_do (bindR (ok_or RPersistenceFailure (bd_root (db\<lparr>bd_faults := fs\<rparr>))) commitment_from_vec, db\<lparr>bd_faults := fs\<rparr>) k)"
    by (auto simp: commitment_from_vec_def state_of_def)
qed

lemma agrees_marker_exists:
  assumes "strict \<Longrightarrow> bd_faults db = []" and "\<And>fs. (strict \<Longrightarrow> fs = []) \<Longrightarrow> agrees strict M (k (marked table db i) (db\<lparr>bd_faults := fs\<rparr>))"
  shows "agrees strict M (then_do (marker_exists table i db) k)"
  unfolding marker_exists_def
proof (rule agrees_sql [OF assms(1)])
  fix fs :: "bool list"
  assume "strict \<Longrightarrow> fs = []"
  from assms(2) [OF this] show "agrees strict M (then_do (Ok (marked table (db\<lparr>bd_faults := fs\<rparr>) i), db\<lparr>bd_faults := fs\<rparr>) k)"
    by (cases table) simp_all
qed

lemma agrees_Err: "(strict \<Longrightarrow> bd_faults db = []) \<Longrightarrow> agrees strict (Err e) (Err e, db)"
  by (simp add: agrees_def)

text \<open>What every command does first.\<close>

lemma agrees_opening:
  assumes wf: "wf_tables db" and calm: "strict \<Longrightarrow> bd_faults db = []"
    and rest: "\<And>fs. (strict \<Longrightarrow> fs = []) \<Longrightarrow> rs_state_root (state_of db) = expected \<Longrightarrow> \<not> marked table db i \<Longrightarrow>
      agrees strict M (rest expected (db\<lparr>bd_faults := fs\<rparr>))"
  shows "agrees strict (if rs_state_root (state_of db) \<noteq> expected then Err RStaleStateRoot else if marked table db i then Err e else M)
    (then_do (locked_root db) (\<lambda>old_root db. if old_root \<noteq> expected then (Err RStaleStateRoot, db)
       else then_do (marker_exists table i db) (\<lambda>seen db. if seen then (Err e, db) else rest old_root db)))"
proof (rule agrees_locked_root [OF wf calm], assumption)
  fix fs :: "bool list"
  assume fs: "strict \<Longrightarrow> fs = []"
  have mk: "marked table (db\<lparr>bd_faults := fs\<rparr>) i = marked table db i" for fs by (cases table) simp_all
  have inner: "agrees strict (if marked table db i then Err e else M)
      (then_do (marker_exists table i (db\<lparr>bd_faults := fs\<rparr>)) (\<lambda>seen db. if seen then (Err e, db) else rest expected db))"
    if root: "rs_state_root (state_of db) = expected"
  proof (rule agrees_marker_exists)
    fix fs' :: "bool list"
    assume fs': "strict \<Longrightarrow> fs' = []"
    show "agrees strict (if marked table db i then Err e else M)
        (if marked table (db\<lparr>bd_faults := fs\<rparr>) i then (Err e, db\<lparr>bd_faults := fs, bd_faults := fs'\<rparr>) else rest expected (db\<lparr>bd_faults := fs, bd_faults := fs'\<rparr>))"
      using rest [OF fs' root] fs' by (simp add: mk agrees_Err)
  qed (use fs in simp)
  show "agrees strict (if rs_state_root (state_of db) \<noteq> expected then Err RStaleStateRoot else if marked table db i then Err e else M)
      (if rs_state_root (state_of db) \<noteq> expected then (Err RStaleStateRoot, db\<lparr>bd_faults := fs\<rparr>)
       else then_do (marker_exists table i (db\<lparr>bd_faults := fs\<rparr>)) (\<lambda>seen db'. if seen then (Err e, db') else rest (rs_state_root (state_of db)) db'))"
  proof (cases "rs_state_root (state_of db) = expected")
    case True
    then show ?thesis using inner [OF True] by (simp only: simp_thms if_False)
  next
    case False
    then show ?thesis using fs by (simp add: agrees_Err)
  qed
qed

definition stored :: "balance_database \<Rightarrow> balance_key \<Rightarrow> (fhe_amount \<times> u64) option" where
  "stored db key = map_option (\<lambda>row. (bw_ciphertext row, of_int (bw_version row))) (bd_balances db key)"

lemma agrees_current_balance:
  assumes wf: "wf_tables db" and fs: "strict \<Longrightarrow> fs = []"
    and rest: "\<And>fs. (strict \<Longrightarrow> fs = []) \<Longrightarrow> agrees strict M (k (stored db (account, asset)) (db\<lparr>bd_faults := fs\<rparr>))"
  shows "agrees strict M (then_do (current_balance account asset (db\<lparr>bd_faults := fs\<rparr>)) k)"
  unfolding current_balance_def
proof (rule agrees_sql)
  fix fs' :: "bool list"
  assume "strict \<Longrightarrow> fs' = []"
  from rest [OF this] show "agrees strict M (then_do ((case bd_balances (db\<lparr>bd_faults := fs, bd_faults := fs'\<rparr>) (account, asset) of None \<Rightarrow> Ok None
      | Some row \<Rightarrow> bindR (u64_version (bw_version row)) (\<lambda>version. Ok (Some (bw_ciphertext row, version)))), db\<lparr>bd_faults := fs, bd_faults := fs'\<rparr>) k)"
    using wf_tablesD(2) [OF wf, of "(account, asset)"]
    by (cases "bd_balances db (account, asset)") (auto simp: u64_version_def stored_def)
qed (use fs in simp)

lemma next_record_derive:
  "next_record B root account asset ct v =
     (case derive_transition B root account asset ct v of
        (data_id, new_root, transcript) \<Rightarrow> (\<lparr>br_ciphertext = ct, br_data_id = data_id, br_version = v\<rparr>, new_root, transcript))"
  by (simp add: next_record_def derive_transition_def Let_def)

lemma derive_lengths:
  assumes "\<And>tag parts. length (commit B tag parts) = 32" and "derive_transition B root account asset ct v = (d, r, t)"
  shows "length d = 32" "length r = 32" "length t = 32"
  using assms(2) assms(1) by (auto simp: derive_transition_def Let_def)

text \<open>Versions of rows are below \<open>2 ^ 63\<close>, where the increments of the two runtimes are the same.\<close>

lemma row_version:
  assumes "wf_tables db" "stored db key = Some (ct, v)"
  shows "1 \<le> unat v" "unat v < 2 ^ 63" "checked_version v = version_succ v" "version_succ v = Ok (v + 1)" "saturating_succ v = v + 1" "unat (v + 1) = Suc (unat v)"
proof -
  obtain row where row: "bd_balances db key = Some row" "v = of_int (bw_version row)" using assms(2) by (auto simp: stored_def)
  then have "0 < bw_version row" "bw_version row < 2 ^ 63" using wf_tablesD(2) [OF assms(1)] by blast+
  then have "uint v = bw_version row" using row(2) by (simp add: uint_word_of_int take_bit_int_eq_self)
  then have "int (unat v) = bw_version row" by simp
  then have int: "0 < int (unat v)" "int (unat v) < int (2 ^ 63)" using \<open>0 < bw_version row\<close> \<open>bw_version row < 2 ^ 63\<close> by (simp_all only:) simp
  show v: "1 \<le> unat v" using int(1) by linarith
  show v: "unat v < 2 ^ 63" using int(2) by (simp only: of_nat_less_iff)
  have c: "checked_add v 1 = Some (v + 1)" using v by (simp add: checked_add_def)
  then show "unat (v + 1) = Suc (unat v)" by (simp add: checked_add_Some)
  show "checked_version v = version_succ v" "version_succ v = Ok (v + 1)" "saturating_succ v = v + 1"
    by (simp_all add: checked_version_def version_succ_def saturating_succ_def c)
qed


lemma rs_balances_state_of:
  "rs_balances (state_of db) key =
     map_option (\<lambda>row. \<lparr>br_ciphertext = bw_ciphertext row, br_data_id = bw_data_id row, br_version = of_int (bw_version row)\<rparr>) (bd_balances db key)"
  by (simp add: state_of_def record_of_def [abs_def])

lemma credit_locked_eq:
  assumes "wf_tables db"
  shows "credit_locked B c (state_of db) =
    (if rs_state_root (state_of db) \<noteq> dep_expected_old_state_root c then Err RStaleStateRoot
     else if marked ProcessedDeposits db (dep_deposit_id c) then Err RDepositAlreadyProcessed
     else bindR (credited_ciphertext B c (stored db (dep_account c, dep_asset c))) (\<lambda>(ct, v).
       let (data_id, new_root, transcript) = derive_transition B (rs_state_root (state_of db)) (dep_account c) (dep_asset c) ct v in
       Ok (\<lparr>st_new_state_root = new_root, st_encrypted_balance_data_id = data_id, st_transcript_root = transcript, st_version = v\<rparr>,
         (mark ''deposit'' (dep_deposit_id c) ((state_of db)\<lparr>rs_balances := (rs_balances (state_of db))((dep_account c, dep_asset c) \<mapsto>
           \<lparr>br_ciphertext = ct, br_data_id = data_id, br_version = v\<rparr>)\<rparr>))\<lparr>rs_state_root := new_root\<rparr>)))"
proof -
  have seen: "dep_deposit_id c \<in> rs_processed_deposits (state_of db) \<longleftrightarrow> marked ProcessedDeposits db (dep_deposit_id c)"
    by (auto simp: state_of_def)
  show ?thesis
  proof (cases "bd_balances db (dep_account c, dep_asset c)")
    case None
    then show ?thesis
      by (simp add: credit_locked_def seen credited_ciphertext_def stored_def rs_balances_state_of Let_def next_record_derive split_beta mark_def
          bindR_assoc)
  next
    case (Some row)
    then have "checked_version (of_int (bw_version row)) = version_succ (of_int (bw_version row))"
      using row_version(3) [OF assms, of "(dep_account c, dep_asset c)"] by (simp add: stored_def)
    with Some show ?thesis
      by (simp add: credit_locked_def seen credited_ciphertext_def stored_def rs_balances_state_of Let_def next_record_derive split_beta mark_def
          bindR_assoc)
  qed
qed

text \<open>The version a command writes.\<close>

lemma next_version_bounds:
  assumes "wf_tables db" "stored db key = Some (ct, v)"
  shows "1 \<le> unat (v + 1)" and "undisturbed c db \<Longrightarrow> unat (v + 1) < 2 ^ 63"
proof -
  note v = row_version [OF assms]
  show "1 \<le> unat (v + 1)" using v(6) by simp
  obtain row where row: "bd_balances db key = Some row" "v = of_int (bw_version row)" using assms(2) by (auto simp: stored_def)
  then have "0 < bw_version row" "bw_version row < 2 ^ 63" using wf_tablesD(2) [OF assms(1)] by blast+
  then have "uint v = bw_version row" using row(2) by (simp add: uint_word_of_int take_bit_int_eq_self)
  then have "int (unat v) = bw_version row" by simp
  moreover assume "undisturbed c db"
  then have "bw_version row < 2 ^ 63 - 1" using row(1) unfolding undisturbed_def by blast
  ultimately have "int (unat v) < int (2 ^ 63 - 1)" by (simp only:) simp
  then have "unat v < 2 ^ 63 - 1" by (simp only: of_nat_less_iff)
  then show "unat (v + 1) < 2 ^ 63" using v(6) by simp
qed

lemma undisturbed_faults: "undisturbed c db \<Longrightarrow> bd_faults db = []"
  by (simp add: undisturbed_def)

lemma credited_version:
  assumes "wf_tables db" "credited_ciphertext B c (stored db key) = Ok (ct, v)"
  shows "1 \<le> unat v" and "undisturbed d db \<Longrightarrow> unat v < 2 ^ 63"
proof -
  have "v = 1 \<or> (\<exists>ct' w. stored db key = Some (ct', w) \<and> v = w + 1)"
    using assms(2) row_version(3,4) [OF assms(1), of key] by (auto simp: credited_ciphertext_def split: option.splits)
  then show "1 \<le> unat v" "undisturbed d db \<Longrightarrow> unat v < 2 ^ 63" using next_version_bounds [OF assms(1), of key] by auto
qed

lemma credit_agrees:
  assumes wf: "wf_tables db" and commit: "\<And>tag parts. length (commit B tag parts) = 32"
    and calm: "strict \<Longrightarrow> undisturbed (Deposit c) db"
  shows "agrees strict (credit_locked B c (state_of db)) (credit_operation B c db)"
proof -
  have calm0: "bd_faults db = []" if strict using calm [OF that] by (rule undisturbed_faults)
  have written: "agrees strict
      (let (data_id, new_root, transcript) = derive_transition B (rs_state_root (state_of db)) (dep_account c) (dep_asset c) ct v in
        Ok (\<lparr>st_new_state_root = new_root, st_encrypted_balance_data_id = data_id, st_transcript_root = transcript, st_version = v\<rparr>,
          (mark ''deposit'' (dep_deposit_id c) ((state_of db)\<lparr>rs_balances := (rs_balances (state_of db))((dep_account c, dep_asset c) \<mapsto>
            \<lparr>br_ciphertext = ct, br_data_id = data_id, br_version = v\<rparr>)\<rparr>))\<lparr>rs_state_root := new_root\<rparr>))
      (let (data_id, new_root, transcript_root) = derive_transition B (rs_state_root (state_of db)) (dep_account c) (dep_asset c) ct v in
        then_do (persist_transition ''deposit'' (dep_deposit_id c) (dep_account c) (dep_asset c) (dep_amount c) (rs_state_root (state_of db)) ct
            data_id new_root transcript_root v (db\<lparr>bd_faults := fs\<rparr>))
          (\<lambda>_ db. (Ok \<lparr>st_new_state_root = new_root, st_encrypted_balance_data_id = data_id, st_transcript_root = transcript_root,
             st_version = v\<rparr>, db)))"
    if run: "credited_ciphertext B c (stored db (dep_account c, dep_asset c)) = Ok (ct, v)" and fs: "strict \<Longrightarrow> fs = []"
      and fresh: "\<not> marked ProcessedDeposits db (dep_deposit_id c)" for ct v fs
  proof -
    obtain d r t where new: "derive_transition B (rs_state_root (state_of db)) (dep_account c) (dep_asset c) ct v = (d, r, t)"
      using prod_cases3 by blast
    note len = derive_lengths [OF commit new]
    have "length (rs_state_root (state_of db)) = 32" using wf_tablesD(1) [OF wf] by (auto simp: state_of_def)
    moreover have "writable (db\<lparr>bd_faults := fs\<rparr>) (dep_account c) (dep_asset c) v (dep_deposit_id c)" if strict
      using calm [OF that] fresh fs [OF that] credited_version(2) [OF wf run calm [OF that]] by (simp add: writable_def undisturbed_def)
    ultimately show ?thesis
      using persist_agrees [of "db\<lparr>bd_faults := fs\<rparr>" "''deposit''" v strict "dep_account c" "dep_asset c" "dep_deposit_id c"]
        wf credited_version(1) [OF wf run] len by (simp add: new)
  qed
  show ?thesis
    unfolding credit_operation_def credit_locked_eq [OF wf]
    by (rule agrees_opening [OF wf calm0], assumption, rule agrees_current_balance [OF wf], assumption, rule agrees_pure, assumption)
      (use written in \<open>fastforce split: prod.splits\<close>)
qed

text \<open>The same for a withdrawal.\<close>

lemma debit_locked_eq:
  assumes "wf_tables db"
  shows "debit_locked B c (state_of db) =
    (if rs_state_root (state_of db) \<noteq> wd_expected_old_state_root c then Err RStaleStateRoot
     else if marked SpentNullifiers db (wd_nullifier c) then Err RNullifierAlreadySpent
     else bindR (ok_or RBalanceNotFound (stored db (wd_account c, wd_asset c))) (\<lambda>current.
       bindR (debited_ciphertext B c current) (\<lambda>(ct, v).
       let (data_id, new_root, transcript) = derive_transition B (rs_state_root (state_of db)) (wd_account c) (wd_asset c) ct v in
       Ok (\<lparr>st_new_state_root = new_root, st_encrypted_balance_data_id = data_id, st_transcript_root = transcript, st_version = v\<rparr>,
         (mark ''withdrawal'' (wd_nullifier c) ((state_of db)\<lparr>rs_balances := (rs_balances (state_of db))((wd_account c, wd_asset c) \<mapsto>
           \<lparr>br_ciphertext = ct, br_data_id = data_id, br_version = v\<rparr>)\<rparr>))\<lparr>rs_state_root := new_root\<rparr>))))"
proof -
  have seen: "wd_nullifier c \<in> rs_spent_nullifiers (state_of db) \<longleftrightarrow> marked SpentNullifiers db (wd_nullifier c)"
    by (auto simp: state_of_def)
  show ?thesis
  proof (cases "bd_balances db (wd_account c, wd_asset c)")
    case None
    then show ?thesis by (simp add: debit_locked_def seen stored_def rs_balances_state_of Let_def)
  next
    case (Some row)
    then have "checked_version (of_int (bw_version row)) = version_succ (of_int (bw_version row))"
      using row_version(3) [OF assms, of "(wd_account c, wd_asset c)"] by (simp add: stored_def)
    with Some show ?thesis
      by (simp add: debit_locked_def seen debited_ciphertext_def stored_def rs_balances_state_of Let_def next_record_derive split_beta mark_def
          bindR_assoc if_distrib [of "\<lambda>r. bindR r f" for f] cong: if_cong)
  qed
qed

lemma debited_version:
  assumes "wf_tables db" "stored db key = Some current" "debited_ciphertext B c current = Ok (ct, v)"
  shows "1 \<le> unat v" and "undisturbed d db \<Longrightarrow> unat v < 2 ^ 63"
proof -
  obtain ct' w where cw: "current = (ct', w)" by fastforce
  then have "v = w + 1" using assms(2,3) row_version(3,4) [OF assms(1), of key]
    by (auto simp: debited_ciphertext_def split: if_splits)
  then show "1 \<le> unat v" "undisturbed d db \<Longrightarrow> unat v < 2 ^ 63" using next_version_bounds [OF assms(1), of key] assms(2) cw by auto
qed

lemma debit_agrees:
  assumes wf: "wf_tables db" and commit: "\<And>tag parts. length (commit B tag parts) = 32"
    and calm: "strict \<Longrightarrow> undisturbed (Withdrawal c) db"
  shows "agrees strict (debit_locked B c (state_of db)) (debit_operation B c db)"
proof -
  have calm0: "bd_faults db = []" if strict using calm [OF that] by (rule undisturbed_faults)
  have written: "agrees strict
      (let (data_id, new_root, transcript) = derive_transition B (rs_state_root (state_of db)) (wd_account c) (wd_asset c) ct v in
        Ok (\<lparr>st_new_state_root = new_root, st_encrypted_balance_data_id = data_id, st_transcript_root = transcript, st_version = v\<rparr>,
          (mark ''withdrawal'' (wd_nullifier c) ((state_of db)\<lparr>rs_balances := (rs_balances (state_of db))((wd_account c, wd_asset c) \<mapsto>
            \<lparr>br_ciphertext = ct, br_data_id = data_id, br_version = v\<rparr>)\<rparr>))\<lparr>rs_state_root := new_root\<rparr>))
      (let (data_id, new_root, transcript_root) = derive_transition B (rs_state_root (state_of db)) (wd_account c) (wd_asset c) ct v in
        then_do (persist_transition ''withdrawal'' (wd_nullifier c) (wd_account c) (wd_asset c) (wd_gross_amount c) (rs_state_root (state_of db)) ct
            data_id new_root transcript_root v (db\<lparr>bd_faults := fs\<rparr>))
          (\<lambda>_ db. (Ok \<lparr>st_new_state_root = new_root, st_encrypted_balance_data_id = data_id, st_transcript_root = transcript_root,
             st_version = v\<rparr>, db)))"
    if st: "stored db (wd_account c, wd_asset c) = Some current" and run: "debited_ciphertext B c current = Ok (ct, v)"
      and fs: "strict \<Longrightarrow> fs = []" and fresh: "\<not> marked SpentNullifiers db (wd_nullifier c)" for current ct v fs
  proof -
    obtain d r t where new: "derive_transition B (rs_state_root (state_of db)) (wd_account c) (wd_asset c) ct v = (d, r, t)"
      using prod_cases3 by blast
    note len = derive_lengths [OF commit new]
    have "length (rs_state_root (state_of db)) = 32" using wf_tablesD(1) [OF wf] by (auto simp: state_of_def)
    moreover have "writable (db\<lparr>bd_faults := fs\<rparr>) (wd_account c) (wd_asset c) v (wd_nullifier c)" if strict
      using calm [OF that] fresh fs [OF that] debited_version(2) [OF wf st run calm [OF that]] by (simp add: writable_def undisturbed_def)
    ultimately show ?thesis
      using persist_agrees [of "db\<lparr>bd_faults := fs\<rparr>" "''withdrawal''" v strict "wd_account c" "wd_asset c" "wd_nullifier c"]
        wf debited_version(1) [OF wf st run] len by (simp add: new)
  qed
  show ?thesis
    unfolding debit_operation_def debit_locked_eq [OF wf]
    by (rule agrees_opening [OF wf calm0], assumption, rule agrees_current_balance [OF wf], assumption, rule agrees_pure, assumption,
        rule agrees_pure, assumption)
      (use written in \<open>fastforce split: prod.splits\<close>)
qed

text \<open>A transfer writes two rows.\<close>

lemma transferred_versions:
  assumes "wf_tables db" "stored db key = Some sender" "transferred_ciphertexts B c sender (stored db key') = Ok ((ct, v), ct', v')"
  shows "1 \<le> unat v" "1 \<le> unat v'" and "undisturbed d db \<Longrightarrow> unat v < 2 ^ 63 \<and> unat v' < 2 ^ 63"
proof -
  obtain sct w where cw: "sender = (sct, w)" by fastforce
  then have "v = w + 1" using assms(2,3) row_version(3,4) [OF assms(1), of key]
    by (auto simp: transferred_ciphertexts_def Let_def split: if_splits)
  then show "1 \<le> unat v" using next_version_bounds [OF assms(1), of key] assms(2) cw by auto
  have v': "v' = 1 \<or> (\<exists>rct w'. stored db key' = Some (rct, w') \<and> v' = w' + 1)"
    using assms(3) row_version(5) [OF assms(1), of key']
    by (cases "stored db key'") (auto simp: transferred_ciphertexts_def Let_def split: if_splits)
  then show "1 \<le> unat v'" using next_version_bounds [OF assms(1), of key'] by auto
  show "unat v < 2 ^ 63 \<and> unat v' < 2 ^ 63" if "undisturbed d db"
    using v' \<open>v = w + 1\<close> next_version_bounds(2) [OF assms(1), of key] next_version_bounds(2) [OF assms(1), of key'] that assms(2) cw by fastforce
qed

lemma transfer_locked_eq:
  assumes "wf_tables db"
  shows "transfer_locked B c (state_of db) =
    (if rs_state_root (state_of db) \<noteq> tr_expected_old_state_root c then Err RStaleStateRoot
     else if marked ProcessedTransfers db (tr_transfer_id c) then Err RNullifierAlreadySpent
     else bindR (ok_or RBalanceNotFound (stored db (tr_sender c, tr_asset c))) (\<lambda>sender.
       bindR (transferred_ciphertexts B c sender (stored db (tr_receiver c, tr_asset c))) (\<lambda>((ct, v), ct', v').
       let (sender_id, mid_root, _) = derive_transition B (rs_state_root (state_of db)) (tr_sender c) (tr_asset c) ct v;
           (receiver_id, new_root, transcript) = derive_transition B mid_root (tr_receiver c) (tr_asset c) ct' v' in
       Ok (\<lparr>tt_new_state_root = new_root, tt_sender_data_id = sender_id, tt_receiver_data_id = receiver_id, tt_transcript_root = transcript,
            tt_sender_version = v, tt_receiver_version = v'\<rparr>,
         (state_of db)\<lparr>rs_balances := (rs_balances (state_of db))
           ((tr_sender c, tr_asset c) \<mapsto> \<lparr>br_ciphertext = ct, br_data_id = sender_id, br_version = v\<rparr>,
            (tr_receiver c, tr_asset c) \<mapsto> \<lparr>br_ciphertext = ct', br_data_id = receiver_id, br_version = v'\<rparr>),
           rs_processed_transfers := insert (tr_transfer_id c) (rs_processed_transfers (state_of db)), rs_state_root := new_root\<rparr>))))"
proof -
  have seen: "tr_transfer_id c \<in> rs_processed_transfers (state_of db) \<longleftrightarrow> marked ProcessedTransfers db (tr_transfer_id c)"
    by (auto simp: state_of_def)
  show ?thesis
  proof (cases "bd_balances db (tr_sender c, tr_asset c)")
    case None
    then show ?thesis by (simp add: transfer_locked_def seen stored_def rs_balances_state_of Let_def)
  next
    case (Some row)
    then have v: "checked_version (of_int (bw_version row)) = version_succ (of_int (bw_version row))"
      using row_version(3) [OF assms, of "(tr_sender c, tr_asset c)"] by (simp add: stored_def)
    show ?thesis
    proof (cases "bd_balances db (tr_receiver c, tr_asset c)")
      case None
      with Some v show ?thesis
        by (simp add: transfer_locked_def seen transferred_ciphertexts_def stored_def rs_balances_state_of Let_def next_record_derive split_beta
            bindR_assoc if_distrib [of "\<lambda>r. bindR r f" for f] cong: if_cong)
    next
      case (Some row')
      then have "version_succ (of_int (bw_version row')) = Ok (saturating_succ (of_int (bw_version row')))"
        using row_version(4,5) [OF assms, of "(tr_receiver c, tr_asset c)"] by (simp add: stored_def)
      with Some \<open>bd_balances db (tr_sender c, tr_asset c) = Some row\<close> v show ?thesis
        by (simp add: transfer_locked_def seen transferred_ciphertexts_def stored_def rs_balances_state_of Let_def next_record_derive split_beta
            bindR_assoc if_distrib [of "\<lambda>r. bindR r f" for f] cong: if_cong)
    qed
  qed
qed

lemma transferred_tables:
  assumes wf: "wf_tables db" and root: "length root = 32"
    and row: "0 < bw_version row" "bw_version row < 2 ^ 63" "length (bw_data_id row) = 32"
    and row': "0 < bw_version row'" "bw_version row' < 2 ^ 63" "length (bw_data_id row') = 32"
    and new: "db' = db\<lparr>bd_balances := (bd_balances db)(k \<mapsto> row, k' \<mapsto> row'), bd_transfers := (bd_transfers db)(i \<mapsto> m),
        bd_root := map_option (\<lambda>_. root) (bd_root db), bd_faults := fs\<rparr>"
  shows "state_of db' = (state_of db)\<lparr>rs_balances := (rs_balances (state_of db))(k \<mapsto> record_of row, k' \<mapsto> record_of row'),
      rs_processed_transfers := insert i (rs_processed_transfers (state_of db)), rs_state_root := root\<rparr>"
    and "wf_tables db'"
proof -
  obtain old where old: "bd_root db = Some old" using wf_tablesD(1) [OF wf] by blast
  show "state_of db' = (state_of db)\<lparr>rs_balances := (rs_balances (state_of db))(k \<mapsto> record_of row, k' \<mapsto> record_of row'),
      rs_processed_transfers := insert i (rs_processed_transfers (state_of db)), rs_state_root := root\<rparr>"
    by (simp add: new old state_of_def fun_eq_iff)
  have "0 < bw_version r \<and> bw_version r < 2 ^ 63 \<and> length (bw_data_id r) = 32" if "bd_balances db' j = Some r" for j r
    using that row row' wf_tablesD(2) [OF wf, of j r] by (simp add: new split: if_splits)
  moreover have "\<exists>r. bd_root db' = Some r \<and> length r = 32" using root by (simp add: new old)
  moreover have "tw_operation_id ` set (bd_transitions db') = dom (bd_deposits db') \<union> dom (bd_nullifiers db')"
      "dom (bd_deposits db') \<inter> dom (bd_nullifiers db') = {}"
    using wf_tablesD(3,4) [OF wf] by (simp_all add: new)
  ultimately show "wf_tables db'" unfolding wf_tables_def by (intro conjI allI impI) simp_all
qed

lemma write_transfer_agrees:
  assumes wf: "wf_tables db" and versions: "1 \<le> unat v" "1 \<le> unat v'"
    and lengths: "length new_root = 32" "length d = 32" "length d' = 32"
    and fresh: "bd_transfers db (tr_transfer_id c) = None"
    and calm: "strict \<Longrightarrow> bd_faults db = [] \<and> typed_command (Transfer c) \<and> unat v < 2 ^ 63 \<and> unat v' < 2 ^ 63"
  shows "agrees strict (Ok (t, (state_of db)\<lparr>rs_balances := (rs_balances (state_of db))
           ((tr_sender c, tr_asset c) \<mapsto> \<lparr>br_ciphertext = ct, br_data_id = d, br_version = v\<rparr>,
            (tr_receiver c, tr_asset c) \<mapsto> \<lparr>br_ciphertext = ct', br_data_id = d', br_version = v'\<rparr>),
           rs_processed_transfers := insert (tr_transfer_id c) (rs_processed_transfers (state_of db)), rs_state_root := new_root\<rparr>))
     (then_do (write_balances (tr_asset c) [(tr_sender c, d, v, ct), (tr_receiver c, d', v', ct')] db) (\<lambda>_ db.
      then_do (insert_processed_transfer c new_root db) (\<lambda>_ db.
      then_do (update_root new_root db) (\<lambda>_ db. (Ok t, db)))))"
proof -
  let ?row = "\<lambda>d w ct. \<lparr>bw_data_id = d, bw_version = w, bw_ciphertext = ct\<rparr>"
  let ?m = "\<lparr>pt_sender = tr_sender c, pt_receiver = tr_receiver c, pt_asset = tr_asset c, pt_amount_be = u128_be (tr_amount c), pt_root = new_root\<rparr>"
  have written: "agrees strict (Ok (t, (state_of db)\<lparr>rs_balances := (rs_balances (state_of db))
           ((tr_sender c, tr_asset c) \<mapsto> \<lparr>br_ciphertext = ct, br_data_id = d, br_version = v\<rparr>,
            (tr_receiver c, tr_asset c) \<mapsto> \<lparr>br_ciphertext = ct', br_data_id = d', br_version = v'\<rparr>),
           rs_processed_transfers := insert (tr_transfer_id c) (rs_processed_transfers (state_of db)), rs_state_root := new_root\<rparr>)) (Ok t, db')"
    if "0 < w" "w < 2 ^ 63" "of_int w = v" "0 < w'" "w' < 2 ^ 63" "of_int w' = v'" "strict \<Longrightarrow> fs = []"
      and "db' = db\<lparr>bd_balances := (bd_balances db)((tr_sender c, tr_asset c) \<mapsto> ?row d w ct, (tr_receiver c, tr_asset c) \<mapsto> ?row d' w' ct'),
          bd_transfers := (bd_transfers db)(tr_transfer_id c \<mapsto> ?m), bd_root := map_option (\<lambda>_. new_root) (bd_root db), bd_faults := fs\<rparr>"
    for w w' fs db'
    by (rule agrees_Ok) (use transferred_tables [OF wf _ _ _ _ _ _ _ that(8)] that lengths in \<open>simp_all add: record_of_def\<close>)
  have calm': "bd_faults db = []" "length (tr_transfer_id c) = 32" "length (tr_sender c) = 32" "length (tr_receiver c) = 32" "length (tr_asset c) = 20"
      "unat v < 2 ^ 63" "unat v' < 2 ^ 63" if strict
    using calm [OF that] by simp_all
  show ?thesis
    unfolding write_balances.simps then_do_assoc upsert_balance_def insert_processed_transfer_def update_root_def Let_def prod.case then_do_simps
    apply (rule agrees_version)
      apply (use calm' in simp)
     apply (rule versions)
    apply (rule agrees_insert)
       apply (use calm' lengths in simp_all)[3]
    apply (rule agrees_version)
      apply (use calm' in simp)
     apply (rule versions)
    apply (rule agrees_insert)
       apply (use calm' lengths in simp_all)[3]
    apply (rule agrees_insert)
       apply (use calm' lengths fresh in simp_all)[3]
    apply (rule agrees_insert)
       apply (use calm' lengths in simp_all)[3]
    subgoal for w fs1 w' fs2 fs3 fs4
      by (rule written [of w w' fs4]) simp_all
    done
qed

lemma transfer_agrees:
  assumes wf: "wf_tables db" and commit: "\<And>tag parts. length (commit B tag parts) = 32"
    and calm: "strict \<Longrightarrow> undisturbed (Transfer c) db"
  shows "agrees strict (transfer_locked B c (state_of db)) (transfer_operation B c db)"
proof -
  have calm0: "bd_faults db = []" if strict using calm [OF that] by (rule undisturbed_faults)
  have written: "agrees strict
      (let (sender_id, mid_root, _) = derive_transition B (rs_state_root (state_of db)) (tr_sender c) (tr_asset c) ct v;
           (receiver_id, new_root, transcript) = derive_transition B mid_root (tr_receiver c) (tr_asset c) ct' v' in
       Ok (\<lparr>tt_new_state_root = new_root, tt_sender_data_id = sender_id, tt_receiver_data_id = receiver_id, tt_transcript_root = transcript,
            tt_sender_version = v, tt_receiver_version = v'\<rparr>,
         (state_of db)\<lparr>rs_balances := (rs_balances (state_of db))
           ((tr_sender c, tr_asset c) \<mapsto> \<lparr>br_ciphertext = ct, br_data_id = sender_id, br_version = v\<rparr>,
            (tr_receiver c, tr_asset c) \<mapsto> \<lparr>br_ciphertext = ct', br_data_id = receiver_id, br_version = v'\<rparr>),
           rs_processed_transfers := insert (tr_transfer_id c) (rs_processed_transfers (state_of db)), rs_state_root := new_root\<rparr>))
      (let (sender_id, mid_root, _) = derive_transition B (rs_state_root (state_of db)) (tr_sender c) (tr_asset c) ct v;
           (receiver_id, new_root, transcript) = derive_transition B mid_root (tr_receiver c) (tr_asset c) ct' v' in
       then_do (write_balances (tr_asset c) [(tr_sender c, sender_id, v, ct), (tr_receiver c, receiver_id, v', ct')] (db\<lparr>bd_faults := fs\<rparr>)) (\<lambda>_ db.
       then_do (insert_processed_transfer c new_root db) (\<lambda>_ db.
       then_do (update_root new_root db) (\<lambda>_ db.
         (Ok \<lparr>tt_new_state_root = new_root, tt_sender_data_id = sender_id, tt_receiver_data_id = receiver_id, tt_transcript_root = transcript,
            tt_sender_version = v, tt_receiver_version = v'\<rparr>, db)))))"
    if st: "stored db (tr_sender c, tr_asset c) = Some sender"
      and run: "transferred_ciphertexts B c sender (stored db (tr_receiver c, tr_asset c)) = Ok ((ct, v), ct', v')"
      and fs: "strict \<Longrightarrow> fs = []" and fresh: "\<not> marked ProcessedTransfers db (tr_transfer_id c)" for sender ct v ct' v' fs
  proof -
    obtain d r t where new: "derive_transition B (rs_state_root (state_of db)) (tr_sender c) (tr_asset c) ct v = (d, r, t)"
      using prod_cases3 by blast
    obtain d' r' t' where new': "derive_transition B r (tr_receiver c) (tr_asset c) ct' v' = (d', r', t')"
      using prod_cases3 by blast
    note bounds = transferred_versions [OF wf st run]
    have "bd_faults (db\<lparr>bd_faults := fs\<rparr>) = [] \<and> typed_command (Transfer c) \<and> unat v < 2 ^ 63 \<and> unat v' < 2 ^ 63" if strict
      using calm [OF that] fs [OF that] bounds(3) [OF calm [OF that]] by (simp add: undisturbed_def)
    then show ?thesis
      using write_transfer_agrees [of "db\<lparr>bd_faults := fs\<rparr>" v v' r' d d' c strict] wf bounds(1,2) derive_lengths [OF commit new]
        derive_lengths [OF commit new'] fresh by (simp add: new new')
  qed
  show ?thesis
    unfolding transfer_operation_def transfer_locked_eq [OF wf]
    by (rule agrees_opening [OF wf calm0], assumption, rule agrees_current_balance [OF wf], assumption, rule agrees_pure, assumption,
        rule agrees_current_balance [OF wf], assumption, rule agrees_pure, assumption)
      (use written in \<open>fastforce split: prod.splits\<close>)
qed

section \<open>Transactions\<close>

lemma sql_cases:
  obtains (runs) fs where "sql op db = op (db\<lparr>bd_faults := fs\<rparr>)" "bd_faults db = [] \<Longrightarrow> fs = []"
  | (fails) fs where "sql op db = (Err RPersistenceFailure, db\<lparr>bd_faults := fs\<rparr>)" "bd_faults db \<noteq> []"
proof (cases "bd_faults db")
  case Nil
  then have same: "db\<lparr>bd_faults := []\<rparr> = db" by (cases db) simp
  have "sql op db = op (db\<lparr>bd_faults := []\<rparr>)" unfolding same by (simp add: sql_def Nil)
  then show ?thesis by (rule runs) simp
next
  case (Cons f rest)
  then show ?thesis using runs [of rest] fails [of rest] by (cases f) (simp_all add: sql_def)
qed

text \<open>A transaction commits what its body did, or leaves the tables as they were.\<close>

definition committed :: "bool \<Rightarrow> (runtime_error, 'a \<times> runtime_state) res \<Rightarrow> balance_database \<Rightarrow> (runtime_error, 'a) res \<times> balance_database \<Rightarrow> bool" where
  "committed strict M db out =
     (case out of
        (Ok x, db') \<Rightarrow> M = Ok (x, state_of db') \<and> wf_tables db'
      | (Err e, db') \<Rightarrow> db' = db\<lparr>bd_faults := bd_faults db'\<rparr> \<and> (M = Err e \<or> \<not> strict \<and> e \<in> {RPersistenceFailure, RCorruptPersistence})
      | (Panic, db') \<Rightarrow> db' = db\<lparr>bd_faults := bd_faults db'\<rparr> \<and> M = Panic)"

lemma sql_transaction_agrees:
  assumes body: "\<And>fs. (strict \<Longrightarrow> fs = []) \<Longrightarrow> agrees strict M (body (db\<lparr>bd_faults := fs\<rparr>))" and calm: "strict \<Longrightarrow> bd_faults db = []"
  shows "committed strict M db (sql_transaction body db)"
proof (cases rule: sql_cases [of "\<lambda>db. (Ok (), db)" db])
  case begun: (runs fs)
  have agree: "agrees strict M (body (db\<lparr>bd_faults := fs\<rparr>))" by (rule body) (use begun(2) calm in blast)
  obtain r db1 where run: "body (db\<lparr>bd_faults := fs\<rparr>) = (r, db1)" by fastforce
  show ?thesis
  proof (cases r)
    case (Ok x)
    show ?thesis
    proof (cases rule: sql_cases [of "\<lambda>db. (Ok x, db)" db1])
      case (runs fs')
      then show ?thesis using agree begun(1) run Ok by (simp add: sql_transaction_def committed_def agrees_def)
    next
      case (fails fs')
      then show ?thesis using agree begun(1) run Ok by (simp add: sql_transaction_def committed_def agrees_def)
    qed
  qed (use agree begun(1) run in \<open>simp_all add: sql_transaction_def committed_def agrees_def\<close>)
next
  case (fails fs)
  then show ?thesis using calm by (auto simp: sql_transaction_def committed_def)
qed

text \<open>The same through the mutex, against the runtime in memory.\<close>

definition simulates ::
  "bool \<Rightarrow> (runtime_error, 'a) res \<times> balance_runtime \<Rightarrow> postgres_runtime \<Rightarrow> (runtime_error, 'a) res \<times> postgres_runtime \<Rightarrow> bool"
where
  "simulates strict memory rt out =
     (case out of
        (Ok t, rt') \<Rightarrow> memory = (Ok t, runtime_of rt') \<and> wf_tables (pb_db rt')
      | (Err e, rt') \<Rightarrow> rt' = rt\<lparr>pb_db := pb_db rt\<lparr>bd_faults := bd_faults (pb_db rt')\<rparr>\<rparr>
          \<and> (memory = (Err e, runtime_of rt) \<or> \<not> strict \<and> e \<in> {RPersistenceFailure, RCorruptPersistence})
      | (Panic, rt') \<Rightarrow> rt' = rt\<lparr>pb_db := pb_db rt\<lparr>bd_faults := bd_faults (pb_db rt')\<rparr>, pb_poisoned := True\<rparr>
          \<and> memory = (Panic, runtime_of rt'))"

lemma pg_transaction_simulates:
  assumes "\<And>fs. (strict \<Longrightarrow> fs = []) \<Longrightarrow> agrees strict (body (state_of (pb_db rt))) (operation (pb_db rt\<lparr>bd_faults := fs\<rparr>))"
    and "strict \<Longrightarrow> bd_faults (pb_db rt) = []"
  shows "simulates strict (with_lock body (runtime_of rt)) rt (pg_transaction operation rt)"
proof (cases "pb_poisoned rt")
  case True
  then show ?thesis by (simp add: simulates_def pg_transaction_def with_lock_def runtime_of_def)
next
  case False
  have "committed strict (body (state_of (pb_db rt))) (pb_db rt) (sql_transaction operation (pb_db rt))"
    by (rule sql_transaction_agrees) (use assms in simp_all)
  moreover obtain r db where "sql_transaction operation (pb_db rt) = (r, db)" by fastforce
  ultimately show ?thesis
    using False state_of_faults [of "bd_faults db" "pb_db rt"]
    by (cases r) (auto simp: simulates_def pg_transaction_def with_lock_def runtime_of_def committed_def)
qed

lemma calm_faults:
  assumes "strict \<Longrightarrow> undisturbed c db" "strict \<Longrightarrow> fs = []"
  shows "strict \<Longrightarrow> undisturbed c (db\<lparr>bd_faults := fs\<rparr>)"
  using assms by (cases c) (simp_all add: undisturbed_def)

lemma refused_simulates: "simulates strict (Err e, runtime_of rt) rt (Err e, rt)"
  by (simp add: simulates_def)

lemma credit_simulates_memory:
  assumes "wf_tables (pb_db rt)" "\<And>tag parts. length (commit B tag parts) = 32" "strict \<Longrightarrow> undisturbed (Deposit c) (pb_db rt)"
  shows "simulates strict (credit_deposit B c (runtime_of rt)) rt (pg_credit_deposit B c rt)"
proof -
  have "agrees strict (credit_locked B c (state_of (pb_db rt))) (credit_operation B c (pb_db rt\<lparr>bd_faults := fs\<rparr>))"
    if "strict \<Longrightarrow> fs = []" for fs
    using credit_agrees [of "pb_db rt\<lparr>bd_faults := fs\<rparr>" B strict c] assms(1,2) calm_faults [OF assms(3) that] by simp
  then show ?thesis
    using pg_transaction_simulates [of strict "credit_locked B c" rt] undisturbed_faults [OF assms(3)]
    by (simp add: credit_deposit_def pg_credit_deposit_def refused_simulates)
qed

lemma debit_simulates_memory:
  assumes "wf_tables (pb_db rt)" "\<And>tag parts. length (commit B tag parts) = 32" "strict \<Longrightarrow> undisturbed (Withdrawal c) (pb_db rt)"
  shows "simulates strict (debit_withdrawal B c (runtime_of rt)) rt (pg_debit_withdrawal B c rt)"
proof -
  have "agrees strict (debit_locked B c (state_of (pb_db rt))) (debit_operation B c (pb_db rt\<lparr>bd_faults := fs\<rparr>))"
    if "strict \<Longrightarrow> fs = []" for fs
    using debit_agrees [of "pb_db rt\<lparr>bd_faults := fs\<rparr>" B strict c] assms(1,2) calm_faults [OF assms(3) that] by simp
  then show ?thesis
    using pg_transaction_simulates [of strict "debit_locked B c" rt] undisturbed_faults [OF assms(3)]
    by (simp add: debit_withdrawal_def pg_debit_withdrawal_def refused_simulates)
qed

lemma transfer_simulates_memory:
  assumes "wf_tables (pb_db rt)" "\<And>tag parts. length (commit B tag parts) = 32" "strict \<Longrightarrow> undisturbed (Transfer c) (pb_db rt)"
  shows "simulates strict (transfer B c (runtime_of rt)) rt (pg_transfer B c rt)"
proof -
  have "agrees strict (transfer_locked B c (state_of (pb_db rt))) (transfer_operation B c (pb_db rt\<lparr>bd_faults := fs\<rparr>))"
    if "strict \<Longrightarrow> fs = []" for fs
    using transfer_agrees [of "pb_db rt\<lparr>bd_faults := fs\<rparr>" B strict c] assms(1,2) calm_faults [OF assms(3) that] by simp
  then show ?thesis
    using pg_transaction_simulates [of strict "transfer_locked B c" rt] undisturbed_faults [OF assms(3)]
    by (simp add: transfer_def pg_transfer_def refused_simulates)
qed

lemma simulates_map:
  assumes "simulates strict (m, w) rt (r, rt')"
  shows "simulates strict (bindR m (\<lambda>t. Ok (f t)), w) rt (bindR r (\<lambda>t. Ok (f t)), rt')"
  using assms by (cases r) (auto simp: simulates_def)

lemma command_simulates:
  assumes "wf_tables (pb_db rt)" "\<And>tag parts. length (commit B tag parts) = 32" "strict \<Longrightarrow> undisturbed c (pb_db rt)"
  shows "simulates strict (run_command B c (runtime_of rt)) rt (pg_run_command B c rt)"
proof (cases c)
  case (Deposit d)
  then show ?thesis using credit_simulates_memory [OF assms(1,2), of strict d] assms(3) by (simp add: split_beta simulates_map)
next
  case (Withdrawal d)
  then show ?thesis using debit_simulates_memory [OF assms(1,2), of strict d] assms(3) by (simp add: split_beta simulates_map)
next
  case (Transfer d)
  then show ?thesis using transfer_simulates_memory [OF assms(1,2), of strict d] assms(3) by (simp add: split_beta simulates_map)
qed

text \<open>A view is the view in memory.\<close>

lemma view_agrees:
  assumes wf: "wf_tables db" and calm: "strict \<Longrightarrow> bd_faults db = []"
  shows "agrees strict (bindR (ok_or RBalanceNotFound (rs_balances (state_of db) (account, asset))) (\<lambda>rcd.
      Ok (\<lparr>view_data_id = br_data_id rcd, view_ciphertext = br_ciphertext rcd, view_state_root = rs_state_root (state_of db),
           view_version = br_version rcd\<rparr>, state_of db))) (view_operation account asset db)"
  unfolding view_operation_def
proof (rule agrees_locked_root [OF wf calm], assumption, rule agrees_sql)
  fix fs fs' :: "bool list"
  assume "strict \<Longrightarrow> fs' = []"
  then show "agrees strict (bindR (ok_or RBalanceNotFound (rs_balances (state_of db) (account, asset))) (\<lambda>rcd.
      Ok (\<lparr>view_data_id = br_data_id rcd, view_ciphertext = br_ciphertext rcd, view_state_root = rs_state_root (state_of db),
           view_version = br_version rcd\<rparr>, state_of db)))
      (then_do (Ok (bd_balances (db\<lparr>bd_faults := fs, bd_faults := fs'\<rparr>) (account, asset)), db\<lparr>bd_faults := fs, bd_faults := fs'\<rparr>) (\<lambda>row db'.
        (bindR (ok_or RBalanceNotFound row) (\<lambda>row. bindR (data_id_from_vec (bw_data_id row)) (\<lambda>data_id.
         bindR (u64_version (bw_version row)) (\<lambda>version.
           Ok \<lparr>view_data_id = data_id, view_ciphertext = bw_ciphertext row, view_state_root = rs_state_root (state_of db), view_version = version\<rparr>))), db')))"
    using wf wf_tablesD(2) [OF wf, of "(account, asset)"]
    by (cases "bd_balances db (account, asset)")
      (auto simp: agrees_def rs_balances_state_of data_id_from_vec_def u64_version_def)
qed simp

section \<open>What is accepted\<close>

lemma accepted_unshared:
  assumes "run_command B c (runtime_of rt) = (Ok t, runtime_of rt')" "wf_tables (pb_db rt')"
  shows "\<not> reuses_operation_id c (pb_db rt)"
  using run_command_spends [OF assms(1)] wf_tablesD(4) [OF assms(2)]
  by (cases c) (auto simp: spends_def runtime_of_def state_of_def)

lemma accepted_unpoisoned:
  assumes "run_command B c rt = (Ok t, rt')"
  shows "\<not> rt_poisoned rt" "\<not> rt_poisoned rt'"
  using assms
  by (cases c; auto simp: credit_deposit_def debit_withdrawal_def transfer_def with_lock_def split: if_splits prod.splits res.splits)+

lemma runtime_of_healthy: "\<not> rt_poisoned (runtime_of rt) \<Longrightarrow> runtime_of rt = \<lparr>rt_state = state_of (pb_db rt), rt_poisoned = False\<rparr>"
  by (simp add: runtime_of_def)

lemma simulates_unchanged:
  assumes "simulates strict m rt (r, rt1)" "\<not> is_ok r"
  shows "wf_tables (pb_db rt1) = wf_tables (pb_db rt)" "state_of (pb_db rt1) = state_of (pb_db rt)"
proof -
  have "pb_db rt1 = pb_db rt\<lparr>bd_faults := bd_faults (pb_db rt1)\<rparr>"
    using assms by (cases r) (auto simp: simulates_def dest: arg_cong [of _ _ pb_db])
  then show "wf_tables (pb_db rt1) = wf_tables (pb_db rt)" "state_of (pb_db rt1) = state_of (pb_db rt)"
    using wf_tables_faults state_of_faults by metis+
qed

lemma pg_run_accepted:
  assumes "wf_tables (pb_db rt)" "\<And>tag parts. length (commit B tag parts) = 32" "pg_run_commands B cmds rt = (log, rt')"
  shows "wf_tables (pb_db rt') \<and> run_commands B (map fst (accepted log)) \<lparr>rt_state = state_of (pb_db rt), rt_poisoned = False\<rparr>
      = (map (\<lambda>(c, t). (c, Ok t)) (accepted log), \<lparr>rt_state = state_of (pb_db rt'), rt_poisoned = False\<rparr>)"
  using assms(1,3)
proof (induction cmds arbitrary: rt log)
  case (Cons c cs)
  obtain r rt1 where run: "pg_run_command B c rt = (r, rt1)" by fastforce
  obtain log1 rt2 where rest: "pg_run_commands B cs rt1 = (log1, rt2)" by fastforce
  have log: "log = (c, r) # log1" "rt' = rt2" using Cons.prems(2) run rest by simp_all
  have sim: "simulates False (run_command B c (runtime_of rt)) rt (r, rt1)"
    using command_simulates [OF Cons.prems(1) assms(2), of False c] run by simp
  show ?case
  proof (cases r)
    case (Ok t)
    then have mem: "run_command B c (runtime_of rt) = (Ok t, runtime_of rt1)" "wf_tables (pb_db rt1)" using sim by (simp_all add: simulates_def)
    then show ?thesis
      using Cons.IH [OF mem(2) rest [folded log(2)]] accepted_unpoisoned [OF mem(1)] log Ok by (simp add: runtime_of_healthy)
  next
    case (Err e)
    then show ?thesis using Cons.IH [OF _ rest [folded log(2)]] simulates_unchanged [OF sim] Cons.prems(1) log by simp
  next
    case Panic
    then show ?thesis using Cons.IH [OF _ rest [folded log(2)]] simulates_unchanged [OF sim] Cons.prems(1) log by simp
  qed
qed simp

lemma pg_run_length: "pg_run_commands B cmds rt = (log, rt') \<Longrightarrow> length log = length cmds"
  by (induction cmds arbitrary: rt log) (auto simp: Let_def split: prod.splits)

lemma connected:
  assumes "pg_connect (empty_balance_database faults) = (Ok rt, db)"
  shows "wf_tables (pb_db rt)" "runtime_of rt = balance_runtime_new"
proof -
  obtain fs where "rt = \<lparr>pb_db = (empty_balance_database fs)\<lparr>bd_root := Some (replicate 32 0)\<rparr>, pb_poisoned = False\<rparr>"
    using assms by (auto simp: pg_connect_def migrate_def sql_def empty_balance_database_def split: list.splits if_splits)
  then show "wf_tables (pb_db rt)" "runtime_of rt = balance_runtime_new"
    by (simp_all add: wf_tables_def empty_balance_database_def runtime_of_def state_of_def balance_runtime_new_def default_state_def)
qed

text \<open>A database without failures, just connected.\<close>

definition fresh_runtime :: postgres_runtime where
  "fresh_runtime = \<lparr>pb_db = (empty_balance_database [])\<lparr>bd_root := Some (replicate 32 0)\<rparr>, pb_poisoned = False\<rparr>"

lemma fresh_connected: "pg_connect (empty_balance_database []) = (Ok fresh_runtime, pb_db fresh_runtime)"
  by (simp add: pg_connect_def migrate_def sql_def empty_balance_database_def fresh_runtime_def)

definition sample_deposit :: deposit_command where
  "sample_deposit = \<lparr>dep_deposit_id = replicate 32 1, dep_account = replicate 32 2, dep_asset = replicate 20 3, dep_amount = 5,
     dep_expected_old_state_root = replicate 32 0\<rparr>"

section \<open>Properties\<close>

text \<open>
  C29. The runtime over Postgres refines the one in memory, for every backend, every consistent database and every pattern of
  failures: an accepted command is accepted in memory with the same transition and leaves the tables that hold the state
  in memory, never under an identifier a deposit and a withdrawal would share; a refused one leaves the tables alone and is
  refused in memory with the same error, unless the database failed; undisturbed, the two agree on every command.
\<close>

theorem postgres_refines_memory:
  assumes wf: "wf_tables (pb_db rt)" and commit: "\<And>tag parts. length (commit B tag parts) = 32"
  shows "case pg_run_command B c rt of
      (Ok t, rt') \<Rightarrow> run_command B c (runtime_of rt) = (Ok t, runtime_of rt') \<and> wf_tables (pb_db rt') \<and> \<not> reuses_operation_id c (pb_db rt)
    | (Err e, rt') \<Rightarrow> rt' = rt\<lparr>pb_db := pb_db rt\<lparr>bd_faults := bd_faults (pb_db rt')\<rparr>\<rparr>
        \<and> (run_command B c (runtime_of rt) = (Err e, runtime_of rt)
           \<or> \<not> undisturbed c (pb_db rt) \<and> e \<in> {RPersistenceFailure, RCorruptPersistence})
    | (Panic, rt') \<Rightarrow> rt' = rt\<lparr>pb_db := pb_db rt\<lparr>bd_faults := bd_faults (pb_db rt')\<rparr>, pb_poisoned := True\<rparr>
        \<and> run_command B c (runtime_of rt) = (Panic, runtime_of rt')"
proof -
  have sim: "simulates (undisturbed c (pb_db rt)) (run_command B c (runtime_of rt)) rt (pg_run_command B c rt)"
    by (rule command_simulates [OF wf commit])
  then show ?thesis
    using accepted_unshared unfolding simulates_def by (auto split: prod.splits res.splits)
qed

theorem postgres_refines_memory_witness:
  "\<exists>t rt'. pg_run_command plaintext_backend (Deposit sample_deposit) fresh_runtime = (Ok t, rt')
     \<and> run_command plaintext_backend (Deposit sample_deposit) balance_runtime_new = (Ok t, runtime_of rt') \<and> wf_tables (pb_db rt')"
proof -
  note fresh = connected [OF fresh_connected]
  have "undisturbed (Deposit sample_deposit) (pb_db fresh_runtime)"
    by (simp add: undisturbed_def fresh_runtime_def empty_balance_database_def sample_deposit_def)
  moreover have "\<exists>t w. run_command plaintext_backend (Deposit sample_deposit) balance_runtime_new = (Ok t, w)"
    by (simp add: credit_deposit_def with_lock_def credit_locked_def balance_runtime_new_def default_state_def sample_deposit_def
        plaintext_backend_def Let_def split_beta)
  ultimately show ?thesis
    using postgres_refines_memory [OF fresh(1) plain.commit_length, of "Deposit sample_deposit"]
    by (auto simp: fresh(2) split: prod.splits res.splits)
qed

text \<open>
  C30. From an empty database, whatever commands run and whatever fails on the way: the accepted commands, run again in memory, are
  accepted with the same transitions and end in the state the tables hold; so for the development backend
  the balances of an asset add up to its accepted deposits less its accepted withdrawals.
\<close>

theorem postgres_runs_replay_in_memory:
  assumes "pg_connect (empty_balance_database faults) = (Ok rt, db)" and "\<And>tag parts. length (commit B tag parts) = 32"
    and "pg_run_commands B cmds rt = (log, rt')" and "length cmds < 2 ^ 64"
  shows "run_commands B (map fst (accepted log)) balance_runtime_new
      = (map (\<lambda>(c, t). (c, Ok t)) (accepted log), \<lparr>rt_state = state_of (pb_db rt'), rt_poisoned = False\<rparr>)
    \<and> (B = plaintext_backend \<longrightarrow> asset_total a (ledger_of plain_cval (state_of (pb_db rt')))
         + (\<Sum>(c, t) \<leftarrow> accepted log. withdrawn a c) = (\<Sum>(c, t) \<leftarrow> accepted log. deposited a c))"
proof -
  let ?cmds = "map fst (accepted log)" and ?final = "\<lparr>rt_state = state_of (pb_db rt'), rt_poisoned = False\<rparr>"
  note connect = connected [OF assms(1)]
  have healthy: "\<lparr>rt_state = state_of (pb_db rt), rt_poisoned = False\<rparr> = balance_runtime_new"
    using connect(2) by (simp add: runtime_of_def balance_runtime_new_def)
  have replay: "run_commands B ?cmds balance_runtime_new = (map (\<lambda>(c, t). (c, Ok t)) (accepted log), ?final)"
    using pg_run_accepted [OF connect(1) assms(2,3)] by (simp only: healthy)
  have "length (accepted log) \<le> length log" by (simp add: accepted_def)
  then have len: "length ?cmds < 2 ^ 64" using pg_run_length [OF assms(3)] assms(4) by simp
  have again: "accepted (map (\<lambda>(c, t). (c, Ok t)) l) = l" for l :: "(command \<times> transition) list"
    by (induction l) auto
  show ?thesis
    using replay plain.run_commands_conserves [of 0 balance_runtime_new ?cmds a] len by (auto simp: again balance_runtime_new_def)
qed

theorem postgres_runs_replay_in_memory_witness:
  "\<exists>log rt'. pg_run_commands plaintext_backend [Deposit sample_deposit] fresh_runtime = (log, rt')
     \<and> asset_total (replicate 20 3) (ledger_of plain_cval (state_of (pb_db rt'))) + (\<Sum>(c, t) \<leftarrow> accepted log. withdrawn (replicate 20 3) c)
       = (\<Sum>(c, t) \<leftarrow> accepted log. deposited (replicate 20 3) c)"
proof -
  obtain log rt' where run: "pg_run_commands plaintext_backend [Deposit sample_deposit] fresh_runtime = (log, rt')" by fastforce
  show ?thesis
    using postgres_runs_replay_in_memory [OF fresh_connected plain.commit_length run, of "replicate 20 3"] run by (simp del: pg_run_commands.simps)
qed

end
