(* ===== verification/Committee_Daemon.thy ===== *)
theory Committee_Daemon
  imports Upload Crypto_Process
begin

text \<open>
  \<open>runtime/src/bin/manifest_committee_daemon.rs\<close>: the chain as the node sees it through the \<open>cast\<close> program, the
  submission of results and uploads, and one turn of the main loop.

  The program \<open>cast\<close> is a step function on an arbitrary world, the chain: it takes its arguments and says whether it ran,
  whether it succeeded and what it printed.  Everything holds for every such function, so for every chain.  Operations
  run over the pair of the world and the node's database.
\<close>

section \<open>The cast program\<close>

record 'w cast_source =
  cs_cast :: "string list \<Rightarrow> 'w \<Rightarrow> (bool \<times> bytes) option \<times> 'w"
  cs_keccak :: hash
  cs_rpc_url :: string
  cs_control :: string
  cs_gateway :: string
  cs_contract_id :: bytes
  cs_node_address :: string
  cs_node_id :: string
  cs_node_tx_key :: string
  cs_active_committee_id :: string

type_synonym ('w, 'a) chain_op = "'w \<Rightarrow> (daemon_error, 'a) res \<times> 'w"

definition run_cast :: "'w cast_source \<Rightarrow> string list \<Rightarrow> 'w \<Rightarrow> (unit, string) res \<times> 'w" where
  "run_cast S args w =
     (case cs_cast S args w of
        (None, w) \<Rightarrow> (Err (), w)
      | (Some (success, out), w) \<Rightarrow>
          (if \<not> success then Err () else bindR (mapE (\<lambda>_. ()) (string_of_utf8 out)) (\<lambda>s. Ok (str_trim s)), w))"

definition cast_or :: "daemon_error \<Rightarrow> 'w cast_source \<Rightarrow> string list \<Rightarrow> ('w, string) chain_op" where
  "cast_or e S args w = (let (r, w) = run_cast S args w in (mapE (\<lambda>_. e) r, w))"

definition call_target :: "'w cast_source \<Rightarrow> string \<Rightarrow> string \<Rightarrow> string list \<Rightarrow> ('w, string) chain_op" where
  "call_target S target signature args =
     cast_or DChainUnavailable S ([''call'', target, signature] @ args @ [''--rpc-url'', cs_rpc_url S, ''--no-proxy''])"

definition call :: "'w cast_source \<Rightarrow> string \<Rightarrow> string list \<Rightarrow> ('w, string) chain_op" where
  "call S signature args = call_target S (cs_control S) signature args"

definition send_target :: "'w cast_source \<Rightarrow> string \<Rightarrow> string \<Rightarrow> string list \<Rightarrow> ('w, unit) chain_op" where
  "send_target S target signature args w =
     then_do (cast_or DChainUnavailable S ([''send'', target, signature] @ args
         @ [''--private-key'', cs_node_tx_key S, ''--rpc-url'', cs_rpc_url S, ''--no-proxy'', ''--quiet'']) w)
       (\<lambda>_ w. (Ok (), w))"

definition send_control :: "'w cast_source \<Rightarrow> string \<Rightarrow> string list \<Rightarrow> ('w, unit) chain_op" where
  "send_control S signature args = send_target S (cs_control S) signature args"

definition u64_call :: "'w cast_source \<Rightarrow> string \<Rightarrow> string list \<Rightarrow> ('w, u64) chain_op" where
  "u64_call S signature args w =
     then_do (call S signature args w) (\<lambda>s w. (bindR (ok_or DInvalidChainResponse (parse_usize s)) (\<lambda>n. Ok (of_nat n)), w))"

definition sign_digest :: "'w cast_source \<Rightarrow> string \<Rightarrow> ('w, string) chain_op" where
  "sign_digest S digest =
     cast_or DChainUnavailable S [''wallet'', ''sign'', ''--no-hash'', ''--private-key'', cs_node_tx_key S, digest]"

definition zero_bytes32 :: string where
  "zero_bytes32 = ''0x'' @ replicate 64 (CHR ''0'')"

definition keccak_parts :: "hash \<Rightarrow> bytes list \<Rightarrow> bytes" where
  "keccak_parts keccak parts = keccak (concat parts)"

section \<open>Tasks\<close>

definition execution_status :: "'w cast_source \<Rightarrow> string \<Rightarrow> ('w, chain_execution_status) chain_op" where
  "execution_status S execution w =
     then_do (u64_call S ''executionStatus(bytes32)(uint8)'' [execution] w) (\<lambda>v w.
       (if unat v < 256 then chain_status_from_u8 (ucast v) else Err DInvalidChainResponse, w))"

definition advance_to_running ::
  "'w cast_source \<Rightarrow> string \<Rightarrow> chain_execution_status \<Rightarrow> ('w, chain_execution_status) chain_op"
where
  "advance_to_running S execution status w =
     (if status = ExRequested then
        then_do (send_control S ''assignCommittee(bytes32,bytes32)'' [execution, cs_active_committee_id S] w) (\<lambda>_ w.
        then_do (send_control S ''markRunning(bytes32)'' [execution] w) (\<lambda>_ w. (Ok ExRunning, w)))
      else if status = ExCommitteeAssigned then
        then_do (send_control S ''markRunning(bytes32)'' [execution] w) (\<lambda>_ w. (Ok ExRunning, w))
      else (Ok status, w))"

definition execution_count :: "'w cast_source \<Rightarrow> ('w, u64) chain_op" where
  "execution_count S = u64_call S ''executionCount()(uint256)'' []"

definition input_at :: "'w cast_source \<Rightarrow> string \<Rightarrow> nat \<Rightarrow> bytes list \<Rightarrow> ('w, bytes list) chain_op" where
  "input_at S execution i acc w =
     then_do (call S ''executionInputAt(bytes32,uint256)(bytes32)'' [execution, show_nat i] w) (\<lambda>s w.
       (bindR (chain_decode_hex 32 s) (\<lambda>data_id. Ok (acc @ [data_id])), w))"

text \<open>\<open>Vec::with_capacity\<close> panics when the bytes asked for exceed \<open>isize::MAX\<close>.\<close>

definition task_inputs :: "'w cast_source \<Rightarrow> string \<Rightarrow> ('w, bytes list) chain_op" where
  "task_inputs S execution w =
     then_do (u64_call S ''executionInputCount(bytes32)(uint256)'' [execution] w) (\<lambda>n w.
       if 2 ^ 63 \<le> 32 * unat n then (Panic, w) else fold_do (input_at S execution) [0..<unat n] [] w)"

definition task_member :: "'w cast_source \<Rightarrow> string \<Rightarrow> ('w, bool) chain_op" where
  "task_member S execution w =
     then_do (call S ''executionCommittee(bytes32)(bytes32)'' [execution] w) (\<lambda>committee w.
       if committee = zero_bytes32 then (Ok False, w)
       else then_do (call S ''isCommitteeMember(bytes32,address)(bool)'' [committee, cs_node_address S] w) (\<lambda>s w.
         (Ok (s = ''true''), w)))"

definition call_decoded :: "'w cast_source \<Rightarrow> nat \<Rightarrow> string \<Rightarrow> string list \<Rightarrow> ('w, bytes) chain_op" where
  "call_decoded S n signature args w = then_do (call S signature args w) (\<lambda>s w. (chain_decode_hex n s, w))"

definition task_at :: "'w cast_source \<Rightarrow> u64 \<Rightarrow> ('w, manifest_chain_task) chain_op" where
  "task_at S index w =
     then_do (call S ''executionIdAt(uint256)(bytes32)'' [show_nat (unat index)] w) (\<lambda>execution w.
     then_do (call_decoded S 32 ''executionContract(bytes32)(bytes32)'' [execution] w) (\<lambda>contract w.
     then_do (call_decoded S 4 ''executionSelector(bytes32)(bytes4)'' [execution] w) (\<lambda>sel w.
     then_do (call_decoded S 20 ''executionRequester(bytes32)(address)'' [execution] w) (\<lambda>requester w.
     then_do (then_do (call S ''executionPublicInputs(bytes32)(bytes)'' [execution] w) (\<lambda>s w. (chain_decode_hex_bytes s, w))) (\<lambda>public_inputs w.
     then_do (execution_status S execution w) (\<lambda>status w.
     then_do (advance_to_running S execution status w) (\<lambda>status w.
     then_do (task_inputs S execution w) (\<lambda>inputs w.
     then_do (task_member S execution w) (\<lambda>member w.
     then_do (chain_decode_hex 32 execution, w) (\<lambda>execution_id w.
       (Ok \<lparr>ct_execution_id = execution_id, ct_contract_id = contract, ct_selector = sel, ct_requester = requester,
            ct_private_input_ids = inputs, ct_public_inputs = public_inputs, ct_status = status,
            ct_node_is_current_member = member\<rparr>, w)))))))))))"

section \<open>Keys and roots\<close>

definition storage_root :: "'w cast_source \<Rightarrow> ('w, string) chain_op" where
  "storage_root S w =
     then_do (cast_or DInvalidChainResponse S [''abi-encode'', ''f(address[])'', ''['' @ cs_node_address S @ '']''] w) (\<lambda>encoded w.
       (bindR (chain_decode_hex_bytes encoded) (\<lambda>bs. Ok (hex_text (cs_keccak S bs))), w))"

definition user_key_id :: "'w cast_source \<Rightarrow> string \<Rightarrow> (daemon_error, string) res" where
  "user_key_id S owner =
     bindR (chain_decode_hex 20 owner) (\<lambda>owner.
       Ok (hex_text (keccak_parts (cs_keccak S) [ascii ''PPSC_DEV_FHE_KEY_V1'', owner])))"

definition REGISTER_DATA :: string where
  "REGISTER_DATA = ''registerDataFor(address,bytes32,bytes32,bytes32,bytes32,bytes32,uint8,uint16,uint64,uint64)''"

definition ensure_user_key :: "'w cast_source \<Rightarrow> string \<Rightarrow> ('w, string) chain_op" where
  "ensure_user_key S owner w =
     then_do (user_key_id S owner, w) (\<lambda>key_id w.
     then_do (u64_call S ''dataStatus(bytes32)(uint8)'' [key_id] w) (\<lambda>status w.
       if status \<noteq> 0 then (Ok key_id, w)
       else
         then_do (storage_root S w) (\<lambda>storage w.
         let public_key_root = hex_text (keccak_parts (cs_keccak S) [ascii ''PPSC_DEV_PUBLIC_KEY_SET_V1'', ascii (cs_node_address S)]) in
         then_do (send_control S REGISTER_DATA
             [owner, key_id, key_id, public_key_root, storage, zero_bytes32, ''0'', ''1'', ''1'', ''1''] w) (\<lambda>_ w.
         then_do (send_control S ''registerDataLocations(bytes32,address[])'' [key_id, ''['' @ cs_node_address S @ '']''] w) (\<lambda>_ w.
           (Ok key_id, w))))))"

definition derive_state_root :: "hash \<Rightarrow> bytes \<Rightarrow> bytes \<Rightarrow> bool \<Rightarrow> bytes" where
  "derive_state_root keccak old_root output_commitment has_writes =
     (if \<not> has_writes then old_root else keccak_parts keccak [ascii ''PPSC_MANIFEST_STATE_V1'', old_root, output_commitment])"

definition variable_address :: "'w cast_source \<Rightarrow> string \<Rightarrow> bytes \<Rightarrow> ('w, string) chain_op" where
  "variable_address S state key w =
     (if length key = 0 then call_target S (cs_gateway S) (state @ ''Variable()(bytes32)'') [] w
      else if length key = 20 then call_target S (cs_gateway S) (state @ ''Variable(address)(bytes32)'') [hex_text key] w
      else (Err DInvalidOutput, w))"

section \<open>Results\<close>

definition comma_separated :: "string list \<Rightarrow> string" where
  "comma_separated xs = (case xs of [] \<Rightarrow> [] | x # xs \<Rightarrow> x @ concat (map (\<lambda>y. CHR '','' # y) xs))"

definition in_parens :: "string list \<Rightarrow> string" where
  "in_parens xs = ''('' @ comma_separated xs @ '')''"

definition in_brackets :: "string list \<Rightarrow> string" where
  "in_brackets xs = ''['' @ comma_separated xs @ '']''"

text \<open>The representation of an output and the key it is encrypted under.\<close>

definition output_representation :: "'w cast_source \<Rightarrow> string \<Rightarrow> cell_write list \<Rightarrow> ('w, nat \<times> string) chain_op" where
  "output_representation S requester writes w =
     (if writes = [] then (Ok (0, zero_bytes32), w)
      else if list_all (\<lambda>x. mv_type (cw_value x) = TFheUint) writes then
        then_do (ensure_user_key S requester w) (\<lambda>key w. (Ok (1, key), w))
      else if \<not> list_all (\<lambda>x. mv_type (cw_value x) = TSint) writes then (Err DInvalidOutput, w)
      else (Ok (0, zero_bytes32), w))"

definition RESULT_TYPE :: string where
  "RESULT_TYPE = ''(bytes32,bytes32,bytes32,bytes32,bytes32,uint8,uint16,uint64,bytes32,bytes32)''"

definition submit_result :: "'w cast_source \<Rightarrow> string \<Rightarrow> string \<Rightarrow> ('w, unit) chain_op" where
  "submit_result S execution result w =
     then_do (execution_status S execution w) (\<lambda>status w.
       if status = ExCompleted then (Ok (), w)
       else
         then_do (call S (''resultDigest(bytes32,'' @ RESULT_TYPE @ '')(bytes32)'') [execution, result] w) (\<lambda>digest w.
         then_do (sign_digest S digest w) (\<lambda>signature w.
           send_control S (''submitResult(bytes32,'' @ RESULT_TYPE @ '',bytes[])'')
             [execution, result, in_brackets [signature]] w)))"

definition declare_variable :: "'w cast_source \<Rightarrow> string \<Rightarrow> nat \<times> cell_write \<Rightarrow> (string \<times> nat) list \<Rightarrow> ('w, (string \<times> nat) list) chain_op" where
  "declare_variable S output_id = (\<lambda>(slot, write) existing w.
     then_do (variable_address S (cw_state write) (cw_key write) w) (\<lambda>variable w.
     then_do (call S ''stateVariableExists(bytes32)(bool)'' [variable] w) (\<lambda>s w.
       if s = ''true'' then (Ok (existing @ [(variable, slot)]), w)
       else then_do (send_control S ''declareStateVariable(bytes32,bytes32,bytes32,uint32)''
              [hex_text (cs_contract_id S), variable, output_id, show_nat slot] w) (\<lambda>_ w. (Ok existing, w)))))"

definition update_variables :: "'w cast_source \<Rightarrow> string \<Rightarrow> (string \<times> nat) list \<Rightarrow> ('w, unit) chain_op" where
  "update_variables S execution existing w =
     (if existing = [] then (Ok (), w)
      else then_do (call S ''executionVariableUpdatesFinalized(bytes32)(bool)'' [execution] w) (\<lambda>s w.
        if s = ''true'' then (Ok (), w)
        else
          let updates = in_brackets (map (\<lambda>(variable, slot). in_parens [variable, show_nat slot]) existing) in
          then_do (call S ''variableUpdateDigest(bytes32,(bytes32,uint32)[])(bytes32)'' [execution, updates] w) (\<lambda>digest w.
          then_do (sign_digest S digest w) (\<lambda>signature w.
            send_control S ''updateStateVariablesAfterResult(bytes32,(bytes32,uint32)[],bytes[])''
              [execution, updates, in_brackets [signature]] w))))"

definition fulfill_opening :: "'w cast_source \<Rightarrow> string \<Rightarrow> manifest_value option \<Rightarrow> ('w, unit) chain_op" where
  "fulfill_opening S execution opening w =
     (case opening of
        None \<Rightarrow> (Ok (), w)
      | Some v \<Rightarrow> send_target S (cs_gateway S) ''fulfillOpening(bytes32,bytes)'' [execution, hex_text (mv_bytes v)] w)"

text \<open>What \<open>submit_pending\<close> does to the chain for one record of the outbox, in the order of the code.\<close>

definition publish_record :: "'w cast_source \<Rightarrow> outbox_record \<Rightarrow> ('w, unit) chain_op" where
  "publish_record S record w =
     then_do (decode_outbox_payload (or_payload record), w) (\<lambda>decoded w.
     if do_execution_id decoded \<noteq> or_execution record then (Err DInvalidOutput, w)
     else
       let execution = hex_text (or_execution record); writes = do_state_writes decoded; keccak = cs_keccak S in
       then_do (call S ''executionRequester(bytes32)(address)'' [execution] w) (\<lambda>requester w.
       then_do (output_representation S requester writes w) (\<lambda>(representation, fhe_key_id) w.
       let output_id = hex_text (keccak_parts keccak [ascii ''PPSC_MANIFEST_OUTPUT_V1'', or_execution record, or_payload record]);
           output_commitment = hex_text (keccak (or_payload record));
           public_key_root = hex_text (keccak_parts keccak [ascii ''PPSC_MANIFEST_OUTPUT_PK_V1'', ascii (cs_node_address S)]) in
       then_do (storage_root S w) (\<lambda>storage w.
       then_do (call S ''executionOldStateRoot(bytes32)(bytes32)'' [execution] w) (\<lambda>old_root w.
       then_do (chain_decode_hex 32 old_root, w) (\<lambda>old_root w.
       then_do (chain_decode_hex 32 output_commitment, w) (\<lambda>commitment w.
       let new_state_root = hex_text (derive_state_root keccak old_root commitment (writes \<noteq> []));
           transcript_root = hex_text (keccak_parts keccak [ascii ''PPSC_MANIFEST_TRANSCRIPT_V1'', or_execution record, or_payload record]);
           result = in_parens [output_id, output_commitment, public_key_root, storage, fhe_key_id, show_nat representation,
             show_nat (if representation = 0 then 1 else 0), ''1'', new_state_root, transcript_root] in
       then_do (submit_result S execution result w) (\<lambda>_ w.
       then_do (fold_do (declare_variable S output_id) (List.enumerate 0 writes) [] w) (\<lambda>existing w.
       then_do (update_variables S execution existing w) (\<lambda>_ w.
         fulfill_opening S execution (do_opening decoded) w))))))))))"

definition on_chain :: "('w, 'a) chain_op \<Rightarrow> ('w \<times> database, 'a) chain_op" where
  "on_chain op = (\<lambda>(w, db). let (r, w) = op w in (r, (w, db)))"

definition on_store :: "'a db_op \<Rightarrow> ('w \<times> database, 'a) chain_op" where
  "on_store op = (\<lambda>(w, db). let (r, db) = in_runtime op db in (r, (w, db)))"

definition submit_pending :: "'w cast_source \<Rightarrow> ('w \<times> database, bool) chain_op" where
  "submit_pending S s =
     then_do (on_store next_pending_outbox s) (\<lambda>pending s.
       case pending of
         None \<Rightarrow> (Ok False, s)
       | Some record \<Rightarrow>
           then_do (on_chain (publish_record S record) s) (\<lambda>_ s.
           then_do (on_store (mark_outbox_submitted (cs_control S) (cs_node_id S) (or_execution record)) s) (\<lambda>_ s.
             (Ok True, s))))"

section \<open>Uploads\<close>

definition register_upload :: "'w cast_source \<Rightarrow> pending_upload \<Rightarrow> ('w, unit) chain_op" where
  "register_upload S record w =
     (let data_id = hex_text (pu_data_id record); owner = hex_text (pu_owner record) in
      then_do (u64_call S ''dataStatus(bytes32)(uint8)'' [data_id] w) (\<lambda>status w.
      then_do
        (if status \<noteq> 0 then (Ok (), w)
         else
           then_do (case mv_type (pu_value record) of
               TFheUint \<Rightarrow> then_do (ensure_user_key S owner w) (\<lambda>key w. (Ok (''1'', ''0'', key), w))
             | TSint \<Rightarrow> (Ok (''0'', ''1'', zero_bytes32), w)
             | _ \<Rightarrow> (Err DInvalidOutput, w)) (\<lambda>(representation, threshold, fhe_key_id) w.
           let public_key_root = hex_text (keccak_parts (cs_keccak S) [ascii ''PPSC_MANIFEST_UPLOAD_PK_V1'', ascii (cs_node_address S)]) in
           then_do (storage_root S w) (\<lambda>storage w.
             send_control S REGISTER_DATA
               [owner, data_id, hex_text (pu_commitment record), public_key_root, storage, fhe_key_id, representation, threshold,
                ''1'', ''1''] w))) (\<lambda>_ w.
      then_do (call S ''dataStorageNodes(bytes32)(address[])'' [data_id] w) (\<lambda>locations w.
        if str_trim locations = ''[]''
        then send_control S ''registerDataLocations(bytes32,address[])'' [data_id, ''['' @ cs_node_address S @ '']''] w
        else (Ok (), w)))))"

definition submit_pending_upload :: "'w cast_source \<Rightarrow> ('w \<times> database, bool) chain_op" where
  "submit_pending_upload S s =
     then_do (on_store (next_pending_upload (cs_contract_id S) (cs_control S)) s) (\<lambda>pending s.
       case pending of
         None \<Rightarrow> (Ok False, s)
       | Some record \<Rightarrow>
           (case on_chain (register_upload S record) s of
              (Ok _, s) \<Rightarrow>
                then_do (on_store (mark_upload_registered (cs_contract_id S) (cs_control S) (pu_data_id record)) s) (\<lambda>_ s. (Ok True, s))
            | (Err e, s) \<Rightarrow>
                let (marked, s) = on_store (mark_upload_failed (cs_contract_id S) (cs_control S) (pu_data_id record)
                       ''chain registration failed'') s
                in (if marked = Panic then Panic else Err e, s)
            | (Panic, s) \<Rightarrow> (Panic, s)))"

section \<open>The main loop\<close>

datatype main_error = BoxedDaemon daemon_error | BoxedRuntime manifest_runtime_error | BoxedText string

definition verify_manifest :: "'w cast_source \<Rightarrow> bytes \<Rightarrow> 'w \<Rightarrow> (main_error, unit) res \<times> 'w" where
  "verify_manifest S canonical w =
     (let local = hex_text (cs_keccak S canonical); (answer, w) = call S ''contractManifestHash(bytes32)(bytes32)'' [hex_text (cs_contract_id S)] w in
      (bindR (mapE BoxedDaemon answer) (\<lambda>on_chain.
         if local \<noteq> map ascii_lower on_chain
         then Err (BoxedText (''manifest hash mismatch: local='' @ local @ '' chain='' @ on_chain)) else Ok ()), w))"

datatype daemon_crypto_backend = PlaintextCrypto | ProcessCrypto child_process

text \<open>\<open>spawn\<close> starts the crypto process.\<close>

definition load_backend ::
  "(string \<Rightarrow> string list \<Rightarrow> (manifest_runtime_error, child_process) res) \<Rightarrow> string \<Rightarrow> string option \<Rightarrow> string list
     \<Rightarrow> (main_error, daemon_crypto_backend) res"
where
  "load_backend spawn backend command args =
     (if backend = ''plaintext'' then Ok PlaintextCrypto
      else if backend = ''process'' then
        bindR (ok_or (BoxedText ''MANIFEST_CRYPTO_COMMAND is required when MANIFEST_CRYPTO_BACKEND=process'') command) (\<lambda>command.
        bindR (mapE BoxedRuntime (spawn command args)) (\<lambda>child. Ok (ProcessCrypto child)))
      else Err (BoxedText (''unsupported MANIFEST_CRYPTO_BACKEND='' @ backend @ ''; expected plaintext or process'')))"

definition inner_backend :: "daemon_crypto_backend \<Rightarrow> manifest_crypto_backend" where
  "inner_backend B = (case B of PlaintextCrypto \<Rightarrow> plaintext_manifest_backend | ProcessCrypto child \<Rightarrow> process_manifest_backend child)"

definition daemon_crypto :: "daemon_crypto_backend \<Rightarrow> manifest_crypto_backend" where
  "daemon_crypto B =
     \<lparr>mb_evaluate = mb_evaluate (inner_backend B), mb_secret_bool = mb_secret_bool (inner_backend B), mb_pick = mb_pick (inner_backend B)\<rparr>"

definition main_daemon :: "'w cast_source \<Rightarrow> daemon_crypto_backend \<Rightarrow> contract_manifest \<Rightarrow> committee_daemon" where
  "main_daemon S B manifest =
     \<lparr>cd_manifest = manifest, cd_backend = daemon_crypto B, cd_contract_id = cs_contract_id S, cd_control = cs_control S,
      cd_node = cs_node_id S, cd_store_contract = cs_contract_id S\<rparr>"

text \<open>\<open>try_wait\<close> says whether the crypto process is alive; the operating system decides.\<close>

definition ensure_running :: "bool \<Rightarrow> (manifest_runtime_error, unit) res" where
  "ensure_running alive = (if alive then Ok () else Err MStateUnavailable)"

text \<open>The chain answers a poll from the world it meets; the queries leave the world they lead to.\<close>

definition chain_answers :: "'w cast_source \<Rightarrow> 'w \<Rightarrow> manifest_task_source" where
  "chain_answers S w =
     \<lparr>ts_execution_count = fst (execution_count S w), ts_task_at = (\<lambda>i. fst (task_at S i (snd (execution_count S w))))\<rparr>"

definition polled_world :: "'w cast_source \<Rightarrow> committee_daemon \<Rightarrow> 'w \<Rightarrow> database \<Rightarrow> 'w" where
  "polled_world S D w db =
     (case fst (in_runtime (next_execution_index (cd_control D) (cd_node D)) db) of
        Ok index \<Rightarrow>
          (case execution_count S w of
             (Ok count, w) \<Rightarrow> if count \<le> index then w else snd (task_at S index w)
           | (_, w) \<Rightarrow> w)
      | _ \<Rightarrow> w)"

definition poll_chain :: "'w cast_source \<Rightarrow> committee_daemon \<Rightarrow> ('w \<times> database, poll_outcome) chain_op" where
  "poll_chain S D = (\<lambda>(w, db). let (r, db') = poll_once D (chain_answers S w) db in (r, (polled_world S D w db, db')))"

text \<open>An error is printed and the loop goes on.\<close>

definition or_print :: "('e, 'a) res \<times> 's \<Rightarrow> ('s \<Rightarrow> ('f, 'b) res \<times> 's) \<Rightarrow> ('f, 'b) res \<times> 's" where
  "or_print m next = (case m of (Panic, s) \<Rightarrow> (Panic, s) | (_, s) \<Rightarrow> next s)"

type_synonym ('w, 'a) main_op = "'w \<times> database \<Rightarrow> (main_error, 'a) res \<times> 'w \<times> database"

definition daemon_turn :: "'w cast_source \<Rightarrow> daemon_crypto_backend \<Rightarrow> contract_manifest \<Rightarrow> bool \<Rightarrow> ('w, unit) main_op" where
  "daemon_turn S B manifest alive s =
     then_do (case B of PlaintextCrypto \<Rightarrow> Ok () | ProcessCrypto child \<Rightarrow> mapE BoxedRuntime (ensure_running alive), s) (\<lambda>_ s.
     or_print (poll_chain S (main_daemon S B manifest) s) (\<lambda>s.
     or_print (submit_pending S s) (\<lambda>s.
     or_print (submit_pending_upload S s) (\<lambda>s. (Ok (), s)))))"

text \<open>
  The turns, each with what \<open>try_wait\<close> says in it and what the chain, the clock, the connection and the upload listener do while the
  daemon sleeps.  With \<open>once\<close> there is one turn; without it the list is a prefix of the endless loop.
\<close>

type_synonym 'w round = "bool \<times> ('w \<times> database \<Rightarrow> 'w \<times> database)"

primrec daemon_loop :: "'w cast_source \<Rightarrow> daemon_crypto_backend \<Rightarrow> contract_manifest \<Rightarrow> 'w round list \<Rightarrow> ('w, unit) main_op" where
  "daemon_loop S B manifest [] s = (Ok (), s)"
| "daemon_loop S B manifest (round # rounds) s =
     then_do (daemon_turn S B manifest (fst round) s) (\<lambda>_ s. daemon_loop S B manifest rounds (snd round s))"

text \<open>
  From \<open>verify_manifest\<close> on: \<open>canonical\<close> is the pretty JSON of the manifest, \<open>backend\<close> what \<open>load\<close> returns, and the listener
  starts, or fails to, before the loop.
\<close>

definition daemon_main ::
  "'w cast_source \<Rightarrow> bytes \<Rightarrow> (main_error, unit) res \<Rightarrow> (main_error, daemon_crypto_backend) res \<Rightarrow> contract_manifest \<Rightarrow> 'w round list
     \<Rightarrow> ('w, unit) main_op"
where
  "daemon_main S canonical listener backend manifest rounds = (\<lambda>(w, db).
     then_do (let (r, w) = verify_manifest S canonical w in (r, (w, db))) (\<lambda>_ s.
     then_do (listener, s) (\<lambda>_ s.
     then_do (backend, s) (\<lambda>B s. daemon_loop S B manifest rounds s))))"

section \<open>What a turn does to the database\<close>

lemma statement_reads:
  obtains fs where "snd (statement (\<lambda>db. (f db, db)) db) = db\<lparr>db_faults := fs\<rparr>"
proof (cases rule: statement_cases [of "\<lambda>db. (f db, db)" db])
  case (runs rest)
  then show ?thesis using that by simp
next
  case (fails rest)
  then show ?thesis using that by simp
qed

lemma on_store_eq: "on_store op (w, db) = (mapE DRuntime (fst (op db)), (w, snd (op db)))"
  by (simp add: on_store_def in_runtime_def split_beta)

lemma on_chain_eq: "on_chain op (w, db) = (fst (op w), (snd (op w), db))"
  by (simp add: on_chain_def split_beta)

lemma statement_step: "node_step db (snd (statement (\<lambda>db. (f db, db)) db))"
  by (rule statement_reads [of f db]) (simp add: node_step.faults)

definition steps_to :: "database \<Rightarrow> database \<Rightarrow> bool" where
  "steps_to = node_step\<^sup>*\<^sup>*"

lemma steps_intros:
  "steps_to db db" "node_step db db' \<Longrightarrow> steps_to db db'" "steps_to db db1 \<Longrightarrow> steps_to db1 db2 \<Longrightarrow> steps_to db db2"
  unfolding steps_to_def by auto

lemma reachable_steps:
  assumes "steps_to db db'"
  shows "node_reachable db \<Longrightarrow> node_reachable db'"
  using assms unfolding steps_to_def by induction (auto intro: node_reachable.step)

lemma then_do_steps:
  assumes "steps_to db (snd (snd m))" and "\<And>x s. m = (Ok x, s) \<Longrightarrow> steps_to db (snd (snd (f x s)))"
  shows "steps_to db (snd (snd (then_do m f)))"
  using assms by (cases m; cases "fst m") auto

lemma or_print_steps:
  assumes "steps_to db (snd (snd m))" and "\<And>w db. steps_to db (snd (snd (f (w, db))))"
  shows "steps_to db (snd (snd (or_print m f)))"
proof -
  obtain r w db1 where m: "m = (r, w, db1)" by (metis surjective_pairing)
  then have "steps_to db db1" using assms(1) by simp
  then show ?thesis using steps_intros(3) [OF _ assms(2)] by (cases r) (simp_all add: m or_print_def)
qed

lemma store_steps:
  "steps_to db (snd (snd (on_store next_pending_outbox (w, db))))"
  "steps_to db (snd (snd (on_store (next_pending_upload contract control) (w, db))))"
  "steps_to db (snd (snd (on_store (mark_outbox_submitted control node execution) (w, db))))"
  "steps_to db (snd (snd (on_store (mark_upload_registered contract control data_id) (w, db))))"
  "steps_to db (snd (snd (on_store (mark_upload_failed contract control data_id error) (w, db))))"
  by (auto simp: on_store_eq next_pending_outbox_def next_pending_upload_def
      intro!: steps_intros(2) node_step.submitted [OF surjective_pairing] node_step.registered [OF surjective_pairing]
        node_step.upload_failed [OF surjective_pairing] statement_step)

lemma snd_steps: "steps_to db (snd (snd m)) \<Longrightarrow> m = (r, w, db') \<Longrightarrow> steps_to db db'"
  by simp

lemma reachable_exactly_once: "node_reachable db \<Longrightarrow> exactly_once control node db"
proof (induction rule: node_reachable.induct)
  case fresh
  show ?case by (simp add: exactly_once_def processed_by_def sent_by_def queue_position_def empty_database_def Let_def)
qed (rule exactly_once_step)

lemma submit_pending_steps: "steps_to db (snd (snd (submit_pending S (w, db))))"
  unfolding submit_pending_def
proof (rule then_do_steps [OF store_steps(1)])
  fix pending s
  assume read: "on_store next_pending_outbox (w, db) = (Ok pending, s)"
  obtain db1 where s: "s = (w, db1)" and db1: "steps_to db db1" using store_steps(1) [of db w] read by (auto simp: on_store_eq)
  have "steps_to db1 (snd (snd (then_do (on_chain (publish_record S rcd) (w, db1)) (\<lambda>_ s.
      then_do (on_store (mark_outbox_submitted (cs_control S) (cs_node_id S) (or_execution rcd)) s) (\<lambda>_ s. (Ok True, s))))))" for rcd
    by (rule then_do_steps) (auto simp: on_chain_eq intro!: steps_intros(1) then_do_steps store_steps dest: snd_steps [OF store_steps(3)])
  then show "steps_to db (snd (snd (case pending of None \<Rightarrow> (Ok False, s) | Some rcd \<Rightarrow>
      then_do (on_chain (publish_record S rcd) s) (\<lambda>_ s.
      then_do (on_store (mark_outbox_submitted (cs_control S) (cs_node_id S) (or_execution rcd)) s) (\<lambda>_ s. (Ok True, s))))))"
    using db1 by (cases pending) (auto simp: s intro: steps_intros(3))
qed

lemma submit_pending_upload_steps: "steps_to db (snd (snd (submit_pending_upload S (w, db))))"
  unfolding submit_pending_upload_def
proof (rule then_do_steps [OF store_steps(2)])
  fix pending s
  assume read: "on_store (next_pending_upload (cs_contract_id S) (cs_control S)) (w, db) = (Ok pending, s)"
  obtain db1 where s: "s = (w, db1)" and db1: "steps_to db db1"
    using store_steps(2) [of db "cs_contract_id S" "cs_control S" w] read by (auto simp: on_store_eq)
  have "steps_to db1 (snd (snd (case on_chain (register_upload S rcd) (w, db1) of
      (Ok _, s) \<Rightarrow> then_do (on_store (mark_upload_registered (cs_contract_id S) (cs_control S) (pu_data_id rcd)) s) (\<lambda>_ s. (Ok True, s))
    | (Err e, s) \<Rightarrow> let (marked, s) = on_store (mark_upload_failed (cs_contract_id S) (cs_control S) (pu_data_id rcd)
          ''chain registration failed'') s in (if marked = Panic then Panic else Err e, s)
    | (Panic, s) \<Rightarrow> (Panic, s))))" for rcd
    using store_steps(5) by (auto simp: on_chain_eq split_beta intro!: steps_intros(1) then_do_steps store_steps
        dest: snd_steps [OF store_steps(4)] split: res.split prod.split)
  then show "steps_to db (snd (snd (case pending of None \<Rightarrow> (Ok False, s) | Some rcd \<Rightarrow>
      (case on_chain (register_upload S rcd) s of
      (Ok _, s) \<Rightarrow> then_do (on_store (mark_upload_registered (cs_contract_id S) (cs_control S) (pu_data_id rcd)) s) (\<lambda>_ s. (Ok True, s))
    | (Err e, s) \<Rightarrow> let (marked, s) = on_store (mark_upload_failed (cs_contract_id S) (cs_control S) (pu_data_id rcd)
          ''chain registration failed'') s in (if marked = Panic then Panic else Err e, s)
    | (Panic, s) \<Rightarrow> (Panic, s)))))"
    using db1 by (cases pending) (auto simp: s intro: steps_intros(3))
qed

lemma poll_chain_steps: "steps_to db (snd (snd (poll_chain S D (w, db))))"
  by (auto simp: poll_chain_def split_beta intro!: steps_intros(2) node_step.poll [OF surjective_pairing])

lemma daemon_turn_steps: "steps_to db (snd (snd (daemon_turn S B manifest alive (w, db))))"
  unfolding daemon_turn_def
  by (rule then_do_steps)
    (auto intro!: steps_intros(1) or_print_steps poll_chain_steps submit_pending_steps submit_pending_upload_steps)

definition only_node_steps :: "'w round list \<Rightarrow> bool" where
  "only_node_steps rounds \<longleftrightarrow> (\<forall>round \<in> set rounds. \<forall>w db. node_step\<^sup>*\<^sup>* db (snd (snd round (w, db))))"

lemma daemon_loop_steps: "only_node_steps rounds \<Longrightarrow> steps_to db (snd (snd (daemon_loop S B manifest rounds (w, db))))"
proof (induction rounds arbitrary: w db)
  case (Cons round rounds)
  have pause: "steps_to db (snd (snd round (w, db)))" for w db
    using Cons.prems by (simp add: only_node_steps_def steps_to_def)
  have rest: "steps_to db (snd (snd (daemon_loop S B manifest rounds (snd round (w, db)))))" for w db
    using Cons.prems Cons.IH [of "snd (snd round (w, db))" "fst (snd round (w, db))"] steps_intros(3) [OF pause [of db w]]
    by (simp add: only_node_steps_def)
  obtain r w1 db1 where turn: "daemon_turn S B manifest (fst round) (w, db) = (r, w1, db1)" by (metis surjective_pairing)
  then have "steps_to db db1" using daemon_turn_steps [of db S B manifest "fst round" w] by simp
  then show ?case using steps_intros(3) [OF _ rest] turn by (cases r) auto
qed (simp add: steps_intros(1))

lemma or_print_not_Err: "(\<And>s. fst (f s) \<noteq> Err e) \<Longrightarrow> fst (or_print m f) \<noteq> Err e"
  by (cases m; cases "fst m") (auto simp: or_print_def)

section \<open>Marking what was published\<close>

definition entry_of :: "string \<Rightarrow> string \<Rightarrow> bytes \<Rightarrow> outbox_row \<Rightarrow> bool" where
  "entry_of control node execution row \<longleftrightarrow>
     ob_control row = control \<and> ob_node row = node \<and> ob_execution row = execution \<and> \<not> ob_submitted row"

definition submitted_row :: "outbox_row \<Rightarrow> outbox_row" where
  "submitted_row row = row\<lparr>ob_submitted := True, ob_attempts := ob_attempts row + 1, ob_last_error := None\<rparr>"

definition marked_submitted :: "string \<Rightarrow> string \<Rightarrow> bytes \<Rightarrow> outbox_row \<Rightarrow> outbox_row" where
  "marked_submitted control node execution row = (if entry_of control node execution row then submitted_row row else row)"

lemma entry_of_alone:
  assumes "distinct (map entry_key rows)"
  shows "length (filter (entry_of control node execution) rows) \<le> 1"
  using assms
proof (induction rows)
  case (Cons r rows)
  have "filter (entry_of control node execution) rows = []" if "entry_of control node execution r"
    using Cons.prems that by (auto simp: filter_empty_conv entry_of_def entry_key_def rev_image_eqI)
  then show ?case using Cons by simp
qed simp

lemma update_marks:
  assumes "update_rows (entry_of control node execution)
      (\<lambda>r. bindR (integer_succ (ob_attempts r)) (\<lambda>n. Ok (r\<lparr>ob_submitted := True, ob_attempts := n, ob_last_error := None\<rparr>))) rows = Ok (n, rows')"
  shows "n = length (filter (entry_of control node execution) rows)" "rows' = map (marked_submitted control node execution) rows"
proof -
  let ?f = "\<lambda>r. if entry_of control node execution r
    then bindR (integer_succ (ob_attempts r)) (\<lambda>n. Ok (r\<lparr>ob_submitted := True, ob_attempts := n, ob_last_error := None\<rparr>)) else Ok r"
  have "rows' = map (marked_submitted control node execution) rows" if "mapR ?f rows = Ok rows'" for rows rows'
    using that by (induction rows arbitrary: rows') (auto simp: marked_submitted_def submitted_row_def integer_succ_def split: if_splits)
  then show "n = length (filter (entry_of control node execution) rows)" "rows' = map (marked_submitted control node execution) rows"
    using assms by (auto simp: update_rows_def)
qed

lemma mark_outbox_submitted_eq:
  "mark_outbox_submitted control node execution db =
     then_do (statement (\<lambda>db. then_do (update_rows (entry_of control node execution)
         (\<lambda>r. bindR (integer_succ (ob_attempts r)) (\<lambda>n. Ok (r\<lparr>ob_submitted := True, ob_attempts := n, ob_last_error := None\<rparr>)))
         (db_outbox db), db) (\<lambda>(updated, rows) db. (Ok updated, db\<lparr>db_outbox := rows\<rparr>))) db)
       (\<lambda>updated db. if updated \<noteq> 1 then (Err MStateNotFound, db) else (Ok (), db))"
  by (simp add: mark_outbox_submitted_def entry_of_def [abs_def])

lemma mark_outbox_submitted_cases:
  assumes "distinct (map entry_key (db_outbox db))" and "mark_outbox_submitted control node execution db = (r, db')"
  shows "(r = Ok () \<and> tables db' = tables (db\<lparr>db_outbox := map (marked_submitted control node execution) (db_outbox db)\<rparr>)
        \<and> length (filter (entry_of control node execution) (db_outbox db)) = 1)
    \<or> (\<not> is_ok r \<and> r \<noteq> Panic \<and> tables db' = tables db)"
proof -
  let ?P = "entry_of control node execution"
  let ?op = "\<lambda>db. then_do (update_rows ?P
         (\<lambda>r. bindR (integer_succ (ob_attempts r)) (\<lambda>n. Ok (r\<lparr>ob_submitted := True, ob_attempts := n, ob_last_error := None\<rparr>)))
         (db_outbox db), db) (\<lambda>(updated, rows) db. (Ok updated, db\<lparr>db_outbox := rows\<rparr>))"
  show ?thesis
  proof (cases rule: statement_cases [of ?op db])
    case (fails rest)
    then show ?thesis using assms(2) by (auto simp: mark_outbox_submitted_eq)
  next
    case (runs rest)
    let ?rows = "update_rows ?P
         (\<lambda>r. bindR (integer_succ (ob_attempts r)) (\<lambda>n. Ok (r\<lparr>ob_submitted := True, ob_attempts := n, ob_last_error := None\<rparr>))) (db_outbox db)"
    show ?thesis
    proof (cases ?rows)
      case (Ok x)
      obtain n rows where x: "x = (n, rows)" by fastforce
      note up = update_marks [OF Ok [unfolded x]]
      have none: "map (marked_submitted control node execution) (db_outbox db) = db_outbox db" if "n \<noteq> 1"
      proof -
        have "filter ?P (db_outbox db) = []" using entry_of_alone [OF assms(1), of control node execution] that up(1) by (auto simp: le_Suc_eq)
        then show ?thesis by (auto simp: filter_empty_conv marked_submitted_def intro!: map_idI)
      qed
      have "(r, db') = (if n \<noteq> 1 then Err MStateNotFound else Ok (), db\<lparr>db_faults := rest, db_outbox := rows\<rparr>)"
        using assms(2) runs Ok x by (auto simp: mark_outbox_submitted_eq split: if_splits)
      then show ?thesis using none up by (auto simp: tables_def split: if_splits)
    next
      case (Err e)
      then show ?thesis using assms(2) runs by (auto simp: mark_outbox_submitted_eq)
    next
      case Panic
      have "?rows \<noteq> Panic" unfolding update_rows_def
        by (auto simp: bindR_eq_Panic mapR_not_Panic integer_succ_def split: if_splits)
      then show ?thesis using Panic by simp
    qed
  qed
qed

text \<open>The oldest entry that is not submitted yet.\<close>

definition outbox_head :: "database \<Rightarrow> outbox_row option" where
  "outbox_head db = first_by (\<lambda>r. (ob_created_at r, ob_execution r)) (filter (\<lambda>r. \<not> ob_submitted r) (db_outbox db))"

lemma next_pending_cases:
  obtains (failed) e db1 where "next_pending_outbox db = (Err e, db1)" "tables db1 = tables db"
  | (empty) db1 where "next_pending_outbox db = (Ok None, db1)" "tables db1 = tables db" "outbox_head db = None"
  | (head) row db1 where "next_pending_outbox db = (Ok (Some \<lparr>or_execution = ob_execution row, or_payload = ob_payload row\<rparr>), db1)"
      "tables db1 = tables db" "outbox_head db = Some row"
proof -
  let ?q = "\<lambda>db. case outbox_head db of None \<Rightarrow> Ok None
      | Some r \<Rightarrow> bindR (fixed 32 (ob_execution r)) (\<lambda>execution. Ok (Some \<lparr>or_execution = execution, or_payload = ob_payload r\<rparr>))"
  have same: "outbox_head (db\<lparr>db_faults := fs\<rparr>) = outbox_head db" for db fs by (simp add: outbox_head_def)
  have q: "next_pending_outbox = statement (\<lambda>db. (?q db, db))" by (simp add: next_pending_outbox_def outbox_head_def [abs_def])
  show ?thesis
  proof (cases rule: statement_cases [of "\<lambda>db. (?q db, db)" db])
    case (fails rest)
    then show ?thesis using failed q by simp
  next
    case (runs rest)
    have db1: "tables (db\<lparr>db_faults := rest\<rparr>) = tables db" by (simp add: tables_def)
    show ?thesis
    proof (cases "outbox_head db")
      case None
      then show ?thesis using empty [of "db\<lparr>db_faults := rest\<rparr>"] runs q same db1 by simp
    next
      case (Some row)
      show ?thesis
      proof (cases "length (ob_execution row) = 32")
        case True
        then show ?thesis using head [of row "db\<lparr>db_faults := rest\<rparr>"] Some runs q same db1 by (simp add: fixed_def)
      next
        case False
        then show ?thesis using failed [of _ "db\<lparr>db_faults := rest\<rparr>"] Some runs q same db1 by (simp add: fixed_def)
      qed
    qed
  qed
qed

lemma first_by_in: "first_by key xs = Some x \<Longrightarrow> x \<in> set xs"
  by (induction xs arbitrary: x) (auto split: option.splits if_splits)

lemma head_open: "outbox_head db = Some row \<Longrightarrow> row \<in> set (db_outbox db) \<and> \<not> ob_submitted row"
  by (auto simp: outbox_head_def dest: first_by_in)

text \<open>The one entry that is marked; it is the oldest one when every entry is the node's own.\<close>

lemma marked_entry:
  assumes "length (filter (entry_of control node execution) rows) = 1"
  obtains own where "own \<in> set rows" "entry_of control node execution own"
    "map (marked_submitted control node execution) rows = map (\<lambda>r. if r = own then submitted_row r else r) rows"
    "\<forall>r \<in> set rows. entry_of control node execution r \<longrightarrow> r = own"
proof -
  obtain own where own: "filter (entry_of control node execution) rows = [own]" using assms by (auto simp: length_Suc_conv)
  have only: "r \<in> set rows \<and> entry_of control node execution r \<longleftrightarrow> r = own" for r
    using arg_cong [OF own, of set] by auto
  show ?thesis
    by (rule that [of own]) (use only in \<open>auto simp: marked_submitted_def\<close>)
qed

lemma publish_decodes:
  assumes "fst (publish_record S rcd w) = Ok ()"
  shows "\<exists>decoded. decode_outbox_payload (or_payload rcd) = Ok decoded \<and> do_execution_id decoded = or_execution rcd"
  using assms by (cases "decode_outbox_payload (or_payload rcd)") (auto simp: publish_record_def split: if_splits)

section \<open>Properties\<close>

text \<open>A chain that answers every query with zeros and says of every execution that it is completed; an outbox of one entry.\<close>

definition done_chain :: "unit cast_source" where
  "done_chain = \<lparr>cs_cast = (\<lambda>args w. (Some (True, ascii (if args ! 2 = ''executionStatus(bytes32)(uint8)'' then ''6'' else zero_bytes32)), w)),
     cs_keccak = (\<lambda>_. replicate 32 0), cs_rpc_url = ''rpc'', cs_control = ''c'', cs_gateway = ''g'', cs_contract_id = replicate 32 0,
     cs_node_address = ''n'', cs_node_id = ''n'', cs_node_tx_key = ''k'', cs_active_committee_id = ''a''\<rparr>"

definition pending_row :: "bytes \<Rightarrow> outbox_row" where
  "pending_row payload = \<lparr>ob_control = ''c'', ob_node = ''n'', ob_execution = replicate 32 0, ob_payload = payload,
     ob_submitted = False, ob_attempts = 0, ob_last_error = None, ob_created_at = 0\<rparr>"

definition pending_database :: "bytes \<Rightarrow> database" where
  "pending_database payload = empty_database\<lparr>db_outbox := [pending_row payload]\<rparr>"

definition opening_payload :: bytes where
  "opening_payload = OUTBOX_PREFIX @ replicate 32 0 @ [0, 0, 0, 0] @ [0, 0, 0, 0] @ [0]"

definition mixed_payload :: bytes where
  "mixed_payload = OUTBOX_PREFIX @ replicate 32 0 @ [0, 0, 0, 2] @ [0, 0, 0, 1, 97, 0, 0, 0, 0, 2, 0, 0, 0, 1, 7]
     @ [0, 0, 0, 1, 98, 0, 0, 0, 0, 4, 0, 0, 0, 1, 9] @ [0, 0, 0, 0] @ [0]"

definition mixed_outcome :: decoded_outbox where
  "mixed_outcome = \<lparr>do_execution_id = replicate 32 0, do_state_writes =
     [\<lparr>cw_state = ''a'', cw_key = [], cw_value = \<lparr>mv_type = TFheUint, mv_bytes = [7]\<rparr>\<rparr>,
      \<lparr>cw_state = ''b'', cw_key = [], cw_value = \<lparr>mv_type = TSint, mv_bytes = [9]\<rparr>\<rparr>], do_opening = None\<rparr>"

lemmas sample_bytes = encode_outbox_payload_def append_len_def encode_write_def append_bytes_def encode_value_def
  protected_value_def mv_protected_def

lemma sample_strings:
  "be_bytes_nat 4 0 = [0, 0, 0, 0]" "be_bytes_nat 4 (Suc 0) = [0, 0, 0, 1]" "be_bytes_nat 4 2 = [0, 0, 0, 2]"
  "ascii ''a'' = [97]" "utf8_ok [97]" "ascii ''b'' = [98]" "utf8_ok [98]" "length OUTBOX_PREFIX = 23"
  by code_simp+

lemma decode_opening:
  "decode_outbox_payload opening_payload = Ok \<lparr>do_execution_id = replicate 32 0, do_state_writes = [], do_opening = None\<rparr>"
  by (rule outbox_payload_decodes [of "replicate 32 0" "\<lparr>eo_state_writes = [], eo_host_calls = [], eo_opening = None\<rparr>", simplified])
    (simp_all add: sample_bytes sample_strings opening_payload_def)

lemma decode_mixed:
  "decode_outbox_payload mixed_payload = Ok mixed_outcome"
  unfolding mixed_outcome_def
  by (rule outbox_payload_decodes [of "replicate 32 0" "\<lparr>eo_state_writes =
     [\<lparr>cw_state = ''a'', cw_key = [], cw_value = \<lparr>mv_type = TFheUint, mv_bytes = [7]\<rparr>\<rparr>,
      \<lparr>cw_state = ''b'', cw_key = [], cw_value = \<lparr>mv_type = TSint, mv_bytes = [9]\<rparr>\<rparr>], eo_host_calls = [], eo_opening = None\<rparr>", simplified])
    (simp_all add: sample_bytes sample_strings mixed_payload_def numeral_2_eq_2 [symmetric])

lemma zero_text: "hex_text (replicate 32 0) = zero_bytes32"
  by code_simp

lemma trim_6: "str_trim ''6'' = ''6''"
  by code_simp

lemma trim_zero: "str_trim zero_bytes32 = zero_bytes32"
  by code_simp

lemma utf8_6: "utf8_ok (ascii ''6'')"
  by code_simp

lemma utf8_zero: "utf8_ok (ascii zero_bytes32)"
  by code_simp

lemma decode_zero:
  "chain_decode_hex 32 zero_bytes32 = Ok (replicate 32 0)" "chain_decode_hex_bytes zero_bytes32 = Ok (replicate 32 0)"
  by (simp_all add: chain_decode_hex_def chain_decode_hex_bytes_def trim_zero)
    (simp_all add: zero_text [symmetric] hex_text_def strip_prefix_def decode_pairs_hex exI [of _ "hex (replicate 32 0)"])

lemma status_6: "chain_status_from_u8 6 = Ok ExCompleted"
  by (simp add: chain_status_from_u8_def)

lemmas done_strings = zero_text trim_6 trim_zero decode_zero status_6 string_roundtrip [OF utf8_6] string_roundtrip [OF utf8_zero]

lemma parse_6: "parse_usize ''6'' = Some 6"
  by (simp add: parse_usize_def decimal_value_def is_digit_def)

lemma run_done:
  "run_cast done_chain args () = (Ok (if args ! 2 = ''executionStatus(bytes32)(uint8)'' then ''6'' else zero_bytes32), ())"
  by (simp add: run_cast_def done_chain_def done_strings)

lemma publish_opening: "publish_record done_chain \<lparr>or_execution = replicate 32 0, or_payload = opening_payload\<rparr> () = (Ok (), ())"
proof -
  have status: "execution_status done_chain x () = (Ok ExCompleted, ())" for x
    by (simp add: execution_status_def u64_call_def call_def call_target_def cast_or_def run_done done_strings parse_6)
  have storage: "storage_root done_chain () = (Ok zero_bytes32, ())"
    by (simp add: storage_root_def cast_or_def run_done done_strings) (simp add: done_chain_def done_strings)
  have asks: "call done_chain ''executionRequester(bytes32)(address)'' args () = (Ok zero_bytes32, ())"
    "call done_chain ''executionOldStateRoot(bytes32)(bytes32)'' args () = (Ok zero_bytes32, ())" for args
    by (simp_all add: call_def call_target_def cast_or_def run_done)
  have keccak: "cs_keccak done_chain = (\<lambda>_. replicate 32 0)" by (simp add: done_chain_def)
  show ?thesis
    by (simp add: publish_record_def decode_opening Let_def asks output_representation_def storage keccak done_strings
        submit_result_def status update_variables_def fulfill_opening_def)
qed

lemma pending_head: "outbox_head (pending_database payload) = Some (pending_row payload)"
  by (simp add: outbox_head_def pending_database_def pending_row_def first_by_def)

lemma done_chain_fields: "cs_control done_chain = ''c''" "cs_node_id done_chain = ''n''"
  by (simp_all add: done_chain_def)

lemma submitted_opening: "\<exists>db'. submit_pending done_chain ((), pending_database opening_payload) = (Ok True, ((), db'))"
proof -
  have pending: "next_pending_outbox (pending_database opening_payload)
      = (Ok (Some \<lparr>or_execution = replicate 32 0, or_payload = opening_payload\<rparr>), pending_database opening_payload)"
    by (simp add: next_pending_outbox_def statement_def pending_database_def empty_database_def pending_row_def first_by_def fixed_def)
  have "fst (mark_outbox_submitted ''c'' ''n'' (replicate 32 0) (pending_database opening_payload)) = Ok ()"
    by (simp add: mark_outbox_submitted_def statement_def pending_database_def empty_database_def pending_row_def update_rows_def integer_succ_def)
  then show ?thesis by (simp add: submit_pending_def on_store_eq on_chain_eq publish_opening pending done_chain_fields)
qed

lemma daemon_turn_not_Err: "B = PlaintextCrypto \<or> alive \<Longrightarrow> fst (daemon_turn S B manifest alive s) \<noteq> Err e"
  unfolding daemon_turn_def
  by (cases B) (auto simp: ensure_running_def intro!: or_print_not_Err)

lemma daemon_loop_not_Err:
  "B = PlaintextCrypto \<or> list_all fst rounds \<Longrightarrow> fst (daemon_loop S B manifest rounds s) \<noteq> Err e"
proof (induction rounds arbitrary: s)
  case (Cons round rounds)
  obtain r s1 where turn: "daemon_turn S B manifest (fst round) s = (r, s1)" by (metis surjective_pairing)
  then have "r \<noteq> Err e" using daemon_turn_not_Err [of B "fst round" S manifest s e] Cons.prems by auto
  then show ?case using Cons turn by (cases r; cases "snd round s1") auto
qed simp

text \<open>
  C9. Every run of the committee daemon is a sequence of the node's steps, over every chain, every crypto process and every failure
  pattern, with any steps of the listener and the connection between its turns: so every database it ever produces is one whose
  tasks are handled exactly once.  A manifest that the chain does not confirm leaves the database alone; once the manifest is
  confirmed, the listener up and the backend loaded, no error ends the loop, a crypto process that has exited apart.
\<close>

theorem daemon_run_is_node_steps:
  assumes reachable: "node_reachable db" and pauses: "only_node_steps rounds"
    and run: "daemon_main S canonical listener backend manifest rounds (w, db) = (r, (w', db'))"
  shows "node_step\<^sup>*\<^sup>* db db' \<and> node_reachable db' \<and> exactly_once control node db'
    \<and> (fst (verify_manifest S canonical w) \<noteq> Ok () \<longrightarrow> r \<noteq> Ok () \<and> db' = db)
    \<and> (fst (verify_manifest S canonical w) = Ok () \<and> listener = Ok () \<and> backend = Ok B \<and> (B = PlaintextCrypto \<or> list_all fst rounds)
         \<longrightarrow> r = Ok () \<or> r = Panic)"
proof -
  obtain v w1 where v: "verify_manifest S canonical w = (v, w1)" by fastforce
  have loop: "fst (daemon_loop S B manifest rounds s) = Ok () \<or> fst (daemon_loop S B manifest rounds s) = Panic"
    if "B = PlaintextCrypto \<or> list_all fst rounds" for B s
    using daemon_loop_not_Err [OF that, of S manifest s] by (cases "fst (daemon_loop S B manifest rounds s)") auto
  have steps: "steps_to db db'"
    using run v daemon_loop_steps [OF pauses, of db S _ manifest w1] steps_intros(1) [of db]
    by (cases v; cases listener; cases backend) (auto simp: daemon_main_def dest: snd_steps)
  have "fst (verify_manifest S canonical w) \<noteq> Ok () \<Longrightarrow> r \<noteq> Ok () \<and> db' = db"
    using run v by (cases v) (auto simp: daemon_main_def)
  moreover have "r = Ok () \<or> r = Panic" if "fst (verify_manifest S canonical w) = Ok ()" "listener = Ok ()" "backend = Ok B"
      "B = PlaintextCrypto \<or> list_all fst rounds"
    using run v that loop [OF that(4), of "(w1, db)"] by (simp add: daemon_main_def)
  ultimately show ?thesis
    using steps reachable_steps [OF steps reachable] reachable_exactly_once [OF reachable_steps [OF steps reachable]]
    by (simp add: steps_to_def)
qed

lemma verified_done: "fst (verify_manifest done_chain [] ()) = Ok ()"
proof -
  have "map ascii_lower zero_bytes32 = zero_bytes32" by code_simp
  moreover have "cs_keccak done_chain [] = replicate 32 0" by (simp add: done_chain_def)
  ultimately show ?thesis by (simp add: verify_manifest_def call_def call_target_def cast_or_def run_done zero_text split_beta)
qed

theorem daemon_run_is_node_steps_witness:
  "\<exists>r w db. daemon_main done_chain [] (Ok ()) (Ok PlaintextCrypto) (cd_manifest reset_daemon)
     [(True, \<lambda>(w, db). (w, db\<lparr>db_clock := 1\<rparr>)), (False, \<lambda>s. s)] ((), empty_database) = (r, (w, db))
     \<and> exactly_once ''c'' ''n'' db \<and> (r = Ok () \<or> r = Panic)"
proof -
  let ?rounds = "[(True, \<lambda>(w :: unit, db). (w, db\<lparr>db_clock := 1\<rparr>)), (False, \<lambda>s. s)]"
  have pauses: "only_node_steps ?rounds" by (auto simp: only_node_steps_def intro: node_step.tick)
  obtain r w db where run: "daemon_main done_chain [] (Ok ()) (Ok PlaintextCrypto) (cd_manifest reset_daemon) ?rounds ((), empty_database)
      = (r, (w, db))" by (metis surjective_pairing)
  from daemon_run_is_node_steps [OF node_reachable.fresh pauses run, of "''c''" "''n''" PlaintextCrypto] verified_done
  have "exactly_once ''c'' ''n'' db" "r = Ok () \<or> r = Panic" by simp_all
  with run show ?thesis by (intro exI conjI)
qed

text \<open>
  C10. A submission succeeds only if the oldest open entry of the outbox has been published: over every chain and every failure pattern, its
  payload decoded to its own execution and every step on the chain succeeded; then exactly one open entry of this node, one for that
  execution, is marked, and no other table or entry changes.  It is the published entry itself whenever the outbox holds entries of
  this node only, as it does when every node has its own database; otherwise the oldest entry may be another node's, and
  the marked one unpublished.  When a submission does not succeed no table changes.
\<close>

theorem results_marked_once_published:
  assumes unique: "distinct (map entry_key (db_outbox db))" and run: "submit_pending S (w, db) = (r, (w', db'))"
  shows "if r = Ok True then \<exists>row decoded own. outbox_head db = Some row
        \<and> decode_outbox_payload (ob_payload row) = Ok decoded \<and> do_execution_id decoded = ob_execution row
        \<and> publish_record S \<lparr>or_execution = ob_execution row, or_payload = ob_payload row\<rparr> w = (Ok (), w')
        \<and> own \<in> set (db_outbox db) \<and> entry_of (cs_control S) (cs_node_id S) (ob_execution row) own
        \<and> tables db' = tables (db\<lparr>db_outbox := map (\<lambda>r. if r = own then submitted_row r else r) (db_outbox db)\<rparr>)
        \<and> ((\<forall>r \<in> set (db_outbox db). ob_control r = cs_control S \<and> ob_node r = cs_node_id S) \<longrightarrow> own = row)
     else tables db' = tables db"
proof (cases rule: next_pending_cases [of db])
  case (head row db1)
  let ?rcd = "\<lparr>or_execution = ob_execution row, or_payload = ob_payload row\<rparr>"
  obtain p w1 where p: "publish_record S ?rcd w = (p, w1)" by fastforce
  show ?thesis
  proof (cases "p = Ok ()")
    case False
    then show ?thesis using run head p by (cases p) (auto simp: submit_pending_def on_store_eq on_chain_eq)
  next
    case True
    obtain m db2 where mark: "mark_outbox_submitted (cs_control S) (cs_node_id S) (ob_execution row) db1 = (m, db2)" by fastforce
    have same: "db_outbox db1 = db_outbox db" using tables_eqD(5) [OF head(2)] .
    have keep: "tables (db1\<lparr>db_outbox := rows\<rparr>) = tables (db\<lparr>db_outbox := rows\<rparr>)" for rows
      using tables_eqD [OF head(2)] by (intro tables_eqI) simp_all
    note marks = mark_outbox_submitted_cases [OF _ mark, unfolded same, OF unique]
    show ?thesis
    proof (cases "m = Ok ()")
      case False
      then show ?thesis using marks run head p True mark by (cases m) (auto simp: submit_pending_def on_store_eq on_chain_eq)
    next
      case marked: True
      then have after: "tables db2 = tables (db\<lparr>db_outbox := map (marked_submitted (cs_control S) (cs_node_id S) (ob_execution row)) (db_outbox db)\<rparr>)"
        "length (filter (entry_of (cs_control S) (cs_node_id S) (ob_execution row)) (db_outbox db)) = 1" using marks keep by auto
      obtain own where own: "own \<in> set (db_outbox db)" "entry_of (cs_control S) (cs_node_id S) (ob_execution row) own"
        "map (marked_submitted (cs_control S) (cs_node_id S) (ob_execution row)) (db_outbox db)
           = map (\<lambda>r. if r = own then submitted_row r else r) (db_outbox db)"
        "\<forall>r \<in> set (db_outbox db). entry_of (cs_control S) (cs_node_id S) (ob_execution row) r \<longrightarrow> r = own"
        by (rule marked_entry [OF after(2)])
      have "own = row" if "\<forall>r \<in> set (db_outbox db). ob_control r = cs_control S \<and> ob_node r = cs_node_id S"
        using bspec [OF own(4), of row] head_open [OF head(3)] that by (simp add: entry_of_def)
      moreover have "r = Ok True" "w' = w1" "db' = db2" using run head p True mark marked by (auto simp: submit_pending_def on_store_eq on_chain_eq)
      ultimately show ?thesis
        using publish_decodes [of S ?rcd w] p True head(3) own(1,2) after(1) [unfolded own(3)] by auto
    qed
  qed
qed (use run in \<open>auto simp: submit_pending_def on_store_eq\<close>)

theorem results_marked_once_published_witness:
  "\<exists>db'. submit_pending done_chain ((), pending_database opening_payload) = (Ok True, ((), db'))
     \<and> tables db' = tables (pending_database opening_payload\<lparr>db_outbox := [submitted_row (pending_row opening_payload)]\<rparr>)"
proof -
  obtain db' where run: "submit_pending done_chain ((), pending_database opening_payload) = (Ok True, ((), db'))"
    using submitted_opening by blast
  have outbox: "db_outbox (pending_database p) = [pending_row p]" for p by (simp add: pending_database_def)
  have unique: "distinct (map entry_key (db_outbox (pending_database opening_payload)))" by (simp add: outbox)
  have own: "\<forall>r \<in> set (db_outbox (pending_database p)). ob_control r = cs_control done_chain \<and> ob_node r = cs_node_id done_chain" for p
    by (simp add: outbox pending_row_def done_chain_fields)
  from results_marked_once_published [OF unique run, unfolded if_P [OF refl]]
  obtain row entry where row: "outbox_head (pending_database opening_payload) = Some row" "entry = row" and tables: "tables db' =
      tables (pending_database opening_payload\<lparr>db_outbox :=
        map (\<lambda>r. if r = entry then submitted_row r else r) (db_outbox (pending_database opening_payload))\<rparr>)"
    using own [of opening_payload] by blast
  have "entry = pending_row opening_payload" using row unfolding pending_head by (simp only: option.inject)
  then have "map (\<lambda>r. if r = entry then submitted_row r else r) (db_outbox (pending_database opening_payload))
      = [submitted_row (pending_row opening_payload)]" by (simp only: outbox list.map simp_thms if_True)
  with run tables show ?thesis by (intro exI [of _ db'] conjI) (simp_all only:)
qed

text \<open>
  C40. An outcome of mixed types stops the outbox: whenever the oldest open entry's writes are neither all encrypted nor all shared,
  though the runtime computed and queued them, a submission fails,
  publishes nothing (the chain is the same, as queries do not change it) and leaves every table alone, so that the next one fails too.
\<close>

theorem mixed_output_blocks_outbox:
  assumes queries: "\<And>args w. hd args \<noteq> ''send'' \<Longrightarrow> snd (cs_cast S args w) = w"
    and head: "outbox_head db = Some row" and payload: "decode_outbox_payload (ob_payload row) = Ok decoded"
    and mixed: "x \<in> set (do_state_writes decoded)" "mv_type (cw_value x) \<noteq> TFheUint"
      "y \<in> set (do_state_writes decoded)" "mv_type (cw_value y) \<noteq> TSint"
  shows "\<exists>e db'. submit_pending S (w, db) = (Err e, (w, db')) \<and> tables db' = tables db"
proof -
  have asks: "snd (call S signature args w) = w" for signature args w
    using queries by (simp add: call_def call_target_def cast_or_def run_cast_def split_beta split: option.split prod.split)
  have mixed': "do_state_writes decoded \<noteq> []" "\<not> list_all (\<lambda>x. mv_type (cw_value x) = TFheUint) (do_state_writes decoded)"
      "\<not> list_all (\<lambda>x. mv_type (cw_value x) = TSint) (do_state_writes decoded)"
    using mixed by (auto simp: list_all_iff)
  have refused: "\<exists>e. publish_record S \<lparr>or_execution = ob_execution row, or_payload = ob_payload row\<rparr> w = (Err e, w)"
  proof (cases "do_execution_id decoded = ob_execution row")
    case True
    obtain q w1 where q: "call S ''executionRequester(bytes32)(address)'' [hex_text (ob_execution row)] w = (q, w1)" by fastforce
    then have "w1 = w" using asks by (metis snd_conv)
    moreover have "q \<noteq> Panic"
      using q by (auto simp: call_def call_target_def cast_or_def run_cast_def string_of_utf8_def split: prod.splits option.splits if_splits)
    ultimately show ?thesis using q True mixed' payload by (cases q) (simp_all add: publish_record_def output_representation_def Let_def)
  qed (simp add: publish_record_def payload)
  show ?thesis
  proof (cases rule: next_pending_cases [of db])
    case (failed e db1)
    then show ?thesis by (simp add: submit_pending_def on_store_eq)
  next
    case (head row' db1)
    then show ?thesis using refused assms(2) by (auto simp: submit_pending_def on_store_eq on_chain_eq)
  qed (use head in simp)
qed

theorem mixed_output_blocks_outbox_witness:
  "\<exists>e db'. submit_pending done_chain ((), pending_database mixed_payload) = (Err e, ((), db')) \<and> tables db' = tables (pending_database mixed_payload)"
proof -
  have "snd (cs_cast done_chain args w) = w" for args w by simp
  moreover have payload: "decode_outbox_payload (ob_payload (pending_row mixed_payload)) = Ok mixed_outcome"
    by (simp add: decode_mixed pending_row_def)
  ultimately show ?thesis
    by (rule mixed_output_blocks_outbox [OF _ pending_head, where x = "do_state_writes mixed_outcome ! 1" and y = "do_state_writes mixed_outcome ! 0"])
      (simp_all add: mixed_outcome_def)
qed

end
