(* ===== verification/Spec2Isabelle.thy ===== *)
theory Spec2Isabelle
  imports Comparison_Net Packed Balance_Ledger Private_Transfer Workflow Token_Contract
    Queue_Blocking Crypto_Process Upload_Framing Fhe_Manifest Real_Transfer Fhe_Hybrid Balance_Postgres
    Committee_Daemon
begin

text \<open>
  A model of a privacy-preserving smart-contract stack: committees of nodes hold the values of a contract as
  secret shares or ciphertexts, hand them from one committee to the next, compute on them, and run compiled
  confidential contracts against an encrypted state.  Paths are relative to \<open>src/crates\<close>.

  \<^bold>\<open>Conventions\<close> (\<open>Ppsc_Prelude\<close>).  Fallible code returns \<open>res\<close>: \<open>Ok\<close>, \<open>Err\<close> with the code's own error
  type, or \<open>Panic\<close> where Rust panics (an index, an \<open>unwrap\<close>, a slice inside a character).  Code that keeps
  its state when it fails returns the pair of the result and the state, sequenced by \<open>then_do\<close>.  Machine integers
  are words; big integers are \<open>int\<close>; a struct is a record, an enum a datatype; a \<open>str\<close> is the list of its UTF-8
  bytes read as characters.  A \<open>HashMap\<close> that the code never iterates over is a map; a \<open>BTreeMap\<close> is a
  sorted association list (\<open>Ordered_Map\<close>).  Random generators are a step function and a state passed along.

  \<^bold>\<open>Secret sharing\<close> (\<open>crypto/src/mpc\<close>).
  \<^item> \<open>Share_Field\<close>, \<open>Gf256\<close>, \<open>Prime_Field\<close>, \<open>Wide_Field\<close>: the \<open>ShareField\<close> trait as a record of its methods,
    with the locale \<open>share_field\<close> for what callers rely on; \<open>F2\<close> with its multiplication and power loops, proved
    a field; prime fields as the interface of the external \<open>ark-ff\<close> crate (locale \<open>prime_field\<close>: modulus, bit
    size, canonical representative), instantiated at two moduli.
  \<^item> \<open>Polynomials\<close>, \<open>Shamir\<close>: \<open>shamir.rs\<close>.  Splitting and reconstruction are inverse; for every secret the draws of
    a split and the views of any threshold parties correspond one to one; subsets are enumerated in order.
  \<^item> \<open>Prss\<close>, \<open>Handoff_Math\<close>, \<open>Auth\<close>, \<open>Packed\<close>: \<open>prss.rs\<close>, \<open>handoff.rs\<close>, \<open>auth.rs\<close>, \<open>packed.rs\<close>.  Correlated
    masks share one value in two committees; a handoff keeps the secret, a multiplication reduces the degree.
  \<^item> \<open>Conversion\<close>, \<open>S2B\<close>, \<open>Comparison\<close>: \<open>conversion.rs\<close>, \<open>s2b.rs\<close>, \<open>comparison.rs\<close>.  What conversions between
    ciphertexts and shares decode to, that the boolean circuits share the bits, and what a comparison returns
    on every input.

  \<^bold>\<open>Homomorphic encryption\<close> (\<open>fhe/src\<close>).  OpenFHE is reached through a C++ bridge; its calls are the fields of a record.
  \<^item> \<open>Dyn_Field\<close>, \<open>Bfv_Shamir\<close>: \<open>dynamic.rs\<close> and \<open>bfv_shamir.rs\<close>.  Sharings over a modulus chosen at run time, with every
    overflow check of the debug profile; key shares recombine to the key, shared plaintexts to the ciphertext.
  \<^item> \<open>Fhe_Backend\<close>, \<open>Fhe_Manifest\<close>: \<open>real_backend.rs\<close>, the backend over ciphertexts and sharings.  It refines the
    development backend on values in range; where it does not (no underflow check) is stated as well.
  \<^item> \<open>Real_Transfer\<close>: \<open>real_transfer.rs\<close> and \<open>network_conversion.rs\<close>.  The transfer from ciphertexts to ciphertexts opens
    to the moved balances.
  \<^item> \<open>Fhe_Hybrid\<close>: \<open>hybrid.rs\<close> and \<open>shamir_fhe.rs\<close>, fixed-point values through a sharing and the shared CKKS key.

  \<^bold>\<open>Protocol and nodes\<close> (\<open>protocol\<close>, \<open>network\<close>, \<open>node\<close>).
  \<^item> \<open>Handoff_Session\<close>: the session state machine of \<open>protocol/src/handoff.rs\<close>, its methods and the reachable
    sessions; it is safe in every reachable state and refines the mathematical handoff.
  \<^item> \<open>Mailbox\<close>, \<open>Node_Handoff\<close>, \<open>Comparison_Net\<close>: \<open>network/src/memory.rs\<close>, \<open>node/src/handoff_runtime.rs\<close>,
    \<open>node/src/comparison_runtime.rs\<close>.  Messages through mailboxes compute what the local protocols compute.

  \<^bold>\<open>Balances and workflows\<close> (\<open>runtime\<close>).
  \<^item> \<open>Backend\<close>, \<open>Balance_Runtime\<close>, \<open>Balance_Ledger\<close>: \<open>runtime/src/lib.rs\<close>.  The backend traits and the
    development backend (locale \<open>confidential_backend\<close>); every command refines a ledger of plain numbers, assets
    are conserved, and an event is accepted once.
  \<^item> \<open>Balance_Postgres\<close>: \<open>runtime/src/postgres.rs\<close>, the same runtime over tables.  Whatever statements fail, it does to
    the tables what the runtime in memory does to its state, or nothing.
  \<^item> \<open>Private_Transfer\<close>, \<open>Workflow\<close>: \<open>private_transfer.rs\<close> and \<open>workflow.rs\<close>, the program of the paper's example
    and the storage network with its event loop, which ends and whose outputs are the sums asked for.

  \<^bold>\<open>Contracts\<close> (\<open>compiler\<close>, \<open>runtime/src/manifest*.rs\<close>).
  \<^item> \<open>Compiler_Lexer\<close>, \<open>Compiler_Parser\<close>, \<open>Compiler_Lower\<close>: \<open>compiler/src/lib.rs\<close> from bytes to manifests.  Printing
    and parsing a program is the identity; compiled manifests are well typed.
  \<^item> \<open>Manifest_Runtime\<close>: the executor and the development backend (locale \<open>manifest_backend\<close>).  Compiled functions
    never panic, and fail only in the documented ways.
  \<^item> \<open>Token_Contract\<close>: the example contract, compiled and run, against a ledger.
  \<^item> \<open>Postgres_Store\<close>, \<open>Store_Executor\<close>: the Postgres tables and operations, and the executor over any store with
    effects (locale \<open>manifest_store\<close>, interpreted by the in-memory and the Postgres store): the store refines a map
    of cells under every pattern of connection failures.
  \<^item> \<open>Hex_Strings\<close>, \<open>Outbox\<close>: the text and binary formats; the outbox payload decodes to what was encoded.
  \<^item> \<open>Manifest_Daemon\<close>, \<open>Queue_Blocking\<close>: \<open>manifest_daemon.rs\<close>.  A poll of the task queue is one step of a node;
    polls, uploads, submissions and crashes interleave freely (\<open>node_step\<close>).  Tasks are handled exactly once and in
    order, a poll refines one execution of a function, and a task that fails holds up the queue.
  \<^item> \<open>Crypto_Process\<close>: the pipe to the crypto child, which computes what a backend inside the daemon computes.
  \<^item> \<open>Upload\<close>, \<open>Upload_Framing\<close>: \<open>manifest_upload.rs\<close> and the connection handler of
    \<open>bin/manifest_committee_daemon.rs\<close>: only signed uploads are stored, identifiers bind content, the HTTP framing
    survives every fragmentation of the stream and reads a bounded amount.
  \<^item> \<open>Committee_Daemon\<close>: \<open>bin/manifest_committee_daemon.rs\<close> from the check of the manifest to the main loop, over any
    \<open>cast\<close> program.  Every run is a sequence of the node's steps; the oldest entry of the
    outbox is published before an entry of this node is marked, the same one unless nodes share a database.

  \<^bold>\<open>Loops.\<close>  No definition uses fuel.  Each recursion is structural or has a measure: the remaining characters or
  tokens for the lexer and the parser, the exponent or the second factor for the loops of \<open>F2\<close>, the queue
  length for a mailbox, the pending events for \<open>run_until_idle\<close>.  A daemon's endless loop is a step
  relation, or its finite prefixes, one for each list of turns.

  \<^bold>\<open>Parameters.\<close>  HMAC-SHA256, Keccak-256, the prime fields, the random generators, floating-point transfer times,
  the JSON reader, the \<open>cast\<close> program (signature checks, chain queries), OpenFHE and the clock are arguments of the
  definitions.  The predicate \<open>bfv_scheme\<close> states what additions, encryption and decryption do to the slots of a
  ciphertext; it leaves out the growth of noise.  Only collision-freeness is ever stated of a hash, and only as the other horn of a conclusion.

  \<^bold>\<open>Database.\<close>  A statement that fails has done nothing, and a failed transaction leaves the tables as they were; a
  commit whose acknowledgement is lost is not modelled.  Statements run one at a time.

  \<^bold>\<open>Not modelled.\<close>  The bindings \<open>fhe/src/lib.rs\<close> (pointers handed to the C++ bridge), the committee daemon's
  reading of its environment, the workers around the libraries, the traits and identifier types of \<open>core\<close>, \<open>storage\<close> and
  \<open>chain\<close> (no bodies), the generated Solidity gateway, the Solidity contracts, the web front end, the benches.
\<close>

end
